(* ===== verification/Prelude.thy ===== *)
theory Prelude
  imports Main "HOL-Library.Word" "HOL-Library.Monad_Syntax"
begin

text \<open>
  Shared ground of the development: the names of the machine types of the IA-32 target, reads and
  writes of C arrays with the out-of-range case written out, the address arithmetic of aligned
  words, and two generic interfaces that several components interpret.

  A C object of array type is the list of its cells. Reading or writing outside the object is
  undefined in C; the model makes it the value \<open>None\<close>, so that a theorem that an operation returns
  \<open>Some\<close> is at the same time a theorem that it stays inside its objects.
\<close>

unbundle bit_operations_syntax

section \<open>Machine types\<close>

type_synonym byte = "8 word"
type_synonym u16 = "16 word"
type_synonym u32 = "32 word"
type_synonym u64 = "64 word"

text \<open>\<open>uintptr_t\<close> and \<open>size_t\<close> are 32 bits wide on the target.\<close>

type_synonym addr = u32

type_synonym memory = "u32 \<Rightarrow> byte"

named_theorems array_simps \<open>reads and writes of C arrays\<close>
named_theorems mem_simps \<open>loads from an updated byte memory\<close>
named_theorems inv_intros \<open>operations keep the invariant of their component\<close>

section \<open>Arrays\<close>

definition array_get :: "'a list \<Rightarrow> nat \<Rightarrow> 'a option" where
  "array_get xs i = (if i < length xs then Some (xs ! i) else None)"

definition array_set :: "'a list \<Rightarrow> nat \<Rightarrow> 'a \<Rightarrow> 'a list option" where
  "array_set xs i v = (if i < length xs then Some (xs[i := v]) else None)"

lemma array_get_Some [array_simps]: "array_get xs i = Some v \<longleftrightarrow> i < length xs \<and> xs ! i = v"
  by (auto simp: array_get_def)

lemma array_get_None [array_simps]: "array_get xs i = None \<longleftrightarrow> length xs \<le> i"
  by (auto simp: array_get_def)

lemma array_set_Some [array_simps]:
  "array_set xs i v = Some ys \<longleftrightarrow> i < length xs \<and> ys = xs[i := v]"
  by (auto simp: array_set_def)

lemma array_set_None [array_simps]: "array_set xs i v = None \<longleftrightarrow> length xs \<le> i"
  by (auto simp: array_set_def)

text \<open>A string literal of the source as the bytes the compiler stores, without the terminator.\<close>

definition lit :: "string \<Rightarrow> byte list" where
  "lit s = map of_char s"

text \<open>A string literal with its terminating NUL, as an object in memory.\<close>

definition clit :: "string \<Rightarrow> byte list" where
  "clit s = lit s @ [0]"

section \<open>Generic list facts\<close>

lemma takeWhile_eq_self: "(\<And>x. x \<in> set xs \<Longrightarrow> P x) \<Longrightarrow> takeWhile P xs = xs"
  by (simp add: takeWhile_eq_all_conv)

section \<open>Words as naturals\<close>

lemma unat_u32_bound: "unat (x :: u32) < 4294967296"
  using unsigned_less [where ?'a = nat, of x] by simp

lemma unat_u32_of_nat: "k < 4294967296 \<Longrightarrow> unat (of_nat k :: u32) = k"
  by (simp add: unat_of_nat)

lemma unat_u32_plus: "unat x + unat y < 4294967296 \<Longrightarrow> unat (x + y :: u32) = unat x + unat y"
  by (simp add: unat_word_ariths)

section \<open>Runs of a machine\<close>

text \<open>
  A component with state is a step function; a run is a sequence of operations. An invariant that
  every step keeps holds after every run. Components with a closed set of operations interpret this
  interface once, with one law per operation proved beforehand.
\<close>

locale machine =
  fixes step :: "'s \<Rightarrow> 'op \<Rightarrow> 's"
    and inv :: "'s \<Rightarrow> bool"
  assumes step_inv: "inv s \<Longrightarrow> inv (step s x)"
begin

lemma run_inv: "inv s \<Longrightarrow> inv (foldl step s xs)"
  by (induction xs arbitrary: s) (simp_all add: step_inv)

lemma run_prefix_inv: "inv s \<Longrightarrow> inv (foldl step s (take k xs))"
  by (rule run_inv)

end

end
