(* ===== verification/Cstring.thy ===== *)
theory Cstring
  imports Prelude "HOL-Library.Sublist"
begin

text \<open>
  The string library of the kernel and of user programs: \<^verbatim>\<open>src/lib/libc/string\<close>. A pointer into an
  object is the suffix of the object it points to, so \<open>*s\<close> is the head of the list and \<open>s++\<close> its
  tail; reading past the object is \<open>None\<close>. Functions that write return the new contents of the
  destination object. Each definition follows its loop; the lemmas characterise it by the C string
  \<open>cstr\<close> an object holds.

  \<open>char\<close> is signed on IA-32, so a comparison subtracts \<open>sint\<close> values, except in
  \<open>strncmp\<close>, which goes through \<open>unsigned char\<close>.
\<close>

section \<open>The C string held in an object\<close>

definition cstr :: "byte list \<Rightarrow> byte list" where
  "cstr s = takeWhile (\<lambda>c. c \<noteq> 0) s"

definition terminated :: "byte list \<Rightarrow> bool" where
  "terminated s \<longleftrightarrow> 0 \<in> set s"

section \<open>Definitions\<close>

text \<open>\<^verbatim>\<open>strlen.c\<close>\<close>

fun strlen :: "byte list \<Rightarrow> nat option" where
  "strlen [] = None"
| "strlen (c # s) = (if c \<noteq> 0 then map_option Suc (strlen s) else Some 0)"

text \<open>\<^verbatim>\<open>strcmp.c\<close>\<close>

fun strcmp :: "byte list \<Rightarrow> byte list \<Rightarrow> int option" where
  "strcmp (a # s1) (b # s2) =
     (if a \<noteq> 0 \<and> b \<noteq> 0 \<and> a = b then strcmp s1 s2 else Some (sint a - sint b))"
| "strcmp _ _ = None"

text \<open>\<^verbatim>\<open>strncmp.c\<close>: the test \<open>!n\<close> stands before the loop only, the comparison after it.\<close>

fun strncmp_loop :: "byte list \<Rightarrow> byte list \<Rightarrow> nat \<Rightarrow> int option" where
  "strncmp_loop (a # s1) (b # s2) n =
     (if 0 < n \<and> a \<noteq> 0 \<and> a = b then strncmp_loop s1 s2 (n - 1) else Some (uint a - uint b))"
| "strncmp_loop _ _ _ = None"

definition strncmp :: "byte list \<Rightarrow> byte list \<Rightarrow> nat \<Rightarrow> int option" where
  "strncmp s1 s2 n = (if n = 0 then Some 0 else strncmp_loop s1 s2 n)"

text \<open>\<^verbatim>\<open>strcpy.c\<close>: the loop stops at the terminator of the source and does not copy it.\<close>

fun strcpy :: "byte list \<Rightarrow> byte list \<Rightarrow> byte list option" where
  "strcpy d [] = None"
| "strcpy d (c # s) =
     (if c \<noteq> 0 then (case d of [] \<Rightarrow> None | _ # d' \<Rightarrow> map_option ((#) c) (strcpy d' s)) else Some d)"

text \<open>\<^verbatim>\<open>strncpy.c\<close>\<close>

fun strncpy_pad :: "byte list \<Rightarrow> nat \<Rightarrow> byte list option" where
  "strncpy_pad d 0 = Some d"
| "strncpy_pad [] (Suc n) = None"
| "strncpy_pad (_ # d) (Suc n) = map_option ((#) 0) (strncpy_pad d n)"

fun strncpy :: "byte list \<Rightarrow> byte list \<Rightarrow> nat \<Rightarrow> byte list option" where
  "strncpy d s 0 = Some d"
| "strncpy d [] (Suc n) = None"
| "strncpy d (c # s) (Suc n) =
     (if c \<noteq> 0 then (case d of [] \<Rightarrow> None | _ # d' \<Rightarrow> map_option ((#) c) (strncpy d' s n))
      else strncpy_pad d (Suc n))"

text \<open>\<^verbatim>\<open>strcat.c\<close>\<close>

fun strcat_copy :: "byte list \<Rightarrow> byte list \<Rightarrow> byte list option" where
  "strcat_copy d [] = None"
| "strcat_copy [] (c # s) = None"
| "strcat_copy (x # d) (c # s) =
     (if c \<noteq> 0 then map_option ((#) c) (strcat_copy d s) else Some (0 # d))"

fun strcat :: "byte list \<Rightarrow> byte list \<Rightarrow> byte list option" where
  "strcat [] s = None"
| "strcat (x # d) s = (if x \<noteq> 0 then map_option ((#) x) (strcat d s) else strcat_copy (x # d) s)"

text \<open>\<^verbatim>\<open>strncat.c\<close>\<close>

fun strncat_copy :: "byte list \<Rightarrow> byte list \<Rightarrow> nat \<Rightarrow> byte list option" where
  "strncat_copy [] s n = None"
| "strncat_copy (x # d) s 0 = Some (0 # d)"
| "strncat_copy (x # d) [] (Suc n) = None"
| "strncat_copy (x # d) (c # s) (Suc n) =
     (if c \<noteq> 0 then map_option ((#) c) (strncat_copy d s n) else Some (0 # d))"

fun strncat :: "byte list \<Rightarrow> byte list \<Rightarrow> nat \<Rightarrow> byte list option" where
  "strncat [] s n = None"
| "strncat (x # d) s n =
     (if x \<noteq> 0 then map_option ((#) x) (strncat d s n) else strncat_copy (x # d) s n)"

text \<open>\<^verbatim>\<open>strchr.c\<close>: the result is the suffix found, \<open>Some None\<close> for \<open>NULL\<close>.\<close>

fun strchr :: "byte list \<Rightarrow> byte \<Rightarrow> byte list option option" where
  "strchr [] c = None"
| "strchr (x # s) c =
     (if x \<noteq> 0 then if x = c then Some (Some (x # s)) else strchr s c
      else if c = 0 then Some (Some (x # s)) else Some None)"

text \<open>\<^verbatim>\<open>strstr.c\<close>: the inner loop advances \<open>h\<close> and \<open>n\<close> together and answers whether \<open>n\<close> ran out.\<close>

fun strstr_match :: "byte list \<Rightarrow> byte list \<Rightarrow> bool option" where
  "strstr_match (h # hs) (n # ns) =
     (if h \<noteq> 0 \<and> n \<noteq> 0 \<and> h = n then strstr_match hs ns else Some (n = 0))"
| "strstr_match _ _ = None"

fun strstr_loop :: "byte list \<Rightarrow> byte list \<Rightarrow> byte list option option" where
  "strstr_loop [] s2 = None"
| "strstr_loop (x # s1) s2 =
     (if x = 0 then Some None
      else if s2 = [] then None
      else if x \<noteq> hd s2 then strstr_loop s1 s2
      else case strstr_match (x # s1) s2 of
             None \<Rightarrow> None
           | Some True \<Rightarrow> Some (Some (x # s1))
           | Some False \<Rightarrow> strstr_loop s1 s2)"

definition strstr :: "byte list \<Rightarrow> byte list \<Rightarrow> byte list option option" where
  "strstr s1 s2 = (case s2 of [] \<Rightarrow> None | c # _ \<Rightarrow> if c = 0 then Some (Some s1) else strstr_loop s1 s2)"

text \<open>\<^verbatim>\<open>memcpy.c\<close>\<close>

fun memcpy :: "'a list \<Rightarrow> 'a list \<Rightarrow> nat \<Rightarrow> 'a list option" where
  "memcpy d s 0 = Some d"
| "memcpy (_ # d) (c # s) (Suc n) = map_option ((#) c) (memcpy d s n)"
| "memcpy _ _ (Suc n) = None"

text \<open>
  \<^verbatim>\<open>memset.c\<close>: \<open>for (char *sptr = s; n--; *sptr = c);\<close>. The pointer is never advanced, every iteration
  writes the first byte.
\<close>

fun memset :: "byte list \<Rightarrow> byte \<Rightarrow> nat \<Rightarrow> byte list option" where
  "memset s c 0 = Some s"
| "memset [] c (Suc n) = None"
| "memset (_ # s) c (Suc n) = memset (c # s) c n"

text \<open>
  \<^verbatim>\<open>memmove.c\<close>, between two positions \<open>d\<close> and \<open>s\<close> of one object: forwards when the destination is
  below the source, backwards when it is above.
\<close>

fun memmove_up :: "'a list \<Rightarrow> nat \<Rightarrow> nat \<Rightarrow> nat \<Rightarrow> 'a list option" where
  "memmove_up buf d s 0 = Some buf"
| "memmove_up buf d s (Suc n) =
     (case array_get buf s of
        None \<Rightarrow> None
      | Some v \<Rightarrow> (case array_set buf d v of
          None \<Rightarrow> None
        | Some buf' \<Rightarrow> memmove_up buf' (Suc d) (Suc s) n))"

fun memmove_down :: "'a list \<Rightarrow> nat \<Rightarrow> nat \<Rightarrow> nat \<Rightarrow> 'a list option" where
  "memmove_down buf d s 0 = Some buf"
| "memmove_down buf d s (Suc n) =
     (case array_get buf (s + n) of
        None \<Rightarrow> None
      | Some v \<Rightarrow> (case array_set buf (d + n) v of
          None \<Rightarrow> None
        | Some buf' \<Rightarrow> memmove_down buf' d s n))"

definition memmove :: "'a list \<Rightarrow> nat \<Rightarrow> nat \<Rightarrow> nat \<Rightarrow> 'a list option" where
  "memmove buf d s n =
     (if d < s then memmove_up buf d s n
      else if s < d then memmove_down buf d s n
      else Some buf)"

section \<open>Facts about C strings\<close>

lemma cstr_Nil [simp]: "cstr [] = []"
  by (simp add: cstr_def)

lemma cstr_Cons [simp]: "cstr (c # s) = (if c = 0 then [] else c # cstr s)"
  by (simp add: cstr_def)

lemma terminated_Nil [simp]: "\<not> terminated []"
  by (simp add: terminated_def)

lemma terminated_Cons [simp]: "terminated (c # s) \<longleftrightarrow> c = 0 \<or> terminated s"
  by (auto simp: terminated_def)

lemma cstr_nonzero: "c \<in> set (cstr s) \<Longrightarrow> c \<noteq> 0"
  by (auto simp: cstr_def dest: set_takeWhileD)

lemma terminated_append [simp]: "terminated (xs @ ys) \<longleftrightarrow> terminated xs \<or> terminated ys"
  by (auto simp: terminated_def)

lemma cstr_append_terminated: "0 \<notin> set xs \<Longrightarrow> cstr (xs @ 0 # ys) = xs"
  by (induction xs) auto

lemma cstr_length: "length (cstr s) \<le> length s"
  by (simp add: cstr_def length_takeWhile_le)

lemma terminated_length: "terminated s \<Longrightarrow> length (cstr s) < length s"
  by (induction s) auto

lemma terminated_decomp: "terminated s \<Longrightarrow> \<exists>ys. s = cstr s @ 0 # ys"
proof (induction s)
  case (Cons c s)
  then show ?case by (cases "c = 0") auto
qed simp

lemma strlen_eq: "strlen s = (if terminated s then Some (length (cstr s)) else None)"
  by (induction s) auto


section \<open>Comparison\<close>

text \<open>The order of signed characters; \<open>strcmp\<close> decides the lexicographic order of the terminated strings.\<close>

definition char_less :: "(byte \<times> byte) set" where
  "char_less = {(a, b). sint a < sint b}"

lemma strcmp_less_iff:
  assumes "terminated s1" and "terminated s2"
  shows "\<exists>r. strcmp s1 s2 = Some r \<and> (r = 0 \<longleftrightarrow> cstr s1 = cstr s2)
           \<and> (r < 0 \<longleftrightarrow> (cstr s1 @ [0], cstr s2 @ [0]) \<in> lexord char_less)"
  using assms
proof (induction s1 s2 rule: strcmp.induct)
  case (1 a s1 b s2)
  show ?case
  proof (cases "a \<noteq> 0 \<and> b \<noteq> 0 \<and> a = b")
    case True
    with "1.prems" have "terminated s1" "terminated s2" by auto
    from "1.IH" [OF True this] True show ?thesis
      by (auto simp: char_less_def)
  next
    case False
    have inj: "sint a = sint b \<longleftrightarrow> a = b"
      by (auto intro: signed_word_eqI)
    from False show ?thesis
      by (auto simp: char_less_def inj)
  qed
qed auto

lemma strcmp_zero_iff:
  "terminated s1 \<Longrightarrow> terminated s2 \<Longrightarrow> strcmp s1 s2 = Some 0 \<longleftrightarrow> cstr s1 = cstr s2"
  using strcmp_less_iff [of s1 s2] by auto

lemma strncmp_loop_zero_iff:
  "terminated s1 \<Longrightarrow> terminated s2 \<Longrightarrow>
     \<exists>r. strncmp_loop s1 s2 n = Some r \<and> (r = 0 \<longleftrightarrow> take (Suc n) (cstr s1) = take (Suc n) (cstr s2))"
proof (induction s1 s2 n rule: strncmp_loop.induct)
  case (1 a s1 b s2 n)
  show ?case
  proof (cases "0 < n \<and> a \<noteq> 0 \<and> a = b")
    case True
    with "1.prems" have "terminated s1" "terminated s2" by auto
    from "1.IH" [OF True this] True show ?thesis
      by (cases n) auto
  next
    case False
    have inj: "uint a = uint b \<longleftrightarrow> a = b" by (simp add: word_eq_iff_unsigned [where ?'a = int])
    from False show ?thesis by (auto simp: inj)
  qed
qed auto

section \<open>Copying\<close>

lemma strcpy_eq:
  "strcpy d s =
     (if terminated s \<and> length (cstr s) \<le> length d
      then Some (cstr s @ drop (length (cstr s)) d) else None)"
  by (induction d s rule: strcpy.induct) (auto split: list.splits)

lemma strcpy_length: "strcpy d s = Some d' \<Longrightarrow> length d' = length d"
  by (auto simp: strcpy_eq split: if_splits)

lemma strcpy_cstr:
  "strcpy d s = Some d' \<Longrightarrow> cstr d' = cstr s @ cstr (drop (length (cstr s)) d)"
proof -
  assume a: "strcpy d s = Some d'"
  have "\<And>xs ys. 0 \<notin> set xs \<Longrightarrow> cstr (xs @ ys) = xs @ cstr ys"
    subgoal for xs ys by (induction xs) auto done
  moreover have "0 \<notin> set (cstr s)" using cstr_nonzero by blast
  ultimately show ?thesis using a by (auto simp: strcpy_eq split: if_splits)
qed

lemma strncpy_pad_eq:
  "strncpy_pad d n = (if n \<le> length d then Some (replicate n 0 @ drop n d) else None)"
  by (induction d n rule: strncpy_pad.induct) auto

lemma strncpy_eq:
  "strncpy d s n =
     (if (n \<le> length (cstr s) \<or> terminated s) \<and> n \<le> length d
      then Some (take n (cstr s) @ replicate (n - length (cstr s)) 0 @ drop n d) else None)"
  by (induction d s n rule: strncpy.induct)
     (auto simp: strncpy_pad_eq split: list.splits simp del: replicate.simps(2))

lemma strcat_copy_eq:
  "strcat_copy d s =
     (if terminated s \<and> length (cstr s) < length d
      then Some (cstr s @ 0 # drop (Suc (length (cstr s))) d) else None)"
  by (induction d s rule: strcat_copy.induct) auto

lemma strcat_eq:
  "strcat d s =
     (if terminated d \<and> terminated s \<and> length (cstr d) + length (cstr s) < length d
      then Some (cstr d @ cstr s @ 0 # drop (Suc (length (cstr d) + length (cstr s))) d) else None)"
proof (induction d s rule: strcat.induct)
  case (1 s)
  then show ?case by simp
next
  case (2 x d s)
  then show ?case by (cases "x = 0") (auto simp: strcat_copy_eq)
qed

lemma strncat_copy_eq:
  "strncat_copy d s n =
     (if (n \<le> length (cstr s) \<or> terminated s) \<and> min n (length (cstr s)) < length d
      then Some (take n (cstr s) @ 0 # drop (Suc (min n (length (cstr s)))) d) else None)"
  by (induction d s n rule: strncat_copy.induct) auto

lemma strncat_eq:
  "strncat d s n =
     (if terminated d \<and> (n \<le> length (cstr s) \<or> terminated s)
         \<and> length (cstr d) + min n (length (cstr s)) < length d
      then Some (cstr d @ take n (cstr s) @ 0 # drop (Suc (length (cstr d) + min n (length (cstr s)))) d)
      else None)"
proof (induction d s n rule: strncat.induct)
  case (1 s n)
  then show ?case by simp
next
  case (2 x d s n)
  then show ?case by (cases "x = 0") (auto simp: strncat_copy_eq)
qed

lemma memcpy_eq:
  "memcpy d s n =
     (if n \<le> length d \<and> n \<le> length s then Some (take n s @ drop n d) else None)"
  by (induction d s n rule: memcpy.induct) auto

lemma memset_eq:
  "memset s c n = (if n = 0 then Some s else case s of [] \<Rightarrow> None | _ # t \<Rightarrow> Some (c # t))"
proof (induction s c n rule: memset.induct)
  case (3 x s c n)
  then show ?case by (cases n) auto
qed auto


lemma memmove_up_eq:
  "d \<le> s \<Longrightarrow> s + n \<le> length buf \<Longrightarrow>
     memmove_up buf d s n = Some (take d buf @ take n (drop s buf) @ drop (d + n) buf)"
proof (induction buf d s n rule: memmove_up.induct)
  case (1 buf d s)
  then show ?case by simp
next
  case (2 buf d s n)
  let ?b = "buf[d := buf ! s]"
  from "2.prems" have g: "array_get buf s = Some (buf ! s)" "array_set buf d (buf ! s) = Some ?b"
    by (simp_all add: array_simps)
  from "2.prems" have "memmove_up ?b (Suc d) (Suc s) n =
      Some (take (Suc d) ?b @ take n (drop (Suc s) ?b) @ drop (Suc d + n) ?b)"
    by (intro "2.IH" [OF g]) auto
  moreover have "take (Suc d) ?b = take d buf @ [buf ! s]"
    using "2.prems" by (simp add: take_Suc_conv_app_nth)
  moreover have "take (Suc n) (drop s buf) = buf ! s # take n (drop (Suc s) buf)"
    using "2.prems" by (simp add: Cons_nth_drop_Suc [symmetric])
  ultimately show ?case using g "2.prems" by simp
qed

lemma memmove_down_eq:
  "s \<le> d \<Longrightarrow> d + n \<le> length buf \<Longrightarrow>
     memmove_down buf d s n = Some (take d buf @ take n (drop s buf) @ drop (d + n) buf)"
proof (induction buf d s n rule: memmove_down.induct)
  case (1 buf d s)
  then show ?case by simp
next
  case (2 buf d s n)
  let ?b = "buf[d + n := buf ! (s + n)]"
  from "2.prems" have g: "array_get buf (s + n) = Some (buf ! (s + n))"
      "array_set buf (d + n) (buf ! (s + n)) = Some ?b"
    by (simp_all add: array_simps)
  from "2.prems" have "memmove_down ?b d s n =
      Some (take d ?b @ take n (drop s ?b) @ drop (d + n) ?b)"
    by (intro "2.IH" [OF g]) auto
  moreover have "drop (d + n) ?b = buf ! (s + n) # drop (Suc (d + n)) buf"
    using "2.prems" by (simp add: drop_update_swap Cons_nth_drop_Suc [symmetric])
  moreover have "take n (drop s ?b) = take n (drop s buf)"
    using "2.prems" by (simp add: drop_update_swap)
  moreover have "take (Suc n) (drop s buf) = take n (drop s buf) @ [buf ! (s + n)]"
    using "2.prems" by (simp add: take_Suc_conv_app_nth)
  ultimately show ?case using g "2.prems" by simp
qed

lemma memmove_eq:
  "d + n \<le> length buf \<Longrightarrow> s + n \<le> length buf \<Longrightarrow>
     memmove buf d s n = Some (take d buf @ take n (drop s buf) @ drop (d + n) buf)"
  by (auto simp: memmove_def memmove_up_eq memmove_down_eq) (metis append_take_drop_id drop_drop add.commute)

section \<open>Searching\<close>

text \<open>The reference: the least position at which \<open>p\<close> occurs in \<open>xs\<close>.\<close>

fun first_occ :: "'a list \<Rightarrow> 'a list \<Rightarrow> nat option" where
  "first_occ p [] = (if p = [] then Some 0 else None)"
| "first_occ p (x # xs) = (if prefix p (x # xs) then Some 0 else map_option Suc (first_occ p xs))"

lemma first_occ_Some:
  "first_occ p xs = Some i \<Longrightarrow>
     i \<le> length xs \<and> prefix p (drop i xs) \<and> (\<forall>j < i. \<not> prefix p (drop j xs))"
proof (induction xs arbitrary: i)
  case (Cons x xs)
  show ?case
  proof (cases "prefix p (x # xs)")
    case False
    with Cons.prems obtain k where k: "first_occ p xs = Some k" "i = Suc k" by auto
    from Cons.IH [OF k(1)] k False show ?thesis by (auto simp: less_Suc_eq_0_disj)
  qed (use Cons.prems in auto)
qed (auto split: if_splits)

lemma first_occ_None: "first_occ p xs = None \<longleftrightarrow> \<not> sublist p xs"
  by (induction xs) (auto simp: sublist_Cons_right)

lemma strstr_match_eq:
  "terminated h \<Longrightarrow> terminated n \<Longrightarrow> strstr_match h n = Some (prefix (cstr n) (cstr h))"
  by (induction h n rule: strstr_match.induct) auto

lemma strstr_loop_eq:
  assumes "terminated s2" and "cstr s2 \<noteq> []"
  shows "terminated s1 \<Longrightarrow>
    strstr_loop s1 s2 = Some (map_option (\<lambda>i. drop i s1) (first_occ (cstr s2) (cstr s1)))"
proof (induction s1)
  case (Cons x s1)
  have ne: "s2 \<noteq> []" using assms by auto
  have hd: "hd s2 = hd (cstr s2)" using assms by (cases s2) auto
  show ?case
  proof (cases "x = 0")
    case True
    then show ?thesis using assms by simp
  next
    case False
    with Cons.prems have t: "terminated s1" by simp
    have m: "strstr_match (x # s1) s2 = Some (prefix (cstr s2) (cstr (x # s1)))"
      using strstr_match_eq [OF Cons.prems assms(1)] .
    have "x \<noteq> hd s2 \<Longrightarrow> \<not> prefix (cstr s2) (x # cstr s1)"
      using hd assms(2) by (cases "cstr s2") auto
    then show ?thesis using Cons.IH [OF t] False ne m
      by (cases "prefix (cstr s2) (x # cstr s1)") (auto simp: option.map_comp comp_def)
  qed
qed simp

lemma strstr_eq:
  "terminated s1 \<Longrightarrow> terminated s2 \<Longrightarrow>
     strstr s1 s2 = Some (map_option (\<lambda>i. drop i s1) (first_occ (cstr s2) (cstr s1)))"
proof (cases s2)
  case (Cons c s)
  assume t: "terminated s1" "terminated s2"
  show ?thesis
  proof (cases "c = 0")
    case True
    with Cons show ?thesis by (cases "cstr s1") (auto simp: strstr_def)
  next
    case False
    with strstr_loop_eq [OF t(2) _ t(1)] Cons show ?thesis by (simp add: strstr_def)
  qed
qed simp

lemma strchr_eq:
  "terminated s \<Longrightarrow> c \<noteq> 0 \<Longrightarrow>
     strchr s c = Some (map_option (\<lambda>i. drop i s) (first_occ [c] (cstr s)))"
  by (induction s) (auto simp: option.map_comp comp_def)


section \<open>Tables searched by name\<close>

text \<open>
  The loop \<open>for (j = i; n times; j++) if (strcmp(key(j), name) == 0) return j;\<close> that the file cache, the
  directories and the shell's tables share. \<open>key j = None\<close> is an access outside the table.
\<close>

fun find_named :: "(nat \<Rightarrow> byte list option) \<Rightarrow> byte list \<Rightarrow> nat \<Rightarrow> nat \<Rightarrow> nat option option" where
  "find_named key name i 0 = Some None"
| "find_named key name i (Suc n) =
     do { k \<leftarrow> key i;
          r \<leftarrow> strcmp k name;
          if r = 0 then Some (Some i) else find_named key name (Suc i) n }"

definition key_is :: "(nat \<Rightarrow> byte list option) \<Rightarrow> byte list \<Rightarrow> nat \<Rightarrow> bool" where
  "key_is key name j \<longleftrightarrow> (\<exists>k. key j = Some k \<and> cstr k = cstr name)"

lemma find_named_eq:
  "terminated name \<Longrightarrow> (\<And>j. i \<le> j \<Longrightarrow> j < i + n \<Longrightarrow> \<exists>k. key j = Some k \<and> terminated k) \<Longrightarrow>
     find_named key name i n = Some (find (key_is key name) [i..<i + n])"
proof (induction n arbitrary: i)
  case (Suc n)
  obtain k where k: "key i = Some k" "terminated k" using Suc.prems(2) [of i] by auto
  obtain r where r: "strcmp k name = Some r" "r = 0 \<longleftrightarrow> cstr k = cstr name"
    using strcmp_less_iff [OF k(2) Suc.prems(1)] by blast
  have "find_named key name (Suc i) n = Some (find (key_is key name) [Suc i..<Suc i + n])"
    using Suc.prems by (intro Suc.IH) auto
  moreover have "[i..<i + Suc n] = i # [Suc i..<Suc i + n]" by (simp add: upt_conv_Cons del: upt_Suc)
  moreover have "key_is key name i \<longleftrightarrow> cstr k = cstr name" using k by (simp add: key_is_def)
  ultimately show ?case using k r by (simp del: upt_Suc)
qed simp

text \<open>A table as its first \<open>n\<close> keys.\<close>

lemma find_upt_Some:
  "find P [0..<n] = Some j \<longleftrightarrow> j < n \<and> P j \<and> (\<forall>l<j. \<not> P l)"
  by (auto simp: find_Some_iff)

lemma find_upt_None: "find P [0..<n] = None \<longleftrightarrow> (\<forall>j<n. \<not> P j)"
  by (auto simp: find_None_iff)

section \<open>Properties\<close>

text \<open>
  On terminated strings \<open>strcmp\<close> stays inside both objects and returns a value whose sign is the
  lexicographic order of the strings by signed character: zero exactly for equal strings, negative exactly
  when the first is smaller.
\<close>

theorem strcmp_order:
  assumes "terminated s1" "terminated s2"
  shows "\<exists>r. strcmp s1 s2 = Some r \<and> (r = 0 \<longleftrightarrow> cstr s1 = cstr s2)
           \<and> (r < 0 \<longleftrightarrow> (cstr s1 @ [0], cstr s2 @ [0]) \<in> lexord char_less)"
  using assms by (rule strcmp_less_iff)

theorem strcmp_order_witness:
  "strcmp (clit ''mv'') (clit ''mkdir'') = Some 11 \<and> cstr (clit ''mv'') \<noteq> cstr (clit ''mkdir'')"
proof -
  have "strcmp (clit ''mv'') (clit ''mkdir'') = Some 11" by code_simp
  moreover have "terminated (clit ''mv'')" "terminated (clit ''mkdir'')" by (simp_all add: clit_def)
  ultimately show ?thesis using strcmp_order [of "clit ''mv''" "clit ''mkdir''"] by auto
qed

text \<open>
  C31: on terminated strings \<open>strstr\<close> stays inside both objects and returns the suffix of \<open>s1\<close> at the least
  position where \<open>s2\<close> occurs, and \<open>NULL\<close> exactly when \<open>s2\<close> does not occur in \<open>s1\<close>.
\<close>

theorem strstr_first_occurrence:
  assumes "terminated s1" "terminated s2"
  shows "strstr s1 s2 = Some r \<longleftrightarrow>
    (case r of
       None \<Rightarrow> \<not> sublist (cstr s2) (cstr s1)
     | Some t \<Rightarrow> \<exists>i \<le> length (cstr s1). t = drop i s1 \<and> prefix (cstr s2) (drop i (cstr s1))
         \<and> (\<forall>j<i. \<not> prefix (cstr s2) (drop j (cstr s1))))"
proof (cases "first_occ (cstr s2) (cstr s1)")
  case None
  then have "\<not> sublist (cstr s2) (cstr s1)" by (simp add: first_occ_None)
  moreover have "\<not> prefix (cstr s2) (drop i (cstr s1))" for i
    using calculation by (metis prefix_imp_sublist sublist_drop sublist_order.order_trans)
  ultimately show ?thesis using None strstr_eq [OF assms] by (auto split: option.splits)
next
  case (Some k)
  note f = first_occ_Some [OF Some]
  have "sublist (cstr s2) (cstr s1)" using Some first_occ_None [of "cstr s2" "cstr s1"] by auto
  moreover have "i = k" if "prefix (cstr s2) (drop i (cstr s1))" "\<forall>j<i. \<not> prefix (cstr s2) (drop j (cstr s1))" for i
    using that f by (meson linorder_neqE_nat)
  ultimately show ?thesis using Some strstr_eq [OF assms] f by (auto split: option.splits)
qed

theorem strstr_first_occurrence_witness:
  "strstr (clit ''unixlike'') (clit ''like'') = Some (Some (clit ''like''))
   \<and> (\<exists>i \<le> length (cstr (clit ''unixlike'')). clit ''like'' = drop i (clit ''unixlike''))"
proof -
  have "strstr (clit ''unixlike'') (clit ''like'') = Some (Some (clit ''like''))" by code_simp
  moreover have "terminated (clit ''unixlike'')" "terminated (clit ''like'')" by (simp_all add: clit_def)
  ultimately show ?thesis
    using strstr_first_occurrence [of "clit ''unixlike''" "clit ''like''" "Some (clit ''like'')"] by auto
qed

text \<open>
  \<open>strcat\<close> writes outside the destination, or reads outside an operand, exactly when an operand is not
  terminated or the joined string with its terminator does not fit; otherwise the destination holds the
  concatenation, terminated, and the bytes behind it are unchanged.
\<close>

theorem strcat_concatenates:
  "strcat d s =
     (if terminated d \<and> terminated s \<and> length (cstr d) + length (cstr s) < length d
      then Some (cstr d @ cstr s @ 0 # drop (Suc (length (cstr d) + length (cstr s))) d) else None)"
  by (rule strcat_eq)

text \<open>
  \<open>memmove\<close> within one object copies the source range as it was before the call, also when the ranges
  overlap in either direction, and changes nothing outside the destination range.
\<close>

theorem memmove_overlap:
  assumes "d + n \<le> length buf" "s + n \<le> length buf"
  shows "memmove buf d s n = Some (take d buf @ take n (drop s buf) @ drop (d + n) buf)"
  using assms by (rule memmove_eq)

theorem memmove_overlap_witness:
  "memmove [1, 2, 3, 4, 5 :: byte] 1 0 4 = Some [1, 1, 2, 3, 4]"
  using memmove_overlap [of 1 4 "[1, 2, 3, 4, 5 :: byte]" 0] by simp

text \<open>
  \<open>memset\<close> stores the value in the first byte only, whatever the length: its loop never advances the
  pointer.
\<close>

theorem memset_first_byte:
  assumes "0 < n" "n \<le> length s"
  shows "memset s c n = Some (c # tl s)"
  using assms by (cases s) (simp_all add: memset_eq)

theorem memset_first_byte_witness: "memset [1, 2, 3] 0 3 = Some [0, 2, 3]"
  using memset_first_byte [of 3 "[1, 2, 3]" 0] by simp

text \<open>
  \<open>strcpy\<close> copies the characters of the source but not its terminator, so the destination then holds the
  source followed by what was left of the old contents; it holds exactly the source only if the old
  contents had a NUL at that position.
\<close>

theorem strcpy_keeps_tail:
  assumes "terminated s" "length (cstr s) \<le> length d"
  shows "\<exists>d'. strcpy d s = Some d' \<and> cstr d' = cstr s @ cstr (drop (length (cstr s)) d)
    \<and> (cstr d' = cstr s \<longleftrightarrow> length (cstr s) = length d \<or> d ! length (cstr s) = 0)"
proof -
  obtain d' where d': "strcpy d s = Some d'" using assms by (auto simp: strcpy_eq)
  have "cstr (drop (length (cstr s)) d) = [] \<longleftrightarrow> length (cstr s) = length d \<or> d ! length (cstr s) = 0"
    using assms(2) by (cases "length (cstr s) = length d") (auto simp: cstr_def takeWhile_eq_Nil_iff hd_drop_conv_nth)
  then show ?thesis using strcpy_cstr [OF d'] d' by auto
qed

theorem strcpy_keeps_tail_witness:
  "\<exists>d'. strcpy (clit ''notes.txt'') (clit ''a'') = Some d' \<and> cstr d' = lit ''aotes.txt''"
proof -
  have "terminated (clit ''a'')" "length (cstr (clit ''a'')) \<le> length (clit ''notes.txt'')"
    by (simp add: clit_def, code_simp)
  note w = strcpy_keeps_tail [OF this]
  have "cstr (clit ''a'') @ cstr (drop (length (cstr (clit ''a''))) (clit ''notes.txt'')) = lit ''aotes.txt''"
    by code_simp
  with w show ?thesis by auto
qed

text \<open>
  For \<open>n > 0\<close>, \<open>strncmp\<close> answers 0 exactly when the strings agree in their first \<open>n + 1\<close> characters, one
  more than asked for.
\<close>

theorem strncmp_one_more:
  assumes "terminated s1" "terminated s2" "0 < n"
  shows "\<exists>r. strncmp s1 s2 n = Some r \<and> (r = 0 \<longleftrightarrow> take (Suc n) (cstr s1) = take (Suc n) (cstr s2))"
  using strncmp_loop_zero_iff [OF assms(1,2)] assms(3) by (simp add: strncmp_def)

theorem strncmp_one_more_witness:
  "\<exists>r. strncmp (clit ''e x'') (clit ''e '') 2 = Some r \<and> r \<noteq> 0"
proof -
  have "terminated (clit ''e x'')" "terminated (clit ''e '')" by (simp_all add: clit_def)
  moreover have "take 3 (cstr (clit ''e x'')) \<noteq> take 3 (cstr (clit ''e ''))" by code_simp
  ultimately show ?thesis using strncmp_one_more [of "clit ''e x''" "clit ''e ''" 2] by auto
qed

end
