(* ===== verification/Memory.thy ===== *)
theory Memory
  imports Cstring
begin

text \<open>
  Byte-addressed memory with the 32-bit little-endian accesses the kernel makes to page tables and
  heap headers, and the libc block operations applied to memory. The interface \<open>word_memory\<close> states
  the two laws of aligned 32-bit cells; what clients need of several stores in a row is proved inside
  it once and reaches them through its interpretation on \<open>load32\<close> and \<open>store32\<close>.
\<close>

section \<open>Accesses\<close>

definition load32 :: "memory \<Rightarrow> addr \<Rightarrow> u32" where
  "load32 m a =
     ucast (m a) OR push_bit 8 (ucast (m (a + 1))) OR push_bit 16 (ucast (m (a + 2)))
     OR push_bit 24 (ucast (m (a + 3)))"

definition store32 :: "memory \<Rightarrow> addr \<Rightarrow> u32 \<Rightarrow> memory" where
  "store32 m a v =
     m(a := ucast v, a + 1 := ucast (drop_bit 8 v), a + 2 := ucast (drop_bit 16 v),
       a + 3 := ucast (drop_bit 24 v))"

text \<open>\<open>memcpy\<close> into memory, one byte after the other.\<close>

fun mem_write :: "memory \<Rightarrow> addr \<Rightarrow> byte list \<Rightarrow> memory" where
  "mem_write m a [] = m"
| "mem_write m a (b # bs) = mem_write (m(a := b)) (a + 1) bs"

definition mem_read :: "memory \<Rightarrow> addr \<Rightarrow> nat \<Rightarrow> byte list" where
  "mem_read m a n = map (\<lambda>i. m (a + of_nat i)) [0..<n]"

text \<open>\<open>memset\<close> on memory: as in \<^verbatim>\<open>memset.c\<close>, the pointer stays where it is.\<close>

fun mem_memset :: "memory \<Rightarrow> addr \<Rightarrow> byte \<Rightarrow> nat \<Rightarrow> memory" where
  "mem_memset m a c 0 = m"
| "mem_memset m a c (Suc n) = mem_memset (m(a := c)) a c n"

text \<open>
  The bytes of the C string at an address, with their terminator. The loop ends at the first NUL;
  \<open>None\<close> is a memory without one, where the loop of the source would not end.
\<close>

partial_function (option) read_cstr :: "memory \<Rightarrow> addr \<Rightarrow> byte list option" where
  "read_cstr m a =
     (if m a = 0 then Some [0]
      else do { s \<leftarrow> read_cstr m (a + 1); Some (m a # s) })"

lemma mem_memset_eq: "mem_memset m a c n = (if n = 0 then m else m(a := c))"
  by (induction n arbitrary: m) auto

lemma mem_read_length [simp]: "length (mem_read m a n) = n"
  by (simp add: mem_read_def)

section \<open>Aligned cells\<close>

definition aligned4 :: "addr \<Rightarrow> bool" where
  "aligned4 a \<longleftrightarrow> 4 dvd unat a"

lemma aligned4_unat_add:
  assumes "aligned4 a" and "k < 4"
  shows "unat (a + of_nat k) = unat a + k"
proof -
  have "unat a < 4294967296" using unsigned_less [of a] by simp
  with assms have "unat a + k < 4294967296" by (auto simp: aligned4_def)
  then show ?thesis
    by (simp add: unat_word_ariths unat_of_nat)
qed

lemma aligned4_neq:
  assumes "aligned4 a" "aligned4 b" "a \<noteq> b" "j < 4" "k < 4"
  shows "a + of_nat j \<noteq> b + of_nat k"
proof
  assume "a + of_nat j = b + of_nat k"
  then have "unat a + j = unat b + k"
    using assms by (metis aligned4_unat_add)
  with assms have "unat a = unat b"
    unfolding aligned4_def by (auto elim!: dvdE)
  with \<open>a \<noteq> b\<close> show False by (simp add: word_unat_eq_iff)
qed

lemma load32_store32_same: "load32 (store32 m a v) a = v"
proof (rule bit_word_eqI)
  fix n
  assume "n < LENGTH(32)"
  then consider "n < 8" | "8 \<le> n" "n < 16" | "16 \<le> n" "n < 24" | "24 \<le> n" "n < 32" by fastforce
  then show "bit (load32 (store32 m a v) a) n = bit v n"
    by cases (auto simp: load32_def store32_def bit_simps)
qed

lemma load32_store32_other:
  assumes "aligned4 a" "aligned4 b" "a \<noteq> b"
  shows "load32 (store32 m a v) b = load32 m b"
proof -
  have n: "\<And>j k. j < 4 \<Longrightarrow> k < 4 \<Longrightarrow> b + of_nat j \<noteq> a + of_nat k"
    using aligned4_neq [OF assms(2,1)] assms(3) by blast
  from n [of 0 0] n [of 0 1] n [of 0 2] n [of 0 3] n [of 1 0] n [of 1 1] n [of 1 2] n [of 1 3]
    n [of 2 0] n [of 2 1] n [of 2 2] n [of 2 3] n [of 3 0] n [of 3 1] n [of 3 2] n [of 3 3]
  show ?thesis by (simp add: load32_def store32_def)
qed

section \<open>The interface of aligned word memory\<close>

locale word_memory =
  fixes ld :: "'m \<Rightarrow> addr \<Rightarrow> u32"
    and st :: "'m \<Rightarrow> addr \<Rightarrow> u32 \<Rightarrow> 'm"
  assumes ld_st_same: "ld (st m a v) a = v"
    and ld_st_other: "aligned4 a \<Longrightarrow> aligned4 b \<Longrightarrow> a \<noteq> b \<Longrightarrow> ld (st m a v) b = ld m b"
begin

lemma ld_st:
  "aligned4 a \<Longrightarrow> aligned4 b \<Longrightarrow> ld (st m a v) b = (if b = a then v else ld m b)"
  by (auto simp: ld_st_same ld_st_other)

text \<open>A sequence of stores reads back as the last store to the cell.\<close>

lemma ld_st_list:
  "aligned4 b \<Longrightarrow> list_all (\<lambda>w. aligned4 (fst w)) ws \<Longrightarrow>
     ld (foldl (\<lambda>m (a, v). st m a v) m ws) b
     = (case map_of (rev ws) b of None \<Rightarrow> ld m b | Some v \<Rightarrow> v)"
proof (induction ws arbitrary: m rule: rev_induct)
  case (snoc w ws)
  then show ?case by (cases w) (auto simp: ld_st split: option.splits)
qed simp

end

interpretation wm: word_memory load32 store32
  by unfold_locales (simp_all add: load32_store32_same load32_store32_other)

lemmas [mem_simps] = load32_store32_same wm.ld_st

section \<open>Blocks of bytes\<close>

lemma mem_write_other:
  "(\<And>i. i < length bs \<Longrightarrow> x \<noteq> a + of_nat i) \<Longrightarrow> mem_write m a bs x = m x"
proof (induction bs arbitrary: m a)
  case (Cons b bs)
  have "\<And>i. i < length bs \<Longrightarrow> x \<noteq> (a + 1) + of_nat i"
    using Cons.prems [of "Suc i" for i] by (auto simp: algebra_simps)
  then have "mem_write (m(a := b)) (a + 1) bs x = (m(a := b)) x" by (rule Cons.IH)
  moreover have "x \<noteq> a" using Cons.prems [of 0] by simp
  ultimately show ?case by simp
qed simp

lemma mem_write_nth:
  "length bs \<le> 2 ^ 32 \<Longrightarrow> i < length bs \<Longrightarrow> mem_write m a bs (a + of_nat i) = bs ! i"
proof (induction bs arbitrary: m a i)
  case (Cons b bs)
  show ?case
  proof (cases i)
    case 0
    have "mem_write (m(a := b)) (a + 1) bs a = (m(a := b)) a"
    proof (rule mem_write_other)
      fix k assume "k < length bs"
      with Cons.prems have "Suc k < 2 ^ 32" by simp
      then have "(of_nat (Suc k) :: u32) \<noteq> 0"
        by (simp add: word_of_nat_eq_0_iff nat_dvd_not_less del: of_nat_Suc)
      then show "a \<noteq> a + 1 + of_nat k" by (simp add: algebra_simps)
    qed
    with 0 show ?thesis by simp
  next
    case (Suc k)
    have "mem_write (m(a := b)) (a + 1) bs ((a + 1) + of_nat k) = bs ! k"
      using Cons.prems Suc by (intro Cons.IH) auto
    with Suc show ?thesis by (simp add: algebra_simps)
  qed
qed simp

lemma mem_read_write: "length bs \<le> 2 ^ 32 \<Longrightarrow> mem_read (mem_write m a bs) a (length bs) = bs"
  by (rule nth_equalityI) (simp_all add: mem_read_def mem_write_nth)

end
