(* ===== verification/Pmm.thy ===== *)
theory Pmm
  imports Memory
begin

text \<open>
  The physical memory manager of \<^verbatim>\<open>src/kernel/kernel.c\<close>: a bitmap with one bit per 4 KiB page of the
  managed region, set for pages in use. The static variables are the record \<open>pmm\<close>; every function
  that changes them takes and returns it, a returned pointer is an address, 0 for \<open>NULL\<close>.
  The bitmap array itself lives at physical address 2 MiB; it is the list \<open>pmm_bitmap\<close>.

  The lemmas describe the allocator by the set \<open>used_pages\<close> of page indices, and the interface
  \<open>page_allocator\<close> states what the paging, heap and loader code rely on in terms of addresses.
\<close>

section \<open>State and bitmap\<close>

abbreviation PAGE_SIZE :: u32 where "PAGE_SIZE \<equiv> 4096"

record pmm =
  pmm_bitmap :: "byte list"
  pmm_bitmap_size :: u32
  pmm_memory_start :: u32
  pmm_total_memory_pages :: u32
  pmm_available_pages :: u32

definition bitmap_set :: "nat \<Rightarrow> pmm \<Rightarrow> pmm" where
  "bitmap_set b s =
     (if unat (pmm_bitmap_size s) \<le> b div 8 then s
      else s\<lparr>pmm_bitmap := (pmm_bitmap s)[b div 8 := (pmm_bitmap s ! (b div 8)) OR push_bit (b mod 8) 1]\<rparr>)"

definition bitmap_clear :: "nat \<Rightarrow> pmm \<Rightarrow> pmm" where
  "bitmap_clear b s =
     (if unat (pmm_bitmap_size s) \<le> b div 8 then s
      else s\<lparr>pmm_bitmap := (pmm_bitmap s)[b div 8 := (pmm_bitmap s ! (b div 8)) AND NOT (push_bit (b mod 8) 1)]\<rparr>)"

definition bitmap_test :: "nat \<Rightarrow> pmm \<Rightarrow> bool" where
  "bitmap_test b s =
     (if unat (pmm_bitmap_size s) \<le> b div 8 then False
      else drop_bit (b mod 8) (pmm_bitmap s ! (b div 8)) AND 1 \<noteq> 0)"

section \<open>Initialisation from the boot memory map\<close>

record mmap_entry =
  me_addr :: u64
  me_len :: u64
  me_type :: u32

record mmap_tag =
  mt_size :: u32
  mt_entry_size :: u32
  mt_entries :: "mmap_entry list"

abbreviation MULTIBOOT_MEMORY_AVAILABLE :: u32 where "MULTIBOOT_MEMORY_AVAILABLE \<equiv> 1"

text \<open>The loop \<open>for (i = first; n times; i++) bitmap_set(i)\<close>.\<close>

fun bitmap_set_range :: "nat \<Rightarrow> nat \<Rightarrow> pmm \<Rightarrow> pmm" where
  "bitmap_set_range i 0 s = s"
| "bitmap_set_range i (Suc n) s = bitmap_set_range (Suc i) n (bitmap_set i s)"

definition pmm_init_fallback :: pmm where
  "pmm_init_fallback =
     (let total = 1024; bsize = (total + 7) div 8;
          s = \<lparr>pmm_bitmap = replicate (unat bsize) 0, pmm_bitmap_size = bsize,
               pmm_memory_start = 0x100000, pmm_total_memory_pages = total, pmm_available_pages = 0\<rparr>;
          bitmap_page_start = 0x200000 div PAGE_SIZE;
          bitmap_pages = (bsize + PAGE_SIZE - 1) div PAGE_SIZE;
          s = bitmap_set_range (unat bitmap_page_start) (unat bitmap_pages) s
      in s\<lparr>pmm_available_pages := total - bitmap_pages\<rparr>)"

fun largest_region :: "mmap_entry list \<Rightarrow> u32 \<Rightarrow> u32 \<Rightarrow> u32 \<times> u32" where
  "largest_region [] max_addr max_len = (max_addr, max_len)"
| "largest_region (e # es) max_addr max_len =
     (if me_type e = MULTIBOOT_MEMORY_AVAILABLE \<and> me_len e > ucast max_len \<and> me_addr e \<ge> 0x100000
      then largest_region es (ucast (me_addr e)) (ucast (me_len e))
      else largest_region es max_addr max_len)"

definition region_end :: "pmm \<Rightarrow> u32" where
  "region_end s = pmm_memory_start s + pmm_total_memory_pages s * PAGE_SIZE"

text \<open>The loop \<open>for (p = start_page; p < end_page && p < total; p++) bitmap_set(p)\<close>.\<close>

definition reserve_pages :: "u32 \<Rightarrow> u32 \<Rightarrow> pmm \<Rightarrow> pmm" where
  "reserve_pages start_page end_page s =
     bitmap_set_range (unat start_page)
       (min (unat end_page) (unat (pmm_total_memory_pages s)) - unat start_page) s"

definition reserve_bitmap :: "pmm \<Rightarrow> pmm" where
  "reserve_bitmap s =
     (let bitmap_start = 0x200000; bitmap_end = bitmap_start + pmm_bitmap_size s
      in if bitmap_start \<ge> pmm_memory_start s \<and> bitmap_start < region_end s
         then reserve_pages ((bitmap_start - pmm_memory_start s) div PAGE_SIZE)
                ((bitmap_end - pmm_memory_start s + PAGE_SIZE - 1) div PAGE_SIZE) s
         else s)"

definition mark_unavailable :: "mmap_entry \<Rightarrow> pmm \<Rightarrow> pmm" where
  "mark_unavailable e s =
     (if me_type e \<noteq> MULTIBOOT_MEMORY_AVAILABLE then
        let start = ucast (me_addr e);
            endp = ucast (ucast start + me_len e :: u64);
            start = (if start < pmm_memory_start s then pmm_memory_start s else start);
            endp = (if endp > region_end s then region_end s else endp)
        in if start < endp
           then reserve_pages ((start - pmm_memory_start s) div PAGE_SIZE)
                  ((endp - pmm_memory_start s + PAGE_SIZE - 1) div PAGE_SIZE) s
           else s
      else s)"

fun mark_unavailable_all :: "mmap_entry list \<Rightarrow> pmm \<Rightarrow> pmm" where
  "mark_unavailable_all [] s = s"
| "mark_unavailable_all (e # es) s = mark_unavailable_all es (mark_unavailable e s)"

fun count_available :: "nat \<Rightarrow> nat \<Rightarrow> pmm \<Rightarrow> u32 \<Rightarrow> u32" where
  "count_available i 0 s n = n"
| "count_available i (Suc k) s n =
     count_available (Suc i) k s (if \<not> bitmap_test i s then n + 1 else n)"

text \<open>\<open>for (i = 0; i < 2048 && i < total; i++) { bitmap_set(i); pmm_available_pages--; }\<close>\<close>

fun reserve_kernel :: "nat \<Rightarrow> nat \<Rightarrow> pmm \<Rightarrow> pmm" where
  "reserve_kernel i 0 s = s"
| "reserve_kernel i (Suc k) s =
     (let s = bitmap_set i s
      in reserve_kernel (Suc i) k (s\<lparr>pmm_available_pages := pmm_available_pages s - 1\<rparr>))"

definition mmap_num_entries :: "mmap_tag \<Rightarrow> nat" where
  "mmap_num_entries t = unat ((mt_size t - 16) div mt_entry_size t)"

definition pmm_init :: "mmap_tag option \<Rightarrow> pmm" where
  "pmm_init tag =
     (case tag of
        None \<Rightarrow> pmm_init_fallback
      | Some t \<Rightarrow>
          let entries = take (mmap_num_entries t) (mt_entries t);
              (max_addr, max_len) = largest_region entries 0 0
          in if max_len = 0 then pmm_init_fallback
             else
               let total = max_len div PAGE_SIZE;
                   total = (if total > 32768 then 32768 else total);
                   bsize = (total + 7) div 8;
                   s = \<lparr>pmm_bitmap = replicate (unat bsize) 0, pmm_bitmap_size = bsize,
                        pmm_memory_start = max_addr, pmm_total_memory_pages = total,
                        pmm_available_pages = 0\<rparr>;
                   s = reserve_bitmap s;
                   s = mark_unavailable_all entries s;
                   s = s\<lparr>pmm_available_pages := count_available 0 (unat total) s 0\<rparr>
               in reserve_kernel 0 (min 2048 (unat total)) s)"

section \<open>Allocation\<close>

fun first_free :: "nat \<Rightarrow> nat \<Rightarrow> pmm \<Rightarrow> nat option" where
  "first_free i 0 s = None"
| "first_free i (Suc k) s = (if \<not> bitmap_test i s then Some i else first_free (Suc i) k s)"

definition pmm_alloc_page :: "pmm \<Rightarrow> addr \<times> pmm" where
  "pmm_alloc_page s =
     (case first_free 0 (unat (pmm_total_memory_pages s)) s of
        None \<Rightarrow> (0, s)
      | Some i \<Rightarrow>
          let s = bitmap_set i s
          in (pmm_memory_start s + of_nat i * PAGE_SIZE,
              s\<lparr>pmm_available_pages := pmm_available_pages s - 1\<rparr>))"

definition pmm_free_page :: "addr \<Rightarrow> pmm \<Rightarrow> pmm" where
  "pmm_free_page ptr s =
     (if ptr = 0 then s
      else if ptr < pmm_memory_start s \<or> ptr \<ge> region_end s then s
      else
        let page_idx = (ptr - pmm_memory_start s) div PAGE_SIZE
        in if page_idx < pmm_total_memory_pages s \<and> bitmap_test (unat page_idx) s
           then let s = bitmap_clear (unat page_idx) s
                in s\<lparr>pmm_available_pages := pmm_available_pages s + 1\<rparr>
           else s)"

text \<open>The search loop of \<open>pmm_alloc_blocks\<close>: page \<open>i\<close>, the pages left, and the current run.\<close>

fun find_run :: "nat \<Rightarrow> nat \<Rightarrow> nat \<Rightarrow> nat \<Rightarrow> nat \<Rightarrow> pmm \<Rightarrow> nat option" where
  "find_run count i 0 start_page consecutive_free s = None"
| "find_run count i (Suc k) start_page consecutive_free s =
     (if \<not> bitmap_test i s then
        let start_page = (if consecutive_free = 0 then i else start_page);
            consecutive_free = Suc consecutive_free
        in if consecutive_free \<ge> count then Some start_page
           else find_run count (Suc i) k start_page consecutive_free s
      else find_run count (Suc i) k start_page 0 s)"

definition pmm_alloc_blocks :: "u32 \<Rightarrow> pmm \<Rightarrow> addr \<times> pmm" where
  "pmm_alloc_blocks count s =
     (if count = 0 \<or> count > pmm_available_pages s then (0, s)
      else case find_run (unat count) 0 (unat (pmm_total_memory_pages s)) 0 0 s of
             None \<Rightarrow> (0, s)
           | Some start_page \<Rightarrow>
               let s = bitmap_set_range start_page (unat count) s
               in (pmm_memory_start s + of_nat start_page * PAGE_SIZE,
                   s\<lparr>pmm_available_pages := pmm_available_pages s - count\<rparr>))"

text \<open>The loop of \<open>pmm_free_blocks\<close>; the index \<open>start_page + i\<close> is a 32-bit sum.\<close>

fun free_range :: "u32 \<Rightarrow> nat \<Rightarrow> pmm \<Rightarrow> pmm" where
  "free_range i 0 s = s"
| "free_range i (Suc k) s =
     free_range (i + 1) k
       (if bitmap_test (unat i) s
        then let s = bitmap_clear (unat i) s in s\<lparr>pmm_available_pages := pmm_available_pages s + 1\<rparr>
        else s)"

definition pmm_free_blocks :: "addr \<Rightarrow> u32 \<Rightarrow> pmm \<Rightarrow> pmm" where
  "pmm_free_blocks ptr count s =
     (if ptr = 0 \<or> count = 0 then s
      else if ptr < pmm_memory_start s \<or> ptr \<ge> region_end s then s
      else
        let start_page = (ptr - pmm_memory_start s) div PAGE_SIZE;
            count = (if start_page + count > pmm_total_memory_pages s
                     then pmm_total_memory_pages s - start_page else count)
        in free_range start_page (unat count) s)"

definition pmm_alloc_z :: "u32 \<Rightarrow> pmm \<Rightarrow> memory \<Rightarrow> addr \<times> pmm \<times> memory" where
  "pmm_alloc_z sz s m =
     (if sz = 0 then (0, s, m)
      else
        let page_count = (sz + PAGE_SIZE - 1) div PAGE_SIZE;
            (p, s) = pmm_alloc_blocks page_count s
        in if p = 0 then (0, s, m)
           else (p, s, mem_memset m p 0 (unat (page_count * PAGE_SIZE))))"

definition pmm_total_pages :: "pmm \<Rightarrow> u32" where
  "pmm_total_pages s = pmm_total_memory_pages s"

definition pmm_used_pages :: "pmm \<Rightarrow> u32" where
  "pmm_used_pages s = pmm_total_memory_pages s - pmm_available_pages s"

definition pmm_free_pages :: "pmm \<Rightarrow> u32" where
  "pmm_free_pages s = pmm_available_pages s"


section \<open>The bitmap as a set of pages\<close>

definition pmm_wf :: "pmm \<Rightarrow> bool" where
  "pmm_wf s \<longleftrightarrow> length (pmm_bitmap s) = unat (pmm_bitmap_size s)
     \<and> unat (pmm_total_memory_pages s) \<le> 8 * unat (pmm_bitmap_size s)"

abbreviation total_pages :: "pmm \<Rightarrow> nat" where
  "total_pages s \<equiv> unat (pmm_total_memory_pages s)"

definition used_pages :: "pmm \<Rightarrow> nat set" where
  "used_pages s = {i. i < total_pages s \<and> bitmap_test i s}"

definition free_page_set :: "pmm \<Rightarrow> nat set" where
  "free_page_set s = {i. i < total_pages s \<and> \<not> bitmap_test i s}"

lemma bitmap_test_bit:
  "bitmap_test j s \<longleftrightarrow> j div 8 < unat (pmm_bitmap_size s) \<and> bit (pmm_bitmap s ! (j div 8)) (j mod 8)"
  by (simp add: bitmap_test_def bit_iff_odd_drop_bit and_one_eq odd_iff_mod_2_eq_one not_le)

lemma bitmap_frame [simp]:
  "pmm_bitmap_size (bitmap_set i s) = pmm_bitmap_size s"
  "pmm_memory_start (bitmap_set i s) = pmm_memory_start s"
  "pmm_total_memory_pages (bitmap_set i s) = pmm_total_memory_pages s"
  "pmm_available_pages (bitmap_set i s) = pmm_available_pages s"
  "pmm_bitmap_size (bitmap_clear i s) = pmm_bitmap_size s"
  "pmm_memory_start (bitmap_clear i s) = pmm_memory_start s"
  "pmm_total_memory_pages (bitmap_clear i s) = pmm_total_memory_pages s"
  "pmm_available_pages (bitmap_clear i s) = pmm_available_pages s"
  by (simp_all add: bitmap_set_def bitmap_clear_def)

lemma bitmap_test_available [simp]:
  "bitmap_test i (s\<lparr>pmm_available_pages := n\<rparr>) = bitmap_test i s"
  by (simp add: bitmap_test_def)

lemma pmm_wf_bitmap [simp]:
  "pmm_wf (bitmap_set i s) = pmm_wf s"
  "pmm_wf (bitmap_clear i s) = pmm_wf s"
  "pmm_wf (s\<lparr>pmm_available_pages := n\<rparr>) = pmm_wf s"
  by (simp_all add: pmm_wf_def bitmap_set_def bitmap_clear_def)

lemma div_mod_8_eq: "(i::nat) div 8 = j div 8 \<Longrightarrow> i mod 8 = j mod 8 \<Longrightarrow> i = j"
  by (metis div_mult_mod_eq)

lemma bitmap_test_set:
  "pmm_wf s \<Longrightarrow> bitmap_test j (bitmap_set i s) \<longleftrightarrow>
     bitmap_test j s \<or> (j = i \<and> i div 8 < unat (pmm_bitmap_size s))"
  by (cases "i div 8 = j div 8")
     (auto simp: bitmap_test_bit bitmap_set_def pmm_wf_def bit_simps dest: div_mod_8_eq)

lemma bitmap_test_clear:
  "pmm_wf s \<Longrightarrow> bitmap_test j (bitmap_clear i s) \<longleftrightarrow> bitmap_test j s \<and> j \<noteq> i"
  by (cases "i div 8 = j div 8")
     (auto simp: bitmap_test_bit bitmap_clear_def pmm_wf_def bit_simps dest: div_mod_8_eq)

lemma in_bitmap: "pmm_wf s \<Longrightarrow> i < total_pages s \<Longrightarrow> i div 8 < unat (pmm_bitmap_size s)"
  by (auto simp: pmm_wf_def)

lemma used_pages_frame [simp]:
  "used_pages (s\<lparr>pmm_available_pages := n\<rparr>) = used_pages s"
  by (simp add: used_pages_def)

lemma used_pages_set [simp]:
  "pmm_wf s \<Longrightarrow> used_pages (bitmap_set i s) = used_pages s \<union> ({i} \<inter> {..<total_pages s})"
  using in_bitmap by (auto simp: used_pages_def bitmap_test_set)

lemma used_pages_clear [simp]:
  "pmm_wf s \<Longrightarrow> used_pages (bitmap_clear i s) = used_pages s - {i}"
  by (auto simp: used_pages_def bitmap_test_clear)

lemma free_page_set_eq: "free_page_set s = {..<total_pages s} - used_pages s"
  by (auto simp: free_page_set_def used_pages_def)

lemma used_pages_subset: "used_pages s \<subseteq> {..<total_pages s}"
  by (auto simp: used_pages_def)

lemma finite_page_sets [simp]: "finite (used_pages s)" "finite (free_page_set s)"
  by (simp_all add: used_pages_def free_page_set_def)

text \<open>The fields an operation on a range of pages leaves alone.\<close>

lemma set_range_frame [simp]:
  "pmm_bitmap_size (bitmap_set_range i n s) = pmm_bitmap_size s"
  "pmm_memory_start (bitmap_set_range i n s) = pmm_memory_start s"
  "pmm_total_memory_pages (bitmap_set_range i n s) = pmm_total_memory_pages s"
  "pmm_available_pages (bitmap_set_range i n s) = pmm_available_pages s"
  "pmm_wf (bitmap_set_range i n s) = pmm_wf s"
  by (induction i n s rule: bitmap_set_range.induct) simp_all

lemma used_pages_set_range:
  "pmm_wf s \<Longrightarrow> used_pages (bitmap_set_range i n s) = used_pages s \<union> ({i..<i + n} \<inter> {..<total_pages s})"
proof (induction i n s rule: bitmap_set_range.induct)
  case (2 i n s)
  have "{i..<i + Suc n} = insert i {Suc i..<Suc i + n}" by auto
  with 2 show ?case by auto
qed simp

section \<open>Single pages\<close>

lemma first_free_Some:
  "first_free i n s = Some k \<Longrightarrow> i \<le> k \<and> k < i + n \<and> \<not> bitmap_test k s \<and> (\<forall>j. i \<le> j \<and> j < k \<longrightarrow> bitmap_test j s)"
proof (induction i n s rule: first_free.induct)
  case (2 i n s)
  show ?case
  proof (cases "bitmap_test i s")
    case True
    with 2 have "first_free (Suc i) n s = Some k" by simp
    with 2 True show ?thesis by (metis Suc_leI Suc_le_lessD add_Suc_right add_Suc le_eq_less_or_eq less_imp_le)
  qed (use 2 in auto)
qed simp

lemma first_free_None: "first_free i n s = None \<longleftrightarrow> (\<forall>j. i \<le> j \<and> j < i + n \<longrightarrow> bitmap_test j s)"
proof -
  have "first_free i n s = find (\<lambda>j. \<not> bitmap_test j s) [i..<i + n]"
    by (induction i n s rule: first_free.induct) (simp_all add: upt_conv_Cons del: upt_Suc)
  then show ?thesis by (auto simp: find_None_iff)
qed

text \<open>
  The managed region does not wrap around the address space and does not hold address 0; then page
  indices and page addresses correspond one to one and no allocated page is \<open>NULL\<close>. The spare bits
  of the last bitmap byte are clear.
\<close>

definition pmm_ok :: "pmm \<Rightarrow> bool" where
  "pmm_ok s \<longleftrightarrow> pmm_wf s \<and> 0 < unat (pmm_memory_start s)
     \<and> unat (pmm_memory_start s) + total_pages s * 4096 < 2 ^ 32
     \<and> (\<forall>i. bitmap_test i s \<longrightarrow> i < total_pages s)"

definition page_addr :: "pmm \<Rightarrow> nat \<Rightarrow> addr" where
  "page_addr s i = pmm_memory_start s + of_nat i * PAGE_SIZE"

lemma unat_page_addr:
  assumes "pmm_ok s" and "i \<le> total_pages s"
  shows "unat (page_addr s i) = unat (pmm_memory_start s) + i * 4096"
proof -
  have "i * 4096 \<le> total_pages s * 4096" using assms(2) by simp
  with assms(1) have b: "unat (pmm_memory_start s) + i * 4096 < 2 ^ 32" by (simp add: pmm_ok_def)
  then have "unat (of_nat i * PAGE_SIZE) = i * 4096"
    by (simp add: unat_word_ariths unat_of_nat)
  with b show ?thesis by (simp add: page_addr_def unat_word_ariths)
qed

lemma page_addr_inj:
  "pmm_ok s \<Longrightarrow> i < total_pages s \<Longrightarrow> j < total_pages s \<Longrightarrow> page_addr s i = page_addr s j \<longleftrightarrow> i = j"
  using unat_page_addr [of s i] unat_page_addr [of s j] by (metis add_left_cancel less_imp_le mult_cancel2 zero_neq_numeral)

lemma page_addr_nonzero: "pmm_ok s \<Longrightarrow> i < total_pages s \<Longrightarrow> page_addr s i \<noteq> 0"
  using unat_page_addr [of s i] by (auto simp: pmm_ok_def)

lemma pmm_ok_available [simp]: "pmm_ok (s\<lparr>pmm_available_pages := v\<rparr>) = pmm_ok s"
  by (simp add: pmm_ok_def)

lemma pmm_ok_set [inv_intros]: "pmm_ok s \<Longrightarrow> i < total_pages s \<Longrightarrow> pmm_ok (bitmap_set i s)"
  by (auto simp: pmm_ok_def bitmap_test_set)

lemma pmm_ok_clear [inv_intros]: "pmm_ok s \<Longrightarrow> pmm_ok (bitmap_clear i s)"
  by (auto simp: pmm_ok_def bitmap_test_clear)

lemma pmm_ok_set_range [inv_intros]:
  "pmm_ok s \<Longrightarrow> i + n \<le> total_pages s \<Longrightarrow> pmm_ok (bitmap_set_range i n s)"
  by (induction i n s rule: bitmap_set_range.induct) (simp_all add: pmm_ok_set)

lemma used_pages_iff: "pmm_ok s \<Longrightarrow> i \<in> used_pages s \<longleftrightarrow> bitmap_test i s"
  by (auto simp: used_pages_def pmm_ok_def)

lemma page_addr_frame [simp]:
  "page_addr (bitmap_set i s) = page_addr s"
  "page_addr (bitmap_clear i s) = page_addr s"
  "page_addr (bitmap_set_range i n s) = page_addr s"
  "page_addr (s\<lparr>pmm_available_pages := v\<rparr>) = page_addr s"
  by (auto simp: page_addr_def)

lemma pmm_ok_wf: "pmm_ok s \<Longrightarrow> pmm_wf s"
  by (simp add: pmm_ok_def)

lemma pmm_alloc_page_Some:
  assumes "pmm_wf s" and "first_free 0 (total_pages s) s = Some i"
  shows "pmm_alloc_page s =
     (page_addr s i, (bitmap_set i s)\<lparr>pmm_available_pages := pmm_available_pages s - 1\<rparr>)"
  using assms by (simp add: pmm_alloc_page_def page_addr_def Let_def)

lemma pmm_alloc_page_cases:
  assumes "pmm_ok s"
  obtains (full) "pmm_alloc_page s = (0, s)" "free_page_set s = {}"
  | (page) i where "i < total_pages s" "\<not> bitmap_test i s" "\<forall>j<i. bitmap_test j s"
      "pmm_alloc_page s =
         (page_addr s i, (bitmap_set i s)\<lparr>pmm_available_pages := pmm_available_pages s - 1\<rparr>)"
proof (cases "first_free 0 (total_pages s) s")
  case None
  then have "pmm_alloc_page s = (0, s)" by (simp add: pmm_alloc_page_def)
  moreover from None have "free_page_set s = {}" by (auto simp: first_free_None free_page_set_def)
  ultimately show ?thesis by (rule full)
next
  case (Some i)
  with pmm_alloc_page_Some [OF pmm_ok_wf [OF assms] Some] first_free_Some [OF Some] show ?thesis
    by (intro page) auto
qed

text \<open>A page address decodes to its page index, as \<open>pmm_free_page\<close> and \<open>pmm_free_blocks\<close> compute it.\<close>

lemma page_addr_decode:
  assumes ok: "pmm_ok s" and i: "i < total_pages s"
  shows "\<not> page_addr s i < pmm_memory_start s" and "page_addr s i < region_end s"
    and "(page_addr s i - pmm_memory_start s) div PAGE_SIZE = of_nat i"
    and "unat ((page_addr s i - pmm_memory_start s) div PAGE_SIZE) = i"
proof -
  have e: "region_end s = page_addr s (total_pages s)"
    by (simp add: region_end_def page_addr_def)
  have ui: "unat (page_addr s i) = unat (pmm_memory_start s) + i * 4096"
    using unat_page_addr [OF ok] i by simp
  show "\<not> page_addr s i < pmm_memory_start s" by (simp add: word_less_nat_alt ui)
  show "page_addr s i < region_end s"
    using unat_page_addr [OF ok order_refl] i by (simp add: word_less_nat_alt ui e)
  have bi: "i * 4096 < 2 ^ 32"
    using ok i mult_strict_right_mono [of i "total_pages s" 4096] by (simp add: pmm_ok_def)
  then have "unat (of_nat i * PAGE_SIZE) = i * 4096" by (simp add: unat_word_ariths unat_of_nat)
  then have "unat ((page_addr s i - pmm_memory_start s) div PAGE_SIZE) = i"
    by (simp add: page_addr_def unat_div)
  then show "unat ((page_addr s i - pmm_memory_start s) div PAGE_SIZE) = i" .
  then show "(page_addr s i - pmm_memory_start s) div PAGE_SIZE = of_nat i"
    by (metis unsigned_of_nat word_unat_eq_iff of_nat_unat ucast_id)
qed


lemma pmm_free_page_used:
  assumes ok: "pmm_ok s" and i: "i \<in> used_pages s"
  shows "pmm_free_page (page_addr s i) s =
     (bitmap_clear i s)\<lparr>pmm_available_pages := pmm_available_pages s + 1\<rparr>"
proof -
  from i have t: "i < total_pages s" "bitmap_test i s" by (auto simp: used_pages_def)
  note d = page_addr_decode [OF ok t(1)] page_addr_nonzero [OF ok t(1)]
  have lt: "(page_addr s i - pmm_memory_start s) div PAGE_SIZE < pmm_total_memory_pages s"
    using t(1) d(4) by (simp add: word_less_nat_alt)
  have "\<not> (page_addr s i < pmm_memory_start s \<or> page_addr s i \<ge> region_end s)"
    using d(1,2) by simp
  with lt d(4,5) t(2) show ?thesis by (simp add: pmm_free_page_def Let_def)
qed

section \<open>The interface of the page allocator\<close>

text \<open>A client that takes several pages: the addresses in the order they were returned.\<close>

fun alloc_many :: "('s \<Rightarrow> addr \<times> 's) \<Rightarrow> nat \<Rightarrow> 's \<Rightarrow> addr list \<times> 's" where
  "alloc_many al 0 s = ([], s)"
| "alloc_many al (Suc n) s = (let (p, s1) = al s; (ps, s2) = alloc_many al n s1 in (p # ps, s2))"

locale page_allocator =
  fixes alloc :: "'s \<Rightarrow> addr \<times> 's"
    and free :: "addr \<Rightarrow> 's \<Rightarrow> 's"
    and frames :: "'s \<Rightarrow> addr set"
    and used :: "'s \<Rightarrow> addr set"
    and ok :: "'s \<Rightarrow> bool"
  assumes alloc_page: "ok s \<Longrightarrow> alloc s = (p, s') \<Longrightarrow> p \<noteq> 0 \<Longrightarrow>
      p \<in> frames s \<and> p \<notin> used s \<and> used s' = insert p (used s) \<and> frames s' = frames s \<and> ok s'"
    and alloc_null: "ok s \<Longrightarrow> alloc s = (0, s') \<Longrightarrow> s' = s \<and> used s = frames s"
    and free_page: "ok s \<Longrightarrow> p \<in> used s \<Longrightarrow>
      used (free p s) = used s - {p} \<and> frames (free p s) = frames s \<and> ok (free p s)"
begin

lemma alloc_succeeds: "ok s \<Longrightarrow> used s \<noteq> frames s \<Longrightarrow> fst (alloc s) \<noteq> 0"
  by (metis alloc_null prod.collapse)

lemma alloc_then_free:
  "ok s \<Longrightarrow> alloc s = (p, s') \<Longrightarrow> p \<noteq> 0 \<Longrightarrow> used (free p s') = used s"
  using alloc_page [of s p s'] free_page [of s' p] by auto

lemma alloc_keeps_ok: "ok s \<Longrightarrow> alloc s = (p, s') \<Longrightarrow> ok s'"
  by (metis alloc_page alloc_null)

text \<open>Pages taken one after the other are distinct, were free, and are exactly what becomes used.\<close>

lemma alloc_many_fresh:
  "ok s \<Longrightarrow> alloc_many alloc n s = (ps, s') \<Longrightarrow> 0 \<notin> set ps \<Longrightarrow>
     distinct ps \<and> set ps \<inter> used s = {} \<and> set ps \<subseteq> frames s
     \<and> used s' = used s \<union> set ps \<and> frames s' = frames s \<and> ok s'"
proof (induction n arbitrary: s ps)
  case (Suc n)
  from Suc.prems(2) obtain p s1 qs where
    a: "alloc s = (p, s1)" and q: "alloc_many alloc n s1 = (qs, s')" and ps: "ps = p # qs"
    by (auto simp: Let_def split: prod.splits)
  from Suc.prems(3) ps have p: "p \<noteq> 0" and z: "0 \<notin> set qs" by auto
  note 1 = alloc_page [OF Suc.prems(1) a p]
  then have "ok s1" by simp
  note 2 = Suc.IH [OF this q z]
  from 1 2 ps show ?case by auto
qed simp

end

definition used_frames :: "pmm \<Rightarrow> addr set" where
  "used_frames s = page_addr s ` used_pages s"

definition all_frames :: "pmm \<Rightarrow> addr set" where
  "all_frames s = page_addr s ` {..<total_pages s}"

lemma image_minus_page:
  "pmm_ok s \<Longrightarrow> i < total_pages s \<Longrightarrow> page_addr s ` (used_pages s - {i}) = used_frames s - {page_addr s i}"
  using page_addr_inj by (auto simp: used_frames_def used_pages_def)

interpretation pa: page_allocator pmm_alloc_page pmm_free_page all_frames used_frames pmm_ok
proof (unfold_locales, goal_cases)
  case (1 s p s')
  from \<open>pmm_ok s\<close> show ?case
  proof (cases rule: pmm_alloc_page_cases)
    case full
    with 1 show ?thesis by simp
  next
    case (page i)
    with 1 have "p = page_addr s i" "i \<notin> used_pages s" by (auto simp: used_pages_def)
    moreover have "page_addr s i \<notin> used_frames s"
      using page_addr_inj [OF \<open>pmm_ok s\<close> page(1)] page(2)
      by (auto simp: used_frames_def used_pages_def)
    ultimately show ?thesis using 1 page(1,4) pmm_ok_wf [OF \<open>pmm_ok s\<close>]
      by (auto simp: all_frames_def used_frames_def intro: pmm_ok_set)
  qed
next
  case (2 s s')
  from \<open>pmm_ok s\<close> show ?case
  proof (cases rule: pmm_alloc_page_cases)
    case full
    then show ?thesis using 2 used_pages_subset [of s]
      by (auto simp: used_frames_def all_frames_def free_page_set_eq)
  next
    case (page i)
    with 2 page_addr_nonzero [OF \<open>pmm_ok s\<close> page(1)] show ?thesis by simp
  qed
next
  case (3 s p)
  then obtain i where i: "i \<in> used_pages s" "p = page_addr s i" by (auto simp: used_frames_def)
  then have "i < total_pages s" by (simp add: used_pages_def)
  from image_minus_page [OF \<open>pmm_ok s\<close> this] i pmm_free_page_used [OF \<open>pmm_ok s\<close> i(1)]
    pmm_ok_wf [OF \<open>pmm_ok s\<close>] pmm_ok_clear [OF \<open>pmm_ok s\<close>]
  show ?case by (simp add: used_frames_def all_frames_def)
qed


section \<open>Contiguous blocks\<close>

definition free_run :: "pmm \<Rightarrow> nat \<Rightarrow> nat \<Rightarrow> bool" where
  "free_run s count k \<longleftrightarrow> (\<forall>j. k \<le> j \<and> j < k + count \<longrightarrow> \<not> bitmap_test j s)"

text \<open>What holds when the search loop reaches page \<open>i\<close> with a current run of \<open>c\<close> pages.\<close>

definition run_inv :: "pmm \<Rightarrow> nat \<Rightarrow> nat \<Rightarrow> nat \<Rightarrow> nat \<Rightarrow> bool" where
  "run_inv s count i st c \<longleftrightarrow> c < count \<and> c \<le> i \<and> (c = 0 \<or> st = i - c) \<and> free_run s c (i - c)
     \<and> (i = c \<or> bitmap_test (i - c - 1) s) \<and> (\<forall>k. k + count \<le> i \<longrightarrow> \<not> free_run s count k)"

lemma run_inv_used:
  assumes "run_inv s count i st c" "bitmap_test i s"
  shows "run_inv s count (Suc i) st 0"
proof -
  have "\<not> free_run s count k" if "k + count \<le> Suc i" for k
    using assms that by (cases "k + count = Suc i") (auto simp: run_inv_def free_run_def)
  with assms show ?thesis by (auto simp: run_inv_def free_run_def)
qed

lemma run_inv_free:
  assumes "run_inv s count i st c" "\<not> bitmap_test i s" "Suc c < count"
  shows "run_inv s count (Suc i) (if c = 0 then i else st) (Suc c)"
proof -
  have "\<not> free_run s count k" if k: "k + count \<le> Suc i" for k
  proof (cases "k + count = Suc i")
    case True
    with assms(3) have "k \<le> i - c - 1" "i \<noteq> c" by auto
    with assms(1) True show ?thesis by (auto simp: run_inv_def free_run_def)
  qed (use assms(1) k in \<open>auto simp: run_inv_def\<close>)
  moreover have "free_run s (Suc c) (i - c)"
    using assms(1,2) by (auto simp: run_inv_def free_run_def less_Suc_eq)
  ultimately show ?thesis using assms by (auto simp: run_inv_def)
qed

lemma run_inv_found:
  assumes "run_inv s count i st c" "\<not> bitmap_test i s" "Suc c \<ge> count"
  shows "i - c + count = Suc i" and "free_run s count (i - c)" and "\<forall>k < i - c. \<not> free_run s count k"
    and "(if c = 0 then i else st) = i - c"
proof -
  from assms have c: "count = Suc c" "c \<le> i" by (auto simp: run_inv_def)
  then show "i - c + count = Suc i" by simp
  show "free_run s count (i - c)"
    using assms c by (auto simp: run_inv_def free_run_def less_Suc_eq)
  show "\<forall>k < i - c. \<not> free_run s count k"
    using assms(1) c by (auto simp: run_inv_def)
  show "(if c = 0 then i else st) = i - c"
    using assms(1) by (auto simp: run_inv_def)
qed

text \<open>The answer of the search over the first \<open>n\<close> pages: the lowest free run, if there is one.\<close>

definition lowest_run :: "pmm \<Rightarrow> nat \<Rightarrow> nat \<Rightarrow> nat option \<Rightarrow> bool" where
  "lowest_run s count n r \<longleftrightarrow>
     (case r of
        None \<Rightarrow> \<forall>k. k + count \<le> n \<longrightarrow> \<not> free_run s count k
      | Some k \<Rightarrow> k + count \<le> n \<and> free_run s count k \<and> (\<forall>k' < k. \<not> free_run s count k'))"

lemma find_run_spec:
  "run_inv s count i st c \<Longrightarrow> lowest_run s count (i + n) (find_run count i n st c s)"
proof (induction n arbitrary: i st c)
  case 0
  then show ?case by (auto simp: run_inv_def lowest_run_def)
next
  case (Suc n)
  consider "bitmap_test i s" | "\<not> bitmap_test i s" "Suc c < count" | "\<not> bitmap_test i s" "Suc c \<ge> count"
    by linarith
  then show ?case
  proof cases
    case 1
    from Suc.IH [OF run_inv_used [OF Suc.prems 1]] 1 show ?thesis by simp
  next
    case 2
    from Suc.IH [OF run_inv_free [OF Suc.prems 2]] 2 show ?thesis
      by (simp add: Let_def not_le split: if_splits)
  next
    case 3
    from run_inv_found [OF Suc.prems 3] 3 show ?thesis by (simp add: Let_def lowest_run_def)
  qed
qed

lemma find_run_start: "0 < count \<Longrightarrow> lowest_run s count n (find_run count 0 n 0 0 s)"
  using find_run_spec [of s count 0 0 0 n] by (simp add: run_inv_def free_run_def)

lemma pmm_alloc_blocks_cases:
  assumes "pmm_ok s"
  obtains (null) "pmm_alloc_blocks count s = (0, s)"
      "count = 0 \<or> pmm_available_pages s < count \<or> (\<forall>k. k + unat count \<le> total_pages s \<longrightarrow> \<not> free_run s (unat count) k)"
  | (run) k where "0 < count" "count \<le> pmm_available_pages s" "k + unat count \<le> total_pages s"
      "free_run s (unat count) k" "\<forall>k' < k. \<not> free_run s (unat count) k'"
      "pmm_alloc_blocks count s = (page_addr s k,
         (bitmap_set_range k (unat count) s)\<lparr>pmm_available_pages := pmm_available_pages s - count\<rparr>)"
proof (cases "count = 0 \<or> count > pmm_available_pages s")
  case True
  then have "pmm_alloc_blocks count s = (0, s)" by (simp add: pmm_alloc_blocks_def)
  with True show ?thesis by (intro null) auto
next
  case False
  then have pos: "0 < unat count" by (simp add: unat_gt_0)
  note spec = find_run_start [OF pos, of s "total_pages s"]
  show ?thesis
  proof (cases "find_run (unat count) 0 (total_pages s) 0 0 s")
    case None
    with False spec show ?thesis
      by (intro null) (simp_all add: pmm_alloc_blocks_def lowest_run_def)
  next
    case (Some k)
    from False have "0 < count" "count \<le> pmm_available_pages s" by (auto simp: word_neq_0_conv not_less)
    with Some spec show ?thesis
      by (intro run [of k]) (auto simp: pmm_alloc_blocks_def page_addr_def Let_def lowest_run_def)
  qed
qed

section \<open>The count of available pages\<close>

text \<open>
  The difference between the number of clear bits and \<open>pmm_available_pages\<close>, as a 32-bit value.
\<close>

definition pmm_drift :: "pmm \<Rightarrow> u32" where
  "pmm_drift s = of_nat (card (free_page_set s)) - pmm_available_pages s"

lemma of_nat_card_diff:
  "finite A \<Longrightarrow> B \<subseteq> A \<Longrightarrow> (of_nat (card (A - B)) :: u32) = of_nat (card A) - of_nat (card B)"
  by (simp add: card_Diff_subset finite_subset card_mono)

lemma drift_set_range:
  assumes wf: "pmm_wf s" and run: "free_run s n k" and le: "k + n \<le> total_pages s"
  shows "pmm_drift ((bitmap_set_range k n s)\<lparr>pmm_available_pages := pmm_available_pages s - of_nat n\<rparr>)
       = pmm_drift s"
proof -
  have "free_page_set (bitmap_set_range k n s) = free_page_set s - {k..<k + n}"
    using used_pages_set_range [OF wf, of k n] by (auto simp: free_page_set_eq)
  moreover have "{k..<k + n} \<subseteq> free_page_set s"
    using run le by (auto simp: free_page_set_def free_run_def)
  ultimately have "(of_nat (card (free_page_set (bitmap_set_range k n s))) :: u32)
      = of_nat (card (free_page_set s)) - of_nat n"
    using of_nat_card_diff [of "free_page_set s" "{k..<k + n}"] by simp
  then show ?thesis by (simp add: pmm_drift_def free_page_set_def)
qed

lemma drift_clear:
  assumes wf: "pmm_wf s" and i: "i \<in> used_pages s"
  shows "pmm_drift ((bitmap_clear i s)\<lparr>pmm_available_pages := pmm_available_pages s + 1\<rparr>) = pmm_drift s"
proof -
  have "free_page_set (bitmap_clear i s) = insert i (free_page_set s)"
    using i used_pages_clear [OF wf, of i] used_pages_subset [of s] by (auto simp: free_page_set_eq)
  moreover have "i \<notin> free_page_set s" using i by (auto simp: free_page_set_eq)
  ultimately have "card (free_page_set (bitmap_clear i s)) = Suc (card (free_page_set s))" by simp
  then show ?thesis by (simp add: pmm_drift_def free_page_set_def)
qed


text \<open>Every allocation and release keeps the invariant and the drift.\<close>

lemma alloc_page_keeps:
  assumes "pmm_ok s"
  shows "pmm_ok (snd (pmm_alloc_page s)) \<and> pmm_drift (snd (pmm_alloc_page s)) = pmm_drift s"
  using assms
proof (cases rule: pmm_alloc_page_cases)
  case (page i)
  have "free_run s 1 i" using page(2) by (simp add: free_run_def) (metis le_antisym less_Suc_eq_le)
  from drift_set_range [OF pmm_ok_wf [OF assms] this] page pmm_ok_set [OF assms page(1)]
  show ?thesis by simp
qed (use assms in simp)

lemma alloc_blocks_keeps:
  assumes "pmm_ok s"
  shows "pmm_ok (snd (pmm_alloc_blocks count s)) \<and> pmm_drift (snd (pmm_alloc_blocks count s)) = pmm_drift s"
  using assms
proof (cases rule: pmm_alloc_blocks_cases [where count = count])
  case (run k)
  from drift_set_range [OF pmm_ok_wf [OF assms] run(4,3)] pmm_ok_set_range [OF assms run(3)] run(6)
  show ?thesis by simp
qed (use assms in simp)

lemma clear_page_keeps:
  assumes "pmm_ok s" "bitmap_test i s"
  shows "pmm_ok ((bitmap_clear i s)\<lparr>pmm_available_pages := pmm_available_pages s + 1\<rparr>)
    \<and> pmm_drift ((bitmap_clear i s)\<lparr>pmm_available_pages := pmm_available_pages s + 1\<rparr>) = pmm_drift s"
  using assms drift_clear [OF pmm_ok_wf [OF assms(1)], of i] used_pages_iff [OF assms(1)]
  by (simp add: pmm_ok_clear)

lemma free_page_keeps:
  "pmm_ok s \<Longrightarrow> pmm_ok (pmm_free_page p s) \<and> pmm_drift (pmm_free_page p s) = pmm_drift s"
  using clear_page_keeps by (simp add: pmm_free_page_def Let_def)

lemma free_range_keeps:
  "pmm_ok s \<Longrightarrow> pmm_ok (free_range i n s) \<and> pmm_drift (free_range i n s) = pmm_drift s"
proof (induction i n s rule: free_range.induct)
  case (2 i k s)
  from 2 clear_page_keeps [of s "unat i"] show ?case
    by (cases "bitmap_test (unat i) s") (simp_all add: Let_def)
qed simp

lemma free_blocks_keeps:
  "pmm_ok s \<Longrightarrow> pmm_ok (pmm_free_blocks p count s) \<and> pmm_drift (pmm_free_blocks p count s) = pmm_drift s"
  using free_range_keeps by (simp add: pmm_free_blocks_def Let_def)

datatype pmm_op = AllocPage | FreePage addr | AllocBlocks u32 | FreeBlocks addr u32

fun pmm_step :: "pmm \<Rightarrow> pmm_op \<Rightarrow> pmm" where
  "pmm_step s AllocPage = snd (pmm_alloc_page s)"
| "pmm_step s (FreePage p) = pmm_free_page p s"
| "pmm_step s (AllocBlocks n) = snd (pmm_alloc_blocks n s)"
| "pmm_step s (FreeBlocks p n) = pmm_free_blocks p n s"

interpretation pmm_run: machine pmm_step "\<lambda>s. pmm_ok s \<and> pmm_drift s = d" for d
proof (unfold_locales, goal_cases)
  case (1 s x)
  then show ?case
    using alloc_page_keeps alloc_blocks_keeps free_page_keeps free_blocks_keeps
    by (cases x) auto
qed

section \<open>Initialisation\<close>

lemma reserve_pages_frame [simp]:
  "pmm_bitmap_size (reserve_pages a b s) = pmm_bitmap_size s"
  "pmm_memory_start (reserve_pages a b s) = pmm_memory_start s"
  "pmm_total_memory_pages (reserve_pages a b s) = pmm_total_memory_pages s"
  "pmm_available_pages (reserve_pages a b s) = pmm_available_pages s"
  by (simp_all add: reserve_pages_def)

lemma pmm_ok_reserve_pages [inv_intros]: "pmm_ok s \<Longrightarrow> pmm_ok (reserve_pages a b s)"
  unfolding reserve_pages_def
  by (cases "unat a \<le> min (unat b) (total_pages s)") (auto intro: pmm_ok_set_range)

lemma reserve_bitmap_ok [inv_intros]: "pmm_ok s \<Longrightarrow> pmm_ok (reserve_bitmap s)"
  by (simp add: reserve_bitmap_def Let_def pmm_ok_reserve_pages)

lemma mark_unavailable_ok [inv_intros]: "pmm_ok s \<Longrightarrow> pmm_ok (mark_unavailable e s)"
  by (simp add: mark_unavailable_def Let_def pmm_ok_reserve_pages)

lemma mark_unavailable_all_ok [inv_intros]: "pmm_ok s \<Longrightarrow> pmm_ok (mark_unavailable_all es s)"
  by (induction es s rule: mark_unavailable_all.induct) (simp_all add: mark_unavailable_ok)

lemma reserve_bitmap_total [simp]:
  "pmm_total_memory_pages (reserve_bitmap s) = pmm_total_memory_pages s"
  "pmm_total_memory_pages (mark_unavailable e s) = pmm_total_memory_pages s"
  by (simp_all add: reserve_bitmap_def mark_unavailable_def Let_def)

lemma mark_unavailable_all_total [simp]:
  "pmm_total_memory_pages (mark_unavailable_all es s) = pmm_total_memory_pages s"
  by (induction es s rule: mark_unavailable_all.induct) simp_all

lemma count_available_eq:
  "count_available i n s acc = acc + of_nat (card {j. i \<le> j \<and> j < i + n \<and> \<not> bitmap_test j s})"
proof (induction i n s acc rule: count_available.induct)
  case (2 i k s n)
  have "{j. i \<le> j \<and> j < i + Suc k \<and> \<not> bitmap_test j s} =
      (if bitmap_test i s then {} else {i}) \<union> {j. Suc i \<le> j \<and> j < Suc i + k \<and> \<not> bitmap_test j s}"
    by (auto simp: le_eq_less_or_eq)
  moreover have "i \<notin> {j. Suc i \<le> j \<and> j < Suc i + k \<and> \<not> bitmap_test j s}" by simp
  ultimately show ?case using 2 by simp
next
  case (1 i s n)
  have "{j. i \<le> j \<and> j < i + 0 \<and> \<not> bitmap_test j s} = {}" by auto
  then show ?case by (simp only: count_available.simps card.empty) simp
qed

lemma count_available_total: "count_available 0 (total_pages s) s 0 = of_nat (card (free_page_set s))"
  by (simp add: count_available_eq free_page_set_def)

lemma reserve_kernel_eq:
  "reserve_kernel i n s =
     (bitmap_set_range i n s)\<lparr>pmm_available_pages := pmm_available_pages s - of_nat n\<rparr>"
proof (induction i n s rule: reserve_kernel.induct)
  case (2 i k s)
  have one: "bitmap_set j (s\<lparr>pmm_available_pages := v\<rparr>) = (bitmap_set j s)\<lparr>pmm_available_pages := v\<rparr>"
    for j v and s :: pmm
    by (simp add: bitmap_set_def)
  have "bitmap_set_range j m (s\<lparr>pmm_available_pages := v\<rparr>) =
      (bitmap_set_range j m s)\<lparr>pmm_available_pages := v\<rparr>" for j m v and s :: pmm
    by (induction j m s rule: bitmap_set_range.induct) (simp_all add: one)
  with 2 show ?case by (simp add: Let_def algebra_simps)
qed simp

text \<open>
  Reserving the first pages for the kernel decrements the count once per page, also for pages that
  were reserved before: the drift afterwards is their number.
\<close>

lemma reserve_kernel_drift:
  assumes wf: "pmm_wf s" and n: "n \<le> total_pages s" and d: "pmm_drift s = 0"
  shows "pmm_drift (reserve_kernel 0 n s) = of_nat (card (used_pages s \<inter> {..<n}))"
proof -
  let ?F = "free_page_set s" and ?U = "used_pages s \<inter> {..<n}"
  have "used_pages (bitmap_set_range 0 n s) = used_pages s \<union> {0..<0 + n} \<inter> {..<total_pages s}"
    by (rule used_pages_set_range [OF wf])
  also have "\<dots> = used_pages s \<union> {..<n}" using n by (auto simp: atLeast0LessThan)
  finally have "free_page_set (bitmap_set_range 0 n s) = {..<total_pages s} - (used_pages s \<union> {..<n})"
    by (simp only: free_page_set_eq set_range_frame)
  also have "\<dots> = ?F - (?F \<inter> {..<n})" unfolding free_page_set_eq by blast
  finally have "free_page_set (bitmap_set_range 0 n s) = ?F - (?F \<inter> {..<n})" .
  then have 1: "(of_nat (card (free_page_set (bitmap_set_range 0 n s))) :: u32)
      = of_nat (card ?F) - of_nat (card (?F \<inter> {..<n}))"
    using of_nat_card_diff [of ?F "?F \<inter> {..<n}"] by (simp del: Diff_Int2 Diff_Int_distrib2)
  have eq: "(?F \<inter> {..<n}) \<union> ?U = {..<n}" and dis: "(?F \<inter> {..<n}) \<inter> ?U = {}"
    using n by (auto simp: free_page_set_eq)
  have "card ((?F \<inter> {..<n}) \<union> ?U) = card (?F \<inter> {..<n}) + card ?U"
    by (rule card_Un_disjoint) (use dis in simp_all)
  then have "n = card (?F \<inter> {..<n}) + card ?U" by (simp add: eq)
  then have 2: "(of_nat n :: u32) = of_nat (card (?F \<inter> {..<n})) + of_nat (card ?U)"
    using of_nat_add [of "card (?F \<inter> {..<n})" "card ?U", where ?'a = u32] by simp
  from d have "pmm_available_pages s = of_nat (card ?F)" by (simp add: pmm_drift_def)
  with 1 2 show ?thesis by (simp add: reserve_kernel_eq pmm_drift_def free_page_set_def)
qed


text \<open>
  The boot loader's map describes memory below 4 GiB: \<open>pmm_init\<close> keeps addresses and lengths in 32 bits.
\<close>

definition mmap_below_4g :: "mmap_entry list \<Rightarrow> bool" where
  "mmap_below_4g es \<longleftrightarrow> (\<forall>e \<in> set es. unat (me_addr e) + unat (me_len e) < 2 ^ 32)"

definition usable_region :: "u32 \<Rightarrow> u32 \<Rightarrow> bool" where
  "usable_region a l \<longleftrightarrow> 0x100000 \<le> a \<and> unat a + unat l < 2 ^ 32"

lemma unat_ucast_below: "unat (x :: u64) < 2 ^ 32 \<Longrightarrow> unat (ucast x :: u32) = unat x"
  by (simp add: unsigned_ucast_eq take_bit_nat_eq_self_iff)

lemma usable_region_entry:
  assumes "unat (me_addr e) + unat (me_len e) < 2 ^ 32" and "me_addr e \<ge> 0x100000"
  shows "usable_region (ucast (me_addr e)) (ucast (me_len e))"
proof -
  have "unat (ucast (me_addr e) :: u32) = unat (me_addr e)" "unat (ucast (me_len e) :: u32) = unat (me_len e)"
    using assms(1) by (auto intro: unat_ucast_below)
  with assms show ?thesis by (simp add: usable_region_def word_le_nat_alt)
qed

lemma largest_region_usable:
  "mmap_below_4g es \<Longrightarrow> (l = 0 \<or> usable_region a l) \<Longrightarrow>
     (case largest_region es a l of (a', l') \<Rightarrow> l' = 0 \<or> usable_region a' l')"
proof (induction es a l rule: largest_region.induct)
  case (2 e es a l)
  have "unat (me_addr e) + unat (me_len e) < 2 ^ 32" "mmap_below_4g es"
    using "2.prems"(1) by (auto simp: mmap_below_4g_def)
  with 2 usable_region_entry [of e] show ?case by auto
qed auto

definition pmm_start_state :: "u32 \<Rightarrow> u32 \<Rightarrow> pmm" where
  "pmm_start_state a np =
     \<lparr>pmm_bitmap = replicate (unat ((np + 7) div 8)) 0, pmm_bitmap_size = (np + 7) div 8,
      pmm_memory_start = a, pmm_total_memory_pages = np, pmm_available_pages = 0\<rparr>"

lemma pmm_start_state_ok:
  assumes "usable_region a l" and t: "np \<le> l div PAGE_SIZE" "np \<le> 32768"
  shows "pmm_ok (pmm_start_state a np)"
proof -
  have "unat np \<le> unat l div 4096" using t(1) by (simp add: word_le_nat_alt unat_div)
  then have "unat np * 4096 \<le> unat l" by linarith
  moreover have "0x100000 \<le> unat a" "unat a + unat l < 2 ^ 32"
    using assms(1) by (simp_all add: usable_region_def word_le_nat_alt)
  moreover have "unat (np + 7) = unat np + 7"
    using t(2) by (simp add: word_le_nat_alt unat_word_ariths)
  then have "unat ((np + 7) div 8) = (unat np + 7) div 8" by (simp add: unat_div)
  ultimately show ?thesis
    by (auto simp: pmm_ok_def pmm_wf_def pmm_start_state_def bitmap_test_bit)
qed

text \<open>The pages the map says to keep out: the bitmap itself and the unavailable regions.\<close>

definition pmm_reserved :: "mmap_entry list \<Rightarrow> u32 \<Rightarrow> u32 \<Rightarrow> pmm" where
  "pmm_reserved es a np = mark_unavailable_all es (reserve_bitmap (pmm_start_state a np))"

definition region_pages :: "u32 \<Rightarrow> u32" where
  "region_pages l = (if l div PAGE_SIZE > 32768 then 32768 else l div PAGE_SIZE)"

lemma pmm_init_region:
  assumes "take (mmap_num_entries t) (mt_entries t) = es" "largest_region es 0 0 = (a, l)" "l \<noteq> 0"
  shows "pmm_init (Some t) =
     (let s = pmm_reserved es a (region_pages l)
      in reserve_kernel 0 (min 2048 (unat (region_pages l)))
           (s\<lparr>pmm_available_pages := of_nat (card (free_page_set s))\<rparr>))"
  using assms count_available_total [of "pmm_reserved es a (region_pages l)"]
  by (simp add: pmm_init_def pmm_reserved_def pmm_start_state_def region_pages_def Let_def)

lemma pmm_reserved_ok:
  "usable_region a l \<Longrightarrow> pmm_ok (pmm_reserved es a (region_pages l))"
  unfolding pmm_reserved_def
  by (rule mark_unavailable_all_ok [OF reserve_bitmap_ok [OF pmm_start_state_ok]])
     (auto simp: region_pages_def)

lemma pmm_reserved_total [simp]:
  "pmm_total_memory_pages (pmm_reserved es a np) = np"
  by (simp add: pmm_reserved_def pmm_start_state_def)

lemma pmm_init_fallback_ok: "pmm_ok pmm_init_fallback"
  unfolding pmm_init_fallback_def Let_def
  by (simp, rule pmm_ok_set, simp add: pmm_ok_def pmm_wf_def bitmap_test_bit, auto)

lemma pmm_init_region_facts:
  assumes "mmap_below_4g es" "take (mmap_num_entries t) (mt_entries t) = es"
    and "largest_region es 0 0 = (a, l)" "l \<noteq> 0"
  shows "pmm_ok (pmm_init (Some t))"
    and "pmm_drift (pmm_init (Some t)) =
       of_nat (card (used_pages (pmm_reserved es a (region_pages l)) \<inter> {..<2048}))"
proof -
  have u: "usable_region a l" using largest_region_usable [OF assms(1), of 0 0] assms(3,4) by simp
  let ?r = "pmm_reserved es a (region_pages l)" and ?n = "min 2048 (unat (region_pages l))"
  let ?s = "?r\<lparr>pmm_available_pages := of_nat (card (free_page_set ?r))\<rparr>"
  have ok: "pmm_ok ?s" using pmm_reserved_ok [OF u] by simp
  have d: "pmm_drift ?s = 0" by (simp add: pmm_drift_def free_page_set_def)
  have n: "?n \<le> total_pages ?s" by simp
  have i: "pmm_init (Some t) = reserve_kernel 0 ?n ?s"
    using pmm_init_region [OF assms(2-4)] by (simp add: Let_def)
  show "pmm_ok (pmm_init (Some t))"
    using pmm_ok_set_range [OF ok, of 0 ?n] by (simp add: i reserve_kernel_eq)
  have "used_pages ?r \<inter> {..<?n} = used_pages ?r \<inter> {..<2048}"
    using used_pages_subset [of ?r] by auto
  then show "pmm_drift (pmm_init (Some t)) = of_nat (card (used_pages ?r \<inter> {..<2048}))"
    using reserve_kernel_drift [OF pmm_ok_wf [OF ok] n d] by (simp add: i)
qed


section \<open>Releasing blocks\<close>

lemma free_range_frame [simp]:
  "pmm_bitmap_size (free_range i n s) = pmm_bitmap_size s"
  "pmm_memory_start (free_range i n s) = pmm_memory_start s"
  "pmm_total_memory_pages (free_range i n s) = pmm_total_memory_pages s"
  "pmm_wf (free_range i n s) = pmm_wf s"
  by (induction i n s rule: free_range.induct) (simp_all add: Let_def)

lemma bitmap_test_free_range:
  "pmm_wf s \<Longrightarrow> bitmap_test j (free_range i n s) \<longleftrightarrow> bitmap_test j s \<and> (\<forall>k<n. j \<noteq> unat (i + of_nat k))"
proof (induction i n s rule: free_range.induct)
  case (2 i n s)
  have "(\<forall>k<Suc n. j \<noteq> unat (i + of_nat k)) \<longleftrightarrow>
      j \<noteq> unat i \<and> (\<forall>k<n. j \<noteq> unat (i + 1 + of_nat k))"
    by (simp add: All_less_Suc2 algebra_simps)
  with 2 show ?case by (auto simp: Let_def bitmap_test_clear)
qed simp

lemma bitmap_test_set_range:
  assumes "pmm_ok s" "k + n \<le> total_pages s"
  shows "bitmap_test j (bitmap_set_range k n s) \<longleftrightarrow> bitmap_test j s \<or> j \<in> {k..<k + n}"
proof -
  have "{k..<k + n} \<inter> {..<total_pages s} = {k..<k + n}" using assms(2) by auto
  then show ?thesis
    using used_pages_set_range [OF pmm_ok_wf [OF assms(1)], of k n]
      used_pages_iff [OF assms(1)] used_pages_iff [OF pmm_ok_set_range [OF assms]] by blast
qed

text \<open>Two allocator states with the same parameters and the same bits are equal.\<close>

lemma pmm_eqI:
  fixes s s' :: pmm
  assumes "pmm_wf s" "pmm_wf s'" "pmm_bitmap_size s = pmm_bitmap_size s'"
    "pmm_memory_start s = pmm_memory_start s'" "pmm_total_memory_pages s = pmm_total_memory_pages s'"
    "pmm_available_pages s = pmm_available_pages s'" and t: "\<And>j. bitmap_test j s = bitmap_test j s'"
  shows "s = s'"
proof -
  have "pmm_bitmap s = pmm_bitmap s'"
  proof (rule nth_equalityI)
    show "length (pmm_bitmap s) = length (pmm_bitmap s')" using assms by (simp add: pmm_wf_def)
    fix i assume i: "i < length (pmm_bitmap s)"
    show "pmm_bitmap s ! i = pmm_bitmap s' ! i"
    proof (rule bit_word_eqI)
      fix n assume n: "n < LENGTH(8)"
      then have "(8 * i + n) div 8 = i" "(8 * i + n) mod 8 = n" by simp_all
      with t [of "8 * i + n"] i assms(1-3) show "bit (pmm_bitmap s ! i) n = bit (pmm_bitmap s' ! i) n"
        by (simp add: bitmap_test_bit pmm_wf_def)
    qed
  qed
  with assms show ?thesis by (cases s; cases s') simp
qed

text \<open>With the drift unchanged, the number of available pages follows from the bits.\<close>

lemma available_from_drift:
  assumes "pmm_drift s = pmm_drift s'" "free_page_set s = free_page_set s'"
  shows "pmm_available_pages s = pmm_available_pages s'"
  using assms by (simp add: pmm_drift_def)

lemma free_blocks_run:
  assumes ok: "pmm_ok s" and k: "k + unat count \<le> total_pages s" "0 < count"
  shows "pmm_free_blocks (page_addr s k) count s = free_range (of_nat k) (unat count) s"
proof -
  have kt: "k < total_pages s" using k by (simp add: word_less_nat_alt)
  note d = page_addr_decode [OF ok kt] page_addr_nonzero [OF ok kt]
  have "unat (of_nat k + count) = k + unat count"
    using k unat_u32_bound [of "pmm_total_memory_pages s"] kt by (simp add: unat_word_ariths unat_of_nat)
  then have "\<not> of_nat k + count > pmm_total_memory_pages s"
    using k by (simp add: word_less_nat_alt)
  moreover have "\<not> region_end s \<le> page_addr s k" using d(2) by simp
  moreover have "count \<noteq> 0" using k(2) by auto
  ultimately show ?thesis using d(1,3,5) by (simp add: pmm_free_blocks_def Let_def)
qed

lemma alloc_free_blocks:
  assumes ok: "pmm_ok s" and a: "pmm_alloc_blocks count s = (p, s')" "p \<noteq> 0"
  shows "pmm_free_blocks p count s' = s"
  using ok
proof (cases rule: pmm_alloc_blocks_cases [where count = count])
  case null
  with a show ?thesis by simp
next
  case (run k)
  from run(6) a have p: "p = page_addr s' k" and s': "s' = (bitmap_set_range k (unat count) s)\<lparr>
      pmm_available_pages := pmm_available_pages s - count\<rparr>" by simp_all
  have ok': "pmm_ok s'" using pmm_ok_set_range [OF ok run(3)] by (simp add: s')
  have t': "total_pages s' = total_pages s" by (simp add: s')
  have drift: "pmm_drift s' = pmm_drift s" using alloc_blocks_keeps [OF ok, of count] run(6) s' by simp
  let ?f = "free_range (of_nat k) (unat count) s'"
  have f: "pmm_free_blocks p count s' = ?f"
    using free_blocks_run [OF ok', of k count] run(1,3) by (simp add: p t')
  have idx: "unat (of_nat k + of_nat j :: u32) = k + j" if "j < unat count" for j
    using that run(3) unat_u32_bound [of "pmm_total_memory_pages s"] by (simp add: unat_word_ariths unat_of_nat)
  have bits: "bitmap_test j ?f = bitmap_test j s" for j
  proof -
    have "(\<forall>i<unat count. j \<noteq> unat (of_nat k + of_nat i :: u32)) \<longleftrightarrow> j \<notin> {k..<k + unat count}"
      by (auto simp: idx) (metis le_add_diff_inverse less_diff_conv2 add.commute)
    then show ?thesis
      using bitmap_test_free_range [OF pmm_ok_wf [OF ok'], of j "of_nat k" "unat count"]
        bitmap_test_set_range [OF ok run(3), of j] run(4)
      by (auto simp: s' free_run_def)
  qed
  have "?f = s"
  proof (rule pmm_eqI)
    show "pmm_available_pages ?f = pmm_available_pages s"
      using free_range_keeps [OF ok', of "of_nat k" "unat count"] drift bits
      by (intro available_from_drift) (simp_all add: free_page_set_def t')
  qed (use bits ok ok' in \<open>simp_all add: s' pmm_ok_wf\<close>)
  with f show ?thesis by simp
qed


section \<open>Properties\<close>

lemma pmm_init_fallback_fields [simp]:
  "pmm_memory_start pmm_init_fallback = 0x100000" "pmm_total_memory_pages pmm_init_fallback = 1024"
  "pmm_available_pages pmm_init_fallback = 1023"
  by (simp_all add: pmm_init_fallback_def Let_def)

lemma bitmap_test_fallback: "bitmap_test j pmm_init_fallback \<longleftrightarrow> j = 512"
proof -
  let ?z = "\<lparr>pmm_bitmap = replicate 128 0, pmm_bitmap_size = 128, pmm_memory_start = 0x100000,
    pmm_total_memory_pages = 1024, pmm_available_pages = 0\<rparr> :: pmm"
  have "bitmap_test j pmm_init_fallback = bitmap_test j (bitmap_set 512 ?z)"
    by (simp add: pmm_init_fallback_def Let_def)
  moreover have "pmm_wf ?z" by (simp add: pmm_wf_def)
  moreover have "\<not> bitmap_test j ?z" by (simp add: bitmap_test_bit)
  ultimately show ?thesis by (simp add: bitmap_test_set)
qed

lemma fallback_free_run: "free_run pmm_init_fallback 257 0"
  by (simp add: free_run_def bitmap_test_fallback)

lemma lowest_frame:
  assumes "pmm_ok s" "i < total_pages s" "\<forall>j<i. bitmap_test j s" "q \<in> all_frames s - used_frames s"
  shows "page_addr s i \<le> q"
proof -
  from assms(4) obtain j where j: "j < total_pages s" "q = page_addr s j" "\<not> bitmap_test j s"
    by (auto simp: all_frames_def used_frames_def used_pages_def)
  with assms(3) have "i \<le> j" by (meson not_le)
  with j assms(1,2) show ?thesis by (simp add: word_le_nat_alt unat_page_addr)
qed

text \<open>
  C3: \<open>pmm_alloc_page\<close> returns the lowest free page of the managed region, marks exactly that page used
  and keeps the allocator well formed; it returns \<open>NULL\<close> and changes nothing exactly when every page is
  in use.
\<close>

theorem pmm_alloc_page_spec:
  assumes "pmm_ok s"
  shows "case pmm_alloc_page s of (p, s') \<Rightarrow>
      if used_frames s = all_frames s then p = 0 \<and> s' = s
      else p \<noteq> 0 \<and> p \<in> all_frames s - used_frames s \<and> (\<forall>q \<in> all_frames s - used_frames s. p \<le> q)
        \<and> used_frames s' = insert p (used_frames s) \<and> all_frames s' = all_frames s \<and> pmm_ok s'"
  using assms
proof (cases rule: pmm_alloc_page_cases)
  case full
  then show ?thesis using pa.alloc_null [OF assms full(1)] by simp
next
  case (page i)
  then show ?thesis
    using pa.alloc_page [OF assms page(4) page_addr_nonzero [OF assms page(1)]]
      page_addr_nonzero [OF assms page(1)] lowest_frame [OF assms page(1) page(3)]
    by auto
qed

theorem pmm_alloc_page_spec_witness:
  "pmm_ok pmm_init_fallback \<and> (case pmm_alloc_page pmm_init_fallback of (p, s') \<Rightarrow>
      p = 0x100000 \<and> used_frames s' = insert 0x100000 (used_frames pmm_init_fallback))"
proof -
  have "bitmap_test 0 pmm_init_fallback = False" by code_simp
  then have "page_addr pmm_init_fallback 0 \<notin> used_frames pmm_init_fallback"
    using page_addr_inj [OF pmm_init_fallback_ok] by (auto simp: used_frames_def used_pages_def)
  moreover have "page_addr pmm_init_fallback 0 \<in> all_frames pmm_init_fallback"
    unfolding all_frames_def by (rule imageI) (simp add: pmm_init_fallback_def Let_def)
  ultimately have "used_frames pmm_init_fallback \<noteq> all_frames pmm_init_fallback" by blast
  moreover have "fst (pmm_alloc_page pmm_init_fallback) = 0x100000" by code_simp
  ultimately show ?thesis
    using pmm_alloc_page_spec [OF pmm_init_fallback_ok] pmm_init_fallback_ok by (auto split: prod.splits)
qed

text \<open>
  Pages taken one after the other are pairwise distinct and were all free before, and releasing a
  page that was just taken gives back the previous set of used pages.
\<close>

theorem pmm_alloc_distinct:
  assumes "pmm_ok s" "alloc_many pmm_alloc_page n s = (ps, s')" "0 \<notin> set ps"
  shows "distinct ps \<and> set ps \<inter> used_frames s = {} \<and> used_frames s' = used_frames s \<union> set ps
    \<and> (\<forall>q s''. pmm_alloc_page s' = (q, s'') \<and> q \<noteq> 0 \<longrightarrow>
          q \<notin> set ps \<and> used_frames (pmm_free_page q s'') = used_frames s')"
proof -
  note 1 = pa.alloc_many_fresh [OF assms]
  then have ok: "pmm_ok s'" by simp
  show ?thesis using 1 pa.alloc_page [OF ok] pa.alloc_then_free [OF ok] by blast
qed

theorem pmm_alloc_distinct_witness:
  "case alloc_many pmm_alloc_page 2 pmm_init_fallback of (ps, s') \<Rightarrow>
     ps = [0x100000, 0x101000] \<and> distinct ps \<and> used_frames s' = used_frames pmm_init_fallback \<union> set ps"
proof -
  have e: "fst (alloc_many pmm_alloc_page 2 pmm_init_fallback) = [0x100000, 0x101000]" by code_simp
  then obtain s' where "alloc_many pmm_alloc_page 2 pmm_init_fallback = ([0x100000, 0x101000], s')"
    by (cases "alloc_many pmm_alloc_page 2 pmm_init_fallback") simp
  with pmm_alloc_distinct [OF pmm_init_fallback_ok this] show ?thesis by simp
qed

text \<open>
  \<open>pmm_alloc_blocks\<close> returns the lowest run of \<open>count\<close> free pages and marks exactly that run used;
  it returns \<open>NULL\<close> only for \<open>count = 0\<close>, for more pages than the count of available pages, or when no
  such run exists.
\<close>

theorem pmm_alloc_blocks_spec:
  assumes "pmm_ok s"
  shows "case pmm_alloc_blocks count s of (p, s') \<Rightarrow>
      (p = 0 \<and> s' = s \<and> (count = 0 \<or> pmm_available_pages s < count
          \<or> (\<forall>k. k + unat count \<le> total_pages s \<longrightarrow> \<not> free_run s (unat count) k)))
      \<or> (\<exists>k. p = page_addr s k \<and> p \<noteq> 0 \<and> k + unat count \<le> total_pages s \<and> free_run s (unat count) k
          \<and> (\<forall>k'<k. \<not> free_run s (unat count) k')
          \<and> used_pages s' = used_pages s \<union> {k..<k + unat count} \<and> pmm_ok s')"
  using assms
proof (cases rule: pmm_alloc_blocks_cases [where count = count])
  case null
  then show ?thesis by simp
next
  case (run k)
  have "k < total_pages s" using run(1,3) by (simp add: word_less_nat_alt)
  then have "page_addr s k \<noteq> 0" by (rule page_addr_nonzero [OF assms])
  moreover have "{k..<k + unat count} \<inter> {..<total_pages s} = {k..<k + unat count}" using run(3) by auto
  ultimately show ?thesis
    using run used_pages_set_range [OF pmm_ok_wf [OF assms], of k "unat count"]
      pmm_ok_set_range [OF assms run(3)] by auto
qed

theorem pmm_alloc_blocks_spec_witness:
  "\<exists>k. (0x100000 :: u32) = page_addr pmm_init_fallback k \<and> free_run pmm_init_fallback 3 k"
proof -
  have "fst (pmm_alloc_blocks 3 pmm_init_fallback) = 0x100000" by code_simp
  then show ?thesis
    using pmm_alloc_blocks_spec [OF pmm_init_fallback_ok, of 3] by (auto split: prod.splits)
qed

text \<open>
  Releasing with \<open>pmm_free_blocks\<close> a run that \<open>pmm_alloc_blocks\<close> returned restores the whole state of
  the allocator, bitmap and page count included.
\<close>

theorem pmm_blocks_roundtrip:
  assumes "pmm_ok s" "pmm_alloc_blocks count s = (p, s')" "p \<noteq> 0"
  shows "pmm_free_blocks p count s' = s"
  using assms by (rule alloc_free_blocks)

theorem pmm_blocks_roundtrip_witness:
  "pmm_free_blocks 0x100000 3 (snd (pmm_alloc_blocks 3 pmm_init_fallback)) = pmm_init_fallback"
proof -
  have "fst (pmm_alloc_blocks 3 pmm_init_fallback) = 0x100000" by code_simp
  then show ?thesis
    by (intro pmm_blocks_roundtrip [OF pmm_init_fallback_ok]) (auto simp: prod_eq_iff)
qed

text \<open>
  C8: after any sequence of allocations and releases, with any arguments, the allocator is well formed
  and the difference between the number of clear bits and \<open>pmm_available_pages\<close> is what it was at the
  start: the count never drifts.
\<close>

theorem pmm_run_invariant:
  assumes "pmm_ok s"
  shows "pmm_ok (foldl pmm_step s ops) \<and> pmm_drift (foldl pmm_step s ops) = pmm_drift s"
  using pmm_run.run_inv [of s "pmm_drift s" ops] assms by simp

theorem pmm_run_invariant_witness:
  "pmm_ok (foldl pmm_step pmm_init_fallback [AllocPage, AllocBlocks 4, FreePage 0x100000, FreeBlocks 0x102000 9])"
  using pmm_run_invariant [OF pmm_init_fallback_ok] by blast

text \<open>
  For a memory map below 4 GiB with a usable region, \<open>pmm_init\<close> sets up a well-formed allocator whose
  page count is too low by the number of pages that were already reserved (for the bitmap or as
  unavailable memory) among the first 2048: the loop that reserves the kernel's pages decrements the count
  for these a second time.
\<close>

theorem pmm_init_count:
  assumes "take (mmap_num_entries t) (mt_entries t) = es" "mmap_below_4g es"
    and "largest_region es 0 0 = (a, l)" "l \<noteq> 0"
  shows "pmm_ok (pmm_init (Some t)) \<and>
     pmm_available_pages (pmm_init (Some t)) + of_nat (card (used_pages (pmm_reserved es a (region_pages l)) \<inter> {..<2048}))
       = of_nat (card (free_page_set (pmm_init (Some t))))"
  using pmm_init_region_facts [OF assms(2,1,3,4)] by (simp add: pmm_drift_def algebra_simps)

theorem pmm_init_count_witness:
  "let es = [\<lparr>me_addr = 0x1f0000, me_len = 0x20000, me_type = 1\<rparr>];
       t = \<lparr>mt_size = 40, mt_entry_size = 24, mt_entries = es\<rparr>
   in pmm_available_pages (pmm_init (Some t)) = - 1 \<and> used_pages (pmm_init (Some t)) = {..<32}
      \<and> pmm_available_pages (pmm_init (Some t)) + of_nat (card (used_pages (pmm_reserved es 0x1f0000 32) \<inter> {..<2048}))
       = of_nat (card (free_page_set (pmm_init (Some t))))"
proof -
  let ?es = "[\<lparr>me_addr = 0x1f0000, me_len = 0x20000, me_type = 1\<rparr>] :: mmap_entry list"
  let ?t = "\<lparr>mt_size = 40, mt_entry_size = 24, mt_entries = ?es\<rparr>"
  have 1: "take (mmap_num_entries ?t) (mt_entries ?t) = ?es" by code_simp
  have 2: "mmap_below_4g ?es" by (simp add: mmap_below_4g_def)
  have 3: "largest_region ?es 0 0 = (0x1f0000, 0x20000)" by code_simp
  have 4: "region_pages 0x20000 = 32" by code_simp
  have 5: "pmm_available_pages (pmm_init (Some ?t)) = - 1" by code_simp
  have "list_all (\<lambda>i. bitmap_test i (pmm_init (Some ?t))) [0..<32]
      \<and> pmm_total_memory_pages (pmm_init (Some ?t)) = 32" by code_simp
  then have 6: "used_pages (pmm_init (Some ?t)) = {..<32}"
    by (auto simp: used_pages_def list_all_iff)
  from pmm_init_count [OF 1 2 3] 4 5 6 show ?thesis unfolding Let_def by simp
qed

text \<open>
  Without a memory map the allocator treats the page of its own bitmap (physical address 2 MiB, page
  256 of the region) as free, since it reserves page 512 instead: a block of 257 pages taken right after
  \<open>pmm_init(NULL)\<close> contains it.
\<close>

theorem pmm_fallback_bitmap_free:
  "0x200000 \<in> all_frames pmm_init_fallback - used_frames pmm_init_fallback
   \<and> fst (pmm_alloc_blocks 257 (pmm_init None)) = 0x100000
   \<and> 256 \<in> used_pages (snd (pmm_alloc_blocks 257 (pmm_init None)))"
proof -
  let ?s = pmm_init_fallback
  have a: "page_addr ?s 256 = 0x200000" "page_addr ?s 0 = 0x100000" by (simp_all add: page_addr_def)
  have "page_addr ?s 256 \<notin> used_frames ?s"
    using page_addr_inj [OF pmm_init_fallback_ok] by (auto simp: used_frames_def used_pages_def bitmap_test_fallback)
  moreover have "page_addr ?s 256 \<in> all_frames ?s" unfolding all_frames_def by (rule imageI) simp
  moreover have "fst (pmm_alloc_blocks 257 ?s) = 0x100000 \<and> 256 \<in> used_pages (snd (pmm_alloc_blocks 257 ?s))"
  proof (rule pmm_alloc_blocks_cases [OF pmm_init_fallback_ok, of 257])
    assume "(257 :: u32) = 0 \<or> pmm_available_pages ?s < 257
      \<or> (\<forall>k. k + unat (257 :: u32) \<le> total_pages ?s \<longrightarrow> \<not> free_run ?s (unat (257 :: u32)) k)"
    with fallback_free_run show ?thesis by (auto dest: spec [of _ 0])
  next
    fix k
    assume k: "\<forall>k'<k. \<not> free_run ?s (unat (257 :: u32)) k'"
      and r: "pmm_alloc_blocks 257 ?s = (page_addr ?s k, (bitmap_set_range k (unat (257 :: u32)) ?s)
         \<lparr>pmm_available_pages := pmm_available_pages ?s - 257\<rparr>)"
    from k fallback_free_run have "k = 0" by (cases k) auto
    with r a used_pages_set_range [OF pmm_ok_wf [OF pmm_init_fallback_ok], of 0 257] show ?thesis
      by simp
  qed
  ultimately show ?thesis by (simp add: a pmm_init_def)
qed

end
