(* ===== verification/Paging.thy ===== *)
theory Paging
  imports Pmm
begin

text \<open>
  The two-level page tables of \<^verbatim>\<open>src/kernel/kernel.c\<close>: \<open>paging_init\<close>, \<open>alloc_page_table\<close>, \<open>map_page\<close>,
  \<open>unmap_page\<close>, \<open>enable_paging\<close> and \<open>get_physical_address\<close>. The directory and the tables are 1024 words
  each, read and written in physical memory at the frames the page allocator returned; the kernel
  reaches them through its identity mapping. The flush of the translation cache by \<^verbatim>\<open>invlpg\<close> has no
  counterpart, since the model has no such cache.

  The invariant \<open>paging_ok\<close> says that the directory and every present table occupy distinct used frames.
  Under it the lemmas describe each operation by its effect on \<open>get_physical_address\<close>.
\<close>

section \<open>State and operations\<close>

record paging =
  pg_pmm :: pmm
  pg_mem :: memory
  kernel_page_directory :: addr
  kernel_page_tables :: "addr list"
  pg_cr3 :: addr
  pg_cr0 :: u32
  pg_out :: "string list"

abbreviation PAGE_PRESENT :: u32 where "PAGE_PRESENT \<equiv> 1"
abbreviation PAGE_WRITE :: u32 where "PAGE_WRITE \<equiv> 2"
abbreviation PAGE_USER :: u32 where "PAGE_USER \<equiv> 4"
abbreviation FRAME_MASK :: u32 where "FRAME_MASK \<equiv> 0xFFFFF000"
abbreviation KERNEL_HEAP_START :: u32 where "KERNEL_HEAP_START \<equiv> 0xC0000000"
abbreviation KERNEL_HEAP_SIZE :: u32 where "KERNEL_HEAP_SIZE \<equiv> 0x10000000"

definition pd_index :: "addr \<Rightarrow> nat" where
  "pd_index v = unat (drop_bit 22 v)"

definition pt_index :: "addr \<Rightarrow> nat" where
  "pt_index v = unat (drop_bit 12 v AND 0x3FF)"

text \<open>The address of element \<open>i\<close> of an array of words.\<close>

definition entry_addr :: "addr \<Rightarrow> nat \<Rightarrow> addr" where
  "entry_addr base i = base + of_nat (4 * i)"

definition pde :: "paging \<Rightarrow> nat \<Rightarrow> u32" where
  "pde s i = load32 (pg_mem s) (entry_addr (kernel_page_directory s) i)"

definition pde_present :: "paging \<Rightarrow> nat \<Rightarrow> bool" where
  "pde_present s i \<longleftrightarrow> pde s i AND PAGE_PRESENT \<noteq> 0"

definition table_of :: "paging \<Rightarrow> nat \<Rightarrow> addr" where
  "table_of s i = pde s i AND FRAME_MASK"

definition alloc_page_table :: "paging \<Rightarrow> addr \<times> paging" where
  "alloc_page_table s =
     (let (table, p) = pmm_alloc_page (pg_pmm s)
      in if table = 0 then (0, s\<lparr>pg_pmm := p\<rparr>)
         else (table, s\<lparr>pg_pmm := p, pg_mem := mem_memset (pg_mem s) table 0 4096\<rparr>))"

definition set_pde :: "nat \<Rightarrow> u32 \<Rightarrow> paging \<Rightarrow> paging" where
  "set_pde i e s = s\<lparr>pg_mem := store32 (pg_mem s) (entry_addr (kernel_page_directory s) i) e\<rparr>"

text \<open>The first half of \<open>map_page\<close>: a page table for the directory entry; \<open>False\<close> is the early return.\<close>

definition ensure_table :: "nat \<Rightarrow> u32 \<Rightarrow> paging \<Rightarrow> bool \<times> paging" where
  "ensure_table i flags s =
     (if \<not> pde_present s i then
        let (table, s) = alloc_page_table s
        in if table = 0 then (False, s)
           else
             let pd_flags = PAGE_PRESENT OR PAGE_WRITE;
                 pd_flags = (if flags AND PAGE_USER \<noteq> 0 then pd_flags OR PAGE_USER else pd_flags);
                 s = set_pde i (table OR pd_flags) s
             in (True, s\<lparr>kernel_page_tables := (kernel_page_tables s)[i := table]\<rparr>)
      else (True, s))"

definition map_page :: "addr \<Rightarrow> addr \<Rightarrow> u32 \<Rightarrow> paging \<Rightarrow> paging" where
  "map_page virt physical flags s =
     (let (present, s) = ensure_table (pd_index virt) flags s
      in if \<not> present then s
         else s\<lparr>pg_mem := store32 (pg_mem s) (entry_addr (table_of s (pd_index virt)) (pt_index virt))
                           ((physical AND FRAME_MASK) OR flags)\<rparr>)"

definition unmap_page :: "addr \<Rightarrow> paging \<Rightarrow> paging" where
  "unmap_page virt s =
     (if \<not> pde_present s (pd_index virt) then s
      else s\<lparr>pg_mem := store32 (pg_mem s) (entry_addr (table_of s (pd_index virt)) (pt_index virt)) 0\<rparr>)"

definition get_physical_address :: "addr \<Rightarrow> paging \<Rightarrow> addr" where
  "get_physical_address virt s =
     (if \<not> pde_present s (pd_index virt) then 0
      else
        let pte = load32 (pg_mem s) (entry_addr (table_of s (pd_index virt)) (pt_index virt))
        in if pte AND PAGE_PRESENT = 0 then 0
           else (pte AND FRAME_MASK) + (virt AND 0xFFF))"

definition enable_paging :: "paging \<Rightarrow> paging" where
  "enable_paging s = s\<lparr>pg_cr3 := kernel_page_directory s, pg_cr0 := pg_cr0 s OR 0x80000000\<rparr>"

text \<open>The inner loop of \<open>paging_init\<close>: entries \<open>i\<close> to \<open>i + n - 1\<close> of identity table \<open>table_index\<close>.\<close>

fun fill_table :: "addr \<Rightarrow> u32 \<Rightarrow> nat \<Rightarrow> nat \<Rightarrow> memory \<Rightarrow> memory" where
  "fill_table table table_index i 0 m = m"
| "fill_table table table_index i (Suc n) m =
     (let phys = (table_index * 1024 + of_nat i) * PAGE_SIZE
      in fill_table table table_index (Suc i) n
           (store32 m (entry_addr table i) (phys OR PAGE_PRESENT OR PAGE_WRITE)))"

text \<open>The identity mapping; \<open>False\<close> is the return on a failed allocation.\<close>

fun identity_map :: "nat \<Rightarrow> nat \<Rightarrow> paging \<Rightarrow> bool \<times> paging" where
  "identity_map table_index 0 s = (True, s)"
| "identity_map table_index (Suc n) s =
     (let (table, s) = alloc_page_table s
      in if table = 0
         then (False, s\<lparr>pg_out := pg_out s @ [''Failed to allocate page table '' @ [char_of (48 + table_index)]]\<rparr>)
         else
           let s = s\<lparr>pg_mem := fill_table table (of_nat table_index) 0 1024 (pg_mem s)\<rparr>;
               s = set_pde table_index (table OR PAGE_PRESENT OR PAGE_WRITE) s;
               s = s\<lparr>kernel_page_tables := (kernel_page_tables s)[table_index := table]\<rparr>
           in identity_map (Suc table_index) n s)"

text \<open>The tables of the kernel heap, one per 4 MiB; a failed allocation skips the entry.\<close>

fun heap_tables :: "addr \<Rightarrow> nat \<Rightarrow> paging \<Rightarrow> paging" where
  "heap_tables a 0 s = s"
| "heap_tables a (Suc n) s =
     (let (table, s) = alloc_page_table s;
          s = (if table = 0 then s else set_pde (pd_index a) (table OR PAGE_PRESENT OR PAGE_WRITE) s)
      in heap_tables (a + PAGE_SIZE * 1024) n s)"

definition paging_init :: "paging \<Rightarrow> paging" where
  "paging_init s =
     (let (d, p) = pmm_alloc_page (pg_pmm s);
          s = s\<lparr>pg_pmm := p, kernel_page_directory := d\<rparr>
      in if d = 0 then s\<lparr>pg_out := pg_out s @ [''Failed to allocate page directory'']\<rparr>
         else
           let s = s\<lparr>pg_mem := mem_memset (pg_mem s) d 0 4096\<rparr>;
               (ok, s) = identity_map 0 4 s
           in if \<not> ok then s
              else heap_tables KERNEL_HEAP_START (unat (KERNEL_HEAP_SIZE div (PAGE_SIZE * 1024))) s)"


section \<open>Frames and entries\<close>

definition page_aligned :: "addr \<Rightarrow> bool" where
  "page_aligned a \<longleftrightarrow> take_bit 12 a = 0"

lemma page_aligned_bits: "page_aligned a \<longleftrightarrow> (\<forall>n<12. \<not> bit a n)"
  unfolding page_aligned_def by (auto simp: bit_eq_iff bit_simps)

lemma page_aligned_dvd: "page_aligned a \<longleftrightarrow> 4096 dvd unat a"
proof -
  have "page_aligned a \<longleftrightarrow> unat (take_bit 12 a) = 0" by (simp add: page_aligned_def unat_eq_zero)
  also have "unat (take_bit 12 a) = unat a mod 4096"
    by (simp add: take_bit_eq_mod unat_mod)
  finally show ?thesis by (simp add: dvd_eq_mod_eq_0)
qed

lemma mask_bits:
  "bit (FRAME_MASK :: u32) n \<longleftrightarrow> 12 \<le> n \<and> n < 32"
  "bit (0xFFF :: u32) n \<longleftrightarrow> n < 12"
proof -
  have "FRAME_MASK = (mask 32 AND NOT (mask 12) :: u32)" "0xFFF = (mask 12 :: u32)"
    by (simp_all add: mask_eq_exp_minus_1)
  then show "bit (FRAME_MASK :: u32) n \<longleftrightarrow> 12 \<le> n \<and> n < 32" "bit (0xFFF :: u32) n \<longleftrightarrow> n < 12"
    by (auto simp only: bit_simps) auto
qed

text \<open>An entry made of a frame and flag bits gives both back.\<close>

definition flag_bits :: "u32 \<Rightarrow> bool" where
  "flag_bits f \<longleftrightarrow> f AND FRAME_MASK = 0"

lemma flag_bits_high: "flag_bits f \<Longrightarrow> 12 \<le> n \<Longrightarrow> \<not> bit f n"
proof
  assume f: "flag_bits f" "12 \<le> n" "bit f n"
  then have "n < 32" using bit_imp_le_length [of f n] by simp
  with f have "bit (f AND FRAME_MASK) n" by (simp only: bit_and_iff mask_bits)
  with f show False by (simp add: flag_bits_def)
qed

lemma entry_frame: "page_aligned p \<Longrightarrow> flag_bits f \<Longrightarrow> (p OR f) AND FRAME_MASK = p"
  by (rule bit_word_eqI)
     (use flag_bits_high in \<open>auto simp only: bit_simps mask_bits page_aligned_bits not_less\<close>, simp)

lemma entry_frame_masked: "flag_bits f \<Longrightarrow> ((p AND FRAME_MASK) OR f) AND FRAME_MASK = p AND FRAME_MASK"
  by (rule bit_word_eqI) (use flag_bits_high in \<open>auto simp only: bit_simps mask_bits\<close>)

lemma entry_present: "page_aligned p \<Longrightarrow> (p OR f) AND 1 = f AND 1"
  by (rule bit_word_eqI) (auto simp: bit_simps page_aligned_bits)

lemma entry_present_masked: "((p AND FRAME_MASK) OR f) AND 1 = f AND 1"
  by (rule bit_word_eqI) (auto simp only: bit_simps mask_bits)

lemma flag_bits_const [simp]:
  "flag_bits 1" "flag_bits 2" "flag_bits 3" "flag_bits 4" "flag_bits 7"
  by (simp_all add: flag_bits_def)

lemma index_bounds [simp]: "pd_index v < 1024" "pt_index v < 1024"
proof -
  have "unat (drop_bit 22 v) = unat v div 4194304"
    by (simp add: drop_bit_eq_div unat_div)
  then show "pd_index v < 1024" using unat_u32_bound [of v] by (simp add: pd_index_def)
  have "drop_bit 12 v AND 0x3FF = take_bit 10 (drop_bit 12 v)" by (simp add: take_bit_eq_mask mask_eq_exp_minus_1)
  then have "unat (drop_bit 12 v AND 0x3FF) = unat (drop_bit 12 v) mod 1024"
    by (simp add: take_bit_eq_mod unat_mod)
  then show "pt_index v < 1024" by (simp add: pt_index_def)
qed

lemma unat_entry_addr:
  assumes "page_aligned a" "i < 1024"
  shows "unat (entry_addr a i) = unat a + 4 * i"
proof -
  have "4096 dvd unat a" "unat a < 4294967296" using assms unat_u32_bound by (simp_all add: page_aligned_dvd)
  then have "unat a + 4096 \<le> 4294967296" by (auto elim!: dvdE)
  moreover have "unat (of_nat (4 * i) :: u32) = 4 * i" using assms(2) by (intro unat_u32_of_nat) simp
  ultimately show ?thesis using assms(2) unfolding entry_addr_def by (subst unat_u32_plus) auto
qed

lemma entry_addr_aligned4 [simp]: "page_aligned a \<Longrightarrow> i < 1024 \<Longrightarrow> aligned4 (entry_addr a i)"
  unfolding aligned4_def by (subst unat_entry_addr) (auto simp: page_aligned_dvd elim!: dvdE)

lemma page_offset_unique:
  assumes "page_aligned a" "page_aligned b" "unat a + x = unat b + y" "x < 4096" "y < 4096"
  shows "a = b"
proof -
  have "unat a div 4096 = unat b div 4096" "unat a mod 4096 = 0" "unat b mod 4096 = 0"
    using assms by (auto simp: page_aligned_dvd elim!: dvdE)
  then have "unat a = unat b" by (metis div_mult_mod_eq)
  then show ?thesis by (simp add: word_unat_eq_iff)
qed

lemma entry_addr_eq:
  assumes "page_aligned a" "page_aligned b" "i < 1024" "j < 1024"
  shows "entry_addr a i = entry_addr b j \<longleftrightarrow> a = b \<and> i = j"
proof
  assume "entry_addr a i = entry_addr b j"
  then have e: "unat a + 4 * i = unat b + 4 * j" using assms by (metis unat_entry_addr)
  then have "a = b" using assms by (intro page_offset_unique [of a b "4 * i" "4 * j"]) auto
  with e show "a = b \<and> i = j" by simp
qed simp

lemma load32_entry_store [simp]:
  "page_aligned a \<Longrightarrow> page_aligned b \<Longrightarrow> i < 1024 \<Longrightarrow> j < 1024 \<Longrightarrow>
     load32 (store32 m (entry_addr a i) v) (entry_addr b j)
     = (if a = b \<and> i = j then v else load32 m (entry_addr b j))"
  by (simp add: wm.ld_st entry_addr_eq)

text \<open>The byte that \<open>memset\<close> clears at the start of a frame is part of no entry of another frame.\<close>

lemma load32_entry_memset [simp]:
  assumes "page_aligned a" "page_aligned b" "a \<noteq> b" "j < 1024"
  shows "load32 (mem_memset m a 0 n) (entry_addr b j) = load32 m (entry_addr b j)"
proof -
  have "a \<noteq> entry_addr b j + of_nat k" if "k < 4" for k
  proof
    assume "a = entry_addr b j + of_nat k"
    then have "unat a = unat b + 4 * j + k"
      using aligned4_unat_add [OF entry_addr_aligned4 [OF assms(2,4)] that] unat_entry_addr [OF assms(2,4)] by simp
    then have "a = b" using assms that by (intro page_offset_unique [of a b 0 "4 * j + k"]) auto
    with assms show False by simp
  qed
  from this [of 0] this [of 1] this [of 2] this [of 3] show ?thesis
    by (auto simp: mem_memset_eq load32_def)
qed


section \<open>The invariant\<close>

definition paging_ok :: "paging \<Rightarrow> bool" where
  "paging_ok s \<longleftrightarrow> pmm_ok (pg_pmm s) \<and> page_aligned (pmm_memory_start (pg_pmm s))
     \<and> kernel_page_directory s \<in> used_frames (pg_pmm s)
     \<and> (\<forall>i<1024. pde_present s i \<longrightarrow>
          table_of s i \<in> used_frames (pg_pmm s) \<and> table_of s i \<noteq> kernel_page_directory s
          \<and> (\<forall>j<1024. pde_present s j \<and> j \<noteq> i \<longrightarrow> table_of s j \<noteq> table_of s i))"

lemma paging_okD:
  assumes "paging_ok s"
  shows "pmm_ok (pg_pmm s)" "page_aligned (pmm_memory_start (pg_pmm s))"
    and "kernel_page_directory s \<in> used_frames (pg_pmm s)"
    and "i < 1024 \<Longrightarrow> pde_present s i \<Longrightarrow>
      table_of s i \<in> used_frames (pg_pmm s) \<and> table_of s i \<noteq> kernel_page_directory s"
    and "i < 1024 \<Longrightarrow> j < 1024 \<Longrightarrow> pde_present s i \<Longrightarrow> pde_present s j \<Longrightarrow>
      table_of s i = table_of s j \<longleftrightarrow> i = j"
  using assms unfolding paging_ok_def by auto

lemma used_subset_all: "used_frames s \<subseteq> all_frames s"
  using used_pages_subset by (auto simp: used_frames_def all_frames_def)

lemma frame_aligned:
  assumes "pmm_ok s" "page_aligned (pmm_memory_start s)" "p \<in> all_frames s"
  shows "page_aligned p"
  using assms unat_page_addr by (auto simp: all_frames_def page_aligned_dvd)

lemma paging_aligned:
  assumes "paging_ok s"
  shows "p \<in> used_frames (pg_pmm s) \<Longrightarrow> page_aligned p" and "page_aligned (kernel_page_directory s)"
    and "i < 1024 \<Longrightarrow> pde_present s i \<Longrightarrow> page_aligned (table_of s i)"
proof -
  show u: "p \<in> used_frames (pg_pmm s) \<Longrightarrow> page_aligned p" for p
    using frame_aligned [OF paging_okD(1,2) [OF assms]] used_subset_all by blast
  show "page_aligned (kernel_page_directory s)" using u paging_okD(3) [OF assms] .
  show "i < 1024 \<Longrightarrow> pde_present s i \<Longrightarrow> page_aligned (table_of s i)"
    using u paging_okD(4) [OF assms] by blast
qed

definition pte :: "paging \<Rightarrow> nat \<Rightarrow> nat \<Rightarrow> u32" where
  "pte s i j = load32 (pg_mem s) (entry_addr (table_of s i) j)"

definition set_pte :: "nat \<Rightarrow> nat \<Rightarrow> u32 \<Rightarrow> paging \<Rightarrow> paging" where
  "set_pte i j e s = s\<lparr>pg_mem := store32 (pg_mem s) (entry_addr (table_of s i) j) e\<rparr>"

lemma set_frame [simp]:
  "pg_pmm (set_pte i j e s) = pg_pmm s" "kernel_page_directory (set_pte i j e s) = kernel_page_directory s"
  "pg_pmm (set_pde i e s) = pg_pmm s" "kernel_page_directory (set_pde i e s) = kernel_page_directory s"
  by (simp_all add: set_pte_def set_pde_def)

lemma paging_ok_cong:
  assumes "pg_pmm s' = pg_pmm s" "kernel_page_directory s' = kernel_page_directory s"
    "\<And>i. i < 1024 \<Longrightarrow> pde s' i = pde s i"
  shows "paging_ok s' = paging_ok s"
  using assms by (simp add: paging_ok_def pde_present_def table_of_def)

text \<open>Writing an entry of a present table changes that entry and nothing else.\<close>

lemma pde_set_pte:
  assumes "paging_ok s" "i < 1024" "pde_present s i" "j < 1024" "k < 1024"
  shows "pde (set_pte i j e s) k = pde s k"
  using assms paging_aligned(2) [OF assms(1)] paging_aligned(3) [OF assms(1-3)] paging_okD(4) [OF assms(1-3)]
  by (simp add: pde_def set_pte_def)

lemma paging_ok_set_pte [inv_intros]:
  "paging_ok s \<Longrightarrow> i < 1024 \<Longrightarrow> pde_present s i \<Longrightarrow> j < 1024 \<Longrightarrow> paging_ok (set_pte i j e s)"
  using paging_ok_cong [of "set_pte i j e s" s] by (simp add: pde_set_pte)

lemma pte_set_pte:
  assumes "paging_ok s" "i < 1024" "pde_present s i" "j < 1024" "i' < 1024" "pde_present s i'" "j' < 1024"
  shows "pte (set_pte i j e s) i' j' = (if i' = i \<and> j' = j then e else pte s i' j')"
proof -
  have "table_of (set_pte i j e s) i' = table_of s i'"
    using assms by (simp add: table_of_def pde_set_pte)
  then show ?thesis
    using assms paging_aligned(3) [OF assms(1-3)] paging_aligned(3) [OF assms(1,5,6)]
      paging_okD(5) [OF assms(1,2,5,3,6)]
    by (simp add: pte_def) (auto simp: set_pte_def)
qed

section \<open>Allocating a table\<close>

lemma alloc_page_table_null:
  "paging_ok s \<Longrightarrow> alloc_page_table s = (0, s') \<Longrightarrow>
     s' = s \<and> used_frames (pg_pmm s) = all_frames (pg_pmm s)"
  using pa.alloc_null [OF paging_okD(1)]
  by (auto simp: alloc_page_table_def Let_def split: prod.splits if_splits)

text \<open>What a fresh table frame means for the state around it.\<close>

definition fresh_frame :: "addr \<Rightarrow> paging \<Rightarrow> paging \<Rightarrow> bool" where
  "fresh_frame t s s' \<longleftrightarrow> page_aligned t \<and> t \<notin> used_frames (pg_pmm s) \<and> pmm_ok (pg_pmm s')
     \<and> used_frames (pg_pmm s') = insert t (used_frames (pg_pmm s)) \<and> all_frames (pg_pmm s') = all_frames (pg_pmm s)
     \<and> pmm_memory_start (pg_pmm s') = pmm_memory_start (pg_pmm s)
     \<and> kernel_page_directory s' = kernel_page_directory s
     \<and> (\<forall>b j. page_aligned b \<and> b \<noteq> t \<and> j < 1024 \<longrightarrow>
          load32 (pg_mem s') (entry_addr b j) = load32 (pg_mem s) (entry_addr b j))"

lemma alloc_memory_start [simp]:
  "pmm_memory_start (snd (pmm_alloc_page s)) = pmm_memory_start s"
  by (simp add: pmm_alloc_page_def Let_def split: option.splits)

lemma alloc_page_table_fresh:
  assumes "pmm_ok (pg_pmm s)" "page_aligned (pmm_memory_start (pg_pmm s))" "alloc_page_table s = (t, s')" "t \<noteq> 0"
  shows "fresh_frame t s s'" and "pg_mem s' = mem_memset (pg_mem s) t 0 4096"
proof -
  from assms(3,4) obtain p where a: "pmm_alloc_page (pg_pmm s) = (t, p)"
    and s': "s' = s\<lparr>pg_pmm := p, pg_mem := mem_memset (pg_mem s) t 0 4096\<rparr>"
    by (auto simp: alloc_page_table_def Let_def split: prod.splits if_splits)
  note f = pa.alloc_page [OF assms(1) a assms(4)]
  have "pmm_memory_start p = pmm_memory_start (pg_pmm s)" using alloc_memory_start [of "pg_pmm s"] a by simp
  with f frame_aligned [OF assms(1,2)] s' show "fresh_frame t s s'" by (auto simp: fresh_frame_def)
  show "pg_mem s' = mem_memset (pg_mem s) t 0 4096" by (simp add: s')
qed

text \<open>Entering a fresh table into the directory keeps the invariant.\<close>

lemma pde_set_pde:
  "page_aligned (kernel_page_directory s) \<Longrightarrow> i < 1024 \<Longrightarrow> k < 1024 \<Longrightarrow>
     pde (set_pde i e s) k = (if k = i then e else pde s k)"
  by (simp add: pde_def set_pde_def)

lemma fresh_pde:
  "paging_ok s \<Longrightarrow> fresh_frame t s s' \<Longrightarrow> i < 1024 \<Longrightarrow> pde s' i = pde s i"
  using paging_okD(3) [of s] paging_aligned(2) [of s] unfolding fresh_frame_def pde_def by metis

lemma set_pde_fresh:
  assumes "paging_ok s" "fresh_frame t s s'" "i < 1024" "flag_bits f"
  shows "\<And>k. k < 1024 \<Longrightarrow> pde (set_pde i (t OR f) s') k = (if k = i then t OR f else pde s k)"
    and "table_of (set_pde i (t OR f) s') i = t"
    and "paging_ok (set_pde i (t OR f) s')"
proof -
  let ?s = "set_pde i (t OR f) s'"
  have al: "page_aligned t" "page_aligned (kernel_page_directory s')"
    using assms(2) paging_aligned(2) [OF assms(1)] by (simp_all add: fresh_frame_def)
  show p: "pde ?s k = (if k = i then t OR f else pde s k)" if "k < 1024" for k
    using pde_set_pde [OF al(2) assms(3) that] fresh_pde [OF assms(1,2) that] by simp
  then show t: "table_of ?s i = t" using assms(3,4) al(1) by (simp add: table_of_def entry_frame)
  have o: "table_of ?s k = table_of s k" "pde_present ?s k = pde_present s k" if "k < 1024" "k \<noteq> i" for k
    using that p by (simp_all add: table_of_def pde_present_def)
  have u: "t \<notin> used_frames (pg_pmm s)" "used_frames (pg_pmm ?s) = insert t (used_frames (pg_pmm s))"
    "kernel_page_directory ?s = kernel_page_directory s"
    using assms(2) by (simp_all add: fresh_frame_def)
  have "table_of ?s k \<in> used_frames (pg_pmm ?s) \<and> table_of ?s k \<noteq> kernel_page_directory ?s
      \<and> (\<forall>j<1024. pde_present ?s j \<and> j \<noteq> k \<longrightarrow> table_of ?s j \<noteq> table_of ?s k)"
    if "k < 1024" "pde_present ?s k" for k
    using that t o u paging_okD(3) [OF assms(1)] paging_okD(4,5) [OF assms(1)]
    by (cases "k = i") (auto, metis+)
  with u paging_okD [OF assms(1)] assms(2) show "paging_ok ?s"
    by (simp add: paging_ok_def fresh_frame_def)
qed


lemma set_pde_fresh_loads:
  assumes "paging_ok s" "fresh_frame t s s'" "i < 1024"
    and "page_aligned b" "b \<noteq> t" "b \<noteq> kernel_page_directory s" "j < 1024"
  shows "load32 (pg_mem (set_pde i e s')) (entry_addr b j) = load32 (pg_mem s) (entry_addr b j)"
  using assms paging_aligned(2) [OF assms(1)] by (auto simp: set_pde_def fresh_frame_def)

lemma pde_frame [simp]:
  "pde (s\<lparr>kernel_page_tables := ts\<rparr>) i = pde s i"
  "paging_ok (s\<lparr>kernel_page_tables := ts\<rparr>) = paging_ok s"
  "pde (s\<lparr>pg_out := ms\<rparr>) i = pde s i"
  "paging_ok (s\<lparr>pg_out := ms\<rparr>) = paging_ok s"
  by (simp_all add: pde_def paging_ok_def pde_present_def table_of_def)

text \<open>The two outcomes of \<open>ensure_table\<close> when the entry is absent, besides doing nothing.\<close>

lemma ensure_table_cases:
  assumes ok: "paging_ok s" and i: "i < 1024"
  obtains (there) "pde_present s i" "ensure_table i flags s = (True, s)"
  | (full) "\<not> pde_present s i" "used_frames (pg_pmm s) = all_frames (pg_pmm s)" "ensure_table i flags s = (False, s)"
  | (new) t s1 f where "\<not> pde_present s i" "alloc_page_table s = (t, s1)" "t \<noteq> 0" "fresh_frame t s s1"
      "flag_bits f" "f AND 1 = 1"
      "ensure_table i flags s =
         (True, (set_pde i (t OR f) s1)\<lparr>kernel_page_tables := (kernel_page_tables s1)[i := t]\<rparr>)"
proof (cases "pde_present s i")
  case True
  then show ?thesis by (intro there) (simp_all add: ensure_table_def)
next
  case False
  obtain t s1 where a: "alloc_page_table s = (t, s1)" by fastforce
  show ?thesis
  proof (cases "t = 0")
    case True
    with False a alloc_page_table_null [OF ok, of s1] show ?thesis
      by (intro full) (simp_all add: ensure_table_def Let_def)
  next
    case t: False
    let ?f = "if flags AND PAGE_USER \<noteq> 0 then 7 else 3 :: u32"
    have "kernel_page_tables (set_pde i e s1) = kernel_page_tables s1" for e
      by (simp add: set_pde_def)
    then have "ensure_table i flags s =
        (True, (set_pde i (t OR ?f) s1)\<lparr>kernel_page_tables := (kernel_page_tables s1)[i := t]\<rparr>)"
      using False a t by (simp add: ensure_table_def Let_def)
    moreover have "flag_bits ?f" "?f AND 1 = 1" by simp_all
    ultimately show ?thesis
      using False a t alloc_page_table_fresh(1) [OF paging_okD(1,2) [OF ok] a t] by (intro new)
  qed
qed

text \<open>The table \<open>ensure_table\<close> provides, and what it leaves alone.\<close>

lemma ensure_table_spec:
  assumes ok: "paging_ok s" and i: "i < 1024" and e: "ensure_table i flags s = (b, s')"
  shows "paging_ok s'" and "b \<Longrightarrow> pde_present s' i"
    and "\<not> b \<Longrightarrow> s' = s \<and> \<not> pde_present s i \<and> used_frames (pg_pmm s) = all_frames (pg_pmm s)"
    and "pde_present s i \<Longrightarrow> b \<and> s' = s"
    and "\<And>k. k < 1024 \<Longrightarrow> k \<noteq> i \<Longrightarrow> pde_present s' k = pde_present s k"
    and "\<And>k j. k < 1024 \<Longrightarrow> j < 1024 \<Longrightarrow> pde_present s k \<Longrightarrow> pte s' k j = pte s k j"
proof -
  have "paging_ok s' \<and> (b \<longrightarrow> pde_present s' i)
      \<and> (\<not> b \<longrightarrow> s' = s \<and> \<not> pde_present s i \<and> used_frames (pg_pmm s) = all_frames (pg_pmm s))
      \<and> (pde_present s i \<longrightarrow> b \<and> s' = s)
      \<and> (\<forall>k<1024. k \<noteq> i \<longrightarrow> pde_present s' k = pde_present s k)
      \<and> (\<forall>k<1024. \<forall>j<1024. pde_present s k \<longrightarrow> pte s' k j = pte s k j)"
    using ok i
  proof (cases rule: ensure_table_cases [where flags = flags])
    case (new t s1 f)
    note p = set_pde_fresh [OF ok new(4) i new(5)]
    have s': "s' = (set_pde i (t OR f) s1)\<lparr>kernel_page_tables := (kernel_page_tables s1)[i := t]\<rparr>" and b
      using e new(7) by simp_all
    have t: "page_aligned t" "t \<notin> used_frames (pg_pmm s)" using new(4) by (simp_all add: fresh_frame_def)
    have "pde_present s' i"
      using p(1) [OF i] entry_present [OF t(1), of f] new(6) by (simp add: s' pde_present_def)
    moreover have "pte s' k j = pte s k j" if k: "k < 1024" "j < 1024" "pde_present s k" for k j
    proof -
      have "k \<noteq> i" using k new(1) by auto
      with k p(1) have "table_of s' k = table_of s k" by (simp add: s' table_of_def)
      moreover have "table_of s k \<noteq> t" "table_of s k \<noteq> kernel_page_directory s"
        using paging_okD(4) [OF ok k(1,3)] t(2) by auto
      ultimately show ?thesis
        using set_pde_fresh_loads [OF ok new(4) i paging_aligned(3) [OF ok k(1,3)] _ _ k(2)] by (simp add: s' pte_def)
    qed
    ultimately show ?thesis
      using p(1,3) new(1) \<open>b\<close> by (simp add: s' pde_present_def)
  qed (use e ok in auto)
  then show "paging_ok s'" "b \<Longrightarrow> pde_present s' i"
    "\<not> b \<Longrightarrow> s' = s \<and> \<not> pde_present s i \<and> used_frames (pg_pmm s) = all_frames (pg_pmm s)"
    "pde_present s i \<Longrightarrow> b \<and> s' = s"
    "\<And>k. k < 1024 \<Longrightarrow> k \<noteq> i \<Longrightarrow> pde_present s' k = pde_present s k"
    "\<And>k j. k < 1024 \<Longrightarrow> j < 1024 \<Longrightarrow> pde_present s k \<Longrightarrow> pte s' k j = pte s k j"
    by auto
qed


section \<open>Effect of the operations on translation\<close>

definition same_page :: "addr \<Rightarrow> addr \<Rightarrow> bool" where
  "same_page v w \<longleftrightarrow> drop_bit 12 v = drop_bit 12 w"

lemma index_eq: "pd_index x = unat x div 4096 div 1024" "pt_index x = unat x div 4096 mod 1024"
proof -
  show "pd_index x = unat x div 4096 div 1024"
    by (simp add: pd_index_def drop_bit_eq_div unat_div div_mult2_eq [symmetric])
  have "drop_bit 12 x AND 0x3FF = take_bit 10 (drop_bit 12 x)" by (simp add: take_bit_eq_mask mask_eq_exp_minus_1)
  then show "pt_index x = unat x div 4096 mod 1024"
    by (simp add: pt_index_def take_bit_eq_mod drop_bit_eq_div unat_mod unat_div)
qed

lemma same_page_index: "same_page v w \<longleftrightarrow> pd_index v = pd_index w \<and> pt_index v = pt_index w"
proof -
  have "same_page v w \<longleftrightarrow> unat v div 4096 = unat w div 4096"
    by (simp add: same_page_def drop_bit_eq_div word_unat_eq_iff unat_div)
  then show ?thesis unfolding index_eq by (metis div_mult_mod_eq)
qed

lemma get_physical_address_pte:
  "get_physical_address v s =
     (if pde_present s (pd_index v) \<and> pte s (pd_index v) (pt_index v) AND 1 \<noteq> 0
      then (pte s (pd_index v) (pt_index v) AND FRAME_MASK) + (v AND 0xFFF) else 0)"
  by (simp add: get_physical_address_def pte_def Let_def)

lemma map_page_eq:
  "map_page v p flags s =
     (case ensure_table (pd_index v) flags s of (b, s') \<Rightarrow>
        if b then set_pte (pd_index v) (pt_index v) ((p AND FRAME_MASK) OR flags) s' else s')"
  by (simp add: map_page_def set_pte_def Let_def split: prod.splits)

lemma unmap_page_eq:
  "unmap_page v s = (if pde_present s (pd_index v) then set_pte (pd_index v) (pt_index v) 0 s else s)"
  by (simp add: unmap_page_def set_pte_def)

lemma pde_present_set_pte:
  "paging_ok s \<Longrightarrow> i < 1024 \<Longrightarrow> pde_present s i \<Longrightarrow> j < 1024 \<Longrightarrow> k < 1024 \<Longrightarrow>
     pde_present (set_pte i j e s) k = pde_present s k"
  by (simp add: pde_present_def pde_set_pte)

lemma map_page_ok [inv_intros]:
  assumes "paging_ok s"
  shows "paging_ok (map_page v p flags s)"
proof -
  obtain b s' where e: "ensure_table (pd_index v) flags s = (b, s')" by fastforce
  note sp = ensure_table_spec [OF assms index_bounds(1) e]
  show ?thesis using sp(1,2) by (cases b) (simp_all add: map_page_eq e paging_ok_set_pte)
qed

lemma unmap_page_ok [inv_intros]: "paging_ok s \<Longrightarrow> paging_ok (unmap_page v s)"
  by (simp add: unmap_page_eq paging_ok_set_pte)

text \<open>A page can be mapped when its table exists or a frame for a new table is free.\<close>

definition can_map :: "addr \<Rightarrow> paging \<Rightarrow> bool" where
  "can_map v s \<longleftrightarrow> pde_present s (pd_index v) \<or> used_frames (pg_pmm s) \<noteq> all_frames (pg_pmm s)"

lemma map_page_same:
  assumes ok: "paging_ok s" and c: "can_map v s" and f: "flag_bits flags" "flags AND 1 \<noteq> 0" and w: "same_page v w"
  shows "get_physical_address w (map_page v p flags s) = (p AND FRAME_MASK) + (w AND 0xFFF)"
proof -
  obtain b s' where e: "ensure_table (pd_index v) flags s = (b, s')" by fastforce
  note sp = ensure_table_spec [OF ok index_bounds(1) e]
  have b: b using sp(3,4) c by (auto simp: can_map_def)
  have m: "map_page v p flags s = set_pte (pd_index v) (pt_index v) ((p AND FRAME_MASK) OR flags) s'"
    using b by (simp add: map_page_eq e)
  from sp(2) [OF b] sp(1) w f show ?thesis
    by (simp add: m get_physical_address_pte same_page_index pte_set_pte pde_present_set_pte
        entry_frame_masked entry_present_masked)
qed

lemma map_page_other:
  assumes ok: "paging_ok s" and w: "\<not> same_page v w"
    and r: "pde_present s (pd_index w) \<or> pd_index v \<noteq> pd_index w"
  shows "get_physical_address w (map_page v p flags s) = get_physical_address w s"
proof -
  obtain b s' where e: "ensure_table (pd_index v) flags s = (b, s')" by fastforce
  note sp = ensure_table_spec [OF ok index_bounds(1) e]
  have pw: "pde_present s' (pd_index w) = pde_present s (pd_index w)"
    using r sp(4,5) by (cases "pd_index v = pd_index w") auto
  have s': "get_physical_address w s' = get_physical_address w s"
    using pw sp(6) [of "pd_index w" "pt_index w"]
    by (cases "pde_present s (pd_index w)") (simp_all add: get_physical_address_pte)
  show ?thesis
  proof (cases b)
    case True
    with sp(1,2) w have "get_physical_address w (set_pte (pd_index v) (pt_index v) x s') = get_physical_address w s'" for x
      by (cases "pde_present s' (pd_index w)")
         (auto simp: get_physical_address_pte pde_present_set_pte pte_set_pte same_page_index)
    with True s' show ?thesis by (simp add: map_page_eq e)
  qed (use s' in \<open>simp add: map_page_eq e\<close>)
qed

lemma unmap_page_get:
  assumes "paging_ok s"
  shows "get_physical_address w (unmap_page v s) = (if same_page v w then 0 else get_physical_address w s)"
proof (cases "pde_present s (pd_index v)")
  case True
  with assms show ?thesis
    by (cases "pde_present s (pd_index w)")
       (auto simp: unmap_page_eq get_physical_address_pte pde_present_set_pte pte_set_pte same_page_index)
next
  case False
  then show ?thesis by (auto simp: unmap_page_eq get_physical_address_pte same_page_index)
qed


section \<open>The interface of an address space\<close>

text \<open>
  What code that maps pages relies on: for addresses whose table exists (\<open>ready\<close>) a mapping is seen at
  its page and nowhere else, and likewise for its removal.
\<close>

locale address_space =
  fixes mapf :: "addr \<Rightarrow> addr \<Rightarrow> u32 \<Rightarrow> 's \<Rightarrow> 's"
    and unmapf :: "addr \<Rightarrow> 's \<Rightarrow> 's"
    and look :: "addr \<Rightarrow> 's \<Rightarrow> addr"
    and ready :: "addr \<Rightarrow> 's \<Rightarrow> bool"
    and ok :: "'s \<Rightarrow> bool"
  assumes map_ok: "ok s \<Longrightarrow> ok (mapf v p f s)"
    and unmap_ok: "ok s \<Longrightarrow> ok (unmapf v s)"
    and map_ready: "ok s \<Longrightarrow> ready w s \<Longrightarrow> ready w (mapf v p f s)"
    and look_map: "ok s \<Longrightarrow> ready v s \<Longrightarrow> ready w s \<Longrightarrow> flag_bits f \<Longrightarrow> f AND 1 \<noteq> 0 \<Longrightarrow>
      look w (mapf v p f s) = (if same_page v w then (p AND FRAME_MASK) + (w AND 0xFFF) else look w s)"
    and look_unmap: "ok s \<Longrightarrow> look w (unmapf v s) = (if same_page v w then 0 else look w s)"
begin

lemma map_list_ok:
  "ok s \<Longrightarrow> ok (foldl (\<lambda>s (v, p). mapf v p f s) s ms)
     \<and> (ready w s \<longrightarrow> ready w (foldl (\<lambda>s (v, p). mapf v p f s) s ms))"
proof (induction ms arbitrary: s)
  case (Cons m ms)
  obtain v p where m: "m = (v, p)" by (cases m)
  from Cons.IH [OF map_ok [OF Cons.prems]] map_ready [OF Cons.prems] show ?case by (simp add: m)
qed simp

text \<open>After a list of mappings each address translates by the last mapping of its page.\<close>

lemma look_map_list:
  assumes "ok s" "flag_bits f" "f AND 1 \<noteq> 0" "ready w s" "list_all (\<lambda>(v, p). ready v s) ms"
  shows "look w (foldl (\<lambda>s (v, p). mapf v p f s) s ms) =
     (case find (\<lambda>(v, p). same_page v w) (rev ms) of
        None \<Rightarrow> look w s
      | Some (v, p) \<Rightarrow> (p AND FRAME_MASK) + (w AND 0xFFF))"
  using assms
proof (induction ms rule: rev_induct)
  case (snoc m ms)
  obtain v p where m: "m = (v, p)" by (cases m)
  let ?s = "foldl (\<lambda>s (v, p). mapf v p f s) s ms"
  have "ok ?s" "ready v ?s" "ready w ?s"
    using snoc.prems(4,5) map_list_ok [OF snoc.prems(1)] by (simp_all add: m)
  with snoc.IH snoc.prems show ?case by (simp add: m look_map)
qed simp

lemma look_map_unmap:
  "ok s \<Longrightarrow> ready v s \<Longrightarrow> ready w s \<Longrightarrow> flag_bits f \<Longrightarrow> f AND 1 \<noteq> 0 \<Longrightarrow>
     look w (unmapf v (mapf v p f s)) = (if same_page v w then 0 else look w s)"
  by (simp add: look_unmap map_ok look_map)

end

interpretation vm: address_space map_page unmap_page get_physical_address
    "\<lambda>v s. pde_present s (pd_index v)" paging_ok
proof (unfold_locales, goal_cases)
  case (3 s w v p f)
  obtain b s' where e: "ensure_table (pd_index v) f s = (b, s')" by fastforce
  note sp = ensure_table_spec [OF 3(1) index_bounds(1) e]
  have "pde_present s' (pd_index w)"
    using 3(2) sp(4,5) by (cases "pd_index w = pd_index v") auto
  with sp(1,2) show ?case by (cases b) (simp_all add: map_page_eq e pde_present_set_pte)
next
  case (4 s v w f p)
  then show ?case
    using map_page_same [of s v f w p] map_page_other [of s v w p f] by (simp add: can_map_def)
qed (simp_all add: map_page_ok unmap_page_ok unmap_page_get)

section \<open>A new table is not cleared\<close>

text \<open>
  \<open>memset\<close> clears one byte, so every entry of a new table beyond the first and the one just mapped is
  what the frame held before.
\<close>

lemma map_page_new_entries:
  assumes ok: "paging_ok s" and a: "\<not> pde_present s (pd_index v)" "pmm_alloc_page (pg_pmm s) = (t, p')" "t \<noteq> 0"
    and j: "j < 1024" "j \<noteq> pt_index v"
  shows "pde_present (map_page v p flags s) (pd_index v)"
    and "pte (map_page v p flags s) (pd_index v) j = load32 (mem_memset (pg_mem s) t 0 4096) (entry_addr t j)"
proof -
  obtain b s' where e: "ensure_table (pd_index v) flags s = (b, s')" by fastforce
  note sp = ensure_table_spec [OF ok index_bounds(1) e]
  from ok index_bounds(1) have "b \<and> table_of s' (pd_index v) = t \<and>
      pte s' (pd_index v) j = load32 (mem_memset (pg_mem s) t 0 4096) (entry_addr t j)"
  proof (cases rule: ensure_table_cases [where flags = flags and i = "pd_index v"])
    case full
    from pa.alloc_page [OF paging_okD(1) [OF ok] a(2,3)] full(2) show ?thesis by auto
  next
    case (new t' s1 f)
    have [simp]: "t' = t" using a(2,3) new(2) by (simp add: alloc_page_table_def)
    note m = alloc_page_table_fresh(2) [OF paging_okD(1,2) [OF ok] new(2,3)]
    have "t \<noteq> kernel_page_directory s1" "page_aligned t" "page_aligned (kernel_page_directory s1)"
      using new(4) paging_okD(3) [OF ok] paging_aligned(2) [OF ok] by (auto simp: fresh_frame_def)
    then have "load32 (pg_mem (set_pde (pd_index v) (t OR f) s1)) (entry_addr t j) = load32 (pg_mem s1) (entry_addr t j)"
      using j by (simp add: set_pde_def)
    moreover have "table_of s' (pd_index v) = t" "s' = (set_pde (pd_index v) (t OR f) s1)\<lparr>kernel_page_tables :=
        (kernel_page_tables s1)[pd_index v := t]\<rparr>" b
      using set_pde_fresh(2) [OF ok new(4) index_bounds(1) new(5), of v] e new(7)
      by (auto simp: table_of_def)
    ultimately show ?thesis by (simp add: m pte_def)
  qed (use a in auto)
  then have b: b and p: "pte s' (pd_index v) j = load32 (mem_memset (pg_mem s) t 0 4096) (entry_addr t j)" by auto
  with sp(1,2) j show "pde_present (map_page v p flags s) (pd_index v)"
    "pte (map_page v p flags s) (pd_index v) j = load32 (mem_memset (pg_mem s) t 0 4096) (entry_addr t j)"
    by (simp_all add: map_page_eq e pde_present_set_pte pte_set_pte)
qed

lemma map_page_new_table:
  assumes ok: "paging_ok s" and a: "\<not> pde_present s (pd_index v)" "pmm_alloc_page (pg_pmm s) = (t, p')" "t \<noteq> 0"
    and j: "0 < j" "j < 1024" "j \<noteq> pt_index v"
  shows "pde_present (map_page v p flags s) (pd_index v)"
    and "pte (map_page v p flags s) (pd_index v) j = load32 (pg_mem s) (entry_addr t j)"
proof -
  have al: "page_aligned t"
    using frame_aligned [OF paging_okD(1,2) [OF ok]] pa.alloc_page [OF paging_okD(1) [OF ok] a(2,3)] by blast
  have "t \<noteq> entry_addr t j + of_nat k" if "k < 4" for k
    using aligned4_unat_add [OF entry_addr_aligned4 [OF al j(2)] that] unat_entry_addr [OF al j(2)] j(1) by auto
  from this [of 0] this [of 1] this [of 2] this [of 3]
  have "load32 (mem_memset (pg_mem s) t 0 4096) (entry_addr t j) = load32 (pg_mem s) (entry_addr t j)"
    by (auto simp: mem_memset_eq load32_def)
  with map_page_new_entries [OF ok a j(2,3)] show "pde_present (map_page v p flags s) (pd_index v)"
    "pte (map_page v p flags s) (pd_index v) j = load32 (pg_mem s) (entry_addr t j)" by simp_all
qed

text \<open>Without a frame for the table \<open>map_page\<close> does nothing.\<close>

lemma map_page_fails:
  assumes ok: "paging_ok s" and c: "\<not> can_map v s"
  shows "map_page v p flags s = s"
  using ok index_bounds(1)
proof (cases rule: ensure_table_cases [where flags = flags and i = "pd_index v"])
  case there
  with c show ?thesis by (simp add: can_map_def)
next
  case full
  then show ?thesis by (simp add: map_page_eq)
next
  case (new t s1 f)
  then have "t \<in> all_frames (pg_pmm s)" "t \<notin> used_frames (pg_pmm s)"
    using used_subset_all [of "pg_pmm s1"] by (auto simp: fresh_frame_def)
  with c show ?thesis by (simp add: can_map_def)
qed


section \<open>Initialisation\<close>

lemma push_ucast_eq_0: "k \<le> 24 \<Longrightarrow> push_bit k (ucast b :: u32) = 0 \<longleftrightarrow> b = 0" for b :: byte
proof
  assume k: "k \<le> 24" and z: "push_bit k (ucast b :: u32) = 0"
  have "\<not> bit b n" for n
  proof
    assume n: "bit b n"
    then have "n < 8" using bit_imp_le_length [of b n] by simp
    with n k have "bit (push_bit k (ucast b :: u32)) (k + n)" by (simp add: bit_simps)
    with z show False by simp
  qed
  then show "b = 0" by (auto simp: bit_eq_iff)
qed simp

lemma load32_eq_0: "load32 m a = 0 \<longleftrightarrow> m a = 0 \<and> m (a + 1) = 0 \<and> m (a + 2) = 0 \<and> m (a + 3) = 0"
  using push_ucast_eq_0 [of 0 "m a"] by (simp add: load32_def or_eq_0_iff push_ucast_eq_0)

text \<open>Memory starts out zero: the free frames hold zero words.\<close>

definition zero_free :: "paging \<Rightarrow> bool" where
  "zero_free s \<longleftrightarrow> (\<forall>f \<in> all_frames (pg_pmm s) - used_frames (pg_pmm s). \<forall>j<1024.
     load32 (pg_mem s) (entry_addr f j) = 0)"

definition free_count :: "paging \<Rightarrow> nat" where
  "free_count s = card (all_frames (pg_pmm s) - used_frames (pg_pmm s))"

lemma memset_zero_word: "load32 m a = 0 \<Longrightarrow> load32 (mem_memset m b 0 n) a = 0"
  by (auto simp: load32_eq_0 mem_memset_eq)

lemma fresh_free_count:
  assumes "fresh_frame t s s'"
  shows "free_count s' = free_count s - 1" and "t \<in> all_frames (pg_pmm s)"
proof -
  show t: "t \<in> all_frames (pg_pmm s)"
    using assms used_subset_all [of "pg_pmm s'"] by (auto simp: fresh_frame_def)
  have "all_frames (pg_pmm s') - used_frames (pg_pmm s') = all_frames (pg_pmm s) - used_frames (pg_pmm s) - {t}"
    "t \<in> all_frames (pg_pmm s) - used_frames (pg_pmm s)" "finite (all_frames (pg_pmm s))"
    using assms t by (auto simp: fresh_frame_def all_frames_def)
  then show "free_count s' = free_count s - 1" by (simp add: free_count_def)
qed

lemma fresh_zero_free:
  assumes "zero_free s" "fresh_frame t s s'" "pmm_ok (pg_pmm s)" "page_aligned (pmm_memory_start (pg_pmm s))"
  shows "zero_free s'"
  using assms frame_aligned [OF assms(3,4)] by (auto simp: zero_free_def fresh_frame_def)

text \<open>Entering a fresh table, whatever was written into it before.\<close>

lemma enter_table:
  assumes ok: "paging_ok s" and z: "zero_free s" and f: "fresh_frame t s s'" and i: "i < 1024"
  defines "s3 \<equiv> set_pde i (t OR PAGE_PRESENT OR PAGE_WRITE) s'"
  shows "paging_ok s3" "zero_free s3" "free_count s3 = free_count s - 1"
    and "\<And>k. k < 1024 \<Longrightarrow> pde_present s3 k \<longleftrightarrow> k = i \<or> pde_present s k"
    and "\<And>j. j < 1024 \<Longrightarrow> pte s3 i j = load32 (pg_mem s') (entry_addr t j)"
    and "\<And>k j. k < 1024 \<Longrightarrow> j < 1024 \<Longrightarrow> k \<noteq> i \<Longrightarrow> pde_present s k \<Longrightarrow> pte s3 k j = pte s k j"
proof -
  have s3: "s3 = set_pde i (t OR 3) s'" by (simp add: s3_def)
  note p = set_pde_fresh [OF ok f i flag_bits_const(3), folded s3]
  have al: "page_aligned t" "page_aligned (kernel_page_directory s)" "kernel_page_directory s' = kernel_page_directory s"
    "t \<noteq> kernel_page_directory s" "kernel_page_directory s \<in> used_frames (pg_pmm s)"
    using f paging_aligned(2) [OF ok] paging_okD(3) [OF ok] by (auto simp: fresh_frame_def)
  show "paging_ok s3" by (rule p)
  show "free_count s3 = free_count s - 1"
    using fresh_free_count(1) [OF f] by (simp add: s3 free_count_def)
  show "pde_present s3 k \<longleftrightarrow> k = i \<or> pde_present s k" if "k < 1024" for k
    using p(1) [OF that] entry_present [OF al(1), of 3] by (auto simp: pde_present_def)
  show "pte s3 i j = load32 (pg_mem s') (entry_addr t j)" if "j < 1024" for j
    using that i al by (simp add: pte_def p(2)) (simp add: s3 set_pde_def)
  show "pte s3 k j = pte s k j" if "k < 1024" "j < 1024" "k \<noteq> i" "pde_present s k" for k j
  proof -
    have "table_of s k \<in> used_frames (pg_pmm s)" "table_of s k \<noteq> kernel_page_directory s"
      using paging_okD(4) [OF ok that(1,4)] by auto
    moreover have "table_of s k \<noteq> t" using calculation f by (auto simp: fresh_frame_def)
    moreover have "table_of s3 k = table_of s k" using p(1) [OF that(1)] that(3) by (simp add: table_of_def)
    ultimately show ?thesis
      using set_pde_fresh_loads [OF ok f i paging_aligned(3) [OF ok that(1,4)] _ _ that(2)] by (simp add: pte_def s3)
  qed
  have z': "zero_free s'" using fresh_zero_free [OF z f] paging_okD(1,2) [OF ok] by simp
  show "zero_free s3"
    unfolding zero_free_def
  proof (intro ballI allI impI)
    fix b j assume b: "b \<in> all_frames (pg_pmm s3) - used_frames (pg_pmm s3)" and j: "j < (1024 :: nat)"
    have "b \<noteq> kernel_page_directory s'" "page_aligned b"
      using b al f frame_aligned [OF paging_okD(1,2) [OF ok]] by (auto simp: s3 fresh_frame_def)
    with b j z' al i show "load32 (pg_mem s3) (entry_addr b j) = 0"
      by (simp add: s3 zero_free_def set_pde_def)
  qed
qed

lemma alloc_table_step:
  assumes "paging_ok s" "0 < free_count s"
  obtains t s1 where "alloc_page_table s = (t, s1)" "t \<noteq> 0" "fresh_frame t s s1"
    "pg_mem s1 = mem_memset (pg_mem s) t 0 4096"
proof -
  obtain t s1 where a: "alloc_page_table s = (t, s1)" by fastforce
  have "t \<noteq> 0" using alloc_page_table_null [OF assms(1), of s1] a assms(2) by (auto simp: free_count_def)
  then show thesis
    using that a alloc_page_table_fresh [OF paging_okD(1,2) [OF assms(1)] a] by blast
qed

lemma fresh_frame_cong:
  "fresh_frame t s s1 \<Longrightarrow>
   (\<And>b j. page_aligned b \<Longrightarrow> b \<noteq> t \<Longrightarrow> j < 1024 \<Longrightarrow> load32 m (entry_addr b j) = load32 (pg_mem s1) (entry_addr b j)) \<Longrightarrow>
   fresh_frame t s (s1\<lparr>pg_mem := m\<rparr>)"
  by (simp add: fresh_frame_def)

lemma fill_table_loads:
  "page_aligned t \<Longrightarrow> i + n \<le> 1024 \<Longrightarrow> page_aligned b \<Longrightarrow> j < 1024 \<Longrightarrow>
     load32 (fill_table t x i n m) (entry_addr b j) =
     (if b = t \<and> i \<le> j \<and> j < i + n then ((x * 1024 + of_nat j) * PAGE_SIZE) OR 3
      else load32 m (entry_addr b j))"
proof (induction n arbitrary: i m)
  case (Suc n)
  have "load32 (store32 m (entry_addr t i) v) (entry_addr b j) =
      (if t = b \<and> i = j then v else load32 m (entry_addr b j))" for v
    using Suc.prems by (intro load32_entry_store) auto
  with Suc show ?case by (auto simp: Let_def)
qed auto


lemma frame_and_offset:
  "page_aligned ((of_nat (pd_index v) * 1024 + of_nat (pt_index v)) * PAGE_SIZE)"
  "(of_nat (pd_index v) * 1024 + of_nat (pt_index v)) * PAGE_SIZE + (v AND 0xFFF) = v"
proof -
  have "(of_nat (pd_index v) * 1024 + of_nat (pt_index v) :: u32) = of_nat (pd_index v * 1024 + pt_index v)"
    by simp
  also have "\<dots> = of_nat (unat v div 4096)" unfolding index_eq by (simp only: div_mult_mod_eq)
  also have "\<dots> = v div 4096" by (simp add: word_unat_eq_iff unat_div unat_of_nat) (metis div_le_dividend le_less_trans mod_less unat_u32_bound)
  finally have e: "(of_nat (pd_index v) * 1024 + of_nat (pt_index v) :: u32) = v div 4096" .
  have m: "v AND 0xFFF = v mod 4096" using take_bit_eq_mask [of 12 v] by (simp add: take_bit_eq_mod mask_eq_exp_minus_1)
  show "(of_nat (pd_index v) * 1024 + of_nat (pt_index v)) * PAGE_SIZE + (v AND 0xFFF) = v"
    unfolding e m by (rule div_mult_mod_eq)
  have "(v div 4096) * PAGE_SIZE = push_bit 12 (v div 4096)" by (simp add: push_bit_eq_mult)
  then show "page_aligned ((of_nat (pd_index v) * 1024 + of_nat (pt_index v)) * PAGE_SIZE)"
    unfolding e by (simp add: page_aligned_bits bit_simps)
qed

text \<open>The tables present are those in \<open>P\<close>; the first \<open>k\<close> map memory to itself, the others map nothing.\<close>

definition tables_are :: "nat set \<Rightarrow> nat \<Rightarrow> paging \<Rightarrow> bool" where
  "tables_are P k s \<longleftrightarrow> paging_ok s \<and> zero_free s \<and> (\<forall>i<1024. pde_present s i \<longleftrightarrow> i \<in> P)
     \<and> (\<forall>i<1024. \<forall>j<1024. i \<in> P \<longrightarrow>
          pte s i j = (if i < k then ((of_nat i * 1024 + of_nat j) * PAGE_SIZE) OR 3 else 0))"

lemma tables_are_out [simp]:
  "tables_are P k (s\<lparr>kernel_page_tables := ts\<rparr>) = tables_are P k s"
  "free_count (s\<lparr>kernel_page_tables := ts\<rparr>) = free_count s"
  by (simp_all add: tables_are_def pde_present_def zero_free_def pte_def table_of_def free_count_def)

lemma enter_identity_table:
  assumes "tables_are {..<k} k s" "alloc_page_table s = (t, s1)" "t \<noteq> 0" "k < 1024"
  defines "s3 \<equiv> set_pde k (t OR PAGE_PRESENT OR PAGE_WRITE) (s1\<lparr>pg_mem := fill_table t (of_nat k) 0 1024 (pg_mem s1)\<rparr>)"
  shows "tables_are {..<Suc k} (Suc k) s3 \<and> free_count s3 = free_count s - 1"
proof -
  have ok: "paging_ok s" "zero_free s" using assms(1) by (simp_all add: tables_are_def)
  have f: "fresh_frame t s s1" using alloc_page_table_fresh(1) [OF paging_okD(1,2) [OF ok(1)] assms(2,3)] .
  then have t: "page_aligned t" by (simp add: fresh_frame_def)
  have f': "fresh_frame t s (s1\<lparr>pg_mem := fill_table t (of_nat k) 0 1024 (pg_mem s1)\<rparr>)"
    by (rule fresh_frame_cong [OF f]) (simp add: fill_table_loads t)
  note e = enter_table [OF ok f' assms(4), folded s3_def]
  have "pte s3 i j = ((of_nat i * 1024 + of_nat j) * PAGE_SIZE) OR 3"
    if "i < 1024" "j < 1024" "i < Suc k" for i j
    using that e(5,6) assms(1) by (cases "i = k") (auto simp: fill_table_loads t tables_are_def)
  with e assms(1) show ?thesis by (auto simp: tables_are_def less_Suc_eq)
qed

lemma identity_map_spec:
  "tables_are {..<k} k s \<Longrightarrow> n \<le> free_count s \<Longrightarrow> k + n \<le> 1024 \<Longrightarrow>
     fst (identity_map k n s) \<and> tables_are {..<k + n} (k + n) (snd (identity_map k n s))
     \<and> free_count (snd (identity_map k n s)) = free_count s - n"
proof (induction n arbitrary: k s)
  case (Suc n)
  have ok: "paging_ok s" using Suc.prems(1) by (simp add: tables_are_def)
  have "0 < free_count s" using Suc.prems(2) by simp
  then obtain t s1 where a: "alloc_page_table s = (t, s1)" "t \<noteq> 0"
    using alloc_table_step [OF ok] by blast
  note e = enter_identity_table [OF Suc.prems(1) a]
  with Suc.prems a Suc.IH [of "Suc k"] show ?case by (simp add: Let_def)
qed simp

lemma enter_heap_table:
  assumes "tables_are P k s" "alloc_page_table s = (t, s1)" "t \<noteq> 0" "h < 1024" "k \<le> h" "h \<notin> P"
  defines "s3 \<equiv> set_pde h (t OR PAGE_PRESENT OR PAGE_WRITE) s1"
  shows "tables_are (insert h P) k s3 \<and> free_count s3 = free_count s - 1"
proof -
  have ok: "paging_ok s" "zero_free s" using assms(1) by (simp_all add: tables_are_def)
  note f = alloc_page_table_fresh [OF paging_okD(1,2) [OF ok(1)] assms(2,3)]
  note e = enter_table [OF ok f(1) assms(4), folded s3_def]
  have "t \<in> all_frames (pg_pmm s) - used_frames (pg_pmm s)"
    using fresh_free_count(2) [OF f(1)] f(1) by (auto simp: fresh_frame_def)
  then have "load32 (pg_mem s1) (entry_addr t j) = 0" if "j < 1024" for j
    using ok(2) that by (simp add: f(2) zero_free_def memset_zero_word)
  then have "pte s3 i j = (if i < k then ((of_nat i * 1024 + of_nat j) * PAGE_SIZE) OR 3 else 0)"
    if "i < 1024" "j < 1024" "i \<in> insert h P" for i j
    using that e(5,6) assms(1,5,6) by (cases "i = h") (auto simp: tables_are_def)
  with e(1-4) assms(1) show ?thesis by (simp add: tables_are_def)
qed

lemma heap_tables_spec:
  "tables_are P k s \<Longrightarrow> n \<le> free_count s \<Longrightarrow> h + n \<le> 1024 \<Longrightarrow> k \<le> h \<Longrightarrow> P \<inter> {h..<h + n} = {} \<Longrightarrow>
   a = of_nat (h * 0x400000) \<Longrightarrow> tables_are (P \<union> {h..<h + n}) k (heap_tables a n s)
     \<and> free_count (heap_tables a n s) = free_count s - n"
proof (induction n arbitrary: h a P s)
  case (Suc n)
  have ok: "paging_ok s" using Suc.prems(1) by (simp add: tables_are_def)
  have "0 < free_count s" using Suc.prems(2) by simp
  then obtain t s1 where a: "alloc_page_table s = (t, s1)" "t \<noteq> 0"
    using alloc_table_step [OF ok] by blast
  have "h * 0x400000 < 4294967296" using Suc.prems(3) by simp
  then have "unat a = h * 0x400000" unfolding Suc.prems(6) by (rule unat_u32_of_nat)
  then have h: "pd_index a = h" by (simp add: index_eq div_mult2_eq [symmetric])
  have n: "a + PAGE_SIZE * 1024 = of_nat (Suc h * 0x400000)" using Suc.prems(6) by (simp add: algebra_simps)
  have un: "P \<union> {h..<h + Suc n} = insert h P \<union> {Suc h..<Suc h + n}" by auto
  let ?s = "set_pde h (t OR PAGE_PRESENT OR PAGE_WRITE) s1"
  have e: "tables_are (insert h P) k ?s \<and> free_count ?s = free_count s - 1"
    using Suc.prems by (intro enter_heap_table [OF _ a]) auto
  have "insert h P \<inter> {Suc h..<Suc h + n} = {}" using Suc.prems(5) by auto
  then have "tables_are (insert h P \<union> {Suc h..<Suc h + n}) k (heap_tables (a + PAGE_SIZE * 1024) n ?s)
      \<and> free_count (heap_tables (a + PAGE_SIZE * 1024) n ?s) = free_count ?s - n"
    using e Suc.prems(2-4) by (intro Suc.IH [OF _ _ _ _ _ n]) auto
  with a e show ?case unfolding un by (simp add: Let_def h)
qed simp


text \<open>The state between the allocation of the directory and the first table.\<close>

lemma directory_ready:
  assumes ok: "pmm_ok (pg_pmm s)" "page_aligned (pmm_memory_start (pg_pmm s))" and z: "zero_free s"
    and n: "0 < free_count s"
  obtains d p where "pmm_alloc_page (pg_pmm s) = (d, p)" "d \<noteq> 0"
    "tables_are {} 0 (s\<lparr>pg_pmm := p, kernel_page_directory := d, pg_mem := mem_memset (pg_mem s) d 0 4096\<rparr>)"
    "free_count (s\<lparr>pg_pmm := p, kernel_page_directory := d, pg_mem := mem_memset (pg_mem s) d 0 4096\<rparr>) = free_count s - 1"
proof -
  obtain d p where a: "pmm_alloc_page (pg_pmm s) = (d, p)" by fastforce
  have "used_frames (pg_pmm s) \<noteq> all_frames (pg_pmm s)" using n by (auto simp: free_count_def)
  then have d: "d \<noteq> 0" using pa.alloc_succeeds [OF ok(1)] a by simp
  let ?s1 = "s\<lparr>pg_pmm := p, pg_mem := mem_memset (pg_mem s) d 0 4096\<rparr>"
  let ?s = "s\<lparr>pg_pmm := p, kernel_page_directory := d, pg_mem := mem_memset (pg_mem s) d 0 4096\<rparr>"
  have f: "fresh_frame d s ?s1"
    using alloc_page_table_fresh(1) [OF ok, of d ?s1] a d by (simp add: alloc_page_table_def)
  have "d \<in> all_frames (pg_pmm s) - used_frames (pg_pmm s)"
    using fresh_free_count(2) [OF f] f by (auto simp: fresh_frame_def)
  then have "pde ?s i = 0" if "i < 1024" for i
    using z that by (simp add: pde_def zero_free_def memset_zero_word)
  then have np: "\<not> pde_present ?s i" if "i < 1024" for i using that by (simp add: pde_present_def)
  have "paging_ok ?s" using np f ok(2) by (simp add: paging_ok_def fresh_frame_def)
  moreover have "zero_free ?s" using fresh_zero_free [OF z f ok] by (simp add: zero_free_def)
  ultimately have "tables_are {} 0 ?s" using np by (simp add: tables_are_def)
  moreover have "free_count ?s = free_count s - 1" using fresh_free_count(1) [OF f] by (simp add: free_count_def)
  ultimately show thesis using that a d by blast
qed

lemma paging_init_state:
  assumes "pmm_ok (pg_pmm s)" "page_aligned (pmm_memory_start (pg_pmm s))" "zero_free s" "69 \<le> free_count s"
  shows "tables_are ({..<4} \<union> {768..<832}) 4 (paging_init s) \<and> free_count (paging_init s) = free_count s - 69"
proof -
  have "0 < free_count s" using assms(4) by simp
  then obtain d p where a: "pmm_alloc_page (pg_pmm s) = (d, p)" "d \<noteq> 0"
    and t: "tables_are {} 0 (s\<lparr>pg_pmm := p, kernel_page_directory := d, pg_mem := mem_memset (pg_mem s) d 0 4096\<rparr>)"
    and c: "free_count (s\<lparr>pg_pmm := p, kernel_page_directory := d, pg_mem := mem_memset (pg_mem s) d 0 4096\<rparr>)
      = free_count s - 1" by (rule directory_ready [OF assms(1-3)])
  let ?s = "s\<lparr>pg_pmm := p, kernel_page_directory := d, pg_mem := mem_memset (pg_mem s) d 0 4096\<rparr>"
  have i: "fst (identity_map 0 4 ?s) \<and> tables_are {..<4} 4 (snd (identity_map 0 4 ?s))
      \<and> free_count (snd (identity_map 0 4 ?s)) = free_count ?s - 4"
    using identity_map_spec [of 0 ?s 4] t c assms(4) by simp
  obtain s' where s': "identity_map 0 4 ?s = (True, s')" using i by (metis prod.collapse)
  have "tables_are ({..<4} \<union> {768..<768 + 64}) 4 (heap_tables KERNEL_HEAP_START 64 s')
      \<and> free_count (heap_tables KERNEL_HEAP_START 64 s') = free_count s' - 64"
    using i s' c assms(4) by (intro heap_tables_spec) auto
  with a s' i c show ?thesis by (simp add: paging_init_def Let_def)
qed

subsection \<open>Memory that is not cleared\<close>

text \<open>
  \<open>memset\<close> does not clear the frames, so in general only the entries \<open>paging_init\<close> writes are known: the
  directory entries in \<open>P\<close> are present and the first \<open>k\<close> of their tables map memory to itself, while every
  other directory entry is the word \<open>D\<close> found in its frame.
\<close>

definition built :: "(nat \<Rightarrow> u32) \<Rightarrow> nat set \<Rightarrow> nat \<Rightarrow> paging \<Rightarrow> bool" where
  "built D P k s \<longleftrightarrow> pmm_ok (pg_pmm s) \<and> page_aligned (pmm_memory_start (pg_pmm s))
     \<and> kernel_page_directory s \<in> used_frames (pg_pmm s)
     \<and> (\<forall>i<1024. if i \<in> P then pde_present s i \<and> table_of s i \<in> used_frames (pg_pmm s)
            \<and> table_of s i \<noteq> kernel_page_directory s else pde s i = D i)
     \<and> (\<forall>i<k. i \<in> P \<and> (\<forall>j<1024. pte s i j = ((of_nat i * 1024 + of_nat j) * PAGE_SIZE) OR 3))"

lemma built_out [simp]: "built D P k (s\<lparr>kernel_page_tables := ts\<rparr>) = built D P k s"
  by (simp add: built_def pde_present_def pte_def table_of_def)

lemma built_enter:
  assumes b: "built D P k s" and f: "fresh_frame t s s'" and i: "i < 1024" "k \<le> i"
  defines "s3 \<equiv> set_pde i (t OR PAGE_PRESENT OR PAGE_WRITE) s'"
  shows "built D (insert i P) k s3" "free_count s3 = free_count s - 1"
    and "j < 1024 \<Longrightarrow> pte s3 i j = load32 (pg_mem s') (entry_addr t j)"
proof -
  have s3: "s3 = set_pde i (t OR 3) s'" by (simp add: s3_def)
  have ok: "pmm_ok (pg_pmm s)" "page_aligned (pmm_memory_start (pg_pmm s))"
    and d: "kernel_page_directory s \<in> used_frames (pg_pmm s)" using b by (simp_all add: built_def)
  have u: "page_aligned x" if "x \<in> used_frames (pg_pmm s)" for x
    using frame_aligned [OF ok] used_subset_all that by blast
  have t: "page_aligned t" "t \<notin> used_frames (pg_pmm s)" "kernel_page_directory s' = kernel_page_directory s"
    using f by (simp_all add: fresh_frame_def)
  have ld: "load32 (pg_mem s3) (entry_addr x j) = load32 (pg_mem s) (entry_addr x j)"
    if "x \<in> used_frames (pg_pmm s)" "x \<noteq> kernel_page_directory s" "j < 1024" for x j
    using that f u [OF that(1)] u [OF d] i t by (auto simp: s3 set_pde_def fresh_frame_def)
  have p: "pde s3 n = (if n = i then t OR 3 else pde s n)" if "n < 1024" for n
    using pde_set_pde [of s' i n "t OR 3"] f u [OF d] d i that t unfolding s3 fresh_frame_def pde_def by (metis (no_types))
  have e: "pde_present s3 i" "table_of s3 i = t"
    using p [OF i(1)] entry_present [OF t(1), of 3] entry_frame [OF t(1), of 3]
    by (simp_all add: pde_present_def table_of_def)
  have o: "table_of s3 n = table_of s n" "pde_present s3 n = pde_present s n" if "n < 1024" "n \<noteq> i" for n
    using that p by (simp_all add: table_of_def pde_present_def)
  show "free_count s3 = free_count s - 1"
    using fresh_free_count(1) [OF f] by (simp add: s3 free_count_def)
  show "pte s3 i j = load32 (pg_mem s') (entry_addr t j)" if "j < 1024" for j
    using that i(1) t u [OF d] d by (simp add: pte_def e(2)) (auto simp: s3 set_pde_def)
  have us: "used_frames (pg_pmm s3) = insert t (used_frames (pg_pmm s))" "pmm_ok (pg_pmm s3)"
    "page_aligned (pmm_memory_start (pg_pmm s3))" "kernel_page_directory s3 = kernel_page_directory s"
    using f ok by (simp_all add: s3 fresh_frame_def)
  have "if n \<in> insert i P then pde_present s3 n \<and> table_of s3 n \<in> used_frames (pg_pmm s3)
      \<and> table_of s3 n \<noteq> kernel_page_directory s3 else pde s3 n = D n" if "n < 1024" for n
    using that b e o [OF that] p [OF that] us t d by (cases "n = i") (auto simp: built_def)
  moreover have "n \<in> insert i P \<and> (\<forall>j<1024. pte s3 n j = ((of_nat n * 1024 + of_nat j) * PAGE_SIZE) OR 3)"
    if n: "n < k" for n
  proof -
    have n': "n < 1024" "n \<noteq> i" "n \<in> P" using n i b by (auto simp: built_def)
    moreover have "table_of s n \<in> used_frames (pg_pmm s)" "table_of s n \<noteq> kernel_page_directory s"
      using b n' by (auto simp: built_def)
    ultimately have "pte s3 n j = pte s n j" if "j < 1024" for j using ld o that by (simp add: pte_def)
    with n n' b show ?thesis by (simp add: built_def)
  qed
  moreover have "kernel_page_directory s3 \<in> used_frames (pg_pmm s3)" using us d by simp
  ultimately show "built D (insert i P) k s3" using us(2,3) unfolding built_def by blast
qed

lemma built_alloc:
  assumes "built D P k s" "0 < free_count s"
  obtains t s1 where "alloc_page_table s = (t, s1)" "t \<noteq> 0" "fresh_frame t s s1"
proof -
  have ok: "pmm_ok (pg_pmm s)" "page_aligned (pmm_memory_start (pg_pmm s))" using assms by (simp_all add: built_def)
  obtain t s1 where a: "alloc_page_table s = (t, s1)" by fastforce
  have "used_frames (pg_pmm s) \<noteq> all_frames (pg_pmm s)" using assms(2) by (auto simp: free_count_def)
  then have "t \<noteq> 0"
    using pa.alloc_succeeds [OF ok(1)] a by (auto simp: alloc_page_table_def Let_def split: prod.splits if_splits)
  with that a alloc_page_table_fresh(1) [OF ok a] show thesis by blast
qed

lemma identity_map_built:
  "built D {..<k} k s \<Longrightarrow> n \<le> free_count s \<Longrightarrow> k + n \<le> 1024 \<Longrightarrow>
     fst (identity_map k n s) \<and> built D {..<k + n} (k + n) (snd (identity_map k n s))
     \<and> free_count (snd (identity_map k n s)) = free_count s - n"
proof (induction n arbitrary: k s)
  case (Suc n)
  have "0 < free_count s" using Suc.prems(2) by simp
  with Suc.prems(1) obtain t s1 where a: "alloc_page_table s = (t, s1)" "t \<noteq> 0" and f: "fresh_frame t s s1"
    by (rule built_alloc)
  have t: "page_aligned t" using f by (simp add: fresh_frame_def)
  let ?s = "s1\<lparr>pg_mem := fill_table t (of_nat k) 0 1024 (pg_mem s1)\<rparr>"
  have f': "fresh_frame t s ?s" by (rule fresh_frame_cong [OF f]) (simp add: fill_table_loads t)
  have k: "k < 1024" using Suc.prems(3) by simp
  note e = built_enter [OF Suc.prems(1) f' k order_refl]
  let ?s3 = "set_pde k (t OR PAGE_PRESENT OR PAGE_WRITE) ?s"
  have "pte ?s3 k j = ((of_nat k * 1024 + of_nat j) * PAGE_SIZE) OR 3" if "j < 1024" for j
    using e(3) [OF that] that by (simp add: fill_table_loads t)
  then have "built D {..<Suc k} (Suc k) ?s3"
    using e(1) by (auto simp: built_def lessThan_Suc less_Suc_eq)
  with e(2) Suc.prems a Suc.IH [of "Suc k"] show ?case by (simp add: Let_def)
qed simp

lemma heap_tables_built:
  "built D P k s \<Longrightarrow> n \<le> free_count s \<Longrightarrow> h + n \<le> 1024 \<Longrightarrow> k \<le> h \<Longrightarrow>
   a = of_nat (h * 0x400000) \<Longrightarrow> built D (P \<union> {h..<h + n}) k (heap_tables a n s)"
proof (induction n arbitrary: h a P s)
  case (Suc n)
  have "0 < free_count s" using Suc.prems(2) by simp
  with Suc.prems(1) obtain t s1 where a: "alloc_page_table s = (t, s1)" "t \<noteq> 0" and f: "fresh_frame t s s1"
    by (rule built_alloc)
  have "h * 0x400000 < 4294967296" using Suc.prems(3) by simp
  then have "unat a = h * 0x400000" unfolding Suc.prems(5) by (rule unat_u32_of_nat)
  then have h: "pd_index a = h" by (simp add: index_eq div_mult2_eq [symmetric])
  have n: "a + PAGE_SIZE * 1024 = of_nat (Suc h * 0x400000)" using Suc.prems(5) by (simp add: algebra_simps)
  have un: "P \<union> {h..<h + Suc n} = insert h P \<union> {Suc h..<Suc h + n}" by auto
  have h': "h < 1024" using Suc.prems(3) by simp
  note e = built_enter [OF Suc.prems(1) f h' Suc.prems(4)]
  have "built D (insert h P \<union> {Suc h..<Suc h + n}) k
      (heap_tables (a + PAGE_SIZE * 1024) n (set_pde h (t OR PAGE_PRESENT OR PAGE_WRITE) s1))"
    using e Suc.prems(2-4) by (intro Suc.IH [OF e(1) _ _ _ n]) auto
  with a show ?case unfolding un by (simp add: Let_def h)
qed simp

lemma paging_init_built:
  assumes ok: "pmm_ok (pg_pmm s)" "page_aligned (pmm_memory_start (pg_pmm s))" and n: "69 \<le> free_count s"
  defines "d \<equiv> fst (pmm_alloc_page (pg_pmm s))"
  shows "built (\<lambda>i. load32 (mem_memset (pg_mem s) d 0 4096) (entry_addr d i)) ({..<4} \<union> {768..<832}) 4 (paging_init s)"
proof -
  obtain p where a: "pmm_alloc_page (pg_pmm s) = (d, p)" by (metis d_def prod.collapse)
  have "used_frames (pg_pmm s) \<noteq> all_frames (pg_pmm s)" using n by (auto simp: free_count_def)
  then have d: "d \<noteq> 0" using pa.alloc_succeeds [OF ok(1)] a by simp
  let ?s1 = "s\<lparr>pg_pmm := p, pg_mem := mem_memset (pg_mem s) d 0 4096\<rparr>"
  let ?s = "s\<lparr>pg_pmm := p, kernel_page_directory := d, pg_mem := mem_memset (pg_mem s) d 0 4096\<rparr>"
  let ?D = "\<lambda>i. load32 (mem_memset (pg_mem s) d 0 4096) (entry_addr d i)"
  have f: "fresh_frame d s ?s1"
    using alloc_page_table_fresh(1) [OF ok, of d ?s1] a d by (simp add: alloc_page_table_def)
  have c: "free_count ?s = free_count s - 1" using fresh_free_count(1) [OF f] by (simp add: free_count_def)
  have "built ?D {..<0} 0 ?s" using f ok by (simp add: built_def fresh_frame_def pde_def)
  from identity_map_built [OF this, of 4] n c
  have i: "fst (identity_map 0 4 ?s)" "built ?D {..<4} 4 (snd (identity_map 0 4 ?s))"
    "free_count (snd (identity_map 0 4 ?s)) = free_count ?s - 4" by simp_all
  obtain s' where s': "identity_map 0 4 ?s = (True, s')" using i(1) by (metis prod.collapse)
  have "built ?D ({..<4} \<union> {768..<768 + 64}) 4 (heap_tables KERNEL_HEAP_START 64 s')"
    using i s' c n by (intro heap_tables_built) auto
  with a d s' show ?thesis by (simp add: paging_init_def Let_def)
qed

lemmas paging_init_tables = paging_init_state [THEN conjunct1]

lemma tables_are_get:
  assumes "tables_are P k s"
  shows "get_physical_address v s = (if pd_index v \<in> P \<and> pd_index v < k then v else 0)"
proof -
  have 1: "pte s (pd_index v) (pt_index v) = (if pd_index v < k
      then ((of_nat (pd_index v) * 1024 + of_nat (pt_index v)) * PAGE_SIZE) OR 3 else 0)" if "pd_index v \<in> P"
    using assms that by (simp add: tables_are_def)
  have 2: "(((of_nat (pd_index v) * 1024 + of_nat (pt_index v)) * PAGE_SIZE) OR 3) AND 1 \<noteq> 0"
    using entry_present [OF frame_and_offset(1), of v 3] by simp
  have 3: "(((of_nat (pd_index v) * 1024 + of_nat (pt_index v)) * PAGE_SIZE) OR 3) AND FRAME_MASK =
      (of_nat (pd_index v) * 1024 + of_nat (pt_index v)) * PAGE_SIZE"
    by (rule entry_frame [OF frame_and_offset(1)]) simp
  have 4: "pde_present s (pd_index v) \<longleftrightarrow> pd_index v \<in> P" using assms by (simp add: tables_are_def)
  show ?thesis
    unfolding get_physical_address_pte 4 using 1 2 3 frame_and_offset(2) [of v] by auto
qed

lemma built_get:
  assumes "built D P k s" "pd_index v < k"
  shows "get_physical_address v s = v"
proof -
  let ?e = "((of_nat (pd_index v) * 1024 + of_nat (pt_index v)) * PAGE_SIZE) OR 3"
  have "pde_present s (pd_index v)" "pte s (pd_index v) (pt_index v) = ?e"
    using assms by (auto simp: built_def)
  moreover have "?e AND 1 \<noteq> 0" using entry_present [OF frame_and_offset(1), of v 3] by simp
  moreover have "?e AND FRAME_MASK = (of_nat (pd_index v) * 1024 + of_nat (pt_index v)) * PAGE_SIZE"
    by (rule entry_frame [OF frame_and_offset(1)]) simp
  ultimately show ?thesis unfolding get_physical_address_pte using frame_and_offset(2) [of v] by auto
qed

lemma tables_are_ok: "tables_are P k s \<Longrightarrow> paging_ok s"
  by (simp add: tables_are_def)

lemma pd_index_low: "pd_index v < 4 \<longleftrightarrow> v < 0x1000000"
  by (simp add: index_eq word_less_nat_alt div_mult2_eq [symmetric] div_less_iff_less_mult)


section \<open>Properties\<close>

lemma free_count_pages:
  assumes "pmm_ok (pg_pmm s)"
  shows "free_count s = card (free_page_set (pg_pmm s))"
proof -
  let ?p = "pg_pmm s"
  have "inj_on (page_addr ?p) {..<total_pages ?p}" using page_addr_inj [OF assms] by (auto simp: inj_on_def)
  moreover from this have "all_frames ?p - used_frames ?p = page_addr ?p ` free_page_set ?p"
    using used_pages_subset by (simp add: all_frames_def used_frames_def free_page_set_eq inj_on_image_set_diff)
  ultimately show ?thesis
    by (simp add: free_count_def card_image inj_on_subset free_page_set_eq)
qed

text \<open>The machine after \<open>pmm_init(NULL)\<close> with cleared memory, and after \<open>paging_init\<close>.\<close>

definition boot_paging :: paging where
  "boot_paging = \<lparr>pg_pmm = pmm_init_fallback, pg_mem = (\<lambda>_. 0), kernel_page_directory = 0,
     kernel_page_tables = replicate 1024 0, pg_cr3 = 0, pg_cr0 = 0, pg_out = []\<rparr>"

lemma boot_paging_ready:
  "pmm_ok (pg_pmm boot_paging)" "page_aligned (pmm_memory_start (pg_pmm boot_paging))"
  "zero_free boot_paging" "69 \<le> free_count boot_paging"
proof -
  show ok: "pmm_ok (pg_pmm boot_paging)" by (simp add: boot_paging_def pmm_init_fallback_ok)
  show "page_aligned (pmm_memory_start (pg_pmm boot_paging))" by (simp add: boot_paging_def page_aligned_def)
  show "zero_free boot_paging" by (simp add: zero_free_def boot_paging_def load32_eq_0)
  have "free_page_set pmm_init_fallback = {..<1024} - {512}"
    by (auto simp: free_page_set_def bitmap_test_fallback)
  then show "69 \<le> free_count boot_paging"
    unfolding free_count_pages [OF ok] by (simp add: boot_paging_def)
qed

lemmas booted_tables = paging_init_tables [OF boot_paging_ready]

lemma pd_index_heap:
  "KERNEL_HEAP_START \<le> v \<and> v < KERNEL_HEAP_START + KERNEL_HEAP_SIZE \<longleftrightarrow> 768 \<le> pd_index v \<and> pd_index v < 832"
  by (simp add: word_le_nat_alt word_less_nat_alt index_eq div_mult2_eq [symmetric] div_less_iff_less_mult
      less_eq_div_iff_mult_less_eq)



text \<open>A directory without tables, with a stale word in the next free frame.\<close>

definition stale_paging :: paging where
  "stale_paging = boot_paging\<lparr>pg_pmm := snd (pmm_alloc_page pmm_init_fallback), kernel_page_directory := 0x100000,
     pg_mem := store32 (\<lambda>_. 0) (entry_addr 0x101000 2) 0xABC003\<rparr>"

lemma stale_paging_facts:
  "paging_ok stale_paging" "i < 1024 \<Longrightarrow> \<not> pde_present stale_paging i"
  "fst (pmm_alloc_page (pg_pmm stale_paging)) = 0x101000"
proof -
  let ?s = stale_paging
  have a: "pmm_alloc_page pmm_init_fallback = (0x100000, pg_pmm ?s)"
    by (rule prod_eqI) (simp_all add: stale_paging_def, code_simp)
  note f = pa.alloc_page [OF pmm_init_fallback_ok a]
  have al: "page_aligned 0x100000" "page_aligned 0x101000" by (simp_all add: page_aligned_dvd)
  show np: "\<not> pde_present ?s i" if "i < 1024" for i
    using that al by (simp add: pde_present_def pde_def stale_paging_def) (simp add: load32_def)
  have "pmm_memory_start (pg_pmm ?s) = 0x100000" by (simp add: stale_paging_def)
  moreover have "kernel_page_directory ?s = 0x100000" by (simp add: stale_paging_def)
  ultimately show "paging_ok ?s" using f np al(1) by (simp add: paging_ok_def)
  show "fst (pmm_alloc_page (pg_pmm ?s)) = 0x101000" by (simp add: stale_paging_def, code_simp)
qed

text \<open>
  C4: with flags that are flag bits and contain PRESENT, \<open>map_page(virtual, physical, flags)\<close> keeps the
  directory and its tables in distinct frames and has exactly this effect on the translation of every
  address: if the page has no table and no frame is left for one, nothing changes; otherwise the addresses
  of the page translate into the given frame at the same offset. Any other address translates as before,
  except when a new table had to be made for its 4 MiB region: then it translates by whatever the frame of
  the new table held, since \<open>memset\<close> has cleared one byte of it only.
\<close>

theorem map_page_translates:
  assumes "paging_ok s" "flag_bits flags" "flags AND PAGE_PRESENT \<noteq> 0"
  shows "paging_ok (map_page v p flags s)
    \<and> get_physical_address w (map_page v p flags s) =
       (if \<not> can_map v s then get_physical_address w s
        else if same_page v w then (p AND FRAME_MASK) + (w AND 0xFFF)
        else if pde_present s (pd_index v) \<or> pd_index w \<noteq> pd_index v then get_physical_address w s
        else let t = fst (pmm_alloc_page (pg_pmm s));
                 e = load32 (mem_memset (pg_mem s) t 0 4096) (entry_addr t (pt_index w))
             in if e AND PAGE_PRESENT = 0 then 0 else (e AND FRAME_MASK) + (w AND 0xFFF))"
proof -
  have n: "get_physical_address w (map_page v p flags s) =
      (let t = fst (pmm_alloc_page (pg_pmm s));
           e = load32 (mem_memset (pg_mem s) t 0 4096) (entry_addr t (pt_index w))
       in if e AND PAGE_PRESENT = 0 then 0 else (e AND FRAME_MASK) + (w AND 0xFFF))"
    if c: "can_map v s" and p: "\<not> pde_present s (pd_index v)" "pd_index w = pd_index v" "\<not> same_page v w"
  proof -
    obtain t p' where a: "pmm_alloc_page (pg_pmm s) = (t, p')" by fastforce
    have t: "t \<noteq> 0" using pa.alloc_succeeds [OF paging_okD(1) [OF assms(1)]] c p(1) a by (simp add: can_map_def)
    have j: "pt_index w \<noteq> pt_index v" using p by (simp add: same_page_index)
    show ?thesis using map_page_new_entries [OF assms(1) p(1) a t index_bounds(2) j] p(2)
      by (simp add: get_physical_address_pte a)
  qed
  have o: "get_physical_address w (map_page v p flags s) = get_physical_address w s"
    if "\<not> same_page v w" "pde_present s (pd_index v) \<or> pd_index w \<noteq> pd_index v"
    using map_page_other [OF assms(1) that(1)] that(2) by (cases "pd_index v = pd_index w") auto
  note same = map_page_same [OF assms(1) _ assms(2)]
  show ?thesis
    using map_page_ok [OF assms(1)] map_page_fails [OF assms(1)] same n o assms(3) by simp
qed

theorem map_page_translates_witness:
  "(let s = map_page 0xC0001000 0x300000 3 (paging_init boot_paging)
    in paging_ok s \<and> get_physical_address 0xC0001234 s = 0x300234 \<and> get_physical_address 0x1234 s = 0x1234)
   \<and> get_physical_address 0x402345 stale_paging = 0
   \<and> get_physical_address 0x402345 (map_page 0x400000 0x300000 3 stale_paging) = 0xABC345"
proof -
  let ?s = "paging_init boot_paging"
  have i: "pd_index 0xC0001000 = 768" "pd_index 0x1234 = 0" "pt_index 0xC0001000 = 1" "pt_index 0x1234 = 1"
    "pd_index 0xC0001234 = 768" "pt_index 0xC0001234 = 1" by (simp_all add: index_eq)
  have c: "can_map 0xC0001000 ?s" and z: "pde_present ?s 0"
    using booted_tables i by (simp_all add: can_map_def tables_are_def)
  have g: "get_physical_address 0x1234 ?s = 0x1234" using tables_are_get [OF booted_tables, of "0x1234"] i by simp
  note m = map_page_translates [OF tables_are_ok [OF booted_tables], of 3 "0xC0001000" "0x300000"]
  have "same_page 0xC0001000 0xC0001234" "\<not> same_page 0xC0001000 0x1234" by (simp_all add: same_page_index i)
  then have 1: "let s = map_page 0xC0001000 0x300000 3 ?s
      in paging_ok s \<and> get_physical_address 0xC0001234 s = 0x300234 \<and> get_physical_address 0x1234 s = 0x1234"
    using m [of "0xC0001234"] m [of "0x1234"] z g i c by (simp add: Let_def)
  have j: "pd_index 0x402345 = 1" "pd_index 0x400000 = 1" "pt_index 0x402345 = 2" "pt_index 0x400000 = 0"
    by (simp_all add: index_eq)
  have np: "\<not> pde_present stale_paging 1" using stale_paging_facts(2) [of 1] by simp
  have "used_frames (pg_pmm stale_paging) \<noteq> all_frames (pg_pmm stale_paging)"
    using pa.alloc_page [OF paging_okD(1) [OF stale_paging_facts(1)]] stale_paging_facts(3)
    by (cases "pmm_alloc_page (pg_pmm stale_paging)") auto
  then have c2: "can_map 0x400000 stale_paging" by (simp add: can_map_def)
  have "load32 (mem_memset (pg_mem stale_paging) 0x101000 0 4096) (entry_addr 0x101000 2) = 0xABC003"
    by (simp add: stale_paging_def mem_memset_eq) (simp add: load32_def store32_def entry_addr_def)
  with map_page_translates [OF stale_paging_facts(1), of 3 "0x400000" "0x300000" "0x402345"]
  have "get_physical_address 0x402345 (map_page 0x400000 0x300000 3 stale_paging) = 0xABC345"
    using c2 np j by (simp add: Let_def stale_paging_facts(3) same_page_index)
  moreover have "get_physical_address 0x402345 stale_paging = 0"
    using np j by (simp add: get_physical_address_pte)
  ultimately show ?thesis using 1 by blast
qed

text \<open>
  After \<open>unmap_page(virtual)\<close> no address of that page translates, and every other address translates as
  before; mapping a page and unmapping it again changes no other translation.
\<close>

theorem unmap_page_translates:
  assumes "paging_ok s"
  shows "paging_ok (unmap_page v s)
    \<and> get_physical_address w (unmap_page v s) = (if same_page v w then 0 else get_physical_address w s)
    \<and> (pde_present s (pd_index v) \<and> pde_present s (pd_index w) \<and> flag_bits f \<and> f AND PAGE_PRESENT \<noteq> 0 \<longrightarrow>
        get_physical_address w (unmap_page v (map_page v p f s)) = (if same_page v w then 0 else get_physical_address w s))"
  using unmap_page_ok [OF assms] unmap_page_get [OF assms] vm.look_map_unmap [OF assms] by blast

theorem unmap_page_translates_witness:
  "let s = unmap_page 0x1000 (paging_init boot_paging)
   in get_physical_address 0x1234 s = 0 \<and> get_physical_address 0x2234 s = 0x2234"
proof -
  note m = unmap_page_translates [OF tables_are_ok [OF booted_tables], of "0x1000"]
  have i: "pd_index 0x1000 = 0" "pt_index 0x1000 = 1" "pd_index 0x1234 = 0" "pt_index 0x1234 = 1"
    "pd_index 0x2234 = 0" "pt_index 0x2234 = 2" by (simp_all add: index_eq)
  have "get_physical_address 0x2234 (paging_init boot_paging) = 0x2234"
    using tables_are_get [OF booted_tables, of "0x2234"] i by simp
  with m [of "0x1234"] m [of "0x2234"] show ?thesis by (simp add: Let_def same_page_index i)
qed

text \<open>
  When \<open>map_page\<close> has to allocate a page table, the entries of the new table beyond the first and the
  mapped one are the words the frame held before, so stale memory becomes live translations: \<open>memset\<close>
  stores only one byte.
\<close>

theorem map_page_stale_entries:
  assumes "paging_ok s" "\<not> pde_present s (pd_index v)" "pmm_alloc_page (pg_pmm s) = (t, p')" "t \<noteq> 0"
    and "pd_index w = pd_index v" "0 < pt_index w" "pt_index w \<noteq> pt_index v"
  shows "get_physical_address w (map_page v p flags s) =
    (let e = load32 (pg_mem s) (entry_addr t (pt_index w))
     in if e AND PAGE_PRESENT = 0 then 0 else (e AND FRAME_MASK) + (w AND 0xFFF))"
  using map_page_new_table [OF assms(1-4) assms(6) index_bounds(2) assms(7), of p flags] assms(5)
  by (simp add: get_physical_address_pte Let_def)


theorem map_page_stale_entries_witness:
  "get_physical_address 0x402345 stale_paging = 0
   \<and> get_physical_address 0x402345 (map_page 0x400000 0x300000 3 stale_paging) = 0xABC345"
proof -
  obtain p' where a: "pmm_alloc_page (pg_pmm stale_paging) = (0x101000, p')"
    using stale_paging_facts(3) by (metis prod.collapse)
  have i: "pd_index 0x402345 = 1" "pd_index 0x400000 = 1" "pt_index 0x402345 = 2" "pt_index 0x400000 = 0"
    by (simp_all add: index_eq)
  have np: "\<not> pde_present stale_paging 1" using stale_paging_facts(2) [of 1] by simp
  have "load32 (pg_mem stale_paging) (entry_addr 0x101000 2) = 0xABC003"
    by (simp add: stale_paging_def load32_store32_same)
  then show ?thesis
    using map_page_stale_entries [OF stale_paging_facts(1) _ a, of "0x400000" "0x402345" "0x300000" 3] np i
    by (simp add: Let_def get_physical_address_pte)
qed

end
