(* ===== verification/Kheap.thy ===== *)
theory Kheap
  imports Paging
begin

text \<open>
  The kernel heap of \<^verbatim>\<open>src/kernel/kernel.c\<close>: pages taken from the page allocator and mapped one after
  the other from \<open>HEAP_START\<close>, each with a page header of six words and a doubly linked list of blocks,
  each block with a header of six words in front of its payload. \<open>kh_mem\<close> is the memory at the virtual
  addresses of the heap; all links are addresses in it and every header access is a load or store there.

  The loops follow links read from memory, so they are partial functions: \<open>None\<close> is a loop that does not
  end. For a heap that represents lists of blocks (\<open>heap_rep\<close>) the lemmas show that they end and what
  \<open>kmalloc\<close> and \<open>kfree\<close> do to these lists.
\<close>

section \<open>Headers\<close>

abbreviation HEAP_START :: u32 where "HEAP_START \<equiv> 0xC0000000"
abbreviation HEAP_SIZE :: u32 where "HEAP_SIZE \<equiv> 0x10000000"
abbreviation HEAP_PAGE_MAGIC :: u32 where "HEAP_PAGE_MAGIC \<equiv> 0xC0FFEE42"
abbreviation HEAP_BLOCK_MAGIC :: u32 where "HEAP_BLOCK_MAGIC \<equiv> 0xA110CA7E"

text \<open>\<open>struct heap_block\<close> and \<open>struct heap_page\<close>: the offsets of the fields; both are 24 bytes long.\<close>

definition hb_magic :: "addr \<Rightarrow> addr" where "hb_magic b = b"
definition hb_size :: "addr \<Rightarrow> addr" where "hb_size b = b + 4"
definition hb_next :: "addr \<Rightarrow> addr" where "hb_next b = b + 8"
definition hb_prev :: "addr \<Rightarrow> addr" where "hb_prev b = b + 12"
definition hb_free :: "addr \<Rightarrow> addr" where "hb_free b = b + 16"
definition hb_page :: "addr \<Rightarrow> addr" where "hb_page b = b + 20"

definition hp_magic :: "addr \<Rightarrow> addr" where "hp_magic p = p"
definition hp_phys :: "addr \<Rightarrow> addr" where "hp_phys p = p + 4"
definition hp_virt :: "addr \<Rightarrow> addr" where "hp_virt p = p + 8"
definition hp_next :: "addr \<Rightarrow> addr" where "hp_next p = p + 12"
definition hp_prev :: "addr \<Rightarrow> addr" where "hp_prev p = p + 16"
definition hp_first :: "addr \<Rightarrow> addr" where "hp_first p = p + 20"

lemmas hb_defs = hb_magic_def hb_size_def hb_next_def hb_prev_def hb_free_def hb_page_def
lemmas hp_defs = hp_magic_def hp_phys_def hp_virt_def hp_next_def hp_prev_def hp_first_def

record kheap =
  kh_paging :: paging
  kh_mem :: memory
  heap_pages :: addr
  heap_next_virtual :: addr
  kh_out :: "string list"

definition align_up :: "u32 \<Rightarrow> u32 \<Rightarrow> u32" where
  "align_up x alignment = (let msk = alignment - 1 in (x + msk) AND NOT msk)"

definition align_down :: "u32 \<Rightarrow> u32 \<Rightarrow> u32" where
  "align_down x alignment = (let msk = alignment - 1 in x AND NOT msk)"

section \<open>Validation\<close>

text \<open>The test of the link to the next block at the end of \<open>heap_validate_block\<close>.\<close>

definition valid_next :: "memory \<Rightarrow> addr \<Rightarrow> addr \<Rightarrow> bool" where
  "valid_next m page block =
     (let page_start = load32 m (hp_virt page); page_end = page_start + PAGE_SIZE;
          expected_next = block + 24 + load32 m (hb_size block);
          next_addr = load32 m (hb_next block)
      in if next_addr = 0 then True
         else if next_addr < page_start \<or> next_addr > page_end then False
         else if next_addr + 24 > page_end then False
         else if next_addr \<noteq> expected_next then False
         else if load32 m (hb_magic next_addr) \<noteq> HEAP_BLOCK_MAGIC then False
         else load32 m (hb_prev next_addr) = block)"

definition heap_validate_block :: "memory \<Rightarrow> addr \<Rightarrow> addr \<Rightarrow> bool" where
  "heap_validate_block m page block =
     (if page = 0 \<or> block = 0 then False
      else if load32 m (hb_magic block) \<noteq> HEAP_BLOCK_MAGIC then False
      else if load32 m (hb_page block) \<noteq> page then False
      else
        let page_start = load32 m (hp_virt page); page_end = page_start + PAGE_SIZE; block_addr = block
        in if block_addr < page_start \<or> block_addr + 24 > page_end then False
           else if block_addr AND 7 \<noteq> 0 then False
           else if load32 m (hb_size block) = 0 \<or> load32 m (hb_size block) AND 7 \<noteq> 0 then False
           else
             let block_end = block_addr + 24
             in if block_end > page_end \<or> load32 m (hb_size block) > page_end - block_end then False
                else valid_next m page block)"

partial_function (option) validate_loop :: "memory \<Rightarrow> addr \<Rightarrow> addr \<Rightarrow> bool option" where
  "validate_loop m page current =
     (if current = 0 then Some True
      else if \<not> heap_validate_block m page current then Some False
      else validate_loop m page (load32 m (hb_next current)))"

definition heap_validate_page :: "memory \<Rightarrow> addr \<Rightarrow> bool option" where
  "heap_validate_page m page =
     (if page = 0 \<or> load32 m (hp_magic page) \<noteq> HEAP_PAGE_MAGIC then Some False
      else if load32 m (hp_virt page) < HEAP_START
              \<or> load32 m (hp_virt page) + PAGE_SIZE > HEAP_START + HEAP_SIZE then Some False
      else if load32 m (hp_first page) = 0 then Some False
      else if load32 m (hb_page (load32 m (hp_first page))) \<noteq> page then Some False
      else validate_loop m page (load32 m (hp_first page)))"

partial_function (option) find_loop :: "memory \<Rightarrow> addr \<Rightarrow> u32 \<Rightarrow> addr \<Rightarrow> addr option" where
  "find_loop m page sz current =
     (if current = 0 then Some 0
      else if \<not> heap_validate_block m page current then Some 0
      else if load32 m (hb_free current) \<noteq> 0 \<and> load32 m (hb_size current) \<ge> sz then Some current
      else find_loop m page sz (load32 m (hb_next current)))"

definition heap_find_free_block :: "memory \<Rightarrow> addr \<Rightarrow> u32 \<Rightarrow> addr option" where
  "heap_find_free_block m page sz =
     do { ok \<leftarrow> heap_validate_page m page;
          if \<not> ok then Some 0 else find_loop m page sz (load32 m (hp_first page)) }"

section \<open>Growing the heap\<close>

text \<open>The headers \<open>heap_alloc_page\<close> writes into a newly mapped page.\<close>

definition init_heap_page :: "memory \<Rightarrow> addr \<Rightarrow> addr \<Rightarrow> memory" where
  "init_heap_page m virt phys =
     (let page = virt;
          m = mem_memset m page 0 24;
          m = store32 m (hp_magic page) HEAP_PAGE_MAGIC;
          m = store32 m (hp_phys page) phys;
          m = store32 m (hp_virt page) virt;
          block_addr = align_up (virt + 24) 8;
          block_size = PAGE_SIZE - (block_addr - virt) - 24;
          block_size = align_down block_size 8;
          block = block_addr;
          m = mem_memset m block 0 24;
          m = store32 m (hb_magic block) HEAP_BLOCK_MAGIC;
          m = store32 m (hb_size block) block_size;
          m = store32 m (hb_next block) 0;
          m = store32 m (hb_prev block) 0;
          m = store32 m (hb_free block) 1;
          m = store32 m (hb_page block) page
      in store32 m (hp_first page) block)"

definition heap_alloc_page :: "kheap \<Rightarrow> addr \<times> kheap" where
  "heap_alloc_page s =
     (if heap_next_virtual s + PAGE_SIZE > HEAP_START + HEAP_SIZE then (0, s)
      else
        let (phys, p) = pmm_alloc_page (pg_pmm (kh_paging s));
            s = s\<lparr>kh_paging := (kh_paging s)\<lparr>pg_pmm := p\<rparr>\<rparr>
        in if phys = 0 then (0, s)
           else
             let virt = heap_next_virtual s;
                 s = s\<lparr>heap_next_virtual := heap_next_virtual s + PAGE_SIZE\<rparr>;
                 s = s\<lparr>kh_paging := map_page virt phys (PAGE_PRESENT OR PAGE_WRITE) (kh_paging s)\<rparr>;
                 page = virt;
                 m = init_heap_page (kh_mem s) virt phys;
                 m = store32 m (hp_next page) (heap_pages s);
                 m = store32 m (hp_prev page) 0;
                 m = (if heap_pages s \<noteq> 0 then store32 m (hp_prev (heap_pages s)) page else m)
             in (page, s\<lparr>kh_mem := m, heap_pages := page\<rparr>))"

definition heap_init :: "kheap \<Rightarrow> kheap" where
  "heap_init s =
     (let s = s\<lparr>heap_pages := 0, heap_next_virtual := HEAP_START\<rparr>;
          (page, s) = heap_alloc_page s
      in if page = 0 then s\<lparr>kh_out := kh_out s @ [''Failed to allocate heap page'']\<rparr> else s)"

section \<open>Allocation\<close>

text \<open>Cutting the remainder up to the end of the page off the chosen block.\<close>

definition split_block :: "memory \<Rightarrow> addr \<Rightarrow> addr \<Rightarrow> u32 \<Rightarrow> u32 \<Rightarrow> addr \<Rightarrow> memory" where
  "split_block m page block sz remaining new_block =
     (let m = mem_memset m new_block 0 24;
          m = store32 m (hb_magic new_block) HEAP_BLOCK_MAGIC;
          m = store32 m (hb_size new_block) (align_down (remaining - 24) 8);
          m = store32 m (hb_free new_block) 1;
          m = store32 m (hb_page new_block) page;
          m = store32 m (hb_prev new_block) block;
          m = store32 m (hb_next new_block) (load32 m (hb_next block));
          m = (if load32 m (hb_next block) \<noteq> 0
               then store32 m (hb_prev (load32 m (hb_next block))) new_block else m);
          m = store32 m (hb_next block) new_block
      in store32 m (hb_size block) sz)"

text \<open>The body of the \<open>if (block)\<close> in \<open>kmalloc\<close>; \<open>None\<close> is the reported corrupted boundary.\<close>

definition take_block :: "memory \<Rightarrow> addr \<Rightarrow> addr \<Rightarrow> u32 \<Rightarrow> (addr \<times> memory) option" where
  "take_block m page block sz =
     (let block_addr = block;
          page_end = load32 m (hp_virt page) + PAGE_SIZE;
          payload_end = block_addr + 24
      in if payload_end > page_end then None
         else
           let m = (if sz \<le> page_end - payload_end then
                      let remainder = payload_end + sz; remaining = page_end - remainder
                      in if remaining \<ge> 24 + 16 then split_block m page block sz remaining remainder else m
                    else m)
           in Some (block + 24, store32 m (hb_free block) 0))"

datatype page_scan = Corrupted | Found addr addr | Exhausted

partial_function (option) scan_pages :: "memory \<Rightarrow> u32 \<Rightarrow> addr \<Rightarrow> page_scan option" where
  "scan_pages m sz page =
     (if page = 0 then Some Exhausted
      else do { ok \<leftarrow> heap_validate_page m page;
                if \<not> ok then Some Corrupted
                else do { block \<leftarrow> heap_find_free_block m page sz;
                          if block \<noteq> 0 then Some (Found page block)
                          else scan_pages m sz (load32 m (hp_next page)) } })"

partial_function (option) kmalloc_loop :: "u32 \<Rightarrow> kheap \<Rightarrow> (addr \<times> kheap) option" where
  "kmalloc_loop sz s =
     do { r \<leftarrow> scan_pages (kh_mem s) sz (heap_pages s);
          case r of
            Corrupted \<Rightarrow> Some (0, s\<lparr>kh_out := kh_out s @ [''heap: corrupted page detected'']\<rparr>)
          | Found page block \<Rightarrow>
              (case take_block (kh_mem s) page block sz of
                 None \<Rightarrow> Some (0, s\<lparr>kh_out := kh_out s @ [''heap: corrupted block boundary'']\<rparr>)
               | Some (p, m) \<Rightarrow> Some (p, s\<lparr>kh_mem := m\<rparr>))
          | Exhausted \<Rightarrow>
              let (page, s) = heap_alloc_page s
              in if page = 0 then Some (0, s) else kmalloc_loop sz s }"

definition kmalloc :: "u32 \<Rightarrow> kheap \<Rightarrow> (addr \<times> kheap) option" where
  "kmalloc sz s =
     (if sz = 0 then Some (0, s)
      else if sz > - 1 - (8 - 1) then Some (0, s)
      else kmalloc_loop (align_up sz 8) s)"

section \<open>Release\<close>

text \<open>The last part of \<open>kfree\<close>: marking the block free and merging it with free neighbours.\<close>

definition merge_next :: "memory \<Rightarrow> addr \<Rightarrow> memory" where
  "merge_next m block =
     (if load32 m (hb_next block) \<noteq> 0 \<and> load32 m (hb_free (load32 m (hb_next block))) \<noteq> 0 then
        let m = store32 m (hb_size block)
                  (load32 m (hb_size block) + (24 + load32 m (hb_size (load32 m (hb_next block)))));
            m = store32 m (hb_next block) (load32 m (hb_next (load32 m (hb_next block))))
        in if load32 m (hb_next block) \<noteq> 0 then store32 m (hb_prev (load32 m (hb_next block))) block else m
      else m)"

definition merge_prev :: "memory \<Rightarrow> addr \<Rightarrow> memory" where
  "merge_prev m block =
     (if load32 m (hb_prev block) \<noteq> 0 \<and> load32 m (hb_free (load32 m (hb_prev block))) \<noteq> 0 then
        let m = store32 m (hb_size (load32 m (hb_prev block)))
                  (load32 m (hb_size (load32 m (hb_prev block))) + (24 + load32 m (hb_size block)));
            m = store32 m (hb_next (load32 m (hb_prev block))) (load32 m (hb_next block))
        in if load32 m (hb_next block) \<noteq> 0
           then store32 m (hb_prev (load32 m (hb_next block))) (load32 m (hb_prev block)) else m
      else m)"

definition release_block :: "memory \<Rightarrow> addr \<Rightarrow> memory" where
  "release_block m block = merge_prev (merge_next (store32 m (hb_free block) 1) block) block"

definition kfree :: "addr \<Rightarrow> kheap \<Rightarrow> kheap option" where
  "kfree ptr s =
     (let m = kh_mem s; block = ptr - 24
      in if ptr = 0 then Some s
         else if ptr < HEAP_START \<or> ptr \<ge> HEAP_START + HEAP_SIZE then Some s
         else if block < HEAP_START \<or> block \<ge> HEAP_START + HEAP_SIZE then Some s
         else if load32 m (hb_magic block) \<noteq> HEAP_BLOCK_MAGIC then Some s
         else
           let page = load32 m (hb_page block)
           in if page = 0 \<or> load32 m (hp_magic page) \<noteq> HEAP_PAGE_MAGIC then Some s
              else do {
                ok \<leftarrow> heap_validate_page m page;
                if \<not> ok then Some (s\<lparr>kh_out := kh_out s @ [''heap: corrupted page detected during free'']\<rparr>)
                else
                  let page_start = load32 m (hp_virt page); page_end = page_start + PAGE_SIZE
                  in if block < page_start \<or> block + 24 > page_end then Some s
                     else if load32 m (hb_next block) \<noteq> 0
                             \<and> load32 m (hb_next block) \<noteq> block + 24 + load32 m (hb_size block)
                     then Some (s\<lparr>kh_out := kh_out s @ [''heap: corrupted block links'']\<rparr>)
                     else if load32 m (hb_free block) \<noteq> 0 then Some s
                     else Some (s\<lparr>kh_mem := release_block m block\<rparr>) })"


section \<open>Cells of a heap page\<close>

text \<open>
  A heap page is page aligned and lies in the heap's range; its 1024 words are cells. A block whose header
  starts at cell \<open>w\<close> has its payload from cell \<open>w + 6\<close> on.
\<close>

definition heap_page_addr :: "addr \<Rightarrow> bool" where
  "heap_page_addr pg \<longleftrightarrow> page_aligned pg \<and> 0xC0000000 \<le> unat pg \<and> unat pg + 4096 \<le> 0xD0000000"

definition cell :: "memory \<Rightarrow> addr \<Rightarrow> nat \<Rightarrow> u32" where
  "cell m pg i = load32 m (entry_addr pg i)"

lemma entry_addr_plus [simp]:
  "entry_addr pg w + 4 = entry_addr pg (w + 1)" "entry_addr pg w + 8 = entry_addr pg (w + 2)"
  "entry_addr pg w + 12 = entry_addr pg (w + 3)" "entry_addr pg w + 16 = entry_addr pg (w + 4)"
  "entry_addr pg w + 20 = entry_addr pg (w + 5)" "entry_addr pg w + 24 = entry_addr pg (w + 6)"
  "entry_addr pg w + 4096 = entry_addr pg (w + 1024)"
  by (simp_all add: entry_addr_def)

lemma entry_addr_0: "entry_addr pg 0 = pg"
  by (simp add: entry_addr_def)

lemma page_field_cells:
  "hp_magic pg = entry_addr pg 0" "hp_phys pg = entry_addr pg 1" "hp_virt pg = entry_addr pg 2"
  "hp_next pg = entry_addr pg 3" "hp_prev pg = entry_addr pg 4" "hp_first pg = entry_addr pg 5"
  by (simp_all add: hp_defs entry_addr_def)

lemma block_field_cells:
  "hb_magic (entry_addr pg w) = entry_addr pg w" "hb_size (entry_addr pg w) = entry_addr pg (w + 1)"
  "hb_next (entry_addr pg w) = entry_addr pg (w + 2)" "hb_prev (entry_addr pg w) = entry_addr pg (w + 3)"
  "hb_free (entry_addr pg w) = entry_addr pg (w + 4)" "hb_page (entry_addr pg w) = entry_addr pg (w + 5)"
  by (simp_all add: hb_defs)

lemmas field_cells = page_field_cells block_field_cells

lemma heap_page_aligned [simp]: "heap_page_addr pg \<Longrightarrow> page_aligned pg"
  by (simp add: heap_page_addr_def)

lemma unat_heap_entry:
  assumes "heap_page_addr pg" "w \<le> 1024"
  shows "unat (entry_addr pg w) = unat pg + 4 * w"
proof -
  have "unat (of_nat (4 * w) :: u32) = 4 * w" using assms(2) by (intro unat_u32_of_nat) simp
  then show ?thesis using assms unfolding entry_addr_def heap_page_addr_def by (subst unat_u32_plus) auto
qed

lemma heap_entry_nonzero [simp]: "heap_page_addr pg \<Longrightarrow> w \<le> 1024 \<Longrightarrow> entry_addr pg w \<noteq> 0"
  using unat_heap_entry [of pg w] by (auto simp: heap_page_addr_def)

lemma heap_page_nonzero [simp]: "heap_page_addr pg \<Longrightarrow> pg \<noteq> 0"
  using heap_entry_nonzero [of pg 0] by (simp add: entry_addr_0)

lemma heap_entry_compare:
  assumes "heap_page_addr pg" "v \<le> 1024" "w \<le> 1024"
  shows "entry_addr pg v < entry_addr pg w \<longleftrightarrow> v < w" and "entry_addr pg v \<le> entry_addr pg w \<longleftrightarrow> v \<le> w"
    and "entry_addr pg v = entry_addr pg w \<longleftrightarrow> v = w"
  using unat_heap_entry [OF assms(1)] assms(2,3)
  by (simp_all add: word_less_nat_alt word_le_nat_alt word_unat_eq_iff)

lemma heap_entry_diff:
  assumes "heap_page_addr pg" "v \<le> w" "w \<le> 1024"
  shows "entry_addr pg w - entry_addr pg v = of_nat (4 * (w - v))"
proof -
  have "entry_addr pg w = entry_addr pg v + of_nat (4 * (w - v))"
    using assms(2) unfolding entry_addr_def by (simp add: of_nat_diff algebra_simps)
  then show ?thesis by simp
qed

lemma entry_addr_add_words: "entry_addr pg w + of_nat (4 * k) = entry_addr pg (w + k)"
  by (simp add: entry_addr_def algebra_simps)

lemma and_7_mod: "(x :: u32) AND 7 = x mod 8"
  using take_bit_eq_mask [of 3 x] by (simp add: take_bit_eq_mod mask_eq_exp_minus_1)

lemma and_7_zero: "(x :: u32) AND 7 = 0 \<longleftrightarrow> 8 dvd unat x"
  by (simp add: and_7_mod word_unat_eq_iff unat_mod dvd_eq_mod_eq_0)

lemma heap_entry_even:
  assumes "heap_page_addr pg" "w \<le> 1024"
  shows "entry_addr pg w AND 7 = 0 \<longleftrightarrow> even w"
proof -
  have "4096 dvd unat pg" using assms(1) by (simp add: heap_page_addr_def page_aligned_dvd)
  then have "8 dvd unat pg" by (rule dvd_trans [rotated]) simp
  then have "8 dvd unat pg + 4 * w \<longleftrightarrow> 8 dvd 4 * w" by (rule dvd_add_right_iff)
  also have "\<dots> \<longleftrightarrow> even w" by presburger
  finally show ?thesis by (simp add: and_7_zero unat_heap_entry [OF assms])
qed

lemma cell_store:
  "page_aligned a \<Longrightarrow> page_aligned b \<Longrightarrow> i < 1024 \<Longrightarrow> j < 1024 \<Longrightarrow>
     cell (store32 m (entry_addr a i) v) b j = (if a = b \<and> i = j then v else cell m b j)"
  by (simp add: cell_def)

lemma cell_load: "load32 m (entry_addr pg w) = cell m pg w"
  by (simp add: cell_def)

lemma store32_memset [simp]: "store32 (mem_memset m a 0 n) a v = store32 m a v"
  by (auto simp: mem_memset_eq store32_def)


section \<open>The list of blocks of a page\<close>

text \<open>A block is its payload size in words and whether it is free.\<close>

type_synonym block = "nat \<times> bool"

definition hdr :: "memory \<Rightarrow> addr \<Rightarrow> nat \<Rightarrow> addr \<Rightarrow> addr \<Rightarrow> block \<Rightarrow> bool" where
  "hdr m pg w prv nxt b \<longleftrightarrow>
     cell m pg w = HEAP_BLOCK_MAGIC \<and> cell m pg (w + 1) = of_nat (4 * fst b) \<and> cell m pg (w + 2) = nxt
     \<and> cell m pg (w + 3) = prv \<and> (cell m pg (w + 4) \<noteq> 0 \<longleftrightarrow> snd b) \<and> cell m pg (w + 5) = pg
     \<and> even w \<and> even (fst b) \<and> 0 < fst b \<and> w + 6 + fst b \<le> 1024"

text \<open>The cell behind the blocks \<open>bs\<close> that start at cell \<open>w\<close>, and the address of the last of them.\<close>

fun bend :: "nat \<Rightarrow> block list \<Rightarrow> nat" where
  "bend w [] = w"
| "bend w (b # bs) = bend (w + 6 + fst b) bs"

fun last_addr :: "addr \<Rightarrow> addr \<Rightarrow> nat \<Rightarrow> block list \<Rightarrow> addr" where
  "last_addr pg prv w [] = prv"
| "last_addr pg prv w (b # bs) = last_addr pg (entry_addr pg w) (w + 6 + fst b) bs"

text \<open>The headers of \<open>bs\<close> from cell \<open>w\<close> on, linked to \<open>prv\<close> in front and to \<open>nxt\<close> behind.\<close>

fun seg :: "memory \<Rightarrow> addr \<Rightarrow> addr \<Rightarrow> nat \<Rightarrow> block list \<Rightarrow> addr \<Rightarrow> bool" where
  "seg m pg prv w [] nxt = True"
| "seg m pg prv w (b # bs) nxt \<longleftrightarrow>
     hdr m pg w prv (if bs = [] then nxt else entry_addr pg (w + 6 + fst b)) b
     \<and> seg m pg (entry_addr pg w) (w + 6 + fst b) bs nxt"

text \<open>The cells that hold headers.\<close>

fun hcells :: "nat \<Rightarrow> block list \<Rightarrow> nat set" where
  "hcells w [] = {}"
| "hcells w (b # bs) = {w..<w + 6} \<union> hcells (w + 6 + fst b) bs"

lemma bend_ge: "w \<le> bend w bs"
  by (induction bs arbitrary: w) (auto, metis add_leE)

lemma bend_append [simp]: "bend w (xs @ ys) = bend (bend w xs) ys"
  by (induction xs arbitrary: w) auto

lemma hcells_bounds: "i \<in> hcells w bs \<Longrightarrow> w \<le> i \<and> i < bend w bs"
proof (induction bs arbitrary: w)
  case (Cons b bs)
  then show ?case using bend_ge [of "w + 6 + fst b" bs] by auto fastforce+
qed simp

lemma hcells_append [simp]: "hcells w (xs @ ys) = hcells w xs \<union> hcells (bend w xs) ys"
  by (induction xs arbitrary: w) auto

lemma seg_cong:
  "(\<And>i. i \<in> hcells w bs \<Longrightarrow> cell m' pg i = cell m pg i) \<Longrightarrow> seg m' pg prv w bs nxt = seg m pg prv w bs nxt"
proof (induction bs arbitrary: w prv)
  case (Cons b bs)
  have "cell m' pg (w + i) = cell m pg (w + i)" if "i < 6" for i using Cons.prems [of "w + i"] that by simp
  from this [of 0] this [of 1] this [of 2] this [of 3] this [of 4] this [of 5] Cons show ?case
    by (simp add: hdr_def)
qed simp

lemma seg_append:
  "seg m pg prv w (xs @ ys) nxt \<longleftrightarrow>
     seg m pg prv w xs (if ys = [] then nxt else entry_addr pg (bend w xs))
     \<and> seg m pg (last_addr pg prv w xs) (bend w xs) ys nxt"
  by (induction xs arbitrary: w prv) auto

lemma seg_bound: "seg m pg prv w bs nxt \<Longrightarrow> bs \<noteq> [] \<Longrightarrow> bend w bs \<le> 1024"
proof (induction bs arbitrary: w prv)
  case (Cons b bs)
  then show ?case by (cases "bs = []") (auto simp: hdr_def)
qed simp

lemma seg_even: "seg m pg prv w bs nxt \<Longrightarrow> even w \<Longrightarrow> even (bend w bs)"
  by (induction bs arbitrary: w prv) (auto simp: hdr_def)

definition page_wf :: "memory \<Rightarrow> addr \<Rightarrow> block list \<Rightarrow> bool" where
  "page_wf m pg bs \<longleftrightarrow> heap_page_addr pg \<and> cell m pg 0 = HEAP_PAGE_MAGIC \<and> cell m pg 2 = pg
     \<and> cell m pg 5 = entry_addr pg 6 \<and> bs \<noteq> [] \<and> seg m pg 0 6 bs 0 \<and> bend 6 bs = 1024"

section \<open>Validation succeeds on represented pages\<close>

lemma unat_words: "k \<le> 1024 \<Longrightarrow> unat (of_nat (4 * k) :: u32) = 4 * k"
  by (rule unat_u32_of_nat) simp

lemma validate_block_seg:
  assumes "heap_page_addr pg" "cell m pg 2 = pg" "seg m pg prv w (b # bs) 0"
  shows "heap_validate_block m pg (entry_addr pg w)"
proof -
  from assms(3) have h: "hdr m pg w prv (if bs = [] then 0 else entry_addr pg (w + 6 + fst b)) b"
    and s: "seg m pg (entry_addr pg w) (w + 6 + fst b) bs 0" by simp_all
  from h have bd: "w + 6 + fst b \<le> 1024" "even w" "even (fst b)" "0 < fst b" by (simp_all add: hdr_def)
  have pe: "pg + 4096 = entry_addr pg 1024" using entry_addr_plus(7) [of pg 0] by (simp add: entry_addr_0)
  have e0: "pg = entry_addr pg 0" by (simp add: entry_addr_0)
  have sz: "(of_nat (4 * fst b) :: u32) \<noteq> 0" "(of_nat (4 * fst b) :: u32) AND 7 = 0"
    using unat_words [of "fst b"] bd by (auto simp: and_7_zero)
  have fit: "\<not> of_nat (4 * fst b) > entry_addr pg 1024 - entry_addr pg (w + 6)"
    using heap_entry_diff [OF assms(1), of "w + 6" 1024] bd unat_words [of "fst b"] unat_words [of "1024 - (w + 6)"]
    by (simp add: word_less_nat_alt del: of_nat_mult)
  have lt: "\<not> entry_addr pg w < entry_addr pg 0" "\<not> entry_addr pg (w + 6) > entry_addr pg 1024"
    using heap_entry_compare(1) [OF assms(1)] bd by simp_all
  have nx: "valid_next m pg (entry_addr pg w)"
  proof (cases bs)
    case Nil
    then show ?thesis using h by (simp add: valid_next_def hdr_def field_cells cell_load)
  next
    case (Cons b2 bs2)
    let ?w = "w + 6 + fst b"
    have h2: "hdr m pg ?w (entry_addr pg w) (if bs2 = [] then 0 else entry_addr pg (?w + 6 + fst b2)) b2"
      using s Cons by simp
    then have b2: "?w + 6 \<le> 1024" by (simp add: hdr_def)
    have c: "\<not> entry_addr pg ?w < entry_addr pg 0" "\<not> entry_addr pg ?w > entry_addr pg 1024"
      "\<not> entry_addr pg (?w + 6) > entry_addr pg 1024"
      using heap_entry_compare(1) [OF assms(1)] b2 by simp_all
    have "load32 m (hb_next (entry_addr pg w)) = entry_addr pg ?w" "load32 m (hp_virt pg) = pg"
      "entry_addr pg w + 24 + load32 m (hb_size (entry_addr pg w)) = entry_addr pg ?w"
      using h Cons assms(2) entry_addr_add_words [of pg "w + 6" "fst b"]
      by (simp_all add: hdr_def field_cells cell_load del: of_nat_mult)
    moreover have "load32 m (hb_magic (entry_addr pg ?w)) = HEAP_BLOCK_MAGIC"
      "load32 m (hb_prev (entry_addr pg ?w)) = entry_addr pg w"
      using h2 by (simp_all add: hdr_def field_cells cell_load)
    ultimately show ?thesis using c by (simp add: valid_next_def pe) (metis e0)
  qed
  have "load32 m (hb_magic (entry_addr pg w)) = HEAP_BLOCK_MAGIC" "load32 m (hb_page (entry_addr pg w)) = pg"
    "load32 m (hb_size (entry_addr pg w)) = of_nat (4 * fst b)" "load32 m (hp_virt pg) = pg"
    using h assms(2) by (simp_all add: hdr_def field_cells cell_load)
  moreover have "entry_addr pg w \<noteq> 0" "pg \<noteq> 0" "entry_addr pg w AND 7 = 0"
    using assms(1) bd heap_entry_even [OF assms(1), of w] by simp_all
  ultimately show ?thesis
    using nx sz fit lt unfolding heap_validate_block_def Let_def
    by (simp add: pe del: of_nat_mult) (metis e0)
qed


lemma seg_next:
  "seg m pg prv w (b # bs) 0 \<Longrightarrow>
     load32 m (hb_next (entry_addr pg w)) = (if bs = [] then 0 else entry_addr pg (w + 6 + fst b))"
  by (simp add: hdr_def field_cells cell_load)

lemma seg_start_nonzero:
  "heap_page_addr pg \<Longrightarrow> seg m pg prv w (b # bs) 0 \<Longrightarrow> entry_addr pg w \<noteq> 0"
  by (rule heap_entry_nonzero) (simp_all add: hdr_def)

lemma validate_loop_seg:
  "heap_page_addr pg \<Longrightarrow> cell m pg 2 = pg \<Longrightarrow> seg m pg prv w bs 0 \<Longrightarrow>
     validate_loop m pg (if bs = [] then 0 else entry_addr pg w) = Some True"
proof (induction bs arbitrary: prv w)
  case Nil
  then show ?case by (subst validate_loop.simps) simp
next
  case (Cons b bs)
  have "seg m pg (entry_addr pg w) (w + 6 + fst b) bs 0" using Cons.prems(3) by simp
  from Cons.IH [OF Cons.prems(1,2) this] show ?case
    using validate_block_seg [OF Cons.prems] seg_start_nonzero [OF Cons.prems(1,3)]
    by (subst validate_loop.simps) (simp add: seg_next [OF Cons.prems(3)])
qed

lemma page_end_word: "pg + 4096 = entry_addr pg 1024"
  using entry_addr_plus(7) [of pg 0] by (simp add: entry_addr_0)

lemma validate_page_wf:
  assumes "page_wf m pg bs"
  shows "heap_validate_page m pg = Some True"
proof -
  note w = assms [unfolded page_wf_def]
  obtain b bs' where bs: "bs = b # bs'" using w by (cases bs) auto
  have "unat pg + 4096 < 4294967296" "unat pg \<ge> 0xC0000000" "unat pg + 4096 \<le> 0xD0000000"
    using w by (simp_all add: heap_page_addr_def)
  then have r: "\<not> pg < HEAP_START" "\<not> pg + PAGE_SIZE > HEAP_START + HEAP_SIZE"
    by (simp_all add: word_less_nat_alt unat_u32_plus)
  have "load32 m (hb_page (entry_addr pg 6)) = pg"
    using w bs by (simp add: hdr_def field_cells cell_load)
  moreover have "validate_loop m pg (entry_addr pg 6) = Some True"
    using validate_loop_seg [of pg m 0 6 bs] w bs by simp
  ultimately show ?thesis
    using w r by (simp add: heap_validate_page_def page_field_cells cell_load)
qed

text \<open>The cell of the first free block with at least \<open>n\<close> payload words.\<close>

fun first_fit :: "nat \<Rightarrow> nat \<Rightarrow> block list \<Rightarrow> nat option" where
  "first_fit n w [] = None"
| "first_fit n w (b # bs) = (if snd b \<and> n \<le> fst b then Some w else first_fit n (w + 6 + fst b) bs)"

lemma find_loop_seg:
  "heap_page_addr pg \<Longrightarrow> cell m pg 2 = pg \<Longrightarrow> 4 * n < 4294967296 \<Longrightarrow> seg m pg prv w bs 0 \<Longrightarrow>
     find_loop m pg (of_nat (4 * n)) (if bs = [] then 0 else entry_addr pg w)
     = Some (case first_fit n w bs of None \<Rightarrow> 0 | Some v \<Rightarrow> entry_addr pg v)"
proof (induction bs arbitrary: prv w)
  case Nil
  then show ?case by (subst find_loop.simps) simp
next
  case (Cons b bs)
  have s: "seg m pg (entry_addr pg w) (w + 6 + fst b) bs 0" using Cons.prems(4) by simp
  have "fst b \<le> 1024" using Cons.prems(4) by (simp add: hdr_def)
  then have "(of_nat (4 * n) \<le> (of_nat (4 * fst b) :: u32)) \<longleftrightarrow> n \<le> fst b"
    using unat_words [of "fst b"] unat_u32_of_nat [OF Cons.prems(3)] by (simp add: word_le_nat_alt del: of_nat_mult)
  moreover have "load32 m (hb_size (entry_addr pg w)) = of_nat (4 * fst b)"
    "load32 m (hb_free (entry_addr pg w)) \<noteq> 0 \<longleftrightarrow> snd b"
    using Cons.prems(4) by (simp_all add: hdr_def field_cells cell_load)
  ultimately show ?case
    using validate_block_seg [OF Cons.prems(1,2,4)] seg_start_nonzero [OF Cons.prems(1,4)] Cons.IH [OF Cons.prems(1-3) s]
    by (subst find_loop.simps) (simp add: seg_next [OF Cons.prems(4)] del: of_nat_mult)
qed

lemma find_free_block_wf:
  assumes "page_wf m pg bs" "4 * n < 4294967296"
  shows "heap_find_free_block m pg (of_nat (4 * n))
     = Some (case first_fit n 6 bs of None \<Rightarrow> 0 | Some v \<Rightarrow> entry_addr pg v)"
proof -
  have "load32 m (hp_first pg) = entry_addr pg 6" using assms(1) by (simp add: page_wf_def field_cells cell_load)
  with find_loop_seg [of pg m n 0 6 bs] assms show ?thesis
    by (simp add: heap_find_free_block_def validate_page_wf [OF assms(1)]) (simp add: page_wf_def)
qed

lemma first_fit_Some:
  "first_fit n w bs = Some v \<Longrightarrow> \<exists>xs k ys. bs = xs @ (k, True) # ys \<and> v = bend w xs \<and> n \<le> k \<and> first_fit n w xs = None"
proof (induction bs arbitrary: w)
  case (Cons b bs)
  show ?case
  proof (cases "snd b \<and> n \<le> fst b")
    case True
    with Cons.prems have "b # bs = [] @ (fst b, True) # bs" "v = bend w []" "n \<le> fst b" by (auto simp: prod_eq_iff)
    then show ?thesis by (metis first_fit.simps(1))
  next
    case False
    with Cons.prems have "first_fit n (w + 6 + fst b) bs = Some v" by auto
    from Cons.IH [OF this] obtain xs k ys where
      "bs = xs @ (k, True) # ys" "v = bend (w + 6 + fst b) xs" "n \<le> k" "first_fit n (w + 6 + fst b) xs = None" by blast
    with False have "b # bs = (b # xs) @ (k, True) # ys" "v = bend w (b # xs)" "n \<le> k" "first_fit n w (b # xs) = None"
      by auto
    then show ?thesis by blast
  qed
qed simp

section \<open>Taking a block\<close>

lemma align_down_8: "8 dvd unat x \<Longrightarrow> align_down x 8 = x"
proof -
  assume "8 dvd unat x"
  then have "x AND 7 = 0" by (simp add: and_7_zero)
  moreover have "x AND (7 OR NOT 7) = (x AND 7) OR (x AND NOT 7)" by (rule bit.conj_disj_distrib)
  ultimately have "x AND NOT 7 = x" by (simp only: bit.disj_cancel_right bit.conj_one_right or.left_neutral)
  then show ?thesis by (simp add: align_down_def)
qed

text \<open>The cells the split of a last block at cell \<open>w\<close> leaves behind; the new block starts at cell \<open>v\<close>.\<close>

lemma split_last_cells:
  fixes sz :: u32
  assumes pg: "heap_page_addr pg" and v: "w + 6 \<le> v" "v + 10 \<le> 1024" "even v" and nx: "cell m pg (w + 2) = 0"
  defines "m' \<equiv> split_block m pg (entry_addr pg w) sz (of_nat (4 * (1024 - v))) (entry_addr pg v)"
  shows "i < 1024 \<Longrightarrow> cell m' pg i =
    (if i = w + 1 then sz else if i = w + 2 then entry_addr pg v
     else if i = v then HEAP_BLOCK_MAGIC else if i = v + 1 then of_nat (4 * (1024 - v - 6))
     else if i = v + 2 then 0 else if i = v + 3 then entry_addr pg w else if i = v + 4 then 1
     else if i = v + 5 then pg else cell m pg i)"
    and "page_aligned q \<Longrightarrow> q \<noteq> pg \<Longrightarrow> i < 1024 \<Longrightarrow> cell m' q i = cell m q i"
proof -
  have "(of_nat (4 * (1024 - v)) :: u32) - 24 = of_nat (4 * (1024 - v - 6))"
    using v by (simp add: of_nat_diff)
  moreover have "8 dvd 4 * (1024 - v - 6)" using v by (auto elim!: evenE)
  ultimately have r: "align_down (of_nat (4 * (1024 - v)) - 24) 8 = of_nat (4 * (1024 - v - 6))"
    using unat_words [of "1024 - v - 6"] align_down_8 [of "of_nat (4 * (1024 - v - 6))"] by simp
  note s = m'_def [unfolded split_block_def Let_def r field_cells store32_memset cell_load]
  show "i < 1024 \<Longrightarrow> cell m' pg i =
    (if i = w + 1 then sz else if i = w + 2 then entry_addr pg v
     else if i = v then HEAP_BLOCK_MAGIC else if i = v + 1 then of_nat (4 * (1024 - v - 6))
     else if i = v + 2 then 0 else if i = v + 3 then entry_addr pg w else if i = v + 4 then 1
     else if i = v + 5 then pg else cell m pg i)"
    unfolding s using pg v nx by (auto simp add: cell_store simp del: of_nat_mult)
  show "page_aligned q \<Longrightarrow> q \<noteq> pg \<Longrightarrow> i < 1024 \<Longrightarrow> cell m' q i = cell m q i"
    unfolding s using pg v nx by (simp add: cell_store del: of_nat_mult)
qed


text \<open>Memory that differs from \<open>m\<close> only in block cells of page \<open>pg\<close>.\<close>

definition page_frame :: "memory \<Rightarrow> memory \<Rightarrow> addr \<Rightarrow> bool" where
  "page_frame m m' pg \<longleftrightarrow>
     (\<forall>q i. page_aligned q \<and> i < 1024 \<and> (q \<noteq> pg \<or> i < 6) \<longrightarrow> cell m' q i = cell m q i)"

text \<open>The blocks in place of a free block at cell \<open>w\<close> after \<open>n\<close> words were taken from it.\<close>

definition placed :: "nat \<Rightarrow> nat \<Rightarrow> nat \<Rightarrow> block list" where
  "placed n w k = (if w + 6 + n + 10 \<le> 1024 then [(n, False), (k - n - 6, True)] else [(k, False)])"

lemma page_wf_middle:
  assumes "page_wf m pg (xs @ b # ys)"
  shows "hdr m pg (bend 6 xs) (last_addr pg 0 6 xs)
       (if ys = [] then 0 else entry_addr pg (bend 6 xs + 6 + fst b)) b" and "6 \<le> bend 6 xs"
    and "bend (bend 6 xs + 6 + fst b) ys = 1024"
  using assms bend_ge [of 6 xs] by (auto simp: page_wf_def seg_append)

lemma page_wf_replace:
  assumes wf: "page_wf m pg (xs @ b # ys)" and f: "page_frame m m' pg"
    and c: "\<And>i. i < 1024 \<Longrightarrow> i < bend 6 xs \<or> bend 6 xs + 6 + fst b \<le> i \<Longrightarrow> i \<notin> J \<Longrightarrow> cell m' pg i = cell m pg i"
    and J: "J \<inter> hcells 6 xs = {}"
    and bs: "bs \<noteq> []" "seg m' pg (last_addr pg 0 6 xs) (bend 6 xs) bs 0" "bend (bend 6 xs) bs = 1024"
  shows "page_wf m' pg (xs @ bs)"
proof -
  note w = wf [unfolded page_wf_def]
  have "bend 6 xs \<le> 1024" using seg_bound [of m' pg _ _ bs] bs(1,2) bend_ge [of "bend 6 xs" bs] bs(3) by simp
  then have "cell m' pg i = cell m pg i" if "i \<in> hcells 6 xs" for i
    using c [of i] that hcells_bounds [OF that] J by auto
  moreover have "seg m pg 0 6 xs (entry_addr pg (bend 6 xs))" using w by (simp add: seg_append)
  ultimately have "seg m' pg 0 6 xs (entry_addr pg (bend 6 xs))" using seg_cong [of 6 xs m' pg m] by simp
  with w f bs show ?thesis by (auto simp: page_wf_def seg_append page_frame_def)
qed

lemma take_block_unsplit:
  assumes wf: "page_wf m pg (xs @ (k, True) # ys)"
  defines "m' \<equiv> store32 m (entry_addr pg (bend 6 xs + 4)) 0"
  shows "page_wf m' pg (xs @ (k, False) # ys)" and "page_frame m m' pg"
proof -
  let ?w = "bend 6 xs"
  note h = page_wf_middle [OF wf]
  have pg: "heap_page_addr pg" using wf by (simp add: page_wf_def)
  have b: "?w + 6 + k \<le> 1024" using h(1) by (simp add: hdr_def)
  have c: "cell m' q i = (if q = pg \<and> i = ?w + 4 then 0 else cell m q i)" if "page_aligned q" "i < 1024" for q i
    using that pg b by (auto simp: m'_def cell_store)
  then show f: "page_frame m m' pg" using h(2) by (auto simp: page_frame_def)
  have "hdr m' pg ?w (last_addr pg 0 6 xs) (if ys = [] then 0 else entry_addr pg (?w + 6 + k)) (k, False)"
    using h(1) pg b by (simp add: hdr_def c)
  moreover have "seg m pg (entry_addr pg ?w) (?w + 6 + k) ys 0" using wf by (simp add: page_wf_def seg_append)
  moreover have "cell m' pg i = cell m pg i" if "i \<in> hcells (?w + 6 + k) ys" for i
    using that c [of pg i] pg hcells_bounds [OF that] h(3) by simp
  ultimately have "seg m' pg (last_addr pg 0 6 xs) ?w ((k, False) # ys) 0"
    using seg_cong [of "?w + 6 + k" ys m' pg m] by (auto split: if_splits)
  then show "page_wf m' pg (xs @ (k, False) # ys)"
    using h(3) c pg b by (intro page_wf_replace [OF wf f, of "{}"]) auto
qed

lemma take_block_split:
  assumes wf: "page_wf m pg (xs @ [(k, True)])" and n: "even n" "0 < n"
    and v: "v = bend 6 xs + 6 + n" "v + 10 \<le> 1024"
  defines "m' \<equiv> store32 (split_block m pg (entry_addr pg (bend 6 xs)) (of_nat (4 * n)) (of_nat (4 * (1024 - v)))
                  (entry_addr pg v)) (entry_addr pg (bend 6 xs + 4)) 0"
  shows "page_wf m' pg (xs @ [(n, False), (k - n - 6, True)])" and "page_frame m m' pg"
proof -
  let ?w = "bend 6 xs"
  note h = page_wf_middle [OF wf]
  have pg: "heap_page_addr pg" using wf by (simp add: page_wf_def)
  have k: "?w + 6 + k = 1024" "even ?w" "even k" using h(1,3) by (simp_all add: hdr_def)
  have nx: "cell m pg (?w + 2) = 0" using h(1) by (simp add: hdr_def)
  have ev: "even v" using k(2) n v by simp
  have r: "1024 - v - 6 = k - n - 6" using k v by simp
  have wv: "?w + 6 \<le> v" "?w + 4 < 1024" using v by simp_all
  note s = split_last_cells [OF pg wv(1) v(2) ev nx, where sz = "of_nat (4 * n)", unfolded r]
  have c: "cell m' pg i =
    (if i = ?w + 4 then 0 else if i = ?w + 1 then of_nat (4 * n) else if i = ?w + 2 then entry_addr pg v
     else if i = v then HEAP_BLOCK_MAGIC else if i = v + 1 then of_nat (4 * (k - n - 6))
     else if i = v + 2 then 0 else if i = v + 3 then entry_addr pg ?w else if i = v + 4 then 1
     else if i = v + 5 then pg else cell m pg i)" if "i < 1024" for i
    unfolding m'_def cell_store [OF heap_page_aligned [OF pg] heap_page_aligned [OF pg] wv(2) that] s(1) [OF that]
    by (simp only: simp_thms eq_commute [of "?w + 4" i])
  have o: "cell m' q i = cell m q i" if "page_aligned q" "q \<noteq> pg" "i < 1024" for q i
    unfolding m'_def cell_store [OF heap_page_aligned [OF pg] that(1) wv(2) that(3)] s(2) [OF that]
    using that by simp
  have "cell m' pg i = cell m pg i" if "i < 6" for i using that c [of i] h(2) v(1) by simp
  with o show f: "page_frame m m' pg" unfolding page_frame_def by metis
  have "hdr m' pg ?w (last_addr pg 0 6 xs) (entry_addr pg v) (n, False)"
    using h(1) n v by (simp add: hdr_def c del: of_nat_mult)
  moreover have "hdr m' pg v (entry_addr pg ?w) 0 (k - n - 6, True)"
    using n v k ev by (simp add: hdr_def c del: of_nat_mult)
  ultimately have "seg m' pg (last_addr pg 0 6 xs) ?w [(n, False), (k - n - 6, True)] 0" by (simp add: v(1))
  then show "page_wf m' pg (xs @ [(n, False), (k - n - 6, True)])"
    using k v c by (intro page_wf_replace [OF wf f, of "{}"]) auto
qed


text \<open>Where \<open>take_block\<close> puts the new block, and when it makes one.\<close>

lemma take_block_eq:
  assumes wf: "page_wf m pg (xs @ (k, True) # ys)" and n: "n \<le> k" and v: "v = bend 6 xs + 6 + n"
  shows "take_block m pg (entry_addr pg (bend 6 xs)) (of_nat (4 * n)) = Some (entry_addr pg (bend 6 xs + 6),
      store32 (if v + 10 \<le> 1024
               then split_block m pg (entry_addr pg (bend 6 xs)) (of_nat (4 * n)) (of_nat (4 * (1024 - v))) (entry_addr pg v)
               else m) (entry_addr pg (bend 6 xs + 4)) 0)"
proof -
  let ?w = "bend 6 xs"
  have pg: "heap_page_addr pg" and virt: "load32 m (hp_virt pg) = pg"
    using wf by (simp_all add: page_wf_def field_cells cell_load)
  have b: "?w + 6 + k \<le> 1024" using page_wf_middle(1) [OF wf] by (simp add: hdr_def)
  then have v1: "v \<le> 1024" using n v by simp
  have le: "\<not> entry_addr pg (?w + 6) > entry_addr pg 1024" using heap_entry_compare(1) [OF pg] b by simp
  have sz: "of_nat (4 * n) \<le> entry_addr pg 1024 - entry_addr pg (?w + 6)"
    using heap_entry_diff [OF pg, of "?w + 6" 1024] b unat_words [of n] unat_words [of "1024 - (?w + 6)"] n
    by (simp add: word_le_nat_alt del: of_nat_mult)
  have rem: "entry_addr pg 1024 - entry_addr pg (?w + 6 + n) = of_nat (4 * (1024 - v))"
    using heap_entry_diff [OF pg v1 order_refl] v by simp
  have ge: "(of_nat (4 * (1024 - v)) :: u32) \<ge> 24 + 16 \<longleftrightarrow> v + 10 \<le> 1024"
    using unat_words [of "1024 - v"] v1 by (simp add: word_le_nat_alt del: of_nat_mult) arith
  show ?thesis
    using le sz unfolding take_block_def Let_def virt page_end_word entry_addr_plus(6) entry_addr_add_words rem ge
    by (simp add: field_cells v [symmetric] del: of_nat_mult)
qed

lemma take_block_spec:
  assumes wf: "page_wf m pg (xs @ (k, True) # ys)" and n: "even n" "0 < n" "n \<le> k"
    and clean: "ys = [] \<or> 1024 < bend 6 xs + 6 + n + 10"
  obtains m' where "take_block m pg (entry_addr pg (bend 6 xs)) (of_nat (4 * n)) = Some (entry_addr pg (bend 6 xs + 6), m')"
    "page_wf m' pg (xs @ placed n (bend 6 xs) k @ ys)" "page_frame m m' pg"
proof (cases "bend 6 xs + 6 + n + 10 \<le> 1024")
  case True
  with clean have "ys = []" by simp
  with take_block_split [OF _ n(1,2) refl True, of m pg k] wf take_block_eq [OF wf n(3) refl] True show thesis
    by (intro that) (simp_all add: placed_def)
next
  case False
  with take_block_unsplit [OF wf] take_block_eq [OF wf n(3) refl] show thesis by (intro that) (simp_all add: placed_def)
qed

section \<open>The list of pages\<close>

fun linked :: "memory \<Rightarrow> addr \<Rightarrow> (addr \<times> block list) list \<Rightarrow> bool" where
  "linked m a [] \<longleftrightarrow> a = 0"
| "linked m a (p # ps) \<longleftrightarrow> a = fst p \<and> page_wf m (fst p) (snd p) \<and> linked m (cell m (fst p) 3) ps"

definition heap_rep :: "kheap \<Rightarrow> (addr \<times> block list) list \<Rightarrow> bool" where
  "heap_rep s ps \<longleftrightarrow> linked (kh_mem s) (heap_pages s) ps \<and> distinct (map fst ps)
     \<and> (\<forall>p \<in> set ps. unat (fst p) < unat (heap_next_virtual s))
     \<and> page_aligned (heap_next_virtual s)
     \<and> 0xC0000000 \<le> unat (heap_next_virtual s) \<and> unat (heap_next_virtual s) \<le> 0xD0000000"

lemma linked_wf: "linked m a ps \<Longrightarrow> p \<in> set ps \<Longrightarrow> page_wf m (fst p) (snd p)"
  by (induction ps arbitrary: a) auto

text \<open>A page keeps its blocks when its own cells are unchanged, except possibly its links to other pages.\<close>

lemma page_wf_cong:
  assumes "page_wf m pg bs" "\<And>i. i < 1024 \<Longrightarrow> i \<noteq> 3 \<Longrightarrow> i \<noteq> 4 \<Longrightarrow> cell m' pg i = cell m pg i"
  shows "page_wf m' pg bs"
proof -
  note w = assms(1) [unfolded page_wf_def]
  have "cell m' pg i = cell m pg i" if "i \<in> hcells 6 bs" for i
    using assms(2) [of i] hcells_bounds [OF that] w by auto
  then have "seg m' pg 0 6 bs 0" using seg_cong [of 6 bs m' pg m] w by simp
  with w assms(2) [of 0] assms(2) [of 2] assms(2) [of 5] show ?thesis by (simp add: page_wf_def)
qed

lemma linked_cong:
  "linked m a ps \<Longrightarrow> (\<And>p i. p \<in> set ps \<Longrightarrow> i < 1024 \<Longrightarrow> i \<noteq> 4 \<Longrightarrow> cell m' (fst p) i = cell m (fst p) i) \<Longrightarrow>
     linked m' a ps"
proof (induction ps arbitrary: a)
  case (Cons p ps)
  have c: "cell m' (fst p) i = cell m (fst p) i" if "i < 1024" "i \<noteq> 4" for i
    using Cons.prems(2) [OF _ that] by simp
  have l: "a = fst p" "page_wf m (fst p) (snd p)" "linked m (cell m (fst p) 3) ps" using Cons.prems(1) by simp_all
  have "linked m' (cell m (fst p) 3) ps" using Cons.prems(2) by (intro Cons.IH [OF l(3)]) simp
  moreover have "page_wf m' (fst p) (snd p)" using page_wf_cong [OF l(2)] c by blast
  ultimately show ?case using l(1) c [of 3] by simp
qed simp

lemma linked_replace:
  assumes "linked m a (us @ (pg, bs) # vs)" "distinct (map fst (us @ (pg, bs) # vs))"
    and "page_frame m m' pg" "page_wf m' pg bs'"
  shows "linked m' a (us @ (pg, bs') # vs)"
  using assms
proof (induction us arbitrary: a)
  case Nil
  have al: "page_aligned (fst p)" if "p \<in> set vs" for p
    using Nil.prems(1) that linked_wf [of m _ vs p] by (auto simp: page_wf_def)
  have l: "linked m (cell m pg 3) vs" and d: "\<And>p. p \<in> set vs \<Longrightarrow> fst p \<noteq> pg" using Nil.prems(1,2) by auto
  have "linked m' (cell m pg 3) vs"
    using al d Nil.prems(3) by (intro linked_cong [OF l]) (simp add: page_frame_def)
  moreover have "cell m' pg 3 = cell m pg 3" using Nil.prems(3,4) by (simp add: page_frame_def page_wf_def)
  ultimately show ?case using Nil.prems(1,4) by simp
next
  case (Cons u us)
  have w: "page_wf m (fst u) (snd u)" "fst u \<noteq> pg" using Cons.prems(1,2) by auto
  have c: "cell m' (fst u) i = cell m (fst u) i" if "i < 1024" for i
    using Cons.prems(3) w that by (simp add: page_frame_def page_wf_def)
  have "page_wf m' (fst u) (snd u)" using page_wf_cong [OF w(1)] c by blast
  with Cons c [of 3] show ?case by simp
qed

text \<open>The first page with a fitting block, and the blocks around it.\<close>

fun page_fit :: "nat \<Rightarrow> (addr \<times> block list) list \<Rightarrow> (addr \<times> nat) option" where
  "page_fit n [] = None"
| "page_fit n (p # ps) =
     (case first_fit n 6 (snd p) of Some w \<Rightarrow> Some (fst p, w) | None \<Rightarrow> page_fit n ps)"

lemma scan_pages_linked:
  "4 * n < 4294967296 \<Longrightarrow> linked m a ps \<Longrightarrow>
     scan_pages m (of_nat (4 * n)) a =
     Some (case page_fit n ps of None \<Rightarrow> Exhausted | Some (pg, w) \<Rightarrow> Found pg (entry_addr pg w))"
proof (induction ps arbitrary: a)
  case Nil
  then show ?case by (subst scan_pages.simps) simp
next
  case (Cons p ps)
  have wf: "page_wf m (fst p) (snd p)" and a: "a = fst p" using Cons.prems by simp_all
  have pg: "heap_page_addr (fst p)" using wf by (simp add: page_wf_def)
  have nx: "load32 m (hp_next a) = cell m (fst p) 3" by (simp add: a field_cells cell_load)
  note f = find_free_block_wf [OF wf Cons.prems(1)]
  show ?case
  proof (cases "first_fit n 6 (snd p)")
    case None
    with Cons pg f validate_page_wf [OF wf] nx show ?thesis
      by (subst scan_pages.simps) (simp add: a del: of_nat_mult)
  next
    case (Some w)
    then obtain xs k ys where s: "snd p = xs @ (k, True) # ys" "w = bend 6 xs" using first_fit_Some by blast
    have "w \<le> 1024" using page_wf_middle(1) [of m "fst p" xs "(k, True)" ys] wf s by (simp add: hdr_def)
    then have "entry_addr (fst p) w \<noteq> 0" using pg by simp
    with Some pg f validate_page_wf [OF wf] show ?thesis
      by (subst scan_pages.simps) (simp add: a del: of_nat_mult)
  qed
qed

lemma find_page_Some:
  "page_fit n ps = Some (pg, w) \<Longrightarrow>
     \<exists>us bs vs. ps = us @ (pg, bs) # vs \<and> first_fit n 6 bs = Some w \<and> page_fit n us = None"
proof (induction ps)
  case (Cons p ps)
  show ?case
  proof (cases "first_fit n 6 (snd p)")
    case None
    with Cons obtain us bs vs where "ps = us @ (pg, bs) # vs" "first_fit n 6 bs = Some w" "page_fit n us = None"
      by auto
    with None have "p # ps = (p # us) @ (pg, bs) # vs" "first_fit n 6 bs = Some w" "page_fit n (p # us) = None" by auto
    then show ?thesis by blast
  next
    case (Some v)
    with Cons.prems have "p # ps = [] @ (pg, snd p) # ps" "first_fit n 6 (snd p) = Some w" "page_fit n [] = None"
      by (auto simp: prod_eq_iff)
    then show ?thesis by blast
  qed
qed simp


section \<open>A new page\<close>

lemma and_not_7: "(y :: u32) AND NOT 7 = 8 * (y div 8)"
proof -
  have "y AND NOT (mask 3) = push_bit 3 (drop_bit 3 y)" by (rule bit_word_eqI) (auto simp: bit_simps)
  moreover have "(7 :: u32) = mask 3" by (simp add: mask_eq_exp_minus_1)
  ultimately show ?thesis by (simp add: push_bit_eq_mult drop_bit_eq_div)
qed

lemma unat_align_up:
  assumes "unat x + 7 < 4294967296"
  shows "unat (align_up x 8) = (unat x + 7) div 8 * 8"
proof -
  have a: "align_up x 8 = 8 * ((x + 7) div 8)" using and_not_7 [of "x + 7"] by (simp add: align_up_def Let_def)
  have "unat (x + 7) = unat x + 7" using assms by (simp add: unat_u32_plus)
  then have d: "unat ((x + 7) div 8) = (unat x + 7) div 8" by (simp add: unat_div)
  have "8 * ((unat x + 7) div 8) < 4294967296" using assms by (meson le_less_trans times_div_less_eq_dividend)
  then have "unat (8 * ((x + 7) div 8)) = 8 * ((unat x + 7) div 8)" by (simp add: unat_word_ariths d)
  then show ?thesis by (simp add: a)
qed

lemma init_page_values:
  assumes "heap_page_addr pg"
  shows "align_up (pg + 24) 8 = entry_addr pg 6"
    and "align_down (PAGE_SIZE - (entry_addr pg 6 - pg) - 24) 8 = of_nat (4 * 1012)"
proof -
  have e: "pg + 24 = entry_addr pg 6" using entry_addr_plus(6) [of pg 0] by (simp add: entry_addr_0)
  have u: "unat (entry_addr pg 6) = unat pg + 24" "unat pg + 4096 \<le> 0xD0000000" "4096 dvd unat pg"
    using unat_heap_entry [OF assms, of 6] assms by (simp_all add: heap_page_addr_def page_aligned_dvd)
  have "8 dvd unat pg" using u(3) by (rule dvd_trans [rotated]) simp
  then have "(unat pg + 24 + 7) div 8 * 8 = unat pg + 24" by (auto elim!: dvdE)
  then have "unat (align_up (entry_addr pg 6) 8) = unat (entry_addr pg 6)"
    using unat_align_up [of "entry_addr pg 6"] u by simp
  then show "align_up (pg + 24) 8 = entry_addr pg 6" unfolding e by (simp add: word_unat_eq_iff)
  have "entry_addr pg 6 - pg = 24" by (simp add: entry_addr_def)
  then show "align_down (PAGE_SIZE - (entry_addr pg 6 - pg) - 24) 8 = of_nat (4 * 1012)"
    by (simp add: align_down_8)
qed

lemma init_heap_page_cells:
  assumes pg: "heap_page_addr pg" and q: "page_aligned q" "i < 1024"
  shows "cell (init_heap_page m pg phys) q i =
    (if q \<noteq> pg then cell m q i
     else if i = 0 then HEAP_PAGE_MAGIC else if i = 1 then phys else if i = 2 then pg
     else if i = 5 then entry_addr pg 6 else if i = 6 then HEAP_BLOCK_MAGIC else if i = 7 then of_nat (4 * 1012)
     else if i = 8 then 0 else if i = 9 then 0 else if i = 10 then 1 else if i = 11 then pg else cell m pg i)"
proof -
  have a: "page_aligned pg" using pg by simp
  have h0: "hp_magic pg = entry_addr pg 0" "mem_memset m pg 0 24 = mem_memset m (entry_addr pg 0) 0 24"
    by (simp_all add: field_cells entry_addr_0)
  note d = init_heap_page_def [of m pg phys, unfolded Let_def init_page_values [OF pg] h0 field_cells store32_memset]
  show ?thesis unfolding d using q by (simp add: cell_store a del: of_nat_mult)
qed

lemma init_heap_page_wf:
  assumes "heap_page_addr pg"
  shows "page_wf (init_heap_page m pg phys) pg [(1012, True)]"
  using assms by (simp add: page_wf_def hdr_def init_heap_page_cells)

lemma heap_alloc_page_cases:
  assumes rep: "heap_rep s ps"
  obtains (none) s' where "heap_alloc_page s = (0, s')" "heap_rep s' ps"
  | (page) s' where "heap_alloc_page s = (heap_next_virtual s, s')" "heap_next_virtual s \<noteq> 0"
      "heap_rep s' ((heap_next_virtual s, [(1012, True)]) # ps)"
      "unat (heap_next_virtual s') = unat (heap_next_virtual s) + 4096"
proof -
  let ?pg = "heap_next_virtual s"
  note r = rep [unfolded heap_rep_def]
  obtain phys p where a: "pmm_alloc_page (pg_pmm (kh_paging s)) = (phys, p)" by fastforce
  have u: "unat (?pg + PAGE_SIZE) = unat ?pg + 4096" using r by (simp add: unat_u32_plus)
  show thesis
  proof (cases "?pg + PAGE_SIZE > HEAP_START + HEAP_SIZE \<or> phys = 0")
    case True
    then obtain s' where s': "heap_alloc_page s = (0, s')" "s' = s \<or> s' = s\<lparr>kh_paging := (kh_paging s)\<lparr>pg_pmm := p\<rparr>\<rparr>"
      using a by (cases "?pg + PAGE_SIZE > HEAP_START + HEAP_SIZE") (auto simp: heap_alloc_page_def Let_def)
    have "heap_rep s' ps" using rep s'(2) by (auto simp: heap_rep_def)
    with s'(1) show thesis by (rule none)
  next
    case False
    then have "unat ?pg + 4096 \<le> 0xD0000000" using u by (simp add: word_less_nat_alt)
    then have pg: "heap_page_addr ?pg" using r by (simp add: heap_page_addr_def)
    define m0 where "m0 = init_heap_page (kh_mem s) ?pg phys"
    define m1 where "m1 = store32 (store32 m0 (entry_addr ?pg 3) (heap_pages s)) (entry_addr ?pg 4) 0"
    define m where "m = (if heap_pages s \<noteq> 0 then store32 m1 (entry_addr (heap_pages s) 4) ?pg else m1)"
    obtain s' where s': "heap_alloc_page s = (?pg, s')" "kh_mem s' = m" "heap_pages s' = ?pg"
      "heap_next_virtual s' = ?pg + PAGE_SIZE"
      using a False by (simp add: heap_alloc_page_def Let_def field_cells m_def m1_def m0_def)
    have hp: "heap_pages s \<noteq> 0 \<Longrightarrow> page_aligned (heap_pages s) \<and> heap_pages s \<noteq> ?pg"
      using r by (cases ps) (auto simp: page_wf_def)
    have c: "cell m q i = (if q = ?pg \<and> i = 3 then heap_pages s else cell m0 q i)"
      if "page_aligned q" "i < 1024" "i \<noteq> 4" for q i
      using that hp pg by (cases "heap_pages s = 0") (auto simp: cell_store m_def m1_def)
    have wf: "page_wf m ?pg [(1012, True)]"
      using c pg by (intro page_wf_cong [OF init_heap_page_wf [OF pg, of "kh_mem s" phys]]) (simp add: m0_def)
    have "linked m (heap_pages s) ps"
    proof (rule linked_cong)
      show "linked (kh_mem s) (heap_pages s) ps" using r by simp
      fix p i assume p: "p \<in> set ps" and i: "i < (1024 :: nat)" "i \<noteq> 4"
      have "page_aligned (fst p)" "fst p \<noteq> ?pg" using p r linked_wf [of "kh_mem s" _ ps p] by (auto simp: page_wf_def)
      then show "cell m (fst p) i = cell (kh_mem s) (fst p) i" using c i pg by (simp add: init_heap_page_cells m0_def)
    qed
    moreover have "cell m ?pg 3 = heap_pages s" using c pg by simp
    ultimately have "linked (kh_mem s') (heap_pages s') ((?pg, [(1012, True)]) # ps)" using wf s' by simp
    moreover have "page_aligned (?pg + PAGE_SIZE)" using r u by (simp add: page_aligned_dvd)
    ultimately have "heap_rep s' ((?pg, [(1012, True)]) # ps)"
      using r u s'(4) \<open>unat ?pg + 4096 \<le> 0xD0000000\<close> by (auto simp: heap_rep_def)
    moreover have "unat (heap_next_virtual s') = unat ?pg + 4096" using s'(4) u by (simp only:)
    moreover have "?pg \<noteq> 0" using pg by simp
    ultimately show thesis using s'(1) by (intro page)
  qed
qed


section \<open>Allocation on lists of blocks\<close>

fun take_fit :: "nat \<Rightarrow> nat \<Rightarrow> block list \<Rightarrow> block list" where
  "take_fit n w [] = []"
| "take_fit n w (b # bs) =
     (if snd b \<and> n \<le> fst b then placed n w (fst b) @ bs else b # take_fit n (w + 6 + fst b) bs)"

fun alloc_pages :: "nat \<Rightarrow> (addr \<times> block list) list \<Rightarrow> (addr \<times> block list) list" where
  "alloc_pages n [] = []"
| "alloc_pages n (p # ps) =
     (if first_fit n 6 (snd p) = None then p # alloc_pages n ps else (fst p, take_fit n 6 (snd p)) # ps)"

text \<open>
  The block the search finds is the last of its page, or too close to the end of the page to be split:
  \<open>kmalloc\<close> computes the remainder up to the end of the page, not up to the end of the block.
\<close>

fun clean_fit :: "nat \<Rightarrow> nat \<Rightarrow> block list \<Rightarrow> bool" where
  "clean_fit n w [] = True"
| "clean_fit n w (b # bs) =
     (if snd b \<and> n \<le> fst b then bs = [] \<or> 1024 < w + 6 + n + 10 else clean_fit n (w + 6 + fst b) bs)"

fun clean_pages :: "nat \<Rightarrow> (addr \<times> block list) list \<Rightarrow> bool" where
  "clean_pages n [] = True"
| "clean_pages n (p # ps) =
     (if first_fit n 6 (snd p) = None then clean_pages n ps else clean_fit n 6 (snd p))"

lemma take_fit_append:
  "first_fit n w xs = None \<Longrightarrow> n \<le> k \<Longrightarrow> take_fit n w (xs @ (k, True) # ys) = xs @ placed n (bend w xs) k @ ys"
  by (induction xs arbitrary: w) (auto split: if_splits)

lemma clean_fit_append:
  "first_fit n w xs = None \<Longrightarrow> n \<le> k \<Longrightarrow>
     clean_fit n w (xs @ (k, True) # ys) \<longleftrightarrow> ys = [] \<or> 1024 < bend w xs + 6 + n + 10"
  by (induction xs arbitrary: w) (auto split: if_splits)

lemma alloc_pages_append:
  "page_fit n us = None \<Longrightarrow> first_fit n 6 bs = Some w \<Longrightarrow>
     alloc_pages n (us @ (pg, bs) # vs) = us @ (pg, take_fit n 6 bs) # vs
     \<and> clean_pages n (us @ (pg, bs) # vs) = clean_fit n 6 bs"
  by (induction us) (auto split: option.splits)

text \<open>The size of a request in words, rounded up to eight bytes.\<close>

definition request_words :: "u32 \<Rightarrow> nat" where
  "request_words sz = (unat sz + 7) div 8 * 2"

lemma request_words_facts:
  assumes "sz \<noteq> 0" "\<not> sz > - 1 - (8 - 1)"
  shows "align_up sz 8 = of_nat (4 * request_words sz)" and "4 * request_words sz < 4294967296"
    and "even (request_words sz)" and "0 < request_words sz" and "unat sz \<le> 4 * request_words sz"
proof -
  have "unat sz \<le> 4294967288" using assms(2) by (simp add: word_less_nat_alt not_less)
  then have b: "unat sz + 7 < 4294967296" by simp
  have r: "4 * request_words sz = (unat sz + 7) div 8 * 8" by (simp add: request_words_def)
  then show lt: "4 * request_words sz < 4294967296" using b by linarith
  show "align_up sz 8 = of_nat (4 * request_words sz)"
    unfolding word_unat_eq_iff unat_align_up [OF b] unat_u32_of_nat [OF lt] by (simp only: r)
  show "even (request_words sz)" by (simp add: request_words_def)
  have "0 < unat sz" using assms(1) by (simp add: unat_gt_0)
  then show "0 < request_words sz" by (simp add: request_words_def div_greater_zero_iff)
  show "unat sz \<le> 4 * request_words sz" unfolding r by linarith
qed

lemma heap_scan:
  assumes "heap_rep s ps" "4 * n < 4294967296"
  shows "scan_pages (kh_mem s) (of_nat (4 * n)) (heap_pages s) =
     Some (case page_fit n ps of None \<Rightarrow> Exhausted | Some (pg, w) \<Rightarrow> Found pg (entry_addr pg w))"
proof -
  have "linked (kh_mem s) (heap_pages s) ps" using assms(1) by (simp add: heap_rep_def)
  then show ?thesis by (rule scan_pages_linked [OF assms(2)])
qed

lemma kmalloc_loop_fit:
  assumes rep: "heap_rep s ps" and n: "even n" "0 < n" "4 * n < 4294967296"
    and f: "page_fit n ps = Some (pg, w)" and c: "clean_pages n ps"
  shows "\<exists>s'. kmalloc_loop (of_nat (4 * n)) s = Some (entry_addr pg (w + 6), s') \<and> heap_rep s' (alloc_pages n ps)
    \<and> heap_next_virtual s' = heap_next_virtual s"
proof -
  note r = rep [unfolded heap_rep_def]
  from find_page_Some [OF f] obtain us bs vs where
    ps: "ps = us @ (pg, bs) # vs" and ff: "first_fit n 6 bs = Some w" and us: "page_fit n us = None" by blast
  from first_fit_Some [OF ff] obtain xs k ys where
    bs: "bs = xs @ (k, True) # ys" and w: "w = bend 6 xs" and k: "n \<le> k" and xs: "first_fit n 6 xs = None" by blast
  note ap = alloc_pages_append [OF us ff, of pg vs, folded ps]
  have cl: "ys = [] \<or> 1024 < bend 6 xs + 6 + n + 10" using c ap clean_fit_append [OF xs k, of ys] bs by simp
  have "page_wf (kh_mem s) pg (xs @ (k, True) # ys)"
    using r linked_wf [of "kh_mem s" "heap_pages s" ps "(pg, bs)"] ps bs by simp
  from take_block_spec [OF this n(1,2) k cl] obtain m' where
    tb: "take_block (kh_mem s) pg (entry_addr pg w) (of_nat (4 * n)) = Some (entry_addr pg (w + 6), m')"
    and wf: "page_wf m' pg (take_fit n 6 bs)" and fr: "page_frame (kh_mem s) m' pg"
    using take_fit_append [OF xs k, of ys] w bs by metis
  have "scan_pages (kh_mem s) (of_nat (4 * n)) (heap_pages s) = Some (Found pg (entry_addr pg w))"
    using heap_scan [OF rep n(3)] f by simp
  then have "kmalloc_loop (of_nat (4 * n)) s = Some (entry_addr pg (w + 6), s\<lparr>kh_mem := m'\<rparr>)"
    using tb by (subst kmalloc_loop.simps) simp
  moreover have "linked m' (heap_pages s) (alloc_pages n ps)"
    using linked_replace [OF _ _ fr wf, of "heap_pages s" us bs vs] r ps ap by simp
  then have "heap_rep (s\<lparr>kh_mem := m'\<rparr>) (alloc_pages n ps)"
    using r ps ap by (auto simp: heap_rep_def)
  ultimately show ?thesis by auto
qed

lemma kmalloc_loop_grow:
  assumes rep: "heap_rep s ps" and n: "even n" "0 < n" "n \<le> 1012" and f: "page_fit n ps = None"
  shows "\<exists>p s'. kmalloc_loop (of_nat (4 * n)) s = Some (p, s') \<and>
    (p = 0 \<and> heap_rep s' ps
     \<or> p = entry_addr (heap_next_virtual s) 12 \<and> heap_rep s' ((heap_next_virtual s, placed n 6 1012) # ps))"
proof -
  have b: "4 * n < 4294967296" using n by simp
  have sc: "scan_pages (kh_mem s) (of_nat (4 * n)) (heap_pages s) = Some Exhausted"
    using heap_scan [OF rep b] f by simp
  from rep show ?thesis
  proof (cases rule: heap_alloc_page_cases)
    case (none s')
    then have "kmalloc_loop (of_nat (4 * n)) s = Some (0, s')"
      by (subst kmalloc_loop.simps) (simp add: sc del: of_nat_mult)
    with none show ?thesis by blast
  next
    case (page s')
    let ?ps = "(heap_next_virtual s, [(1012, True)]) # ps"
    have k: "kmalloc_loop (of_nat (4 * n)) s = kmalloc_loop (of_nat (4 * n)) s'"
      using page by (subst kmalloc_loop.simps) (simp add: sc del: of_nat_mult)
    have "page_fit n ?ps = Some (heap_next_virtual s, 6)" "clean_pages n ?ps"
      "alloc_pages n ?ps = (heap_next_virtual s, placed n 6 1012) # ps" using n by simp_all
    with kmalloc_loop_fit [OF page(3) n(1,2) b] show ?thesis unfolding k by auto
  qed
qed

text \<open>A request larger than an empty page fits nowhere; the loop maps pages until none is left.\<close>

lemma kmalloc_loop_large:
  "heap_rep s ps \<Longrightarrow> 1012 < n \<Longrightarrow> 4 * n < 4294967296 \<Longrightarrow> page_fit n ps = None \<Longrightarrow>
     \<exists>s' qs. kmalloc_loop (of_nat (4 * n)) s = Some (0, s') \<and> heap_rep s' (qs @ ps) \<and> (\<forall>q \<in> set qs. snd q = [(1012, True)])"
proof (induction "0xD0000000 - unat (heap_next_virtual s)" arbitrary: s ps rule: less_induct)
  case less
  have sc: "scan_pages (kh_mem s) (of_nat (4 * n)) (heap_pages s) = Some Exhausted"
    using heap_scan [OF less.prems(1,3)] less.prems(4) by simp
  from less.prems(1) show ?case
  proof (cases rule: heap_alloc_page_cases)
    case (none s')
    then have "kmalloc_loop (of_nat (4 * n)) s = Some (0, s')"
      by (subst kmalloc_loop.simps) (simp add: sc del: of_nat_mult)
    then show ?thesis using none(2) by (intro exI [of _ s'] exI [of _ "[]"]) simp
  next
    case (page s')
    let ?ps = "(heap_next_virtual s, [(1012, True)]) # ps"
    have k: "kmalloc_loop (of_nat (4 * n)) s = kmalloc_loop (of_nat (4 * n)) s'"
      using page by (subst kmalloc_loop.simps) (simp add: sc del: of_nat_mult)
    have "unat (heap_next_virtual s') \<le> 0xD0000000" using page(3) by (simp add: heap_rep_def)
    then have "0xD0000000 - unat (heap_next_virtual s') < 0xD0000000 - unat (heap_next_virtual s)"
      using page(4) by linarith
    moreover have "page_fit n ?ps = None" using less.prems(2,4) by simp
    ultimately obtain s'' qs where "kmalloc_loop (of_nat (4 * n)) s' = Some (0, s'')" "heap_rep s'' (qs @ ?ps)"
      "\<forall>q \<in> set qs. snd q = [(1012, True)]"
      using less.hyps [OF _ page(3) less.prems(2,3)] by blast
    then show ?thesis unfolding k
      by (intro exI [of _ s''] exI [of _ "qs @ [(heap_next_virtual s, [(1012, True)])]"]) auto
  qed
qed


section \<open>Live payloads\<close>

text \<open>The payloads of the used blocks of a page as pairs of first cell and words, and of the whole heap as pairs of address and bytes.\<close>

fun used_at :: "nat \<Rightarrow> block list \<Rightarrow> (nat \<times> nat) set" where
  "used_at w [] = {}"
| "used_at w (b # bs) = (if snd b then {} else {(w + 6, fst b)}) \<union> used_at (w + 6 + fst b) bs"

definition live :: "(addr \<times> block list) list \<Rightarrow> (addr \<times> nat) set" where
  "live ps = (\<Union>p \<in> set ps. (\<lambda>(v, k). (entry_addr (fst p) v, 4 * k)) ` used_at 6 (snd p))"

definition range_of :: "addr \<times> nat \<Rightarrow> nat set" where
  "range_of p = {unat (fst p)..<unat (fst p) + snd p}"

lemma used_at_append [simp]: "used_at w (xs @ ys) = used_at w xs \<union> used_at (bend w xs) ys"
  by (induction xs arbitrary: w) auto

lemma used_at_bounds: "(v, k) \<in> used_at w bs \<Longrightarrow> w + 6 \<le> v \<and> v + k \<le> bend w bs"
proof (induction bs arbitrary: w)
  case (Cons b bs)
  then consider "v = w + 6" "k = fst b" | "(v, k) \<in> used_at (w + 6 + fst b) bs" by (auto split: if_splits)
  then show ?case
  proof cases
    case 1
    then show ?thesis using bend_ge [of "w + 6 + fst b" bs] by simp
  next
    case 2
    from Cons.IH [OF 2] show ?thesis by simp
  qed
qed simp

lemma used_at_disjoint:
  "(v, k) \<in> used_at w bs \<Longrightarrow> (v', k') \<in> used_at w bs \<Longrightarrow> (v, k) \<noteq> (v', k') \<Longrightarrow> v + k \<le> v' \<or> v' + k' \<le> v"
proof (induction bs arbitrary: w)
  case (Cons b bs)
  have "u = w + 6 \<and> j = fst b \<or> (u, j) \<in> used_at (w + 6 + fst b) bs" if "(u, j) \<in> used_at w (b # bs)" for u j
    using that by (auto split: if_splits)
  with Cons used_at_bounds [of _ _ "w + 6 + fst b" bs] show ?case by (metis Pair_inject add_leD1)
qed simp

lemma live_range:
  assumes "heap_rep s ps" "(pg, bs) \<in> set ps" "(v, k) \<in> used_at 6 bs"
  shows "unat (entry_addr pg v) = unat pg + 4 * v" "12 \<le> v" "v + k \<le> 1024" "heap_page_addr pg"
proof -
  have wf: "page_wf (kh_mem s) pg bs" using assms(1,2) linked_wf [of _ _ ps "(pg, bs)"] by (auto simp: heap_rep_def)
  then show pg: "heap_page_addr pg" by (simp add: page_wf_def)
  have b: "12 \<le> v \<and> v + k \<le> 1024" using used_at_bounds [OF assms(3)] wf by (simp add: page_wf_def)
  then show "12 \<le> v" "v + k \<le> 1024" by simp_all
  with unat_heap_entry [OF pg, of v] show "unat (entry_addr pg v) = unat pg + 4 * v" by simp
qed

lemma heap_pages_apart:
  assumes "heap_page_addr p" "heap_page_addr q" "p \<noteq> q"
  shows "unat p + 4096 \<le> unat q \<or> unat q + 4096 \<le> unat p"
proof -
  have "4096 dvd unat p" "4096 dvd unat q" "unat p \<noteq> unat q"
    using assms by (simp_all add: heap_page_addr_def page_aligned_dvd word_unat_eq_iff)
  then show ?thesis by (auto elim!: dvdE)
qed

lemma live_disjoint:
  assumes rep: "heap_rep s ps" and x: "x \<in> live ps" and y: "y \<in> live ps" and ne: "x \<noteq> y"
  shows "range_of x \<inter> range_of y = {}"
proof -
  from x obtain p bs v k where p: "(p, bs) \<in> set ps" "(v, k) \<in> used_at 6 bs" "x = (entry_addr p v, 4 * k)"
    by (auto simp: live_def)
  from y obtain q cs v' k' where q: "(q, cs) \<in> set ps" "(v', k') \<in> used_at 6 cs" "y = (entry_addr q v', 4 * k')"
    by (auto simp: live_def)
  note lp = live_range [OF rep p(1,2)] and lq = live_range [OF rep q(1,2)]
  show ?thesis
  proof (cases "p = q")
    case True
    then have "bs = cs" using rep p(1) q(1) eq_key_imp_eq_value [of ps q] by (simp add: heap_rep_def)
    moreover have "(v, k) \<noteq> (v', k')" using ne p(3) q(3) True by auto
    ultimately have "v + k \<le> v' \<or> v' + k' \<le> v" using used_at_disjoint p(2) q(2) by blast
    with lp lq True show ?thesis by (auto simp: range_of_def p(3) q(3))
  next
    case False
    with heap_pages_apart [OF lp(4) lq(4)] lp lq show ?thesis by (auto simp: range_of_def p(3) q(3))
  qed
qed


lemma used_at_split:
  "(v, k) \<in> used_at w bs \<Longrightarrow> \<exists>xs ys. bs = xs @ (k, False) # ys \<and> v = bend w xs + 6"
proof (induction bs arbitrary: w)
  case (Cons b bs)
  show ?case
  proof (cases "\<not> snd b \<and> v = w + 6 \<and> k = fst b")
    case True
    then show ?thesis by (intro exI [of _ "[]"] exI [of _ bs]) (cases b, auto)
  next
    case False
    with Cons.prems have "(v, k) \<in> used_at (w + 6 + fst b) bs" by (auto split: if_splits)
    from Cons.IH [OF this] obtain xs ys where "bs = xs @ (k, False) # ys" "v = bend (w + 6 + fst b) xs + 6" by blast
    then show ?thesis by (intro exI [of _ "b # xs"] exI [of _ ys]) simp
  qed
qed simp

lemma rep_page_wf: "heap_rep s ps \<Longrightarrow> (pg, bs) \<in> set ps \<Longrightarrow> page_wf (kh_mem s) pg bs"
  using linked_wf [of "kh_mem s" "heap_pages s" ps "(pg, bs)"] by (simp add: heap_rep_def)

lemma used_at_pos:
  assumes "heap_rep s ps" "(pg, bs) \<in> set ps" "(v, k) \<in> used_at 6 bs"
  shows "0 < k"
proof -
  from used_at_split [OF assms(3)] obtain xs ys where "bs = xs @ (k, False) # ys" by blast
  with page_wf_middle(1) rep_page_wf [OF assms(1,2)] show ?thesis by (fastforce simp: hdr_def)
qed

text \<open>A live payload belongs to one page and one cell.\<close>

lemma live_unique:
  assumes rep: "heap_rep s ps" and x: "(pg, bs) \<in> set ps" "(v, k) \<in> used_at 6 bs"
    and y: "(qg, cs) \<in> set ps" "(u, j) \<in> used_at 6 cs" and e: "entry_addr qg u = entry_addr pg v"
  shows "qg = pg \<and> u = v"
proof -
  note lx = live_range [OF rep x] and ly = live_range [OF rep y]
  have s: "unat qg + 4 * u = unat pg + 4 * v" using e lx(1) ly(1) by simp
  have "4 * u < 4096" "4 * v < 4096" using lx(3) ly(3) used_at_pos [OF rep x] used_at_pos [OF rep y] by simp_all
  then have "qg = pg" using s lx(4) ly(4) by (intro page_offset_unique [of qg pg "4 * u" "4 * v"]) simp_all
  with s show ?thesis by simp
qed

text \<open>The payload of a free block, and any cell of a page not in the list, is not live.\<close>

lemma live_at:
  assumes rep: "heap_rep s ps" and pg: "heap_page_addr pg" and v: "v < 1024" and x: "(entry_addr pg v, l) \<in> live ps"
  shows "\<exists>bs k. (pg, bs) \<in> set ps \<and> (v, k) \<in> used_at 6 bs"
proof -
  from x obtain qg cs u j where q: "(qg, cs) \<in> set ps" "(u, j) \<in> used_at 6 cs" "entry_addr pg v = entry_addr qg u"
    by (auto simp: live_def)
  note lq = live_range [OF rep q(1,2)]
  have u: "u < 1024" using lq(3) used_at_pos [OF rep q(1,2)] by simp
  have "unat pg + 4 * v = unat qg + 4 * u" using q(3) lq(1) unat_heap_entry [OF pg, of v] v by simp
  moreover from this have "pg = qg" using pg lq(4) u v by (intro page_offset_unique [of pg qg "4 * v" "4 * u"]) simp_all
  ultimately show ?thesis using q by auto
qed

lemma free_not_live:
  assumes rep: "heap_rep s ps" and m: "(pg, xs @ (k, True) # ys) \<in> set ps"
  shows "(entry_addr pg (bend 6 xs + 6), l) \<notin> live ps"
proof
  assume x: "(entry_addr pg (bend 6 xs + 6), l) \<in> live ps"
  note wf = rep_page_wf [OF rep m]
  have b: "bend 6 xs + 6 + k \<le> 1024" "0 < k" using page_wf_middle(1) [OF wf] by (simp_all add: hdr_def)
  then have "bend 6 xs + 6 < 1024" by simp
  from live_at [OF rep _ this x] wf obtain bs j where
    j: "(pg, bs) \<in> set ps" "(bend 6 xs + 6, j) \<in> used_at 6 bs" by (auto simp: page_wf_def)
  have "bs = xs @ (k, True) # ys" using j(1) m rep eq_key_imp_eq_value [of ps pg] by (simp add: heap_rep_def)
  then have "(bend 6 xs + 6, j) \<in> used_at 6 xs \<or> (bend 6 xs + 6, j) \<in> used_at (bend 6 xs + 6 + k) ys" using j(2) by simp
  then show False
    using used_at_bounds [of "bend 6 xs + 6" j 6 xs] used_at_bounds [of "bend 6 xs + 6" j "bend 6 xs + 6 + k" ys] by auto
qed

text \<open>What \<open>kmalloc\<close> guarantees: one more live payload of at least the requested size, or \<open>NULL\<close>.\<close>

lemma live_Cons: "live (p # ps) = (\<lambda>(v, k). (entry_addr (fst p) v, 4 * k)) ` used_at 6 (snd p) \<union> live ps"
  by (simp add: live_def)

lemma live_append: "live (us @ vs) = live us \<union> live vs"
  by (auto simp: live_def)

lemma used_at_placed:
  assumes "n \<le> k" "w + 6 + k \<le> 1024" and "ys = [] \<and> w + 6 + k = 1024 \<or> 1024 < w + 6 + n + 10"
  obtains k' where "n \<le> k'" "used_at w (placed n w k @ ys) = insert (w + 6, k') (used_at (w + 6 + k) ys)"
proof (cases "w + 6 + n + 10 \<le> 1024")
  case True
  with assms show thesis by (intro that [of n]) (simp_all add: placed_def)
next
  case False
  with assms show thesis by (intro that [of k]) (simp_all add: placed_def)
qed

lemma live_alloc_pages:
  assumes rep: "heap_rep s ps" and f: "page_fit n ps = Some (pg, w)" and c: "clean_pages n ps"
  obtains k where "n \<le> k" "live (alloc_pages n ps) = insert (entry_addr pg (w + 6), 4 * k) (live ps)"
    "(entry_addr pg (w + 6), 4 * k) \<notin> live ps"
proof -
  from find_page_Some [OF f] obtain us bs vs where
    ps: "ps = us @ (pg, bs) # vs" and ff: "first_fit n 6 bs = Some w" and us: "page_fit n us = None" by blast
  from first_fit_Some [OF ff] obtain xs k ys where
    bs: "bs = xs @ (k, True) # ys" and w: "w = bend 6 xs" and k: "n \<le> k" and xs: "first_fit n 6 xs = None" by blast
  note ap = alloc_pages_append [OF us ff, of pg vs, folded ps]
  have "page_wf (kh_mem s) pg bs" using rep ps linked_wf [of "kh_mem s" "heap_pages s" ps "(pg, bs)"]
    by (simp add: heap_rep_def)
  note h = page_wf_middle [OF this [unfolded bs]]
  have b: "w + 6 + k \<le> 1024" using h(1) by (simp add: hdr_def w)
  have "ys = [] \<and> w + 6 + k = 1024 \<or> 1024 < w + 6 + n + 10"
    using c ap clean_fit_append [OF xs k, of ys] h(3) w bs by auto
  from used_at_placed [OF k b this] obtain k' where
    k': "n \<le> k'" "used_at w (placed n w k @ ys) = insert (w + 6, k') (used_at (w + 6 + k) ys)" .
  have "used_at 6 (take_fit n 6 bs) = insert (w + 6, k') (used_at 6 bs)"
    using k'(2) take_fit_append [OF xs k, of ys] by (simp add: bs w)
  then have "live (alloc_pages n ps) = insert (entry_addr pg (w + 6), 4 * k') (live ps)"
    using ap by (simp add: ps live_append live_Cons)
  moreover have "(entry_addr pg (w + 6), 4 * k') \<notin> live ps"
    using free_not_live [OF rep, of pg xs k ys] ps bs w by simp
  ultimately show thesis using k'(1) by (rule that [rotated])
qed

definition no_holes :: "(addr \<times> block list) list \<Rightarrow> bool" where
  "no_holes ps \<longleftrightarrow> (\<forall>p \<in> set ps. \<forall>b \<in> set (butlast (snd p)). \<not> snd b)"

lemma no_holes_fit:
  "(\<forall>b \<in> set (butlast bs). \<not> snd b) \<Longrightarrow> clean_fit n w bs \<and> (\<forall>b \<in> set (butlast (take_fit n w bs)). \<not> snd b)"
  by (induction bs arbitrary: w) (auto simp: placed_def split: if_splits)

lemma no_holes_clean: "no_holes ps \<Longrightarrow> clean_pages n ps"
  using no_holes_fit by (induction ps) (auto simp: no_holes_def)

lemma no_holes_alloc: "no_holes ps \<Longrightarrow> no_holes (alloc_pages n ps)"
  using no_holes_fit [of _ n 6] by (induction ps) (auto simp: no_holes_def)

lemma first_fit_large:
  assumes "page_wf m pg bs" "1012 < n"
  shows "first_fit n 6 bs = None"
proof (rule ccontr)
  assume "first_fit n 6 bs \<noteq> None"
  then obtain w where "first_fit n 6 bs = Some w" by blast
  from first_fit_Some [OF this] obtain xs k ys where bs: "bs = xs @ (k, True) # ys" "n \<le> k" by blast
  from page_wf_middle(1,2) [OF assms(1) [unfolded bs(1)]] have "12 + k \<le> 1024" by (simp add: hdr_def)
  with bs assms(2) show False by simp
qed

lemma find_page_large: "linked m a ps \<Longrightarrow> 1012 < n \<Longrightarrow> page_fit n ps = None"
  using first_fit_large by (induction ps arbitrary: a) auto

lemma live_empty_pages: "\<forall>q \<in> set qs. snd q = [(1012, True)] \<Longrightarrow> live (qs @ ps) = live ps"
  by (auto simp: live_def)

lemma found_block:
  assumes "heap_rep s ps" "page_fit n ps = Some (pg, w)"
  shows "heap_page_addr pg" "w + 6 \<le> 1024" "even w"
proof -
  from find_page_Some [OF assms(2)] obtain us bs vs where "ps = us @ (pg, bs) # vs" and f: "first_fit n 6 bs = Some w" by blast
  then have wf: "page_wf (kh_mem s) pg bs"
    using assms(1) linked_wf [of "kh_mem s" "heap_pages s" ps "(pg, bs)"] by (simp add: heap_rep_def)
  then show "heap_page_addr pg" by (simp add: page_wf_def)
  from first_fit_Some [OF f] obtain xs k ys where "bs = xs @ (k, True) # ys" "w = bend 6 xs" by blast
  with page_wf_middle(1) [of "kh_mem s" pg xs "(k, True)" ys] wf show "w + 6 \<le> 1024" "even w" by (simp_all add: hdr_def)
qed

text \<open>The outcome of a request of \<open>n\<close> words: a payload that joins the live ones, or \<open>NULL\<close>.\<close>

definition alloc_outcome :: "nat \<Rightarrow> (addr \<times> block list) list \<Rightarrow> addr \<Rightarrow> kheap \<Rightarrow> (addr \<times> block list) list \<Rightarrow> bool" where
  "alloc_outcome n ps p s' ps' \<longleftrightarrow> heap_rep s' ps' \<and>
     (if p = 0 then live ps' = live ps
      else p AND 7 = 0 \<and> (\<exists>l. n \<le> l \<and> live ps' = insert (p, l) (live ps) \<and> (p, l) \<notin> live ps))"

lemma alloc_outcome_fit:
  assumes rep: "heap_rep s ps" and n: "even n" "0 < n" "4 * n < 4294967296"
    and f: "page_fit n ps = Some (pg, w)" and c: "clean_pages n ps"
  shows "\<exists>p s'. kmalloc_loop (of_nat (4 * n)) s = Some (p, s') \<and> p \<noteq> 0 \<and> alloc_outcome (4 * n) ps p s' (alloc_pages n ps)"
proof -
  note b = found_block [OF rep f]
  have "entry_addr pg (w + 6) \<noteq> 0" "entry_addr pg (w + 6) AND 7 = 0"
    using heap_entry_even [OF b(1,2)] b by simp_all
  moreover obtain s' where "kmalloc_loop (of_nat (4 * n)) s = Some (entry_addr pg (w + 6), s')" "heap_rep s' (alloc_pages n ps)"
    using kmalloc_loop_fit [OF rep n f c] by blast
  moreover obtain l where "n \<le> l" "live (alloc_pages n ps) = insert (entry_addr pg (w + 6), 4 * l) (live ps)"
    "(entry_addr pg (w + 6), 4 * l) \<notin> live ps"
    using live_alloc_pages [OF rep f c] .
  ultimately show ?thesis unfolding alloc_outcome_def
    by (intro exI [of _ "entry_addr pg (w + 6)"] exI [of _ s']) (auto intro!: exI [of _ "4 * l"])
qed

lemma alloc_outcome_grow:
  assumes rep: "heap_rep s ps" and n: "even n" "0 < n" "n \<le> 1012" and f: "page_fit n ps = None"
  shows "\<exists>p s' ps'. kmalloc_loop (of_nat (4 * n)) s = Some (p, s') \<and> alloc_outcome (4 * n) ps p s' ps'
    \<and> (ps' = ps \<or> ps' = (heap_next_virtual s, placed n 6 1012) # ps)"
proof -
  let ?v = "heap_next_virtual s" and ?ps = "(heap_next_virtual s, placed n 6 1012) # ps"
  from kmalloc_loop_grow [OF assms] obtain p s' where s': "kmalloc_loop (of_nat (4 * n)) s = Some (p, s')"
    and or: "p = 0 \<and> heap_rep s' ps \<or> p = entry_addr ?v 12 \<and> heap_rep s' ?ps" by blast
  from or show ?thesis
  proof
    assume "p = 0 \<and> heap_rep s' ps"
    with s' show ?thesis unfolding alloc_outcome_def by auto
  next
    assume g: "p = entry_addr ?v 12 \<and> heap_rep s' ?ps"
    then have v: "heap_page_addr ?v" by (auto simp: heap_rep_def page_wf_def)
    obtain l where l: "n \<le> l" "used_at 6 (placed n 6 1012) = {(12, l)}"
      using used_at_placed [OF n(3), of 6 "[]"] by auto
    then have "live ?ps = insert (p, 4 * l) (live ps)" using g by (simp add: live_Cons)
    moreover have "p \<noteq> 0" "p AND 7 = 0" using g v heap_entry_even [of ?v 12] by simp_all
    moreover have "?v \<notin> fst ` set ps" using g by (auto simp: heap_rep_def)
    then have "(p, 4 * l) \<notin> live ps" using live_at [OF rep v, of 12 "4 * l"] g by force
    ultimately have "alloc_outcome (4 * n) ps p s' ?ps"
      using g l(1) unfolding alloc_outcome_def by (auto intro!: exI [of _ "4 * l"])
    with s' show ?thesis by blast
  qed
qed

lemma kmalloc_valid:
  assumes rep: "heap_rep s ps" and nh: "no_holes ps"
  shows "\<exists>p s' ps'. kmalloc sz s = Some (p, s') \<and> alloc_outcome (unat sz) ps p s' ps' \<and> no_holes ps'"
proof (cases "sz = 0 \<or> sz > - 1 - (8 - 1)")
  case True
  then have "kmalloc sz s = Some (0, s)" by (auto simp: kmalloc_def)
  with rep nh show ?thesis by (auto simp: alloc_outcome_def)
next
  case False
  let ?n = "request_words sz"
  have n: "align_up sz 8 = of_nat (4 * ?n)" "4 * ?n < 4294967296" "even ?n" "0 < ?n" "unat sz \<le> 4 * ?n"
    using request_words_facts [of sz] False by auto
  have k: "kmalloc sz s = kmalloc_loop (of_nat (4 * ?n)) s" using False n(1) by (simp add: kmalloc_def)
  have mono: "alloc_outcome (unat sz) ps p s' ps'" if "alloc_outcome (4 * ?n) ps p s' ps'" for p s' ps'
    using that n(5) unfolding alloc_outcome_def by (auto split: if_splits intro: order_trans)
  consider pw where "page_fit ?n ps = Some pw" | "page_fit ?n ps = None" "?n \<le> 1012" | "page_fit ?n ps = None" "1012 < ?n"
    by fastforce
  then show ?thesis
  proof cases
    case (1 pw)
    then have "page_fit ?n ps = Some (fst pw, snd pw)" by simp
    from alloc_outcome_fit [OF rep n(3,4,2) this no_holes_clean [OF nh]] show ?thesis
      using mono no_holes_alloc [OF nh] unfolding k by blast
  next
    case 2
    have "no_holes ((heap_next_virtual s, placed ?n 6 1012) # ps)" using nh by (auto simp: no_holes_def placed_def)
    with alloc_outcome_grow [OF rep n(3,4) 2(2,1)] show ?thesis using mono nh unfolding k by blast
  next
    case 3
    obtain s' qs where s': "kmalloc_loop (of_nat (4 * ?n)) s = Some (0, s')" "heap_rep s' (qs @ ps)"
      "\<forall>q \<in> set qs. snd q = [(1012, True)]" using kmalloc_loop_large [OF rep 3(2) n(2) 3(1)] by blast
    moreover have "no_holes (qs @ ps)" using s'(3) nh by (auto simp: no_holes_def)
    ultimately show ?thesis using live_empty_pages [OF s'(3)] unfolding k alloc_outcome_def by auto
  qed
qed


section \<open>Releasing a block\<close>

lemma set_free_wf:
  assumes wf: "page_wf m pg (xs @ (k, f) # ys)"
  defines "m' \<equiv> store32 m (entry_addr pg (bend 6 xs + 4)) 1"
  shows "page_wf m' pg (xs @ (k, True) # ys)" and "page_frame m m' pg"
proof -
  let ?w = "bend 6 xs"
  note h = page_wf_middle [OF wf]
  have pg: "heap_page_addr pg" using wf by (simp add: page_wf_def)
  have b: "?w + 6 + k \<le> 1024" using h(1) by (simp add: hdr_def)
  have c: "cell m' q i = (if q = pg \<and> i = ?w + 4 then 1 else cell m q i)" if "page_aligned q" "i < 1024" for q i
    using that pg b by (auto simp: m'_def cell_store)
  then show f: "page_frame m m' pg" using h(2) by (auto simp: page_frame_def)
  have "hdr m' pg ?w (last_addr pg 0 6 xs) (if ys = [] then 0 else entry_addr pg (?w + 6 + k)) (k, True)"
    using h(1) pg b by (simp add: hdr_def c)
  moreover have "seg m pg (entry_addr pg ?w) (?w + 6 + k) ys 0" using wf by (simp add: page_wf_def seg_append)
  moreover have "cell m' pg i = cell m pg i" if "i \<in> hcells (?w + 6 + k) ys" for i
    using that c [of pg i] pg hcells_bounds [OF that] h(3) by simp
  ultimately have "seg m' pg (last_addr pg 0 6 xs) ?w ((k, True) # ys) 0"
    using seg_cong [of "?w + 6 + k" ys m' pg m] by (auto split: if_splits)
  then show "page_wf m' pg (xs @ (k, True) # ys)"
    using h(3) c pg b by (intro page_wf_replace [OF wf f, of "{}"]) auto
qed

text \<open>Two adjacent free blocks: their headers, and the cells after the merge.\<close>

lemma two_blocks:
  assumes "page_wf m pg (xs @ (k, f) # (k2, f2) # ys)"
  shows "hdr m pg (bend 6 xs) (last_addr pg 0 6 xs) (entry_addr pg (bend 6 xs + 6 + k)) (k, f)"
    and "hdr m pg (bend 6 xs + 6 + k) (entry_addr pg (bend 6 xs))
           (if ys = [] then 0 else entry_addr pg (bend 6 xs + 12 + k + k2)) (k2, f2)"
    and "seg m pg (entry_addr pg (bend 6 xs + 6 + k)) (bend 6 xs + 12 + k + k2) ys 0"
    and "bend (bend 6 xs + 12 + k + k2) ys = 1024"
    and "ys \<noteq> [] \<Longrightarrow> bend 6 xs + 18 + k + k2 \<le> 1024"
proof -
  show s: "seg m pg (entry_addr pg (bend 6 xs + 6 + k)) (bend 6 xs + 12 + k + k2) ys 0"
    and "hdr m pg (bend 6 xs) (last_addr pg 0 6 xs) (entry_addr pg (bend 6 xs + 6 + k)) (k, f)"
    and "hdr m pg (bend 6 xs + 6 + k) (entry_addr pg (bend 6 xs))
           (if ys = [] then 0 else entry_addr pg (bend 6 xs + 12 + k + k2)) (k2, f2)"
    and "bend (bend 6 xs + 12 + k + k2) ys = 1024"
    using assms by (auto simp: page_wf_def seg_append add_ac numeral_eq_Suc)
  show "ys \<noteq> [] \<Longrightarrow> bend 6 xs + 18 + k + k2 \<le> 1024" using s by (cases ys) (auto simp: hdr_def)
qed

lemma merge_next_cells:
  assumes wf: "page_wf m pg (xs @ (k, True) # (k2, True) # ys)"
    and w: "w = bend 6 xs" "z = w + 12 + k + k2"
  defines "m' \<equiv> merge_next m (entry_addr pg w)"
  shows "page_aligned q \<Longrightarrow> i < 1024 \<Longrightarrow> cell m' q i =
    (if q = pg \<and> i = w + 1 then of_nat (4 * (k + 6 + k2))
     else if q = pg \<and> i = w + 2 then (if ys = [] then 0 else entry_addr pg z)
     else if q = pg \<and> ys \<noteq> [] \<and> i = z + 3 then entry_addr pg w else cell m q i)"
proof -
  note b = two_blocks [OF wf, folded w(1), folded w(2)]
  have pg: "heap_page_addr pg" "page_aligned pg" using wf by (simp_all add: page_wf_def)
  have bd: "w + 12 + k + k2 \<le> 1024" "0 < k" using b(1,2) by (simp_all add: hdr_def)
  have z3: "ys \<noteq> [] \<Longrightarrow> z + 3 < 1024" using b(5) w(2) by simp
  let ?v = "w + 6 + k"
  have nz: "entry_addr pg ?v \<noteq> 0" "ys \<noteq> [] \<Longrightarrow> entry_addr pg z \<noteq> 0" using pg(1) bd w(2) by simp_all
  let ?m1 = "store32 m (entry_addr pg (w + 1)) (of_nat (4 * (k + 6 + k2)))"
  let ?m2 = "store32 ?m1 (entry_addr pg (w + 2)) (if ys = [] then 0 else entry_addr pg z)"
  have f: "cell m pg (w + 1) = of_nat (4 * k)" "cell m pg (w + 2) = entry_addr pg ?v" "cell m pg (?v + 1) = of_nat (4 * k2)"
    "cell m pg (?v + 2) = (if ys = [] then 0 else entry_addr pg z)" "cell m pg (?v + 4) \<noteq> 0"
    using b(1,2) by (simp_all add: hdr_def)
  have sm: "of_nat (4 * k) + (24 + of_nat (4 * k2)) = (of_nat (4 * (k + 6 + k2)) :: u32)" by simp
  have c1: "cell ?m1 pg (w + 2) = entry_addr pg ?v" "cell ?m1 pg (?v + 2) = (if ys = [] then 0 else entry_addr pg z)"
    using f bd pg by (simp_all add: cell_store del: of_nat_mult of_nat_add)
  have c2: "cell ?m2 pg (w + 2) = (if ys = [] then 0 else entry_addr pg z)"
    using bd pg by (simp add: cell_store del: of_nat_mult of_nat_add)
  have "m' = (if ys = [] then ?m2 else store32 ?m2 (entry_addr pg (z + 3)) (entry_addr pg w))"
    unfolding m'_def merge_next_def Let_def field_cells cell_load f(1-3) sm c1 c2
    using f(5) nz by (simp add: field_cells cell_load del: of_nat_mult of_nat_add)
  then show "page_aligned q \<Longrightarrow> i < 1024 \<Longrightarrow> cell m' q i =
    (if q = pg \<and> i = w + 1 then of_nat (4 * (k + 6 + k2))
     else if q = pg \<and> i = w + 2 then (if ys = [] then 0 else entry_addr pg z)
     else if q = pg \<and> ys \<noteq> [] \<and> i = z + 3 then entry_addr pg w else cell m q i)"
    using bd z3 pg w(2) by (cases "ys = []") (auto simp: cell_store simp del: of_nat_mult of_nat_add)
qed


lemma merge_next_wf:
  assumes wf: "page_wf m pg (xs @ (k, True) # (k2, True) # ys)"
  defines "m' \<equiv> merge_next m (entry_addr pg (bend 6 xs))"
  shows "page_wf m' pg (xs @ (k + 6 + k2, True) # ys)" and "page_frame m m' pg"
proof -
  let ?w = "bend 6 xs" and ?z = "bend 6 xs + 12 + k + k2"
  note b = two_blocks [OF wf] and c = merge_next_cells [OF wf refl refl, folded m'_def]
  have pg: "page_aligned pg" "6 \<le> ?w" using wf bend_ge [of 6 xs] by (simp_all add: page_wf_def)
  have bd: "?z \<le> 1024" "even ?w" "even k" "even k2" using b(1,2) by (simp_all add: hdr_def)
  show f: "page_frame m m' pg" using pg(2) by (auto simp: page_frame_def c)
  have h: "hdr m' pg ?w (last_addr pg 0 6 xs) (if ys = [] then 0 else entry_addr pg ?z) (k + 6 + k2, True)"
    using b(1) bd pg by (simp add: hdr_def c del: of_nat_mult of_nat_add)
  have "seg m' pg (entry_addr pg ?w) ?z ys 0"
  proof (cases ys)
    case (Cons y ys')
    have y: "hdr m pg ?z (entry_addr pg (?w + 6 + k)) (if ys' = [] then 0 else entry_addr pg (?z + 6 + fst y)) y"
      and s: "seg m pg (entry_addr pg ?z) (?z + 6 + fst y) ys' 0" using b(3) Cons by simp_all
    have "hdr m' pg ?z (entry_addr pg ?w) (if ys' = [] then 0 else entry_addr pg (?z + 6 + fst y)) y"
      using y Cons pg by (simp add: hdr_def c del: of_nat_mult of_nat_add)
    moreover have "cell m' pg i = cell m pg i" if "i \<in> hcells (?z + 6 + fst y) ys'" for i
      using hcells_bounds [OF that] b(4) Cons pg by (simp add: c)
    ultimately show ?thesis using s Cons seg_cong [of "?z + 6 + fst y" ys' m' pg m] by simp
  qed simp
  moreover have z: "?w + 6 + (k + 6 + k2) = ?z" by simp
  ultimately have "seg m' pg (last_addr pg 0 6 xs) ?w ((k + 6 + k2, True) # ys) 0"
    using h unfolding seg.simps fst_conv z by (cases "ys = []") simp_all
  moreover have "bend ?w ((k + 6 + k2, True) # ys) = 1024" using b(4) unfolding bend.simps fst_conv z .
  moreover have "{?z + 3} \<inter> hcells 6 xs = {}"
  proof -
    have "?z + 3 \<notin> hcells 6 xs" using hcells_bounds [of "?z + 3" 6 xs] by linarith
    then show ?thesis by simp
  qed
  moreover have "cell m' pg i = cell m pg i"
    if "i < 1024" "i < ?w \<or> ?w + 6 + fst (k, True) \<le> i" "i \<notin> {?z + 3}" for i
  proof -
    have "i \<noteq> ?w + 1" "i \<noteq> ?w + 2" "i \<noteq> ?z + 3" using that(2,3) by auto
    then show ?thesis using c [OF pg(1) that(1)] by simp
  qed
  ultimately show "page_wf m' pg (xs @ (k + 6 + k2, True) # ys)"
    by (intro page_wf_replace [OF wf f, of "{?z + 3}"]) simp_all
qed

lemma merge_next_skip:
  assumes wf: "page_wf m pg (xs @ (k, f) # ys)" and n: "ys = [] \<or> \<not> snd (hd ys)"
  shows "merge_next m (entry_addr pg (bend 6 xs)) = m"
proof (cases ys)
  case Nil
  with page_wf_middle(1) [OF wf] show ?thesis by (simp add: merge_next_def hdr_def field_cells cell_load)
next
  case (Cons y ys')
  obtain k2 where y: "y = (k2, False)" using n Cons by (cases y) auto
  note b = two_blocks [OF wf [unfolded Cons y]]
  show ?thesis using b(1,2) by (simp add: merge_next_def hdr_def field_cells cell_load)
qed

text \<open>Merging a free block into its free predecessor is the merge of the predecessor with its next block.\<close>

lemma merge_prev_eq:
  assumes wf: "page_wf m pg (xs @ (k0, True) # (k, True) # ys)"
  shows "merge_prev m (entry_addr pg (bend 6 xs + 6 + k0)) = merge_next m (entry_addr pg (bend 6 xs))"
proof -
  let ?w = "bend 6 xs" and ?v = "bend 6 xs + 6 + k0"
  note b = two_blocks [OF wf]
  have pg: "heap_page_addr pg" "page_aligned pg" using wf by (simp_all add: page_wf_def)
  have bd: "?w + 12 + k0 + k \<le> 1024" "0 < k0" using b(1,2) by (simp_all add: hdr_def)
  have f: "cell m pg (?w + 2) = entry_addr pg ?v" "cell m pg (?v + 3) = entry_addr pg ?w"
    "cell m pg (?w + 4) \<noteq> 0" "cell m pg (?v + 4) \<noteq> 0" using b(1,2) by (simp_all add: hdr_def)
  have nz: "entry_addr pg ?v \<noteq> 0" "entry_addr pg ?w \<noteq> 0" using pg(1) bd by simp_all
  have c: "cell (store32 m (entry_addr pg (?w + 1)) x) pg (?v + 3) = entry_addr pg ?w"
    "cell (store32 m (entry_addr pg (?w + 1)) x) pg (?w + 2) = entry_addr pg ?v"
    "cell (store32 (store32 m (entry_addr pg (?w + 1)) x) (entry_addr pg (?w + 2)) y) pg (?v + 2)
      = cell (store32 m (entry_addr pg (?w + 1)) x) pg (?v + 2)"
    "cell (store32 (store32 m (entry_addr pg (?w + 1)) x) (entry_addr pg (?w + 2)) y) pg (?w + 2) = y"
    "cell (store32 (store32 m (entry_addr pg (?w + 1)) x) (entry_addr pg (?w + 2)) y) pg (?v + 3) = entry_addr pg ?w" for x y
    using f bd pg by (simp_all add: cell_store)
  show ?thesis
    unfolding merge_prev_def merge_next_def Let_def
    using f nz by (simp only: field_cells cell_load c simp_thms if_True)
qed

lemma merge_prev_skip:
  assumes wf: "page_wf m pg (xs @ (k, f) # ys)" and n: "xs = [] \<or> \<not> snd (last xs)"
  shows "merge_prev m (entry_addr pg (bend 6 xs)) = m"
proof (cases xs rule: rev_cases)
  case Nil
  with page_wf_middle(1) [OF wf] show ?thesis by (simp add: merge_prev_def hdr_def field_cells cell_load)
next
  case (snoc us x)
  obtain k0 where x: "x = (k0, False)" using n snoc by (cases x) auto
  from wf snoc x have "page_wf m pg (us @ (k0, False) # (k, f) # ys)" by simp
  note b = two_blocks [OF this]
  show ?thesis using b(1,2) snoc x by (simp add: merge_prev_def hdr_def field_cells cell_load)
qed

section \<open>Release on lists of blocks\<close>

definition join_next :: "nat \<Rightarrow> block list \<Rightarrow> block list" where
  "join_next k ys = (case ys of (k2, True) # zs \<Rightarrow> (k + 6 + k2, True) # zs | _ \<Rightarrow> (k, True) # ys)"

definition join_prev :: "block list \<Rightarrow> block list \<Rightarrow> block list" where
  "join_prev xs ys = (if xs \<noteq> [] \<and> snd (last xs)
     then butlast xs @ (fst (last xs) + 6 + fst (hd ys), True) # tl ys else xs @ ys)"

lemma page_frame_trans: "page_frame m m1 pg \<Longrightarrow> page_frame m1 m2 pg \<Longrightarrow> page_frame m m2 pg"
  by (simp add: page_frame_def)

lemma page_frame_refl: "page_frame m m pg"
  by (simp add: page_frame_def)

lemma merge_next_join:
  assumes wf: "page_wf m pg (xs @ (k, True) # ys)"
  defines "m' \<equiv> merge_next m (entry_addr pg (bend 6 xs))"
  shows "page_wf m' pg (xs @ join_next k ys)" and "page_frame m m' pg"
proof -
  have "page_wf m' pg (xs @ join_next k ys) \<and> page_frame m m' pg"
  proof (cases "ys = [] \<or> \<not> snd (hd ys)")
    case True
    moreover have "join_next k ys = (k, True) # ys" using True by (cases ys) (auto simp: join_next_def split: bool.splits)
    ultimately show ?thesis using wf merge_next_skip [OF wf] by (simp add: m'_def page_frame_refl)
  next
    case False
    then obtain k2 zs where "ys = (k2, True) # zs" by (cases ys) auto
    with wf merge_next_wf [of m pg xs k k2 zs] show ?thesis by (simp add: m'_def join_next_def)
  qed
  then show "page_wf m' pg (xs @ join_next k ys)" "page_frame m m' pg" by auto
qed

lemma merge_prev_join:
  assumes wf: "page_wf m pg (xs @ (k, True) # ys)"
  defines "m' \<equiv> merge_prev m (entry_addr pg (bend 6 xs))"
  shows "page_wf m' pg (join_prev xs ((k, True) # ys))" and "page_frame m m' pg"
proof -
  have "page_wf m' pg (join_prev xs ((k, True) # ys)) \<and> page_frame m m' pg"
  proof (cases "xs = [] \<or> \<not> snd (last xs)")
    case True
    then show ?thesis using wf merge_prev_skip [OF wf] by (auto simp: m'_def page_frame_refl join_prev_def)
  next
    case False
    then obtain us k0 where xs: "xs = us @ [(k0, True)]" by (cases xs rule: rev_cases) auto
    then have "page_wf m pg (us @ (k0, True) # (k, True) # ys)" using wf by simp
    from merge_prev_eq [OF this] merge_next_wf [OF this] xs show ?thesis by (simp add: m'_def join_prev_def)
  qed
  then show "page_wf m' pg (join_prev xs ((k, True) # ys))" "page_frame m m' pg" by auto
qed

lemma release_block_wf:
  assumes wf: "page_wf m pg (xs @ (k, f) # ys)"
  defines "m' \<equiv> release_block m (entry_addr pg (bend 6 xs))"
  shows "page_wf m' pg (join_prev xs (join_next k ys))" and "page_frame m m' pg"
proof -
  note 1 = set_free_wf [OF wf]
  note 2 = merge_next_join [OF 1(1)]
  obtain k' zs where j: "join_next k ys = (k', True) # zs"
    by (cases "ys = [] \<or> \<not> snd (hd ys)"; cases ys) (auto simp: join_next_def split: bool.splits prod.splits)
  note 3 = merge_prev_join [OF 2(1) [unfolded j]]
  show "page_wf m' pg (join_prev xs (join_next k ys))"
    using 3(1) by (simp add: m'_def release_block_def field_cells j)
  show "page_frame m m' pg"
    using page_frame_trans [OF page_frame_trans [OF 1(2) 2(2)] 3(2)] by (simp add: m'_def release_block_def field_cells)
qed


section \<open>\<open>kfree\<close> of a represented block\<close>

lemma kfree_block:
  assumes wf: "page_wf (kh_mem s) pg (xs @ (k, f) # ys)" and p: "p = entry_addr pg (bend 6 xs + 6)"
  shows "kfree p s = Some (if f then s else s\<lparr>kh_mem := release_block (kh_mem s) (entry_addr pg (bend 6 xs))\<rparr>)"
proof -
  let ?w = "bend 6 xs" and ?m = "kh_mem s"
  note h = page_wf_middle [OF wf]
  have pg: "heap_page_addr pg" using wf by (simp add: page_wf_def)
  have bd: "?w + 6 + k \<le> 1024" "0 < k" using h(1) by (simp_all add: hdr_def)
  have blk: "p - 24 = entry_addr pg ?w" using entry_addr_plus(6) [of pg ?w] by (simp add: p algebra_simps)
  have u: "unat p = unat pg + 4 * (?w + 6)" "unat (entry_addr pg ?w) = unat pg + 4 * ?w"
    using unat_heap_entry [OF pg, of "?w + 6"] unat_heap_entry [OF pg, of ?w] bd by (simp_all add: p)
  have "0xC0000000 \<le> unat pg" "unat pg + 4096 \<le> 0xD0000000" using pg by (simp_all add: heap_page_addr_def)
  then have r: "\<not> (p < HEAP_START \<or> p \<ge> HEAP_START + HEAP_SIZE)"
    "\<not> (entry_addr pg ?w < HEAP_START \<or> entry_addr pg ?w \<ge> HEAP_START + HEAP_SIZE)"
    using bd u by (simp_all add: word_less_nat_alt word_le_nat_alt)
  have f: "load32 ?m (hb_magic (entry_addr pg ?w)) = HEAP_BLOCK_MAGIC" "load32 ?m (hb_page (entry_addr pg ?w)) = pg"
    "load32 ?m (hb_size (entry_addr pg ?w)) = of_nat (4 * k)" "load32 ?m (hb_free (entry_addr pg ?w)) \<noteq> 0 \<longleftrightarrow> f"
    "load32 ?m (hb_next (entry_addr pg ?w)) = (if ys = [] then 0 else entry_addr pg (?w + 6 + k))"
    "load32 ?m (hp_magic pg) = HEAP_PAGE_MAGIC" "load32 ?m (hp_virt pg) = pg"
    using h(1) wf by (simp_all add: hdr_def page_wf_def field_cells cell_load)
  have e: "\<not> (entry_addr pg ?w < pg \<or> entry_addr pg (?w + 6) > entry_addr pg 1024)"
    using heap_entry_compare(1) [OF pg] bd u(2) by (simp add: word_less_nat_alt)
  have nz: "p \<noteq> 0" "pg \<noteq> 0" using pg bd by (simp_all add: p)
  show ?thesis
    unfolding kfree_def Let_def blk f validate_page_wf [OF wf] page_end_word entry_addr_plus(6) entry_addr_add_words
    using r nz e f(4) by (simp add: f)
qed

lemma used_at_join:
  "used_at 6 (join_prev xs (join_next k ys)) = used_at 6 xs \<union> used_at (bend 6 xs + 6 + k) ys"
  "bend 6 (join_prev xs (join_next k ys)) = bend (bend 6 xs + 6 + k) ys"
proof -
  have n: "used_at w (join_next k ys) = used_at (w + 6 + k) ys \<and> bend w (join_next k ys) = bend (w + 6 + k) ys" for w
    by (cases "ys = [] \<or> \<not> snd (hd ys)"; cases ys)
       (auto simp: join_next_def add_ac split: bool.splits prod.splits)
  obtain k' zs where j: "join_next k ys = (k', True) # zs"
    by (cases "ys = [] \<or> \<not> snd (hd ys)"; cases ys) (auto simp: join_next_def split: bool.splits prod.splits)
  have "used_at 6 (join_prev xs (join_next k ys)) = used_at 6 (xs @ join_next k ys)
      \<and> bend 6 (join_prev xs (join_next k ys)) = bend 6 (xs @ join_next k ys)"
  proof (cases "xs = [] \<or> \<not> snd (last xs)")
    case False
    then obtain us k0 where "xs = us @ [(k0, True)]" by (cases xs rule: rev_cases) auto
    then show ?thesis by (simp add: join_prev_def j add_ac)
  qed (auto simp: join_prev_def)
  with n show "used_at 6 (join_prev xs (join_next k ys)) = used_at 6 xs \<union> used_at (bend 6 xs + 6 + k) ys"
    "bend 6 (join_prev xs (join_next k ys)) = bend (bend 6 xs + 6 + k) ys" by simp_all
qed

lemma used_at_remove:
  assumes "0 < k"
  shows "used_at 6 xs \<union> used_at (bend 6 xs + 6 + k) ys = used_at 6 (xs @ (k, False) # ys) - {(bend 6 xs + 6, k)}"
proof -
  have "(bend 6 xs + 6, k) \<notin> used_at 6 xs" using used_at_bounds [of "bend 6 xs + 6" k 6 xs] by auto
  moreover have "(bend 6 xs + 6, k) \<notin> used_at (bend 6 xs + 6 + k) ys"
    using used_at_bounds [of "bend 6 xs + 6" k "bend 6 xs + 6 + k" ys] assms by auto
  ultimately show ?thesis by simp
qed

definition page_live :: "addr \<Rightarrow> (nat \<times> nat) set \<Rightarrow> (addr \<times> nat) set" where
  "page_live pg us = (\<lambda>(v, k). (entry_addr pg v, 4 * k)) ` us"

lemma live_remove:
  assumes rep: "heap_rep s ps" and ps: "ps = us @ (pg, bs) # vs" and v: "(v, k) \<in> used_at 6 bs"
    and u: "used_at 6 bs' = used_at 6 bs - {(v, k)}"
  shows "live (us @ (pg, bs') # vs) = live ps - {(entry_addr pg v, 4 * k)}"
proof -
  have in_ps: "(pg, bs) \<in> set ps" using ps by simp
  note un = live_unique [OF rep in_ps v]
  have out: "(entry_addr pg v, 4 * k) \<notin> live us \<union> live vs"
  proof
    assume "(entry_addr pg v, 4 * k) \<in> live us \<union> live vs"
    then obtain q where q: "q \<in> set us \<union> set vs" "(entry_addr pg v, 4 * k) \<in> page_live (fst q) (used_at 6 (snd q))"
      unfolding live_def page_live_def by blast
    then obtain w j where w: "(w, j) \<in> used_at 6 (snd q)" "entry_addr (fst q) w = entry_addr pg v"
      by (auto simp: page_live_def)
    have "(fst q, snd q) \<in> set ps" using q(1) ps by auto
    with un [OF this w] q(1) rep ps show False by (auto simp: heap_rep_def)
  qed
  have rest: "(entry_addr pg v, 4 * k) \<notin> page_live pg (used_at 6 bs - {(v, k)})"
    using un [OF in_ps] unfolding page_live_def by auto
  have one: "page_live pg (used_at 6 bs) = insert (entry_addr pg v, 4 * k) (page_live pg (used_at 6 bs - {(v, k)}))"
    using v unfolding page_live_def by (auto simp: image_iff)
  have "live (us @ (pg, bs') # vs) = live us \<union> page_live pg (used_at 6 bs - {(v, k)}) \<union> live vs"
    "live ps = live us \<union> page_live pg (used_at 6 bs) \<union> live vs"
    by (simp_all add: ps live_append live_Cons u page_live_def Un_assoc)
  with out rest one show ?thesis by auto
qed

lemma kfree_rep:
  assumes rep: "heap_rep s ps" and x: "(p, l) \<in> live ps"
  shows "\<exists>s' ps'. kfree p s = Some s' \<and> heap_rep s' ps' \<and> live ps' = live ps - {(p, l)}"
proof -
  note r = rep [unfolded heap_rep_def]
  from x obtain pg bs v k where pb: "(pg, bs) \<in> set ps" "(v, k) \<in> used_at 6 bs" "p = entry_addr pg v" "l = 4 * k"
    by (auto simp: live_def)
  from used_at_split [OF pb(2)] obtain xs ys where bs: "bs = xs @ (k, False) # ys" "v = bend 6 xs + 6" by blast
  obtain us vs where ps: "ps = us @ (pg, bs) # vs" using pb(1) by (meson split_list)
  have wf: "page_wf (kh_mem s) pg (xs @ (k, False) # ys)" using rep_page_wf [OF rep pb(1)] bs by simp
  let ?bs = "join_prev xs (join_next k ys)" and ?m = "release_block (kh_mem s) (entry_addr pg (bend 6 xs))"
  note rl = release_block_wf [OF wf]
  have kf: "kfree p s = Some (s\<lparr>kh_mem := ?m\<rparr>)" using kfree_block [OF wf, of p] pb(3) bs by simp
  have "linked ?m (heap_pages s) (us @ (pg, ?bs) # vs)"
    using linked_replace [OF _ _ rl(2,1), of "heap_pages s" us bs vs] r ps by simp
  then have "heap_rep (s\<lparr>kh_mem := ?m\<rparr>) (us @ (pg, ?bs) # vs)" using r ps by (auto simp: heap_rep_def)
  moreover have "used_at 6 ?bs = used_at 6 bs - {(v, k)}"
    unfolding used_at_join(1) used_at_remove [OF used_at_pos [OF rep pb(1,2)]] bs ..
  from live_remove [OF rep ps pb(2) this] have "live (us @ (pg, ?bs) # vs) = live ps - {(p, l)}"
    unfolding pb(3,4) .
  ultimately show ?thesis using kf by blast
qed


section \<open>Payload writes\<close>

lemma used_at_not_header:
  "(v, k) \<in> used_at w bs \<Longrightarrow> v \<le> i \<Longrightarrow> i < v + k \<Longrightarrow> i \<notin> hcells w bs"
proof (induction bs arbitrary: w)
  case (Cons b bs)
  consider "v = w + 6" "k = fst b" | "(v, k) \<in> used_at (w + 6 + fst b) bs"
    using Cons.prems(1) by (auto split: if_splits)
  then show ?case
  proof cases
    case 1
    then show ?thesis using Cons.prems(2,3) hcells_bounds [of i "w + 6 + fst b" bs] by auto
  next
    case 2
    then show ?thesis using Cons.IH [OF 2 Cons.prems(2,3)] used_at_bounds [OF 2] Cons.prems(2) by auto
  qed
qed simp

lemma payload_store:
  assumes rep: "heap_rep s ps" and x: "(p, l) \<in> live ps" and i: "4 * i < l"
  shows "heap_rep (s\<lparr>kh_mem := store32 (kh_mem s) (p + of_nat (4 * i)) x\<rparr>) ps"
proof -
  from x obtain pg bs v k where pb: "(pg, bs) \<in> set ps" "(v, k) \<in> used_at 6 bs" "p = entry_addr pg v" "l = 4 * k"
    by (auto simp: live_def)
  note lr = live_range [OF rep pb(1,2)]
  have c: "v + i < 1024" using lr(3) i pb(4) by simp
  let ?m = "store32 (kh_mem s) (entry_addr pg (v + i)) x"
  have cell: "cell ?m q j = (if q = pg \<and> j = v + i then x else cell (kh_mem s) q j)" if "page_aligned q" "j < 1024" for q j
    using that c lr(4) by (auto simp: cell_store)
  have fr: "page_frame (kh_mem s) ?m pg" using lr(2) by (auto simp: page_frame_def cell)
  have wf: "page_wf (kh_mem s) pg bs" by (rule rep_page_wf [OF rep pb(1)])
  have "cell ?m pg j = cell (kh_mem s) pg j" if "j \<in> hcells 6 bs" for j
    using used_at_not_header [OF pb(2), of "v + i"] that i pb(4) hcells_bounds [OF that] wf lr(4)
    by (auto simp: cell page_wf_def)
  then have "page_wf ?m pg bs"
    using wf seg_cong [of 6 bs ?m pg "kh_mem s"] lr(2,4) by (simp add: page_wf_def cell)
  moreover obtain us vs where ps: "ps = us @ (pg, bs) # vs" using pb(1) by (meson split_list)
  ultimately have "linked ?m (heap_pages s) ps"
    using linked_replace [OF _ _ fr, of "heap_pages s" us bs vs bs] rep by (simp add: heap_rep_def)
  then show ?thesis using rep by (simp add: heap_rep_def pb(3) entry_addr_add_words del: of_nat_mult)
qed

section \<open>Reusing a block that is not the last\<close>

lemma validate_loop_prefix:
  "heap_page_addr pg \<Longrightarrow> seg m pg prv w xs (entry_addr pg (bend w xs)) \<Longrightarrow>
   validate_loop m pg (entry_addr pg (bend w xs)) = Some False \<Longrightarrow> validate_loop m pg (entry_addr pg w) = Some False"
proof (induction xs arbitrary: prv w)
  case (Cons b xs)
  have nx: "load32 m (hb_next (entry_addr pg w)) = entry_addr pg (w + 6 + fst b)" and bd: "w + 6 + fst b \<le> 1024"
    using Cons.prems(2) by (auto simp: hdr_def field_cells cell_load)
  have "entry_addr pg w \<noteq> 0" using Cons.prems(1) bd by simp
  moreover have "validate_loop m pg (entry_addr pg (w + 6 + fst b)) = Some False"
    using Cons by auto
  ultimately show ?case by (subst validate_loop.simps) (simp add: nx)
qed simp

text \<open>A block whose link does not point to its own end is invalid.\<close>

lemma invalid_link:
  assumes "load32 m (hb_next b) \<noteq> 0" "load32 m (hb_next b) \<noteq> b + 24 + load32 m (hb_size b)"
  shows "\<not> heap_validate_block m pg b"
  using assms by (simp add: heap_validate_block_def valid_next_def Let_def)

lemma split_middle_cells:
  fixes sz :: u32
  assumes pg: "heap_page_addr pg" and v: "w + 6 \<le> v" "v + 10 \<le> 1024" "v \<le> e" "e + 6 \<le> 1024" "even v" "even e"
    and nx: "cell m pg (w + 2) = entry_addr pg e"
  defines "m' \<equiv> split_block m pg (entry_addr pg w) sz (of_nat (4 * (1024 - v))) (entry_addr pg v)"
  shows "cell m' pg (w + 2) = entry_addr pg v" "cell m' pg (v + 1) = of_nat (4 * (1024 - v - 6))"
    "cell m' pg (v + 2) = entry_addr pg e" "i < w \<Longrightarrow> cell m' pg i = cell m pg i"
proof -
  have "(of_nat (4 * (1024 - v)) :: u32) - 24 = of_nat (4 * (1024 - v - 6))" using v by (simp add: of_nat_diff)
  moreover have "8 dvd 4 * (1024 - v - 6)" using v by (auto elim!: evenE)
  ultimately have r: "align_down (of_nat (4 * (1024 - v)) - 24) 8 = of_nat (4 * (1024 - v - 6))"
    using unat_words [of "1024 - v - 6"] align_down_8 [of "of_nat (4 * (1024 - v - 6))"] by simp
  let ?h = "store32 (store32 (store32 (store32 (store32 m (entry_addr pg v) HEAP_BLOCK_MAGIC)
      (entry_addr pg (v + 1)) (of_nat (4 * (1024 - v - 6)))) (entry_addr pg (v + 4)) 1) (entry_addr pg (v + 5)) pg)
      (entry_addr pg (v + 3)) (entry_addr pg w)"
  have al: "page_aligned pg" using pg by simp
  have c: "cell ?h pg (w + 2) = entry_addr pg e" using nx v al by (simp add: cell_store del: of_nat_mult)
  have c': "cell (store32 ?h (entry_addr pg (v + 2)) y) pg (w + 2) = entry_addr pg e" for y
    using nx v al by (simp add: cell_store del: of_nat_mult)
  have nz: "entry_addr pg e \<noteq> 0" using pg v by simp
  have m': "m' = store32 (store32 (store32 (store32 ?h (entry_addr pg (v + 2)) (entry_addr pg e))
      (entry_addr pg (e + 3)) (entry_addr pg v)) (entry_addr pg (w + 2)) (entry_addr pg v)) (entry_addr pg (w + 1)) sz"
    unfolding m'_def split_block_def Let_def r field_cells store32_memset cell_load c c'
    using nz by (simp add: field_cells)
  have ne: "e + 3 \<noteq> v + 1" "e + 3 \<noteq> v + 2" using v by (auto elim!: evenE)
  show "cell m' pg (w + 2) = entry_addr pg v" "cell m' pg (v + 1) = of_nat (4 * (1024 - v - 6))"
    "cell m' pg (v + 2) = entry_addr pg e" "i < w \<Longrightarrow> cell m' pg i = cell m pg i"
    unfolding m' using v ne al by (simp_all add: cell_store del: of_nat_mult)
qed


lemma take_middle_invalid:
  assumes wf: "page_wf m pg (xs @ (k, True) # ys)" and ys: "ys \<noteq> []" and n: "even n" "0 < n" "n \<le> k"
    and room: "bend 6 xs + 6 + n + 10 \<le> 1024"
  shows "\<exists>m'. take_block m pg (entry_addr pg (bend 6 xs)) (of_nat (4 * n)) = Some (entry_addr pg (bend 6 xs + 6), m')
    \<and> heap_validate_page m' pg = Some False"
proof -
  let ?w = "bend 6 xs" and ?v = "bend 6 xs + 6 + n" and ?e = "bend 6 xs + 6 + k"
  obtain b2 zs where "ys = (fst b2, snd b2) # zs" using ys by (cases ys) auto
  note b = two_blocks [OF wf [unfolded this]]
  have pg: "heap_page_addr pg" "page_aligned pg" using wf by (simp_all add: page_wf_def)
  have bd: "?e + 6 \<le> 1024" "even ?w" "even ?e" and nx: "cell m pg (?w + 2) = entry_addr pg ?e"
    using b(1,2) by (simp_all add: hdr_def)
  have v: "?w + 6 \<le> ?v" "?v \<le> ?e" "even ?v" "?v \<le> 1024" using n bd room by simp_all
  define m1 where "m1 = split_block m pg (entry_addr pg ?w) (of_nat (4 * n)) (of_nat (4 * (1024 - ?v))) (entry_addr pg ?v)"
  define m' where "m' = store32 m1 (entry_addr pg (?w + 4)) 0"
  note s = split_middle_cells [OF pg(1) v(1) room v(2) bd(1) v(3) bd(3) nx, where sz = "of_nat (4 * n)", folded m1_def]
  have c: "cell m' pg i = (if i = ?w + 4 then 0 else cell m1 pg i)" if "i < 1024" for i
    using that pg bd by (simp add: m'_def cell_store)
  have tb: "take_block m pg (entry_addr pg ?w) (of_nat (4 * n)) = Some (entry_addr pg (?w + 6), m')"
    using take_block_eq [OF wf n(3) refl] room by (simp add: m'_def m1_def del: of_nat_mult)
  have c2: "cell m' pg (?v + 1) = of_nat (4 * (1024 - ?v - 6))" "cell m' pg (?v + 2) = entry_addr pg ?e"
    "cell m' pg (?w + 2) = entry_addr pg ?v" using s c v(1) room by simp_all
  have link: "entry_addr pg ?v + 24 + of_nat (4 * (1024 - ?v - 6)) = entry_addr pg 1024"
    using room unfolding entry_addr_plus(6) entry_addr_add_words by simp
  have "entry_addr pg ?e \<noteq> entry_addr pg 1024" using heap_entry_compare(3) [OF pg(1)] bd by simp
  then have "\<not> heap_validate_block m' pg (entry_addr pg ?v)"
    using heap_entry_nonzero [OF pg(1), of ?e] bd(1) by (intro invalid_link, unfold field_cells cell_load c2 link) simp_all
  then have lv: "validate_loop m' pg (entry_addr pg ?v) = Some False"
    using pg(1) v by (subst validate_loop.simps) simp
  have "load32 m' (hb_next (entry_addr pg ?w)) = entry_addr pg ?v" unfolding field_cells cell_load c2 ..
  then have lw: "validate_loop m' pg (entry_addr pg ?w) = Some False"
    using lv pg(1) bd by (subst validate_loop.simps) simp
  have low: "cell m' pg i = cell m pg i" if "i < ?w" for i using that c [of i] s(4) [OF that] bd by simp
  have "seg m pg 0 6 xs (entry_addr pg ?w)" using wf by (simp add: page_wf_def seg_append)
  moreover have "cell m' pg i = cell m pg i" if "i \<in> hcells 6 xs" for i using low hcells_bounds [OF that] by simp
  ultimately have "seg m' pg 0 6 xs (entry_addr pg ?w)" using seg_cong [of 6 xs m' pg m] by simp
  from validate_loop_prefix [OF pg(1) this lw] have l6: "validate_loop m' pg (entry_addr pg 6) = Some False" .
  have "6 \<le> ?w" using bend_ge [of 6 xs] by simp
  then have "cell m' pg 5 = entry_addr pg 6" using low [of 5] wf by (simp add: page_wf_def)
  with l6 have "heap_validate_page m' pg = Some False" by (simp add: heap_validate_page_def field_cells cell_load)
  with tb show ?thesis by blast
qed

section \<open>Start of the heap\<close>

lemma heap_init_rep:
  "\<exists>ps. heap_rep (heap_init s) ps \<and> no_holes ps \<and> live ps = {} \<and>
     (fst (heap_alloc_page (s\<lparr>heap_pages := 0, heap_next_virtual := HEAP_START\<rparr>)) \<noteq> 0 \<longrightarrow>
        ps = [(HEAP_START, [(1012, True)])])"
proof -
  let ?s = "s\<lparr>heap_pages := 0, heap_next_virtual := HEAP_START\<rparr>"
  have "heap_rep ?s []" by (simp add: heap_rep_def page_aligned_dvd)
  then show ?thesis
  proof (cases rule: heap_alloc_page_cases)
    case (none s')
    have "heap_rep (s'\<lparr>kh_out := x\<rparr>) []" for x using none(2) by (simp add: heap_rep_def)
    with none show ?thesis by (intro exI [of _ "[]"]) (simp add: heap_init_def Let_def no_holes_def live_def)
  next
    case (page s')
    then show ?thesis
      by (intro exI [of _ "[(HEAP_START, [(1012, True)])]"]) (simp add: heap_init_def Let_def no_holes_def live_def)
  qed
qed

interpretation kmalloc_run: machine "\<lambda>s sz. snd (the (kmalloc sz s))" "\<lambda>s. \<exists>ps. heap_rep s ps \<and> no_holes ps"
proof (unfold_locales, goal_cases)
  case (1 s sz)
  then obtain ps where ps: "heap_rep s ps" "no_holes ps" by blast
  from kmalloc_valid [OF this, of sz] show ?case by (auto simp: alloc_outcome_def)
qed


section \<open>Properties\<close>

text \<open>The heap right after \<open>heap_init\<close> on the fallback memory map.\<close>

definition boot_heap :: kheap where
  "boot_heap = heap_init \<lparr>kh_paging = boot_paging, kh_mem = (\<lambda>_. 0), heap_pages = 0, heap_next_virtual = 0, kh_out = []\<rparr>"

lemma boot_heap_rep: "heap_rep boot_heap [(HEAP_START, [(1012, True)])]"
proof -
  have "fst (pmm_alloc_page pmm_init_fallback) = 0x100000" by code_simp
  then obtain q where q: "pmm_alloc_page pmm_init_fallback = (0x100000, q)" by (metis prod.collapse)
  let ?s = "\<lparr>kh_paging = boot_paging, kh_mem = (\<lambda>_. 0), heap_pages = 0, heap_next_virtual = 0, kh_out = []\<rparr>"
  have "fst (heap_alloc_page (?s\<lparr>heap_pages := 0, heap_next_virtual := HEAP_START\<rparr>)) \<noteq> 0"
    by (simp add: heap_alloc_page_def Let_def boot_paging_def q)
  with heap_init_rep [of ?s] show ?thesis by (auto simp: boot_heap_def)
qed

lemma boot_heap_no_holes: "no_holes [(HEAP_START, [(1012, True)])]"
  by (simp add: no_holes_def)

lemma kmalloc_fit_step:
  assumes "heap_rep s ps" "sz \<noteq> 0" "\<not> sz > - 1 - (8 - 1)" "page_fit (request_words sz) ps = Some (pg, w)"
    and "clean_pages (request_words sz) ps"
  shows "\<exists>s'. kmalloc sz s = Some (entry_addr pg (w + 6), s') \<and> heap_rep s' (alloc_pages (request_words sz) ps)"
proof -
  note n = request_words_facts [OF assms(2,3)]
  from kmalloc_loop_fit [OF assms(1) n(3,4,2) assms(4,5)] assms(2,3) show ?thesis
    by (auto simp: kmalloc_def n(1))
qed

lemma boot_heap_first:
  "\<exists>s. kmalloc 100 boot_heap = Some (0xC0000030, s) \<and> heap_rep s [(HEAP_START, [(26, False), (980, True)])]"
proof -
  have "entry_addr HEAP_START 12 = 0xC0000030" "request_words 100 = 26" by (simp_all add: entry_addr_def request_words_def)
  then show ?thesis using kmalloc_fit_step [OF boot_heap_rep, of 100 HEAP_START 6] by (simp add: placed_def)
qed

lemma boot_heap_live: "live [(HEAP_START, [(26, False), (980, True)])] = {(0xC0000030, 104)}"
  by (simp add: live_def entry_addr_def)

text \<open>
  C1: on a heap where only the last block of each page may be free, \<open>kmalloc\<close> always returns: \<open>NULL\<close> with the
  live payloads unchanged, or an 8-byte aligned payload of at least the requested size that does not
  overlap any payload handed out before. The heap stays in that form.
\<close>

theorem kmalloc_fresh:
  assumes "heap_rep s ps" "no_holes ps"
  shows "\<exists>p s' ps'. kmalloc sz s = Some (p, s') \<and> heap_rep s' ps' \<and> no_holes ps'
    \<and> (if p = 0 then live ps' = live ps
       else p AND 7 = 0 \<and> (\<exists>l. unat sz \<le> l \<and> live ps' = insert (p, l) (live ps) \<and> (p, l) \<notin> live ps
              \<and> (\<forall>x \<in> live ps. range_of x \<inter> range_of (p, l) = {})))"
proof -
  from kmalloc_valid [OF assms, of sz] obtain p s' ps' where
    k: "kmalloc sz s = Some (p, s')" "alloc_outcome (unat sz) ps p s' ps'" "no_holes ps'" by blast
  then have rep': "heap_rep s' ps'" by (simp add: alloc_outcome_def)
  show ?thesis
  proof (cases "p = 0")
    case True
    with k rep' show ?thesis by (auto simp: alloc_outcome_def)
  next
    case False
    with k obtain l where l: "p AND 7 = 0" "unat sz \<le> l" "live ps' = insert (p, l) (live ps)" "(p, l) \<notin> live ps"
      by (auto simp: alloc_outcome_def)
    have "range_of x \<inter> range_of (p, l) = {}" if "x \<in> live ps" for x
      using that l(3,4) by (intro live_disjoint [OF rep']) auto
    with l have "\<exists>l. unat sz \<le> l \<and> live ps' = insert (p, l) (live ps) \<and> (p, l) \<notin> live ps
        \<and> (\<forall>x \<in> live ps. range_of x \<inter> range_of (p, l) = {})" by blast
    with k(1,3) rep' l(1) False show ?thesis by (intro exI [of _ p] exI [of _ s'] exI [of _ ps']) simp
  qed
qed

theorem kmalloc_fresh_witness:
  "\<exists>s p s' ps'. kmalloc 100 boot_heap = Some (0xC0000030, s) \<and> kmalloc 24 s = Some (p, s')
     \<and> heap_rep s' ps' \<and> no_holes ps' \<and> {(0xC0000030, 104)} \<subseteq> live ps'"
proof -
  obtain s where s: "kmalloc 100 boot_heap = Some (0xC0000030, s)" "heap_rep s [(HEAP_START, [(26, False), (980, True)])]"
    using boot_heap_first by blast
  have "no_holes [(HEAP_START, [(26, False), (980, True)])]" by (simp add: no_holes_def)
  from kmalloc_fresh [OF s(2) this, of 24] s(1) show ?thesis
    by (auto simp: boot_heap_live split: if_splits)
qed

text \<open>
  C2: \<open>kfree\<close> of a live payload returns, removes exactly that payload from the live ones and leaves a
  well-formed heap, whichever of the neighbouring blocks it is merged with.
\<close>

theorem kfree_releases:
  assumes "heap_rep s ps" "(p, l) \<in> live ps"
  shows "\<exists>s' ps'. kfree p s = Some s' \<and> heap_rep s' ps' \<and> live ps' = live ps - {(p, l)}"
  using assms by (rule kfree_rep)

theorem kfree_releases_witness:
  "\<exists>s s' ps'. kmalloc 100 boot_heap = Some (0xC0000030, s) \<and> kfree 0xC0000030 s = Some s' \<and> heap_rep s' ps' \<and> live ps' = {}"
proof -
  obtain s where s: "kmalloc 100 boot_heap = Some (0xC0000030, s)" "heap_rep s [(HEAP_START, [(26, False), (980, True)])]"
    using boot_heap_first by blast
  from kfree_releases [OF s(2), of "0xC0000030" 104] s(1) show ?thesis by (auto simp: boot_heap_live)
qed

text \<open>
  A client that stores a word anywhere inside a live payload leaves all headers of the heap, and with
  them every other payload, as they are.
\<close>

theorem payload_writes_safe:
  assumes "heap_rep s ps" "(p, l) \<in> live ps" "4 * i < l"
  shows "heap_rep (s\<lparr>kh_mem := store32 (kh_mem s) (p + of_nat (4 * i)) x\<rparr>) ps"
  using assms by (rule payload_store)

theorem payload_writes_safe_witness:
  "\<exists>s. kmalloc 100 boot_heap = Some (0xC0000030, s)
     \<and> heap_rep (s\<lparr>kh_mem := store32 (kh_mem s) (0xC0000030 + of_nat (4 * 25)) 7\<rparr>) [(HEAP_START, [(26, False), (980, True)])]"
proof -
  obtain s where s: "kmalloc 100 boot_heap = Some (0xC0000030, s)" "heap_rep s [(HEAP_START, [(26, False), (980, True)])]"
    using boot_heap_first by blast
  from payload_writes_safe [OF s(2), of "0xC0000030" 104 25 7] s(1) show ?thesis by (auto simp: boot_heap_live)
qed

text \<open>
  C34: when \<open>kmalloc\<close> takes a free block of the first heap page that is not the last one and there is room for
  a split before the end of the page, it writes the new header as if the block extended to the end of the
  page; the page then fails validation and every later request returns \<open>NULL\<close>.
\<close>

theorem kmalloc_hole_corrupts:
  assumes "heap_rep s ((pg, xs @ (k, True) # ys) # ps)" "ys \<noteq> []"
    and "sz \<noteq> 0" "\<not> sz > - 1 - (8 - 1)" "first_fit (request_words sz) 6 xs = None" "request_words sz \<le> k"
    and "bend 6 xs + 6 + request_words sz + 10 \<le> 1024"
  shows "\<exists>s'. kmalloc sz s = Some (entry_addr pg (bend 6 xs + 6), s')
    \<and> (\<forall>sz'. \<exists>s''. kmalloc sz' s' = Some (0, s''))"
proof -
  let ?n = "request_words sz" and ?m = "kh_mem s"
  note n = request_words_facts [OF assms(3,4)]
  have wf: "page_wf ?m pg (xs @ (k, True) # ys)" and hp: "heap_pages s = pg" using assms(1) by (simp_all add: heap_rep_def)
  have pgnz: "pg \<noteq> 0" using wf by (simp add: page_wf_def)
  from take_middle_invalid [OF wf assms(2) n(3,4) assms(6,7)] obtain m' where
    tb: "take_block ?m pg (entry_addr pg (bend 6 xs)) (of_nat (4 * ?n)) = Some (entry_addr pg (bend 6 xs + 6), m')"
    and bad: "heap_validate_page m' pg = Some False" by blast
  have "first_fit ?n w (xs @ (k, True) # ys) = Some (bend w xs)" if "first_fit ?n w xs = None" for w
    using that assms(6) by (induction xs arbitrary: w) (auto split: if_splits)
  then have "scan_pages ?m (of_nat (4 * ?n)) (heap_pages s) = Some (Found pg (entry_addr pg (bend 6 xs)))"
    using heap_scan [OF assms(1) n(2)] assms(5) by (simp del: of_nat_mult)
  then have k: "kmalloc sz s = Some (entry_addr pg (bend 6 xs + 6), s\<lparr>kh_mem := m'\<rparr>)"
    unfolding kmalloc_def n(1) using tb assms(3,4) by (subst kmalloc_loop.simps) (simp del: of_nat_mult)
  have "scan_pages m' x pg = Some Corrupted" for x using bad pgnz by (subst scan_pages.simps) simp
  then have "\<exists>s''. kmalloc_loop x (s\<lparr>kh_mem := m'\<rparr>) = Some (0, s'')" for x
    by (subst kmalloc_loop.simps) (simp add: hp)
  then have "\<forall>sz'. \<exists>s''. kmalloc sz' (s\<lparr>kh_mem := m'\<rparr>) = Some (0, s'')" by (simp add: kmalloc_def)
  with k show ?thesis by blast
qed


theorem kmalloc_hole_corrupts_witness:
  "\<exists>s1 s2 s3 s4. kmalloc 16 boot_heap = Some (0xC0000030, s1) \<and> kmalloc 16 s1 = Some (0xC0000058, s2)
     \<and> kfree 0xC0000030 s2 = Some s3 \<and> kmalloc 8 s3 = Some (0xC0000030, s4)
     \<and> (\<forall>sz. \<exists>s5. kmalloc sz s4 = Some (0, s5))"
proof -
  let ?P = "HEAP_START"
  have e: "entry_addr ?P 12 = 0xC0000030" "entry_addr ?P 22 = 0xC0000058" by (simp_all add: entry_addr_def)
  have rw: "request_words 16 = 4" "request_words 8 = 2" by (simp_all add: request_words_def)
  obtain s1 where s1: "kmalloc 16 boot_heap = Some (0xC0000030, s1)" "heap_rep s1 [(?P, [(4, False), (1002, True)])]"
    using kmalloc_fit_step [OF boot_heap_rep, of 16 ?P 6] by (auto simp: rw placed_def e)
  obtain s2 where s2: "kmalloc 16 s1 = Some (0xC0000058, s2)" "heap_rep s2 [(?P, [(4, False), (4, False), (992, True)])]"
    using kmalloc_fit_step [OF s1(2), of 16 ?P 16] by (auto simp: rw placed_def e)
  have wf: "page_wf (kh_mem s2) ?P ([] @ (4, False) # [(4, False), (992, True)])"
    using rep_page_wf [OF s2(2)] by simp
  define s3 where "s3 = s2\<lparr>kh_mem := release_block (kh_mem s2) (entry_addr ?P 6)\<rparr>"
  have kf: "kfree 0xC0000030 s2 = Some s3" using kfree_block [OF wf, of "0xC0000030"] by (simp add: e s3_def)
  note rl = release_block_wf [OF wf]
  have "linked (kh_mem s3) (heap_pages s2) ([] @ (?P, [(4, True), (4, False), (992, True)]) # [])"
    using linked_replace [OF _ _ rl(2,1), of "heap_pages s2" "[]" "[(4, False), (4, False), (992, True)]" "[]"] s2(2)
    by (simp add: heap_rep_def s3_def join_next_def join_prev_def)
  then have r3: "heap_rep s3 [(?P, [] @ (4, True) # [(4, False), (992, True)])]" using s2(2) by (simp add: heap_rep_def s3_def)
  from kmalloc_hole_corrupts [OF r3, of 8] s1(1) s2(1) kf show ?thesis by (simp add: rw e)
qed

end
