(* ===== verification/FileCache.thy ===== *)
theory FileCache
  imports Cstring
begin

text \<open>
  The file cache of \<^verbatim>\<open>src/kernel/file_cache.c\<close>: sixteen entries of a name buffer of 64 bytes and a data
  buffer of 4096, searched linearly by name. A lookup returns the contents of the data buffer; a name
  or data object that is read or written outside its bounds makes the operation \<open>None\<close>.
\<close>

section \<open>State and operations\<close>

record file_cache_entry =
  fc_filename :: "byte list"
  fc_size :: u32
  fc_data :: "byte list"
  fc_hits :: u32
  fc_timestamp :: u32

record file_cache =
  cache :: "file_cache_entry list"
  cache_used :: u32
  cache_hits :: u32
  cache_misses :: u32

abbreviation FILE_CACHE_MAX_ENTRIES :: u32 where "FILE_CACHE_MAX_ENTRIES \<equiv> 16"
abbreviation FILE_CACHE_ENTRY_SIZE :: u32 where "FILE_CACHE_ENTRY_SIZE \<equiv> 4096"

definition clear_entry :: "file_cache_entry \<Rightarrow> file_cache_entry" where
  "clear_entry e = e\<lparr>fc_filename := (fc_filename e)[0 := 0], fc_size := 0, fc_hits := 0, fc_timestamp := 0\<rparr>"

definition file_cache_init :: "file_cache \<Rightarrow> file_cache" where
  "file_cache_init s = s\<lparr>cache := map clear_entry (cache s), cache_used := 0, cache_hits := 0, cache_misses := 0\<rparr>"

definition cache_key :: "file_cache \<Rightarrow> nat \<Rightarrow> byte list option" where
  "cache_key s i = map_option fc_filename (array_get (cache s) i)"

definition cache_find :: "byte list \<Rightarrow> file_cache \<Rightarrow> nat option option" where
  "cache_find filename s = find_named (cache_key s) filename 0 (unat (cache_used s))"

definition file_cache_get :: "byte list \<Rightarrow> file_cache \<Rightarrow> ((byte list \<times> u32) option \<times> file_cache) option" where
  "file_cache_get filename s =
     do { r \<leftarrow> cache_find filename s;
          case r of
            Some i \<Rightarrow>
              do { e \<leftarrow> array_get (cache s) i;
                   c \<leftarrow> array_set (cache s) i (e\<lparr>fc_hits := fc_hits e + 1\<rparr>);
                   Some (Some (fc_data e, fc_size e), s\<lparr>cache := c, cache_hits := cache_hits s + 1\<rparr>) }
          | None \<Rightarrow> Some (None, s\<lparr>cache_misses := cache_misses s + 1\<rparr>) }"

text \<open>The least used entry: the first with the smallest number of hits, 0 if all have \<open>0xFFFFFFFF\<close>.\<close>

fun least_used :: "file_cache_entry list \<Rightarrow> nat \<Rightarrow> u32 \<Rightarrow> nat \<Rightarrow> nat" where
  "least_used [] i min_hits min_idx = min_idx"
| "least_used (e # es) i min_hits min_idx =
     (if fc_hits e < min_hits then least_used es (Suc i) (fc_hits e) i else least_used es (Suc i) min_hits min_idx)"

definition fill_entry :: "byte list \<Rightarrow> byte list \<Rightarrow> u32 \<Rightarrow> file_cache_entry \<Rightarrow> file_cache_entry option" where
  "fill_entry filename data sz e =
     do { n \<leftarrow> strcpy (fc_filename e) filename;
          d \<leftarrow> memcpy (fc_data e) data (unat sz);
          Some (e\<lparr>fc_filename := n, fc_data := d, fc_size := sz, fc_hits := 0, fc_timestamp := 0\<rparr>) }"

definition file_cache_put :: "byte list \<Rightarrow> byte list \<Rightarrow> u32 \<Rightarrow> file_cache \<Rightarrow> file_cache option" where
  "file_cache_put filename data sz s =
     (if sz > FILE_CACHE_ENTRY_SIZE then Some s
      else do {
        r \<leftarrow> cache_find filename s;
        case r of
          Some i \<Rightarrow>
            do { e \<leftarrow> array_get (cache s) i;
                 d \<leftarrow> memcpy (fc_data e) data (unat sz);
                 c \<leftarrow> array_set (cache s) i (e\<lparr>fc_data := d, fc_size := sz, fc_timestamp := 0\<rparr>);
                 Some (s\<lparr>cache := c\<rparr>) }
        | None \<Rightarrow>
            if cache_used s < FILE_CACHE_MAX_ENTRIES then
              do { e \<leftarrow> array_get (cache s) (unat (cache_used s));
                   e \<leftarrow> fill_entry filename data sz e;
                   c \<leftarrow> array_set (cache s) (unat (cache_used s)) e;
                   Some (s\<lparr>cache := c, cache_used := cache_used s + 1\<rparr>) }
            else
              do { let i = least_used (cache s) 0 0xFFFFFFFF 0;
                   e \<leftarrow> array_get (cache s) i;
                   e \<leftarrow> fill_entry filename data sz e;
                   c \<leftarrow> array_set (cache s) i e;
                   Some (s\<lparr>cache := c\<rparr>) } })"

text \<open>The loop \<open>for (j = i; j < cache_used - 1; j++) cache[j] = cache[j + 1]\<close>, \<open>n\<close> times.\<close>

fun shift_entries :: "nat \<Rightarrow> nat \<Rightarrow> file_cache_entry list \<Rightarrow> file_cache_entry list option" where
  "shift_entries j 0 c = Some c"
| "shift_entries j (Suc n) c =
     do { e \<leftarrow> array_get c (Suc j); c \<leftarrow> array_set c j e; shift_entries (Suc j) n c }"

definition file_cache_invalidate :: "byte list \<Rightarrow> file_cache \<Rightarrow> file_cache option" where
  "file_cache_invalidate filename s =
     do { r \<leftarrow> cache_find filename s;
          case r of
            Some i \<Rightarrow>
              do { c \<leftarrow> shift_entries i (unat (cache_used s - 1) - i) (cache s);
                   Some (s\<lparr>cache := c, cache_used := cache_used s - 1\<rparr>) }
          | None \<Rightarrow> Some s }"

definition file_cache_flush :: "file_cache \<Rightarrow> file_cache" where
  "file_cache_flush s = file_cache_init s"

text \<open>What \<open>file_cache_stats\<close> prints; \<open>None\<close> where it prints no hit rate.\<close>

definition file_cache_stats ::
    "file_cache \<Rightarrow> u32 \<times> u32 \<times> u32 \<times> u32 option \<times> (byte list \<times> u32 \<times> u32) list" where
  "file_cache_stats s =
     (let total_requests = cache_hits s + cache_misses s
      in (cache_used s, cache_hits s, cache_misses s,
          (if total_requests > 0 then Some (cache_hits s * 100 div total_requests) else None),
          map (\<lambda>e. (cstr (fc_filename e), fc_size e, fc_hits e)) (take (unat (cache_used s)) (cache s))))"

section \<open>Invariant and lookup\<close>

text \<open>The last byte of a name buffer is never written with a name of less than 64 characters: it stays 0.\<close>

definition entry_wf :: "file_cache_entry \<Rightarrow> bool" where
  "entry_wf e \<longleftrightarrow> length (fc_filename e) = 64 \<and> fc_filename e ! 63 = 0 \<and> length (fc_data e) = 4096"

definition cache_wf :: "file_cache \<Rightarrow> bool" where
  "cache_wf s \<longleftrightarrow> length (cache s) = 16 \<and> cache_used s \<le> 16 \<and> (\<forall>e \<in> set (cache s). entry_wf e)
     \<and> (\<forall>i < unat (cache_used s). terminated (fc_filename (cache s ! i)))"

definition cache_name :: "file_cache \<Rightarrow> nat \<Rightarrow> byte list" where
  "cache_name s i = cstr (fc_filename (cache s ! i))"

definition cache_index :: "byte list \<Rightarrow> file_cache \<Rightarrow> nat option" where
  "cache_index filename s = find (\<lambda>i. cache_name s i = cstr filename) [0..<unat (cache_used s)]"

lemma cache_used_bound: "cache_wf s \<Longrightarrow> unat (cache_used s) \<le> 16"
  by (simp add: cache_wf_def word_le_nat_alt)

lemma cache_find_eq:
  assumes "cache_wf s" "terminated filename"
  shows "cache_find filename s = Some (cache_index filename s)"
proof -
  have k: "cache_key s j = Some (fc_filename (cache s ! j))" if "j < unat (cache_used s)" for j
    using that assms(1) cache_used_bound [OF assms(1)] by (simp add: cache_key_def array_get_def cache_wf_def)
  have "cache_find filename s = Some (find (key_is (cache_key s) filename) [0..<0 + unat (cache_used s)])"
    unfolding cache_find_def using k assms by (intro find_named_eq) (auto simp: cache_wf_def)
  moreover have "find (key_is (cache_key s) filename) [0..<unat (cache_used s)] = cache_index filename s"
    unfolding cache_index_def by (rule find_cong) (auto simp: key_is_def k cache_name_def)
  ultimately show ?thesis by simp
qed

lemma cache_index_Some:
  "cache_index f s = Some i \<longleftrightarrow> i < unat (cache_used s) \<and> cache_name s i = cstr f \<and> (\<forall>l<i. cache_name s l \<noteq> cstr f)"
  by (simp add: cache_index_def find_upt_Some)

lemma cache_index_None: "cache_index f s = None \<longleftrightarrow> (\<forall>i<unat (cache_used s). cache_name s i \<noteq> cstr f)"
  by (simp add: cache_index_def find_upt_None)

lemma get_hit:
  assumes "cache_wf s" "terminated f" "cache_index f s = Some i"
  shows "\<exists>s'. file_cache_get f s = Some (Some (fc_data (cache s ! i), fc_size (cache s ! i)), s')"
proof -
  have "i < length (cache s)" using assms cache_used_bound [OF assms(1)] by (simp add: cache_index_Some cache_wf_def)
  then show ?thesis
    using assms(3) by (simp add: file_cache_get_def cache_find_eq [OF assms(1,2)] array_get_def array_set_def)
qed

lemma get_miss:
  assumes "cache_wf s" "terminated f" "cache_index f s = None"
  shows "file_cache_get f s = Some (None, s\<lparr>cache_misses := cache_misses s + 1\<rparr>)"
  using assms(3) by (simp add: file_cache_get_def cache_find_eq [OF assms(1,2)])

section \<open>Storing\<close>

text \<open>The entry a new name goes to, and whether the name buffer there has a NUL where the new name ends.\<close>

definition put_slot :: "file_cache \<Rightarrow> nat" where
  "put_slot s = (if cache_used s < 16 then unat (cache_used s) else least_used (cache s) 0 0xFFFFFFFF 0)"

definition clean_slot :: "byte list \<Rightarrow> file_cache \<Rightarrow> bool" where
  "clean_slot f s \<longleftrightarrow> fc_filename (cache s ! put_slot s) ! length (cstr f) = 0"

lemma least_used_bound:
  "least_used es i h m < i + length es \<or> least_used es i h m = m"
proof (induction es i h m rule: least_used.induct)
  case (2 e es i h m)
  then show ?case by (cases "fc_hits e < h") auto
qed simp

lemma put_slot_bound:
  assumes "cache_wf s"
  shows "put_slot s < 16"
  using assms least_used_bound [of "cache s" 0 "0xFFFFFFFF" 0]
  by (auto simp: put_slot_def word_less_nat_alt cache_wf_def)

lemma fill_entry_eq:
  assumes "entry_wf e" "terminated f" "length (cstr f) < 64" "unat sz \<le> 4096" "unat sz \<le> length data"
  obtains e' where "fill_entry f data sz e = Some e'" "entry_wf e'"
    "cstr (fc_filename e') = cstr f \<longleftrightarrow> fc_filename e ! length (cstr f) = 0"
    "terminated (fc_filename e')" "fc_size e' = sz" "take (unat sz) (fc_data e') = take (unat sz) data"
proof -
  let ?n = "cstr f @ drop (length (cstr f)) (fc_filename e)"
  let ?e = "e\<lparr>fc_filename := ?n, fc_data := take (unat sz) data @ drop (unat sz) (fc_data e), fc_size := sz,
    fc_hits := 0, fc_timestamp := 0\<rparr>"
  have l: "length (fc_filename e) = 64" "fc_filename e ! 63 = 0" "length (fc_data e) = 4096"
    using assms(1) by (simp_all add: entry_wf_def)
  have d: "drop (length (cstr f)) (fc_filename e) = fc_filename e ! length (cstr f) # drop (Suc (length (cstr f))) (fc_filename e)"
    using assms(3) l by (metis Cons_nth_drop_Suc)
  have z: "0 \<notin> set (cstr f)" using cstr_nonzero by blast
  then have n: "cstr ?n = cstr f \<longleftrightarrow> fc_filename e ! length (cstr f) = 0"
    unfolding d by (auto simp: cstr_def takeWhile_append)
  have w: "?n ! 63 = 0" "length ?n = 64" using l assms(3) by (simp_all add: nth_append)
  then have t: "terminated ?n" unfolding terminated_def using nth_mem [of 63 ?n] by simp
  have "fill_entry f data sz e = Some ?e"
    using assms l by (simp add: fill_entry_def strcpy_eq memcpy_eq)
  then show thesis using that [of ?e] n t w assms l by (simp add: entry_wf_def)
qed

lemma cache_wf_update:
  assumes "cache_wf s" "i < 16" "entry_wf e" "terminated (fc_filename e)" "n = cache_used s \<or> n = cache_used s + 1 \<and> i = unat (cache_used s)"
  shows "cache_wf (s\<lparr>cache := (cache s)[i := e], cache_used := n\<rparr>)"
proof -
  have b: "unat (cache_used s) \<le> 16" by (rule cache_used_bound [OF assms(1)])
  have u: "unat (cache_used s + 1) = unat (cache_used s) + 1" using b by (simp add: unat_u32_plus)
  have "terminated (fc_filename ((cache s)[i := e] ! j))" if "j < unat n" for j
    using that assms b u by (cases "j = i") (auto simp: cache_wf_def nth_list_update)
  moreover have "n \<le> 16" using assms b u by (auto simp: word_le_nat_alt)
  moreover have "\<forall>x \<in> set ((cache s)[i := e]). entry_wf x"
    using assms set_update_subset_insert [of "cache s" i e] by (auto simp: cache_wf_def)
  ultimately show ?thesis using assms(1) by (simp add: cache_wf_def)
qed

lemma put_new:
  assumes wf: "cache_wf s" and f: "terminated f" "length (cstr f) < 64" and d: "unat sz \<le> 4096" "unat sz \<le> length data"
    and n: "cache_index f s = None"
  shows "\<exists>s'. file_cache_put f data sz s = Some s' \<and> cache_wf s'
    \<and> cache_index f s' = (if clean_slot f s then Some (put_slot s) else None)
    \<and> fc_size (cache s' ! put_slot s) = sz \<and> take (unat sz) (fc_data (cache s' ! put_slot s)) = take (unat sz) data"
proof -
  let ?i = "put_slot s"
  have i: "?i < 16" "length (cache s) = 16" using put_slot_bound [OF wf] wf by (simp_all add: cache_wf_def)
  then have "entry_wf (cache s ! ?i)" using wf by (simp add: cache_wf_def)
  from fill_entry_eq [OF this f d] obtain e where
    e: "fill_entry f data sz (cache s ! ?i) = Some e" "entry_wf e" "cstr (fc_filename e) = cstr f \<longleftrightarrow> clean_slot f s"
    "terminated (fc_filename e)" "fc_size e = sz" "take (unat sz) (fc_data e) = take (unat sz) data"
    unfolding clean_slot_def .
  let ?n = "if cache_used s < 16 then cache_used s + 1 else cache_used s"
  let ?s = "s\<lparr>cache := (cache s)[?i := e], cache_used := ?n\<rparr>"
  have "\<not> sz > 4096" using d(1) by (simp add: word_less_nat_alt)
  then have p: "file_cache_put f data sz s = Some ?s"
    using n e(1) i by (auto simp: file_cache_put_def cache_find_eq [OF wf f(1)] array_get_def array_set_def put_slot_def)
  have wf': "cache_wf ?s" using wf i e by (intro cache_wf_update) (auto simp: put_slot_def)
  have b: "unat (cache_used s) \<le> 16" by (rule cache_used_bound [OF wf])
  have in_use: "?i < unat ?n"
  proof (cases "cache_used s < 16")
    case True
    then show ?thesis by (simp add: put_slot_def unat_u32_plus word_less_nat_alt)
  next
    case False
    then show ?thesis using b i(1) by (simp add: word_less_nat_alt put_slot_def)
  qed
  have other: "cache_name ?s l \<noteq> cstr f" if "l < unat ?n" "l \<noteq> ?i" for l
  proof -
    have "l < unat (cache_used s)"
      using that b by (cases "cache_used s < 16") (auto simp: put_slot_def word_less_nat_alt unat_u32_plus)
    then show ?thesis using n that by (simp add: cache_index_None cache_name_def)
  qed
  have "cache_name ?s ?i = cstr f \<longleftrightarrow> clean_slot f s" using e(3) i by (simp add: cache_name_def)
  moreover have "cache_index f ?s = (if cache_name ?s ?i = cstr f then Some ?i else None)"
  proof (cases "cache_name ?s ?i = cstr f")
    case True
    moreover have "cache_name ?s l \<noteq> cstr f" if "l < ?i" for l using other [of l] that in_use by simp
    ultimately show ?thesis using in_use by (simp add: cache_index_Some)
  next
    case False
    have "cache_name ?s l \<noteq> cstr f" if "l < unat ?n" for l using other [OF that] False by (cases "l = ?i") auto
    then show ?thesis using False by (simp add: cache_index_None)
  qed
  ultimately show ?thesis using p wf' e(5,6) i by (intro exI [of _ ?s]) simp
qed

lemma put_existing:
  assumes wf: "cache_wf s" and f: "terminated f" and d: "unat sz \<le> 4096" "unat sz \<le> length data"
    and n: "cache_index f s = Some i"
  shows "\<exists>s'. file_cache_put f data sz s = Some s' \<and> cache_wf s' \<and> cache_index f s' = Some i
    \<and> fc_size (cache s' ! i) = sz \<and> take (unat sz) (fc_data (cache s' ! i)) = take (unat sz) data"
proof -
  have b: "unat (cache_used s) \<le> 16" by (rule cache_used_bound [OF wf])
  have i: "i < unat (cache_used s)" "i < 16" "length (cache s) = 16" using n b wf by (auto simp: cache_index_Some cache_wf_def)
  let ?e = "cache s ! i"
  have we: "entry_wf ?e" "terminated (fc_filename ?e)" using wf i by (simp_all add: cache_wf_def)
  let ?e' = "?e\<lparr>fc_data := take (unat sz) data @ drop (unat sz) (fc_data ?e), fc_size := sz, fc_timestamp := 0\<rparr>"
  let ?s = "s\<lparr>cache := (cache s)[i := ?e']\<rparr>"
  have "\<not> sz > 4096" using d(1) by (simp add: word_less_nat_alt)
  then have "file_cache_put f data sz s = Some ?s"
    using n i we d by (simp add: file_cache_put_def cache_find_eq [OF wf f] array_get_def array_set_def memcpy_eq entry_wf_def)
  moreover have "entry_wf ?e'" using we d by (simp add: entry_wf_def)
  then have "cache_wf ?s" using cache_wf_update [OF wf i(2), of ?e' "cache_used s"] we(2) by simp
  moreover have "cache_name ?s j = cache_name s j" for j
    using i by (cases "j = i") (simp_all add: cache_name_def)
  then have "cache_index f ?s = Some i" using n by (simp add: cache_index_def)
  ultimately show ?thesis using i d by (intro exI [of _ ?s]) simp
qed


section \<open>Invalidation\<close>

lemma shift_entries_eq:
  "j + n < length c \<Longrightarrow> shift_entries j n c = Some (take j c @ take n (drop (Suc j) c) @ drop (j + n) c)"
proof (induction n arbitrary: j c)
  case (Suc n)
  let ?c = "c[j := c ! Suc j]"
  have s: "shift_entries j (Suc n) c = shift_entries (Suc j) n ?c"
    using Suc.prems by (simp add: array_get_def array_set_def)
  have "shift_entries (Suc j) n ?c = Some (take (Suc j) ?c @ take n (drop (Suc (Suc j)) ?c) @ drop (Suc j + n) ?c)"
    using Suc.prems by (intro Suc.IH) simp
  moreover have "take (Suc j) ?c = take j c @ [c ! Suc j]" using Suc.prems by (simp add: take_Suc_conv_app_nth)
  moreover have "drop (Suc j) c = c ! Suc j # drop (Suc (Suc j)) c" using Suc.prems by (simp add: Cons_nth_drop_Suc)
  ultimately show ?case using s by simp
qed simp

lemma invalidate_names:
  assumes wf: "cache_wf s" and f: "terminated f" and n: "cache_index f s = Some i"
  obtains s' where "file_cache_invalidate f s = Some s'" "cache_wf s'"
    "unat (cache_used s') = unat (cache_used s) - 1"
    "\<forall>j < unat (cache_used s'). cache s' ! j = cache s ! (if j < i then j else Suc j)"
proof -
  have b: "unat (cache_used s) \<le> 16" by (rule cache_used_bound [OF wf])
  have i: "i < unat (cache_used s)" "length (cache s) = 16" using n wf by (simp_all add: cache_index_Some cache_wf_def)
  have u: "unat (cache_used s - 1) = unat (cache_used s) - 1"
    using i(1) by (simp add: unat_sub word_le_nat_alt)
  let ?n = "unat (cache_used s) - 1 - i"
  let ?c = "take i (cache s) @ take ?n (drop (Suc i) (cache s)) @ drop (i + ?n) (cache s)"
  let ?s = "s\<lparr>cache := ?c, cache_used := cache_used s - 1\<rparr>"
  have inv: "file_cache_invalidate f s = Some ?s"
    using n i b by (simp add: file_cache_invalidate_def cache_find_eq [OF wf f] u shift_entries_eq)
  have nth: "?c ! j = cache s ! (if j < i then j else Suc j)" if "j < unat (cache_used s) - 1" for j
    using that i b by (auto simp: nth_append)
  have "terminated (fc_filename (?c ! j))" if "j < unat (cache_used s) - 1" for j
    using that nth [OF that] wf by (auto simp: cache_wf_def)
  moreover have "set ?c \<subseteq> set (cache s)"
    by (auto dest: in_set_takeD in_set_dropD)
  moreover have "length ?c = 16" using i b by simp
  ultimately have "cache_wf ?s" using wf b u by (auto simp: cache_wf_def word_le_nat_alt)
  with inv u nth show thesis by (intro that [of ?s]) simp_all
qed

definition names_distinct :: "file_cache \<Rightarrow> bool" where
  "names_distinct s \<longleftrightarrow> inj_on (cache_name s) {..<unat (cache_used s)}"

lemma invalidate_miss:
  assumes wf: "cache_wf s" and f: "terminated f" and d: "names_distinct s"
  obtains s' where "file_cache_invalidate f s = Some s'" "cache_wf s'" "cache_index f s' = None"
    "\<forall>g. cstr g \<noteq> cstr f \<longrightarrow> map_option (\<lambda>i. cache s' ! i) (cache_index g s') = map_option (\<lambda>i. cache s ! i) (cache_index g s)"
proof (cases "cache_index f s")
  case None
  then have "file_cache_invalidate f s = Some s" by (simp add: file_cache_invalidate_def cache_find_eq [OF wf f])
  with None wf show thesis by (intro that [of s]) simp_all
next
  case (Some i)
  from invalidate_names [OF wf f Some] obtain s' where
    s': "file_cache_invalidate f s = Some s'" "cache_wf s'" "unat (cache_used s') = unat (cache_used s) - 1"
    and nth': "\<forall>j < unat (cache_used s'). cache s' ! j = cache s ! (if j < i then j else Suc j)" .
  note nth = nth' [rule_format]
  have i: "i < unat (cache_used s)" "cache_name s i = cstr f" using Some by (simp_all add: cache_index_Some)
  define h where "h j = (if j < i then j else Suc j)" for j
  have nm: "cache_name s' j = cache_name s (h j)" if "j < unat (cache_used s')" for j
    using nth [OF that] by (simp add: cache_name_def h_def)
  have uniq: "cache_name s j \<noteq> cstr f" if "j < unat (cache_used s)" "j \<noteq> i" for j
    using that i d by (auto simp: names_distinct_def inj_on_def)
  have "cache_index f s' = None"
    unfolding cache_index_None using nm uniq i(1) s'(3) by (auto simp: h_def)
  moreover have "map_option (\<lambda>i. cache s' ! i) (cache_index g s') = map_option (\<lambda>i. cache s ! i) (cache_index g s)"
    if g: "cstr g \<noteq> cstr f" for g
  proof (cases "cache_index g s'")
    case None
    have "cache_name s j \<noteq> cstr g" if j: "j < unat (cache_used s)" for j
    proof (cases "j = i")
      case False
      then obtain l where "l < unat (cache_used s')" "j = h l"
        using j i(1) s'(3) by (cases "j < i") (auto simp: h_def intro: that [of j] that [of "j - 1"])
      with None nm show ?thesis by (simp add: cache_index_None)
    qed (use i g in simp)
    then have "cache_index g s = None" by (simp add: cache_index_None)
    with None show ?thesis by simp
  next
    case (Some l)
    then have l: "l < unat (cache_used s')" "cache_name s (h l) = cstr g" using nm by (auto simp: cache_index_Some)
    have "h l < unat (cache_used s)" using l(1) s'(3) by (auto simp: h_def)
    moreover have "cache_name s j \<noteq> cstr g" if "j < h l" for j
      using that l(2) d \<open>h l < unat (cache_used s)\<close> inj_onD [of "cache_name s" "{..<unat (cache_used s)}" j "h l"]
      by (auto simp: names_distinct_def)
    ultimately have "cache_index g s = Some (h l)" using l(2) by (simp add: cache_index_Some)
    with Some nth [OF l(1)] show ?thesis by (simp add: h_def)
  qed
  ultimately show thesis using s' by (intro that [of s']) simp_all
qed

section \<open>Properties\<close>

text \<open>
  C33: when exactly a stored file is found again. A file of more than 4096 bytes is not stored. A smaller one is found by
  \<open>file_cache_get\<close> with its bytes and its size if the name was cached before, or if the name buffer of the entry it goes to, a
  free one or the least used one, has a NUL at the length of the new name; otherwise the old name shows
  through behind the new one, which \<open>strcpy\<close> does not terminate, and the lookup misses. Neither call leaves its buffers.
\<close>

theorem file_cache_put_get:
  assumes "cache_wf s" "terminated f" "length (cstr f) < 64" "unat sz \<le> length data"
  shows "\<exists>s'. file_cache_put f data sz s = Some s' \<and> cache_wf s'
    \<and> (if sz > 4096 then s' = s
       else if cache_index f s \<noteq> None \<or> clean_slot f s
       then \<exists>d s''. file_cache_get f s' = Some (Some (d, sz), s'') \<and> take (unat sz) d = take (unat sz) data
       else file_cache_get f s' = Some (None, s'\<lparr>cache_misses := cache_misses s' + 1\<rparr>))"
proof (cases "sz > 4096")
  case True
  then show ?thesis using assms(1) by (simp add: file_cache_put_def)
next
  case False
  then have sz: "unat sz \<le> 4096" by (simp add: word_less_nat_alt)
  show ?thesis
  proof (cases "cache_index f s")
    case None
    then obtain s' where s': "file_cache_put f data sz s = Some s'" "cache_wf s'"
      "cache_index f s' = (if clean_slot f s then Some (put_slot s) else None)"
      "fc_size (cache s' ! put_slot s) = sz" "take (unat sz) (fc_data (cache s' ! put_slot s)) = take (unat sz) data"
      using put_new [OF assms(1-3) sz assms(4)] by blast
    then show ?thesis
      using False None get_hit [OF s'(2) assms(2)] get_miss [OF s'(2) assms(2)] by (cases "clean_slot f s") fastforce+
  next
    case (Some i)
    then obtain s' where s': "file_cache_put f data sz s = Some s'" "cache_wf s'" "cache_index f s' = Some i"
      "fc_size (cache s' ! i) = sz" "take (unat sz) (fc_data (cache s' ! i)) = take (unat sz) data"
      using put_existing [OF assms(1,2) sz assms(4)] by blast
    then show ?thesis using False Some get_hit [OF s'(2) assms(2)] by fastforce
  qed
qed

text \<open>A cache as the loader leaves it: all buffers zero.\<close>

definition empty_cache :: file_cache where
  "empty_cache = \<lparr>cache = replicate 16 \<lparr>fc_filename = replicate 64 0, fc_size = 0, fc_data = replicate 4096 0, fc_hits = 0,
     fc_timestamp = 0\<rparr>, cache_used = 0, cache_hits = 0, cache_misses = 0\<rparr>"

text \<open>The same after a file \<^verbatim>\<open>motdold\<close> was cached and removed.\<close>

definition used_cache :: file_cache where
  "used_cache = empty_cache\<lparr>cache := (cache empty_cache)[0 := (cache empty_cache ! 0)\<lparr>fc_filename := clit ''motdold'' @ replicate 56 0\<rparr>]\<rparr>"

lemma empty_cache_wf: "cache_wf empty_cache"
  by (simp add: cache_wf_def empty_cache_def entry_wf_def)

lemma used_cache_wf: "cache_wf used_cache"
  by (auto simp: cache_wf_def empty_cache_def used_cache_def entry_wf_def clit_def lit_def set_conv_nth nth_list_update)

text \<open>A name goes into an empty entry, and into one where a longer name stood before.\<close>

theorem file_cache_put_get_witness:
  "(\<exists>s' d s''. file_cache_put (clit ''motd'') (lit ''hello'') 5 empty_cache = Some s'
     \<and> file_cache_get (clit ''motd'') s' = Some (Some (d, 5), s'') \<and> take 5 d = lit ''hello'')
   \<and> (\<exists>s'. file_cache_put (clit ''motd'') (lit ''hello'') 5 used_cache = Some s'
     \<and> file_cache_get (clit ''motd'') s' = Some (None, s'\<lparr>cache_misses := cache_misses s' + 1\<rparr>))"
proof -
  have f: "terminated (clit ''motd'')" by (simp add: clit_def)
  have l: "length (cstr (clit ''motd'')) < 64" "length (cstr (clit ''motd'')) = 4" "length (lit ''hello'') = 5"
    "take 5 (lit ''hello'') = lit ''hello''" by code_simp+
  have c: "clean_slot (clit ''motd'') empty_cache" "\<not> clean_slot (clit ''motd'') used_cache"
    unfolding clean_slot_def l(2) by (simp_all add: put_slot_def empty_cache_def used_cache_def clit_def lit_def)
  have i: "cache_index (clit ''motd'') used_cache = None" by (simp add: cache_index_None used_cache_def empty_cache_def)
  show ?thesis
    using file_cache_put_get [OF empty_cache_wf f l(1), of 5 "lit ''hello''"]
      file_cache_put_get [OF used_cache_wf f l(1), of 5 "lit ''hello''"] l(3,4) c i by auto
qed

text \<open>
  After \<open>file_cache_invalidate(name)\<close> on a cache with distinct names, \<open>name\<close> is a miss and every other name
  still finds its own entry.
\<close>

theorem file_cache_invalidate_removes:
  assumes "cache_wf s" "terminated f" "names_distinct s"
  shows "\<exists>s'. file_cache_invalidate f s = Some s' \<and> cache_wf s'
    \<and> file_cache_get f s' = Some (None, s'\<lparr>cache_misses := cache_misses s' + 1\<rparr>)
    \<and> (\<forall>g. cstr g \<noteq> cstr f \<longrightarrow>
         map_option (\<lambda>i. cache s' ! i) (cache_index g s') = map_option (\<lambda>i. cache s ! i) (cache_index g s))"
  using invalidate_miss [OF assms] get_miss [OF _ assms(2)] by metis

theorem file_cache_invalidate_removes_witness:
  "\<exists>s'. file_cache_invalidate (clit ''motd'') empty_cache = Some s'
     \<and> file_cache_get (clit ''motd'') s' = Some (None, s'\<lparr>cache_misses := cache_misses s' + 1\<rparr>)"
proof -
  have "terminated (clit ''motd'')" "names_distinct empty_cache" by (simp_all add: clit_def names_distinct_def empty_cache_def)
  from file_cache_invalidate_removes [OF empty_cache_wf this] show ?thesis by blast
qed

end
