(* ===== verification/Vfs.thy ===== *)
theory Vfs
  imports Pmm
begin

text \<open>
  The in-memory file system of \<^verbatim>\<open>src/kernel/fs.c\<close>: a pool of 64 vnodes, a current directory, and file
  contents in pages from the page allocator. A \<open>vnode_t *\<close> is an index into the pool, \<open>None\<close> for \<open>NULL\<close>; a
  path is the object a \<open>char *\<close> points to, \<open>None\<close> for \<open>NULL\<close>; the content of a node is the object
  \<open>node->content\<close> points to. An operation that would leave an object or follow \<open>NULL\<close> is \<open>None\<close>, so that a
  result \<open>Some\<close> says it does not. A page of contents belongs to one node, so its bytes are part of that
  node.
\<close>

section \<open>State\<close>

record vnode =
  vn_name :: "byte list"
  vn_flags :: u32
  vn_parent :: "nat option"
  vn_children :: "nat option list"
  vn_child_count :: u32
  vn_size :: u32
  vn_content :: "byte list option"

record fs =
  vnodes_pool :: "vnode list"
  vnodes_pool_used :: u32
  vfs_root :: "nat option"
  current_dir :: "nat option"
  fs_pmm :: pmm
  fs_mem :: memory
  fs_out :: "string list"

abbreviation VFS_FILE :: u32 where "VFS_FILE \<equiv> 1"
abbreviation VFS_DIRECTORY :: u32 where "VFS_DIRECTORY \<equiv> 2"

type_synonym cptr = "byte list option"

definition fs_print :: "string \<Rightarrow> fs \<Rightarrow> fs" where
  "fs_print msg s = s\<lparr>fs_out := fs_out s @ [msg]\<rparr>"

definition update_node :: "nat \<Rightarrow> (vnode \<Rightarrow> vnode) \<Rightarrow> fs \<Rightarrow> fs option" where
  "update_node i f s =
     do { n \<leftarrow> array_get (vnodes_pool s) i;
          p \<leftarrow> array_set (vnodes_pool s) i (f n);
          Some (s\<lparr>vnodes_pool := p\<rparr>) }"

text \<open>The test \<open>!path || !*path\<close>.\<close>

definition no_path :: "cptr \<Rightarrow> bool option" where
  "no_path path = (case path of None \<Rightarrow> Some True | Some p \<Rightarrow> map_option (\<lambda>c. c = 0) (array_get p 0))"

section \<open>Nodes and lookup\<close>

definition alloc_vnode :: "fs \<Rightarrow> (nat option \<times> fs) option" where
  "alloc_vnode s =
     (if vnodes_pool_used s \<ge> 64 then Some (None, s)
      else
        let i = unat (vnodes_pool_used s)
        in do { s \<leftarrow> update_node i (\<lambda>n. n\<lparr>vn_name := (vn_name n)[0 := 0], vn_flags := 0, vn_parent := None,
                       vn_child_count := 0, vn_content := None, vn_children := replicate 16 None\<rparr>)
                       (s\<lparr>vnodes_pool_used := vnodes_pool_used s + 1\<rparr>);
                Some (Some i, s) })"

definition fs_init :: "fs \<Rightarrow> fs option" where
  "fs_init s =
     do { (r, s) \<leftarrow> alloc_vnode (s\<lparr>vnodes_pool_used := 0\<rparr>);
          case r of
            None \<Rightarrow> Some (s\<lparr>vfs_root := None\<rparr>)
          | Some i \<Rightarrow>
              do { n \<leftarrow> array_get (vnodes_pool s) i;
                   name \<leftarrow> strcpy (vn_name n) (clit ''/'');
                   s \<leftarrow> update_node i (\<lambda>n. n\<lparr>vn_name := name, vn_flags := VFS_DIRECTORY, vn_parent := None,
                          vn_child_count := 0, vn_content := None\<rparr>) s;
                   Some (s\<lparr>vfs_root := Some i, current_dir := Some i\<rparr>) } }"

text \<open>The name of child \<open>i\<close> of a directory, as the loops over \<open>children\<close> read it.\<close>

definition child_key :: "fs \<Rightarrow> vnode \<Rightarrow> nat \<Rightarrow> byte list option" where
  "child_key s d i =
     do { p \<leftarrow> array_get (vn_children d) i; c \<leftarrow> p; n \<leftarrow> array_get (vnodes_pool s) c; Some (vn_name n) }"

definition find_child :: "fs \<Rightarrow> vnode \<Rightarrow> byte list \<Rightarrow> nat option option" where
  "find_child s d name =
     do { r \<leftarrow> find_named (child_key s d) name 0 (unat (vn_child_count d));
          case r of None \<Rightarrow> Some None | Some i \<Rightarrow> array_get (vn_children d) i }"

definition vfs_lookup :: "cptr \<Rightarrow> fs \<Rightarrow> nat option option" where
  "vfs_lookup path s =
     (case path of
        None \<Rightarrow> Some None
      | Some p \<Rightarrow>
          do { c \<leftarrow> array_get p 0;
               if c = 0 then Some None
               else do {
                 r \<leftarrow> strcmp p (clit ''/'');
                 if r = 0 then Some (vfs_root s)
                 else do {
                   r \<leftarrow> strcmp p (clit ''.'');
                   if r = 0 then Some (current_dir s)
                   else do {
                     r \<leftarrow> strcmp p (clit ''..'');
                     cur \<leftarrow> current_dir s;
                     d \<leftarrow> array_get (vnodes_pool s) cur;
                     if r = 0 then Some (if vn_parent d \<noteq> None then vn_parent d else Some cur)
                     else find_child s d (if c = of_char (CHR ''/'') then tl p else p) } } } })"

section \<open>Creating and removing nodes\<close>

text \<open>\<open>dir->children[dir->child_count++] = node\<close>\<close>

definition append_child :: "nat \<Rightarrow> nat \<Rightarrow> fs \<Rightarrow> fs option" where
  "append_child dir node s =
     do { d \<leftarrow> array_get (vnodes_pool s) dir;
          cs \<leftarrow> array_set (vn_children d) (unat (vn_child_count d)) (Some node);
          update_node dir (\<lambda>d. d\<lparr>vn_children := cs, vn_child_count := vn_child_count d + 1\<rparr>) s }"

text \<open>\<open>pmm_alloc_z(64)\<close>: the page it returns, with the bytes found there.\<close>

definition alloc_content :: "fs \<Rightarrow> byte list option \<times> fs" where
  "alloc_content s =
     (let (p, pm, m) = pmm_alloc_z 64 (fs_pmm s) (fs_mem s);
          s = s\<lparr>fs_pmm := pm, fs_mem := m\<rparr>
      in if p = 0 then (None, s) else (Some (mem_read m p 4096), s))"

definition k_mkdir :: "cptr \<Rightarrow> fs \<Rightarrow> (int \<times> fs) option" where
  "k_mkdir path s =
     do { e \<leftarrow> no_path path;
          if e then Some (-1, fs_print ''mkdir: missing name\<newline>'' s)
          else case current_dir s of
            None \<Rightarrow> Some (-1, s)
          | Some cur \<Rightarrow>
              do { d \<leftarrow> array_get (vnodes_pool s) cur;
                   if vn_child_count d \<ge> 16 then Some (-1, fs_print ''mkdir: directory full\<newline>'' s)
                   else do {
                     l \<leftarrow> vfs_lookup path s;
                     if l \<noteq> None then Some (-1, fs_print ''mkdir: already exists\<newline>'' s)
                     else do {
                       (r, s) \<leftarrow> alloc_vnode s;
                       case r of
                         None \<Rightarrow> Some (-1, fs_print ''mkdir: out of nodes\<newline>'' s)
                       | Some node \<Rightarrow>
                           do { p \<leftarrow> path;
                                n \<leftarrow> array_get (vnodes_pool s) node;
                                name \<leftarrow> strcpy (vn_name n) p;
                                s \<leftarrow> update_node node (\<lambda>n. n\<lparr>vn_name := name, vn_flags := VFS_DIRECTORY,
                                       vn_parent := Some cur, vn_child_count := 0, vn_content := None\<rparr>) s;
                                s \<leftarrow> append_child cur node s;
                                Some (0, s) } } } } }"

definition k_touch :: "cptr \<Rightarrow> fs \<Rightarrow> (int \<times> fs) option" where
  "k_touch path s =
     do { e \<leftarrow> no_path path;
          if e then Some (-1, fs_print ''touch: missing name\<newline>'' s)
          else case current_dir s of
            None \<Rightarrow> Some (-1, s)
          | Some cur \<Rightarrow>
              do { d \<leftarrow> array_get (vnodes_pool s) cur;
                   if vn_child_count d \<ge> 16 then Some (-1, fs_print ''touch: directory full\<newline>'' s)
                   else do {
                     l \<leftarrow> vfs_lookup path s;
                     if l \<noteq> None then Some (-1, fs_print ''touch: already exists\<newline>'' s)
                     else do {
                       (r, s) \<leftarrow> alloc_vnode s;
                       case r of
                         None \<Rightarrow> Some (-1, fs_print ''touch: out of nodes\<newline>'' s)
                       | Some node \<Rightarrow>
                           do { p \<leftarrow> path;
                                n \<leftarrow> array_get (vnodes_pool s) node;
                                name \<leftarrow> strcpy (vn_name n) p;
                                let (content, s) = alloc_content s;
                                let content = map_option (\<lambda>c. c[0 := 0]) content;
                                s \<leftarrow> update_node node (\<lambda>n. n\<lparr>vn_name := name, vn_flags := VFS_FILE,
                                       vn_parent := Some cur, vn_child_count := 0, vn_content := content\<rparr>) s;
                                s \<leftarrow> append_child cur node s;
                                Some (0, s) } } } } }"

definition k_install :: "cptr \<Rightarrow> cptr \<Rightarrow> u32 \<Rightarrow> fs \<Rightarrow> (int \<times> fs) option" where
  "k_install name data sz s =
     (if name = None \<or> data = None \<or> sz = 0 then Some (-1, s)
      else do {
        root \<leftarrow> vfs_root s;
        d \<leftarrow> array_get (vnodes_pool s) root;
        if vn_child_count d \<ge> 16 then Some (-1, s)
        else do {
          (r, s) \<leftarrow> alloc_vnode s;
          case r of
            None \<Rightarrow> Some (-1, s)
          | Some node \<Rightarrow>
              do { p \<leftarrow> name;
                   n \<leftarrow> array_get (vnodes_pool s) node;
                   nm \<leftarrow> strcpy (vn_name n) p;
                   s \<leftarrow> update_node node (\<lambda>n. n\<lparr>vn_name := nm, vn_flags := VFS_FILE, vn_parent := Some root,
                          vn_content := data, vn_size := sz\<rparr>) s;
                   s \<leftarrow> append_child root node s;
                   Some (0, s) } } })"

text \<open>The index of a node among the children of a directory.\<close>

fun child_index :: "nat option list \<Rightarrow> nat \<Rightarrow> nat \<Rightarrow> nat \<Rightarrow> nat option option" where
  "child_index cs node i 0 = Some None"
| "child_index cs node i (Suc n) =
     do { c \<leftarrow> array_get cs i; if c = Some node then Some (Some i) else child_index cs node (Suc i) n }"

text \<open>The loop \<open>for (i = found; i + 1 < child_count; i++) children[i] = children[i + 1]\<close>, \<open>n\<close> times.\<close>

fun shift_children :: "nat \<Rightarrow> nat \<Rightarrow> nat option list \<Rightarrow> nat option list option" where
  "shift_children i 0 cs = Some cs"
| "shift_children i (Suc n) cs =
     do { c \<leftarrow> array_get cs (Suc i); cs \<leftarrow> array_set cs i c; shift_children (Suc i) n cs }"

definition k_unlink :: "cptr \<Rightarrow> fs \<Rightarrow> (int \<times> fs) option" where
  "k_unlink path s =
     do { e \<leftarrow> no_path path;
          if e then Some (-1, s)
          else do {
            l \<leftarrow> vfs_lookup path s;
            case l of
              None \<Rightarrow> Some (-1, s)
            | Some node \<Rightarrow>
                do { n \<leftarrow> array_get (vnodes_pool s) node;
                     if vn_flags n AND VFS_FILE = 0 then Some (-1, s)
                     else case vn_parent n of
                       None \<Rightarrow> Some (-1, s)
                     | Some parent \<Rightarrow>
                         do { p \<leftarrow> array_get (vnodes_pool s) parent;
                              found \<leftarrow> child_index (vn_children p) node 0 (unat (vn_child_count p));
                              case found of
                                None \<Rightarrow> Some (-1, s)
                              | Some i \<Rightarrow>
                                  do { cs \<leftarrow> shift_children i (unat (vn_child_count p) - 1 - i) (vn_children p);
                                       s \<leftarrow> update_node parent (\<lambda>p. p\<lparr>vn_children := cs,
                                              vn_child_count := vn_child_count p - 1\<rparr>) s;
                                       s \<leftarrow> update_node node (\<lambda>n. n\<lparr>vn_content := None, vn_flags := 0,
                                              vn_parent := None, vn_child_count := 0, vn_size := 0\<rparr>) s;
                                       Some (0, s) } } } } }"

section \<open>Queries\<close>

definition vfs_stat :: "cptr \<Rightarrow> bool \<Rightarrow> fs \<Rightarrow> (int \<times> nat option) option" where
  "vfs_stat path out s =
     do { e \<leftarrow> no_path path;
          if e \<or> \<not> out then Some (-1, None)
          else do { l \<leftarrow> vfs_lookup path s; Some (if l = None then (-1, None) else (0, l)) } }"

text \<open>The flag tests of the queries: the node found for a path, when its flags meet the mask.\<close>

definition lookup_flagged :: "cptr \<Rightarrow> u32 \<Rightarrow> fs \<Rightarrow> (nat \<times> vnode) option option" where
  "lookup_flagged path fl s =
     do { l \<leftarrow> vfs_lookup path s;
          case l of
            None \<Rightarrow> Some None
          | Some i \<Rightarrow> do { n \<leftarrow> array_get (vnodes_pool s) i;
                            Some (if vn_flags n AND fl = 0 then None else Some (i, n)) } }"

definition vfs_isdir :: "cptr \<Rightarrow> fs \<Rightarrow> int option" where
  "vfs_isdir path s = map_option (\<lambda>r. if r = None then 0 else 1) (lookup_flagged path VFS_DIRECTORY s)"

definition vfs_isfile :: "cptr \<Rightarrow> fs \<Rightarrow> int option" where
  "vfs_isfile path s = map_option (\<lambda>r. if r = None then 0 else 1) (lookup_flagged path VFS_FILE s)"

text \<open>\<open>node->content ? strlen(node->content) : 0\<close>\<close>

definition content_length :: "vnode \<Rightarrow> u32 option" where
  "content_length n = (case vn_content n of None \<Rightarrow> Some 0 | Some c \<Rightarrow> map_option of_nat (strlen c))"

definition vfs_filesize :: "cptr \<Rightarrow> fs \<Rightarrow> u32 option" where
  "vfs_filesize path s =
     do { r \<leftarrow> lookup_flagged path VFS_FILE s;
          case r of None \<Rightarrow> Some 0 | Some (i, n) \<Rightarrow> content_length n }"

text \<open>\<open>*entries\<close> is \<open>NULL\<close> or the array of children of the directory, \<open>*count\<close> their number.\<close>

definition vfs_readdir :: "cptr \<Rightarrow> bool \<Rightarrow> bool \<Rightarrow> fs \<Rightarrow> (int \<times> (nat option list option \<times> u32) option) option"
  where
  "vfs_readdir path entries count s =
     do { e \<leftarrow> no_path path;
          if e \<or> \<not> entries \<or> \<not> count then Some (-1, None)
          else do {
            r \<leftarrow> lookup_flagged path VFS_DIRECTORY s;
            case r of
              None \<Rightarrow> Some (-1, None)
            | Some (i, n) \<Rightarrow>
                Some (0, Some (if vn_child_count n = 0 then (None, 0)
                               else (Some (vn_children n), vn_child_count n))) } }"

text \<open>The content pointer, and what is stored through \<open>size_out\<close> when it is not \<open>NULL\<close>.\<close>

definition vfs_read_file :: "cptr \<Rightarrow> bool \<Rightarrow> fs \<Rightarrow> (cptr \<times> u32 option) option" where
  "vfs_read_file path size_out s =
     do { r \<leftarrow> lookup_flagged path VFS_FILE s;
          case r of
            None \<Rightarrow> Some (None, if size_out then Some 0 else None)
          | Some (i, n) \<Rightarrow>
              if size_out then do { l \<leftarrow> content_length n; Some (vn_content n, Some l) }
              else Some (vn_content n, None) }"

definition vfs_find_in_path :: "nat option \<Rightarrow> cptr \<Rightarrow> fs \<Rightarrow> nat option option" where
  "vfs_find_in_path dir name s =
     (case (dir, name) of
        (Some i, Some nm) \<Rightarrow>
          do { d \<leftarrow> array_get (vnodes_pool s) i;
               if vn_flags d AND VFS_DIRECTORY = 0 then Some None else find_child s d nm }
      | _ \<Rightarrow> Some None)"

definition vfs_child_count :: "cptr \<Rightarrow> fs \<Rightarrow> u32 option" where
  "vfs_child_count path s =
     map_option (\<lambda>r. case r of None \<Rightarrow> 0 | Some (i, n) \<Rightarrow> vn_child_count n)
       (lookup_flagged path VFS_DIRECTORY s)"

definition vfs_get_child :: "cptr \<Rightarrow> u32 \<Rightarrow> fs \<Rightarrow> nat option option" where
  "vfs_get_child path index s =
     do { r \<leftarrow> lookup_flagged path VFS_DIRECTORY s;
          case r of
            None \<Rightarrow> Some None
          | Some (i, n) \<Rightarrow> if index \<ge> vn_child_count n then Some None
                            else array_get (vn_children n) (unat index) }"

section \<open>File contents\<close>

text \<open>\<open>memcpy(content + off, data, n); content[off + n] = '\0'; size = off + n\<close>\<close>

definition put_content :: "nat \<Rightarrow> byte list \<Rightarrow> u32 \<Rightarrow> byte list \<Rightarrow> u32 \<Rightarrow> fs \<Rightarrow> fs option" where
  "put_content i c off data n s =
     do { t \<leftarrow> (if unat off \<le> length c then memcpy (drop (unat off) c) data (unat n) else None);
          c \<leftarrow> array_set (take (unat off) c @ t) (unat (off + n)) 0;
          update_node i (\<lambda>nd. nd\<lparr>vn_content := Some c, vn_size := off + n\<rparr>) s }"

definition vfs_write_file :: "cptr \<Rightarrow> cptr \<Rightarrow> u32 \<Rightarrow> fs \<Rightarrow> (int \<times> fs) option" where
  "vfs_write_file path content sz s =
     do { r \<leftarrow> lookup_flagged path VFS_FILE s;
          case r of
            None \<Rightarrow> Some (-1, s)
          | Some (i, n) \<Rightarrow>
              if content = None \<or> sz = 0
              then do {
                c \<leftarrow> (case vn_content n of
                        None \<Rightarrow> Some None
                      | Some c \<Rightarrow> map_option Some (array_set c 0 0));
                s \<leftarrow> update_node i (\<lambda>n. n\<lparr>vn_content := c, vn_size := 0\<rparr>) s;
                Some (0, s) }
              else
                let (c, s) = (if vn_content n = None then alloc_content s else (vn_content n, s))
                in case c of
                     None \<Rightarrow> Some (-1, s)
                   | Some c \<Rightarrow>
                       do { data \<leftarrow> content;
                            s \<leftarrow> put_content i c 0 data (if sz < 63 then sz else 63) s;
                            Some (0, s) } }"

text \<open>\<open>64 - current_size - 1\<close> is unsigned, so the guard \<open>available <= 0\<close> only sees 0.\<close>

definition vfs_append_file :: "cptr \<Rightarrow> cptr \<Rightarrow> u32 \<Rightarrow> fs \<Rightarrow> (int \<times> fs) option" where
  "vfs_append_file path content sz s =
     do { r \<leftarrow> lookup_flagged path VFS_FILE s;
          case r of
            None \<Rightarrow> Some (-1, s)
          | Some (i, n) \<Rightarrow>
              (case vn_content n of
                 None \<Rightarrow> vfs_write_file path content sz s
               | Some c \<Rightarrow>
                   do { l \<leftarrow> strlen c;
                        let current_size = of_nat l;
                        let available = 64 - current_size - 1;
                        if available \<le> 0 then Some (-1, s)
                        else
                          let append_size = (if sz < available then sz else available)
                          in do { data \<leftarrow> (if append_size = 0 then Some [] else content);
                                  s \<leftarrow> put_content i c current_size data append_size s;
                                  Some (0, s) } }) }"

section \<open>Invariant\<close>

definition node :: "fs \<Rightarrow> nat \<Rightarrow> vnode" where
  "node s i = vnodes_pool s ! i"

text \<open>The children a directory lists.\<close>

definition kids :: "fs \<Rightarrow> nat \<Rightarrow> nat option list" where
  "kids s i = take (unat (vn_child_count (node s i))) (vn_children (node s i))"

abbreviation used_nodes :: "fs \<Rightarrow> nat" where "used_nodes s \<equiv> unat (vnodes_pool_used s)"

definition node_wf :: "vnode \<Rightarrow> bool" where
  "node_wf n \<longleftrightarrow> length (vn_name n) = 32 \<and> terminated (vn_name n) \<and> length (vn_children n) = 16
     \<and> vn_child_count n \<le> 16 \<and> vn_flags n \<in> {0, VFS_FILE, VFS_DIRECTORY}"

text \<open>
  A node in use: its children are nodes in use, listed once, that name it as their parent; a parent is older
  than its children, so the links upwards have no cycle.
\<close>

definition node_links :: "fs \<Rightarrow> nat \<Rightarrow> bool" where
  "node_links s i \<longleftrightarrow> distinct (kids s i)
     \<and> (\<forall>c \<in> set (kids s i). \<exists>k < used_nodes s. c = Some k \<and> vn_parent (node s k) = Some i)
     \<and> (\<forall>p. vn_parent (node s i) = Some p \<longrightarrow> p < i)"

definition dir_ptr :: "fs \<Rightarrow> nat option \<Rightarrow> bool" where
  "dir_ptr s p \<longleftrightarrow> (\<exists>d < used_nodes s. p = Some d \<and> vn_flags (node s d) = VFS_DIRECTORY)"

definition fs_ok :: "fs \<Rightarrow> bool" where
  "fs_ok s \<longleftrightarrow> length (vnodes_pool s) = 64 \<and> used_nodes s \<le> 64
     \<and> (\<forall>i < 64. node_wf (node s i))
     \<and> (\<forall>i < 64. used_nodes s \<le> i \<longrightarrow> vn_name (node s i) = replicate 32 0)
     \<and> (\<forall>i < used_nodes s. node_links s i)
     \<and> dir_ptr s (vfs_root s) \<and> dir_ptr s (current_dir s)"

lemma node_frame [simp]:
  "node (s\<lparr>fs_out := a\<rparr>) = node s" "node (s\<lparr>fs_pmm := b\<rparr>) = node s" "node (s\<lparr>fs_mem := c\<rparr>) = node s"
  "node (s\<lparr>current_dir := d\<rparr>) = node s" "node (s\<lparr>vnodes_pool_used := u\<rparr>) = node s"
  by (simp_all add: node_def fun_eq_iff)

lemma kids_frame [simp]:
  "kids (s\<lparr>fs_out := a\<rparr>) = kids s" "kids (s\<lparr>fs_pmm := b\<rparr>) = kids s" "kids (s\<lparr>fs_mem := c\<rparr>) = kids s"
  "kids (s\<lparr>current_dir := d\<rparr>) = kids s" "kids (s\<lparr>vnodes_pool_used := u\<rparr>) = kids s"
  by (simp_all add: kids_def fun_eq_iff)

lemma fs_ok_frame [simp]:
  "fs_ok (s\<lparr>fs_out := a\<rparr>) = fs_ok s" "fs_ok (s\<lparr>fs_pmm := b\<rparr>) = fs_ok s" "fs_ok (s\<lparr>fs_mem := c\<rparr>) = fs_ok s"
  by (simp_all add: fs_ok_def node_links_def dir_ptr_def)

lemma fs_ok_print [simp]: "fs_ok (fs_print msg s) = fs_ok s"
  by (simp add: fs_print_def)

lemma fs_okD:
  assumes "fs_ok s"
  shows "length (vnodes_pool s) = 64" "used_nodes s \<le> 64"
    "i < 64 \<Longrightarrow> node_wf (node s i)"
    "i < 64 \<Longrightarrow> used_nodes s \<le> i \<Longrightarrow> vn_name (node s i) = replicate 32 0"
    "i < used_nodes s \<Longrightarrow> node_links s i" "i < used_nodes s \<Longrightarrow> i < 64"
  using assms by (auto simp: fs_ok_def)

lemma get_node: "fs_ok s \<Longrightarrow> i < 64 \<Longrightarrow> array_get (vnodes_pool s) i = Some (node s i)"
  by (simp add: array_get_def node_def fs_okD)

lemma current_dirE:
  assumes "fs_ok s"
  obtains cur where "current_dir s = Some cur" "cur < used_nodes s" "cur < 64"
    "vn_flags (node s cur) = VFS_DIRECTORY" "array_get (vnodes_pool s) cur = Some (node s cur)"
  using assms get_node [OF assms] fs_okD(2) [OF assms] by (auto simp: fs_ok_def dir_ptr_def)

lemma length_kids: "fs_ok s \<Longrightarrow> i < 64 \<Longrightarrow> length (kids s i) = unat (vn_child_count (node s i))"
  using fs_okD(3) [of s i] by (simp add: kids_def node_wf_def word_le_nat_alt)

lemma kidsE:
  assumes "fs_ok s" "i < used_nodes s" "j < unat (vn_child_count (node s i))"
  obtains k where "vn_children (node s i) ! j = Some k" "k < used_nodes s" "vn_parent (node s k) = Some i"
    "array_get (vn_children (node s i)) j = Some (Some k)" "kids s i ! j = Some k"
proof -
  have w: "node_wf (node s i)" using assms fs_okD by blast
  have l: "j < length (kids s i)" using assms length_kids fs_okD(6) by metis
  then have "kids s i ! j \<in> set (kids s i)" by simp
  then obtain k where k: "k < used_nodes s" "kids s i ! j = Some k" "vn_parent (node s k) = Some i"
    using fs_okD(5) [OF assms(1,2)] by (auto simp: node_links_def)
  moreover have "kids s i ! j = vn_children (node s i) ! j" using assms(3) by (simp add: kids_def)
  moreover have "j < 16" using assms(3) w by (auto simp: node_wf_def word_le_nat_alt)
  ultimately show thesis using that w by (simp add: array_get_def node_wf_def)
qed

section \<open>A directory as a list of names\<close>

text \<open>What a directory promises its clients: an ordered list of names with the kind of each.\<close>

type_synonym listing = "(byte list \<times> u32) list"

definition entry_of :: "fs \<Rightarrow> nat option \<Rightarrow> byte list \<times> u32" where
  "entry_of s c = (cstr (vn_name (node s (the c))), vn_flags (node s (the c)))"

definition dir_list :: "fs \<Rightarrow> nat \<Rightarrow> listing" where
  "dir_list s i = map (entry_of s) (kids s i)"

text \<open>The node a name stands for in a directory: the first child of that name.\<close>

definition named_child :: "fs \<Rightarrow> nat \<Rightarrow> byte list \<Rightarrow> nat option" where
  "named_child s i name = Option.bind (find (\<lambda>c. fst (entry_of s c) = name) (kids s i)) id"

lemma find_map: "find P (map f ys) = map_option f (find (P \<circ> f) ys)"
  by (induction ys) auto

lemma find_map_nth: "find P xs = map_option ((!) xs) (find (\<lambda>j. P (xs ! j)) [0..<length xs])"
  using find_map [of P "(!) xs" "[0..<length xs]"] by (simp add: map_nth comp_def)

lemma find_child_eq:
  assumes ok: "fs_ok s" and i: "i < used_nodes s" and nm: "terminated nm"
  shows "find_child s (node s i) nm = Some (named_child s i (cstr nm))"
proof -
  let ?n = "unat (vn_child_count (node s i))" and ?key = "child_key s (node s i)"
  have key: "\<exists>k. ?key j = Some (vn_name (node s k)) \<and> kids s i ! j = Some k \<and> terminated (vn_name (node s k))
      \<and> array_get (vn_children (node s i)) j = Some (Some k)" if j: "j < ?n" for j
  proof -
    obtain k where k: "k < used_nodes s" "array_get (vn_children (node s i)) j = Some (Some k)" "kids s i ! j = Some k"
      by (rule kidsE [OF ok i j])
    then show ?thesis using get_node [OF ok] fs_okD(3,6) [OF ok, of k] by (simp add: child_key_def node_wf_def)
  qed
  have len: "length (kids s i) = ?n" using length_kids ok i fs_okD(6) by metis
  have "find_named ?key nm 0 ?n = Some (find (key_is ?key nm) [0..<0 + ?n])"
    using key nm by (intro find_named_eq) (simp, metis add_0)
  moreover have "key_is ?key nm j \<longleftrightarrow> fst (entry_of s (kids s i ! j)) = cstr nm" if "j < ?n" for j
    using key [OF that] by (auto simp: key_is_def entry_of_def)
  then have "find (key_is ?key nm) [0..<?n] = find (\<lambda>j. fst (entry_of s (kids s i ! j)) = cstr nm) [0..<?n]"
    by (intro find_cong) auto
  moreover have "named_child s i (cstr nm) =
      Option.bind (find (\<lambda>j. fst (entry_of s (kids s i ! j)) = cstr nm) [0..<?n]) (\<lambda>j. kids s i ! j)"
    unfolding named_child_def by (subst find_map_nth) (simp add: len map_option_case split: option.split)
  moreover have "array_get (vn_children (node s i)) j = Some (kids s i ! j)" if "j < ?n" for j
    using key [OF that] by auto
  ultimately show ?thesis
  proof (cases "find (\<lambda>j. fst (entry_of s (kids s i ! j)) = cstr nm) [0..<?n]")
    case (Some j)
    then have "j < ?n" by (simp add: find_upt_Some)
    then show ?thesis using key [of j] Some
      \<open>find_named ?key nm 0 ?n = _\<close> \<open>find (key_is ?key nm) _ = _\<close> \<open>named_child s i _ = _\<close>
      by (auto simp: find_child_def)
  qed (simp add: find_child_def)
qed

text \<open>A name of one component, not one of the paths \<open>vfs_lookup\<close> treats apart.\<close>

definition plain_name :: "byte list \<Rightarrow> bool" where
  "plain_name n \<longleftrightarrow> n \<noteq> [] \<and> hd n \<noteq> of_char (CHR ''/'') \<and> n \<noteq> lit ''.'' \<and> n \<noteq> lit ''..''"

lemma strcmp_zero:
  assumes "terminated a" "terminated b"
  obtains r where "strcmp a b = Some r" "r = 0 \<longleftrightarrow> cstr a = cstr b"
  using strcmp_less_iff [OF assms] by blast

lemma clit_facts [simp]:
  "terminated (clit x)" "0 \<notin> set (lit x) \<Longrightarrow> cstr (clit x) = lit x"
  by (simp_all add: clit_def cstr_append_terminated)

lemma lit_consts [simp]: "lit [] = []" "lit (c # cs) = of_char c # lit cs"
  by (simp_all add: lit_def)

text \<open>What \<open>vfs_lookup\<close> computes, on every terminated path.\<close>

definition resolve :: "byte list \<Rightarrow> fs \<Rightarrow> nat option" where
  "resolve n s =
     (let cur = the (current_dir s)
      in if n = [] then None
         else if n = lit ''/'' then vfs_root s
         else if n = lit ''.'' then Some cur
         else if n = lit ''..'' then (if vn_parent (node s cur) \<noteq> None then vn_parent (node s cur) else Some cur)
         else named_child s cur (if hd n = of_char (CHR ''/'') then tl n else n))"

lemma vfs_lookup_eq:
  assumes ok: "fs_ok s" and p: "terminated p"
  shows "vfs_lookup (Some p) s = Some (resolve (cstr p) s)"
proof -
  obtain cur where cur: "current_dir s = Some cur" "cur < used_nodes s"
    "array_get (vnodes_pool s) cur = Some (node s cur)"
    by (rule current_dirE [OF ok])
  obtain c q where cq: "p = c # q" using p by (cases p) auto
  obtain r1 where r1: "strcmp p (clit ''/'') = Some r1" "r1 = 0 \<longleftrightarrow> cstr p = lit ''/''"
    using p by (rule strcmp_zero [of p "clit ''/''"]) auto
  obtain r2 where r2: "strcmp p (clit ''.'') = Some r2" "r2 = 0 \<longleftrightarrow> cstr p = lit ''.''"
    using p by (rule strcmp_zero [of p "clit ''.''"]) auto
  obtain r3 where r3: "strcmp p (clit ''..'') = Some r3" "r3 = 0 \<longleftrightarrow> cstr p = lit ''..''"
    using p by (rule strcmp_zero [of p "clit ''..''"]) auto
  show ?thesis
  proof (cases "c = 0")
    case True
    then show ?thesis using cq by (simp add: vfs_lookup_def resolve_def array_get_def)
  next
    case False
    let ?nm = "if c = of_char (CHR ''/'') then tl p else p"
    have t: "terminated ?nm" using p cq False by auto
    have n: "cstr ?nm = (if hd (cstr p) = of_char (CHR ''/'') then tl (cstr p) else cstr p)"
      using cq False by auto
    have "vfs_lookup (Some p) s =
        (if cstr p = lit ''/'' then Some (vfs_root s)
         else if cstr p = lit ''.'' then Some (Some cur)
         else if cstr p = lit ''..'' then Some (if vn_parent (node s cur) \<noteq> None then vn_parent (node s cur) else Some cur)
         else find_child s (node s cur) ?nm)"
      using cur(1,3) r1 r2 r3 cq False by (simp add: vfs_lookup_def array_get_def del: lit_consts)
    then show ?thesis
      using cur(1) False cq
      unfolding find_child_eq [OF ok cur(2) t] n resolve_def Let_def by (simp del: lit_consts)
  qed
qed

section \<open>Adding a node\<close>

text \<open>The next free node, made a child of a directory.\<close>

definition attach :: "nat \<Rightarrow> vnode \<Rightarrow> fs \<Rightarrow> fs" where
  "attach dir nd s =
     s\<lparr>vnodes_pool := (vnodes_pool s)[used_nodes s := nd, dir := (node s dir)\<lparr>
          vn_children := (vn_children (node s dir))[unat (vn_child_count (node s dir)) := Some (used_nodes s)],
          vn_child_count := vn_child_count (node s dir) + 1\<rparr>],
       vnodes_pool_used := vnodes_pool_used s + 1\<rparr>"

definition can_attach :: "nat \<Rightarrow> fs \<Rightarrow> bool" where
  "can_attach dir s \<longleftrightarrow> dir < used_nodes s \<and> vnodes_pool_used s < 64 \<and> vn_child_count (node s dir) < 16"

text \<open>A node as the creating operations leave it, before it is entered in its directory.\<close>

definition new_node :: "nat \<Rightarrow> vnode \<Rightarrow> bool" where
  "new_node dir nd \<longleftrightarrow> node_wf nd \<and> vn_parent nd = Some dir \<and> vn_child_count nd = 0"

lemma attach_fields:
  assumes ok: "fs_ok s" and c: "can_attach dir s"
  shows "node (attach dir nd s) i =
      (if i = dir then (node s dir)\<lparr>
          vn_children := (vn_children (node s dir))[unat (vn_child_count (node s dir)) := Some (used_nodes s)],
          vn_child_count := vn_child_count (node s dir) + 1\<rparr>
       else if i = used_nodes s then nd else node s i)"
    and "used_nodes (attach dir nd s) = Suc (used_nodes s)"
    and "vfs_root (attach dir nd s) = vfs_root s" "current_dir (attach dir nd s) = current_dir s"
    and "length (vnodes_pool (attach dir nd s)) = 64"
    and "unat (vn_child_count (node s dir) + 1) = Suc (unat (vn_child_count (node s dir)))"
proof -
  have u: "used_nodes s < 64" "unat (vn_child_count (node s dir)) < 16" "dir < used_nodes s"
    using c by (simp_all add: can_attach_def word_less_nat_alt)
  then show "node (attach dir nd s) i =
      (if i = dir then (node s dir)\<lparr>
          vn_children := (vn_children (node s dir))[unat (vn_child_count (node s dir)) := Some (used_nodes s)],
          vn_child_count := vn_child_count (node s dir) + 1\<rparr>
       else if i = used_nodes s then nd else node s i)"
    using fs_okD(1) [OF ok] by (auto simp: attach_def node_def)
  show "used_nodes (attach dir nd s) = Suc (used_nodes s)"
    using u by (simp add: attach_def unat_u32_plus)
  show "unat (vn_child_count (node s dir) + 1) = Suc (unat (vn_child_count (node s dir)))"
    using u by (simp add: unat_u32_plus)
qed (use fs_okD(1) [OF ok] in \<open>simp_all add: attach_def\<close>)

lemma attach_kids:
  assumes ok: "fs_ok s" and c: "can_attach dir s" and nd: "new_node dir nd" and i: "i \<le> used_nodes s"
  shows "kids (attach dir nd s) i =
      (if i = dir then kids s dir @ [Some (used_nodes s)] else if i = used_nodes s then [] else kids s i)"
proof -
  have "dir < 64" using c fs_okD(2) [OF ok] by (auto simp: can_attach_def)
  then have "node_wf (node s dir)" using fs_okD(3) [OF ok] by simp
  then have "unat (vn_child_count (node s dir)) < length (vn_children (node s dir))"
    using c by (simp add: can_attach_def word_less_nat_alt node_wf_def)
  then show ?thesis
    using nd unfolding kids_def attach_fields(1) [OF ok c]
    by (auto simp: attach_fields(6) [OF ok c] take_Suc_conv_app_nth new_node_def)
qed

lemma attach_ok [inv_intros]:
  assumes ok: "fs_ok s" and c: "can_attach dir s" and nd: "new_node dir nd"
  shows "fs_ok (attach dir nd s)"
proof -
  let ?s = "attach dir nd s"
  note f = attach_fields [OF ok c]
  have d: "dir < used_nodes s" "used_nodes s < 64" using c by (simp_all add: can_attach_def word_less_nat_alt)
  have w: "node_wf (node ?s i)" if "i < 64" for i
  proof (cases "i = dir")
    case True
    have "vn_child_count (node s dir) + 1 \<le> 16"
      using c f(6) by (simp add: can_attach_def word_le_nat_alt word_less_nat_alt)
    then show ?thesis using fs_okD(3) [OF ok that] True by (simp add: f(1) node_wf_def)
  qed (use fs_okD(3) [OF ok that] nd in \<open>simp add: f(1) new_node_def\<close>)
  have p: "vn_parent (node ?s k) = (if k = used_nodes s then Some dir else vn_parent (node s k))" if "k \<le> used_nodes s" for k
    using nd d by (simp add: f(1) new_node_def)
  have links: "node_links ?s i" if i: "i < Suc (used_nodes s)" for i
  proof -
    have k: "kids ?s i = (if i = dir then kids s dir @ [Some (used_nodes s)]
        else if i = used_nodes s then [] else kids s i)"
      using attach_kids [OF ok c nd] i by simp
    have old: "node_links s j" if "j < used_nodes s" for j using fs_okD(5) [OF ok that] .
    have mem: "Some (used_nodes s) \<notin> set (kids s dir)" using old [OF d(1)] by (auto simp: node_links_def)
    have c1: "distinct (kids ?s i)" using old [of i] old [OF d(1)] mem i k by (auto simp: node_links_def)
    have "\<exists>j < Suc (used_nodes s). x = Some j \<and> vn_parent (node ?s j) = Some i" if x: "x \<in> set (kids ?s i)" for x
    proof (cases "x = Some (used_nodes s)")
      case True
      have "i = dir"
      proof (rule ccontr)
        assume "i \<noteq> dir"
        then have "x \<in> set (kids s i)" "i < used_nodes s" using x i k by (auto split: if_splits)
        then show False using old [of i] True by (auto simp: node_links_def)
      qed
      with True show ?thesis using p [of "used_nodes s"] by auto
    next
      case False
      then have "x \<in> set (kids s i)" "i < used_nodes s" using x i k d by (auto split: if_splits)
      then obtain j where "j < used_nodes s" "x = Some j" "vn_parent (node s j) = Some i"
        using old [of i] by (auto simp: node_links_def)
      then show ?thesis using p [of j] by (intro exI [of _ j]) simp
    qed
    moreover have "q < i" if "vn_parent (node ?s i) = Some q" for q
      using that p [of i] i d old [of i] by (auto simp: node_links_def less_Suc_eq split: if_splits)
    ultimately show ?thesis using c1 by (auto simp: node_links_def f(2))
  qed
  have ptr: "dir_ptr ?s q" if "dir_ptr s q" for q
    using that d by (auto simp: dir_ptr_def f(2) f(1) intro: less_SucI)
  have "vn_name (node ?s i) = replicate 32 0" if "i < 64" "Suc (used_nodes s) \<le> i" for i
    using that fs_okD(4) [OF ok, of i] d by (simp add: f(1))
  then show ?thesis
    using w links ptr ok d unfolding fs_ok_def f by auto
qed

lemma attach_list:
  assumes ok: "fs_ok s" and c: "can_attach dir s" and nd: "new_node dir nd"
  shows "dir_list (attach dir nd s) dir = dir_list s dir @ [(cstr (vn_name nd), vn_flags nd)]"
    and "dir_list s dir = map (entry_of (attach dir nd s)) (kids s dir)"
proof -
  have d: "dir < used_nodes s" "dir \<noteq> used_nodes s" using c by (auto simp: can_attach_def)
  have "entry_of (attach dir nd s) x = entry_of s x" if "x \<in> set (kids s dir)" for x
  proof -
    obtain k where "k < used_nodes s" "x = Some k"
      using fs_okD(5) [OF ok d(1)] \<open>x \<in> set (kids s dir)\<close> by (auto simp: node_links_def)
    then show ?thesis by (auto simp: entry_of_def attach_fields(1) [OF ok c])
  qed
  then show "dir_list s dir = map (entry_of (attach dir nd s)) (kids s dir)"
    by (simp add: dir_list_def)
  then show "dir_list (attach dir nd s) dir = dir_list s dir @ [(cstr (vn_name nd), vn_flags nd)]"
    using d attach_kids [OF ok c nd, of dir]
    by (simp add: dir_list_def entry_of_def attach_fields(1) [OF ok c])
qed

section \<open>Creating\<close>

lemma get_update:
  assumes "fs_ok s" "i < 64"
  shows "update_node i f s = Some (s\<lparr>vnodes_pool := (vnodes_pool s)[i := f (node s i)]\<rparr>)"
  using assms by (simp add: update_node_def get_node array_set_def fs_okD(1))

text \<open>The conditions under which \<open>mkdir\<close> and \<open>touch\<close> refuse a name.\<close>

definition blocked :: "byte list \<Rightarrow> fs \<Rightarrow> bool" where
  "blocked n s \<longleftrightarrow> n = [] \<or> vn_child_count (node s (the (current_dir s))) \<ge> 16 \<or> resolve n s \<noteq> None
     \<or> vnodes_pool_used s \<ge> 64"

definition made :: "byte list \<Rightarrow> u32 \<Rightarrow> nat \<Rightarrow> byte list option \<Rightarrow> vnode \<Rightarrow> vnode" where
  "made n kind dir content old =
     old\<lparr>vn_children := replicate 16 None, vn_name := n @ replicate (32 - length n) 0, vn_flags := kind,
         vn_parent := Some dir, vn_child_count := 0, vn_content := content\<rparr>"

lemma cstr_pad: "0 \<notin> set n \<Longrightarrow> cstr (n @ replicate k 0) = n"
  by (cases k) (simp_all add: cstr_append_terminated, induction n, auto)

lemma cstr_no_zero [simp]: "0 \<notin> set (cstr p)"
  using cstr_nonzero by blast

lemma made_new:
  "length (cstr p) < 32 \<Longrightarrow> kind \<in> {VFS_FILE, VFS_DIRECTORY} \<Longrightarrow> new_node dir (made (cstr p) kind dir c old)"
  by (auto simp: new_node_def node_wf_def made_def terminated_def)

lemma made_entry:
  "cstr (vn_name (made (cstr p) kind dir c old)) = cstr p" "vn_flags (made n kind dir c old) = kind"
  by (simp_all add: made_def cstr_pad)

lemma alloc_vnode_eq:
  assumes "fs_ok s"
  shows "alloc_vnode s =
      (if vnodes_pool_used s \<ge> 64 then Some (None, s)
       else Some (Some (used_nodes s), s\<lparr>vnodes_pool_used := vnodes_pool_used s + 1,
              vnodes_pool := (vnodes_pool s)[used_nodes s := (node s (used_nodes s))\<lparr>vn_name := replicate 32 0,
                vn_flags := 0, vn_parent := None, vn_child_count := 0, vn_content := None,
                vn_children := replicate 16 None\<rparr>]\<rparr>))"
proof (cases "vnodes_pool_used s \<ge> 64")
  case False
  then have u: "used_nodes s < 64" by (simp add: word_le_nat_alt)
  have "vn_name (node s (used_nodes s)) = replicate 32 0" using fs_okD(4) [OF assms u] by simp
  then show ?thesis
    using False u fs_okD(1) [OF assms]
    by (simp add: alloc_vnode_def Let_def update_node_def array_get_def array_set_def node_def list_update_same_conv
          numeral_eq_Suc)
qed (simp add: alloc_vnode_def)

text \<open>From the new node to its entry in the directory; \<open>f\<close> sets the fields the operations set.\<close>

lemma append_made:
  assumes ok: "fs_ok s" and d: "can_attach dir s"
  shows "append_child dir (used_nodes s)
      (s\<lparr>vnodes_pool_used := vnodes_pool_used s + 1, vnodes_pool := (vnodes_pool s)[used_nodes s := nd]\<rparr>)
    = Some (attach dir nd s)"
proof -
  have u: "used_nodes s < 64" "unat (vn_child_count (node s dir)) < 16" "dir < used_nodes s" "dir \<noteq> used_nodes s"
    using d by (auto simp: can_attach_def word_less_nat_alt)
  have "length (vn_children (node s dir)) = 16" using fs_okD(3) [OF ok, of dir] u by (simp add: node_wf_def)
  then show ?thesis
    using u fs_okD(1) [OF ok]
    by (simp add: append_child_def update_node_def array_get_def array_set_def attach_def node_def)
qed

lemma strcpy_fresh_name:
  "terminated p \<Longrightarrow> length (cstr p) < 32 \<Longrightarrow> strcpy (replicate 32 0) p = Some (cstr p @ replicate (32 - length (cstr p)) 0)"
  by (simp add: strcpy_eq)

lemma alloc_content_frame:
  obtains c pm m where "\<forall>s'. fs_pmm s' = fs_pmm s \<longrightarrow> fs_mem s' = fs_mem s \<longrightarrow>
       alloc_content s' = (c, s'\<lparr>fs_pmm := pm, fs_mem := m\<rparr>)"
    "\<forall>b. c = Some b \<longrightarrow> length b = 4096"
proof (cases "pmm_alloc_z 64 (fs_pmm s) (fs_mem s)")
  case (fields p pm m)
  then show thesis
    by (intro that [where c = "if p = 0 then None else Some (mem_read m p 4096)" and pm = pm and m = m])
       (auto simp: alloc_content_def)
qed

lemma no_path_eq: "terminated p \<Longrightarrow> no_path (Some p) = Some (cstr p = [])"
  by (cases p) (auto simp: no_path_def array_get_def)

definition created :: "byte list \<Rightarrow> u32 \<Rightarrow> fs \<Rightarrow> fs \<Rightarrow> bool" where
  "created n kind s s' \<longleftrightarrow>
     (\<exists>c pm m. s' = attach (the (current_dir s)) (made n kind (the (current_dir s)) c (node s (used_nodes s)))
                     (s\<lparr>fs_pmm := pm, fs_mem := m\<rparr>)
        \<and> (kind = VFS_DIRECTORY \<longrightarrow> c = None) \<and> (\<forall>b. c = Some b \<longrightarrow> length b = 4096 \<and> hd b = 0))"

lemma not_blocked_attach:
  assumes ok: "fs_ok s" and b: "\<not> blocked n s"
  shows "can_attach (the (current_dir s)) s"
  using b by (rule_tac current_dirE [OF ok]) (auto simp: can_attach_def blocked_def)

lemma k_mkdir_eq:
  assumes ok: "fs_ok s" and p: "terminated p" "length (cstr p) < 32"
  shows "\<exists>msg s'. k_mkdir (Some p) s = Some (if blocked (cstr p) s then (-1, fs_print msg s) else (0, s'))
           \<and> (blocked (cstr p) s \<or> created (cstr p) VFS_DIRECTORY s s')"
proof -
  obtain cur where cur: "current_dir s = Some cur" "cur < used_nodes s"
    "array_get (vnodes_pool s) cur = Some (node s cur)"
    by (rule current_dirE [OF ok])
  show ?thesis
  proof (cases "blocked (cstr p) s")
    case True
    then show ?thesis
      using cur no_path_eq [OF p(1)] vfs_lookup_eq [OF ok p(1)] alloc_vnode_eq [OF ok]
      by (auto simp: blocked_def k_mkdir_def)
  next
    case False
    have u: "used_nodes s < 64" using False by (simp add: blocked_def word_le_nat_alt)
    have a: "can_attach cur s" using not_blocked_attach [OF ok False] cur by simp
    let ?n = "made (cstr p) VFS_DIRECTORY cur None (node s (used_nodes s))"
    have "k_mkdir (Some p) s = Some (0, attach cur ?n s)"
      using False cur u no_path_eq [OF p(1)] vfs_lookup_eq [OF ok p(1)] alloc_vnode_eq [OF ok]
        fs_okD(1) [OF ok] strcpy_fresh_name [OF p] append_made [OF ok a, of ?n]
      by (simp add: blocked_def k_mkdir_def array_get_def update_node_def array_set_def made_def)
    moreover have "created (cstr p) VFS_DIRECTORY s (attach cur ?n s)"
      unfolding created_def using cur by (intro exI [of _ None] exI [of _ "fs_pmm s"] exI [of _ "fs_mem s"]) simp
    ultimately show ?thesis using False by auto
  qed
qed

lemma hd_set: "length z = 4096 \<Longrightarrow> hd (z[0 := 0]) = 0"
  by (cases z) auto

lemma k_touch_eq:
  assumes ok: "fs_ok s" and p: "terminated p" "length (cstr p) < 32"
  shows "\<exists>msg s'. k_touch (Some p) s = Some (if blocked (cstr p) s then (-1, fs_print msg s) else (0, s'))
           \<and> (blocked (cstr p) s \<or> created (cstr p) VFS_FILE s s')"
proof -
  obtain cur where cur: "current_dir s = Some cur" "cur < used_nodes s"
    "array_get (vnodes_pool s) cur = Some (node s cur)"
    by (rule current_dirE [OF ok])
  show ?thesis
  proof (cases "blocked (cstr p) s")
    case True
    then show ?thesis
      using cur no_path_eq [OF p(1)] vfs_lookup_eq [OF ok p(1)] alloc_vnode_eq [OF ok]
      by (auto simp: blocked_def k_touch_def)
  next
    case False
    have u: "used_nodes s < 64" using False by (simp add: blocked_def word_le_nat_alt)
    obtain c pm m where c: "\<forall>s'. fs_pmm s' = fs_pmm s \<longrightarrow> fs_mem s' = fs_mem s \<longrightarrow>
        alloc_content s' = (c, s'\<lparr>fs_pmm := pm, fs_mem := m\<rparr>)" "\<forall>b. c = Some b \<longrightarrow> length b = 4096"
      by (rule alloc_content_frame [of s])
    let ?s = "s\<lparr>fs_pmm := pm, fs_mem := m\<rparr>" and ?c = "map_option (\<lambda>c. c[0 := 0]) c"
    have a: "can_attach cur ?s" using not_blocked_attach [OF ok False] cur by (simp add: can_attach_def)
    let ?n = "made (cstr p) VFS_FILE cur ?c (node s (used_nodes s))"
    have order: "s\<lparr>vnodes_pool_used := v, fs_pmm := pm, fs_mem := m, vnodes_pool := q\<rparr>
        = s\<lparr>fs_pmm := pm, fs_mem := m, vnodes_pool_used := v, vnodes_pool := q\<rparr>" for v q
      by simp
    have app: "append_child cur (used_nodes s)
        (s\<lparr>vnodes_pool_used := vnodes_pool_used s + 1, fs_pmm := pm, fs_mem := m,
           vnodes_pool := (vnodes_pool s)[used_nodes s := ?n]\<rparr>) = Some (attach cur ?n ?s)"
      using append_made [OF _ a, of ?n] ok unfolding order by simp
    have "k_touch (Some p) s = Some (0, attach cur ?n ?s)"
      using False cur u no_path_eq [OF p(1)] vfs_lookup_eq [OF ok p(1)] alloc_vnode_eq [OF ok]
        fs_okD(1) [OF ok] strcpy_fresh_name [OF p] app
      by (simp add: blocked_def k_touch_def array_get_def update_node_def array_set_def made_def c(1))
    moreover have "created (cstr p) VFS_FILE s (attach cur ?n ?s)"
      unfolding created_def using cur c(2) hd_set
      by (intro exI [of _ ?c] exI [of _ pm] exI [of _ m]) (auto simp: hd_set)
    ultimately show ?thesis using False by auto
  qed
qed

lemma created_ok [inv_intros]:
  assumes ok: "fs_ok s" and n: "length (cstr p) < 32" "kind \<in> {VFS_FILE, VFS_DIRECTORY}"
    and b: "\<not> blocked (cstr p) s" and c: "created (cstr p) kind s s'"
  shows "fs_ok s'" "current_dir s' = current_dir s" "used_nodes s' = Suc (used_nodes s)"
    "dir_list s' (the (current_dir s)) = dir_list s (the (current_dir s)) @ [(cstr p, kind)]"
    "kids s' (the (current_dir s)) = kids s (the (current_dir s)) @ [Some (used_nodes s)]"
    "dir_list s (the (current_dir s)) = map (entry_of s') (kids s (the (current_dir s)))"
    "entry_of s' (Some (used_nodes s)) = (cstr p, kind)"
proof -
  obtain co pm m where s': "s' = attach (the (current_dir s))
      (made (cstr p) kind (the (current_dir s)) co (node s (used_nodes s))) (s\<lparr>fs_pmm := pm, fs_mem := m\<rparr>)"
    using c by (auto simp: created_def)
  let ?s = "s\<lparr>fs_pmm := pm, fs_mem := m\<rparr>" and ?d = "the (current_dir s)"
  let ?n = "made (cstr p) kind ?d co (node s (used_nodes s))"
  have ok': "fs_ok ?s" using ok by simp
  have a: "can_attach ?d ?s" using not_blocked_attach [OF ok b] by (simp add: can_attach_def)
  have new: "new_node ?d ?n" by (rule made_new [OF n])
  have l: "dir_list ?s = dir_list s" by (simp add: dir_list_def fun_eq_iff entry_of_def)
  have d: "?d < used_nodes s" using a by (simp add: can_attach_def)
  note f = attach_fields [OF ok' a]
  show "fs_ok s'" unfolding s' by (rule attach_ok [OF ok' a new])
  show "current_dir s' = current_dir s" "used_nodes s' = Suc (used_nodes s)" using f by (simp_all add: s')
  show "dir_list s' ?d = dir_list s ?d @ [(cstr p, kind)]"
    using attach_list(1) [OF ok' a new] by (simp add: s' l made_entry)
  show "kids s' ?d = kids s ?d @ [Some (used_nodes s)]"
    using attach_kids [OF ok' a new, of ?d] d by (simp add: s')
  show "dir_list s ?d = map (entry_of s') (kids s ?d)"
    using attach_list(2) [OF ok' a new] by (simp add: s' l)
  show "entry_of s' (Some (used_nodes s)) = (cstr p, kind)"
    using f(1) [where nd = ?n and i = "used_nodes s"] d by (simp add: s' entry_of_def made_entry)
qed

section \<open>Removing\<close>

definition drop_nth :: "nat \<Rightarrow> 'a list \<Rightarrow> 'a list" where
  "drop_nth i xs = take i xs @ drop (Suc i) xs"

lemma child_index_eq:
  "i + n \<le> length cs \<Longrightarrow> child_index cs x i n = Some (find (\<lambda>j. cs ! j = Some x) [i..<i + n])"
proof (induction n arbitrary: i)
  case (Suc n)
  have "[i..<i + Suc n] = i # [Suc i..<Suc i + n]" by (simp add: upt_conv_Cons del: upt_Suc)
  then show ?case using Suc.prems Suc.IH [of "Suc i"] by (simp add: array_get_def del: upt_Suc)
qed simp

lemma shift_children_eq:
  "j + n < length c \<Longrightarrow> shift_children j n c = Some (take j c @ take n (drop (Suc j) c) @ drop (j + n) c)"
proof (induction n arbitrary: j c)
  case (Suc n)
  let ?c = "c[j := c ! Suc j]"
  have s: "shift_children j (Suc n) c = shift_children (Suc j) n ?c"
    using Suc.prems by (simp add: array_get_def array_set_def)
  have "shift_children (Suc j) n ?c = Some (take (Suc j) ?c @ take n (drop (Suc (Suc j)) ?c) @ drop (Suc j + n) ?c)"
    using Suc.prems by (intro Suc.IH) simp
  moreover have "take (Suc j) ?c = take j c @ [c ! Suc j]" using Suc.prems by (simp add: take_Suc_conv_app_nth)
  moreover have "drop (Suc j) c = c ! Suc j # drop (Suc (Suc j)) c" using Suc.prems by (simp add: Cons_nth_drop_Suc)
  ultimately show ?case using s by simp
qed simp

text \<open>The removal of child number \<open>i\<close>, node \<open>k\<close>, of node \<open>q\<close>.\<close>

definition detach :: "nat \<Rightarrow> nat \<Rightarrow> nat \<Rightarrow> fs \<Rightarrow> fs" where
  "detach q i k s =
     (let d = node s q; n = unat (vn_child_count d) - 1 - i; cs = vn_children d
      in s\<lparr>vnodes_pool := (vnodes_pool s)[
           q := d\<lparr>vn_children := take i cs @ take n (drop (Suc i) cs) @ drop (i + n) cs,
                  vn_child_count := vn_child_count d - 1\<rparr>,
           k := (node s k)\<lparr>vn_content := None, vn_flags := 0, vn_parent := None, vn_child_count := 0,
                  vn_size := 0\<rparr>]\<rparr>)"

lemma detach_node:
  assumes ok: "fs_ok s" and k: "k < 64" "q < 64" "k \<noteq> q"
  shows "node (detach q i k s) j =
     (if j = k then (node s k)\<lparr>vn_content := None, vn_flags := 0, vn_parent := None, vn_child_count := 0, vn_size := 0\<rparr>
      else if j = q then (node s q)\<lparr>
         vn_children := (let n = unat (vn_child_count (node s q)) - 1 - i; cs = vn_children (node s q)
                         in take i cs @ take n (drop (Suc i) cs) @ drop (i + n) cs),
         vn_child_count := vn_child_count (node s q) - 1\<rparr>
      else node s j)"
  using k fs_okD(1) [OF ok] by (auto simp: detach_def node_def Let_def)

lemma detach_kids:
  assumes ok: "fs_ok s" and k: "k < 64" "q < 64" "k \<noteq> q" and i: "i < unat (vn_child_count (node s q))"
  shows "kids (detach q i k s) j = (if j = k then [] else if j = q then drop_nth i (kids s q) else kids s j)"
proof -
  have c: "unat (vn_child_count (node s q) - 1) = unat (vn_child_count (node s q)) - 1"
    using i by (simp add: unat_sub word_le_nat_alt)
  have "unat (vn_child_count (node s q)) \<le> length (vn_children (node s q))"
    using fs_okD(3) [OF ok k(2)] by (simp add: node_wf_def word_le_nat_alt)
  moreover have "i = unat (vn_child_count (node s q)) - 1" if "unat (vn_child_count (node s q)) - 1 \<le> i"
    using that i by simp
  ultimately show ?thesis
    using i unfolding kids_def detach_node [OF ok k]
    by (auto simp: c Let_def drop_nth_def take_drop min_def)
qed

lemma drop_nth_set: "set (drop_nth i xs) \<subseteq> set xs"
  by (auto simp: drop_nth_def dest: in_set_takeD in_set_dropD)

lemma drop_nth_distinct:
  assumes "distinct xs" "i < length xs"
  shows "distinct (drop_nth i xs)" "xs ! i \<notin> set (drop_nth i xs)"
  using assms id_take_nth_drop [OF assms(2)] distinct_append [of "take i xs" "xs ! i # drop (Suc i) xs"]
  by (auto simp: drop_nth_def)

lemma detach_ok [inv_intros]:
  assumes ok: "fs_ok s" and k: "k < used_nodes s" "vn_flags (node s k) \<noteq> VFS_DIRECTORY"
    and q: "vn_parent (node s k) = Some q" and i: "i < length (kids s q)" "kids s q ! i = Some k"
  shows "fs_ok (detach q i k s)"
proof -
  let ?s = "detach q i k s"
  have qk: "q < k" using fs_okD(5) [OF ok k(1)] q by (auto simp: node_links_def)
  have b: "k < 64" "q < 64" "k \<noteq> q" "q < used_nodes s" using qk k fs_okD(6) [OF ok] by auto
  have i': "i < unat (vn_child_count (node s q))" using i length_kids [OF ok b(2)] by simp
  note n = detach_node [OF ok b(1-3), of i] and kd = detach_kids [OF ok b(1-3) i']
  have u: "used_nodes ?s = used_nodes s" "vfs_root ?s = vfs_root s" "current_dir ?s = current_dir s"
    "length (vnodes_pool ?s) = 64"
    using fs_okD(1) [OF ok] by (simp_all add: detach_def Let_def)
  have w: "node_wf (node ?s j)" if "j < 64" for j
  proof -
    have "vn_child_count (node s q) - 1 \<le> 16"
      using i' fs_okD(3) [OF ok b(2)] by (auto simp: node_wf_def word_le_nat_alt unat_sub)
    moreover have "unat (vn_child_count (node s q)) \<le> 16"
      using fs_okD(3) [OF ok b(2)] by (simp add: node_wf_def word_le_nat_alt)
    ultimately show ?thesis
      using fs_okD(3) [OF ok that] fs_okD(3) [OF ok b(1)] fs_okD(3) [OF ok b(2)] i'
      unfolding n by (auto simp: node_wf_def Let_def)
  qed
  have links: "node_links ?s j" if j: "j < used_nodes s" for j
  proof -
    have l: "node_links s j" "node_links s q" using fs_okD(5) [OF ok] j b by auto
    have sub: "set (kids ?s j) \<subseteq> set (kids s j)"
      using drop_nth_set [of i "kids s q"] by (simp add: kd)
    have nk: "Some k \<notin> set (kids ?s j)"
    proof (cases "j = q")
      case True
      then show ?thesis using kd l(2) drop_nth_distinct(2) [OF _ i(1)] i(2) b by (auto simp: node_links_def)
    next
      case False
      have "Some k \<notin> set (kids s j)" using l(1) q False by (auto simp: node_links_def)
      then show ?thesis using sub by auto
    qed
    have "distinct (kids ?s j)" using l kd drop_nth_distinct(1) [OF _ i(1)] by (auto simp: node_links_def)
    moreover have "\<exists>c < used_nodes s. x = Some c \<and> vn_parent (node ?s c) = Some j" if x: "x \<in> set (kids ?s j)" for x
    proof -
      have "x \<in> set (kids s j)" "x \<noteq> Some k" using x sub nk by auto
      then obtain c where "c < used_nodes s" "x = Some c" "vn_parent (node s c) = Some j" "c \<noteq> k"
        using l(1) by (auto simp: node_links_def)
      then show ?thesis by (intro exI [of _ c]) (auto simp: n)
    qed
    moreover have "p < j" if "vn_parent (node ?s j) = Some p" for p
      using that l(1) by (auto simp: n node_links_def split: if_splits)
    ultimately show ?thesis by (auto simp: node_links_def u)
  qed
  have "dir_ptr ?s d" if "dir_ptr s d" for d using that k(2) by (auto simp: dir_ptr_def u n)
  moreover have "vn_name (node ?s j) = replicate 32 0" if "j < 64" "used_nodes s \<le> j" for j
    using that fs_okD(4) [OF ok that] b k by (simp add: n)
  ultimately show ?thesis using w links ok unfolding fs_ok_def u by auto
qed

lemma detach_list:
  assumes ok: "fs_ok s" and k: "k < used_nodes s" and q: "vn_parent (node s k) = Some q"
    and i: "i < length (kids s q)" "kids s q ! i = Some k"
  shows "dir_list (detach q i k s) q = drop_nth i (dir_list s q)"
proof -
  have qk: "q < k" using fs_okD(5) [OF ok k] q by (auto simp: node_links_def)
  have b: "k < 64" "q < 64" "k \<noteq> q" "q < used_nodes s" using qk k fs_okD(6) [OF ok] by auto
  have i': "i < unat (vn_child_count (node s q))" using i length_kids [OF ok b(2)] by simp
  have dq: "distinct (kids s q)" using fs_okD(5) [OF ok b(4)] by (simp add: node_links_def)
  have "entry_of (detach q i k s) x = entry_of s x" if x: "x \<in> set (drop_nth i (kids s q))" for x
  proof -
    have "x \<in> set (kids s q)" "x \<noteq> Some k"
      using x drop_nth_set [of i "kids s q"] drop_nth_distinct(2) [OF dq i(1)] i(2) by auto
    then obtain c where "x = Some c" "c \<noteq> k" using fs_okD(5) [OF ok b(4)] by (auto simp: node_links_def)
    then show ?thesis by (auto simp: entry_of_def detach_node [OF ok b(1-3)])
  qed
  then have "dir_list (detach q i k s) q = map (entry_of s) (drop_nth i (kids s q))"
    using detach_kids [OF ok b(1-3) i', of q] b(3) by (simp add: dir_list_def)
  then show ?thesis by (simp add: dir_list_def drop_nth_def take_map drop_map)
qed

lemma resolve_used:
  assumes ok: "fs_ok s" and r: "resolve n s = Some k"
  shows "k < used_nodes s"
proof -
  obtain cur where cur: "current_dir s = Some cur" "cur < used_nodes s" by (rule current_dirE [OF ok])
  have "k < used_nodes s" if "named_child s cur m = Some k" for m
  proof -
    have "Some k \<in> set (kids s cur)"
      using that by (auto simp: named_child_def find_Some_iff split: option.splits bind_splits)
    then show ?thesis using fs_okD(5) [OF ok cur(2)] by (auto simp: node_links_def)
  qed
  moreover have "p < used_nodes s" if "vn_parent (node s cur) = Some p" for p
    using that fs_okD(5) [OF ok cur(2)] cur(2) by (auto simp: node_links_def)
  ultimately show ?thesis
    using r cur ok by (auto simp: resolve_def Let_def fs_ok_def dir_ptr_def split: if_splits)
qed

definition unlinkable :: "byte list \<Rightarrow> fs \<Rightarrow> nat \<Rightarrow> nat \<Rightarrow> nat \<Rightarrow> bool" where
  "unlinkable n s k q i \<longleftrightarrow> resolve n s = Some k \<and> vn_flags (node s k) = VFS_FILE \<and> vn_parent (node s k) = Some q
     \<and> i < length (kids s q) \<and> kids s q ! i = Some k"

lemma unlinkable_unique:
  assumes "fs_ok s" "unlinkable n s k q i" "unlinkable n s k' q' j"
  shows "k' = k" "q' = q" "j = i"
proof -
  show k: "k' = k" "q' = q" using assms by (auto simp: unlinkable_def)
  have "q < used_nodes s"
    using assms fs_okD(5) [OF assms(1) resolve_used [OF assms(1)]] resolve_used [OF assms(1)]
    by (fastforce simp: unlinkable_def node_links_def)
  then have "distinct (kids s q)" using fs_okD(5) [OF assms(1)] by (simp add: node_links_def)
  then show "j = i" using assms k nth_eq_iff_index_eq [of "kids s q" j i] by (simp add: unlinkable_def)
qed

lemma k_unlink_eq:
  assumes ok: "fs_ok s" and p: "terminated p"
  shows "(\<exists>k q i. unlinkable (cstr p) s k q i \<and> k_unlink (Some p) s = Some (0, detach q i k s))
     \<or> ((\<nexists>k q i. unlinkable (cstr p) s k q i) \<and> k_unlink (Some p) s = Some (-1, s))"
proof (cases "cstr p = [] \<or> resolve (cstr p) s = None")
  case True
  moreover have "resolve [] s = None" by (simp add: resolve_def)
  ultimately have r: "resolve (cstr p) s = None" by (elim disjE) simp_all
  then have "k_unlink (Some p) s = Some (-1, s)"
    using no_path_eq [OF p] vfs_lookup_eq [OF ok p] by (simp add: k_unlink_def)
  with r show ?thesis by (simp add: unlinkable_def)
next
  case False
  then obtain k where k: "resolve (cstr p) s = Some k" by auto
  then have ku: "k < used_nodes s" "k < 64" using resolve_used [OF ok] fs_okD(6) [OF ok] by auto
  have f: "vn_flags (node s k) AND 1 \<noteq> 0 \<longleftrightarrow> vn_flags (node s k) = 1"
    using fs_okD(3) [OF ok ku(2)] by (auto simp: node_wf_def)
  show ?thesis
  proof (cases "vn_flags (node s k) = 1 \<and> vn_parent (node s k) \<noteq> None")
    case False
    then show ?thesis using k \<open>\<not> (cstr p = [] \<or> _)\<close> no_path_eq [OF p] vfs_lookup_eq [OF ok p] get_node [OF ok ku(2)] f
      by (auto simp: k_unlink_def unlinkable_def)
  next
    case True
    then obtain q where q: "vn_parent (node s k) = Some q" by auto
    have qk: "q < k" using fs_okD(5) [OF ok ku(1)] q by (auto simp: node_links_def)
    have q': "q < 64" using qk ku by simp
    let ?cs = "vn_children (node s q)" and ?n = "unat (vn_child_count (node s q))"
    have n: "?n \<le> 16" "length ?cs = 16" "length (kids s q) = ?n"
      using fs_okD(3) [OF ok q'] length_kids [OF ok q'] by (auto simp: node_wf_def word_le_nat_alt)
    have ci: "child_index ?cs k 0 ?n = Some (find (\<lambda>j. ?cs ! j = Some k) [0..<?n])"
      using child_index_eq [of 0 ?n ?cs k] n by simp
    have kc: "kids s q ! j = ?cs ! j" if "j < ?n" for j using that by (simp add: kids_def)
    have run: "k_unlink (Some p) s =
        (case find (\<lambda>j. ?cs ! j = Some k) [0..<?n] of None \<Rightarrow> Some (-1, s)
         | Some i \<Rightarrow> do { cs \<leftarrow> shift_children i (?n - 1 - i) ?cs;
              s \<leftarrow> update_node q (\<lambda>p. p\<lparr>vn_children := cs, vn_child_count := vn_child_count p - 1\<rparr>) s;
              s \<leftarrow> update_node k (\<lambda>n. n\<lparr>vn_content := None, vn_flags := 0, vn_parent := None, vn_child_count := 0, vn_size := 0\<rparr>) s;
              Some (0, s) })"
      using k \<open>\<not> (cstr p = [] \<or> _)\<close> no_path_eq [OF p] vfs_lookup_eq [OF ok p] get_node [OF ok ku(2)] f True q
        get_node [OF ok q'] ci
      by (simp add: k_unlink_def split: option.split)
    show ?thesis
    proof (cases "find (\<lambda>j. ?cs ! j = Some k) [0..<?n]")
      case None
      then have "\<nexists>k' q' i. unlinkable (cstr p) s k' q' i"
        using k q n kc by (auto simp: unlinkable_def find_upt_None)
      with None show ?thesis using run by simp
    next
      case (Some i)
      then have i: "i < ?n" "?cs ! i = Some k" by (auto simp: find_upt_Some)
      have "unlinkable (cstr p) s k q i" using k q True i n kc by (simp add: unlinkable_def)
      moreover have "k_unlink (Some p) s = Some (0, detach q i k s)"
        using run Some i n ku(2) q' qk fs_okD(1) [OF ok]
        by (simp add: shift_children_eq update_node_def array_get_def array_set_def detach_def node_def Let_def)
      ultimately show ?thesis by blast
    qed
  qed
qed

section \<open>The operations on the listing\<close>

definition spec_create :: "u32 \<Rightarrow> byte list \<Rightarrow> bool \<Rightarrow> listing \<Rightarrow> int \<times> listing" where
  "spec_create kind n full l =
     (if n \<in> fst ` set l \<or> 16 \<le> length l \<or> full then (-1, l) else (0, l @ [(n, kind)]))"

definition listing_index :: "byte list \<Rightarrow> listing \<Rightarrow> nat option" where
  "listing_index n l = find (\<lambda>i. fst (l ! i) = n) [0..<length l]"

definition spec_unlink :: "byte list \<Rightarrow> listing \<Rightarrow> int \<times> listing" where
  "spec_unlink n l =
     (case listing_index n l of
        None \<Rightarrow> (-1, l)
      | Some i \<Rightarrow> if snd (l ! i) = VFS_FILE then (0, drop_nth i l) else (-1, l))"

lemma length_dir_list: "fs_ok s \<Longrightarrow> i < 64 \<Longrightarrow> length (dir_list s i) = unat (vn_child_count (node s i))"
  by (simp add: dir_list_def length_kids)

lemma named_child_index:
  "named_child s i n = Option.bind (listing_index n (dir_list s i)) (\<lambda>j. kids s i ! j)"
proof -
  have "listing_index n (dir_list s i) = find (\<lambda>j. fst (entry_of s (kids s i ! j)) = n) [0..<length (kids s i)]"
    unfolding listing_index_def by (rule find_cong) (auto simp: dir_list_def)
  then show ?thesis
    unfolding named_child_def by (subst find_map_nth) (simp split: option.split bind_split)
qed

lemma named_child_None:
  assumes "fs_ok s" "i < used_nodes s"
  shows "named_child s i n = None \<longleftrightarrow> n \<notin> fst ` set (dir_list s i)"
proof -
  have "named_child s i n = None \<longleftrightarrow> find (\<lambda>c. fst (entry_of s c) = n) (kids s i) = None"
  proof (cases "find (\<lambda>c. fst (entry_of s c) = n) (kids s i)")
    case (Some c)
    then have "c \<in> set (kids s i)" by (auto simp: find_Some_iff)
    then show ?thesis using fs_okD(5) [OF assms] Some by (auto simp: node_links_def named_child_def)
  qed (simp add: named_child_def)
  then show ?thesis by (auto simp: find_None_iff dir_list_def)
qed

lemma resolve_plain: "plain_name n \<Longrightarrow> resolve n s = named_child s (the (current_dir s)) n"
  by (auto simp: resolve_def plain_name_def Let_def)

lemma blocked_plain:
  assumes ok: "fs_ok s" and n: "plain_name n" and cur: "current_dir s = Some cur"
  shows "blocked n s \<longleftrightarrow> n \<in> fst ` set (dir_list s cur) \<or> 16 \<le> length (dir_list s cur) \<or> vnodes_pool_used s \<ge> 64"
proof -
  have c: "cur < used_nodes s" "cur < 64" using current_dirE [OF ok] cur by (metis option.inject)+
  show ?thesis
    using n cur length_dir_list [OF ok c(2)] named_child_None [OF ok c(1), of n]
    by (auto simp: blocked_def resolve_plain word_le_nat_alt plain_name_def)
qed

lemma create_refines:
  assumes ok: "fs_ok s" and p: "length (cstr p) < 32" "plain_name (cstr p)" "kind \<in> {VFS_FILE, VFS_DIRECTORY}"
    and cur: "current_dir s = Some cur"
    and r: "op = Some (if blocked (cstr p) s then (-1, fs_print msg s) else (0, s'))
       \<and> (blocked (cstr p) s \<or> created (cstr p) kind s s')"
  shows "map_option (\<lambda>(r, s'). (r, dir_list s' cur)) op =
      Some (spec_create kind (cstr p) (vnodes_pool_used s \<ge> 64) (dir_list s cur))"
proof (cases "blocked (cstr p) s")
  case True
  have "dir_list (fs_print msg s) cur = dir_list s cur" by (simp add: fs_print_def dir_list_def entry_of_def)
  then show ?thesis using True r blocked_plain [OF ok p(2) cur] by (auto simp: spec_create_def)
next
  case False
  then show ?thesis
    using r blocked_plain [OF ok p(2) cur] created_ok(4) [OF ok p(1,3) False] cur by (auto simp: spec_create_def)
qed

lemma unlink_refines:
  assumes ok: "fs_ok s" and p: "terminated p" "plain_name (cstr p)" and cur: "current_dir s = Some cur"
  shows "map_option (\<lambda>(r, s'). (r, dir_list s' cur)) (k_unlink (Some p) s) =
      Some (spec_unlink (cstr p) (dir_list s cur))"
proof -
  let ?l = "dir_list s cur"
  have c: "cur < used_nodes s" "cur < 64" using current_dirE [OF ok] cur by (metis option.inject)+
  have res: "resolve (cstr p) s = Option.bind (listing_index (cstr p) ?l) (\<lambda>j. kids s cur ! j)"
    using p cur by (simp add: resolve_plain named_child_index)
  have len: "length (kids s cur) = length ?l" by (simp add: dir_list_def)
  show ?thesis
  proof (cases "listing_index (cstr p) ?l")
    case None
    then have "\<nexists>k q i. unlinkable (cstr p) s k q i" using res by (simp add: unlinkable_def)
    then show ?thesis using k_unlink_eq [OF ok p(1)] None by (auto simp: spec_unlink_def)
  next
    case (Some i)
    then have i: "i < length (kids s cur)" by (simp add: listing_index_def find_upt_Some len)
    then have "kids s cur ! i \<in> set (kids s cur)" by simp
    then obtain k where k: "k < used_nodes s" "kids s cur ! i = Some k" "vn_parent (node s k) = Some cur"
      using fs_okD(5) [OF ok c(1)] by (auto simp: node_links_def)
    have e: "snd (?l ! i) = vn_flags (node s k)" using i k by (simp add: dir_list_def entry_of_def)
    have r: "resolve (cstr p) s = Some k" using res Some k by simp
    show ?thesis
    proof (cases "vn_flags (node s k) = VFS_FILE")
      case True
      then have u: "unlinkable (cstr p) s k cur i" using r k i by (simp add: unlinkable_def)
      then have "k_unlink (Some p) s = Some (0, detach cur i k s)"
        using k_unlink_eq [OF ok p(1)] unlinkable_unique [OF ok u] by metis
      then show ?thesis using detach_list [OF ok k(1,3) i k(2)] Some e True by (simp add: spec_unlink_def)
    next
      case False
      then have "\<nexists>k q i. unlinkable (cstr p) s k q i" using r by (auto simp: unlinkable_def)
      then show ?thesis using k_unlink_eq [OF ok p(1)] Some e False by (auto simp: spec_unlink_def)
    qed
  qed
qed

section \<open>A directory as a map from names to nodes\<close>

text \<open>
  The table of a directory: each name with the node it stands for and the node's kind, in the order of
  \<open>children\<close>. A name is looked up by its first entry.
\<close>

type_synonym table = "(byte list \<times> nat \<times> u32) list"

definition dir_table :: "fs \<Rightarrow> nat \<Rightarrow> table" where
  "dir_table s i = map (\<lambda>c. (fst (entry_of s c), the c, snd (entry_of s c))) (kids s i)"

definition spec_enter :: "u32 \<Rightarrow> byte list \<Rightarrow> nat \<Rightarrow> bool \<Rightarrow> table \<Rightarrow> int \<times> table" where
  "spec_enter kind n k full t =
     (if map_of t n \<noteq> None \<or> 16 \<le> length t \<or> full then (-1, t) else (0, t @ [(n, k, kind)]))"

definition spec_remove :: "byte list \<Rightarrow> table \<Rightarrow> int \<times> table" where
  "spec_remove n t =
     (case map_of t n of
        None \<Rightarrow> (-1, t)
      | Some (k, f) \<Rightarrow> if f = VFS_FILE then (0, remove1 (n, k, f) t) else (-1, t))"

lemma dir_table_zip:
  "dir_table s i = map (\<lambda>(c, n, f). (n, the c, f)) (zip (kids s i) (dir_list s i))"
  by (simp add: dir_table_def dir_list_def zip_map2 zip_same_conv_map case_prod_beta)

lemma dir_table_names: "map fst (dir_table s i) = map fst (dir_list s i)" "length (dir_table s i) = length (dir_list s i)"
  by (simp_all add: dir_table_def dir_list_def)

lemma length_dir_kids: "length (kids s i) = length (dir_list s i)"
  by (simp add: dir_list_def)

lemma dir_table_nth:
  "j < length (kids s i) \<Longrightarrow> dir_table s i ! j = (fst (dir_list s i ! j), the (kids s i ! j), snd (dir_list s i ! j))"
  by (simp add: dir_table_def dir_list_def)

lemma map_of_index:
  assumes "map fst t = map fst l"
  shows "map_of t n = map_option (\<lambda>i. snd (t ! i)) (listing_index n l)"
proof -
  have "length l = length t" using map_eq_imp_length_eq [OF assms] by simp
  moreover have "fst (t ! i) = fst (l ! i)" if "i < length t" for i
    using that assms calculation by (metis nth_map)
  ultimately have "listing_index n l = find (\<lambda>i. fst (t ! i) = n) [0..<length t]"
    unfolding listing_index_def by (intro find_cong) auto
  moreover have "map_of t n = map_option snd (find (\<lambda>e. fst e = n) t)" by (induction t) auto
  ultimately show ?thesis by (subst (asm) find_map_nth) (simp add: option.map_comp o_def)
qed

lemmas dir_map_of = map_of_index [OF dir_table_names(1)]

lemma drop_nth_remove1: "distinct xs \<Longrightarrow> i < length xs \<Longrightarrow> drop_nth i xs = remove1 (xs ! i) xs"
proof -
  assume d: "distinct xs" "i < length xs"
  have x: "xs = take i xs @ xs ! i # drop (Suc i) xs" using d(2) by (simp add: id_take_nth_drop)
  have "xs ! i \<notin> set (take i xs)" using d by (metis x distinct_append disjoint_insert(1) list.simps(15))
  then have "remove1 (xs ! i) (take i xs @ xs ! i # drop (Suc i) xs) = drop_nth i xs"
    by (simp add: remove1_append drop_nth_def)
  then show ?thesis using x by simp
qed

lemma lookup_table:
  assumes ok: "fs_ok s" and cur: "current_dir s = Some cur" and p: "terminated p" "plain_name (cstr p)"
  shows "vfs_lookup (Some p) s = Some (map_option fst (map_of (dir_table s cur) (cstr p)))"
proof -
  have c: "cur < used_nodes s" using current_dirE [OF ok] cur by (metis option.inject)
  have "kids s cur ! j = Some (the (kids s cur ! j))" if "j < length (kids s cur)" for j
    using fs_okD(5) [OF ok c] nth_mem [OF that] by (auto simp: node_links_def)
  moreover have "length (kids s cur) = length (dir_list s cur)" by (simp add: dir_list_def)
  moreover have "j < length (dir_list s cur)" if "listing_index (cstr p) (dir_list s cur) = Some j" for j
    using that by (simp add: listing_index_def find_upt_Some)
  ultimately have "Option.bind (listing_index (cstr p) (dir_list s cur)) (\<lambda>j. kids s cur ! j)
      = map_option fst (map_of (dir_table s cur) (cstr p))"
    unfolding dir_map_of by (cases "listing_index (cstr p) (dir_list s cur)") (auto simp: dir_table_nth)
  then show ?thesis using vfs_lookup_eq [OF ok p(1)] p(2) cur by (simp add: resolve_plain named_child_index)
qed

lemma create_table:
  assumes ok: "fs_ok s" and p: "length (cstr p) < 32" "plain_name (cstr p)" "kind \<in> {VFS_FILE, VFS_DIRECTORY}"
    and cur: "current_dir s = Some cur"
    and r: "op = Some (if blocked (cstr p) s then (-1, fs_print msg s) else (0, s'))
       \<and> (blocked (cstr p) s \<or> created (cstr p) kind s s')"
  shows "\<exists>r t. op = Some (r, t) \<and> fs_ok t \<and> current_dir t = Some cur \<and>
      (r, dir_table t cur) = spec_enter kind (cstr p) (used_nodes s) (vnodes_pool_used s \<ge> 64) (dir_table s cur)"
proof -
  have n: "map_of (dir_table s cur) (cstr p) = None \<longleftrightarrow> cstr p \<notin> fst ` set (dir_list s cur)"
    using dir_table_names(1) [of s cur] by (simp add: map_of_eq_None_iff flip: set_map)
  note bl = blocked_plain [OF ok p(2) cur]
  show ?thesis
  proof (cases "blocked (cstr p) s")
    case True
    have "dir_table (fs_print msg s) cur = dir_table s cur" by (simp add: fs_print_def dir_table_def entry_of_def)
    then show ?thesis using True r bl n ok cur
      by (auto simp: spec_enter_def dir_table_names(2) fs_print_def)
  next
    case False
    note c = created_ok [OF ok p(1,3) False]
    have "created (cstr p) kind s s'" using r False by simp
    note c = c [OF this]
    have "dir_table s' cur = dir_table s cur @ [(cstr p, used_nodes s, kind)]"
      unfolding dir_table_zip using c(4,5) cur zip_append [of "kids s cur" "dir_list s cur"]
      by (simp add: length_dir_kids)
    then show ?thesis using False r bl n c(1,2) cur by (auto simp: spec_enter_def dir_table_names(2))
  qed
qed

lemma unlink_table:
  assumes ok: "fs_ok s" and p: "terminated p" "plain_name (cstr p)" and cur: "current_dir s = Some cur"
  shows "\<exists>r t. k_unlink (Some p) s = Some (r, t) \<and> fs_ok t \<and> current_dir t = Some cur \<and>
      (r, dir_table t cur) = spec_remove (cstr p) (dir_table s cur)"
proof -
  let ?l = "dir_list s cur"
  have c: "cur < used_nodes s" "cur < 64" using current_dirE [OF ok] cur by (metis option.inject)+
  have dk: "distinct (kids s cur)" and ks: "\<And>x. x \<in> set (kids s cur) \<Longrightarrow> \<exists>k. x = Some k"
    using fs_okD(5) [OF ok c(1)] by (auto simp: node_links_def)
  then have dt: "distinct (dir_table s cur)"
    unfolding dir_table_def by (auto simp: distinct_map inj_on_def) (metis option.sel)
  have res: "resolve (cstr p) s = map_option fst (map_of (dir_table s cur) (cstr p))"
    using lookup_table [OF ok cur p] vfs_lookup_eq [OF ok p(1)] by simp
  show ?thesis
  proof (cases "\<exists>k q i. unlinkable (cstr p) s k q i")
    case True
    then obtain k q i where u: "unlinkable (cstr p) s k q i" by blast
    then have e: "k_unlink (Some p) s = Some (0, detach q i k s)"
      using k_unlink_eq [OF ok p(1)] unlinkable_unique [OF ok u] by metis
    have k: "k < used_nodes s" using u resolve_used [OF ok] by (auto simp: unlinkable_def)
    obtain j where j: "listing_index (cstr p) ?l = Some j" "j < length (kids s cur)" "kids s cur ! j = Some k"
      using u p cur by (auto simp: unlinkable_def resolve_plain named_child_index bind_eq_Some_conv
          listing_index_def find_upt_Some dir_list_def)
    have q: "q = cur" using fs_okD(5) [OF ok c(1)] nth_mem [OF j(2)] j(3) u by (auto simp: node_links_def unlinkable_def)
    have i: "i = j" using u j q dk nth_eq_iff_index_eq [OF dk, of i j] by (simp add: unlinkable_def)
    have b: "k < 64" "k \<noteq> cur" "q < k"
      using k fs_okD(6) [OF ok k] fs_okD(5) [OF ok k] u q by (auto simp: unlinkable_def node_links_def)
    have i': "i < unat (vn_child_count (node s cur))" using j(2) i length_kids [OF ok c(2)] by simp
    have zd: "zip (drop_nth i xs) (drop_nth i ys) = drop_nth i (zip xs ys)" if "length xs = length ys"
      for xs :: "nat option list" and ys :: listing
      using that by (simp add: drop_nth_def take_zip drop_zip)
    have "dir_table (detach cur i k s) cur = drop_nth i (dir_table s cur)"
      unfolding dir_table_zip detach_kids [OF ok b(1) c(2) b(2) i']
      using detach_list [OF ok k, of cur i] u q b(2) zd [of "kids s cur" "dir_list s cur"]
      by (simp add: unlinkable_def dir_list_def drop_nth_def take_map drop_map)
    then have t: "dir_table (detach cur i k s) cur = remove1 (dir_table s cur ! i) (dir_table s cur)"
      using drop_nth_remove1 [OF dt, of i] j(2) i by (simp add: dir_table_def)
    have n: "dir_table s cur ! i = (cstr p, k, VFS_FILE)" "map_of (dir_table s cur) (cstr p) = Some (k, VFS_FILE)"
      using j i u by (auto simp: dir_map_of dir_table_nth unlinkable_def listing_index_def find_upt_Some dir_list_def entry_of_def)
    have "fs_ok (detach cur i k s)" using detach_ok [OF ok k, of cur i] u q by (simp add: unlinkable_def)
    moreover have "current_dir (detach cur i k s) = Some cur" using cur by (simp add: detach_def Let_def)
    ultimately show ?thesis using e t n q by (simp add: spec_remove_def)
  next
    case False
    then have e: "k_unlink (Some p) s = Some (-1, s)" using k_unlink_eq [OF ok p(1)] by blast
    have "f \<noteq> VFS_FILE" if m: "map_of (dir_table s cur) (cstr p) = Some (k, f)" for k f
    proof
      assume "f = VFS_FILE"
      obtain j where j: "j < length (kids s cur)" "dir_table s cur ! j = (cstr p, k, f)"
        using map_of_SomeD [OF m] by (auto simp: in_set_conv_nth dir_table_def)
      then have "kids s cur ! j = Some k" using ks nth_mem [OF j(1)] by (fastforce simp: dir_table_nth)
      moreover have "vn_parent (node s k) = Some cur" "vn_flags (node s k) = f"
        using calculation j fs_okD(5) [OF ok c(1)] nth_mem [OF j(1)]
        by (auto simp: node_links_def dir_table_nth dir_list_def entry_of_def)
      ultimately have "unlinkable (cstr p) s k cur j" using res m j(1) \<open>f = VFS_FILE\<close> by (simp add: unlinkable_def)
      with False show False by blast
    qed
    then have "spec_remove (cstr p) (dir_table s cur) = (-1, dir_table s cur)"
      by (auto simp: spec_remove_def split: option.split)
    with e ok cur show ?thesis by simp
  qed
qed

section \<open>Contents\<close>

text \<open>The content of a file is a buffer of at least 64 bytes with a terminator in the first 64.\<close>

definition buffer_ok :: "byte list \<Rightarrow> bool" where
  "buffer_ok c \<longleftrightarrow> 64 \<le> length c \<and> terminated (take 64 c)"

definition texts_ok :: "fs \<Rightarrow> bool" where
  "texts_ok s \<longleftrightarrow> (\<forall>i < used_nodes s. vn_flags (node s i) = VFS_FILE \<longrightarrow>
     (\<forall>c. vn_content (node s i) = Some c \<longrightarrow> buffer_ok c))"

definition set_file :: "nat \<Rightarrow> byte list option \<Rightarrow> u32 \<Rightarrow> fs \<Rightarrow> fs" where
  "set_file i c sz s = s\<lparr>vnodes_pool := (vnodes_pool s)[i := (node s i)\<lparr>vn_content := c, vn_size := sz\<rparr>]\<rparr>"

lemma set_file_node:
  assumes "fs_ok s" "i < 64"
  shows "node (set_file i c sz s) j = (if j = i then (node s i)\<lparr>vn_content := c, vn_size := sz\<rparr> else node s j)"
  using assms fs_okD(1) [OF assms(1)] by (auto simp: set_file_def node_def)

lemma set_file_frame:
  assumes "fs_ok s" "i < 64"
  shows "fs_ok (set_file i c sz s)" "kids (set_file i c sz s) = kids s" "current_dir (set_file i c sz s) = current_dir s"
    "used_nodes (set_file i c sz s) = used_nodes s" "resolve n (set_file i c sz s) = resolve n s"
    "entry_of (set_file i c sz s) = entry_of s"
proof -
  note nd = set_file_node [OF assms, of c sz]
  have f: "vfs_root (set_file i c sz s) = vfs_root s" "vnodes_pool_used (set_file i c sz s) = vnodes_pool_used s"
    "length (vnodes_pool (set_file i c sz s)) = length (vnodes_pool s)"
    by (simp_all add: set_file_def)
  show k: "kids (set_file i c sz s) = kids s" by (simp add: fun_eq_iff kids_def nd)
  show cd: "current_dir (set_file i c sz s) = current_dir s" by (simp add: set_file_def)
  show "used_nodes (set_file i c sz s) = used_nodes s" by (simp add: f)
  show e: "entry_of (set_file i c sz s) = entry_of s" by (simp add: fun_eq_iff entry_of_def nd)
  have p: "vn_parent (node (set_file i c sz s) j) = vn_parent (node s j)" for j by (simp add: nd)
  show "resolve n (set_file i c sz s) = resolve n s"
    unfolding resolve_def named_child_def Let_def k cd f e p ..
  have "node_wf (node (set_file i c sz s) j) = node_wf (node s j)" "vn_name (node (set_file i c sz s) j) = vn_name (node s j)"
    "vn_flags (node (set_file i c sz s) j) = vn_flags (node s j)" for j
    by (simp_all add: nd node_wf_def)
  then show "fs_ok (set_file i c sz s)"
    using assms(1) unfolding fs_ok_def node_links_def dir_ptr_def k cd f p by simp
qed

definition spliced :: "byte list \<Rightarrow> nat \<Rightarrow> byte list \<Rightarrow> nat \<Rightarrow> byte list" where
  "spliced c off data n = take off c @ take n data @ 0 # drop (Suc (off + n)) c"

lemma put_content_eq:
  assumes ok: "fs_ok s" and i: "i < 64" and c: "64 \<le> length c" and n: "unat off + unat n \<le> 63" "unat n \<le> length data"
  shows "put_content i c off data n s = Some (set_file i (Some (spliced c (unat off) data (unat n))) (off + n) s)"
proof -
  have u: "unat (off + n) = unat off + unat n" using n by (simp add: unat_u32_plus)
  have "(take (unat off) c @ take (unat n) data @ drop (unat n) (drop (unat off) c))[unat off + unat n := 0]
      = spliced c (unat off) data (unat n)"
    using c n by (simp add: spliced_def list_update_append min_absorb2 add.commute [of "unat n"]
        Cons_nth_drop_Suc [symmetric])
  moreover have "unat n < length c - unat off" using c n by linarith
  ultimately show ?thesis
    using c n ok i by (simp add: put_content_def memcpy_eq array_set_def u get_update set_file_def)
qed

lemma spliced_ok: "64 \<le> length c \<Longrightarrow> off + n \<le> 63 \<Longrightarrow> n \<le> length data \<Longrightarrow> buffer_ok (spliced c off data n)"
  by (auto simp: buffer_ok_def spliced_def take_Cons' min_def)

lemma spliced_cstr:
  "0 \<notin> set (take off c) \<Longrightarrow> 0 \<notin> set (take n data) \<Longrightarrow> cstr (spliced c off data n) = take off c @ take n data"
  using cstr_append_terminated [of "take off c @ take n data"] by (simp add: spliced_def)

lemma texts_set_file:
  assumes "fs_ok s" "texts_ok s" "i < 64" "\<And>b. c = Some b \<Longrightarrow> buffer_ok b"
  shows "texts_ok (set_file i c sz s)"
  using assms(2,4) unfolding texts_ok_def set_file_frame(4) [OF assms(1,3)] set_file_node [OF assms(1,3)]
  by auto

lemma lookup_flagged_file:
  assumes ok: "fs_ok s" and p: "terminated p"
  shows "lookup_flagged (Some p) VFS_FILE s =
    Some (case resolve (cstr p) s of None \<Rightarrow> None
          | Some i \<Rightarrow> if vn_flags (node s i) = VFS_FILE then Some (i, node s i) else None)"
proof (cases "resolve (cstr p) s")
  case (Some i)
  then have i: "i < 64" using resolve_used [OF ok] fs_okD(6) [OF ok] by auto
  have "vn_flags (node s i) AND 1 = 0 \<longleftrightarrow> vn_flags (node s i) \<noteq> 1"
    using fs_okD(3) [OF ok i] by (auto simp: node_wf_def)
  then show ?thesis using Some by (simp add: lookup_flagged_def vfs_lookup_eq [OF ok p] get_node [OF ok i])
qed (simp add: lookup_flagged_def vfs_lookup_eq [OF ok p])

text \<open>The file a path names.\<close>

definition file_at :: "byte list \<Rightarrow> fs \<Rightarrow> nat \<Rightarrow> bool" where
  "file_at n s i \<longleftrightarrow> resolve n s = Some i \<and> vn_flags (node s i) = VFS_FILE"

lemma lookup_file_at:
  assumes ok: "fs_ok s" and p: "terminated p"
  shows "lookup_flagged (Some p) VFS_FILE s =
    Some (if \<exists>i. file_at (cstr p) s i then Some (the (resolve (cstr p) s), node s (the (resolve (cstr p) s))) else None)"
  using lookup_flagged_file [OF assms] by (auto simp: file_at_def split: option.split)

lemma file_at_bound: "fs_ok s \<Longrightarrow> file_at n s i \<Longrightarrow> i < used_nodes s \<and> i < 64"
  using resolve_used fs_okD(6) by (auto simp: file_at_def)

definition kept :: "u32 \<Rightarrow> nat" where
  "kept sz = min (unat sz) 63"

lemma kept_word: "unat (if sz < 63 then sz else 63) = kept sz"
  by (auto simp: kept_def word_less_nat_alt)

lemma write_file_eq:
  assumes ok: "fs_ok s" and t: "texts_ok s" and p: "terminated p" and f: "file_at (cstr p) s i"
    and d: "sz \<noteq> 0" "kept sz \<le> length data"
  obtains pm m c where
    "vfs_write_file (Some p) (Some data) sz s =
       (let s' = s\<lparr>fs_pmm := pm, fs_mem := m\<rparr>
        in Some (case c of None \<Rightarrow> (-1, s')
                 | Some c \<Rightarrow> (0, set_file i (Some (spliced c 0 data (kept sz))) (of_nat (kept sz)) s')))"
    "\<forall>b. c = Some b \<longrightarrow> 64 \<le> length b" "vn_content (node s i) \<noteq> None \<longrightarrow> c \<noteq> None"
proof -
  have i: "i < used_nodes s" "i < 64" using file_at_bound [OF ok f] by auto
  have l: "lookup_flagged (Some p) VFS_FILE s = Some (Some (i, node s i))"
    using f lookup_flagged_file [OF ok p] by (simp add: file_at_def)
  obtain a pm m where a: "alloc_content s = (a, s\<lparr>fs_pmm := pm, fs_mem := m\<rparr>)" "\<forall>b. a = Some b \<longrightarrow> length b = 4096"
    by (rule alloc_content_frame [of s]) blast
  have sz: "(if sz < 63 then sz else 63) = of_nat (kept sz)" by (simp add: kept_word [symmetric])
  have wr: "vfs_write_file (Some p) (Some data) sz s =
      (case (if vn_content (node s i) = None then alloc_content s else (vn_content (node s i), s)) of
         (None, s) \<Rightarrow> Some (-1, s)
       | (Some c, s) \<Rightarrow> map_option (Pair 0) (put_content i c 0 data (of_nat (kept sz)) s))"
    unfolding vfs_write_file_def sz using l d(1)
    by (simp add: map_option_case split: option.split prod.split bind_split)
  have k: "unat (of_nat (kept sz) :: u32) = kept sz" "kept sz \<le> 63" by (simp_all add: unat_u32_of_nat kept_def)
  show thesis
  proof (cases "vn_content (node s i)")
    case None
    have run: "put_content i b 0 data (of_nat (kept sz)) (s\<lparr>fs_pmm := pm, fs_mem := m\<rparr>) =
        Some (set_file i (Some (spliced b 0 data (kept sz))) (of_nat (kept sz)) (s\<lparr>fs_pmm := pm, fs_mem := m\<rparr>))"
      if "length b = 4096" for b
      using put_content_eq [of "s\<lparr>fs_pmm := pm, fs_mem := m\<rparr>" i b 0 "of_nat (kept sz)" data] ok i that d
      by (simp add: k)
    show thesis
      using None a run wr
      by (intro that [where c = a and pm = pm and m = m]) (auto split: option.split)
  next
    case (Some b)
    have b: "64 \<le> length b" using t i f Some by (auto simp: texts_ok_def file_at_def buffer_ok_def)
    have "put_content i b 0 data (of_nat (kept sz)) s =
        Some (set_file i (Some (spliced b 0 data (kept sz))) (of_nat (kept sz)) s)"
      using put_content_eq [OF ok i(2) b, of 0 "of_nat (kept sz)" data] d by (simp add: k)
    then show thesis
      using Some b wr
      by (intro that [where c = "Some b" and pm = "fs_pmm s" and m = "fs_mem s"]) auto
  qed
qed

lemma buffer_cstr: "buffer_ok c \<Longrightarrow> length (cstr c) \<le> 63"
proof -
  assume b: "buffer_ok c"
  then have t: "terminated (take 64 c)" by (simp add: buffer_ok_def)
  have "cstr (take 64 c) = cstr c"
    using terminated_decomp [OF t] by (metis append_take_drop_id cstr_append_terminated cstr_no_zero append.assoc append_Cons)
  then show ?thesis using terminated_length [OF t] b by (simp add: buffer_ok_def)
qed

lemma append_with_buffer:
  assumes "lookup_flagged path VFS_FILE s = Some (Some (i, n))" "vn_content n = Some c" "strlen c = Some l"
  shows "vfs_append_file path content sz s =
     (let available = 64 - of_nat l - 1
      in if available \<le> 0 then Some (-1, s)
         else let append_size = (if sz < available then sz else available)
              in do { data \<leftarrow> (if append_size = 0 then Some [] else content);
                      s \<leftarrow> put_content i c (of_nat l) data append_size s;
                      Some (0, s) })"
  using assms by (simp add: vfs_append_file_def Let_def)

text \<open>Appending to a file that has a buffer: what fits into 63 characters is added.\<close>

lemma append_file_eq:
  assumes ok: "fs_ok s" and t: "texts_ok s" and p: "terminated p" and f: "file_at (cstr p) s i"
    and c: "vn_content (node s i) = Some c" and d: "unat sz \<le> length data"
  shows "vfs_append_file (Some p) (Some data) sz s =
     Some (if length (cstr c) = 63 then (-1, s)
           else let n = min (unat sz) (63 - length (cstr c))
                in (0, set_file i (Some (spliced c (length (cstr c)) data n)) (of_nat (length (cstr c) + n)) s))"
proof -
  let ?l = "length (cstr c)"
  have i: "i < used_nodes s" "i < 64" using file_at_bound [OF ok f] by auto
  have l: "lookup_flagged (Some p) VFS_FILE s = Some (Some (i, node s i))"
    using f lookup_flagged_file [OF ok p] by (simp add: file_at_def)
  have b: "64 \<le> length c" "terminated (take 64 c)" using t i f c by (auto simp: texts_ok_def file_at_def buffer_ok_def)
  have tc: "terminated c" using b by (auto simp: terminated_def dest: in_set_takeD)
  then have sl: "strlen c = Some ?l" by (simp add: strlen_eq)
  have l63: "?l \<le> 63" using buffer_cstr [of c] b by (simp add: buffer_ok_def)
  have u: "unat (of_nat ?l :: u32) = ?l" using l63 by (simp add: unat_u32_of_nat)
  define av :: u32 where "av = 64 - of_nat ?l - 1"
  have "av = of_nat (63 - ?l)" using l63 by (simp add: av_def of_nat_diff)
  then have uav: "unat av = 63 - ?l" by (simp only: unat_u32_of_nat)
  have z: "av \<le> 0 \<longleftrightarrow> ?l = 63" unfolding word_le_nat_alt uav using l63 by simp
  let ?n = "if sz < av then sz else av"
  have n: "unat ?n = min (unat sz) (63 - ?l)" unfolding word_less_nat_alt uav if_distrib [of unat] by simp
  have put: "put_content i c (of_nat ?l) data' ?n s =
      Some (set_file i (Some (spliced c ?l data' (unat ?n))) (of_nat ?l + ?n) s)" if "unat ?n \<le> length data'" for data'
    using put_content_eq [OF ok i(2) b(1), of "of_nat ?l" ?n data'] that l63 n by (simp add: u)
  have w: "of_nat ?l + ?n = (of_nat (?l + min (unat sz) (63 - ?l)) :: u32)"
    unfolding n [symmetric] by simp
  have run: "vfs_append_file (Some p) (Some data) sz s =
     (if ?l = 63 then Some (-1, s)
      else map_option (Pair 0) (put_content i c (of_nat ?l) (if ?n = 0 then [] else data) ?n s))"
    unfolding append_with_buffer [of _ _ _ "node s i", OF l c sl] Let_def av_def [symmetric] z
    by (cases "?n = 0") (simp_all add: map_option_case put n split: option.split bind_split)
  have "put_content i c (of_nat ?l) (if ?n = 0 then [] else data) ?n s =
     Some (set_file i (Some (spliced c ?l data (unat ?n))) (of_nat ?l + ?n) s)"
    using put [of "if ?n = 0 then [] else data"] n d by (auto simp: spliced_def)
  then show ?thesis using run by (simp add: w n Let_def)
qed

section \<open>Runs of operations\<close>

datatype fs_op =
    Mkdir "byte list" | Touch "byte list" | Unlink "byte list"
  | Write "byte list" "byte list" u32 | Append "byte list" "byte list" u32
  | Install "byte list" "byte list" u32 | Chdir "byte list"

text \<open>\<open>Chdir\<close> is the assignment to \<open>current_dir\<close> that \<open>cd\<close> and \<open>SYS_chdir\<close> make after their lookup.\<close>

fun fs_step :: "fs_op \<Rightarrow> fs \<Rightarrow> (int \<times> fs) option" where
  "fs_step (Mkdir p) s = k_mkdir (Some p) s"
| "fs_step (Touch p) s = k_touch (Some p) s"
| "fs_step (Unlink p) s = k_unlink (Some p) s"
| "fs_step (Write p d n) s = vfs_write_file (Some p) (Some d) n s"
| "fs_step (Append p d n) s = vfs_append_file (Some p) (Some d) n s"
| "fs_step (Install p d n) s = k_install (Some p) (Some d) n s"
| "fs_step (Chdir p) s =
     do { r \<leftarrow> lookup_flagged (Some p) VFS_DIRECTORY s;
          Some (case r of None \<Rightarrow> (-1, s) | Some (i, n) \<Rightarrow> (0, s\<lparr>current_dir := Some i\<rparr>)) }"

fun fs_exec :: "fs_op list \<Rightarrow> fs \<Rightarrow> fs option" where
  "fs_exec [] s = Some s"
| "fs_exec (x # xs) s = do { (r, s) \<leftarrow> fs_step x s; fs_exec xs s }"

text \<open>
  What a caller owes: terminated paths, new names of at most 31 characters (\<open>name\<close> has room for 32 and
  \<open>strcpy\<close> does not check), data as long as it says, and installed images with a zero byte among their
  first 64, as every ELF header has.
\<close>

fun op_valid :: "fs_op \<Rightarrow> bool" where
  "op_valid (Mkdir p) \<longleftrightarrow> terminated p \<and> length (cstr p) < 32"
| "op_valid (Touch p) \<longleftrightarrow> terminated p \<and> length (cstr p) < 32"
| "op_valid (Unlink p) \<longleftrightarrow> terminated p"
| "op_valid (Write p d n) \<longleftrightarrow> terminated p \<and> unat n \<le> length d"
| "op_valid (Append p d n) \<longleftrightarrow> terminated p \<and> unat n \<le> length d"
| "op_valid (Install p d n) \<longleftrightarrow> terminated p \<and> length (cstr p) < 32 \<and> buffer_ok d \<and> unat n \<le> length d"
| "op_valid (Chdir p) \<longleftrightarrow> terminated p"

definition fs_inv :: "fs \<Rightarrow> bool" where
  "fs_inv s \<longleftrightarrow> fs_ok s \<and> texts_ok s"

lemma fs_inv_frame [simp]:
  "fs_inv (s\<lparr>fs_out := a\<rparr>) = fs_inv s" "fs_inv (s\<lparr>fs_pmm := b\<rparr>) = fs_inv s" "fs_inv (s\<lparr>fs_mem := c\<rparr>) = fs_inv s"
  "fs_inv (fs_print msg s) = fs_inv s"
  by (simp_all add: fs_inv_def texts_ok_def fs_print_def)

lemma attach_texts:
  assumes "texts_ok s" "fs_ok s" "can_attach dir s"
    and "vn_flags nd = VFS_FILE \<Longrightarrow> \<forall>c. vn_content nd = Some c \<longrightarrow> buffer_ok c"
  shows "texts_ok (attach dir nd s)"
  using assms unfolding texts_ok_def attach_fields(1,2) [OF assms(2,3)] by (auto simp: less_Suc_eq can_attach_def)

lemma created_texts:
  assumes inv: "fs_inv s" and b: "\<not> blocked (cstr p) s" and c: "created (cstr p) kind s s'"
  shows "texts_ok s'"
proof -
  have ok: "fs_ok s" and t: "texts_ok s" using inv by (simp_all add: fs_inv_def)
  obtain co pm m where s': "s' = attach (the (current_dir s))
      (made (cstr p) kind (the (current_dir s)) co (node s (used_nodes s))) (s\<lparr>fs_pmm := pm, fs_mem := m\<rparr>)"
    and co: "\<forall>b. co = Some b \<longrightarrow> length b = 4096 \<and> hd b = 0"
    using c by (auto simp: created_def)
  have ok': "fs_ok (s\<lparr>fs_pmm := pm, fs_mem := m\<rparr>)" using ok by simp
  have a: "can_attach (the (current_dir s)) (s\<lparr>fs_pmm := pm, fs_mem := m\<rparr>)"
    using not_blocked_attach [OF ok b] by (simp add: can_attach_def)
  have "buffer_ok b" if "co = Some b" for b
    using co that by (cases b) (auto simp: buffer_ok_def)
  then show ?thesis
    unfolding s' using t by (intro attach_texts [OF _ ok' a]) (auto simp: made_def texts_ok_def)
qed

lemma detach_texts: "texts_ok s \<Longrightarrow> fs_ok s \<Longrightarrow> k < 64 \<Longrightarrow> q < 64 \<Longrightarrow> k \<noteq> q \<Longrightarrow> texts_ok (detach q i k s)"
  by (auto simp: texts_ok_def detach_node) (simp add: detach_def Let_def)+

lemma mkdir_inv: "fs_inv s \<Longrightarrow> op_valid (Mkdir p) \<Longrightarrow> \<exists>r s'. k_mkdir (Some p) s = Some (r, s') \<and> fs_inv s'"
  using k_mkdir_eq [of s p] created_ok(1) [of s p VFS_DIRECTORY] created_texts [of s p VFS_DIRECTORY]
  by (cases "blocked (cstr p) s") (auto simp: fs_inv_def texts_ok_def fs_print_def)

lemma touch_inv: "fs_inv s \<Longrightarrow> op_valid (Touch p) \<Longrightarrow> \<exists>r s'. k_touch (Some p) s = Some (r, s') \<and> fs_inv s'"
  using k_touch_eq [of s p] created_ok(1) [of s p VFS_FILE] created_texts [of s p VFS_FILE]
  by (cases "blocked (cstr p) s") (auto simp: fs_inv_def texts_ok_def fs_print_def)

lemma unlink_inv:
  assumes inv: "fs_inv s" and p: "terminated p"
  shows "\<exists>r s'. k_unlink (Some p) s = Some (r, s') \<and> fs_inv s'"
proof (cases "\<exists>k q i. unlinkable (cstr p) s k q i \<and> k_unlink (Some p) s = Some (0, detach q i k s)")
  case False
  have "fs_ok s" using inv by (simp add: fs_inv_def)
  then have "k_unlink (Some p) s = Some (-1, s)" using False k_unlink_eq [OF _ p] by blast
  then show ?thesis using inv by simp
next
  case True
  then obtain k q i where u: "unlinkable (cstr p) s k q i" "k_unlink (Some p) s = Some (0, detach q i k s)" by blast
  have ok: "fs_ok s" using inv by (simp add: fs_inv_def)
  have k: "k < used_nodes s" "k < 64" using u(1) resolve_used [OF ok] fs_okD(6) [OF ok] by (auto simp: unlinkable_def)
  have "q < k" using fs_okD(5) [OF ok k(1)] u(1) by (auto simp: node_links_def unlinkable_def)
  then have "fs_inv (detach q i k s)"
    using detach_ok [OF ok k(1), of q i] detach_texts [of s k q i] inv u(1) k
    by (simp add: fs_inv_def unlinkable_def)
  then show ?thesis using u(2) by simp
qed

lemma write_inv:
  assumes inv: "fs_inv s" and p: "terminated p" and d: "unat sz \<le> length d"
  shows "\<exists>r s'. vfs_write_file (Some p) (Some d) sz s = Some (r, s') \<and> fs_inv s'"
proof (cases "\<exists>i. file_at (cstr p) s i")
  case False
  then show ?thesis using lookup_file_at [of s p] inv p by (simp add: vfs_write_file_def fs_inv_def)
next
  case True
  then obtain i where f: "file_at (cstr p) s i" ..
  have ok: "fs_ok s" "texts_ok s" using inv by (simp_all add: fs_inv_def)
  have i: "i < used_nodes s" "i < 64" using file_at_bound [OF ok(1) f] by simp_all
  show ?thesis
  proof (cases "sz = 0")
    case True
    let ?c = "map_option (\<lambda>c. c[0 := 0]) (vn_content (node s i))"
    have b: "buffer_ok c" if "vn_content (node s i) = Some c" for c
      using that ok(2) i f by (auto simp: texts_ok_def file_at_def)
    have "\<forall>c. vn_content (node s i) = Some c \<longrightarrow> 0 < length c" using b by (fastforce simp: buffer_ok_def)
    then have "vfs_write_file (Some p) (Some d) sz s = Some (0, set_file i ?c 0 s)"
      using True f lookup_flagged_file [OF ok(1) p] i get_update [OF ok(1) i(2)]
      by (auto simp: vfs_write_file_def file_at_def array_set_def set_file_def split: option.split)
    moreover have "buffer_ok (c[0 := 0])" if "buffer_ok c" for c
      using that by (cases c) (auto simp: buffer_ok_def)
    then have "fs_inv (set_file i ?c 0 s)"
      using texts_set_file [OF ok i(2), of ?c 0] set_file_frame(1) [OF ok(1) i(2)] b by (auto simp: fs_inv_def)
    ultimately show ?thesis by blast
  next
    case False
    have kd: "kept sz \<le> length d" using d by (simp add: kept_def)
    obtain pm m c where w: "vfs_write_file (Some p) (Some d) sz s =
       (let s' = s\<lparr>fs_pmm := pm, fs_mem := m\<rparr>
        in Some (case c of None \<Rightarrow> (-1, s')
                 | Some c \<Rightarrow> (0, set_file i (Some (spliced c 0 d (kept sz))) (of_nat (kept sz)) s')))"
      "\<forall>b. c = Some b \<longrightarrow> 64 \<le> length b"
      by (rule write_file_eq [OF ok p f False kd])
    have "fs_inv (set_file i (Some (spliced b 0 d (kept sz))) z (s\<lparr>fs_pmm := pm, fs_mem := m\<rparr>))" if "c = Some b" for b z
      using texts_set_file [of "s\<lparr>fs_pmm := pm, fs_mem := m\<rparr>" i "Some (spliced b 0 d (kept sz))" z]
        set_file_frame(1) [of "s\<lparr>fs_pmm := pm, fs_mem := m\<rparr>" i] spliced_ok [of b 0 "kept sz" d] w(2) that ok i d
      by (auto simp: fs_inv_def texts_ok_def kept_def)
    then show ?thesis using w(1) inv by (cases c) (auto simp: Let_def)
  qed
qed

lemma append_inv:
  assumes inv: "fs_inv s" and p: "terminated p" and d: "unat sz \<le> length d"
  shows "\<exists>r s'. vfs_append_file (Some p) (Some d) sz s = Some (r, s') \<and> fs_inv s'"
proof (cases "\<exists>i. file_at (cstr p) s i")
  case False
  then show ?thesis using lookup_file_at [of s p] inv p by (simp add: vfs_append_file_def fs_inv_def)
next
  case True
  then obtain i where f: "file_at (cstr p) s i" ..
  have ok: "fs_ok s" "texts_ok s" using inv by (simp_all add: fs_inv_def)
  have i: "i < used_nodes s" "i < 64" using file_at_bound [OF ok(1) f] by simp_all
  show ?thesis
  proof (cases "vn_content (node s i)")
    case None
    then have "vfs_append_file (Some p) (Some d) sz s = vfs_write_file (Some p) (Some d) sz s"
      using f lookup_flagged_file [OF ok(1) p] by (simp add: vfs_append_file_def file_at_def)
    then show ?thesis using write_inv [OF assms] by simp
  next
    case (Some c)
    let ?n = "min (unat sz) (63 - length (cstr c))"
    have b: "64 \<le> length c" using Some ok(2) i f by (auto simp: texts_ok_def file_at_def buffer_ok_def)
    have "buffer_ok (spliced c (length (cstr c)) d ?n)" if "length (cstr c) \<le> 63"
      using spliced_ok [OF b, of "length (cstr c)" ?n d] that d by simp
    moreover have "length (cstr c) \<le> 63"
      using ok(2) i f Some buffer_cstr [of c] by (auto simp: texts_ok_def file_at_def)
    ultimately have "fs_inv (set_file i (Some (spliced c (length (cstr c)) d ?n)) z s)" for z
      using texts_set_file [OF ok i(2), of "Some (spliced c (length (cstr c)) d ?n)" z] set_file_frame(1) [OF ok(1) i(2)]
      by (simp add: fs_inv_def)
    then show ?thesis using append_file_eq [OF ok p f Some d] inv by (auto simp: Let_def)
  qed
qed

text \<open>Installing a program: a file in the root directory whose content is the image itself.\<close>

lemma k_install_attach:
  fixes img :: "byte list"
  assumes ok: "fs_ok s" and r: "vfs_root s = Some r" "can_attach r s"
    and n: "terminated name" "length (cstr name) < 32" and z: "sz \<noteq> 0"
  defines "nd \<equiv> (made (cstr name) VFS_FILE r (Some img) (node s (used_nodes s)))\<lparr>vn_size := sz\<rparr>"
  shows "k_install (Some name) (Some img) sz s = Some (0, attach r nd s)" "new_node r nd"
proof -
  have u: "used_nodes s < 64" "\<not> vnodes_pool_used s \<ge> 64" "r < 64" "\<not> vn_child_count (node s r) \<ge> 16"
    using r(2) by (auto simp: can_attach_def word_less_nat_alt not_le)
  show "new_node r nd" using made_new [OF n(2), of VFS_FILE r "Some img" "node s (used_nodes s)"]
    by (simp add: nd_def new_node_def node_wf_def)
  have nd: "nd = (node s (used_nodes s))\<lparr>vn_child_count := 0, vn_children := replicate 16 None,
      vn_name := cstr name @ replicate (32 - length (cstr name)) 0, vn_flags := VFS_FILE, vn_parent := Some r,
      vn_content := Some img, vn_size := sz\<rparr>" by (simp add: nd_def made_def)
  show "k_install (Some name) (Some img) sz s = Some (0, attach r nd s)"
    using r(1) u z get_node [OF ok, of r] alloc_vnode_eq [OF ok] fs_okD(1) [OF ok] strcpy_fresh_name [OF n]
      append_made [OF ok r(2), of nd]
    by (simp add: k_install_def array_get_def update_node_def array_set_def nd)
qed

lemma install_inv:
  assumes inv: "fs_inv s" and v: "op_valid (Install p d z)"
  shows "\<exists>r s'. k_install (Some p) (Some d) z s = Some (r, s') \<and> fs_inv s'"
proof -
  have ok: "fs_ok s" "texts_ok s" using inv by (simp_all add: fs_inv_def)
  obtain r where r: "vfs_root s = Some r" "r < used_nodes s" using ok(1) by (auto simp: fs_ok_def dir_ptr_def)
  have g: "array_get (vnodes_pool s) r = Some (node s r)" using get_node [OF ok(1)] r(2) fs_okD(6) [OF ok(1)] by simp
  show ?thesis
  proof (cases "z \<noteq> 0 \<and> can_attach r s")
    case True
    define nd where "nd = (made (cstr p) VFS_FILE r (Some d) (node s (used_nodes s)))\<lparr>vn_size := z\<rparr>"
    have i: "k_install (Some p) (Some d) z s = Some (0, attach r nd s)" "new_node r nd"
      using k_install_attach [OF ok(1) r(1), of p z d] True v by (simp_all add: nd_def)
    moreover have "vn_content nd = Some d" by (simp add: nd_def made_def)
    then have "texts_ok (attach r nd s)" using v True by (intro attach_texts [OF ok(2,1)]) simp_all
    ultimately show ?thesis using attach_ok [OF ok(1) _ i(2)] True by (auto simp: fs_inv_def)
  next
    case False
    then have "k_install (Some p) (Some d) z s = Some (-1, s)"
      using r g alloc_vnode_eq [OF ok(1)] by (auto simp: k_install_def can_attach_def not_less)
    with inv show ?thesis by simp
  qed
qed

lemma lookup_flagged_dir:
  assumes ok: "fs_ok s" and p: "terminated p"
  shows "lookup_flagged (Some p) VFS_DIRECTORY s =
    Some (case resolve (cstr p) s of None \<Rightarrow> None
          | Some i \<Rightarrow> if vn_flags (node s i) = VFS_DIRECTORY then Some (i, node s i) else None)"
proof (cases "resolve (cstr p) s")
  case (Some i)
  then have i: "i < 64" using resolve_used [OF ok] fs_okD(6) [OF ok] by auto
  have "vn_flags (node s i) AND 2 = 0 \<longleftrightarrow> vn_flags (node s i) \<noteq> 2"
    using fs_okD(3) [OF ok i] by (auto simp: node_wf_def)
  then show ?thesis using Some by (simp add: lookup_flagged_def vfs_lookup_eq [OF ok p] get_node [OF ok i])
qed (simp add: lookup_flagged_def vfs_lookup_eq [OF ok p])

lemma fs_inv_cd:
  "fs_inv s \<Longrightarrow> i < used_nodes s \<Longrightarrow> vn_flags (node s i) = VFS_DIRECTORY \<Longrightarrow> fs_inv (s\<lparr>current_dir := Some i\<rparr>)"
  by (auto simp: fs_inv_def fs_ok_def node_links_def dir_ptr_def texts_ok_def)

lemma chdir_inv:
  assumes inv: "fs_inv s" and p: "terminated p"
  shows "\<exists>r s'. fs_step (Chdir p) s = Some (r, s') \<and> fs_inv s'"
proof -
  have ok: "fs_ok s" using inv by (simp add: fs_inv_def)
  show ?thesis
    using lookup_flagged_dir [OF ok p] resolve_used [OF ok, of "cstr p"] fs_inv_cd [OF inv] inv
    by (auto split: option.split)
qed

lemma fs_step_inv: "fs_inv s \<Longrightarrow> op_valid x \<Longrightarrow> \<exists>r s'. fs_step x s = Some (r, s') \<and> fs_inv s'"
  using mkdir_inv touch_inv unlink_inv write_inv append_inv install_inv chdir_inv by (cases x) auto

definition fs_next :: "fs \<Rightarrow> fs_op \<Rightarrow> fs" where
  "fs_next s x = (if op_valid x then snd (the (fs_step x s)) else s)"

interpretation fs_run: machine fs_next fs_inv
  by unfold_locales (use fs_step_inv in \<open>fastforce simp: fs_next_def\<close>)

lemma fs_exec_next: "fs_inv s \<Longrightarrow> list_all op_valid xs \<Longrightarrow> fs_exec xs s = Some (foldl fs_next s xs)"
proof (induction xs arbitrary: s)
  case (Cons x xs)
  then obtain r s' where "fs_step x s = Some (r, s')" "fs_inv s'" using fs_step_inv [of s x] by auto
  then show ?case using Cons by (simp add: fs_next_def)
qed simp

section \<open>Directories as an interface\<close>

text \<open>A collection of names with an operation that adds one and one that removes one.\<close>

locale directory =
  fixes ok :: "'s \<Rightarrow> bool" and valid :: "'n \<Rightarrow> bool" and names :: "'s \<Rightarrow> 'n list"
    and add :: "'n \<Rightarrow> 's \<Rightarrow> 's option" and del :: "'n \<Rightarrow> 's \<Rightarrow> 's option"
  assumes add_law: "ok s \<Longrightarrow> valid n \<Longrightarrow> add n s = Some t \<Longrightarrow> ok t \<and> n \<notin> set (names s) \<and> names t = names s @ [n]"
    and del_law: "ok s \<Longrightarrow> valid n \<Longrightarrow> del n s = Some t \<Longrightarrow> ok t \<and> n \<in> set (names s) \<and> names t = remove1 n (names s)"
begin

lemma add_distinct: "ok s \<Longrightarrow> valid n \<Longrightarrow> add n s = Some t \<Longrightarrow> distinct (names s) \<Longrightarrow> distinct (names t)"
  using add_law [of s n t] by auto

lemma del_distinct: "ok s \<Longrightarrow> valid n \<Longrightarrow> del n s = Some t \<Longrightarrow> distinct (names s) \<Longrightarrow> distinct (names t) \<and> n \<notin> set (names t)"
  using del_law [of s n t] by (auto simp: set_remove1_eq distinct_remove1)

lemma add_twice: "ok s \<Longrightarrow> valid n \<Longrightarrow> add n s = Some t \<Longrightarrow> add n t = None"
proof (rule ccontr)
  assume a: "ok s" "valid n" "add n s = Some t" "add n t \<noteq> None"
  then obtain u where "add n t = Some u" by auto
  then have "n \<notin> set (names t)" using add_law [OF a(1-3)] a(2) add_law [of t n u] by blast
  then show False using add_law [OF a(1-3)] by simp
qed

lemma add_del: "ok s \<Longrightarrow> valid n \<Longrightarrow> add n s = Some t \<Longrightarrow> del n t = Some u \<Longrightarrow> ok u \<and> names u = names s"
proof -
  assume a: "ok s" "valid n" "add n s = Some t" "del n t = Some u"
  note l = add_law [OF a(1-3)]
  have "ok u" "names u = remove1 n (names s @ [n])" using l a(2,4) del_law [of t n u] by auto
  then show ?thesis using l by (simp add: remove1_append)
qed

end

definition succeeded :: "(int \<times> fs) option \<Rightarrow> fs option" where
  "succeeded r = (case r of Some (c, s) \<Rightarrow> if c = 0 then Some s else None | None \<Rightarrow> None)"

definition dir_names :: "fs \<Rightarrow> byte list list" where
  "dir_names s = map fst (dir_list s (the (current_dir s)))"

definition valid_name :: "byte list \<Rightarrow> bool" where
  "valid_name n \<longleftrightarrow> plain_name n \<and> 0 \<notin> set n \<and> length n < 32"

lemma valid_name_path: "valid_name n \<Longrightarrow> terminated (n @ [0]) \<and> cstr (n @ [0]) = n \<and> length n < 32 \<and> plain_name n"
  by (simp add: valid_name_def cstr_append_terminated)

lemma drop_nth_names: "listing_index n l = Some i \<Longrightarrow> map fst (drop_nth i l) = remove1 n (map fst l)"
proof -
  assume "listing_index n l = Some i"
  then have i: "i < length l" "fst (l ! i) = n" "\<forall>j<i. fst (l ! j) \<noteq> n" by (auto simp: listing_index_def find_upt_Some)
  have l: "l = take i l @ l ! i # drop (Suc i) l" using i(1) by (simp add: id_take_nth_drop)
  have "n \<notin> set (map fst (take i l))" using i by (metis (no_types, lifting) in_set_conv_nth length_map length_take
        less_imp_le_nat min.absorb2 nth_map nth_take)
  then have "remove1 n (map fst (take i l @ l ! i # drop (Suc i) l)) = map fst (drop_nth i l)"
    using i(2) by (simp add: remove1_append drop_nth_def)
  then show ?thesis using l by simp
qed

lemma touch_spec:
  assumes inv: "fs_inv s" and n: "valid_name n"
  shows "\<exists>r s'. k_touch (Some (n @ [0])) s = Some (r, s') \<and> fs_inv s' \<and> current_dir s' = current_dir s
     \<and> (r, dir_list s' (the (current_dir s))) = spec_create VFS_FILE n (vnodes_pool_used s \<ge> 64) (dir_list s (the (current_dir s)))"
proof -
  have ok: "fs_ok s" using inv by (simp add: fs_inv_def)
  obtain cur where cur: "current_dir s = Some cur" by (rule current_dirE [OF ok])
  have v: "terminated (n @ [0])" "cstr (n @ [0]) = n" "length n < 32" "plain_name n" using valid_name_path [OF n] by auto
  obtain r s' where r: "k_touch (Some (n @ [0])) s = Some (r, s')" "fs_inv s'"
    using touch_inv [OF inv, of "n @ [0]"] v by auto
  obtain msg t where e: "k_touch (Some (n @ [0])) s = Some (if blocked n s then (-1, fs_print msg s) else (0, t))
      \<and> (blocked n s \<or> created n VFS_FILE s t)"
    using k_touch_eq [OF ok v(1)] v by auto
  have "current_dir s' = current_dir s"
    using e r(1) created_ok(2) [OF ok, of "n @ [0]" VFS_FILE t] v by (auto simp: fs_print_def split: if_splits)
  moreover have "map_option (\<lambda>(r, s'). (r, dir_list s' cur)) (k_touch (Some (n @ [0])) s) =
      Some (spec_create VFS_FILE n (vnodes_pool_used s \<ge> 64) (dir_list s cur))"
    using create_refines [OF ok, of "n @ [0]" VFS_FILE cur] e cur v by auto
  ultimately show ?thesis using r cur by simp
qed

lemma unlink_spec:
  assumes inv: "fs_inv s" and n: "valid_name n"
  shows "\<exists>r s'. k_unlink (Some (n @ [0])) s = Some (r, s') \<and> fs_inv s' \<and> current_dir s' = current_dir s
     \<and> (r, dir_list s' (the (current_dir s))) = spec_unlink n (dir_list s (the (current_dir s)))"
proof -
  have ok: "fs_ok s" using inv by (simp add: fs_inv_def)
  obtain cur where cur: "current_dir s = Some cur" by (rule current_dirE [OF ok])
  have v: "terminated (n @ [0])" "cstr (n @ [0]) = n" "plain_name n" using valid_name_path [OF n] by auto
  obtain r s' where r: "k_unlink (Some (n @ [0])) s = Some (r, s')" "fs_inv s'" using unlink_inv [OF inv v(1)] by auto
  have "current_dir s' = current_dir s"
    using k_unlink_eq [OF ok v(1)] r(1) by (auto simp: detach_def Let_def)
  then show ?thesis using unlink_refines [OF ok v(1) _ cur] v r cur by auto
qed

interpretation dl: directory fs_inv valid_name dir_names
    "\<lambda>n s. succeeded (k_touch (Some (n @ [0])) s)" "\<lambda>n s. succeeded (k_unlink (Some (n @ [0])) s)"
proof unfold_locales
  fix s n t
  assume a: "fs_inv s" "valid_name n" "succeeded (k_touch (Some (n @ [0])) s) = Some t"
  then show "fs_inv t \<and> n \<notin> set (dir_names s) \<and> dir_names t = dir_names s @ [n]"
    using touch_spec [OF a(1,2)]
    by (auto simp: succeeded_def spec_create_def dir_names_def split: if_splits)
next
  fix s n t
  assume a: "fs_inv s" "valid_name n" "succeeded (k_unlink (Some (n @ [0])) s) = Some t"
  let ?l = "dir_list s (the (current_dir s))"
  obtain i where i: "listing_index n ?l = Some i" "fs_inv t" "dir_list t (the (current_dir t)) = drop_nth i ?l"
    using unlink_spec [OF a(1,2)] a(3)
    by (auto simp: succeeded_def spec_unlink_def split: if_splits option.splits)
  have "n \<in> set (dir_names s)"
    using i(1) by (force simp: dir_names_def listing_index_def find_upt_Some)
  then show "fs_inv t \<and> n \<in> set (dir_names s) \<and> dir_names t = remove1 n (dir_names s)"
    using i drop_nth_names [OF i(1)] by (simp add: dir_names_def)
qed

section \<open>The file system at boot\<close>

definition zero_node :: vnode where
  "zero_node = \<lparr>vn_name = replicate 32 0, vn_flags = 0, vn_parent = None, vn_children = replicate 16 None,
     vn_child_count = 0, vn_size = 0, vn_content = None\<rparr>"

text \<open>The pool is a static variable: zero before \<open>fs_init\<close> runs.\<close>

definition pool_zero :: "fs \<Rightarrow> bool" where
  "pool_zero s \<longleftrightarrow> vnodes_pool s = replicate 64 zero_node"

definition root_node :: vnode where
  "root_node = zero_node\<lparr>vn_name := of_char (CHR ''/'') # replicate 31 0, vn_flags := VFS_DIRECTORY\<rparr>"

lemma fs_init_eq:
  assumes "pool_zero s"
  shows "fs_init s = Some (s\<lparr>vnodes_pool := (replicate 64 zero_node)[0 := root_node], vnodes_pool_used := 1,
           vfs_root := Some 0, current_dir := Some 0\<rparr>)"
proof -
  have "zero_node\<lparr>vn_name := (vn_name zero_node)[0 := 0], vn_flags := 0, vn_parent := None, vn_child_count := 0,
      vn_content := None, vn_children := replicate 16 None\<rparr> = zero_node"
    by (simp add: zero_node_def numeral_eq_Suc)
  moreover have "strcpy (replicate 32 0) (clit ''/'') = Some (of_char (CHR ''/'') # replicate 31 0)"
    by (simp add: strcpy_eq)
  then have "strcpy (vn_name zero_node) (clit ''/'') = Some (of_char (CHR ''/'') # replicate 31 0)"
    by (simp add: zero_node_def)
  moreover have "zero_node\<lparr>vn_name := of_char (CHR ''/'') # replicate 31 0, vn_flags := 2, vn_parent := None,
      vn_child_count := 0, vn_content := None\<rparr> = root_node"
    by (simp add: root_node_def zero_node_def)
  ultimately show ?thesis
    using assms by (simp add: fs_init_def pool_zero_def alloc_vnode_def Let_def update_node_def array_get_def array_set_def
        del: replicate.simps lit_consts)
qed

lemma boot_inv:
  assumes "pool_zero s" "fs_init s = Some s'"
  shows "fs_inv s'" "current_dir s' = Some 0" "dir_list s' 0 = []" "vnodes_pool_used s' = 1"
proof -
  have s': "s' = s\<lparr>vnodes_pool := (replicate 64 zero_node)[0 := root_node], vnodes_pool_used := 1,
           vfs_root := Some 0, current_dir := Some 0\<rparr>"
    using fs_init_eq [OF assms(1)] assms(2) by simp
  have n: "node s' i = (if i = 0 then root_node else zero_node)" if "i < 64" for i
    using that by (simp add: s' node_def nth_list_update)
  have k: "kids s' 0 = []" using n [of 0] by (simp add: kids_def root_node_def zero_node_def)
  have w: "node_wf root_node" "node_wf zero_node"
    by (simp_all add: node_wf_def root_node_def zero_node_def terminated_def)
  have u: "used_nodes s' = 1" "vfs_root s' = Some 0" "length (vnodes_pool s') = 64" by (simp_all add: s')
  show "current_dir s' = Some 0" "vnodes_pool_used s' = 1" by (simp_all add: s')
  show "dir_list s' 0 = []" by (simp add: dir_list_def k)
  have "node_links s' 0" using n [of 0] k by (simp add: node_links_def root_node_def zero_node_def)
  moreover have "dir_ptr s' (Some 0)" using n [of 0] u by (simp add: dir_ptr_def root_node_def)
  ultimately have "fs_ok s'"
    using w n \<open>current_dir s' = Some 0\<close> unfolding fs_ok_def u by (auto simp: zero_node_def)
  moreover have "texts_ok s'" using n [of 0] by (simp add: texts_ok_def u root_node_def)
  ultimately show "fs_inv s'" by (simp add: fs_inv_def)
qed

definition bare_fs :: fs where
  "bare_fs = \<lparr>vnodes_pool = replicate 64 zero_node, vnodes_pool_used = 0, vfs_root = None,
     current_dir = None, fs_pmm = pmm_init_fallback, fs_mem = (\<lambda>_. 0), fs_out = []\<rparr>"

lemma bare_fs_zero: "pool_zero bare_fs"
  by (simp add: bare_fs_def pool_zero_def)

section \<open>Properties\<close>

text \<open>A new name of more than 32 characters is written over the end of \<open>name\<close>.\<close>

lemma long_name_overflows:
  assumes ok: "fs_ok s" and p: "terminated p" "32 < length (cstr p)" and b: "\<not> blocked (cstr p) s"
  shows "k_mkdir (Some p) s = None" "k_touch (Some p) s = None"
proof -
  obtain cur where cur: "current_dir s = Some cur" "cur < used_nodes s"
    "array_get (vnodes_pool s) cur = Some (node s cur)"
    by (rule current_dirE [OF ok])
  have u: "used_nodes s < 64" using b by (simp add: blocked_def word_le_nat_alt)
  have "strcpy (replicate 32 0) p = None" using p by (simp add: strcpy_eq)
  then show "k_mkdir (Some p) s = None" "k_touch (Some p) s = None"
    using b cur u no_path_eq [OF p(1)] vfs_lookup_eq [OF ok p(1)] alloc_vnode_eq [OF ok] fs_okD(1) [OF ok]
    by (simp_all add: blocked_def k_mkdir_def k_touch_def array_get_def)
qed



text \<open>
  C10: the current directory of a well-formed file system is an association list from names to nodes with
  their kinds. For a plain name (not empty, not \<open>.\<close> or \<open>..\<close>, no slash in front) of at most 31 characters,
  \<open>vfs_lookup\<close> returns the node the list gives for the name. \<open>touch\<close> and \<open>mkdir\<close> add the name with the next
  node of the pool at the end of the list, or refuse a name that is there, a seventeenth entry and an
  exhausted pool; \<open>unlink\<close> removes the entry of the name if it is a file, and refuses a directory or an
  unknown name. All three keep the file system well formed and the current directory.
\<close>

theorem directory_refinement:
  assumes "fs_ok s" "current_dir s = Some cur" "terminated p" "length (cstr p) < 32" "plain_name (cstr p)"
  shows "vfs_lookup (Some p) s = Some (map_option fst (map_of (dir_table s cur) (cstr p)))
     \<and> (\<exists>r t. k_touch (Some p) s = Some (r, t) \<and> fs_ok t \<and> current_dir t = Some cur \<and>
          (r, dir_table t cur) = spec_enter VFS_FILE (cstr p) (used_nodes s) (vnodes_pool_used s \<ge> 64) (dir_table s cur))
     \<and> (\<exists>r t. k_mkdir (Some p) s = Some (r, t) \<and> fs_ok t \<and> current_dir t = Some cur \<and>
          (r, dir_table t cur) = spec_enter VFS_DIRECTORY (cstr p) (used_nodes s) (vnodes_pool_used s \<ge> 64) (dir_table s cur))
     \<and> (\<exists>r t. k_unlink (Some p) s = Some (r, t) \<and> fs_ok t \<and> current_dir t = Some cur \<and>
          (r, dir_table t cur) = spec_remove (cstr p) (dir_table s cur))"
proof (intro conjI)
  show "vfs_lookup (Some p) s = Some (map_option fst (map_of (dir_table s cur) (cstr p)))"
    by (rule lookup_table [OF assms(1-3,5)])
  show "\<exists>r t. k_touch (Some p) s = Some (r, t) \<and> fs_ok t \<and> current_dir t = Some cur \<and>
      (r, dir_table t cur) = spec_enter VFS_FILE (cstr p) (used_nodes s) (vnodes_pool_used s \<ge> 64) (dir_table s cur)"
    using k_touch_eq [OF assms(1,3,4)] create_table [OF assms(1,4,5) _ assms(2)] by (elim exE) simp
  show "\<exists>r t. k_mkdir (Some p) s = Some (r, t) \<and> fs_ok t \<and> current_dir t = Some cur \<and>
      (r, dir_table t cur) = spec_enter VFS_DIRECTORY (cstr p) (used_nodes s) (vnodes_pool_used s \<ge> 64) (dir_table s cur)"
    using k_mkdir_eq [OF assms(1,3,4)] create_table [OF assms(1,4,5) _ assms(2)] by (elim exE) simp
  show "\<exists>r t. k_unlink (Some p) s = Some (r, t) \<and> fs_ok t \<and> current_dir t = Some cur \<and>
      (r, dir_table t cur) = spec_remove (cstr p) (dir_table s cur)"
    by (rule unlink_table [OF assms(1,3,5,2)])
qed

definition booted_fs :: fs where
  "booted_fs = the (fs_init bare_fs)"

lemma booted_fs_facts:
  "fs_inv booted_fs" "current_dir booted_fs = Some 0" "dir_list booted_fs 0 = []" "vnodes_pool_used booted_fs = 1"
  using boot_inv [OF bare_fs_zero, of booted_fs] fs_init_eq [OF bare_fs_zero] by (simp_all add: booted_fs_def)

lemma pool_has_room [simp]: "\<not> (64 :: u32) \<le> 1"
  by (simp add: word_le_nat_alt)

theorem directory_refinement_witness:
  "\<exists>t u. k_touch (Some (clit ''notes'')) booted_fs = Some (0, t) \<and> dir_table t 0 = [(lit ''notes'', 1, VFS_FILE)]
   \<and> vfs_lookup (Some (clit ''notes'')) t = Some (Some 1)
   \<and> k_unlink (Some (clit ''notes'')) t = Some (0, u) \<and> dir_table u 0 = []
   \<and> vfs_lookup (Some (clit ''notes'')) u = Some None"
proof -
  have p: "plain_name (cstr (clit ''notes''))" "length (cstr (clit ''notes'')) < 32"
    by (simp_all add: plain_name_def)
  have "fs_ok booted_fs" using booted_fs_facts(1) by (simp add: fs_inv_def)
  moreover have "dir_table booted_fs 0 = []" using dir_table_names(2) [of booted_fs 0] booted_fs_facts by simp
  ultimately obtain t where t: "k_touch (Some (clit ''notes'')) booted_fs = Some (0, t)" "fs_ok t"
      "current_dir t = Some 0" "dir_table t 0 = [(lit ''notes'', 1, VFS_FILE)]"
    using directory_refinement [of booted_fs 0 "clit ''notes''"] p booted_fs_facts by (auto simp: spec_enter_def)
  note d = directory_refinement [OF t(2,3) _ p(2,1)]
  obtain u where u: "k_unlink (Some (clit ''notes'')) t = Some (0, u)" "fs_ok u" "current_dir u = Some 0"
      "dir_table u 0 = []"
    using d t(4) by (auto simp: spec_remove_def)
  show ?thesis
    using t u d directory_refinement [OF u(2,3) _ p(2,1)] by simp
qed

text \<open>
  After \<open>touch\<close> has created a file under a valid name, a second \<open>touch\<close> of the name is refused, and
  \<open>unlink\<close> of it succeeds and gives back the listing of names from before.
\<close>

theorem touch_unlink_roundtrip:
  assumes "fs_inv s" "valid_name n" "k_touch (Some (n @ [0])) s = Some (0, t)"
  shows "(\<exists>t'. k_touch (Some (n @ [0])) t = Some (-1, t'))
     \<and> (\<exists>u. k_unlink (Some (n @ [0])) t = Some (0, u) \<and> fs_inv u \<and> dir_names u = dir_names s)"
proof -
  have a: "succeeded (k_touch (Some (n @ [0])) s) = Some t" using assms(3) by (simp add: succeeded_def)
  obtain ts: "fs_inv t" "current_dir t = current_dir s"
    "(0, dir_list t (the (current_dir s))) =
       spec_create VFS_FILE n (vnodes_pool_used s \<ge> 64) (dir_list s (the (current_dir s)))"
    using touch_spec [OF assms(1,2)] assms(3) by auto
  let ?l = "dir_list s (the (current_dir s))"
  have l: "dir_list t (the (current_dir t)) = ?l @ [(n, VFS_FILE)]" "n \<notin> fst ` set ?l"
    using ts by (auto simp: spec_create_def split: if_splits)
  have "listing_index n (?l @ [(n, VFS_FILE)]) = Some (length ?l)"
  proof -
    have "\<forall>j < length ?l. fst ((?l @ [(n, VFS_FILE)]) ! j) \<noteq> n" using l(2) by (auto simp: nth_append image_iff)
    then show ?thesis unfolding listing_index_def find_upt_Some by simp
  qed
  then have "spec_unlink n (dir_list t (the (current_dir t))) = (0, drop_nth (length ?l) (?l @ [(n, VFS_FILE)]))"
    unfolding l by (simp add: spec_unlink_def)
  then obtain u where u: "k_unlink (Some (n @ [0])) t = Some (0, u)" using unlink_spec [OF ts(1) assms(2)] by auto
  then have "succeeded (k_unlink (Some (n @ [0])) t) = Some u" by (simp add: succeeded_def)
  then have "fs_inv u \<and> dir_names u = dir_names s" by (rule dl.add_del [OF assms(1,2) a])
  moreover obtain r t' where r: "k_touch (Some (n @ [0])) t = Some (r, t')" "r \<in> {0, -1}"
    using touch_spec [OF ts(1) assms(2)] by (auto simp: spec_create_def split: if_splits)
  moreover have "r \<noteq> 0" using dl.add_twice [OF assms(1,2) a] r by (auto simp: succeeded_def)
  ultimately show ?thesis using u by auto
qed

theorem touch_unlink_roundtrip_witness:
  "\<exists>t u. k_touch (Some (lit ''a'' @ [0])) booted_fs = Some (0, t)
     \<and> k_unlink (Some (lit ''a'' @ [0])) t = Some (0, u) \<and> dir_names u = dir_names booted_fs"
proof -
  have v: "valid_name (lit ''a'')" by (simp add: valid_name_def plain_name_def)
  obtain t where t: "k_touch (Some (lit ''a'' @ [0])) booted_fs = Some (0, t)"
    using touch_spec [OF booted_fs_facts(1) v] booted_fs_facts by (auto simp: spec_create_def)
  show ?thesis using touch_unlink_roundtrip [OF booted_fs_facts(1) v t] t by auto
qed

text \<open>
  \<open>vfs_lookup\<close> drops a leading slash of a path but \<open>touch\<close> and \<open>mkdir\<close> store the path as it is: a file created
  under \<open>/name\<close> is listed but is not found under the path it was created with.
\<close>

theorem leading_slash_unreachable:
  assumes "fs_ok s" "terminated p" "length (cstr p) < 32" "cstr p = of_char (CHR ''/'') # n" "n \<noteq> []"
    and "current_dir s = Some cur" "k_touch (Some p) s = Some (0, t)"
  shows "dir_list t cur = dir_list s cur @ [(cstr p, VFS_FILE)] \<and> vfs_lookup (Some p) t = Some None"
proof -
  have b: "\<not> blocked (cstr p) s" and c: "created (cstr p) VFS_FILE s t"
    using k_touch_eq [OF assms(1-3)] assms(7) by (auto split: if_splits)
  note f = created_ok [OF assms(1,3) _ b c]
  have cur: "cur < used_nodes s" using current_dirE [OF assms(1)] assms(6) by (metis option.inject)
  have l: "dir_list t cur = dir_list s cur @ [(cstr p, VFS_FILE)]" using f(4) assms(6) by simp
  have res: "resolve (cstr p) x = named_child x (the (current_dir x)) n" for x
    using assms(4,5) by (simp add: resolve_def Let_def)
  have "n \<notin> fst ` set (dir_list s cur)"
    using b res [of s] named_child_None [OF assms(1) cur, of n] assms(6) by (simp add: blocked_def)
  moreover have "n \<noteq> cstr p" using assms(4) by (metis not_Cons_self2)
  moreover have "cur < used_nodes t" using f(3) cur by simp
  ultimately have "named_child t cur n = None"
    using named_child_None [of t cur n] f(1) l by auto
  then show ?thesis using l res [of t] f(1,2) assms(2,6) by (simp add: vfs_lookup_eq)
qed

theorem leading_slash_unreachable_witness:
  "\<exists>t. k_touch (Some (clit ''/x'')) booted_fs = Some (0, t)
     \<and> dir_list t 0 = [(lit ''/x'', VFS_FILE)] \<and> vfs_lookup (Some (clit ''/x'')) t = Some None"
proof -
  have ok: "fs_ok booted_fs" using booted_fs_facts(1) by (simp add: fs_inv_def)
  have "named_child booted_fs 0 (lit ''x'') = None"
    using named_child_None [OF ok, of 0] booted_fs_facts by simp
  moreover have "vn_child_count (node booted_fs 0) = 0"
    using length_dir_list [OF ok, of 0] booted_fs_facts(3) by (simp add: unat_eq_0)
  ultimately have "\<not> blocked (lit ''/x'') booted_fs"
    using booted_fs_facts by (simp add: blocked_def resolve_def)
  then obtain t where t: "k_touch (Some (clit ''/x'')) booted_fs = Some (0, t)"
    using k_touch_eq [OF ok, of "clit ''/x''"] by auto
  then show ?thesis
    using leading_slash_unreachable [OF ok _ _ _ _ booted_fs_facts(2) t, of "lit ''x''"] booted_fs_facts(3) by simp
qed

lemma resolve_frame [simp]:
  "resolve n (s\<lparr>fs_pmm := b\<rparr>) = resolve n s" "resolve n (s\<lparr>fs_mem := c\<rparr>) = resolve n s"
  by (simp_all add: resolve_def named_child_def entry_of_def Let_def split del: if_split cong: if_cong)

lemma read_file_eq:
  assumes "fs_ok s" "terminated p" "file_at (cstr p) s i" "vn_content (node s i) = Some c" "buffer_ok c"
  shows "vfs_read_file (Some p) True s = Some (Some c, Some (of_nat (length (cstr c))))"
proof -
  have "terminated c" using assms(5) by (auto simp: buffer_ok_def terminated_def dest: in_set_takeD)
  then show ?thesis
    using assms lookup_flagged_file [OF assms(1,2)]
    by (simp add: vfs_read_file_def file_at_def content_length_def strlen_eq)
qed

lemma set_file_at: "fs_ok s \<Longrightarrow> i < 64 \<Longrightarrow> file_at n s i \<Longrightarrow> file_at n (set_file i c z s) i"
  by (simp add: file_at_def set_file_frame set_file_node)

lemma append_read:
  assumes inv: "fs_inv t" and p: "terminated p" and f: "file_at (cstr p) t i" and c: "vn_content (node t i) = Some c"
    and e: "unat n \<le> length data2" "0 \<notin> set data2"
  shows "\<exists>u c' r. vfs_append_file (Some p) (Some data2) n t = Some (r, u) \<and> (r = -1 \<longleftrightarrow> length (cstr c) = 63)
     \<and> vfs_read_file (Some p) True u = Some (Some c', Some (of_nat (length (cstr c'))))
     \<and> cstr c' = take 63 (cstr c @ take (unat n) data2)"
proof -
  have ok: "fs_ok t" "texts_ok t" using inv by (simp_all add: fs_inv_def)
  have i: "i < 64" "i < used_nodes t" using file_at_bound [OF ok(1) f] by simp_all
  have b: "buffer_ok c" using ok(2) i f c by (auto simp: texts_ok_def file_at_def)
  have l: "length (cstr c) \<le> 63" by (rule buffer_cstr [OF b])
  let ?l = "length (cstr c)"
  note ap = append_file_eq [OF ok p f c e(1)]
  show ?thesis
  proof (cases "?l = 63")
    case True
    then have "vfs_append_file (Some p) (Some data2) n t = Some (-1, t)" using ap by simp
    then show ?thesis using read_file_eq [OF ok(1) p f c b] True by (intro exI conjI) auto
  next
    case False
    let ?k = "min (unat n) (63 - ?l)"
    let ?c = "spliced c ?l data2 ?k" and ?u = "\<lambda>z. set_file i (Some (spliced c ?l data2 ?k)) z t"
    have tk: "take ?l c = cstr c" by (simp add: cstr_def takeWhile_eq_take [symmetric])
    have cc: "cstr ?c = cstr c @ take ?k data2"
      using spliced_cstr [of ?l c ?k data2] e(2) unfolding tk by (auto dest: in_set_takeD)
    have "buffer_ok ?c" using spliced_ok [of c ?l ?k data2] b l e(1) by (simp add: buffer_ok_def)
    then have "vfs_read_file (Some p) True (?u z) = Some (Some ?c, Some (of_nat (length (cstr ?c))))" for z
      using read_file_eq [of "?u z" p i ?c] set_file_frame(1) [OF ok(1) i(1)] p set_file_at [OF ok(1) i(1) f]
      by (simp add: set_file_node [OF ok(1) i(1)])
    moreover have "vfs_append_file (Some p) (Some data2) n t = Some (0, ?u (of_nat (?l + ?k)))"
      using ap False by (simp add: Let_def)
    moreover have "cstr ?c = take 63 (cstr c @ take (unat n) data2)"
      using cc l by (simp add: min.commute)
    ultimately show ?thesis using False by (intro exI conjI) auto
  qed
qed

text \<open>
  A whole-file write of data without NUL stores its first 63 bytes, and an append after it adds what
  still fits: a read returns exactly the first 63 bytes of what was written and appended, and an append to a
  full file is refused.
\<close>

theorem write_append_read:
  assumes inv: "fs_inv s" and p: "terminated p" and f: "file_at (cstr p) s i" "vn_content (node s i) \<noteq> None"
    and d: "sz \<noteq> 0" "unat sz \<le> length data" "0 \<notin> set data" and e: "unat n \<le> length data2" "0 \<notin> set data2"
  shows "\<exists>t u c c' r. vfs_write_file (Some p) (Some data) sz s = Some (0, t)
     \<and> vfs_read_file (Some p) True t = Some (Some c, Some (of_nat (length (cstr c))))
     \<and> cstr c = take 63 (take (unat sz) data)
     \<and> vfs_append_file (Some p) (Some data2) n t = Some (r, u) \<and> (r = -1 \<longleftrightarrow> 63 \<le> unat sz)
     \<and> vfs_read_file (Some p) True u = Some (Some c', Some (of_nat (length (cstr c'))))
     \<and> cstr c' = take 63 (take (unat sz) data @ take (unat n) data2)"
proof -
  have ok: "fs_ok s" "texts_ok s" using inv by (simp_all add: fs_inv_def)
  have i: "i < 64" using file_at_bound [OF ok(1) f(1)] by simp
  have kd: "kept sz \<le> length data" "take (kept sz) data = take 63 (take (unat sz) data)"
    using d(2) by (simp_all add: kept_def min.commute)
  obtain pm m b where w: "vfs_write_file (Some p) (Some data) sz s =
       Some (0, set_file i (Some (spliced b 0 data (kept sz))) (of_nat (kept sz)) (s\<lparr>fs_pmm := pm, fs_mem := m\<rparr>))"
    and b: "64 \<le> length b"
    by (rule write_file_eq [OF ok p f(1) d(1) kd(1)]) (use f(2) in \<open>auto simp: Let_def split: option.splits\<close>)
  let ?s = "s\<lparr>fs_pmm := pm, fs_mem := m\<rparr>" and ?c = "spliced b 0 data (kept sz)"
  let ?t = "set_file i (Some ?c) (of_nat (kept sz)) ?s"
  have ok': "fs_ok ?s" using ok by simp
  have fs: "file_at (cstr p) ?s i" using f(1) by (simp add: file_at_def)
  have ft: "file_at (cstr p) ?t i" by (rule set_file_at [OF ok' i fs])
  have inv_t: "fs_inv ?t" using write_inv [OF inv p d(2)] w by simp
  then have ok_t: "fs_ok ?t" "texts_ok ?t" by (simp_all add: fs_inv_def)
  have ct: "vn_content (node ?t i) = Some ?c" by (simp add: set_file_node [OF ok' i])
  have bc: "buffer_ok ?c" using spliced_ok [OF b, of 0 "kept sz" data] kd(1) by (simp add: kept_def)
  have cc: "cstr ?c = take (kept sz) data"
    using spliced_cstr [of 0 b "kept sz" data] d(3) by (auto dest: in_set_takeD)
  have lc: "length (cstr ?c) = kept sz" using cc kd(1) by simp
  have "length (cstr ?c) = 63 \<longleftrightarrow> 63 \<le> unat sz" unfolding lc by (auto simp: kept_def min_def)
  moreover have "take 63 (cstr ?c @ take (unat n) data2) = take 63 (take (unat sz) data @ take (unat n) data2)"
    unfolding cc kd(2) using d(2) by (simp add: min_def)
  moreover have "vfs_read_file (Some p) True ?t = Some (Some ?c, Some (of_nat (length (cstr ?c))))"
    by (rule read_file_eq [OF ok_t(1) p ft ct bc])
  moreover obtain u c' r where "vfs_append_file (Some p) (Some data2) n ?t = Some (r, u)"
    "r = -1 \<longleftrightarrow> length (cstr ?c) = 63" "vfs_read_file (Some p) True u = Some (Some c', Some (of_nat (length (cstr c'))))"
    "cstr c' = take 63 (cstr ?c @ take (unat n) data2)"
    using append_read [OF inv_t p ft ct e] by blast
  ultimately show ?thesis using w cc kd(2)
    by (intro exI [of _ ?t] exI [of _ u] exI [of _ ?c] exI [of _ c'] exI [of _ r]) simp
qed

text \<open>A file system with one empty file \<open>a\<close>.\<close>

definition one_file :: fs where
  "one_file = attach 0 (made (lit ''a'') VFS_FILE 0 (Some (replicate 4096 0)) zero_node) booted_fs"

lemma one_file_facts: "fs_inv one_file" "file_at (lit ''a'') one_file 1" "vn_content (node one_file 1) \<noteq> None"
proof -
  have ok: "fs_ok booted_fs" using booted_fs_facts(1) by (simp add: fs_inv_def)
  have u: "used_nodes booted_fs = 1" using booted_fs_facts(4) by simp
  have "vn_child_count (node booted_fs 0) = 0"
    using length_dir_list [OF ok, of 0] booted_fs_facts(3) by (simp add: unat_eq_0)
  then have a: "can_attach 0 booted_fs" using u booted_fs_facts(4) by (simp add: can_attach_def word_less_nat_alt)
  have nm: "lit ''a'' = cstr (clit ''a'')" by simp
  let ?n = "made (lit ''a'') VFS_FILE 0 (Some (replicate 4096 0)) zero_node"
  have new: "new_node 0 ?n" unfolding nm by (rule made_new) simp_all
  note f = attach_fields [OF ok a]
  have ok': "fs_ok one_file" unfolding one_file_def by (rule attach_ok [OF ok a new])
  have n: "node one_file 1 = ?n" using f(1) [of ?n 1] u by (simp add: one_file_def)
  have "vn_flags (node one_file 0) \<noteq> VFS_FILE" using f(1) [of ?n 0] ok booted_fs_facts(2)
    by (auto simp: one_file_def fs_ok_def dir_ptr_def)
  moreover have u': "used_nodes one_file = 2" using f(2) u by (simp add: one_file_def)
  ultimately have "texts_ok one_file"
    using n by (auto simp: texts_ok_def less_2_cases_iff made_def buffer_ok_def terminated_def)
  then show "fs_inv one_file" using ok' by (simp add: fs_inv_def)
  have k: "kids one_file 0 = [Some 1]"
    using attach_kids [OF ok a new, of 0] u booted_fs_facts(3) by (simp add: one_file_def dir_list_def)
  have "cstr (vn_name ?n) = lit ''a''" unfolding nm by (rule made_entry)
  then have "named_child one_file 0 (lit ''a'') = Some 1" by (simp add: named_child_def k entry_of_def n del: One_nat_def)
  moreover have "current_dir one_file = Some 0" using f(4) booted_fs_facts(2) by (simp add: one_file_def)
  ultimately show "file_at (lit ''a'') one_file 1"
    using resolve_plain [of "lit ''a''" one_file] n by (simp add: file_at_def plain_name_def made_def)
  show "vn_content (node one_file 1) \<noteq> None" unfolding n by (simp add: made_def)
qed

theorem write_append_read_witness:
  "\<exists>t u c c' r. vfs_write_file (Some (clit ''a'')) (Some (lit ''hello'')) 5 one_file = Some (0, t)
     \<and> vfs_read_file (Some (clit ''a'')) True t = Some (Some c, Some (of_nat (length (cstr c)))) \<and> cstr c = lit ''hello''
     \<and> vfs_append_file (Some (clit ''a'')) (Some (lit ''!'')) 1 t = Some (r, u) \<and> r \<noteq> -1
     \<and> vfs_read_file (Some (clit ''a'')) True u = Some (Some c', Some (of_nat (length (cstr c')))) \<and> cstr c' = lit ''hello!''"
  using write_append_read [OF one_file_facts(1), of "clit ''a''" 1 5 "lit ''hello''" 1 "lit ''!''"] one_file_facts
  by simp

end
