(* ===== verification/Elf.thy ===== *)
theory Elf
  imports Paging
begin

text \<open>
  The program loader of \<^verbatim>\<open>src/kernel/elf.c\<close>: the user heap (\<open>user_heap_init\<close>, \<open>user_sbrk\<close>, \<open>user_brk\<close>), the
  checks of an ELF image (\<open>elf_validate\<close>), the mapping of its segments (\<open>elf_load\<close>) and the start of a
  program (\<open>elf_exec\<close>). The image is the object \<open>data\<close> points to; reading outside it is \<open>None\<close>.

  The kernel writes to user addresses through the page tables: a byte written at a virtual address goes to
  the physical address \<open>get_physical_address\<close> gives, and a write to an unmapped page, a page fault, is
  \<open>None\<close>. Console output is the list of formats and arguments given to \<open>printf\<close>. \<open>jump_usermode\<close> is
  assembler; the model records its arguments.
\<close>

section \<open>State\<close>

record proc =
  pr_paging :: paging
  user_heap_base :: addr
  user_heap_brk :: addr
  user_heap_initialized :: bool
  pr_out :: "(string \<times> u32 list) list"
  pr_jumps :: "(addr \<times> addr) list"

abbreviation USER_BASE :: u32 where "USER_BASE \<equiv> 0x08048000"
abbreviation USER_TOP :: u32 where "USER_TOP \<equiv> 0xBFFFFFFF"
abbreviation USER_STACK_VIRT :: u32 where "USER_STACK_VIRT \<equiv> 0xBFFFFFFF - PAGE_SIZE + 1"
abbreviation USER_HEAP_LIMIT :: u32 where "USER_HEAP_LIMIT \<equiv> USER_STACK_VIRT"
abbreviation ELF_MAX_MAPPED_PAGES :: u32 where "ELF_MAX_MAPPED_PAGES \<equiv> 2048"

definition pr_print :: "string \<Rightarrow> u32 list \<Rightarrow> proc \<Rightarrow> proc" where
  "pr_print fmt args s = s\<lparr>pr_out := pr_out s @ [(fmt, args)]\<rparr>"

definition page_align_down :: "addr \<Rightarrow> addr" where
  "page_align_down a = a AND NOT (PAGE_SIZE - 1)"

definition page_align_up :: "addr \<Rightarrow> addr" where
  "page_align_up a = (a + PAGE_SIZE - 1) AND NOT (PAGE_SIZE - 1)"

text \<open>
  The number of turns of \<open>for (addr = a; addr < b; addr += PAGE_SIZE)\<close>; \<open>a\<close> and \<open>b\<close> are page aligned in every
  such loop, so the counter does not wrap around.
\<close>

definition page_span :: "addr \<Rightarrow> addr \<Rightarrow> nat" where
  "page_span a b = (unat b - unat a + 4095) div 4096"

definition on_paging :: "(paging \<Rightarrow> paging) \<Rightarrow> proc \<Rightarrow> proc" where
  "on_paging f s = s\<lparr>pr_paging := f (pr_paging s)\<rparr>"

definition proc_alloc_page :: "proc \<Rightarrow> addr \<times> proc" where
  "proc_alloc_page s =
     (let (p, pm) = pmm_alloc_page (pg_pmm (pr_paging s)) in (p, on_paging (\<lambda>g. g\<lparr>pg_pmm := pm\<rparr>) s))"

definition proc_free_page :: "addr \<Rightarrow> proc \<Rightarrow> proc" where
  "proc_free_page p = on_paging (\<lambda>g. g\<lparr>pg_pmm := pmm_free_page p (pg_pmm g)\<rparr>)"

text \<open>\<open>memcpy\<close> and \<open>memset\<close> to a virtual address.\<close>

fun virt_write :: "addr \<Rightarrow> byte list \<Rightarrow> paging \<Rightarrow> paging option" where
  "virt_write v [] s = Some s"
| "virt_write v (b # bs) s =
     (let p = get_physical_address v s
      in if p = 0 then None else virt_write (v + 1) bs (s\<lparr>pg_mem := (pg_mem s)(p := b)\<rparr>))"

fun virt_memset :: "addr \<Rightarrow> byte \<Rightarrow> nat \<Rightarrow> paging \<Rightarrow> paging option" where
  "virt_memset v c 0 s = Some s"
| "virt_memset v c (Suc n) s = do { s \<leftarrow> virt_write v [c] s; virt_memset v c n s }"

definition proc_write :: "addr \<Rightarrow> byte list \<Rightarrow> proc \<Rightarrow> proc option" where
  "proc_write v bs s = map_option (\<lambda>g. s\<lparr>pr_paging := g\<rparr>) (virt_write v bs (pr_paging s))"

definition proc_memset :: "addr \<Rightarrow> byte \<Rightarrow> nat \<Rightarrow> proc \<Rightarrow> proc option" where
  "proc_memset v c n s = map_option (\<lambda>g. s\<lparr>pr_paging := g\<rparr>) (virt_memset v c n (pr_paging s))"

section \<open>The user heap\<close>

definition user_heap_init :: "addr \<Rightarrow> proc \<Rightarrow> proc" where
  "user_heap_init base s =
     (let b = page_align_up base;
          b = (if b < USER_BASE then USER_BASE else b)
      in s\<lparr>user_heap_base := b, user_heap_brk := b, user_heap_initialized := True\<rparr>)"

text \<open>The loop that unmaps and frees \<open>n\<close> pages from \<open>a\<close> on, in the rollback and when the heap shrinks.\<close>

fun release_range :: "addr \<Rightarrow> nat \<Rightarrow> proc \<Rightarrow> proc" where
  "release_range a 0 s = s"
| "release_range a (Suc n) s =
     (let phys = get_physical_address a (pr_paging s);
          s = (if phys \<noteq> 0 then proc_free_page phys (on_paging (unmap_page a) s) else s)
      in release_range (a + PAGE_SIZE) n s)"

fun grow_heap :: "addr \<Rightarrow> addr \<Rightarrow> nat \<Rightarrow> proc \<Rightarrow> bool \<times> proc" where
  "grow_heap start a 0 s = (True, s)"
| "grow_heap start a (Suc n) s =
     (let (phys, s) = proc_alloc_page s
      in if phys = 0 then (False, release_range start (page_span start a) s)
         else grow_heap start (a + PAGE_SIZE) n
                (on_paging (map_page a phys (PAGE_PRESENT OR PAGE_WRITE OR PAGE_USER)) s))"

definition user_sbrk :: "u32 \<Rightarrow> proc \<Rightarrow> u32 \<times> proc" where
  "user_sbrk increment s =
     (if \<not> user_heap_initialized s then (-1, s)
      else
        let old_brk = user_heap_brk s
        in if increment = 0 then (old_brk, s)
           else
             let new_brk = old_brk + increment
             in if new_brk < user_heap_base s \<or> new_brk > USER_HEAP_LIMIT then (-1, s)
                else
                  let (ok, s) =
                    (if 0 <s increment then
                       grow_heap (page_align_up old_brk) (page_align_up old_brk)
                         (page_span (page_align_up old_brk) (page_align_up new_brk)) s
                     else
                       (True, release_range (page_align_up new_brk)
                                (page_span (page_align_up new_brk) (page_align_up old_brk)) s))
                  in if \<not> ok then (-1, s) else (old_brk, s\<lparr>user_heap_brk := new_brk\<rparr>))"

definition user_brk :: "addr \<Rightarrow> proc \<Rightarrow> int \<times> proc" where
  "user_brk a s =
     (if \<not> user_heap_initialized s then (-1, s)
      else
        let target = (if a = 0 then user_heap_brk s else a)
        in if target < user_heap_base s \<or> target > USER_HEAP_LIMIT then (-1, s)
           else if target > user_heap_brk s then
             let (r, s) = user_sbrk (target - user_heap_brk s) s in (if r = -1 then -1 else 0, s)
           else if target < user_heap_brk s then
             let (r, s) = user_sbrk (target - user_heap_brk s) s in (if r = -1 then -1 else 0, s)
           else (0, s))"

section \<open>Reading the image\<close>

abbreviation ELF_MAGIC :: u32 where "ELF_MAGIC \<equiv> 0x464C457F"
abbreviation ET_EXEC :: u16 where "ET_EXEC \<equiv> 2"
abbreviation ET_DYN :: u16 where "ET_DYN \<equiv> 3"
abbreviation EM_386 :: u16 where "EM_386 \<equiv> 3"
abbreviation PT_LOAD :: u32 where "PT_LOAD \<equiv> 1"

definition read16 :: "byte list \<Rightarrow> nat \<Rightarrow> u16 option" where
  "read16 data off =
     do { b0 \<leftarrow> array_get data off; b1 \<leftarrow> array_get data (off + 1);
          Some (ucast b0 OR push_bit 8 (ucast b1)) }"

definition read32 :: "byte list \<Rightarrow> nat \<Rightarrow> u32 option" where
  "read32 data off =
     do { w0 \<leftarrow> read16 data off; w1 \<leftarrow> read16 data (off + 2);
          Some (ucast w0 OR push_bit 16 (ucast w1)) }"

text \<open>\<open>Elf32_Ehdr\<close> and \<open>Elf32_Phdr\<close>: the fields the loader reads.\<close>

record ehdr =
  e_ident :: u32
  e_type :: u16
  e_machine :: u16
  e_version :: u32
  e_entry :: u32
  e_phoff :: u32
  e_phentsize :: u16
  e_phnum :: u16

record phdr =
  p_type :: u32
  p_offset :: u32
  p_vaddr :: u32
  p_filesz :: u32
  p_memsz :: u32
  p_flags :: u32
  p_align :: u32

definition read_ehdr :: "byte list \<Rightarrow> ehdr option" where
  "read_ehdr data =
     do { ident \<leftarrow> read32 data 0; ty \<leftarrow> read16 data 16; mach \<leftarrow> read16 data 18; ver \<leftarrow> read32 data 20;
          entry \<leftarrow> read32 data 24; phoff \<leftarrow> read32 data 28; phentsize \<leftarrow> read16 data 42; phnum \<leftarrow> read16 data 44;
          Some \<lparr>e_ident = ident, e_type = ty, e_machine = mach, e_version = ver, e_entry = entry,
                e_phoff = phoff, e_phentsize = phentsize, e_phnum = phnum\<rparr> }"

definition read_phdr :: "byte list \<Rightarrow> nat \<Rightarrow> phdr option" where
  "read_phdr data off =
     do { ty \<leftarrow> read32 data off; offset \<leftarrow> read32 data (off + 4); vaddr \<leftarrow> read32 data (off + 8);
          filesz \<leftarrow> read32 data (off + 16); memsz \<leftarrow> read32 data (off + 20); flags \<leftarrow> read32 data (off + 24);
          align \<leftarrow> read32 data (off + 28);
          Some \<lparr>p_type = ty, p_offset = offset, p_vaddr = vaddr, p_filesz = filesz, p_memsz = memsz,
                p_flags = flags, p_align = align\<rparr> }"

text \<open>\<open>data + ehdr->e_phoff + i * ehdr->e_phentsize\<close>\<close>

definition phdr_at :: "byte list \<Rightarrow> ehdr \<Rightarrow> nat \<Rightarrow> phdr option" where
  "phdr_at data eh i = read_phdr data (unat (e_phoff eh) + i * unat (e_phentsize eh))"

definition load_bias :: "ehdr \<Rightarrow> addr" where
  "load_bias eh = (if e_type eh = ET_DYN then USER_BASE else 0)"

section \<open>Validation\<close>

definition elf_error :: "string \<Rightarrow> u32 list \<Rightarrow> proc \<Rightarrow> int \<times> proc" where
  "elf_error fmt args s = (-1, pr_print fmt args s)"

text \<open>The body of the loop over the program headers of \<open>elf_validate\<close>; \<open>None\<close>: the segment is accepted.\<close>

definition segment_error :: "u32 \<Rightarrow> addr \<Rightarrow> phdr \<Rightarrow> string option" where
  "segment_error sz bias ph =
     (if p_type ph \<noteq> PT_LOAD then None
      else if p_memsz ph < p_filesz ph then Some ''elf: segment %u has memsz < filesz\<newline>''
      else if p_flags ph AND NOT 7 \<noteq> 0 then Some ''elf: segment %u has unsupported flags\<newline>''
      else if p_offset ph > sz then Some ''elf: segment %u file offset out of bounds\<newline>''
      else if (ucast (p_offset ph) :: u64) + ucast (p_filesz ph) > ucast sz
      then Some ''elf: segment %u file bounds out of range\<newline>''
      else
        let virt_begin = p_vaddr ph + bias; virt_end = p_vaddr ph + bias + p_memsz ph
        in if virt_end < virt_begin then Some ''elf: segment %u overflows virtual address\<newline>''
           else if virt_begin < USER_BASE then Some ''elf: segment %u maps below user base\<newline>''
           else if virt_end > USER_TOP + 1 then Some ''elf: segment %u exceeds user space\<newline>''
           else if p_align ph \<noteq> 0 \<and> p_vaddr ph mod p_align ph \<noteq> p_offset ph mod p_align ph
           then Some ''elf: segment %u alignment mismatch\<newline>''
           else None)"

fun validate_segments :: "byte list \<Rightarrow> u32 \<Rightarrow> ehdr \<Rightarrow> nat \<Rightarrow> nat \<Rightarrow> proc \<Rightarrow> (int \<times> proc) option" where
  "validate_segments data sz eh i 0 s = Some (0, s)"
| "validate_segments data sz eh i (Suc n) s =
     do { ph \<leftarrow> phdr_at data eh i;
          case segment_error sz (load_bias eh) ph of
            Some fmt \<Rightarrow> Some (elf_error fmt [of_nat i] s)
          | None \<Rightarrow> validate_segments data sz eh (Suc i) n s }"

definition elf_validate :: "byte list option \<Rightarrow> u32 \<Rightarrow> proc \<Rightarrow> (int \<times> proc) option" where
  "elf_validate data sz s =
     (case data of
        None \<Rightarrow> Some (elf_error ''elf: too small\<newline>'' [] s)
      | Some data \<Rightarrow>
          if sz < 52 then Some (elf_error ''elf: too small\<newline>'' [] s)
          else do {
            eh \<leftarrow> read_ehdr data;
            if e_ident eh \<noteq> ELF_MAGIC then Some (elf_error ''elf: bad magic\<newline>'' [] s)
            else if e_type eh \<noteq> ET_EXEC \<and> e_type eh \<noteq> ET_DYN
            then Some (elf_error ''elf: not an executable or shared object\<newline>'' [] s)
            else if e_machine eh \<noteq> EM_386 then Some (elf_error ''elf: not IA-32\<newline>'' [] s)
            else if e_version eh \<noteq> 1 then Some (elf_error ''elf: unsupported ELF version\<newline>'' [] s)
            else if e_phoff eh = 0 \<or> e_phnum eh = 0 then Some (elf_error ''elf: no program headers\<newline>'' [] s)
            else if e_phentsize eh < 32 then Some (elf_error ''elf: invalid program header size\<newline>'' [] s)
            else if (ucast (e_phoff eh) :: u64) + ucast (e_phnum eh) * ucast (e_phentsize eh) > ucast sz
            then Some (elf_error ''elf: program header table out of bounds\<newline>'' [] s)
            else if e_entry eh = 0 \<or> e_entry eh + load_bias eh < USER_BASE \<or> e_entry eh + load_bias eh > USER_TOP
            then Some (elf_error ''elf: invalid entry point\<newline>'' [] s)
            else validate_segments data sz eh 0 (unat (e_phnum eh)) s })"

section \<open>Loading\<close>

type_synonym mapped_page = "addr \<times> addr"

text \<open>The first \<open>count\<close> cells of the array \<open>mapped_pages\<close>.\<close>

fun cleanup_mapped_pages :: "mapped_page list \<Rightarrow> proc \<Rightarrow> proc" where
  "cleanup_mapped_pages [] s = s"
| "cleanup_mapped_pages ((virt, phys) # mps) s =
     cleanup_mapped_pages mps
       (if virt \<noteq> 0 then
          let s = on_paging (unmap_page virt) s in if phys \<noteq> 0 then proc_free_page phys s else s
        else s)"

text \<open>
  The loop over the pages of a segment. The result is the list of mapped pages, or \<open>None\<close> after an error,
  when the pages mapped so far have been released. A page fault, or an entry past the end of
  \<open>mapped_pages\<close>, is the outer \<open>None\<close>.
\<close>

fun map_segment :: "addr \<Rightarrow> nat \<Rightarrow> u32 \<Rightarrow> mapped_page list \<Rightarrow> proc \<Rightarrow> (mapped_page list option \<times> proc) option" where
  "map_segment a 0 flags mps s = Some (Some mps, s)"
| "map_segment a (Suc n) flags mps s =
     (let existing_phys = get_physical_address a (pr_paging s);
          s = (if existing_phys \<noteq> 0 then proc_free_page existing_phys (on_paging (unmap_page a) s) else s);
          (phys, s) = proc_alloc_page s
      in if phys = 0
         then Some (None, cleanup_mapped_pages mps (pr_print ''elf: out of memory for segment\<newline>'' [] s))
         else
           let segment_flags = PAGE_PRESENT OR PAGE_USER;
               segment_flags = (if flags AND 2 \<noteq> 0 then segment_flags OR PAGE_WRITE else segment_flags);
               s = on_paging (map_page a phys segment_flags) s
           in if get_physical_address a (pr_paging s) \<noteq> phys
              then Some (None, cleanup_mapped_pages mps
                                 (pr_print ''elf: failed to map page\<newline>'' [] (proc_free_page phys s)))
              else if 2048 \<le> length mps then None
              else do { s \<leftarrow> proc_memset a 0 4096 s;
                        map_segment (a + PAGE_SIZE) n flags (mps @ [(a, phys)]) s })"

definition slice :: "byte list \<Rightarrow> nat \<Rightarrow> nat \<Rightarrow> byte list option" where
  "slice data off n = (if off + n \<le> length data then Some (take n (drop off data)) else None)"

text \<open>The body of the loop of \<open>elf_load\<close> for one program header.\<close>

definition load_segment ::
  "byte list \<Rightarrow> addr \<Rightarrow> phdr \<Rightarrow> mapped_page list \<Rightarrow> addr \<Rightarrow> proc \<Rightarrow> ((mapped_page list \<times> addr) option \<times> proc) option"
  where
  "load_segment data bias ph mps max_segment_end s =
     (if p_type ph \<noteq> PT_LOAD then Some (Some (mps, max_segment_end), s)
      else
        let segment_va = p_vaddr ph + bias;
            segment_start = page_align_down segment_va;
            segment_end = page_align_up (segment_va + p_memsz ph);
            page_count = (segment_end - segment_start) div PAGE_SIZE
        in if page_count = 0 then Some (Some (mps, max_segment_end), s)
           else if page_count > ELF_MAX_MAPPED_PAGES - of_nat (length mps)
           then Some (None, cleanup_mapped_pages mps (pr_print ''elf: too many mapped pages\<newline>'' [] s))
           else do {
             (r, s) \<leftarrow> map_segment segment_start (page_span segment_start segment_end) (p_flags ph) mps s;
             case r of
               None \<Rightarrow> Some (None, s)
             | Some mps \<Rightarrow>
                 do { bytes \<leftarrow> slice data (unat (p_offset ph)) (unat (p_filesz ph));
                      s \<leftarrow> proc_write segment_va bytes s;
                      s \<leftarrow> (if p_memsz ph > p_filesz ph
                            then proc_memset (segment_va + p_filesz ph) 0 (unat (p_memsz ph - p_filesz ph)) s
                            else Some s);
                      Some (Some (mps, if segment_end > max_segment_end then segment_end else max_segment_end), s) } })"

fun load_segments ::
  "byte list \<Rightarrow> ehdr \<Rightarrow> nat \<Rightarrow> nat \<Rightarrow> mapped_page list \<Rightarrow> addr \<Rightarrow> proc \<Rightarrow> (addr option \<times> proc) option" where
  "load_segments data eh i 0 mps max_segment_end s = Some (Some max_segment_end, s)"
| "load_segments data eh i (Suc n) mps max_segment_end s =
     do { ph \<leftarrow> phdr_at data eh i;
          (r, s) \<leftarrow> load_segment data (load_bias eh) ph mps max_segment_end s;
          case r of
            None \<Rightarrow> Some (None, s)
          | Some (mps, m) \<Rightarrow> load_segments data eh (Suc i) n mps m s }"

definition elf_load :: "byte list option \<Rightarrow> u32 \<Rightarrow> proc \<Rightarrow> (u32 \<times> proc) option" where
  "elf_load data sz s =
     do { (v, s) \<leftarrow> elf_validate data sz s;
          if v \<noteq> 0 then Some (0, s)
          else do {
            data \<leftarrow> data;
            eh \<leftarrow> read_ehdr data;
            (r, s) \<leftarrow> load_segments data eh 0 (unat (e_phnum eh)) [] USER_BASE s;
            case r of
              None \<Rightarrow> Some (0, s)
            | Some max_segment_end \<Rightarrow> Some (e_entry eh + load_bias eh, user_heap_init max_segment_end s) } }"

text \<open>
  \<open>memset(stack_phys, 0, PAGE_SIZE)\<close> writes at the frame's own address, which the identity mapping maps for
  frames below 16 MiB.
\<close>

definition elf_exec :: "byte list option \<Rightarrow> u32 \<Rightarrow> proc \<Rightarrow> (int \<times> proc) option" where
  "elf_exec data sz s =
     do { (entry, s) \<leftarrow> elf_load data sz s;
          if entry = 0 then Some (-1, pr_print ''elf: load failed\<newline>'' [] s)
          else
            let (stack_phys, s) = proc_alloc_page s
            in if stack_phys = 0 then Some (-1, pr_print ''elf: out of memory for user stack\<newline>'' [] s)
               else do {
                 s \<leftarrow> proc_memset stack_phys 0 4096 s;
                 let stack_virt = USER_STACK_VIRT;
                 let s = on_paging (map_page stack_virt stack_phys (PAGE_PRESENT OR PAGE_WRITE OR PAGE_USER)) s;
                 if get_physical_address stack_virt (pr_paging s) \<noteq> stack_phys
                 then Some (-1, pr_print ''elf: failed to map user stack\<newline>'' [] (proc_free_page stack_phys s))
                 else
                   let user_esp = (stack_virt + PAGE_SIZE) AND NOT 0xF;
                       s = s\<lparr>pr_jumps := pr_jumps s @ [(entry, user_esp)]\<rparr>
                   in Some (0, on_paging (unmap_page stack_virt) (proc_free_page stack_phys s)) } }"

section \<open>Reads inside the image\<close>

lemma read16_in: "off + 2 \<le> length data \<Longrightarrow> \<exists>w. read16 data off = Some w"
  by (simp add: read16_def array_get_def)

lemma read32_in: "off + 4 \<le> length data \<Longrightarrow> \<exists>w. read32 data off = Some w"
  using read16_in [of off data] read16_in [of "off + 2" data] by (auto simp: read32_def)

lemma read_ehdr_in: "52 \<le> length data \<Longrightarrow> \<exists>eh. read_ehdr data = Some eh"
  using read32_in [of 0 data] read16_in [of 16 data] read16_in [of 18 data] read32_in [of 20 data]
    read32_in [of 24 data] read32_in [of 28 data] read16_in [of 42 data] read16_in [of 44 data]
  by (auto simp: read_ehdr_def)

lemma read_phdr_in: "off + 32 \<le> length data \<Longrightarrow> \<exists>ph. read_phdr data off = Some ph"
  using read32_in [of off data] read32_in [of "off + 4" data] read32_in [of "off + 8" data]
    read32_in [of "off + 16" data] read32_in [of "off + 20" data] read32_in [of "off + 24" data]
    read32_in [of "off + 28" data]
  by (auto simp: read_phdr_def)

text \<open>The sums the loader forms in 64 bits are exact.\<close>

lemma unat_ucast_u64: "unat (ucast x :: u64) = unat x" for x :: u32
  using unat_u32_bound [of x] by (simp add: unsigned_ucast_eq take_bit_nat_eq_self)

lemma unat_ucast16_u64: "unat (ucast x :: u64) = unat x" "unat x < 65536" for x :: u16
proof -
  show "unat x < 65536" using unsigned_less [where ?'a = nat, of x] by simp
  then show "unat (ucast x :: u64) = unat x" by (simp add: unsigned_ucast_eq take_bit_nat_eq_self)
qed

lemma u64_sum: "unat ((ucast a :: u64) + ucast b) = unat a + unat b" for a b :: u32
  using unat_u32_bound [of a] unat_u32_bound [of b] by (simp add: unat_word_ariths unat_ucast_u64)

lemma u64_table:
  "unat ((ucast off :: u64) + ucast n * ucast sz) = unat off + unat n * unat sz" for off :: u32 and n sz :: u16
proof -
  have "unat n * unat sz \<le> 65535 * 65535"
    using unat_ucast16_u64(2) [of n] unat_ucast16_u64(2) [of sz] by (intro mult_le_mono) simp_all
  then show ?thesis
    using unat_u32_bound [of off] by (simp add: unat_word_ariths unat_ucast_u64 unat_ucast16_u64(1))
qed

definition table_in :: "byte list \<Rightarrow> u32 \<Rightarrow> ehdr \<Rightarrow> bool" where
  "table_in data sz eh \<longleftrightarrow> 32 \<le> unat (e_phentsize eh) \<and> unat sz \<le> length data
     \<and> unat (e_phoff eh) + unat (e_phnum eh) * unat (e_phentsize eh) \<le> unat sz"

lemma phdr_at_in:
  assumes "table_in data sz eh" "i < unat (e_phnum eh)"
  shows "\<exists>ph. phdr_at data eh i = Some ph"
proof -
  let ?e = "unat (e_phentsize eh)"
  have "(i + 1) * ?e \<le> unat (e_phnum eh) * ?e" using assms(2) by (intro mult_le_mono1) simp
  then have "unat (e_phoff eh) + i * ?e + 32 \<le> length data"
    using assms(1) by (simp add: table_in_def)
  then show ?thesis unfolding phdr_at_def by (rule read_phdr_in)
qed

lemma validate_segments_returns:
  assumes "table_in data sz eh" "i + n \<le> unat (e_phnum eh)"
  shows "\<exists>r s'. validate_segments data sz eh i n s = Some (r, s') \<and> (r = 0 \<or> r = -1)
     \<and> (r = 0 \<longleftrightarrow> (\<forall>j. i \<le> j \<and> j < i + n \<longrightarrow> segment_error sz (load_bias eh) (the (phdr_at data eh j)) = None))
     \<and> (r = 0 \<longrightarrow> s' = s)"
  using assms(2)
proof (induction n arbitrary: i)
  case (Suc n)
  obtain ph where ph: "phdr_at data eh i = Some ph" using phdr_at_in [OF assms(1), of i] Suc.prems by auto
  show ?case
  proof (cases "segment_error sz (load_bias eh) ph")
    case None
    obtain r s' where "validate_segments data sz eh (Suc i) n s = Some (r, s')" "r = 0 \<or> r = -1"
      "r = 0 \<longleftrightarrow> (\<forall>j. Suc i \<le> j \<and> j < Suc i + n \<longrightarrow> segment_error sz (load_bias eh) (the (phdr_at data eh j)) = None)"
      "r = 0 \<longrightarrow> s' = s"
      using Suc.IH [of "Suc i"] Suc.prems by auto
    moreover have "(\<forall>j. i \<le> j \<and> j < i + Suc n \<longrightarrow> P j) \<longleftrightarrow> P i \<and> (\<forall>j. Suc i \<le> j \<and> j < Suc i + n \<longrightarrow> P j)" for P
      by (metis Suc_leI add_Suc_right add_Suc_shift le_SucI le_less less_add_Suc1 less_le_not_le not_less_eq_eq order_refl)
    ultimately show ?thesis using ph None by simp
  next
    case (Some fmt)
    then show ?thesis using ph by (auto simp: elf_error_def)
  qed
qed auto

text \<open>The tests of the header, in the order of the code.\<close>

definition header_ok :: "u32 \<Rightarrow> ehdr \<Rightarrow> bool" where
  "header_ok sz eh \<longleftrightarrow> e_ident eh = ELF_MAGIC \<and> e_type eh \<in> {ET_EXEC, ET_DYN} \<and> e_machine eh = EM_386
     \<and> e_version eh = 1 \<and> e_phoff eh \<noteq> 0 \<and> e_phnum eh \<noteq> 0 \<and> 32 \<le> unat (e_phentsize eh)
     \<and> unat (e_phoff eh) + unat (e_phnum eh) * unat (e_phentsize eh) \<le> unat sz
     \<and> e_entry eh \<noteq> 0 \<and> USER_BASE \<le> e_entry eh + load_bias eh \<and> e_entry eh + load_bias eh \<le> USER_TOP"

lemma elf_validate_cases:
  assumes sz: "unat sz \<le> length data"
  obtains r s' where "elf_validate (Some data) sz s = Some (r, s')" "r = 0 \<or> r = -1"
    "r = 0 \<longleftrightarrow> 52 \<le> unat sz \<and> header_ok sz (the (read_ehdr data))
       \<and> (\<forall>j < unat (e_phnum (the (read_ehdr data))).
            segment_error sz (load_bias (the (read_ehdr data))) (the (phdr_at data (the (read_ehdr data)) j)) = None)"
    "r = 0 \<longrightarrow> s' = s"
proof (cases "sz < 52")
  case True
  then show thesis by (intro that [of "-1"]) (auto simp: elf_validate_def elf_error_def word_less_nat_alt)
next
  case False
  then have "52 \<le> length data" using sz by (simp add: word_less_nat_alt)
  then obtain eh where eh: "read_ehdr data = Some eh" using read_ehdr_in by blast
  have c: "(ucast (e_phoff eh) :: u64) + ucast (e_phnum eh) * ucast (e_phentsize eh) > ucast sz
      \<longleftrightarrow> \<not> unat (e_phoff eh) + unat (e_phnum eh) * unat (e_phentsize eh) \<le> unat sz"
    by (simp add: word_less_nat_alt u64_table unat_ucast_u64 not_le)
  have e: "e_phentsize eh < 32 \<longleftrightarrow> \<not> 32 \<le> unat (e_phentsize eh)" by (simp add: word_less_nat_alt not_le)
  show thesis
  proof (cases "header_ok sz eh")
    case True
    then have t: "table_in data sz eh" using sz by (simp add: header_ok_def table_in_def)
    obtain r s' where v: "validate_segments data sz eh 0 (unat (e_phnum eh)) s = Some (r, s')" "r = 0 \<or> r = -1"
      "r = 0 \<longleftrightarrow> (\<forall>j. 0 \<le> j \<and> j < 0 + unat (e_phnum eh) \<longrightarrow> segment_error sz (load_bias eh) (the (phdr_at data eh j)) = None)"
      "r = 0 \<longrightarrow> s' = s"
      using validate_segments_returns [OF t, of 0 "unat (e_phnum eh)"] by (metis add_0 le_refl)
    moreover have "elf_validate (Some data) sz s = validate_segments data sz eh 0 (unat (e_phnum eh)) s"
      using True False eh c e by (auto simp: elf_validate_def header_ok_def not_less)
    ultimately show thesis using True False eh by (intro that [of r s']) (auto simp: word_less_nat_alt)
  next
    case f: False
    have "\<exists>s'. elf_validate (Some data) sz s = Some (-1, s')"
      using f False eh c e by (auto simp: elf_validate_def header_ok_def elf_error_def not_less not_le)
    then show thesis using f eh that by auto
  qed
qed

text \<open>What an accepted segment satisfies, with all sums formed without wrap-around.\<close>

definition segment_fits :: "nat \<Rightarrow> addr \<Rightarrow> phdr \<Rightarrow> bool" where
  "segment_fits n bias ph \<longleftrightarrow>
     unat (p_offset ph) + unat (p_filesz ph) \<le> n \<and> p_filesz ph \<le> p_memsz ph
     \<and> unat USER_BASE \<le> unat (p_vaddr ph) + unat bias
     \<and> unat (p_vaddr ph) + unat bias + unat (p_memsz ph) \<le> unat USER_TOP + 1"

lemma no_wrap_into_user:
  assumes "USER_BASE \<le> (v :: u32) + bias" "bias = 0 \<or> bias = USER_BASE"
  shows "unat (v + bias) = unat v + unat bias"
proof (cases "bias = 0")
  case False
  then have b: "unat bias = 134512640" using assms(2) by simp
  show ?thesis
  proof (rule ccontr)
    assume "unat (v + bias) \<noteq> unat v + unat bias"
    then have w: "4294967296 \<le> unat v + unat bias" using unat_u32_plus [of v bias] by (meson not_less)
    have "unat (v + bias) = (unat v + unat bias) mod 4294967296" by (simp add: unat_word_ariths)
    also have "\<dots> = unat v + unat bias - 4294967296"
      using w b unat_u32_bound [of v] by (simp add: mod_if)
    finally show False using assms(1) b unat_u32_bound [of v] by (simp add: word_le_nat_alt)
  qed
qed simp

lemma segment_error_fits:
  assumes "segment_error sz bias ph = None" "p_type ph = PT_LOAD" "bias = 0 \<or> bias = USER_BASE"
  shows "segment_fits (unat sz) bias ph"
proof -
  let ?b = "p_vaddr ph + bias"
  have f: "\<not> p_memsz ph < p_filesz ph" "\<not> (ucast sz :: u64) < ucast (p_offset ph) + ucast (p_filesz ph)"
    "\<not> ?b + p_memsz ph < ?b" "\<not> ?b < USER_BASE" "\<not> USER_TOP + 1 < ?b + p_memsz ph"
    using assms(1,2) by (auto simp: segment_error_def Let_def split: if_splits)
  have b: "unat ?b = unat (p_vaddr ph) + unat bias" using no_wrap_into_user [of "p_vaddr ph" bias] f(4) assms(3) by (simp add: not_less)
  have e: "unat (?b + p_memsz ph) = unat ?b + unat (p_memsz ph)"
    using f(3) by (simp add: unat_plus_simple not_less)
  have "unat ?b + unat (p_memsz ph) \<le> 3221225472" using f(5) e by (simp add: word_less_nat_alt not_less)
  moreover have "134512640 \<le> unat ?b" using f(4) by (simp add: word_less_nat_alt not_less)
  moreover have "unat (p_offset ph) + unat (p_filesz ph) \<le> unat sz"
    using f(2) by (simp add: word_less_nat_alt u64_sum unat_ucast_u64 not_less)
  ultimately show ?thesis using f(1) b by (simp add: segment_fits_def not_less)
qed

section \<open>The user heap\<close>

definition heap_wf :: "proc \<Rightarrow> bool" where
  "heap_wf s \<longleftrightarrow> (user_heap_initialized s \<longrightarrow>
     USER_BASE \<le> user_heap_base s \<and> user_heap_base s \<le> user_heap_brk s \<and> user_heap_brk s \<le> USER_HEAP_LIMIT)"

lemma proc_frame [simp]:
  "user_heap_base (on_paging f s) = user_heap_base s" "user_heap_brk (on_paging f s) = user_heap_brk s"
  "user_heap_initialized (on_paging f s) = user_heap_initialized s" "pr_paging (on_paging f s) = f (pr_paging s)"
  "pr_out (on_paging f s) = pr_out s" "pr_jumps (on_paging f s) = pr_jumps s"
  by (simp_all add: on_paging_def)

definition same_heap :: "proc \<Rightarrow> proc \<Rightarrow> bool" where
  "same_heap s t \<longleftrightarrow> user_heap_base t = user_heap_base s \<and> user_heap_brk t = user_heap_brk s
     \<and> user_heap_initialized t = user_heap_initialized s"

lemma release_range_same: "same_heap s (release_range a n s)"
  by (induction a n s rule: release_range.induct) (auto simp: same_heap_def Let_def proc_free_page_def)

lemma grow_heap_same: "grow_heap start a n s = (ok, t) \<Longrightarrow> same_heap s t"
proof (induction start a n s rule: grow_heap.induct)
  case (2 start a n s)
  obtain p s1 where p: "proc_alloc_page s = (p, s1)" by fastforce
  then have s1: "same_heap s s1" by (auto simp: proc_alloc_page_def same_heap_def split: prod.splits)
  show ?case
  proof (cases "p = 0")
    case True
    then show ?thesis using 2(2) p s1 release_range_same [of s1] by (auto simp: same_heap_def)
  next
    case False
    then show ?thesis using 2(1) [OF p [symmetric] refl False] 2(2) p s1 by (auto simp: same_heap_def)
  qed
qed (simp add: same_heap_def)

section \<open>Growing the user heap\<close>

lemma and_not_fff: "(y :: u32) AND NOT 0xFFF = 4096 * (y div 4096)"
proof -
  have "y AND NOT (mask 12) = push_bit 12 (drop_bit 12 y)" by (rule bit_word_eqI) (auto simp: bit_simps)
  moreover have "(0xFFF :: u32) = mask 12" by (simp add: mask_eq_exp_minus_1)
  ultimately show ?thesis by (simp add: push_bit_eq_mult drop_bit_eq_div)
qed

lemma unat_and_not_fff: "unat ((y :: u32) AND NOT 0xFFF) = unat y div 4096 * 4096"
proof -
  have d: "unat (y div 4096) = unat y div 4096" by (simp add: unat_div)
  have "unat y div 4096 * 4096 \<le> unat y" by simp
  then have "unat y div 4096 * 4096 < 4294967296" using unat_u32_bound [of y] by simp
  then show ?thesis unfolding and_not_fff by (simp add: unat_word_ariths d mult.commute)
qed

lemma unat_page_align_down: "unat (page_align_down x) = unat x div 4096 * 4096"
  using unat_and_not_fff [of x] by (simp add: page_align_down_def)

lemma unat_page_align_up:
  "unat x + 4095 < 4294967296 \<Longrightarrow> unat (page_align_up x) = (unat x + 4095) div 4096 * 4096"
proof -
  assume "unat x + 4095 < 4294967296"
  then have "unat (x + 4095) = unat x + 4095" by (simp add: unat_u32_plus)
  moreover have "page_align_up x = (x + 4095) AND NOT 0xFFF" by (simp add: page_align_up_def add.commute)
  ultimately show ?thesis using unat_and_not_fff [of "x + 4095"] by (simp only:)
qed

lemma same_page_nat: "same_page v w \<longleftrightarrow> unat v div 4096 = unat w div 4096"
  by (simp add: same_page_def drop_bit_eq_div word_unat_eq_iff unat_div)

lemma pmm_change_get [simp]:
  "get_physical_address w (s\<lparr>pg_pmm := p\<rparr>) = get_physical_address w s"
  "pde_present (s\<lparr>pg_pmm := p\<rparr>) i = pde_present s i" "table_of (s\<lparr>pg_pmm := p\<rparr>) i = table_of s i"
  by (simp_all add: get_physical_address_def pde_present_def table_of_def pde_def)

lemma alloc_keeps_paging_ok:
  assumes ok: "paging_ok s" and a: "pmm_alloc_page (pg_pmm s) = (p, pm)" "p \<noteq> 0"
  shows "paging_ok (s\<lparr>pg_pmm := pm\<rparr>)" "p \<notin> used_frames (pg_pmm s)" "page_aligned p"
    "used_frames pm = insert p (used_frames (pg_pmm s))"
proof -
  note f = pa.alloc_page [OF paging_okD(1) [OF ok] a]
  have m: "pmm_memory_start pm = pmm_memory_start (pg_pmm s)" using alloc_memory_start [of "pg_pmm s"] a by simp
  show "paging_ok (s\<lparr>pg_pmm := pm\<rparr>)"
    using ok f m by (auto simp: paging_ok_def)
  show "p \<notin> used_frames (pg_pmm s)" "used_frames pm = insert p (used_frames (pg_pmm s))" using f by auto
  show "page_aligned p" using f frame_aligned [OF paging_okD(1,2) [OF ok]] by auto
qed

lemma map_page_present:
  assumes "paging_ok s" "pde_present s (pd_index v)"
  shows "pg_pmm (map_page v p f s) = pg_pmm s" "pde_present (map_page v p f s) (pd_index w) = pde_present s (pd_index w)"
  using assms by (simp_all add: map_page_eq ensure_table_def set_pte_def [symmetric] pde_present_set_pte)

lemma user_flags [simp]: "flag_bits (1 OR 2 OR 4)" "(1 OR 2 OR 4 :: u32) AND 1 \<noteq> 0"
  by (simp_all add: flag_bits_def)

lemma aligned_frame_mask: "page_aligned p \<Longrightarrow> p AND FRAME_MASK = p"
  using entry_frame [of p 0] by (simp add: flag_bits_def)

text \<open>Mapping a page uses at most one frame, for its table.\<close>

lemma map_page_frames:
  assumes ok: "paging_ok s"
  shows "free_count s - 1 \<le> free_count (map_page v p f s)"
    "pde_present s (pd_index v) \<Longrightarrow> free_count (map_page v p f s) = free_count s"
    "used_frames (pg_pmm s) \<subseteq> used_frames (pg_pmm (map_page v p f s))"
    "can_map v s \<Longrightarrow> pde_present (map_page v p f s) (pd_index v)"
proof -
  obtain b s' where e: "ensure_table (pd_index v) f s = (b, s')" by fastforce
  note sp = ensure_table_spec [OF ok index_bounds(1) e]
  have m: "pg_pmm (map_page v p f s) = pg_pmm s'" by (simp add: map_page_eq e)
  have "(free_count s' = free_count s \<or> free_count s' = free_count s - 1) \<and> used_frames (pg_pmm s) \<subseteq> used_frames (pg_pmm s')"
    using ok index_bounds(1)
  proof (cases rule: ensure_table_cases [where flags = f and i = "pd_index v"])
    case (new t s1 g)
    have "pg_pmm s' = pg_pmm s1" using new(7) e by auto
    then have "free_count s' = free_count s1" by (simp add: free_count_def)
    then show ?thesis using fresh_free_count(1) [OF new(4)] new(4) \<open>pg_pmm s' = pg_pmm s1\<close> by (auto simp: fresh_frame_def)
  qed (use e in auto)
  then show "free_count s - 1 \<le> free_count (map_page v p f s)" "used_frames (pg_pmm s) \<subseteq> used_frames (pg_pmm (map_page v p f s))"
    using m by (auto simp: free_count_def)
  show "free_count (map_page v p f s) = free_count s" if "pde_present s (pd_index v)"
    using sp(4) [OF that] m by (simp add: free_count_def)
  show "pde_present (map_page v p f s) (pd_index v)" if "can_map v s"
  proof -
    have b using that map_page_fails [OF ok] sp(3) by (auto simp: can_map_def)
    with sp(1,2) show ?thesis by (simp add: map_page_eq e pde_present_set_pte)
  qed
qed

text \<open>
  What a successful growth leaves behind: the pages from \<open>lo\<close> on are mapped, each to a frame of its own that was
  free before; every other address that had a page table translates as before.
\<close>

definition grown :: "nat \<Rightarrow> nat \<Rightarrow> (nat \<Rightarrow> addr) \<Rightarrow> paging \<Rightarrow> paging \<Rightarrow> bool" where
  "grown lo hi f s t \<longleftrightarrow> paging_ok t \<and> used_frames (pg_pmm s) \<subseteq> used_frames (pg_pmm t)
     \<and> inj_on f {lo..<hi} \<and> f ` {lo..<hi} \<subseteq> used_frames (pg_pmm t) - used_frames (pg_pmm s)
     \<and> (\<forall>w. unat w div 4096 \<in> {lo..<hi} \<longrightarrow> get_physical_address w t = f (unat w div 4096) + (w AND 0xFFF))
     \<and> (\<forall>w. pde_present s (pd_index w) \<and> unat w div 4096 \<notin> {lo..<hi} \<longrightarrow> get_physical_address w t = get_physical_address w s)"

text \<open>The frames that growing by \<open>n\<close> pages takes: one for each page and, where tables are missing, one for each table.\<close>

definition frames_for :: "addr \<Rightarrow> nat \<Rightarrow> paging \<Rightarrow> bool" where
  "frames_for a n g \<longleftrightarrow> 2 * n \<le> free_count g \<or>
     n \<le> free_count g \<and> (\<forall>w. unat w div 4096 \<in> {unat a div 4096..<unat a div 4096 + n} \<longrightarrow> pde_present g (pd_index w))"

lemma frames_for_step:
  assumes ok: "paging_ok g" and fr: "frames_for a (Suc n) g" and ua: "unat (a + 4096) = unat a + 4096"
  obtains p pm where "pmm_alloc_page (pg_pmm g) = (p, pm)" "p \<noteq> 0" "can_map a (g\<lparr>pg_pmm := pm\<rparr>)"
    "frames_for (a + 4096) n (map_page a p f (g\<lparr>pg_pmm := pm\<rparr>))"
proof -
  obtain p pm where pm: "pmm_alloc_page (pg_pmm g) = (p, pm)" by fastforce
  have "0 < free_count g" using fr by (auto simp: frames_for_def)
  then have "used_frames (pg_pmm g) \<noteq> all_frames (pg_pmm g)" by (auto simp: free_count_def)
  then have p0: "p \<noteq> 0" using pa.alloc_succeeds [OF paging_okD(1) [OF ok]] pm by simp
  let ?g = "g\<lparr>pg_pmm := pm\<rparr>" and ?h = "map_page a p f (g\<lparr>pg_pmm := pm\<rparr>)"
  note al = pa.alloc_page [OF paging_okD(1) [OF ok] pm p0]
  have okg: "paging_ok ?g" by (rule alloc_keeps_paging_ok(1) [OF ok pm p0])
  have "all_frames pm - used_frames pm = all_frames (pg_pmm g) - used_frames (pg_pmm g) - {p}" using al by auto
  then have c: "free_count ?g = free_count g - 1" using al by (simp add: free_count_def all_frames_def)
  note mf = map_page_frames [OF okg, of a p f]
  have "can_map a ?g \<and> frames_for (a + 4096) n ?h"
  proof (cases "2 * Suc n \<le> free_count g")
    case True
    then have "0 < free_count ?g" using c by simp
    then have "can_map a ?g" by (auto simp: can_map_def free_count_def)
    moreover have "2 * n \<le> free_count ?h" using mf(1) c True by simp
    ultimately show ?thesis by (simp add: frames_for_def)
  next
    case False
    then have r: "\<forall>w. unat w div 4096 \<in> {unat a div 4096..<unat a div 4096 + Suc n} \<longrightarrow> pde_present g (pd_index w)"
      and n: "Suc n \<le> free_count g" using fr by (auto simp: frames_for_def)
    have pa: "pde_present ?g (pd_index a)" using r by simp
    have "pde_present ?h (pd_index w)" if "pde_present g (pd_index w)" for w
      using map_page_present(2) [OF okg pa] that by simp
    moreover have "n \<le> free_count ?h" using mf(2) [OF pa] c n by simp
    moreover have "unat (a + 4096) div 4096 = Suc (unat a div 4096)" by (simp add: ua)
    ultimately show ?thesis using r pa by (simp add: frames_for_def can_map_def del: div_mult_self1_is_m)
  qed
  with that pm p0 show thesis by blast
qed

lemma grow_heap_maps:
  assumes "paging_ok (pr_paging s)" "page_aligned a" "unat a + n * 4096 < 4294967296" "frames_for a n (pr_paging s)"
  shows "\<exists>t f. grow_heap start a n s = (True, t) \<and> grown (unat a div 4096) (unat a div 4096 + n) f (pr_paging s) (pr_paging t)"
  using assms
proof (induction n arbitrary: a s)
  case 0
  then show ?case by (auto simp: grown_def)
next
  case (Suc n)
  let ?g = "pr_paging s" and ?k = "unat a div 4096"
  have ua: "unat (a + 4096) = unat a + 4096" using Suc.prems(3) by (simp add: unat_u32_plus)
  obtain p pm where pm: "pmm_alloc_page (pg_pmm ?g) = (p, pm)" "p \<noteq> 0" and cm: "can_map a (?g\<lparr>pg_pmm := pm\<rparr>)"
    and fr: "frames_for (a + 4096) n (map_page a p (1 OR 2 OR 4) (?g\<lparr>pg_pmm := pm\<rparr>))"
    by (rule frames_for_step [OF Suc.prems(1,4) ua])
  let ?g1 = "?g\<lparr>pg_pmm := pm\<rparr>"
  note al = alloc_keeps_paging_ok [OF Suc.prems(1) pm]
  let ?s2 = "on_paging (map_page a p (1 OR 2 OR 4)) (on_paging (\<lambda>g. g\<lparr>pg_pmm := pm\<rparr>) s)"
  let ?g2 = "map_page a p (1 OR 2 OR 4) ?g1"
  have g2: "pr_paging ?s2 = ?g2" by simp
  have ok2: "paging_ok ?g2" by (rule map_page_ok [OF al(1)])
  note mf = map_page_frames [OF al(1), of a p "1 OR 2 OR 4"]
  have al4: "page_aligned (a + 4096)" using Suc.prems(2) ua by (simp add: page_aligned_dvd)
  have k: "unat (a + 4096) div 4096 = Suc ?k" by (simp add: ua)
  obtain t f where rest: "grow_heap start (a + 4096) n ?s2 = (True, t)" and f: "grown (Suc ?k) (Suc ?k + n) f ?g2 (pr_paging t)"
    using Suc.IH [OF _ al4 _ _, of ?s2, unfolded g2 k] ok2 ua Suc.prems(3) fr by auto
  have run: "grow_heap start a (Suc n) s = (True, t)" using rest pm by (simp add: proc_alloc_page_def)
  have used2: "insert p (used_frames (pg_pmm ?g)) \<subseteq> used_frames (pg_pmm ?g2)" using mf(3) al(4) by simp
  have here: "get_physical_address w ?g2 = p + (w AND 0xFFF)" "pde_present ?g2 (pd_index w)" if "unat w div 4096 = ?k" for w
    using map_page_same [OF al(1) cm user_flags, of w p] that al(3) mf(4) [OF cm]
    by (simp_all add: same_page_nat aligned_frame_mask index_eq div_mult2_eq [symmetric])
  have else_where: "get_physical_address w ?g2 = get_physical_address w ?g" "pde_present ?g2 (pd_index w)"
    if "pde_present ?g (pd_index w)" "unat w div 4096 \<noteq> ?k" for w
    using map_page_other [OF al(1), of a w p "1 OR 2 OR 4"] vm.map_ready [OF al(1), of w a p "1 OR 2 OR 4"] that
    by (auto simp: same_page_nat)
  let ?f = "f(?k := p)"
  have r: "{?k..<?k + Suc n} = insert ?k {Suc ?k..<Suc ?k + n}" by auto
  have "grown ?k (?k + Suc n) ?f ?g (pr_paging t)"
    unfolding grown_def r
  proof (intro conjI allI impI)
    show "paging_ok (pr_paging t)" using f by (simp add: grown_def)
    show "used_frames (pg_pmm ?g) \<subseteq> used_frames (pg_pmm (pr_paging t))" using f used2 by (auto simp: grown_def)
    have img: "?f ` {Suc ?k..<Suc ?k + n} = f ` {Suc ?k..<Suc ?k + n}" by auto
    have pf: "p \<notin> f ` {Suc ?k..<Suc ?k + n}" using f used2 by (auto simp: grown_def)
    have "inj_on f {Suc ?k..<Suc ?k + n}" using f by (simp add: grown_def)
    then have "inj_on ?f {Suc ?k..<Suc ?k + n}" by (auto simp: inj_on_def)
    then show "inj_on ?f (insert ?k {Suc ?k..<Suc ?k + n})" using pf img by (simp add: inj_on_insert)
    show "?f ` insert ?k {Suc ?k..<Suc ?k + n} \<subseteq> used_frames (pg_pmm (pr_paging t)) - used_frames (pg_pmm ?g)"
      using f used2 al(2) img by (auto simp: grown_def)
  next
    fix w :: addr
    assume "unat w div 4096 \<in> insert ?k {Suc ?k..<Suc ?k + n}"
    then show "get_physical_address w (pr_paging t) = ?f (unat w div 4096) + (w AND 0xFFF)"
      using f here [of w] by (cases "unat w div 4096 = ?k") (auto simp: grown_def)
  next
    fix w :: addr
    assume "pde_present ?g (pd_index w) \<and> unat w div 4096 \<notin> insert ?k {Suc ?k..<Suc ?k + n}"
    then show "get_physical_address w (pr_paging t) = get_physical_address w ?g"
      using f else_where [of w] by (auto simp: grown_def)
  qed
  with run show ?case by blast
qed

lemma heap_word: "USER_HEAP_LIMIT = (0xBFFFF000 :: u32)"
  by simp

lemma align_up_span:
  assumes "unat x \<le> unat y" "unat y \<le> 3221221376"
  shows "page_span (page_align_up x) (page_align_up y) = (unat y + 4095) div 4096 - (unat x + 4095) div 4096"
    "unat (page_align_up x) = (unat x + 4095) div 4096 * 4096" "page_aligned (page_align_up x)"
    "unat (page_align_up x) + page_span (page_align_up x) (page_align_up y) * 4096 = (unat y + 4095) div 4096 * 4096"
proof -
  have x: "unat (page_align_up x) = (unat x + 4095) div 4096 * 4096" using assms by (intro unat_page_align_up) simp
  have y: "unat (page_align_up y) = (unat y + 4095) div 4096 * 4096" using assms by (intro unat_page_align_up) simp
  have le: "(unat x + 4095) div 4096 \<le> (unat y + 4095) div 4096" using assms(1) by (intro div_le_mono) simp
  have "unat (page_align_up y) - unat (page_align_up x) = ((unat y + 4095) div 4096 - (unat x + 4095) div 4096) * 4096"
    unfolding x y by (simp add: diff_mult_distrib)
  then show s: "page_span (page_align_up x) (page_align_up y) = (unat y + 4095) div 4096 - (unat x + 4095) div 4096"
    by (simp add: page_span_def)
  show "unat (page_align_up x) = (unat x + 4095) div 4096 * 4096" by (rule x)
  show "page_aligned (page_align_up x)" by (simp add: page_aligned_dvd x)
  show "unat (page_align_up x) + page_span (page_align_up x) (page_align_up y) * 4096 = (unat y + 4095) div 4096 * 4096"
    unfolding s x using le by (simp add: diff_mult_distrib)
qed

lemma user_sbrk_cases:
  assumes "user_heap_initialized s" "user_sbrk increment s = (r, t)"
  shows "(r = -1 \<and> same_heap s t)
    \<or> (r = user_heap_brk s \<and> user_heap_base t = user_heap_base s \<and> user_heap_initialized t
        \<and> user_heap_brk t = user_heap_brk s + increment
        \<and> (increment \<noteq> 0 \<longrightarrow> user_heap_base s \<le> user_heap_brk t \<and> user_heap_brk t \<le> USER_HEAP_LIMIT))"
proof (cases "increment = 0 \<or> user_heap_brk s + increment < user_heap_base s \<or> user_heap_brk s + increment > USER_HEAP_LIMIT")
  case True
  then show ?thesis using assms by (auto simp: user_sbrk_def same_heap_def Let_def split: if_splits)
next
  case False
  let ?o = "user_heap_brk s" and ?n = "user_heap_brk s + increment"
  define r' where "r' = (if 0 <s increment
      then grow_heap (page_align_up ?o) (page_align_up ?o) (page_span (page_align_up ?o) (page_align_up ?n)) s
      else (True, release_range (page_align_up ?n) (page_span (page_align_up ?n) (page_align_up ?o)) s))"
  obtain ok u where u: "r' = (ok, u)" by fastforce
  have "same_heap s u"
    using u grow_heap_same [of "page_align_up ?o" "page_align_up ?o" _ s ok u] release_range_same [of s]
    by (auto simp: r'_def split: if_splits)
  moreover have "(r, t) = (if \<not> ok then (-1, u) else (?o, u\<lparr>user_heap_brk := ?n\<rparr>))"
    using assms False u by (auto simp: user_sbrk_def Let_def r'_def split: if_splits prod.splits)
  ultimately show ?thesis using assms(1) False by (auto simp: same_heap_def not_less split: if_splits)
qed

text \<open>No program loaded, on the directory without tables.\<close>

definition boot_proc :: proc where
  "boot_proc = \<lparr>pr_paging = stale_paging, user_heap_base = 0, user_heap_brk = 0, user_heap_initialized = False,
     pr_out = [], pr_jumps = []\<rparr>"

text \<open>An executable of one segment, 84 bytes long.\<close>

definition mini_elf :: "byte list" where
  "mini_elf =
     [0x7F, 0x45, 0x4C, 0x46, 1, 1, 1, 0, 0, 0, 0, 0, 0, 0, 0, 0, 2, 0, 3, 0, 1, 0, 0, 0, 0x54, 0x80, 4, 8,
      0x34, 0, 0, 0, 0, 0, 0, 0, 0, 0, 0, 0, 0x34, 0, 0x20, 0, 1, 0, 0, 0, 0, 0, 0, 0,
      1, 0, 0, 0, 0, 0, 0, 0, 0, 0x80, 4, 8, 0, 0x80, 4, 8, 0x54, 0, 0, 0, 0x54, 0, 0, 0, 5, 0, 0, 0, 0, 0x10, 0, 0]"

section \<open>Properties\<close>

text \<open>
  On an image of at least the announced size \<open>elf_validate\<close> reads only inside the image, whatever its
  bytes are, and returns 0 or -1.
\<close>

theorem elf_validate_safe:
  assumes "unat sz \<le> length data"
  shows "\<exists>r s'. elf_validate (Some data) sz s = Some (r, s') \<and> r \<in> {0, -1}"
  by (rule elf_validate_cases [OF assms, of s]) blast

theorem elf_validate_safe_witness:
  "\<exists>r s'. elf_validate (Some (replicate 64 255)) 64 boot_proc = Some (r, s') \<and> r \<in> {0, -1}"
  by (rule elf_validate_safe) simp

text \<open>
  C15: when \<open>elf_validate\<close> accepts an image, the file part of each loadable segment lies inside the image and its
  memory lies inside user space, as sums of unbounded numbers: neither the 32-bit addition of the load bias
  nor that of the segment size has wrapped around. The entry point lies in user space too.
\<close>

theorem elf_validate_segments:
  assumes "unat sz \<le> length data" "elf_validate (Some data) sz s = Some (0, s')" "read_ehdr data = Some eh"
    "i < unat (e_phnum eh)" "phdr_at data eh i = Some ph" "p_type ph = PT_LOAD"
  shows "segment_fits (unat sz) (load_bias eh) ph
     \<and> unat (e_entry eh) + unat (load_bias eh) \<in> {unat USER_BASE..unat USER_TOP}"
proof -
  have c: "header_ok sz eh" "segment_error sz (load_bias eh) ph = None"
    using elf_validate_cases [OF assms(1), of s] assms(2-5) by (metis Pair_inject option.inject option.sel)+
  have b: "load_bias eh = 0 \<or> load_bias eh = USER_BASE" by (simp add: load_bias_def)
  have "unat (e_entry eh + load_bias eh) = unat (e_entry eh) + unat (load_bias eh)"
    using no_wrap_into_user [of "e_entry eh" "load_bias eh"] c(1) b by (simp add: header_ok_def)
  then show ?thesis
    using segment_error_fits [OF c(2) assms(6) b] c(1) by (auto simp: header_ok_def word_le_nat_alt)
qed

theorem elf_validate_segments_witness:
  "elf_validate (Some mini_elf) 84 boot_proc = Some (0, boot_proc)
   \<and> segment_fits 84 0 (the (phdr_at mini_elf (the (read_ehdr mini_elf)) 0))"
proof -
  let ?eh = "\<lparr>e_ident = ELF_MAGIC, e_type = 2, e_machine = 3, e_version = 1, e_entry = 0x8048054, e_phoff = 52,
    e_phentsize = 32, e_phnum = 1\<rparr>"
  let ?ph = "\<lparr>p_type = 1, p_offset = 0, p_vaddr = 0x8048000, p_filesz = 84, p_memsz = 84, p_flags = 5, p_align = 4096\<rparr>"
  have eh: "read_ehdr mini_elf = Some ?eh" by code_simp
  have ph: "phdr_at mini_elf ?eh 0 = Some ?ph" by code_simp
  have l: "unat (84 :: u32) \<le> length mini_elf" by (simp add: mini_elf_def)
  have bias: "load_bias ?eh = 0" by (simp add: load_bias_def)
  have h: "header_ok 84 ?eh" unfolding header_ok_def bias by (simp add: word_le_nat_alt)
  have e: "segment_error 84 0 ?ph = None" by code_simp
  have v: "elf_validate (Some mini_elf) 84 boot_proc = Some (0, boot_proc)"
    by (rule elf_validate_cases [OF l, of boot_proc]) (use eh ph h e bias in auto)
  then show ?thesis using elf_validate_segments [OF l v eh, of 0 ?ph] eh ph bias by simp
qed

lemma high_not_positive: "0x80000000 \<le> x \<Longrightarrow> \<not> 0 <s x" for x :: u32
proof -
  assume "0x80000000 \<le> x"
  then have "unat x div 2147483648 = 1" using unat_u32_bound [of x] by (simp add: word_le_nat_alt div_nat_eqI)
  then have "bit (unat x) 31" by (simp add: bit_iff_odd)
  then have "bit x 31" by (simp add: bit_unsigned_iff)
  then have "sint x < 0" by (simp add: sint_uint signed_take_bit_negative_iff bit_simps)
  then show ?thesis by (simp add: word_sless_alt)
qed

lemma brk_large:
  assumes "user_heap_initialized s" "user_heap_base s \<le> user_heap_brk s" "user_heap_brk s < a" "a \<le> USER_HEAP_LIMIT"
    "0x80000000 \<le> a - user_heap_brk s"
  shows "user_brk a s = (0, s\<lparr>user_heap_brk := a\<rparr>)"
proof -
  have neg: "\<not> 0 <s a - user_heap_brk s" by (rule high_not_positive [OF assms(5)])
  have "a - user_heap_brk s \<noteq> 0" "user_heap_brk s \<noteq> -1" "user_heap_base s \<le> a" "a \<noteq> 0" using assms by auto
  moreover have "page_span (page_align_up a) (page_align_up (user_heap_brk s)) = 0"
  proof -
    have o: "unat (user_heap_brk s) \<le> unat a" "unat a \<le> 3221221376" using assms(3,4) by (simp_all add: word_le_nat_alt word_less_nat_alt)
    then have "(unat (user_heap_brk s) + 4095) div 4096 \<le> (unat a + 4095) div 4096" by (intro div_le_mono) simp
    then show ?thesis using o by (simp add: page_span_def unat_page_align_up)
  qed
  ultimately show ?thesis using assms neg by (simp add: user_brk_def user_sbrk_def Let_def not_less)
qed

text \<open>
  C16: with the user heap initialised, \<open>user_sbrk\<close> by a positive signed amount that does not carry the break past the
  stack succeeds whenever there are two free frames for every page to be added, or one if the page tables of
  the range exist already: it returns the old break and moves the break by that amount, and every page of the new
  range is mapped to a frame of its own that was free before, while the pages outside the range whose page
  tables existed translate as before. The sign matters: \<open>user_brk\<close> to an address two gigabytes or more above
  the break passes a negative amount on, and moves the break without mapping a single page.
\<close>

theorem user_sbrk_maps:
  assumes "paging_ok (pr_paging s)" "heap_wf s" "user_heap_initialized s" "0 <s increment"
    "user_heap_brk s \<le> user_heap_brk s + increment" "user_heap_brk s + increment \<le> USER_HEAP_LIMIT"
    "frames_for (page_align_up (user_heap_brk s))
       ((unat (user_heap_brk s + increment) + 4095) div 4096 - (unat (user_heap_brk s) + 4095) div 4096) (pr_paging s)"
  shows "(\<exists>t f. user_sbrk increment s = (user_heap_brk s, t) \<and> user_heap_brk t = user_heap_brk s + increment \<and> heap_wf t
       \<and> grown ((unat (user_heap_brk s) + 4095) div 4096) ((unat (user_heap_brk t) + 4095) div 4096) f
              (pr_paging s) (pr_paging t))
     \<and> (\<forall>a. user_heap_brk s < a \<and> a \<le> USER_HEAP_LIMIT \<and> 0x80000000 \<le> a - user_heap_brk s \<longrightarrow>
          user_brk a s = (0, s\<lparr>user_heap_brk := a\<rparr>))"
proof -
  let ?o = "user_heap_brk s" and ?n = "user_heap_brk s + increment"
  have i0: "increment \<noteq> 0" using assms(4) by auto
  have w: "user_heap_base s \<le> ?o" using assms(2,3) by (simp add: heap_wf_def)
  let ?a = "page_align_up ?o" and ?c = "page_span (page_align_up ?o) (page_align_up ?n)"
  have o: "unat ?o \<le> unat ?n" "unat ?n \<le> 3221221376" using assms(5,6) by (simp_all add: word_le_nat_alt)
  note sp = align_up_span [OF o]
  have k: "unat ?a div 4096 = (unat ?o + 4095) div 4096" by (simp add: sp(2))
  have le: "(unat ?o + 4095) div 4096 \<le> (unat ?n + 4095) div 4096" using o(1) by (intro div_le_mono) simp
  have "unat ?n + 4095 < 4294967296" using o(2) by simp
  then have "(unat ?n + 4095) div 4096 * 4096 < 4294967296" by (meson div_times_less_eq_dividend le_less_trans)
  then obtain u f where u: "grow_heap ?a ?a ?c s = (True, u)"
      "grown ((unat ?o + 4095) div 4096) ((unat ?o + 4095) div 4096 + ?c) f (pr_paging s) (pr_paging u)"
    using grow_heap_maps [OF assms(1) sp(3), of ?c ?a] sp(4) assms(7) unfolding k sp(1) by auto
  let ?t = "u\<lparr>user_heap_brk := ?n\<rparr>"
  have "user_heap_base s \<le> ?n" using w assms(5) by (rule order_trans)
  then have t: "user_sbrk increment s = (?o, ?t)"
    using assms(3,4,6) i0 u(1) by (simp add: user_sbrk_def Let_def leD)
  have "same_heap s u" using grow_heap_same [OF u(1)] .
  then have "heap_wf ?t" using assms(2,3,6) \<open>user_heap_base s \<le> ?n\<close> by (simp add: heap_wf_def same_heap_def)
  moreover have "grown ((unat ?o + 4095) div 4096) ((unat ?n + 4095) div 4096) f (pr_paging s) (pr_paging ?t)"
    using u(2) sp(1) le by auto
  ultimately have "\<exists>t f. user_sbrk increment s = (?o, t) \<and> user_heap_brk t = ?n \<and> heap_wf t
       \<and> grown ((unat ?o + 4095) div 4096) ((unat (user_heap_brk t) + 4095) div 4096) f (pr_paging s) (pr_paging t)"
    using t by (intro exI [of _ ?t] exI [of _ f]) simp
  then show ?thesis using brk_large [OF assms(3) w] by blast
qed

text \<open>A program with one page of code at \<open>USER_BASE\<close> and an empty heap after it.\<close>

definition small_proc :: proc where
  "small_proc = boot_proc\<lparr>pr_paging := map_page 0x08048000 0x300000 7 stale_paging, user_heap_base := 0x08049000,
     user_heap_brk := 0x08049000, user_heap_initialized := True\<rparr>"

lemma small_proc_facts:
  "paging_ok (pr_paging small_proc)" "pde_present (pr_paging small_proc) 32"
  "fst (pmm_alloc_page (pg_pmm (pr_paging small_proc))) \<noteq> 0"
proof -
  have i: "pd_index 0x08048000 = 32" "pt_index 0x08048000 = 72" by (simp_all add: index_eq)
  obtain p' where a: "pmm_alloc_page (pg_pmm stale_paging) = (0x101000, p')"
    using stale_paging_facts(3) by (metis prod.collapse)
  have np: "\<not> pde_present stale_paging (pd_index 0x08048000)" using stale_paging_facts(2) [of 32] i by simp
  show "paging_ok (pr_paging small_proc)"
    by (simp add: small_proc_def map_page_ok stale_paging_facts(1))
  show "pde_present (pr_paging small_proc) 32"
    using map_page_new_table(1) [OF stale_paging_facts(1) np a, of 1] i by (simp add: small_proc_def)
  have "pg_pmm (pr_paging small_proc) = p'"
    using np a
    by (simp add: small_proc_def map_page_def ensure_table_def alloc_page_table_def set_pde_def Let_def)
  moreover have "p' = snd (pmm_alloc_page (snd (pmm_alloc_page pmm_init_fallback)))"
    using a by (simp add: stale_paging_def)
  moreover have "fst (pmm_alloc_page (snd (pmm_alloc_page (snd (pmm_alloc_page pmm_init_fallback))))) = 0x102000"
    by code_simp
  ultimately show "fst (pmm_alloc_page (pg_pmm (pr_paging small_proc))) \<noteq> 0" by simp
qed

theorem user_sbrk_maps_witness:
  "\<exists>t f. user_sbrk 100 small_proc = (0x08049000, t) \<and> user_heap_brk t = 0x08049064
     \<and> grown 32841 32842 f (pr_paging small_proc) (pr_paging t)"
proof -
  let ?g = "pr_paging small_proc"
  have brk: "user_heap_brk small_proc = 0x08049000" "user_heap_base small_proc = 0x08049000"
    "user_heap_initialized small_proc" by (simp_all add: small_proc_def)
  have al: "page_align_up 0x08049000 = 0x08049000" by (simp add: page_align_up_def)
  have "used_frames (pg_pmm ?g) \<noteq> all_frames (pg_pmm ?g)"
    using pa.alloc_page [OF paging_okD(1) [OF small_proc_facts(1)]] small_proc_facts(3)
    by (cases "pmm_alloc_page (pg_pmm ?g)") auto
  then have "all_frames (pg_pmm ?g) - used_frames (pg_pmm ?g) \<noteq> {}" using used_subset_all by blast
  then have "1 \<le> free_count ?g"
    unfolding free_count_def by (metis One_nat_def Suc_leI all_frames_def card_gt_0_iff finite_Diff finite_imageI finite_lessThan)
  moreover have "pde_present ?g (pd_index w)" if "32841 \<le> unat w div 4096" "unat w div 4096 < 32842" for w
  proof -
    have "unat w div 4096 = 32841" using that by linarith
    then show ?thesis using small_proc_facts(2) by (simp add: index_eq)
  qed
  ultimately have "frames_for 0x08049000 1 ?g" by (simp add: frames_for_def)
  moreover have "heap_wf small_proc" by (simp add: heap_wf_def brk word_le_nat_alt)
  ultimately show ?thesis
    using user_sbrk_maps [OF small_proc_facts(1) _ brk(3), of 100] brk al by (auto simp: word_sless_alt word_le_nat_alt)
qed

text \<open>
  \<open>user_brk\<close> passes the distance to the new break to \<open>user_sbrk\<close> as a signed number: a break two gigabytes or
  more above the current one is accepted, and the break moves without a single page being mapped.
\<close>

theorem user_brk_large_unmapped:
  assumes "user_heap_initialized s" "user_heap_base s \<le> user_heap_brk s" "user_heap_brk s < a" "a \<le> USER_HEAP_LIMIT"
    "0x80000000 \<le> a - user_heap_brk s"
  shows "user_brk a s = (0, s\<lparr>user_heap_brk := a\<rparr>)"
  by (rule brk_large [OF assms])

theorem user_brk_large_unmapped_witness:
  "user_brk 0xB0000000 small_proc = (0, small_proc\<lparr>user_heap_brk := 0xB0000000\<rparr>)
   \<and> get_physical_address 0xA0000000 (pr_paging (snd (user_brk 0xB0000000 small_proc))) = 0"
proof -
  have b: "user_heap_initialized small_proc" "user_heap_brk small_proc = 0x08049000"
    "user_heap_base small_proc = 0x08049000"
    by (simp_all add: small_proc_def)
  have u: "user_brk 0xB0000000 small_proc = (0, small_proc\<lparr>user_heap_brk := 0xB0000000\<rparr>)"
    by (rule user_brk_large_unmapped) (simp_all add: b word_le_nat_alt word_less_nat_alt)
  have i: "pd_index 0xA0000000 = 640" "pd_index 0x08048000 = 32" by (simp_all add: index_eq)
  have "\<not> same_page 0x08048000 0xA0000000" by (simp add: same_page_index i)
  then have "get_physical_address 0xA0000000 (pr_paging small_proc) = get_physical_address 0xA0000000 stale_paging"
    using map_page_other [OF stale_paging_facts(1), of "0x08048000" "0xA0000000"] i by (simp add: small_proc_def)
  also have "\<dots> = 0" using stale_paging_facts(2) [of 640] i by (simp add: get_physical_address_pte)
  finally show ?thesis using u by simp
qed

end
