(* ===== verification/Time.thy ===== *)
theory Time
  imports Prelude
begin

text \<open>
  Time: the real-time clock driver (\<^verbatim>\<open>src/kernel/drivers/nvram/rtc.c\<close> and \<^verbatim>\<open>nvram.c\<close>), the conversion of a date to
  seconds in the \<open>SYS_clock_gettime\<close> case of \<^verbatim>\<open>src/kernel/syscall.c\<close>, and \<open>localtime_r\<close>, its inverse.

  The clock chip is a parameter \<open>hw\<close>: \<open>hw n r\<close> is the byte that the \<open>n\<close>-th read returns when the byte written to
  the address port before it is \<open>r\<close>. \<open>time_t\<close> has 64 bits and the other numbers are \<open>int\<close>; the model uses
  unbounded integers, which is exact for every time whose year fits an \<open>int\<close>.
\<close>

section \<open>The clock chip\<close>

type_synonym cmos = "nat \<Rightarrow> byte \<Rightarrow> byte"

text \<open>\<open>rtc_read\<close>, as read number \<open>n\<close>: the register is selected with the NMI bit set.\<close>

definition rtc_read :: "cmos \<Rightarrow> nat \<Rightarrow> byte \<Rightarrow> byte" where
  "rtc_read hw n reg = hw n (0x80 OR reg)"

text \<open>\<open>while (rtc_read(RTC_STATUS_A) & RTC_UIP)\<close>; the result is the number of reads made so far.\<close>

partial_function (option) wait_uip :: "cmos \<Rightarrow> nat \<Rightarrow> nat option" where
  "wait_uip hw n = (if rtc_read hw n 0x0A AND 0x80 \<noteq> 0 then wait_uip hw (Suc n) else Some (Suc n))"

text \<open>The seven clock registers and status register B, in the order in which they are read.\<close>

record rtc_raw =
  raw_sec :: byte
  raw_min :: byte
  raw_hour :: byte
  raw_day :: byte
  raw_month :: byte
  raw_year :: byte
  raw_century :: byte
  raw_statusB :: byte

definition rtc_sample :: "cmos \<Rightarrow> nat \<Rightarrow> rtc_raw" where
  "rtc_sample hw n =
     \<lparr>raw_sec = rtc_read hw n 0, raw_min = rtc_read hw (n + 1) 2, raw_hour = rtc_read hw (n + 2) 4,
      raw_day = rtc_read hw (n + 3) 7, raw_month = rtc_read hw (n + 4) 8, raw_year = rtc_read hw (n + 5) 9,
      raw_century = rtc_read hw (n + 6) 0x32, raw_statusB = rtc_read hw (n + 7) 0x0B\<rparr>"

text \<open>Two samples are taken until they agree.\<close>

partial_function (option) rtc_loop :: "cmos \<Rightarrow> nat \<Rightarrow> rtc_raw option" where
  "rtc_loop hw n =
     do { n \<leftarrow> wait_uip hw n;
          let raw1 = rtc_sample hw n;
          n \<leftarrow> wait_uip hw (n + 8);
          let raw2 = rtc_sample hw n;
          if raw1 \<noteq> raw2 then rtc_loop hw (n + 8) else Some raw1 }"

definition rtc_bcd_to_bin :: "byte \<Rightarrow> byte" where
  "rtc_bcd_to_bin x = (x AND 0x0F) + drop_bit 4 x * 10"

definition bcd :: "byte \<Rightarrow> byte" where
  "bcd v = (v AND 0x0F) + drop_bit 4 v * 10"

text \<open>
  \<open>readNVRAM\<close> stores the 128 bytes of the chip into an array; \<open>writeNVRAM\<close> is the list of its port writes: for each byte its
  number to the address port \<open>0x70\<close> and its value to the data port \<open>0x71\<close>.
\<close>

fun nvram_reads :: "cmos \<Rightarrow> nat \<Rightarrow> nat \<Rightarrow> nat \<Rightarrow> byte list \<Rightarrow> byte list option" where
  "nvram_reads hw n i 0 out = Some out"
| "nvram_reads hw n i (Suc m) out =
     do { out \<leftarrow> array_set out i (hw n (of_nat i)); nvram_reads hw (Suc n) (Suc i) m out }"

definition readNVRAM :: "cmos \<Rightarrow> nat \<Rightarrow> byte list \<Rightarrow> byte list option" where
  "readNVRAM hw n out = nvram_reads hw n 0 128 out"

fun nvram_writes :: "nat \<Rightarrow> nat \<Rightarrow> byte list \<Rightarrow> (byte \<times> byte) list option" where
  "nvram_writes i 0 ins = Some []"
| "nvram_writes i (Suc m) ins =
     do { v \<leftarrow> array_get ins i; ports \<leftarrow> nvram_writes (Suc i) m ins; Some ((0x70, of_nat i) # (0x71, v) # ports) }"

definition writeNVRAM :: "byte list \<Rightarrow> (byte \<times> byte) list option" where
  "writeNVRAM ins = nvram_writes 0 128 ins"

definition rtc_is_valid_time :: "byte \<Rightarrow> byte \<Rightarrow> byte \<Rightarrow> byte \<Rightarrow> byte \<Rightarrow> byte \<Rightarrow> bool" where
  "rtc_is_valid_time sec mn hour day month year =
     (if sec > 59 \<or> mn > 59 \<or> hour > 23 \<or> month < 1 \<or> month > 12 \<or> day < 1 \<or> day > 31 \<or> year > 99 then False
      else if month = 2 then day \<le> 29
      else if month = 4 \<or> month = 6 \<or> month = 9 \<or> month = 11 then day \<le> 30
      else True)"

record rtc_time =
  rt_sec :: byte
  rt_min :: byte
  rt_hour :: byte
  rt_day :: byte
  rt_month :: byte
  rt_year :: byte
  rt_century :: byte

definition rtc_hour :: "rtc_raw \<Rightarrow> byte" where
  "rtc_hour raw =
     (let is_bcd = (raw_statusB raw AND 0x04 = 0);
          is_24h = (raw_statusB raw AND 0x02 \<noteq> 0);
          is_pm = (raw_hour raw AND 0x80 \<noteq> 0);
          hour_raw = raw_hour raw AND 0x7F;
          hour_raw = (if is_bcd then rtc_bcd_to_bin hour_raw else hour_raw)
      in if \<not> is_24h then
           if is_pm then (if hour_raw \<noteq> 12 then hour_raw + 12 else hour_raw)
           else if hour_raw = 12 then 0 else hour_raw
         else hour_raw)"

definition rtc_default :: rtc_time where
  "rtc_default = \<lparr>rt_sec = 0, rt_min = 0, rt_hour = 12, rt_day = 18, rt_month = 4, rt_year = 24, rt_century = 20\<rparr>"

text \<open>The decoding of the sample in \<open>rtc_get_time\<close>, after the loop.\<close>

definition rtc_decode :: "rtc_raw \<Rightarrow> rtc_time" where
  "rtc_decode raw =
     (let century_raw = (if raw_century raw = 0 \<or> raw_century raw = 0xFF then 20 else raw_century raw);
          is_bcd = (raw_statusB raw AND 0x04 = 0);
          conv = (if is_bcd then rtc_bcd_to_bin else id);
          t = \<lparr>rt_sec = conv (raw_sec raw), rt_min = conv (raw_min raw), rt_hour = rtc_hour raw,
               rt_day = conv (raw_day raw), rt_month = conv (raw_month raw), rt_year = conv (raw_year raw),
               rt_century = conv century_raw\<rparr>
      in if \<not> rtc_is_valid_time (rt_sec t) (rt_min t) (rt_hour t) (rt_day t) (rt_month t) (rt_year t)
         then rtc_default else t)"

definition rtc_get_time :: "cmos \<Rightarrow> nat \<Rightarrow> rtc_time option" where
  "rtc_get_time hw n = map_option rtc_decode (rtc_loop hw n)"

section \<open>Dates to seconds\<close>

definition is_leap :: "int \<Rightarrow> bool" where
  "is_leap y \<longleftrightarrow> (y mod 4 = 0 \<and> y mod 100 \<noteq> 0) \<or> y mod 400 = 0"

definition days_per_month :: "int list" where
  "days_per_month = [31, 28, 31, 30, 31, 30, 31, 31, 30, 31, 30, 31]"

text \<open>\<open>for (y = a; n times; y++) total += IS_LEAP(y) ? 366 : 365\<close>\<close>

fun add_years :: "int \<Rightarrow> nat \<Rightarrow> int \<Rightarrow> int" where
  "add_years y 0 acc = acc"
| "add_years y (Suc n) acc = add_years (y + 1) n (acc + (if is_leap y then 366 else 365))"

fun sub_years :: "int \<Rightarrow> nat \<Rightarrow> int \<Rightarrow> int" where
  "sub_years y 0 acc = acc"
| "sub_years y (Suc n) acc = sub_years (y + 1) n (acc - (if is_leap y then 366 else 365))"

fun add_months :: "int \<Rightarrow> nat \<Rightarrow> nat \<Rightarrow> int \<Rightarrow> int option" where
  "add_months year m 0 acc = Some acc"
| "add_months year m (Suc n) acc =
     do { d \<leftarrow> array_get days_per_month m;
          add_months year (Suc m) n (acc + d + (if m = 1 \<and> is_leap year then 1 else 0)) }"

text \<open>The case \<open>CLOCK_REALTIME\<close> of \<open>SYS_clock_gettime\<close>: from the clock's fields to \<open>tv_sec\<close>.\<close>

record civil =
  cv_year :: int
  cv_month :: int
  cv_day :: int
  cv_hour :: int
  cv_min :: int
  cv_sec :: int

definition clock_date :: "rtc_time \<Rightarrow> civil" where
  "clock_date t =
     (let c = \<lparr>cv_year = uint (rt_century t) * 100 + uint (rt_year t), cv_month = uint (rt_month t),
               cv_day = uint (rt_day t), cv_hour = uint (rt_hour t), cv_min = uint (rt_min t), cv_sec = uint (rt_sec t)\<rparr>
      in if cv_year c < 2000 \<or> cv_year c > 2100 \<or> cv_month c < 1 \<or> cv_month c > 12 \<or> cv_day c < 1 \<or> cv_day c > 31
            \<or> cv_hour c > 23 \<or> cv_min c > 59 \<or> cv_sec c > 59
         then \<lparr>cv_year = 2024, cv_month = 4, cv_day = 18, cv_hour = 12, cv_min = 0, cv_sec = 0\<rparr>
         else c)"

definition civil_seconds :: "civil \<Rightarrow> int option" where
  "civil_seconds c =
     (let total_days = (if cv_year c < 1970 then sub_years (cv_year c) (nat (1970 - cv_year c)) 0
                        else add_years 1970 (nat (cv_year c - 1970)) 0)
      in do { total_days \<leftarrow> add_months (cv_year c) 0 (nat (cv_month c - 1)) total_days;
              Some ((total_days + (cv_day c - 1)) * 86400 + cv_hour c * 3600 + cv_min c * 60 + cv_sec c) })"

definition clock_realtime :: "cmos \<Rightarrow> nat \<Rightarrow> int option" where
  "clock_realtime hw n = do { t \<leftarrow> rtc_get_time hw n; civil_seconds (clock_date t) }"

section \<open>Seconds to dates\<close>

record tm =
  tm_sec :: int
  tm_min :: int
  tm_hour :: int
  tm_mday :: int
  tm_mon :: int
  tm_year :: int
  tm_wday :: int
  tm_yday :: int
  tm_isdst :: int

function split_years :: "int \<Rightarrow> int \<Rightarrow> int \<times> int" where
  "split_years days year =
     (let days_in_year = (if is_leap year then 366 else 365)
      in if days < days_in_year then (days, year) else split_years (days - days_in_year) (year + 1))"
  by pat_completeness auto
termination
  by (relation "measure (\<lambda>(days, year). nat days)") (auto split: if_splits)

text \<open>\<open>while (month < 12)\<close>, with \<open>n\<close> months left.\<close>

fun split_months :: "int \<Rightarrow> nat \<Rightarrow> nat \<Rightarrow> int \<Rightarrow> (nat \<times> int) option" where
  "split_months year month 0 day_of_year = Some (month, day_of_year)"
| "split_months year month (Suc n) day_of_year =
     do { dim \<leftarrow> array_get days_per_month month;
          let dim = (if month = 1 \<and> is_leap year then dim + 1 else dim);
          if day_of_year < dim then Some (month, day_of_year)
          else split_months year (Suc month) n (day_of_year - dim) }"

definition localtime_r :: "int option \<Rightarrow> bool \<Rightarrow> tm option option" where
  "localtime_r timep has_result =
     (case timep of
        None \<Rightarrow> Some None
      | Some t \<Rightarrow>
          if \<not> has_result then Some None
          else if t < 0 then
            Some (Some \<lparr>tm_sec = 2, tm_min = 2, tm_hour = 2, tm_mday = 19, tm_mon = 3, tm_year = 19, tm_wday = 0,
                        tm_yday = 0, tm_isdst = -1\<rparr>)
          else
            let days = t div 86400; seconds_of_day = t mod 86400;
                (days, year) = split_years days 1970
            in do { (month, day_of_year) \<leftarrow> split_months year 0 12 days;
                    Some (Some \<lparr>tm_sec = seconds_of_day mod 60, tm_min = seconds_of_day mod 3600 div 60,
                                tm_hour = seconds_of_day div 3600, tm_mday = day_of_year + 1, tm_mon = int month,
                                tm_year = year - 1900, tm_wday = (days + 4) mod 7, tm_yday = days, tm_isdst = -1\<rparr>) })"

section \<open>The clock loop\<close>

text \<open>A chip that eventually stops changing, with no update in progress.\<close>

definition settles :: "cmos \<Rightarrow> nat \<Rightarrow> (byte \<Rightarrow> byte) \<Rightarrow> bool" where
  "settles hw m f \<longleftrightarrow> (\<forall>k \<ge> m. hw k = f) \<and> f 0x8A AND 0x80 = 0"

lemma settled_read: "settles hw m f \<Longrightarrow> m \<le> n \<Longrightarrow> rtc_read hw n r = f (0x80 OR r)"
  by (simp add: settles_def rtc_read_def)

lemma wait_uip_returns:
  assumes "settles hw m f"
  shows "\<exists>n' > n. wait_uip hw n = Some n'"
proof (induction "m - n" arbitrary: n rule: less_induct)
  case less
  show ?case
  proof (cases "rtc_read hw n 0x0A AND 0x80 \<noteq> 0")
    case True
    have "n < m"
    proof (rule ccontr)
      assume "\<not> n < m"
      then have "rtc_read hw n 0x0A AND 0x80 = 0" using settled_read [OF assms, of n "0x0A"] assms by (simp add: settles_def)
      then show False using True by simp
    qed
    then have "m - Suc n < m - n" by simp
    then obtain n' where "n' > Suc n" "wait_uip hw (Suc n) = Some n'" using less by blast
    then show ?thesis using True by (subst wait_uip.simps) auto
  next
    case False
    then show ?thesis by (subst wait_uip.simps) auto
  qed
qed

lemma sample_settled: "settles hw m f \<Longrightarrow> m \<le> n \<Longrightarrow> m \<le> n' \<Longrightarrow> rtc_sample hw n = rtc_sample hw n'"
  by (simp add: rtc_sample_def settled_read)

lemma rtc_loop_returns:
  assumes "settles hw m f"
  shows "\<exists>raw. rtc_loop hw n = Some raw"
proof (induction "m - n" arbitrary: n rule: less_induct)
  case less
  obtain n1 where n1: "n1 > n" "wait_uip hw n = Some n1" using wait_uip_returns [OF assms] by blast
  obtain n2 where n2: "n2 > n1 + 8" "wait_uip hw (n1 + 8) = Some n2" using wait_uip_returns [OF assms] by blast
  show ?case
  proof (cases "rtc_sample hw n1 = rtc_sample hw n2")
    case True
    then show ?thesis using n1 n2 by (subst rtc_loop.simps) simp
  next
    case False
    have "n1 < m"
    proof (rule ccontr)
      assume "\<not> n1 < m"
      then show False using sample_settled [OF assms, of n1 n2] n2(1) False by simp
    qed
    then have "m - (n2 + 8) < m - n" using n1 n2 by linarith
    then obtain raw where "rtc_loop hw (n2 + 8) = Some raw" using less by blast
    then show ?thesis using False n1 n2 by (subst rtc_loop.simps) simp
  qed
qed

lemma rtc_decode_valid:
  "let t = rtc_decode raw
   in rtc_is_valid_time (rt_sec t) (rt_min t) (rt_hour t) (rt_day t) (rt_month t) (rt_year t)"
proof -
  have d: "rtc_is_valid_time 0 0 12 18 4 24" by code_simp
  show ?thesis by (simp add: rtc_decode_def Let_def rtc_default_def d)
qed

section \<open>Calendar arithmetic\<close>

abbreviation year_len :: "int \<Rightarrow> int" where
  "year_len y \<equiv> (if is_leap y then 366 else 365)"

definition month_len :: "int \<Rightarrow> nat \<Rightarrow> int" where
  "month_len y m = days_per_month ! m + (if m = 1 \<and> is_leap y then 1 else 0)"

lemma add_years_acc: "add_years y n acc = acc + add_years y n 0"
proof (induction n arbitrary: y acc)
  case (Suc n)
  show ?case using Suc [of "y + 1" "acc + year_len y"] Suc [of "y + 1" "year_len y"] by simp
qed simp

lemma add_years_nonneg: "0 \<le> add_years y n 0"
proof (induction n arbitrary: y)
  case (Suc n)
  show ?case using Suc [of "y + 1"] add_years_acc [of "y + 1" n "year_len y"] by simp
qed simp

lemma split_add_years:
  "0 \<le> d \<Longrightarrow> d < year_len (y + int n) \<Longrightarrow> split_years (add_years y n 0 + d) y = (d, y + int n)"
proof (induction n arbitrary: y)
  case 0
  then show ?case by (subst split_years.simps) (simp add: Let_def)
next
  case (Suc n)
  have a: "add_years y (Suc n) 0 = year_len y + add_years (y + 1) n 0"
    using add_years_acc [of "y + 1" n "year_len y"] by simp
  have "split_years (add_years (y + 1) n 0 + d) (y + 1) = (d, y + 1 + int n)"
    using Suc.prems by (intro Suc.IH) (simp_all add: add.assoc)
  then show ?case
    using add_years_nonneg [of "y + 1" n] Suc.prems(1) unfolding a
    by (subst split_years.simps) (simp add: Let_def add.commute add.left_commute)
qed

lemma month_len_pos: "m < 12 \<Longrightarrow> 28 \<le> month_len y m \<and> month_len y m \<le> 31"
  by (auto simp: month_len_def days_per_month_def less_Suc_eq numeral_eq_Suc)

fun before_month :: "int \<Rightarrow> nat \<Rightarrow> nat \<Rightarrow> int" where
  "before_month y m 0 = 0"
| "before_month y m (Suc n) = month_len y m + before_month y (Suc m) n"

lemma add_months_eq: "m + n \<le> 12 \<Longrightarrow> add_months y m n acc = Some (acc + before_month y m n)"
proof (induction n arbitrary: m acc)
  case (Suc n)
  then show ?case by (simp add: array_get_def days_per_month_def [THEN arg_cong [where f = length], simplified]
        month_len_def algebra_simps)
qed simp

lemma before_month_nonneg: "m + n \<le> 12 \<Longrightarrow> 0 \<le> before_month y m n"
proof (induction n arbitrary: m)
  case (Suc n)
  then show ?case using month_len_pos [of m y] by (simp add: add_nonneg_nonneg)
qed simp

lemma split_months_step:
  "m < 12 \<Longrightarrow> split_months y m (Suc n) e =
     (if e < month_len y m then Some (m, e) else split_months y (Suc m) n (e - month_len y m))"
proof -
  assume "m < 12"
  then have "array_get days_per_month m = Some (days_per_month ! m)" by (simp add: array_get_def days_per_month_def)
  then show ?thesis by (auto simp: month_len_def)
qed

lemma split_before_month:
  "m + k < 12 \<Longrightarrow> m + n = 12 \<Longrightarrow> 0 \<le> d \<Longrightarrow> d < month_len y (m + k) \<Longrightarrow>
     split_months y m n (before_month y m k + d) = Some (m + k, d)"
proof (induction k arbitrary: m n)
  case 0
  then obtain n' where "n = Suc n'" by (cases n) auto
  then show ?case using 0 by (simp add: split_months_step del: split_months.simps)
next
  case (Suc k)
  then obtain n' where n: "n = Suc n'" by (cases n) auto
  have "0 \<le> before_month y (Suc m) k" using Suc.prems by (intro before_month_nonneg) simp
  moreover have "split_months y (Suc m) n' (before_month y (Suc m) k + d) = Some (Suc m + k, d)"
    using Suc.prems n by (intro Suc.IH) simp_all
  ultimately show ?case using Suc.prems by (simp add: n split_months_step del: split_months.simps)
qed

lemma before_month_year: "k < 12 \<Longrightarrow> before_month y 0 k + month_len y k \<le> year_len y"
  by (auto simp: month_len_def days_per_month_def less_Suc_eq numeral_eq_Suc)

definition real_date :: "civil \<Rightarrow> bool" where
  "real_date c \<longleftrightarrow> 1970 \<le> cv_year c \<and> 1 \<le> cv_month c \<and> cv_month c \<le> 12
     \<and> 1 \<le> cv_day c \<and> cv_day c \<le> month_len (cv_year c) (nat (cv_month c - 1))
     \<and> 0 \<le> cv_hour c \<and> cv_hour c < 24 \<and> 0 \<le> cv_min c \<and> cv_min c < 60 \<and> 0 \<le> cv_sec c \<and> cv_sec c < 60"

lemma quotient_remainder: "0 \<le> r \<Longrightarrow> r < k \<Longrightarrow> (q * k + r) div k = q \<and> (q * k + r) mod k = r" for q r k :: int
  by simp

lemma seconds_of_day:
  fixes h m s :: int
  assumes "0 \<le> h" "h < 24" "0 \<le> m" "m < 60" "0 \<le> s" "s < 60"
  shows "(d * 86400 + h * 3600 + m * 60 + s) div 86400 = d" "(d * 86400 + h * 3600 + m * 60 + s) mod 86400 = h * 3600 + m * 60 + s"
    "(h * 3600 + m * 60 + s) div 3600 = h" "(h * 3600 + m * 60 + s) mod 3600 = m * 60 + s" "(m * 60 + s) div 60 = m"
    "(h * 3600 + m * 60 + s) mod 60 = s"
proof -
  have 1: "0 \<le> m * 60 + s" "m * 60 + s < 3600" "0 \<le> h * 3600 + (m * 60 + s)" "h * 3600 + (m * 60 + s) < 86400"
    using assms by linarith+
  note q = quotient_remainder [OF 1(3,4), of d] quotient_remainder [OF 1(1,2), of h] quotient_remainder [OF assms(5,6), of m]
  have "(h * 60 + m) * 60 + s = h * 3600 + m * 60 + s" by simp
  with quotient_remainder [OF assms(5,6), of "h * 60 + m"]
  show "(h * 3600 + m * 60 + s) mod 60 = s" by (simp add: mult.commute)
  show "(d * 86400 + h * 3600 + m * 60 + s) div 86400 = d" "(d * 86400 + h * 3600 + m * 60 + s) mod 86400 = h * 3600 + m * 60 + s"
    "(h * 3600 + m * 60 + s) div 3600 = h" "(h * 3600 + m * 60 + s) mod 3600 = m * 60 + s" "(m * 60 + s) div 60 = m"
    using q by (simp_all add: add.assoc)
qed

section \<open>Properties\<close>



text \<open>
  When the clock chip eventually stops changing outside an update, \<open>rtc_get_time\<close> returns, whatever it
  reads before, and the fields it returns are in range; the clock system call then yields a time between
  2000 and 2100.
\<close>

theorem rtc_get_time_returns:
  assumes "settles hw m f"
  shows "\<exists>t s. rtc_get_time hw n = Some t
     \<and> rtc_is_valid_time (rt_sec t) (rt_min t) (rt_hour t) (rt_day t) (rt_month t) (rt_year t)
     \<and> clock_realtime hw n = Some s \<and> 2000 \<le> cv_year (clock_date t) \<and> cv_year (clock_date t) \<le> 2100"
proof -
  obtain raw where "rtc_loop hw n = Some raw" using rtc_loop_returns [OF assms] by blast
  then have t: "rtc_get_time hw n = Some (rtc_decode raw)" by (simp add: rtc_get_time_def)
  let ?c = "clock_date (rtc_decode raw)"
  have c: "2000 \<le> cv_year ?c" "cv_year ?c \<le> 2100" "nat (cv_month ?c - 1) \<le> 12"
    by (auto simp: clock_date_def Let_def)
  obtain s where "civil_seconds ?c = Some s"
    using add_months_eq [of 0 "nat (cv_month ?c - 1)"] c(3) by (auto simp: civil_seconds_def Let_def)
  then show ?thesis using t c rtc_decode_valid [of raw] by (auto simp: clock_realtime_def Let_def)
qed

text \<open>A chip that is in the middle of an update for five reads and then shows 2025-06-01 in BCD.\<close>

definition sample_chip :: cmos where
  "sample_chip n r =
     (if n < 5 then 0xFF
      else if r = 0x87 then 1 else if r = 0x88 then 6 else if r = 0x89 then 0x25 else if r = 0xB2 then 0x20
      else if r = 0x8B then 2 else 0)"

theorem rtc_get_time_returns_witness:
  "\<exists>t s. rtc_get_time sample_chip 0 = Some t
     \<and> rtc_is_valid_time (rt_sec t) (rt_min t) (rt_hour t) (rt_day t) (rt_month t) (rt_year t)
     \<and> clock_realtime sample_chip 0 = Some s"
proof -
  have "settles sample_chip 5 (sample_chip 5)"
    by (auto simp: settles_def fun_eq_iff sample_chip_def)
  from rtc_get_time_returns [OF this, of 0] show ?thesis by blast
qed

text \<open>
  A chip in BCD mode without a century register, which reads as 0 or 0xFF, gets the binary number 20 as its
  century, which is then decoded as BCD and becomes 14: the clock system call falls back to 2024-04-18 12:00
  whatever the date is.
\<close>

theorem rtc_century_fallback:
  assumes "raw_century raw = 0 \<or> raw_century raw = 0xFF" "raw_statusB raw AND 0x04 = 0" "rtc_decode raw \<noteq> rtc_default"
  shows "rt_century (rtc_decode raw) = 14
     \<and> clock_date (rtc_decode raw) = \<lparr>cv_year = 2024, cv_month = 4, cv_day = 18, cv_hour = 12, cv_min = 0, cv_sec = 0\<rparr>"
proof -
  have b: "rtc_bcd_to_bin 20 = 14" by code_simp
  have c: "rt_century (rtc_decode raw) = 14"
    using assms b by (auto simp: rtc_decode_def Let_def split: if_splits)
  have y: "\<not> rt_year (rtc_decode raw) > 99"
    using rtc_decode_valid [of raw] by (auto simp: rtc_is_valid_time_def Let_def split: if_splits)
  have "uint (rt_year (rtc_decode raw)) \<le> 99" using y by (simp add: word_less_def not_less)
  then show ?thesis using c by (simp add: clock_date_def Let_def)
qed

theorem rtc_century_fallback_witness:
  "let raw = \<lparr>raw_sec = 0x30, raw_min = 0x15, raw_hour = 0x09, raw_day = 0x01, raw_month = 0x06, raw_year = 0x25,
              raw_century = 0, raw_statusB = 2\<rparr>
   in rt_year (rtc_decode raw) = 25 \<and> cv_year (clock_date (rtc_decode raw)) = 2024"
proof -
  let ?raw = "\<lparr>raw_sec = 0x30, raw_min = 0x15, raw_hour = 0x09, raw_day = 0x01, raw_month = 0x06, raw_year = 0x25,
              raw_century = 0, raw_statusB = 2\<rparr>"
  have y: "rt_year (rtc_decode ?raw) = 25" by code_simp
  have "rtc_decode ?raw \<noteq> rtc_default" using y by (auto simp: rtc_default_def)
  then show ?thesis using rtc_century_fallback [of ?raw] y by (simp add: Let_def)
qed


section \<open>The memory of the chip\<close>

text \<open>A chip whose cells keep what is written to them: the cells and the selected one, changed by a port write.\<close>

fun chip_write :: "byte \<times> byte \<Rightarrow> (byte \<Rightarrow> byte) \<times> byte \<Rightarrow> (byte \<Rightarrow> byte) \<times> byte" where
  "chip_write (port, v) (cells, sel) = (if port = 0x70 then (cells, v) else if port = 0x71 then (cells(sel := v), sel) else (cells, sel))"

lemma nvram_reads_eq:
  "length out = i + m \<Longrightarrow> nvram_reads (\<lambda>_. cells) n i m out = Some (take i out @ map (\<lambda>j. cells (of_nat j)) [i ..< i + m])"
proof (induction m arbitrary: n i out)
  case (Suc m)
  let ?o = "out[i := cells (of_nat i)]"
  have "array_set out i (cells (of_nat i)) = Some ?o" using Suc.prems by (simp add: array_set_def)
  moreover have "take (Suc i) ?o = take i out @ [cells (of_nat i)]" using Suc.prems by (simp add: take_Suc_conv_app_nth)
  ultimately show ?case using Suc.IH [of ?o "Suc i"] Suc.prems by (simp add: upt_rec)
qed simp

lemma nvram_writes_store:
  assumes "length ins = i + m" "i + m \<le> 256"
  shows "\<exists>ps. nvram_writes i m ins = Some ps
    \<and> (\<forall>cells sel j. j < 256 \<longrightarrow> fst (fold chip_write ps (cells, sel)) (of_nat j) = (if i \<le> j \<and> j < i + m then ins ! j else cells (of_nat j)))"
  using assms
proof (induction m arbitrary: i)
  case (Suc m)
  then obtain ps where ps: "nvram_writes (Suc i) m ins = Some ps"
    "\<And>cells sel j. j < 256 \<Longrightarrow> fst (fold chip_write ps (cells, sel)) (of_nat j) = (if Suc i \<le> j \<and> j < Suc i + m then ins ! j else cells (of_nat j))"
    using Suc.IH [of "Suc i"] by auto
  have "(of_nat j :: byte) = of_nat i \<longleftrightarrow> j = i" if "j < 256" for j
    using that Suc.prems(2) by (simp add: word_of_nat_eq_iff take_bit_eq_mod)
  moreover have "Suc i \<le> j \<or> j = i" if "i \<le> j" for j using that by auto
  ultimately show ?case using Suc.prems ps by (fastforce simp: array_get_def)
qed auto

text \<open>
  What \<open>writeNVRAM\<close> writes to a chip that keeps its cells, \<open>readNVRAM\<close> reads back.
\<close>

theorem nvram_roundtrip:
  assumes "length ins = 128" "length out = 128"
  shows "\<exists>ps. writeNVRAM ins = Some ps \<and> readNVRAM (\<lambda>_. fst (fold chip_write ps (cells, sel))) n out = Some ins"
proof -
  obtain ps where ps: "writeNVRAM ins = Some ps"
    "\<And>j. j < 256 \<Longrightarrow> fst (fold chip_write ps (cells, sel)) (of_nat j) = (if j < 128 then ins ! j else cells (of_nat j))"
    using nvram_writes_store [of ins 0 128] assms(1) by (auto simp: writeNVRAM_def)
  have "map (\<lambda>j. fst (fold chip_write ps (cells, sel)) (of_nat j)) [0 ..< 128] = map ((!) ins) [0 ..< length ins]"
    using ps(2) assms(1) by simp
  then show ?thesis using ps(1) nvram_reads_eq [of out 0 128] assms(2) by (simp add: readNVRAM_def map_nth)
qed

end
