(* ===== verification/Terminal.thy ===== *)
theory Terminal
  imports Cstring
begin

text \<open>
  The VGA text driver \<^verbatim>\<open>src/kernel/drivers/video/vgamode3.c\<close>: a buffer of 25 rows of 80 cells, a cursor and an
  attribute byte. The buffer is the list of its 2000 cells, a write outside it is \<open>None\<close>. Writes to I/O ports
  are a trace of ports and bytes; the serial port is ready at once, so the wait before a byte has no
  counterpart.
\<close>

section \<open>State\<close>

abbreviation TERM_WIDTH :: nat where "TERM_WIDTH \<equiv> 80"
abbreviation TERM_HEIGHT :: nat where "TERM_HEIGHT \<equiv> 25"

record terminal =
  vga_buffer :: "u16 list"
  terminal_row :: nat
  terminal_col :: nat
  terminal_color :: byte
  term_ports :: "(u16 \<times> byte) list"

definition outb :: "u16 \<Rightarrow> byte \<Rightarrow> terminal \<Rightarrow> terminal" where
  "outb port x s = s\<lparr>term_ports := term_ports s @ [(port, x)]\<rparr>"

text \<open>\<open>((uint16_t)terminal_color << 8) | (uint8_t)c\<close>\<close>

definition vga_cell :: "byte \<Rightarrow> byte \<Rightarrow> u16" where
  "vga_cell color c = push_bit 8 (ucast color) OR ucast c"

definition vga_put :: "nat \<Rightarrow> byte \<Rightarrow> terminal \<Rightarrow> terminal option" where
  "vga_put i c s = do { b \<leftarrow> array_set (vga_buffer s) i (vga_cell (terminal_color s) c); Some (s\<lparr>vga_buffer := b\<rparr>) }"

section \<open>Operations\<close>

fun clear_cells :: "nat \<Rightarrow> nat \<Rightarrow> terminal \<Rightarrow> terminal option" where
  "clear_cells i 0 s = Some s"
| "clear_cells i (Suc n) s = do { s \<leftarrow> vga_put i 32 s; clear_cells (Suc i) n s }"

definition vga_scroll_up :: "terminal \<Rightarrow> terminal option" where
  "vga_scroll_up s =
     do { b \<leftarrow> memmove (vga_buffer s) 0 TERM_WIDTH ((TERM_HEIGHT - 1) * TERM_WIDTH);
          s \<leftarrow> clear_cells ((TERM_HEIGHT - 1) * TERM_WIDTH) TERM_WIDTH (s\<lparr>vga_buffer := b\<rparr>);
          Some (s\<lparr>terminal_row := TERM_HEIGHT - 1, terminal_col := 0\<rparr>) }"

definition move_cursor :: "nat \<Rightarrow> nat \<Rightarrow> terminal \<Rightarrow> terminal" where
  "move_cursor x y s =
     (let pos = of_nat (y * 80 + x) :: u16
      in outb 0x3D5 (ucast (pos AND 0xFF)) (outb 0x3D4 0x0F
           (outb 0x3D5 (ucast (drop_bit 8 pos AND 0xFF)) (outb 0x3D4 0x0E s))))"

text \<open>The step to the next row in \<open>terminal_putc\<close>.\<close>

definition next_row :: "terminal \<Rightarrow> terminal option" where
  "next_row s =
     (let s = s\<lparr>terminal_col := 0, terminal_row := terminal_row s + 1\<rparr>
      in if terminal_row s \<ge> TERM_HEIGHT then vga_scroll_up s
         else Some (move_cursor (terminal_col s) (terminal_row s) s))"

definition terminal_putc :: "byte \<Rightarrow> terminal \<Rightarrow> terminal option" where
  "terminal_putc c s =
     (if c = 0x1B then Some s
      else if c = 10 then next_row s
      else do {
        s \<leftarrow> vga_put (terminal_row s * TERM_WIDTH + terminal_col s) c s;
        let s = s\<lparr>terminal_col := terminal_col s + 1\<rparr>;
        if terminal_col s \<ge> TERM_WIDTH then next_row s
        else Some (move_cursor (terminal_col s) (terminal_row s) s) })"

definition terminal_backspace :: "terminal \<Rightarrow> terminal option" where
  "terminal_backspace s =
     (if terminal_col s = 0 \<and> terminal_row s = 0 then Some s
      else
        let s = (if terminal_col s = 0
                 then s\<lparr>terminal_row := terminal_row s - 1, terminal_col := TERM_WIDTH - 1\<rparr>
                 else s\<lparr>terminal_col := terminal_col s - 1\<rparr>)
        in do { s \<leftarrow> vga_put (terminal_row s * TERM_WIDTH + terminal_col s) 32 s;
                Some (move_cursor (terminal_col s) (terminal_row s) s) })"

definition terminal_set_color :: "byte \<Rightarrow> terminal \<Rightarrow> terminal" where
  "terminal_set_color color s = s\<lparr>terminal_color := color\<rparr>"

definition terminal_get_color :: "terminal \<Rightarrow> byte" where
  "terminal_get_color s = terminal_color s"

fun terminal_write :: "byte list \<Rightarrow> terminal \<Rightarrow> terminal option" where
  "terminal_write [] s = None"
| "terminal_write (c # cs) s = (if c = 0 then Some s else do { s \<leftarrow> terminal_putc c s; terminal_write cs s })"

fun serial_write :: "byte list \<Rightarrow> terminal \<Rightarrow> terminal option" where
  "serial_write [] s = None"
| "serial_write (c # cs) s = (if c = 0 then Some s else serial_write cs (outb 0x3F8 c s))"

definition serial_init :: "terminal \<Rightarrow> terminal" where
  "serial_init s =
     fold (\<lambda>(p, x). outb p x)
       [(0x3F9, 0x00), (0x3FB, 0x80), (0x3F8, 0x03), (0x3F9, 0x00), (0x3FB, 0x03), (0x3FC, 0x00), (0x3F9, 0x01)] s"

section \<open>Invariant\<close>

definition term_ok :: "terminal \<Rightarrow> bool" where
  "term_ok s \<longleftrightarrow> length (vga_buffer s) = 2000 \<and> terminal_row s < 25 \<and> terminal_col s < 80"

lemma outb_fields [simp]:
  "vga_buffer (outb p x s) = vga_buffer s" "terminal_row (outb p x s) = terminal_row s"
  "terminal_col (outb p x s) = terminal_col s" "terminal_color (outb p x s) = terminal_color s"
  by (simp_all add: outb_def)

lemma move_cursor_fields [simp]:
  "vga_buffer (move_cursor x y s) = vga_buffer s" "terminal_row (move_cursor x y s) = terminal_row s"
  "terminal_col (move_cursor x y s) = terminal_col s" "terminal_color (move_cursor x y s) = terminal_color s"
  by (simp_all add: move_cursor_def Let_def)

lemma move_cursor_ok [simp]: "term_ok (move_cursor x y s) = term_ok s"
  by (simp add: term_ok_def)

lemma vga_put_eq:
  "i < length (vga_buffer s) \<Longrightarrow> vga_put i c s = Some (s\<lparr>vga_buffer := (vga_buffer s)[i := vga_cell (terminal_color s) c]\<rparr>)"
  by (simp add: vga_put_def array_set_def)

lemma cell_index: "r < 25 \<Longrightarrow> c < 80 \<Longrightarrow> r * 80 + c < (2000 :: nat)"
proof -
  assume "r < 25" "c < 80"
  then have "r * 80 \<le> 24 * 80" by (intro mult_le_mono1) simp
  with \<open>c < 80\<close> show ?thesis by simp
qed

lemma clear_cells_eq:
  "i + n \<le> length (vga_buffer s) \<Longrightarrow>
     clear_cells i n s = Some (s\<lparr>vga_buffer := take i (vga_buffer s) @ replicate n (vga_cell (terminal_color s) 32)
                                  @ drop (i + n) (vga_buffer s)\<rparr>)"
proof (induction n arbitrary: i s)
  case (Suc n)
  let ?x = "vga_cell (terminal_color s) 32"
  let ?s = "s\<lparr>vga_buffer := (vga_buffer s)[i := ?x]\<rparr>"
  have "clear_cells (Suc i) n ?s = Some (?s\<lparr>vga_buffer := take (Suc i) (vga_buffer ?s) @ replicate n ?x
      @ drop (Suc i + n) (vga_buffer ?s)\<rparr>)"
    using Suc.IH [of "Suc i" ?s] Suc.prems by simp
  moreover have "take (Suc i) ((vga_buffer s)[i := ?x]) = take i (vga_buffer s) @ [?x]"
    using Suc.prems by (simp add: take_Suc_conv_app_nth)
  ultimately show ?case using Suc.prems by (simp add: vga_put_eq)
qed simp

lemma vga_scroll_up_eq:
  assumes "length (vga_buffer s) = 2000"
  shows "vga_scroll_up s = Some (s\<lparr>vga_buffer := drop 80 (vga_buffer s) @ replicate 80 (vga_cell (terminal_color s) 32),
     terminal_row := 24, terminal_col := 0\<rparr>)"
proof -
  have "memmove (vga_buffer s) 0 80 1920 = Some (drop 80 (vga_buffer s) @ drop 1920 (vga_buffer s))"
    using memmove_eq [of 0 1920 "vga_buffer s" 80] assms by simp
  then show ?thesis using assms by (simp add: vga_scroll_up_def clear_cells_eq)
qed
text \<open>The cursor as a position in the buffer.\<close>

definition term_pos :: "terminal \<Rightarrow> nat" where
  "term_pos s = terminal_row s * 80 + terminal_col s"

lemma term_pos_bound: "term_ok s \<Longrightarrow> term_pos s < 2000"
  by (simp add: term_ok_def term_pos_def cell_index)

lemma next_row_spec:
  assumes "length (vga_buffer s) = 2000" "terminal_row s < 25"
  shows "\<exists>s'. next_row s = Some s' \<and> term_ok s' \<and> terminal_color s' = terminal_color s
     \<and> (terminal_row s < 24 \<longrightarrow> vga_buffer s' = vga_buffer s \<and> term_pos s' = (terminal_row s + 1) * 80)
     \<and> (terminal_row s = 24 \<longrightarrow>
          vga_buffer s' = drop 80 (vga_buffer s) @ replicate 80 (vga_cell (terminal_color s) 32) \<and> term_pos s' = 1920
          \<and> term_ports s' = term_ports s)"
  using assms by (auto simp: next_row_def Let_def vga_scroll_up_eq term_ok_def term_pos_def)

text \<open>A printed character, away from the last cell and in it.\<close>

lemma putc_print:
  assumes ok: "term_ok s" and c: "c \<noteq> 0x1B" "c \<noteq> 10"
  shows "\<exists>s'. terminal_putc c s = Some s' \<and> term_ok s' \<and> terminal_color s' = terminal_color s
     \<and> (term_pos s < 1999 \<longrightarrow> term_pos s' = term_pos s + 1
          \<and> vga_buffer s' = (vga_buffer s)[term_pos s := vga_cell (terminal_color s) c])
     \<and> (term_pos s = 1999 \<longrightarrow> term_pos s' = 1920
          \<and> vga_buffer s' = drop 80 ((vga_buffer s)[1999 := vga_cell (terminal_color s) c])
                             @ replicate 80 (vga_cell (terminal_color s) 32))"
proof -
  let ?b = "(vga_buffer s)[term_pos s := vga_cell (terminal_color s) c]"
  let ?s = "s\<lparr>vga_buffer := ?b, terminal_col := terminal_col s + 1\<rparr>"
  have l: "term_pos s < length (vga_buffer s)" "length (vga_buffer s) = 2000" "terminal_row s < 25" "terminal_col s < 80"
    using ok term_pos_bound [OF ok] by (simp_all add: term_ok_def)
  have run: "terminal_putc c s =
      (if terminal_col s + 1 \<ge> 80 then next_row ?s else Some (move_cursor (terminal_col s + 1) (terminal_row s) ?s))"
    using c l by (simp add: terminal_putc_def vga_put_eq term_pos_def [symmetric] Let_def)
  show ?thesis
  proof (cases "terminal_col s = 79")
    case False
    then have "terminal_col s < 79" using l by simp
    moreover have "term_pos s \<noteq> 1999" using False l by (auto simp: term_pos_def)
    ultimately show ?thesis using run l by (simp add: term_ok_def term_pos_def)
  next
    case True
    obtain s' where s': "next_row ?s = Some s'" "term_ok s'" "terminal_color s' = terminal_color s"
      "terminal_row s < 24 \<longrightarrow> vga_buffer s' = ?b \<and> term_pos s' = (terminal_row s + 1) * 80"
      "terminal_row s = 24 \<longrightarrow> vga_buffer s' = drop 80 ?b @ replicate 80 (vga_cell (terminal_color s) 32) \<and> term_pos s' = 1920"
      using next_row_spec [of ?s] l by auto
    have "terminal_row s < 24 \<longleftrightarrow> term_pos s < 1999" "terminal_row s = 24 \<longleftrightarrow> term_pos s = 1999"
      "(terminal_row s + 1) * 80 = term_pos s + 1"
      using True l by (auto simp: term_pos_def)
    then show ?thesis using run s' True by auto
  qed
qed

lemma putc_ok:
  assumes "term_ok s"
  shows "\<exists>s'. terminal_putc c s = Some s' \<and> term_ok s'"
proof (cases "c = 0x1B \<or> c = 10")
  case True
  then show ?thesis using assms next_row_spec [of s] by (auto simp: terminal_putc_def term_ok_def)
next
  case False
  then show ?thesis using putc_print [OF assms] by blast
qed

lemma backspace_spec:
  assumes ok: "term_ok s"
  shows "\<exists>s'. terminal_backspace s = Some s' \<and> term_ok s'
     \<and> (0 < term_pos s \<longrightarrow> term_pos s' = term_pos s - 1
          \<and> vga_buffer s' = (vga_buffer s)[term_pos s - 1 := vga_cell (terminal_color s) 32])"
proof (cases "terminal_col s = 0")
  case True
  show ?thesis
  proof (cases "terminal_row s")
    case 0
    then show ?thesis using True ok by (simp add: terminal_backspace_def term_pos_def)
  next
    case (Suc r)
    then have "r * 80 + 79 < length (vga_buffer s)" "term_pos s - 1 = r * 80 + 79"
      using ok True cell_index [of r 79] by (simp_all add: term_ok_def term_pos_def)
    then show ?thesis
      using True Suc ok by (simp add: terminal_backspace_def vga_put_eq term_ok_def term_pos_def add.commute)
  qed
next
  case False
  have "terminal_col s - 1 < 80" using ok by (simp add: term_ok_def less_imp_diff_less)
  then have "terminal_row s * 80 + (terminal_col s - 1) < length (vga_buffer s)"
      "term_pos s - 1 = terminal_row s * 80 + (terminal_col s - 1)" "terminal_col s - 1 < 80"
    using ok False cell_index [of "terminal_row s" "terminal_col s - 1"] by (simp_all add: term_ok_def term_pos_def)
  then show ?thesis using False ok by (simp add: terminal_backspace_def vga_put_eq term_ok_def term_pos_def)
qed

lemma write_ok: "term_ok s \<Longrightarrow> terminated str \<Longrightarrow> \<exists>s'. terminal_write str s = Some s' \<and> term_ok s'"
proof (induction str arbitrary: s)
  case (Cons c cs)
  then show ?case using putc_ok [of s c] by (cases "c = 0") auto
qed simp

section \<open>Runs\<close>

datatype term_op = Putc byte | Backspace | TWrite "byte list" | SetColor byte

fun term_step :: "terminal \<Rightarrow> term_op \<Rightarrow> terminal option" where
  "term_step s (Putc c) = terminal_putc c s"
| "term_step s Backspace = terminal_backspace s"
| "term_step s (TWrite str) = terminal_write (str @ [0]) s"
| "term_step s (SetColor c) = Some (terminal_set_color c s)"

lemma term_step_ok: "term_ok s \<Longrightarrow> \<exists>s'. term_step s x = Some s' \<and> term_ok s'"
  using putc_ok [of s] backspace_spec [of s] write_ok [of s]
  by (cases x) (auto simp: terminal_set_color_def term_ok_def)

interpretation term_run: machine "\<lambda>s x. the (term_step s x)" term_ok
proof unfold_locales
  show "term_ok (the (term_step s x))" if "term_ok s" for s x using term_step_ok [OF that, of x] by auto
qed

section \<open>Properties\<close>

text \<open>
  C19: no sequence of characters, backspaces, strings and colour changes makes the driver write outside the
  2000 cells of the screen or moves the cursor off it.
\<close>

theorem terminal_stays_on_screen:
  assumes "term_ok s"
  shows "term_ok (foldl (\<lambda>s x. the (term_step s x)) s xs)
     \<and> term_step (foldl (\<lambda>s x. the (term_step s x)) s xs) x \<noteq> None"
proof -
  have "term_ok (foldl (\<lambda>s x. the (term_step s x)) s xs)" by (rule term_run.run_inv [OF assms])
  then show ?thesis using term_step_ok by fastforce
qed

definition blank_terminal :: terminal where
  "blank_terminal = \<lparr>vga_buffer = replicate 2000 0x0F20, terminal_row = 0, terminal_col = 0, terminal_color = 0x0F,
     term_ports = []\<rparr>"

lemma blank_terminal_ok: "term_ok blank_terminal"
  by (simp add: blank_terminal_def term_ok_def)

theorem terminal_stays_on_screen_witness:
  "term_ok (foldl (\<lambda>s x. the (term_step s x)) blank_terminal (replicate 30 (Putc 10)))
   \<and> term_step (foldl (\<lambda>s x. the (term_step s x)) blank_terminal (replicate 30 (Putc 10))) Backspace \<noteq> None"
  by (rule terminal_stays_on_screen [OF blank_terminal_ok])

text \<open>
  A string of printable characters that ends before the last cell of the screen appears in the cells from the
  cursor on, with the current attribute; the cursor moves behind it and no other cell changes.
\<close>

theorem terminal_write_text:
  assumes "term_ok s" "terminated str" "0x1B \<notin> set (cstr str)" "10 \<notin> set (cstr str)"
    "term_pos s + length (cstr str) < 2000"
  shows "\<exists>s'. terminal_write str s = Some s' \<and> term_pos s' = term_pos s + length (cstr str)
     \<and> vga_buffer s' = take (term_pos s) (vga_buffer s) @ map (vga_cell (terminal_color s)) (cstr str)
          @ drop (term_pos s + length (cstr str)) (vga_buffer s)"
  using assms
proof (induction str arbitrary: s)
  case (Cons c cs)
  show ?case
  proof (cases "c = 0")
    case False
    obtain t where t: "terminal_putc c s = Some t" "term_ok t" "terminal_color t = terminal_color s"
      "term_pos t = term_pos s + 1" "vga_buffer t = (vga_buffer s)[term_pos s := vga_cell (terminal_color s) c]"
      using putc_print [of s c] Cons.prems False by auto
    have l: "term_pos s < length (vga_buffer s)" using Cons.prems(1) term_pos_bound by (simp add: term_ok_def)
    have "take (term_pos s + 1) (vga_buffer t) = take (term_pos s) (vga_buffer s) @ [vga_cell (terminal_color s) c]"
      using l t(5) by (simp add: take_Suc_conv_app_nth)
    moreover have "drop (term_pos s + 1 + k) (vga_buffer t) = drop (term_pos s + 1 + k) (vga_buffer s)" for k
      using t(5) by simp
    ultimately show ?thesis
      using Cons.IH [of t] Cons.prems False t by (auto simp: add.assoc)
  qed simp
qed simp

theorem terminal_write_text_witness:
  "\<exists>s'. terminal_write (clit ''ok'') blank_terminal = Some s' \<and> term_pos s' = 2
     \<and> take 3 (vga_buffer s') = [0x0F6F, 0x0F6B, 0x0F20]"
proof -
  have c: "cstr (clit ''ok'') = [111, 107]" by (simp add: clit_def lit_def)
  have "\<exists>s'. terminal_write (clit ''ok'') blank_terminal = Some s'
     \<and> term_pos s' = term_pos blank_terminal + length (cstr (clit ''ok''))
     \<and> vga_buffer s' = take (term_pos blank_terminal) (vga_buffer blank_terminal)
          @ map (vga_cell (terminal_color blank_terminal)) (cstr (clit ''ok''))
          @ drop (term_pos blank_terminal + length (cstr (clit ''ok''))) (vga_buffer blank_terminal)"
    by (rule terminal_write_text [OF blank_terminal_ok]) (simp_all add: c, simp_all add: clit_def blank_terminal_def term_pos_def)
  moreover have "vga_cell 0x0F 111 = 0x0F6F" "vga_cell 0x0F 107 = 0x0F6B" by code_simp+
  ultimately show ?thesis unfolding c by (auto simp: blank_terminal_def term_pos_def numeral_eq_Suc)
qed

text \<open>
  When output scrolls the screen, the driver sets its own cursor to the start of the last row but writes no
  cursor register, so the visible cursor stays where it was.
\<close>

theorem terminal_scroll_cursor_stale:
  assumes "term_ok s" "terminal_row s = 24"
  shows "\<exists>s'. terminal_putc 10 s = Some s' \<and> terminal_row s' = 24 \<and> terminal_col s' = 0 \<and> term_ports s' = term_ports s"
  using assms by (simp add: terminal_putc_def next_row_def vga_scroll_up_eq term_ok_def)

theorem terminal_scroll_cursor_stale_witness:
  "let s = blank_terminal\<lparr>terminal_row := 24, terminal_col := 7\<rparr>
   in \<exists>s'. terminal_putc 10 s = Some s' \<and> terminal_col s' = 0 \<and> term_ports s' = term_ports s"
  using terminal_scroll_cursor_stale [of "blank_terminal\<lparr>terminal_row := 24, terminal_col := 7\<rparr>"]
  by (auto simp: Let_def term_ok_def blank_terminal_def)

end
