(* ===== verification/Keyboard.thy ===== *)
theory Keyboard
  imports Terminal
begin

text \<open>
  The PS/2 keyboard driver \<^verbatim>\<open>src/kernel/drivers/input/pskey.c\<close> and its line editor \<open>read_line\<close>. The controller
  is a list of events, one for each read of its status port: \<open>None\<close> when no byte is ready, \<open>Some c\<close> when the
  byte \<open>c\<close> can be read from the data port. A driver that waits when the list is used up does not return,
  which is the value \<open>None\<close>.

  \<open>char\<close> is signed on IA-32; the comparisons with letters are the same on unsigned bytes, since letters are below
  128 on both sides.
\<close>

section \<open>State\<close>

datatype keyboard_layout = KEYBOARD_LAYOUT_QWERTY | KEYBOARD_LAYOUT_AZERTY

record kbd =
  input_buffer :: "byte list"
  buffer_write_idx :: nat
  buffer_read_idx :: nat
  current_layout :: keyboard_layout
  shift_down :: bool
  ctrl_down :: bool
  alt_down :: bool
  capslock_on :: bool
  extended_scancode :: bool
  scancode_table :: "byte list"
  scancode_table_shift :: "byte list"
  kb_events :: "byte option list"
  kb_term :: terminal

abbreviation KEY_UP :: byte where "KEY_UP \<equiv> 0xE0"
abbreviation KEY_DOWN :: byte where "KEY_DOWN \<equiv> 0xE1"
abbreviation KEY_LEFT :: byte where "KEY_LEFT \<equiv> 0xE2"
abbreviation KEY_RIGHT :: byte where "KEY_RIGHT \<equiv> 0xE3"

text \<open>An array of 128 characters given by its first elements, zero elsewhere but for the delete key.\<close>

definition key_table :: "byte list \<Rightarrow> byte list" where
  "key_table xs = (xs @ replicate (128 - length xs) 0)[0x53 := 0x7F]"

definition qwerty_table :: "byte list" where
  "qwerty_table = key_table ([0, 0x1B] @ lit ''1234567890-='' @ [8, 9] @ lit ''qwertyuiop[]'' @ [10, 0]
     @ lit ''asdfghjkl;'' @ [39, 96, 0, 92] @ lit ''zxcvbnm,./'' @ [0, 42, 0, 32, 0])"

definition qwerty_table_shift :: "byte list" where
  "qwerty_table_shift = key_table ([0, 0x1B] @ lit ''!@#$%^&*()_+'' @ [8, 9] @ lit ''QWERTYUIOP{}'' @ [10, 0]
     @ lit ''ASDFGHJKL:'' @ [34, 126, 0, 124] @ lit ''ZXCVBNM<>?'' @ [0, 42, 0, 32, 0])"

definition azerty_table :: "byte list" where
  "azerty_table = key_table ([0, 0x1B] @ lit ''1234567890)='' @ [8, 9] @ lit ''azertyuiop^$'' @ [10, 0]
     @ lit ''qsdfghjklm'' @ [37, 96, 0, 42] @ lit ''wxcvbn,;:!'' @ [0, 42, 0, 32, 0])"

definition azerty_table_shift :: "byte list" where
  "azerty_table_shift = key_table ([0, 0x1B, 38, 0xE9, 34, 39, 40, 45, 0xE8, 95, 0xE7, 0xE0, 41, 61, 8, 9]
     @ lit ''AZERTYUIOP'' @ [0xA8, 0xA3, 10, 0] @ lit ''QSDFGHJKLM'' @ [0xB5, 126, 0, 42]
     @ lit ''WXCVBN?./+'' @ [0, 42, 0, 32, 0])"

definition keyboard_set_layout :: "keyboard_layout \<Rightarrow> kbd \<Rightarrow> kbd" where
  "keyboard_set_layout layout s =
     (case layout of
        KEYBOARD_LAYOUT_QWERTY \<Rightarrow>
          s\<lparr>current_layout := layout, scancode_table := qwerty_table, scancode_table_shift := qwerty_table_shift\<rparr>
      | KEYBOARD_LAYOUT_AZERTY \<Rightarrow>
          s\<lparr>current_layout := layout, scancode_table := azerty_table, scancode_table_shift := azerty_table_shift\<rparr>)"

definition keyboard_init :: "kbd \<Rightarrow> kbd" where
  "keyboard_init s = keyboard_set_layout KEYBOARD_LAYOUT_QWERTY s"

section \<open>Scan codes\<close>

definition is_lower_letter :: "byte \<Rightarrow> bool" where
  "is_lower_letter c \<longleftrightarrow> 97 \<le> c \<and> c \<le> 122"

definition translate_scancode :: "byte \<Rightarrow> kbd \<Rightarrow> byte option" where
  "translate_scancode code s =
     do { normal \<leftarrow> array_get (scancode_table s) (unat code);
          ch \<leftarrow> (if shift_down s then array_get (scancode_table_shift s) (unat code) else Some normal);
          let ch = (if capslock_on s \<and> is_lower_letter normal
                    then if shift_down s then normal else normal - 97 + 65
                    else ch);
          let ch = (if ctrl_down s \<and> ((97 \<le> ch \<and> ch \<le> 122) \<or> (65 \<le> ch \<and> ch \<le> 90)) then ch AND 0x1F else ch);
          Some (if alt_down s \<and> ch \<noteq> 0 then 0x80 OR ch else ch) }"

text \<open>
  The treatment of one byte, the same in \<open>keyboard_getchar\<close>, where the inner \<open>None\<close> is \<open>continue\<close>, and in
  \<open>keyboard_pollchar\<close>, where it is \<open>return 0\<close>.
\<close>

definition scan_step :: "byte \<Rightarrow> kbd \<Rightarrow> (byte option \<times> kbd) option" where
  "scan_step c s =
     (if c = 0xE0 then Some (None, s\<lparr>extended_scancode := True\<rparr>)
      else if extended_scancode s then
        let s = s\<lparr>extended_scancode := False\<rparr>
        in if c = 0x48 then Some (Some KEY_UP, s)
           else if c = 0x50 then Some (Some KEY_DOWN, s)
           else if c = 0x4B then Some (Some KEY_LEFT, s)
           else if c = 0x4D then Some (Some KEY_RIGHT, s)
           else Some (None, s)
      else if c = 0x2A \<or> c = 0x36 then Some (None, s\<lparr>shift_down := True\<rparr>)
      else if c = 0xAA \<or> c = 0xB6 then Some (None, s\<lparr>shift_down := False\<rparr>)
      else if c = 0x1D then Some (None, s\<lparr>ctrl_down := True\<rparr>)
      else if c = 0x9D then Some (None, s\<lparr>ctrl_down := False\<rparr>)
      else if c = 0x38 then Some (None, s\<lparr>alt_down := True\<rparr>)
      else if c = 0xB8 then Some (None, s\<lparr>alt_down := False\<rparr>)
      else if c = 0x3A then Some (None, s\<lparr>capslock_on := \<not> capslock_on s\<rparr>)
      else if c AND 0x80 \<noteq> 0 then Some (None, s)
      else do { ch \<leftarrow> translate_scancode c s; Some (Some ch, s) })"

text \<open>The loop of \<open>keyboard_getchar\<close> over the events.\<close>

fun getchar_loop :: "byte option list \<Rightarrow> kbd \<Rightarrow> (byte \<times> kbd) option" where
  "getchar_loop [] s = None"
| "getchar_loop (None # es) s = getchar_loop es s"
| "getchar_loop (Some c # es) s =
     do { (r, s) \<leftarrow> scan_step c s;
          case r of Some ch \<Rightarrow> Some (ch, s\<lparr>kb_events := es\<rparr>) | None \<Rightarrow> getchar_loop es s }"

definition keyboard_getchar :: "kbd \<Rightarrow> (byte \<times> kbd) option" where
  "keyboard_getchar s = getchar_loop (kb_events s) s"

definition keyboard_pollchar :: "kbd \<Rightarrow> (byte \<times> kbd) option" where
  "keyboard_pollchar s =
     (case kb_events s of
        [] \<Rightarrow> Some (0, s)
      | None # es \<Rightarrow> Some (0, s\<lparr>kb_events := es\<rparr>)
      | Some c # es \<Rightarrow>
          do { (r, s) \<leftarrow> scan_step c (s\<lparr>kb_events := es\<rparr>);
               Some (case r of Some ch \<Rightarrow> ch | None \<Rightarrow> 0, s) })"

section \<open>The line editor\<close>

definition buffer_read :: "kbd \<Rightarrow> (byte \<times> kbd) option" where
  "buffer_read s =
     (if buffer_read_idx s < buffer_write_idx s
      then do { c \<leftarrow> array_get (input_buffer s) (buffer_read_idx s);
                Some (c, s\<lparr>buffer_read_idx := buffer_read_idx s + 1\<rparr>) }
      else Some (0, s))"

definition buffer_reset :: "kbd \<Rightarrow> kbd" where
  "buffer_reset s = s\<lparr>buffer_write_idx := 0, buffer_read_idx := 0\<rparr>"

definition echo :: "(terminal \<Rightarrow> terminal option) \<Rightarrow> kbd \<Rightarrow> kbd option" where
  "echo f s = do { t \<leftarrow> f (kb_term s); Some (s\<lparr>kb_term := t\<rparr>) }"

definition next_char :: "kbd \<Rightarrow> (byte \<times> kbd) option" where
  "next_char s =
     do { (c, s) \<leftarrow> buffer_read s;
          if c \<noteq> 0 then Some (c, s)
          else do { (c, s) \<leftarrow> keyboard_pollchar s;
                    if c \<noteq> 0 then Some (c, s) else keyboard_getchar s } }"

partial_function (option) read_loop :: "byte list \<Rightarrow> nat \<Rightarrow> nat \<Rightarrow> kbd \<Rightarrow> (byte list \<times> kbd) option" where
  "read_loop buf sz idx s =
     do { (c, s) \<leftarrow> next_char s;
          if c = 0 then read_loop buf sz idx s
          else if c = 13 \<or> c = 10
          then do { s \<leftarrow> echo (terminal_write (clit [CHR 0x0A])) s;
                    buf \<leftarrow> array_set buf idx 0;
                    Some (buf, buffer_reset s) }
          else if (c = 8 \<or> c = 0x7F) \<and> idx > 0
          then do { s \<leftarrow> echo terminal_backspace s; read_loop buf sz (idx - 1) s }
          else if idx + 1 < sz
          then do { buf \<leftarrow> array_set buf idx c;
                    s \<leftarrow> echo (terminal_putc c) s;
                    read_loop buf sz (idx + 1) s }
          else read_loop buf sz idx s }"

definition read_line :: "byte list \<Rightarrow> nat \<Rightarrow> kbd \<Rightarrow> (byte list \<times> kbd) option" where
  "read_line buf sz s = read_loop buf sz 0 (buffer_reset s)"

section \<open>The characters a sequence of events stands for\<close>

fun chars_of :: "byte option list \<Rightarrow> kbd \<Rightarrow> byte list" where
  "chars_of [] s = []"
| "chars_of (None # es) s = chars_of es s"
| "chars_of (Some c # es) s =
     (case scan_step c s of
        None \<Rightarrow> []
      | Some (r, s) \<Rightarrow>
          (case r of Some ch \<Rightarrow> (if ch \<noteq> 0 then [ch] else []) | None \<Rightarrow> []) @ chars_of es s)"

lemma translate_frame [simp]:
  "translate_scancode c (s\<lparr>kb_events := e\<rparr>) = translate_scancode c s"
  "translate_scancode c (s\<lparr>kb_term := t\<rparr>) = translate_scancode c s"
  "translate_scancode c (s\<lparr>buffer_write_idx := i\<rparr>) = translate_scancode c s"
  "translate_scancode c (s\<lparr>buffer_read_idx := i\<rparr>) = translate_scancode c s"
  "translate_scancode c (s\<lparr>input_buffer := b\<rparr>) = translate_scancode c s"
  by (simp_all add: translate_scancode_def Let_def cong: if_cong)

lemma scan_step_frame:
  "scan_step c (s\<lparr>kb_events := e\<rparr>) = map_option (\<lambda>(r, s). (r, s\<lparr>kb_events := e\<rparr>)) (scan_step c s)"
  "scan_step c (s\<lparr>kb_term := t\<rparr>) = map_option (\<lambda>(r, s). (r, s\<lparr>kb_term := t\<rparr>)) (scan_step c s)"
  "scan_step c (s\<lparr>buffer_write_idx := i\<rparr>) = map_option (\<lambda>(r, s). (r, s\<lparr>buffer_write_idx := i\<rparr>)) (scan_step c s)"
  "scan_step c (s\<lparr>buffer_read_idx := i\<rparr>) = map_option (\<lambda>(r, s). (r, s\<lparr>buffer_read_idx := i\<rparr>)) (scan_step c s)"
  "scan_step c (s\<lparr>input_buffer := b\<rparr>) = map_option (\<lambda>(r, s). (r, s\<lparr>input_buffer := b\<rparr>)) (scan_step c s)"
  by (simp_all add: scan_step_def Let_def option.map_comp comp_def split: bind_split)

lemma chars_of_frame [simp]:
  "chars_of es (s\<lparr>kb_events := e\<rparr>) = chars_of es s" "chars_of es (s\<lparr>kb_term := t\<rparr>) = chars_of es s"
  "chars_of es (s\<lparr>buffer_write_idx := i\<rparr>) = chars_of es s" "chars_of es (s\<lparr>buffer_read_idx := i\<rparr>) = chars_of es s"
  "chars_of es (s\<lparr>input_buffer := b\<rparr>) = chars_of es s"
  by (induction es s rule: chars_of.induct)
     (auto simp: scan_step_frame split: option.split prod.split)

lemma scan_step_keeps:
  "scan_step c s = Some (r, s') \<Longrightarrow>
     kb_events s' = kb_events s \<and> kb_term s' = kb_term s \<and> buffer_write_idx s' = buffer_write_idx s
     \<and> scancode_table s' = scancode_table s \<and> scancode_table_shift s' = scancode_table_shift s"
  by (auto simp: scan_step_def Let_def split: if_splits bind_splits)

definition kb_ok :: "kbd \<Rightarrow> bool" where
  "kb_ok s \<longleftrightarrow> length (scancode_table s) = 128 \<and> length (scancode_table_shift s) = 128
     \<and> term_ok (kb_term s) \<and> buffer_write_idx s = 0"

lemma kb_ok_frame [simp]: "kb_ok (s\<lparr>kb_events := e\<rparr>) = kb_ok s"
  by (simp add: kb_ok_def)

lemma low_code: "c AND 0x80 = 0 \<Longrightarrow> unat c < 128" for c :: byte
proof -
  assume a: "c AND 0x80 = 0"
  have "\<not> bit c 7"
  proof
    assume "bit c 7"
    then have "bit (c AND 0x80) 7" by (simp add: bit_and_iff)
    then show False using a by simp
  qed
  then have "\<not> bit (unat c) 7" by (simp add: bit_unsigned_iff)
  then have e: "even (unat c div 128)" by (simp add: bit_iff_odd)
  have "unat c < 256" using unsigned_less [where ?'a = nat, of c] by simp
  then have "unat c div 128 < 2" by (simp add: less_mult_imp_div_less)
  then have "unat c div 128 = 0" using e by (auto simp: less_2_cases_iff)
  then show ?thesis by (simp add: div_eq_0_iff)
qed

lemma scan_step_returns: "kb_ok s \<Longrightarrow> \<exists>r s'. scan_step c s = Some (r, s') \<and> kb_ok s'"
proof -
  assume ok: "kb_ok s"
  then have "\<exists>ch. translate_scancode c s = Some ch" if "c AND 0x80 = 0"
    using low_code [OF that] by (auto simp: translate_scancode_def array_get_def kb_ok_def Let_def)
  then obtain ch where "c AND 0x80 = 0 \<longrightarrow> translate_scancode c s = Some ch" by blast
  then have "scan_step c s \<noteq> None" by (cases "c AND 0x80 = 0") (simp_all add: scan_step_def Let_def)
  then obtain r s' where "scan_step c s = Some (r, s')" by fast
  moreover from this have "kb_ok s'" using ok scan_step_keeps [of c s r s'] by (simp add: kb_ok_def)
  ultimately show ?thesis by blast
qed

text \<open>A character that is read is the next of the sequence; reading shortens the events.\<close>

definition advances :: "kbd \<Rightarrow> byte \<Rightarrow> kbd \<Rightarrow> bool" where
  "advances s c s' \<longleftrightarrow> kb_ok s' \<and> kb_term s' = kb_term s \<and> length (kb_events s') < length (kb_events s)
     \<and> chars_of (kb_events s) s = (if c \<noteq> 0 then [c] else []) @ chars_of (kb_events s') s'"

lemma getchar_loop_spec:
  assumes "kb_ok s"
  shows "(getchar_loop es s = None \<and> chars_of es s = [])
    \<or> (\<exists>c s'. getchar_loop es s = Some (c, s') \<and> advances (s\<lparr>kb_events := es\<rparr>) c s')"
  using assms
proof (induction es s rule: getchar_loop.induct)
  case (2 es s)
  then show ?case by (auto simp: advances_def)
next
  case (3 c es s)
  obtain r s1 where r: "scan_step c s = Some (r, s1)" "kb_ok s1" using scan_step_returns [OF 3(2)] by blast
  note k = scan_step_keeps [OF r(1)]
  show ?case
  proof (cases r)
    case None
    then show ?thesis using 3(1) [OF r(1) refl None r(2)] r(1) k by (auto simp: advances_def)
  next
    case (Some ch)
    then show ?thesis using r k by (auto simp: advances_def)
  qed
qed simp

lemma next_char_spec:
  assumes ok: "kb_ok s"
  shows "(next_char s = None \<and> chars_of (kb_events s) s = []) \<or> (\<exists>c s'. next_char s = Some (c, s') \<and> advances s c s')"
proof -
  have b: "buffer_read s = Some (0, s)" using ok by (simp add: buffer_read_def kb_ok_def)
  have g: "(keyboard_getchar t = None \<and> chars_of (kb_events t) t = [])
      \<or> (\<exists>c s'. keyboard_getchar t = Some (c, s') \<and> advances t c s')" if "kb_ok t" for t
    using getchar_loop_spec [OF that, of "kb_events t"] by (simp add: keyboard_getchar_def)
  show ?thesis
  proof (cases "kb_events s")
    case Nil
    then show ?thesis using b by (simp add: next_char_def keyboard_pollchar_def keyboard_getchar_def)
  next
    case (Cons e es)
    let ?s = "s\<lparr>kb_events := es\<rparr>"
    show ?thesis
    proof (cases e)
      case None
      then show ?thesis using b Cons g [of ?s] ok
        by (auto simp: next_char_def keyboard_pollchar_def advances_def)
    next
      case (Some c)
      obtain r s1 where r: "scan_step c s = Some (r, s1)" "kb_ok s1" using scan_step_returns [OF ok] by blast
      note k = scan_step_keeps [OF r(1)]
      let ?s1 = "s1\<lparr>kb_events := es\<rparr>" and ?ch = "case r of Some ch \<Rightarrow> ch | None \<Rightarrow> 0"
      have p: "keyboard_pollchar s = Some (?ch, ?s1)"
        using Cons Some r by (simp add: keyboard_pollchar_def scan_step_frame)
      have ch: "chars_of (kb_events s) s = (if ?ch \<noteq> 0 then [?ch] else []) @ chars_of es s1"
        using Cons Some r by (auto split: option.split)
      show ?thesis
      proof (cases "?ch = 0")
        case True
        then have n: "next_char s = keyboard_getchar ?s1" using b p by (simp add: next_char_def)
        show ?thesis using g [of ?s1] r(2) k ch True Cons unfolding n by (auto simp: advances_def)
      next
        case False
        then have "next_char s = Some (?ch, ?s1)" using b p by (simp add: next_char_def)
        then show ?thesis using False r(2) k ch Cons by (auto simp: advances_def)
      qed
    qed
  qed
qed

section \<open>The line editor and its specification\<close>

text \<open>A line under an edit: backspace and delete remove the last character, a full line drops the rest.\<close>

definition line_step :: "nat \<Rightarrow> byte list \<Rightarrow> byte \<Rightarrow> byte list" where
  "line_step sz l c =
     (if (c = 8 \<or> c = 0x7F) \<and> l \<noteq> [] then butlast l else if length l + 1 < sz then l @ [c] else l)"

lemma line_step_bound: "length l < sz \<Longrightarrow> length (line_step sz l c) < sz"
  by (auto simp: line_step_def)

lemma echo_ok:
  assumes "kb_ok s" "\<exists>t. f (kb_term s) = Some t \<and> term_ok t"
  obtains s' where "echo f s = Some s'" "kb_ok s'" "kb_events s' = kb_events s" "\<forall>es. chars_of es s' = chars_of es s"
  using assms by (auto simp: echo_def kb_ok_def)

lemma read_loop_edits:
  assumes "kb_ok s" "chars_of (kb_events s) s = pre @ nl # rest" "nl \<in> {10, 13}" "\<forall>c \<in> set pre. c \<notin> {10, 13}"
    and "idx < sz" "sz \<le> length buf"
  shows "\<exists>buf' s'. read_loop buf sz idx s = Some (buf', s') \<and> length buf' = length buf \<and> kb_ok s' \<and> chars_of (kb_events s') s' = rest
     \<and> (let l = foldl (line_step sz) (take idx buf) pre in take (length l) buf' = l \<and> buf' ! length l = 0 \<and> length l < sz)"
  using assms
proof (induction "length (kb_events s)" arbitrary: s pre idx buf rule: less_induct)
  case less
  obtain c t where t: "next_char s = Some (c, t)" "advances s c t"
    using next_char_spec [OF less.prems(1)] less.prems(2) by auto
  have tok: "kb_ok t" and len: "length (kb_events t) < length (kb_events s)" using t(2) by (auto simp: advances_def)
  have ch: "(if c \<noteq> 0 then [c] else []) @ chars_of (kb_events t) t = pre @ nl # rest"
    using t(2) less.prems(2) by (simp add: advances_def)
  have il: "length (take idx buf) = idx" using less.prems(5,6) by simp
  show ?case
  proof (cases "c = 0")
    case True
    then have "read_loop buf sz idx s = read_loop buf sz idx t" using t(1) by (subst read_loop.simps) simp
    then show ?thesis using less.hyps [OF len tok _ less.prems(3-6)] ch True by simp
  next
    case c0: False
    show ?thesis
    proof (cases pre)
      case Nil
      then have c: "c = nl" using ch c0 by simp
      obtain s' where s': "echo (terminal_write (clit [CHR 0x0A])) t = Some s'" "kb_ok s'" "kb_events s' = kb_events t"
        "\<forall>es. chars_of es s' = chars_of es t"
        using echo_ok [OF tok, of "terminal_write (clit [CHR 0x0A])"] write_ok [of "kb_term t" "clit [CHR 0x0A]"] tok
        by (auto simp: kb_ok_def clit_def)
      have "read_loop buf sz idx s = Some (buf[idx := 0], buffer_reset s')"
        using t(1) c0 c s'(1) less.prems(3,5,6) by (subst read_loop.simps) (auto simp: array_set_def)
      moreover have "kb_ok (buffer_reset s')" using s'(2) by (simp add: kb_ok_def buffer_reset_def)
      moreover have "chars_of (kb_events (buffer_reset s')) (buffer_reset s') = rest" using s'(3,4) ch c0 Nil by (simp add: buffer_reset_def)
      ultimately show ?thesis using Nil less.prems(5,6) il by (simp add: Let_def)
    next
      case (Cons d pre')
      have cd: "c = d" "chars_of (kb_events t) t = pre' @ nl # rest" using ch c0 Cons by simp_all
      have nnl: "c \<noteq> 10" "c \<noteq> 13" "\<forall>c \<in> set pre'. c \<notin> {10, 13}" using less.prems(4) Cons cd(1) by auto
      have step: "foldl (line_step sz) (take idx buf) pre = foldl (line_step sz) (line_step sz (take idx buf) c) pre'"
        using Cons cd(1) by simp
      show ?thesis
      proof (cases "(c = 8 \<or> c = 0x7F) \<and> idx > 0")
        case True
        obtain s' where s': "echo terminal_backspace t = Some s'" "kb_ok s'" "kb_events s' = kb_events t"
          "\<forall>es. chars_of es s' = chars_of es t"
          using echo_ok [OF tok, of terminal_backspace] backspace_spec [of "kb_term t"] tok by (auto simp: kb_ok_def)
        have ls: "line_step sz (take idx buf) c = take (idx - 1) buf"
          using True less.prems(5,6) by (auto simp: line_step_def butlast_take)
        have "read_loop buf sz idx s = read_loop buf sz (idx - 1) s'"
          using t(1) c0 nnl True s' by (subst read_loop.simps) simp
        then show ?thesis
          using less.hyps [of s' pre' "idx - 1" buf] s' len cd nnl(3) less.prems(3,5,6) step ls by simp
      next
        case nb: False
        show ?thesis
        proof (cases "idx + 1 < sz")
          case True
          obtain s' where s': "echo (terminal_putc c) t = Some s'" "kb_ok s'" "kb_events s' = kb_events t"
            "\<forall>es. chars_of es s' = chars_of es t"
            using echo_ok [OF tok, of "terminal_putc c"] putc_ok [of "kb_term t" c] tok by (auto simp: kb_ok_def)
          have nd: "\<not> ((c = 8 \<or> c = 0x7F) \<and> take idx buf \<noteq> [])" using nb by auto
          have ls: "line_step sz (take idx buf) c = take (idx + 1) (buf[idx := c])"
            using True less.prems(5,6) il unfolding line_step_def if_not_P [OF nd] by (simp add: take_Suc_conv_app_nth)
          have "read_loop buf sz idx s = read_loop (buf[idx := c]) sz (idx + 1) s'"
            using t(1) c0 nnl nb True s' less.prems(5,6) by (subst read_loop.simps) (auto simp: array_set_def)
          then show ?thesis
            using less.hyps [of s' pre' "idx + 1" "buf[idx := c]"] s' len cd nnl(3) less.prems(3,6) True step ls by simp
        next
          case False
          have nd: "\<not> ((c = 8 \<or> c = 0x7F) \<and> take idx buf \<noteq> [])" using nb by auto
          have ls: "line_step sz (take idx buf) c = take idx buf"
            using False il unfolding line_step_def if_not_P [OF nd] by simp
          have "read_loop buf sz idx s = read_loop buf sz idx t"
            using t(1) c0 nnl nb False by (subst read_loop.simps) auto
          then show ?thesis using less.hyps [OF len tok cd(2) less.prems(3) nnl(3) less.prems(5,6)] step ls by simp
        qed
      qed
    qed
  qed
qed

lemma read_line_typed:
  assumes "kb_ok s" "chars_of (kb_events s) s = pre @ nl # rest" "nl \<in> {10, 13}" "\<forall>c \<in> set pre. c \<notin> {10, 13}"
    and "0 < sz" "sz \<le> length buf"
  shows "\<exists>buf' s'. read_line buf sz s = Some (buf', s') \<and> length buf' = length buf \<and> kb_ok s' \<and> chars_of (kb_events s') s' = rest
     \<and> (let l = foldl (line_step sz) [] pre in take (length l) buf' = l \<and> buf' ! length l = 0 \<and> length l < sz)"
proof -
  have "kb_ok (buffer_reset s)" using assms(1) by (simp add: kb_ok_def buffer_reset_def)
  moreover have "chars_of (kb_events (buffer_reset s)) (buffer_reset s) = pre @ nl # rest"
    using assms(2) by (simp add: buffer_reset_def)
  ultimately show ?thesis using read_loop_edits [OF _ _ assms(3-6)] by (simp add: read_line_def)
qed

section \<open>Properties\<close>

text \<open>
  C18: when the characters that the scan codes stand for contain a newline, \<open>read_line\<close> returns; the buffer then
  holds, terminated and shorter than its size, the line that results from the characters before the newline
  by the rules of the editor: a backspace removes the last character, a character that does not fit is
  dropped. The driver stays inside the buffer and the screen throughout.
\<close>

theorem read_line_edits:
  assumes "kb_ok s" "chars_of (kb_events s) s = pre @ nl # rest" "nl \<in> {10, 13}" "\<forall>c \<in> set pre. c \<notin> {10, 13}"
    and "0 < sz" "sz \<le> length buf"
  shows "\<exists>buf' s'. read_line buf sz s = Some (buf', s') \<and> length buf' = length buf
     \<and> (let l = foldl (line_step sz) [] pre in take (length l) buf' = l \<and> buf' ! length l = 0 \<and> length l < sz)"
  using read_line_typed [OF assms] by blast

definition boot_kbd :: kbd where
  "boot_kbd = keyboard_init \<lparr>input_buffer = replicate 256 0, buffer_write_idx = 0, buffer_read_idx = 0,
     current_layout = KEYBOARD_LAYOUT_QWERTY, shift_down = False, ctrl_down = False, alt_down = False,
     capslock_on = False, extended_scancode = False, scancode_table = [], scancode_table_shift = [],
     kb_events = [], kb_term = blank_terminal\<rparr>"

lemma boot_kbd_ok: "kb_ok (boot_kbd\<lparr>kb_events := es\<rparr>)"
proof -
  have "length qwerty_table = 128" "length qwerty_table_shift = 128" by code_simp+
  then show ?thesis
    using blank_terminal_ok by (simp add: boot_kbd_def keyboard_init_def keyboard_set_layout_def kb_ok_def)
qed

text \<open>Typing \<open>l\<close>, \<open>x\<close>, backspace, \<open>S\<close> with shift, enter.\<close>

theorem read_line_edits_witness:
  "\<exists>buf' s'. read_line [1, 2, 3, 4] 4
      (boot_kbd\<lparr>kb_events := [Some 0x26, Some 0xA6, None, Some 0x2D, Some 0x0E, Some 0x2A, Some 0x1F, Some 0xAA, None, Some 0x1C]\<rparr>)
    = Some (buf', s') \<and> take 3 buf' = [108, 83, 0]"
proof -
  let ?es = "[Some 0x26, Some 0xA6, None, Some 0x2D, Some 0x0E, Some 0x2A, Some 0x1F, Some 0xAA, None, Some 0x1C]"
  let ?s = "boot_kbd\<lparr>kb_events := ?es\<rparr>"
  have ch: "chars_of ?es ?s = [108, 120, 8, 83] @ 10 # []" by code_simp
  have l: "foldl (line_step 4) [] [108, 120, 8, 83] = [108, 83]" by code_simp
  have "\<exists>buf' s'. read_line [1, 2, 3, 4] 4 ?s = Some (buf', s') \<and> length buf' = length [1, 2, 3, 4 :: byte]
     \<and> (let l = foldl (line_step 4) [] [108, 120, 8, 83] in take (length l) buf' = l \<and> buf' ! length l = 0 \<and> length l < 4)"
    by (rule read_line_edits [OF boot_kbd_ok, where nl = 10 and rest = "[]"]) (use ch in simp_all)
  then obtain buf' s' where b: "read_line [1, 2, 3, 4] 4 ?s = Some (buf', s')" "length buf' = 4" "take 2 buf' = [108, 83]"
      "buf' ! 2 = 0"
    unfolding l by (auto simp: numeral_eq_Suc)
  have "take 3 buf' = take 2 buf' @ [buf' ! 2]" using b(2) take_Suc_conv_app_nth [of 2 buf'] by simp
  then show ?thesis using b by auto
qed

text \<open>
  \<open>keyboard_getchar\<close> and \<open>keyboard_pollchar\<close> agree on every byte that is ready: when the byte yields a non-zero
  character both return it and leave the driver in the same state.
\<close>

theorem poll_agrees_with_getchar:
  assumes "kb_events s = Some c # es" "keyboard_pollchar s = Some (ch, s')" "ch \<noteq> 0"
  shows "keyboard_getchar s = Some (ch, s')"
proof -
  obtain r s1 where r: "scan_step c s = Some (r, s1)" "ch = (case r of Some x \<Rightarrow> x | None \<Rightarrow> 0)" "s' = s1\<lparr>kb_events := es\<rparr>"
    using assms(1,2) by (cases "scan_step c s") (auto simp: keyboard_pollchar_def scan_step_frame)
  then show ?thesis using assms(1,3) by (cases r) (simp_all add: keyboard_getchar_def)
qed

theorem poll_agrees_with_getchar_witness:
  "keyboard_getchar (boot_kbd\<lparr>kb_events := [Some 0x1E]\<rparr>) = Some (97, boot_kbd)"
proof -
  have "scan_step 0x1E boot_kbd = Some (Some 97, boot_kbd)"
  proof -
    have "translate_scancode 0x1E boot_kbd = Some 97" by code_simp
    moreover have "\<not> extended_scancode boot_kbd" by (simp add: boot_kbd_def keyboard_init_def keyboard_set_layout_def)
    ultimately show ?thesis by (simp add: scan_step_def)
  qed
  then have "keyboard_pollchar (boot_kbd\<lparr>kb_events := [Some 0x1E]\<rparr>) = Some (97, boot_kbd\<lparr>kb_events := []\<rparr>)"
    by (simp add: keyboard_pollchar_def scan_step_frame)
  then have "keyboard_getchar (boot_kbd\<lparr>kb_events := [Some 0x1E]\<rparr>) = Some (97, boot_kbd\<lparr>kb_events := []\<rparr>)"
    by (intro poll_agrees_with_getchar [where c = "0x1E" and es = "[]"]) simp_all
  moreover have "boot_kbd\<lparr>kb_events := []\<rparr> = boot_kbd" by (simp add: boot_kbd_def keyboard_init_def keyboard_set_layout_def)
  ultimately show ?thesis by simp
qed

end
