(* ===== verification/Syscall.thy ===== *)
theory Syscall
  imports Vfs Elf Time Terminal
begin

text \<open>
  The system call layer \<^verbatim>\<open>src/kernel/syscall.c\<close> and \<open>k_exec\<close> of \<^verbatim>\<open>src/kernel/fs.c\<close>: the table of 32 file
  descriptors, the calls on files and directories, the clock, the user break, program start and the calls that
  only return a constant.

  The state of the kernel is composed of the states of the components. The page allocator and the memory are
  shared: \<open>with_fs\<close> hands those of the process to the file system and takes them back. A pointer argument is an
  address; the handler runs on the page tables of the caller, so every access goes through the translation and
  an access to an unmapped page is \<open>None\<close>. The addresses the linker gives to \<open>vnodes_pool\<close> and \<open>sh\<close> are
  fields of the state, the clock chip is the parameter \<open>hw\<close>.
\<close>

section \<open>State\<close>

record fd_entry =
  fd_used :: bool
  fd_node :: "nat option"
  fd_offset :: u32
  fd_flags :: u32

text \<open>The registers of the trap frame that the handler reads or writes.\<close>

record trapframe =
  tf_ebx :: u32
  tf_ecx :: u32
  tf_edx :: u32
  tf_eax :: u32
  tf_eip :: u32
  tf_cs :: u32

record kernel =
  k_fs :: fs
  k_proc :: proc
  k_term :: terminal
  fd_table :: "fd_entry list"
  errno :: int
  vnodes_addr :: addr
  sh_addr :: addr

abbreviation MAX_FDS :: int where "MAX_FDS \<equiv> 32"

abbreviation ENOENT :: int where "ENOENT \<equiv> 2"
abbreviation EBADF :: int where "EBADF \<equiv> 9"
abbreviation ENOMEM :: int where "ENOMEM \<equiv> 12"
abbreviation EACCES :: int where "EACCES \<equiv> 13"
abbreviation EINVAL :: int where "EINVAL \<equiv> 22"
abbreviation EMFILE :: int where "EMFILE \<equiv> 24"

abbreviation O_CREAT :: u32 where "O_CREAT \<equiv> 0x40"
abbreviation O_TRUNC :: u32 where "O_TRUNC \<equiv> 0x200"

type_synonym sys_result = "(u32 \<times> kernel) option"

text \<open>\<open>errno = e; regs->eax = (uint32_t)-1\<close>\<close>

definition sys_fail :: "int \<Rightarrow> kernel \<Rightarrow> sys_result" where
  "sys_fail e k = Some (-1, k\<lparr>errno := e\<rparr>)"

text \<open>The file system works on the allocator and the memory of the process.\<close>

definition fs_view :: "kernel \<Rightarrow> fs" where
  "fs_view k = (let g = pr_paging (k_proc k) in (k_fs k)\<lparr>fs_pmm := pg_pmm g, fs_mem := pg_mem g\<rparr>)"

definition put_fs :: "fs \<Rightarrow> kernel \<Rightarrow> kernel" where
  "put_fs s k =
     k\<lparr>k_fs := s, k_proc := on_paging (\<lambda>g. g\<lparr>pg_pmm := fs_pmm s, pg_mem := fs_mem s\<rparr>) (k_proc k)\<rparr>"

definition with_fs :: "(fs \<Rightarrow> ('a \<times> fs) option) \<Rightarrow> kernel \<Rightarrow> ('a \<times> kernel) option" where
  "with_fs f k = do { (r, s) \<leftarrow> f (fs_view k); Some (r, put_fs s k) }"

definition with_proc :: "(proc \<Rightarrow> ('a \<times> proc) option) \<Rightarrow> kernel \<Rightarrow> ('a \<times> kernel) option" where
  "with_proc f k = do { (r, p) \<leftarrow> f (k_proc k); Some (r, k\<lparr>k_proc := p\<rparr>) }"

section \<open>Memory of the caller\<close>

fun virt_read :: "addr \<Rightarrow> nat \<Rightarrow> paging \<Rightarrow> byte list option" where
  "virt_read v 0 s = Some []"
| "virt_read v (Suc n) s =
     (let p = get_physical_address v s
      in if p = 0 then None else do { bs \<leftarrow> virt_read (v + 1) n s; Some (pg_mem s p # bs) })"

text \<open>
  The object a string pointer designates: the bytes up to the first NUL, or up to the first page that is not
  mapped. A function that reads past the end of that list is one that faults.
\<close>

partial_function (option) virt_string :: "paging \<Rightarrow> addr \<Rightarrow> byte list option" where
  "virt_string s v =
     (let p = get_physical_address v s
      in if p = 0 then Some []
         else if pg_mem s p = 0 then Some [0]
         else do { bs \<leftarrow> virt_string s (v + 1); Some (pg_mem s p # bs) })"

definition arg_string :: "addr \<Rightarrow> kernel \<Rightarrow> cptr option" where
  "arg_string a k = (if a = 0 then Some None else map_option Some (virt_string (pr_paging (k_proc k)) a))"

definition bytes16 :: "u16 \<Rightarrow> byte list" where
  "bytes16 w = [ucast w, ucast (drop_bit 8 w)]"

definition bytes32 :: "u32 \<Rightarrow> byte list" where
  "bytes32 w = [ucast w, ucast (drop_bit 8 w), ucast (drop_bit 16 w), ucast (drop_bit 24 w)]"

definition bytes64 :: "u64 \<Rightarrow> byte list" where
  "bytes64 w = bytes32 (ucast w) @ bytes32 (ucast (drop_bit 32 w))"

definition virt_load32 :: "addr \<Rightarrow> paging \<Rightarrow> u32 option" where
  "virt_load32 v s = do { bs \<leftarrow> virt_read v 4 s; read32 bs 0 }"

section \<open>Descriptors\<close>

fun free_fd :: "fd_entry list \<Rightarrow> nat \<Rightarrow> nat \<Rightarrow> int option" where
  "free_fd t i 0 = Some (-1)"
| "free_fd t i (Suc n) = do { e \<leftarrow> array_get t i; if \<not> fd_used e then Some (int i) else free_fd t (Suc i) n }"

definition allocate_fd :: "kernel \<Rightarrow> int option" where
  "allocate_fd k = free_fd (fd_table k) 3 29"

definition get_fd :: "int \<Rightarrow> kernel \<Rightarrow> fd_entry option option" where
  "get_fd fd k =
     (if fd < 0 \<or> fd \<ge> MAX_FDS then Some None
      else do { e \<leftarrow> array_get (fd_table k) (nat fd); Some (if fd_used e then Some e else None) })"

definition set_fd :: "int \<Rightarrow> fd_entry \<Rightarrow> kernel \<Rightarrow> kernel option" where
  "set_fd fd e k = do { t \<leftarrow> array_set (fd_table k) (nat fd) e; Some (k\<lparr>fd_table := t\<rparr>) }"

definition no_fd :: fd_entry where
  "no_fd = \<lparr>fd_used = False, fd_node = None, fd_offset = 0, fd_flags = 0\<rparr>"

definition release_fd :: "int \<Rightarrow> kernel \<Rightarrow> kernel option" where
  "release_fd fd k = (if fd \<ge> 3 \<and> fd < MAX_FDS then set_fd fd no_fd k else Some k)"

text \<open>The test \<open>!entry || !entry->node || !(entry->node->flags & fl)\<close>; the entry and its node when it fails.\<close>

definition fd_vnode :: "int \<Rightarrow> u32 \<Rightarrow> kernel \<Rightarrow> (fd_entry \<times> nat \<times> vnode) option option" where
  "fd_vnode fd fl k =
     do { e \<leftarrow> get_fd fd k;
          case e of
            None \<Rightarrow> Some None
          | Some e \<Rightarrow>
              (case fd_node e of
                 None \<Rightarrow> Some None
               | Some i \<Rightarrow> do { n \<leftarrow> array_get (vnodes_pool (k_fs k)) i;
                                Some (if vn_flags n AND fl = 0 then None else Some (e, i, n)) }) }"

definition ensure_writable_content :: "nat \<Rightarrow> fs \<Rightarrow> (unit \<times> fs) option" where
  "ensure_writable_content i s =
     do { n \<leftarrow> array_get (vnodes_pool s) i;
          if vn_flags n AND VFS_FILE = 0 then Some ((), s)
          else case vn_content n of
            None \<Rightarrow>
              let (c, s) = alloc_content s; c = map_option (\<lambda>c. c[0 := 0]) c
              in map_option (Pair ()) (update_node i (\<lambda>n. n\<lparr>vn_content := c, vn_size := 0\<rparr>) s)
          | Some content \<Rightarrow>
              let (c, s) = alloc_content s
              in case c of
                   None \<Rightarrow> Some ((), s)
                 | Some new_content \<Rightarrow>
                     let copy_size = (if vn_size n < 63 then vn_size n else 63)
                     in do { b \<leftarrow> memcpy new_content content (unat copy_size);
                             b \<leftarrow> array_set b (unat copy_size) 0;
                             map_option (Pair ()) (update_node i (\<lambda>n. n\<lparr>vn_content := Some b\<rparr>) s) } }"

section \<open>Calls on files\<close>

text \<open>The console: every byte goes to the screen and to the serial line.\<close>

fun console_write :: "byte list \<Rightarrow> terminal \<Rightarrow> terminal option" where
  "console_write [] t = Some t"
| "console_write (b # bs) t = do { t \<leftarrow> terminal_write [b, 0] t; t \<leftarrow> serial_write [b, 0] t; console_write bs t }"

definition sys_write :: "u32 \<Rightarrow> u32 \<Rightarrow> u32 \<Rightarrow> kernel \<Rightarrow> sys_result" where
  "sys_write ebx buf count k =
     (let fd = sint ebx
      in if buf = 0 \<or> count = 0 then sys_fail EINVAL k
         else if fd = 1 \<or> fd = 2 then
           do { bs \<leftarrow> virt_read buf (unat count) (pr_paging (k_proc k));
                t \<leftarrow> console_write bs (k_term k);
                Some (count, k\<lparr>k_term := t\<rparr>) }
         else do {
           r \<leftarrow> fd_vnode fd VFS_FILE k;
           case r of
             None \<Rightarrow> sys_fail EBADF k
           | Some (entry, i, _) \<Rightarrow>
               do { (_, k) \<leftarrow> with_fs (ensure_writable_content i) k;
                    n \<leftarrow> array_get (vnodes_pool (k_fs k)) i;
                    case vn_content n of
                      None \<Rightarrow> sys_fail ENOMEM k
                    | Some c \<Rightarrow>
                        let write_offset = fd_offset entry;
                            available = 63 - write_offset;
                            write_size = (if count < available then count else available)
                        in do { data \<leftarrow> virt_read buf (unat write_size) (pr_paging (k_proc k));
                                s \<leftarrow> put_content i c write_offset data write_size (k_fs k);
                                k \<leftarrow> set_fd fd (entry\<lparr>fd_offset := write_offset + write_size\<rparr>) (k\<lparr>k_fs := s\<rparr>);
                                Some (write_size, k) } } })"

definition sys_read :: "u32 \<Rightarrow> u32 \<Rightarrow> u32 \<Rightarrow> kernel \<Rightarrow> sys_result" where
  "sys_read ebx buf count k =
     (let fd = sint ebx
      in if buf = 0 \<or> count = 0 then sys_fail EINVAL k
         else do {
           r \<leftarrow> fd_vnode fd VFS_FILE k;
           case r of
             None \<Rightarrow> sys_fail EBADF k
           | Some (entry, i, n) \<Rightarrow>
               let file_size = vn_size n
               in if fd_offset entry \<ge> file_size then Some (0, k)
                  else
                    let read_size = (if fd_offset entry + count > file_size then file_size - fd_offset entry else count)
                    in do { c \<leftarrow> vn_content n;
                            bs \<leftarrow> slice c (unat (fd_offset entry)) (unat read_size);
                            p \<leftarrow> proc_write buf bs (k_proc k);
                            k \<leftarrow> set_fd fd (entry\<lparr>fd_offset := fd_offset entry + read_size\<rparr>) (k\<lparr>k_proc := p\<rparr>);
                            Some (read_size, k) } })"

definition sys_close :: "u32 \<Rightarrow> kernel \<Rightarrow> sys_result" where
  "sys_close ebx k =
     (let fd = sint ebx
      in if fd \<le> 2 then sys_fail EBADF k
         else do {
           e \<leftarrow> get_fd fd k;
           if e = None then sys_fail EBADF k
           else do { k \<leftarrow> release_fd fd k; Some (0, k) } })"

text \<open>The end of \<open>SYS_open\<close>, for the node found.\<close>

definition open_node :: "nat \<Rightarrow> u32 \<Rightarrow> kernel \<Rightarrow> sys_result" where
  "open_node i flags k =
     do { fd \<leftarrow> allocate_fd k;
          if fd < 0 then sys_fail EMFILE k
          else do {
            k \<leftarrow> set_fd fd \<lparr>fd_used = True, fd_node = Some i, fd_offset = 0, fd_flags = flags\<rparr> k;
            Some (of_int fd, k) } }"

definition sys_open :: "u32 \<Rightarrow> u32 \<Rightarrow> kernel \<Rightarrow> sys_result" where
  "sys_open ebx flags k =
     do { path \<leftarrow> arg_string ebx k;
          e \<leftarrow> no_path path;
          if e then sys_fail EINVAL k
          else do {
            l \<leftarrow> vfs_lookup path (k_fs k);
            (created, k) \<leftarrow> (if l = None \<and> flags AND O_CREAT \<noteq> 0 then with_fs (k_touch path) k else Some (0, k));
            if created \<noteq> 0 then sys_fail EACCES k
            else do {
              l \<leftarrow> vfs_lookup path (k_fs k);
              case l of
                None \<Rightarrow> sys_fail ENOENT k
              | Some i \<Rightarrow>
                  do { n \<leftarrow> array_get (vnodes_pool (k_fs k)) i;
                       (_, k) \<leftarrow> (if flags AND O_TRUNC \<noteq> 0 \<and> vn_flags n AND VFS_FILE \<noteq> 0
                                 then with_fs (vfs_write_file path (Some (clit '''')) 0) k else Some (0, k));
                       open_node i flags k } } } }"

section \<open>Calls on directories\<close>

text \<open>A call whose result is the \<open>int\<close> a file system operation returns.\<close>

definition sys_fs :: "(cptr \<Rightarrow> fs \<Rightarrow> (int \<times> fs) option) \<Rightarrow> u32 \<Rightarrow> kernel \<Rightarrow> sys_result" where
  "sys_fs f ebx k = do { path \<leftarrow> arg_string ebx k; (r, k) \<leftarrow> with_fs (f path) k; Some (of_int r, k) }"

definition sys_mkdir :: "u32 \<Rightarrow> kernel \<Rightarrow> sys_result" where "sys_mkdir = sys_fs k_mkdir"

definition sys_unlink :: "u32 \<Rightarrow> kernel \<Rightarrow> sys_result" where "sys_unlink = sys_fs k_unlink"

definition sys_chdir :: "u32 \<Rightarrow> kernel \<Rightarrow> sys_result" where
  "sys_chdir ebx k =
     do { path \<leftarrow> arg_string ebx k;
          l \<leftarrow> vfs_lookup path (k_fs k);
          case l of
            None \<Rightarrow> sys_fail ENOENT k
          | Some i \<Rightarrow>
              do { n \<leftarrow> array_get (vnodes_pool (k_fs k)) i;
                   if vn_flags n AND VFS_DIRECTORY = 0 then sys_fail ENOENT k
                   else Some (0, k\<lparr>k_fs := (k_fs k)\<lparr>current_dir := Some i\<rparr>\<rparr>) } }"

text \<open>\<open>vnode_t\<close> has 116 bytes.\<close>

definition node_addr :: "kernel \<Rightarrow> nat \<Rightarrow> addr" where
  "node_addr k i = vnodes_addr k + 116 * of_nat i"

text \<open>The 72 bytes of \<open>struct stat\<close> as \<open>fill_stat\<close> sets them.\<close>

definition stat_bytes :: "addr \<Rightarrow> vnode \<Rightarrow> byte list" where
  "stat_bytes ino n =
     (let st_mode = (if vn_flags n AND VFS_DIRECTORY \<noteq> 0 then 0x4000 OR 0x1ED else 0x8000 OR 0x1A4);
          st_size = ucast (vn_size n) :: u64;
          st_blocks = ucast ((st_size + 511) div 512) :: u32
      in bytes64 0 @ bytes64 (ucast ino) @ bytes32 st_mode @ bytes32 1 @ bytes32 0 @ bytes32 0
         @ bytes64 st_size @ bytes32 512 @ bytes32 st_blocks @ bytes64 0 @ bytes64 0 @ bytes64 0)"

definition fill_stat :: "nat \<Rightarrow> addr \<Rightarrow> kernel \<Rightarrow> (int \<times> kernel) option" where
  "fill_stat i st k =
     (if st = 0 then Some (-1, k)
      else do { n \<leftarrow> array_get (vnodes_pool (k_fs k)) i;
                p \<leftarrow> proc_write st (stat_bytes (node_addr k i) n) (k_proc k);
                Some (0, k\<lparr>k_proc := p\<rparr>) })"

definition sys_stat :: "u32 \<Rightarrow> u32 \<Rightarrow> kernel \<Rightarrow> sys_result" where
  "sys_stat ebx st k =
     do { path \<leftarrow> arg_string ebx k;
          l \<leftarrow> vfs_lookup path (k_fs k);
          case l of
            None \<Rightarrow> sys_fail ENOENT k
          | Some i \<Rightarrow> do { (r, k) \<leftarrow> fill_stat i st k; Some (if r = 0 then 0 else -1, k) } }"

definition sys_fstat :: "u32 \<Rightarrow> u32 \<Rightarrow> kernel \<Rightarrow> sys_result" where
  "sys_fstat ebx st k =
     do { e \<leftarrow> get_fd (sint ebx) k;
          case Option.bind e fd_node of
            None \<Rightarrow> sys_fail EBADF k
          | Some i \<Rightarrow> do { (r, k) \<leftarrow> fill_stat i st k; Some (if r = 0 then 0 else -1, k) } }"

text \<open>The record of one directory entry: a header of 11 bytes and the name with its terminator.\<close>

definition dirent_bytes :: "addr \<Rightarrow> u32 \<Rightarrow> vnode \<Rightarrow> byte list option" where
  "dirent_bytes ino d_off c =
     do { l \<leftarrow> strlen (vn_name c);
          let name_len = l + 1;
          let reclen = (11 + of_nat name_len :: u16);
          name \<leftarrow> (if name_len \<le> 256 then slice (vn_name c) 0 name_len else None);
          Some (bytes32 ino @ bytes32 d_off @ bytes16 reclen
                @ [if vn_flags c AND VFS_DIRECTORY \<noteq> 0 then 2 else 1] @ name) }"

text \<open>The loop over the children of the directory, \<open>n\<close> of them left; the result is \<open>filled\<close> and \<open>index\<close>.\<close>

fun getdents_loop :: "vnode \<Rightarrow> addr \<Rightarrow> u32 \<Rightarrow> nat \<Rightarrow> u32 \<Rightarrow> u32 \<Rightarrow> kernel \<Rightarrow> ((u32 \<times> u32) \<times> kernel) option" where
  "getdents_loop d buf count 0 index filled k = Some ((filled, index), k)"
| "getdents_loop d buf count (Suc n) index filled k =
     do { c \<leftarrow> array_get (vn_children d) (unat index);
          c \<leftarrow> c;
          child \<leftarrow> array_get (vnodes_pool (k_fs k)) c;
          l \<leftarrow> strlen (vn_name child);
          let reclen = (ucast (11 + of_nat (l + 1) :: u16) :: u32);
          if filled + reclen > count then Some ((filled, index), k)
          else do {
            bs \<leftarrow> dirent_bytes (node_addr k c) (index + 1) child;
            p \<leftarrow> proc_write (buf + filled) bs (k_proc k);
            getdents_loop d buf count n (index + 1) (filled + reclen) (k\<lparr>k_proc := p\<rparr>) } }"

definition sys_getdents :: "u32 \<Rightarrow> u32 \<Rightarrow> u32 \<Rightarrow> kernel \<Rightarrow> sys_result" where
  "sys_getdents ebx buf count k =
     (if buf = 0 \<or> count = 0 then sys_fail EINVAL k
      else do {
        r \<leftarrow> fd_vnode (sint ebx) VFS_DIRECTORY k;
        case r of
          None \<Rightarrow> sys_fail EBADF k
        | Some (entry, i, d) \<Rightarrow>
            do { ((filled, index), k) \<leftarrow>
                   getdents_loop d buf count (unat (vn_child_count d) - unat (fd_offset entry)) (fd_offset entry) 0 k;
                 k \<leftarrow> set_fd (sint ebx) (entry\<lparr>fd_offset := index\<rparr>) k;
                 Some (filled, k) } })"


section \<open>Program start\<close>

text \<open>
  The loop of \<open>k_exec\<close> that copies the argument strings down from \<open>str_ptr\<close>, with room for \<open>n\<close> more. The
  result is \<open>str_ptr\<close> and the pointers, or \<open>None\<close> when the call fails.
\<close>

fun copy_args :: "addr \<Rightarrow> nat \<Rightarrow> addr \<Rightarrow> addr list \<Rightarrow> proc \<Rightarrow> ((addr \<times> addr list) option \<times> proc) option" where
  "copy_args argv n str_ptr arg_ptrs p =
     do { a \<leftarrow> virt_load32 (argv + 4 * of_nat (length arg_ptrs)) (pr_paging p);
          if a = 0 then Some (Some (str_ptr, arg_ptrs), p)
          else case n of
            0 \<Rightarrow> Some (None, pr_print ''exec: too many arguments\<newline>'' [] p)
          | Suc n \<Rightarrow>
              do { s \<leftarrow> virt_string (pr_paging p) a;
                   l \<leftarrow> strlen s;
                   let len = of_nat (l + 1);
                   if str_ptr - len < USER_STACK_VIRT then Some (None, pr_print ''exec: user stack overflow\<newline>'' [] p)
                   else do {
                     p \<leftarrow> proc_write (str_ptr - len) s p;
                     copy_args argv n (str_ptr - len) (arg_ptrs @ [str_ptr - len]) p } } }"

text \<open>\<open>frame--; *frame = w\<close> for each word of a list.\<close>

fun push_words :: "addr \<Rightarrow> u32 list \<Rightarrow> proc \<Rightarrow> (addr \<times> proc) option" where
  "push_words frame [] p = Some (frame, p)"
| "push_words frame (w # ws) p = do { p \<leftarrow> proc_write (frame - 4) (bytes32 w) p; push_words (frame - 4) ws p }"

text \<open>The second half of \<open>k_exec\<close>, from the allocation of the stack on.\<close>

definition exec_stack :: "addr \<Rightarrow> addr \<Rightarrow> proc \<Rightarrow> (int \<times> proc) option" where
  "exec_stack entry argv p =
     (let (stack_page, p) = proc_alloc_page p
      in if stack_page = 0 then Some (-1, pr_print ''exec: out of memory\<newline>'' [] p)
         else do {
           p \<leftarrow> proc_memset stack_page 0 4096 p;
           let p = on_paging (map_page USER_STACK_VIRT stack_page (PAGE_PRESENT OR PAGE_WRITE OR PAGE_USER)) p;
           let str_ptr = (USER_STACK_VIRT + PAGE_SIZE) AND NOT 0xF;
           (r, p) \<leftarrow> (if argv = 0 then Some (Some (str_ptr, []), p) else copy_args argv 15 str_ptr [] p);
           case r of
             None \<Rightarrow> Some (-1, p)
           | Some (str_ptr, arg_ptrs) \<Rightarrow>
               do { (user_esp, p) \<leftarrow> push_words str_ptr (0 # rev arg_ptrs @ [of_nat (length arg_ptrs)]) p;
                    Some (0, p\<lparr>pr_jumps := pr_jumps p @ [(entry, user_esp)]\<rparr>) } })"

definition k_exec :: "addr \<Rightarrow> addr \<Rightarrow> kernel \<Rightarrow> (int \<times> kernel) option" where
  "k_exec ebx argv k =
     (let fail = (\<lambda>msg args k. Some (-1, k\<lparr>k_proc := pr_print msg args (k_proc k)\<rparr>))
      in do {
        path \<leftarrow> arg_string ebx k;
        e \<leftarrow> no_path path;
        if e then fail ''exec: missing path\<newline>'' [] k
        else do {
          l \<leftarrow> vfs_lookup path (k_fs k);
          case l of
            None \<Rightarrow> fail ''exec: not found: %s\<newline>'' [ebx] k
          | Some i \<Rightarrow>
              do { n \<leftarrow> array_get (vnodes_pool (k_fs k)) i;
                   if vn_flags n \<noteq> VFS_FILE then fail ''exec: not a file\<newline>'' [] k
                   else if vn_content n = None then fail ''exec: empty file\<newline>'' [] k
                   else do {
                     (entry, k) \<leftarrow> with_proc (elf_load (vn_content n) (vn_size n)) k;
                     if entry = 0 then fail ''exec: ELF load failed\<newline>'' [] k
                     else with_proc (exec_stack entry argv) k } } } })"

section \<open>The handler\<close>

text \<open>\<open>struct timespec\<close> is a 64-bit number of seconds and a 32-bit number of nanoseconds.\<close>

definition sys_clock_gettime :: "cmos \<Rightarrow> u32 \<Rightarrow> u32 \<Rightarrow> kernel \<Rightarrow> sys_result" where
  "sys_clock_gettime hw ebx tp k =
     (if ebx = 0 then
        do { t \<leftarrow> clock_realtime hw 0;
             p \<leftarrow> proc_write tp (bytes64 (of_int t) @ bytes32 0) (k_proc k);
             Some (0, k\<lparr>k_proc := p\<rparr>) }
      else Some (-1, k))"

text \<open>\<open>struct sysinfo\<close>: eight fields, two bytes of padding after \<open>procs\<close>, three fields.\<close>

definition sys_sysinfo :: "u32 \<Rightarrow> kernel \<Rightarrow> sys_result" where
  "sys_sysinfo info k =
     (if info = 0 then Some (-1, k)
      else
        let pm = pg_pmm (pr_paging (k_proc k));
            head = concat (map bytes32 [0, pmm_total_pages pm * PAGE_SIZE, pmm_free_pages pm * PAGE_SIZE, 0, 0, 0, 0])
                   @ bytes16 1;
            tail = concat (map bytes32 [0, 0, 1])
        in do { p \<leftarrow> proc_write info head (k_proc k);
                p \<leftarrow> proc_write (info + 32) tail p;
                Some (0, k\<lparr>k_proc := p\<rparr>) })"

text \<open>The calls that return a constant, from \<open>SYS_fork\<close> to \<open>SYS_mprotect\<close>, by number.\<close>

definition stub_results :: "(u32 \<times> u32) list" where
  "stub_results =
     [(0x25, -1), (0x26, 1), (0x27, 1), (0x28, 0), (0x29, 0), (0x2A, 0), (0x2B, 0), (0x2C, 0), (0x2D, 0),
      (0x2E, -1), (0x2F, -1), (0x30, -1), (0x31, 0), (0x32, 0), (0x33, 0), (0x34, 0), (0x37, 0), (0x38, -1),
      (0x39, -1), (0x3B, 0), (0x3C, -1), (0x3D, 0), (0x3E, 0)]"

abbreviation (input) SYS_read :: u32 where "SYS_read \<equiv> 0x00"
abbreviation (input) SYS_write :: u32 where "SYS_write \<equiv> 0x01"
abbreviation (input) SYS_open :: u32 where "SYS_open \<equiv> 0x02"
abbreviation (input) SYS_close :: u32 where "SYS_close \<equiv> 0x03"
abbreviation (input) SYS_stat :: u32 where "SYS_stat \<equiv> 0x04"
abbreviation (input) SYS_fstat :: u32 where "SYS_fstat \<equiv> 0x05"
abbreviation (input) SYS_mkdir :: u32 where "SYS_mkdir \<equiv> 0x0B"
abbreviation (input) SYS_unlink :: u32 where "SYS_unlink \<equiv> 0x14"
abbreviation (input) SYS_chdir :: u32 where "SYS_chdir \<equiv> 0x1F"
abbreviation (input) SYS_getdents :: u32 where "SYS_getdents \<equiv> 0x21"
abbreviation (input) SYS_clock_gettime :: u32 where "SYS_clock_gettime \<equiv> 0x22"
abbreviation (input) SYS_execl :: u32 where "SYS_execl \<equiv> 0x23"
abbreviation (input) SYS_exit :: u32 where "SYS_exit \<equiv> 0x24"
abbreviation (input) SYS_brk :: u32 where "SYS_brk \<equiv> 0x35"
abbreviation (input) SYS_sbrk :: u32 where "SYS_sbrk \<equiv> 0x36"
abbreviation (input) SYS_sysinfo :: u32 where "SYS_sysinfo \<equiv> 0x3F"

text \<open>The result of the call goes to \<open>eax\<close>.\<close>

definition sys_return :: "trapframe \<Rightarrow> sys_result \<Rightarrow> (trapframe \<times> kernel) option" where
  "sys_return regs r = map_option (\<lambda>(v, k). (regs\<lparr>tf_eax := v\<rparr>, k)) r"

definition syscall_handler :: "cmos \<Rightarrow> trapframe \<Rightarrow> kernel \<Rightarrow> (trapframe \<times> kernel) option" where
  "syscall_handler hw regs k =
     (let eax = tf_eax regs; ebx = tf_ebx regs; ecx = tf_ecx regs; edx = tf_edx regs; ret = sys_return regs
      in if eax = SYS_write then ret (sys_write ebx ecx edx k)
         else if eax = SYS_read then ret (sys_read ebx ecx edx k)
         else if eax = SYS_close then ret (sys_close ebx k)
         else if eax = SYS_open then ret (sys_open ebx ecx k)
         else if eax = SYS_mkdir then ret (sys_mkdir ebx k)
         else if eax = SYS_unlink then ret (sys_unlink ebx k)
         else if eax = SYS_chdir then ret (sys_chdir ebx k)
         else if eax = SYS_stat then ret (sys_stat ebx ecx k)
         else if eax = SYS_fstat then ret (sys_fstat ebx ecx k)
         else if eax = SYS_getdents then ret (sys_getdents ebx ecx edx k)
         else if eax = SYS_clock_gettime then ret (sys_clock_gettime hw ebx ecx k)
         else if eax = SYS_execl then ret (do { (r, k) \<leftarrow> k_exec ebx ecx k; Some (of_int r, k) })
         else if eax = SYS_exit then Some (regs\<lparr>tf_cs := 0x08, tf_eip := sh_addr k, tf_eax := 0\<rparr>, k)
         else if eax = SYS_brk then ret (do { (r, k) \<leftarrow> with_proc (\<lambda>p. Some (user_brk ebx p)) k; Some (of_int r, k) })
         else if eax = SYS_sbrk then ret (with_proc (\<lambda>p. Some (user_sbrk ebx p)) k)
         else if eax = SYS_sysinfo then ret (sys_sysinfo ebx k)
         else case map_of stub_results eax of
           Some v \<Rightarrow> ret (Some (v, k))
         | None \<Rightarrow> ret (Some (-1, k)))"


declare copy_args.simps [simp del]

section \<open>Invariant\<close>

text \<open>
  The size of a node lies within its content, which for an installed program is the whole image; a node
  without content is empty.
\<close>

definition sizes_ok :: "fs \<Rightarrow> bool" where
  "sizes_ok s \<longleftrightarrow> (\<forall>i < 64. (vn_content (node s i) = None \<or> used_nodes s \<le> i \<longrightarrow> vn_size (node s i) = 0)
     \<and> (\<forall>c. vn_content (node s i) = Some c \<longrightarrow> unat (vn_size (node s i)) \<le> length c))"

definition store_ok :: "fs \<Rightarrow> bool" where
  "store_ok s \<longleftrightarrow> fs_inv s \<and> sizes_ok s"

text \<open>A descriptor in use names a node in use.\<close>

definition fd_ok :: "fs \<Rightarrow> fd_entry \<Rightarrow> bool" where
  "fd_ok s e \<longleftrightarrow> (fd_used e \<longrightarrow> (\<exists>i < used_nodes s. fd_node e = Some i))"

definition k_inv :: "kernel \<Rightarrow> bool" where
  "k_inv k \<longleftrightarrow> store_ok (k_fs k) \<and> length (fd_table k) = 32 \<and> list_all (fd_ok (k_fs k)) (fd_table k) \<and> term_ok (k_term k)"

definition path_ok :: "cptr \<Rightarrow> bool" where
  "path_ok path \<longleftrightarrow> (\<forall>p. path = Some p \<longrightarrow> terminated p \<and> length (cstr p) < 32)"

lemma store_ok_frame [simp]:
  "store_ok (s\<lparr>fs_out := a\<rparr>) = store_ok s" "store_ok (s\<lparr>fs_pmm := b\<rparr>) = store_ok s"
  "store_ok (s\<lparr>fs_mem := c\<rparr>) = store_ok s" "store_ok (fs_print msg s) = store_ok s"
  by (simp_all add: store_ok_def sizes_ok_def fs_print_def)

lemma fd_ok_frame [simp]:
  "fd_ok (s\<lparr>fs_out := a\<rparr>) = fd_ok s" "fd_ok (s\<lparr>fs_pmm := b\<rparr>) = fd_ok s"
  "fd_ok (s\<lparr>fs_mem := c\<rparr>) = fd_ok s" "fd_ok (s\<lparr>current_dir := d\<rparr>) = fd_ok s"
  by (simp_all add: fun_eq_iff fd_ok_def)

lemma store_okD:
  assumes "store_ok s"
  shows "fs_ok s" "texts_ok s" "fs_inv s" "sizes_ok s"
  using assms by (simp_all add: store_ok_def fs_inv_def)

text \<open>Every operation of the file system keeps the store and never gives a node back.\<close>

definition store_step :: "fs \<Rightarrow> (int \<times> fs) option \<Rightarrow> bool" where
  "store_step s r \<longleftrightarrow> (\<exists>v s'. r = Some (v, s') \<and> store_ok s' \<and> used_nodes s \<le> used_nodes s')"

lemma created_sizes:
  assumes s: "store_ok s" and b: "\<not> blocked n s" and c: "created n kind s s'"
  shows "sizes_ok s'" "used_nodes s \<le> used_nodes s'"
proof -
  obtain co pm m where s': "s' = attach (the (current_dir s))
      (made n kind (the (current_dir s)) co (node s (used_nodes s))) (s\<lparr>fs_pmm := pm, fs_mem := m\<rparr>)"
    using c by (auto simp: created_def)
  have ok: "fs_ok (s\<lparr>fs_pmm := pm, fs_mem := m\<rparr>)" using store_okD(1) [OF s] by simp
  have a: "can_attach (the (current_dir s)) (s\<lparr>fs_pmm := pm, fs_mem := m\<rparr>)"
    using not_blocked_attach [OF store_okD(1) [OF s] b] by (simp add: can_attach_def)
  have u: "used_nodes s < 64" using a by (simp add: can_attach_def word_less_nat_alt)
  have z: "vn_size (node s (used_nodes s)) = 0" using store_okD(4) [OF s] u by (simp add: sizes_ok_def)
  show "used_nodes s \<le> used_nodes s'" unfolding s' attach_fields(2) [OF ok a] by simp
  have d: "vn_size (node s' i) = 0 \<or> vn_size (node s' i) = vn_size (node s i) \<and> vn_content (node s' i) = vn_content (node s i)"
    for i unfolding s' attach_fields(1) [OF ok a] using z by (simp add: made_def)
  show "sizes_ok s'"
    unfolding sizes_ok_def
  proof (intro allI impI)
    fix i :: nat
    assume "i < 64"
    then show "(vn_content (node s' i) = None \<or> used_nodes s' \<le> i \<longrightarrow> vn_size (node s' i) = 0)
        \<and> (\<forall>c. vn_content (node s' i) = Some c \<longrightarrow> unat (vn_size (node s' i)) \<le> length c)"
      using d [of i] store_okD(4) [OF s] \<open>used_nodes s \<le> used_nodes s'\<close> by (auto simp: sizes_ok_def)
  qed
qed

lemma create_store:
  assumes s: "store_ok s" and p: "length (cstr p) < 32" "kind \<in> {VFS_FILE, VFS_DIRECTORY}"
    and r: "\<exists>msg s'. r = Some (if blocked (cstr p) s then (-1, fs_print msg s) else (0, s'))
           \<and> (blocked (cstr p) s \<or> created (cstr p) kind s s')"
  shows "store_step s r"
proof (cases "blocked (cstr p) s")
  case True
  then show ?thesis using r s by (auto simp: store_step_def fs_print_def)
next
  case False
  then obtain s' where s': "r = Some (0, s')" "created (cstr p) kind s s'" using r by auto
  have "fs_ok s'" using created_ok(1) [OF store_okD(1) [OF s] p False s'(2)] .
  moreover have "texts_ok s'" using created_texts [OF store_okD(3) [OF s] False s'(2)] .
  ultimately show ?thesis
    using created_sizes [OF s False s'(2)] s'(1) by (simp add: store_step_def store_ok_def fs_inv_def)
qed

lemma mkdir_store: "store_ok s \<Longrightarrow> path_ok path \<Longrightarrow> store_step s (k_mkdir path s)"
  using create_store [OF _ _ _ k_mkdir_eq, of s "the path"] store_okD(1) [of s]
  by (cases path) (auto simp: path_ok_def store_step_def k_mkdir_def no_path_def fs_print_def)

lemma touch_store: "store_ok s \<Longrightarrow> path_ok path \<Longrightarrow> store_step s (k_touch path s)"
  using create_store [OF _ _ _ k_touch_eq, of s "the path"] store_okD(1) [of s]
  by (cases path) (auto simp: path_ok_def store_step_def k_touch_def no_path_def fs_print_def)

lemma install_store:
  assumes s: "store_ok s" and v: "op_valid (Install p d z)"
  shows "store_step s (k_install (Some p) (Some d) z s)"
proof -
  note ok = store_okD(1) [OF s]
  obtain r where r: "vfs_root s = Some r" "r < used_nodes s" using ok by (auto simp: fs_ok_def dir_ptr_def)
  show ?thesis
  proof (cases "z \<noteq> 0 \<and> can_attach r s")
    case True
    then have a: "can_attach r s" and z: "z \<noteq> 0" by simp_all
    define nd where "nd = (made (cstr p) VFS_FILE r (Some d) (node s (used_nodes s)))\<lparr>vn_size := z\<rparr>"
    have i: "k_install (Some p) (Some d) z s = Some (0, attach r nd s)"
      using k_install_attach [OF ok r(1) a _ _ z] v by (simp add: nd_def)
    have "fs_inv (attach r nd s)" using install_inv [OF store_okD(3) [OF s] v] i by simp
    moreover have "vn_content nd = Some d" "vn_size nd = z" by (simp_all add: nd_def made_def)
    then have "sizes_ok (attach r nd s)"
      using store_okD(4) [OF s] v r(2) unfolding sizes_ok_def attach_fields(1,2) [OF ok a] by auto
    ultimately show ?thesis using i attach_fields(2) [OF ok a, of nd] by (simp add: store_step_def store_ok_def)
  next
    case False
    have "array_get (vnodes_pool s) r = Some (node s r)" using get_node [OF ok] r(2) fs_okD(6) [OF ok] by simp
    then have "k_install (Some p) (Some d) z s = Some (-1, s)"
      using False r alloc_vnode_eq [OF ok] by (auto simp: k_install_def can_attach_def not_less)
    with s show ?thesis by (simp add: store_step_def)
  qed
qed

lemma detach_sizes:
  assumes s: "store_ok s" and k: "k < 64" "q < 64" "k \<noteq> q"
  shows "sizes_ok (detach q i k s)"
  using store_okD(4) [OF s] unfolding sizes_ok_def detach_node [OF store_okD(1) [OF s] k]
  by (auto simp: detach_def Let_def)

lemma unlink_store: "store_ok s \<Longrightarrow> path_ok path \<Longrightarrow> store_step s (k_unlink path s)"
proof (cases path)
  case (Some p)
  assume s: "store_ok s" and "path_ok path"
  then have p: "terminated p" using Some by (simp add: path_ok_def)
  note ok = store_okD(1) [OF s]
  obtain r s' where r: "k_unlink (Some p) s = Some (r, s')" "fs_inv s'" using unlink_inv [OF store_okD(3) [OF s] p] by blast
  consider "s' = s" | k q i where "unlinkable (cstr p) s k q i" "s' = detach q i k s"
    using k_unlink_eq [OF ok p] r by auto
  then show ?thesis
  proof cases
    case 2
    then have k: "k < used_nodes s" "k < 64" using resolve_used [OF ok] fs_okD(6) [OF ok] by (auto simp: unlinkable_def)
    have "q < k" using fs_okD(5) [OF ok k(1)] 2 by (auto simp: node_links_def unlinkable_def)
    then have "sizes_ok s'" unfolding 2(2) using k by (intro detach_sizes [OF s]) simp_all
    moreover have "used_nodes s' = used_nodes s" by (simp add: 2(2) detach_def Let_def)
    ultimately show ?thesis using r Some by (simp add: store_step_def store_ok_def)
  qed (use r Some s in \<open>simp add: store_step_def\<close>)
qed (simp add: store_step_def k_unlink_def no_path_def)

lemma set_file_store:
  assumes s: "store_ok s" and i: "i < used_nodes s" and c: "\<And>b. c = Some b \<Longrightarrow> buffer_ok b"
    and z: "unat sz \<le> 63" "c = None \<Longrightarrow> sz = 0"
  shows "store_ok (set_file i c sz s)" "used_nodes (set_file i c sz s) = used_nodes s"
proof -
  have i64: "i < 64" using fs_okD(6) [OF store_okD(1) [OF s] i] .
  note f = set_file_frame [OF store_okD(1) [OF s] i64] and n = set_file_node [OF store_okD(1) [OF s] i64]
  show u: "used_nodes (set_file i c sz s) = used_nodes s" by (rule f(4))
  have "unat sz \<le> length b" if "c = Some b" for b using c [OF that] z(1) by (simp add: buffer_ok_def)
  then have "sizes_ok (set_file i c sz s)"
    using store_okD(4) [OF s] z i unfolding sizes_ok_def n u by auto
  then show "store_ok (set_file i c sz s)"
    using f(1) texts_set_file [OF store_okD(1,2) [OF s] i64 c] by (simp add: store_ok_def fs_inv_def)
qed


lemma truncate_store:
  assumes s: "store_ok s" and p: "path_ok path"
  shows "store_step s (vfs_write_file path (Some d) 0 s)"
proof (cases path)
  case None
  then show ?thesis
    using s by (simp add: store_step_def vfs_write_file_def lookup_flagged_def vfs_lookup_def)
next
  case (Some q)
  note ok = store_okD(1,2) [OF s]
  have q: "terminated q" using p Some by (simp add: path_ok_def)
  show ?thesis
  proof (cases "\<exists>i. file_at (cstr q) s i")
    case False
    then show ?thesis
      using lookup_file_at [OF ok(1) q] s Some by (simp add: vfs_write_file_def store_step_def)
  next
    case True
    then obtain i where f: "file_at (cstr q) s i" ..
    have i: "i < used_nodes s" "i < 64" using file_at_bound [OF ok(1) f] by simp_all
    let ?c = "map_option (\<lambda>c. c[0 := 0]) (vn_content (node s i))"
    have b: "buffer_ok c" if "vn_content (node s i) = Some c" for c
      using that ok(2) i f by (auto simp: texts_ok_def file_at_def)
    have "\<forall>c. vn_content (node s i) = Some c \<longrightarrow> 0 < length c" using b by (fastforce simp: buffer_ok_def)
    then have "vfs_write_file (Some q) (Some d) 0 s = Some (0, set_file i ?c 0 s)"
      using f lookup_flagged_file [OF ok(1) q] i get_update [OF ok(1) i(2)]
      by (auto simp: vfs_write_file_def file_at_def array_set_def set_file_def split: option.split)
    moreover have "buffer_ok (c[0 := 0])" if "buffer_ok c" for c
      using that by (cases c) (auto simp: buffer_ok_def)
    then have "store_ok (set_file i ?c 0 s)" "used_nodes (set_file i ?c 0 s) = used_nodes s"
      using set_file_store [OF s i(1), of ?c 0] b by auto
    ultimately show ?thesis using Some by (simp add: store_step_def)
  qed
qed

section \<open>Writable contents\<close>

lemma set_file_id:
  assumes "fs_ok s" "i < 64"
  shows "set_file i (vn_content (node s i)) (vn_size (node s i)) s = s"
  using fs_okD(1) [OF assms(1)] assms(2) by (simp add: set_file_def node_def)

text \<open>
  \<open>ensure_writable_content\<close> puts a new buffer under a file, whenever the allocator has a page, and keeps the
  size and the first 63 bytes of the text; without a page an existing buffer stays.
\<close>

lemma ensure_content:
  assumes s: "store_ok s" and i: "i < used_nodes s" and f: "vn_flags (node s i) = VFS_FILE"
    and a: "alloc_content s = (a, s\<lparr>fs_pmm := pm, fs_mem := m\<rparr>)" "\<forall>b. a = Some b \<longrightarrow> length b = 4096"
  obtains c where
    "ensure_writable_content i s = Some ((), set_file i c (vn_size (node s i)) (s\<lparr>fs_pmm := pm, fs_mem := m\<rparr>))"
    "\<forall>b. c = Some b \<longrightarrow> buffer_ok b" "c = None \<longleftrightarrow> a = None \<and> vn_content (node s i) = None"
    "\<forall>b old. c = Some b \<longrightarrow> vn_content (node s i) = Some old \<longrightarrow>
       take (kept (vn_size (node s i))) b = take (kept (vn_size (node s i))) old"
proof -
  note ok = store_okD(1) [OF s]
  let ?n = "node s i" and ?s = "s\<lparr>fs_pmm := pm, fs_mem := m\<rparr>"
  have i64: "i < 64" using fs_okD(6) [OF ok i] .
  have nd: "node ?s i = ?n" by simp
  have z: "kept (vn_size ?n) \<le> 63" "vn_content ?n = None \<longrightarrow> vn_size ?n = 0"
    using store_okD(4) [OF s] i64 by (auto simp: sizes_ok_def kept_def)
  have ok': "fs_ok ?s" using ok by simp
  show thesis
  proof (cases "vn_content ?n")
    case None
    let ?c = "map_option (\<lambda>c. c[0 := 0]) a"
    have "ensure_writable_content i s = Some ((), set_file i ?c 0 ?s)"
      using None f a get_node [OF ok i64] get_update [OF ok' i64]
      by (simp add: ensure_writable_content_def set_file_def nd)
    moreover have "buffer_ok (b[0 := 0])" if "a = Some b" for b
      using a(2) that by (cases b) (auto simp: buffer_ok_def)
    ultimately show thesis using z None by (intro that [of ?c]) auto
  next
    case (Some old)
    have b: "buffer_ok old" using store_okD(2) [OF s] i f Some by (auto simp: texts_ok_def)
    show thesis
    proof (cases a)
      case None
      have "ensure_writable_content i s = Some ((), ?s)"
        using None Some f a get_node [OF ok i64] by (simp add: ensure_writable_content_def)
      moreover have "set_file i (Some old) (vn_size ?n) ?s = ?s" using set_file_id [OF ok' i64] Some by simp
      ultimately show thesis using b Some by (intro that [of "Some old"]) auto
    next
      case (Some new)
      let ?k = "kept (vn_size ?n)" and ?b = "spliced new 0 old (kept (vn_size ?n))"
      have l: "length new = 4096" "64 \<le> length old" using a(2) Some b by (simp_all add: buffer_ok_def)
      note cs = kept_word [of "vn_size ?n"]
      have m: "memcpy new old ?k = Some (take ?k old @ drop ?k new)" using l z by (simp add: memcpy_eq)
      have st: "array_set (take ?k old @ drop ?k new) ?k 0 = Some ?b"
        using l z Cons_nth_drop_Suc [of ?k new, symmetric]
        by (simp add: array_set_def spliced_def list_update_append min_absorb2 del: Cons_nth_drop_Suc)
      have "ensure_writable_content i s = Some ((), set_file i (Some ?b) (vn_size ?n) ?s)"
        using Some \<open>vn_content ?n = Some old\<close> f a get_node [OF ok i64] get_update [OF ok' i64] cs m st
        by (simp add: ensure_writable_content_def set_file_def nd)
      moreover have "buffer_ok ?b" using l z by (intro spliced_ok) simp_all
      moreover have "take ?k ?b = take ?k old" using l z by (simp add: spliced_def)
      ultimately show thesis using \<open>vn_content ?n = Some old\<close> Some by (intro that [of "Some ?b"]) auto
    qed
  qed
qed


section \<open>Descriptors\<close>

lemma k_invD:
  assumes "k_inv k"
  shows "store_ok (k_fs k)" "fs_ok (k_fs k)" "length (fd_table k) = 32" "term_ok (k_term k)"
    "i < 32 \<Longrightarrow> fd_ok (k_fs k) (fd_table k ! i)"
  using assms store_okD(1) by (auto simp: k_inv_def list_all_length)

lemma fs_view_facts [simp]:
  "node (fs_view k) = node (k_fs k)" "used_nodes (fs_view k) = used_nodes (k_fs k)" "store_ok (fs_view k) = store_ok (k_fs k)"
  "vnodes_pool (fs_view k) = vnodes_pool (k_fs k)"
  by (simp_all add: fs_view_def Let_def)

lemma put_fs_facts [simp]:
  "k_fs (put_fs s k) = s" "fd_table (put_fs s k) = fd_table k" "k_term (put_fs s k) = k_term k"
  by (simp_all add: put_fs_def)

lemma k_inv_frame [simp]:
  "k_inv (k\<lparr>errno := e\<rparr>) = k_inv k" "k_inv (k\<lparr>k_proc := p\<rparr>) = k_inv k"
  by (simp_all add: k_inv_def)

lemma k_inv_set_fd:
  assumes "k_inv k" "fd_ok (k_fs k) e"
  shows "k_inv (k\<lparr>fd_table := (fd_table k)[i := e]\<rparr>)"
  using assms set_update_subset_insert [of "fd_table k" i e] by (auto simp: k_inv_def list_all_iff)

lemma k_inv_put_fs:
  assumes "k_inv k" "store_ok s" "used_nodes (k_fs k) \<le> used_nodes s"
  shows "k_inv (put_fs s k)"
  using assms by (auto simp: k_inv_def list_all_iff fd_ok_def intro: less_le_trans)

lemma with_fs_inv:
  assumes "k_inv k" "store_step (fs_view k) (f (fs_view k))"
  shows "\<exists>v k'. with_fs f k = Some (v, k') \<and> k_inv k' \<and> k' = put_fs (k_fs k') k"
  using assms k_inv_put_fs [OF assms(1)] by (auto simp: store_step_def with_fs_def)

text \<open>A descriptor that is open on a node of a kind.\<close>

definition fd_open :: "kernel \<Rightarrow> int \<Rightarrow> fd_entry \<Rightarrow> nat \<Rightarrow> u32 \<Rightarrow> bool" where
  "fd_open k fd e i kind \<longleftrightarrow> 0 \<le> fd \<and> fd < MAX_FDS \<and> fd_table k ! nat fd = e \<and> fd_used e \<and> fd_node e = Some i
     \<and> vn_flags (node (k_fs k) i) = kind"

lemma get_fd_eq:
  assumes "k_inv k"
  shows "get_fd fd k = Some (if 0 \<le> fd \<and> fd < MAX_FDS \<and> fd_used (fd_table k ! nat fd) then Some (fd_table k ! nat fd) else None)"
  using k_invD(3) [OF assms] by (auto simp: get_fd_def array_get_def)

lemma fd_open_bounds:
  assumes "k_inv k" "fd_open k fd e i kind"
  shows "i < used_nodes (k_fs k)" "i < 64" "nat fd < length (fd_table k)"
proof -
  have "nat fd < 32" using assms(2) by (auto simp: fd_open_def)
  then show "nat fd < length (fd_table k)" using k_invD(3) [OF assms(1)] by simp
  have "fd_ok (k_fs k) e" using k_invD(5) [OF assms(1) \<open>nat fd < 32\<close>] assms(2) by (simp add: fd_open_def)
  then show "i < used_nodes (k_fs k)" using assms(2) by (auto simp: fd_ok_def fd_open_def)
  then show "i < 64" using fs_okD(6) [OF k_invD(2) [OF assms(1)]] by simp
qed

lemma fd_vnode_eq:
  assumes inv: "k_inv k" and kind: "kind \<in> {VFS_FILE, VFS_DIRECTORY}"
  shows "(\<exists>e i. fd_open k fd e i kind \<and> fd_vnode fd kind k = Some (Some (e, i, node (k_fs k) i)))
     \<or> ((\<nexists>e i. fd_open k fd e i kind) \<and> fd_vnode fd kind k = Some None)"
proof (cases "0 \<le> fd \<and> fd < MAX_FDS \<and> fd_used (fd_table k ! nat fd)")
  case True
  then have "fd_ok (k_fs k) (fd_table k ! nat fd)" using k_invD(5) [OF inv] by auto
  then obtain i where i: "i < used_nodes (k_fs k)" "fd_node (fd_table k ! nat fd) = Some i" using True by (auto simp: fd_ok_def)
  have i64: "i < 64" using fs_okD(6) [OF k_invD(2) [OF inv] i(1)] .
  have "vn_flags (node (k_fs k) i) AND kind = 0 \<longleftrightarrow> vn_flags (node (k_fs k) i) \<noteq> kind"
    using fs_okD(3) [OF k_invD(2) [OF inv] i64] kind by (auto simp: node_wf_def)
  then have "fd_vnode fd kind k = Some (if vn_flags (node (k_fs k) i) \<noteq> kind then None
      else Some (fd_table k ! nat fd, i, node (k_fs k) i))"
    using True i get_node [OF k_invD(2) [OF inv] i64] by (simp add: fd_vnode_def get_fd_eq [OF inv])
  then show ?thesis using True i by (cases "vn_flags (node (k_fs k) i) = kind") (auto simp: fd_open_def)
next
  case False
  then show ?thesis by (auto simp: fd_vnode_def get_fd_eq [OF inv] fd_open_def)
qed

lemma fd_vnode_open:
  assumes "k_inv k" "kind \<in> {VFS_FILE, VFS_DIRECTORY}" "fd_open k fd e i kind"
  shows "fd_vnode fd kind k = Some (Some (e, i, node (k_fs k) i))"
  using fd_vnode_eq [OF assms(1,2), of fd] assms(3) by (auto simp: fd_open_def)


section \<open>Writing and reading\<close>

text \<open>The paging state after a page for contents has been requested.\<close>

definition content_paging :: "kernel \<Rightarrow> paging" where
  "content_paging k =
     (let g = pr_paging (k_proc k); (p, pm, m) = pmm_alloc_z 64 (pg_pmm g) (pg_mem g)
      in g\<lparr>pg_pmm := pm, pg_mem := m\<rparr>)"

text \<open>The number of bytes a write takes at offset \<open>off\<close>.\<close>

definition room :: "u32 \<Rightarrow> u32 \<Rightarrow> nat" where
  "room off count = min (unat count) (63 - unat off)"

lemma set_file_twice:
  "fs_ok s \<Longrightarrow> i < 64 \<Longrightarrow> set_file i c z (set_file i c' z' s) = set_file i c z s"
  using fs_okD(1) [of s] by (simp add: set_file_def node_def)

lemma content_alloc:
  obtains a where "alloc_content (fs_view k) =
      (a, (fs_view k)\<lparr>fs_pmm := pg_pmm (content_paging k), fs_mem := pg_mem (content_paging k)\<rparr>)"
    "\<forall>b. a = Some b \<longrightarrow> length b = 4096"
    "content_paging k = (pr_paging (k_proc k))\<lparr>pg_pmm := pg_pmm (content_paging k), pg_mem := pg_mem (content_paging k)\<rparr>"
proof (cases "pmm_alloc_z 64 (pg_pmm (pr_paging (k_proc k))) (pg_mem (pr_paging (k_proc k)))")
  case (fields p pm m)
  then show thesis
    by (intro that [where a = "if p = 0 then None else Some (mem_read m p 4096)"])
       (auto simp: alloc_content_def fs_view_def content_paging_def Let_def)
qed

lemma room_word:
  assumes "unat off \<le> 63"
  shows "(if count < 63 - off then count else 63 - off) = of_nat (room off count)" "room off count \<le> 63"
    "unat (of_nat (room off count) :: u32) = room off count" "unat off + room off count \<le> 63"
proof -
  have le: "off \<le> 63" using assms by (simp add: word_le_nat_alt)
  have "unat (63 - off) = 63 - unat off" using unat_sub [OF le] by simp
  then have "unat (if count < 63 - off then count else 63 - off) = room off count"
    by (auto simp: room_def word_less_nat_alt)
  then show "(if count < 63 - off then count else 63 - off) = of_nat (room off count)" by (simp only: word_unat_eq_iff) (simp add: room_def unat_u32_of_nat)
  show "room off count \<le> 63" by (simp add: room_def)
  then show "unat (of_nat (room off count) :: u32) = room off count" by (simp add: unat_u32_of_nat)
  show "unat off + room off count \<le> 63" using assms by (simp add: room_def)
qed

lemma virt_read_length: "virt_read v n s = Some bs \<Longrightarrow> length bs = n"
  by (induction n arbitrary: v bs) (auto simp: Let_def split: if_splits bind_splits)

lemma sys_write_file:
  assumes inv: "k_inv k" and o: "fd_open k (sint ebx) e i VFS_FILE" and fd: "sint ebx \<notin> {1, 2}"
    and off: "unat (fd_offset e) \<le> 63" and b: "buf \<noteq> 0" "count \<noteq> 0" and d: "virt_read buf (room (fd_offset e) count) (content_paging k) = Some data"
  obtains c s where "store_ok s" "s = (fs_view k)\<lparr>fs_pmm := pg_pmm (content_paging k), fs_mem := pg_mem (content_paging k)\<rparr>"
    "c = None \<longrightarrow> vn_content (node (k_fs k) i) = None \<and>
       sys_write ebx buf count k = sys_fail ENOMEM (put_fs (set_file i None 0 s) k)"
    "\<forall>x. c = Some x \<longrightarrow> buffer_ok x \<and>
       sys_write ebx buf count k =
         Some (of_nat (room (fd_offset e) count),
           (put_fs (set_file i (Some (spliced x (unat (fd_offset e)) data (room (fd_offset e) count)))
                     (fd_offset e + of_nat (room (fd_offset e) count)) s) k)
           \<lparr>fd_table := (fd_table k)[nat (sint ebx) := e\<lparr>fd_offset := fd_offset e + of_nat (room (fd_offset e) count)\<rparr>]\<rparr>)"
    "\<forall>x y. c = Some x \<longrightarrow> vn_content (node (k_fs k) i) = Some y \<longrightarrow>
       take (kept (vn_size (node (k_fs k) i))) x = take (kept (vn_size (node (k_fs k) i))) y"
proof -
  let ?n = "node (k_fs k) i" and ?w = "room (fd_offset e) count" and ?off = "fd_offset e"
  note bd = fd_open_bounds [OF inv o]
  have fl: "vn_flags ?n = VFS_FILE" using o by (simp add: fd_open_def)
  obtain a where a: "alloc_content (fs_view k) =
      (a, (fs_view k)\<lparr>fs_pmm := pg_pmm (content_paging k), fs_mem := pg_mem (content_paging k)\<rparr>)"
    "\<forall>b. a = Some b \<longrightarrow> length b = 4096"
    "content_paging k = (pr_paging (k_proc k))\<lparr>pg_pmm := pg_pmm (content_paging k), pg_mem := pg_mem (content_paging k)\<rparr>"
    by (rule content_alloc)
  define s where "s = (fs_view k)\<lparr>fs_pmm := pg_pmm (content_paging k), fs_mem := pg_mem (content_paging k)\<rparr>"
  have st: "store_ok (fs_view k)" "store_ok s" using k_invD(1) [OF inv] by (simp_all add: s_def)
  have nd: "node s = node (k_fs k)" "used_nodes s = used_nodes (k_fs k)" by (simp_all add: s_def)
  have ok: "fs_ok s" using store_okD(1) [OF st(2)] .
  obtain c where c: "ensure_writable_content i (fs_view k) = Some ((), set_file i c (vn_size ?n) s)"
    "\<forall>b. c = Some b \<longrightarrow> buffer_ok b" "c = None \<longleftrightarrow> a = None \<and> vn_content ?n = None"
    "\<forall>b old. c = Some b \<longrightarrow> vn_content ?n = Some old \<longrightarrow> take (kept (vn_size ?n)) b = take (kept (vn_size ?n)) old"
    using ensure_content [OF st(1), of i a] bd(1) fl a(1,2) unfolding s_def by auto
  let ?k = "put_fs (set_file i c (vn_size ?n) s) k"
  have pg: "pr_paging (k_proc ?k) = content_paging k"
    using a(3) by (simp add: put_fs_def on_paging_def set_file_def s_def fs_view_def Let_def)
  have ok1: "fs_ok (set_file i c (vn_size ?n) s)" using set_file_frame(1) [OF ok bd(2)] .
  have get: "array_get (vnodes_pool (k_fs ?k)) i = Some (?n\<lparr>vn_content := c\<rparr>)"
    using get_node [OF ok1 bd(2)] by (simp add: set_file_node [OF ok bd(2)] nd)
  note w = room_word [OF off, of count]
  have wr: "sys_write ebx buf count k = (case c of None \<Rightarrow> sys_fail ENOMEM ?k
      | Some x \<Rightarrow> do { s' \<leftarrow> put_content i x ?off data (of_nat ?w) (k_fs ?k);
                       k \<leftarrow> set_fd (sint ebx) (e\<lparr>fd_offset := ?off + of_nat ?w\<rparr>) (?k\<lparr>k_fs := s'\<rparr>);
                       Some (of_nat ?w, k) })"
    using b fd fd_vnode_open [OF inv _ o] c(1) get pg d
    by (cases c) (simp_all add: sys_write_def Let_def with_fs_def w(1,3))
  show thesis
  proof (rule that [of s c])
    have "vn_size ?n = 0" if "c = None"
      using that c(3) store_okD(4) [OF k_invD(1) [OF inv]] bd(2) by (simp add: sizes_ok_def)
    then show "c = None \<longrightarrow> vn_content ?n = None \<and> sys_write ebx buf count k = sys_fail ENOMEM (put_fs (set_file i None 0 s) k)"
      using c(3) wr by auto
    have "put_content i x ?off data (of_nat ?w) (set_file i c (vn_size ?n) s) =
        Some (set_file i (Some (spliced x (unat ?off) data ?w)) (?off + of_nat ?w) s)" if x: "c = Some x" for x
      using put_content_eq [OF ok1 bd(2), of x ?off "of_nat ?w" data] c(2) x w virt_read_length [OF d]
      by (simp add: buffer_ok_def set_file_twice [OF ok bd(2)])
    then show "\<forall>x. c = Some x \<longrightarrow> buffer_ok x \<and> sys_write ebx buf count k =
         Some (of_nat ?w, (put_fs (set_file i (Some (spliced x (unat ?off) data ?w)) (?off + of_nat ?w) s) k)
           \<lparr>fd_table := (fd_table k)[nat (sint ebx) := e\<lparr>fd_offset := ?off + of_nat ?w\<rparr>]\<rparr>)"
      using wr c(2) bd(3) by (simp add: set_fd_def array_set_def put_fs_def set_file_def)
  qed (use st c(4) in \<open>auto simp: s_def\<close>)
qed


text \<open>
  A read: the test for the end of the file adds \<open>count\<close> to the offset in 32 bits, so a count for which the sum
  wraps around passes it; below that the bytes from the offset on are delivered.
\<close>

lemma sys_read_file:
  assumes inv: "k_inv k" and o: "fd_open k (sint ebx) e i VFS_FILE" and b: "buf \<noteq> 0" "count \<noteq> 0"
    and w: "unat (fd_offset e) + unat count < 2 ^ 32" and lt: "fd_offset e < vn_size (node (k_fs k) i)"
  obtains c where "vn_content (node (k_fs k) i) = Some c" "64 \<le> length c"
    "sys_read ebx buf count k =
       (let n = min (unat count) (unat (vn_size (node (k_fs k) i)) - unat (fd_offset e))
        in map_option (\<lambda>p. (of_nat n, k\<lparr>k_proc := p,
                fd_table := (fd_table k)[nat (sint ebx) := e\<lparr>fd_offset := fd_offset e + of_nat n\<rparr>]\<rparr>))
             (proc_write buf (take n (drop (unat (fd_offset e)) c)) (k_proc k)))"
proof -
  let ?n = "node (k_fs k) i" and ?off = "fd_offset e"
  let ?r = "min (unat count) (unat (vn_size ?n) - unat ?off)"
  note bd = fd_open_bounds [OF inv o]
  have "vn_content ?n \<noteq> None"
    using store_okD(4) [OF k_invD(1) [OF inv]] bd(2) lt by (auto simp: sizes_ok_def)
  then obtain c where c: "vn_content ?n = Some c" by auto
  have z: "unat (vn_size ?n) \<le> length c"
    using store_okD(4) [OF k_invD(1) [OF inv]] bd(2) c by (auto simp: sizes_ok_def)
  have len: "64 \<le> length c"
    using store_okD(2) [OF k_invD(1) [OF inv]] bd(1) o c by (auto simp: texts_ok_def buffer_ok_def fd_open_def)
  have lt': "unat ?off < unat (vn_size ?n)" using lt by (simp add: word_less_nat_alt)
  have rs: "(if vn_size ?n < ?off + count then vn_size ?n - ?off else count) = of_nat ?r"
  proof (rule word_unat_eq_iff [THEN iffD2])
    have "unat (?off + count) = unat ?off + unat count" using w by (intro unat_u32_plus) simp
    moreover have "unat (vn_size ?n - ?off) = unat (vn_size ?n) - unat ?off" using lt by (intro unat_sub) simp
    moreover have "?r < 4294967296" using w by simp
    ultimately show "unat (if vn_size ?n < ?off + count then vn_size ?n - ?off else count) = unat (of_nat ?r :: u32)"
      using lt' by (auto simp: word_less_nat_alt unat_u32_of_nat)
  qed
  have u: "unat (of_nat ?r :: u32) = ?r" using w by (intro unat_u32_of_nat) simp
  have "slice c (unat ?off) ?r = Some (take ?r (drop (unat ?off) c))" using len z lt' by (simp add: slice_def)
  then have "sys_read ebx buf count k =
       (let n = ?r in map_option (\<lambda>p. (of_nat n, k\<lparr>k_proc := p,
                fd_table := (fd_table k)[nat (sint ebx) := e\<lparr>fd_offset := ?off + of_nat n\<rparr>]\<rparr>))
             (proc_write buf (take n (drop (unat ?off) c)) (k_proc k)))"
    using b lt c bd(3) fd_vnode_open [OF inv _ o] u unfolding sys_read_def
    by (simp add: rs Let_def not_le set_fd_def array_set_def map_option_case split: option.split)
  then show thesis using c len that by blast
qed

section \<open>Every call keeps the invariant\<close>

definition call_step :: "sys_result \<Rightarrow> bool" where
  "call_step r \<longleftrightarrow> (\<exists>v k. r = Some (v, k) \<and> k_inv k)"

lemma sys_fail_step: "k_inv k \<Longrightarrow> call_step (sys_fail e k)"
  by (simp add: sys_fail_def call_step_def)

lemma k_inv_term: "k_inv k \<Longrightarrow> term_ok t \<Longrightarrow> k_inv (k\<lparr>k_term := t\<rparr>)"
  by (simp add: k_inv_def)

lemma k_inv_cd:
  assumes "k_inv k" "i < used_nodes (k_fs k)" "vn_flags (node (k_fs k) i) = VFS_DIRECTORY"
  shows "k_inv (k\<lparr>k_fs := (k_fs k)\<lparr>current_dir := Some i\<rparr>\<rparr>)"
  using assms by (auto simp: k_inv_def store_ok_def fs_inv_def fs_ok_def node_links_def dir_ptr_def texts_ok_def sizes_ok_def)


text \<open>The position of a descriptor.\<close>

definition fd_pos :: "u32 \<Rightarrow> kernel \<Rightarrow> nat" where
  "fd_pos ebx k = (if 0 \<le> sint ebx \<and> sint ebx < MAX_FDS then unat (fd_offset (fd_table k ! nat (sint ebx))) else 0)"

lemma fd_pos_open: "fd_open k (sint ebx) e i kind \<Longrightarrow> fd_pos ebx k = unat (fd_offset e)"
  by (auto simp: fd_pos_def fd_open_def)

text \<open>What a caller owes for its buffers.\<close>

definition readable :: "addr \<Rightarrow> nat \<Rightarrow> paging \<Rightarrow> bool" where
  "readable a n g \<longleftrightarrow> virt_read a n g \<noteq> None"

definition writable :: "addr \<Rightarrow> nat \<Rightarrow> kernel \<Rightarrow> bool" where
  "writable a n k \<longleftrightarrow> (\<forall>bs. length bs \<le> n \<longrightarrow> proc_write a bs (k_proc k) \<noteq> None)"

definition path_arg :: "addr \<Rightarrow> kernel \<Rightarrow> bool" where
  "path_arg a k \<longleftrightarrow> (\<exists>path. arg_string a k = Some path \<and> path_ok path)"

lemma readable_less: "readable a n g \<Longrightarrow> m \<le> n \<Longrightarrow> \<exists>bs. virt_read a m g = Some bs"
proof (induction m arbitrary: a n)
  case (Suc m)
  then obtain n' where n: "n = Suc n'" by (cases n) auto
  then have "readable (a + 1) n' g" "get_physical_address a g \<noteq> 0"
    using Suc.prems by (auto simp: readable_def Let_def split: if_splits bind_splits)
  then show ?case using Suc.IH [of "a + 1" n'] Suc.prems n by (auto simp: Let_def)
qed simp

lemma console_ok: "term_ok t \<Longrightarrow> \<exists>t'. console_write bs t = Some t' \<and> term_ok t'"
proof (induction bs arbitrary: t)
  case (Cons b bs)
  obtain t1 where t1: "terminal_write [b, 0] t = Some t1" "term_ok t1" using write_ok [OF Cons.prems, of "[b, 0]"] by auto
  obtain t2 where t2: "serial_write [b, 0] t1 = Some t2" "term_ok t2"
    using t1(2) by (cases "b = 0") (auto simp: term_ok_def)
  show ?case using Cons.IH [OF t2(2)] t1(1) t2(1) by simp
qed simp

lemma sys_write_step:
  assumes inv: "k_inv k" and r: "buf = 0 \<or> count = 0 \<or> readable buf (unat count) (pr_paging (k_proc k))
      \<and> readable buf (unat count) (content_paging k) \<and> (sint ebx \<in> {1, 2} \<or> fd_pos ebx k \<le> 63)"
  shows "call_step (sys_write ebx buf count k)"
proof (cases "buf = 0 \<or> count = 0")
  case True
  then show ?thesis using sys_fail_step [OF inv] by (auto simp: sys_write_def)
next
  case False
  then have r: "readable buf (unat count) (pr_paging (k_proc k))" "readable buf (unat count) (content_paging k)"
    "sint ebx \<in> {1, 2} \<or> fd_pos ebx k \<le> 63"
    using r by auto
  consider (console) "sint ebx \<in> {1, 2}"
    | (opened) e i where "sint ebx \<notin> {1, 2}" "fd_open k (sint ebx) e i VFS_FILE"
    | (none) "sint ebx \<notin> {1, 2}" "fd_vnode (sint ebx) VFS_FILE k = Some None"
    using fd_vnode_eq [OF inv, of VFS_FILE "sint ebx"] by auto
  then show ?thesis
  proof cases
    case console
    obtain bs where "virt_read buf (unat count) (pr_paging (k_proc k)) = Some bs" using r(1) by (auto simp: readable_def)
    moreover obtain t where "console_write bs (k_term k) = Some t" "term_ok t" using console_ok [OF k_invD(4) [OF inv]] by blast
    ultimately show ?thesis
      using False console k_inv_term [OF inv] by (auto simp: sys_write_def Let_def call_step_def)
  next
    case opened
    have off: "unat (fd_offset e) \<le> 63" using r(3) opened by (auto simp: fd_pos_open)
    note bd = fd_open_bounds [OF inv opened(2)] and w = room_word [OF off, of count]
    obtain data where d: "virt_read buf (room (fd_offset e) count) (content_paging k) = Some data"
      using readable_less [OF r(2), of "room (fd_offset e) count"] by (auto simp: room_def)
    from False have b: "buf \<noteq> 0" "count \<noteq> 0" by auto
    obtain c s where s: "store_ok s" "s = (fs_view k)\<lparr>fs_pmm := pg_pmm (content_paging k), fs_mem := pg_mem (content_paging k)\<rparr>"
      and n: "c = None \<longrightarrow> vn_content (node (k_fs k) i) = None \<and>
          sys_write ebx buf count k = sys_fail ENOMEM (put_fs (set_file i None 0 s) k)"
      and x: "\<forall>x. c = Some x \<longrightarrow> buffer_ok x \<and> sys_write ebx buf count k =
         Some (of_nat (room (fd_offset e) count),
           (put_fs (set_file i (Some (spliced x (unat (fd_offset e)) data (room (fd_offset e) count)))
                     (fd_offset e + of_nat (room (fd_offset e) count)) s) k)
           \<lparr>fd_table := (fd_table k)[nat (sint ebx) := e\<lparr>fd_offset := fd_offset e + of_nat (room (fd_offset e) count)\<rparr>]\<rparr>)"
      by (rule sys_write_file [OF inv opened(2,1) off b d])
    have i: "i < used_nodes s" using bd(1) s(2) by simp
    have u: "unat (fd_offset e + of_nat (room (fd_offset e) count)) \<le> 63" using w by (simp add: unat_u32_plus)
    have keep: "k_inv (put_fs (set_file i c' z s) k)" if "\<And>b. c' = Some b \<Longrightarrow> buffer_ok b" "unat z \<le> 63" "c' = None \<Longrightarrow> z = 0" for c' z
      using k_inv_put_fs [OF inv, of "set_file i c' z s"] set_file_store [OF s(1) i that] s(2) by simp
    show ?thesis
    proof (cases c)
      case None
      then show ?thesis using n keep [of None 0] by (simp add: sys_fail_step)
    next
      case (Some y)
      have b: "buffer_ok (spliced y (unat (fd_offset e)) data (room (fd_offset e) count))"
        using x Some w virt_read_length [OF d] by (intro spliced_ok) (auto simp: buffer_ok_def)
      have o: "fd_ok s' (e\<lparr>fd_offset := z\<rparr>)" if "used_nodes s' = used_nodes (k_fs k)" for s' z
        using that bd(1) opened(2) by (auto simp: fd_ok_def fd_open_def)
      let ?f = "set_file i (Some (spliced y (unat (fd_offset e)) data (room (fd_offset e) count)))
          (fd_offset e + of_nat (room (fd_offset e) count)) s"
      have "used_nodes ?f = used_nodes (k_fs k)" using set_file_frame(4) [OF store_okD(1) [OF s(1)] bd(2)] s(2) by simp
      then have "k_inv ((put_fs ?f k)\<lparr>fd_table := (fd_table (put_fs ?f k))
          [nat (sint ebx) := e\<lparr>fd_offset := fd_offset e + of_nat (room (fd_offset e) count)\<rparr>]\<rparr>)"
        using keep [OF _ u, of "Some (spliced y (unat (fd_offset e)) data (room (fd_offset e) count))"] b u o
        by (intro k_inv_set_fd) simp_all
      then show ?thesis using x Some unfolding call_step_def by simp
    qed
  next
    case none
    then show ?thesis using False sys_fail_step [OF inv] by (auto simp: sys_write_def)
  qed
qed


lemma set_fd_step:
  assumes inv: "k_inv k" and e: "fd_ok (k_fs k) e" and fd: "0 \<le> fd" "fd < MAX_FDS"
  shows "\<exists>k'. set_fd fd e k = Some k' \<and> k_inv k' \<and> k' = k\<lparr>fd_table := (fd_table k)[nat fd := e]\<rparr>"
  using k_inv_set_fd [OF inv e, of "nat fd"] k_invD(3) [OF inv] fd by (simp add: set_fd_def array_set_def nat_less_iff)

lemma sys_read_step:
  assumes inv: "k_inv k" and r: "buf = 0 \<or> count = 0 \<or> fd_pos ebx k + unat count < 2 ^ 32 \<and> writable buf (unat count) k"
  shows "call_step (sys_read ebx buf count k)"
proof (cases "buf = 0 \<or> count = 0")
  case True
  then show ?thesis using sys_fail_step [OF inv] by (auto simp: sys_read_def)
next
  case False
  then have b: "buf \<noteq> 0" "count \<noteq> 0" and s: "fd_pos ebx k + unat count < 2 ^ 32" and w: "writable buf (unat count) k"
    using r by auto
  consider (opened) e i where "fd_open k (sint ebx) e i VFS_FILE" | (none) "fd_vnode (sint ebx) VFS_FILE k = Some None"
    using fd_vnode_eq [OF inv, of VFS_FILE "sint ebx"] by auto
  then show ?thesis
  proof cases
    case opened
    note bd = fd_open_bounds [OF inv opened]
    have s: "unat (fd_offset e) + unat count < 2 ^ 32" using s opened by (simp add: fd_pos_open)
    show ?thesis
    proof (cases "fd_offset e < vn_size (node (k_fs k) i)")
      case True
      let ?n = "min (unat count) (unat (vn_size (node (k_fs k) i)) - unat (fd_offset e))"
      obtain c where c: "sys_read ebx buf count k =
         (let n = ?n in map_option (\<lambda>p. (of_nat n, k\<lparr>k_proc := p,
                  fd_table := (fd_table k)[nat (sint ebx) := e\<lparr>fd_offset := fd_offset e + of_nat n\<rparr>]\<rparr>))
               (proc_write buf (take n (drop (unat (fd_offset e)) c)) (k_proc k)))"
        by (rule sys_read_file [OF inv opened b s True])
      obtain p where p: "proc_write buf (take ?n (drop (unat (fd_offset e)) c)) (k_proc k) = Some p"
        using w by (fastforce simp: writable_def)
      have "fd_ok (k_fs k) (e\<lparr>fd_offset := fd_offset e + of_nat ?n\<rparr>)"
        using opened bd(1) by (auto simp: fd_ok_def fd_open_def)
      then have "k_inv ((k\<lparr>k_proc := p\<rparr>)\<lparr>fd_table := (fd_table (k\<lparr>k_proc := p\<rparr>))
          [nat (sint ebx) := e\<lparr>fd_offset := fd_offset e + of_nat ?n\<rparr>]\<rparr>)"
        using inv by (intro k_inv_set_fd) simp_all
      then show ?thesis using c p by (simp add: call_step_def Let_def)
    next
      case False
      then show ?thesis
        using b fd_vnode_open [OF inv _ opened] inv by (simp add: sys_read_def Let_def not_less call_step_def)
    qed
  next
    case none
    then show ?thesis using b sys_fail_step [OF inv] by (auto simp: sys_read_def)
  qed
qed

lemma sys_close_step:
  assumes inv: "k_inv k"
  shows "call_step (sys_close ebx k)"
proof (cases "2 < sint ebx \<and> sint ebx < MAX_FDS \<and> fd_used (fd_table k ! nat (sint ebx))")
  case True
  then show ?thesis
    using set_fd_step [OF inv, of no_fd "sint ebx"]
    by (auto simp: sys_close_def get_fd_eq [OF inv] release_fd_def call_step_def fd_ok_def no_fd_def)
next
  case False
  then show ?thesis using sys_fail_step [OF inv] by (auto simp: sys_close_def get_fd_eq [OF inv] Let_def)
qed

lemma free_fd_eq:
  "i + n \<le> length t \<Longrightarrow>
     free_fd t i n = Some (case find (\<lambda>j. \<not> fd_used (t ! j)) [i..<i + n] of None \<Rightarrow> -1 | Some j \<Rightarrow> int j)"
proof (induction n arbitrary: i)
  case (Suc n)
  have "[i..<i + Suc n] = i # [Suc i..<Suc i + n]" by (simp add: upt_conv_Cons)
  then show ?case using Suc by (simp add: array_get_def)
qed simp

definition lowest_free :: "kernel \<Rightarrow> nat option" where
  "lowest_free k = find (\<lambda>j. \<not> fd_used (fd_table k ! j)) [3..<32]"

lemma find_upt_Some_from: "find P [a..<b] = Some j \<longleftrightarrow> a \<le> j \<and> j < b \<and> P j \<and> (\<forall>l. a \<le> l \<and> l < j \<longrightarrow> \<not> P l)"
proof (induction "b - a" arbitrary: a)
  case (Suc n)
  then have "find P [a..<b] = (if P a then Some a else find P [Suc a..<b])" by (simp add: upt_conv_Cons)
  moreover have "find P [Suc a..<b] = Some j \<longleftrightarrow> Suc a \<le> j \<and> j < b \<and> P j \<and> (\<forall>l. Suc a \<le> l \<and> l < j \<longrightarrow> \<not> P l)"
    using Suc(2) by (intro Suc(1)) simp
  moreover have "a < b" using Suc(2) by simp
  moreover have "j = a \<longleftrightarrow> a \<le> j \<and> j < b \<and> P j \<and> (\<forall>l. a \<le> l \<and> l < j \<longrightarrow> \<not> P l)" if "P a"
    using that \<open>a < b\<close> by (cases "j < a \<or> j = a") auto
  moreover have "Suc a \<le> j \<and> (\<forall>l. Suc a \<le> l \<and> l < j \<longrightarrow> \<not> P l) \<longleftrightarrow> a \<le> j \<and> (\<forall>l. a \<le> l \<and> l < j \<longrightarrow> \<not> P l)"
    if "\<not> P a" "P j"
    using that by (metis Suc_leD Suc_leI le_neq_implies_less)
  ultimately show ?case by (cases "P a") auto
qed simp

lemma lowest_free_Some:
  "lowest_free k = Some j \<longleftrightarrow> 3 \<le> j \<and> j < 32 \<and> \<not> fd_used (fd_table k ! j) \<and> (\<forall>l. 3 \<le> l \<and> l < j \<longrightarrow> fd_used (fd_table k ! l))"
  unfolding lowest_free_def find_upt_Some_from by simp

lemma allocate_fd_eq:
  assumes "k_inv k"
  shows "allocate_fd k = Some (case lowest_free k of None \<Rightarrow> -1 | Some j \<Rightarrow> int j)"
  using free_fd_eq [of 3 29 "fd_table k"] k_invD(3) [OF assms]
  by (simp add: allocate_fd_def lowest_free_def del: upt_rec_numeral)

lemma open_node_step:
  assumes inv: "k_inv k" and i: "i < used_nodes (k_fs k)"
  shows "call_step (open_node i flags k)"
proof (cases "lowest_free k")
  case None
  then show ?thesis using sys_fail_step [OF inv] by (simp add: open_node_def allocate_fd_eq [OF inv])
next
  case (Some j)
  then have "j < 32" by (simp add: lowest_free_Some)
  then show ?thesis
    using Some set_fd_step [OF inv, of "\<lparr>fd_used = True, fd_node = Some i, fd_offset = 0, fd_flags = flags\<rparr>" "int j"] i
    by (auto simp: open_node_def allocate_fd_eq [OF inv] call_step_def fd_ok_def)
qed


text \<open>The lookup of an acceptable path succeeds and finds nodes in use only.\<close>

lemma lookup_ok:
  assumes "k_inv k" "path_ok path"
  obtains l where "vfs_lookup path (k_fs k) = Some l"
    "\<forall>i. l = Some i \<longrightarrow> i < used_nodes (k_fs k) \<and> array_get (vnodes_pool (k_fs k)) i = Some (node (k_fs k) i)
       \<and> node_wf (node (k_fs k) i)"
proof (cases path)
  case None
  then show thesis using that [of None] by (simp add: vfs_lookup_def)
next
  case (Some p)
  note ok = k_invD(2) [OF assms(1)]
  have "vfs_lookup path (k_fs k) = Some (resolve (cstr p) (k_fs k))"
    using vfs_lookup_eq [OF ok] assms(2) Some by (simp add: path_ok_def)
  then show thesis
    using that resolve_used [OF ok] fs_okD(6) [OF ok] fs_okD(3) [OF ok] get_node [OF ok] by blast
qed

lemma sys_open_step:
  assumes inv: "k_inv k" and p: "path_arg ebx k"
  shows "call_step (sys_open ebx flags k)"
proof -
  obtain path where path: "arg_string ebx k = Some path" "path_ok path" using p by (auto simp: path_arg_def)
  obtain e where e: "no_path path = Some e"
  proof (cases path)
    case (Some q)
    then show thesis using that no_path_eq path(2) by (simp add: path_ok_def)
  qed (simp add: no_path_def that)
  have truncated: "\<exists>v k'. (if b then with_fs (vfs_write_file path (Some (clit '''')) 0) k1 else Some (0, k1)) = Some (v, k')
      \<and> k_inv k' \<and> used_nodes (k_fs k1) \<le> used_nodes (k_fs k')" if "k_inv k1" for b k1
    using truncate_store [OF _ path(2), of "fs_view k1" "clit ''''"] k_invD(1) [OF that] that k_inv_put_fs [OF that]
    by (cases b) (auto simp: store_step_def with_fs_def)
  have rest: "call_step (do { l \<leftarrow> vfs_lookup path (k_fs k1);
              case l of
                None \<Rightarrow> sys_fail ENOENT k1
              | Some i \<Rightarrow>
                  do { n \<leftarrow> array_get (vnodes_pool (k_fs k1)) i;
                       (_, k2) \<leftarrow> (if flags AND O_TRUNC \<noteq> 0 \<and> vn_flags n AND VFS_FILE \<noteq> 0
                                 then with_fs (vfs_write_file path (Some (clit '''')) 0) k1 else Some (0, k1));
                       open_node i flags k2 } })" if inv1: "k_inv k1" for k1
  proof -
    obtain l where l: "vfs_lookup path (k_fs k1) = Some l"
      "\<forall>i. l = Some i \<longrightarrow> i < used_nodes (k_fs k1) \<and> array_get (vnodes_pool (k_fs k1)) i = Some (node (k_fs k1) i)
       \<and> node_wf (node (k_fs k1) i)"
      by (rule lookup_ok [OF inv1 path(2)])
    show ?thesis
    proof (cases l)
      case (Some i)
      then obtain v k2 where k2: "(if flags AND O_TRUNC \<noteq> 0 \<and> vn_flags (node (k_fs k1) i) AND VFS_FILE \<noteq> 0
          then with_fs (vfs_write_file path (Some (clit '''')) 0) k1 else Some (0, k1)) = Some (v, k2)"
        "k_inv k2" "used_nodes (k_fs k1) \<le> used_nodes (k_fs k2)" using truncated [OF inv1] by blast
      have "i < used_nodes (k_fs k2)" using k2(3) l(2) Some by auto
      then show ?thesis using l Some k2 open_node_step [OF k2(2)] by simp
    qed (use l sys_fail_step [OF inv1] in simp)
  qed
  obtain l where l: "vfs_lookup path (k_fs k) = Some l" by (rule lookup_ok [OF inv path(2)])
  obtain v k1 where k1: "(if l = None \<and> flags AND O_CREAT \<noteq> 0 then with_fs (k_touch path) k else Some (0, k)) = Some (v, k1)" "k_inv k1"
    using with_fs_inv [OF inv, of "k_touch path"] touch_store [OF _ path(2), of "fs_view k"] k_invD(1) [OF inv] inv
    by (cases "l = None \<and> flags AND O_CREAT \<noteq> 0") auto
  have run: "sys_open ebx flags k = (if e then sys_fail EINVAL k else if v \<noteq> 0 then sys_fail EACCES k1
      else do { l \<leftarrow> vfs_lookup path (k_fs k1);
              case l of
                None \<Rightarrow> sys_fail ENOENT k1
              | Some i \<Rightarrow>
                  do { n \<leftarrow> array_get (vnodes_pool (k_fs k1)) i;
                       (_, k2) \<leftarrow> (if flags AND O_TRUNC \<noteq> 0 \<and> vn_flags n AND VFS_FILE \<noteq> 0
                                 then with_fs (vfs_write_file path (Some (clit '''')) 0) k1 else Some (0, k1));
                       open_node i flags k2 } })"
    unfolding sys_open_def using path(1) e l k1(1) by simp
  show ?thesis unfolding run using rest [OF k1(2)] sys_fail_step [OF inv] sys_fail_step [OF k1(2)] by simp
qed

lemma sys_fs_step:
  assumes inv: "k_inv k" and p: "path_arg ebx k" and f: "\<And>s path. store_ok s \<Longrightarrow> path_ok path \<Longrightarrow> store_step s (f path s)"
  shows "call_step (sys_fs f ebx k)"
proof -
  obtain path where path: "arg_string ebx k = Some path" "path_ok path" using p by (auto simp: path_arg_def)
  then show ?thesis
    using with_fs_inv [OF inv, of "f path"] f [OF _ path(2), of "fs_view k"] k_invD(1) [OF inv]
    by (fastforce simp: sys_fs_def call_step_def)
qed

lemma sys_chdir_step:
  assumes inv: "k_inv k" and p: "path_arg ebx k"
  shows "call_step (sys_chdir ebx k)"
proof -
  obtain path where path: "arg_string ebx k = Some path" "path_ok path" using p by (auto simp: path_arg_def)
  obtain l where l: "vfs_lookup path (k_fs k) = Some l"
    "\<forall>i. l = Some i \<longrightarrow> i < used_nodes (k_fs k) \<and> array_get (vnodes_pool (k_fs k)) i = Some (node (k_fs k) i)
       \<and> node_wf (node (k_fs k) i)"
    by (rule lookup_ok [OF inv path(2)])
  show ?thesis
  proof (cases l)
    case (Some i)
    then have "vn_flags (node (k_fs k) i) AND VFS_DIRECTORY = 0 \<longleftrightarrow> vn_flags (node (k_fs k) i) \<noteq> VFS_DIRECTORY"
      using l(2) by (auto simp: node_wf_def)
    then show ?thesis
      using path l Some sys_fail_step [OF inv] k_inv_cd [OF inv] by (auto simp: sys_chdir_def call_step_def)
  qed (use path l sys_fail_step [OF inv] in \<open>simp add: sys_chdir_def\<close>)
qed

lemma bytes_length [simp]: "length (bytes16 a) = 2" "length (bytes32 b) = 4" "length (bytes64 c) = 8"
  by (simp_all add: bytes16_def bytes32_def bytes64_def)

lemma stat_bytes_length: "length (stat_bytes a n) = 72"
  by (simp add: stat_bytes_def Let_def)

lemma fill_stat_step:
  assumes "k_inv k" "i < used_nodes (k_fs k)" "st = 0 \<or> writable st 72 k"
  shows "\<exists>r k'. fill_stat i st k = Some (r, k') \<and> k_inv k'"
proof (cases "st = 0")
  case False
  then obtain p where "proc_write st (stat_bytes (node_addr k i) (node (k_fs k) i)) (k_proc k) = Some p"
    using assms(3) by (fastforce simp: writable_def stat_bytes_length)
  then show ?thesis
    using False assms(1) get_node [OF k_invD(2) [OF assms(1)] fs_okD(6) [OF k_invD(2) [OF assms(1)] assms(2)]]
    by (simp add: fill_stat_def)
qed (use assms(1) in \<open>simp add: fill_stat_def\<close>)

lemma sys_stat_step:
  assumes inv: "k_inv k" and p: "path_arg ebx k" and w: "st = 0 \<or> writable st 72 k"
  shows "call_step (sys_stat ebx st k)"
proof -
  obtain path where path: "arg_string ebx k = Some path" "path_ok path" using p by (auto simp: path_arg_def)
  obtain l where l: "vfs_lookup path (k_fs k) = Some l" "\<forall>i. l = Some i \<longrightarrow> i < used_nodes (k_fs k)"
    by (rule lookup_ok [OF inv path(2)]) blast
  then show ?thesis
    using path sys_fail_step [OF inv] fill_stat_step [OF inv _ w]
    by (cases l) (fastforce simp: sys_stat_def call_step_def)+
qed

lemma sys_fstat_step:
  assumes inv: "k_inv k" and w: "st = 0 \<or> writable st 72 k"
  shows "call_step (sys_fstat ebx st k)"
proof (cases "0 \<le> sint ebx \<and> sint ebx < MAX_FDS \<and> fd_used (fd_table k ! nat (sint ebx))")
  case True
  then have "fd_ok (k_fs k) (fd_table k ! nat (sint ebx))" using k_invD(5) [OF inv] by auto
  then obtain i where "fd_node (fd_table k ! nat (sint ebx)) = Some i" "i < used_nodes (k_fs k)" using True by (auto simp: fd_ok_def)
  then show ?thesis
    using True fill_stat_step [OF inv _ w, of i] by (fastforce simp: sys_fstat_def get_fd_eq [OF inv] call_step_def)
qed (use sys_fail_step [OF inv] in \<open>auto simp: sys_fstat_def get_fd_eq [OF inv]\<close>)


section \<open>Directory entries\<close>

text \<open>The record for child \<open>j\<close> of a directory.\<close>

definition dirent :: "kernel \<Rightarrow> vnode \<Rightarrow> nat \<Rightarrow> byte list" where
  "dirent k d j =
     (let c = the (vn_children d ! j); n = node (k_fs k) c; name = cstr (vn_name n)
      in bytes32 (node_addr k c) @ bytes32 (of_nat (Suc j)) @ bytes16 (of_nat (12 + length name))
         @ [if vn_flags n AND VFS_DIRECTORY \<noteq> 0 then 2 else 1] @ name @ [0])"

text \<open>The records that fit, one after the other, in \<open>room\<close> bytes.\<close>

fun fit :: "nat \<Rightarrow> 'a list list \<Rightarrow> 'a list list" where
  "fit n [] = []"
| "fit n (r # rs) = (if length r \<le> n then r # fit (n - length r) rs else [])"

lemma fit_take: "fit n rs = take (length (fit n rs)) rs"
  by (induction n rs rule: fit.induct) auto

lemma fit_length: "length (fit n rs) \<le> length rs"
  by (induction n rs rule: fit.induct) auto

lemma fit_bound: "length (concat (fit n rs)) \<le> n"
  by (induction n rs rule: fit.induct) auto

lemma virt_write_append:
  "virt_write v (xs @ ys) s = do { s \<leftarrow> virt_write v xs s; virt_write (v + of_nat (length xs)) ys s }"
  by (induction v xs s rule: virt_write.induct) (simp_all add: Let_def algebra_simps)

lemma proc_write_append:
  "proc_write v (xs @ ys) p = do { p \<leftarrow> proc_write v xs p; proc_write (v + of_nat (length xs)) ys p }"
  by (simp add: proc_write_def virt_write_append map_option_case split: option.split bind_split)

lemma cstr_terminator: "terminated s \<Longrightarrow> take (Suc (length (cstr s))) s = cstr s @ [0]"
  by (induction s) auto

lemma dirent_child:
  assumes ok: "fs_ok (k_fs k)" and i: "i < used_nodes (k_fs k)" and j: "j < unat (vn_child_count (node (k_fs k) i))"
  obtains c l where "array_get (vn_children (node (k_fs k) i)) j = Some (Some c)"
    "array_get (vnodes_pool (k_fs k)) c = Some (node (k_fs k) c)"
    "strlen (vn_name (node (k_fs k) c)) = Some l" "l \<le> 31" "length (dirent k (node (k_fs k) i) j) = 12 + l"
    "dirent_bytes (node_addr k c) (of_nat (Suc j)) (node (k_fs k) c) = Some (dirent k (node (k_fs k) i) j)"
proof -
  obtain c where c: "vn_children (node (k_fs k) i) ! j = Some c" "c < used_nodes (k_fs k)"
    "array_get (vn_children (node (k_fs k) i)) j = Some (Some c)"
    by (rule kidsE [OF ok i j])
  have c64: "c < 64" using fs_okD(6) [OF ok c(2)] .
  let ?n = "vn_name (node (k_fs k) c)"
  have w: "length ?n = 32" "terminated ?n" using fs_okD(3) [OF ok c64] by (simp_all add: node_wf_def)
  have l: "strlen ?n = Some (length (cstr ?n))" "length (cstr ?n) \<le> 31"
    using w terminated_length [OF w(2)] by (simp_all add: strlen_eq)
  have "slice ?n 0 (length (cstr ?n) + 1) = Some (cstr ?n @ [0])"
    using l w cstr_terminator [OF w(2)] by (simp add: slice_def)
  then have "dirent_bytes (node_addr k c) (of_nat (Suc j)) (node (k_fs k) c) = Some (dirent k (node (k_fs k) i) j)"
    using l by (simp add: dirent_bytes_def dirent_def c(1) Let_def)
  then show thesis using that [of c "length (cstr ?n)"] c l get_node [OF ok c64] by (simp add: dirent_def Let_def)
qed


lemma dirent_proc [simp]: "dirent (k\<lparr>k_proc := p\<rparr>) = dirent k"
  by (simp add: dirent_def node_addr_def fun_eq_iff)

lemma getdents_loop_eq:
  assumes "fs_ok (k_fs k)" "i < used_nodes (k_fs k)" "d = node (k_fs k) i" "unat index + n = unat (vn_child_count d)"
    "filled \<le> count" "unat filled + 43 * n < 4294967296"
  shows "getdents_loop d buf count n index filled k =
    (let rs = fit (unat count - unat filled) (map (dirent k d) [unat index..<unat index + n])
     in map_option (\<lambda>p. ((filled + of_nat (length (concat rs)), index + of_nat (length rs)), k\<lparr>k_proc := p\<rparr>))
          (proc_write (buf + filled) (concat rs) (k_proc k)))"
  using assms
proof (induction n arbitrary: index filled k)
  case 0
  then show ?case by (simp add: proc_write_def)
next
  case (Suc n)
  have j: "unat index < unat (vn_child_count (node (k_fs k) i))" using Suc.prems(3,4) by simp
  obtain c l where c: "array_get (vn_children d) (unat index) = Some (Some c)"
    "array_get (vnodes_pool (k_fs k)) c = Some (node (k_fs k) c)"
    "strlen (vn_name (node (k_fs k) c)) = Some l" "l \<le> 31" "length (dirent k d (unat index)) = 12 + l"
    "dirent_bytes (node_addr k c) (of_nat (Suc (unat index))) (node (k_fs k) c) = Some (dirent k d (unat index))"
    unfolding Suc.prems(3) by (rule dirent_child [OF Suc.prems(1,2) j])
  have ui: "unat (index + 1) = Suc (unat index)" "of_nat (Suc (unat index)) = index + 1"
  proof -
    have "unat (vn_child_count d) \<le> 16"
      using fs_okD(3) [OF Suc.prems(1) fs_okD(6) [OF Suc.prems(1,2)]] Suc.prems(3) by (simp add: node_wf_def word_le_nat_alt)
    then show "unat (index + 1) = Suc (unat index)" using Suc.prems(4) by (simp add: unat_u32_plus)
  qed (simp add: add.commute)
  define r16 :: u16 where "r16 = 11 + of_nat (l + 1)"
  define rl :: u32 where "rl = ucast r16"
  have "unat r16 = 12 + l" using c(4) unfolding r16_def by (simp add: unat_word_ariths unat_of_nat)
  then have rl: "unat rl = 12 + l" using c(4) by (simp add: rl_def unsigned_ucast_eq take_bit_nat_eq_self)
  then have rl': "rl = of_nat (12 + l)" by (metis of_nat_unat ucast_id)
  have fl: "unat (filled + rl) = unat filled + (12 + l)" using Suc.prems(6) c(4) rl by (subst unat_u32_plus) simp_all
  have upt: "[unat index..<unat index + Suc n] = unat index # [unat (index + 1)..<unat (index + 1) + n]"
    by (simp add: upt_conv_Cons ui)
  have step: "getdents_loop d buf count (Suc n) index filled k =
      (if count < filled + rl then Some ((filled, index), k)
       else do { p \<leftarrow> proc_write (buf + filled) (dirent k d (unat index)) (k_proc k);
                 getdents_loop d buf count n (index + 1) (filled + rl) (k\<lparr>k_proc := p\<rparr>) })"
    using c(1,2,3) c(6) [unfolded ui(2)] unfolding rl_def r16_def by simp
  show ?case
  proof (cases "count < filled + rl")
    case True
    then have "\<not> 12 + l \<le> unat count - unat filled"
      using fl Suc.prems(5) by (simp add: word_less_nat_alt word_le_nat_alt)
    then show ?thesis using True c(5) unfolding step upt by (simp add: proc_write_def)
  next
    case False
    then have le: "12 + l \<le> unat count - unat filled" "unat count - unat filled - (12 + l) = unat count - unat (filled + rl)"
      "filled + rl \<le> count"
      using fl by (simp_all add: word_less_nat_alt word_le_nat_alt)
    define rs where "rs = fit (unat count - unat (filled + rl)) (map (dirent k d) [unat (index + 1)..<unat (index + 1) + n])"
    define x where "x = dirent k d (unat index)"
    have IH: "getdents_loop d buf count n (index + 1) (filled + rl) (k\<lparr>k_proc := p\<rparr>) =
        map_option (\<lambda>q. ((filled + rl + of_nat (length (concat rs)), index + 1 + of_nat (length rs)), k\<lparr>k_proc := q\<rparr>))
          (proc_write (buf + (filled + rl)) (concat rs) p)" for p
      using Suc.IH [of "k\<lparr>k_proc := p\<rparr>" "index + 1" "filled + rl"] Suc.prems ui le(3) fl c(4)
      by (simp add: Let_def rs_def)
    have fit: "fit (unat count - unat filled) (map (dirent k d) [unat index..<unat index + Suc n]) = x # rs"
      unfolding upt using le(1,2) c(5) by (simp add: rs_def x_def)
    have lx: "of_nat (length x) = rl" using rl' c(5) by (simp add: x_def)
    have sums: "filled + of_nat (length (concat (x # rs))) = filled + rl + of_nat (length (concat rs))"
      "index + of_nat (length (x # rs)) = index + 1 + of_nat (length rs)" "buf + filled + rl = buf + (filled + rl)"
      using lx by (simp_all add: add.assoc)
    show ?thesis
      unfolding step fit Let_def sums(1,2) x_def [symmetric] using False
      by (simp only: IH concat.simps proc_write_append lx sums(3) if_False)
         (simp add: map_option_case split: option.split bind_split)
  qed
qed


text \<open>The records of a call: those of the children from the offset on, as many as fit.\<close>

definition dir_records :: "kernel \<Rightarrow> nat \<Rightarrow> nat \<Rightarrow> nat \<Rightarrow> byte list list" where
  "dir_records k i off count =
     fit count (map (dirent k (node (k_fs k) i)) [off..<unat (vn_child_count (node (k_fs k) i))])"

lemma sys_getdents_eq:
  assumes inv: "k_inv k" and o: "fd_open k (sint ebx) e i VFS_DIRECTORY" and b: "buf \<noteq> 0" "count \<noteq> 0"
  shows "sys_getdents ebx buf count k =
    (let rs = dir_records k i (unat (fd_offset e)) (unat count)
     in map_option (\<lambda>p. (of_nat (length (concat rs)), k\<lparr>k_proc := p,
            fd_table := (fd_table k)[nat (sint ebx) := e\<lparr>fd_offset := fd_offset e + of_nat (length rs)\<rparr>]\<rparr>))
          (proc_write buf (concat rs) (k_proc k)))"
proof -
  let ?d = "node (k_fs k) i" and ?off = "fd_offset e"
  note bd = fd_open_bounds [OF inv o] and ok = k_invD(2) [OF inv]
  define n where "n = unat (vn_child_count ?d) - unat ?off"
  have cc: "unat (vn_child_count ?d) \<le> 16" using fs_okD(3) [OF ok bd(2)] by (simp add: node_wf_def word_le_nat_alt)
  have "getdents_loop ?d buf count n ?off 0 k =
    (let rs = dir_records k i (unat ?off) (unat count)
     in map_option (\<lambda>p. ((of_nat (length (concat rs)), ?off + of_nat (length rs)), k\<lparr>k_proc := p\<rparr>))
          (proc_write buf (concat rs) (k_proc k)))"
  proof (cases "unat ?off \<le> unat (vn_child_count ?d)")
    case True
    then show ?thesis
      using getdents_loop_eq [OF ok bd(1) refl, of ?off n 0 count buf] cc by (simp add: n_def dir_records_def)
  next
    case False
    then show ?thesis by (simp add: n_def dir_records_def proc_write_def)
  qed
  then show ?thesis
    using b fd_vnode_open [OF inv _ o] bd(3) unfolding sys_getdents_def n_def
    by (simp add: Let_def set_fd_def array_set_def map_option_case split: option.split)
qed



lemma sys_getdents_step:
  assumes inv: "k_inv k" and w: "buf = 0 \<or> count = 0 \<or> writable buf (unat count) k"
  shows "call_step (sys_getdents ebx buf count k)"
proof (cases "buf = 0 \<or> count = 0")
  case True
  then show ?thesis using sys_fail_step [OF inv] by (auto simp: sys_getdents_def)
next
  case False
  then have b: "buf \<noteq> 0" "count \<noteq> 0" and w: "writable buf (unat count) k" using w by auto
  consider (opened) e i where "fd_open k (sint ebx) e i VFS_DIRECTORY" | (none) "fd_vnode (sint ebx) VFS_DIRECTORY k = Some None"
    using fd_vnode_eq [OF inv, of VFS_DIRECTORY "sint ebx"] by auto
  then show ?thesis
  proof cases
    case opened
    note bd = fd_open_bounds [OF inv opened] and ok = k_invD(2) [OF inv]
    define rs where "rs = dir_records k i (unat (fd_offset e)) (unat count)"
    have "length (concat rs) \<le> unat count" by (simp add: rs_def dir_records_def fit_bound)
    then obtain p where p: "proc_write buf (concat rs) (k_proc k) = Some p" using w by (fastforce simp: writable_def)
    have "fd_ok (k_fs k) (e\<lparr>fd_offset := fd_offset e + of_nat (length rs)\<rparr>)"
      using opened bd(1) by (auto simp: fd_ok_def fd_open_def)
    then have "k_inv ((k\<lparr>k_proc := p\<rparr>)\<lparr>fd_table := (fd_table (k\<lparr>k_proc := p\<rparr>))
          [nat (sint ebx) := e\<lparr>fd_offset := fd_offset e + of_nat (length rs)\<rparr>]\<rparr>)"
      using inv by (intro k_inv_set_fd) simp_all
    then show ?thesis using sys_getdents_eq [OF inv opened b] p by (simp add: call_step_def Let_def rs_def)
  next
    case none
    then show ?thesis using b sys_fail_step [OF inv] by (auto simp: sys_getdents_def)
  qed
qed

section \<open>Runs\<close>

text \<open>
  What a caller owes: paths that end and whose names fit, buffers that are mapped, no \<open>write\<close> at an offset
  above 63 (the room left in the buffer is computed as \<open>63 - offset\<close>, unsigned), no \<open>read\<close> whose end wraps
  around. \<open>execl\<close> rewrites the address space and \<open>sysinfo\<close> writes to it twice; of these it is only required
  that they do not fault.
\<close>

definition call_valid :: "cmos \<Rightarrow> trapframe \<Rightarrow> kernel \<Rightarrow> bool" where
  "call_valid hw regs k =
     (let eax = tf_eax regs; ebx = tf_ebx regs; ecx = tf_ecx regs; edx = tf_edx regs
      in if eax = SYS_write then ecx = 0 \<or> edx = 0 \<or> readable ecx (unat edx) (pr_paging (k_proc k))
                                      \<and> readable ecx (unat edx) (content_paging k)
                                      \<and> (sint ebx \<in> {1, 2} \<or> fd_pos ebx k \<le> 63)
         else if eax = SYS_read then ecx = 0 \<or> edx = 0 \<or> fd_pos ebx k + unat edx < 2 ^ 32 \<and> writable ecx (unat edx) k
         else if eax \<in> {SYS_open, SYS_mkdir, SYS_unlink, SYS_chdir} then path_arg ebx k
         else if eax = SYS_stat then path_arg ebx k \<and> (ecx = 0 \<or> writable ecx 72 k)
         else if eax = SYS_fstat then ecx = 0 \<or> writable ecx 72 k
         else if eax = SYS_getdents then ecx = 0 \<or> edx = 0 \<or> writable ecx (unat edx) k
         else if eax = SYS_clock_gettime then ebx \<noteq> 0 \<or> clock_realtime hw 0 \<noteq> None \<and> writable ecx 12 k
         else if eax = SYS_execl then k_exec ebx ecx k \<noteq> None
         else if eax = SYS_sysinfo then sys_sysinfo ebx k \<noteq> None
         else True)"

text \<open>Starting a program changes the memory of the process and nothing else of the kernel.\<close>

lemma k_exec_frame: "k_exec ebx argv k = Some (r, k') \<Longrightarrow> \<exists>p. k' = k\<lparr>k_proc := p\<rparr>"
  unfolding k_exec_def with_proc_def Let_def
  by (auto split: bind_splits if_splits option.splits prod.splits simp del: split_paired_Ex)

lemma sys_exec_step:
  assumes "k_inv k" "k_exec ebx argv k \<noteq> None"
  shows "call_step (do { (r, k) \<leftarrow> k_exec ebx argv k; Some (of_int r, k) })"
  using assms k_exec_frame [of ebx argv k] by (cases "k_exec ebx argv k") (fastforce simp: call_step_def)+

lemma sys_sysinfo_step: "k_inv k \<Longrightarrow> sys_sysinfo info k \<noteq> None \<Longrightarrow> call_step (sys_sysinfo info k)"
  by (auto simp: sys_sysinfo_def call_step_def Let_def split: if_splits bind_splits)

lemma sys_clock_step:
  assumes "k_inv k" "ebx \<noteq> 0 \<or> clock_realtime hw 0 \<noteq> None \<and> writable tp 12 k"
  shows "call_step (sys_clock_gettime hw ebx tp k)"
proof (cases "ebx = 0")
  case True
  then obtain t where "clock_realtime hw 0 = Some t" "writable tp 12 k" using assms(2) by auto
  moreover obtain p where "proc_write tp (bytes64 (of_int t) @ bytes32 0) (k_proc k) = Some p"
    using \<open>writable tp 12 k\<close> by (fastforce simp: writable_def)
  ultimately show ?thesis using True assms(1) by (simp add: sys_clock_gettime_def call_step_def)
qed (use assms(1) in \<open>simp add: sys_clock_gettime_def call_step_def\<close>)

lemma with_proc_step: "k_inv k \<Longrightarrow> \<exists>v k'. with_proc (\<lambda>p. Some (f p)) k = Some (v, k') \<and> k_inv k'"
  by (cases "f (k_proc k)") (simp add: with_proc_def)

definition handled :: "(trapframe \<times> kernel) option \<Rightarrow> bool" where
  "handled r \<longleftrightarrow> (\<exists>regs k. r = Some (regs, k) \<and> k_inv k)"

lemma return_step: "call_step r \<Longrightarrow> handled (sys_return regs r)"
  by (auto simp: call_step_def sys_return_def handled_def)

lemma handled_if: "(c \<Longrightarrow> handled a) \<Longrightarrow> (\<not> c \<Longrightarrow> handled b) \<Longrightarrow> handled (if c then a else b)"
  by simp

lemmas call_steps = sys_write_step sys_read_step sys_close_step sys_open_step sys_chdir_step sys_stat_step
  sys_fstat_step sys_getdents_step sys_clock_step sys_exec_step sys_sysinfo_step

lemma handler_step:
  assumes inv: "k_inv k" and v: "call_valid hw regs k"
  shows "handled (syscall_handler hw regs k)"
proof -
  have m: "call_step (sys_mkdir ebx k)" "call_step (sys_unlink ebx k)" if "path_arg ebx k" for ebx
    using sys_fs_step [OF inv that] mkdir_store unlink_store by (auto simp: sys_mkdir_def sys_unlink_def)
  have b: "call_step (do { (r, k) \<leftarrow> with_proc (\<lambda>p. Some (user_brk a p)) k; Some (of_int r, k) })"
    "call_step (with_proc (\<lambda>p. Some (user_sbrk a p)) k)" for a
    using with_proc_step [OF inv, of "user_brk a"] with_proc_step [OF inv, of "user_sbrk a"] by (auto simp: call_step_def)
  have c: "call_step (Some (v, k))" for v using inv by (simp add: call_step_def)
  note steps = call_steps [OF inv, THEN return_step] m [THEN return_step] b [THEN return_step] c [THEN return_step]
  have e: "handled (Some (r, k))" for r using inv by (simp add: handled_def)
  have o: "handled (case map_of stub_results n of None \<Rightarrow> sys_return regs (Some (-1, k)) | Some v \<Rightarrow> sys_return regs (Some (v, k)))" for n
    using c [THEN return_step] by (simp split: option.split)
  show ?thesis
    unfolding syscall_handler_def Let_def
    by (intro handled_if; (use v in \<open>simp add: call_valid_def Let_def steps e o\<close>)?)
qed

text \<open>A sequence of calls; the pointers of each call are checked in the state it is made in.\<close>

fun sys_run :: "cmos \<Rightarrow> trapframe list \<Rightarrow> kernel \<Rightarrow> kernel option" where
  "sys_run hw [] k = Some k"
| "sys_run hw (c # cs) k = do { (_, k) \<leftarrow> syscall_handler hw c k; sys_run hw cs k }"

fun calls_valid :: "cmos \<Rightarrow> trapframe list \<Rightarrow> kernel \<Rightarrow> bool" where
  "calls_valid hw [] k \<longleftrightarrow> True"
| "calls_valid hw (c # cs) k \<longleftrightarrow> call_valid hw c k
     \<and> (case syscall_handler hw c k of None \<Rightarrow> True | Some (_, k) \<Rightarrow> calls_valid hw cs k)"


lemma sys_run_inv: "k_inv k \<Longrightarrow> calls_valid hw cs k \<Longrightarrow> \<exists>k'. sys_run hw cs k = Some k' \<and> k_inv k'"
proof (induction cs arbitrary: k)
  case (Cons c cs)
  then have "call_valid hw c k" by simp
  then obtain r k1 where k1: "syscall_handler hw c k = Some (r, k1)" "k_inv k1"
    using handler_step [OF Cons.prems(1), of hw c] by (auto simp: handled_def)
  then show ?case using Cons.IH [OF k1(2)] Cons.prems(2) by simp
qed simp

section \<open>Properties\<close>



text \<open>
  C12: bytes written through one descriptor are read back through another descriptor open on the same file at the
  same offset: when they fit in the buffer the write takes all of them, and the read delivers exactly them
  to the buffer of the reader.
\<close>

theorem sys_write_read:
  assumes inv: "k_inv k" and w: "fd_open k (sint w) e i VFS_FILE" "sint w \<notin> {1, 2}"
    and r: "fd_open k (sint r) e' i VFS_FILE" "sint r \<noteq> sint w" "fd_offset e' = fd_offset e"
    and b: "buf \<noteq> 0" "count \<noteq> 0" "dst \<noteq> 0" and fits: "unat (fd_offset e) + unat count \<le> 63"
    and d: "virt_read buf (unat count) (content_paging k) = Some data" and c: "vn_content (node (k_fs k) i) \<noteq> None"
  shows "\<exists>k'. sys_write w buf count k = Some (count, k') \<and> k_inv k'
    \<and> sys_read r dst count k' = map_option (\<lambda>p. (count, k'\<lparr>k_proc := p,
          fd_table := (fd_table k')[nat (sint r) := e'\<lparr>fd_offset := fd_offset e + count\<rparr>]\<rparr>))
        (proc_write dst data (k_proc k'))"
proof -
  let ?off = "fd_offset e"
  note bd = fd_open_bounds [OF inv w(1)]
  have rm: "room ?off count = unat count" and off: "unat ?off \<le> 63" using fits by (simp_all add: room_def)
  note d' = d [folded rm]
  have read: "readable buf (unat count) (content_paging k)" using d by (simp add: readable_def)
  obtain x s where s: "store_ok s" "s = (fs_view k)\<lparr>fs_pmm := pg_pmm (content_paging k), fs_mem := pg_mem (content_paging k)\<rparr>"
    and x: "buffer_ok x" "sys_write w buf count k = Some (count,
        (put_fs (set_file i (Some (spliced x (unat ?off) data (unat count))) (?off + count) s) k)
           \<lparr>fd_table := (fd_table k)[nat (sint w) := e\<lparr>fd_offset := ?off + count\<rparr>]\<rparr>)"
  proof (rule sys_write_file [OF inv w off b(1,2) d'], goal_cases)
    case (1 c s)
    then show thesis using c that [of s "the c"] by (cases c) (simp_all add: rm)
  qed
  let ?k = "(put_fs (set_file i (Some (spliced x (unat ?off) data (unat count))) (?off + count) s) k)
           \<lparr>fd_table := (fd_table k)[nat (sint w) := e\<lparr>fd_offset := ?off + count\<rparr>]\<rparr>"
  have len: "length data = unat count" using virt_read_length [OF d] .
  have i: "i < used_nodes s" using bd(1) s(2) by simp
  have u: "unat (?off + count) = unat ?off + unat count" using fits by (intro unat_u32_plus) simp
  have bx: "buffer_ok (spliced x (unat ?off) data (unat count))"
    using x(1) fits len by (intro spliced_ok) (auto simp: buffer_ok_def)
  have nd: "node (k_fs ?k) i = (node (k_fs k) i)\<lparr>vn_content := Some (spliced x (unat ?off) data (unat count)), vn_size := ?off + count\<rparr>"
    using set_file_node [OF store_okD(1) [OF s(1)] bd(2)] s(2) by simp
  have k1: "k_inv (put_fs (set_file i (Some (spliced x (unat ?off) data (unat count))) (?off + count) s) k)"
    using k_inv_put_fs [OF inv] set_file_store [OF s(1) i, of "Some (spliced x (unat ?off) data (unat count))" "?off + count"]
      bx u fits s(2) by simp
  have "fd_ok (k_fs ?k) (e\<lparr>fd_offset := ?off + count\<rparr>)"
    using set_file_store(2) [OF s(1) i, of "Some (spliced x (unat ?off) data (unat count))" "?off + count"] bx u fits s(2) bd(1) w(1)
    by (auto simp: fd_ok_def fd_open_def)
  then have inv': "k_inv ?k" using k_inv_set_fd [OF k1] by simp
  have r': "fd_open ?k (sint r) e' i VFS_FILE"
    using r w(1) nd by (auto simp: fd_open_def)
  have cnt: "unat (fd_offset e') + unat count < 2 ^ 32" "unat count \<noteq> 0" using fits b(2) r(3) by (simp_all add: unat_eq_zero)
  have lt: "fd_offset e' < vn_size (node (k_fs ?k) i)"
    unfolding nd r(3) using u cnt by (simp add: word_less_nat_alt)
  have "take (unat count) (drop (unat ?off) (spliced x (unat ?off) data (unat count))) = data"
    using x(1) fits len by (simp add: spliced_def buffer_ok_def)
  moreover obtain c where c: "vn_content (node (k_fs ?k) i) = Some c" "sys_read r dst count ?k =
       (let n = min (unat count) (unat (vn_size (node (k_fs ?k) i)) - unat (fd_offset e'))
        in map_option (\<lambda>p. (of_nat n, ?k\<lparr>k_proc := p,
                fd_table := (fd_table ?k)[nat (sint r) := e'\<lparr>fd_offset := fd_offset e' + of_nat n\<rparr>]\<rparr>))
             (proc_write dst (take n (drop (unat (fd_offset e')) c)) (k_proc ?k)))"
    by (rule sys_read_file [OF inv' r' b(3,2) cnt(1) lt])
  ultimately show ?thesis
    using x(2) inv' unfolding nd r(3) by (intro exI [of _ ?k]) (simp add: u)
qed


lemma open_existing:
  assumes inv: "k_inv k" and p: "arg_string ebx k = Some (Some p)" "terminated p"
    and i: "resolve (cstr p) (k_fs k) = Some i" and fl: "flags AND O_TRUNC = 0"
  shows "sys_open ebx flags k = open_node i flags k"
proof -
  note ok = k_invD(2) [OF inv]
  have l: "vfs_lookup (Some p) (k_fs k) = Some (Some i)" using vfs_lookup_eq [OF ok p(2)] i by simp
  have "cstr p \<noteq> []" using i by (auto simp: resolve_def)
  then have n: "no_path (Some p) = Some False" using no_path_eq [OF p(2)] by simp
  have "array_get (vnodes_pool (k_fs k)) i = Some (node (k_fs k) i)"
    using get_node [OF ok] fs_okD(6) [OF ok resolve_used [OF ok i]] by simp
  then show ?thesis using p(1) l n fl by (simp add: sys_open_def)
qed

lemma fd_word: "j < 32 \<Longrightarrow> sint (of_nat j :: u32) = int j" for j :: nat
  by (simp add: signed_of_nat signed_take_bit_int_eq_self)

lemma lowest_free_None: "lowest_free k = None \<longleftrightarrow> (\<forall>l. 3 \<le> l \<and> l < 32 \<longrightarrow> fd_used (fd_table k ! l))"
  by (auto simp: lowest_free_def find_None_iff simp del: upt_rec_numeral)

text \<open>
  C13: \<open>open\<close> of an existing path takes the lowest free descriptor from 3 on, at offset 0 and with the flags given, and
  changes nothing else; \<open>close\<close> of that descriptor gives back the whole state from before. With all descriptors
  in use \<open>open\<close> fails with \<open>EMFILE\<close>.
\<close>

theorem open_close_roundtrip:
  assumes inv: "k_inv k" and p: "arg_string ebx k = Some (Some p)" "terminated p"
    and i: "resolve (cstr p) (k_fs k) = Some i" and fl: "flags AND O_TRUNC = 0"
  shows "((\<forall>l. 3 \<le> l \<and> l < 32 \<longrightarrow> fd_used (fd_table k ! l)) \<longrightarrow> sys_open ebx flags k = Some (-1, k\<lparr>errno := EMFILE\<rparr>))
    \<and> (\<forall>j. 3 \<le> j \<and> j < 32 \<and> fd_table k ! j = no_fd \<and> (\<forall>l. 3 \<le> l \<and> l < j \<longrightarrow> fd_used (fd_table k ! l)) \<longrightarrow>
         (let k' = k\<lparr>fd_table := (fd_table k)[j := \<lparr>fd_used = True, fd_node = Some i, fd_offset = 0, fd_flags = flags\<rparr>]\<rparr>
          in sys_open ebx flags k = Some (of_nat j, k') \<and> sys_close (of_nat j) k' = Some (0, k)))"
proof (intro conjI allI impI)
  note o = open_existing [OF inv p i fl]
  show "sys_open ebx flags k = Some (-1, k\<lparr>errno := EMFILE\<rparr>)" if "\<forall>l. 3 \<le> l \<and> l < 32 \<longrightarrow> fd_used (fd_table k ! l)"
    using lowest_free_None [of k] that unfolding o by (simp add: open_node_def allocate_fd_eq [OF inv] sys_fail_def)
  fix j
  assume j: "3 \<le> j \<and> j < 32 \<and> fd_table k ! j = no_fd \<and> (\<forall>l. 3 \<le> l \<and> l < j \<longrightarrow> fd_used (fd_table k ! l))"
  let ?e = "\<lparr>fd_used = True, fd_node = Some i, fd_offset = 0, fd_flags = flags\<rparr>"
  let ?k = "k\<lparr>fd_table := (fd_table k)[j := ?e]\<rparr>"
  have len: "length (fd_table k) = 32" by (rule k_invD(3) [OF inv])
  have low: "lowest_free k = Some j" using j by (simp add: lowest_free_Some no_fd_def)
  have "sys_open ebx flags k = Some (of_nat j, ?k)"
    unfolding o using low j len by (simp add: open_node_def allocate_fd_eq [OF inv] set_fd_def array_set_def)
  moreover have "(fd_table k)[j := no_fd] = fd_table k" using j by (metis list_update_id)
  then have "sys_close (of_nat j) ?k = Some (0, k)"
    using j len by (simp add: sys_close_def fd_word get_fd_def array_get_def release_fd_def set_fd_def array_set_def)
  ultimately show "let k' = ?k in sys_open ebx flags k = Some (of_nat j, k') \<and> sys_close (of_nat j) k' = Some (0, k)"
    by simp
qed

text \<open>
  C14: \<open>getdents\<close> delivers, as one block of at most \<open>count\<close> bytes, the records of the children from the offset of the
  descriptor on, as many as fit, and advances the offset by their number; the names in the records are the
  names of the directory from there on, in order.
\<close>

theorem getdents_lists:
  assumes inv: "k_inv k" and o: "fd_open k (sint ebx) e i VFS_DIRECTORY" and b: "buf \<noteq> 0" "count \<noteq> 0"
  shows "let rs = dir_records k i (unat (fd_offset e)) (unat count)
     in sys_getdents ebx buf count k =
          map_option (\<lambda>p. (of_nat (length (concat rs)), k\<lparr>k_proc := p,
              fd_table := (fd_table k)[nat (sint ebx) := e\<lparr>fd_offset := fd_offset e + of_nat (length rs)\<rparr>]\<rparr>))
            (proc_write buf (concat rs) (k_proc k))
        \<and> length (concat rs) \<le> unat count
        \<and> map (\<lambda>r. cstr (drop 11 r)) rs = map fst (take (length rs) (drop (unat (fd_offset e)) (dir_list (k_fs k) i)))"
proof -
  note bd = fd_open_bounds [OF inv o] and ok = k_invD(2) [OF inv]
  define rs where "rs = dir_records k i (unat (fd_offset e)) (unat count)"
  let ?d = "node (k_fs k) i" and ?off = "unat (fd_offset e)"
  have name: "cstr (drop 11 (dirent k ?d j)) = fst (dir_list (k_fs k) i ! j)" if jd: "j < unat (vn_child_count ?d)" for j
  proof -
    obtain c where c: "vn_children ?d ! j = Some c" "kids (k_fs k) i ! j = Some c" by (rule kidsE [OF ok bd(1) jd])
    have "drop 11 (dirent k ?d j) = cstr (vn_name (node (k_fs k) c)) @ [0]" using c(1) by (simp add: dirent_def Let_def)
    then show ?thesis
      using c(2) jd length_kids [OF ok bd(2)] by (simp add: dir_list_def entry_of_def cstr_append_terminated)
  qed
  have take: "rs = take (length rs) (map (dirent k ?d) [?off..<unat (vn_child_count ?d)])"
    unfolding rs_def dir_records_def by (rule fit_take)
  have "map (\<lambda>r. cstr (drop 11 r)) rs = map fst (take (length rs) (drop ?off (dir_list (k_fs k) i)))"
  proof (rule nth_equalityI)
    have l: "length rs \<le> unat (vn_child_count ?d) - ?off" using arg_cong [OF take, of length] by simp
    then show "length (map (\<lambda>r. cstr (drop 11 r)) rs) = length (map fst (take (length rs) (drop ?off (dir_list (k_fs k) i))))"
      using length_dir_list [OF ok bd(2)] by simp
    fix j
    assume "j < length (map (\<lambda>r. cstr (drop 11 r)) rs)"
    then have j: "j < length rs" by simp
    have "rs ! j = dirent k ?d (?off + j)" by (subst take) (use j l in simp)
    then show "map (\<lambda>r. cstr (drop 11 r)) rs ! j = map fst (take (length rs) (drop ?off (dir_list (k_fs k) i))) ! j"
      using j l name [of "?off + j"] length_dir_list [OF ok bd(2)] by simp
  qed
  moreover have "length (concat rs) \<le> unat count" unfolding rs_def dir_records_def by (rule fit_bound)
  ultimately show ?thesis using sys_getdents_eq [OF inv o b] unfolding rs_def by (simp add: Let_def)
qed

section \<open>The stack of a new program\<close>

lemma proc_write_jumps: "proc_write v bs p = Some p' \<Longrightarrow> pr_jumps p' = pr_jumps p"
  by (auto simp: proc_write_def)

lemma proc_memset_jumps: "proc_memset v c n p = Some p' \<Longrightarrow> pr_jumps p' = pr_jumps p"
  by (auto simp: proc_memset_def)

lemma push_words_eq:
  "push_words f ws p = Some (f', p') \<Longrightarrow> f' = f - 4 * of_nat (length ws) \<and> pr_jumps p' = pr_jumps p"
proof (induction ws arbitrary: f p)
  case (Cons w ws)
  then obtain q where q: "proc_write (f - 4) (bytes32 w) p = Some q" "push_words (f - 4) ws q = Some (f', p')"
    by (auto split: bind_splits)
  then show ?case using Cons.IH [OF q(2)] proc_write_jumps [OF q(1)] by simp
qed simp

lemma copy_args_bounds:
  "copy_args argv n sp ps p = Some (r, p') \<Longrightarrow> USER_STACK_VIRT \<le> sp \<Longrightarrow>
     pr_jumps p' = pr_jumps p \<and> (\<forall>sp' ps'. r = Some (sp', ps') \<longrightarrow> USER_STACK_VIRT \<le> sp'
       \<and> (\<exists>qs. ps' = ps @ qs \<and> length qs \<le> n \<and> (\<forall>q \<in> set qs. USER_STACK_VIRT \<le> q)))"
proof (induction n arbitrary: sp ps p)
  case 0
  then show ?case
    by (subst (asm) copy_args.simps) (auto simp: pr_print_def split: if_splits bind_splits)
next
  case (Suc n)
  from Suc.prems(1) consider
      (stop) "pr_jumps p' = pr_jumps p" "r = None \<or> r = Some (sp, ps)"
    | (next_arg) len q s where "\<not> sp - len < USER_STACK_VIRT" "proc_write (sp - len) s p = Some q"
        "copy_args argv n (sp - len) (ps @ [sp - len]) q = Some (r, p')"
    by (subst (asm) copy_args.simps) (auto simp: pr_print_def Let_def split: if_splits bind_splits)
  then show ?case
  proof cases
    case next_arg
    then have "pr_jumps p' = pr_jumps q \<and> (\<forall>sp' ps'. r = Some (sp', ps') \<longrightarrow> USER_STACK_VIRT \<le> sp'
       \<and> (\<exists>qs. ps' = (ps @ [sp - len]) @ qs \<and> length qs \<le> n \<and> (\<forall>q \<in> set qs. USER_STACK_VIRT \<le> q)))"
      by (intro Suc.IH) (simp_all add: not_less)
    then show ?thesis using proc_write_jumps [OF next_arg(2)] next_arg(1) by fastforce
  qed (use Suc.prems(2) in auto)
qed

text \<open>
  When the second half of \<open>k_exec\<close> returns 0 it has entered user mode exactly once, at the entry point and with a
  stack pointer two words and one word per argument below the argument strings, for at most 15 arguments whose
  strings all start inside the stack page; when it returns another result it has not entered user mode.
\<close>

theorem exec_stack_jump:
  "case exec_stack entry argv p of
     None \<Rightarrow> True
   | Some (r, p') \<Rightarrow>
       if r = 0 then \<exists>sp ps. pr_jumps p' = pr_jumps p @ [(entry, sp - 4 * of_nat (length ps + 2))]
          \<and> length ps \<le> 15 \<and> USER_STACK_VIRT \<le> sp \<and> list_all (\<lambda>q. USER_STACK_VIRT \<le> q) ps
       else pr_jumps p' = pr_jumps p"
proof (cases "exec_stack entry argv p")
  case (Some res)
  obtain r p' where res: "res = (r, p')" by (cases res)
  obtain page p1 where p1: "proc_alloc_page p = (page, p1)" by (cases "proc_alloc_page p")
  then have j1: "pr_jumps p1 = pr_jumps p" by (auto simp: proc_alloc_page_def on_paging_def split: prod.splits)
  show ?thesis
  proof (cases "page = 0")
    case True
    then show ?thesis using Some res p1 j1 by (auto simp: exec_stack_def pr_print_def)
  next
    case False
    then obtain p2 where p2: "proc_memset page 0 4096 p1 = Some p2"
      using Some p1 by (auto simp: exec_stack_def split: bind_splits)
    let ?p3 = "on_paging (map_page USER_STACK_VIRT page (PAGE_PRESENT OR PAGE_WRITE OR PAGE_USER)) p2"
    have j3: "pr_jumps ?p3 = pr_jumps p" using proc_memset_jumps [OF p2] j1 by (simp add: on_paging_def)
    let ?sp = "(USER_STACK_VIRT + PAGE_SIZE) AND NOT 0xF"
    have run: "exec_stack entry argv p = do {
        (r, p) \<leftarrow> (if argv = 0 then Some (Some (?sp, []), ?p3) else copy_args argv 15 ?sp [] ?p3);
        case r of
          None \<Rightarrow> Some (-1, p)
        | Some (str_ptr, arg_ptrs) \<Rightarrow>
            do { (user_esp, p) \<leftarrow> push_words str_ptr (0 # rev arg_ptrs @ [of_nat (length arg_ptrs)]) p;
                 Some (0, p\<lparr>pr_jumps := pr_jumps p @ [(entry, user_esp)]\<rparr>) } }"
      unfolding exec_stack_def p1 using False p2 by (simp only: prod.case if_False Let_def) simp
    then obtain a p4 where a: "(if argv = 0 then Some (Some (?sp, []), ?p3) else copy_args argv 15 ?sp [] ?p3) = Some (a, p4)"
      using Some by (cases "if argv = 0 then Some (Some (?sp, []), ?p3) else copy_args argv 15 ?sp [] ?p3") auto
    have b: "pr_jumps p4 = pr_jumps p" "\<forall>sp ps. a = Some (sp, ps) \<longrightarrow> USER_STACK_VIRT \<le> sp \<and> length ps \<le> 15
        \<and> (\<forall>q \<in> set ps. USER_STACK_VIRT \<le> q)"
      using a copy_args_bounds [of argv 15 ?sp "[]" ?p3 a p4] j3 by (auto split: if_splits)
    show ?thesis
    proof (cases a)
      case None
      then show ?thesis using run a Some res b by simp
    next
      case (Some x)
      obtain sp ps where x: "x = (sp, ps)" by (cases x)
      let ?ws = "0 # rev ps @ [of_nat (length ps)]"
      have fin: "Some res = do { (user_esp, p) \<leftarrow> push_words sp ?ws p4;
          Some (0, p\<lparr>pr_jumps := pr_jumps p @ [(entry, user_esp)]\<rparr>) }"
        using run unfolding a \<open>exec_stack entry argv p = Some res\<close> Some x by (simp del: push_words.simps)
      obtain esp p5 where e: "push_words sp ?ws p4 = Some (esp, p5)"
        using fin by (cases "push_words sp ?ws p4") (auto simp del: push_words.simps)
      have "r = 0" "pr_jumps p' = pr_jumps p @ [(entry, sp - 4 * of_nat (length ps + 2))]"
        using fin res push_words_eq [OF e] b(1) unfolding e by auto
      then show ?thesis
        using b(2) Some x \<open>exec_stack entry argv p = Some res\<close> res by (auto simp: list_all_iff)
    qed
  qed
qed simp

section \<open>A small machine\<close>

text \<open>
  One page of user memory at \<open>0x3000\<close> with the text \<open>hi/\<close>, a file system with the empty file \<open>a\<close> and two descriptors
  open on it.
\<close>

definition demo_paging :: paging where
  "demo_paging =
     \<lparr>pg_pmm = pmm_init_fallback,
      pg_mem = mem_write (store32 (store32 (\<lambda>_. 0) 0x1000 0x2003) 0x200C 0x3003) 0x3000 (clit ''hi/''),
      kernel_page_directory = 0x1000, kernel_page_tables = [], pg_cr3 = 0x1000, pg_cr0 = 0x80000000, pg_out = []\<rparr>"

definition demo_entry :: fd_entry where
  "demo_entry = \<lparr>fd_used = True, fd_node = Some 1, fd_offset = 0, fd_flags = 0\<rparr>"

definition demo_kernel :: kernel where
  "demo_kernel =
     \<lparr>k_fs = one_file,
      k_proc = \<lparr>pr_paging = demo_paging, user_heap_base = 0, user_heap_brk = 0, user_heap_initialized = False,
                pr_out = [], pr_jumps = []\<rparr>,
      k_term = \<lparr>vga_buffer = replicate 2000 0, terminal_row = 0, terminal_col = 0, terminal_color = 15, term_ports = []\<rparr>,
      fd_table = (replicate 32 no_fd)[3 := demo_entry, 4 := demo_entry], errno = 0, vnodes_addr = 0x200000, sh_addr = 0x100\<rparr>"

lemma demo_pages:
  assumes "v \<in> {0x3000, 0x3001, 0x3002, 0x3003}" "m = pg_mem demo_paging \<or> m = (pg_mem demo_paging)(0x100000 := 0)"
  shows "get_physical_address v (demo_paging\<lparr>pg_pmm := p, pg_mem := m\<rparr>) = v"
proof -
  have "load32 m 0x1000 = 0x2003" "load32 m 0x200C = 0x3003"
    using assms(2) by (auto simp: demo_paging_def load32_def store32_def clit_def)
  then show ?thesis
    using assms(1) by (auto simp: get_physical_address_def pde_present_def pde_def table_of_def entry_addr_def pd_index_def
        pt_index_def demo_paging_def)
qed

lemma one_file_store: "store_ok one_file" "used_nodes one_file = 2" "vn_flags (node one_file 1) = VFS_FILE"
proof -
  have b: "booted_fs = bare_fs\<lparr>vnodes_pool := (replicate 64 zero_node)[0 := root_node], vnodes_pool_used := 1,
      vfs_root := Some 0, current_dir := Some 0\<rparr>"
    using fs_init_eq [OF bare_fs_zero] by (simp add: booted_fs_def)
  have "vnodes_pool one_file ! i \<in> {zero_node, root_node\<lparr>vn_children := (vn_children root_node)[0 := Some 1], vn_child_count := 1\<rparr>,
      made (lit ''a'') VFS_FILE 0 (Some (replicate 4096 0)) zero_node}" if "i < 64" for i
    using that unfolding one_file_def attach_def b by (auto simp: node_def nth_list_update root_node_def zero_node_def)
  then have "vn_size (node one_file i) = 0" if "i < 64" for i
    using that unfolding node_def by (fastforce simp: root_node_def zero_node_def made_def)
  then show "store_ok one_file" using one_file_facts(1) by (simp add: store_ok_def sizes_ok_def)
  show "used_nodes one_file = 2" by (simp add: one_file_def attach_def b)
  show "vn_flags (node one_file 1) = VFS_FILE" using one_file_facts(2) by (simp add: file_at_def)
qed

lemma demo_inv: "k_inv demo_kernel"
  using one_file_store
  by (simp add: demo_kernel_def k_inv_def list_all_length nth_list_update fd_ok_def demo_entry_def no_fd_def term_ok_def)


lemma virt_read_2:
  "virt_read v 2 s = (if get_physical_address v s = 0 \<or> get_physical_address (v + 1) s = 0 then None
     else Some [pg_mem s (get_physical_address v s), pg_mem s (get_physical_address (v + 1) s)])"
  by (simp add: numeral_2_eq_2 Let_def)

lemma demo_text:
  "virt_read 0x3000 2 demo_paging = Some (lit ''hi'')" "virt_read 0x3000 2 (content_paging demo_kernel) = Some (lit ''hi'')"
proof -
  have "fst (pmm_alloc_blocks 1 pmm_init_fallback) = 0x100000" by code_simp
  then obtain pm where "pmm_alloc_z 64 pmm_init_fallback (pg_mem demo_paging) = (0x100000, pm, (pg_mem demo_paging)(0x100000 := 0))"
    by (cases "pmm_alloc_blocks 1 pmm_init_fallback") (simp add: pmm_alloc_z_def mem_memset_eq)
  then have c: "content_paging demo_kernel = demo_paging\<lparr>pg_pmm := pm, pg_mem := (pg_mem demo_paging)(0x100000 := 0)\<rparr>"
    by (simp add: content_paging_def demo_kernel_def demo_paging_def)
  have m: "pg_mem demo_paging 0x3000 = of_char CHR ''h''" "pg_mem demo_paging 0x3001 = of_char CHR ''i''"
    by (simp_all add: demo_paging_def clit_def)
  show "virt_read 0x3000 2 (content_paging demo_kernel) = Some (lit ''hi'')"
    unfolding c virt_read_2 using m by (simp add: demo_pages)
  have d: "get_physical_address v demo_paging = v" if "v \<in> {0x3000, 0x3001, 0x3002, 0x3003}" for v
    using demo_pages [OF that, of "pg_mem demo_paging" "pg_pmm demo_paging"] by simp
  show "virt_read 0x3000 2 demo_paging = Some (lit ''hi'')"
    unfolding virt_read_2 using m by (simp add: d)
qed

lemma demo_open: "fd_open demo_kernel 3 demo_entry 1 VFS_FILE" "fd_open demo_kernel 4 demo_entry 1 VFS_FILE"
  using one_file_store(3) by (simp_all add: fd_open_def demo_kernel_def demo_entry_def nth_list_update)

theorem sys_write_read_witness:
  "\<exists>k'. sys_write 3 0x3000 2 demo_kernel = Some (2, k') \<and> k_inv k'
    \<and> sys_read 4 0x3800 2 k' = map_option (\<lambda>p. (2, k'\<lparr>k_proc := p,
          fd_table := (fd_table k')[4 := demo_entry\<lparr>fd_offset := 2\<rparr>]\<rparr>)) (proc_write 0x3800 (lit ''hi'') (k_proc k'))"
  using sys_write_read [OF demo_inv, of 3 demo_entry 1 4 demo_entry "0x3000" 2 "0x3800" "lit ''hi''"] demo_open demo_text
    one_file_facts(3)
  by (simp add: demo_entry_def) (simp add: demo_kernel_def)




lemma demo_path: "arg_string 0x3002 demo_kernel = Some (Some (clit ''/''))"
proof -
  have d: "get_physical_address v demo_paging = v" if "v \<in> {0x3000, 0x3001, 0x3002, 0x3003}" for v
    using demo_pages [OF that, of "pg_mem demo_paging" "pg_pmm demo_paging"] by simp
  have m: "pg_mem demo_paging 0x3002 = of_char CHR ''/''" "pg_mem demo_paging 0x3003 = 0"
    by (simp_all add: demo_paging_def clit_def)
  have "virt_string demo_paging 0x3003 = Some [0]" using m by (subst virt_string.simps) (simp add: d)
  then have "virt_string demo_paging 0x3002 = Some (clit ''/'')" using m by (subst virt_string.simps) (simp add: d clit_def)
  then show ?thesis by (simp add: arg_string_def demo_kernel_def)
qed

text \<open>The same machine with the root directory open as descriptor 3.\<close>

definition demo_dir :: kernel where
  "demo_dir = demo_kernel\<lparr>fd_table := (replicate 32 no_fd)[3 := demo_entry\<lparr>fd_node := Some 0\<rparr>]\<rparr>"

lemma demo_dir_inv: "k_inv demo_dir" "fd_open demo_dir (sint (3 :: u32)) (demo_entry\<lparr>fd_node := Some 0\<rparr>) 0 VFS_DIRECTORY"
proof -
  have t: "store_ok one_file" "term_ok (k_term demo_kernel)" using demo_inv by (simp_all add: k_inv_def demo_kernel_def)
  have k: "k_fs demo_kernel = one_file" by (simp add: demo_kernel_def)
  show "k_inv demo_dir"
    using t one_file_store(2) k
    by (simp add: demo_dir_def k_inv_def list_all_length nth_list_update fd_ok_def demo_entry_def no_fd_def)
  have b: "booted_fs = bare_fs\<lparr>vnodes_pool := (replicate 64 zero_node)[0 := root_node], vnodes_pool_used := 1,
      vfs_root := Some 0, current_dir := Some 0\<rparr>"
    using fs_init_eq [OF bare_fs_zero] by (simp add: booted_fs_def)
  have "vn_flags (node one_file 0) = VFS_DIRECTORY"
    unfolding one_file_def attach_def b by (simp add: node_def root_node_def)
  then show "fd_open demo_dir (sint (3 :: u32)) (demo_entry\<lparr>fd_node := Some 0\<rparr>) 0 VFS_DIRECTORY"
    using k by (simp add: fd_open_def demo_dir_def demo_entry_def)
qed

theorem getdents_lists_witness:
  "let rs = dir_records demo_dir 0 0 64
   in sys_getdents 3 0x3000 64 demo_dir =
        map_option (\<lambda>p. (of_nat (length (concat rs)), demo_dir\<lparr>k_proc := p, fd_table := (fd_table demo_dir)
            [3 := demo_entry\<lparr>fd_node := Some 0, fd_offset := of_nat (length rs)\<rparr>]\<rparr>))
          (proc_write 0x3000 (concat rs) (k_proc demo_dir))
      \<and> length (concat rs) \<le> 64
      \<and> map (\<lambda>r. cstr (drop 11 r)) rs = map fst (take (length rs) (dir_list (k_fs demo_dir) 0))"
  using getdents_lists [OF demo_dir_inv, of "0x3000" 64] by (simp add: demo_entry_def)

theorem open_close_roundtrip_witness:
  "sys_open 0x3002 2 demo_dir = Some (4, demo_dir\<lparr>fd_table := (fd_table demo_dir)
       [4 := \<lparr>fd_used = True, fd_node = Some 0, fd_offset = 0, fd_flags = 2\<rparr>]\<rparr>)
   \<and> sys_close 4 (demo_dir\<lparr>fd_table := (fd_table demo_dir)
       [4 := \<lparr>fd_used = True, fd_node = Some 0, fd_offset = 0, fd_flags = 2\<rparr>]\<rparr>) = Some (0, demo_dir)"
proof -
  have r: "resolve (lit ''/'') (k_fs demo_dir) = Some 0"
    using fs_init_eq [OF bare_fs_zero] by (simp add: resolve_def demo_dir_def demo_kernel_def one_file_def attach_def booted_fs_def)
  have a: "arg_string 0x3002 demo_dir = Some (Some (clit ''/''))" using demo_path by (simp add: demo_dir_def arg_string_def)
  have "fd_used (fd_table demo_dir ! l)" if "3 \<le> l" "l < 4" for l
  proof -
    have "l = 3" using that by simp
    then show ?thesis by (simp add: demo_dir_def demo_entry_def)
  qed
  moreover have "fd_table demo_dir ! 4 = no_fd" by (simp add: demo_dir_def)
  ultimately show ?thesis
    using conjunct2 [OF open_close_roundtrip [OF demo_dir_inv(1) a, of 0 2], THEN spec, of 4] r by (simp add: Let_def)
qed

end
