(* ===== verification/Stdio.thy ===== *)
theory Stdio
  imports Cstring
begin

text \<open>
  Formatted output: \<^verbatim>\<open>src/lib/libc/stdio/sprintf.c\<close> and \<^verbatim>\<open>printf.c\<close>. A format is the object the pointer designates, with its
  terminator; running past its end is \<open>None\<close>. The variable arguments are a list of the values passed; reading an
  argument of another type, which is undefined in C, is \<open>None\<close>. The conversion functions only append characters,
  so each is the list of the characters it appends. \<open>int\<close>, \<open>long\<close>, \<open>size_t\<close> and pointers have 32 bits,
  \<open>long long\<close> has 64.

  The conversions of floating-point arguments (\<open>%f\<close>, \<open>%e\<close>, \<open>%g\<close>) are the parameter \<open>fl\<close> of \<open>vfprintf\<close>: the logic has no
  counterpart of the machine's rounding.
\<close>

section \<open>Arguments and formats\<close>

datatype va = Word u32 | Long u64 | Str "byte list" | Float int

fun va_word :: "va list \<Rightarrow> (u32 \<times> va list) option" where
  "va_word (Word w # args) = Some (w, args)"
| "va_word _ = None"

fun va_long :: "va list \<Rightarrow> (u64 \<times> va list) option" where
  "va_long (Long w # args) = Some (w, args)"
| "va_long _ = None"

fun va_str :: "va list \<Rightarrow> (byte list \<times> va list) option" where
  "va_str (Str s # args) = Some (s, args)"
| "va_str _ = None"

datatype length_mod = No_mod | Mod_l | Mod_ll | Mod_h | Mod_hh | Mod_L | Mod_z

abbreviation chr :: "char \<Rightarrow> byte" where "chr c \<equiv> of_char c"

text \<open>The first switch: the length modifier, and the format from the conversion character on.\<close>

fun length_modifier :: "byte list \<Rightarrow> (length_mod \<times> byte list) option" where
  "length_modifier [] = None"
| "length_modifier (c # f) =
     (if c = chr CHR ''l'' then
        (case f of [] \<Rightarrow> None | d # f' \<Rightarrow> Some (if d = chr CHR ''l'' then (Mod_ll, f') else (Mod_l, f)))
      else if c = chr CHR ''h'' then
        (case f of [] \<Rightarrow> None | d # f' \<Rightarrow> Some (if d = chr CHR ''h'' then (Mod_hh, f') else (Mod_h, f)))
      else if c = chr CHR ''L'' then Some (Mod_L, f)
      else if c = chr CHR ''z'' then Some (Mod_z, f)
      else Some (No_mod, c # f))"

lemma length_modifier_le: "length_modifier f = Some (m, f') \<Longrightarrow> length f' \<le> length f"
  by (cases f) (auto split: if_splits list.splits)

section \<open>Numbers\<close>

text \<open>
  \<open>_sprintf_i\<close> and its variants for the signed types; \<open>bits\<close> is the width of the type. The negation of the smallest
  value overflows.
\<close>

function sprintf_signed :: "int \<Rightarrow> byte list" where
  "sprintf_signed i =
     (let sign = (if i < 0 then [chr CHR ''-''] else []);
          i = (if i < 0 then - i else i)
      in sign @ (if i \<ge> 10 then sprintf_signed (i div 10) else []) @ [48 + of_int (i mod 10)])"
  by pat_completeness auto
termination
  by (relation "measure (\<lambda>i. nat \<bar>i\<bar>)") auto

definition sprintf_i :: "u32 \<Rightarrow> byte list option" where
  "sprintf_i w = (if sint w = - (2 ^ 31) then None else Some (sprintf_signed (sint w)))"

definition sprintf_lli :: "u64 \<Rightarrow> byte list option" where
  "sprintf_lli w = (if sint w = - (2 ^ 63) then None else Some (sprintf_signed (sint w)))"

definition sprintf_hi :: "u32 \<Rightarrow> byte list" where
  "sprintf_hi w = sprintf_signed (sint (ucast w :: u16))"

definition sprintf_hhi :: "u32 \<Rightarrow> byte list" where
  "sprintf_hhi w = sprintf_signed (sint (ucast w :: byte))"

function sprintf_u :: "u32 \<Rightarrow> byte list" where
  "sprintf_u u = (if u \<ge> 10 then sprintf_u (u div 10) else []) @ [48 + ucast (u mod 10)]"
  by pat_completeness auto
termination
  by (relation "measure unat") (auto simp: unat_div word_le_nat_alt)

function sprintf_llu :: "u64 \<Rightarrow> byte list" where
  "sprintf_llu u = (if u \<ge> 10 then sprintf_llu (u div 10) else []) @ [48 + ucast (u mod 10)]"
  by pat_completeness auto
termination
  by (relation "measure unat") (auto simp: unat_div word_le_nat_alt)

definition sprintf_zu :: "u32 \<Rightarrow> byte list" where
  "sprintf_zu u = sprintf_llu (ucast u)"

definition hex :: "byte list" where
  "hex = lit ''0123456789abcdef''"

text \<open>\<open>_sprintf_x\<close> works on a signed number: the remainder of a negative number is negative or zero.\<close>

function sprintf_x :: "int \<Rightarrow> byte list option" where
  "sprintf_x x =
     do { a \<leftarrow> (if x \<ge> 16 then sprintf_x (x div 16) else Some []);
          let r = (if x < 0 then - ((- x) mod 16) else x mod 16);
          d \<leftarrow> (if r < 0 then None else array_get hex (nat r));
          Some (a @ [d]) }"
  by pat_completeness auto
termination
  by (relation "measure nat") auto

definition sprintf_p :: "u32 \<Rightarrow> byte list option" where
  "sprintf_p p = map_option ((@) (lit ''0x'')) (sprintf_x (sint p))"

text \<open>\<open>_sprintf_s\<close>: the characters up to the terminator.\<close>

fun sprintf_s :: "byte list \<Rightarrow> byte list option" where
  "sprintf_s [] = None"
| "sprintf_s (c # s) = (if c = 0 then Some [] else map_option ((#) c) (sprintf_s s))"

section \<open>\<open>sprintf\<close>\<close>

text \<open>The second switch of \<open>vsprintf\<close>: the characters of a conversion and the arguments left.\<close>

definition sprintf_conv :: "length_mod \<Rightarrow> byte \<Rightarrow> va list \<Rightarrow> (byte list \<times> va list) option" where
  "sprintf_conv m c args =
     (if c = chr CHR ''i'' \<or> c = chr CHR ''d'' then
        (if m = Mod_ll then do { (w, args) \<leftarrow> va_long args; t \<leftarrow> sprintf_lli w; Some (t, args) }
         else do { (w, args) \<leftarrow> va_word args;
                   t \<leftarrow> (if m = Mod_hh then Some (sprintf_hhi w)
                        else if m = Mod_h then Some (sprintf_hi w)
                        else sprintf_i w);
                   Some (t, args) })
      else if c = chr CHR ''u'' then
        (if m = Mod_ll then do { (w, args) \<leftarrow> va_long args; Some (sprintf_llu w, args) }
         else do { (w, args) \<leftarrow> va_word args; Some (if m = Mod_z then sprintf_zu w else sprintf_u w, args) })
      else if c = chr CHR ''s'' then do { (s, args) \<leftarrow> va_str args; t \<leftarrow> sprintf_s s; Some (t, args) }
      else if c = chr CHR ''c'' then do { (w, args) \<leftarrow> va_word args; Some ([ucast w], args) }
      else if c = chr CHR ''x'' \<or> c = chr CHR ''X''
      then do { (w, args) \<leftarrow> va_word args; t \<leftarrow> sprintf_x (sint w); Some (t, args) }
      else if c = chr CHR ''p'' then do { (w, args) \<leftarrow> va_word args; t \<leftarrow> sprintf_p w; Some (t, args) }
      else if c = chr CHR ''%'' then Some ([chr CHR ''%''], args)
      else Some ([], args))"

text \<open>The characters \<open>vsprintf\<close> stores before the terminator.\<close>

function sprintf_text :: "byte list \<Rightarrow> va list \<Rightarrow> byte list option" where
  "sprintf_text [] args = None"
| "sprintf_text (c # f) args =
     (if c = 0 then Some []
      else if c = chr CHR ''%'' then
        (case length_modifier f of
           None \<Rightarrow> None
         | Some (m, []) \<Rightarrow> None
         | Some (m, d # f') \<Rightarrow>
             (case sprintf_conv m d args of
                None \<Rightarrow> None
              | Some (t, args) \<Rightarrow> map_option ((@) t) (sprintf_text f' args)))
      else map_option ((#) c) (sprintf_text f args))"
  by pat_completeness auto
termination
  by (relation "measure (\<lambda>(f, _). length f)") (auto dest: length_modifier_le)

text \<open>The result, and the object \<open>str\<close> points to afterwards.\<close>

definition vsprintf :: "byte list \<Rightarrow> byte list \<Rightarrow> va list \<Rightarrow> (int \<times> byte list) option" where
  "vsprintf str format args =
     do { t \<leftarrow> sprintf_text format args;
          if length t < length str then Some (int (length t), t @ 0 # drop (Suc (length t)) str) else None }"

definition sprintf :: "byte list \<Rightarrow> byte list \<Rightarrow> va list \<Rightarrow> (int \<times> byte list) option" where
  "sprintf str format args = vsprintf str format args"


section \<open>\<open>printf\<close>\<close>

text \<open>
  A stream: its buffer, the cursor as an index into it, the buffering mode, and the calls of \<open>write\<close> made so far, as
  the descriptor and the bytes.
\<close>

record FILE =
  f_fileno :: int
  f_buf :: "byte list"
  f_bptr :: nat
  f_iobf :: int
  f_writes :: "(int \<times> byte list) list"

abbreviation IOLBF :: int where "IOLBF \<equiv> 2"

definition flush :: "FILE \<Rightarrow> FILE" where
  "flush fp =
     (if f_bptr fp > 0
      then fp\<lparr>f_writes := f_writes fp @ [(f_fileno fp, take (f_bptr fp) (f_buf fp))], f_bptr := 0\<rparr> else fp)"

definition print_c :: "byte \<Rightarrow> FILE \<Rightarrow> FILE option" where
  "print_c c fp = do { b \<leftarrow> array_set (f_buf fp) (f_bptr fp) c; Some (fp\<lparr>f_buf := b, f_bptr := f_bptr fp + 1\<rparr>) }"

text \<open>A conversion appends its characters one by one.\<close>

fun print_chars :: "byte list \<Rightarrow> FILE \<Rightarrow> FILE option" where
  "print_chars [] fp = Some fp"
| "print_chars (c # cs) fp = do { fp \<leftarrow> print_c c fp; print_chars cs fp }"

text \<open>\<open>_print_i\<close>, \<open>_print_li\<close> and \<open>_print_lli\<close> have the body of their counterparts in \<^verbatim>\<open>sprintf.c\<close>.\<close>

function print_signed :: "int \<Rightarrow> byte list" where
  "print_signed i =
     (let sign = (if i < 0 then [chr CHR ''-''] else []);
          i = (if i < 0 then - i else i)
      in sign @ (if i \<ge> 10 then print_signed (i div 10) else []) @ [48 + of_int (i mod 10)])"
  by pat_completeness auto
termination
  by (relation "measure (\<lambda>i. nat \<bar>i\<bar>)") auto

definition print_i :: "u32 \<Rightarrow> byte list option" where
  "print_i w = (if sint w = - (2 ^ 31) then None else Some (print_signed (sint w)))"

definition print_lli :: "u64 \<Rightarrow> byte list option" where
  "print_lli w = (if sint w = - (2 ^ 63) then None else Some (print_signed (sint w)))"

definition print_hi :: "u32 \<Rightarrow> byte list" where
  "print_hi w = print_signed (sint (ucast w :: u16))"

definition print_hhi :: "u32 \<Rightarrow> byte list" where
  "print_hhi w = print_signed (sint (ucast w :: byte))"

function print_u :: "u32 \<Rightarrow> byte list" where
  "print_u u = (if u \<ge> 10 then print_u (u div 10) else []) @ [48 + ucast (u mod 10)]"
  by pat_completeness auto
termination
  by (relation "measure unat") (auto simp: unat_div word_le_nat_alt)

function print_llu :: "u64 \<Rightarrow> byte list" where
  "print_llu u = (if u \<ge> 10 then print_llu (u div 10) else []) @ [48 + ucast (u mod 10)]"
  by pat_completeness auto
termination
  by (relation "measure unat") (auto simp: unat_div word_le_nat_alt)

definition print_zu :: "u32 \<Rightarrow> byte list" where
  "print_zu u = print_llu (ucast u)"

text \<open>\<open>_print_x\<close> and \<open>_print_o\<close> convert to unsigned first.\<close>

function print_x :: "u32 \<Rightarrow> byte list" where
  "print_x u = (if u \<ge> 16 then print_x (u div 16) else []) @ [hex ! unat (u mod 16)]"
  by pat_completeness auto
termination
  by (relation "measure unat") (auto simp: unat_div word_le_nat_alt)

function print_o :: "u32 \<Rightarrow> byte list" where
  "print_o u = (if u \<ge> 8 then print_o (u div 8) else []) @ [48 + ucast (u mod 8)]"
  by pat_completeness auto
termination
  by (relation "measure unat") (auto simp: unat_div word_le_nat_alt)

definition print_p :: "u32 \<Rightarrow> byte list" where
  "print_p p = lit ''0x'' @ print_x p"

fun print_s :: "byte list \<Rightarrow> byte list option" where
  "print_s [] = None"
| "print_s (c # s) = (if c = 0 then Some [] else map_option ((#) c) (print_s s))"

fun va_float :: "va list \<Rightarrow> (int \<times> va list) option" where
  "va_float (Float x # args) = Some (x, args)"
| "va_float _ = None"

type_synonym float_text = "length_mod \<Rightarrow> byte \<Rightarrow> int \<Rightarrow> byte list"

text \<open>The second switch of \<open>vfprintf\<close>.\<close>

definition print_conv :: "float_text \<Rightarrow> length_mod \<Rightarrow> byte \<Rightarrow> va list \<Rightarrow> (byte list \<times> va list) option" where
  "print_conv fl m c args =
     (if c = chr CHR ''i'' \<or> c = chr CHR ''d'' then
        (if m = Mod_ll then do { (w, args) \<leftarrow> va_long args; t \<leftarrow> print_lli w; Some (t, args) }
         else do { (w, args) \<leftarrow> va_word args;
                   t \<leftarrow> (if m = Mod_hh then Some (print_hhi w)
                        else if m = Mod_h then Some (print_hi w)
                        else print_i w);
                   Some (t, args) })
      else if c = chr CHR ''u'' then
        (if m = Mod_ll then do { (w, args) \<leftarrow> va_long args; Some (print_llu w, args) }
         else do { (w, args) \<leftarrow> va_word args; Some (if m = Mod_z then print_zu w else print_u w, args) })
      else if c \<in> {chr CHR ''f'', chr CHR ''F'', chr CHR ''e'', chr CHR ''E'', chr CHR ''g'', chr CHR ''G''}
      then do { (x, args) \<leftarrow> va_float args; Some (fl m c x, args) }
      else if c = chr CHR ''s'' then do { (s, args) \<leftarrow> va_str args; t \<leftarrow> print_s s; Some (t, args) }
      else if c = chr CHR ''c'' then do { (w, args) \<leftarrow> va_word args; Some ([ucast w], args) }
      else if c = chr CHR ''x'' \<or> c = chr CHR ''X'' then do { (w, args) \<leftarrow> va_word args; Some (print_x w, args) }
      else if c = chr CHR ''o'' then do { (w, args) \<leftarrow> va_word args; Some (print_o w, args) }
      else if c = chr CHR ''p'' then do { (w, args) \<leftarrow> va_word args; Some (print_p w, args) }
      else if c = chr CHR ''%'' then Some ([chr CHR ''%''], args)
      else Some ([], args))"

function vfprintf_loop :: "float_text \<Rightarrow> byte list \<Rightarrow> va list \<Rightarrow> FILE \<Rightarrow> FILE option" where
  "vfprintf_loop fl [] args fp = None"
| "vfprintf_loop fl (c # f) args fp =
     (if c = 0 then Some fp
      else if c = chr CHR ''%'' then
        (case length_modifier f of
           None \<Rightarrow> None
         | Some (m, []) \<Rightarrow> None
         | Some (m, d # f') \<Rightarrow>
             (case print_conv fl m d args of
                None \<Rightarrow> None
              | Some (t, args) \<Rightarrow>
                  (case print_chars t fp of None \<Rightarrow> None | Some fp \<Rightarrow> vfprintf_loop fl f' args fp)))
      else
        (case print_c c fp of
           None \<Rightarrow> None
         | Some fp \<Rightarrow> vfprintf_loop fl f args (if c = 10 \<and> f_iobf fp = IOLBF then flush fp else fp)))"
  by pat_completeness auto
termination
  by (relation "measure (\<lambda>(_, f, _). length f)") (auto dest: length_modifier_le)

definition vfprintf :: "float_text \<Rightarrow> FILE \<Rightarrow> byte list \<Rightarrow> va list \<Rightarrow> (int \<times> FILE) option" where
  "vfprintf fl fp format args =
     do { fp \<leftarrow> vfprintf_loop fl format args fp;
          let fp = (if f_bptr fp > 0 then flush fp else fp);
          Some (int (f_bptr fp), fp) }"

text \<open>The stream \<open>stdout\<close> of the kernel and of user programs: 2048 bytes, line buffered.\<close>

definition stdout_stream :: FILE where
  "stdout_stream = \<lparr>f_fileno = 1, f_buf = replicate 2048 0, f_bptr = 0, f_iobf = IOLBF, f_writes = []\<rparr>"

definition fprintf :: "float_text \<Rightarrow> FILE \<Rightarrow> byte list \<Rightarrow> va list \<Rightarrow> (int \<times> FILE) option" where
  "fprintf fl fp format args = vfprintf fl fp format args"

text \<open>\<open>printf\<close> is \<open>vfprintf\<close> on the stream \<open>stdout\<close>, which is part of the state.\<close>

definition printf :: "float_text \<Rightarrow> byte list \<Rightarrow> va list \<Rightarrow> FILE \<Rightarrow> (int \<times> FILE) option" where
  "printf fl format args out = vfprintf fl out format args"

declare sprintf_signed.simps [simp del] print_signed.simps [simp del] sprintf_u.simps [simp del] print_u.simps [simp del]
  sprintf_llu.simps [simp del] print_llu.simps [simp del] print_x.simps [simp del] print_o.simps [simp del] sprintf_x.simps [simp del]

section \<open>Digits\<close>

text \<open>The number a list of digits denotes in a base.\<close>

definition digits_value :: "nat \<Rightarrow> nat list \<Rightarrow> nat" where
  "digits_value b ds = foldl (\<lambda>n d. n * b + d) 0 ds"

text \<open>The digits of a number, most significant first.\<close>

function digits :: "nat \<Rightarrow> nat \<Rightarrow> nat list" where
  "digits b n = (if 2 \<le> b \<and> b \<le> n then digits b (n div b) else []) @ [n mod b]"
  by pat_completeness auto
termination
  by (relation "measure snd") auto

declare digits.simps [simp del]

lemma digits_value_digits: "2 \<le> b \<Longrightarrow> digits_value b (digits b n) = n"
proof (induction n rule: less_induct)
  case (less n)
  show ?case
  proof (cases "b \<le> n")
    case True
    then have "n div b < n" using less.prems by simp
    then show ?thesis using less True by (subst digits.simps) (simp add: digits_value_def)
  next
    case False
    then show ?thesis by (subst digits.simps) (simp add: digits_value_def)
  qed
qed

lemma digits_bound: "2 \<le> b \<Longrightarrow> d \<in> set (digits b n) \<Longrightarrow> d < b"
proof (induction n rule: less_induct)
  case (less n)
  have "set (digits b n) = (if b \<le> n then set (digits b (n div b)) else {}) \<union> {n mod b}"
    using less.prems(1) by (subst digits.simps) auto
  then show ?case using less.IH [of "n div b"] less.prems by (auto split: if_splits)
qed

text \<open>No leading zero, except for the number zero.\<close>

lemma digits_lead: "2 \<le> b \<Longrightarrow> 0 < n \<Longrightarrow> 0 < hd (digits b n)"
proof (induction n rule: less_induct)
  case (less n)
  have ne: "digits b m \<noteq> []" for m by (subst digits.simps) simp
  show ?case
  proof (cases "b \<le> n")
    case True
    then have "n div b < n" "0 < n div b" using less.prems by (simp_all add: div_greater_zero_iff)
    then show ?thesis using less True ne by (subst digits.simps) simp
  next
    case False
    then show ?thesis using less.prems by (subst digits.simps) simp
  qed
qed


section \<open>Numbers are written in positional notation\<close>

definition dec_digit :: "nat \<Rightarrow> byte" where
  "dec_digit d = 48 + of_nat d"

lemma unat_dec_digit: "d < 10 \<Longrightarrow> unat (dec_digit d) = 48 + d"
  by (simp add: dec_digit_def unat_word_ariths unat_of_nat)

lemma ucast_of_unat: "(ucast w :: byte) = of_nat (unat w)" for w :: "'a::len word"
  by simp

lemma print_u_digits: "print_u u = map dec_digit (digits 10 (unat u))"
proof (induction u rule: print_u.induct)
  case (1 u)
  have "10 \<le> u \<longleftrightarrow> 10 \<le> unat u" by (simp add: word_le_nat_alt)
  then show ?case
    using 1 by (subst print_u.simps, subst digits.simps) (auto simp: dec_digit_def ucast_of_unat unat_div unat_mod simp del: of_nat_unat)
qed

lemma sprintf_u_eq: "sprintf_u u = print_u u"
  by (induction u rule: print_u.induct) (subst print_u.simps, subst sprintf_u.simps, simp)

lemma sprintf_llu_eq: "sprintf_llu u = print_llu u"
  by (induction u rule: print_llu.induct) (subst print_llu.simps, subst sprintf_llu.simps, simp)

lemma sprintf_signed_eq: "sprintf_signed i = print_signed i"
  by (induction i rule: print_signed.induct) (subst print_signed.simps, subst sprintf_signed.simps, simp add: Let_def)

lemma print_signed_digits:
  "print_signed i = (if i < 0 then [chr CHR ''-''] else []) @ map dec_digit (digits 10 (nat \<bar>i\<bar>))"
proof (induction i rule: print_signed.induct)
  case (1 i)
  have "\<bar>i\<bar> mod 10 = int (nat \<bar>i\<bar> mod 10)" by (simp add: zmod_int)
  then have m: "of_int (\<bar>i\<bar> mod 10) = (of_nat (nat \<bar>i\<bar> mod 10) :: byte)" by (simp only: of_int_of_nat_eq)
  have a: "(if i < 0 then - i else i) = \<bar>i\<bar>" by simp
  have d: "nat \<bar>\<bar>i\<bar> div 10\<bar> = nat \<bar>i\<bar> div 10" by (simp add: nat_div_distrib)
  have IH: "10 \<le> \<bar>i\<bar> \<Longrightarrow> print_signed (\<bar>i\<bar> div 10) = map dec_digit (digits 10 (nat \<bar>i\<bar> div 10))"
    using 1 [OF refl] d by (simp add: a)
  show ?case
    by (subst print_signed.simps, subst digits.simps) (auto simp: Let_def a IH m dec_digit_def)
qed

lemma print_x_digits: "print_x u = map ((!) hex) (digits 16 (unat u))"
proof (induction u rule: print_x.induct)
  case (1 u)
  have "16 \<le> u \<longleftrightarrow> 16 \<le> unat u" by (simp add: word_le_nat_alt)
  then show ?case using 1 by (subst print_x.simps, subst digits.simps) (auto simp: unat_div unat_mod)
qed

lemma hex_length: "length hex = 16"
  by (simp add: hex_def lit_def)

lemma sprintf_x_digits: "0 \<le> x \<Longrightarrow> sprintf_x x = Some (map ((!) hex) (digits 16 (nat x)))"
proof (induction x rule: sprintf_x.induct)
  case (1 x)
  have "array_get hex (nat (x mod 16)) = Some (hex ! (nat x mod 16))"
    using 1(2) hex_length by (simp add: array_get_def nat_mod_distrib)
  then show ?case
    using 1 by (subst sprintf_x.simps, subst digits.simps) (auto simp: nat_div_distrib Let_def)
qed

text \<open>A negative number reaches an index before the table of digits, unless it is a multiple of 16.\<close>

lemma sprintf_x_negative: "x < 0 \<Longrightarrow> sprintf_x x = (if 16 dvd x then Some [48] else None)"
proof -
  assume x: "x < 0"
  have "0 \<le> (- x) mod 16" "(- x) mod 16 = 0 \<longleftrightarrow> 16 dvd x" by (simp_all add: dvd_eq_mod_eq_0 [symmetric])
  moreover have "array_get hex 0 = Some 48" by (simp add: hex_def array_get_def lit_def)
  ultimately show ?thesis using x by (subst sprintf_x.simps) (auto simp: Let_def)
qed


section \<open>\<open>printf\<close> and \<open>sprintf\<close>\<close>

text \<open>The conversion characters of a format, in order.\<close>

function conversions :: "byte list \<Rightarrow> byte list" where
  "conversions [] = []"
| "conversions (c # f) =
     (if c = 0 then []
      else if c = chr CHR ''%'' then
        (case length_modifier f of Some (m, d # f') \<Rightarrow> d # conversions f' | _ \<Rightarrow> [])
      else conversions f)"
  by pat_completeness auto
termination
  by (relation "measure length") (auto dest: length_modifier_le)

text \<open>The conversions that only \<open>printf\<close> has, and those where the two differ on negative numbers.\<close>

definition printf_only :: "byte set" where
  "printf_only = {chr CHR ''f'', chr CHR ''F'', chr CHR ''e'', chr CHR ''E'', chr CHR ''g'', chr CHR ''G'', chr CHR ''o''}"

definition hex_conv :: "byte set" where
  "hex_conv = {chr CHR ''x'', chr CHR ''X'', chr CHR ''p''}"

definition nonneg_words :: "va list \<Rightarrow> bool" where
  "nonneg_words args \<longleftrightarrow> (\<forall>w. Word w \<in> set args \<longrightarrow> 0 \<le> sint w)"

lemma sint_nonneg: "0 \<le> sint w \<Longrightarrow> nat (sint w) = unat w" for w :: u32
proof -
  assume "0 \<le> sint w"
  moreover have b: "uint w < 2 ^ 32" using unsigned_less [where ?'a = int, of w] by simp
  moreover have "take_bit 32 (uint w) = uint w" by (rule take_bit_int_eq_self) (use b in simp_all)
  then have "sint w = uint w - 2 ^ 32 * of_bool (bit (uint w) 31)"
    by (simp add: sint_uint signed_take_bit_eq_take_bit_minus)
  ultimately have "sint w = uint w" by (cases "bit (uint w) 31") simp_all
  then show ?thesis by simp
qed

lemma hex_agree: "0 \<le> sint w \<Longrightarrow> sprintf_x (sint w) = Some (print_x w)"
  by (simp add: sprintf_x_digits print_x_digits sint_nonneg)

lemma va_args_left:
  shows "va_word args = Some (w, rest) \<longleftrightarrow> args = Word w # rest"
    and "va_long args = Some (l, rest) \<longleftrightarrow> args = Long l # rest"
    and "va_str args = Some (s, rest) \<longleftrightarrow> args = Str s # rest"
proof -
  show "va_word args = Some (w, rest) \<longleftrightarrow> args = Word w # rest" by (cases args rule: va_word.cases) auto
  show "va_long args = Some (l, rest) \<longleftrightarrow> args = Long l # rest" by (cases args rule: va_long.cases) auto
  show "va_str args = Some (s, rest) \<longleftrightarrow> args = Str s # rest" by (cases args rule: va_str.cases) auto
qed

lemma print_s_eq: "print_s s = sprintf_s s"
  by (induction s) auto

text \<open>Conversions agree outside the exceptions, and only take arguments away.\<close>

lemma conv_agree:
  assumes "sprintf_conv m c args = Some (t, rest)" "c \<notin> printf_only" "c \<in> hex_conv \<Longrightarrow> nonneg_words args"
  shows "print_conv fl m c args = Some (t, rest)" "set rest \<subseteq> set args"
proof -
  have h: "sprintf_x (sint w) = Some (print_x w)" "sprintf_p w = Some (print_p w)" if "c \<in> hex_conv" "Word w \<in> set args" for w
    using that assms(3) by (simp_all add: nonneg_words_def hex_agree sprintf_p_def print_p_def)
  note e = sprintf_u_eq sprintf_llu_eq sprintf_signed_eq print_s_eq sprintf_i_def print_i_def sprintf_lli_def print_lli_def
    sprintf_hi_def print_hi_def sprintf_hhi_def print_hhi_def sprintf_zu_def print_zu_def
  show "set rest \<subseteq> set args"
    using assms(1) by (auto simp: sprintf_conv_def va_args_left split: if_splits bind_splits)
  show "print_conv fl m c args = Some (t, rest)"
  proof (cases "c \<in> hex_conv")
    case False
    then have "print_conv fl m c args = sprintf_conv m c args"
      using assms(2) unfolding sprintf_conv_def print_conv_def e printf_only_def hex_conv_def by simp
    then show ?thesis using assms(1) by simp
  next
    case True
    then obtain w where "args = Word w # rest" using assms(1)
      by (auto simp: hex_conv_def sprintf_conv_def va_args_left split: bind_splits)
    then show ?thesis using assms(1) h [OF True, of w] True by (auto simp: hex_conv_def sprintf_conv_def print_conv_def)
  qed
qed


text \<open>The text of a stream: what has been written out and what is still in the buffer.\<close>

definition stream_text :: "FILE \<Rightarrow> byte list" where
  "stream_text fp = concat (map snd (f_writes fp)) @ take (f_bptr fp) (f_buf fp)"

definition stream_ok :: "FILE \<Rightarrow> bool" where
  "stream_ok fp \<longleftrightarrow> f_bptr fp \<le> length (f_buf fp)"

lemma flush_text: "stream_text (flush fp) = stream_text fp" "length (f_buf (flush fp)) = length (f_buf fp)"
    "f_bptr (flush fp) = 0" "f_iobf (flush fp) = f_iobf fp"
  by (simp_all add: flush_def stream_text_def)

lemma print_c_text:
  assumes "f_bptr fp < length (f_buf fp)"
  obtains fp' where "print_c c fp = Some fp'" "stream_text fp' = stream_text fp @ [c]"
    "length (f_buf fp') = length (f_buf fp)" "f_bptr fp' = f_bptr fp + 1" "f_iobf fp' = f_iobf fp"
  using assms that [of "fp\<lparr>f_buf := (f_buf fp)[f_bptr fp := c], f_bptr := f_bptr fp + 1\<rparr>"]
  by (simp add: print_c_def array_set_def stream_text_def take_Suc_conv_app_nth)

lemma print_chars_text:
  "f_bptr fp + length t \<le> length (f_buf fp) \<Longrightarrow>
     \<exists>fp'. print_chars t fp = Some fp' \<and> stream_text fp' = stream_text fp @ t
       \<and> length (f_buf fp') = length (f_buf fp) \<and> f_bptr fp' = f_bptr fp + length t \<and> f_iobf fp' = f_iobf fp"
proof (induction t arbitrary: fp)
  case (Cons c t)
  obtain fp1 where fp1: "print_c c fp = Some fp1" "stream_text fp1 = stream_text fp @ [c]"
    "length (f_buf fp1) = length (f_buf fp)" "f_bptr fp1 = f_bptr fp + 1" "f_iobf fp1 = f_iobf fp"
    using print_c_text [of fp c] Cons.prems by auto
  then show ?case using Cons.IH [of fp1] Cons.prems by auto
qed simp

lemma vfprintf_loop_text:
  "sprintf_text f args = Some t \<Longrightarrow> set (conversions f) \<inter> printf_only = {} \<Longrightarrow>
   set (conversions f) \<inter> hex_conv = {} \<or> nonneg_words args \<Longrightarrow> f_bptr fp + length t \<le> length (f_buf fp) \<Longrightarrow>
     \<exists>fp'. vfprintf_loop fl f args fp = Some fp' \<and> stream_text fp' = stream_text fp @ t"
proof (induction f args arbitrary: t fp rule: sprintf_text.induct)
  case (2 c f args)
  consider (stop) "c = 0" | (conv) "c = chr CHR ''%''" | (plain) "c \<noteq> 0" "c \<noteq> chr CHR ''%''" by blast
  then show ?case
  proof cases
    case conv
    then have nz: "c \<noteq> 0" by simp
    obtain m d f' where l: "length_modifier f = Some (m, d # f')"
      using 2(3) nz conv by (auto split: option.splits prod.splits list.splits)
    obtain u rest where u: "sprintf_conv m d args = Some (u, rest)"
      using 2(3) nz conv l by (auto split: option.splits prod.splits)
    obtain v where v: "sprintf_text f' rest = Some v" "t = u @ v"
      using 2(3) nz conv l u by (auto split: option.splits)
    have cs: "conversions (c # f) = d # conversions f'" using conv l by simp
    have a: "print_conv fl m d args = Some (u, rest)" "set rest \<subseteq> set args"
      using conv_agree(1) [OF u, of fl] conv_agree(2) [OF u] 2(4,5) cs by auto
    obtain fp1 where fp1: "print_chars u fp = Some fp1" "stream_text fp1 = stream_text fp @ u"
      "length (f_buf fp1) = length (f_buf fp)" "f_bptr fp1 = f_bptr fp + length u"
      using print_chars_text [of fp u] 2(6) v(2) by auto
    have n: "nonneg_words args \<Longrightarrow> nonneg_words rest" using a(2) by (auto simp: nonneg_words_def)
    have "\<exists>fp'. vfprintf_loop fl f' rest fp1 = Some fp' \<and> stream_text fp' = stream_text fp1 @ v"
      using 2(1) [OF nz conv l refl refl u refl v(1)] 2(4,5,6) cs n v(2) fp1(3,4) by auto
    then show ?thesis using nz conv l a(1) fp1(1,2) v(2) by auto
  next
    case plain
    then obtain v where v: "sprintf_text f args = Some v" "t = c # v" using 2(3) by auto
    obtain fp1 where fp1: "print_c c fp = Some fp1" "stream_text fp1 = stream_text fp @ [c]"
      "length (f_buf fp1) = length (f_buf fp)" "f_bptr fp1 = f_bptr fp + 1"
      using print_c_text [of fp c] 2(6) v(2) by auto
    let ?fp = "if c = 10 \<and> f_iobf fp1 = IOLBF then flush fp1 else fp1"
    have "\<exists>fp'. vfprintf_loop fl f args ?fp = Some fp' \<and> stream_text fp' = stream_text ?fp @ v"
      using 2(2) [OF plain v(1), of ?fp] 2(4,5,6) plain v(2) fp1 by (auto simp: flush_text)
    then show ?thesis using plain fp1 v(2) by (auto simp: flush_text)
  qed (use 2 in auto)
qed simp

section \<open>Properties\<close>

text \<open>
  Numbers are written so that they can be read back: the digits \<open>%u\<close> produces are decimal digits without leading
  zero whose value is the number, and those of \<open>%x\<close> are the positions in the table of hexadecimal digits
  whose value is the number read as unsigned.
\<close>

theorem print_number_roundtrip:
  "digits_value 10 (map (\<lambda>c. unat c - 48) (print_u u)) = unat u
   \<and> list_all (\<lambda>c. 48 \<le> unat c \<and> unat c \<le> 57) (print_u u) \<and> (hd (print_u u) = 48 \<longleftrightarrow> u = 0)
   \<and> (\<exists>ds. print_x u = map ((!) hex) ds \<and> list_all (\<lambda>d. d < 16) ds \<and> digits_value 16 ds = unat u)"
proof (intro conjI)
  have b: "d < 10" if "d \<in> set (digits 10 (unat u))" for d using digits_bound [of 10 d] that by simp
  have "map (\<lambda>c. unat c - 48) (print_u u) = map (\<lambda>d. d) (digits 10 (unat u))"
    unfolding print_u_digits map_map by (rule map_cong) (auto simp: unat_dec_digit dest: b)
  then show "digits_value 10 (map (\<lambda>c. unat c - 48) (print_u u)) = unat u" by (simp add: digits_value_digits)
  show "list_all (\<lambda>c. 48 \<le> unat c \<and> unat c \<le> 57) (print_u u)"
    unfolding print_u_digits using b by (force simp: list_all_iff unat_dec_digit)
  have ne: "digits 10 n \<noteq> []" for n by (subst digits.simps) simp
  have h: "hd (print_u u) = dec_digit (hd (digits 10 (unat u)))" using ne by (simp add: print_u_digits hd_map)
  have hb: "hd (digits 10 (unat u)) < 10" using b ne by simp
  show "hd (print_u u) = 48 \<longleftrightarrow> u = 0"
  proof
    assume "hd (print_u u) = 48"
    then have "hd (digits 10 (unat u)) = 0" using h unat_dec_digit [OF hb] by simp
    then show "u = 0" using digits_lead [of 10 "unat u"] by (cases "unat u = 0") (simp_all add: unat_eq_0)
  next
    assume "u = 0"
    then have "digits 10 (unat u) = [0]" by (subst digits.simps) simp
    then show "hd (print_u u) = 48" using h by (simp add: dec_digit_def)
  qed
  show "\<exists>ds. print_x u = map ((!) hex) ds \<and> list_all (\<lambda>d. d < 16) ds \<and> digits_value 16 ds = unat u"
    using digits_bound [of 16 _ "unat u"] digits_value_digits [of 16 "unat u"]
    by (intro exI [of _ "digits 16 (unat u)"]) (auto simp: print_x_digits list_all_iff)
qed

text \<open>
  C20: \<open>printf\<close> and \<open>sprintf\<close>, which are written separately, agree: for a format without the floating-point and octal
  conversions, and without negative numbers when it has \<open>%x\<close> or \<open>%p\<close>, \<open>printf\<close> hands to \<open>write\<close>, over all its calls,
  exactly the text \<open>sprintf\<close> stores, when that text fits in the buffer; its result is 0, not the number of
  characters.
\<close>

theorem printf_agrees_with_sprintf:
  assumes "sprintf_text format args = Some t" "set (conversions format) \<inter> printf_only = {}"
    "set (conversions format) \<inter> hex_conv = {} \<or> nonneg_words args" "f_bptr out = 0" "length t \<le> length (f_buf out)"
  shows "\<exists>out'. printf fl format args out = Some (0, out') \<and> f_bptr out' = 0
     \<and> concat (map snd (f_writes out')) = concat (map snd (f_writes out)) @ t"
proof -
  obtain fp where fp: "vfprintf_loop fl format args out = Some fp" "stream_text fp = stream_text out @ t"
    using vfprintf_loop_text [OF assms(1,2,3), of out fl] assms(4,5) by auto
  have "printf fl format args out = Some (0, flush fp)"
    using fp(1) by (simp add: printf_def vfprintf_def flush_def)
  then show ?thesis using fp(2) flush_text(1,3) [of fp] assms(4) by (simp add: stream_text_def)
qed

theorem printf_agrees_with_sprintf_witness:
  "\<exists>out'. printf (\<lambda>_ _ _. []) (clit ''%s: %u\<newline>'') [Str (clit ''kb''), Word 64] stdout_stream = Some (0, out') \<and> f_bptr out' = 0
     \<and> concat (map snd (f_writes out')) = lit ''kb: 64\<newline>''"
proof -
  have t: "sprintf_text (clit ''%s: %u\<newline>'') [Str (clit ''kb''), Word 64] = Some (lit ''kb: 64\<newline>'')" by code_simp
  have c: "conversions (clit ''%s: %u\<newline>'') = [chr CHR ''s'', chr CHR ''u'']" by code_simp
  show ?thesis
    using printf_agrees_with_sprintf [OF t, of stdout_stream] c
    by (simp add: printf_only_def hex_conv_def stdout_stream_def lit_def)
qed

text \<open>
  The formats of the page fault screen, such as \<open>EAX: 0x%08X\<close>, do not show the register: \<open>sprintf\<close> has no field
  width, skips the \<open>0\<close> after the percent sign and copies \<open>8X\<close>, whatever the arguments are.
\<close>

theorem sprintf_width_ignored:
  "sprintf_text (clit ''EAX: 0x%08X'') args = Some (lit ''EAX: 0x8X'')"
  by (simp add: clit_def lit_def sprintf_conv_def)

end
