(* ===== verification/Interrupts.thy ===== *)
theory Interrupts
  imports Terminal Paging Stdio
begin

text \<open>
  Segments and interrupts: the descriptor tables of \<^verbatim>\<open>src/kernel/gdt.c\<close> and \<^verbatim>\<open>src/kernel/idt.c\<close>, the programming of the
  interrupt controller and the handler of processor faults. The addresses the linker assigns (the tables, the task
  state segment, the stubs of \<^verbatim>\<open>entry.asm\<close>) are fields or arguments; the instructions that load a table are recorded
  as the value loaded. Port writes are the trace of the console.
\<close>

section \<open>The global descriptor table\<close>

record gdt_entry =
  limit_low :: u16
  base_low :: u16
  base_middle :: byte
  gdt_access :: byte
  granularity :: byte
  base_high :: byte

text \<open>The task state segment: the fields the kernel sets; the others are words it only clears.\<close>

record tss =
  tss_esp0 :: u32
  tss_ss0 :: u32
  tss_others :: "u32 list"
  tss_trap :: u16
  tss_iopb_offset :: u16

record gdt_state =
  gdt :: "gdt_entry list"
  gdt_addr :: addr
  tss_entry :: tss
  tss_addr :: addr
  gdtr :: "(u16 \<times> u32) option"
  task_loaded :: bool

definition set_gdt_gate :: "nat \<Rightarrow> u32 \<Rightarrow> u32 \<Rightarrow> byte \<Rightarrow> byte \<Rightarrow> gdt_state \<Rightarrow> gdt_state option" where
  "set_gdt_gate i base limit acc gran s =
     do { t \<leftarrow> array_set (gdt s) i
            \<lparr>limit_low = ucast (limit AND 0xFFFF), base_low = ucast (base AND 0xFFFF),
             base_middle = ucast (drop_bit 16 base AND 0xFF), gdt_access = acc,
             granularity = ucast (drop_bit 16 limit AND 0x0F) OR (gran AND 0xF0),
             base_high = ucast (drop_bit 24 base AND 0xFF)\<rparr>;
          Some (s\<lparr>gdt := t\<rparr>) }"

definition set_tss :: "nat \<Rightarrow> u32 \<Rightarrow> u32 \<Rightarrow> gdt_state \<Rightarrow> gdt_state option" where
  "set_tss i base limit s = set_gdt_gate i base limit 0x89 0x00 s"

definition tss_set_kernel_stack :: "u32 \<Rightarrow> gdt_state \<Rightarrow> gdt_state" where
  "tss_set_kernel_stack stack s = s\<lparr>tss_entry := (tss_entry s)\<lparr>tss_esp0 := stack\<rparr>\<rparr>"

text \<open>The table has six entries of 8 bytes, the task state segment 104 bytes.\<close>

definition gdt_init :: "gdt_state \<Rightarrow> gdt_state option" where
  "gdt_init s =
     do { s \<leftarrow> set_gdt_gate 0 0 0 0x00 0x00 s;
          s \<leftarrow> set_gdt_gate 1 0 0xFFFFFFFF 0x9A 0xCF s;
          s \<leftarrow> set_gdt_gate 2 0 0xFFFFFFFF 0x92 0xCF s;
          s \<leftarrow> set_gdt_gate 3 0 0xFFFFFFFF 0xFA 0xCF s;
          s \<leftarrow> set_gdt_gate 4 0 0xFFFFFFFF 0xF2 0xCF s;
          let s = s\<lparr>tss_entry := \<lparr>tss_esp0 = 0, tss_ss0 = 0x10, tss_others = replicate 23 0, tss_trap = 0,
                                   tss_iopb_offset = 104\<rparr>\<rparr>;
          s \<leftarrow> set_tss 5 (tss_addr s) 103 s;
          Some (s\<lparr>gdtr := Some (47, gdt_addr s), task_loaded := True\<rparr>) }"

section \<open>The interrupt descriptor table\<close>

record idt_entry =
  isr_low :: u16
  idt_cs :: u16
  idt_reserved :: byte
  idt_attributes :: byte
  isr_high :: u16

record idt_state =
  idt :: "idt_entry list"
  idt_addr :: addr
  idtr :: "(u16 \<times> u32) option"
  interrupts :: bool

definition set_idt_gate :: "nat \<Rightarrow> addr \<Rightarrow> byte \<Rightarrow> idt_state \<Rightarrow> idt_state option" where
  "set_idt_gate vector isr flags s =
     do { t \<leftarrow> array_set (idt s) vector
            \<lparr>isr_low = ucast (isr AND 0xFFFF), idt_cs = 0x08, idt_reserved = 0, idt_attributes = flags,
             isr_high = ucast (drop_bit 16 isr AND 0xFFFF)\<rparr>;
          Some (s\<lparr>idt := t\<rparr>) }"

text \<open>The loop \<open>for (i = i; n times; i++) set_idt_gate(i, isr_table[f i], 0x8E)\<close>.\<close>

fun set_gates :: "addr list \<Rightarrow> (nat \<Rightarrow> nat) \<Rightarrow> nat \<Rightarrow> nat \<Rightarrow> idt_state \<Rightarrow> idt_state option" where
  "set_gates isr_table f i 0 s = Some s"
| "set_gates isr_table f i (Suc n) s =
     do { isr \<leftarrow> array_get isr_table (f i); s \<leftarrow> set_idt_gate i isr 0x8E s; set_gates isr_table f (Suc i) n s }"

definition pic_remap :: "byte \<Rightarrow> byte \<Rightarrow> terminal \<Rightarrow> terminal" where
  "pic_remap offset1 offset2 t =
     fold (\<lambda>(p, x). outb p x)
       [(0x20, 0x11), (0xA0, 0x11), (0x21, offset1), (0xA1, offset2), (0x21, 0x04), (0xA1, 0x02), (0x21, 0x01),
        (0xA1, 0x01), (0x21, 0xFF), (0xA1, 0xFF)] t"

definition idt_init :: "addr list \<Rightarrow> addr \<Rightarrow> idt_state \<Rightarrow> terminal \<Rightarrow> (idt_state \<times> terminal) option" where
  "idt_init isr_table syscall_stub s t =
     do { s \<leftarrow> set_gates isr_table id 0 32 s;
          s \<leftarrow> set_gates isr_table (\<lambda>_. 0) 32 224 s;
          s \<leftarrow> set_idt_gate 0x80 syscall_stub 0xEE s;
          let s = s\<lparr>idtr := Some (2047, idt_addr s)\<rparr>;
          let t = pic_remap 0x20 0x28 t;
          Some (s\<lparr>interrupts := True\<rparr>, t) }"

section \<open>Faults\<close>

record fault_frame =
  ff_edi :: u32
  ff_esi :: u32
  ff_ebp :: u32
  ff_esp :: u32
  ff_ebx :: u32
  ff_edx :: u32
  ff_ecx :: u32
  ff_eax :: u32
  ff_trapno :: u32
  ff_err_code :: u32
  ff_eip :: u32
  ff_cs :: u32
  ff_eflags :: u32

text \<open>The loop of \<open>serial_write_dec_local\<close> that fills \<open>buf\<close>, least significant digit first; \<open>n\<close> cells are left.\<close>

fun dec_digits :: "u32 \<Rightarrow> nat \<Rightarrow> byte list" where
  "dec_digits v 0 = []"
| "dec_digits v (Suc n) = (if v > 0 then (48 + ucast (v mod 10)) # dec_digits (v div 10) n else [])"

fun serial_chars :: "byte list \<Rightarrow> terminal \<Rightarrow> terminal option" where
  "serial_chars [] t = Some t"
| "serial_chars (c # cs) t = do { t \<leftarrow> serial_write [c, 0] t; serial_chars cs t }"

definition serial_write_dec_local :: "u32 \<Rightarrow> terminal \<Rightarrow> terminal option" where
  "serial_write_dec_local v t =
     (if v = 0 then serial_write (clit ''0'') t else serial_chars (rev (dec_digits v 11)) t)"

definition fault_names :: "string list" where
  "fault_names =
     [''#DE'', ''#DB'', ''NMI'', ''#BP'', ''#OF'', ''#BR'', ''#UD'', ''#NM'', ''#DF'', ''??'', ''#TS'', ''#NP'',
      ''#SS'', ''#GP'', ''#PF'', ''??'', ''#MF'', ''#AC'', ''#MC'', ''#XF'']"

definition fault_name :: "u32 \<Rightarrow> string" where
  "fault_name trapno = (if trapno < 20 then fault_names ! unat trapno else ''??'')"

text \<open>A sequence of labels and numbers on the serial line.\<close>

fun serial_fields :: "(string \<times> u32) list \<Rightarrow> terminal \<Rightarrow> terminal option" where
  "serial_fields [] t = Some t"
| "serial_fields ((l, v) # fs) t = do { t \<leftarrow> serial_write (clit l) t; t \<leftarrow> serial_write_dec_local v t; serial_fields fs t }"

definition fault_serial :: "fault_frame \<Rightarrow> addr \<Rightarrow> addr \<Rightarrow> paging \<Rightarrow> terminal \<Rightarrow> terminal option" where
  "fault_serial r cr2 cr3 g t =
     do { t \<leftarrow> serial_fields [(''FAULT trapno='', ff_trapno r)] t;
          t \<leftarrow> serial_write (clit '' name='') t;
          t \<leftarrow> serial_write (clit (fault_name (ff_trapno r))) t;
          t \<leftarrow> serial_fields
                 [('' err='', ff_err_code r), ('' cr2='', cr2), ('' cr3='', cr3), ('' phys='', get_physical_address cr2 g),
                  ('' eip='', ff_eip r), ('' cs='', ff_cs r), ('' eflags='', ff_eflags r), ('' esp='', ff_esp r),
                  ('' ebp='', ff_ebp r), ('' eax='', ff_eax r), ('' ebx='', ff_ebx r), ('' ecx='', ff_ecx r),
                  ('' edx='', ff_edx r)] t;
          serial_write (clit ''\<newline>'') t }"

text \<open>The writes to the screen memory from cell \<open>pos\<close> on: \<open>0x1F00 | s[i]\<close> up to the terminator.\<close>

fun blue_text :: "nat \<Rightarrow> byte list \<Rightarrow> u16 list \<Rightarrow> u16 list option" where
  "blue_text pos [] b = None"
| "blue_text pos (c # cs) b =
     (if c = 0 then Some b else do { b \<leftarrow> array_set b pos (0x1F00 OR scast c); blue_text (Suc pos) cs b })"

text \<open>\<open>sprintf(reg_buf, format, value)\<close> and the loop that shows \<open>reg_buf\<close>.\<close>

definition blue_register :: "nat \<Rightarrow> string \<Rightarrow> u32 \<Rightarrow> u16 list \<Rightarrow> u16 list option" where
  "blue_register pos format v b = do { (_, reg_buf) \<leftarrow> sprintf (replicate 32 0) (clit format) [Word v]; blue_text pos reg_buf b }"

fun blue_registers :: "(nat \<times> string \<times> u32) list \<Rightarrow> u16 list \<Rightarrow> u16 list option" where
  "blue_registers [] b = Some b"
| "blue_registers ((pos, format, v) # rs) b = do { b \<leftarrow> blue_register pos format v b; blue_registers rs b }"

definition fault_registers :: "fault_frame \<Rightarrow> (nat \<times> string \<times> u32) list" where
  "fault_registers r =
     [(80 * 8 + 10, ''EAX: 0x%08X'', ff_eax r), (80 * 9 + 10, ''EBX: 0x%08X'', ff_ebx r),
      (80 * 10 + 10, ''ECX: 0x%08X'', ff_ecx r), (80 * 11 + 10, ''EDX: 0x%08X'', ff_edx r),
      (80 * 12 + 10, ''ESP: 0x%08X'', ff_esp r), (80 * 13 + 10, ''EBP: 0x%08X'', ff_ebp r),
      (80 * 14 + 10, ''ESI: 0x%08X'', ff_esi r), (80 * 15 + 10, ''EDI: 0x%08X'', ff_edi r),
      (80 * 16 + 10, ''EIP: 0x%08X'', ff_eip r), (80 * 17 + 10, ''Error Code: 0x%08X'', ff_err_code r)]"

fun blue_clear :: "nat \<Rightarrow> nat \<Rightarrow> u16 list \<Rightarrow> u16 list option" where
  "blue_clear i 0 b = Some b"
| "blue_clear i (Suc n) b = do { b \<leftarrow> array_set b i 0x1F00; blue_clear (Suc i) n b }"

definition blue_screen :: "fault_frame \<Rightarrow> u16 list \<Rightarrow> u16 list option" where
  "blue_screen r b =
     do { b \<leftarrow> blue_clear 0 (80 * 25) b;
          b \<leftarrow> blue_text (80 * 2 + 20) (clit ''MYUNIXLIKEOS - KERNEL PANIC'') b;
          b \<leftarrow> blue_text (80 * 4 + 10) (clit ''A fatal error has occurred and the system has been halted.'') b;
          b \<leftarrow> blue_text (80 * 6 + 30) (clit ''PAGE FAULT'') b;
          b \<leftarrow> blue_registers (fault_registers r) b;
          blue_text (80 * 20 + 15) (clit ''System halted. Please restart your computer.'') b }"

text \<open>The result is the console and the stream \<open>stdout\<close>; the processor then halts.\<close>

definition fault_handler ::
  "float_text \<Rightarrow> fault_frame \<Rightarrow> addr \<Rightarrow> addr \<Rightarrow> paging \<Rightarrow> terminal \<Rightarrow> FILE \<Rightarrow> (terminal \<times> FILE) option" where
  "fault_handler fl r cr2 cr3 g t out =
     do { t \<leftarrow> fault_serial r cr2 cr3 g t;
          if ff_trapno r = 14 then do { b \<leftarrow> blue_screen r (vga_buffer t); Some (t\<lparr>vga_buffer := b\<rparr>, out) }
          else do {
            (_, out) \<leftarrow> printf fl (clit ''\<newline>FAULT %s (int=0x%x) err=0x%x\<newline>'')
              [Str (clit (fault_name (ff_trapno r))), Word (ff_trapno r), Word (ff_err_code r)] out;
            (_, out) \<leftarrow> printf fl (clit ''System halted.\<newline>'') [] out;
            Some (t, out) } }"


section \<open>What the processor reads from a descriptor\<close>

definition gdt_base :: "gdt_entry \<Rightarrow> u32" where
  "gdt_base e = ucast (base_low e) OR push_bit 16 (ucast (base_middle e)) OR push_bit 24 (ucast (base_high e))"

definition gdt_limit :: "gdt_entry \<Rightarrow> u32" where
  "gdt_limit e = ucast (limit_low e) OR push_bit 16 (ucast (granularity e AND 0x0F))"

definition gdt_dpl :: "gdt_entry \<Rightarrow> nat" where
  "gdt_dpl e = unat (drop_bit 5 (gdt_access e) AND 3)"

definition gate_addr :: "idt_entry \<Rightarrow> addr" where
  "gate_addr e = ucast (isr_low e) OR push_bit 16 (ucast (isr_high e))"

definition gate_dpl :: "idt_entry \<Rightarrow> nat" where
  "gate_dpl e = unat (drop_bit 5 (idt_attributes e) AND 3)"

definition gate_present :: "idt_entry \<Rightarrow> bool" where
  "gate_present e \<longleftrightarrow> idt_attributes e AND 0x80 \<noteq> 0"

lemma low_masks: "w AND 0xFFFF = take_bit 16 w" "w AND 0xFF = take_bit 8 w" "w AND 0x0F = take_bit 4 w" for w :: u32
  by (simp_all add: take_bit_eq_mask mask_eq_exp_minus_1)

lemma byte_mask: "w AND 0x0F = take_bit 4 w" for w :: byte
  by (simp add: take_bit_eq_mask mask_eq_exp_minus_1)

lemma split_address: "ucast (ucast (w AND 0xFFFF) :: u16) OR push_bit 16 (ucast (ucast (drop_bit 16 w AND 0xFFFF) :: u16)) = w"
  for w :: u32
  unfolding low_masks by (rule bit_word_eqI) (auto simp: bit_simps)

lemma split_base:
  "ucast (ucast (w AND 0xFFFF) :: u16) OR push_bit 16 (ucast (ucast (drop_bit 16 w AND 0xFF) :: byte))
     OR push_bit 24 (ucast (ucast (drop_bit 24 w AND 0xFF) :: byte)) = w"
  for w :: u32
  unfolding low_masks
proof (rule bit_word_eqI)
  fix n
  assume "n < LENGTH(32)"
  then consider "n < 16" | "16 \<le> n" "n < 24" | "24 \<le> n" "n < 32" by fastforce
  then show "bit (ucast (ucast (take_bit 16 w) :: u16) OR push_bit 16 (ucast (ucast (take_bit 8 (drop_bit 16 w)) :: byte))
     OR push_bit 24 (ucast (ucast (take_bit 8 (drop_bit 24 w)) :: byte)) :: u32) n = bit w n"
    by cases (auto simp: bit_simps)
qed

text \<open>
  \<open>gdt_init\<close> sets up a flat memory model: code and data segments for both privilege levels with base 0 and the
  largest limit in units of pages, and a task state segment that decodes to its address and size, with the
  kernel data segment for the stack of level 0.
\<close>

theorem gdt_init_flat:
  assumes "length (gdt s) = 6"
  shows "\<exists>s'. gdt_init s = Some s' \<and> length (gdt s') = 6
     \<and> list_all (\<lambda>e. gdt_base e = 0 \<and> gdt_limit e = 0xFFFFF \<and> granularity e = 0xCF) (take 4 (drop 1 (gdt s')))
     \<and> map gdt_dpl (take 4 (drop 1 (gdt s'))) = [0, 0, 3, 3]
     \<and> gdt_base (gdt s' ! 5) = tss_addr s \<and> gdt_limit (gdt s' ! 5) = 103
     \<and> tss_ss0 (tss_entry s') = 0x10 \<and> gdtr s' = Some (47, gdt_addr s) \<and> task_loaded s'"
proof -
  obtain a0 a1 a2 a3 a4 a5 where g: "gdt s = [a0, a1, a2, a3, a4, a5]"
    using assms by (auto simp: length_Suc_conv numeral_eq_Suc)
  show ?thesis
    by (simp add: gdt_init_def set_gdt_gate_def set_tss_def array_set_def g gdt_base_def gdt_limit_def gdt_dpl_def
        split_base [simplified] Let_def)
qed


theorem gdt_init_flat_witness:
  "\<exists>s'. gdt_init \<lparr>gdt = replicate 6 \<lparr>limit_low = 0, base_low = 0, base_middle = 0, gdt_access = 0, granularity = 0, base_high = 0\<rparr>,
      gdt_addr = 0x105000, tss_entry = \<lparr>tss_esp0 = 0, tss_ss0 = 0, tss_others = [], tss_trap = 0, tss_iopb_offset = 0\<rparr>,
      tss_addr = 0x12345678, gdtr = None, task_loaded = False\<rparr> = Some s'
     \<and> gdt_base (gdt s' ! 5) = 0x12345678 \<and> map gdt_dpl (take 4 (drop 1 (gdt s'))) = [0, 0, 3, 3]"
  using gdt_init_flat [of "\<lparr>gdt = replicate 6 \<lparr>limit_low = 0, base_low = 0, base_middle = 0, gdt_access = 0, granularity = 0, base_high = 0\<rparr>,
      gdt_addr = 0x105000, tss_entry = \<lparr>tss_esp0 = 0, tss_ss0 = 0, tss_others = [], tss_trap = 0, tss_iopb_offset = 0\<rparr>,
      tss_addr = 0x12345678, gdtr = None, task_loaded = False\<rparr>"]
  by auto

section \<open>Gates\<close>

definition gate :: "addr \<Rightarrow> byte \<Rightarrow> idt_entry" where
  "gate isr flags =
     \<lparr>isr_low = ucast (isr AND 0xFFFF), idt_cs = 0x08, idt_reserved = 0, idt_attributes = flags,
      isr_high = ucast (drop_bit 16 isr AND 0xFFFF)\<rparr>"

lemma gate_addr_gate: "gate_addr (gate isr flags) = isr"
  by (simp only: gate_addr_def gate_def idt_entry.simps split_address)

lemma set_idt_gate_eq: "v < length (idt s) \<Longrightarrow> set_idt_gate v isr flags s = Some (s\<lparr>idt := (idt s)[v := gate isr flags]\<rparr>)"
  by (simp add: set_idt_gate_def array_set_def gate_def)

lemma set_gates_eq:
  "i + n \<le> length (idt s) \<Longrightarrow> (\<And>j. i \<le> j \<Longrightarrow> j < i + n \<Longrightarrow> f j < length isrs) \<Longrightarrow>
     \<exists>t. set_gates isrs f i n s = Some (s\<lparr>idt := t\<rparr>) \<and> length t = length (idt s)
       \<and> (\<forall>j < length t. t ! j = (if i \<le> j \<and> j < i + n then gate (isrs ! f j) 0x8E else idt s ! j))"
proof (induction n arbitrary: i s)
  case (Suc n)
  let ?s = "s\<lparr>idt := (idt s)[i := gate (isrs ! f i) 0x8E]\<rparr>"
  obtain t where t: "set_gates isrs f (Suc i) n ?s = Some (?s\<lparr>idt := t\<rparr>)" "length t = length (idt ?s)"
    "\<forall>j < length t. t ! j = (if Suc i \<le> j \<and> j < Suc i + n then gate (isrs ! f j) 0x8E else idt ?s ! j)"
    using Suc.IH [of "Suc i" ?s] Suc.prems by fastforce
  have "array_get isrs (f i) = Some (isrs ! f i)" using Suc.prems(2) [of i] by (simp add: array_get_def)
  then have "set_gates isrs f i (Suc n) s = Some (s\<lparr>idt := t\<rparr>)"
    using t(1) Suc.prems(1) by (simp add: set_idt_gate_eq)
  moreover have "t ! j = (if i \<le> j \<and> j < i + Suc n then gate (isrs ! f j) 0x8E else idt s ! j)" if "j < length t" for j
    using t(2,3) that by (cases "j = i") (auto simp: nth_list_update)
  ultimately show ?case using t(2) by auto
next
  case 0
  have "s = s\<lparr>idt := idt s\<rparr>" by simp
  then show ?case by (intro exI [of _ "idt s"]) auto
qed

text \<open>The gates of the table: \<open>stubs\<close> for the faults, \<open>call\<close> for the system calls.\<close>

definition gate_table :: "addr list \<Rightarrow> addr \<Rightarrow> idt_entry list \<Rightarrow> bool" where
  "gate_table stubs call t \<longleftrightarrow> (\<forall>v < 256. gate_present (t ! v) \<and> idt_cs (t ! v) = 0x08
     \<and> gate_addr (t ! v) = (if v = 0x80 then call else stubs ! (if v < 32 then v else 0))
     \<and> (gate_dpl (t ! v) = 3 \<longleftrightarrow> v = 0x80))"

lemma idt_init_state:
  assumes "length (idt s) = 256" "32 \<le> length isr_table"
  shows "\<exists>s'. idt_init isr_table stub s t = Some (s', pic_remap 0x20 0x28 t) \<and> length (idt s') = 256 \<and> interrupts s'
     \<and> gate_table isr_table stub (idt s')"
proof -
  obtain t1 where t1: "set_gates isr_table id 0 32 s = Some (s\<lparr>idt := t1\<rparr>)" "length t1 = 256"
    "\<forall>j < 256. t1 ! j = (if j < 32 then gate (isr_table ! j) 0x8E else idt s ! j)"
    using set_gates_eq [of 0 32 s id isr_table] assms by auto
  obtain t2 where t2: "set_gates isr_table (\<lambda>_. 0) 32 224 (s\<lparr>idt := t1\<rparr>) = Some (s\<lparr>idt := t2\<rparr>)" "length t2 = 256"
    "\<forall>j < 256. t2 ! j = (if 32 \<le> j then gate (isr_table ! 0) 0x8E else t1 ! j)"
  proof -
    have "0 < length isr_table" using assms(2) by linarith
    then show thesis using set_gates_eq [of 32 224 "s\<lparr>idt := t1\<rparr>" "\<lambda>_. 0" isr_table] that t1(2) by auto
  qed
  let ?s = "s\<lparr>idt := t2[0x80 := gate stub 0xEE], idtr := Some (2047, idt_addr s), interrupts := True\<rparr>"
  have "idt_init isr_table stub s t = Some (?s, pic_remap 0x20 0x28 t)"
    using t1(1) t2(1,2) by (simp add: idt_init_def set_idt_gate_eq Let_def)
  moreover have "idt ?s ! v = (if v = 0x80 then gate stub 0xEE else gate (isr_table ! (if v < 32 then v else 0)) 0x8E)" if "v < 256" for v
    using that t1(3) t2(2,3) by (auto simp: nth_list_update)
  moreover have "gate_present (gate a 0x8E)" "gate_present (gate a 0xEE)" "gate_dpl (gate a 0x8E) = 0" "gate_dpl (gate a 0xEE) = 3"
    "idt_cs (gate a f) = 0x08" for a f
    by (simp_all add: gate_present_def gate_dpl_def gate_def)
  ultimately show ?thesis using t2(2) by (intro exI [of _ ?s]) (auto simp: gate_addr_gate gate_table_def)
qed

text \<open>
  C17: after \<open>idt_init\<close> all 256 vectors have a present gate into the kernel code segment: vectors 0 to 31 lead to their
  own stub, the other ones to the stub of vector 0 and \<open>0x80\<close> to the system call stub; \<open>0x80\<close> is the only one a
  user program can raise itself.
\<close>

theorem idt_init_gates:
  assumes "length (idt s) = 256" "32 \<le> length isr_table"
  shows "\<exists>s'. idt_init isr_table stub s t = Some (s', pic_remap 0x20 0x28 t) \<and> length (idt s') = 256 \<and> interrupts s'
     \<and> (\<forall>v < 256. gate_present (idt s' ! v) \<and> idt_cs (idt s' ! v) = 0x08
          \<and> gate_addr (idt s' ! v) = (if v = 0x80 then stub else isr_table ! (if v < 32 then v else 0))
          \<and> (gate_dpl (idt s' ! v) = 3 \<longleftrightarrow> v = 0x80))"
  using idt_init_state [OF assms] unfolding gate_table_def .

theorem idt_init_gates_witness:
  "\<exists>s'. idt_init (replicate 32 0x100000) 0x200000
       \<lparr>idt = replicate 256 (gate 0 0), idt_addr = 0x106000, idtr = None, interrupts = False\<rparr>
       \<lparr>vga_buffer = [], terminal_row = 0, terminal_col = 0, terminal_color = 0, term_ports = []\<rparr>
     = Some (s', pic_remap 0x20 0x28 \<lparr>vga_buffer = [], terminal_row = 0, terminal_col = 0, terminal_color = 0, term_ports = []\<rparr>)
     \<and> gate_addr (idt s' ! 0x80) = 0x200000 \<and> gate_addr (idt s' ! 14) = 0x100000"
proof -
  let ?s = "\<lparr>idt = replicate 256 (gate 0 0), idt_addr = 0x106000, idtr = None, interrupts = False\<rparr>"
  have "length (idt ?s) = 256" by simp
  from idt_init_gates [OF this, of "replicate 32 0x100000"] show ?thesis by fastforce
qed


section \<open>The fault screen\<close>

lemma serial_write_buffer: "terminated s \<Longrightarrow> \<exists>t'. serial_write s t = Some t' \<and> vga_buffer t' = vga_buffer t"
proof (induction s arbitrary: t)
  case (Cons c s)
  then show ?case using Cons.IH [of "outb 0x3F8 c t"] by auto
qed simp

lemma clit_terminated: "terminated (clit l)"
  by (simp add: clit_def)

lemma serial_chars_buffer: "\<exists>t'. serial_chars cs t = Some t' \<and> vga_buffer t' = vga_buffer t"
proof (induction cs arbitrary: t)
  case (Cons c cs)
  obtain t1 where "serial_write [c, 0] t = Some t1" "vga_buffer t1 = vga_buffer t"
    using serial_write_buffer [of "[c, 0]" t] by auto
  then show ?case using Cons.IH [of t1] by auto
qed simp

lemma serial_dec_buffer: "\<exists>t'. serial_write_dec_local v t = Some t' \<and> vga_buffer t' = vga_buffer t"
  using serial_write_buffer [OF clit_terminated] serial_chars_buffer by (simp add: serial_write_dec_local_def)

lemma serial_fields_buffer: "\<exists>t'. serial_fields fs t = Some t' \<and> vga_buffer t' = vga_buffer t"
proof (induction fs arbitrary: t)
  case (Cons x fs)
  obtain l v where x: "x = (l, v)" by (cases x)
  obtain t1 where t1: "serial_write (clit l) t = Some t1" "vga_buffer t1 = vga_buffer t"
    using serial_write_buffer [OF clit_terminated] by blast
  obtain t2 where "serial_write_dec_local v t1 = Some t2" "vga_buffer t2 = vga_buffer t1" using serial_dec_buffer by blast
  then show ?case using Cons.IH [of t2] t1 x by auto
qed simp

lemma fault_serial_buffer: "\<exists>t'. fault_serial r cr2 cr3 g t = Some t' \<and> vga_buffer t' = vga_buffer t"
proof -
  note w = serial_write_buffer [OF clit_terminated]
  obtain t1 where t1: "serial_fields [(''FAULT trapno='', ff_trapno r)] t = Some t1" "vga_buffer t1 = vga_buffer t"
    using serial_fields_buffer by blast
  obtain t2 where t2: "serial_write (clit '' name='') t1 = Some t2" "vga_buffer t2 = vga_buffer t1" using w by blast
  obtain t3 where t3: "serial_write (clit (fault_name (ff_trapno r))) t2 = Some t3" "vga_buffer t3 = vga_buffer t2" using w by blast
  define fs where "fs = [('' err='', ff_err_code r), ('' cr2='', cr2), ('' cr3='', cr3), ('' phys='', get_physical_address cr2 g),
                  ('' eip='', ff_eip r), ('' cs='', ff_cs r), ('' eflags='', ff_eflags r), ('' esp='', ff_esp r),
                  ('' ebp='', ff_ebp r), ('' eax='', ff_eax r), ('' ebx='', ff_ebx r), ('' ecx='', ff_ecx r),
                  ('' edx='', ff_edx r)]"
  obtain t4 where t4: "serial_fields fs t3 = Some t4" "vga_buffer t4 = vga_buffer t3" using serial_fields_buffer by blast
  obtain t5 where t5: "serial_write (clit ''\<newline>'') t4 = Some t5" "vga_buffer t5 = vga_buffer t4" using w by blast
  have "fault_serial r cr2 cr3 g t = Some t5"
    unfolding fault_serial_def fs_def [symmetric] t1(1) t2(1) t3(1) t4(1) t5(1)
    using t2(1) t3(1) t4(1) t5(1) by simp
  then show ?thesis using t1 t2 t3 t4 t5 by simp
qed

lemma sprintf_text_lit:
  "list_all (\<lambda>c. of_char c \<noteq> (0 :: byte) \<and> of_char c \<noteq> chr CHR ''%'') p \<Longrightarrow>
     sprintf_text (lit p @ f) args = map_option ((@) (lit p)) (sprintf_text f args)"
  by (induction p) (auto simp: lit_def map_option_case split: option.split)

text \<open>No argument reaches the text of \<open>%08X\<close>.\<close>

definition wide_format :: "string \<Rightarrow> bool" where
  "wide_format f \<longleftrightarrow> (let n = length f - 4 in drop n f = ''%08X'' \<and> list_all (\<lambda>c. of_char c \<noteq> (0 :: byte) \<and> of_char c \<noteq> chr CHR ''%'') (take n f))"

lemma wide_text:
  assumes "wide_format f"
  shows "sprintf_text (clit f) args = Some (lit (take (length f - 4) f) @ lit ''8X'')"
proof -
  let ?p = "take (length f - 4) f"
  have p: "list_all (\<lambda>c. of_char c \<noteq> (0 :: byte) \<and> of_char c \<noteq> chr CHR ''%'') ?p"
    using assms by (simp add: wide_format_def Let_def)
  have f: "f = ?p @ ''%08X''" using assms by (metis append_take_drop_id wide_format_def)
  have c: "clit f = lit ?p @ clit ''%08X''" by (subst f) (simp add: clit_def lit_def)
  show ?thesis
    unfolding c sprintf_text_lit [OF p] by (simp add: clit_def lit_def sprintf_conv_def)
qed

lemma blue_registers_const:
  "list_all (\<lambda>(pos, f, v). wide_format f) rs \<Longrightarrow> blue_registers rs b = blue_registers (map (\<lambda>(pos, f, v). (pos, f, 0)) rs) b"
  by (induction rs b rule: blue_registers.induct)
     (auto simp: blue_register_def sprintf_def vsprintf_def wide_text split: bind_split)

lemma blue_text_ok:
  "terminated s \<Longrightarrow> pos + length (cstr s) \<le> length b \<Longrightarrow> \<exists>b'. blue_text pos s b = Some b' \<and> length b' = length b"
proof (induction s arbitrary: pos b)
  case (Cons c s)
  then show ?case using Cons.IH [of "Suc pos" "b[pos := 0x1F00 OR scast c]"] by (cases "c = 0") (auto simp: array_set_def)
qed simp

lemma blue_clear_ok: "i + n \<le> length b \<Longrightarrow> \<exists>b'. blue_clear i n b = Some b' \<and> length b' = length b"
proof (induction n arbitrary: i b)
  case (Suc n)
  then show ?case using Suc.IH [of "Suc i" "b[i := 0x1F00]"] by (auto simp: array_set_def)
qed simp

lemma blue_register_ok:
  assumes "wide_format f" "length f < 32" "pos + 32 \<le> length b"
  shows "\<exists>b'. blue_register pos f v b = Some b' \<and> length b' = length b"
proof -
  define t where "t = lit (take (length f - 4) f) @ lit ''8X''"
  have w: "sprintf_text (clit f) args = Some t" for args unfolding t_def by (rule wide_text [OF assms(1)])
  have l: "length t < 32" using assms(2) by (simp add: t_def lit_def)
  have c: "length (cstr (x @ 0 # u)) \<le> length x" for x u by (induction x) auto
  let ?s = "t @ 0 # drop (Suc (length t)) (replicate 32 0)"
  have "pos + length (cstr ?s) \<le> length b" using l c [of t "drop (Suc (length t)) (replicate 32 0)"] assms(3) by linarith
  then obtain b' where "blue_text pos ?s b = Some b'" "length b' = length b" using blue_text_ok [of ?s pos b] by auto
  then show ?thesis using l w by (simp add: blue_register_def sprintf_def vsprintf_def)
qed

lemma blue_registers_ok:
  "list_all (\<lambda>(pos, f, v). wide_format f \<and> length f < 32 \<and> pos + 32 \<le> length b) rs \<Longrightarrow>
     \<exists>b'. blue_registers rs b = Some b' \<and> length b' = length b"
proof (induction rs arbitrary: b)
  case (Cons x rs)
  obtain pos f v where x: "x = (pos, f, v)" by (cases x)
  then obtain b1 where b1: "blue_register pos f v b = Some b1" "length b1 = length b"
    using blue_register_ok [of f pos b v] Cons.prems by auto
  then show ?case using Cons.IH [of b1] Cons.prems x by auto
qed simp

lemma blue_screen_ok:
  assumes "length b = 2000"
  shows "\<exists>b'. blue_screen r b = Some b'"
proof -
  obtain b1 where b1: "blue_clear 0 (80 * 25) b = Some b1" "length b1 = 2000" using blue_clear_ok [of 0 "80 * 25" b] assms by auto
  have t: "\<exists>b'. blue_text pos (clit l) c = Some b' \<and> length b' = 2000" if "length c = 2000" "pos + length l \<le> 2000" for pos l c
    using blue_text_ok [OF clit_terminated [of l], of pos c] that cstr_length [of "lit l"] terminated_length [OF clit_terminated [of l]]
    by (simp add: clit_def lit_def)
  obtain b2 where b2: "blue_text (80 * 2 + 20) (clit ''MYUNIXLIKEOS - KERNEL PANIC'') b1 = Some b2" "length b2 = 2000"
    using t [OF b1(2), of "80 * 2 + 20" "''MYUNIXLIKEOS - KERNEL PANIC''"] by auto
  obtain b3 where b3: "blue_text (80 * 4 + 10) (clit ''A fatal error has occurred and the system has been halted.'') b2 = Some b3" "length b3 = 2000"
    using t [OF b2(2), of "80 * 4 + 10" "''A fatal error has occurred and the system has been halted.''"] by auto
  obtain b4 where b4: "blue_text (80 * 6 + 30) (clit ''PAGE FAULT'') b3 = Some b4" "length b4 = 2000"
    using t [OF b3(2), of "80 * 6 + 30" "''PAGE FAULT''"] by auto
  have "list_all (\<lambda>(pos, f, v). wide_format f \<and> length f < 32 \<and> pos + 32 \<le> length b4) (fault_registers r)"
    using b4(2) by (simp add: fault_registers_def wide_format_def)
  then obtain b5 where b5: "blue_registers (fault_registers r) b4 = Some b5" "length b5 = 2000"
    using blue_registers_ok [of b4 "fault_registers r"] b4(2) by auto
  obtain b6 where b6: "blue_text (80 * 20 + 15) (clit ''System halted. Please restart your computer.'') b5 = Some b6"
    using t [OF b5(2), of "80 * 20 + 15" "''System halted. Please restart your computer.''"] by auto
  show ?thesis using b1(1) b2(1) b3(1) b4(1) b5(1) b6 unfolding blue_screen_def by simp
qed

text \<open>
  The screen of a page fault is written and is the same for all contents of the registers: none of the ten values it
  means to show appears on it.
\<close>

theorem fault_screen_constant:
  assumes "ff_trapno r = 14" "ff_trapno r' = 14" "length (vga_buffer t) = 2000"
  shows "\<exists>t1 t2. fault_handler fl r cr2 cr3 g t out = Some (t1, out) \<and> fault_handler fl r' cr2' cr3' g' t out = Some (t2, out)
       \<and> vga_buffer t1 = vga_buffer t2"
proof -
  have w: "list_all (\<lambda>(pos, f, v). wide_format f) (fault_registers r)" for r
    by (simp add: fault_registers_def wide_format_def)
  have "map (\<lambda>(pos, f, v). (pos, f, 0 :: u32)) (fault_registers r) = map (\<lambda>(pos, f, v). (pos, f, 0)) (fault_registers r')"
    by (simp add: fault_registers_def)
  then have "blue_registers (fault_registers r) b = blue_registers (fault_registers r') b" for b
    using blue_registers_const [OF w [of r]] blue_registers_const [OF w [of r']] by metis
  then have b: "blue_screen r b = blue_screen r' b" for b by (simp add: blue_screen_def)
  obtain b' where b': "blue_screen r' (vga_buffer t) = Some b'" using blue_screen_ok [OF assms(3)] by blast
  obtain t1 where t1: "fault_serial r cr2 cr3 g t = Some t1" "vga_buffer t1 = vga_buffer t" using fault_serial_buffer by blast
  obtain t2 where t2: "fault_serial r' cr2' cr3' g' t = Some t2" "vga_buffer t2 = vga_buffer t" using fault_serial_buffer by blast
  show ?thesis using assms t1 t2 b b' by (simp add: fault_handler_def)
qed

theorem fault_screen_constant_witness:
  "\<exists>t1 t2.
     fault_handler (\<lambda>_ _ _. []) \<lparr>ff_edi = 0, ff_esi = 0, ff_ebp = 0, ff_esp = 0, ff_ebx = 0, ff_edx = 0, ff_ecx = 0,
         ff_eax = 0xDEADBEEF, ff_trapno = 14, ff_err_code = 2, ff_eip = 0x100000, ff_cs = 8, ff_eflags = 2\<rparr> 0 0 boot_paging
         \<lparr>vga_buffer = replicate 2000 0, terminal_row = 0, terminal_col = 0, terminal_color = 0, term_ports = []\<rparr> stdout_stream
       = Some (t1, stdout_stream)
   \<and> fault_handler (\<lambda>_ _ _. []) \<lparr>ff_edi = 0, ff_esi = 0, ff_ebp = 0, ff_esp = 0, ff_ebx = 0, ff_edx = 0, ff_ecx = 0,
         ff_eax = 0, ff_trapno = 14, ff_err_code = 0, ff_eip = 0x200000, ff_cs = 8, ff_eflags = 2\<rparr> 4 0 boot_paging
         \<lparr>vga_buffer = replicate 2000 0, terminal_row = 0, terminal_col = 0, terminal_color = 0, term_ports = []\<rparr> stdout_stream
       = Some (t2, stdout_stream)
   \<and> vga_buffer t1 = vga_buffer t2"
  by (rule fault_screen_constant) simp_all

section \<open>Decimal numbers on the serial line\<close>

lemma dec_digits_eq: "0 < v \<Longrightarrow> unat v < 10 ^ n \<Longrightarrow> rev (dec_digits v n) = map dec_digit (digits 10 (unat v))"
proof (induction n arbitrary: v)
  case 0
  then show ?case by (simp add: word_less_nat_alt)
next
  case (Suc n)
  have d: "unat (v div 10) = unat v div 10" by (simp add: unat_div)
  show ?case
  proof (cases "10 \<le> unat v")
    case True
    then have "0 < v div 10" using d by (simp add: word_less_nat_alt div_greater_zero_iff)
    moreover have "unat (v div 10) < 10 ^ n" using Suc.prems(2) d by simp
    ultimately have "rev (dec_digits (v div 10) n) = map dec_digit (digits 10 (unat v div 10))" using Suc.IH d by metis
    then show ?thesis
      using True Suc.prems(1) by (subst digits.simps) (simp add: dec_digit_def ucast_of_unat unat_mod del: of_nat_unat)
  next
    case False
    then have "v div 10 = 0" using d by (simp add: unat_eq_0 [symmetric])
    then have "dec_digits (v div 10) n = []" by (cases n) simp_all
    then show ?thesis
      using False Suc.prems(1) by (subst digits.simps) (simp add: dec_digit_def ucast_of_unat unat_mod del: of_nat_unat)
  qed
qed

text \<open>The serial line gets the digits that \<open>%u\<close> writes: eleven cells are enough for every 32-bit number.\<close>

lemma serial_dec_eq: "serial_write_dec_local v t = serial_chars (print_u v) t"
proof (cases "v = 0")
  case True
  have "digits 10 (unat v) = [0]" using True by (subst digits.simps) simp
  then show ?thesis using True by (simp add: serial_write_dec_local_def print_u_digits dec_digit_def clit_def lit_def)
next
  case False
  have "unat v < 10 ^ 11" using unat_u32_bound [of v] by simp
  then show ?thesis
    using False dec_digits_eq [of v 11] by (simp add: serial_write_dec_local_def print_u_digits word_neq_0_conv [symmetric])
qed

end
