(* ===== verification/Unistd.thy ===== *)
theory Unistd
  imports Syscall
begin

text \<open>
  The C library on top of the system calls: the wrappers of \<^verbatim>\<open>src/lib/libc/unistd\<close>, \<^verbatim>\<open>src/lib/libc/fcntl\<close> and
  \<^verbatim>\<open>src/kernel/sys\<close>, the commands \<open>touch\<close> and \<open>mkdir\<close> that only call one of them, and the messages of \<open>strerror\<close>. A wrapper
  loads the registers, raises interrupt \<open>0x80\<close> and returns what the handler leaves in \<open>eax\<close>.
\<close>

section \<open>The trap\<close>

definition syscall :: "cmos \<Rightarrow> u32 \<Rightarrow> u32 \<Rightarrow> u32 \<Rightarrow> u32 \<Rightarrow> kernel \<Rightarrow> sys_result" where
  "syscall hw num arg1 arg2 arg3 k =
     map_option (\<lambda>(regs, k). (tf_eax regs, k))
       (syscall_handler hw \<lparr>tf_ebx = arg1, tf_ecx = arg2, tf_edx = arg3, tf_eax = num, tf_eip = 0, tf_cs = 0x1B\<rparr> k)"

section \<open>Wrappers\<close>

definition brk :: "cmos \<Rightarrow> addr \<Rightarrow> kernel \<Rightarrow> sys_result" where "brk hw a = syscall hw SYS_brk a 0 0"
definition sbrk :: "cmos \<Rightarrow> u32 \<Rightarrow> kernel \<Rightarrow> sys_result" where "sbrk hw n = syscall hw SYS_sbrk n 0 0"
definition chdir :: "cmos \<Rightarrow> addr \<Rightarrow> kernel \<Rightarrow> sys_result" where "chdir hw path = syscall hw SYS_chdir path 0 0"
definition close :: "cmos \<Rightarrow> u32 \<Rightarrow> kernel \<Rightarrow> sys_result" where "close hw fd = syscall hw SYS_close fd 0 0"
definition fork :: "cmos \<Rightarrow> kernel \<Rightarrow> sys_result" where "fork hw = syscall hw 0x25 0 0 0"
definition wait :: "cmos \<Rightarrow> addr \<Rightarrow> kernel \<Rightarrow> sys_result" where "wait hw status = syscall hw 0x2E status 0 0"
definition fstat :: "cmos \<Rightarrow> u32 \<Rightarrow> addr \<Rightarrow> kernel \<Rightarrow> sys_result" where "fstat hw fd buf = syscall hw SYS_fstat fd buf 0"
definition stat :: "cmos \<Rightarrow> addr \<Rightarrow> addr \<Rightarrow> kernel \<Rightarrow> sys_result" where "stat hw path buf = syscall hw SYS_stat path buf 0"
definition getdents :: "cmos \<Rightarrow> u32 \<Rightarrow> addr \<Rightarrow> u32 \<Rightarrow> kernel \<Rightarrow> sys_result" where
  "getdents hw fd dirp count = syscall hw SYS_getdents fd dirp count"
definition read :: "cmos \<Rightarrow> u32 \<Rightarrow> addr \<Rightarrow> u32 \<Rightarrow> kernel \<Rightarrow> sys_result" where
  "read hw fd buf n = syscall hw SYS_read fd buf n"
definition fd_write :: "cmos \<Rightarrow> u32 \<Rightarrow> addr \<Rightarrow> u32 \<Rightarrow> kernel \<Rightarrow> sys_result" where
  "fd_write hw fd buf n = syscall hw SYS_write fd buf n"
definition sysinfo :: "cmos \<Rightarrow> addr \<Rightarrow> kernel \<Rightarrow> sys_result" where "sysinfo hw info = syscall hw SYS_sysinfo info 0 0"
definition unlink :: "cmos \<Rightarrow> addr \<Rightarrow> kernel \<Rightarrow> sys_result" where "unlink hw path = syscall hw SYS_unlink path 0 0"
definition mkdir :: "cmos \<Rightarrow> addr \<Rightarrow> u32 \<Rightarrow> kernel \<Rightarrow> sys_result" where "mkdir hw path mode = syscall hw SYS_mkdir path mode 0"

text \<open>\<open>open\<close> reads the third argument only with \<open>O_CREAT\<close>.\<close>

definition open_file :: "cmos \<Rightarrow> addr \<Rightarrow> u32 \<Rightarrow> u32 option \<Rightarrow> kernel \<Rightarrow> sys_result" where
  "open_file hw path oflag arg k =
     do { mode \<leftarrow> (if oflag AND O_CREAT \<noteq> 0 then arg else Some 0); syscall hw SYS_open path oflag mode k }"

definition creat :: "cmos \<Rightarrow> addr \<Rightarrow> u32 \<Rightarrow> kernel \<Rightarrow> sys_result" where
  "creat hw path mode = syscall hw SYS_open path mode O_CREAT"

text \<open>
  \<open>execl\<close>: at most 15 pointers before the first \<open>NULL\<close> go to the local array \<open>args\<close>, which lies at \<open>args_addr\<close> on the stack of
  the caller.
\<close>

fun collect_args :: "addr list \<Rightarrow> nat \<Rightarrow> addr list option" where
  "collect_args [] n = None"
| "collect_args (a # as) n = (if a = 0 \<or> n = 0 then Some [] else map_option ((#) a) (collect_args as (n - 1)))"

definition execl :: "cmos \<Rightarrow> addr \<Rightarrow> addr \<Rightarrow> addr list \<Rightarrow> kernel \<Rightarrow> sys_result" where
  "execl hw args_addr path ap k =
     do { as \<leftarrow> collect_args ap 15;
          p \<leftarrow> proc_write args_addr (concat (map bytes32 (as @ [0]))) (k_proc k);
          syscall hw SYS_execl path args_addr 0 (k\<lparr>k_proc := p\<rparr>) }"

text \<open>\<open>time\<close>: the local \<open>struct timespec\<close> lies at \<open>ret_addr\<close>; the result is its first field.\<close>

definition time :: "cmos \<Rightarrow> addr \<Rightarrow> addr \<Rightarrow> kernel \<Rightarrow> (byte list \<times> kernel) option" where
  "time hw ret_addr t k =
     do { (_, k) \<leftarrow> syscall hw SYS_clock_gettime 0 ret_addr 0 k;
          tv_sec \<leftarrow> virt_read ret_addr 8 (pr_paging (k_proc k));
          if t = 0 then Some (tv_sec, k)
          else do { p \<leftarrow> proc_write t tv_sec (k_proc k); Some (tv_sec, k\<lparr>k_proc := p\<rparr>) } }"

text \<open>The commands \<open>touch\<close> and \<open>mkdir\<close> of the shell; \<open>argv\<close> is the list of pointers.\<close>

definition cmd_touch :: "cmos \<Rightarrow> addr list \<Rightarrow> kernel \<Rightarrow> sys_result" where
  "cmd_touch hw argv k = do { a \<leftarrow> array_get argv 1; creat hw a 0 k }"

definition cmd_mkdir :: "cmos \<Rightarrow> addr list \<Rightarrow> kernel \<Rightarrow> sys_result" where
  "cmd_mkdir hw argv k =
     (if length argv < 2
      then do { a \<leftarrow> array_get argv 0;
                Some (-1, k\<lparr>k_proc := pr_print ''Usage: %s directory_name ...\<newline>'' [a] (k_proc k)\<rparr>) }
      else do { a \<leftarrow> array_get argv 1; mkdir hw a 1 k })"

definition error_messages :: "(int \<times> string) list" where
  "error_messages =
     [(1, ''Operation not permitted''), (2, ''No such file or directory''), (3, ''No such process''),
      (4, ''Interrupted system call''), (5, ''I/O error''), (6, ''No such device or address''),
      (7, ''Argument list too long''), (8, ''Exec format error''), (9, ''Bad file number''), (10, ''No child processes''),
      (11, ''Try again''), (12, ''Out of memory''), (13, ''Permission denied''), (14, ''Bad address''),
      (15, ''Block device required''), (16, ''Device or resource busy''), (17, ''File exists''), (18, ''Cross-device link''),
      (19, ''No such device''), (20, ''Not a directory''), (21, ''Is a directory''), (22, ''Invalid argument''),
      (23, ''File table overflow''), (24, ''Too many open files''), (25, ''Not a typewriter''), (26, ''Text file busy''),
      (27, ''File too large''), (28, ''No space left on device''), (29, ''Illegal seek''), (30, ''Read-only file system''),
      (31, ''Too many links''), (32, ''Broken pipe''), (33, ''Math argument out of domain of func''),
      (34, ''Math result not representable'')]"

definition strerror :: "int \<Rightarrow> string" where
  "strerror err = (case map_of error_messages err of Some m \<Rightarrow> m | None \<Rightarrow> ''Unknown error'')"

section \<open>The wrappers reach their calls\<close>

lemma syscall_cases:
  "read hw fd a n k = sys_read fd a n k" "fd_write hw fd a n k = sys_write fd a n k" "close hw fd k = sys_close fd k"
  "stat hw a b k = sys_stat a b k" "fstat hw fd b k = sys_fstat fd b k" "getdents hw fd a n k = sys_getdents fd a n k"
  "chdir hw a k = sys_chdir a k" "unlink hw a k = sys_unlink a k" "mkdir hw a m k = sys_mkdir a k"
  "creat hw a m k = sys_open a m k" "sysinfo hw a k = sys_sysinfo a k"
  by (simp_all add: read_def fd_write_def close_def stat_def fstat_def getdents_def chdir_def unlink_def mkdir_def creat_def
      sysinfo_def syscall_def syscall_handler_def sys_return_def option.map_comp comp_def case_prod_beta option.map_ident)


section \<open>Properties\<close>

text \<open>
  The command \<open>touch\<close> never creates a file: \<open>creat\<close> passes the mode where the flags of \<open>open\<close> belong, so for a name that
  does not exist the command fails with \<open>ENOENT\<close> and nothing but \<open>errno\<close> changes.
\<close>

theorem touch_never_creates:
  assumes inv: "k_inv k" and a: "1 < length argv" "arg_string (argv ! 1) k = Some (Some p)"
    and p: "terminated p" "cstr p \<noteq> []" "resolve (cstr p) (k_fs k) = None"
  shows "cmd_touch hw argv k = Some (-1, k\<lparr>errno := ENOENT\<rparr>)"
proof -
  have "vfs_lookup (Some p) (k_fs k) = Some None" using vfs_lookup_eq [OF k_invD(2) [OF inv] p(1)] p(3) by simp
  moreover have "no_path (Some p) = Some False" using no_path_eq [OF p(1)] p(2) by simp
  ultimately have "sys_open (argv ! 1) 0 k = Some (-1, k\<lparr>errno := ENOENT\<rparr>)"
    using a(2) by (simp add: sys_open_def sys_fail_def)
  then show ?thesis using a(1) by (simp add: cmd_touch_def array_get_def syscall_cases)
qed

lemma one_file_names: "named_child one_file (the (current_dir one_file)) n = (if n = lit ''a'' then Some 1 else None)"
proof -
  have b: "booted_fs = bare_fs\<lparr>vnodes_pool := (replicate 64 zero_node)[0 := root_node], vnodes_pool_used := 1,
      vfs_root := Some 0, current_dir := Some 0\<rparr>"
    using fs_init_eq [OF bare_fs_zero] by (simp add: booted_fs_def)
  have c: "current_dir one_file = Some 0" by (simp add: one_file_def attach_def b)
  have r: "node booted_fs 0 = root_node" by (simp add: b node_def)
  have "node one_file 1 = made (lit ''a'') VFS_FILE 0 (Some (replicate 4096 0)) zero_node"
    by (simp add: one_file_def attach_def b node_def)
  then have n: "cstr (vn_name (node one_file 1)) = lit ''a''"
    using made_entry(1) [of "clit ''a''" VFS_FILE 0 "Some (replicate 4096 0)" zero_node] by simp
  have "node one_file 0 = root_node\<lparr>vn_children := (vn_children root_node)[0 := Some 1], vn_child_count := 1\<rparr>"
    by (simp add: one_file_def attach_def r) (simp add: b node_def root_node_def zero_node_def)
  then have "kids one_file 0 = [Some 1]" by (simp add: kids_def root_node_def zero_node_def numeral_eq_Suc)
  then show ?thesis using n by (simp add: named_child_def c entry_of_def)
qed

theorem touch_never_creates_witness:
  "cmd_touch (\<lambda>_ _. 0) [0, 0x3000] demo_kernel = Some (-1, demo_kernel\<lparr>errno := ENOENT\<rparr>)"
proof (rule touch_never_creates [OF demo_inv])
  show "1 < length [0, 0x3000 :: addr]" by simp
  have d: "get_physical_address v demo_paging = v" if "v \<in> {0x3000, 0x3001, 0x3002, 0x3003}" for v
    using demo_pages [OF that, of "pg_mem demo_paging" "pg_pmm demo_paging"] by simp
  have m: "pg_mem demo_paging 0x3000 = of_char CHR ''h''" "pg_mem demo_paging 0x3001 = of_char CHR ''i''"
    by (simp_all add: demo_paging_def clit_def)
  have "virt_string demo_paging 0x3002 = Some (clit ''/'')" using demo_path by (simp add: arg_string_def demo_kernel_def)
  then have "virt_string demo_paging 0x3001 = Some (clit ''i/'')" using m by (subst virt_string.simps) (simp add: d clit_def)
  then have "virt_string demo_paging 0x3000 = Some (clit ''hi/'')" using m by (subst virt_string.simps) (simp add: d clit_def)
  then show "arg_string ([0, 0x3000] ! 1) demo_kernel = Some (Some (clit ''hi/''))" by (simp add: arg_string_def demo_kernel_def)
  show "terminated (clit ''hi/'')" "cstr (clit ''hi/'') \<noteq> []" by simp_all
  have "resolve (lit ''hi/'') one_file = None"
    using one_file_names by (simp add: resolve_plain plain_name_def)
  then show "resolve (cstr (clit ''hi/'')) (k_fs demo_kernel) = None" by (simp add: demo_kernel_def)
qed

end
