(* ===== verification/Calc.thy ===== *)
theory Calc
  imports Stdio
begin

text \<open>
  The calculator command, \<^verbatim>\<open>src/bin/calc/calc.c\<close>: a recursive descent parser over the pointer \<open>expr_ptr\<close>, here the
  remaining text, that evaluates as it parses. Results are errors or values: \<open>Bad_read\<close> is a read past the
  object of the expression, \<open>Overflow\<close> a signed overflow, which C leaves undefined, and \<open>Out_of_fuel\<close> would be a
  recursion that does not end. The parsing functions call each other, so they carry the number of calls left;
  \<open>evaluate\<close> starts with a number that is proved to suffice for every text.

  The main theorem is that the parser gives every text of an arithmetic expression its value, with the usual
  precedences, left associative operators, and blanks and parentheses wherever they may stand.
\<close>

section \<open>Definitions\<close>

datatype calc_error = Bad_read | Overflow | Out_of_fuel

abbreviation int_ok :: "int \<Rightarrow> bool" where "int_ok i \<equiv> - 2147483648 \<le> i \<and> i \<le> 2147483647"

definition checked :: "int \<Rightarrow> calc_error + int" where
  "checked i = (if int_ok i then Inr i else Inl Overflow)"

definition and_then :: "'e + 'a \<Rightarrow> ('a \<Rightarrow> 'e + 'b) \<Rightarrow> 'e + 'b" where
  "and_then x f = case_sum Inl f x"

lemma and_then_simps [simp]: "and_then (Inl e) f = Inl e" "and_then (Inr v) f = f v"
  by (simp_all add: and_then_def)

text \<open>The quotient of C, rounded towards zero.\<close>

definition c_div :: "int \<Rightarrow> int \<Rightarrow> int" where
  "c_div a b = sgn a * sgn b * (\<bar>a\<bar> div \<bar>b\<bar>)"

text \<open>The characters the parser looks for.\<close>

abbreviation (input) SPACE :: byte where "SPACE \<equiv> 32"
abbreviation (input) LPAREN :: byte where "LPAREN \<equiv> 40"
abbreviation (input) RPAREN :: byte where "RPAREN \<equiv> 41"
abbreviation (input) STAR :: byte where "STAR \<equiv> 42"
abbreviation (input) PLUS :: byte where "PLUS \<equiv> 43"
abbreviation (input) MINUS :: byte where "MINUS \<equiv> 45"
abbreviation (input) SLASH :: byte where "SLASH \<equiv> 47"

fun skip_whitespace :: "byte list \<Rightarrow> calc_error + byte list" where
  "skip_whitespace [] = Inl Bad_read"
| "skip_whitespace (c # s) =
     (if c \<noteq> 0 \<and> (c = SPACE \<or> c = 9 \<or> c = 10) then skip_whitespace s else Inr (c # s))"

definition is_digit :: "byte \<Rightarrow> bool" where
  "is_digit c \<longleftrightarrow> 48 \<le> c \<and> c \<le> 57"

fun parse_number :: "int \<Rightarrow> byte list \<Rightarrow> calc_error + (int \<times> byte list)" where
  "parse_number num [] = Inl Bad_read"
| "parse_number num (c # s) =
     (if is_digit c
      then and_then (checked (num * 10)) (\<lambda>n. and_then (checked (n + (sint c - 48))) (\<lambda>n. parse_number n s))
      else Inr (num, c # s))"

text \<open>\<open>hd\<close> and \<open>tl\<close> below are applied to what \<open>skip_whitespace\<close> returns, which is never empty.\<close>

function (sequential) parse_factor :: "nat \<Rightarrow> byte list \<Rightarrow> calc_error + (int \<times> byte list)"
  and parse_term :: "nat \<Rightarrow> byte list \<Rightarrow> calc_error + (int \<times> byte list)"
  and term_loop :: "nat \<Rightarrow> int \<Rightarrow> byte list \<Rightarrow> calc_error + (int \<times> byte list)"
  and parse_expr :: "nat \<Rightarrow> byte list \<Rightarrow> calc_error + (int \<times> byte list)"
  and expr_loop :: "nat \<Rightarrow> int \<Rightarrow> byte list \<Rightarrow> calc_error + (int \<times> byte list)" where
  "parse_factor 0 s = Inl Out_of_fuel"
| "parse_factor (Suc n) s =
     and_then (skip_whitespace s) (\<lambda>s.
       if hd s = LPAREN
       then and_then (parse_expr n (tl s)) (\<lambda>(result, s).
            and_then (skip_whitespace s) (\<lambda>s.
              Inr (result, if hd s = RPAREN then tl s else s)))
       else and_then (parse_number 0 s) (\<lambda>(num, s).
            and_then (skip_whitespace s) (\<lambda>s. Inr (num, s))))"
| "parse_term 0 s = Inl Out_of_fuel"
| "parse_term (Suc n) s = and_then (parse_factor n s) (\<lambda>(result, s). term_loop n result s)"
| "term_loop 0 result s = Inl Out_of_fuel"
| "term_loop (Suc n) result s =
     and_then (skip_whitespace s) (\<lambda>s.
       if hd s \<noteq> STAR \<and> hd s \<noteq> SLASH then Inr (result, s)
       else and_then (parse_factor n (tl s)) (\<lambda>(right, s').
            and_then (if hd s = STAR then checked (result * right)
                      else if right \<noteq> 0 then checked (c_div result right) else Inr result) (\<lambda>result.
              term_loop n result s')))"
| "parse_expr 0 s = Inl Out_of_fuel"
| "parse_expr (Suc n) s = and_then (parse_term n s) (\<lambda>(result, s). expr_loop n result s)"
| "expr_loop 0 result s = Inl Out_of_fuel"
| "expr_loop (Suc n) result s =
     and_then (skip_whitespace s) (\<lambda>s.
       if hd s \<noteq> PLUS \<and> hd s \<noteq> MINUS then Inr (result, s)
       else and_then (parse_term n (tl s)) (\<lambda>(right, s').
            and_then (checked (if hd s = PLUS then result + right else result - right)) (\<lambda>result.
              expr_loop n result s')))"
  by pat_completeness auto
termination
  by (relation "measure (\<lambda>x. case x of Inl (Inl (n, s)) \<Rightarrow> n | Inl (Inr (n, s)) \<Rightarrow> n
     | Inr (Inl (n, r, s)) \<Rightarrow> n | Inr (Inr (Inl (n, s))) \<Rightarrow> n | Inr (Inr (Inr (n, r, s))) \<Rightarrow> n)") simp_all

definition evaluate :: "byte list \<Rightarrow> calc_error + int" where
  "evaluate expression =
     and_then (parse_expr (4 * length expression + 3) expression) (\<lambda>(result, s).
     and_then (skip_whitespace s) (\<lambda>s. Inr (if hd s \<noteq> 0 then 0 else result)))"

section \<open>The parser ends\<close>

text \<open>Parsing consumes a prefix of the text, so the remaining text never grows.\<close>

lemma skip_le: "skip_whitespace s = Inr s' \<Longrightarrow> length s' \<le> length s \<and> s' \<noteq> []"
  by (induction s) (auto split: if_splits)

lemma number_le: "parse_number k s = Inr (v, s') \<Longrightarrow> length s' \<le> length s \<and> s' \<noteq> []"
  by (induction k s rule: parse_number.induct) (fastforce simp: checked_def split: if_splits)+

lemma and_then_Inr: "and_then x f = Inr v \<longleftrightarrow> (\<exists>u. x = Inr u \<and> f u = Inr v)"
  by (cases x) auto

lemma parse_le:
  "parse_factor n s = Inr (v, s') \<Longrightarrow> length s' \<le> length s"
  "parse_term n s = Inr (v, s') \<Longrightarrow> length s' \<le> length s"
  "term_loop n r s = Inr (v, s') \<Longrightarrow> length s' \<le> length s"
  "parse_expr n s = Inr (v, s') \<Longrightarrow> length s' \<le> length s"
  "expr_loop n r s = Inr (v, s') \<Longrightarrow> length s' \<le> length s"
proof (induction n s and n s and n r s and n s and n r s arbitrary: v s' and v s' and v s' and v s' and v s'
    rule: parse_factor_parse_term_term_loop_parse_expr_expr_loop.induct)
  case (2 n s)
  then show ?case
    by (fastforce simp: and_then_Inr dest!: skip_le number_le split: if_splits)
next
  case (6 n r s)
  then show ?case by (fastforce simp: and_then_Inr dest!: skip_le split: if_splits)
next
  case (10 n r s)
  then show ?case by (fastforce simp: and_then_Inr dest!: skip_le split: if_splits)
qed (fastforce simp: and_then_Inr)+

text \<open>With four calls per character the recursion always reaches its end.\<close>

abbreviation ends :: "calc_error + 'a \<Rightarrow> bool" where "ends r \<equiv> r \<noteq> Inl Out_of_fuel"

lemma skip_ends: "ends (skip_whitespace s)"
  by (induction s) auto

lemma number_ends: "ends (parse_number k s)"
  by (induction k s rule: parse_number.induct) (auto simp: checked_def)

lemma ends_and_then: "ends (and_then x f) \<longleftrightarrow> ends x \<and> (\<forall>v. x = Inr v \<longrightarrow> ends (f v))"
  by (cases x) auto

lemma parse_ends:
  "4 * length s + 1 \<le> n \<Longrightarrow> ends (parse_factor n s)"
  "4 * length s + 2 \<le> n \<Longrightarrow> ends (parse_term n s)"
  "4 * length s + 1 \<le> n \<Longrightarrow> ends (term_loop n r s)"
  "4 * length s + 3 \<le> n \<Longrightarrow> ends (parse_expr n s)"
  "4 * length s + 1 \<le> n \<Longrightarrow> ends (expr_loop n r s)"
proof (induction n s and n s and n r s and n s and n r s rule: parse_factor_parse_term_term_loop_parse_expr_expr_loop.induct)
  case (2 n s)
  show ?case
  proof (cases "skip_whitespace s")
    case (Inr s1)
    then have "length (tl s1) < length s" using skip_le [OF Inr] by (cases s1) auto
    then have "ends (parse_expr n (tl s1))" if "hd s1 = LPAREN" using 2 Inr that by simp
    then show ?thesis using Inr by (auto simp: ends_and_then skip_ends number_ends)
  qed (use skip_ends [of s] in auto)
next
  case (4 n s)
  then show ?case by (auto simp: ends_and_then dest!: parse_le(1))
next
  case (6 n r s)
  show ?case
  proof (cases "skip_whitespace s")
    case (Inr s1)
    then have l: "length (tl s1) < length s" using skip_le [OF Inr] by (cases s1) auto
    have "ends (term_loop n r' s')" if "parse_factor n (tl s1) = Inr (v, s')" "\<not> (hd s1 \<noteq> STAR \<and> hd s1 \<noteq> SLASH)" for v s' r'
      using 6(2) [OF that(2)] parse_le(1) [OF that(1)] l 6(3) that(1) by auto
    then show ?thesis using Inr 6(1) 6(3) l by (auto simp: ends_and_then checked_def)
  qed (use skip_ends [of s] in auto)
next
  case (8 n s)
  then show ?case by (auto simp: ends_and_then dest!: parse_le(2))
next
  case (10 n r s)
  show ?case
  proof (cases "skip_whitespace s")
    case (Inr s1)
    then have l: "length (tl s1) < length s" using skip_le [OF Inr] by (cases s1) auto
    have "ends (expr_loop n r' s')" if "parse_term n (tl s1) = Inr (v, s')" "\<not> (hd s1 \<noteq> PLUS \<and> hd s1 \<noteq> MINUS)" for v s' r'
      using 10(2) [OF that(2)] parse_le(2) [OF that(1)] l 10(3) that(1) by auto
    then show ?thesis using Inr 10(1) 10(3) l by (auto simp: ends_and_then checked_def)
  qed (use skip_ends [of s] in auto)
qed auto

declare parse_factor.simps(2) [simp del] parse_term.simps(2) [simp del] term_loop.simps(2) [simp del]
  parse_expr.simps(2) [simp del] expr_loop.simps(2) [simp del]

text \<open>More calls do not change a result.\<close>

lemma and_then_mono: "ends (and_then x f) \<Longrightarrow> (ends x \<Longrightarrow> y = x) \<Longrightarrow> (\<And>v. x = Inr v \<Longrightarrow> ends (f v) \<Longrightarrow> g v = f v) \<Longrightarrow>
    and_then y g = and_then x f"
  by (cases x) auto

lemma parse_more:
  "ends (parse_factor n s) \<Longrightarrow> parse_factor (Suc n) s = parse_factor n s"
  "ends (parse_term n s) \<Longrightarrow> parse_term (Suc n) s = parse_term n s"
  "ends (term_loop n r s) \<Longrightarrow> term_loop (Suc n) r s = term_loop n r s"
  "ends (parse_expr n s) \<Longrightarrow> parse_expr (Suc n) s = parse_expr n s"
  "ends (expr_loop n r s) \<Longrightarrow> expr_loop (Suc n) r s = expr_loop n r s"
proof (induction n s and n s and n r s and n s and n r s rule: parse_factor_parse_term_term_loop_parse_expr_expr_loop.induct)
  case (2 n s)
  show ?case
    unfolding parse_factor.simps(2) [of "Suc n"] unfolding parse_factor.simps(2) [of n s]
    using 2(2) unfolding parse_factor.simps(2) [of n s]
    by (rule and_then_mono) (auto intro!: and_then_mono intro: 2(1) split: if_splits)
next
  case (4 n s)
  show ?case
    unfolding parse_term.simps(2) [of "Suc n"] unfolding parse_term.simps(2) [of n s]
    using 4(3) unfolding parse_term.simps(2) [of n s]
    by (rule and_then_mono) (auto intro: 4(1,2))
next
  case (6 n r s)
  show ?case
    unfolding term_loop.simps(2) [of "Suc n"] unfolding term_loop.simps(2) [of n r s]
    using 6(3) unfolding term_loop.simps(2) [of n r s]
    by (rule and_then_mono) (auto intro!: and_then_mono intro: 6(1,2) split: if_splits)
next
  case (8 n s)
  show ?case
    unfolding parse_expr.simps(2) [of "Suc n"] unfolding parse_expr.simps(2) [of n s]
    using 8(3) unfolding parse_expr.simps(2) [of n s]
    by (rule and_then_mono) (auto intro: 8(1,2))
next
  case (10 n r s)
  show ?case
    unfolding expr_loop.simps(2) [of "Suc n"] unfolding expr_loop.simps(2) [of n r s]
    using 10(3) unfolding expr_loop.simps(2) [of n r s]
    by (rule and_then_mono) (auto intro!: and_then_mono intro: 10(1,2) split: if_splits)
qed auto


section \<open>Texts of expressions\<close>

datatype expr = Num nat | Add expr expr | Sub expr expr | Mul expr expr | Div expr expr

text \<open>The text of an expression at a precedence level: 0 for sums, 1 for products, 2 for operands.\<close>

definition paren :: "bool \<Rightarrow> byte list \<Rightarrow> byte list" where
  "paren b s = (if b then LPAREN # s @ [RPAREN] else s)"

fun show_at :: "nat \<Rightarrow> expr \<Rightarrow> byte list" where
  "show_at p (Num n) = map dec_digit (digits 10 n)"
| "show_at p (Add a b) = paren (0 < p) (show_at 0 a @ PLUS # show_at 1 b)"
| "show_at p (Sub a b) = paren (0 < p) (show_at 0 a @ MINUS # show_at 1 b)"
| "show_at p (Mul a b) = paren (1 < p) (show_at 1 a @ STAR # show_at 2 b)"
| "show_at p (Div a b) = paren (1 < p) (show_at 1 a @ SLASH # show_at 2 b)"

text \<open>
  The value of an expression with C's arithmetic: \<open>None\<close> when a step leaves the range of \<open>int\<close>. The calculator
  skips a division by zero and keeps the dividend.
\<close>

definition in_range :: "int \<Rightarrow> int option" where
  "in_range i = (if int_ok i then Some i else None)"

fun calc_value :: "expr \<Rightarrow> int option" where
  "calc_value (Num n) = in_range (int n)"
| "calc_value (Add a b) = do { x \<leftarrow> calc_value a; y \<leftarrow> calc_value b; in_range (x + y) }"
| "calc_value (Sub a b) = do { x \<leftarrow> calc_value a; y \<leftarrow> calc_value b; in_range (x - y) }"
| "calc_value (Mul a b) = do { x \<leftarrow> calc_value a; y \<leftarrow> calc_value b; in_range (x * y) }"
| "calc_value (Div a b) = do { x \<leftarrow> calc_value a; y \<leftarrow> calc_value b; if y = 0 then Some x else in_range (c_div x y) }"

definition yields :: "(nat \<Rightarrow> 'a) \<Rightarrow> 'a \<Rightarrow> bool" where
  "yields f r \<longleftrightarrow> (\<exists>k. \<forall>n\<ge>k. f n = r)"

lemma yields_Suc: "(\<And>n. f (Suc n) = g n) \<Longrightarrow> yields g r \<Longrightarrow> yields f r"
  unfolding yields_def by (metis Suc_le_D Suc_le_mono)

lemma yields_const [simp]: "yields (\<lambda>_. r) r"
  by (simp add: yields_def)

lemma yields_and_then:
  assumes "yields f (Inr v)" "yields (\<lambda>n. g n v) r"
  shows "yields (\<lambda>n. and_then (f n) (g n)) r"
proof -
  obtain i j where "\<forall>n\<ge>i. f n = Inr v" "\<forall>n\<ge>j. g n v = r" using assms by (auto simp: yields_def)
  then have "\<forall>n\<ge>max i j. and_then (f n) (g n) = r" by simp
  then show ?thesis unfolding yields_def by blast
qed

text \<open>What may follow an expression: a character that neither continues a number nor is skipped.\<close>

definition delim :: "byte list \<Rightarrow> bool" where
  "delim s \<longleftrightarrow> s \<noteq> [] \<and> \<not> is_digit (hd s) \<and> hd s \<noteq> SPACE \<and> hd s \<noteq> 9 \<and> hd s \<noteq> 10"

lemma skip_delim: "delim s \<Longrightarrow> skip_whitespace s = Inr s"
  by (cases s) (auto simp: delim_def)

lemma delim_Cons [simp]: "delim (LPAREN # s)" "delim (RPAREN # s)" "delim (PLUS # s)" "delim (MINUS # s)" "delim (STAR # s)"
  "delim (SLASH # s)" "delim (0 # s)"
  by (simp_all add: delim_def is_digit_def)

lemma digits_nonempty: "digits b n \<noteq> []"
  by (subst digits.simps) simp

lemma dec_digit_facts: "d < 10 \<Longrightarrow> is_digit (dec_digit d) \<and> sint (dec_digit d) = 48 + int d"
proof -
  assume "d < 10"
  then have "d \<in> {0, 1, 2, 3, 4, 5, 6, 7, 8, 9}" by auto
  then show ?thesis by (auto simp: dec_digit_def is_digit_def)
qed

definition stops :: "byte list \<Rightarrow> bool" where
  "stops s \<longleftrightarrow> s \<noteq> [] \<and> \<not> is_digit (hd s)"

lemma parse_digits:
  "list_all (\<lambda>d. d < 10) ds \<Longrightarrow> 0 \<le> k \<Longrightarrow> foldl (\<lambda>m d. m * 10 + int d) k ds \<le> 2147483647 \<Longrightarrow> stops rest \<Longrightarrow>
     parse_number k (map dec_digit ds @ rest) = Inr (foldl (\<lambda>m d. m * 10 + int d) k ds, rest)"
proof (induction ds arbitrary: k)
  case Nil
  then show ?case by (cases rest) (auto simp: stops_def)
next
  case (Cons d ds)
  have grow: "k' \<le> foldl (\<lambda>m d. m * 10 + int d) k' ds" if "0 \<le> k'" for k'
    using that
  proof (induction ds arbitrary: k')
    case (Cons x xs)
    show ?case using Cons.IH [of "k' * 10 + int x"] Cons.prems by simp
  qed simp
  have "k * 10 + int d \<le> 2147483647" using grow [of "k * 10 + int d"] Cons.prems by simp
  then show ?case using Cons dec_digit_facts [of d] by (simp add: checked_def)
qed

lemma foldl_digits_int: "foldl (\<lambda>m d. m * 10 + int d) (int k) ds = int (foldl (\<lambda>m d. m * 10 + d) k ds)"
proof (induction ds arbitrary: k)
  case (Cons d ds)
  show ?case using Cons [of "k * 10 + d"] by simp
qed simp

lemma parse_num:
  assumes "int n \<le> 2147483647" "stops rest"
  shows "parse_number 0 (map dec_digit (digits 10 n) @ rest) = Inr (int n, rest)"
proof -
  have "list_all (\<lambda>d. d < 10) (digits 10 n)" using digits_bound [of 10] by (simp add: list_all_iff)
  moreover have "foldl (\<lambda>m d. m * 10 + int d) 0 (digits 10 n) = int n"
    using foldl_digits_int [of 0 "digits 10 n"] digits_value_digits [of 10 n] by (simp add: digits_value_def)
  ultimately show ?thesis using parse_digits [of "digits 10 n" 0 rest] assms by simp
qed

text \<open>Blanks, and what remains behind them.\<close>

definition all_blank :: "byte list \<Rightarrow> bool" where
  "all_blank bs \<longleftrightarrow> set bs \<subseteq> {SPACE, 9, 10}"

lemma blanks_simps [simp]: "all_blank []" "all_blank (c # bs) \<longleftrightarrow> c \<in> {SPACE, 9, 10} \<and> all_blank bs"
  by (simp_all add: all_blank_def)

lemma skip_spaces: "all_blank bs \<Longrightarrow> skip_whitespace (bs @ s) = skip_whitespace s"
  by (induction bs) auto

definition lead :: "byte list \<Rightarrow> byte list \<Rightarrow> bool" where
  "lead s s' \<longleftrightarrow> delim s' \<and> (\<exists>bs. all_blank bs \<and> s = bs @ s')"

lemma leadI: "all_blank bs \<Longrightarrow> delim s' \<Longrightarrow> lead (bs @ s') s'"
  by (auto simp: lead_def)

lemma lead_refl: "delim s \<Longrightarrow> lead s s"
  using leadI [of "[]" s] by simp

lemma lead_skip: "lead s s' \<Longrightarrow> skip_whitespace s = Inr s'"
  by (auto simp: lead_def skip_spaces skip_delim)

lemma lead_stops: "lead s s' \<Longrightarrow> stops s"
proof -
  assume "lead s s'"
  then obtain bs where "all_blank bs" "delim s'" "s = bs @ s'" by (auto simp: lead_def)
  then show ?thesis by (cases bs) (auto simp: stops_def delim_def is_digit_def)
qed

text \<open>
  The ways to write an expression: blanks before every token, parentheses wherever they are needed and wherever
  one likes. The number is the precedence of the place: 0 of a sum, 1 of a product, 2 of a factor.
\<close>

inductive writes :: "nat \<Rightarrow> expr \<Rightarrow> byte list \<Rightarrow> bool" where
  num: "all_blank bs \<Longrightarrow> writes p (Num n) (bs @ map dec_digit (digits 10 n))"
| add: "writes 0 a s \<Longrightarrow> all_blank bs \<Longrightarrow> writes 1 b t \<Longrightarrow> writes 0 (Add a b) (s @ bs @ PLUS # t)"
| sub: "writes 0 a s \<Longrightarrow> all_blank bs \<Longrightarrow> writes 1 b t \<Longrightarrow> writes 0 (Sub a b) (s @ bs @ MINUS # t)"
| mul: "writes 1 a s \<Longrightarrow> all_blank bs \<Longrightarrow> writes 2 b t \<Longrightarrow> p \<le> 1 \<Longrightarrow> writes p (Mul a b) (s @ bs @ STAR # t)"
| div: "writes 1 a s \<Longrightarrow> all_blank bs \<Longrightarrow> writes 2 b t \<Longrightarrow> p \<le> 1 \<Longrightarrow> writes p (Div a b) (s @ bs @ SLASH # t)"
| par: "all_blank bs \<Longrightarrow> writes 0 e s \<Longrightarrow> all_blank cs \<Longrightarrow> writes p e (bs @ LPAREN # s @ cs @ [RPAREN])"

text \<open>What the parsing functions do on a text of a value, at the three levels.\<close>

definition factor_text :: "byte list \<Rightarrow> int \<Rightarrow> bool" where
  "factor_text t v \<longleftrightarrow> (\<forall>s s'. lead s s' \<longrightarrow> (\<exists>r. lead r s' \<and> yields (\<lambda>m. parse_factor m (t @ s)) (Inr (v, r))))"

definition term_text :: "byte list \<Rightarrow> int \<Rightarrow> bool" where
  "term_text t v \<longleftrightarrow> (\<forall>s s' r. lead s s' \<longrightarrow> yields (\<lambda>m. term_loop m v s') r \<longrightarrow> yields (\<lambda>m. parse_term m (t @ s)) r)"

definition expr_text :: "byte list \<Rightarrow> int \<Rightarrow> bool" where
  "expr_text t v \<longleftrightarrow> (\<forall>s s' r. lead s s' \<longrightarrow> hd s' \<noteq> STAR \<longrightarrow> hd s' \<noteq> SLASH \<longrightarrow> yields (\<lambda>m. expr_loop m v s') r
     \<longrightarrow> yields (\<lambda>m. parse_expr m (t @ s)) r)"

lemma loops_skip:
  assumes "lead s s'"
  shows "term_loop (Suc m) v s = term_loop (Suc m) v s'"
  using lead_skip [OF assms] skip_delim [of s'] assms by (simp add: term_loop.simps(2) lead_def)

lemma yields_shift: "(\<And>m. f (Suc m) = g (Suc m)) \<Longrightarrow> yields g r \<Longrightarrow> yields f r"
  unfolding yields_def by (metis Suc_le_D Suc_leD)

lemma loops_yield: "lead s s' \<Longrightarrow> yields (\<lambda>m. term_loop m v s') r \<Longrightarrow> yields (\<lambda>m. term_loop m v s) r"
  using yields_shift [of "\<lambda>m. term_loop m v s" "\<lambda>m. term_loop m v s'"] loops_skip by blast

lemma term_start:
  assumes "factor_text t v"
  shows "term_text t v"
  unfolding term_text_def
proof (intro allI impI)
  fix s s' r
  assume l: "lead s s'" "yields (\<lambda>m. term_loop m v s') r"
  obtain q where q: "lead q s'" "yields (\<lambda>m. parse_factor m (t @ s)) (Inr (v, q))" using assms l(1) by (auto simp: factor_text_def)
  have y: "yields (\<lambda>m. term_loop m v q) r" by (rule loops_yield [OF q(1) l(2)])
  show "yields (\<lambda>m. parse_term m (t @ s)) r"
  proof (rule yields_Suc)
    show "parse_term (Suc m) (t @ s) = and_then (parse_factor m (t @ s)) (\<lambda>(result, s). term_loop m result s)" for m
      by (rule parse_term.simps(2))
    show "yields (\<lambda>m. and_then (parse_factor m (t @ s)) (\<lambda>(result, s). term_loop m result s)) r"
      using y by (intro yields_and_then [OF q(2)]) simp
  qed
qed

lemma term_stop: "delim rest \<Longrightarrow> hd rest \<noteq> STAR \<Longrightarrow> hd rest \<noteq> SLASH \<Longrightarrow> yields (\<lambda>m. term_loop m v rest) (Inr (v, rest))"
  by (rule yields_Suc [where g = "\<lambda>_. Inr (v, rest)"]) (simp_all add: term_loop.simps(2) skip_delim)

lemma expr_stop: "delim rest \<Longrightarrow> hd rest \<noteq> PLUS \<Longrightarrow> hd rest \<noteq> MINUS \<Longrightarrow> yields (\<lambda>m. expr_loop m v rest) (Inr (v, rest))"
  by (rule yields_Suc [where g = "\<lambda>_. Inr (v, rest)"]) (simp_all add: expr_loop.simps(2) skip_delim)

lemma term_textD:
  assumes "term_text t v" "lead s s'" "hd s' \<noteq> STAR" "hd s' \<noteq> SLASH"
  shows "yields (\<lambda>m. parse_term m (t @ s)) (Inr (v, s'))"
  using assms term_stop [of s' v] by (auto simp: term_text_def lead_def)

lemma expr_start:
  assumes "term_text t v"
  shows "expr_text t v"
  unfolding expr_text_def
proof (intro allI impI)
  fix s s' r
  assume l: "lead s s'" "hd s' \<noteq> STAR" "hd s' \<noteq> SLASH" and y: "yields (\<lambda>m. expr_loop m v s') r"
  show "yields (\<lambda>m. parse_expr m (t @ s)) r"
  proof (rule yields_Suc)
    show "parse_expr (Suc m) (t @ s) = and_then (parse_term m (t @ s)) (\<lambda>(result, s). expr_loop m result s)" for m
      by (rule parse_expr.simps(2))
    show "yields (\<lambda>m. and_then (parse_term m (t @ s)) (\<lambda>(result, s). expr_loop m result s)) r"
      using y by (intro yields_and_then [OF term_textD [OF assms l]]) simp
  qed
qed

lemma factor_num:
  assumes "int n \<le> 2147483647" "all_blank bs"
  shows "factor_text (bs @ map dec_digit (digits 10 n)) (int n)"
  unfolding factor_text_def
proof (intro allI impI exI conjI)
  fix s s'
  assume l: "lead s s'"
  let ?d = "map dec_digit (digits 10 n)"
  show "lead s' s'" using l by (simp add: lead_def lead_refl)
  obtain d ds where d: "digits 10 n = d # ds" using digits_nonempty [of 10 n] by (cases "digits 10 n") auto
  then have g: "is_digit (dec_digit d)" using digits_bound [of 10 d n] dec_digit_facts [of d] by simp
  then have c: "dec_digit d \<noteq> LPAREN" "dec_digit d \<noteq> SPACE" "dec_digit d \<noteq> 9" "dec_digit d \<noteq> 10" by (auto simp: is_digit_def)
  then have sk: "skip_whitespace ((bs @ ?d) @ s) = Inr (?d @ s)" using skip_spaces [OF assms(2), of "?d @ s"] d by simp
  show "yields (\<lambda>m. parse_factor m ((bs @ ?d) @ s)) (Inr (int n, s'))"
  proof (rule yields_Suc)
    show "parse_factor (Suc m) ((bs @ ?d) @ s) = Inr (int n, s')" for m
      unfolding parse_factor.simps(2) sk and_then_simps
      using parse_num [OF assms(1) lead_stops [OF l]] lead_skip [OF l] d c by simp
  qed simp
qed

lemma factor_paren:
  assumes "expr_text t v" "all_blank bs" "all_blank cs"
  shows "factor_text (bs @ LPAREN # t @ cs @ [RPAREN]) v"
  unfolding factor_text_def
proof (intro allI impI exI conjI)
  fix s s'
  assume l: "lead s s'"
  then show "lead s s'" .
  have k: "lead (cs @ RPAREN # s) (RPAREN # s)" by (rule leadI [OF assms(3)]) simp
  have e: "yields (\<lambda>m. parse_expr m (t @ cs @ RPAREN # s)) (Inr (v, RPAREN # s))"
    using assms(1) k expr_stop [of "RPAREN # s" v] by (auto simp: expr_text_def)
  let ?f = "\<lambda>(result, s). and_then (skip_whitespace s) (\<lambda>s. Inr (result, if hd s = RPAREN then tl s else s))"
  show "yields (\<lambda>m. parse_factor m ((bs @ LPAREN # t @ cs @ [RPAREN]) @ s)) (Inr (v, s))"
  proof (rule yields_Suc)
    show "parse_factor (Suc m) ((bs @ LPAREN # t @ cs @ [RPAREN]) @ s) = and_then (parse_expr m (t @ cs @ RPAREN # s)) ?f" for m
      using skip_spaces [OF assms(2), of "LPAREN # t @ cs @ RPAREN # s"] by (simp add: parse_factor.simps(2))
    show "yields (\<lambda>m. and_then (parse_expr m (t @ cs @ RPAREN # s)) ?f) (Inr (v, s))"
      by (rule yields_and_then [OF e]) simp
  qed
qed

lemma term_step:
  assumes a: "term_text s x" and b: "factor_text t y" and c: "c = STAR \<or> c = SLASH" and bs: "all_blank bs"
    and z: "(if c = STAR then checked (x * y) else if y \<noteq> 0 then checked (c_div x y) else Inr x) = Inr z"
  shows "term_text (s @ bs @ c # t) z"
  unfolding term_text_def
proof (intro allI impI)
  fix u u' r
  assume l: "lead u u'" "yields (\<lambda>m. term_loop m z u') r"
  obtain q where q: "lead q u'" "yields (\<lambda>m. parse_factor m (t @ u)) (Inr (y, q))" using b l(1) by (auto simp: factor_text_def)
  let ?f = "\<lambda>m (right, s'). and_then (if c = STAR then checked (x * right)
                      else if right \<noteq> 0 then checked (c_div x right) else Inr x) (\<lambda>result. term_loop m result s')"
  have "yields (\<lambda>m. term_loop m x (c # t @ u)) r"
  proof (rule yields_Suc)
    show "term_loop (Suc m) x (c # t @ u) = and_then (parse_factor m (t @ u)) (?f m)" for m
      using c by (auto simp: term_loop.simps(2))
    show "yields (\<lambda>m. and_then (parse_factor m (t @ u)) (?f m)) r"
      using z loops_yield [OF q(1) l(2)] by (intro yields_and_then [OF q(2)]) simp
  qed
  moreover have "lead (bs @ c # t @ u) (c # t @ u)" using c by (intro leadI [OF bs]) auto
  ultimately show "yields (\<lambda>m. parse_term m ((s @ bs @ c # t) @ u)) r" using a by (auto simp: term_text_def)
qed

lemma expr_step:
  assumes a: "expr_text s x" and b: "term_text t y" and c: "c = PLUS \<or> c = MINUS" and bs: "all_blank bs"
    and z: "checked (if c = PLUS then x + y else x - y) = Inr z"
  shows "expr_text (s @ bs @ c # t) z"
  unfolding expr_text_def
proof (intro allI impI)
  fix u u' r
  assume l: "lead u u'" "hd u' \<noteq> STAR" "hd u' \<noteq> SLASH" and y: "yields (\<lambda>m. expr_loop m z u') r"
  let ?f = "\<lambda>m (right, s'). and_then (checked (if c = PLUS then x + right else x - right)) (\<lambda>result. expr_loop m result s')"
  have "yields (\<lambda>m. expr_loop m x (c # t @ u)) r"
  proof (rule yields_Suc)
    show "expr_loop (Suc m) x (c # t @ u) = and_then (parse_term m (t @ u)) (?f m)" for m
      using c by (auto simp: expr_loop.simps(2))
    show "yields (\<lambda>m. and_then (parse_term m (t @ u)) (?f m)) r"
      using z y by (intro yields_and_then [OF term_textD [OF b l]]) simp
  qed
  moreover have "lead (bs @ c # t @ u) (c # t @ u)" using c by (intro leadI [OF bs]) auto
  ultimately show "yields (\<lambda>m. parse_expr m ((s @ bs @ c # t) @ u)) r" using a c by (auto simp: expr_text_def)
qed

definition parses :: "nat \<Rightarrow> byte list \<Rightarrow> int \<Rightarrow> bool" where
  "parses p t v \<longleftrightarrow> expr_text t v \<and> (1 \<le> p \<longrightarrow> term_text t v) \<and> (2 \<le> p \<longrightarrow> factor_text t v)"

lemma parses_factor: "factor_text t v \<Longrightarrow> parses p t v"
  using term_start expr_start by (simp add: parses_def)

lemma parses_term: "term_text t v \<Longrightarrow> p \<le> 1 \<Longrightarrow> parses p t v"
  using expr_start by (simp add: parses_def)

lemma writes_parses: "writes p e t \<Longrightarrow> calc_value e = Some v \<Longrightarrow> parses p t v"
proof (induction p e t arbitrary: v rule: writes.induct)
  case (num bs p n)
  then show ?case using factor_num parses_factor by (auto simp: in_range_def split: if_splits)
next
  case (add a s bs b t)
  obtain x y where xy: "calc_value a = Some x" "calc_value b = Some y" "checked (x + y) = Inr v"
    using add.prems by (auto simp: bind_eq_Some_conv in_range_def checked_def split: if_splits)
  show ?case using expr_step [of s x t y PLUS bs v] add xy by (simp add: parses_def)
next
  case (sub a s bs b t)
  obtain x y where xy: "calc_value a = Some x" "calc_value b = Some y" "checked (x - y) = Inr v"
    using sub.prems by (auto simp: bind_eq_Some_conv in_range_def checked_def split: if_splits)
  show ?case using expr_step [of s x t y MINUS bs v] sub xy by (simp add: parses_def)
next
  case (mul a s bs b t p)
  obtain x y where xy: "calc_value a = Some x" "calc_value b = Some y" "checked (x * y) = Inr v"
    using mul.prems by (auto simp: bind_eq_Some_conv in_range_def checked_def split: if_splits)
  have "term_text (s @ bs @ STAR # t) v" using term_step [of s x t y STAR bs v] mul.IH mul.hyps xy by (simp add: parses_def)
  then show ?case by (rule parses_term [OF _ mul.hyps(4)])
next
  case (div a s bs b t p)
  obtain x y where xy: "calc_value a = Some x" "calc_value b = Some y"
    "(if y \<noteq> 0 then checked (c_div x y) else Inr x) = Inr v"
    using div.prems by (auto simp: bind_eq_Some_conv in_range_def checked_def split: if_splits)
  have "term_text (s @ bs @ SLASH # t) v" using term_step [of s x t y SLASH bs v] div.IH div.hyps xy by (simp add: parses_def)
  then show ?case by (rule parses_term [OF _ div.hyps(4)])
next
  case (par bs e s cs p)
  then show ?case using factor_paren parses_factor by (simp add: parses_def)
qed

text \<open>Every expression is written by the printer, without blanks and with as few parentheses as possible.\<close>

lemma paren_writes: "writes 0 e s \<Longrightarrow> (\<not> b \<Longrightarrow> writes p e s) \<Longrightarrow> writes p e (paren b s)"
  using writes.par [of "[]" e s "[]" p] by (auto simp: paren_def)

lemma show_writes: "writes p e (show_at p e)"
proof (induction e arbitrary: p)
  case (Num n)
  show ?case using writes.num [of "[]" p n] by simp
next
  case (Add a b)
  then show ?case using writes.add [of a "show_at 0 a" "[]" b "show_at 1 b"] by (auto intro!: paren_writes)
next
  case (Sub a b)
  then show ?case using writes.sub [of a "show_at 0 a" "[]" b "show_at 1 b"] by (auto intro!: paren_writes)
next
  case (Mul a b)
  then show ?case using writes.mul [of a "show_at 1 a" "[]" b "show_at 2 b"] by (auto intro!: paren_writes)
next
  case (Div a b)
  then show ?case using writes.div [of a "show_at 1 a" "[]" b "show_at 2 b"] by (auto intro!: paren_writes)
qed

section \<open>Properties\<close>

lemma yields_ends:
  assumes "yields f r" "ends (f n)" "\<And>n. ends (f n) \<Longrightarrow> f (Suc n) = f n"
  shows "f n = r"
proof -
  obtain k where k: "\<forall>n\<ge>k. f n = r" using assms(1) by (auto simp: yields_def)
  have "f (n + i) = f n" for i by (induction i) (use assms(2,3) in simp_all)
  then show ?thesis using k le_add2 [of k n] by metis
qed

text \<open>
  C28: for every arithmetic expression whose value and whose intermediate values fit in \<open>int\<close>, evaluating any text of it gives
  that value: with blanks, tabs and newlines before and behind every token, and with parentheses where precedence
  and left associativity require them and anywhere else. Division by zero is the exception the code makes: it leaves the
  dividend. Every expression has a text, the one that \<open>show_at\<close> prints.
\<close>

theorem evaluate_printed:
  assumes "calc_value e = Some v" "writes 0 e t" "all_blank bs"
  shows "evaluate (t @ bs @ 0 # rest) = Inr v \<and> writes 0 e (show_at 0 e)"
proof -
  let ?s = "t @ bs @ 0 # rest"
  have "lead (bs @ 0 # rest) (0 # rest)" by (rule leadI [OF assms(3)]) simp
  then have "yields (\<lambda>m. parse_expr m ?s) (Inr (v, 0 # rest))"
    using writes_parses [OF assms(2,1)] expr_stop [of "0 # rest" v] by (auto simp: parses_def expr_text_def)
  then have "parse_expr (4 * length ?s + 3) ?s = Inr (v, 0 # rest)"
    by (rule yields_ends) (rule parse_ends(4) [OF order_refl], rule parse_more(4))
  then show ?thesis using show_writes by (simp add: evaluate_def)
qed

theorem evaluate_printed_witness:
  "evaluate (lit '' 2 * ((3) -10 )/4 '' @ [0]) = Inr (-3)"
proof -
  let ?e = "Div (Mul (Num 2) (Sub (Num 3) (Num 10))) (Num 4)"
  have v: "calc_value ?e = Some (-3)" by (simp add: in_range_def c_div_def)
  have d: "map dec_digit (digits 10 2) = [50]" "map dec_digit (digits 10 3) = [51]" "map dec_digit (digits 10 10) = [49, 48]"
    "map dec_digit (digits 10 4) = [52]" by (simp_all add: digits.simps dec_digit_def)
  have "writes 0 (Num 3) ([] @ LPAREN # ([] @ [51]) @ [] @ [RPAREN])"
    using writes.num [of "[]" 0 3] by (intro writes.par) (simp_all add: d)
  moreover have "writes 1 (Num 10) ([] @ [49, 48])" using writes.num [of "[]" 1 10] by (simp add: d)
  ultimately have "writes 0 (Sub (Num 3) (Num 10)) (lit ''(3) -10'')"
    using writes.sub [of "Num 3" _ "[SPACE]" "Num 10"] by (fastforce simp: lit_def)
  then have "writes 2 (Sub (Num 3) (Num 10)) (lit '' ((3) -10 )'')"
    using writes.par [of "[SPACE]" _ _ "[SPACE]" 2] by (fastforce simp: lit_def)
  moreover have "writes 1 (Num 2) ([SPACE] @ [50])" using writes.num [of "[SPACE]" 1 2] by (simp add: d)
  ultimately have "writes 1 (Mul (Num 2) (Sub (Num 3) (Num 10))) (lit '' 2 * ((3) -10 )'')"
    using writes.mul [of "Num 2" _ "[SPACE]" _ _ 1] by (fastforce simp: lit_def)
  moreover have "writes 2 (Num 4) ([] @ [52])" using writes.num [of "[]" 2 4] by (simp add: d)
  ultimately have "writes 0 ?e (lit '' 2 * ((3) -10 )/4'')"
    using writes.div [of _ _ "[]" "Num 4" _ 0] by (fastforce simp: lit_def)
  from evaluate_printed [OF v this, of "[SPACE]" "[]"] show ?thesis by (simp add: lit_def)
qed

text \<open>On a terminated text every step stays inside it.\<close>

definition inside :: "calc_error + ('a \<times> byte list) \<Rightarrow> bool" where
  "inside r \<longleftrightarrow> (case r of Inl e \<Rightarrow> e \<noteq> Bad_read | Inr (v, s) \<Rightarrow> terminated s)"

lemma skip_inside: "terminated s \<Longrightarrow> \<exists>s'. skip_whitespace s = Inr s' \<and> terminated s'"
  by (induction s) auto

lemma number_inside: "terminated s \<Longrightarrow> inside (parse_number k s)"
proof (induction k s rule: parse_number.induct)
  case (2 num c s)
  then show ?case by (cases "c = 0") (auto simp: inside_def checked_def is_digit_def)
qed (simp add: inside_def)

lemma inside_and_then: "inside x \<Longrightarrow> (\<And>v s. x = Inr (v, s) \<Longrightarrow> terminated s \<Longrightarrow> inside (f (v, s))) \<Longrightarrow> inside (and_then x f)"
  by (cases x; cases "f (projr x)") (auto simp: inside_def)

lemma inside_skip: "terminated s \<Longrightarrow> (\<And>s'. terminated s' \<Longrightarrow> inside (f s')) \<Longrightarrow> inside (and_then (skip_whitespace s) f)"
  using skip_inside by fastforce

lemma inside_checked: "(\<And>v. inside (f v)) \<Longrightarrow> inside (and_then (checked i) f)"
  by (auto simp: checked_def inside_def)

lemma inside_Inr [simp]: "inside (Inr (v, s)) \<longleftrightarrow> terminated s" "inside (Inl e) \<longleftrightarrow> e \<noteq> Bad_read"
  by (simp_all add: inside_def)

lemma terminated_tl: "terminated s \<Longrightarrow> hd s \<noteq> 0 \<Longrightarrow> terminated (tl s)"
  by (cases s) auto

lemma parse_inside:
  "terminated s \<Longrightarrow> inside (parse_factor n s)"
  "terminated s \<Longrightarrow> inside (parse_term n s)"
  "terminated s \<Longrightarrow> inside (term_loop n r s)"
  "terminated s \<Longrightarrow> inside (parse_expr n s)"
  "terminated s \<Longrightarrow> inside (expr_loop n r s)"
proof (induction n s and n s and n r s and n s and n r s rule: parse_factor_parse_term_term_loop_parse_expr_expr_loop.induct)
  case (2 n s)
  show ?case unfolding parse_factor.simps(2) [of n s]
    by (rule inside_skip [OF 2(2)]) (auto intro!: inside_and_then inside_skip 2(1) number_inside terminated_tl)
next
  case (4 n s)
  then show ?case by (auto simp: parse_term.simps(2) intro!: inside_and_then)
next
  case (6 n r s)
  show ?case unfolding term_loop.simps(2) [of n r s]
    by (rule inside_skip [OF 6(3)]) (auto intro!: inside_and_then inside_checked 6(1,2) terminated_tl)
next
  case (8 n s)
  then show ?case by (auto simp: parse_expr.simps(2) intro!: inside_and_then)
next
  case (10 n r s)
  show ?case unfolding expr_loop.simps(2) [of n r s]
    by (rule inside_skip [OF 10(3)]) (auto intro!: inside_and_then inside_checked 10(1,2) terminated_tl)
qed auto

text \<open>
  C29: the calculator always answers: on every terminated text, well formed or not, the recursive descent ends, stays inside
  the text, and the only failure left is a signed overflow.
\<close>

theorem evaluate_total:
  assumes "terminated expression"
  shows "evaluate expression = Inl Overflow \<or> (\<exists>v. evaluate expression = Inr v)"
proof (cases "parse_expr (4 * length expression + 3) expression")
  case (Inl e)
  then have "e \<noteq> Bad_read" "e \<noteq> Out_of_fuel"
    using parse_inside(4) [OF assms, of "4 * length expression + 3"] parse_ends(4) [OF order_refl, of expression] by auto
  then show ?thesis using Inl by (cases e) (simp_all add: evaluate_def)
next
  case (Inr r)
  then have "terminated (snd r)" using parse_inside(4) [OF assms, of "4 * length expression + 3"] by (cases r) simp
  then obtain s where "skip_whitespace (snd r) = Inr s" using skip_inside by blast
  then show ?thesis using Inr by (cases r) (simp add: evaluate_def)
qed

theorem evaluate_total_witness:
  "evaluate (lit ''(1+'' @ [0]) = Inl Overflow \<or> (\<exists>v. evaluate (lit ''(1+'' @ [0]) = Inr v)"
  by (rule evaluate_total) simp

end
