(* ===== verification/World.thy ===== *)
theory World
  imports Unistd Keyboard Stdio Kheap
begin

text \<open>
  What a command of the shell works on: commands run in the kernel, so they reach the file system, the
  keyboard driver with the screen, the kernel heap and the standard output stream of \<^verbatim>\<open>src/kernel/kernel.c\<close> directly. \<open>printf\<close> fills the
  buffer of the stream and its flushes reach the screen and the serial line through the console branch of
  the write call; \<open>terminal_write\<close> goes to the screen only.
\<close>

record world =
  w_fs :: fs
  w_kbd :: kbd
  w_stdout :: FILE
  w_heap :: kheap

text \<open>No command prints a floating-point number.\<close>

definition no_float :: float_text where
  "no_float m c f = []"

definition w_printf :: "string \<Rightarrow> va list \<Rightarrow> 'a world_scheme \<Rightarrow> 'a world_scheme option" where
  "w_printf format args w =
     do { (_, fp) \<leftarrow> printf no_float (clit format) args (w_stdout w);
          k \<leftarrow> echo (console_write (concat (map snd (f_writes fp)))) (w_kbd w);
          Some (w\<lparr>w_kbd := k, w_stdout := fp\<lparr>f_writes := []\<rparr>\<rparr>) }"

definition w_write :: "byte list \<Rightarrow> 'a world_scheme \<Rightarrow> 'a world_scheme option" where
  "w_write s w = do { k \<leftarrow> echo (terminal_write s) (w_kbd w); Some (w\<lparr>w_kbd := k\<rparr>) }"

text \<open>\<^verbatim>\<open>putchar.c\<close> and \<^verbatim>\<open>putc.c\<close>: one byte written to the standard output; \<^verbatim>\<open>clear.c\<close> fills the screen with blanks.\<close>

definition putc :: "byte \<Rightarrow> terminal \<Rightarrow> terminal option" where
  "putc c = console_write [c]"

definition putchar :: "byte \<Rightarrow> terminal \<Rightarrow> terminal option" where
  "putchar c = putc c"

fun putchars :: "nat \<Rightarrow> byte \<Rightarrow> terminal \<Rightarrow> terminal option" where
  "putchars 0 c t = Some t"
| "putchars (Suc n) c t = do { t \<leftarrow> putchar c t; putchars n c t }"

definition cmd_clear :: "terminal \<Rightarrow> terminal option" where
  "cmd_clear t =
     do { t \<leftarrow> putchars (80 * 25) 32 (t\<lparr>terminal_row := 0, terminal_col := 0\<rparr>);
          Some (t\<lparr>terminal_row := 0, terminal_col := 0\<rparr>) }"

definition on_screen :: "(terminal \<Rightarrow> terminal option) \<Rightarrow> 'a world_scheme \<Rightarrow> 'a world_scheme option" where
  "on_screen f w = do { k \<leftarrow> echo f (w_kbd w); Some (w\<lparr>w_kbd := k\<rparr>) }"

definition w_getchar :: "'a world_scheme \<Rightarrow> (byte \<times> 'a world_scheme) option" where
  "w_getchar w = do { (c, k) \<leftarrow> keyboard_getchar (w_kbd w); Some (c, w\<lparr>w_kbd := k\<rparr>) }"

fun write_all :: "string list \<Rightarrow> 'a world_scheme \<Rightarrow> 'a world_scheme option" where
  "write_all [] w = Some w"
| "write_all (t # ts) w = do { w \<leftarrow> w_write (clit t) w; write_all ts w }"

text \<open>The stream is empty between calls, the screen keeps its shape.\<close>

definition world_ok :: "'a world_scheme \<Rightarrow> bool" where
  "world_ok w \<longleftrightarrow> kb_ok (w_kbd w) \<and> f_bptr (w_stdout w) = 0 \<and> length (f_buf (w_stdout w)) = 2048 \<and> f_writes (w_stdout w) = []"


section \<open>What a command prints\<close>

abbreviation screen :: "'a world_scheme \<Rightarrow> terminal" where "screen w \<equiv> kb_term (w_kbd w)"

text \<open>The text \<open>t\<close> has gone to the console and nothing but screen, serial line and stream has changed.\<close>

definition prints :: "'a world_scheme \<Rightarrow> byte list \<Rightarrow> 'a world_scheme \<Rightarrow> bool" where
  "prints w t w' \<longleftrightarrow> world_ok w' \<and>
     (\<exists>tm fp. console_write t (screen w) = Some tm \<and> w' = w\<lparr>w_kbd := (w_kbd w)\<lparr>kb_term := tm\<rparr>, w_stdout := fp\<rparr>)"

lemma console_append: "console_write (a @ b) t = do { t \<leftarrow> console_write a t; console_write b t }"
proof (induction a arbitrary: t)
  case (Cons c a)
  show ?case by (cases "terminal_write [c, 0] t") (auto simp: Cons split: bind_splits)
qed simp

lemma prints_refl: "world_ok w \<Longrightarrow> prints w [] w"
  unfolding prints_def by (intro conjI exI [of _ "screen w"] exI [of _ "w_stdout w"]) simp_all

lemma prints_ok: "prints w t w' \<Longrightarrow> world_ok w'"
  by (simp add: prints_def)

lemma prints_frame: "prints w t w' \<Longrightarrow> w_fs w' = w_fs w \<and> w_heap w' = w_heap w \<and> world.more w' = world.more w"
  by (auto simp: prints_def)

lemma prints_screen: "prints w t w' \<Longrightarrow> console_write t (screen w) = Some (screen w')"
  by (auto simp: prints_def)

lemma prints_trans: "prints w s w1 \<Longrightarrow> prints w1 t w2 \<Longrightarrow> prints w (s @ t) w2"
  by (auto simp: prints_def console_append)

lemma print_c_length: "print_c c fp = Some fp' \<Longrightarrow> length (f_buf fp') = length (f_buf fp)"
  by (auto simp: print_c_def array_simps bind_eq_Some_conv)

lemma print_chars_length: "print_chars t fp = Some fp' \<Longrightarrow> length (f_buf fp') = length (f_buf fp)"
  by (induction t arbitrary: fp) (auto simp: bind_eq_Some_conv dest: print_c_length)

lemma vfprintf_loop_length: "vfprintf_loop fl f args fp = Some fp' \<Longrightarrow> length (f_buf fp') = length (f_buf fp)"
proof (induction fl f args fp arbitrary: fp' rule: vfprintf_loop.induct)
  case (2 fl c f args fp)
  then show ?case
    by (auto simp: flush_text split: if_splits option.splits list.splits dest!: print_c_length print_chars_length)
qed simp

lemma w_printf_prints:
  assumes w: "world_ok w" and t: "sprintf_text (clit format) args = Some t" "set (conversions (clit format)) \<inter> printf_only = {}"
    "set (conversions (clit format)) \<inter> hex_conv = {} \<or> nonneg_words args" "length t \<le> 2048"
  shows "\<exists>w'. w_printf format args w = Some w' \<and> prints w t w'"
proof -
  have o: "f_bptr (w_stdout w) = 0" "length (f_buf (w_stdout w)) = 2048" "f_writes (w_stdout w) = []" "kb_ok (w_kbd w)"
    using w by (auto simp: world_ok_def)
  obtain fp where fp: "vfprintf_loop no_float (clit format) args (w_stdout w) = Some fp" "stream_text fp = t"
    using vfprintf_loop_text [OF t(1-3), of "w_stdout w" no_float] o t(4) by (auto simp: stream_text_def)
  have len: "length (f_buf (flush fp)) = 2048" using vfprintf_loop_length [OF fp(1)] o(2) by (simp add: flush_text)
  have p: "printf no_float (clit format) args (w_stdout w) = Some (0, flush fp)"
    using fp(1) by (simp add: printf_def vfprintf_def flush_def)
  have wr: "concat (map snd (f_writes (flush fp))) = t" using fp(2) flush_text(1,3) [of fp] by (simp add: stream_text_def)
  obtain tm where tm: "console_write t (screen w) = Some tm" "term_ok tm" using console_ok [of "screen w" t] o(4) by (auto simp: kb_ok_def)
  let ?w = "w\<lparr>w_kbd := (w_kbd w)\<lparr>kb_term := tm\<rparr>, w_stdout := (flush fp)\<lparr>f_writes := []\<rparr>\<rparr>"
  have "w_printf format args w = Some ?w" using p wr tm(1) by (simp add: w_printf_def echo_def)
  moreover have "prints w t ?w" using tm o(4) len flush_text(3) [of fp] by (auto simp: prints_def world_ok_def kb_ok_def)
  ultimately show ?thesis by blast
qed

text \<open>The formats that most commands use.\<close>

lemma sprintf_s_eq: "sprintf_s s = (if terminated s then Some (cstr s) else None)"
  by (induction s) auto

lemma print_line:
  assumes "world_ok w" "terminated s" "length (cstr s) < 2048"
  shows "\<exists>w'. w_printf ''%s\<newline>'' [Str s] w = Some w' \<and> prints w (cstr s @ [10]) w'"
proof (rule w_printf_prints [OF assms(1)])
  show "sprintf_text (clit ''%s\<newline>'') [Str s] = Some (cstr s @ [10])"
    using assms(2) by (simp add: clit_def lit_def sprintf_conv_def sprintf_s_eq)
  show "set (conversions (clit ''%s\<newline>'')) \<inter> printf_only = {}" by code_simp
  show "set (conversions (clit ''%s\<newline>'')) \<inter> hex_conv = {} \<or> nonneg_words [Str s]" by (simp add: nonneg_words_def)
qed (use assms(3) in simp)

lemma char_arg: "(ucast (scast c :: u32) :: byte) = c" for c :: byte
  by (simp add: bit_eq_iff bit_unsigned_iff bit_signed_iff)

lemma print_char:
  assumes "world_ok w"
  shows "\<exists>w'. w_printf ''%c'' [Word (scast c)] w = Some w' \<and> prints w [c] w'"
proof (rule w_printf_prints [OF assms])
  show "sprintf_text (clit ''%c'') [Word (scast c)] = Some [c]"
    by (simp add: clit_def lit_def sprintf_conv_def char_arg)
  show "set (conversions (clit ''%c'')) \<inter> printf_only = {}" by code_simp
  have "set (conversions (clit ''%c'')) \<inter> hex_conv = {}" by code_simp
  then show "set (conversions (clit ''%c'')) \<inter> hex_conv = {} \<or> nonneg_words [Word (scast c)]" by simp
qed simp


section \<open>Steps that only draw\<close>

text \<open>Nothing but the screen, the serial line and the buffer of the stream has changed.\<close>

definition draws :: "'a world_scheme \<Rightarrow> 'a world_scheme \<Rightarrow> bool" where
  "draws w w' \<longleftrightarrow> world_ok w' \<and> (\<exists>tm fp. w' = w\<lparr>w_kbd := (w_kbd w)\<lparr>kb_term := tm\<rparr>, w_stdout := fp\<rparr>)"

lemma draws_refl: "world_ok w \<Longrightarrow> draws w w"
  unfolding draws_def by (intro conjI exI [of _ "screen w"] exI [of _ "w_stdout w"]) simp_all

lemma draws_ok: "draws w w' \<Longrightarrow> world_ok w'"
  by (simp add: draws_def)

lemma draws_trans:
  assumes "draws w w1" "draws w1 w2"
  shows "draws w w2"
proof -
  obtain t f where 1: "w1 = w\<lparr>w_kbd := (w_kbd w)\<lparr>kb_term := t\<rparr>, w_stdout := f\<rparr>" using assms(1) by (auto simp: draws_def)
  obtain t' f' where "w2 = w1\<lparr>w_kbd := (w_kbd w1)\<lparr>kb_term := t'\<rparr>, w_stdout := f'\<rparr>" "world_ok w2" using assms(2) by (auto simp: draws_def)
  then have "w2 = w\<lparr>w_kbd := (w_kbd w)\<lparr>kb_term := t'\<rparr>, w_stdout := f'\<rparr>" "world_ok w2" unfolding 1 by simp_all
  then show ?thesis unfolding draws_def by blast
qed

lemma prints_draws: "prints w t w' \<Longrightarrow> draws w w'"
  by (auto simp: prints_def draws_def)

lemma draws_frame:
  "draws w w' \<Longrightarrow> w_fs w' = w_fs w \<and> w_heap w' = w_heap w \<and> world.more w' = world.more w
     \<and> w_kbd w' = (w_kbd w)\<lparr>kb_term := screen w'\<rparr>"
  by (auto simp: draws_def)

lemma on_screen_draws:
  assumes "world_ok w" "\<exists>t. f (screen w) = Some t \<and> term_ok t"
  shows "\<exists>w'. on_screen f w = Some w' \<and> draws w w'"
proof -
  obtain t where t: "f (screen w) = Some t" "term_ok t" using assms(2) by blast
  let ?w = "w\<lparr>w_kbd := (w_kbd w)\<lparr>kb_term := t\<rparr>, w_stdout := w_stdout w\<rparr>"
  have "on_screen f w = Some ?w" using t(1) by (simp add: on_screen_def echo_def)
  moreover have "world_ok ?w" using assms(1) t(2) by (simp add: world_ok_def kb_ok_def)
  ultimately show ?thesis unfolding draws_def by blast
qed

lemma w_write_screen: "w_write s = on_screen (terminal_write s)"
  by (rule ext) (simp add: w_write_def on_screen_def)

lemma world_ok_term: "world_ok w \<Longrightarrow> term_ok (screen w)"
  by (simp add: world_ok_def kb_ok_def)

lemma w_write_draws: "world_ok w \<Longrightarrow> terminated s \<Longrightarrow> \<exists>w'. w_write s w = Some w' \<and> draws w w'"
  unfolding w_write_screen using on_screen_draws [of w "terminal_write s"] write_ok [OF world_ok_term, of w s] by blast

lemma w_write_clit: "world_ok w \<Longrightarrow> \<exists>w'. w_write (clit t) w = Some w' \<and> draws w w'"
  by (rule w_write_draws) (simp_all add: clit_def)

lemma write_all_draws: "world_ok w \<Longrightarrow> \<exists>w'. write_all ts w = Some w' \<and> draws w w'"
proof (induction ts arbitrary: w)
  case Nil
  then show ?case using draws_refl by simp
next
  case (Cons t ts)
  obtain w1 where w1: "w_write (clit t) w = Some w1" "draws w w1" using w_write_clit [OF Cons.prems] by blast
  then show ?case using Cons.IH [OF draws_ok [OF w1(2)]] draws_trans [OF w1(2)] by auto
qed

lemma putchars_ok: "term_ok t \<Longrightarrow> \<exists>t'. putchars n c t = Some t' \<and> term_ok t'"
proof (induction n arbitrary: t)
  case (Suc n)
  obtain u where "putchar c t = Some u" "term_ok u" using console_ok [OF Suc.prems, of "[c]"] unfolding putchar_def putc_def by blast
  then show ?case using Suc.IH by simp
qed simp

lemma cmd_clear_ok:
  assumes "term_ok t"
  shows "\<exists>t'. cmd_clear t = Some t' \<and> term_ok t'"
proof -
  have "term_ok (t\<lparr>terminal_row := 0, terminal_col := 0\<rparr>)" using assms by (simp add: term_ok_def)
  then obtain u where "putchars (80 * 25) 32 (t\<lparr>terminal_row := 0, terminal_col := 0\<rparr>) = Some u" "term_ok u" using putchars_ok by blast
  then show ?thesis by (simp add: cmd_clear_def term_ok_def)
qed

lemma clear_draws: "world_ok w \<Longrightarrow> \<exists>w'. on_screen cmd_clear w = Some w' \<and> draws w w'"
  using on_screen_draws [of w cmd_clear] cmd_clear_ok [OF world_ok_term] by blast

lemma putc_draws: "world_ok w \<Longrightarrow> \<exists>w'. on_screen (terminal_putc c) w = Some w' \<and> draws w w'"
  using on_screen_draws [of w "terminal_putc c"] putc_ok [OF world_ok_term] by blast


text \<open>An unsigned number has at most ten digits.\<close>

lemma digits_length: "n < 10 ^ Suc k \<Longrightarrow> length (digits 10 n) \<le> Suc k"
proof (induction k arbitrary: n)
  case 0
  then show ?case by (subst digits.simps) simp
next
  case (Suc k)
  have "n div 10 < 10 ^ Suc k" using Suc.prems by (simp add: div_less_iff_less_mult mult.commute)
  then have "length (digits 10 (n div 10)) \<le> Suc k" by (rule Suc.IH)
  then show ?case by (subst digits.simps) simp
qed

lemma sprintf_u_length: "length (sprintf_u u) \<le> 10"
proof -
  have "unat u < 10 ^ Suc 9" using unsigned_less [of u, where 'a = nat] by simp
  then show ?thesis using digits_length [of "unat u" 9] by (simp add: sprintf_u_eq print_u_digits)
qed



section \<open>Reading keys\<close>

text \<open>The characters the pending events of the keyboard stand for.\<close>

definition typed :: "'a world_scheme \<Rightarrow> byte list" where
  "typed w = chars_of (kb_events (w_kbd w)) (w_kbd w)"

abbreviation pending :: "'a world_scheme \<Rightarrow> nat" where "pending w \<equiv> length (kb_events (w_kbd w))"

lemma draws_typed: "draws w w' \<Longrightarrow> typed w' = typed w \<and> pending w' = pending w"
  by (auto simp: draws_def typed_def)

text \<open>Reading a key uses up events and changes nothing but the keyboard.\<close>

definition reads :: "'a world_scheme \<Rightarrow> byte \<Rightarrow> 'a world_scheme \<Rightarrow> bool" where
  "reads w c w' \<longleftrightarrow> world_ok w' \<and> pending w' < pending w \<and> typed w = (if c \<noteq> 0 then [c] else []) @ typed w'
     \<and> w_fs w' = w_fs w \<and> w_heap w' = w_heap w \<and> screen w' = screen w \<and> world.more w' = world.more w"

lemma w_getchar_reads:
  assumes "world_ok w" "typed w \<noteq> []"
  shows "\<exists>c w'. w_getchar w = Some (c, w') \<and> reads w c w'"
proof -
  have k: "kb_ok (w_kbd w)" using assms(1) by (simp add: world_ok_def)
  obtain c k' where g: "keyboard_getchar (w_kbd w) = Some (c, k')" "advances (w_kbd w) c k'"
    using getchar_loop_spec [OF k, of "kb_events (w_kbd w)"] assms(2) by (auto simp: keyboard_getchar_def typed_def)
  have "w_getchar w = Some (c, w\<lparr>w_kbd := k'\<rparr>)" using g(1) by (simp add: w_getchar_def)
  moreover have "reads w c (w\<lparr>w_kbd := k'\<rparr>)" using g(2) assms(1) by (simp add: reads_def advances_def world_ok_def typed_def)
  ultimately show ?thesis by blast
qed



section \<open>A world for examples\<close>

text \<open>A world whose only file \<open>a\<close> has the given text.\<close>

definition demo_world :: "byte list \<Rightarrow> world" where
  "demo_world c = \<lparr>w_fs = set_file 1 (Some c) (of_nat (length (cstr c))) one_file, w_kbd = boot_kbd, w_stdout = stdout_stream, w_heap = boot_heap\<rparr>"

lemma demo_world_ok: "world_ok (demo_world c)"
  using boot_kbd_ok [of "kb_events boot_kbd"] by (simp add: demo_world_def world_ok_def stdout_stream_def)

text \<open>The same with pending events of the keyboard.\<close>

definition demo_typing :: "byte option list \<Rightarrow> byte list \<Rightarrow> world" where
  "demo_typing es c = (demo_world c)\<lparr>w_kbd := boot_kbd\<lparr>kb_events := es\<rparr>\<rparr>"

lemma demo_typing_ok: "world_ok (demo_typing es c)"
  using boot_kbd_ok [of es] by (simp add: demo_typing_def demo_world_def world_ok_def stdout_stream_def)

lemma demo_typing_typed: "typed (demo_typing es c) = chars_of es (boot_kbd\<lparr>kb_events := es\<rparr>)"
  by (simp add: demo_typing_def typed_def)

lemma demo_typing_file: "\<exists>n. array_get (vnodes_pool (w_fs (demo_typing es c))) 1 = Some n \<and> vn_content n = Some c"
proof -
  have "fs_ok one_file" using one_file_facts(1) by (simp add: fs_inv_def)
  then have "length (vnodes_pool one_file) = 64" by (rule fs_okD(1))
  then show ?thesis by (simp add: demo_typing_def demo_world_def set_file_def array_get_def)
qed

end
