(* ===== verification/Shell.thy ===== *)
theory Shell
  imports World
begin

text \<open>
  The command interpreter, \<^verbatim>\<open>src/bin/sh/sh.c\<close>: the line editor with its history, the splitting of a line into arguments, the
  tables of aliases and of environment variables, their expansion, and the loop that reads and dispatches a line.
  The static arrays of the file are fields of one record on top of the commands' world. An argument is the
  rest of the line buffer its pointer designates.

  The lemmas show that splitting a line agrees with a specification on strings and stays in the buffer, that
  the two tables implement finite maps, that expansion computes the expected text (and what \<open>strcpy\<close> leaves of
  the old line behind it), and that the history gives back the commands last entered.
\<close>

section \<open>State\<close>

record shell_var =
  sv_name :: "byte list"
  sv_value :: "byte list"

record shell = world +
  command_history :: "byte list list"
  history_count :: nat
  history_pos :: int
  env_vars :: "shell_var list"
  env_count :: nat
  aliases :: "shell_var list"
  alias_count :: nat

abbreviation (input) MAX_ALIASES :: nat where "MAX_ALIASES \<equiv> 32"
abbreviation (input) MAX_ALIAS_NAME :: nat where "MAX_ALIAS_NAME \<equiv> 32"
abbreviation (input) MAX_ALIAS_VALUE :: nat where "MAX_ALIAS_VALUE \<equiv> 128"
abbreviation (input) MAX_HISTORY :: nat where "MAX_HISTORY \<equiv> 100"
abbreviation (input) MAX_HISTORY_LEN :: nat where "MAX_HISTORY_LEN \<equiv> 256"
abbreviation (input) MAX_ENV_VARS :: nat where "MAX_ENV_VARS \<equiv> 64"
abbreviation (input) MAX_ENV_NAME :: nat where "MAX_ENV_NAME \<equiv> 64"
abbreviation (input) MAX_ENV_VALUE :: nat where "MAX_ENV_VALUE \<equiv> 256"
abbreviation (input) SH_ARG_MAX :: nat where "SH_ARG_MAX \<equiv> 4096"

section \<open>History\<close>

text \<open>The loop \<open>for (i = 1; i < MAX_HISTORY; i++) strcpy(command_history[i-1], command_history[i])\<close>.\<close>

fun shift_history :: "nat \<Rightarrow> nat \<Rightarrow> byte list list \<Rightarrow> byte list list option" where
  "shift_history i 0 h = Some h"
| "shift_history i (Suc n) h =
     do { d \<leftarrow> array_get h (i - 1);
          c \<leftarrow> array_get h i;
          r \<leftarrow> strcpy d c;
          shift_history (i + 1) n (h[i - 1 := r]) }"

definition set_history :: "nat \<Rightarrow> byte list \<Rightarrow> byte list list \<Rightarrow> byte list list option" where
  "set_history i cmd h = do { d \<leftarrow> array_get h i; r \<leftarrow> strcpy d cmd; Some (h[i := r]) }"

definition add_to_history :: "byte list \<Rightarrow> shell \<Rightarrow> shell option" where
  "add_to_history cmd s =
     (if history_count s < MAX_HISTORY
      then do { h \<leftarrow> set_history (history_count s) cmd (command_history s);
                Some (s\<lparr>command_history := h, history_count := history_count s + 1,
                        history_pos := int (history_count s + 1)\<rparr>) }
      else do { h \<leftarrow> shift_history 1 (MAX_HISTORY - 1) (command_history s);
                h \<leftarrow> set_history (MAX_HISTORY - 1) cmd h;
                Some (s\<lparr>command_history := h, history_pos := int (history_count s)\<rparr>) })"

text \<open>The result is \<open>NULL\<close> or the row of the history.\<close>

definition get_history_prev :: "shell \<Rightarrow> (byte list option \<times> shell) option" where
  "get_history_prev s =
     (if history_pos s > 0
      then do { r \<leftarrow> array_get (command_history s) (nat (history_pos s - 1));
                Some (Some r, s\<lparr>history_pos := history_pos s - 1\<rparr>) }
      else Some (None, s))"

definition get_history_next :: "shell \<Rightarrow> (byte list option \<times> shell) option" where
  "get_history_next s =
     (if history_pos s < int (history_count s) - 1
      then (if history_pos s + 1 < 0 then None
            else do { r \<leftarrow> array_get (command_history s) (nat (history_pos s + 1));
                      Some (Some r, s\<lparr>history_pos := history_pos s + 1\<rparr>) })
      else Some (None, s))"

section \<open>Splitting a line\<close>

definition is_blank :: "byte \<Rightarrow> bool" where
  "is_blank c \<longleftrightarrow> c = 32 \<or> c = 9"

definition is_quote :: "byte \<Rightarrow> bool" where
  "is_quote c \<longleftrightarrow> c = 34 \<or> c = 39"

text \<open>\<open>while (*input && !stop(*input)) input++\<close>: the characters passed and the rest.\<close>

fun scan :: "(byte \<Rightarrow> bool) \<Rightarrow> byte list \<Rightarrow> (byte list \<times> byte list) option" where
  "scan stop [] = None"
| "scan stop (c # s) =
     (if c \<noteq> 0 \<and> \<not> stop c then map_option (\<lambda>(w, t). (c # w, t)) (scan stop s) else Some ([], c # s))"

text \<open>\<open>while (*input == ' ' || *input == '\t') *input++ = '\0'\<close>: how many blanks are overwritten, and the rest.\<close>

fun blanks :: "byte list \<Rightarrow> (nat \<times> byte list) option" where
  "blanks [] = None"
| "blanks (c # s) = (if is_blank c then map_option (\<lambda>(k, t). (Suc k, t)) (blanks s) else Some (0, c # s))"

lemma scan_length: "scan stop s = Some (w, t) \<Longrightarrow> s = w @ t \<and> t \<noteq> []"
  by (induction s arbitrary: w t) (auto split: if_splits)

lemma blanks_length: "blanks s = Some (k, t) \<Longrightarrow> length s = k + length t \<and> t \<noteq> []"
  by (induction s arbitrary: k t) (auto split: if_splits)

text \<open>
  The outer loop from position \<open>pos\<close> of the buffer: the new contents of the rest of the buffer and the positions
  stored in \<open>argv\<close>.
\<close>

function split_loop :: "nat \<Rightarrow> nat \<Rightarrow> byte list \<Rightarrow> (byte list \<times> nat list) option" where
  "split_loop argc pos input =
     (if input = [] then None
      else if hd input = 0 \<or> argc \<ge> 16 then Some (input, [])
      else case blanks input of
        None \<Rightarrow> None
      | Some (k, s) \<Rightarrow>
          if hd s = 0 then Some (replicate k 0 @ s, [])
          else if is_quote (hd s) then
            (case scan (\<lambda>c. c = hd s) (tl s) of
               None \<Rightarrow> None
             | Some (w, t) \<Rightarrow>
                 if hd t = hd s
                 then map_option (\<lambda>(b, ps). (replicate k 0 @ hd s # w @ 0 # b, (pos + k + 1) # ps))
                        (split_loop (argc + 1) (pos + k + length w + 2) (tl t))
                 else map_option (\<lambda>(b, ps). (replicate k 0 @ hd s # w @ b, (pos + k + 1) # ps))
                        (split_loop (argc + 1) (pos + k + length w + 1) t))
          else
            (case scan is_blank s of
               None \<Rightarrow> None
             | Some (w, t) \<Rightarrow>
                 if hd t \<noteq> 0
                 then map_option (\<lambda>(b, ps). (replicate k 0 @ w @ 0 # b, (pos + k) # ps))
                        (split_loop (argc + 1) (pos + k + length w + 1) (tl t))
                 else map_option (\<lambda>(b, ps). (replicate k 0 @ w @ b, (pos + k) # ps))
                        (split_loop (argc + 1) (pos + k + length w) t)))"
  by pat_completeness auto
termination
  by (relation "measure (\<lambda>(argc, _, _). 16 - argc)") auto

declare split_loop.simps [simp del]

definition split_args :: "byte list \<Rightarrow> (byte list \<times> nat list) option" where
  "split_args input = split_loop 0 0 input"

text \<open>The argument strings of a split buffer.\<close>

definition arg_strings :: "byte list \<Rightarrow> nat list \<Rightarrow> byte list list" where
  "arg_strings buf ps = map (\<lambda>p. drop p buf) ps"

section \<open>Aliases\<close>

text \<open>\<open>strncpy(field, src, sizeof field - 1); field[sizeof field - 1] = '\0'\<close>\<close>

definition set_field :: "byte list \<Rightarrow> byte list \<Rightarrow> byte list option" where
  "set_field d src = do { d \<leftarrow> strncpy d src (length d - 1); array_set d (length d - 1) 0 }"

definition find_alias :: "byte list \<Rightarrow> shell \<Rightarrow> nat option option" where
  "find_alias name s = find_named (\<lambda>i. map_option sv_name (array_get (aliases s) i)) name 0 (alias_count s)"

definition add_alias :: "byte list \<Rightarrow> byte list \<Rightarrow> shell \<Rightarrow> shell option" where
  "add_alias name value s =
     (if alias_count s \<ge> MAX_ALIASES then w_printf ''alias: too many aliases\<newline>'' [] s
      else do {
        n \<leftarrow> strlen name;
        if n \<ge> MAX_ALIAS_NAME then w_printf ''alias: name too long\<newline>'' [] s
        else do {
          v \<leftarrow> strlen value;
          if v \<ge> MAX_ALIAS_VALUE then w_printf ''alias: value too long\<newline>'' [] s
          else do {
            existing \<leftarrow> find_alias name s;
            case existing of
              Some i \<Rightarrow>
                do { e \<leftarrow> array_get (aliases s) i;
                     d \<leftarrow> set_field (sv_value e) value;
                     Some (s\<lparr>aliases := (aliases s)[i := e\<lparr>sv_value := d\<rparr>]\<rparr>) }
            | None \<Rightarrow>
                do { e \<leftarrow> array_get (aliases s) (alias_count s);
                     n \<leftarrow> set_field (sv_name e) name;
                     d \<leftarrow> set_field (sv_value e) value;
                     Some (s\<lparr>aliases := (aliases s)[alias_count s := \<lparr>sv_name = n, sv_value = d\<rparr>],
                             alias_count := alias_count s + 1\<rparr>) } } } })"

fun shift_aliases :: "nat \<Rightarrow> nat \<Rightarrow> shell_var list \<Rightarrow> shell_var list option" where
  "shift_aliases i 0 t = Some t"
| "shift_aliases i (Suc n) t =
     do { d \<leftarrow> array_get t i;
          e \<leftarrow> array_get t (i + 1);
          a \<leftarrow> set_field (sv_name d) (sv_name e);
          b \<leftarrow> set_field (sv_value d) (sv_value e);
          shift_aliases (i + 1) n (t[i := \<lparr>sv_name = a, sv_value = b\<rparr>]) }"

definition remove_alias :: "byte list \<Rightarrow> shell \<Rightarrow> shell option" where
  "remove_alias name s =
     do { idx \<leftarrow> find_alias name s;
          case idx of
            None \<Rightarrow> Some s
          | Some i \<Rightarrow>
              do { t \<leftarrow> shift_aliases i (alias_count s - 1 - i) (aliases s);
                   Some (s\<lparr>aliases := t, alias_count := alias_count s - 1\<rparr>) } }"

fun print_aliases :: "nat \<Rightarrow> nat \<Rightarrow> shell \<Rightarrow> shell option" where
  "print_aliases i 0 s = Some s"
| "print_aliases i (Suc n) s =
     do { e \<leftarrow> array_get (aliases s) i;
          s \<leftarrow> w_printf ''alias %s='%s'\<newline>'' [Str (sv_name e), Str (sv_value e)] s;
          print_aliases (i + 1) n s }"

definition list_aliases :: "shell \<Rightarrow> shell option" where
  "list_aliases s =
     (if alias_count s = 0 then w_printf ''No aliases defined\<newline>'' [] s else print_aliases 0 (alias_count s) s)"

fun remove_all :: "byte list list \<Rightarrow> shell \<Rightarrow> shell option" where
  "remove_all [] s = Some s"
| "remove_all (a # as) s = do { s \<leftarrow> remove_alias a s; remove_all as s }"

text \<open>
  \<open>NAME=VALUE\<close>: the equals sign is overwritten by the terminator, the value starts behind it. Without an equals
  sign the value is the next argument.
\<close>

definition split_assignment :: "byte list \<Rightarrow> byte list \<Rightarrow> (byte list \<times> byte list) option" where
  "split_assignment name value =
     do { e \<leftarrow> strchr name 61;
          Some (case e of
                  Some (_ # v) \<Rightarrow> (take (length name - length v - 1) name @ 0 # v, v)
                | _ \<Rightarrow> (name, value)) }"

definition cmd_alias :: "byte list list \<Rightarrow> shell \<Rightarrow> (int \<times> shell) option" where
  "cmd_alias argv s =
     (case argv of
        [_] \<Rightarrow> do { s \<leftarrow> list_aliases s; Some (0, s) }
      | [_, a] \<Rightarrow>
          do { idx \<leftarrow> find_alias a s;
               s \<leftarrow> (case idx of
                      Some i \<Rightarrow> do { e \<leftarrow> array_get (aliases s) i;
                                     w_printf ''alias %s='%s'\<newline>'' [Str (sv_name e), Str (sv_value e)] s }
                    | None \<Rightarrow> w_printf ''alias: %s: not found\<newline>'' [Str a] s);
               Some (0, s) }
      | _ # a # b # rest \<Rightarrow>
          do { r1 \<leftarrow> strcmp a (clit ''-d'');
               r2 \<leftarrow> (if r1 = 0 then Some 0 else strcmp a (clit ''--delete''));
               s \<leftarrow> (if r1 = 0 \<or> r2 = 0 then remove_all (b # rest) s
                    else do { (name, value) \<leftarrow> split_assignment a b; add_alias name value s });
               Some (0, s) }
      | [] \<Rightarrow> do { s \<leftarrow> w_printf ''Usage: alias [name[=value] ...] or alias -d name ...\<newline>'' [] s; Some (1, s) })"

text \<open>\<open>strncat\<close> of a blank and of each remaining argument, with the room that is left.\<close>

fun append_args :: "byte list list \<Rightarrow> byte list \<Rightarrow> byte list option" where
  "append_args [] expanded = Some expanded"
| "append_args (a # as) expanded =
     do { n \<leftarrow> strlen expanded;
          expanded \<leftarrow> (if n + 1 < SH_ARG_MAX then strncat expanded (clit '' '') (SH_ARG_MAX - n - 1) else Some expanded);
          n \<leftarrow> strlen expanded;
          expanded \<leftarrow> (if n < SH_ARG_MAX then strncat expanded a (SH_ARG_MAX - n - 1) else Some expanded);
          append_args as expanded }"

text \<open>
  The local arrays of the function are not initialised, but nothing reads them before \<open>strncpy\<close> has filled
  them; they are given as zeros.
\<close>

definition expand_alias :: "byte list \<Rightarrow> nat \<Rightarrow> shell \<Rightarrow> byte list option" where
  "expand_alias input sz s =
     do { tmp \<leftarrow> set_field (replicate SH_ARG_MAX 0) input;
          (tmp, ps) \<leftarrow> split_args tmp;
          case arg_strings tmp ps of
            [] \<Rightarrow> Some input
          | cmd # args \<Rightarrow>
              do { idx \<leftarrow> find_alias cmd s;
                   case idx of
                     None \<Rightarrow> Some input
                   | Some i \<Rightarrow>
                       do { e \<leftarrow> array_get (aliases s) i;
                            expanded \<leftarrow> set_field (replicate SH_ARG_MAX 0) (sv_value e);
                            expanded \<leftarrow> append_args args expanded;
                            n \<leftarrow> strlen expanded;
                            if n < sz
                            then do { input \<leftarrow> strncpy input expanded (sz - 1); array_set input (sz - 1) 0 }
                            else Some input } } }"

section \<open>Environment variables\<close>

definition env_key :: "shell \<Rightarrow> nat \<Rightarrow> byte list option" where
  "env_key s i = map_option sv_name (array_get (env_vars s) i)"

definition set_env_var :: "byte list \<Rightarrow> byte list \<Rightarrow> shell \<Rightarrow> shell option" where
  "set_env_var name value s =
     do { idx \<leftarrow> find_named (env_key s) name 0 (env_count s);
          case idx of
            Some i \<Rightarrow>
              do { e \<leftarrow> array_get (env_vars s) i;
                   d \<leftarrow> set_field (sv_value e) value;
                   Some (s\<lparr>env_vars := (env_vars s)[i := e\<lparr>sv_value := d\<rparr>]\<rparr>) }
          | None \<Rightarrow>
              if env_count s < MAX_ENV_VARS
              then do { e \<leftarrow> array_get (env_vars s) (env_count s);
                        n \<leftarrow> set_field (sv_name e) name;
                        d \<leftarrow> set_field (sv_value e) value;
                        Some (s\<lparr>env_vars := (env_vars s)[env_count s := \<lparr>sv_name = n, sv_value = d\<rparr>],
                                env_count := env_count s + 1\<rparr>) }
              else Some s }"

definition get_env_var :: "byte list \<Rightarrow> shell \<Rightarrow> byte list option option" where
  "get_env_var name s =
     do { idx \<leftarrow> find_named (env_key s) name 0 (env_count s);
          case idx of
            Some i \<Rightarrow> do { e \<leftarrow> array_get (env_vars s) i; Some (Some (sv_value e)) }
          | None \<Rightarrow> Some None }"

definition init_default_env :: "shell \<Rightarrow> shell option" where
  "init_default_env s =
     do { s \<leftarrow> set_env_var (clit ''PATH'') (clit ''/bin:/usr/bin'') s;
          s \<leftarrow> set_env_var (clit ''HOME'') (clit ''/'') s;
          s \<leftarrow> set_env_var (clit ''USER'') (clit ''root'') s;
          s \<leftarrow> set_env_var (clit ''SHELL'') (clit ''/bin/sh'') s;
          set_env_var (clit ''PWD'') (clit ''/'') s }"

fun print_env :: "nat \<Rightarrow> nat \<Rightarrow> shell \<Rightarrow> shell option" where
  "print_env i 0 s = Some s"
| "print_env i (Suc n) s =
     do { e \<leftarrow> array_get (env_vars s) i;
          s \<leftarrow> w_printf ''%s=%s\<newline>'' [Str (sv_name e), Str (sv_value e)] s;
          print_env (i + 1) n s }"

definition list_env_vars :: "shell \<Rightarrow> shell option" where
  "list_env_vars s = print_env 0 (env_count s) s"

definition cmd_export :: "byte list list \<Rightarrow> shell \<Rightarrow> shell option" where
  "cmd_export argv s =
     (case argv of
        [_] \<Rightarrow> list_env_vars s
      | [_, a] \<Rightarrow>
          do { value \<leftarrow> get_env_var a s;
               case value of
                 Some v \<Rightarrow> w_printf ''%s=%s\<newline>'' [Str a, Str v] s
               | None \<Rightarrow> w_printf ''export: %s: not found\<newline>'' [Str a] s }
      | _ # a # b # _ \<Rightarrow> do { (name, value) \<leftarrow> split_assignment a b; set_env_var name value s }
      | [] \<Rightarrow> Some s)"

section \<open>Expansion of variables\<close>

definition name_char :: "byte \<Rightarrow> bool" where
  "name_char c \<longleftrightarrow> 97 \<le> c \<and> c \<le> 122 \<or> 65 \<le> c \<and> c \<le> 90 \<or> 48 \<le> c \<and> c \<le> 57 \<or> c = 95"

text \<open>A library function applied to the object from an offset on.\<close>

definition at_offset :: "nat \<Rightarrow> (byte list \<Rightarrow> byte list option) \<Rightarrow> byte list \<Rightarrow> byte list option" where
  "at_offset i f b = (if i \<le> length b then map_option ((@) (take i b)) (f (drop i b)) else None)"

text \<open>
  The loop over the input, here the rest of the buffer from \<open>in_idx\<close> on; the result is the local array and
  \<open>out_idx\<close>.
\<close>

function expand_loop :: "shell \<Rightarrow> nat \<Rightarrow> byte list \<Rightarrow> byte list \<Rightarrow> nat \<Rightarrow> (byte list \<times> nat) option" where
  "expand_loop s sz input output out_idx =
     (if input = [] then None
      else if hd input = 0 \<or> \<not> out_idx < sz - 1 then Some (output, out_idx)
      else if hd input = 36 then
        (case scan (\<lambda>c. \<not> name_char c) (tl input) of
           None \<Rightarrow> None
         | Some (w, t) \<Rightarrow>
             let var_len = (if length w \<ge> MAX_ENV_NAME then MAX_ENV_NAME - 1 else length w)
             in case do { v \<leftarrow> strncpy (replicate MAX_ENV_NAME 0) (tl input) var_len;
                          v \<leftarrow> array_set v var_len 0;
                          value \<leftarrow> get_env_var v s;
                          case value of
                            None \<Rightarrow> Some (output, out_idx)
                          | Some value \<Rightarrow>
                              do { n \<leftarrow> strlen value;
                                   let n = (if out_idx + n \<ge> sz - 1 then sz - 1 - out_idx else n);
                                   out \<leftarrow> at_offset out_idx (\<lambda>d. strncpy d value n) output;
                                   Some (out, out_idx + n) } } of
                  None \<Rightarrow> None
                | Some (output, out_idx) \<Rightarrow> expand_loop s sz t output out_idx)
      else
        (case array_set output out_idx (hd input) of
           None \<Rightarrow> None
         | Some output \<Rightarrow> expand_loop s sz (tl input) output (out_idx + 1)))"
  by pat_completeness auto
termination
  by (relation "measure (\<lambda>(s, sz, input, _, _). length input)") (auto dest!: scan_length simp: neq_Nil_conv)

declare expand_loop.simps [simp del]

definition expand_env_vars :: "byte list \<Rightarrow> nat \<Rightarrow> shell \<Rightarrow> byte list option" where
  "expand_env_vars input sz s =
     do { (output, out_idx) \<leftarrow> expand_loop s sz input (replicate MAX_HISTORY_LEN 0) 0;
          output \<leftarrow> array_set output out_idx 0;
          strcpy input output }"

section \<open>Reading a line\<close>

definition shell_buffer_reset :: "kbd \<Rightarrow> kbd option" where
  "shell_buffer_reset s =
     do { b \<leftarrow> memset (input_buffer s) 0 (length (input_buffer s));
          Some (s\<lparr>input_buffer := b, buffer_read_idx := 0, buffer_write_idx := 0\<rparr>) }"

text \<open>\<open>while (idx > 0) { terminal_backspace(); idx--; }\<close>\<close>

fun erase_line :: "nat \<Rightarrow> shell \<Rightarrow> shell option" where
  "erase_line 0 s = Some s"
| "erase_line (Suc idx) s = do { k \<leftarrow> echo terminal_backspace (w_kbd s); erase_line idx (s\<lparr>w_kbd := k\<rparr>) }"

text \<open>A history row replaces the line: the new buffer, its length and the state.\<close>

definition recall :: "byte list \<Rightarrow> nat \<Rightarrow> byte list \<Rightarrow> nat \<Rightarrow> shell \<Rightarrow> (byte list \<times> nat \<times> shell) option" where
  "recall cmd idx buf sz s =
     do { s \<leftarrow> erase_line idx s;
          buf \<leftarrow> strncpy buf cmd (sz - 1);
          buf \<leftarrow> array_set buf (sz - 1) 0;
          n \<leftarrow> strlen buf;
          s \<leftarrow> w_write buf s;
          Some (buf, n, s) }"

text \<open>The line editor: buffer, index, saved line and whether the history is being navigated.\<close>

record editor =
  ed_buf :: "byte list"
  ed_idx :: nat
  ed_saved :: "byte list"
  ed_nav :: bool

definition key_up :: "nat \<Rightarrow> editor \<Rightarrow> shell \<Rightarrow> (editor \<times> shell) option" where
  "key_up sz e s =
     do { e \<leftarrow> (if \<not> ed_nav e
                then do { l \<leftarrow> strcpy (ed_saved e) (ed_buf e); Some (e\<lparr>ed_saved := l, ed_nav := True\<rparr>) }
                else Some e);
          (prev_cmd, s) \<leftarrow> get_history_prev s;
          case prev_cmd of
            None \<Rightarrow> Some (e, s)
          | Some cmd \<Rightarrow>
              do { (buf, n, s) \<leftarrow> recall cmd (ed_idx e) (ed_buf e) sz s;
                   Some (e\<lparr>ed_buf := buf, ed_idx := n\<rparr>, s) } }"

definition key_down :: "nat \<Rightarrow> editor \<Rightarrow> shell \<Rightarrow> (editor \<times> shell) option" where
  "key_down sz e s =
     (if \<not> ed_nav e then Some (e, s)
      else do {
        (next_cmd, s) \<leftarrow> get_history_next s;
        case next_cmd of
          Some cmd \<Rightarrow>
            do { (buf, n, s) \<leftarrow> recall cmd (ed_idx e) (ed_buf e) sz s;
                 Some (e\<lparr>ed_buf := buf, ed_idx := n\<rparr>, s) }
        | None \<Rightarrow>
            do { s \<leftarrow> erase_line (ed_idx e) s;
                 buf \<leftarrow> strcpy (ed_buf e) (ed_saved e);
                 n \<leftarrow> strlen buf;
                 s \<leftarrow> w_write buf s;
                 Some (e\<lparr>ed_buf := buf, ed_idx := n, ed_nav := False\<rparr>, s) } })"

partial_function (option) line_loop :: "nat \<Rightarrow> editor \<Rightarrow> shell \<Rightarrow> (byte list \<times> shell) option" where
  "line_loop sz e s =
     do { (c, k) \<leftarrow> next_char (w_kbd s);
          let s = s\<lparr>w_kbd := k\<rparr>;
          if c = 0 then line_loop sz e s
          else if c = 13 \<or> c = 10
          then do { s \<leftarrow> w_write (clit [CHR 0x0A]) s;
                    buf \<leftarrow> array_set (ed_buf e) (ed_idx e) 0;
                    k \<leftarrow> shell_buffer_reset (w_kbd s);
                    s \<leftarrow> (if ed_idx e > 0 then add_to_history buf (s\<lparr>w_kbd := k\<rparr>) else Some (s\<lparr>w_kbd := k\<rparr>));
                    Some (buf, s) }
          else if c = KEY_UP then do { (e, s) \<leftarrow> key_up sz e s; line_loop sz e s }
          else if c = KEY_DOWN then do { (e, s) \<leftarrow> key_down sz e s; line_loop sz e s }
          else if (c = 8 \<or> c = 0x7F) \<and> ed_idx e > 0
          then do { k \<leftarrow> echo terminal_backspace (w_kbd s);
                    line_loop sz (e\<lparr>ed_idx := ed_idx e - 1\<rparr>) (s\<lparr>w_kbd := k\<rparr>) }
          else if ed_idx e + 1 < sz
          then do { buf \<leftarrow> array_set (ed_buf e) (ed_idx e) c;
                    k \<leftarrow> echo (terminal_putc c) (w_kbd s);
                    line_loop sz (e\<lparr>ed_buf := buf, ed_idx := ed_idx e + 1\<rparr>) (s\<lparr>w_kbd := k\<rparr>) }
          else line_loop sz e s }"

definition shell_read_line :: "byte list \<Rightarrow> nat \<Rightarrow> shell \<Rightarrow> (byte list \<times> shell) option" where
  "shell_read_line buf sz s =
     do { k \<leftarrow> shell_buffer_reset (w_kbd s);
          line_loop sz \<lparr>ed_buf = buf, ed_idx = 0, ed_saved = replicate MAX_HISTORY_LEN 0, ed_nav = False\<rparr> (s\<lparr>w_kbd := k\<rparr>) }"

section \<open>The loop of the shell\<close>

text \<open>The commands in the order of the tests.\<close>

definition command_names :: "string list" where
  "command_names =
     [''ls'', ''mkdir'', ''touch'', ''cd'', ''cat'', ''grep'', ''help'', ''clear'', ''echo'', ''color'', ''memory'', ''free'', ''top'',
      ''vmstat'', ''snake'', ''vi'', ''nano'', ''pwd'', ''date'', ''rm'', ''cp'', ''mv'', ''shutdown'', ''reboot'', ''calc'', ''gcc'',
      ''man'', ''wc'', ''head'', ''tail'', ''sort'', ''uniq'', ''whoami'', ''password'', ''sysinfo'', ''alias'', ''uptime'', ''dmesg'',
      ''which'', ''uname'', ''export'', ''exit'', ''quit'', ''exec'']"

text \<open>
  \<open>run\<close> stands for the commands defined in the other directories of \<^verbatim>\<open>src/bin\<close> and for \<open>execl\<close>; the commands of this file
  are executed here. \<open>exec\<close> stores \<open>NULL\<close> at \<open>argv[argc]\<close>, which is outside the array for sixteen arguments.
\<close>

definition dispatch :: "(string \<Rightarrow> byte list list \<Rightarrow> shell \<Rightarrow> shell option) \<Rightarrow> byte list list \<Rightarrow> shell \<Rightarrow> shell option" where
  "dispatch run argv s =
     (case argv of
        [] \<Rightarrow> Some s
      | cmd # args \<Rightarrow>
          do { i \<leftarrow> find_named (\<lambda>i. map_option clit (array_get command_names i)) cmd 0 (length command_names);
               case i of
                 None \<Rightarrow> w_printf ''sh: command not found: %s\<newline>'' [Str cmd] s
               | Some i \<Rightarrow>
                   let name = command_names ! i
                   in if name = ''alias'' then map_option snd (cmd_alias argv s)
                      else if name = ''export'' then cmd_export argv s
                      else if name = ''exit'' \<or> name = ''quit''
                      then w_printf ''Use shutdown or reboot to leave the OS.\<newline>'' [] s
                      else if name = ''exec''
                      then (if args = [] then w_printf ''exec: missing program name\<newline>'' [] s
                            else if length argv \<ge> 16 then None
                            else run ''exec'' argv s)
                      else run name argv s })"

text \<open>One round of the loop on the line buffer, which keeps its contents from round to round.\<close>

definition sh_round :: "(string \<Rightarrow> byte list list \<Rightarrow> shell \<Rightarrow> shell option) \<Rightarrow> byte list \<Rightarrow> shell \<Rightarrow> (byte list \<times> shell) option" where
  "sh_round run buf s =
     do { s \<leftarrow> w_write (clit ''root@dev_null# '') s;
          buf \<leftarrow> memset buf 0 (length buf);
          (buf, s) \<leftarrow> shell_read_line buf SH_ARG_MAX s;
          buf \<leftarrow> expand_env_vars buf SH_ARG_MAX s;
          buf \<leftarrow> expand_alias buf SH_ARG_MAX s;
          (buf, ps) \<leftarrow> split_args buf;
          s \<leftarrow> dispatch run (arg_strings buf ps) s;
          Some (buf, s) }"


section \<open>Splitting agrees with a specification on strings\<close>

text \<open>The words of a line: separated by blanks, or enclosed in quotes.\<close>

function tokens :: "byte list \<Rightarrow> byte list list" where
  "tokens s =
     (case dropWhile is_blank s of
        [] \<Rightarrow> []
      | c # r \<Rightarrow>
          if is_quote c then takeWhile (\<lambda>x. x \<noteq> c) r # tokens (drop 1 (dropWhile (\<lambda>x. x \<noteq> c) r))
          else takeWhile (\<lambda>x. \<not> is_blank x) (c # r) # tokens (drop 1 (dropWhile (\<lambda>x. \<not> is_blank x) (c # r))))"
  by pat_completeness auto
termination
proof (relation "measure length")
  fix s x21 x22 assume "dropWhile is_blank s = x21 # x22"
  then have l: "Suc (length x22) \<le> length s" using length_dropWhile_le [of is_blank s] by simp
  show "(drop 1 (dropWhile (\<lambda>x. x \<noteq> x21) x22), s) \<in> measure length"
    using l length_dropWhile_le [of "\<lambda>x. x \<noteq> x21" x22] by auto
  show "(drop 1 (dropWhile (\<lambda>x. \<not> is_blank x) (x21 # x22)), s) \<in> measure length"
    using l length_dropWhile_le [of "\<lambda>x. \<not> is_blank x" "x21 # x22"] by (auto simp del: dropWhile.simps)
qed simp

declare tokens.simps [simp del]

lemma scan_cstr:
  "terminated s \<Longrightarrow> \<exists>t. scan stop s = Some (takeWhile (\<lambda>c. \<not> stop c) (cstr s), t) \<and> terminated t
     \<and> cstr t = dropWhile (\<lambda>c. \<not> stop c) (cstr s) \<and> (hd t = 0 \<or> stop (hd t))
     \<and> s = takeWhile (\<lambda>c. \<not> stop c) (cstr s) @ t"
  by (induction s) auto

lemma blanks_cstr:
  "terminated s \<Longrightarrow> \<exists>k t. blanks s = Some (k, t) \<and> terminated t \<and> cstr t = dropWhile is_blank (cstr s) \<and> \<not> is_blank (hd t)
     \<and> length s = k + length t"
  by (induction s) (auto simp: is_blank_def)

lemma cstr_stop: "0 \<notin> set w \<Longrightarrow> hd b = 0 \<Longrightarrow> b \<noteq> [] \<Longrightarrow> cstr (w @ b) = w"
  by (cases b) (auto simp: cstr_append_terminated)

lemma takeWhile_cstr_zero: "0 \<notin> set (takeWhile P (cstr s))"
  using cstr_nonzero [of 0 s] by (auto dest: set_takeWhileD)

lemma cstr_hd: "s \<noteq> [] \<Longrightarrow> hd s \<noteq> 0 \<Longrightarrow> cstr s = hd s # cstr (tl s)"
  by (cases s) auto

text \<open>The arguments found from \<open>pos\<close> on, read in the new contents \<open>b\<close> of the rest of the buffer.\<close>

definition args_at :: "nat \<Rightarrow> byte list \<Rightarrow> nat list \<Rightarrow> byte list list" where
  "args_at pos b ps = map (\<lambda>p. cstr (drop (p - pos) b)) ps"

lemma args_at_Cons: "args_at pos b (p # ps) = args_at pos b [p] @ args_at pos b ps"
  by (simp add: args_at_def)

lemma args_at_skip: "\<forall>p\<in>set ps. pos + n \<le> p \<Longrightarrow> length a = n \<Longrightarrow> args_at pos (a @ b) ps = args_at (pos + n) b ps"
  by (auto simp: args_at_def)

definition split_ok :: "nat \<Rightarrow> nat \<Rightarrow> byte list \<Rightarrow> byte list \<Rightarrow> nat list \<Rightarrow> bool" where
  "split_ok argc pos input b ps \<longleftrightarrow> length b = length input \<and> (\<forall>p\<in>set ps. pos \<le> p \<and> p < pos + length b)
     \<and> args_at pos b ps = take (16 - argc) (tokens (cstr input)) \<and> (hd input = 0 \<longrightarrow> hd b = 0)"

text \<open>A word \<open>w\<close> behind \<open>a\<close> characters, followed by a terminator or by what starts with one.\<close>

lemma split_ok_word:
  assumes "split_ok (argc + 1) (pos + n) rest b ps" "argc < 16" "length pre = k" "tokens (cstr input) = w # tokens (cstr rest)"
    and "n = k + length w + length z" "length input = n + length rest" "0 \<notin> set w" "z = [0] \<or> z = [] \<and> hd rest = 0" "rest \<noteq> []"
    and "hd input \<noteq> 0"
  shows "split_ok argc pos input (pre @ w @ z @ b) ((pos + k) # ps)"
proof -
  have b: "length b = length rest" "\<forall>p\<in>set ps. pos + n \<le> p \<and> p < pos + n + length b"
    "args_at (pos + n) b ps = take (15 - argc) (tokens (cstr rest))" "hd rest = 0 \<longrightarrow> hd b = 0" "b \<noteq> []"
    using assms(1,9) by (auto simp: split_ok_def)
  have "cstr (w @ z @ b) = w" using assms(7,8) b(4,5) by (auto simp: cstr_append_terminated intro: cstr_stop)
  then have h: "args_at pos (pre @ w @ z @ b) [pos + k] = [w]" using assms(3) by (simp add: args_at_def)
  have "args_at pos ((pre @ w @ z) @ b) ps = args_at (pos + n) b ps"
    using b(2) assms(3,5) by (intro args_at_skip) auto
  then have "args_at pos (pre @ w @ z @ b) ((pos + k) # ps) = w # take (15 - argc) (tokens (cstr rest))"
    using h b(3) by (subst args_at_Cons) simp
  moreover have "take (16 - argc) (w # xs) = w # take (15 - argc) xs" for xs :: "byte list list"
    using assms(2) take_Suc_Cons [of "15 - argc" w xs] by (simp add: Suc_diff_le [symmetric])
  moreover have "length input > k" using assms(5,6,9) by (simp add: neq_Nil_conv)
  ultimately show ?thesis using assms(3,4,5,6,10) b by (auto simp: split_ok_def)
qed


lemma tokens_cstr:
  assumes "terminated input" "blanks input = Some (k, s)" "hd s \<noteq> 0"
  shows "tokens (cstr input) =
     (if is_quote (hd s) then takeWhile (\<lambda>x. x \<noteq> hd s) (cstr (tl s)) # tokens (drop 1 (dropWhile (\<lambda>x. x \<noteq> hd s) (cstr (tl s))))
      else takeWhile (\<lambda>x. \<not> is_blank x) (cstr s) # tokens (drop 1 (dropWhile (\<lambda>x. \<not> is_blank x) (cstr s))))"
proof -
  have "cstr s = dropWhile is_blank (cstr input)" "s \<noteq> []" using blanks_cstr [OF assms(1)] assms(2) by auto
  then have "dropWhile is_blank (cstr input) = hd s # cstr (tl s)" using cstr_hd [of s] assms(3) by simp
  moreover then have "cstr s = hd s # cstr (tl s)" using \<open>cstr s = _\<close> by simp
  ultimately show ?thesis by (subst tokens.simps) simp
qed



lemma cstr_hd_zero: "hd t = 0 \<Longrightarrow> cstr t = []"
  by (cases t) auto



lemma tokens_Nil [simp]: "tokens [] = []"
  by (subst tokens.simps) simp

lemma split_loop_tokens: "terminated input \<Longrightarrow> \<exists>b ps. split_loop argc pos input = Some (b, ps) \<and> split_ok argc pos input b ps"
proof (induction argc pos input rule: split_loop.induct)
  case (1 argc pos input)
  have ne: "input \<noteq> []" using 1(5) by auto
  obtain k s where ks: "blanks input = Some (k, s)" "terminated s" "cstr s = dropWhile is_blank (cstr input)" "\<not> is_blank (hd s)"
    "length input = k + length s" using blanks_cstr [OF 1(5)] by blast
  have sne: "s \<noteq> []" using ks(2) by auto
  consider (stop) "hd input = 0 \<or> argc \<ge> 16" | (blank) "hd input \<noteq> 0" "argc < 16" "hd s = 0"
    | (quoted) "hd input \<noteq> 0" "argc < 16" "hd s \<noteq> 0" "is_quote (hd s)" | (word) "hd input \<noteq> 0" "argc < 16" "hd s \<noteq> 0" "\<not> is_quote (hd s)"
    by linarith
  then show ?case
  proof cases
    case stop
    then have "split_loop argc pos input = Some (input, [])" using ne by (subst split_loop.simps) simp
    then show ?thesis using stop by (auto simp: split_ok_def args_at_def cstr_hd_zero)
  next
    case blank
    then have "split_loop argc pos input = Some (replicate k 0 @ s, [])" using ne ks(1) by (subst split_loop.simps) simp
    moreover have "dropWhile is_blank (cstr input) = []" using ks(3) blank(3) cstr_hd_zero by metis
    then have "tokens (cstr input) = []" unfolding tokens.simps [of "cstr input"] by (simp only: list.case)
    ultimately show ?thesis using ks(5) blank by (auto simp: split_ok_def args_at_def)
  next
    case quoted
    let ?w = "takeWhile (\<lambda>c. c \<noteq> hd s) (cstr (tl s))"
    have st: "terminated (tl s)" "length s = 1 + length (tl s)" using ks(2) quoted(3) sne by (cases s; auto)+
    obtain t where t: "scan (\<lambda>c. c = hd s) (tl s) = Some (?w, t)" "terminated t" "cstr t = dropWhile (\<lambda>c. c \<noteq> hd s) (cstr (tl s))"
      "hd t = 0 \<or> hd t = hd s" "tl s = ?w @ t" using scan_cstr [OF st(1), of "\<lambda>c. c = hd s"] by blast
    have tne: "t \<noteq> []" using t(2) by auto
    show ?thesis
    proof (cases "hd t = hd s")
      case True
      obtain h t' where h: "t = h # t'" "terminated t'" "t' \<noteq> []" using t(2) True quoted(3) tne by (cases t) force+
      obtain b ps where b: "split_loop (argc + 1) (pos + k + length ?w + 2) t' = Some (b, ps)"
        "split_ok (argc + 1) (pos + k + length ?w + 2) t' b ps"
        using 1(1) [OF ne _ ks(1) refl _ _ t(1) refl True] h(1,2) quoted by auto
      have "tokens (cstr input) = ?w # tokens (cstr t')"
        using tokens_cstr [OF 1(5) ks(1) quoted(3)] quoted(4) True quoted(3) h(1) unfolding t(3) [symmetric] by simp
      moreover have "length (tl s) = length ?w + (1 + length t')" using arg_cong [OF t(5), of length] h(1) by simp
      ultimately have "split_ok argc pos input ((replicate k 0 @ [hd s]) @ ?w @ [0] @ b) ((pos + (k + 1)) # ps)"
        using b(2) quoted ks(5) st(2) h(3)
        by (intro split_ok_word [where n = "k + length ?w + 2" and rest = t']) (simp_all add: takeWhile_cstr_zero add.assoc del: length_tl)
      then show ?thesis using quoted ne ks(1) t(1) True b(1) h(1) by (subst split_loop.simps) simp
    next
      case False
      then have z: "hd t = 0" using t(4) by simp
      obtain b ps where b: "split_loop (argc + 1) (pos + k + length ?w + 1) t = Some (b, ps)"
        "split_ok (argc + 1) (pos + k + length ?w + 1) t b ps"
        using 1(2) [OF ne _ ks(1) refl _ _ t(1) refl False t(2)] quoted by auto
      have "tokens (cstr input) = ?w # tokens (cstr t)"
        using tokens_cstr [OF 1(5) ks(1) quoted(3)] quoted(4) cstr_hd_zero [OF z] unfolding t(3) [symmetric] by simp
      moreover have "length (tl s) = length ?w + length t" using arg_cong [OF t(5), of length] by simp
      ultimately have "split_ok argc pos input ((replicate k 0 @ [hd s]) @ ?w @ [] @ b) ((pos + (k + 1)) # ps)"
        using b(2) quoted ks(5) st(2) tne z
        by (intro split_ok_word [where n = "k + length ?w + 1" and rest = t]) (simp_all add: takeWhile_cstr_zero add.assoc del: length_tl)
      then show ?thesis using quoted ne ks(1) t(1) False b(1) by (subst split_loop.simps) simp
    qed
  next
    case word
    let ?w = "takeWhile (\<lambda>c. \<not> is_blank c) (cstr s)"
    obtain t where t: "scan is_blank s = Some (?w, t)" "terminated t" "cstr t = dropWhile (\<lambda>c. \<not> is_blank c) (cstr s)"
      "hd t = 0 \<or> is_blank (hd t)" "s = ?w @ t" using scan_cstr [OF ks(2), of is_blank] by blast
    have tne: "t \<noteq> []" using t(2) by auto
    have len: "length s = length ?w + length t" using arg_cong [OF t(5), of length] by simp
    show ?thesis
    proof (cases "hd t = 0")
      case False
      obtain h t' where h: "t = h # t'" "terminated t'" "t' \<noteq> []" using t(2) False tne by (cases t) force+
      obtain b ps where b: "split_loop (argc + 1) (pos + k + length ?w + 1) t' = Some (b, ps)"
        "split_ok (argc + 1) (pos + k + length ?w + 1) t' b ps"
        using 1(3) [OF ne _ ks(1) refl _ _ t(1) refl False] h(1,2) word by auto
      have "tokens (cstr input) = ?w # tokens (cstr t')"
        using tokens_cstr [OF 1(5) ks(1) word(3)] word(4) False h(1) unfolding t(3) [symmetric] by simp
      then have "split_ok argc pos input (replicate k 0 @ ?w @ [0] @ b) ((pos + k) # ps)"
        using b(2) word ks(5) len h(1,3)
        by (intro split_ok_word [where n = "k + length ?w + 1" and rest = t']) (simp_all add: takeWhile_cstr_zero add.assoc)
      then show ?thesis using word ne ks(1) t(1) False b(1) h(1) by (subst split_loop.simps) simp
    next
      case True
      obtain b ps where b: "split_loop (argc + 1) (pos + k + length ?w) t = Some (b, ps)"
        "split_ok (argc + 1) (pos + k + length ?w) t b ps"
        using 1(4) [OF ne _ ks(1) refl _ _ t(1) refl _ t(2)] word True by auto
      have "tokens (cstr input) = ?w # tokens (cstr t)"
        using tokens_cstr [OF 1(5) ks(1) word(3)] word(4) cstr_hd_zero [OF True] unfolding t(3) [symmetric] by simp
      then have "split_ok argc pos input (replicate k 0 @ ?w @ [] @ b) ((pos + k) # ps)"
        using b(2) word ks(5) len tne True
        by (intro split_ok_word [where n = "k + length ?w" and rest = t]) (simp_all add: takeWhile_cstr_zero add.assoc)
      then show ?thesis using word ne ks(1) t(1) True b(1) by (subst split_loop.simps) simp
    qed
  qed
qed


text \<open>
  C25: a line is split as its text says: on every terminated buffer \<open>split_args\<close> stays inside it, keeps its size, and the
  argument pointers it stores designate the words of the line, blank separated or quoted, the first sixteen of
  them.
\<close>

theorem split_args_tokens:
  assumes "terminated buf"
  shows "\<exists>buf' ps. split_args buf = Some (buf', ps) \<and> length buf' = length buf \<and> list_all (\<lambda>p. p < length buf) ps
     \<and> map cstr (arg_strings buf' ps) = take 16 (tokens (cstr buf))"
proof -
  obtain b ps where "split_loop 0 0 buf = Some (b, ps)" "split_ok 0 0 buf b ps" using split_loop_tokens [OF assms] by blast
  then show ?thesis
    by (auto simp: split_args_def split_ok_def args_at_def arg_strings_def comp_def list_all_iff)
qed

theorem split_args_tokens_witness:
  "\<exists>buf' ps. split_args (clit ''cp 'a b'  c'') = Some (buf', ps) \<and> length buf' = length (clit ''cp 'a b'  c'')
     \<and> list_all (\<lambda>p. p < length (clit ''cp 'a b'  c'')) ps \<and> map cstr (arg_strings buf' ps) = [lit ''cp'', lit ''a b'', lit ''c'']"
proof -
  have "tokens (lit ''cp 'a b'  c'') = [lit ''cp'', lit ''a b'', lit ''c'']" by code_simp
  then show ?thesis using split_args_tokens [of "clit ''cp 'a b'  c''"] by simp
qed


section \<open>The tables implement finite maps\<close>

definition var_ok :: "nat \<Rightarrow> nat \<Rightarrow> shell_var \<Rightarrow> bool" where
  "var_ok n m v \<longleftrightarrow> length (sv_name v) = n \<and> length (sv_value v) = m \<and> terminated (sv_name v) \<and> terminated (sv_value v)"

definition var_list :: "shell_var list \<Rightarrow> nat \<Rightarrow> (byte list \<times> byte list) list" where
  "var_list vars n = map (\<lambda>v. (cstr (sv_name v), cstr (sv_value v))) (take n vars)"

definition env_ok :: "shell \<Rightarrow> bool" where
  "env_ok s \<longleftrightarrow> length (env_vars s) = 64 \<and> list_all (var_ok 64 256) (env_vars s) \<and> env_count s \<le> 64"

definition env_map :: "shell \<Rightarrow> byte list \<Rightarrow> byte list option" where
  "env_map s = map_of (var_list (env_vars s) (env_count s))"

definition alias_ok :: "shell \<Rightarrow> bool" where
  "alias_ok s \<longleftrightarrow> length (aliases s) = 32 \<and> list_all (var_ok 32 128) (aliases s) \<and> alias_count s \<le> 32
     \<and> distinct (map fst (var_list (aliases s) (alias_count s)))"

definition alias_map :: "shell \<Rightarrow> byte list \<Rightarrow> byte list option" where
  "alias_map s = map_of (var_list (aliases s) (alias_count s))"

lemma set_field_eq:
  assumes "d \<noteq> []" "terminated src"
  shows "\<exists>d'. set_field d src = Some d' \<and> length d' = length d \<and> terminated d' \<and> cstr d' = take (length d - 1) (cstr src)"
proof -
  let ?n = "length d - 1"
  have l: "?n < length d" "?n \<le> length d" using assms(1) by (cases d; simp)+
  let ?e = "take ?n (cstr src) @ replicate (?n - length (cstr src)) 0 @ drop ?n d"
  have e: "strncpy d src ?n = Some ?e" using assms(2) l by (simp add: strncpy_eq)
  have le: "length ?e = length d" using l by simp
  then have s: "set_field d src = Some (?e[?n := 0])" using e l by (simp add: set_field_def array_set_def)
  have dn: "drop ?n d = [last d]" using assms(1) by (metis append_butlast_last_id append_eq_conv_conj length_butlast)
  have "(a @ b @ [last d])[?n := 0] = a @ b @ [0]" if "length (a @ b) = ?n" for a b
    using list_update_length [of "a @ b" "last d" "[]" 0] unfolding that by simp
  then have "?e[?n := 0] = take ?n (cstr src) @ replicate (?n - length (cstr src)) 0 @ [0]"
    unfolding dn by (rule meta_mp) (simp add: min_def, arith)
  moreover have "cstr (take ?n (cstr src) @ replicate k 0 @ [0]) = take ?n (cstr src)" for k
    by (rule cstr_stop) (use cstr_nonzero [of 0 src] in \<open>auto dest: in_set_takeD simp: hd_append\<close>)
  ultimately have "cstr (?e[?n := 0]) = take ?n (cstr src)" "terminated (?e[?n := 0])" by (simp_all only: terminated_append) simp
  moreover have "length (?e[?n := 0]) = length d" using le by (simp only: length_list_update)
  ultimately show ?thesis using s by blast
qed

lemma map_of_var_list:
  "n \<le> length vars \<Longrightarrow>
     map_of (var_list vars n) k = map_option (\<lambda>i. cstr (sv_value (vars ! i))) (find (\<lambda>i. cstr (sv_name (vars ! i)) = k) [0..<n])"
proof (induction n)
  case (Suc n)
  have "var_list vars (Suc n) = var_list vars n @ [(cstr (sv_name (vars ! n)), cstr (sv_value (vars ! n)))]"
    using Suc.prems by (simp add: var_list_def take_Suc_conv_app_nth)
  moreover have "find P (xs @ [x]) = (case find P xs of Some y \<Rightarrow> Some y | None \<Rightarrow> if P x then Some x else None)" for P :: "nat \<Rightarrow> bool" and xs x
    by (induction xs) auto
  ultimately show ?case using Suc by (auto simp: map_add_def split: option.splits)
qed (simp add: var_list_def)

lemma find_vars:
  assumes "terminated name" "list_all (var_ok a b) vars" "n \<le> length vars"
  shows "find_named (\<lambda>i. map_option sv_name (array_get vars i)) name 0 n
     = Some (find (\<lambda>i. cstr (sv_name (vars ! i)) = cstr name) [0..<n])"
proof -
  have "find_named (\<lambda>i. map_option sv_name (array_get vars i)) name 0 n
      = Some (find (key_is (\<lambda>i. map_option sv_name (array_get vars i)) name) [0..<0 + n])"
    using assms by (intro find_named_eq) (auto simp: array_get_def var_ok_def list_all_length)
  moreover have "find (key_is (\<lambda>i. map_option sv_name (array_get vars i)) name) [0..<n]
      = find (\<lambda>i. cstr (sv_name (vars ! i)) = cstr name) [0..<n]"
    using assms(3) by (intro find_cong) (auto simp: key_is_def array_get_def)
  ultimately show ?thesis by simp
qed

text \<open>Both ways to store a value: over the first entry of its name, or behind the last entry.\<close>

lemma var_list_update:
  assumes "find (\<lambda>i. cstr (sv_name (vars ! i)) = k) [0..<n] = Some i" "n \<le> length vars"
    and "cstr (sv_name v) = cstr (sv_name (vars ! i))" "cstr (sv_value v) = x"
  shows "map_of (var_list (vars[i := v]) n) = (map_of (var_list vars n))(k \<mapsto> x)"
proof
  fix y
  have i: "i < n" "cstr (sv_name (vars ! i)) = k" using assms(1) by (auto simp: find_upt_Some)
  have nm: "cstr (sv_name (vars[i := v] ! j)) = cstr (sv_name (vars ! j))" for j
    using assms(3) by (cases "j = i") (auto simp: nth_list_update, metis list_update_beyond nth_list_update_eq not_le)
  have "map_of (var_list (vars[i := v]) n) y
      = map_option (\<lambda>j. cstr (sv_value (vars[i := v] ! j))) (find (\<lambda>j. cstr (sv_name (vars ! j)) = y) [0..<n])"
    using assms(2) by (simp add: map_of_var_list nm)
  also have "\<dots> = ((map_of (var_list vars n))(k \<mapsto> x)) y"
  proof (cases "y = k")
    case True
    then show ?thesis using assms(1,2,4) i by simp
  next
    case False
    then have "find (\<lambda>j. cstr (sv_name (vars ! j)) = y) [0..<n] \<noteq> Some i" using i by (auto simp: find_upt_Some)
    then show ?thesis using False assms(2)
      by (cases "find (\<lambda>j. cstr (sv_name (vars ! j)) = y) [0..<n]") (auto simp: map_of_var_list)
  qed
  finally show "map_of (var_list (vars[i := v]) n) y = ((map_of (var_list vars n))(k \<mapsto> x)) y" .
qed

lemma var_list_append:
  assumes "n < length vars"
  shows "var_list (vars[n := v]) (n + 1) = var_list vars n @ [(cstr (sv_name v), cstr (sv_value v))]"
  using assms by (simp add: var_list_def take_Suc_conv_app_nth)

lemma map_of_append_new: "k \<notin> dom (map_of xs) \<Longrightarrow> map_of (xs @ [(k, x)]) = (map_of xs)(k \<mapsto> x)"
  by (auto simp: map_add_def fun_eq_iff split: option.splits)


lemma var_ok_nth: "list_all (var_ok a b) vars \<Longrightarrow> i < length vars \<Longrightarrow> var_ok a b (vars ! i)"
  by (simp add: list_all_length)

lemma list_all_update: "list_all P xs \<Longrightarrow> P v \<Longrightarrow> list_all P (xs[i := v])"
  by (auto simp: list_all_iff dest: set_update_subset_insert [THEN subsetD])

lemma field_stored:
  assumes "var_ok a b v" "terminated x" "0 < a" "0 < b"
  shows "length (cstr x) < a \<Longrightarrow> \<exists>d. set_field (sv_name v) x = Some d \<and> length d = a \<and> terminated d \<and> cstr d = cstr x"
    and "length (cstr x) < b \<Longrightarrow> \<exists>d. set_field (sv_value v) x = Some d \<and> length d = b \<and> terminated d \<and> cstr d = cstr x"
proof -
  have v: "length (sv_name v) = a" "length (sv_value v) = b" "sv_name v \<noteq> []" "sv_value v \<noteq> []"
    using assms(1,3,4) by (auto simp: var_ok_def)
  show "length (cstr x) < a \<Longrightarrow> \<exists>d. set_field (sv_name v) x = Some d \<and> length d = a \<and> terminated d \<and> cstr d = cstr x"
    using set_field_eq [OF v(3) assms(2)] v by auto
  show "length (cstr x) < b \<Longrightarrow> \<exists>d. set_field (sv_value v) x = Some d \<and> length d = b \<and> terminated d \<and> cstr d = cstr x"
    using set_field_eq [OF v(4) assms(2)] v by auto
qed

text \<open>Storing in a table at the entry found or behind the last one.\<close>

lemma table_store:
  assumes ok: "list_all (var_ok a b) vars" "0 < a" "0 < b" and n: "n < length vars"
    and t: "terminated name" "terminated value" "length (cstr name) < a" "length (cstr value) < b"
  shows "case find (\<lambda>i. cstr (sv_name (vars ! i)) = cstr name) [0..<n] of
       Some i \<Rightarrow> i < n \<and> (\<exists>d. set_field (sv_value (vars ! i)) value = Some d \<and> list_all (var_ok a b) (vars[i := (vars ! i)\<lparr>sv_value := d\<rparr>])
          \<and> map fst (var_list (vars[i := (vars ! i)\<lparr>sv_value := d\<rparr>]) n) = map fst (var_list vars n)
          \<and> map_of (var_list (vars[i := (vars ! i)\<lparr>sv_value := d\<rparr>]) n) = (map_of (var_list vars n))(cstr name \<mapsto> cstr value))
     | None \<Rightarrow> (\<exists>c d. set_field (sv_name (vars ! n)) name = Some c \<and> set_field (sv_value (vars ! n)) value = Some d
          \<and> list_all (var_ok a b) (vars[n := \<lparr>sv_name = c, sv_value = d\<rparr>]) \<and> cstr name \<notin> set (map fst (var_list vars n))
          \<and> var_list (vars[n := \<lparr>sv_name = c, sv_value = d\<rparr>]) (n + 1) = var_list vars n @ [(cstr name, cstr value)]
          \<and> map_of (var_list (vars[n := \<lparr>sv_name = c, sv_value = d\<rparr>]) (n + 1)) = (map_of (var_list vars n))(cstr name \<mapsto> cstr value))"
proof (cases "find (\<lambda>i. cstr (sv_name (vars ! i)) = cstr name) [0..<n]")
  case None
  have v: "var_ok a b (vars ! n)" using var_ok_nth [OF ok(1) n] .
  obtain c d where cd: "set_field (sv_name (vars ! n)) name = Some c" "length c = a" "terminated c" "cstr c = cstr name"
    "set_field (sv_value (vars ! n)) value = Some d" "length d = b" "terminated d" "cstr d = cstr value"
    using field_stored(1) [OF v t(1) ok(2,3) t(3)] field_stored(2) [OF v t(2) ok(2,3) t(4)] by blast
  have new: "cstr name \<notin> set (map fst (var_list vars n))"
    using None n by (force simp: find_upt_None var_list_def in_set_conv_nth)
  have "list_all (var_ok a b) (vars[n := \<lparr>sv_name = c, sv_value = d\<rparr>])"
    using ok(1) cd by (intro list_all_update) (simp_all add: var_ok_def)
  moreover have l: "var_list (vars[n := \<lparr>sv_name = c, sv_value = d\<rparr>]) (n + 1) = var_list vars n @ [(cstr name, cstr value)]"
    using var_list_append [OF n, of "\<lparr>sv_name = c, sv_value = d\<rparr>"] cd by simp
  moreover have "map_of (var_list vars n @ [(cstr name, cstr value)]) = (map_of (var_list vars n))(cstr name \<mapsto> cstr value)"
    using new by (intro map_of_append_new) (simp add: dom_map_of_conv_image_fst)
  ultimately show ?thesis using None cd new by simp
next
  case (Some i)
  have i: "i < n" "i < length vars" using Some n by (auto simp: find_upt_Some)
  have v: "var_ok a b (vars ! i)" using var_ok_nth [OF ok(1) i(2)] .
  obtain d where d: "set_field (sv_value (vars ! i)) value = Some d" "length d = b" "terminated d" "cstr d = cstr value"
    using field_stored(2) [OF v t(2) ok(2,3) t(4)] by blast
  let ?v = "(vars ! i)\<lparr>sv_value := d\<rparr>"
  have "list_all (var_ok a b) (vars[i := ?v])" using ok(1) v d by (intro list_all_update) (simp_all add: var_ok_def)
  moreover have "map fst (var_list (vars[i := ?v]) n) = map fst (var_list vars n)"
    by (rule nth_equalityI) (use n i in \<open>auto simp: var_list_def nth_list_update\<close>)
  moreover have "map_of (var_list (vars[i := ?v]) n) = (map_of (var_list vars n))(cstr name \<mapsto> cstr value)"
    using var_list_update [OF Some, of ?v "cstr value"] n d(4) by simp
  ultimately show ?thesis using Some i d(1) by auto
qed

lemma env_key_eq: "env_key s = (\<lambda>i. map_option sv_name (array_get (env_vars s) i))"
  by (simp add: env_key_def fun_eq_iff)

lemma set_env_spec:
  assumes ok: "env_ok s" and room: "env_count s < 64"
    and t: "terminated name" "terminated value" "length (cstr name) < 64" "length (cstr value) < 256"
  shows "\<exists>v n. set_env_var name value s = Some (s\<lparr>env_vars := v, env_count := n\<rparr>) \<and> n \<le> env_count s + 1
     \<and> env_ok (s\<lparr>env_vars := v, env_count := n\<rparr>) \<and> map_of (var_list v n) = (env_map s)(cstr name \<mapsto> cstr value)"
proof -
  have e: "length (env_vars s) = 64" "list_all (var_ok 64 256) (env_vars s)" using ok by (auto simp: env_ok_def)
  have f: "find_named (env_key s) name 0 (env_count s) = Some (find (\<lambda>i. cstr (sv_name (env_vars s ! i)) = cstr name) [0..<env_count s])"
    unfolding env_key_eq using e room by (intro find_vars [OF t(1)]) auto
  note st = table_store [OF e(2) _ _ _ t(1-4), of "env_count s"]
  show ?thesis
  proof (cases "find (\<lambda>i. cstr (sv_name (env_vars s ! i)) = cstr name) [0..<env_count s]")
    case None
    then obtain c d where cd: "set_field (sv_name (env_vars s ! env_count s)) name = Some c" "set_field (sv_value (env_vars s ! env_count s)) value = Some d"
      "list_all (var_ok 64 256) ((env_vars s)[env_count s := \<lparr>sv_name = c, sv_value = d\<rparr>])"
      "map_of (var_list ((env_vars s)[env_count s := \<lparr>sv_name = c, sv_value = d\<rparr>]) (env_count s + 1)) = (env_map s)(cstr name \<mapsto> cstr value)"
      using st e(1) room by (auto simp: env_map_def)
    then have "set_env_var name value s = Some (s\<lparr>env_vars := (env_vars s)[env_count s := \<lparr>sv_name = c, sv_value = d\<rparr>], env_count := env_count s + 1\<rparr>)"
      using f None e(1) room by (simp add: set_env_var_def array_get_def)
    then show ?thesis using cd e(1) room by (intro exI conjI) (auto simp: env_ok_def)
  next
    case (Some i)
    then obtain d where d: "i < env_count s" "set_field (sv_value (env_vars s ! i)) value = Some d"
      "list_all (var_ok 64 256) ((env_vars s)[i := (env_vars s ! i)\<lparr>sv_value := d\<rparr>])"
      "map_of (var_list ((env_vars s)[i := (env_vars s ! i)\<lparr>sv_value := d\<rparr>]) (env_count s)) = (env_map s)(cstr name \<mapsto> cstr value)"
      using st e(1) room by (auto simp: env_map_def)
    then have "set_env_var name value s = Some (s\<lparr>env_vars := (env_vars s)[i := (env_vars s ! i)\<lparr>sv_value := d\<rparr>], env_count := env_count s\<rparr>)"
      using f Some e(1) room by (simp add: set_env_var_def array_get_def)
    then show ?thesis using d e(1) room by (intro exI conjI) (auto simp: env_ok_def)
  qed
qed

lemma get_env_eq:
  assumes "env_ok s" "terminated name"
  shows "\<exists>r. get_env_var name s = Some r \<and> map_option cstr r = env_map s (cstr name)
     \<and> (\<forall>v. r = Some v \<longrightarrow> terminated v \<and> length v = 256)"
proof -
  have e: "length (env_vars s) = 64" "list_all (var_ok 64 256) (env_vars s)" "env_count s \<le> 64" using assms(1) by (auto simp: env_ok_def)
  have f: "find_named (env_key s) name 0 (env_count s) = Some (find (\<lambda>i. cstr (sv_name (env_vars s ! i)) = cstr name) [0..<env_count s])"
    unfolding env_key_eq using e by (intro find_vars [OF assms(2)]) auto
  have m: "env_map s (cstr name) = map_option (\<lambda>i. cstr (sv_value (env_vars s ! i))) (find (\<lambda>i. cstr (sv_name (env_vars s ! i)) = cstr name) [0..<env_count s])"
    unfolding env_map_def using e by (intro map_of_var_list) simp
  show ?thesis
  proof (cases "find (\<lambda>i. cstr (sv_name (env_vars s ! i)) = cstr name) [0..<env_count s]")
    case None
    then show ?thesis using f m by (simp add: get_env_var_def)
  next
    case (Some i)
    then have "i < 64" using e(3) by (auto simp: find_upt_Some)
    then show ?thesis using Some f m e var_ok_nth [OF e(2), of i] by (auto simp: get_env_var_def array_get_def var_ok_def)
  qed
qed


lemma find_alias_eq:
  assumes "alias_ok s" "terminated name"
  shows "find_alias name s = Some (find (\<lambda>i. cstr (sv_name (aliases s ! i)) = cstr name) [0..<alias_count s])"
  unfolding find_alias_def using assms by (intro find_vars [where a = 32 and b = 128]) (auto simp: alias_ok_def)

lemma add_alias_spec:
  assumes ok: "alias_ok s" and room: "alias_count s < 32"
    and t: "terminated name" "terminated value" "length (cstr name) < 32" "length (cstr value) < 128"
  shows "\<exists>v n. add_alias name value s = Some (s\<lparr>aliases := v, alias_count := n\<rparr>) \<and> n \<le> alias_count s + 1
     \<and> alias_ok (s\<lparr>aliases := v, alias_count := n\<rparr>) \<and> map_of (var_list v n) = (alias_map s)(cstr name \<mapsto> cstr value)"
proof -
  have e: "length (aliases s) = 32" "list_all (var_ok 32 128) (aliases s)" "distinct (map fst (var_list (aliases s) (alias_count s)))"
    using ok by (auto simp: alias_ok_def)
  note f = find_alias_eq [OF ok t(1)]
  note st = table_store [OF e(2) _ _ _ t(1-4), of "alias_count s"]
  show ?thesis
  proof (cases "find (\<lambda>i. cstr (sv_name (aliases s ! i)) = cstr name) [0..<alias_count s]")
    case None
    then obtain c d where cd: "set_field (sv_name (aliases s ! alias_count s)) name = Some c" "set_field (sv_value (aliases s ! alias_count s)) value = Some d"
      "list_all (var_ok 32 128) ((aliases s)[alias_count s := \<lparr>sv_name = c, sv_value = d\<rparr>])" "cstr name \<notin> set (map fst (var_list (aliases s) (alias_count s)))"
      "var_list ((aliases s)[alias_count s := \<lparr>sv_name = c, sv_value = d\<rparr>]) (alias_count s + 1) = var_list (aliases s) (alias_count s) @ [(cstr name, cstr value)]"
      "map_of (var_list ((aliases s)[alias_count s := \<lparr>sv_name = c, sv_value = d\<rparr>]) (alias_count s + 1)) = (alias_map s)(cstr name \<mapsto> cstr value)"
      using st e(1) room by (auto simp: alias_map_def)
    then have "add_alias name value s = Some (s\<lparr>aliases := (aliases s)[alias_count s := \<lparr>sv_name = c, sv_value = d\<rparr>], alias_count := alias_count s + 1\<rparr>)"
      using f None e(1) room t by (simp add: add_alias_def strlen_eq array_get_def)
    moreover have "distinct (map fst (var_list ((aliases s)[alias_count s := \<lparr>sv_name = c, sv_value = d\<rparr>]) (alias_count s + 1)))"
      unfolding cd(5) using e(3) cd(4) by simp
    ultimately show ?thesis using cd e(1) room by (intro exI conjI) (auto simp: alias_ok_def)
  next
    case (Some i)
    then obtain d where d: "i < alias_count s" "set_field (sv_value (aliases s ! i)) value = Some d"
      "list_all (var_ok 32 128) ((aliases s)[i := (aliases s ! i)\<lparr>sv_value := d\<rparr>])"
      "map fst (var_list ((aliases s)[i := (aliases s ! i)\<lparr>sv_value := d\<rparr>]) (alias_count s)) = map fst (var_list (aliases s) (alias_count s))"
      "map_of (var_list ((aliases s)[i := (aliases s ! i)\<lparr>sv_value := d\<rparr>]) (alias_count s)) = (alias_map s)(cstr name \<mapsto> cstr value)"
      using st e(1) room by (auto simp: alias_map_def)
    then have "add_alias name value s = Some (s\<lparr>aliases := (aliases s)[i := (aliases s ! i)\<lparr>sv_value := d\<rparr>], alias_count := alias_count s\<rparr>)"
      using f Some e(1) room t by (simp add: add_alias_def strlen_eq array_get_def)
    then show ?thesis using d e(1,3) room by (intro exI conjI) (auto simp: alias_ok_def)
  qed
qed

lemma shift_aliases_eq:
  assumes "list_all (var_ok a b) t" "i + n < length t" "0 < a" "0 < b"
  shows "\<exists>t'. shift_aliases i n t = Some t' \<and> length t' = length t \<and> list_all (var_ok a b) t'
     \<and> (\<forall>j<length t. cstr (sv_name (t' ! j)) = cstr (sv_name (t ! (if i \<le> j \<and> j < i + n then j + 1 else j)))
          \<and> cstr (sv_value (t' ! j)) = cstr (sv_value (t ! (if i \<le> j \<and> j < i + n then j + 1 else j))))"
  using assms
proof (induction n arbitrary: i t)
  case (Suc n)
  have v: "var_ok a b (t ! i)" "var_ok a b (t ! (i + 1))" using var_ok_nth [OF Suc.prems(1)] Suc.prems(2) by auto
  have src: "terminated (sv_name (t ! (i + 1)))" "terminated (sv_value (t ! (i + 1)))" "length (cstr (sv_name (t ! (i + 1)))) < a"
    "length (cstr (sv_value (t ! (i + 1)))) < b" using v(2) terminated_length by (auto simp: var_ok_def)
  obtain c d where cd: "set_field (sv_name (t ! i)) (sv_name (t ! (i + 1))) = Some c" "length c = a" "terminated c" "cstr c = cstr (sv_name (t ! (i + 1)))"
    "set_field (sv_value (t ! i)) (sv_value (t ! (i + 1))) = Some d" "length d = b" "terminated d" "cstr d = cstr (sv_value (t ! (i + 1)))"
    using field_stored(1) [OF v(1) src(1) Suc.prems(3,4) src(3)] field_stored(2) [OF v(1) src(2) Suc.prems(3,4) src(4)] by blast
  let ?t = "t[i := \<lparr>sv_name = c, sv_value = d\<rparr>]"
  have "list_all (var_ok a b) ?t" by (rule list_all_update [OF Suc.prems(1)]) (use cd in \<open>simp add: var_ok_def\<close>)
  then obtain t' where t': "shift_aliases (i + 1) n ?t = Some t'" "length t' = length t" "list_all (var_ok a b) t'"
    "\<forall>j<length t. cstr (sv_name (t' ! j)) = cstr (sv_name (?t ! (if i + 1 \<le> j \<and> j < i + 1 + n then j + 1 else j)))
          \<and> cstr (sv_value (t' ! j)) = cstr (sv_value (?t ! (if i + 1 \<le> j \<and> j < i + 1 + n then j + 1 else j)))"
    using Suc.IH [of ?t "i + 1"] Suc.prems by auto
  have "shift_aliases i (Suc n) t = Some t'" using t'(1) cd(1,5) Suc.prems(2) by (simp add: array_get_def)
  moreover have "cstr (sv_name (t' ! j)) = cstr (sv_name (t ! (if i \<le> j \<and> j < i + Suc n then j + 1 else j)))
          \<and> cstr (sv_value (t' ! j)) = cstr (sv_value (t ! (if i \<le> j \<and> j < i + Suc n then j + 1 else j)))" if "j < length t" for j
    using t'(4) that cd(4,8) by (auto simp: nth_list_update)
  ultimately show ?case using t'(2,3) by blast
qed auto

lemma map_of_delete:
  assumes "distinct (map fst xs)" "i < length xs"
  shows "map_of (take i xs @ drop (Suc i) xs) = (map_of xs)(fst (xs ! i) := None)"
proof -
  obtain k v where "xs ! i = (k, v)" by force
  then obtain A B where x: "xs = A @ (k, v) # B" "length A = i"
    using id_take_nth_drop [OF assms(2)] assms(2) by (metis length_take min.absorb4)
  have e: "take i xs @ drop (Suc i) xs = A @ B" "fst (xs ! i) = k" using x by (auto simp: nth_append)
  have "k \<notin> fst ` set A" "k \<notin> fst ` set B" using assms(1) x(1) by auto
  then have "map_of A k = None" "map_of B k = None" by (simp_all add: map_of_eq_None_iff)
  then show ?thesis unfolding e unfolding x(1) by (auto simp: fun_eq_iff map_add_def split: option.splits)
qed

lemma remove_alias_spec:
  assumes ok: "alias_ok s" and t: "terminated name"
  shows "\<exists>v n. remove_alias name s = Some (s\<lparr>aliases := v, alias_count := n\<rparr>) \<and> n \<le> alias_count s
     \<and> alias_ok (s\<lparr>aliases := v, alias_count := n\<rparr>) \<and> map_of (var_list v n) = (alias_map s)(cstr name := None)"
proof -
  have e: "length (aliases s) = 32" "list_all (var_ok 32 128) (aliases s)" "distinct (map fst (var_list (aliases s) (alias_count s)))"
    "alias_count s \<le> 32" using ok by (auto simp: alias_ok_def)
  note f = find_alias_eq [OF ok t]
  have m: "alias_map s (cstr name) = map_option (\<lambda>i. cstr (sv_value (aliases s ! i))) (find (\<lambda>i. cstr (sv_name (aliases s ! i)) = cstr name) [0..<alias_count s])"
    unfolding alias_map_def using e by (intro map_of_var_list) simp
  show ?thesis
  proof (cases "find (\<lambda>i. cstr (sv_name (aliases s ! i)) = cstr name) [0..<alias_count s]")
    case None
    then have "remove_alias name s = Some (s\<lparr>aliases := aliases s, alias_count := alias_count s\<rparr>)" using f by (simp add: remove_alias_def)
    moreover have "(alias_map s)(cstr name := None) = alias_map s" using m None by (auto simp: fun_eq_iff)
    ultimately show ?thesis using ok by (intro exI conjI) (auto simp: alias_map_def)
  next
    case (Some i)
    then have i: "i < alias_count s" "cstr (sv_name (aliases s ! i)) = cstr name" by (auto simp: find_upt_Some)
    have b: "i + (alias_count s - 1 - i) < length (aliases s)" using e(1,4) i(1) by linarith
    obtain t' where t': "shift_aliases i (alias_count s - 1 - i) (aliases s) = Some t'" "length t' = 32" "list_all (var_ok 32 128) t'"
      "\<forall>j<32. cstr (sv_name (t' ! j)) = cstr (sv_name (aliases s ! (if i \<le> j \<and> j < i + (alias_count s - 1 - i) then j + 1 else j)))
          \<and> cstr (sv_value (t' ! j)) = cstr (sv_value (aliases s ! (if i \<le> j \<and> j < i + (alias_count s - 1 - i) then j + 1 else j)))"
      using shift_aliases_eq [OF e(2) b] unfolding e(1) by auto
    let ?l = "var_list (aliases s) (alias_count s)"
    have l: "var_list t' (alias_count s - 1) = take i ?l @ drop (Suc i) ?l"
    proof (rule nth_equalityI)
      show len: "length (var_list t' (alias_count s - 1)) = length (take i ?l @ drop (Suc i) ?l)"
        using t'(2) e(1,4) i(1) by (simp add: var_list_def)
      fix j assume "j < length (var_list t' (alias_count s - 1))"
      then have j: "j < alias_count s - 1" "j < 32" using t'(2) e(4) by (simp_all add: var_list_def)
      then have "(take i ?l @ drop (Suc i) ?l) ! j = ?l ! (if i \<le> j then j + 1 else j)"
        using i(1) e(1,4) by (auto simp: nth_append var_list_def)
      moreover have "?l ! k = (cstr (sv_name (aliases s ! k)), cstr (sv_value (aliases s ! k)))" if "k < alias_count s" for k
        using that e(1,4) by (simp add: var_list_def)
      moreover have "var_list t' (alias_count s - 1) ! j = (cstr (sv_name (t' ! j)), cstr (sv_value (t' ! j)))"
        using j t'(2) by (simp add: var_list_def)
      moreover have "i + (alias_count s - 1 - i) = alias_count s - 1" using i(1) by simp
      ultimately show "var_list t' (alias_count s - 1) ! j = (take i ?l @ drop (Suc i) ?l) ! j"
        using t'(4) j by auto
    qed
    have fst: "fst (?l ! i) = cstr name" "i < length ?l" using i e(1,4) by (auto simp: var_list_def)
    have "distinct (map fst (var_list t' (alias_count s - 1)))" unfolding l
      using e(3) fst(2) by (subst (asm) id_take_nth_drop [OF fst(2)]) auto
    moreover have "map_of (var_list t' (alias_count s - 1)) = (alias_map s)(cstr name := None)" unfolding l
      using map_of_delete [OF e(3) fst(2)] fst(1) by (simp add: alias_map_def)
    moreover have "remove_alias name s = Some (s\<lparr>aliases := t', alias_count := alias_count s - 1\<rparr>)"
      using f Some t'(1) by (simp add: remove_alias_def)
    ultimately show ?thesis using t'(2,3) e(4)
      by (intro exI [of _ t'] exI [of _ "alias_count s - 1"] conjI) (simp_all add: alias_ok_def)
  qed
qed


text \<open>A sequence of assignments.\<close>

fun put_all :: "(byte list \<Rightarrow> byte list \<Rightarrow> 's \<Rightarrow> 's option) \<Rightarrow> (byte list \<times> byte list) list \<Rightarrow> 's \<Rightarrow> 's option" where
  "put_all put [] s = Some s"
| "put_all put ((n, v) # xs) s = do { s \<leftarrow> put n v s; put_all put xs s }"

abbreviation strings :: "(byte list \<times> byte list) list \<Rightarrow> (byte list \<times> byte list) list" where
  "strings xs \<equiv> map (\<lambda>(n, v). (cstr n, cstr v)) xs"

text \<open>
  The interface the two tables share: a bounded table of named values. \<open>look\<close> is the map a state stands for, \<open>room\<close> the
  number of entries left, \<open>short\<close> the length limits.
\<close>

locale name_table =
  fixes inv :: "'s \<Rightarrow> bool"
    and look :: "'s \<Rightarrow> byte list \<Rightarrow> byte list option"
    and put :: "byte list \<Rightarrow> byte list \<Rightarrow> 's \<Rightarrow> 's option"
    and room :: "'s \<Rightarrow> nat"
    and short :: "byte list \<Rightarrow> byte list \<Rightarrow> bool"
  assumes put_spec: "inv s \<Longrightarrow> 0 < room s \<Longrightarrow> terminated n \<Longrightarrow> terminated v \<Longrightarrow> short (cstr n) (cstr v) \<Longrightarrow>
    \<exists>s'. put n v s = Some s' \<and> inv s' \<and> look s' = (look s)(cstr n \<mapsto> cstr v) \<and> room s \<le> room s' + 1"
begin

lemma put_run:
  "inv s \<Longrightarrow> length xs \<le> room s \<Longrightarrow> list_all (\<lambda>(n, v). terminated n \<and> terminated v \<and> short (cstr n) (cstr v)) xs \<Longrightarrow>
    \<exists>s'. put_all put xs s = Some s' \<and> inv s' \<and> look s' = look s ++ map_of (rev (strings xs))"
proof (induction xs arbitrary: s)
  case (Cons x xs)
  obtain n v where x: "x = (n, v)" by force
  obtain s1 where s1: "put n v s = Some s1" "inv s1" "look s1 = (look s)(cstr n \<mapsto> cstr v)" "room s \<le> room s1 + 1"
    using put_spec [of s n v] Cons.prems x by auto
  obtain s' where "put_all put xs s1 = Some s'" "inv s'" "look s' = look s1 ++ map_of (rev (strings xs))"
    using Cons.IH [of s1] s1(2,4) Cons.prems by auto
  then show ?case using s1 x by (auto simp: fun_eq_iff map_add_def split: option.splits)
qed simp

end

interpretation env_table: name_table env_ok env_map set_env_var "\<lambda>s. 64 - env_count s" "\<lambda>n v. length n < 64 \<and> length v < 256"
proof
  fix s :: shell and n v
  assume "env_ok s" "0 < 64 - env_count s" "terminated n" "terminated v" "length (cstr n) < 64 \<and> length (cstr v) < 256"
  then obtain t c where "set_env_var n v s = Some (s\<lparr>env_vars := t, env_count := c\<rparr>)" "c \<le> env_count s + 1"
    "env_ok (s\<lparr>env_vars := t, env_count := c\<rparr>)" "map_of (var_list t c) = (env_map s)(cstr n \<mapsto> cstr v)"
    using set_env_spec [of s n v] by auto
  then show "\<exists>s'. set_env_var n v s = Some s' \<and> env_ok s' \<and> env_map s' = (env_map s)(cstr n \<mapsto> cstr v) \<and> 64 - env_count s \<le> 64 - env_count s' + 1"
    by (intro exI [of _ "s\<lparr>env_vars := t, env_count := c\<rparr>"]) (auto simp: env_map_def)
qed

interpretation alias_table: name_table alias_ok alias_map add_alias "\<lambda>s. 32 - alias_count s" "\<lambda>n v. length n < 32 \<and> length v < 128"
proof
  fix s :: shell and n v
  assume "alias_ok s" "0 < 32 - alias_count s" "terminated n" "terminated v" "length (cstr n) < 32 \<and> length (cstr v) < 128"
  then obtain t c where "add_alias n v s = Some (s\<lparr>aliases := t, alias_count := c\<rparr>)" "c \<le> alias_count s + 1"
    "alias_ok (s\<lparr>aliases := t, alias_count := c\<rparr>)" "map_of (var_list t c) = (alias_map s)(cstr n \<mapsto> cstr v)"
    using add_alias_spec [of s n v] by auto
  then show "\<exists>s'. add_alias n v s = Some s' \<and> alias_ok s' \<and> alias_map s' = (alias_map s)(cstr n \<mapsto> cstr v) \<and> 32 - alias_count s \<le> 32 - alias_count s' + 1"
    by (intro exI [of _ "s\<lparr>aliases := t, alias_count := c\<rparr>"]) (auto simp: alias_map_def)
qed

lemma init_default_env_run:
  "init_default_env s = put_all set_env_var [(clit ''PATH'', clit ''/bin:/usr/bin''), (clit ''HOME'', clit ''/''), (clit ''USER'', clit ''root''),
     (clit ''SHELL'', clit ''/bin/sh''), (clit ''PWD'', clit ''/'')] s"
proof -
  have c: "put_all f ((n, v) # xs) = (\<lambda>s. do { s \<leftarrow> f n v s; put_all f xs s })" "put_all f [] = Some"
    for f :: "byte list \<Rightarrow> byte list \<Rightarrow> shell \<Rightarrow> shell option" and n v xs by (simp_all add: fun_eq_iff)
  show ?thesis unfolding c by (simp add: init_default_env_def)
qed

text \<open>The shell when the system starts: the static arrays are zero, the screen is blank.\<close>

definition boot_shell :: shell where
  "boot_shell = \<lparr>w_fs = booted_fs, w_kbd = boot_kbd, w_stdout = stdout_stream, w_heap = boot_heap,
     command_history = replicate 100 (replicate 256 0), history_count = 0, history_pos = -1,
     env_vars = replicate 64 \<lparr>sv_name = replicate 64 0, sv_value = replicate 256 0\<rparr>, env_count = 0,
     aliases = replicate 32 \<lparr>sv_name = replicate 32 0, sv_value = replicate 128 0\<rparr>, alias_count = 0\<rparr>"

lemma boot_env_ok: "env_ok boot_shell" "env_map boot_shell = Map.empty" "alias_ok boot_shell" "alias_map boot_shell = Map.empty"
  by (simp_all add: env_ok_def alias_ok_def env_map_def alias_map_def var_list_def boot_shell_def var_ok_def terminated_def list_all_iff)

text \<open>
  C26: the environment is a map: after any sequence of assignments that fits in the table, \<open>get_env_var\<close> finds for every name
  the value last assigned to it, and for a name not assigned what it found before.
\<close>

theorem environment_map:
  assumes "env_ok s" "env_count s + length xs \<le> 64" "terminated name"
    and "list_all (\<lambda>(n, v). terminated n \<and> terminated v \<and> length (cstr n) < 64 \<and> length (cstr v) < 256) xs"
  shows "\<exists>s' r. put_all set_env_var xs s = Some s' \<and> env_ok s' \<and> get_env_var name s' = Some r
     \<and> map_option cstr r = (env_map s ++ map_of (rev (strings xs))) (cstr name)"
proof -
  have le: "length xs \<le> 64 - env_count s" using assms(2) by simp
  obtain s' where s': "put_all set_env_var xs s = Some s'" "env_ok s'" "env_map s' = env_map s ++ map_of (rev (strings xs))"
    using env_table.put_run [OF assms(1) le assms(4)] by blast
  then show ?thesis using get_env_eq [OF s'(2) assms(3)] by auto
qed

theorem environment_map_witness:
  "\<exists>s' r. init_default_env boot_shell = Some s' \<and> env_ok s' \<and> get_env_var (clit ''USER'') s' = Some r \<and> map_option cstr r = Some (lit ''root'')"
proof -
  let ?xs = "[(clit ''PATH'', clit ''/bin:/usr/bin''), (clit ''HOME'', clit ''/''), (clit ''USER'', clit ''root''),
     (clit ''SHELL'', clit ''/bin/sh''), (clit ''PWD'', clit ''/'')]"
  have "list_all (\<lambda>(n, v). terminated n \<and> terminated v \<and> length (cstr n) < 64 \<and> length (cstr v) < 256) ?xs" by simp
  then obtain s' r where "put_all set_env_var ?xs boot_shell = Some s'" "env_ok s'" "get_env_var (clit ''USER'') s' = Some r"
     "map_option cstr r = (env_map boot_shell ++ map_of (rev (strings ?xs))) (cstr (clit ''USER''))"
    using environment_map [OF boot_env_ok(1), of ?xs "clit ''USER''"] by (auto simp: boot_shell_def)
  then show ?thesis unfolding init_default_env_run by (auto simp: lit_def clit_def)
qed


text \<open>
  Defining an alias and deleting it again restores the aliases: for a new name within the limits, the alias is found with its
  value after \<open>add_alias\<close>, and \<open>remove_alias\<close> gives back the same set of aliases.
\<close>

theorem alias_add_remove:
  assumes "alias_ok s" "alias_count s < 32" "terminated name" "terminated value" "length (cstr name) < 32" "length (cstr value) < 128"
    and "alias_map s (cstr name) = None"
  shows "\<exists>s1 s2. add_alias name value s = Some s1 \<and> alias_map s1 (cstr name) = Some (cstr value)
     \<and> remove_alias name s1 = Some s2 \<and> alias_ok s2 \<and> alias_map s2 = alias_map s"
proof -
  obtain v n where a: "add_alias name value s = Some (s\<lparr>aliases := v, alias_count := n\<rparr>)" "alias_ok (s\<lparr>aliases := v, alias_count := n\<rparr>)"
    "map_of (var_list v n) = (alias_map s)(cstr name \<mapsto> cstr value)" using add_alias_spec [OF assms(1-6)] by blast
  let ?s = "s\<lparr>aliases := v, alias_count := n\<rparr>"
  obtain v' n' where r: "remove_alias name ?s = Some (?s\<lparr>aliases := v', alias_count := n'\<rparr>)" "alias_ok (?s\<lparr>aliases := v', alias_count := n'\<rparr>)"
    "map_of (var_list v' n') = (alias_map ?s)(cstr name := None)" using remove_alias_spec [OF a(2) assms(3)] by blast
  have "alias_map ?s = (alias_map s)(cstr name \<mapsto> cstr value)" using a(3) by (simp add: alias_map_def)
  moreover have "(alias_map s)(cstr name := None) = alias_map s" using assms(7) by (auto simp: fun_eq_iff)
  ultimately show ?thesis using a r by (auto simp: alias_map_def)
qed

theorem alias_add_remove_witness:
  "\<exists>s1 s2. add_alias (clit ''ll'') (clit ''ls -l'') boot_shell = Some s1 \<and> alias_map s1 (lit ''ll'') = Some (lit ''ls -l'')
     \<and> remove_alias (clit ''ll'') s1 = Some s2 \<and> alias_ok s2 \<and> alias_map s2 = Map.empty"
  using alias_add_remove [OF boot_env_ok(3), of "clit ''ll''" "clit ''ls -l''"] boot_env_ok(4) by (simp add: boot_shell_def)

section \<open>Expansion computes the text\<close>

function expand :: "(byte list \<Rightarrow> byte list option) \<Rightarrow> byte list \<Rightarrow> byte list" where
  "expand env [] = []"
| "expand env (c # s) =
     (if c = 36
      then (case env (take 63 (takeWhile name_char s)) of Some v \<Rightarrow> v | None \<Rightarrow> []) @ expand env (dropWhile name_char s)
      else c # expand env s)"
  by pat_completeness auto
termination
  by (relation "measure (\<lambda>(_, s). length s)") (auto simp: le_imp_less_Suc length_dropWhile_le)

lemma env_value_nonzero: "env_map s k = Some v \<Longrightarrow> 0 \<notin> set v"
  unfolding env_map_def by (auto simp: var_list_def dest!: map_of_SomeD cstr_nonzero)

lemma expand_nonzero: "0 \<notin> set t \<Longrightarrow> 0 \<notin> set (expand (env_map s) t)"
  by (induction "env_map s" t rule: expand.induct) (auto simp: env_value_nonzero dest: set_dropWhileD split: option.splits)

text \<open>The name of a variable, cut at 63 characters, is looked up.\<close>

lemma lookup_name:
  assumes "env_ok s" "terminated input" "scan (\<lambda>c. \<not> name_char c) input = Some (w, t)"
  shows "\<exists>v r. (do { v \<leftarrow> strncpy (replicate 64 0) input (if length w \<ge> 64 then 63 else length w);
                   array_set v (if length w \<ge> 64 then 63 else length w) 0 }) = Some v
     \<and> get_env_var v s = Some r \<and> map_option cstr r = env_map s (take 63 w) \<and> (\<forall>x. r = Some x \<longrightarrow> terminated x)"
proof -
  have w: "w = takeWhile name_char (cstr input)" using scan_cstr [OF assms(2), of "\<lambda>c. \<not> name_char c"] assms(3) by auto
  have nz: "0 \<notin> set w" unfolding w by (rule takeWhile_cstr_zero)
  define n where "n = (if length w \<ge> 64 then 63 else length w)"
  obtain y where y: "cstr input = w @ y" using takeWhile_dropWhile_id [of name_char "cstr input"] w by metis
  have n: "n \<le> length w" "n < 64" "n \<le> length (cstr input)" "take n (cstr input) = take 63 w"
    unfolding y by (auto simp: n_def)
  have "strncpy (replicate 64 0) input n = Some (take 63 w @ replicate (64 - n) 0)"
    using n by (simp add: strncpy_eq)
  moreover have l: "length (take 63 w) = n" unfolding n_def by auto
  have "replicate (64 - n) (0 :: byte) = 0 # replicate (63 - n) 0" using n(2) by (simp add: Suc_diff_le [symmetric] flip: replicate_Suc)
  then have "(take 63 w @ replicate (64 - n) 0)[n := 0] = take 63 w @ replicate (64 - n) (0 :: byte)"
    using list_update_length [of "take 63 w" 0 "replicate (63 - n) 0" 0] l by simp
  ultimately have s: "(do { v \<leftarrow> strncpy (replicate 64 0) input n; array_set v n 0 }) = Some (take 63 w @ replicate (64 - n) 0)"
    using n(2) l by (simp add: array_set_def del: length_take) 
  have c: "cstr (take 63 w @ replicate (64 - n) 0) = take 63 w" "terminated (take 63 w @ replicate (64 - n) 0)"
    using nz n(2) by (auto intro!: cstr_stop dest: in_set_takeD simp: terminated_def)
  obtain r where "get_env_var (take 63 w @ replicate (64 - n) 0) s = Some r" "map_option cstr r = env_map s (take 63 w)"
    "\<forall>x. r = Some x \<longrightarrow> terminated x" using get_env_eq [OF assms(1) c(2)] c(1) by auto
  then show ?thesis using s unfolding n_def by blast
qed


lemma expand_loop_eq:
  assumes "env_ok s" "257 \<le> sz"
  shows "terminated input \<Longrightarrow> length out = 256 \<Longrightarrow> k + length (expand (env_map s) (cstr input)) \<le> 255 \<Longrightarrow>
    \<exists>out'. expand_loop s sz input out k = Some (out', k + length (expand (env_map s) (cstr input))) \<and> length out' = 256
      \<and> take (k + length (expand (env_map s) (cstr input))) out' = take k out @ expand (env_map s) (cstr input)"
proof (induction "length input" arbitrary: input out k rule: less_induct)
  case less
  obtain c r where cr: "input = c # r" using less.prems(1) by (cases input) auto
  have k: "k < sz - 1" "k < length out" using less.prems(2,3) assms(2) by auto
  consider (stop) "c = 0" | (var) "c = 36" | (plain) "c \<noteq> 0" "c \<noteq> 36" by blast
  then show ?case
  proof cases
    case stop
    then have "expand_loop s sz input out k = Some (out, k)" using cr by (subst expand_loop.simps) simp
    then show ?thesis using stop cr less.prems(2) by simp
  next
    case plain
    have r: "terminated r" using less.prems(1) cr plain by simp
    have e: "expand (env_map s) (cstr input) = c # expand (env_map s) (cstr r)" using cr plain by simp
    obtain out' where o: "expand_loop s sz r (out[k := c]) (k + 1) = Some (out', k + 1 + length (expand (env_map s) (cstr r)))" "length out' = 256"
      "take (k + 1 + length (expand (env_map s) (cstr r))) out' = take (k + 1) (out[k := c]) @ expand (env_map s) (cstr r)"
      using less.hyps [of r "out[k := c]" "k + 1"] cr r less.prems(2,3) e by auto
    have "expand_loop s sz input out k = expand_loop s sz r (out[k := c]) (k + 1)"
      using cr plain k by (subst expand_loop.simps) (simp add: array_set_def)
    then show ?thesis using o e k(2) by (simp add: take_Suc_conv_app_nth)
  next
    case var
    have r: "terminated r" using less.prems(1) cr var by simp
    obtain t where t: "scan (\<lambda>c. \<not> name_char c) r = Some (takeWhile name_char (cstr r), t)" "terminated t"
      "cstr t = dropWhile name_char (cstr r)" "r = takeWhile name_char (cstr r) @ t" using scan_cstr [OF r, of "\<lambda>c. \<not> name_char c"] by auto
    let ?w = "takeWhile name_char (cstr r)"
    have lt: "length t < length input" using arg_cong [OF t(4), of length] cr by simp
    obtain v x where v: "(do { v \<leftarrow> strncpy (replicate 64 0) r (if length ?w \<ge> 64 then 63 else length ?w);
                   array_set v (if length ?w \<ge> 64 then 63 else length ?w) 0 }) = Some v"
      "get_env_var v s = Some x" "map_option cstr x = env_map s (take 63 ?w)" "\<forall>y. x = Some y \<longrightarrow> terminated y"
      using lookup_name [OF assms(1) r t(1)] by blast
    obtain v0 where v0: "strncpy (replicate 64 0) r (if length ?w \<ge> 64 then 63 else length ?w) = Some v0"
      "array_set v0 (if length ?w \<ge> 64 then 63 else length ?w) 0 = Some v" using v(1) by (auto simp: bind_eq_Some_conv)
    let ?rest = "expand (env_map s) (cstr t)"
    let ?val = "case x of Some y \<Rightarrow> cstr y | None \<Rightarrow> []"
    have e: "expand (env_map s) (cstr input) = ?val @ ?rest"
      using cr var t(3) by (cases x) (simp_all add: v(3) [symmetric])
    let ?out = "take k out @ ?val @ drop (k + length ?val) out"
    have len: "k + length ?val + length ?rest \<le> 255" using less.prems(3) unfolding e by simp
    have lo: "length ?out = 256" using less.prems(2) len by simp
    have step: "expand_loop s sz input out k = expand_loop s sz t ?out (k + length ?val)"
    proof (cases x)
      case None
      then show ?thesis using cr var t(1) v0 v(2) k less.prems(2) by (subst expand_loop.simps) (simp add: Let_def split del: if_split cong: if_cong)
    next
      case (Some y)
      then have y: "terminated y" "strlen y = Some (length (cstr y))" using v(4) by (simp_all add: strlen_eq)
      have "\<not> sz - 1 \<le> k + length (cstr y)" using len Some assms(2) by simp
      moreover have "at_offset k (\<lambda>d. strncpy d y (length (cstr y))) out = Some ?out"
        using Some k less.prems(2) len y(1) by (simp add: at_offset_def strncpy_eq add.commute)
      ultimately show ?thesis using cr var t(1) v0 v(2) k y Some by (subst expand_loop.simps) (simp add: Let_def split del: if_split cong: if_cong)
    qed
    obtain out' where o: "expand_loop s sz t ?out (k + length ?val) = Some (out', k + length ?val + length ?rest)" "length out' = 256"
      "take (k + length ?val + length ?rest) out' = take (k + length ?val) ?out @ ?rest"
      using less.hyps [OF lt t(2) lo] len by blast
    have "take (k + length ?val) ?out = take k out @ ?val" using k less.prems(2) len by simp
    then show ?thesis unfolding e using step o by (simp add: add.assoc)
  qed
qed

lemma expand_env_vars_eq:
  assumes "env_ok s" "257 \<le> sz" "terminated buf" "256 \<le> length buf" "length (expand (env_map s) (cstr buf)) \<le> 255"
  shows "expand_env_vars buf sz s = Some (expand (env_map s) (cstr buf) @ drop (length (expand (env_map s) (cstr buf))) buf)"
proof -
  let ?e = "expand (env_map s) (cstr buf)"
  obtain out where o: "expand_loop s sz buf (replicate 256 0) 0 = Some (out, length ?e)" "length out = 256" "take (length ?e) out = ?e"
    using expand_loop_eq [OF assms(1,2,3), of "replicate 256 0" 0] assms(5) by auto
  have "out[length ?e := 0] = ?e @ 0 # drop (Suc (length ?e)) out"
    using o(2,3) assms(5) upd_conv_take_nth_drop [of "length ?e" out 0] by simp
  then have "cstr (out[length ?e := 0]) = ?e" "terminated (out[length ?e := 0])"
    using expand_nonzero [of "cstr buf" s] cstr_nonzero [of 0 buf] by (auto simp: cstr_append_terminated)
  then have "strcpy buf (out[length ?e := 0]) = Some (?e @ drop (length ?e) buf)"
    using assms(4,5) by (simp add: strcpy_eq)
  then show ?thesis using o assms(5) by (simp add: expand_env_vars_def array_set_def)
qed


text \<open>
  Expansion writes the expected text over the line: every \<open>$NAME\<close> is replaced by the value of the variable, by nothing if it is
  not set, and everything else is kept. The result is copied with \<open>strcpy\<close>, which does not store the terminator, so behind
  the new text the buffer keeps its old contents. The whole computation stays inside its arrays when the text
  has at most 255 characters.
\<close>

theorem expand_env_vars_text:
  assumes "env_ok s" "terminated buf" "length buf = 4096" "length (expand (env_map s) (cstr buf)) \<le> 255"
  shows "\<exists>buf'. expand_env_vars buf 4096 s = Some buf' \<and> length buf' = 4096
     \<and> (let e = expand (env_map s) (cstr buf) in take (length e) buf' = e \<and> drop (length e) buf' = drop (length e) buf)"
  using expand_env_vars_eq [OF assms(1) _ assms(2), of 4096] assms(3,4) by (auto simp: Let_def)

lemma expand_plain: "36 \<notin> set pre \<Longrightarrow> expand env (pre @ t) = pre @ expand env t"
  by (induction pre) auto

lemma expand_name: "list_all name_char name \<Longrightarrow> expand env (36 # name) = (case env (take 63 name) of Some v \<Rightarrow> v | None \<Rightarrow> [])"
  by (simp add: takeWhile_eq_self list_all_iff dropWhile_eq_Nil_conv [THEN iffD2])

definition demo_line :: "string \<Rightarrow> byte list" where
  "demo_line t = lit t @ replicate (4096 - length t) 0"

lemma demo_line_facts:
  assumes "length t < 4096" "0 \<notin> set (lit t)"
  shows "length (demo_line t) = 4096" "terminated (demo_line t)" "cstr (demo_line t) = lit t"
proof -
  have "replicate (4096 - length t) (0 :: byte) = 0 # replicate (4095 - length t) 0"
    using assms(1) by (simp add: Suc_diff_le [symmetric] flip: replicate_Suc)
  then show "length (demo_line t) = 4096" "terminated (demo_line t)" "cstr (demo_line t) = lit t"
    using assms by (simp_all add: demo_line_def lit_def cstr_append_terminated)
qed

theorem expand_env_vars_text_witness:
  "\<exists>s buf'. init_default_env boot_shell = Some s \<and> expand_env_vars (demo_line ''echo $USER'') 4096 s = Some buf' \<and> length buf' = 4096
     \<and> take 9 buf' = lit ''echo root'' \<and> drop 9 buf' = drop 9 (demo_line ''echo $USER'')"
proof -
  let ?xs = "[(clit ''PATH'', clit ''/bin:/usr/bin''), (clit ''HOME'', clit ''/''), (clit ''USER'', clit ''root''),
     (clit ''SHELL'', clit ''/bin/sh''), (clit ''PWD'', clit ''/'')]"
  have f: "list_all (\<lambda>(n, v). terminated n \<and> terminated v \<and> length (cstr n) < 64 \<and> length (cstr v) < 256) ?xs" by simp
  obtain s where s: "init_default_env boot_shell = Some s" "env_ok s" "env_map s = env_map boot_shell ++ map_of (rev (strings ?xs))"
    using env_table.put_run [OF boot_env_ok(1) _ f] unfolding init_default_env_run by (auto simp: boot_shell_def)
  have l: "length (demo_line ''echo $USER'') = 4096" "terminated (demo_line ''echo $USER'')" "cstr (demo_line ''echo $USER'') = lit ''echo $USER''"
    using demo_line_facts [of "''echo $USER''"] by (simp_all add: lit_def)
  have e: "expand (env_map s) (lit ''echo $USER'') = lit ''echo root''"
    unfolding s(3) boot_env_ok(2) by (simp add: lit_def clit_def name_char_def)
  have n: "length (lit ''echo root'') = 9" by (simp add: lit_def)
  show ?thesis using expand_env_vars_text [OF s(2) l(2,1)] s(1) unfolding l(3) e Let_def n by simp
qed

text \<open>
  An unset variable is not removed: when the last word of a line is \<open>$NAME\<close> for a variable that is not set, expansion leaves the whole
  buffer as it was, so the command is given the text \<open>$NAME\<close> itself.
\<close>

theorem unset_variable_kept:
  assumes "env_ok s" "terminated buf" "length buf = 4096" "cstr buf = pre @ 36 # name" "36 \<notin> set pre" "length pre \<le> 255"
    "list_all name_char name" "env_map s (take 63 name) = None"
  shows "expand_env_vars buf 4096 s = Some buf"
proof -
  have e: "expand (env_map s) (cstr buf) = pre"
    unfolding assms(4) expand_plain [OF assms(5)] expand_name [OF assms(7)] by (simp add: assms(8))
  have "expand_env_vars buf 4096 s = Some (pre @ drop (length pre) buf)"
    using expand_env_vars_eq [OF assms(1) _ assms(2), of 4096] assms(3,6) unfolding e by simp
  moreover have "pre = take (length pre) buf" using assms(4) takeWhile_eq_take [of "\<lambda>c. c \<noteq> 0" buf] unfolding cstr_def
    by (metis append_eq_conv_conj append_take_drop_id length_append le_add1 min.absorb1 take_take)
  ultimately show ?thesis by (metis append_take_drop_id)
qed

theorem unset_variable_kept_witness:
  "expand_env_vars (demo_line ''echo $NOPE'') 4096 boot_shell = Some (demo_line ''echo $NOPE'')"
proof -
  have l: "length (demo_line ''echo $NOPE'') = 4096" "terminated (demo_line ''echo $NOPE'')" "cstr (demo_line ''echo $NOPE'') = lit ''echo '' @ 36 # lit ''NOPE''"
    using demo_line_facts [of "''echo $NOPE''"] by (simp_all add: lit_def)
  show ?thesis
    by (rule unset_variable_kept [OF boot_env_ok(1) l(2,1,3)]) (simp_all add: lit_def name_char_def boot_env_ok(2))
qed


section \<open>The history\<close>

definition history_ok :: "shell \<Rightarrow> bool" where
  "history_ok s \<longleftrightarrow> length (command_history s) = 100 \<and> list_all (\<lambda>r. length r = 256 \<and> terminated r) (command_history s)
     \<and> history_count s \<le> 100 \<and> (\<forall>i<100. history_count s \<le> i \<longrightarrow> command_history s ! i = replicate 256 0)"

definition history_list :: "shell \<Rightarrow> byte list list" where
  "history_list s = map cstr (take (history_count s) (command_history s))"

fun add_all :: "byte list list \<Rightarrow> shell \<Rightarrow> shell option" where
  "add_all [] s = Some s"
| "add_all (c # cs) s = do { s \<leftarrow> add_to_history c s; add_all cs s }"

text \<open>The result of pressing the arrow key \<open>n + 1\<close> times.\<close>

fun prev_times :: "nat \<Rightarrow> shell \<Rightarrow> byte list option option" where
  "prev_times 0 s = map_option fst (get_history_prev s)"
| "prev_times (Suc n) s = do { (_, s) \<leftarrow> get_history_prev s; prev_times n s }"

lemma history_row: "history_ok s \<Longrightarrow> i < 100 \<Longrightarrow> length (command_history s ! i) = 256 \<and> terminated (command_history s ! i)"
  by (auto simp: history_ok_def list_all_length)

lemma add_history:
  assumes ok: "history_ok s" and n: "history_count s < 100" and c: "terminated cmd" "length (cstr cmd) < 256"
  shows "\<exists>s'. add_to_history cmd s = Some s' \<and> history_ok s' \<and> history_list s' = history_list s @ [cstr cmd]
     \<and> history_count s' = history_count s + 1 \<and> history_pos s' = int (history_count s')"
proof -
  let ?n = "history_count s"
  have z: "command_history s ! ?n = replicate 256 0" "length (command_history s) = 100" using ok n by (auto simp: history_ok_def)
  let ?r = "cstr cmd @ replicate (256 - length (cstr cmd)) 0"
  have r: "strcpy (command_history s ! ?n) cmd = Some ?r" using c z(1) by (simp add: strcpy_eq)
  have cr: "cstr ?r = cstr cmd" "terminated ?r" "length ?r = 256"
    using c(2) cstr_nonzero [of 0 cmd] by (auto intro!: cstr_stop simp: terminated_def)
  let ?s = "s\<lparr>command_history := (command_history s)[?n := ?r], history_count := ?n + 1, history_pos := int (?n + 1)\<rparr>"
  have "add_to_history cmd s = Some ?s"
    using n r z(2) by (simp add: add_to_history_def set_history_def array_get_def)
  moreover have "history_ok ?s"
  proof -
    have "list_all (\<lambda>r. length r = 256 \<and> terminated r) ((command_history s)[?n := ?r])"
      by (rule list_all_update) (use ok cr in \<open>auto simp: history_ok_def\<close>)
    then show ?thesis using ok n by (auto simp: history_ok_def)
  qed
  moreover have "history_list ?s = history_list s @ [cstr cmd]"
    using n z(2) cr(1) by (simp add: history_list_def take_Suc_conv_app_nth)
  ultimately show ?thesis by (intro exI [of _ ?s]) simp
qed

lemma add_all_history:
  "history_ok s \<Longrightarrow> history_count s + length cs \<le> 100 \<Longrightarrow> list_all (\<lambda>c. terminated c \<and> length (cstr c) < 256) cs \<Longrightarrow> cs \<noteq> [] \<Longrightarrow>
     \<exists>s'. add_all cs s = Some s' \<and> history_ok s' \<and> history_list s' = history_list s @ map cstr cs \<and> history_pos s' = int (history_count s')"
proof (induction cs arbitrary: s)
  case (Cons c cs)
  obtain s1 where s1: "add_to_history c s = Some s1" "history_ok s1" "history_list s1 = history_list s @ [cstr c]"
    "history_count s1 = history_count s + 1" "history_pos s1 = int (history_count s1)"
    using add_history [of s c] Cons.prems by auto
  show ?case
  proof (cases "cs = []")
    case False
    then show ?thesis using Cons.IH [of s1] Cons.prems s1 by auto
  qed (use s1 in simp)
qed simp

lemma prev_times_eq:
  assumes "history_ok s" "history_pos s = int p" "p \<le> 100" "history_count s \<le> 100"
  shows "prev_times n s = Some (if n < p then Some (command_history s ! (p - 1 - n)) else None)"
  using assms
proof (induction n arbitrary: s p)
  case 0
  then show ?case by (auto simp: get_history_prev_def array_get_def history_ok_def nat_diff_distrib)
next
  case (Suc n)
  show ?case
  proof (cases "p = 0")
    case True
    then show ?thesis using Suc.IH [of s 0] Suc.prems by (simp add: get_history_prev_def)
  next
    case False
    let ?s = "s\<lparr>history_pos := int (p - 1)\<rparr>"
    have "get_history_prev s = Some (Some (command_history s ! (p - 1)), ?s)"
      using False Suc.prems by (auto simp: get_history_prev_def array_get_def history_ok_def nat_diff_distrib of_nat_diff)
    moreover have "prev_times n ?s = Some (if n < p - 1 then Some (command_history s ! (p - 1 - 1 - n)) else None)"
      using Suc.IH [of ?s "p - 1"] Suc.prems by (simp add: history_ok_def)
    ultimately show ?thesis by auto
  qed
qed

text \<open>
  The history gives back the commands: after entering up to a hundred commands in a fresh shell, pressing the up arrow \<open>i + 1\<close> times
  shows the \<open>i\<close>-th last command, and nothing when there is none.
\<close>

theorem history_recall:
  assumes "history_ok s" "history_count s = 0" "cs \<noteq> []" "length cs \<le> 100" "list_all (\<lambda>c. terminated c \<and> length (cstr c) < 256) cs"
  shows "\<exists>s' r. add_all cs s = Some s' \<and> prev_times i s' = Some r \<and> map_option cstr r = (if i < length cs then Some (cstr (rev cs ! i)) else None)"
proof -
  obtain s' where s': "add_all cs s = Some s'" "history_ok s'" "history_list s' = map cstr cs" "history_pos s' = int (history_count s')"
    using add_all_history [OF assms(1) _ assms(5,3)] assms(2,4) by (auto simp: history_list_def)
  have l: "history_count s' = length cs" "length (command_history s') = 100" "history_count s' \<le> 100"
    using arg_cong [OF s'(3), of length] s'(2) by (auto simp: history_list_def history_ok_def)
  have "cstr (command_history s' ! (length cs - 1 - i)) = cstr (rev cs ! i)" if "i < length cs"
    using arg_cong [OF s'(3), of "\<lambda>l. l ! (length cs - 1 - i)"] that l by (simp add: history_list_def rev_nth)
  then show ?thesis using prev_times_eq [OF s'(2,4), of i] l s'(1) by auto
qed

lemma boot_history: "history_ok boot_shell" "history_count boot_shell = 0"
  by (simp_all add: history_ok_def boot_shell_def list_all_iff terminated_def)

theorem history_recall_witness:
  "\<exists>s' r. add_all [clit ''ls'', clit ''pwd''] boot_shell = Some s' \<and> prev_times 1 s' = Some r \<and> map_option cstr r = Some (lit ''ls'')"
  using history_recall [OF boot_history, of "[clit ''ls'', clit ''pwd'']" 1] by simp


text \<open>What \<open>strcpy\<close> makes of a row: the new command, then the rest of the old row.\<close>

abbreviation overlaid :: "byte list \<Rightarrow> byte list \<Rightarrow> byte list" where
  "overlaid d c \<equiv> cstr c @ drop (length (cstr c)) d"

lemma shift_history_eq:
  assumes "list_all (\<lambda>r. length r = 256 \<and> terminated r) (drop (i - 1) h)" "1 \<le> i" "i + n \<le> length h"
  shows "\<exists>h'. shift_history i n h = Some h' \<and> length h' = length h
     \<and> (\<forall>j<length h. h' ! j = (if i - 1 \<le> j \<and> j < i - 1 + n then overlaid (h ! j) (h ! (j + 1)) else h ! j))"
  using assms
proof (induction n arbitrary: i h)
  case (Suc n)
  have rows: "length (h ! j) = 256 \<and> terminated (h ! j)" if "i - 1 \<le> j" "j < length h" for j
  proof -
    have "h ! j \<in> set (drop (i - 1) h)" using that nth_mem [of "j - (i - 1)" "drop (i - 1) h"] by simp
    then show ?thesis using Suc.prems(1) by (simp only: list_all_iff)
  qed
  have r: "strcpy (h ! (i - 1)) (h ! i) = Some (overlaid (h ! (i - 1)) (h ! i))"
    using rows [of i] rows [of "i - 1"] terminated_length [of "h ! i"] Suc.prems(2,3) by (simp add: strcpy_eq)
  let ?h = "h[i - 1 := overlaid (h ! (i - 1)) (h ! i)]"
  have "list_all (\<lambda>r. length r = 256 \<and> terminated r) (drop (i + 1 - 1) ?h)"
    using rows Suc.prems(2) by (auto simp: list_all_length)
  then obtain h' where h': "shift_history (i + 1) n ?h = Some h'" "length h' = length h"
    "\<forall>j<length h. h' ! j = (if i \<le> j \<and> j < i + n then overlaid (?h ! j) (?h ! (j + 1)) else ?h ! j)"
    using Suc.IH [of "i + 1" ?h] Suc.prems by auto
  have "shift_history i (Suc n) h = Some h'" using h'(1) r Suc.prems(2,3) by (simp add: array_get_def)
  moreover have "h' ! j = (if i - 1 \<le> j \<and> j < i - 1 + Suc n then overlaid (h ! j) (h ! (j + 1)) else h ! j)" if "j < length h" for j
    using h'(3) that Suc.prems(2,3) by (auto simp: nth_list_update)
  ultimately show ?case using h'(2) by blast
qed auto

text \<open>
  A full history mixes commands: when the hundred rows are used, adding a command moves every row down with \<open>strcpy\<close>, which does not store
  a terminator, so each row holds the next command followed by the characters of its old command that the new
  one does not cover.
\<close>

theorem history_full_mixes:
  assumes "history_ok s" "history_count s = 100" "terminated cmd" "length (cstr cmd) < 256"
  shows "\<exists>s'. add_to_history cmd s = Some s' \<and> length (command_history s') = 100
     \<and> (\<forall>i<100. command_history s' ! i = overlaid (command_history s ! i) ((command_history s @ [cmd]) ! (i + 1)))"
proof -
  let ?h = "command_history s"
  have h: "length ?h = 100" "list_all (\<lambda>r. length r = 256 \<and> terminated r) ?h" using assms(1) by (auto simp: history_ok_def)
  obtain h' where h': "shift_history 1 99 ?h = Some h'" "length h' = 100"
    "\<forall>j<100. h' ! j = (if j < 99 then overlaid (?h ! j) (?h ! (j + 1)) else ?h ! j)"
    using shift_history_eq [of 1 ?h 99] h by auto
  have "strcpy (?h ! 99) cmd = Some (overlaid (?h ! 99) cmd)"
    using history_row [OF assms(1), of 99] assms(3,4) by (simp add: strcpy_eq)
  then have "add_to_history cmd s = Some (s\<lparr>command_history := h'[99 := overlaid (?h ! 99) cmd], history_pos := 100\<rparr>)"
    using assms(2) h' by (simp add: add_to_history_def set_history_def array_get_def)
  moreover have "(?h @ [cmd]) ! (i + 1) = (if i < 99 then ?h ! (i + 1) else cmd)" if "i < 100" for i
    using that h(1) by (auto simp: nth_append)
  ultimately show ?thesis using h' by (auto simp: nth_list_update)
qed

theorem history_full_mixes_witness:
  "\<exists>s'. add_to_history (clit ''ls'') (boot_shell\<lparr>command_history := replicate 100 (lit ''make'' @ replicate 252 0), history_count := 100\<rparr>) = Some s'
     \<and> length (command_history s') = 100 \<and> command_history s' ! 99 = lit ''lske'' @ replicate 252 0"
proof -
  let ?s = "boot_shell\<lparr>command_history := replicate 100 (lit ''make'' @ replicate 252 0), history_count := 100\<rparr>"
  have "history_ok ?s" by (auto simp: history_ok_def list_all_iff terminated_def lit_def)
  then show ?thesis using history_full_mixes [of ?s "clit ''ls''"] by (force simp: lit_def nth_append)
qed


section \<open>Reading a line\<close>

lemma shell_reset:
  "\<exists>b. shell_buffer_reset k = Some (k\<lparr>input_buffer := b, buffer_read_idx := 0, buffer_write_idx := 0\<rparr>)"
  by (cases "input_buffer k") (auto simp: shell_buffer_reset_def memset_eq)

text \<open>One character that is neither a newline nor an arrow key edits the line.\<close>

definition holds_line :: "nat \<Rightarrow> editor \<Rightarrow> byte list \<Rightarrow> bool" where
  "holds_line sz e l \<longleftrightarrow> take (ed_idx e) (ed_buf e) = l \<and> length l = ed_idx e \<and> ed_idx e < sz \<and> sz \<le> length (ed_buf e)"

lemma line_char:
  assumes h: "holds_line sz e l" and k: "kb_ok k" and n: "next_char (w_kbd s) = Some (c, k)" "c \<noteq> 0" "c \<notin> {10, 13, KEY_UP, KEY_DOWN}"
  shows "\<exists>e' k'. line_loop sz e s = line_loop sz e' (s\<lparr>w_kbd := k'\<rparr>) \<and> holds_line sz e' (line_step sz l c) \<and> length (ed_buf e') = length (ed_buf e)
     \<and> kb_ok k' \<and> kb_events k' = kb_events k \<and> (\<forall>es. chars_of es k' = chars_of es k)"
proof -
  let ?i = "ed_idx e" and ?b = "ed_buf e"
  have b: "take ?i ?b = l" "length l = ?i" "?i < sz" "sz \<le> length ?b" using h by (auto simp: holds_line_def)
  consider (erase) "(c = 8 \<or> c = 0x7F) \<and> ?i > 0" | (put) "\<not> ((c = 8 \<or> c = 0x7F) \<and> ?i > 0)" "?i + 1 < sz"
    | (full) "\<not> ((c = 8 \<or> c = 0x7F) \<and> ?i > 0)" "\<not> ?i + 1 < sz" by blast
  then show ?thesis
  proof cases
    case erase
    obtain k' where k': "echo terminal_backspace k = Some k'" "kb_ok k'" "kb_events k' = kb_events k" "\<forall>es. chars_of es k' = chars_of es k"
      using echo_ok [OF k, of terminal_backspace] backspace_spec [of "kb_term k"] k by (auto simp: kb_ok_def)
    have "line_loop sz e s = line_loop sz (e\<lparr>ed_idx := ?i - 1\<rparr>) (s\<lparr>w_kbd := k'\<rparr>)"
      using n erase k'(1) by (subst line_loop.simps) (simp add: Let_def)
    moreover have "line_step sz l c = take (?i - 1) ?b" using erase b by (auto simp: line_step_def butlast_take)
    then have "holds_line sz (e\<lparr>ed_idx := ?i - 1\<rparr>) (line_step sz l c)" using b by (auto simp: holds_line_def)
    ultimately show ?thesis using k' by (intro exI [of _ "e\<lparr>ed_idx := ?i - 1\<rparr>"] exI [of _ k']) simp
  next
    case put
    obtain k' where k': "echo (terminal_putc c) k = Some k'" "kb_ok k'" "kb_events k' = kb_events k" "\<forall>es. chars_of es k' = chars_of es k"
      using echo_ok [OF k, of "terminal_putc c"] putc_ok [of "kb_term k" c] k by (auto simp: kb_ok_def)
    have "line_loop sz e s = line_loop sz (e\<lparr>ed_buf := ?b[?i := c], ed_idx := ?i + 1\<rparr>) (s\<lparr>w_kbd := k'\<rparr>)"
      using n put k'(1) b by (subst line_loop.simps) (auto simp: Let_def array_set_def)
    moreover have nd: "\<not> ((c = 8 \<or> c = 0x7F) \<and> l \<noteq> [])" using put(1) b(2) by auto
    have "line_step sz l c = l @ [c]" using put(2) b(2) unfolding line_step_def if_not_P [OF nd] by simp
    then have "holds_line sz (e\<lparr>ed_buf := ?b[?i := c], ed_idx := ?i + 1\<rparr>) (line_step sz l c)"
      using b put(2) by (auto simp: holds_line_def take_Suc_conv_app_nth)
    ultimately show ?thesis using k'
      by (intro exI [of _ "e\<lparr>ed_buf := ?b[?i := c], ed_idx := ?i + 1\<rparr>"] exI [of _ k']) simp
  next
    case full
    have "line_loop sz e s = line_loop sz e (s\<lparr>w_kbd := k\<rparr>)" using n full by (subst line_loop.simps) (auto simp: Let_def)
    moreover have nd: "\<not> ((c = 8 \<or> c = 0x7F) \<and> l \<noteq> [])" using full(1) b(2) by auto
    have "line_step sz l c = l" using full(2) b(2) unfolding line_step_def if_not_P [OF nd] by simp
    ultimately show ?thesis using h k by (intro exI [of _ e] exI [of _ k]) simp
  qed
qed

text \<open>The newline ends the loop with the line in the buffer and in the history.\<close>

lemma line_end:
  assumes h: "holds_line sz e l" and k: "kb_ok k" and n: "next_char (w_kbd s) = Some (c, k)" "c \<in> {10, 13}"
    and hist: "history_ok s" "history_count s < 100" "length l < 256" "0 \<notin> set l"
  shows "\<exists>buf' s'. line_loop sz e s = Some (buf', s') \<and> length buf' = length (ed_buf e) \<and> terminated buf' \<and> cstr buf' = l
     \<and> history_ok s' \<and> history_list s' = (if l = [] then history_list s else history_list s @ [l])"
proof -
  let ?i = "ed_idx e" and ?b = "ed_buf e"
  have b: "take ?i ?b = l" "length l = ?i" "?i < sz" "sz \<le> length ?b" using h by (auto simp: holds_line_def)
  obtain k1 where k1: "echo (terminal_write (clit [CHR 0x0A])) k = Some k1"
    using echo_ok [OF k, of "terminal_write (clit [CHR 0x0A])"] write_ok [of "kb_term k" "clit [CHR 0x0A]"] k by (auto simp: kb_ok_def clit_def)
  obtain k2 where k2: "shell_buffer_reset k1 = Some k2" using shell_reset by blast
  have nb: "?b[?i := 0] = l @ 0 # drop (Suc ?i) ?b" using b upd_conv_take_nth_drop [of ?i ?b 0] by simp
  have cb: "terminated (?b[?i := 0])" "cstr (?b[?i := 0]) = l" unfolding nb using hist(4) by (simp_all add: cstr_append_terminated)
  let ?s = "s\<lparr>w_kbd := k2\<rparr>"
  have s: "history_ok ?s" "history_count ?s < 100" using hist by (simp_all add: history_ok_def)
  have run: "line_loop sz e s = do { s \<leftarrow> (if ?i > 0 then add_to_history (?b[?i := 0]) ?s else Some ?s); Some (?b[?i := 0], s) }"
    using n k1 k2 b by (subst line_loop.simps) (auto simp: Let_def array_set_def w_write_def)
  show ?thesis
  proof (cases "?i > 0")
    case True
    then obtain s' where "add_to_history (?b[?i := 0]) ?s = Some s'" "history_ok s'" "history_list s' = history_list ?s @ [l]"
      using add_history [OF s cb(1)] cb(2) hist(3) by auto
    then show ?thesis using run True cb b(2) by (auto simp: history_list_def)
  next
    case False
    then show ?thesis using run cb b(2) s(1) by (auto simp: history_list_def)
  qed
qed

lemma line_loop_edits:
  assumes "kb_ok (w_kbd s)" "chars_of (kb_events (w_kbd s)) (w_kbd s) = pre @ nl # rest" "nl \<in> {10, 13}"
    "\<forall>c \<in> set pre. c \<notin> {10, 13, KEY_UP, KEY_DOWN}" "holds_line sz e l0" "foldl (line_step sz) l0 pre = l"
    "history_ok s" "history_count s < 100" "length l < 256" "0 \<notin> set l"
  shows "\<exists>buf' s'. line_loop sz e s = Some (buf', s') \<and> length buf' = length (ed_buf e) \<and> terminated buf' \<and> cstr buf' = l
     \<and> history_ok s' \<and> history_list s' = (if l = [] then history_list s else history_list s @ [l])"
  using assms
proof (induction "length (kb_events (w_kbd s))" arbitrary: s pre l0 e rule: less_induct)
  case less
  obtain c k where t: "next_char (w_kbd s) = Some (c, k)" "advances (w_kbd s) c k"
    using next_char_spec [OF less.prems(1)] less.prems(2) by auto
  have kok: "kb_ok k" and len: "length (kb_events k) < length (kb_events (w_kbd s))" using t(2) by (auto simp: advances_def)
  have ch: "(if c \<noteq> 0 then [c] else []) @ chars_of (kb_events k) k = pre @ nl # rest"
    using t(2) less.prems(2) by (simp add: advances_def)
  have frame: "history_ok (s\<lparr>w_kbd := k'\<rparr>)" "history_count (s\<lparr>w_kbd := k'\<rparr>) < 100" "history_list (s\<lparr>w_kbd := k'\<rparr>) = history_list s" for k'
    using less.prems(7,8) by (simp_all add: history_ok_def history_list_def)
  show ?case
  proof (cases "c = 0")
    case True
    then have "line_loop sz e s = line_loop sz e (s\<lparr>w_kbd := k\<rparr>)" using t(1) by (subst line_loop.simps) simp
    then show ?thesis using less.hyps [of "s\<lparr>w_kbd := k\<rparr>" pre e l0] len kok ch True less.prems(3-6,9,10) frame(1,2) unfolding frame(3) by simp
  next
    case c0: False
    show ?thesis
    proof (cases pre)
      case Nil
      then have "c \<in> {10, 13}" "l0 = l" using ch c0 less.prems(3,6) by auto
      then show ?thesis using line_end [OF less.prems(5) kok t(1)] less.prems(7-10) by blast
    next
      case (Cons d pre')
      have cd: "c = d" "chars_of (kb_events k) k = pre' @ nl # rest" using ch c0 Cons by simp_all
      have "c \<notin> {10, 13, KEY_UP, KEY_DOWN}" using less.prems(4) Cons cd(1) by simp
      then obtain e' k' where e': "line_loop sz e s = line_loop sz e' (s\<lparr>w_kbd := k'\<rparr>)" "holds_line sz e' (line_step sz l0 c)"
        "length (ed_buf e') = length (ed_buf e)" "kb_ok k'" "kb_events k' = kb_events k" "\<forall>es. chars_of es k' = chars_of es k"
        using line_char [OF less.prems(5) kok t(1) c0] by blast
      then show ?thesis
        using less.hyps [of "s\<lparr>w_kbd := k'\<rparr>" pre' e' "line_step sz l0 c"] len cd Cons less.prems(3,4,6,9,10) frame(1,2) unfolding frame(3) by simp
    qed
  qed
qed


lemma chars_nonzero: "0 \<notin> set (chars_of es k)"
proof (induction es k rule: chars_of.induct)
  case (3 c es s)
  then show ?case by (cases "scan_step c s") (auto split: option.splits)
qed simp_all

lemma line_step_set: "set (line_step sz l c) \<subseteq> insert c (set l)"
  by (auto simp: line_step_def dest: in_set_butlastD)

lemma edited_set: "set (foldl (line_step sz) l pre) \<subseteq> set l \<union> set pre"
proof (induction pre arbitrary: l)
  case (Cons c pre)
  show ?case using Cons [of "line_step sz l c"] line_step_set [of sz l c] by auto
qed simp

text \<open>
  C27: reading a line at the prompt: when the keys contain a newline and no arrow key before it, \<open>shell_read_line\<close> returns; the buffer holds
  the edited line as a terminated string, and a line that is not empty is appended to the history. The
  line must be shorter than a history row; the rows of a history that is not full are used.
\<close>

theorem shell_line_edited:
  assumes "kb_ok (w_kbd s)" "chars_of (kb_events (w_kbd s)) (w_kbd s) = pre @ nl # rest" "nl \<in> {10, 13}"
    "\<forall>c \<in> set pre. c \<notin> {10, 13, KEY_UP, KEY_DOWN}" "0 < sz" "sz \<le> length buf"
    "history_ok s" "history_count s < 100" "length (foldl (line_step sz) [] pre) < 256"
  shows "\<exists>buf' s'. shell_read_line buf sz s = Some (buf', s') \<and> length buf' = length buf \<and> terminated buf'
     \<and> (let l = foldl (line_step sz) [] pre in
          cstr buf' = l \<and> history_list s' = (if l = [] then history_list s else history_list s @ [l]))"
proof -
  let ?l = "foldl (line_step sz) [] pre"
  obtain b where b: "shell_buffer_reset (w_kbd s) = Some ((w_kbd s)\<lparr>input_buffer := b, buffer_read_idx := 0, buffer_write_idx := 0\<rparr>)"
    using shell_reset by blast
  let ?k = "(w_kbd s)\<lparr>input_buffer := b, buffer_read_idx := 0, buffer_write_idx := 0\<rparr>"
  let ?e = "\<lparr>ed_buf = buf, ed_idx = 0, ed_saved = replicate 256 0, ed_nav = False\<rparr>"
  have "0 \<notin> set pre" using chars_nonzero [of "kb_events (w_kbd s)" "w_kbd s"] assms(2) by simp
  then have z: "0 \<notin> set ?l" using edited_set [of sz "[]" pre] by auto
  have "kb_ok ?k" "chars_of (kb_events ?k) ?k = pre @ nl # rest" using assms(1,2) by (simp_all add: kb_ok_def)
  then obtain buf' s' where r: "line_loop sz ?e (s\<lparr>w_kbd := ?k\<rparr>) = Some (buf', s')" "length buf' = length buf" "terminated buf'" "cstr buf' = ?l"
     "history_list s' = (if ?l = [] then history_list (s\<lparr>w_kbd := ?k\<rparr>) else history_list (s\<lparr>w_kbd := ?k\<rparr>) @ [?l])"
    using line_loop_edits [of "s\<lparr>w_kbd := ?k\<rparr>" pre nl rest sz ?e "[]" ?l] assms(3-9) z
    by (auto simp: history_ok_def holds_line_def)
  then show ?thesis using b by (auto simp: shell_read_line_def Let_def history_list_def)
qed

theorem shell_line_edited_witness:
  "\<exists>buf' s'. shell_read_line (replicate 4096 1) 4096
      (boot_shell\<lparr>w_kbd := boot_kbd\<lparr>kb_events := [Some 0x26, Some 0xA6, None, Some 0x2D, Some 0x0E, Some 0x2A, Some 0x1F, Some 0xAA, Some 0x1C]\<rparr>\<rparr>)
    = Some (buf', s') \<and> cstr buf' = lit ''lS'' \<and> history_list s' = [lit ''lS'']"
proof -
  let ?es = "[Some 0x26, Some 0xA6, None, Some 0x2D, Some 0x0E, Some 0x2A, Some 0x1F, Some 0xAA, Some 0x1C]"
  let ?s = "boot_shell\<lparr>w_kbd := boot_kbd\<lparr>kb_events := ?es\<rparr>\<rparr>"
  have ch: "chars_of ?es (boot_kbd\<lparr>kb_events := ?es\<rparr>) = [108, 120, 8, 83] @ 10 # []" by code_simp
  have l: "foldl (line_step 4096) [] [108, 120, 8, 83] = lit ''lS''" by code_simp
  have h: "history_ok ?s" "history_count ?s = 0" "history_list ?s = []"
    using boot_history by (simp_all add: history_ok_def history_list_def)
  obtain buf' s' where "shell_read_line (replicate 4096 1) 4096 ?s = Some (buf', s')" "cstr buf' = lit ''lS''"
    "history_list s' = (if lit ''lS'' = [] then history_list ?s else history_list ?s @ [lit ''lS''])"
    using shell_line_edited [of ?s "[108, 120, 8, 83]" 10 "[]" 4096 "replicate 4096 1"] ch h(1,2) boot_kbd_ok [of ?es]
    unfolding l Let_def by (auto simp: lit_def)
  then show ?thesis using h(3) by (auto simp: lit_def)
qed

end
