(* ===== verification/Commands.thy ===== *)
theory Commands
  imports World Calc "HOL-Library.Multiset"
begin

text \<open>
  The commands under \<^verbatim>\<open>src/bin\<close> that work on text and on files of the current directory: \<open>head\<close>, \<open>tail\<close>, \<open>wc\<close>, \<open>sort\<close>, \<open>uniq\<close>,
  \<open>cat\<close>, \<open>grep\<close>, \<open>echo\<close>, \<open>ls\<close>, \<open>cd\<close>, \<open>pwd\<close>, \<open>whoami\<close>, \<open>which\<close>, \<open>cp\<close>, \<open>mv\<close>, \<open>rm\<close> and \<open>calc\<close>. A command takes the array of its arguments and
  returns its result and the world after it. Local arrays that the source does not initialise are
  parameters, so that a theorem holds for whatever the stack contains.

  The lemmas say what a command prints, as a function of the text of the file.
\<close>

section \<open>Definitions\<close>

type_synonym 'a command = "byte list list \<Rightarrow> 'a world_scheme \<Rightarrow> (int \<times> 'a world_scheme) option"

definition finish :: "int \<Rightarrow> 'w option \<Rightarrow> (int \<times> 'w) option" where
  "finish r w = map_option (\<lambda>w. (r, w)) w"

text \<open>\<open>vfs_lookup\<close> and the test \<open>!node || !(node->flags & VFS_FILE)\<close>.\<close>

definition open_text :: "byte list \<Rightarrow> 'a world_scheme \<Rightarrow> vnode option option" where
  "open_text path w = map_option (map_option snd) (lookup_flagged (Some path) VFS_FILE (w_fs w))"

text \<open>The digits of the argument of \<open>-n\<close>, other characters are skipped; overflow of \<open>int\<close> is undefined.\<close>

fun parse_count :: "int \<Rightarrow> byte list \<Rightarrow> int option" where
  "parse_count num [] = None"
| "parse_count num (c # s) =
     (if c = 0 then Some num
      else if is_digit c then do { num \<leftarrow> in_range (num * 10); num \<leftarrow> in_range (num + (sint c - 48)); parse_count num s }
      else parse_count num s)"

text \<open>The options of \<open>head\<close> and \<open>tail\<close>: the number of lines and the index of the file argument.\<close>

definition line_option :: "string \<Rightarrow> byte list list \<Rightarrow> 'a world_scheme \<Rightarrow> ((int \<times> nat) option \<times> 'a world_scheme) option" where
  "line_option cmd argv w =
     do { a \<leftarrow> array_get argv 1;
          c0 \<leftarrow> array_get a 0;
          c1 \<leftarrow> (if c0 = 45 then array_get a 1 else Some 0);
          if c0 = 45 \<and> c1 = 110
          then (if length argv < 4
                then do { w \<leftarrow> w_printf (cmd @ '': -n requires an argument\<newline>'') [] w; Some (None, w) }
                else do { b \<leftarrow> array_get argv 2; n \<leftarrow> parse_count 0 b; Some (Some (n, 3), w) })
          else Some (Some (10, 1), w) }"

text \<open>What the two commands share up to the content of the file.\<close>

definition with_lines :: "string \<Rightarrow> (int \<Rightarrow> byte list \<Rightarrow> 'a world_scheme \<Rightarrow> 'a world_scheme option) \<Rightarrow> 'a command" where
  "with_lines cmd body argv w =
     (if length argv < 2
      then do { w \<leftarrow> w_printf (cmd @ '': missing filename\<newline>'') [] w;
                finish 1 (w_printf (''Usage: '' @ cmd @ '' [-n NUM] <file>\<newline>'') [] w) }
      else do {
        (opt, w) \<leftarrow> line_option cmd argv w;
        case opt of
          None \<Rightarrow> Some (1, w)
        | Some (num_lines, file_arg) \<Rightarrow>
            if file_arg \<ge> length argv then finish 1 (w_printf (cmd @ '': missing filename\<newline>'') [] w)
            else do {
              path \<leftarrow> array_get argv file_arg;
              node \<leftarrow> open_text path w;
              case node of
                None \<Rightarrow> finish 1 (w_printf (cmd @ '': cannot open '%s'\<newline>'') [Str path] w)
              | Some n \<Rightarrow>
                  (case vn_content n of None \<Rightarrow> Some (0, w) | Some c \<Rightarrow> finish 0 (body num_lines c w)) } })"

definition put_char :: "byte \<Rightarrow> 'a world_scheme \<Rightarrow> 'a world_scheme option" where
  "put_char c w = w_printf ''%c'' [Word (scast c)] w"

fun head_loop :: "int \<Rightarrow> int \<Rightarrow> byte list \<Rightarrow> 'a world_scheme \<Rightarrow> 'a world_scheme option" where
  "head_loop lines_printed num_lines [] w = None"
| "head_loop lines_printed num_lines (c # s) w =
     (if c \<noteq> 0 \<and> lines_printed < num_lines
      then do { w \<leftarrow> put_char c w; head_loop (if c = 10 then lines_printed + 1 else lines_printed) num_lines s w }
      else Some w)"

definition cmd_head :: "'a command" where
  "cmd_head = with_lines ''head'' (\<lambda>num_lines content. head_loop 0 num_lines content)"

fun count_lines :: "byte list \<Rightarrow> int option" where
  "count_lines [] = None"
| "count_lines (c # s) = (if c = 0 then Some 0 else map_option (\<lambda>n. if c = 10 then n + 1 else n) (count_lines s))"

fun tail_loop :: "int \<Rightarrow> int \<Rightarrow> byte list \<Rightarrow> 'a world_scheme \<Rightarrow> 'a world_scheme option" where
  "tail_loop current_line start_line [] w = None"
| "tail_loop current_line start_line (c # s) w =
     (if c = 0 then Some w
      else do { w \<leftarrow> (if current_line \<ge> start_line then put_char c w else Some w);
                tail_loop (if c = 10 then current_line + 1 else current_line) start_line s w })"

definition tail_body :: "int \<Rightarrow> byte list \<Rightarrow> 'a world_scheme \<Rightarrow> 'a world_scheme option" where
  "tail_body num_lines content w =
     do { n \<leftarrow> count_lines content;
          let total_lines = 1 + n;
          let start_line = (if total_lines - num_lines < 1 then 1 else total_lines - num_lines);
          tail_loop 1 start_line content w }"

definition cmd_tail :: "'a command" where
  "cmd_tail = with_lines ''tail'' tail_body"

text \<open>\<^verbatim>\<open>wc.c\<close>: lines, words and characters, and whether the text ends inside a word.\<close>

fun wc_loop :: "byte list \<Rightarrow> bool \<Rightarrow> u32 \<Rightarrow> u32 \<Rightarrow> u32 \<Rightarrow> (bool \<times> u32 \<times> u32 \<times> u32) option" where
  "wc_loop [] in_word lines words chars = None"
| "wc_loop (c # s) in_word lines words chars =
     (if c = 0 then Some (in_word, lines, words, chars)
      else if c = 10 then wc_loop s False (lines + 1) words (chars + 1)
      else if c = 32 \<or> c = 9 \<or> c = 13 then wc_loop s False lines words (chars + 1)
      else wc_loop s True lines (if in_word then words else words + 1) (chars + 1))"

definition wc_counts :: "byte list \<Rightarrow> (u32 \<times> u32 \<times> u32) option" where
  "wc_counts content =
     do { (in_word, lines, words, chars) \<leftarrow> wc_loop content False 0 0 0;
          Some (if in_word then lines + 1 else lines, words, chars) }"

text \<open>\<open>strchr(argv[1], c)\<close> as a test\<close>

definition has_flag :: "byte list \<Rightarrow> byte \<Rightarrow> bool option" where
  "has_flag a c = map_option (\<lambda>r. r \<noteq> None) (strchr a c)"

definition print_if :: "bool \<Rightarrow> string \<Rightarrow> u32 \<Rightarrow> 'a world_scheme \<Rightarrow> 'a world_scheme option" where
  "print_if b format x w = (if b then w_printf format [Word x] w else Some w)"

definition cmd_wc :: "'a command" where
  "cmd_wc argv w =
     (if length argv < 2
      then do { w \<leftarrow> w_printf ''wc: missing filename\<newline>'' [] w; finish 1 (w_printf ''Usage: wc [-lwc] <file>\<newline>'' [] w) }
      else do {
        a \<leftarrow> array_get argv 1;
        c \<leftarrow> array_get a 0;
        (cl, cw, cc, file_arg) \<leftarrow>
          (if c = 45
           then do { l \<leftarrow> has_flag a 108; wd \<leftarrow> has_flag a 119; ch \<leftarrow> has_flag a 99; Some (l, wd, ch, 2) }
           else Some (True, True, True, 1));
        if file_arg \<ge> length argv then finish 1 (w_printf ''wc: missing filename\<newline>'' [] w)
        else do {
          path \<leftarrow> array_get argv file_arg;
          node \<leftarrow> open_text path w;
          case node of
            None \<Rightarrow> finish 1 (w_printf ''wc: cannot open '%s'\<newline>'' [Str path] w)
          | Some n \<Rightarrow>
              (case vn_content n of
                 None \<Rightarrow> finish 0 (w_printf ''0 0 0\<newline>'' [] w)
               | Some content \<Rightarrow>
                   do { (lines, words, chars) \<leftarrow> wc_counts content;
                        w \<leftarrow> print_if cl ''%u '' lines w;
                        w \<leftarrow> print_if cw ''%u '' words w;
                        w \<leftarrow> print_if cc ''%u'' chars w;
                        finish 0 (w_printf ''\<newline>'' [] w) }) } })"


text \<open>
  \<^verbatim>\<open>sort.c\<close> and \<^verbatim>\<open>uniq.c\<close> copy the lines of the file into an array of 256 rows of 128 characters, which starts with
  whatever the stack contains. Longer lines are cut, further lines dropped.
\<close>

definition row_set :: "byte list list \<Rightarrow> nat \<Rightarrow> nat \<Rightarrow> byte \<Rightarrow> byte list list option" where
  "row_set lines i j c = do { r \<leftarrow> array_get lines i; r \<leftarrow> array_set r j c; array_set lines i r }"

fun extract_loop :: "byte list \<Rightarrow> byte list list \<Rightarrow> nat \<Rightarrow> nat \<Rightarrow> (byte list list \<times> nat \<times> nat) option" where
  "extract_loop [] lines num_lines current_pos = None"
| "extract_loop (c # s) lines num_lines current_pos =
     (if c \<noteq> 0 \<and> num_lines < 256
      then (if c = 10 then do { lines \<leftarrow> row_set lines num_lines current_pos 0; extract_loop s lines (num_lines + 1) 0 }
            else if current_pos < 127
            then do { lines \<leftarrow> row_set lines num_lines current_pos c; extract_loop s lines num_lines (current_pos + 1) }
            else extract_loop s lines num_lines current_pos)
      else Some (lines, num_lines, current_pos))"

definition extract_lines :: "byte list \<Rightarrow> byte list list \<Rightarrow> (byte list list \<times> nat) option" where
  "extract_lines content lines =
     do { (lines, num_lines, current_pos) \<leftarrow> extract_loop content lines 0 0;
          if current_pos > 0
          then do { lines \<leftarrow> row_set lines num_lines current_pos 0; Some (lines, num_lines + 1) }
          else Some (lines, num_lines) }"

text \<open>
  The inner loop of the bubble sort, \<open>n\<close> comparisons from index \<open>j\<close>. \<open>tmp\<close> is the array of the block, which the compiler
  keeps at one place of the stack.
\<close>

fun bubble_pass :: "nat \<Rightarrow> nat \<Rightarrow> byte list \<Rightarrow> byte list list \<Rightarrow> (byte list \<times> byte list list) option" where
  "bubble_pass j 0 tmp lines = Some (tmp, lines)"
| "bubble_pass j (Suc n) tmp lines =
     do { a \<leftarrow> array_get lines j;
          b \<leftarrow> array_get lines (j + 1);
          r \<leftarrow> strcmp a b;
          if r > 0
          then do { tmp \<leftarrow> strcpy tmp a;
                    a' \<leftarrow> strcpy a b;
                    b' \<leftarrow> strcpy b tmp;
                    bubble_pass (j + 1) n tmp (lines[j := a', j + 1 := b']) }
          else bubble_pass (j + 1) n tmp lines }"

text \<open>The outer loop: passes of \<open>n\<close>, \<open>n - 1\<close>, ..., 1 comparisons.\<close>

fun bubble_sort :: "nat \<Rightarrow> byte list \<Rightarrow> byte list list \<Rightarrow> byte list list option" where
  "bubble_sort 0 tmp lines = Some lines"
| "bubble_sort (Suc n) tmp lines =
     do { (tmp, lines) \<leftarrow> bubble_pass 0 (Suc n) tmp lines; bubble_sort n tmp lines }"

fun print_rows :: "nat \<Rightarrow> nat \<Rightarrow> byte list list \<Rightarrow> 'a world_scheme \<Rightarrow> 'a world_scheme option" where
  "print_rows i 0 lines w = Some w"
| "print_rows i (Suc n) lines w =
     do { r \<leftarrow> array_get lines i; w \<leftarrow> w_printf ''%s\<newline>'' [Str r] w; print_rows (i + 1) n lines w }"

fun print_changed :: "nat \<Rightarrow> nat \<Rightarrow> byte list list \<Rightarrow> 'a world_scheme \<Rightarrow> 'a world_scheme option" where
  "print_changed i 0 lines w = Some w"
| "print_changed i (Suc n) lines w =
     do { a \<leftarrow> array_get lines i;
          b \<leftarrow> array_get lines (i - 1);
          r \<leftarrow> strcmp a b;
          w \<leftarrow> (if r \<noteq> 0 then w_printf ''%s\<newline>'' [Str a] w else Some w);
          print_changed (i + 1) n lines w }"

text \<open>The start of both commands.\<close>

definition with_text :: "string \<Rightarrow> (byte list \<Rightarrow> 'a world_scheme \<Rightarrow> 'a world_scheme option) \<Rightarrow> 'a command" where
  "with_text cmd body argv w =
     (if length argv < 2
      then do { w \<leftarrow> w_printf (cmd @ '': missing filename\<newline>'') [] w;
                finish 1 (w_printf (''Usage: '' @ cmd @ '' <file>\<newline>'') [] w) }
      else do {
        path \<leftarrow> array_get argv 1;
        node \<leftarrow> open_text path w;
        case node of
          None \<Rightarrow> finish 1 (w_printf (cmd @ '': cannot open '%s'\<newline>'') [Str path] w)
        | Some n \<Rightarrow> (case vn_content n of None \<Rightarrow> Some (0, w) | Some content \<Rightarrow> finish 0 (body content w)) })"

definition sort_body :: "byte list list \<Rightarrow> byte list \<Rightarrow> byte list \<Rightarrow> 'a world_scheme \<Rightarrow> 'a world_scheme option" where
  "sort_body stack tmp content w =
     do { (lines, num_lines) \<leftarrow> extract_lines content stack;
          lines \<leftarrow> bubble_sort (num_lines - 1) tmp lines;
          print_rows 0 num_lines lines w }"

definition cmd_sort :: "byte list list \<Rightarrow> byte list \<Rightarrow> 'a command" where
  "cmd_sort stack tmp = with_text ''sort'' (sort_body stack tmp)"

definition uniq_body :: "byte list list \<Rightarrow> byte list \<Rightarrow> 'a world_scheme \<Rightarrow> 'a world_scheme option" where
  "uniq_body stack content w =
     do { (lines, num_lines) \<leftarrow> extract_lines content stack;
          if num_lines > 0
          then do { r \<leftarrow> array_get lines 0; w \<leftarrow> w_printf ''%s\<newline>'' [Str r] w; print_changed 1 (num_lines - 1) lines w }
          else Some w }"

definition cmd_uniq :: "byte list list \<Rightarrow> 'a command" where
  "cmd_uniq stack = with_text ''uniq'' (uniq_body stack)"

text \<open>\<^verbatim>\<open>cat.c\<close>\<close>

fun cat_loop :: "byte list list \<Rightarrow> 'a world_scheme \<Rightarrow> (int \<times> 'a world_scheme) option" where
  "cat_loop [] w = Some (0, w)"
| "cat_loop (p # ps) w =
     do { node \<leftarrow> open_text p w;
          case node of
            None \<Rightarrow> finish (-1) (w_printf ''cat: %s: No such file or directory\<newline>'' [Str p] w)
          | Some n \<Rightarrow>
              do { w \<leftarrow> (case vn_content n of None \<Rightarrow> Some w | Some c \<Rightarrow> w_printf ''%s\<newline>'' [Str c] w); cat_loop ps w } }"

definition cmd_cat :: "'a command" where
  "cmd_cat argv w = (if length argv < 2 then finish (-1) (w_printf ''Usage: cat <file>\<newline>'' [] w) else cat_loop (tl argv) w)"

text \<open>\<^verbatim>\<open>grep.c\<close>\<close>

fun kkstrstr_loop :: "byte list \<Rightarrow> byte list \<Rightarrow> byte list option option" where
  "kkstrstr_loop [] needle = None"
| "kkstrstr_loop (x # h) needle =
     (if x = 0 then Some None
      else case strstr_match (x # h) needle of
             None \<Rightarrow> None
           | Some True \<Rightarrow> Some (Some (x # h))
           | Some False \<Rightarrow> kkstrstr_loop h needle)"

definition kkstrstr :: "byte list \<Rightarrow> byte list \<Rightarrow> byte list option option" where
  "kkstrstr haystack needle =
     (case needle of [] \<Rightarrow> None | c # _ \<Rightarrow> if c = 0 then Some (Some haystack) else kkstrstr_loop haystack needle)"

definition child_node :: "fs \<Rightarrow> vnode \<Rightarrow> nat \<Rightarrow> vnode option" where
  "child_node s d i = do { p \<leftarrow> array_get (vn_children d) i; c \<leftarrow> p; array_get (vnodes_pool s) c }"

fun grep_loop :: "byte list \<Rightarrow> vnode \<Rightarrow> nat \<Rightarrow> nat \<Rightarrow> 'a world_scheme \<Rightarrow> 'a world_scheme option" where
  "grep_loop pat d i 0 w = Some w"
| "grep_loop pat d i (Suc n) w =
     do { c \<leftarrow> child_node (w_fs w) d i;
          found \<leftarrow> (if vn_flags c AND VFS_FILE \<noteq> 0
                    then (case vn_content c of None \<Rightarrow> Some None | Some t \<Rightarrow> kkstrstr t pat) else Some None);
          w \<leftarrow> (if found \<noteq> None then do { w \<leftarrow> w_write (vn_name c) w; w_write (clit [CHR 0x0A]) w } else Some w);
          grep_loop pat d (i + 1) n w }"

text \<open>\<open>current_dir ? current_dir : vfs_root\<close>\<close>

definition working_dir :: "fs \<Rightarrow> nat option" where
  "working_dir s = (case current_dir s of Some d \<Rightarrow> Some d | None \<Rightarrow> vfs_root s)"

definition cmd_grep :: "'a command" where
  "cmd_grep argv w =
     (if length argv < 2 then finish (-1) (w_write (clit ''Usage: grep <pattern>\<newline>'') w)
      else case working_dir (w_fs w) of
        None \<Rightarrow> Some (-1, w)
      | Some d \<Rightarrow>
          do { d \<leftarrow> array_get (vnodes_pool (w_fs w)) d;
               pat \<leftarrow> array_get argv 1;
               finish 0 (grep_loop pat d 0 (unat (vn_child_count d)) w) })"


text \<open>\<^verbatim>\<open>echo.c\<close>\<close>

fun echo_loop :: "byte list list \<Rightarrow> 'a world_scheme \<Rightarrow> 'a world_scheme option" where
  "echo_loop [] w = Some w"
| "echo_loop (a # as) w =
     do { w \<leftarrow> w_write a w;
          w \<leftarrow> (if as \<noteq> [] then w_write (clit '' '') w else Some w);
          echo_loop as w }"

definition cmd_echo :: "'a command" where
  "cmd_echo argv w =
     (case argv of
        _ # a # as \<Rightarrow>
          do { r \<leftarrow> strcmp a (clit ''-n'');
               w \<leftarrow> echo_loop (if r = 0 then as else a # as) w;
               finish 0 (if r = 0 then Some w else w_write (clit [CHR 0x0A]) w) }
      | _ \<Rightarrow> finish 0 (w_write (clit [CHR 0x0A]) w))"

text \<open>\<^verbatim>\<open>ls.c\<close>\<close>

fun ls_flags :: "byte list list \<Rightarrow> bool \<times> bool \<Rightarrow> (bool \<times> bool) option" where
  "ls_flags [] f = Some f"
| "ls_flags (a # as) (show_all, long_format) =
     do { c \<leftarrow> array_get a 0;
          if c = 45
          then do { x \<leftarrow> has_flag a 97; l \<leftarrow> has_flag a 108; ls_flags as (show_all \<or> x, long_format \<or> l) }
          else ls_flags as (show_all, long_format) }"

definition ls_entry :: "bool \<Rightarrow> bool \<Rightarrow> vnode \<Rightarrow> 'a world_scheme \<Rightarrow> 'a world_scheme option" where
  "ls_entry show_all long_format n w =
     do { c \<leftarrow> array_get (vn_name n) 0;
          if c = 46 \<and> \<not> show_all then Some w
          else if long_format
          then do { size \<leftarrow> (if vn_flags n AND VFS_FILE \<noteq> 0 then content_length n else Some 0);
                    w_printf ''%-20s %s %10u\<newline>''
                      [Str (vn_name n), Str (clit (if vn_flags n AND VFS_DIRECTORY \<noteq> 0 then ''DIR'' else ''FILE'')), Word size] w }
          else do { w \<leftarrow> w_write (clit (if vn_flags n AND VFS_DIRECTORY \<noteq> 0 then ''[D] '' else ''[F] '')) w;
                    w \<leftarrow> w_write (vn_name n) w;
                    w_write (clit [CHR 0x0A]) w } }"

fun ls_loop :: "bool \<Rightarrow> bool \<Rightarrow> vnode \<Rightarrow> nat \<Rightarrow> nat \<Rightarrow> 'a world_scheme \<Rightarrow> 'a world_scheme option" where
  "ls_loop show_all long_format d i 0 w = Some w"
| "ls_loop show_all long_format d i (Suc n) w =
     do { c \<leftarrow> child_node (w_fs w) d i; w \<leftarrow> ls_entry show_all long_format c w; ls_loop show_all long_format d (i + 1) n w }"

definition cmd_ls :: "'a command" where
  "cmd_ls argv w =
     (case working_dir (w_fs w) of
        None \<Rightarrow> finish (-1) (w_write (clit ''ls: no directory\<newline>'') w)
      | Some d \<Rightarrow>
          do { d \<leftarrow> array_get (vnodes_pool (w_fs w)) d;
               (show_all, long_format) \<leftarrow> ls_flags (tl argv) (False, False);
               w \<leftarrow> (if long_format
                    then do { w \<leftarrow> w_printf ''%-20s %s %10s\<newline>'' [Str (clit ''NAME''), Str (clit ''TYPE''), Str (clit ''SIZE'')] w;
                              w_printf ''%-20s %s %10s\<newline>'' [Str (clit ''----''), Str (clit ''----''), Str (clit ''----'')] w }
                    else Some w);
               finish 0 (ls_loop show_all long_format d 0 (unat (vn_child_count d)) w) })"

text \<open>\<^verbatim>\<open>cd.c\<close>, \<^verbatim>\<open>pwd.c\<close>, \<^verbatim>\<open>whoami.c\<close>\<close>

definition cmd_cd :: "'a command" where
  "cmd_cd argv w =
     (if length argv < 2 then finish (-1) (w_write (clit ''Usage: cd <path>\<newline>'') w)
      else do {
        path \<leftarrow> array_get argv 1;
        target \<leftarrow> lookup_flagged (Some path) VFS_DIRECTORY (w_fs w);
        case target of
          None \<Rightarrow> finish (-1) (w_write (clit ''cd: no such directory\<newline>'') w)
        | Some (i, _) \<Rightarrow> Some (0, w\<lparr>w_fs := (w_fs w)\<lparr>current_dir := Some i\<rparr>\<rparr>) })"

definition cmd_pwd :: "'a command" where
  "cmd_pwd argv w = finish 0 (w_printf ''/\<newline>'' [] w)"

definition cmd_whoami :: "'a command" where
  "cmd_whoami argv w = finish 0 (w_printf ''root\<newline>'' [] w)"

text \<open>\<^verbatim>\<open>which.c\<close>: the four places that are tried, each with the path to look up and the text to print.\<close>

fun which_places :: "byte list \<Rightarrow> byte list \<Rightarrow> (string option \<times> va list \<times> string) list \<Rightarrow> 'a world_scheme
    \<Rightarrow> (int \<times> 'a world_scheme) option" where
  "which_places cmd path [] w = finish 1 (w_printf ''which: %s: command not found\<newline>'' [Str cmd] w)"
| "which_places cmd path ((format, args, answer) # places) w =
     do { path \<leftarrow> (case format of Some f \<Rightarrow> map_option snd (sprintf path (clit f) args) | None \<Rightarrow> Some path);
          node \<leftarrow> open_text (if format = None then cmd else path) w;
          case node of
            Some _ \<Rightarrow> finish 0 (w_printf answer args w)
          | None \<Rightarrow> which_places cmd path places w }"

definition cmd_which :: "byte list \<Rightarrow> 'a command" where
  "cmd_which path argv w =
     (if length argv < 2
      then do { w \<leftarrow> w_printf ''which: missing command name\<newline>'' [] w; finish 1 (w_printf ''Usage: which <command>\<newline>'' [] w) }
      else do {
        cmd \<leftarrow> array_get argv 1;
        which_places cmd path
          [(Some ''/bin/%s/%s.c'', [Str cmd, Str cmd], ''/bin/%s/%s\<newline>''), (Some ''/bin/%s'', [Str cmd], ''/bin/%s\<newline>''),
           (Some ''/usr/bin/%s'', [Str cmd], ''/usr/bin/%s\<newline>''), (None, [Str cmd], ''./%s\<newline>'')] w })"

text \<open>\<^verbatim>\<open>cp.c\<close>, \<^verbatim>\<open>mv.c\<close> and \<^verbatim>\<open>rm.c\<close> search the current directory by name.\<close>

definition find_here :: "byte list \<Rightarrow> 'a world_scheme \<Rightarrow> nat option option" where
  "find_here name w =
     do { cur \<leftarrow> current_dir (w_fs w);
          d \<leftarrow> array_get (vnodes_pool (w_fs w)) cur;
          find_child (w_fs w) d name }"

definition copy_content :: "nat \<Rightarrow> nat \<Rightarrow> 'a world_scheme \<Rightarrow> (bool \<times> 'a world_scheme) option" where
  "copy_content src dst w =
     do { n \<leftarrow> array_get (vnodes_pool (w_fs w)) src;
          case vn_content n of
            None \<Rightarrow> Some (True, w)
          | Some c \<Rightarrow>
              do { (p, h) \<leftarrow> kmalloc (vn_size n + 1) (w_heap w);
                   let w = w\<lparr>w_heap := h\<rparr>;
                   if p = 0
                   then do { fs \<leftarrow> update_node dst (\<lambda>n. n\<lparr>vn_content := None\<rparr>) (w_fs w);
                             w \<leftarrow> w_printf ''cp: failed to allocate memory for copy\<newline>'' [] (w\<lparr>w_fs := fs\<rparr>);
                             Some (False, w) }
                   else do {
                     d \<leftarrow> memcpy (mem_read (kh_mem h) p (unat (vn_size n + 1))) c (unat (vn_size n));
                     d \<leftarrow> array_set d (unat (vn_size n)) 0;
                     fs \<leftarrow> update_node dst (\<lambda>m. m\<lparr>vn_content := Some d, vn_size := vn_size n\<rparr>) (w_fs w);
                     Some (True, w\<lparr>w_fs := fs\<rparr>) } } }"

definition cmd_cp :: "'a command" where
  "cmd_cp argv w =
     (if length argv < 3 then finish (-1) (w_printf ''Usage: cp <source> <destination>\<newline>'' [] w)
      else do {
        src_name \<leftarrow> array_get argv 1;
        dst_name \<leftarrow> array_get argv 2;
        src \<leftarrow> find_here src_name w;
        case src of
          None \<Rightarrow> finish (-1) (w_printf ''cp: cannot stat '%s': No such file or directory\<newline>'' [Str src_name] w)
        | Some i \<Rightarrow>
            do { n \<leftarrow> array_get (vnodes_pool (w_fs w)) i;
                 if vn_flags n AND VFS_DIRECTORY \<noteq> 0
                 then finish (-1) (w_printf ''cp: '%s' is a directory\<newline>'' [Str src_name] w)
                 else do {
                   (_, fs) \<leftarrow> k_touch (Some dst_name) (w_fs w);
                   let w = w\<lparr>w_fs := fs\<rparr>;
                   dst \<leftarrow> find_here dst_name w;
                   case dst of
                     None \<Rightarrow> finish (-1) (w_printf ''cp: failed to create destination file '%s'\<newline>'' [Str dst_name] w)
                   | Some j \<Rightarrow>
                       do { (ok, w) \<leftarrow> copy_content i j w;
                            if ok then finish 0 (w_printf '''%s' -> '%s'\<newline>'' [Str src_name, Str dst_name] w)
                            else Some (-1, w) } } } })"

definition cmd_mv :: "'a command" where
  "cmd_mv argv w =
     (if length argv < 3 then finish (-1) (w_printf ''Usage: mv <source> <destination>\<newline>'' [] w)
      else do {
        src_name \<leftarrow> array_get argv 1;
        dst_name \<leftarrow> array_get argv 2;
        src \<leftarrow> find_here src_name w;
        case src of
          None \<Rightarrow> finish (-1) (w_printf ''mv: cannot stat '%s': No such file or directory\<newline>'' [Str src_name] w)
        | Some i \<Rightarrow>
            do { dst \<leftarrow> find_here dst_name w;
                 if dst \<noteq> None
                 then finish (-1) (w_printf ''mv: cannot move '%s' to '%s': File exists\<newline>'' [Str src_name, Str dst_name] w)
                 else do {
                   n \<leftarrow> array_get (vnodes_pool (w_fs w)) i;
                   name \<leftarrow> strcpy (vn_name n) dst_name;
                   fs \<leftarrow> update_node i (\<lambda>n. n\<lparr>vn_name := name\<rparr>) (w_fs w);
                   finish 0 (w_printf '''%s' -> '%s'\<newline>'' [Str src_name, Str dst_name] (w\<lparr>w_fs := fs\<rparr>)) } } })"

definition cmd_rm :: "'a command" where
  "cmd_rm argv w =
     (if length argv < 2 then finish (-1) (w_printf ''Usage: rm <file>\<newline>'' [] w)
      else do {
        filename \<leftarrow> array_get argv 1;
        cur \<leftarrow> current_dir (w_fs w);
        d \<leftarrow> array_get (vnodes_pool (w_fs w)) cur;
        idx \<leftarrow> find_named (child_key (w_fs w) d) filename 0 (unat (vn_child_count d));
        case idx of
          None \<Rightarrow> finish (-1) (w_printf ''rm: cannot remove '%s': No such file or directory\<newline>'' [Str filename] w)
        | Some i \<Rightarrow>
            do { n \<leftarrow> child_node (w_fs w) d i;
                 if vn_flags n AND VFS_DIRECTORY \<noteq> 0
                 then finish (-1) (w_printf ''rm: cannot remove '%s': Is a directory\<newline>'' [Str filename] w)
                 else do {
                   cs \<leftarrow> shift_children i (unat (vn_child_count d) - 1 - i) (vn_children d);
                   cs \<leftarrow> array_set cs (unat (vn_child_count d - 1)) None;
                   fs \<leftarrow> update_node cur (\<lambda>d. d\<lparr>vn_children := cs, vn_child_count := vn_child_count d - 1\<rparr>) (w_fs w);
                   finish 0 (w_printf ''removed '%s'\<newline>'' [Str filename] (w\<lparr>w_fs := fs\<rparr>)) } } })"

text \<open>\<^verbatim>\<open>calc.c\<close>: undefined behaviour of the evaluation is \<open>None\<close>.\<close>

definition cmd_calc :: "'a command" where
  "cmd_calc argv w =
     (if length argv < 2
      then do { w \<leftarrow> w_write (clit ''calc: Simple calculator\<newline>'') w;
                w \<leftarrow> w_write (clit ''Usage: calc <expression>\<newline>'') w;
                w \<leftarrow> w_write (clit ''Example: calc \"2+3*4\"\<newline>'') w;
                finish 0 (w_write (clit ''Supports: +, -, *, /, ()\<newline>'') w) }
      else do {
        e \<leftarrow> array_get argv 1;
        case evaluate e of
          Inl _ \<Rightarrow> None
        | Inr result \<Rightarrow> finish 0 (w_printf ''= %d\<newline>'' [Word (of_int result)] w) })"


section \<open>Printing parts of a text\<close>

text \<open>The lines of a text, each with its newline.\<close>

fun lines_of :: "byte list \<Rightarrow> byte list list" where
  "lines_of [] = []"
| "lines_of (c # s) = (if c = 10 then [10] # lines_of s else case lines_of s of [] \<Rightarrow> [[c]] | l # ls \<Rightarrow> (c # l) # ls)"

lemma concat_lines_of: "concat (lines_of s) = s"
  by (induction s) (auto split: list.splits)

lemma prints_Cons: "prints w [c] w1 \<Longrightarrow> prints w1 t w2 \<Longrightarrow> prints w (c # t) w2"
  using prints_trans [of w "[c]" w1 t w2] by simp

lemma put_char_prints: "world_ok w \<Longrightarrow> \<exists>w'. put_char c w = Some w' \<and> prints w [c] w'"
  unfolding put_char_def by (rule print_char)

lemma take_lines_Cons: "0 < m \<Longrightarrow> c \<noteq> 10 \<Longrightarrow> concat (take m (lines_of (c # s))) = c # concat (take m (lines_of s))"
  by (cases m) (auto split: list.splits)

lemma drop_lines_Cons: "0 < m \<Longrightarrow> c \<noteq> 10 \<Longrightarrow> concat (drop m (lines_of (c # s))) = concat (drop m (lines_of s))"
  by (cases m) (auto split: list.splits)

lemma head_loop_prints:
  "world_ok w \<Longrightarrow> terminated s \<Longrightarrow> \<exists>w'. head_loop k n s w = Some w' \<and> prints w (concat (take (nat (n - k)) (lines_of (cstr s)))) w'"
proof (induction s arbitrary: k w)
  case (Cons c s)
  show ?case
  proof (cases "c \<noteq> 0 \<and> k < n")
    case True
    obtain w1 where w1: "put_char c w = Some w1" "prints w [c] w1" using put_char_prints [OF Cons.prems(1)] by blast
    obtain w' where w': "head_loop (if c = 10 then k + 1 else k) n s w1 = Some w'"
      "prints w1 (concat (take (nat (n - (if c = 10 then k + 1 else k))) (lines_of (cstr s)))) w'"
      using Cons.IH [OF prints_ok [OF w1(2)], of "if c = 10 then k + 1 else k"] Cons.prems(2) True by auto
    have "c # concat (take (nat (n - (if c = 10 then k + 1 else k))) (lines_of (cstr s))) = concat (take (nat (n - k)) (lines_of (cstr (c # s))))"
    proof (cases "c = 10")
      case True
      have "nat (n - k) = Suc (nat (n - (k + 1)))" using \<open>c \<noteq> 0 \<and> k < n\<close> by linarith
      then show ?thesis using True by simp
    next
      case False
      then show ?thesis using take_lines_Cons [of "nat (n - k)" c "cstr s"] True by simp
    qed
    then show ?thesis using w1(1) w'(1) prints_Cons [OF w1(2) w'(2)] True by simp
  next
    case False
    then show ?thesis using prints_refl [OF Cons.prems(1)] by (auto simp del: lines_of.simps(2))
  qed
qed simp

lemma tail_loop_prints:
  "world_ok w \<Longrightarrow> terminated s \<Longrightarrow> \<exists>w'. tail_loop k n s w = Some w' \<and> prints w (concat (drop (nat (n - k)) (lines_of (cstr s)))) w'"
proof (induction s arbitrary: k w)
  case (Cons c s)
  let ?k = "if c = 10 then k + 1 else k"
  show ?case
  proof (cases "c = 0")
    case True
    then show ?thesis using prints_refl [OF Cons.prems(1)] by simp
  next
    case c0: False
    show ?thesis
    proof (cases "n \<le> k")
      case True
      obtain w1 where w1: "put_char c w = Some w1" "prints w [c] w1" using put_char_prints [OF Cons.prems(1)] by blast
      obtain w' where w': "tail_loop ?k n s w1 = Some w'" "prints w1 (concat (drop (nat (n - ?k)) (lines_of (cstr s)))) w'"
        using Cons.IH [OF prints_ok [OF w1(2)], of ?k] Cons.prems(2) c0 by auto
      have "nat (n - ?k) = 0" "nat (n - k) = 0" using True by auto
      then show ?thesis using w1(1) w'(1) prints_Cons [OF w1(2) w'(2)] True c0 by (simp add: concat_lines_of del: lines_of.simps(2))
    next
      case False
      obtain w' where w': "tail_loop ?k n s w = Some w'" "prints w (concat (drop (nat (n - ?k)) (lines_of (cstr s)))) w'"
        using Cons.IH [OF Cons.prems(1), of ?k] Cons.prems(2) c0 by auto
      have "concat (drop (nat (n - ?k)) (lines_of (cstr s))) = concat (drop (nat (n - k)) (lines_of (cstr (c # s))))"
      proof (cases "c = 10")
        case True
        have "nat (n - k) = Suc (nat (n - (k + 1)))" using False by linarith
        then show ?thesis using True by simp
      next
        case False
        then show ?thesis using drop_lines_Cons [of "nat (n - k)" c "cstr s"] \<open>\<not> n \<le> k\<close> c0 by simp
      qed
      then show ?thesis using w' False c0 by simp
    qed
  qed
qed simp

lemma count_lines_eq: "terminated s \<Longrightarrow> count_lines s = Some (int (count_list (cstr s) 10))"
  by (induction s) auto

lemma with_lines_prints:
  assumes o: "line_option cmd argv w = Some (Some (num, i), w)" "i < length argv" "2 \<le> length argv"
    and f: "open_text (argv ! i) w = Some (Some n)" "vn_content n = Some c"
    and b: "body num c w = Some w'"
  shows "with_lines cmd body argv w = Some (0, w')"
  using assms by (simp add: with_lines_def array_get_def finish_def)

text \<open>
  \<open>head\<close> and \<open>tail\<close> print parts of the file: \<open>head\<close> its first lines, as many as asked for; \<open>tail\<close> drops as many lines as the file has newlines
  beyond the number asked for. So \<open>tail -n k\<close> prints the last \<open>k\<close> lines of a file that ends in a newline, and one line more when
  the last line has no newline.
\<close>

theorem head_tail_print:
  assumes "world_ok w" "line_option ''head'' argv w = Some (Some (num, i), w)" "line_option ''tail'' argv w = Some (Some (num, i), w)"
    "i < length argv" "2 \<le> length argv" "open_text (argv ! i) w = Some (Some n)" "vn_content n = Some c" "terminated c"
  shows "(\<exists>w'. cmd_head argv w = Some (0, w') \<and> prints w (concat (take (nat num) (lines_of (cstr c)))) w')
     \<and> (\<exists>w'. cmd_tail argv w = Some (0, w')
          \<and> prints w (concat (drop (nat (int (count_list (cstr c) 10) - num)) (lines_of (cstr c)))) w')"
proof -
  let ?nl = "int (count_list (cstr c) 10)"
  obtain w1 where w1: "head_loop 0 num c w = Some w1" "prints w (concat (take (nat num) (lines_of (cstr c)))) w1"
    using head_loop_prints [OF assms(1,8), of 0 num] by auto
  define start where "start = (if 1 + ?nl - num < 1 then 1 else 1 + ?nl - num)"
  obtain w2 where w2: "tail_loop 1 start c w = Some w2" "prints w (concat (drop (nat (start - 1)) (lines_of (cstr c)))) w2"
    using tail_loop_prints [OF assms(1,8), of 1 start] by auto
  have "nat (start - 1) = nat (?nl - num)" by (auto simp: start_def)
  moreover have "tail_body num c w = Some w2" using w2(1) count_lines_eq [OF assms(8)] by (simp add: tail_body_def Let_def start_def)
  ultimately show ?thesis
    using w1 w2(2) with_lines_prints [OF assms(2,4-7)] with_lines_prints [OF assms(3-7)] by (auto simp: cmd_head_def cmd_tail_def)
qed


lemma demo_world_open: "\<exists>n. open_text (clit ''a'') (demo_world c) = Some (Some n) \<and> vn_content n = Some c"
proof -
  have ok: "fs_ok one_file" using one_file_facts(1) by (simp add: fs_inv_def)
  have f: "file_at (cstr (clit ''a'')) (w_fs (demo_world c)) 1"
    using set_file_at [OF ok _ one_file_facts(2)] by (simp add: demo_world_def)
  have "fs_ok (w_fs (demo_world c))" using set_file_frame(1) [OF ok] by (simp add: demo_world_def)
  then have "lookup_flagged (Some (clit ''a'')) VFS_FILE (w_fs (demo_world c)) = Some (Some (1, node (w_fs (demo_world c)) 1))"
    using f lookup_file_at [of "w_fs (demo_world c)" "clit ''a''"] by (auto simp: file_at_def)
  then show ?thesis using set_file_node [OF ok, of 1 "Some c" _ 1] by (simp add: open_text_def demo_world_def)
qed

theorem head_tail_print_witness:
  "(\<exists>w'. cmd_head [clit ''head'', clit ''-n'', clit ''1'', clit ''a''] (demo_world (clit ''x\<newline>y\<newline>z'')) = Some (0, w') \<and> prints (demo_world (clit ''x\<newline>y\<newline>z'')) (lit ''x\<newline>'') w')
   \<and> (\<exists>w'. cmd_tail [clit ''head'', clit ''-n'', clit ''1'', clit ''a''] (demo_world (clit ''x\<newline>y\<newline>z'')) = Some (0, w') \<and> prints (demo_world (clit ''x\<newline>y\<newline>z'')) (lit ''y\<newline>z'') w')"
proof -
  let ?w = "demo_world (clit ''x\<newline>y\<newline>z'')" and ?argv = "[clit ''head'', clit ''-n'', clit ''1'', clit ''a'']"
  obtain n where n: "open_text (clit ''a'') ?w = Some (Some n)" "vn_content n = Some (clit ''x\<newline>y\<newline>z'')" using demo_world_open by blast
  have o: "line_option cmd ?argv ?w = Some (Some (1, 3), ?w)" for cmd
    by (simp add: line_option_def array_get_def clit_def lit_def is_digit_def in_range_def)
  have t: "lines_of (lit ''x\<newline>y\<newline>z'') = [lit ''x\<newline>'', lit ''y\<newline>'', lit ''z'']" "count_list (lit ''x\<newline>y\<newline>z'') 10 = 2"
    by code_simp+
  have "(\<exists>w'. cmd_head ?argv ?w = Some (0, w') \<and> prints ?w (concat (take (nat 1) (lines_of (cstr (clit ''x\<newline>y\<newline>z''))))) w')
     \<and> (\<exists>w'. cmd_tail ?argv ?w = Some (0, w') \<and> prints ?w (concat (drop (nat (int (count_list (cstr (clit ''x\<newline>y\<newline>z'')) 10) - 1)) (lines_of (cstr (clit ''x\<newline>y\<newline>z''))))) w')"
    by (rule head_tail_print [OF demo_world_ok o o _ _ _ n(2)]) (use n(1) in simp_all)
  moreover have "cstr (clit ''x\<newline>y\<newline>z'') = lit ''x\<newline>y\<newline>z''" by simp
  ultimately show ?thesis unfolding t by (simp only:) (simp add: t lit_def)
qed


section \<open>Lines in an array\<close>

text \<open>The rows of a text behind an unfinished row \<open>p\<close>: lines cut at 127 characters, without newlines.\<close>

fun rows_from :: "byte list \<Rightarrow> byte list \<Rightarrow> byte list list" where
  "rows_from p [] = (if p = [] then [] else [p])"
| "rows_from p (c # s) = (if c = 10 then p # rows_from [] s else rows_from (if length p < 127 then p @ [c] else p) s)"

definition text_rows :: "byte list \<Rightarrow> byte list list" where
  "text_rows s = take 256 (rows_from [] s)"

definition rows_ok :: "byte list list \<Rightarrow> bool" where
  "rows_ok lines \<longleftrightarrow> length lines = 256 \<and> list_all (\<lambda>r. length r = 128) lines"

text \<open>The first \<open>n\<close> rows hold the strings \<open>ls\<close>.\<close>

definition holds_rows :: "byte list list \<Rightarrow> nat \<Rightarrow> byte list list \<Rightarrow> bool" where
  "holds_rows lines n ls \<longleftrightarrow> n \<le> 256 \<and> list_all terminated (take n lines) \<and> map cstr (take n lines) = ls"

lemma row_set_eq:
  assumes "rows_ok lines" "i < 256" "j < 128"
  shows "row_set lines i j c = Some (lines[i := (lines ! i)[j := c]])" "rows_ok (lines[i := (lines ! i)[j := c]])"
proof -
  have "length (lines ! i) = 128" "length lines = 256" using assms by (simp_all add: rows_ok_def list_all_length)
  then show "row_set lines i j c = Some (lines[i := (lines ! i)[j := c]])" "rows_ok (lines[i := (lines ! i)[j := c]])"
    using assms by (auto simp: row_set_def array_get_def array_set_def rows_ok_def list_all_length nth_list_update)
qed

lemma row_finished:
  assumes "rows_ok lines" "holds_rows lines n ls" "n < 256" "j < 128" "0 \<notin> set (take j (lines ! n))"
  shows "holds_rows (lines[n := (lines ! n)[j := 0]]) (n + 1) (ls @ [take j (lines ! n)])"
proof -
  have l: "length (lines ! n) = 128" "length lines = 256" using assms by (simp_all add: rows_ok_def list_all_length)
  have r: "(lines ! n)[j := 0] = take j (lines ! n) @ 0 # drop (Suc j) (lines ! n)" using l assms(4) by (simp add: upd_conv_take_nth_drop)
  have "take (n + 1) (lines[n := (lines ! n)[j := 0]]) = take n lines @ [(lines ! n)[j := 0]]"
    using l assms(3) by (simp add: take_Suc_conv_app_nth)
  then show ?thesis using assms(2,3,5) unfolding holds_rows_def by (simp add: r cstr_append_terminated)
qed

definition last_row :: "byte list list \<times> nat \<times> nat \<Rightarrow> (byte list list \<times> nat) option" where
  "last_row = (\<lambda>(lines, num_lines, current_pos).
     if current_pos > 0 then do { lines \<leftarrow> row_set lines num_lines current_pos 0; Some (lines, num_lines + 1) } else Some (lines, num_lines))"

lemma extract_lines_last: "extract_lines content lines = do { r \<leftarrow> extract_loop content lines 0 0; last_row r }"
  unfolding extract_lines_def last_row_def by simp

lemma extract_loop_rows:
  assumes "terminated s" "rows_ok lines" "holds_rows lines n ls" "pos \<le> 127" "n = 256 \<longrightarrow> pos = 0"
    "p = (if pos = 0 then [] else take pos (lines ! n))" "0 \<notin> set p"
  shows "\<exists>lines' n'. (do { r \<leftarrow> extract_loop s lines n pos; last_row r }) = Some (lines', n') \<and> rows_ok lines'
     \<and> holds_rows lines' n' (ls @ take (256 - n) (rows_from p (cstr s)))"
  using assms
proof (induction s arbitrary: lines n ls pos p)
  case (Cons c s)
  have len: "length lines = 256" using Cons.prems(2) by (simp add: rows_ok_def)
  have n: "n \<le> 256" using Cons.prems(3) by (simp add: holds_rows_def)
  show ?case
  proof (cases "n = 256")
    case True
    then show ?thesis using Cons.prems by (auto simp: last_row_def)
  next
    case n256: False
    then have n': "n < 256" using n by simp
    have lr: "length (lines ! n) = 128" using Cons.prems(2) n' by (simp add: rows_ok_def list_all_length)
    have pl: "length p = pos" "take pos (lines ! n) = p" using Cons.prems(4,6) lr by auto
    have set0: "row_set lines n pos x = Some (lines[n := (lines ! n)[pos := x]])" "rows_ok (lines[n := (lines ! n)[pos := x]])" for x
      using row_set_eq [OF Cons.prems(2) n', of pos] Cons.prems(4) by simp_all
    have fin: "holds_rows (lines[n := (lines ! n)[pos := 0]]) (n + 1) (ls @ [p])"
      using row_finished [OF Cons.prems(2,3) n', of pos] Cons.prems(4,7) pl by simp
    have tk: "take (256 - n) (x # xs) = x # take (256 - (n + 1)) xs" for x :: "byte list" and xs
      using n' take_Suc_Cons [of "255 - n" x xs] by (simp add: Suc_diff_le [symmetric])
    consider (stop) "c = 0" | (newline) "c = 10" | (more) "c \<noteq> 0" "c \<noteq> 10" "pos < 127" | (cut) "c \<noteq> 0" "c \<noteq> 10" "pos = 127"
      using Cons.prems(4) by linarith
    then show ?thesis
    proof cases
      case stop
      then show ?thesis
      proof (cases "pos = 0")
        case True
        then show ?thesis using stop Cons.prems by (simp add: last_row_def)
      next
        case False
        then have "p \<noteq> []" using pl(1) by auto
        then show ?thesis using stop False set0 fin tk [of p "[]"] by (simp add: last_row_def)
      qed
    next
      case newline
      then show ?thesis
        using Cons.IH [of "lines[n := (lines ! n)[pos := 0]]" "n + 1" "ls @ [p]" 0 "[]"] Cons.prems(1) set0 fin n' tk by simp
    next
      case more
      let ?l = "lines[n := (lines ! n)[pos := c]]"
      have "take n ?l = take n lines" using n' by simp
      then have h: "holds_rows ?l n ls" using Cons.prems(3) by (simp add: holds_rows_def)
      have "take (pos + 1) (?l ! n) = p @ [c]" using n' len lr more(3) pl by (simp add: take_Suc_conv_app_nth)
      then show ?thesis
        using Cons.IH [of ?l n ls "pos + 1" "p @ [c]"] Cons.prems(1,7) set0 [of c] h n' more pl(1) by simp
    next
      case cut
      then show ?thesis using Cons.IH [of lines n ls pos p] Cons.prems n' pl(1) by simp
    qed
  qed
qed simp

lemma extract_rows:
  assumes "terminated content" "rows_ok stack"
  shows "\<exists>lines n. extract_lines content stack = Some (lines, n) \<and> rows_ok lines \<and> holds_rows lines n (text_rows (cstr content))"
proof -
  have "holds_rows stack 0 []" by (simp add: holds_rows_def)
  then show ?thesis unfolding extract_lines_last text_rows_def
    using extract_loop_rows [OF assms(1,2), of 0 "[]" 0 "[]"] by simp
qed

lemma holds_rowsD:
  assumes "holds_rows lines n ls" "i < n" "rows_ok lines"
  shows "array_get lines i = Some (lines ! i)" "terminated (lines ! i)" "cstr (lines ! i) = ls ! i" "length (lines ! i) = 128" "length ls = n"
proof -
  have b: "n \<le> 256" "list_all terminated (take n lines)" "map cstr (take n lines) = ls" "length lines = 256" "list_all (\<lambda>r. length r = 128) lines"
    using assms by (auto simp: holds_rows_def rows_ok_def)
  have "take n lines ! i = lines ! i" "i < length (take n lines)" using assms(2) b(1,4) by auto
  then show "array_get lines i = Some (lines ! i)" "terminated (lines ! i)" "cstr (lines ! i) = ls ! i" "length (lines ! i) = 128" "length ls = n"
    using assms(2) b by (auto simp: array_get_def list_all_length)
qed


lemma holds_rows_length: "holds_rows lines n ls \<Longrightarrow> rows_ok lines \<Longrightarrow> length ls = n"
  by (cases "n = 0") (auto simp: holds_rows_def rows_ok_def)

text \<open>Printing rows.\<close>

abbreviation as_lines :: "byte list list \<Rightarrow> byte list" where
  "as_lines ls \<equiv> concat (map (\<lambda>l. l @ [10]) ls)"

lemma print_row:
  assumes "world_ok w" "holds_rows lines n ls" "rows_ok lines" "i < n"
  shows "\<exists>w'. w_printf ''%s\<newline>'' [Str (lines ! i)] w = Some w' \<and> prints w (ls ! i @ [10]) w'"
  using print_line [OF assms(1), of "lines ! i"] holds_rowsD [OF assms(2,4,3)] terminated_length [of "lines ! i"] by auto

lemma print_rows_prints:
  "world_ok w \<Longrightarrow> holds_rows lines m ls \<Longrightarrow> rows_ok lines \<Longrightarrow> i + n \<le> m \<Longrightarrow>
     \<exists>w'. print_rows i n lines w = Some w' \<and> prints w (as_lines (take n (drop i ls))) w'"
proof (induction n arbitrary: i w)
  case 0
  then show ?case by (simp add: prints_refl)
next
  case (Suc n)
  obtain w1 where w1: "w_printf ''%s\<newline>'' [Str (lines ! i)] w = Some w1" "prints w (ls ! i @ [10]) w1"
    using print_row [OF Suc.prems(1-3), of i] Suc.prems(4) by auto
  obtain w' where w': "print_rows (i + 1) n lines w1 = Some w'" "prints w1 (as_lines (take n (drop (i + 1) ls))) w'"
    using Suc.IH [OF prints_ok [OF w1(2)] Suc.prems(2,3), of "i + 1"] Suc.prems(4) by auto
  have g: "array_get lines i = Some (lines ! i)" "length ls = m" using holds_rowsD [OF Suc.prems(2) _ Suc.prems(3), of i] Suc.prems(4) by auto
  then have "take (Suc n) (drop i ls) = ls ! i # take n (drop (i + 1) ls)" using Suc.prems(4) by (simp add: Cons_nth_drop_Suc [symmetric])
  then show ?case using prints_trans [OF w1(2) w'(2)] w1(1) w'(1) g(1) by simp
qed

text \<open>The elements of a list that differ from the one before.\<close>

fun changed :: "'b \<Rightarrow> 'b list \<Rightarrow> 'b list" where
  "changed p [] = []"
| "changed p (x # xs) = (if x \<noteq> p then x # changed x xs else changed x xs)"

lemma remdups_adj_changed: "remdups_adj (p # xs) = p # changed p xs"
  by (induction xs arbitrary: p) auto

lemma print_changed_prints:
  "world_ok w \<Longrightarrow> holds_rows lines m ls \<Longrightarrow> rows_ok lines \<Longrightarrow> 0 < i \<Longrightarrow> i + n \<le> m \<Longrightarrow>
     \<exists>w'. print_changed i n lines w = Some w' \<and> prints w (as_lines (changed (ls ! (i - 1)) (take n (drop i ls)))) w'"
proof (induction n arbitrary: i w)
  case 0
  then show ?case by (simp add: prints_refl)
next
  case (Suc n)
  have a: "array_get lines i = Some (lines ! i)" "terminated (lines ! i)" "cstr (lines ! i) = ls ! i" "length ls = m"
    using holds_rowsD [OF Suc.prems(2) _ Suc.prems(3), of i] Suc.prems(5) by auto
  have b: "array_get lines (i - 1) = Some (lines ! (i - 1))" "terminated (lines ! (i - 1))" "cstr (lines ! (i - 1)) = ls ! (i - 1)"
    using holds_rowsD [OF Suc.prems(2) _ Suc.prems(3), of "i - 1"] Suc.prems(5) by auto
  obtain r where r: "strcmp (lines ! i) (lines ! (i - 1)) = Some r" "r = 0 \<longleftrightarrow> ls ! i = ls ! (i - 1)"
    using strcmp_less_iff [OF a(2) b(2)] a(3) b(3) by auto
  have t: "take (Suc n) (drop i ls) = ls ! i # take n (drop (i + 1) ls)" using Suc.prems(5) a(4) by (simp add: Cons_nth_drop_Suc [symmetric])
  show ?case
  proof (cases "r = 0")
    case True
    then show ?thesis using Suc.IH [OF Suc.prems(1-3), of "i + 1"] Suc.prems(5) a(1) b(1) r t by simp
  next
    case False
    obtain w1 where w1: "w_printf ''%s\<newline>'' [Str (lines ! i)] w = Some w1" "prints w (ls ! i @ [10]) w1"
      using print_row [OF Suc.prems(1-3), of i] Suc.prems(5) by auto
    obtain w' where "print_changed (i + 1) n lines w1 = Some w'" "prints w1 (as_lines (changed (ls ! i) (take n (drop (i + 1) ls)))) w'"
      using Suc.IH [OF prints_ok [OF w1(2)] Suc.prems(2,3), of "i + 1"] Suc.prems(5) by auto
    then show ?thesis using prints_trans [OF w1(2)] w1(1) a(1) b(1) r t False by simp
  qed
qed

lemma with_text_body:
  assumes "2 \<le> length argv" "open_text (argv ! 1) w = Some (Some n)" "vn_content n = Some c" "body c w = Some w'"
  shows "with_text cmd body argv w = Some (0, w')"
  using assms by (simp add: with_text_def array_get_def finish_def)

text \<open>
  \<open>uniq\<close> prints the lines of the file without adjacent repetitions: the lines are those of the text, cut at 127 characters and at 256 lines,
  whatever the stack contained before.
\<close>

theorem uniq_prints:
  assumes "world_ok w" "rows_ok stack" "2 \<le> length argv" "open_text (argv ! 1) w = Some (Some n)" "vn_content n = Some c" "terminated c"
  shows "\<exists>w'. cmd_uniq stack argv w = Some (0, w') \<and> prints w (as_lines (remdups_adj (text_rows (cstr c)))) w'"
proof -
  let ?ls = "text_rows (cstr c)"
  obtain lines k where e: "extract_lines c stack = Some (lines, k)" "rows_ok lines" "holds_rows lines k ?ls"
    using extract_rows [OF assms(6,2)] by blast
  have k: "length ?ls = k" using holds_rows_length [OF e(3,2)] .
  have "\<exists>w'. uniq_body stack c w = Some w' \<and> prints w (as_lines (remdups_adj ?ls)) w'"
  proof (cases "k = 0")
    case True
    then show ?thesis using e(1) k assms(1) by (simp add: uniq_body_def prints_refl)
  next
    case False
    then obtain x xs where x: "?ls = x # xs" using k by (cases ?ls) auto
    obtain w1 where w1: "w_printf ''%s\<newline>'' [Str (lines ! 0)] w = Some w1" "prints w (x @ [10]) w1"
      using print_row [OF assms(1) e(3,2), of 0] False x by auto
    obtain w2 where w2: "print_changed 1 (k - 1) lines w1 = Some w2" "prints w1 (as_lines (changed x xs)) w2"
      using print_changed_prints [OF prints_ok [OF w1(2)] e(3,2), of 1 "k - 1"] False x k by auto
    have "array_get lines 0 = Some (lines ! 0)" using holds_rowsD(1) [OF e(3) _ e(2)] False by simp
    then show ?thesis using e(1) False w1(1) w2 prints_trans [OF w1(2) w2(2)] x
      by (simp add: uniq_body_def remdups_adj_changed del: remdups_adj.simps(3))
  qed
  then show ?thesis unfolding cmd_uniq_def using with_text_body [OF assms(3-5)] by blast
qed

theorem uniq_prints_witness:
  "\<exists>w'. cmd_uniq (replicate 256 (replicate 128 7)) [clit ''uniq'', clit ''a''] (demo_world (clit ''x\<newline>x\<newline>y'')) = Some (0, w')
     \<and> prints (demo_world (clit ''x\<newline>x\<newline>y'')) (lit ''x\<newline>y\<newline>'') w'"
proof -
  obtain n where n: "open_text (clit ''a'') (demo_world (clit ''x\<newline>x\<newline>y'')) = Some (Some n)" "vn_content n = Some (clit ''x\<newline>x\<newline>y'')"
    using demo_world_open by blast
  have s: "rows_ok (replicate 256 (replicate 128 7))" by (simp add: rows_ok_def list_all_iff)
  have t: "as_lines (remdups_adj (text_rows (lit ''x\<newline>x\<newline>y''))) = lit ''x\<newline>y\<newline>''" by code_simp
  show ?thesis using uniq_prints [OF demo_world_ok s _ _ n(2), of "[clit ''uniq'', clit ''a'']"] n(1) t by simp
qed


section \<open>Sorting\<close>

text \<open>The two loops of the bubble sort on a list, with the comparison \<open>gt\<close>.\<close>

fun pass :: "('b \<Rightarrow> 'b \<Rightarrow> bool) \<Rightarrow> nat \<Rightarrow> nat \<Rightarrow> 'b list \<Rightarrow> 'b list" where
  "pass gt j 0 ls = ls"
| "pass gt j (Suc n) ls =
     pass gt (j + 1) n (if gt (ls ! j) (ls ! (j + 1)) then ls[j := ls ! (j + 1), j + 1 := ls ! j] else ls)"

fun passes :: "('b \<Rightarrow> 'b \<Rightarrow> bool) \<Rightarrow> nat \<Rightarrow> 'b list \<Rightarrow> 'b list" where
  "passes gt 0 ls = ls"
| "passes gt (Suc n) ls = passes gt n (pass gt 0 (Suc n) ls)"

lemma pass_mset: "j + n < length ls \<Longrightarrow> mset (pass gt j n ls) = mset ls \<and> length (pass gt j n ls) = length ls"
proof (induction n arbitrary: j ls)
  case (Suc n)
  let ?l = "if gt (ls ! j) (ls ! (j + 1)) then ls[j := ls ! (j + 1), j + 1 := ls ! j] else ls"
  have "mset ?l = mset ls" "length ?l = length ls" using Suc.prems by (simp_all add: mset_swap)
  then show ?case using Suc.IH [of "j + 1" ?l] Suc.prems by simp
qed simp

definition suffix_sorted :: "('b \<Rightarrow> 'b \<Rightarrow> bool) \<Rightarrow> nat \<Rightarrow> 'b list \<Rightarrow> bool" where
  "suffix_sorted le n ls \<longleftrightarrow> (\<forall>i j. i < j \<and> n < j \<and> j < length ls \<longrightarrow> le (ls ! i) (ls ! j))"

text \<open>The interface of the comparison: a total preorder.\<close>

locale comparison =
  fixes le :: "'b \<Rightarrow> 'b \<Rightarrow> bool"
  assumes le_trans: "le x y \<Longrightarrow> le y z \<Longrightarrow> le x z"
    and le_total: "le x y \<or> le y x"
begin

lemma le_refl: "le x x"
  using le_total by blast

lemma pass_largest:
  "j + n < length ls \<Longrightarrow> (\<forall>k. k < j \<or> j + n < k \<longrightarrow> pass (\<lambda>x y. \<not> le x y) j n ls ! k = ls ! k)
     \<and> (\<forall>k. j \<le> k \<and> k \<le> j + n \<longrightarrow> (\<exists>m. j \<le> m \<and> m \<le> j + n \<and> pass (\<lambda>x y. \<not> le x y) j n ls ! k = ls ! m))
     \<and> (\<forall>m. j \<le> m \<and> m \<le> j + n \<longrightarrow> le (ls ! m) (pass (\<lambda>x y. \<not> le x y) j n ls ! (j + n)))"
proof (induction n arbitrary: j ls)
  case 0
  then show ?case using le_refl by auto
next
  case (Suc n)
  define l where "l = (if \<not> le (ls ! j) (ls ! (j + 1)) then ls[j := ls ! (j + 1), j + 1 := ls ! j] else ls)"
  define r where "r = pass (\<lambda>x y. \<not> le x y) (j + 1) n l"
  have r: "pass (\<lambda>x y. \<not> le x y) j (Suc n) ls = r" by (simp add: r_def l_def)
  have len: "j + 1 + n < length l" using Suc.prems by (simp add: l_def)
  have l: "\<forall>k. k \<noteq> j \<and> k \<noteq> j + 1 \<longrightarrow> l ! k = ls ! k" "l ! j = ls ! j \<and> l ! (j + 1) = ls ! (j + 1) \<or> l ! j = ls ! (j + 1) \<and> l ! (j + 1) = ls ! j"
    "le (l ! j) (l ! (j + 1))" using Suc.prems le_total by (auto simp: l_def)
  note ih = Suc.IH [OF len, folded r_def]
  have up: "le (ls ! m) (l ! (j + 1))" if "m = j \<or> m = j + 1" for m
    using that l(2,3) le_refl by auto
  have top: "le (l ! (j + 1)) (r ! (j + Suc n))" using ih by (auto simp: add.assoc)
  have a: "r ! k = ls ! k" if "k < j \<or> j + Suc n < k" for k using ih l(1) that by auto
  have b: "\<exists>m. j \<le> m \<and> m \<le> j + Suc n \<and> r ! k = ls ! m" if k: "j \<le> k" "k \<le> j + Suc n" for k
  proof (cases "k = j")
    case True
    then have "r ! k = l ! j" using ih by simp
    then show ?thesis using l(2) by (auto intro: exI [of _ j] exI [of _ "j + 1"])
  next
    case False
    then obtain m where m: "j + 1 \<le> m" "m \<le> j + 1 + n" "r ! k = l ! m" using ih k by (metis Suc_eq_plus1 Suc_leI add_Suc_shift le_neq_implies_less)
    then show ?thesis using l(1,2) by (cases "m = j + 1") (auto intro: exI [of _ j] exI [of _ "j + 1"] exI [of _ m])
  qed
  have c: "le (ls ! m) (r ! (j + Suc n))" if m: "j \<le> m" "m \<le> j + Suc n" for m
  proof (cases "m = j \<or> m = j + 1")
    case True
    then show ?thesis using le_trans [OF up top] by blast
  next
    case False
    then show ?thesis using ih l(1) m by (metis Suc_eq_plus1 add_Suc_shift le_antisym not_less_eq_eq)
  qed
  show ?case unfolding r using a b c by blast
qed

lemma passes_sorted:
  "n < length ls \<Longrightarrow> suffix_sorted le n ls \<Longrightarrow> suffix_sorted le 0 (passes (\<lambda>x y. \<not> le x y) n ls) \<and> mset (passes (\<lambda>x y. \<not> le x y) n ls) = mset ls"
proof (induction n arbitrary: ls)
  case (Suc n)
  let ?r = "pass (\<lambda>x y. \<not> le x y) 0 (Suc n) ls"
  have p: "\<forall>k. Suc n < k \<longrightarrow> ?r ! k = ls ! k" "\<forall>k\<le>Suc n. \<exists>m\<le>Suc n. ?r ! k = ls ! m" "\<forall>m\<le>Suc n. le (ls ! m) (?r ! Suc n)"
    using pass_largest [of 0 "Suc n" ls] Suc.prems(1) by (auto simp del: pass.simps)
  have len: "length ?r = length ls" "mset ?r = mset ls"
    using pass_mset [of 0 "Suc n" ls "\<lambda>x y. \<not> le x y"] Suc.prems(1) by (simp_all del: pass.simps)
  have "le (?r ! i) (?r ! j)" if ij: "i < j" "n < j" "j < length ?r" for i j
  proof (cases "j = Suc n")
    case True
    then obtain m where "m \<le> Suc n" "?r ! i = ls ! m" using p(2) ij(1) by (meson less_imp_le)
    then show ?thesis using p(3) True by simp
  next
    case False
    then have j: "Suc n < j" using ij(2) by simp
    obtain m where "m < j" "?r ! i = ls ! m" using p(1,2) ij(1) j by (metis le_less_trans not_le)
    then show ?thesis using Suc.prems(2) p(1) j ij(3) len(1) unfolding suffix_sorted_def by auto
  qed
  then have "suffix_sorted le n ?r" by (simp add: suffix_sorted_def)
  then show ?case using Suc.IH [of ?r] len Suc.prems(1) by (simp del: pass.simps)
qed simp

lemma sorted_wrt_passes:
  assumes "length ls = Suc n"
  shows "sorted_wrt le (passes (\<lambda>x y. \<not> le x y) n ls)" "mset (passes (\<lambda>x y. \<not> le x y) n ls) = mset ls"
proof -
  have s: "suffix_sorted le n ls" using assms by (auto simp: suffix_sorted_def)
  then show "mset (passes (\<lambda>x y. \<not> le x y) n ls) = mset ls" using passes_sorted [of n ls] assms by simp
  show "sorted_wrt le (passes (\<lambda>x y. \<not> le x y) n ls)"
    using passes_sorted [OF _ s] assms unfolding suffix_sorted_def sorted_wrt_iff_nth_less by auto
qed

end


text \<open>The order of the strings that \<open>strcmp\<close> decides.\<close>

definition str_le :: "byte list \<Rightarrow> byte list \<Rightarrow> bool" where
  "str_le x y \<longleftrightarrow> x = y \<or> (x @ [0], y @ [0]) \<in> lexord char_less"

lemma str_le_trans: "str_le x y \<Longrightarrow> str_le y z \<Longrightarrow> str_le x z"
proof -
  have t: "trans char_less" by (auto simp: char_less_def trans_def)
  show "str_le x y \<Longrightarrow> str_le y z \<Longrightarrow> str_le x z" unfolding str_le_def using lexord_trans [OF _ _ t] by blast
qed

lemma str_le_total: "str_le x y \<or> str_le y x"
proof -
  have "\<forall>a b. (a, b) \<in> char_less \<or> a = b \<or> (b, a) \<in> char_less"
    by (auto simp: char_less_def intro: signed_word_eqI)
  then show ?thesis using lexord_linear [of char_less "x @ [0]" "y @ [0]"] unfolding str_le_def by auto
qed

interpretation string_order: comparison str_le
  by unfold_locales (use str_le_trans str_le_total in blast)+

lemma strcmp_str_le:
  assumes "terminated a" "terminated b"
  shows "\<exists>r. strcmp a b = Some r \<and> (r > 0 \<longleftrightarrow> \<not> str_le (cstr a) (cstr b))"
  using strcmp_less_iff [OF assms] unfolding str_le_def by (metis linorder_neqE_linordered_idom order_less_asym)

text \<open>
  \<open>strcpy\<close> stores no terminator, so a row is copied exactly when the destination is already terminated at the length of the source: the swap of
  two lines is right for lines of one length \<open>k\<close>.
\<close>

definition string_of_length :: "nat \<Rightarrow> byte list \<Rightarrow> bool" where
  "string_of_length k s \<longleftrightarrow> terminated s \<and> length (cstr s) = k"

lemma strcpy_same_length:
  assumes "string_of_length k s" "k < length d" "d ! k = 0"
  shows "\<exists>d'. strcpy d s = Some d' \<and> cstr d' = cstr s \<and> string_of_length k d' \<and> length d' = length d \<and> d' ! k = 0"
proof -
  have s: "terminated s" "length (cstr s) = k" using assms(1) by (auto simp: string_of_length_def)
  have d: "drop k d = 0 # drop (Suc k) d" using assms(2,3) by (metis Cons_nth_drop_Suc)
  have z: "0 \<notin> set (cstr s)" using cstr_nonzero by blast
  have e: "strcpy d s = Some (cstr s @ 0 # drop (Suc k) d)" using s assms(2) d by (simp add: strcpy_eq)
  have n: "(cstr s @ 0 # drop (Suc k) d) ! k = 0" using s(2) by (simp add: nth_append)
  have l: "length (cstr s @ 0 # drop (Suc k) d) = length d" using s(2) assms(2) by simp
  have "string_of_length k (cstr s @ 0 # drop (Suc k) d)" using cstr_append_terminated [OF z] s(2) by (simp add: string_of_length_def)
  then show ?thesis using e n l cstr_append_terminated [OF z] by blast
qed

lemma string_of_length_nth: "string_of_length k s \<Longrightarrow> k < length s \<and> s ! k = 0"
  using terminated_decomp [of s] terminated_length [of s] unfolding string_of_length_def by (metis nth_append_length)

lemma holds_rows_update:
  assumes "holds_rows lines m ls" "rows_ok lines" "j < m" "terminated a" "length a = 128"
  shows "holds_rows (lines[j := a]) m (ls[j := cstr a])" "rows_ok (lines[j := a])"
proof -
  have "take m (lines[j := a]) = (take m lines)[j := a]" by (simp add: take_update_swap)
  then show "holds_rows (lines[j := a]) m (ls[j := cstr a])" using assms
    by (auto simp: holds_rows_def map_update list_all_iff dest!: set_update_subset_insert [THEN subsetD])
  show "rows_ok (lines[j := a])" using assms(2,5)
    by (auto simp: rows_ok_def list_all_iff dest!: set_update_subset_insert [THEN subsetD])
qed

lemma bubble_pass_eq:
  "holds_rows lines m ls \<Longrightarrow> rows_ok lines \<Longrightarrow> \<forall>l\<in>set ls. length l = k \<Longrightarrow> k < length tmp \<Longrightarrow> tmp ! k = 0 \<Longrightarrow> j + n < m \<Longrightarrow>
     \<exists>tmp' lines'. bubble_pass j n tmp lines = Some (tmp', lines') \<and> rows_ok lines' \<and> k < length tmp' \<and> tmp' ! k = 0
       \<and> holds_rows lines' m (pass (\<lambda>x y. \<not> str_le x y) j n ls)"
proof (induction n arbitrary: j tmp lines ls)
  case (Suc n)
  let ?a = "lines ! j" and ?b = "lines ! (j + 1)"
  have a: "array_get lines j = Some ?a" "terminated ?a" "cstr ?a = ls ! j" "length ?a = 128" "length ls = m"
    using holds_rowsD [OF Suc.prems(1) _ Suc.prems(2), of j] Suc.prems(6) by auto
  have b: "array_get lines (j + 1) = Some ?b" "terminated ?b" "cstr ?b = ls ! (j + 1)" "length ?b = 128"
    using holds_rowsD [OF Suc.prems(1) _ Suc.prems(2), of "j + 1"] Suc.prems(6) by auto
  have k: "string_of_length k ?a" "string_of_length k ?b" using a b Suc.prems(3,6) by (auto simp: string_of_length_def)
  obtain r where r: "strcmp ?a ?b = Some r" "r > 0 \<longleftrightarrow> \<not> str_le (ls ! j) (ls ! (j + 1))"
    using strcmp_str_le [OF a(2) b(2)] a(3) b(3) by auto
  show ?case
  proof (cases "r > 0")
    case False
    then show ?thesis using Suc.IH [OF Suc.prems(1-5), of "j + 1"] Suc.prems(6) a(1) b(1) r by simp
  next
    case True
    obtain t where t: "strcpy tmp ?a = Some t" "cstr t = ls ! j" "string_of_length k t" "k < length t" "t ! k = 0"
      using strcpy_same_length [OF k(1) Suc.prems(4,5)] a(3) Suc.prems(4) by auto
    obtain a' where a': "strcpy ?a ?b = Some a'" "cstr a' = ls ! (j + 1)" "terminated a'" "length a' = 128"
      using strcpy_same_length [OF k(2), of ?a] string_of_length_nth [OF k(1)] b(3) a(4) by (auto simp: string_of_length_def)
    obtain b' where b': "strcpy ?b t = Some b'" "cstr b' = ls ! j" "terminated b'" "length b' = 128"
      using strcpy_same_length [OF t(3), of ?b] string_of_length_nth [OF k(2)] t(2) b(4) by (auto simp: string_of_length_def)
    let ?ls = "ls[j := ls ! (j + 1), j + 1 := ls ! j]"
    have h: "holds_rows (lines[j := a', j + 1 := b']) m ?ls" "rows_ok (lines[j := a', j + 1 := b'])"
      using holds_rows_update [OF holds_rows_update [OF Suc.prems(1,2) _ a'(3,4)] _ b'(3,4), of j "j + 1"] Suc.prems(6) a'(2) b'(2) by auto
    have "\<forall>l\<in>set ?ls. length l = k" using Suc.prems(3,6) a(5) by (metis mset_eq_setD mset_swap add_lessD1 add_Suc_right add_Suc_shift Suc_eq_plus1)
    then show ?thesis using Suc.IH [OF h _ t(4,5), of "j + 1"] Suc.prems(6) a(1) b(1) r True t(1) a'(1) b'(1) by simp
  qed
qed simp


lemma bubble_sort_eq:
  "holds_rows lines m ls \<Longrightarrow> rows_ok lines \<Longrightarrow> \<forall>l\<in>set ls. length l = k \<Longrightarrow> k < length tmp \<Longrightarrow> tmp ! k = 0 \<Longrightarrow> n < m \<Longrightarrow>
     \<exists>lines'. bubble_sort n tmp lines = Some lines' \<and> rows_ok lines' \<and> holds_rows lines' m (passes (\<lambda>x y. \<not> str_le x y) n ls)"
proof (induction n arbitrary: tmp lines ls)
  case (Suc n)
  obtain t l where tl: "bubble_pass 0 (Suc n) tmp lines = Some (t, l)" "rows_ok l" "k < length t" "t ! k = 0"
    "holds_rows l m (pass (\<lambda>x y. \<not> str_le x y) 0 (Suc n) ls)" using bubble_pass_eq [OF Suc.prems(1-5), of 0 "Suc n"] Suc.prems(6) by auto
  have "set (pass (\<lambda>x y. \<not> str_le x y) 0 (Suc n) ls) = set ls"
    using pass_mset [of 0 "Suc n" ls "\<lambda>x y. \<not> str_le x y"] Suc.prems(6) holds_rows_length [OF Suc.prems(1,2)] by (metis add_0 mset_eq_setD)
  then show ?case using Suc.IH [OF tl(5,2) _ tl(3,4)] Suc.prems(3,6) tl(1) by (simp del: pass.simps bubble_pass.simps)
qed simp

lemma bubble_pass_sorted:
  "holds_rows lines m ls \<Longrightarrow> rows_ok lines \<Longrightarrow> sorted_wrt str_le ls \<Longrightarrow> j + n < m \<Longrightarrow> bubble_pass j n tmp lines = Some (tmp, lines)"
proof (induction n arbitrary: j)
  case (Suc n)
  let ?a = "lines ! j" and ?b = "lines ! (j + 1)"
  have a: "array_get lines j = Some ?a" "terminated ?a" "cstr ?a = ls ! j" "length ls = m"
    using holds_rowsD [OF Suc.prems(1) _ Suc.prems(2), of j] Suc.prems(4) by auto
  have b: "array_get lines (j + 1) = Some ?b" "terminated ?b" "cstr ?b = ls ! (j + 1)"
    using holds_rowsD [OF Suc.prems(1) _ Suc.prems(2), of "j + 1"] Suc.prems(4) by auto
  have "str_le (ls ! j) (ls ! (j + 1))" using Suc.prems(3,4) a(4) by (simp add: sorted_wrt_iff_nth_less)
  then obtain r where "strcmp ?a ?b = Some r" "\<not> r > 0" using strcmp_str_le [OF a(2) b(2)] a(3) b(3) by auto
  then show ?case using Suc.IH [OF Suc.prems(1-3), of "j + 1"] Suc.prems(4) a(1) b(1) by simp
qed simp

lemma bubble_sort_sorted:
  "holds_rows lines m ls \<Longrightarrow> rows_ok lines \<Longrightarrow> sorted_wrt str_le ls \<Longrightarrow> n < m \<Longrightarrow> bubble_sort n tmp lines = Some lines"
  by (induction n) (simp_all add: bubble_pass_sorted del: bubble_pass.simps)

text \<open>The two steps around the sorting: the lines of the file go into the rows, and the rows are printed.\<close>

lemma sort_around:
  assumes "world_ok w" "rows_ok stack" "2 \<le> length argv" "open_text (argv ! 1) w = Some (Some n)" "vn_content n = Some c" "terminated c"
    and "\<And>lines m. rows_ok lines \<Longrightarrow> holds_rows lines m (text_rows (cstr c)) \<Longrightarrow>
      \<exists>lines'. bubble_sort (m - 1) tmp lines = Some lines' \<and> rows_ok lines' \<and> holds_rows lines' m ls"
  shows "\<exists>w'. cmd_sort stack tmp argv w = Some (0, w') \<and> prints w (as_lines ls) w'"
proof -
  obtain lines m where e: "extract_lines c stack = Some (lines, m)" "rows_ok lines" "holds_rows lines m (text_rows (cstr c))"
    using extract_rows [OF assms(6,2)] by blast
  obtain lines' where b: "bubble_sort (m - 1) tmp lines = Some lines'" "rows_ok lines'" "holds_rows lines' m ls"
    using assms(7) [OF e(2,3)] by blast
  obtain w' where w': "print_rows 0 m lines' w = Some w'" "prints w (as_lines ls) w'"
    using print_rows_prints [OF assms(1) b(3,2), of 0 m] holds_rows_length [OF b(3,2)] by auto
  have "sort_body stack tmp c w = Some w'" using e(1) b(1) w'(1) by (simp add: sort_body_def)
  then show ?thesis unfolding cmd_sort_def using with_text_body [OF assms(3-5)] w'(2) by blast
qed

text \<open>
  C32: what \<open>sort\<close> prints. A file whose lines (cut at 127 characters and at 256 lines) are in the order of \<open>strcmp\<close> is printed line by line as
  it is, whatever the stack held before. A file whose lines all have one length \<open>k\<close> is printed as a sorted permutation of
  its lines if the uninitialised array \<open>tmp\<close> of the swap happens to hold a NUL at position \<open>k\<close>; without that, or with
  lines of different lengths, a swap garbles the lines, since \<open>strcpy\<close> copies no terminator.
\<close>

theorem sort_prints:
  assumes "world_ok w" "rows_ok stack" "2 \<le> length argv" "open_text (argv ! 1) w = Some (Some n)" "vn_content n = Some c" "terminated c"
  shows "(sorted_wrt str_le (text_rows (cstr c)) \<longrightarrow>
       (\<exists>w'. cmd_sort stack tmp argv w = Some (0, w') \<and> prints w (as_lines (text_rows (cstr c))) w'))
    \<and> ((\<forall>l\<in>set (text_rows (cstr c)). length l = k) \<and> k < length tmp \<and> tmp ! k = 0 \<longrightarrow>
       (\<exists>w' ls. cmd_sort stack tmp argv w = Some (0, w') \<and> prints w (as_lines ls) w'
          \<and> sorted_wrt str_le ls \<and> mset ls = mset (text_rows (cstr c))))"
proof (intro conjI impI)
  let ?ls = "text_rows (cstr c)" and ?gt = "\<lambda>x y. \<not> str_le x y"
  show "\<exists>w'. cmd_sort stack tmp argv w = Some (0, w') \<and> prints w (as_lines ?ls) w'" if s: "sorted_wrt str_le ?ls"
  proof (rule sort_around [OF assms])
    fix lines m
    assume h: "rows_ok lines" "holds_rows lines m ?ls"
    then show "\<exists>lines'. bubble_sort (m - 1) tmp lines = Some lines' \<and> rows_ok lines' \<and> holds_rows lines' m ?ls"
      using bubble_sort_sorted [OF h(2,1) s, of "m - 1" tmp] by (cases m) auto
  qed
  assume l: "(\<forall>l\<in>set ?ls. length l = k) \<and> k < length tmp \<and> tmp ! k = 0"
  let ?s = "passes ?gt (length ?ls - 1) ?ls"
  have s: "sorted_wrt str_le ?s" "mset ?s = mset ?ls"
    using string_order.sorted_wrt_passes [of ?ls "length ?ls - 1"] by (cases ?ls; simp)+
  have "\<exists>w'. cmd_sort stack tmp argv w = Some (0, w') \<and> prints w (as_lines ?s) w'"
  proof (rule sort_around [OF assms])
    fix lines m
    assume h: "rows_ok lines" "holds_rows lines m ?ls"
    have "length ?ls = m" using holds_rows_length [OF h(2,1)] .
    then show "\<exists>lines'. bubble_sort (m - 1) tmp lines = Some lines' \<and> rows_ok lines' \<and> holds_rows lines' m ?s"
      using bubble_sort_eq [OF h(2,1), of k tmp "m - 1"] l h by (cases m) auto
  qed
  with s show "\<exists>w' ls. cmd_sort stack tmp argv w = Some (0, w') \<and> prints w (as_lines ls) w'
      \<and> sorted_wrt str_le ls \<and> mset ls = mset ?ls" by blast
qed

theorem sort_prints_witness:
  "\<exists>w' ls. cmd_sort (replicate 256 (replicate 128 7)) (replicate 128 0) [clit ''sort'', clit ''a''] (demo_world (clit ''yy\<newline>xy\<newline>xx\<newline>'')) = Some (0, w')
     \<and> prints (demo_world (clit ''yy\<newline>xy\<newline>xx\<newline>'')) (as_lines ls) w'
     \<and> sorted_wrt str_le ls \<and> mset ls = mset [lit ''yy'', lit ''xy'', lit ''xx'']"
proof -
  let ?t = "''yy\<newline>xy\<newline>xx\<newline>''"
  obtain n where n: "open_text (clit ''a'') (demo_world (clit ?t)) = Some (Some n)" "vn_content n = Some (clit ?t)"
    using demo_world_open by blast
  have s: "rows_ok (replicate 256 (replicate 128 7))" by (simp add: rows_ok_def list_all_iff)
  have t: "text_rows (lit ?t) = [lit ''yy'', lit ''xy'', lit ''xx'']" by code_simp
  show ?thesis
    using sort_prints [OF demo_world_ok s _ _ n(2), where argv = "[clit ''sort'', clit ''a'']" and k = 2 and tmp = "replicate 128 0"] n(1) t by simp
qed


text \<open>
  For lines of different lengths the swap is wrong: exchanging a longer line with a shorter one that sorts before it leaves the end of the
  longer line behind the shorter one, because \<open>strcpy\<close> does not copy the terminator; afterwards neither row is the shorter line.
\<close>

theorem sort_garbles_lengths:
  assumes "terminated a" "terminated b" "\<not> str_le (cstr a) (cstr b)" "length (cstr b) < length (cstr a)"
    "length (cstr a) < length b" "length (cstr a) < length tmp" "tmp ! length (cstr a) = 0"
  shows "\<exists>tmp' a' b'. bubble_pass 0 1 tmp [a, b] = Some (tmp', [a', b'])
     \<and> cstr a' = cstr b @ drop (length (cstr b)) (cstr a) \<and> cstr b \<notin> {cstr a', cstr b'}"
proof -
  obtain t where t: "strcpy tmp a = Some t" "cstr t = cstr a" "terminated t"
    using strcpy_same_length [of "length (cstr a)" a tmp] assms(1,6,7) by (auto simp: string_of_length_def)
  obtain b' where b': "strcpy b t = Some b'" using t(2,3) assms(5) by (auto simp: strcpy_eq)
  let ?n = "length (cstr b)"
  have a': "strcpy a b = Some (cstr b @ drop ?n a)" using assms(2,4) cstr_length [of a] by (simp add: strcpy_eq)
  obtain y where y: "a = cstr a @ 0 # y" using terminated_decomp [OF assms(1)] by blast
  have "drop ?n a = drop ?n (cstr a) @ 0 # y" using assms(4) y by (metis diff_is_0_eq' drop_0 drop_append less_imp_le)
  then have "cstr b @ drop ?n a = (cstr b @ drop ?n (cstr a)) @ 0 # y" by simp
  moreover have "0 \<notin> set (cstr b @ drop ?n (cstr a))" using cstr_nonzero by (auto dest: in_set_dropD)
  ultimately have c: "cstr (cstr b @ drop ?n a) = cstr b @ drop ?n (cstr a)" using cstr_append_terminated by metis
  obtain r where r: "strcmp a b = Some r" "r > 0" using strcmp_str_le [OF assms(1,2)] assms(3) by auto
  have "bubble_pass 0 1 tmp [a, b] = Some (t, [cstr b @ drop ?n a, b'])" using r t(1) a' b' by (simp add: array_get_def)
  moreover have "length (cstr b) < length (cstr b')" using strcpy_cstr [OF b'] t(2) assms(4) by simp
  moreover have "cstr b @ drop ?n (cstr a) \<noteq> cstr b" using assms(4) by simp
  ultimately show ?thesis using c by (metis insertE less_irrefl singletonD)
qed

theorem sort_garbles_lengths_witness:
  "\<exists>tmp' a' b'. bubble_pass 0 1 (replicate 8 0) [clit ''bcd'' @ replicate 4 0, clit ''a'' @ replicate 6 0] = Some (tmp', [a', b'])
     \<and> cstr a' = lit ''acd'' \<and> lit ''a'' \<notin> {cstr a', cstr b'}"
proof -
  let ?a = "clit ''bcd'' @ replicate 4 0" and ?b = "clit ''a'' @ replicate 6 0"
  have r: "strcmp ?a ?b = Some 1" by code_simp
  have c: "cstr ?a = lit ''bcd''" "cstr ?b = lit ''a''" "lit ''a'' @ drop (length (lit ''a'')) (lit ''bcd'') = lit ''acd''"
    "length (lit ''bcd'') = 3" "length (lit ''a'') = 1" by code_simp+
  have t: "terminated ?a" "terminated ?b" by simp_all
  have "\<not> str_le (cstr ?a) (cstr ?b)" using strcmp_str_le [OF t] r by auto
  then show ?thesis using sort_garbles_lengths [OF t, of "replicate 8 0"] c by simp
qed

end
