(* ===== verification/Nano.thy ===== *)
theory Nano
  imports World
begin

text \<open>
  The editor \<^verbatim>\<open>src/bin/nano/nano.c\<close>. Its state is the static buffer with the length of the text, the cursor and the first line shown,
  and the static buffer of the last line cut. Reads and writes outside an array are \<open>None\<close>; sizes are numbers, and
  wrap-around of 32-bit arithmetic is written out where it can happen. The editor draws on the screen and reads keys until it is left, so its loop is a
  partial function that is undefined when the keys run out. The lemmas relate the editing keys to a specification on the text before and
  behind the cursor.
\<close>

section \<open>State\<close>

abbreviation (input) NANO_BUF :: nat where "NANO_BUF \<equiv> 8192"
abbreviation (input) NANO_ROWS :: nat where "NANO_ROWS \<equiv> 21"
abbreviation (input) NANO_COLS :: nat where "NANO_COLS \<equiv> 80"

record nano =
  nano_buffer :: "byte list"
  nano_len :: nat
  nano_cursor :: nat
  nano_view :: nat
  nano_cut_buffer :: "byte list"

definition nano_help :: "'a world_scheme \<Rightarrow> 'a world_scheme option" where
  "nano_help w =
     do { w \<leftarrow> on_screen cmd_clear w;
          w \<leftarrow> write_all
            [''Nano Help:\<newline>\<newline>'',
             ''^G Help     ^O Save    ^R Read      ^X Exit\<newline>'',
             ''^K Delete   ^U Undo   ^W Search    ^Y PrevPage\<newline>'',
             ''^V NextPage ^A Home   ^E End       ^D Delete\<newline>'',
             ''^B Left     ^F Right  ^N Down      ^P Up\<newline>'',
             ''^C Position ^J Justify ^T Spell    ^L GoToLine\<newline>\<newline>'',
             ''Type text normally. Use Ctrl+O to save and Ctrl+X to exit.\<newline>'',
             ''Arrow navigation: Use Ctrl+A/F (left/right), Ctrl+P/N (up/down)\<newline>'',
             ''Press any key to continue...\<newline>''] w;
          (_, w) \<leftarrow> w_getchar w;
          Some w }"


section \<open>Lines\<close>

fun nano_line_start :: "byte list \<Rightarrow> nat \<Rightarrow> nat option" where
  "nano_line_start buffer 0 = Some 0"
| "nano_line_start buffer (Suc pos) =
     do { c \<leftarrow> array_get buffer pos; if c \<noteq> 10 then nano_line_start buffer pos else Some (Suc pos) }"

fun line_end_loop :: "byte list \<Rightarrow> nat \<Rightarrow> nat \<Rightarrow> nat option" where
  "line_end_loop buffer pos 0 = Some pos"
| "line_end_loop buffer pos (Suc n) =
     do { c \<leftarrow> array_get buffer pos; if c \<noteq> 10 then line_end_loop buffer (Suc pos) n else Some pos }"

definition nano_line_end :: "byte list \<Rightarrow> nat \<Rightarrow> nat \<Rightarrow> nat option" where
  "nano_line_end buffer pos len = line_end_loop buffer pos (len - pos)"

fun count_rows :: "byte list \<Rightarrow> nat \<Rightarrow> nat \<Rightarrow> nat \<Rightarrow> nat option" where
  "count_rows buffer i 0 row = Some row"
| "count_rows buffer i (Suc n) row =
     do { c \<leftarrow> array_get buffer i; count_rows buffer (Suc i) n (if c = 10 then row + 1 else row) }"

definition nano_row_for_pos :: "byte list \<Rightarrow> nat \<Rightarrow> nat option" where
  "nano_row_for_pos buffer pos = count_rows buffer 0 pos 0"

definition nano_col_for_pos :: "byte list \<Rightarrow> nat \<Rightarrow> nat option" where
  "nano_col_for_pos buffer pos = do { start \<leftarrow> nano_line_start buffer pos; Some (pos - start) }"


section \<open>Drawing\<close>

text \<open>The position of the first line shown.\<close>

fun skip_lines :: "byte list \<Rightarrow> nat \<Rightarrow> nat \<Rightarrow> nat \<Rightarrow> nat option" where
  "skip_lines buffer lines pos 0 = Some pos"
| "skip_lines buffer lines pos (Suc n) =
     (if lines = 0 then Some pos
      else do { c \<leftarrow> array_get buffer pos; skip_lines buffer (if c = 10 then lines - 1 else lines) (Suc pos) n })"

fun draw_line :: "byte list \<Rightarrow> nat \<Rightarrow> nat \<Rightarrow> 'a world_scheme \<Rightarrow> 'a world_scheme option" where
  "draw_line buffer i 0 w = Some w"
| "draw_line buffer i (Suc n) w =
     do { w \<leftarrow> (if terminal_col (screen w) < NANO_COLS
               then do { c \<leftarrow> array_get buffer i; on_screen (terminal_putc c) w } else Some w);
          draw_line buffer (Suc i) n w }"

fun draw_rows :: "byte list \<Rightarrow> nat \<Rightarrow> nat \<Rightarrow> nat \<Rightarrow> 'a world_scheme \<Rightarrow> 'a world_scheme option" where
  "draw_rows buffer len pos 0 w = Some w"
| "draw_rows buffer len pos (Suc n) w =
     (if pos < len
      then do { e \<leftarrow> nano_line_end buffer pos len;
                w \<leftarrow> draw_line buffer pos (e - pos) w;
                newline \<leftarrow> (if e < len then do { c \<leftarrow> array_get buffer e; Some (c = 10) } else Some False);
                w \<leftarrow> on_screen (terminal_putc 10) w;
                draw_rows buffer len (if newline then Suc e else e) n w }
      else do { w \<leftarrow> w_write (clit ''~\<newline>'') w; draw_rows buffer len pos n w })"

definition print_position :: "nano \<Rightarrow> 'a world_scheme \<Rightarrow> (nat \<times> nat \<times> 'a world_scheme) option" where
  "print_position s w =
     do { line \<leftarrow> nano_row_for_pos (nano_buffer s) (nano_cursor s);
          col \<leftarrow> nano_col_for_pos (nano_buffer s) (nano_cursor s);
          w \<leftarrow> w_printf ''Ln %u, Col %u, Size %u\<newline>''
            [Word (of_nat line + 1), Word (of_nat col + 1), Word (of_nat (nano_len s))] w;
          Some (line, col, w) }"

definition nano_draw :: "byte list \<Rightarrow> nano \<Rightarrow> 'a world_scheme \<Rightarrow> 'a world_scheme option" where
  "nano_draw filename s w =
     do { w \<leftarrow> on_screen cmd_clear w;
          pos \<leftarrow> skip_lines (nano_buffer s) (nano_view s) 0 (nano_len s);
          w \<leftarrow> draw_rows (nano_buffer s) (nano_len s) pos NANO_ROWS w;
          w \<leftarrow> w_write (clit ''File: '') w;
          w \<leftarrow> w_write filename w;
          w \<leftarrow> w_write (clit ''  Ctrl+O Save  Ctrl+X Exit  Ctrl+G Help\<newline>'') w;
          (line_num, col, w) \<leftarrow> print_position s w;
          if line_num \<ge> nano_view s \<and> line_num < (nano_view s + NANO_ROWS) mod 2 ^ 32 \<and> line_num - nano_view s < TERM_HEIGHT
          then on_screen (\<lambda>t. Some (move_cursor col (line_num - nano_view s) t)) w
          else Some w }"



section \<open>Operations\<close>

text \<open>The difference of two values of type \<open>size_t\<close>.\<close>

definition sub32 :: "nat \<Rightarrow> nat \<Rightarrow> nat" where
  "sub32 a b = (if b \<le> a then a - b else a + 2 ^ 32 - b)"

definition nano_save :: "nat \<Rightarrow> nano \<Rightarrow> 'a world_scheme \<Rightarrow> 'a world_scheme option" where
  "nano_save vn s w =
     do { n \<leftarrow> array_get (vnodes_pool (w_fs w)) vn;
          let (content, fs) =
            (case vn_content n of
               Some c \<Rightarrow> (Some c, w_fs w)
             | None \<Rightarrow>
                 let (p, pm, m) = pmm_alloc_z (of_nat NANO_BUF) (fs_pmm (w_fs w)) (fs_mem (w_fs w));
                     fs = (w_fs w)\<lparr>fs_pmm := pm, fs_mem := m\<rparr>
                 in if p = 0 then (None, fs) else (Some (mem_read m p NANO_BUF), fs));
          let w = w\<lparr>w_fs := fs\<rparr>;
          case content of
            None \<Rightarrow> w_write (clit ''nano: out of memory\<newline>'') w
          | Some c \<Rightarrow>
              do { c \<leftarrow> memcpy c (nano_buffer s) (nano_len s);
                   c \<leftarrow> array_set c (nano_len s) 0;
                   fs \<leftarrow> update_node vn (\<lambda>n. n\<lparr>vn_content := Some c, vn_size := of_nat (nano_len s)\<rparr>) (w_fs w);
                   w_write (clit ''nano: written to disk\<newline>'') (w\<lparr>w_fs := fs\<rparr>) } }"

text \<open>\<open>stack\<close> is the uninitialised array for the answer. The distance of the match is \<open>found - buffer\<close>.\<close>

definition nano_search :: "byte list \<Rightarrow> nano \<Rightarrow> 'a world_scheme \<Rightarrow> (nano \<times> 'a world_scheme) option" where
  "nano_search stack s w =
     do { w \<leftarrow> w_write (clit ''Search: '') w;
          (query, k) \<leftarrow> read_line (take 128 stack) 128 (w_kbd w);
          let w = w\<lparr>w_kbd := k\<rparr>;
          found \<leftarrow> strstr (nano_buffer s) query;
          case found of
            None \<Rightarrow> do { w \<leftarrow> w_write (clit ''Not found\<newline>'') w; Some (s, w) }
          | Some rest \<Rightarrow>
              do { let pos = length (nano_buffer s) - length rest;
                   row \<leftarrow> nano_row_for_pos (nano_buffer s) pos;
                   Some (s\<lparr>nano_cursor := pos, nano_view := row\<rparr>, w) } }"

definition nano_cut_line :: "nano \<Rightarrow> nano option" where
  "nano_cut_line s =
     do { let buffer = nano_buffer s;
          let len = nano_len s;
          start \<leftarrow> nano_line_start buffer (nano_cursor s);
          e \<leftarrow> nano_line_end buffer (nano_cursor s) len;
          let line_len = min (e - start) (length (nano_cut_buffer s) - 1);
          cut \<leftarrow> memcpy (nano_cut_buffer s) (drop start buffer) line_len;
          cut \<leftarrow> array_set cut line_len 0;
          e \<leftarrow> (if e < len then do { c \<leftarrow> array_get buffer e; Some (if c = 10 then e + 1 else e) } else Some e);
          buffer \<leftarrow> memmove buffer start e (sub32 len e);
          Some (s\<lparr>nano_buffer := buffer, nano_len := sub32 len (e - start), nano_cursor := start, nano_cut_buffer := cut\<rparr>) }"

fun parse_line_num :: "u32 \<Rightarrow> byte list \<Rightarrow> u32 option" where
  "parse_line_num n [] = None"
| "parse_line_num n (c # s) = (if 48 \<le> c \<and> c \<le> 57 then parse_line_num (n * 10 + ucast (c - 48)) s else Some n)"

fun goto_loop :: "byte list \<Rightarrow> nat \<Rightarrow> nat \<Rightarrow> nat \<Rightarrow> nat \<Rightarrow> nat \<Rightarrow> (nat \<times> nat) option" where
  "goto_loop buffer i 0 target line pos = Some (line, pos)"
| "goto_loop buffer i (Suc n) target line pos =
     (if line < target
      then do { c \<leftarrow> array_get buffer i;
                if c = 10 then goto_loop buffer (Suc i) n target (line + 1) (Suc i)
                else goto_loop buffer (Suc i) n target line pos }
      else Some (line, pos))"

definition nano_goto_line :: "byte list \<Rightarrow> nano \<Rightarrow> 'a world_scheme \<Rightarrow> (nano \<times> 'a world_scheme) option" where
  "nano_goto_line stack s w =
     do { w \<leftarrow> w_write (clit ''Enter line number: '') w;
          (line_str, k) \<leftarrow> read_line (take 32 stack) 32 (w_kbd w);
          line_num \<leftarrow> parse_line_num 0 line_str;
          let line_num = (if line_num < 1 then 1 else line_num);
          (line, pos) \<leftarrow> goto_loop (nano_buffer s) 0 (nano_len s) (unat line_num - 1) 0 0;
          Some (s\<lparr>nano_cursor := pos, nano_view := if line > NANO_ROWS div 2 then line - NANO_ROWS div 2 else 0\<rparr>, w\<lparr>w_kbd := k\<rparr>) }"

definition nano_paste :: "nano \<Rightarrow> 'a world_scheme \<Rightarrow> (nano \<times> 'a world_scheme) option" where
  "nano_paste s w =
     do { cut_len \<leftarrow> strlen (nano_cut_buffer s);
          if nano_len s + cut_len \<ge> NANO_BUF
          then do { w \<leftarrow> w_write (clit ''nano: paste too large\<newline>'') w; Some (s, w) }
          else do {
            b \<leftarrow> memmove (nano_buffer s) (nano_cursor s + cut_len) (nano_cursor s) (sub32 (nano_len s) (nano_cursor s));
            t \<leftarrow> memcpy (drop (nano_cursor s) b) (nano_cut_buffer s) cut_len;
            Some (s\<lparr>nano_buffer := take (nano_cursor s) b @ t, nano_cursor := nano_cursor s + cut_len, nano_len := nano_len s + cut_len\<rparr>, w) } }"

definition is_letter :: "byte \<Rightarrow> bool" where
  "is_letter c \<longleftrightarrow> (97 \<le> c \<and> c \<le> 122) \<or> (65 \<le> c \<and> c \<le> 90)"

fun word_start :: "byte list \<Rightarrow> nat \<Rightarrow> nat option" where
  "word_start buffer 0 = Some 0"
| "word_start buffer (Suc pos) = do { c \<leftarrow> array_get buffer pos; if is_letter c then word_start buffer pos else Some (Suc pos) }"

fun word_end :: "byte list \<Rightarrow> nat \<Rightarrow> nat \<Rightarrow> nat option" where
  "word_end buffer pos 0 = Some pos"
| "word_end buffer pos (Suc n) = do { c \<leftarrow> array_get buffer pos; if is_letter c then word_end buffer (Suc pos) n else Some pos }"

definition to_lower :: "byte \<Rightarrow> byte" where
  "to_lower c = (if 65 \<le> c \<and> c \<le> 90 then c - 65 + 97 else c)"

definition spell_dict :: "string list" where
  "spell_dict =
     [''the'', ''and'', ''to'', ''of'', ''a'', ''in'', ''is'', ''it'', ''you'', ''that'',
      ''this'', ''for'', ''with'', ''on'', ''as'', ''are'', ''be'', ''or'', ''not'']"

definition nano_spell_check :: "nano \<Rightarrow> bool option" where
  "nano_spell_check s =
     do { start \<leftarrow> word_start (nano_buffer s) (nano_cursor s);
          n \<leftarrow> strlen (nano_buffer s);
          e \<leftarrow> word_end (nano_buffer s) (nano_cursor s) (n - nano_cursor s);
          if e \<le> start \<or> e - start \<ge> 64 then Some False
          else do {
            let word = map to_lower (take (e - start) (drop start (nano_buffer s))) @ [0];
            i \<leftarrow> find_named (\<lambda>i. map_option clit (array_get spell_dict i)) word 0 (length spell_dict);
            Some (i \<noteq> None) } }"


section \<open>Keys\<close>

text \<open>Loading the text of the file.\<close>

definition nano_load :: "vnode \<Rightarrow> byte list \<Rightarrow> (byte list \<times> nat) option" where
  "nano_load n buffer =
     (let len = (case vn_content n of None \<Rightarrow> 0 | Some _ \<Rightarrow> min (unat (vn_size n)) (NANO_BUF - 1))
      in do { b \<leftarrow> memcpy buffer (case vn_content n of None \<Rightarrow> [] | Some c \<Rightarrow> c) len;
              b \<leftarrow> array_set b len 0;
              Some (b, len) })"

definition delete_back :: "nano \<Rightarrow> nano option" where
  "delete_back s =
     (if nano_cursor s > 0
      then do { b \<leftarrow> memmove (nano_buffer s) (nano_cursor s - 1) (nano_cursor s) (sub32 (nano_len s) (nano_cursor s));
                b \<leftarrow> array_set b (sub32 (nano_len s) 1) 0;
                Some (s\<lparr>nano_buffer := b, nano_cursor := nano_cursor s - 1, nano_len := sub32 (nano_len s) 1\<rparr>) }
      else Some s)"

definition delete_at :: "nano \<Rightarrow> nano option" where
  "delete_at s =
     (if nano_cursor s < nano_len s
      then do { b \<leftarrow> memmove (nano_buffer s) (nano_cursor s) (nano_cursor s + 1) (nano_len s - nano_cursor s - 1);
                b \<leftarrow> array_set b (nano_len s - 1) 0;
                Some (s\<lparr>nano_buffer := b, nano_len := nano_len s - 1\<rparr>) }
      else Some s)"

definition insert_char :: "byte \<Rightarrow> nano \<Rightarrow> nano option" where
  "insert_char c s =
     (if nano_len s + 1 < NANO_BUF
      then do { b \<leftarrow> memmove (nano_buffer s) (nano_cursor s + 1) (nano_cursor s) (sub32 (nano_len s) (nano_cursor s));
                b \<leftarrow> array_set b (nano_cursor s) c;
                b \<leftarrow> array_set b (nano_len s + 1) 0;
                Some (s\<lparr>nano_buffer := b, nano_cursor := nano_cursor s + 1, nano_len := nano_len s + 1\<rparr>) }
      else Some s)"

definition line_up :: "nano \<Rightarrow> nano option" where
  "line_up s =
     do { line_start \<leftarrow> nano_line_start (nano_buffer s) (nano_cursor s);
          if line_start > 0
          then do { prev_line_start \<leftarrow> nano_line_start (nano_buffer s) (sub32 line_start 2);
                    prev_line_end \<leftarrow> nano_line_end (nano_buffer s) prev_line_start (nano_len s);
                    Some (s\<lparr>nano_cursor := prev_line_start + min (nano_cursor s - line_start) (prev_line_end - prev_line_start)\<rparr>) }
          else Some s }"

definition line_down :: "nano \<Rightarrow> nano option" where
  "line_down s =
     do { line_end \<leftarrow> nano_line_end (nano_buffer s) (nano_cursor s) (nano_len s);
          newline \<leftarrow> (if line_end < nano_len s then do { c \<leftarrow> array_get (nano_buffer s) line_end; Some (c = 10) } else Some False);
          if newline
          then do { start \<leftarrow> nano_line_start (nano_buffer s) (nano_cursor s);
                    next_line_end \<leftarrow> nano_line_end (nano_buffer s) (line_end + 1) (nano_len s);
                    Some (s\<lparr>nano_cursor := line_end + 1 + min (nano_cursor s - start) (next_line_end - (line_end + 1))\<rparr>) }
          else Some s }"

definition adjust_view :: "nano \<Rightarrow> nano option" where
  "adjust_view s =
     do { current_line \<leftarrow> nano_row_for_pos (nano_buffer s) (nano_cursor s);
          Some (if current_line < nano_view s then s\<lparr>nano_view := current_line\<rparr>
                else if current_line \<ge> (nano_view s + NANO_ROWS) mod 2 ^ 32
                then s\<lparr>nano_view := sub32 current_line NANO_ROWS + 1\<rparr> else s) }"

text \<open>The keys that change only the editor: the text, the cursor and the view.\<close>

definition edit_key :: "byte \<Rightarrow> nano \<Rightarrow> nano option" where
  "edit_key c s =
     (if c = 0x19 then Some (s\<lparr>nano_view := if nano_view s > NANO_ROWS then nano_view s - NANO_ROWS else 0\<rparr>)
      else if c = 0x16 then Some (s\<lparr>nano_view := (nano_view s + NANO_ROWS) mod 2 ^ 32\<rparr>)
      else if c = 0x0B then nano_cut_line s
      else if c = 0x08 \<or> c = 0x7F then delete_back s
      else if c = 0x01 then do { p \<leftarrow> nano_line_start (nano_buffer s) (nano_cursor s); Some (s\<lparr>nano_cursor := p\<rparr>) }
      else if c = 0x02 then Some (if nano_cursor s > 0 then s\<lparr>nano_cursor := nano_cursor s - 1\<rparr> else s)
      else if c = 0x06 then Some (if nano_cursor s < nano_len s then s\<lparr>nano_cursor := nano_cursor s + 1\<rparr> else s)
      else if c = 0x10 then line_up s
      else if c = 0x0E \<or> c = 0x1A then line_down s
      else if c = 0x05 then do { p \<leftarrow> nano_line_end (nano_buffer s) (nano_cursor s) (nano_len s); Some (s\<lparr>nano_cursor := p\<rparr>) }
      else if c = 0x04 then delete_at s
      else if c \<ge> 32 then insert_char c s
      else adjust_view s)"

text \<open>One key of the loop; the result is absent when the editor is left.\<close>

definition nano_key :: "byte list \<Rightarrow> nat \<Rightarrow> byte \<Rightarrow> nano \<Rightarrow> 'a world_scheme \<Rightarrow> (bool \<times> nano \<times> 'a world_scheme) option" where
  "nano_key stack vn c s w =
     (if c = 0x07 then do { w \<leftarrow> nano_help w; Some (True, s, w) }
      else if c = 0x0F then do { w \<leftarrow> nano_save vn s w; Some (True, s, w) }
      else if c = 0x12
      then do { n \<leftarrow> array_get (vnodes_pool (w_fs w)) vn;
                if vn_content n \<noteq> None
                then do { (b, len) \<leftarrow> nano_load n (nano_buffer s);
                          w \<leftarrow> w_write (clit ''nano: file reloaded\<newline>'') w;
                          Some (True, s\<lparr>nano_buffer := b, nano_len := len, nano_cursor := len, nano_view := 0\<rparr>, w) }
                else do { w \<leftarrow> w_write (clit ''nano: no file to read\<newline>'') w; Some (True, s, w) } }
      else if c = 0x15 then do { (s, w) \<leftarrow> nano_paste s w; Some (True, s, w) }
      else if c = 0x03 then do { (_, _, w) \<leftarrow> print_position s w; Some (True, s, w) }
      else if c = 0x17 then do { (s, w) \<leftarrow> nano_search stack s w; Some (True, s, w) }
      else if c = 0x14
      then do { ok \<leftarrow> nano_spell_check s;
                w \<leftarrow> w_write (clit (if ok then ''Spell: word looks okay\<newline>'' else ''Spell: unknown word\<newline>'')) w;
                Some (True, s, w) }
      else if c = 0x0C then do { (s, w) \<leftarrow> nano_goto_line stack s w; Some (True, s, w) }
      else if c = 0x18
      then do { w \<leftarrow> w_write (clit ''Save changes? (y/n): '') w;
                (answer, w) \<leftarrow> w_getchar w;
                w \<leftarrow> w_write (clit ''\<newline>'') w;
                w \<leftarrow> (if answer = 121 \<or> answer = 89 then nano_save vn s w else Some w);
                Some (False, s, w) }
      else do { s \<leftarrow> edit_key c s; Some (True, s, w) })"

partial_function (option) nano_loop :: "byte list \<Rightarrow> byte list \<Rightarrow> nat \<Rightarrow> nano \<Rightarrow> 'a world_scheme \<Rightarrow> (nano \<times> 'a world_scheme) option" where
  "nano_loop stack path vn s w =
     do { w \<leftarrow> nano_draw path s w;
          (c, w) \<leftarrow> w_getchar w;
          if c = 0 then nano_loop stack path vn s w
          else do { (go, s, w) \<leftarrow> nano_key stack vn c s w;
                    if go then nano_loop stack path vn s w else Some (s, w) } }"

text \<open>The command; \<open>s\<close> holds the static buffers.\<close>

definition cmd_nano :: "byte list \<Rightarrow> byte list list \<Rightarrow> nano \<Rightarrow> 'a world_scheme \<Rightarrow> (int \<times> nano \<times> 'a world_scheme) option" where
  "cmd_nano stack argv s w =
     (if length argv < 2 then do { w \<leftarrow> w_write (clit ''Usage: nano <filename>\<newline>'') w; Some (-1, s, w) }
      else do {
        path \<leftarrow> array_get argv 1;
        found \<leftarrow> vfs_lookup (Some path) (w_fs w);
        (r, fs) \<leftarrow> (if found \<noteq> None then Some (0, w_fs w) else k_touch (Some path) (w_fs w));
        let w = w\<lparr>w_fs := fs\<rparr>;
        if r \<noteq> 0 then do { w \<leftarrow> w_write (clit ''nano: error creating file\<newline>'') w; Some (-1, s, w) }
        else do {
        found \<leftarrow> (if found \<noteq> None then Some found else vfs_lookup (Some path) (w_fs w));
        case found of
          None \<Rightarrow> do { w \<leftarrow> w_write (clit ''nano: unable to open file\<newline>'') w; Some (-1, s, w) }
        | Some vn \<Rightarrow>
            do { n \<leftarrow> array_get (vnodes_pool (w_fs w)) vn;
                 (b, len) \<leftarrow> nano_load n (nano_buffer s);
                 (s, w) \<leftarrow> nano_loop stack path vn (s\<lparr>nano_buffer := b, nano_len := len, nano_cursor := len, nano_view := 0\<rparr>) w;
                 Some (0, s, w) } } })"



section \<open>The lines around the cursor\<close>

text \<open>The end of a text behind its last newline, and the text before that.\<close>

definition last_line :: "byte list \<Rightarrow> byte list" where
  "last_line l = rev (takeWhile (\<lambda>c. c \<noteq> 10) (rev l))"

definition lines_before :: "byte list \<Rightarrow> byte list" where
  "lines_before l = rev (dropWhile (\<lambda>c. c \<noteq> 10) (rev l))"

definition first_line :: "byte list \<Rightarrow> byte list" where
  "first_line r = takeWhile (\<lambda>c. c \<noteq> 10) r"

definition lines_after :: "byte list \<Rightarrow> byte list" where
  "lines_after r = dropWhile (\<lambda>c. c \<noteq> 10) r"

lemma before_split: "lines_before l @ last_line l = l"
  unfolding lines_before_def last_line_def by (metis rev_append rev_rev_ident takeWhile_dropWhile_id)

lemma after_split: "first_line r @ lines_after r = r"
  by (simp add: first_line_def lines_after_def)

lemma before_snoc: "lines_before (l @ [c]) = (if c = 10 then l @ [c] else lines_before l)"
  by (simp add: lines_before_def)

lemma lines_before_length: "length (lines_before l) \<le> length l" "length l - length (lines_before l) = length (last_line l)"
  using arg_cong [OF before_split [of l], of length] by auto

lemma lines_after_hd: "lines_after r \<noteq> [] \<Longrightarrow> \<exists>y. lines_after r = 10 # y"
  by (induction r) (auto simp: lines_after_def split: if_splits)

lemma nano_line_start_eq: "pos \<le> length b \<Longrightarrow> nano_line_start b pos = Some (length (lines_before (take pos b)))"
proof (induction pos)
  case 0
  then show ?case by (simp add: lines_before_def)
next
  case (Suc pos)
  have "take (Suc pos) b = take pos b @ [b ! pos]" using Suc.prems by (simp add: take_Suc_conv_app_nth)
  then show ?case using Suc by (simp add: array_get_def before_snoc)
qed

lemma line_end_loop_eq:
  "pos + n \<le> length b \<Longrightarrow> line_end_loop b pos n = Some (pos + length (first_line (take n (drop pos b))))"
proof (induction n arbitrary: pos)
  case (Suc n)
  have "take (Suc n) (drop pos b) = b ! pos # take n (drop (Suc pos) b)" using Suc.prems by (simp add: Cons_nth_drop_Suc [symmetric])
  then show ?case using Suc.IH [of "Suc pos"] Suc.prems by (simp add: array_get_def first_line_def)
qed (simp add: first_line_def)

lemma count_rows_eq: "i + n \<le> length b \<Longrightarrow> count_rows b i n row = Some (row + count_list (take n (drop i b)) 10)"
proof (induction n arbitrary: i row)
  case (Suc n)
  have "take (Suc n) (drop i b) = b ! i # take n (drop (Suc i) b)" using Suc.prems by (simp add: Cons_nth_drop_Suc [symmetric])
  then show ?case using Suc.IH [of "Suc i"] Suc.prems by (simp add: array_get_def)
qed simp


section \<open>A specification of the editing keys\<close>

text \<open>A document is the text before the cursor, the text behind it, and the line cut last.\<close>

type_synonym doc = "byte list \<times> byte list \<times> byte list"

text \<open>
  The effect of a key on a document. Moving up over an empty line is left out: there the program does not reach the line above.
\<close>

definition doc_key :: "byte \<Rightarrow> doc \<Rightarrow> doc option" where
  "doc_key c d =
     (case d of (l, r, clip) \<Rightarrow>
        if c = 0x0B then Some (lines_before l, tl (lines_after r), last_line l @ first_line r)
        else if c = 0x15 then Some (if length l + length r + length clip \<ge> NANO_BUF then d else (l @ clip, r, clip))
        else if c = 0x08 \<or> c = 0x7F then Some (if l = [] then d else (butlast l, r, clip))
        else if c = 0x01 then Some (lines_before l, last_line l @ r, clip)
        else if c = 0x02 then Some (if l = [] then d else (butlast l, last l # r, clip))
        else if c = 0x06 then Some (if r = [] then d else (l @ [hd r], tl r, clip))
        else if c = 0x10
        then (if lines_before l = [] then Some d
              else let p = butlast (lines_before l); row = last_line p; n = min (length (last_line l)) (length row)
                   in if row = [] then None
                      else Some (lines_before p @ take n row, drop n row @ 10 # last_line l @ r, clip))
        else if c = 0x0E \<or> c = 0x1A
        then (if lines_after r = [] then Some d
              else let q = tl (lines_after r); row = first_line q; n = min (length (last_line l)) (length row)
                   in Some (l @ first_line r @ 10 # take n row, drop n row @ lines_after q, clip))
        else if c = 0x05 then Some (l @ first_line r, lines_after r, clip)
        else if c = 0x04 then Some (l, tl r, clip)
        else if c \<ge> 32 then Some (if length l + length r + 1 < NANO_BUF then (l @ [c], r, clip) else d)
        else Some d)"

text \<open>The state of the editor holds a document.\<close>

definition nano_holds :: "nano \<Rightarrow> doc \<Rightarrow> bool" where
  "nano_holds s d \<longleftrightarrow> (case d of (l, r, clip) \<Rightarrow>
     (\<exists>z. nano_buffer s = l @ r @ z) \<and> nano_cursor s = length l \<and> nano_len s = length l + length r
     \<and> length (nano_buffer s) = NANO_BUF \<and> length l + length r < NANO_BUF \<and> length (nano_cut_buffer s) = NANO_BUF
     \<and> terminated (nano_cut_buffer s) \<and> cstr (nano_cut_buffer s) = clip \<and> 0 \<notin> set l \<union> set r)"

lemma nano_holdsE:
  assumes "nano_holds s (l, r, clip)"
  obtains z where "nano_buffer s = l @ r @ z" "nano_cursor s = length l" "nano_len s = length l + length r"
    "length l + length r + length z = NANO_BUF" "z \<noteq> []" "length (nano_cut_buffer s) = NANO_BUF"
    "terminated (nano_cut_buffer s)" "cstr (nano_cut_buffer s) = clip" "0 \<notin> set l" "0 \<notin> set r"
proof -
  obtain z where z: "nano_buffer s = l @ r @ z" using assms by (auto simp: nano_holds_def)
  moreover have "z \<noteq> []" using assms z by (auto simp: nano_holds_def)
  ultimately show ?thesis using assms that [of z] by (simp add: nano_holds_def)
qed

lemma nano_holdsI:
  assumes "nano_buffer s = l @ r @ z" "nano_cursor s = length l" "nano_len s = length l + length r"
    "length l + length r + length z = NANO_BUF" "z \<noteq> []" "length (nano_cut_buffer s) = NANO_BUF"
    "terminated (nano_cut_buffer s)" "cstr (nano_cut_buffer s) = clip" "0 \<notin> set l" "0 \<notin> set r"
  shows "nano_holds s (l, r, clip)"
  using assms by (cases z) (auto simp: nano_holds_def)

lemma sub32_le [simp]: "b \<le> a \<Longrightarrow> sub32 a b = a - b"
  by (simp add: sub32_def)

lemma holds_line_start: "nano_holds s (l, r, clip) \<Longrightarrow> nano_line_start (nano_buffer s) (nano_cursor s) = Some (length (lines_before l))"
  by (elim nano_holdsE) (simp add: nano_line_start_eq)

lemma holds_line_end: "nano_holds s (l, r, clip) \<Longrightarrow> nano_line_end (nano_buffer s) (nano_cursor s) (nano_len s) = Some (length l + length (first_line r))"
  by (elim nano_holdsE) (simp add: nano_line_end_def line_end_loop_eq)

lemma insert_char_holds:
  assumes "nano_holds s (l, r, clip)" "c \<ge> 32"
  shows "\<exists>s'. insert_char c s = Some s' \<and> nano_holds s' (if length l + length r + 1 < NANO_BUF then (l @ [c], r, clip) else (l, r, clip))"
  using assms(1)
proof (rule nano_holdsE)
  fix z assume z: "nano_buffer s = l @ r @ z" "nano_cursor s = length l" "nano_len s = length l + length r" "length l + length r + length z = NANO_BUF" "z \<noteq> []"
    and o: "length (nano_cut_buffer s) = NANO_BUF" "terminated (nano_cut_buffer s)" "cstr (nano_cut_buffer s) = clip" "0 \<notin> set l" "0 \<notin> set r"
  show ?thesis
  proof (cases "length l + length r + 1 < NANO_BUF")
    case False
    then show ?thesis using assms(1) z(3) by (simp add: insert_char_def)
  next
    case True
    then obtain x y z' where zz: "z = x # y # z'" using z(4) by (cases z; cases "tl z") auto
    have t: "take (length l + 1) (l @ r @ z) @ r @ y # z' = l @ hd (r @ z) # r @ y # z'" using zz by (cases r) auto
    have m: "memmove (l @ r @ z) (length l + 1) (length l) (length r) = Some (l @ hd (r @ z) # r @ y # z')"
      unfolding t [symmetric] using memmove_eq [of "length l + 1" "length r" "l @ r @ z" "length l"] z(4) True zz by simp
    have c: "c \<noteq> 0" using assms(2) by auto
    have "insert_char c s = Some (s\<lparr>nano_buffer := (l @ [c]) @ r @ 0 # z', nano_cursor := length l + 1, nano_len := length l + length r + 1\<rparr>)"
      unfolding insert_char_def using True z m by (simp add: array_set_def list_update_append)
    moreover have "nano_holds (s\<lparr>nano_buffer := (l @ [c]) @ r @ 0 # z', nano_cursor := length l + 1, nano_len := length l + length r + 1\<rparr>) (l @ [c], r, clip)"
      using o c z(4) zz by (intro nano_holdsI [of _ _ _ "0 # z'"]) simp_all
    ultimately show ?thesis using True by auto
  qed
qed


text \<open>Facts about the pieces of a document.\<close>

lemma piece_nonzero:
  "0 \<notin> set l \<Longrightarrow> 0 \<notin> set (lines_before l) \<and> 0 \<notin> set (last_line l)"
  "0 \<notin> set r \<Longrightarrow> 0 \<notin> set (first_line r) \<and> 0 \<notin> set (lines_after r) \<and> 0 \<notin> set (tl (lines_after r))"
proof -
  show "0 \<notin> set l \<Longrightarrow> 0 \<notin> set (lines_before l) \<and> 0 \<notin> set (last_line l)"
    using arg_cong [OF before_split [of l], of set] by auto
  show "0 \<notin> set r \<Longrightarrow> 0 \<notin> set (first_line r) \<and> 0 \<notin> set (lines_after r) \<and> 0 \<notin> set (tl (lines_after r))"
    using arg_cong [OF after_split [of r], of set] by (cases "lines_after r") auto
qed

lemma piece_length:
  "length (lines_before l) + length (last_line l) = length l"
  "length (first_line r) + length (lines_after r) = length r"
  using arg_cong [OF before_split [of l], of length] arg_cong [OF after_split [of r], of length] by simp_all

text \<open>Moving the cursor keeps the text.\<close>

lemma nano_holds_move:
  assumes "nano_holds s (l, r, clip)" "l @ r = l' @ r'" "n = length l'"
  shows "nano_holds (s\<lparr>nano_cursor := n\<rparr>) (l', r', clip)"
proof -
  have len: "length l + length r = length l' + length r'" and el: "set l \<union> set r = set l' \<union> set r'"
    using arg_cong [OF assms(2), of length] arg_cong [OF assms(2), of set] by simp_all
  have b: "l @ r @ z = l' @ r' @ z" for z using assms(2) by (metis append.assoc)
  show ?thesis using assms(1)
  proof (rule nano_holdsE)
    fix z assume "nano_buffer s = l @ r @ z" "nano_len s = length l + length r" "length l + length r + length z = NANO_BUF" "z \<noteq> []"
      "length (nano_cut_buffer s) = NANO_BUF" "terminated (nano_cut_buffer s)" "cstr (nano_cut_buffer s) = clip" "0 \<notin> set l" "0 \<notin> set r"
    then show ?thesis using b [of z] len el assms(3) by (intro nano_holdsI [of _ _ _ z]) auto
  qed
qed

lemma drop_to_last: "drop (length q) (x # q @ z) = last (x # q) # z"
  by (induction q arbitrary: x) auto

lemma delete_back_holds:
  assumes "nano_holds s (l, r, clip)"
  shows "\<exists>s'. delete_back s = Some s' \<and> nano_holds s' (if l = [] then (l, r, clip) else (butlast l, r, clip))"
  using assms
proof (rule nano_holdsE)
  fix z assume z: "nano_buffer s = l @ r @ z" "nano_cursor s = length l" "nano_len s = length l + length r" "length l + length r + length z = NANO_BUF" "z \<noteq> []"
    and o: "length (nano_cut_buffer s) = NANO_BUF" "terminated (nano_cut_buffer s)" "cstr (nano_cut_buffer s) = clip" "0 \<notin> set l" "0 \<notin> set r"
  show ?thesis
  proof (cases "l = []")
    case True
    then show ?thesis using assms z(2) by (simp add: delete_back_def)
  next
    case False
    then obtain k x where l: "l = k @ [x]" by (metis append_butlast_last_id)
    let ?y = "last (x # r)"
    have m': "memmove (l @ r @ z) (length l - 1) (length l) (length r) = Some ((k @ r) @ ?y # z)"
      using memmove_eq [of "length k" "length r" "l @ r @ z" "length l"] l z(4) drop_to_last [of r x z] by (simp del: last.simps)
    let ?s = "s\<lparr>nano_buffer := (k @ r) @ 0 # z, nano_cursor := length k, nano_len := length k + length r\<rparr>"
    have "sub32 (nano_len s) 1 = length k + length r" using z(3) l by simp
    then have "delete_back s = Some ?s" unfolding delete_back_def using m' z(1-4) l
      by (simp add: array_set_def list_update_append del: last.simps)
    moreover have "nano_holds ?s (k, r, clip)" using o z(4) l by (intro nano_holdsI [of _ _ _ "0 # z"]) simp_all
    ultimately show ?thesis using l by simp
  qed
qed

lemma delete_at_holds:
  assumes "nano_holds s (l, r, clip)"
  shows "\<exists>s'. delete_at s = Some s' \<and> nano_holds s' (l, tl r, clip)"
  using assms
proof (rule nano_holdsE)
  fix z assume z: "nano_buffer s = l @ r @ z" "nano_cursor s = length l" "nano_len s = length l + length r" "length l + length r + length z = NANO_BUF" "z \<noteq> []"
    and o: "length (nano_cut_buffer s) = NANO_BUF" "terminated (nano_cut_buffer s)" "cstr (nano_cut_buffer s) = clip" "0 \<notin> set l" "0 \<notin> set r"
  show ?thesis
  proof (cases r)
    case Nil
    then show ?thesis using assms z(2,3) by (simp add: delete_at_def)
  next
    case (Cons x q)
    let ?y = "last (x # q)"
    have m: "memmove (l @ r @ z) (length l) (length l + 1) (length q) = Some ((l @ q) @ ?y # z)"
      using memmove_eq [of "length l" "length q" "l @ r @ z" "length l + 1"] Cons z(4) drop_to_last [of q x z] by (simp del: last.simps)
    let ?s = "s\<lparr>nano_buffer := (l @ q) @ 0 # z, nano_len := length l + length q\<rparr>"
    have "delete_at s = Some ?s" unfolding delete_at_def using m z(1-4) Cons
      by (simp add: array_set_def list_update_append del: last.simps)
    moreover have "nano_holds ?s (l, q, clip)" using o z(2,4) Cons by (intro nano_holdsI [of _ _ _ "0 # z"]) simp_all
    ultimately show ?thesis using Cons by simp
  qed
qed


lemma paste_holds:
  assumes "nano_holds s (l, r, clip)" "world_ok w"
  shows "\<exists>s' w'. nano_paste s w = Some (s', w') \<and> draws w w'
     \<and> nano_holds s' (if length l + length r + length clip \<ge> NANO_BUF then (l, r, clip) else (l @ clip, r, clip))"
  using assms(1)
proof (rule nano_holdsE)
  fix z assume z: "nano_buffer s = l @ r @ z" "nano_cursor s = length l" "nano_len s = length l + length r" "length l + length r + length z = NANO_BUF" "z \<noteq> []"
    and o: "length (nano_cut_buffer s) = NANO_BUF" "terminated (nano_cut_buffer s)" "cstr (nano_cut_buffer s) = clip" "0 \<notin> set l" "0 \<notin> set r"
  have sl: "strlen (nano_cut_buffer s) = Some (length clip)" using o by (simp add: strlen_eq)
  show ?thesis
  proof (cases "length l + length r + length clip \<ge> NANO_BUF")
    case True
    then show ?thesis using assms sl z(3) w_write_clit [OF assms(2), of "''nano: paste too large\<newline>''"] by (auto simp: nano_paste_def)
  next
    case False
    let ?n = "length clip"
    have m: "memmove (l @ r @ z) (length l + ?n) (length l) (length r)
        = Some (take (length l + ?n) (l @ r @ z) @ r @ drop ?n z)"
      using memmove_eq [of "length l + ?n" "length r" "l @ r @ z" "length l"] z(4) False by (simp add: add_ac)
    let ?b = "take (length l + ?n) (l @ r @ z) @ r @ drop ?n z"
    have b: "take (length l) ?b = l" "drop (length l) ?b = take ?n (r @ z) @ r @ drop ?n z" using False z(4) by simp_all
    have n: "length (take ?n (r @ z)) = ?n" using False z(4) by simp
    obtain q where q: "nano_cut_buffer s = clip @ 0 # q" using terminated_decomp [OF o(2)] o(3) by auto
    have "memcpy (drop (length l) ?b) (nano_cut_buffer s) ?n = Some (clip @ r @ drop ?n z)"
      unfolding b(2) using n q by (simp add: memcpy_eq)
    then have "nano_paste s w = Some (s\<lparr>nano_buffer := l @ clip @ r @ drop ?n z, nano_cursor := length l + ?n, nano_len := length l + length r + ?n\<rparr>, w)"
      unfolding nano_paste_def using sl m b(1) z(1-3) False by simp
    moreover have "0 \<notin> set clip" using o(3) cstr_nonzero by blast
    then have "nano_holds (s\<lparr>nano_buffer := l @ clip @ r @ drop ?n z, nano_cursor := length l + ?n, nano_len := length l + length r + ?n\<rparr>) (l @ clip, r, clip)"
      using o z(4) False by (intro nano_holdsI [of _ _ _ "drop ?n z"]) simp_all
    ultimately show ?thesis using False draws_refl [OF assms(2)] by auto
  qed
qed

text \<open>Removing the line of the cursor from \<open>l @ r\<close> with its newline: \<open>e\<close> is the position behind what is removed.\<close>

definition cut_end :: "byte list \<Rightarrow> byte list \<Rightarrow> nat" where
  "cut_end l r = length l + length (first_line r) + (if lines_after r = [] then 0 else 1)"

lemma line_pieces: "l @ r @ z = lines_before l @ (last_line l @ first_line r) @ lines_after r @ z"
  using before_split [of l] after_split [of r] by (metis append.assoc)

lemma cut_end_newline:
  "(if length l + length (first_line r) < length l + length r
    then do { c \<leftarrow> array_get (l @ r @ z) (length l + length (first_line r)); Some (if c = 10 then length l + length (first_line r) + 1 else length l + length (first_line r)) }
    else Some (length l + length (first_line r))) = Some (cut_end l r)"
proof (cases "lines_after r = []")
  case True
  then show ?thesis using piece_length(2) [of r] by (simp add: cut_end_def)
next
  case False
  then obtain y where y: "lines_after r = 10 # y" using lines_after_hd by blast
  let ?a = "lines_before l @ last_line l @ first_line r"
  have "l @ r @ z = ?a @ 10 # y @ z" using line_pieces [of l r z] y by simp
  then have "(l @ r @ z) ! length ?a = 10" by (metis nth_append_length)
  moreover have "length ?a = length l + length (first_line r)" using piece_length(1) [of l] by simp
  ultimately have "(l @ r @ z) ! (length l + length (first_line r)) = 10" by metis
  then show ?thesis using y piece_length(2) [of r] by (simp add: array_get_def cut_end_def)
qed

lemma cut_end_length:
  "cut_end l r \<le> length l + length r" "length l + length r - cut_end l r = length (tl (lines_after r))"
  "length l + length r - (cut_end l r - length (lines_before l)) = length (lines_before l) + length (tl (lines_after r))"
  "length (lines_before l) \<le> cut_end l r"
  using piece_length(1) [of l] piece_length(2) [of r] by (cases "lines_after r"; simp add: cut_end_def)+

lemma cut_move:
  assumes "z \<noteq> []"
  shows "\<exists>x. memmove (l @ r @ z) (length (lines_before l)) (cut_end l r) (sub32 (length l + length r) (cut_end l r)) = Some (lines_before l @ tl (lines_after r) @ x)
     \<and> length (lines_before l) + length (tl (lines_after r)) + length x = length l + length r + length z \<and> x \<noteq> []"
proof -
  let ?a = "lines_before l" and ?y = "tl (lines_after r)" and ?b = "l @ r @ z"
  let ?x = "drop (length ?a + length ?y) ?b"
  have al: "length ?a + length ?y < length ?b" using assms cut_end_length(3,4) [of l r] by (cases z) simp_all
  have ce: "cut_end l r + length ?y \<le> length ?b" using cut_end_length(1,2) [of l r] by simp
  have dr: "drop (cut_end l r) ?b = ?y @ z" unfolding line_pieces [of l r z] using piece_length(1) [of l] by (cases "lines_after r") (simp_all add: cut_end_def)
  have t: "take (length ?a) ?b = ?a" "take (length ?y) (?y @ z) = ?y" unfolding line_pieces [of l r z] by simp_all
  have "memmove ?b (length ?a) (cut_end l r) (length ?y) = Some (?a @ ?y @ ?x)"
    using memmove_eq [OF less_imp_le [OF al] ce] unfolding dr t .
  moreover have "sub32 (length l + length r) (cut_end l r) = length ?y" using cut_end_length(1,2) [of l r] by simp
  moreover have "length ?a + length ?y + length ?x = length l + length r + length z" using al by (simp only: length_drop length_append)
  moreover have "?x \<noteq> []" using al by (simp only: drop_eq_Nil not_le)
  ultimately show ?thesis by metis
qed

lemma cut_line_holds:
  assumes "nano_holds s (l, r, clip)"
  shows "\<exists>s'. nano_cut_line s = Some s' \<and> nano_holds s' (lines_before l, tl (lines_after r), last_line l @ first_line r)"
  using assms
proof (rule nano_holdsE)
  fix z assume z: "nano_buffer s = l @ r @ z" "nano_cursor s = length l" "nano_len s = length l + length r" "length l + length r + length z = NANO_BUF" "z \<noteq> []"
    and o: "length (nano_cut_buffer s) = NANO_BUF" "terminated (nano_cut_buffer s)" "cstr (nano_cut_buffer s) = clip" "0 \<notin> set l" "0 \<notin> set r"
  let ?a = "lines_before l" and ?y = "tl (lines_after r)" and ?line = "last_line l @ first_line r"
  let ?e = "length l + length (first_line r)"
  have len: "length ?a + length (last_line l) = length l" "length (first_line r) + length (lines_after r) = length r" by (rule piece_length)+
  have cp: "memcpy (nano_cut_buffer s) (drop (length ?a) (l @ r @ z)) (length ?line) = Some (?line @ drop (length ?line) (nano_cut_buffer s))"
    unfolding line_pieces [of l r z] using o(1) len z(4,5) by (cases z) (simp_all add: memcpy_eq)
  let ?c = "?line @ 0 # drop (Suc (length ?line)) (nano_cut_buffer s)"
  have st: "array_set (?line @ drop (length ?line) (nano_cut_buffer s)) (length ?line) 0 = Some ?c"
    using o(1) len z(4,5) by (cases z) (simp_all add: array_set_def list_update_append drop_update_swap Cons_nth_drop_Suc [symmetric])
  obtain x where x: "memmove (l @ r @ z) (length ?a) (cut_end l r) (sub32 (length l + length r) (cut_end l r)) = Some (?a @ ?y @ x)"
    "length ?a + length ?y + length x = NANO_BUF" "x \<noteq> []" using cut_move [OF z(5), of l r] z(4) by auto
  let ?s = "s\<lparr>nano_buffer := ?a @ ?y @ x, nano_len := length ?a + length ?y, nano_cursor := length ?a, nano_cut_buffer := ?c\<rparr>"
  have n': "sub32 (length l + length r) (cut_end l r - length ?a) = length ?a + length ?y" using cut_end_length [of l r] by simp
  have mn: "min (?e - length ?a) (length (nano_cut_buffer s) - 1) = length ?line" using o(1) len z(4,5) by (cases z) simp_all
  have s1: "nano_line_start (l @ r @ z) (length l) = Some (length ?a)" "nano_line_end (l @ r @ z) (length l) (length l + length r) = Some ?e"
    using holds_line_start [OF assms] holds_line_end [OF assms] z(1-3) by simp_all
  have "nano_cut_line s = Some ?s"
    by (simp only: nano_cut_line_def Let_def z(1-3) s1 bind.bind_lunit mn cp st cut_end_newline x(1) n')
  moreover have nz: "0 \<notin> set ?a" "0 \<notin> set ?line" "0 \<notin> set ?y" using piece_nonzero o(4,5) by auto
  moreover have "cstr ?c = ?line" "terminated ?c" using cstr_append_terminated [OF nz(2)] by simp_all
  moreover have "length ?c = NANO_BUF" using o(1) len z(4,5) by (cases z) simp_all
  ultimately show ?thesis using x(2,3) by (intro exI [of _ ?s] conjI nano_holdsI [of _ _ _ x]) simp_all
qed

lemma lines_before_snoc: "lines_before l \<noteq> [] \<Longrightarrow> \<exists>p. lines_before l = p @ [10]"
  by (induction l rule: rev_induct) (auto simp: before_snoc, simp add: lines_before_def)

lemma last_line_newline: "10 \<notin> set (last_line l)"
  by (auto simp: last_line_def dest: set_takeWhileD)

lemma first_line_append: "10 \<notin> set p \<Longrightarrow> first_line (p @ 10 # q) = p"
  by (induction p) (auto simp: first_line_def)

lemma line_down_holds:
  assumes "nano_holds s (l, r, clip)"
  shows "\<exists>s' d'. line_down s = Some s' \<and> doc_key 0x0E (l, r, clip) = Some d' \<and> nano_holds s' d'"
  using assms
proof (rule nano_holdsE)
  fix z assume z: "nano_buffer s = l @ r @ z" "nano_cursor s = length l" "nano_len s = length l + length r"
  note start = holds_line_start [OF assms] and line_end = holds_line_end [OF assms]
  have len: "length (first_line r) + length (lines_after r) = length r" by (rule piece_length)
  show ?thesis
  proof (cases "lines_after r = []")
    case True
    then have "line_down s = Some s" using line_end z(3) len by (simp add: line_down_def)
    then show ?thesis using True assms by (simp add: doc_key_def)
  next
    case False
    then obtain q where q: "lines_after r = 10 # q" using lines_after_hd by blast
    let ?e = "length l + length (first_line r)" and ?row = "first_line q"
    let ?n = "min (length (last_line l)) (length ?row)"
    have r: "r = first_line r @ 10 # q" using after_split [of r] q by simp
    have rl: "length r = length (first_line r) + 1 + length q" using len q by simp
    have b: "nano_buffer s = (l @ first_line r) @ 10 # q @ z" using z(1) r by (metis append.assoc append_Cons)
    have g: "array_get (nano_buffer s) ?e = Some 10" unfolding b by (simp add: array_get_def nth_append)
    have d: "take (length q) (drop (?e + 1) (nano_buffer s)) = q" unfolding b by simp
    have "?e + 1 + length q \<le> length (nano_buffer s)" unfolding b by simp
    then have ne: "nano_line_end (nano_buffer s) (?e + 1) (nano_len s) = Some (?e + 1 + length ?row)"
      unfolding nano_line_end_def using line_end_loop_eq [of "?e + 1" "length q" "nano_buffer s"] z(3) rl d by simp
    have "line_down s = Some (s\<lparr>nano_cursor := ?e + 1 + ?n\<rparr>)"
      using start line_end z(2,3) g ne rl lines_before_length(2) [of l] by (simp add: line_down_def)
    moreover have "doc_key 0x0E (l, r, clip) = Some (l @ first_line r @ 10 # take ?n ?row, drop ?n ?row @ lines_after q, clip)"
      using q by (simp add: doc_key_def Let_def)
    moreover have "nano_holds (s\<lparr>nano_cursor := ?e + 1 + ?n\<rparr>) (l @ first_line r @ 10 # take ?n ?row, drop ?n ?row @ lines_after q, clip)"
    proof (rule nano_holds_move [OF assms])
      have "take ?n ?row @ drop ?n ?row @ lines_after q = q" using after_split [of q] by (metis append.assoc append_take_drop_id)
      then show "l @ r = (l @ first_line r @ 10 # take ?n ?row) @ drop ?n ?row @ lines_after q" using r by simp
    qed simp
    ultimately show ?thesis by blast
  qed
qed

lemma line_up_holds:
  assumes "nano_holds s (l, r, clip)" "doc_key 0x10 (l, r, clip) = Some d"
  shows "\<exists>s'. line_up s = Some s' \<and> nano_holds s' d"
  using assms(1)
proof (rule nano_holdsE)
  fix z assume z: "nano_buffer s = l @ r @ z" "nano_cursor s = length l" "nano_len s = length l + length r"
  note start = holds_line_start [OF assms(1)]
  show ?thesis
  proof (cases "lines_before l = []")
    case True
    then have "line_up s = Some s" using start by (simp add: line_up_def)
    then show ?thesis using True assms by (simp add: doc_key_def)
  next
    case False
    then obtain p where p: "lines_before l = p @ [10]" using lines_before_snoc by blast
    let ?row = "last_line p" and ?h = "lines_before p"
    let ?n = "min (length (last_line l)) (length ?row)"
    have row: "?row \<noteq> []" and d: "d = (?h @ take ?n ?row, drop ?n ?row @ 10 # last_line l @ r, clip)"
      using assms(2) p by (auto simp: doc_key_def Let_def split: if_splits)
    have pe: "p = ?h @ ?row" by (rule before_split [symmetric])
    have l: "l = p @ 10 # last_line l" using before_split [of l] p by simp
    have lr: "l @ y = ?h @ ?row @ 10 # last_line l @ y" for y
      by (subst l, subst pe) simp
    have b: "nano_buffer s = ?h @ ?row @ 10 # last_line l @ r @ z" unfolding z(1) by (rule lr)
    have pl: "length p = length ?h + length ?row" using piece_length(1) [of p] by simp
    have "p \<noteq> []" using row by (auto simp: last_line_def)
    then obtain k x where k: "p = k @ [x]" by (metis rev_exhaust)
    have x: "x \<noteq> 10" using row k by (auto simp: last_line_def)
    have nb: "nano_buffer s = p @ 10 # last_line l @ r @ z" unfolding b using pe by (metis append.assoc)
    then have "take (length k) (nano_buffer s) = k" "length k \<le> length (nano_buffer s)" using k by simp_all
    then have ps: "nano_line_start (nano_buffer s) (sub32 (length (lines_before l)) 2) = Some (length ?h)"
      using nano_line_start_eq [of "length k" "nano_buffer s"] p k x by (simp add: before_snoc)
    have t: "take (length l + length r - length ?h) (drop (length ?h) (nano_buffer s)) = ?row @ 10 # last_line l @ r"
      unfolding b using arg_cong [OF l, of length] pl by simp
    have "length ?h + (length l + length r - length ?h) \<le> length (nano_buffer s)" using z(1) arg_cong [OF l, of length] pl by simp
    then have pe2: "nano_line_end (nano_buffer s) (length ?h) (nano_len s) = Some (length ?h + length ?row)"
      unfolding nano_line_end_def using line_end_loop_eq [of "length ?h" "length l + length r - length ?h" "nano_buffer s"] t z(3)
        first_line_append [OF last_line_newline] by simp
    have "line_up s = Some (s\<lparr>nano_cursor := length ?h + ?n\<rparr>)"
      using start p ps pe2 z(2) lines_before_length(2) [of l] by (simp add: line_up_def)
    moreover have "nano_holds (s\<lparr>nano_cursor := length ?h + ?n\<rparr>) d" unfolding d
    proof (rule nano_holds_move [OF assms(1)])
      have "take ?n ?row @ drop ?n ?row @ y = ?row @ y" for y by (simp only: append.assoc [symmetric] append_take_drop_id)
      then show "l @ r = (?h @ take ?n ?row) @ drop ?n ?row @ 10 # last_line l @ r" using lr [of r] by (simp only: append.assoc)
    qed simp
    ultimately show ?thesis by blast
  qed
qed



section \<open>Drawing never fails\<close>

lemma skip_lines_ok: "pos + n \<le> length b \<Longrightarrow> \<exists>p. skip_lines b ls pos n = Some p \<and> p \<le> pos + n"
proof (induction n arbitrary: ls pos)
  case (Suc n)
  then show ?case using Suc.IH [of "Suc pos"] by (auto simp: array_get_def)
qed simp

lemma draw_line_draws: "world_ok w \<Longrightarrow> i + n \<le> length b \<Longrightarrow> \<exists>w'. draw_line b i n w = Some w' \<and> draws w w'"
proof (induction n arbitrary: i w)
  case 0
  then show ?case using draws_refl by simp
next
  case (Suc n)
  let ?step = "if terminal_col (screen w) < NANO_COLS then do { c \<leftarrow> array_get b i; on_screen (terminal_putc c) w } else Some w"
  have "\<exists>w1. ?step = Some w1 \<and> draws w w1" using Suc.prems putc_draws [of w "b ! i"] draws_refl [of w] by (auto simp: array_get_def)
  then obtain w1 where w1: "?step = Some w1" "draws w w1" by blast
  obtain w2 where "draw_line b (Suc i) n w1 = Some w2" "draws w1 w2" using Suc.IH [OF draws_ok [OF w1(2)], of "Suc i"] Suc.prems(2) by auto
  then show ?case using w1 draws_trans [OF w1(2)] by simp
qed

lemma line_end_bound:
  "pos \<le> len \<Longrightarrow> len \<le> length b \<Longrightarrow> \<exists>e. nano_line_end b pos len = Some e \<and> pos \<le> e \<and> e \<le> len"
  using line_end_loop_eq [of pos "len - pos" b] length_takeWhile_le [of "\<lambda>c. c \<noteq> 10" "take (len - pos) (drop pos b)"]
  by (auto simp: nano_line_end_def first_line_def)

lemma draw_rows_draws:
  "world_ok w \<Longrightarrow> len \<le> length b \<Longrightarrow> \<exists>w'. draw_rows b len pos n w = Some w' \<and> draws w w'"
proof (induction n arbitrary: pos w)
  case 0
  then show ?case using draws_refl by simp
next
  case (Suc n)
  show ?case
  proof (cases "pos < len")
    case True
    obtain e where e: "nano_line_end b pos len = Some e" "pos \<le> e" "e \<le> len" using line_end_bound [of pos len b] True Suc.prems(2) by auto
    obtain w1 where w1: "draw_line b pos (e - pos) w = Some w1" "draws w w1"
      using draw_line_draws [OF Suc.prems(1), of pos "e - pos" b] e Suc.prems(2) by auto
    obtain w2 where w2: "on_screen (terminal_putc 10) w1 = Some w2" "draws w1 w2" using putc_draws [OF draws_ok [OF w1(2)]] by blast
    obtain nl where nl: "(if e < len then do { c \<leftarrow> array_get b e; Some (c = 10) } else Some False) = Some nl"
      using Suc.prems(2) by (cases "e < len") (auto simp: array_get_def)
    obtain w3 where "draw_rows b len (if nl then Suc e else e) n w2 = Some w3" "draws w2 w3"
      using Suc.IH [OF draws_ok [OF w2(2)] Suc.prems(2)] by blast
    then show ?thesis using True e(1) w1 w2 nl draws_trans by (auto intro: draws_trans)
  next
    case False
    obtain w1 where w1: "w_write (clit ''~\<newline>'') w = Some w1" "draws w w1" using w_write_clit [OF Suc.prems(1)] by blast
    obtain w2 where "draw_rows b len pos n w1 = Some w2" "draws w1 w2" using Suc.IH [OF draws_ok [OF w1(2)] Suc.prems(2)] by blast
    then show ?thesis using False w1 by (auto intro: draws_trans)
  qed
qed

lemma position_text_draws:
  assumes "world_ok w"
  shows "\<exists>w'. w_printf ''Ln %u, Col %u, Size %u\<newline>'' [Word a, Word b, Word c] w = Some w' \<and> draws w w'"
proof -
  let ?t = "lit ''Ln '' @ sprintf_u a @ lit '', Col '' @ sprintf_u b @ lit '', Size '' @ sprintf_u c @ [10]"
  have "sprintf_text (clit ''Ln %u, Col %u, Size %u\<newline>'') [Word a, Word b, Word c] = Some ?t"
    by (simp add: clit_def lit_def sprintf_conv_def)
  moreover have "set (conversions (clit ''Ln %u, Col %u, Size %u\<newline>'')) \<inter> printf_only = {}" by code_simp
  moreover have "set (conversions (clit ''Ln %u, Col %u, Size %u\<newline>'')) \<inter> hex_conv = {}" by code_simp
  moreover have "length ?t \<le> 2048" using sprintf_u_length [of a] sprintf_u_length [of b] sprintf_u_length [of c] by (simp add: lit_def)
  ultimately have "\<exists>w'. w_printf ''Ln %u, Col %u, Size %u\<newline>'' [Word a, Word b, Word c] w = Some w' \<and> prints w ?t w'"
    by (intro w_printf_prints [OF assms]) simp_all
  then show ?thesis using prints_draws by blast
qed

lemma print_position_draws:
  assumes "nano_holds s d" "world_ok w"
  shows "\<exists>line col w'. print_position s w = Some (line, col, w') \<and> draws w w'"
proof -
  obtain l r clip where d: "d = (l, r, clip)" by (cases d) auto
  have c: "nano_cursor s \<le> length (nano_buffer s)" using assms(1) unfolding d by (elim nano_holdsE) simp
  obtain row where row: "nano_row_for_pos (nano_buffer s) (nano_cursor s) = Some row"
    using count_rows_eq [of 0 "nano_cursor s" "nano_buffer s" 0] c by (simp add: nano_row_for_pos_def)
  obtain col where col: "nano_col_for_pos (nano_buffer s) (nano_cursor s) = Some col"
    using nano_line_start_eq [OF c] by (simp add: nano_col_for_pos_def)
  show ?thesis using position_text_draws [OF assms(2), of "of_nat row + 1" "of_nat col + 1" "of_nat (nano_len s)"] row col
    by (auto simp: print_position_def)
qed

lemma nano_draw_draws:
  assumes "nano_holds s d" "world_ok w" "terminated path"
  shows "\<exists>w'. nano_draw path s w = Some w' \<and> draws w w'"
proof -
  obtain l r clip where d: "d = (l, r, clip)" by (cases d) auto
  have n: "nano_len s \<le> length (nano_buffer s)" using assms(1) unfolding d by (elim nano_holdsE) simp
  obtain w1 where w1: "on_screen cmd_clear w = Some w1" "draws w w1" using clear_draws [OF assms(2)] by blast
  obtain pos where pos: "skip_lines (nano_buffer s) (nano_view s) 0 (nano_len s) = Some pos" using skip_lines_ok [of 0 "nano_len s" "nano_buffer s"] n by auto
  obtain w2 where w2: "draw_rows (nano_buffer s) (nano_len s) pos NANO_ROWS w1 = Some w2" "draws w1 w2"
    using draw_rows_draws [OF draws_ok [OF w1(2)] n] by blast
  obtain w3 where w3: "w_write (clit ''File: '') w2 = Some w3" "draws w2 w3" using w_write_clit [OF draws_ok [OF w2(2)]] by blast
  obtain w4 where w4: "w_write path w3 = Some w4" "draws w3 w4" using w_write_draws [OF draws_ok [OF w3(2)] assms(3)] by blast
  obtain w5 where w5: "w_write (clit ''  Ctrl+O Save  Ctrl+X Exit  Ctrl+G Help\<newline>'') w4 = Some w5" "draws w4 w5"
    using w_write_clit [OF draws_ok [OF w4(2)]] by blast
  obtain li col w6 where w6: "print_position s w5 = Some (li, col, w6)" "draws w5 w6" using print_position_draws [OF assms(1) draws_ok [OF w5(2)]] by blast
  let ?f = "\<lambda>t. Some (move_cursor col (li - nano_view s) t)"
  obtain w7 where w7: "on_screen ?f w6 = Some w7" "draws w6 w7" using on_screen_draws [OF draws_ok [OF w6(2)], of ?f] world_ok_term [OF draws_ok [OF w6(2)]] by auto
  have "draws w w6" using w1(2) w2(2) w3(2) w4(2) w5(2) w6(2) by (meson draws_trans)
  moreover have "draws w w7" using calculation w7(2) by (rule draws_trans)
  ultimately show ?thesis unfolding nano_draw_def using w1(1) pos w2(1) w3(1) w4(1) w5(1) w6(1) w7(1) by auto
qed



section \<open>Keys follow the specification\<close>

text \<open>The keys that open a dialog, touch the file or leave the editor.\<close>

definition dialog_keys :: "byte set" where
  "dialog_keys = {0x07, 0x0F, 0x12, 0x17, 0x14, 0x0C, 0x18}"

lemma nano_holds_view [simp]: "nano_holds (s\<lparr>nano_view := v\<rparr>) d = nano_holds s d"
  by (simp add: nano_holds_def)

lemma doc_key_down: "doc_key 0x1A d = doc_key 0x0E d"
  by (simp add: doc_key_def)

lemma home_holds:
  assumes "nano_holds s (l, r, clip)"
  shows "nano_holds (s\<lparr>nano_cursor := length (lines_before l)\<rparr>) (lines_before l, last_line l @ r, clip)"
  by (rule nano_holds_move [OF assms]) (simp_all add: before_split append.assoc [symmetric] del: append.assoc append_assoc)

lemma end_holds:
  assumes "nano_holds s (l, r, clip)"
  shows "nano_holds (s\<lparr>nano_cursor := length l + length (first_line r)\<rparr>) (l @ first_line r, lines_after r, clip)"
  by (rule nano_holds_move [OF assms]) (simp_all add: after_split)

lemma adjust_view_holds:
  assumes "nano_holds s (l, r, clip)"
  shows "\<exists>s'. adjust_view s = Some s' \<and> nano_holds s' (l, r, clip)"
proof -
  have c: "0 + nano_cursor s \<le> length (nano_buffer s)" using assms by (elim nano_holdsE) simp
  obtain row where "nano_row_for_pos (nano_buffer s) (nano_cursor s) = Some row"
    using count_rows_eq [OF c, of 0] by (simp add: nano_row_for_pos_def)
  then show ?thesis using assms by (simp add: adjust_view_def)
qed

lemma edit_key_holds:
  assumes h: "nano_holds s (l, r, clip)" and k: "doc_key c (l, r, clip) = Some d" "c \<noteq> 0x15"
  shows "\<exists>s'. edit_key c s = Some s' \<and> nano_holds s' d"
proof -
  have cur: "nano_cursor s = length l" "nano_len s = length l + length r" using h by (auto elim: nano_holdsE)
  consider "c = 0x0B" | "c = 0x08 \<or> c = 0x7F" | "c = 0x01" | (left) "c = 0x02" | (right) "c = 0x06" | (up) "c = 0x10"
    | (down) "c = 0x0E \<or> c = 0x1A" | "c = 0x05" | "c = 0x04" | (view) "c = 0x19 \<or> c = 0x16"
    | (other) "c \<notin> {0x0B, 0x08, 0x7F, 0x01, 0x02, 0x06, 0x10, 0x0E, 0x1A, 0x05, 0x04, 0x19, 0x16}" by fast
  then show ?thesis
  proof cases
    case 1
    then show ?thesis using cut_line_holds [OF h] k by (simp add: edit_key_def doc_key_def)
  next
    case 2
    then show ?thesis using delete_back_holds [OF h] k by (auto simp: edit_key_def doc_key_def)
  next
    case 3
    then show ?thesis using home_holds [OF h] holds_line_start [OF h] k by (simp add: edit_key_def doc_key_def)
  next
    case left
    then show ?thesis using h cur(1) k nano_holds_move [OF h, of "butlast l" "last l # r"] by (auto simp: edit_key_def doc_key_def)
  next
    case right
    then show ?thesis using h cur k nano_holds_move [OF h, of "l @ [hd r]" "tl r"] by (auto simp: edit_key_def doc_key_def)
  next
    case up
    then show ?thesis using line_up_holds [OF h] k by (simp add: edit_key_def)
  next
    case down
    then show ?thesis using line_down_holds [OF h] k doc_key_down by (auto simp: edit_key_def)
  next
    case 8
    then show ?thesis using end_holds [OF h] holds_line_end [OF h] k by (simp add: edit_key_def doc_key_def)
  next
    case 9
    then show ?thesis using delete_at_holds [OF h] k by (simp add: edit_key_def doc_key_def)
  next
    case view
    then have "d = (l, r, clip)" using k(1) by (elim disjE) (simp_all add: doc_key_def)
    moreover have "edit_key c s = Some (s\<lparr>nano_view := if nano_view s > NANO_ROWS then nano_view s - NANO_ROWS else 0\<rparr>)
      \<or> edit_key c s = Some (s\<lparr>nano_view := (nano_view s + NANO_ROWS) mod 2 ^ 32\<rparr>)"
      using view by (elim disjE) (simp_all only: edit_key_def, simp_all)
    ultimately show ?thesis using h nano_holds_view by metis
  next
    case other
    then have n: "c \<noteq> 0x0B" "c \<noteq> 0x08" "c \<noteq> 0x7F" "c \<noteq> 0x01" "c \<noteq> 0x02" "c \<noteq> 0x06" "c \<noteq> 0x10" "c \<noteq> 0x0E" "c \<noteq> 0x1A" "c \<noteq> 0x05" "c \<noteq> 0x04"
      "c \<noteq> 0x19" "c \<noteq> 0x16" by simp_all
    have e: "edit_key c s = (if c \<ge> 32 then insert_char c s else adjust_view s)" using n by (simp add: edit_key_def)
    have "d = (if c \<ge> 32 \<and> length l + length r + 1 < NANO_BUF then (l @ [c], r, clip) else (l, r, clip))" using k n by (cases "c \<ge> 32") (simp_all add: doc_key_def)
    then show ?thesis unfolding e using insert_char_holds [OF h, of c] adjust_view_holds [OF h] by (cases "c \<ge> 32") simp_all
  qed
qed

lemma nano_key_holds:
  assumes "nano_holds s d" "world_ok w" "c \<notin> dialog_keys" "doc_key c d = Some d'"
  shows "\<exists>s' w'. nano_key stack vn c s w = Some (True, s', w') \<and> nano_holds s' d' \<and> draws w w'"
proof -
  obtain l r clip where d: "d = (l, r, clip)" by (cases d) auto
  have c: "c \<noteq> 0x07" "c \<noteq> 0x0F" "c \<noteq> 0x12" "c \<noteq> 0x17" "c \<noteq> 0x14" "c \<noteq> 0x0C" "c \<noteq> 0x18" using assms(3) by (auto simp: dialog_keys_def)
  consider (paste) "c = 0x15" | (position) "c = 0x03" | (edit) "c \<noteq> 0x15" "c \<noteq> 0x03" by blast
  then show ?thesis
  proof cases
    case paste
    then show ?thesis using paste_holds [OF assms(1) [unfolded d] assms(2)] assms(4) by (auto simp: nano_key_def doc_key_def d)
  next
    case position
    then show ?thesis using print_position_draws [OF assms(1,2)] assms(1,4) by (auto simp: nano_key_def doc_key_def d)
  next
    case edit
    then show ?thesis using edit_key_holds [OF assms(1) [unfolded d] assms(4) [unfolded d] edit(1)] draws_refl [OF assms(2)] c
      by (auto simp: nano_key_def)
  qed
qed



section \<open>Sessions\<close>

text \<open>The loop reaches the next key that is not empty.\<close>

lemma nano_loop_key:
  "nano_holds s d \<Longrightarrow> world_ok w \<Longrightarrow> terminated path \<Longrightarrow> typed w = c # cs \<Longrightarrow>
     \<exists>w1. nano_loop stack path vn s w = do { (go, s, w) \<leftarrow> nano_key stack vn c s w1; if go then nano_loop stack path vn s w else Some (s, w) }
       \<and> world_ok w1 \<and> typed w1 = cs \<and> w_fs w1 = w_fs w"
proof (induction "pending w" arbitrary: w rule: less_induct)
  case less
  obtain w1 where w1: "nano_draw path s w = Some w1" "draws w w1" using nano_draw_draws [OF less.prems(1-3)] by blast
  have t: "typed w1 = c # cs" "pending w1 = pending w" "w_fs w1 = w_fs w" using draws_typed [OF w1(2)] draws_frame [OF w1(2)] less.prems(4) by simp_all
  obtain x w2 where x: "w_getchar w1 = Some (x, w2)" "reads w1 x w2" using w_getchar_reads [OF draws_ok [OF w1(2)]] t(1) by auto
  show ?case
  proof (cases "x = 0")
    case True
    have "typed w2 = c # cs" "world_ok w2" "pending w2 < pending w" "w_fs w2 = w_fs w" using x(2) True t by (auto simp: reads_def)
    then show ?thesis using less.hyps [of w2] less.prems(1,3) w1(1) x(1) True by (subst nano_loop.simps) simp
  next
    case False
    then have "x = c" "typed w2 = cs" "world_ok w2" "w_fs w2 = w_fs w" using x(2) t by (auto simp: reads_def)
    then show ?thesis using w1(1) x(1) False by (subst nano_loop.simps) auto
  qed
qed

fun doc_keys :: "byte list \<Rightarrow> doc \<Rightarrow> doc option" where
  "doc_keys [] d = Some d"
| "doc_keys (c # cs) d = do { d \<leftarrow> doc_key c d; doc_keys cs d }"

lemma nano_loop_edits:
  "nano_holds s d \<Longrightarrow> world_ok w \<Longrightarrow> terminated path \<Longrightarrow> typed w = keys @ rest \<Longrightarrow> set keys \<inter> dialog_keys = {} \<Longrightarrow> doc_keys keys d = Some d' \<Longrightarrow>
     \<exists>s1 w1. nano_loop stack path vn s w = nano_loop stack path vn s1 w1 \<and> nano_holds s1 d' \<and> world_ok w1 \<and> typed w1 = rest \<and> w_fs w1 = w_fs w"
proof (induction keys arbitrary: s d w)
  case Nil
  then show ?case by auto
next
  case (Cons c keys)
  obtain d1 where d1: "doc_key c d = Some d1" "doc_keys keys d1 = Some d'" using Cons.prems(6) by (auto simp: bind_eq_Some_conv)
  obtain w1 where w1: "nano_loop stack path vn s w = do { (go, s, w) \<leftarrow> nano_key stack vn c s w1; if go then nano_loop stack path vn s w else Some (s, w) }"
    "world_ok w1" "typed w1 = keys @ rest" "w_fs w1 = w_fs w" using nano_loop_key [OF Cons.prems(1-3), of c "keys @ rest"] Cons.prems(4) by auto
  obtain s2 w2 where w2: "nano_key stack vn c s w1 = Some (True, s2, w2)" "nano_holds s2 d1" "draws w1 w2"
    using nano_key_holds [OF Cons.prems(1) w1(2) _ d1(1), of stack vn] Cons.prems(5) by auto
  have "typed w2 = keys @ rest" "w_fs w2 = w_fs w" using draws_typed [OF w2(3)] draws_frame [OF w2(3)] w1(3,4) by simp_all
  then show ?case using Cons.IH [OF w2(2) draws_ok [OF w2(3)] Cons.prems(3) _ _ d1(2)] Cons.prems(5) w1(1) w2(1) by auto
qed

lemma nano_save_file:
  assumes "nano_holds s (l, r, clip)" "world_ok w" "array_get (vnodes_pool (w_fs w)) vn = Some n" "vn_content n = Some c" "length l + length r < length c"
  shows "\<exists>w'. nano_save vn s w = Some w' \<and> draws (w\<lparr>w_fs := (w_fs w)\<lparr>vnodes_pool := (vnodes_pool (w_fs w))
     [vn := n\<lparr>vn_content := Some (l @ r @ 0 # drop (length l + length r + 1) c), vn_size := of_nat (length l + length r)\<rparr>]\<rparr>\<rparr>) w'"
  using assms(1)
proof (rule nano_holdsE)
  fix z assume z: "nano_buffer s = l @ r @ z" "nano_len s = length l + length r"
  let ?m = "length l + length r" and ?c = "l @ r @ 0 # drop (length l + length r + 1) c"
  have "memcpy c (nano_buffer s) ?m = Some ((l @ r) @ drop ?m c)" using assms(5) z(1) by (simp add: memcpy_eq)
  moreover have "array_set ((l @ r) @ drop ?m c) ?m 0 = Some ?c"
    using assms(5) by (simp add: array_set_def list_update_append Cons_nth_drop_Suc [symmetric])
  moreover have vn: "vn < length (vnodes_pool (w_fs w))" "vnodes_pool (w_fs w) ! vn = n" using assms(3) by (auto simp: array_get_def split: if_splits)
  let ?w = "w\<lparr>w_fs := (w_fs w)\<lparr>vnodes_pool := (vnodes_pool (w_fs w))[vn := n\<lparr>vn_content := Some ?c, vn_size := of_nat ?m\<rparr>]\<rparr>\<rparr>"
  have "world_ok ?w" using assms(2) by (simp add: world_ok_def)
  then have "\<exists>w'. w_write (clit ''nano: written to disk\<newline>'') ?w = Some w' \<and> draws ?w w'" by (rule w_write_clit)
  ultimately show ?thesis using assms(3,4) z(2) vn unfolding nano_save_def by (simp add: update_node_def array_set_def)
qed


text \<open>
  C21: A whole session of the editor: typing editing keys, then Ctrl+O, Ctrl+X and an answer other than y stores the document that the
  specification of the keys gives in the file, followed by a terminator, and ends; nothing else of the file system changes.
\<close>

theorem nano_session:
  assumes "nano_holds s d" "world_ok w" "terminated path" "typed w = keys @ [0x0F, 0x18, answer]" "answer \<notin> {121, 89}"
    "set keys \<inter> dialog_keys = {}" "doc_keys keys d = Some (l, r, clip)"
    "array_get (vnodes_pool (w_fs w)) vn = Some n" "vn_content n = Some c" "length l + length r < length c"
  shows "\<exists>s' w'. nano_loop stack path vn s w = Some (s', w') \<and> nano_holds s' (l, r, clip)
     \<and> w_fs w' = (w_fs w)\<lparr>vnodes_pool := (vnodes_pool (w_fs w))
         [vn := n\<lparr>vn_content := Some (l @ r @ 0 # drop (length l + length r + 1) c), vn_size := of_nat (length l + length r)\<rparr>]\<rparr>"
proof -
  obtain s1 w1 where 1: "nano_loop stack path vn s w = nano_loop stack path vn s1 w1" "nano_holds s1 (l, r, clip)" "world_ok w1"
    "typed w1 = [0x0F, 0x18, answer]" "w_fs w1 = w_fs w" using nano_loop_edits [OF assms(1-4,6,7)] by blast
  obtain w2 where 2: "nano_loop stack path vn s1 w1
      = do { (go, s, w) \<leftarrow> nano_key stack vn 0x0F s1 w2; if go then nano_loop stack path vn s w else Some (s, w) }"
    "world_ok w2" "typed w2 = [0x18, answer]" "w_fs w2 = w_fs w" using nano_loop_key [OF 1(2,3) assms(3) 1(4)] 1(5) by auto
  let ?fs = "(w_fs w)\<lparr>vnodes_pool := (vnodes_pool (w_fs w))
         [vn := n\<lparr>vn_content := Some (l @ r @ 0 # drop (length l + length r + 1) c), vn_size := of_nat (length l + length r)\<rparr>]\<rparr>"
  obtain w3 where 3: "nano_save vn s1 w2 = Some w3" "draws (w2\<lparr>w_fs := ?fs\<rparr>) w3"
    using nano_save_file [OF 1(2) 2(2) _ assms(9,10), of vn] assms(8) 2(4) by auto
  have t3: "typed w3 = [0x18, answer]" "w_fs w3 = ?fs" using draws_typed [OF 3(2)] draws_frame [OF 3(2)] 2(3) by (simp_all add: typed_def)
  obtain w4 where 4: "nano_loop stack path vn s1 w3
      = do { (go, s, w) \<leftarrow> nano_key stack vn 0x18 s1 w4; if go then nano_loop stack path vn s w else Some (s, w) }"
    "world_ok w4" "typed w4 = [answer]" "w_fs w4 = ?fs" using nano_loop_key [OF 1(2) draws_ok [OF 3(2)] assms(3) t3(1)] t3(2) by auto
  obtain w5 where 5: "w_write (clit ''Save changes? (y/n): '') w4 = Some w5" "draws w4 w5" using w_write_clit [OF 4(2)] by blast
  obtain x w6 where 6: "w_getchar w5 = Some (x, w6)" "reads w5 x w6" using w_getchar_reads [OF draws_ok [OF 5(2)]] draws_typed [OF 5(2)] 4(3) by auto
  have x: "x \<noteq> 121" "x \<noteq> 89" using 6(2) draws_typed [OF 5(2)] 4(3) assms(5) by (auto simp: reads_def split: if_splits)
  have ok6: "world_ok w6" using 6(2) by (simp add: reads_def)
  obtain w7 where 7: "w_write (clit ''\<newline>'') w6 = Some w7" "draws w6 w7" using w_write_clit [OF ok6] by blast
  have "w_fs w7 = ?fs" using draws_frame [OF 7(2)] draws_frame [OF 5(2)] 6(2) 4(4) by (simp add: reads_def)
  moreover have "nano_key stack vn 0x18 s1 w4 = Some (False, s1, w7)" using 5(1) 6(1) 7(1) x by (simp add: nano_key_def)
  moreover have "nano_key stack vn 0x0F s1 w2 = Some (True, s1, w3)" using 3(1) by (simp add: nano_key_def)
  ultimately show ?thesis using 1(1,2) 2(1) 4(1) by auto
qed


definition empty_nano :: nano where
  "empty_nano = \<lparr>nano_buffer = replicate 8192 0, nano_len = 0, nano_cursor = 0, nano_view = 0, nano_cut_buffer = replicate 8192 0\<rparr>"

lemma empty_nano_holds: "nano_holds empty_nano ([], [], [])"
  by (rule nano_holdsI [of _ _ _ "replicate 8192 0"]) (simp_all add: empty_nano_def terminated_def cstr_def)

theorem nano_session_witness:
  "\<exists>s' w'. nano_loop (replicate 128 0) (clit ''a'') 1 empty_nano
       (demo_typing (map Some [0x23, 0x1D, 0x1E, 0x18, 0x2D, 0x9D, 0x31]) (replicate 64 0)) = Some (s', w')
     \<and> nano_holds s' ([], lit ''h'', [])"
proof -
  let ?es = "map Some [0x23, 0x1D, 0x1E, 0x18, 0x2D, 0x9D, 0x31] :: byte option list"
  let ?w = "demo_typing ?es (replicate 64 0)" and ?keys = "[104, 1] :: byte list"
  obtain n where n: "array_get (vnodes_pool (w_fs ?w)) 1 = Some n" "vn_content n = Some (replicate 64 0)" using demo_typing_file by blast
  have t: "typed ?w = ?keys @ [0x0F, 0x18, 110]" unfolding demo_typing_typed by code_simp
  have k: "set ?keys \<inter> dialog_keys = {}" by (simp add: dialog_keys_def)
  have d: "doc_keys ?keys ([], [], []) = Some ([], lit ''h'', [])" by code_simp
  have f: "length ([] :: byte list) + length (lit ''h'') < length (replicate 64 (0 :: byte))" "terminated (clit ''a'')" "(110 :: byte) \<notin> {121, 89}"
    by (simp_all add: lit_def)
  show ?thesis using nano_session [OF empty_nano_holds demo_typing_ok f(2) t f(3) k d n f(1), of "replicate 128 0"] by blast
qed

lemma count_piece: "count_list (butlast l) x \<le> count_list l x" "count_list (tl l) x \<le> count_list l x"
  by (cases l rule: rev_cases; simp) (cases l; simp)

lemma count_split:
  "count_list l x = count_list (lines_before l) x + count_list (last_line l) x"
  "count_list r x = count_list (first_line r) x + count_list (lines_after r) x"
  by (metis before_split count_list_append) (metis after_split count_list_append)

lemma line_newline: "count_list (last_line l) 10 = 0" "10 \<notin> set (first_line r)" "count_list (first_line r) 10 = 0"
  using last_line_newline by (auto simp: first_line_def dest: set_takeWhileD intro: count_notin)

text \<open>Cursor keys keep the text.\<close>

lemma doc_key_move:
  assumes "doc_key c (l, r, clip) = Some (l', r', clip')" "c \<in> {0x01, 0x02, 0x06, 0x10, 0x0E, 0x1A, 0x05}"
  shows "l' @ r' = l @ r \<and> clip' = clip"
proof -
  consider "c = 0x01" | "c = 0x02" | "c = 0x06" | "c = 0x05" | (up) "c = 0x10" | (down) "c = 0x0E \<or> c = 0x1A" using assms(2) by blast
  then show ?thesis
  proof cases
    case up
    show ?thesis
    proof (cases "lines_before l = []")
      case False
      then obtain p where p: "lines_before l = p @ [10]" using lines_before_snoc by blast
      have l: "l = p @ 10 # last_line l" using before_split [of l] p by simp
      have "take n (last_line p) @ drop n (last_line p) @ y = last_line p @ y" for n y by (simp only: append.assoc [symmetric] append_take_drop_id)
      moreover have "lines_before p @ last_line p @ y = p @ y" for y using before_split [of p] by (metis append.assoc)
      ultimately have "lines_before p @ take n (last_line p) @ drop n (last_line p) @ 10 # last_line l @ r = l @ r" for n
        using arg_cong [OF l, of "\<lambda>l. l @ r"] by (metis append.assoc append_Cons)
      then show ?thesis using assms(1) up p by (auto simp: doc_key_def Let_def split: if_splits)
    qed (use assms(1) up in \<open>simp add: doc_key_def\<close>)
  next
    case down
    show ?thesis
    proof (cases "lines_after r = []")
      case False
      then obtain q where q: "lines_after r = 10 # q" using lines_after_hd by blast
      have "take n (first_line q) @ drop n (first_line q) @ lines_after q = q" for n using after_split [of q] by (metis append.assoc append_take_drop_id)
      moreover have "first_line r @ 10 # q = r" using after_split [of r] q by simp
      ultimately show ?thesis using assms(1) down q by (auto simp: doc_key_def Let_def)
    qed (use assms(1) down in \<open>auto simp: doc_key_def\<close>)
  next
    case 1
    then show ?thesis using assms(1) before_split [of l] by (auto simp: doc_key_def append.assoc [symmetric] simp del: append.assoc append_assoc)
  qed (use assms(1) after_split [of r] in \<open>auto simp: doc_key_def split: if_splits\<close>)
qed

lemma doc_key_lines:
  assumes "doc_key c (l, r, clip) = Some (l', r', clip')" "10 \<notin> set clip"
  shows "count_list (l' @ r') 10 \<le> count_list (l @ r) 10 \<and> 10 \<notin> set clip' \<and> (c = 10 \<longrightarrow> l' @ r' = l @ r)"
proof -
  consider (move) "c \<in> {0x01, 0x02, 0x06, 0x10, 0x0E, 0x1A, 0x05}" | (cut_key) "c = 0x0B" | (paste) "c = 0x15" | (back_key) "c = 0x08 \<or> c = 0x7F" | (del) "c = 0x04"
    | (other) "c \<notin> {0x01, 0x02, 0x06, 0x10, 0x0E, 0x1A, 0x05, 0x0B, 0x15, 0x08, 0x7F, 0x04}" by fast
  then show ?thesis
  proof cases
    case move
    then show ?thesis using doc_key_move [OF assms(1)] assms(2) by auto
  next
    case cut_key
    then have "l' = lines_before l" "r' = tl (lines_after r)" "clip' = last_line l @ first_line r" using assms(1) by (auto simp: doc_key_def)
    then show ?thesis using cut_key count_split [of l 10] count_split(2) [of r 10] count_piece(2) [of "lines_after r" 10] line_newline last_line_newline by simp
  next
    case paste
    then show ?thesis using assms count_notin [OF assms(2)] by (auto simp: doc_key_def split: if_splits)
  next
    case back_key
    then show ?thesis using assms count_piece(1) [of l 10] by (auto simp: doc_key_def split: if_splits)
  next
    case del
    then show ?thesis using assms count_piece(2) [of r 10] by (auto simp: doc_key_def split: if_splits)
  next
    case other
    then show ?thesis using assms by (auto simp: doc_key_def split: if_splits)
  qed
qed

text \<open>
  No editing key adds a line: when the line cut last has no newline, every key outside the dialogs leaves at most as many newlines as
  there were, and again a cut line without newline. In particular Enter does not break a line, and a file that starts empty stays a
  single line.
\<close>

theorem nano_adds_no_line:
  assumes "nano_holds s (l, r, clip)" "10 \<notin> set clip" "world_ok w" "c \<notin> dialog_keys" "doc_key c (l, r, clip) \<noteq> None"
  shows "\<exists>s' w' l' r' clip'. nano_key stack vn c s w = Some (True, s', w') \<and> nano_holds s' (l', r', clip')
     \<and> count_list (l' @ r') 10 \<le> count_list (l @ r) 10 \<and> 10 \<notin> set clip' \<and> (c = 10 \<longrightarrow> l' @ r' = l @ r)"
proof -
  obtain l' r' clip' where d: "doc_key c (l, r, clip) = Some (l', r', clip')" using assms(5) by auto
  show ?thesis using nano_key_holds [OF assms(1,3,4) d, of stack vn] doc_key_lines [OF d assms(2)] by blast
qed

theorem nano_adds_no_line_witness:
  "\<exists>s' w' l' r' clip'. nano_key [] 1 10 empty_nano (demo_world []) = Some (True, s', w') \<and> nano_holds s' (l', r', clip')
     \<and> count_list (l' @ r') 10 \<le> count_list ([] @ []) (10 :: byte) \<and> 10 \<notin> set clip' \<and> ((10 :: byte) = 10 \<longrightarrow> l' @ r' = [] @ [])"
  by (rule nano_adds_no_line [OF empty_nano_holds _ demo_world_ok]) (simp_all add: dialog_keys_def doc_key_def)

text \<open>
  Moving up from the second line crashes when the first line is empty: the start of the line above is searched from position -1, outside
  the buffer.
\<close>

theorem nano_up_crash:
  assumes "nano_holds s (10 # l, r, clip)" "10 \<notin> set l"
  shows "nano_key stack vn 0x10 s w = None"
proof -
  have "lines_before (10 # l) = [10]"
  proof -
    have "dropWhile (\<lambda>c. c \<noteq> 10) (rev l @ [10]) = [10]" using assms(2) by (subst dropWhile_append2) auto
    then show ?thesis by (simp add: lines_before_def)
  qed
  then have s: "nano_line_start (nano_buffer s) (nano_cursor s) = Some 1" using holds_line_start [OF assms(1)] by simp
  have "length (nano_buffer s) = 8192" using assms(1) by (simp add: nano_holds_def)
  moreover obtain p where "sub32 1 2 = Suc p" "p \<ge> 8192" by (simp add: sub32_def)
  ultimately have "nano_line_start (nano_buffer s) (sub32 1 2) = None" by (simp add: array_get_def)
  then show ?thesis using s by (simp add: nano_key_def edit_key_def line_up_def)
qed

theorem nano_up_crash_witness:
  "nano_key [] 1 0x10 (empty_nano\<lparr>nano_buffer := 10 # replicate 8191 0, nano_len := 1, nano_cursor := 1\<rparr>) (demo_world []) = None"
proof (rule nano_up_crash)
  show "nano_holds (empty_nano\<lparr>nano_buffer := 10 # replicate 8191 0, nano_len := 1, nano_cursor := 1\<rparr>) (10 # [], [], [])"
    by (rule nano_holdsI [of _ _ _ "replicate 8191 0"]) (simp_all add: empty_nano_def terminated_def cstr_def)
qed simp

end
