(* ===== verification/Vi.thy ===== *)
theory Vi
  imports Nano
begin

text \<open>
  The editor \<^verbatim>\<open>src/bin/vi/vi.c\<close> with its two modes. The state is the static buffer with the length of the text, the cursor and
  the mode; reads and writes outside the buffer are \<open>None\<close> and the subtraction that wraps around when the cursor is moved up from
  the first line is written out. The functions that find the bounds of a line have the same bodies as those of \<^verbatim>\<open>nano.c\<close>. The lemmas
  relate the keys to a specification on the text before and behind the cursor.
\<close>

section \<open>State and drawing\<close>

abbreviation (input) VI_BUF :: nat where "VI_BUF \<equiv> 8192"
abbreviation (input) VI_ROWS :: nat where "VI_ROWS \<equiv> 23"
abbreviation (input) VI_COLS :: nat where "VI_COLS \<equiv> 80"

record vi =
  vi_buf :: "byte list"
  vi_len :: nat
  vi_cursor :: nat
  vi_insert :: bool

fun put_text :: "byte list \<Rightarrow> terminal \<Rightarrow> terminal option" where
  "put_text [] t = None"
| "put_text (c # cs) t = (if c = 0 then Some t else do { t \<leftarrow> putchar c t; put_text cs t })"

definition vi_print_status :: "byte list \<Rightarrow> terminal \<Rightarrow> terminal option" where
  "vi_print_status msg t =
     do { let saved_col = terminal_col t;
          let saved_row = terminal_row t;
          t \<leftarrow> putchars VI_COLS 32 (t\<lparr>terminal_col := 0, terminal_row := VI_ROWS\<rparr>);
          t \<leftarrow> put_text msg (t\<lparr>terminal_col := 0, terminal_row := VI_ROWS\<rparr>);
          Some (t\<lparr>terminal_col := saved_col, terminal_row := saved_row\<rparr>) }"

definition inst_str :: "byte list" where "inst_str = clit ''-- INSERT --''"
definition cmd_str :: "byte list" where "cmd_str = clit ''-- COMMAND --''"

definition vi_line_start :: "byte list \<Rightarrow> nat \<Rightarrow> nat option" where
  "vi_line_start buf pos = nano_line_start buf pos"

definition vi_line_end :: "byte list \<Rightarrow> nat \<Rightarrow> nat \<Rightarrow> nat option" where
  "vi_line_end buf pos len = nano_line_end buf pos len"

fun count_lines_to :: "byte list \<Rightarrow> nat \<Rightarrow> nat \<Rightarrow> nat \<Rightarrow> nat option" where
  "count_lines_to buf i 0 line = Some line"
| "count_lines_to buf i (Suc n) line =
     do { c \<leftarrow> array_get buf i;
          if c = 0 then Some line else count_lines_to buf (Suc i) n (if c = 10 then line + 1 else line) }"

definition vi_line_number :: "byte list \<Rightarrow> nat \<Rightarrow> nat option" where
  "vi_line_number buf pos = count_lines_to buf 0 pos 0"

definition vi_column :: "byte list \<Rightarrow> nat \<Rightarrow> nat option" where
  "vi_column buf pos = do { start \<leftarrow> vi_line_start buf pos; Some (pos - start) }"

fun vi_draw_line :: "byte list \<Rightarrow> nat \<Rightarrow> nat \<Rightarrow> terminal \<Rightarrow> terminal option" where
  "vi_draw_line buf i 0 t = Some t"
| "vi_draw_line buf i (Suc n) t =
     do { t \<leftarrow> (if terminal_col t < VI_COLS then do { c \<leftarrow> array_get buf i; putchar c t } else Some t);
          vi_draw_line buf (Suc i) n t }"

fun vi_draw_rows :: "byte list \<Rightarrow> nat \<Rightarrow> nat \<Rightarrow> nat \<Rightarrow> terminal \<Rightarrow> terminal option" where
  "vi_draw_rows buf len pos 0 t = Some t"
| "vi_draw_rows buf len pos (Suc n) t =
     (if pos < len
      then do { e \<leftarrow> vi_line_end buf pos len;
                t \<leftarrow> vi_draw_line buf pos (e - pos) t;
                newline \<leftarrow> (if e < len then do { c \<leftarrow> array_get buf e; Some (c = 10) } else Some False);
                t \<leftarrow> putchar 10 t;
                vi_draw_rows buf len (if newline then Suc e else e) n t }
      else do { t \<leftarrow> putchar 126 t; t \<leftarrow> putchar 10 t; vi_draw_rows buf len pos n t })"

definition vi_draw :: "byte list \<Rightarrow> vi \<Rightarrow> 'a world_scheme \<Rightarrow> 'a world_scheme option" where
  "vi_draw name s w =
     do { w \<leftarrow> on_screen cmd_clear w;
          w \<leftarrow> on_screen (vi_draw_rows (vi_buf s) (vi_len s) 0 VI_ROWS) w;
          w \<leftarrow> on_screen (\<lambda>t. Some (t\<lparr>terminal_col := 0, terminal_row := VI_ROWS\<rparr>)) w;
          line \<leftarrow> vi_line_number (vi_buf s) (vi_cursor s);
          col \<leftarrow> vi_column (vi_buf s) (vi_cursor s);
          w_printf ''%s  Ln %u, Col %u'' [Str name, Word (of_nat line + 1), Word (of_nat col + 1)] w }"


section \<open>Operations\<close>

definition vi_move_up :: "vi \<Rightarrow> vi option" where
  "vi_move_up s =
     do { col \<leftarrow> vi_column (vi_buf s) (vi_cursor s);
          if vi_cursor s = 0 then Some s
          else do {
            start \<leftarrow> vi_line_start (vi_buf s) (vi_cursor s);
            let prev_line_end = sub32 start 1;
            prev_line_start \<leftarrow> vi_line_start (vi_buf s) prev_line_end;
            Some (s\<lparr>vi_cursor := min (prev_line_start + col) prev_line_end\<rparr>) } }"

definition vi_move_down :: "vi \<Rightarrow> vi option" where
  "vi_move_down s =
     do { col \<leftarrow> vi_column (vi_buf s) (vi_cursor s);
          e \<leftarrow> vi_line_end (vi_buf s) (vi_cursor s) (vi_len s);
          next_line_start \<leftarrow> (if e < vi_len s then do { c \<leftarrow> array_get (vi_buf s) e; Some (if c = 10 then e + 1 else e) } else Some e);
          if next_line_start \<ge> vi_len s then Some s
          else do {
            next_line_end \<leftarrow> vi_line_end (vi_buf s) next_line_start (vi_len s);
            Some (s\<lparr>vi_cursor := min (next_line_start + col) next_line_end\<rparr>) } }"

definition vi_save :: "nat \<Rightarrow> vi \<Rightarrow> 'a world_scheme \<Rightarrow> 'a world_scheme option" where
  "vi_save vn s w =
     do { n \<leftarrow> array_get (vnodes_pool (w_fs w)) vn;
          let (content, fs) =
            (case vn_content n of
               Some c \<Rightarrow> (Some c, w_fs w)
             | None \<Rightarrow>
                 let (p, pm, m) = pmm_alloc_z (of_nat VI_BUF) (fs_pmm (w_fs w)) (fs_mem (w_fs w));
                     fs = (w_fs w)\<lparr>fs_pmm := pm, fs_mem := m\<rparr>
                 in if p = 0 then (None, fs) else (Some (mem_read m p VI_BUF), fs));
          let w = w\<lparr>w_fs := fs\<rparr>;
          case content of
            None \<Rightarrow> Some w
          | Some c \<Rightarrow>
              do { c \<leftarrow> memcpy c (vi_buf s) (vi_len s);
                   c \<leftarrow> array_set c (vi_len s) 0;
                   fs \<leftarrow> update_node vn (\<lambda>n. n\<lparr>vn_content := Some c, vn_size := of_nat (vi_len s)\<rparr>) (w_fs w);
                   Some (w\<lparr>w_fs := fs\<rparr>) } }"

definition vi_delete_line :: "vi \<Rightarrow> vi option" where
  "vi_delete_line s =
     do { start \<leftarrow> vi_line_start (vi_buf s) (vi_cursor s);
          e \<leftarrow> vi_line_end (vi_buf s) (vi_cursor s) (vi_len s);
          e \<leftarrow> (if e < vi_len s then do { c \<leftarrow> array_get (vi_buf s) e; Some (if c = 10 then e + 1 else e) } else Some e);
          b \<leftarrow> memmove (vi_buf s) start e (sub32 (vi_len s) e);
          Some (s\<lparr>vi_buf := b, vi_len := sub32 (vi_len s) (e - start), vi_cursor := start\<rparr>) }"

definition vi_insert_char :: "byte \<Rightarrow> vi \<Rightarrow> vi option" where
  "vi_insert_char c s =
     (if vi_len s + 1 \<ge> VI_BUF then Some s
      else do { b \<leftarrow> memmove (vi_buf s) (vi_cursor s + 1) (vi_cursor s) (sub32 (vi_len s) (vi_cursor s));
                b \<leftarrow> array_set b (vi_cursor s) c;
                Some (s\<lparr>vi_buf := b, vi_cursor := vi_cursor s + 1, vi_len := vi_len s + 1\<rparr>) })"

definition vi_delete_char :: "vi \<Rightarrow> vi option" where
  "vi_delete_char s =
     (if vi_cursor s \<ge> vi_len s then Some s
      else do { b \<leftarrow> memmove (vi_buf s) (vi_cursor s) (vi_cursor s + 1) (vi_len s - vi_cursor s - 1);
                Some (s\<lparr>vi_buf := b, vi_len := vi_len s - 1\<rparr>) })"

definition vi_backspace :: "vi \<Rightarrow> vi option" where
  "vi_backspace s =
     (if vi_cursor s > 0
      then do { let cursor = vi_cursor s - 1;
                b \<leftarrow> memmove (vi_buf s) cursor (cursor + 1) (sub32 (vi_len s) cursor);
                b \<leftarrow> array_set b (sub32 (vi_len s) 1) 0;
                Some (s\<lparr>vi_buf := b, vi_cursor := cursor, vi_len := sub32 (vi_len s) 1\<rparr>) }
      else Some s)"

definition vi_open_line :: "vi \<Rightarrow> vi option" where
  "vi_open_line s =
     do { e \<leftarrow> vi_line_end (vi_buf s) (vi_cursor s) (vi_len s);
          s \<leftarrow> (if vi_len s + 1 < VI_BUF then vi_insert_char 10 (s\<lparr>vi_cursor := e\<rparr>) else Some s);
          Some (s\<lparr>vi_insert := True\<rparr>) }"

text \<open>The text of the file up to its terminator.\<close>

fun load_loop :: "nat \<Rightarrow> byte list \<Rightarrow> byte list \<Rightarrow> (byte list \<times> nat) option" where
  "load_loop 0 buf c = Some (buf, 0)"
| "load_loop (Suc n) buf [] = None"
| "load_loop (Suc n) buf (x # c) =
     (if x = 0 then Some (buf, 0)
      else case buf of [] \<Rightarrow> None | _ # buf \<Rightarrow> map_option (\<lambda>(b, len). (x # b, len + 1)) (load_loop n buf c))"

definition vi_load :: "vnode \<Rightarrow> byte list \<Rightarrow> (byte list \<times> nat) option" where
  "vi_load n buf =
     do { (b, len) \<leftarrow> (case vn_content n of None \<Rightarrow> Some (buf, 0) | Some c \<Rightarrow> load_loop (VI_BUF - 1) buf c);
          b \<leftarrow> array_set b len 0;
          Some (b, len) }"


section \<open>Keys\<close>

definition status :: "byte list \<Rightarrow> 'a world_scheme \<Rightarrow> 'a world_scheme option" where
  "status msg w = on_screen (vi_print_status msg) w"

text \<open>A key that changes the editor and draws it again.\<close>

definition then_draw :: "byte list \<Rightarrow> vi option \<Rightarrow> 'a world_scheme \<Rightarrow> (bool \<times> vi \<times> 'a world_scheme) option" where
  "then_draw name r w = do { s \<leftarrow> r; w \<leftarrow> vi_draw name s w; Some (True, s, w) }"

definition vi_is :: "byte list \<Rightarrow> string \<Rightarrow> bool option" where
  "vi_is line word = map_option (\<lambda>r. r = 0) (strcmp line (clit word))"

definition vi_colon :: "byte list \<Rightarrow> byte list \<Rightarrow> nat \<Rightarrow> vi \<Rightarrow> 'a world_scheme \<Rightarrow> (bool \<times> vi \<times> 'a world_scheme) option" where
  "vi_colon stack name vn s w =
     do { w \<leftarrow> w_write (clit '':'') w;
          (line, k) \<leftarrow> read_line stack 2048 (w_kbd w);
          let w = w\<lparr>w_kbd := k\<rparr>;
          is_w \<leftarrow> vi_is line ''w''; is_wq \<leftarrow> vi_is line ''wq''; is_x \<leftarrow> vi_is line ''x'';
          w \<leftarrow> (if is_w \<or> is_wq \<or> is_x then do { w \<leftarrow> vi_save vn s w; status (clit ''written'') w } else Some w);
          is_q \<leftarrow> vi_is line ''q''; is_qb \<leftarrow> vi_is line ''q!'';
          if is_q \<or> is_qb \<or> is_wq \<or> is_x then Some (False, s, w)
          else do {
            e \<leftarrow> strncmp line (clit ''e '') 2;
            s \<leftarrow> (if e = 0
                  then do { n \<leftarrow> array_get (vnodes_pool (w_fs w)) vn;
                            (b, len) \<leftarrow> vi_load n (vi_buf s);
                            Some (s\<lparr>vi_buf := b, vi_len := len, vi_cursor := len\<rparr>) }
                  else Some s);
            w \<leftarrow> vi_draw name s w;
            w \<leftarrow> status cmd_str w;
            Some (True, s, w) } }"

definition vi_command_key :: "byte list \<Rightarrow> byte list \<Rightarrow> nat \<Rightarrow> byte \<Rightarrow> vi \<Rightarrow> 'a world_scheme \<Rightarrow> (bool \<times> vi \<times> 'a world_scheme) option" where
  "vi_command_key stack name vn c s w =
     (if c = 105 then do { w \<leftarrow> status inst_str w; Some (True, s\<lparr>vi_insert := True\<rparr>, w) }
      else if c = 97
      then do { w \<leftarrow> status inst_str w;
                Some (True, s\<lparr>vi_cursor := if vi_cursor s < vi_len s then vi_cursor s + 1 else vi_cursor s, vi_insert := True\<rparr>, w) }
      else if c = 111 then do { s \<leftarrow> vi_open_line s; w \<leftarrow> status inst_str w; then_draw name (Some s) w }
      else if c = 104 then then_draw name (Some (if vi_cursor s > 0 then s\<lparr>vi_cursor := vi_cursor s - 1\<rparr> else s)) w
      else if c = 108 then then_draw name (Some (if vi_cursor s < vi_len s then s\<lparr>vi_cursor := vi_cursor s + 1\<rparr> else s)) w
      else if c = 107 then then_draw name (vi_move_up s) w
      else if c = 106 then then_draw name (vi_move_down s) w
      else if c = 120
      then then_draw name (do { s \<leftarrow> vi_delete_char s; Some (if vi_cursor s > vi_len s then s\<lparr>vi_cursor := vi_len s\<rparr> else s) }) w
      else if c = 100
      then do { (nxt, w) \<leftarrow> w_getchar w; if nxt = 100 then then_draw name (vi_delete_line s) w else Some (True, s, w) }
      else if c = 58 then vi_colon stack name vn s w
      else Some (True, s, w))"

definition vi_insert_key :: "byte list \<Rightarrow> byte \<Rightarrow> vi \<Rightarrow> 'a world_scheme \<Rightarrow> (bool \<times> vi \<times> 'a world_scheme) option" where
  "vi_insert_key name c s w =
     (if c = 0x1B then do { w \<leftarrow> status cmd_str w; Some (True, s\<lparr>vi_insert := False\<rparr>, w) }
      else if c = 0x08 \<or> c = 0x7F then then_draw name (vi_backspace s) w
      else if c = 13 \<or> c = 10 then then_draw name (if vi_len s + 1 < VI_BUF then vi_insert_char 10 s else Some s) w
      else if c \<ge> 32 then then_draw name (vi_insert_char c s) w
      else Some (True, s, w))"

definition vi_key :: "byte list \<Rightarrow> byte list \<Rightarrow> nat \<Rightarrow> byte \<Rightarrow> vi \<Rightarrow> 'a world_scheme \<Rightarrow> (bool \<times> vi \<times> 'a world_scheme) option" where
  "vi_key stack name vn c s w = (if vi_insert s then vi_insert_key name c s w else vi_command_key stack name vn c s w)"

partial_function (option) vi_loop :: "byte list \<Rightarrow> byte list \<Rightarrow> nat \<Rightarrow> vi \<Rightarrow> 'a world_scheme \<Rightarrow> (vi \<times> 'a world_scheme) option" where
  "vi_loop stack name vn s w =
     do { (c, w) \<leftarrow> w_getchar w;
          if c = 0 then vi_loop stack name vn s w
          else do { (go, s, w) \<leftarrow> vi_key stack name vn c s w;
                    if go then vi_loop stack name vn s w else Some (s, w) } }"

text \<open>The command; \<open>stack\<close> is the uninitialised array of the command line, \<open>s\<close> holds the static buffer.\<close>

definition cmd_vi :: "byte list \<Rightarrow> byte list list \<Rightarrow> vi \<Rightarrow> 'a world_scheme \<Rightarrow> (int \<times> vi \<times> 'a world_scheme) option" where
  "cmd_vi stack argv s w =
     (if length argv < 2 then do { w \<leftarrow> w_write (clit ''Usage: vi <filename>\<newline>'') w; Some (-1, s, w) }
      else do {
        name \<leftarrow> array_get argv 1;
        found \<leftarrow> vfs_lookup (Some name) (w_fs w);
        (r, fs) \<leftarrow> (if found \<noteq> None then Some (0, w_fs w) else k_touch (Some name) (w_fs w));
        let w = w\<lparr>w_fs := fs\<rparr>;
        if r \<noteq> 0 then do { w \<leftarrow> w_write (clit ''vi: cannot create file\<newline>'') w; Some (-1, s, w) }
        else do {
          found \<leftarrow> (if found \<noteq> None then Some found else vfs_lookup (Some name) (w_fs w));
          n \<leftarrow> (case found of None \<Rightarrow> Some None
                | Some vn \<Rightarrow> do { n \<leftarrow> array_get (vnodes_pool (w_fs w)) vn;
                                  Some (if vn_flags n AND VFS_FILE = 0 then None else Some (vn, n)) });
          case n of
            None \<Rightarrow> do { w \<leftarrow> w_write (clit ''vi: not a file\<newline>'') w; Some (-1, s, w) }
          | Some (vn, n) \<Rightarrow>
              do { (b, len) \<leftarrow> vi_load n (vi_buf s);
                   let s = s\<lparr>vi_buf := b, vi_len := len, vi_cursor := len, vi_insert := False\<rparr>;
                   w \<leftarrow> vi_draw name s w;
                   w \<leftarrow> status cmd_str w;
                   (s, w) \<leftarrow> vi_loop stack name vn s w;
                   Some (0, s, w) } } })"



section \<open>A specification of the keys\<close>

text \<open>The mode, the text before the cursor and the text behind it.\<close>

type_synonym vi_doc = "bool \<times> byte list \<times> byte list"

definition vi_holds :: "vi \<Rightarrow> vi_doc \<Rightarrow> bool" where
  "vi_holds s d \<longleftrightarrow> (case d of (m, l, r) \<Rightarrow>
     (\<exists>z. vi_buf s = l @ r @ z) \<and> vi_cursor s = length l \<and> vi_len s = length l + length r
     \<and> length (vi_buf s) = VI_BUF \<and> length l + length r < VI_BUF \<and> vi_insert s = m)"

text \<open>
  The effect of a key other than the two-character command and the command line. Moving up from the first line is
  left out: there the program leaves the buffer.
\<close>

definition vi_doc_key :: "byte \<Rightarrow> vi_doc \<Rightarrow> vi_doc option" where
  "vi_doc_key c d =
     (case d of
        (True, l, r) \<Rightarrow>
          if c = 0x1B then Some (False, l, r)
          else if c = 0x08 \<or> c = 0x7F then Some (True, butlast l, r)
          else if length l + length r + 1 \<ge> VI_BUF then Some d
          else if c = 13 \<or> c = 10 then Some (True, l @ [10], r)
          else if c \<ge> 32 then Some (True, l @ [c], r)
          else Some d
      | (False, l, r) \<Rightarrow>
          if c = 105 then Some (True, l, r)
          else if c = 97 then Some (if r = [] then (True, l, r) else (True, l @ [hd r], tl r))
          else if c = 111
          then Some (if length l + length r + 1 < VI_BUF then (True, l @ first_line r @ [10], lines_after r) else (True, l, r))
          else if c = 104 then Some (if l = [] then d else (False, butlast l, last l # r))
          else if c = 108 then Some (if r = [] then d else (False, l @ [hd r], tl r))
          else if c = 107
          then (if l = [] then Some d
                else if lines_before l = [] then None
                else let p = butlast (lines_before l); row = last_line p; n = min (length (last_line l)) (length row)
                     in Some (False, lines_before p @ take n row, drop n row @ 10 # last_line l @ r))
          else if c = 106
          then (if tl (lines_after r) = [] then Some d
                else let q = tl (lines_after r); row = first_line q; n = min (length (last_line l)) (length row)
                     in Some (False, l @ first_line r @ 10 # take n row, drop n row @ lines_after q))
          else if c = 120 then Some (False, l, tl r)
          else if c = 100 \<or> c = 58 then None
          else Some d)"

lemma vi_holdsE:
  assumes "vi_holds s (m, l, r)"
  obtains z where "vi_buf s = l @ r @ z" "vi_cursor s = length l" "vi_len s = length l + length r"
    "length l + length r + length z = VI_BUF" "z \<noteq> []" "vi_insert s = m"
proof -
  obtain z where z: "vi_buf s = l @ r @ z" using assms by (auto simp: vi_holds_def)
  moreover have "z \<noteq> []" using assms z by (auto simp: vi_holds_def)
  ultimately show ?thesis using assms that [of z] by (simp add: vi_holds_def)
qed

lemma vi_holdsI:
  assumes "vi_buf s = l @ r @ z" "vi_cursor s = length l" "vi_len s = length l + length r"
    "length l + length r + length z = VI_BUF" "z \<noteq> []" "vi_insert s = m"
  shows "vi_holds s (m, l, r)"
  using assms by (cases z) (auto simp: vi_holds_def)

lemma vi_holds_mode: "vi_holds s (m, l, r) \<Longrightarrow> vi_holds (s\<lparr>vi_insert := m'\<rparr>) (m', l, r)"
  by (simp add: vi_holds_def)

lemma vi_holds_move:
  assumes "vi_holds s (m, l, r)" "l @ r = l' @ r'" "n = length l'"
  shows "vi_holds (s\<lparr>vi_cursor := n\<rparr>) (m, l', r')"
  using assms(1)
proof (rule vi_holdsE)
  fix z assume z: "vi_buf s = l @ r @ z" "vi_len s = length l + length r" "length l + length r + length z = VI_BUF" "z \<noteq> []" "vi_insert s = m"
  have "length l + length r = length l' + length r'" using arg_cong [OF assms(2), of length] by simp
  moreover have "l @ r @ z = l' @ r' @ z" using assms(2) by (metis append.assoc)
  ultimately show ?thesis using z assms(3) by (intro vi_holdsI [of _ _ _ z]) auto
qed

lemma vi_line_bounds:
  assumes "vi_holds s (m, l, r)"
  shows "vi_line_start (vi_buf s) (vi_cursor s) = Some (length (lines_before l))"
    "vi_line_end (vi_buf s) (vi_cursor s) (vi_len s) = Some (length l + length (first_line r))"
    "vi_column (vi_buf s) (vi_cursor s) = Some (length (last_line l))"
  using assms lines_before_length [of l]
  by (elim vi_holdsE; simp add: vi_line_start_def vi_line_end_def nano_line_end_def vi_column_def nano_line_start_eq line_end_loop_eq)+

lemma vi_insert_char_holds:
  assumes "vi_holds s (m, l, r)"
  shows "\<exists>s'. vi_insert_char c s = Some s' \<and> vi_holds s' (if length l + length r + 1 < VI_BUF then (m, l @ [c], r) else (m, l, r))"
  using assms
proof (rule vi_holdsE)
  fix z assume z: "vi_buf s = l @ r @ z" "vi_cursor s = length l" "vi_len s = length l + length r" "length l + length r + length z = VI_BUF" "z \<noteq> []" "vi_insert s = m"
  show ?thesis
  proof (cases "length l + length r + 1 < VI_BUF")
    case False
    then show ?thesis using assms z(3) by (simp add: vi_insert_char_def)
  next
    case True
    then obtain x y z' where zz: "z = x # y # z'" using z(4) by (cases z; cases "tl z") auto
    have t: "take (length l + 1) (l @ r @ z) @ r @ y # z' = l @ hd (r @ z) # r @ y # z'" using zz by (cases r) auto
    have m: "memmove (l @ r @ z) (length l + 1) (length l) (length r) = Some (l @ hd (r @ z) # r @ y # z')"
      unfolding t [symmetric] using memmove_eq [of "length l + 1" "length r" "l @ r @ z" "length l"] z(4) True zz by simp
    let ?s = "s\<lparr>vi_buf := (l @ [c]) @ r @ y # z', vi_cursor := length l + 1, vi_len := length l + length r + 1\<rparr>"
    have "vi_insert_char c s = Some ?s" unfolding vi_insert_char_def using True z m by (simp add: array_set_def list_update_append)
    moreover have "vi_holds ?s (m, l @ [c], r)" using z(4,6) zz by (intro vi_holdsI [of _ _ _ "y # z'"]) simp_all
    ultimately show ?thesis using True by auto
  qed
qed

lemma vi_backspace_holds:
  assumes "vi_holds s (m, l, r)"
  shows "\<exists>s'. vi_backspace s = Some s' \<and> vi_holds s' (m, butlast l, r)"
  using assms
proof (rule vi_holdsE)
  fix z assume z: "vi_buf s = l @ r @ z" "vi_cursor s = length l" "vi_len s = length l + length r" "length l + length r + length z = VI_BUF" "z \<noteq> []" "vi_insert s = m"
  show ?thesis
  proof (cases "l = []")
    case True
    then show ?thesis using assms z(2) by (simp add: vi_backspace_def)
  next
    case False
    then obtain k x where l: "l = k @ [x]" by (metis append_butlast_last_id)
    obtain y z' where zz: "z = y # z'" using z(5) by (cases z) auto
    have m: "memmove (l @ r @ z) (length k) (length k + 1) (length r + 1) = Some ((k @ r) @ y # y # z')"
      using memmove_eq [of "length k" "length r + 1" "l @ r @ z" "length k + 1"] l z(4) zz by simp
    let ?s = "s\<lparr>vi_buf := (k @ r) @ 0 # y # z', vi_cursor := length k, vi_len := length k + length r\<rparr>"
    have "sub32 (vi_len s) (length k) = length r + 1" "sub32 (vi_len s) 1 = length k + length r" using z(3) l by simp_all
    then have "vi_backspace s = Some ?s" unfolding vi_backspace_def using m z(1-4) l zz by (simp add: array_set_def list_update_append Let_def)
    moreover have "vi_holds ?s (m, k, r)" using z(4,6) l zz by (intro vi_holdsI [of _ _ _ "0 # y # z'"]) simp_all
    ultimately show ?thesis using l by simp
  qed
qed

lemma vi_delete_char_holds:
  assumes "vi_holds s (m, l, r)"
  shows "\<exists>s'. vi_delete_char s = Some s' \<and> vi_holds s' (m, l, tl r)"
  using assms
proof (rule vi_holdsE)
  fix z assume z: "vi_buf s = l @ r @ z" "vi_cursor s = length l" "vi_len s = length l + length r" "length l + length r + length z = VI_BUF" "z \<noteq> []" "vi_insert s = m"
  show ?thesis
  proof (cases r)
    case Nil
    then show ?thesis using assms z(2,3) by (simp add: vi_delete_char_def)
  next
    case (Cons x q)
    let ?y = "last (x # q)"
    have mm: "memmove (l @ r @ z) (length l) (length l + 1) (length q) = Some ((l @ q) @ ?y # z)"
      using memmove_eq [of "length l" "length q" "l @ r @ z" "length l + 1"] Cons z(4) drop_to_last [of q x z] by (simp del: last.simps)
    let ?s = "s\<lparr>vi_buf := (l @ q) @ ?y # z, vi_len := length l + length q\<rparr>"
    have "vi_delete_char s = Some ?s" unfolding vi_delete_char_def using mm z(1-4) Cons by (simp del: last.simps)
    moreover have "vi_holds ?s (m, l, q)" using z(2,4,6) Cons by (intro vi_holdsI [of _ _ _ "?y # z"]) simp_all
    ultimately show ?thesis using Cons by (simp del: last.simps)
  qed
qed


lemma vi_delete_line_holds:
  assumes "vi_holds s (m, l, r)"
  shows "\<exists>s'. vi_delete_line s = Some s' \<and> vi_holds s' (m, lines_before l, tl (lines_after r))"
  using assms
proof (rule vi_holdsE)
  fix z assume z: "vi_buf s = l @ r @ z" "vi_cursor s = length l" "vi_len s = length l + length r" "length l + length r + length z = VI_BUF" "z \<noteq> []" "vi_insert s = m"
  let ?a = "lines_before l" and ?y = "tl (lines_after r)"
  obtain x where x: "memmove (l @ r @ z) (length ?a) (cut_end l r) (sub32 (length l + length r) (cut_end l r)) = Some (?a @ ?y @ x)"
    "length ?a + length ?y + length x = VI_BUF" "x \<noteq> []" using cut_move [OF z(5), of l r] z(4) by auto
  let ?s = "s\<lparr>vi_buf := ?a @ ?y @ x, vi_len := length ?a + length ?y, vi_cursor := length ?a\<rparr>"
  have n': "sub32 (length l + length r) (cut_end l r - length ?a) = length ?a + length ?y" using cut_end_length [of l r] by simp
  have "vi_delete_line s = Some ?s"
    by (simp only: vi_delete_line_def vi_line_bounds [OF assms, unfolded z(1-3)] z(1-3) bind.bind_lunit cut_end_newline x(1) n')
  then show ?thesis using x(2,3) z(6) by (intro exI [of _ ?s] conjI vi_holdsI [of _ _ _ x]) simp_all
qed

lemma vi_open_line_holds:
  assumes "vi_holds s (m, l, r)"
  shows "\<exists>s'. vi_open_line s = Some s'
     \<and> vi_holds s' (if length l + length r + 1 < VI_BUF then (True, l @ first_line r @ [10], lines_after r) else (True, l, r))"
proof -
  let ?s = "s\<lparr>vi_cursor := length l + length (first_line r)\<rparr>"
  have h: "vi_holds ?s (m, l @ first_line r, lines_after r)" by (rule vi_holds_move [OF assms]) (simp_all add: after_split)
  have len: "length (first_line r) + length (lines_after r) = length r" by (rule piece_length)
  obtain s' where s': "vi_insert_char 10 ?s = Some s'" "length l + length r + 1 < VI_BUF \<Longrightarrow> vi_holds s' (m, l @ first_line r @ [10], lines_after r)"
    using vi_insert_char_holds [OF h, of 10] len by (auto simp: add.assoc split: if_splits)
  have "vi_len s = length l + length r" using assms by (auto elim: vi_holdsE)
  then show ?thesis using vi_line_bounds(2) [OF assms] s' vi_holds_mode [OF assms] vi_holds_mode [of s'] by (auto simp: vi_open_line_def)
qed

lemma vi_move_down_holds:
  assumes "vi_holds s (False, l, r)"
  shows "\<exists>s' d'. vi_move_down s = Some s' \<and> vi_doc_key 106 (False, l, r) = Some d' \<and> vi_holds s' d'"
  using assms
proof (rule vi_holdsE)
  fix z assume z: "vi_buf s = l @ r @ z" "vi_cursor s = length l" "vi_len s = length l + length r"
  note lb = vi_line_bounds [OF assms, unfolded z]
  let ?q = "tl (lines_after r)"
  have ce: "length l + length r - cut_end l r = length ?q" "cut_end l r \<le> length l + length r" by (rule cut_end_length)+
  show ?thesis
  proof (cases "?q = []")
    case True
    then have "cut_end l r \<ge> length l + length r" using ce by simp
    then have "vi_move_down s = Some s" by (simp only: vi_move_down_def z lb bind.bind_lunit cut_end_newline if_True)
    then show ?thesis using True assms by (simp add: vi_doc_key_def)
  next
    case False
    then obtain q where q: "lines_after r = 10 # q" using lines_after_hd [of r] by (cases "lines_after r = []") auto
    let ?row = "first_line q" and ?e = "length l + length (first_line r)"
    let ?n = "min (length (last_line l)) (length ?row)"
    have e: "cut_end l r = ?e + 1" using q by (simp add: cut_end_def)
    have r: "r = first_line r @ 10 # q" using after_split [of r] q by simp
    have "drop (?e + 1) (l @ r @ z) = q @ z" by (subst r) simp
    then have ne: "vi_line_end (l @ r @ z) (?e + 1) (length l + length r) = Some (?e + 1 + length ?row)"
      unfolding vi_line_end_def nano_line_end_def using line_end_loop_eq [of "?e + 1" "length l + length r - (?e + 1)" "l @ r @ z"] ce e q by simp
    have "\<not> cut_end l r \<ge> length l + length r" using ce False by (cases ?q) simp_all
    moreover have "min (cut_end l r + length (last_line l)) (?e + 1 + length ?row) = ?e + 1 + ?n" using e by simp
    ultimately have "vi_move_down s = Some (s\<lparr>vi_cursor := ?e + 1 + ?n\<rparr>)"
      by (simp only: vi_move_down_def z lb bind.bind_lunit cut_end_newline if_False e ne)
    moreover have "vi_doc_key 106 (False, l, r) = Some (False, l @ first_line r @ 10 # take ?n ?row, drop ?n ?row @ lines_after q)"
      using q False by (simp add: vi_doc_key_def Let_def)
    moreover have "vi_holds (s\<lparr>vi_cursor := ?e + 1 + ?n\<rparr>) (False, l @ first_line r @ 10 # take ?n ?row, drop ?n ?row @ lines_after q)"
    proof (rule vi_holds_move [OF assms])
      have "take ?n ?row @ drop ?n ?row @ lines_after q = q" using after_split [of q] by (metis append.assoc append_take_drop_id)
      then show "l @ r = (l @ first_line r @ 10 # take ?n ?row) @ drop ?n ?row @ lines_after q" using r by simp
    qed simp
    ultimately show ?thesis by blast
  qed
qed

lemma vi_move_up_holds:
  assumes "vi_holds s (False, l, r)" "vi_doc_key 107 (False, l, r) = Some d"
  shows "\<exists>s'. vi_move_up s = Some s' \<and> vi_holds s' d"
  using assms(1)
proof (rule vi_holdsE)
  fix z assume z: "vi_buf s = l @ r @ z" "vi_cursor s = length l" "vi_len s = length l + length r"
  note lb = vi_line_bounds [OF assms(1)]
  show ?thesis
  proof (cases "l = []")
    case True
    then have "vi_move_up s = Some s" using lb z(2) by (simp add: vi_move_up_def)
    then show ?thesis using True assms by (simp add: vi_doc_key_def)
  next
    case False
    then have "lines_before l \<noteq> []" using assms(2) by (auto simp: vi_doc_key_def split: if_splits)
    then obtain p where p: "lines_before l = p @ [10]" using lines_before_snoc by blast
    let ?row = "last_line p" and ?h = "lines_before p"
    let ?n = "min (length (last_line l)) (length ?row)"
    have d: "d = (False, ?h @ take ?n ?row, drop ?n ?row @ 10 # last_line l @ r)" using assms(2) p False by (auto simp: vi_doc_key_def Let_def)
    have l: "l = p @ 10 # last_line l" using before_split [of l] p by simp
    have lr: "l @ y = p @ 10 # last_line l @ y" for y by (subst l) simp
    have "vi_line_start (vi_buf s) (length p) = Some (length ?h)"
      using nano_line_start_eq [of "length p" "vi_buf s"] z(1) lr [of "r @ z"] by (simp add: vi_line_start_def)
    moreover have "min (length ?h + length (last_line l)) (length p) = length ?h + ?n" using piece_length(1) [of p] by simp
    ultimately have "vi_move_up s = Some (s\<lparr>vi_cursor := length ?h + ?n\<rparr>)" using lb z(2) False p by (simp add: vi_move_up_def)
    moreover have "vi_holds (s\<lparr>vi_cursor := length ?h + ?n\<rparr>) d" unfolding d
    proof (rule vi_holds_move [OF assms(1)])
      have "take ?n ?row @ drop ?n ?row @ y = ?row @ y" for y by (simp only: append.assoc [symmetric] append_take_drop_id)
      moreover have "?h @ ?row @ y = p @ y" for y using before_split [of p] by (metis append.assoc)
      ultimately show "l @ r = (?h @ take ?n ?row) @ drop ?n ?row @ 10 # last_line l @ r" using lr [of r] by (simp only: append.assoc)
    qed simp
    ultimately show ?thesis by blast
  qed
qed



section \<open>Drawing never fails\<close>

lemma putchar_ok: "term_ok t \<Longrightarrow> \<exists>t'. putchar c t = Some t' \<and> term_ok t'"
  unfolding putchar_def putc_def by (rule console_ok)

lemma put_text_ok: "term_ok t \<Longrightarrow> terminated s \<Longrightarrow> \<exists>t'. put_text s t = Some t' \<and> term_ok t'"
proof (induction s arbitrary: t)
  case (Cons c s)
  obtain u where "putchar c t = Some u" "term_ok u" using putchar_ok [OF Cons.prems(1)] by blast
  then show ?case using Cons by auto
qed simp

lemma print_status_ok:
  assumes "term_ok t" "terminated msg"
  shows "\<exists>t'. vi_print_status msg t = Some t' \<and> term_ok t'"
proof -
  have row: "term_ok (u\<lparr>terminal_col := 0, terminal_row := VI_ROWS\<rparr>)" if "term_ok u" for u using that by (simp add: term_ok_def)
  obtain u where u: "putchars VI_COLS 32 (t\<lparr>terminal_col := 0, terminal_row := VI_ROWS\<rparr>) = Some u" "term_ok u"
    using putchars_ok [OF row [OF assms(1)]] by blast
  obtain v where "put_text msg (u\<lparr>terminal_col := 0, terminal_row := VI_ROWS\<rparr>) = Some v" "term_ok v"
    using put_text_ok [OF row [OF u(2)] assms(2)] by blast
  then show ?thesis using u(1) assms(1) by (simp add: vi_print_status_def Let_def term_ok_def)
qed

lemma status_draws: "world_ok w \<Longrightarrow> terminated msg \<Longrightarrow> \<exists>w'. status msg w = Some w' \<and> draws w w'"
  unfolding status_def using on_screen_draws [of w "vi_print_status msg"] print_status_ok [OF world_ok_term, of w msg] by blast

lemma status_terminated [simp]: "terminated inst_str" "terminated cmd_str"
  by (simp_all add: inst_str_def cmd_str_def)

lemma count_lines_to_ok: "i + n \<le> length b \<Longrightarrow> \<exists>k. count_lines_to b i n line = Some k"
  by (induction n arbitrary: i line) (auto simp: array_get_def)

lemma vi_draw_line_ok: "term_ok t \<Longrightarrow> i + n \<le> length b \<Longrightarrow> \<exists>t'. vi_draw_line b i n t = Some t' \<and> term_ok t'"
proof (induction n arbitrary: i t)
  case (Suc n)
  let ?step = "if terminal_col t < VI_COLS then do { c \<leftarrow> array_get b i; putchar c t } else Some t"
  obtain u where "?step = Some u" "term_ok u"
    using Suc.prems putchar_ok [OF Suc.prems(1), of "b ! i"] by (cases "terminal_col t < VI_COLS") (auto simp: array_get_def)
  then show ?case using Suc.IH [of u "Suc i"] Suc.prems(2) by simp
qed simp

lemma vi_draw_rows_ok: "term_ok t \<Longrightarrow> len \<le> length b \<Longrightarrow> \<exists>t'. vi_draw_rows b len pos n t = Some t' \<and> term_ok t'"
proof (induction n arbitrary: pos t)
  case (Suc n)
  show ?case
  proof (cases "pos < len")
    case True
    obtain e where e: "vi_line_end b pos len = Some e" "pos \<le> e" "e \<le> len"
      using line_end_bound [of pos len b] True Suc.prems(2) by (auto simp: vi_line_end_def)
    obtain t1 where t1: "vi_draw_line b pos (e - pos) t = Some t1" "term_ok t1"
      using vi_draw_line_ok [OF Suc.prems(1), of pos "e - pos" b] e Suc.prems(2) by auto
    obtain t2 where t2: "putchar 10 t1 = Some t2" "term_ok t2" using putchar_ok [OF t1(2)] by blast
    obtain nl where nl: "(if e < len then do { c \<leftarrow> array_get b e; Some (c = 10) } else Some False) = Some nl"
      using Suc.prems(2) by (cases "e < len") (auto simp: array_get_def)
    then show ?thesis using True e(1) t1 t2 Suc.IH [OF t2(2) Suc.prems(2)] by simp
  next
    case False
    obtain t1 where t1: "putchar 126 t = Some t1" "term_ok t1" using putchar_ok [OF Suc.prems(1)] by blast
    obtain t2 where "putchar 10 t1 = Some t2" "term_ok t2" using putchar_ok [OF t1(2)] by blast
    then show ?thesis using False t1 Suc.IH [OF _ Suc.prems(2)] by simp
  qed
qed simp

lemma vi_position_draws:
  assumes "world_ok w" "terminated name" "length name \<le> 1024"
  shows "\<exists>w'. w_printf ''%s  Ln %u, Col %u'' [Str name, Word a, Word b] w = Some w' \<and> draws w w'"
proof -
  let ?f = "''%s  Ln %u, Col %u''" and ?args = "[Str name, Word a, Word b]"
  let ?t = "cstr name @ lit ''  Ln '' @ sprintf_u a @ lit '', Col '' @ sprintf_u b"
  have "sprintf_text (clit ?f) ?args = Some ?t" using assms(2) by (simp add: clit_def lit_def sprintf_conv_def sprintf_s_eq)
  moreover have "set (conversions (clit ?f)) \<inter> printf_only = {}" by code_simp
  moreover have "set (conversions (clit ?f)) \<inter> hex_conv = {}" by code_simp
  moreover have "length ?t \<le> 2048" using sprintf_u_length [of a] sprintf_u_length [of b] cstr_length [of name] assms(3) by (simp add: lit_def)
  ultimately have "\<exists>w'. w_printf ?f ?args w = Some w' \<and> prints w ?t w'" by (intro w_printf_prints [OF assms(1)]) simp_all
  then show ?thesis using prints_draws by blast
qed

lemma vi_draw_draws:
  assumes "vi_holds s (m, l, r)" "world_ok w" "terminated name" "length name \<le> 1024"
  shows "\<exists>w'. vi_draw name s w = Some w' \<and> draws w w'"
proof -
  have n: "vi_len s \<le> length (vi_buf s)" "0 + vi_cursor s \<le> length (vi_buf s)" using assms(1) by (auto elim!: vi_holdsE)
  obtain w1 where w1: "on_screen cmd_clear w = Some w1" "draws w w1" using clear_draws [OF assms(2)] by blast
  let ?rows = "vi_draw_rows (vi_buf s) (vi_len s) 0 VI_ROWS" and ?row = "\<lambda>t. Some (t\<lparr>terminal_col := 0, terminal_row := VI_ROWS\<rparr>)"
  obtain w2 where w2: "on_screen ?rows w1 = Some w2" "draws w1 w2"
    using on_screen_draws [OF draws_ok [OF w1(2)], of ?rows] vi_draw_rows_ok [OF world_ok_term [OF draws_ok [OF w1(2)]] n(1)] by blast
  have "\<exists>t. ?row (screen w2) = Some t \<and> term_ok t" using world_ok_term [OF draws_ok [OF w2(2)]] by (simp add: term_ok_def)
  then obtain w3 where w3: "on_screen ?row w2 = Some w3" "draws w2 w3" using on_screen_draws [OF draws_ok [OF w2(2)], of ?row] by blast
  obtain li where li: "vi_line_number (vi_buf s) (vi_cursor s) = Some li" using count_lines_to_ok [OF n(2)] by (auto simp: vi_line_number_def)
  obtain w4 where w4: "w_printf ''%s  Ln %u, Col %u'' [Str name, Word (of_nat li + 1), Word (of_nat (length (last_line l)) + 1)] w3 = Some w4" "draws w3 w4"
    using vi_position_draws [OF draws_ok [OF w3(2)] assms(3,4)] by blast
  have "draws w w4" using w1(2) w2(2) w3(2) w4(2) by (meson draws_trans)
  then show ?thesis unfolding vi_draw_def using w1(1) w2(1) w3(1) li vi_line_bounds(3) [OF assms(1)] w4(1) by simp
qed

lemma then_draw_holds:
  assumes "\<exists>s'. res = Some s' \<and> vi_holds s' d" "world_ok w" "terminated name" "length name \<le> 1024"
  shows "\<exists>s' w'. then_draw name res w = Some (True, s', w') \<and> vi_holds s' d \<and> draws w w'"
proof -
  obtain s' where s': "res = Some s'" "vi_holds s' d" using assms(1) by blast
  obtain m l r where d: "d = (m, l, r)" by (cases d) auto
  show ?thesis using vi_draw_draws [OF s'(2) [unfolded d] assms(2-4)] s' by (auto simp: then_draw_def)
qed



section \<open>Keys follow the specification\<close>

lemma vi_insert_key_holds:
  assumes h: "vi_holds s (True, l, r)" and w: "world_ok w" and n: "terminated name" "length name \<le> 1024"
    and d: "vi_doc_key c (True, l, r) = Some d"
  shows "\<exists>s' w'. vi_insert_key name c s w = Some (True, s', w') \<and> vi_holds s' d \<and> draws w w'"
proof -
  have len: "vi_len s = length l + length r" using h by (auto elim: vi_holdsE)
  consider (esc) "c = 0x1B" | (erase) "c = 0x08 \<or> c = 0x7F" | (nl) "c = 13 \<or> c = 10" | (char) "c \<notin> {0x1B, 0x08, 0x7F, 13, 10}" "c \<ge> 32"
    | (other) "c \<notin> {0x1B, 0x08, 0x7F, 13, 10}" "\<not> c \<ge> 32" by fast
  then show ?thesis
  proof cases
    case esc
    obtain w' where "status cmd_str w = Some w'" "draws w w'" using status_draws [OF w, of cmd_str] by auto
    moreover have "d = (False, l, r)" using d esc by (simp add: vi_doc_key_def)
    ultimately show ?thesis using esc vi_holds_mode [OF h] by (simp add: vi_insert_key_def)
  next
    case erase
    then have "d = (True, butlast l, r)" "vi_insert_key name c s w = then_draw name (vi_backspace s) w"
      using d by (auto simp: vi_doc_key_def vi_insert_key_def)
    then show ?thesis using then_draw_holds [OF vi_backspace_holds [OF h] w n] by simp
  next
    case nl
    let ?res = "if vi_len s + 1 < VI_BUF then vi_insert_char 10 s else Some s"
    have k: "vi_insert_key name c s w = then_draw name ?res w" using nl by (auto simp: vi_insert_key_def)
    have "d = (if length l + length r + 1 < VI_BUF then (True, l @ [10], r) else (True, l, r))"
      using d nl by (cases "length l + length r + 1 < VI_BUF") (auto simp: vi_doc_key_def)
    then have "\<exists>s'. ?res = Some s' \<and> vi_holds s' d" using vi_insert_char_holds [OF h, of 10] h len by (cases "length l + length r + 1 < VI_BUF") simp_all
    then show ?thesis unfolding k by (rule then_draw_holds [OF _ w n])
  next
    case char
    then have k: "vi_insert_key name c s w = then_draw name (vi_insert_char c s) w" by (simp add: vi_insert_key_def)
    have "d = (if length l + length r + 1 < VI_BUF then (True, l @ [c], r) else (True, l, r))"
      using d char by (cases "length l + length r + 1 < VI_BUF") (simp_all add: vi_doc_key_def)
    then show ?thesis unfolding k using then_draw_holds [OF vi_insert_char_holds [OF h] w n] by blast
  next
    case other
    then have "d = (True, l, r)" using d by (auto simp: vi_doc_key_def split: if_splits)
    then show ?thesis using other h draws_refl [OF w] by (simp add: vi_insert_key_def)
  qed
qed

lemma vi_command_key_holds:
  assumes h: "vi_holds s (False, l, r)" and w: "world_ok w" and n: "terminated name" "length name \<le> 1024"
    and d: "vi_doc_key c (False, l, r) = Some d"
  shows "\<exists>s' w'. vi_command_key stack name vn c s w = Some (True, s', w') \<and> vi_holds s' d \<and> draws w w'"
proof -
  have cur: "vi_cursor s = length l" "vi_len s = length l + length r" using h by (auto elim: vi_holdsE)
  obtain w1 where w1: "status inst_str w = Some w1" "draws w w1" using status_draws [OF w, of inst_str] by auto
  note draw = then_draw_holds [OF _ w n]
  have right: "\<exists>s'. Some (if vi_cursor s < vi_len s then s\<lparr>vi_cursor := vi_cursor s + 1\<rparr> else s) = Some s'
     \<and> vi_holds s' (if r = [] then (False, l, r) else (False, l @ [hd r], tl r))"
    using h cur vi_holds_move [OF h, of "l @ [hd r]" "tl r"] by (cases r) simp_all
  consider (i) "c = 105" | (a) "c = 97" | (o) "c = 111" | (h) "c = 104" | (l) "c = 108" | (k) "c = 107" | (j) "c = 106" | (x) "c = 120"
    | (d) "c = 100 \<or> c = 58" | (other) "c \<notin> {105, 97, 111, 104, 108, 107, 106, 120, 100, 58}" by fast
  then show ?thesis
  proof cases
    case i
    then have "d = (True, l, r)" using d by (simp add: vi_doc_key_def)
    then show ?thesis using i w1 vi_holds_mode [OF h] by (simp add: vi_command_key_def)
  next
    case a
    have "d = (if r = [] then (True, l, r) else (True, l @ [hd r], tl r))" using d a by (simp add: vi_doc_key_def)
    moreover have "vi_holds (s\<lparr>vi_cursor := if vi_cursor s < vi_len s then vi_cursor s + 1 else vi_cursor s, vi_insert := True\<rparr>) (if r = [] then (True, l, r) else (True, l @ [hd r], tl r))"
      using right vi_holds_mode by (cases r) (auto simp: cur vi_holds_def)
    ultimately show ?thesis using a w1 by (simp add: vi_command_key_def)
  next
    case o
    obtain s' where s': "vi_open_line s = Some s'" "vi_holds s' (if length l + length r + 1 < VI_BUF then (True, l @ first_line r @ [10], lines_after r) else (True, l, r))"
      using vi_open_line_holds [OF h] by blast
    have e: "d = (if length l + length r + 1 < VI_BUF then (True, l @ first_line r @ [10], lines_after r) else (True, l, r))" using d o by (simp add: vi_doc_key_def)
    obtain s2 w2 where "then_draw name (Some s') w1 = Some (True, s2, w2)" "vi_holds s2 d" "draws w1 w2"
      using then_draw_holds [of "Some s'" d, OF _ draws_ok [OF w1(2)] n] s'(2) e by auto
    then show ?thesis using o w1 s'(1) draws_trans [OF w1(2)] by (auto simp: vi_command_key_def)
  next
    case h
    have "d = (if l = [] then (False, l, r) else (False, butlast l, last l # r))" using d h by (simp add: vi_doc_key_def)
    then have "\<exists>s'. Some (if vi_cursor s > 0 then s\<lparr>vi_cursor := vi_cursor s - 1\<rparr> else s) = Some s' \<and> vi_holds s' d"
      using \<open>vi_holds s (False, l, r)\<close> cur vi_holds_move [OF \<open>vi_holds s (False, l, r)\<close>, of "butlast l" "last l # r"] by (cases "l = []") simp_all
    from draw [OF this] show ?thesis using h by (simp add: vi_command_key_def)
  next
    case l
    have "d = (if r = [] then (False, l, r) else (False, l @ [hd r], tl r))" using d l by (simp add: vi_doc_key_def)
    then show ?thesis using draw [OF right] l by (simp add: vi_command_key_def)
  next
    case k
    show ?thesis using draw [OF vi_move_up_holds [OF h d [unfolded k]]] k by (simp add: vi_command_key_def)
  next
    case j
    have "\<exists>s'. vi_move_down s = Some s' \<and> vi_holds s' d" using vi_move_down_holds [OF h] d j by auto
    from draw [OF this] show ?thesis using j by (simp add: vi_command_key_def)
  next
    case x
    obtain s' where s': "vi_delete_char s = Some s'" "vi_holds s' (False, l, tl r)" using vi_delete_char_holds [OF h] by blast
    then have "\<not> vi_cursor s' > vi_len s'" by (auto elim: vi_holdsE)
    moreover have "d = (False, l, tl r)" using d x by (simp add: vi_doc_key_def)
    ultimately have "\<exists>s'. do { s \<leftarrow> vi_delete_char s; Some (if vi_cursor s > vi_len s then s\<lparr>vi_cursor := vi_len s\<rparr> else s) } = Some s' \<and> vi_holds s' d"
      using s' by simp
    from draw [OF this] show ?thesis using x by (simp add: vi_command_key_def)
  next
    case d
    then show ?thesis using assms(5) by (auto simp: vi_doc_key_def)
  next
    case other
    then have "d = (False, l, r)" using d by (simp add: vi_doc_key_def)
    then show ?thesis using other h draws_refl [OF w] by (simp add: vi_command_key_def)
  qed
qed

lemma vi_key_holds:
  assumes "vi_holds s d" "world_ok w" "terminated name" "length name \<le> 1024" "vi_doc_key c d = Some d'"
  shows "\<exists>s' w'. vi_key stack name vn c s w = Some (True, s', w') \<and> vi_holds s' d' \<and> draws w w'"
proof -
  obtain m l r where d: "d = (m, l, r)" by (cases d) auto
  have m: "vi_insert s = m" using assms(1) d by (auto elim: vi_holdsE)
  show ?thesis
  proof (cases m)
    case True
    then show ?thesis using vi_insert_key_holds [of s l r w name c d'] assms d m by (simp add: vi_key_def)
  next
    case False
    then show ?thesis using vi_command_key_holds [of s l r w name c d'] assms d m by (simp add: vi_key_def)
  qed
qed



section \<open>Sessions\<close>

lemma vi_loop_key:
  "world_ok w \<Longrightarrow> typed w = c # cs \<Longrightarrow>
     \<exists>w1. vi_loop stack name vn s w = do { (go, s, w) \<leftarrow> vi_key stack name vn c s w1; if go then vi_loop stack name vn s w else Some (s, w) }
       \<and> world_ok w1 \<and> typed w1 = cs \<and> w_fs w1 = w_fs w"
proof (induction "pending w" arbitrary: w rule: less_induct)
  case less
  obtain x w2 where x: "w_getchar w = Some (x, w2)" "reads w x w2" using w_getchar_reads [OF less.prems(1)] less.prems(2) by auto
  show ?case
  proof (cases "x = 0")
    case True
    have "typed w2 = c # cs" "world_ok w2" "pending w2 < pending w" "w_fs w2 = w_fs w" using x(2) True less.prems(2) by (auto simp: reads_def)
    then show ?thesis using less.hyps [of w2] x(1) True by (subst vi_loop.simps) simp
  next
    case False
    then have "x = c" "typed w2 = cs" "world_ok w2" "w_fs w2 = w_fs w" using x(2) less.prems(2) by (auto simp: reads_def)
    then show ?thesis using x(1) False by (subst vi_loop.simps) auto
  qed
qed

fun vi_doc_keys :: "byte list \<Rightarrow> vi_doc \<Rightarrow> vi_doc option" where
  "vi_doc_keys [] d = Some d"
| "vi_doc_keys (c # cs) d = do { d \<leftarrow> vi_doc_key c d; vi_doc_keys cs d }"

lemma vi_loop_edits:
  "vi_holds s d \<Longrightarrow> world_ok w \<Longrightarrow> terminated name \<Longrightarrow> length name \<le> 1024 \<Longrightarrow> typed w = keys @ rest \<Longrightarrow> vi_doc_keys keys d = Some d' \<Longrightarrow>
     \<exists>s1 w1. vi_loop stack name vn s w = vi_loop stack name vn s1 w1 \<and> vi_holds s1 d' \<and> world_ok w1 \<and> typed w1 = rest \<and> w_fs w1 = w_fs w"
proof (induction keys arbitrary: s d w)
  case Nil
  then show ?case by auto
next
  case (Cons c keys)
  obtain d1 where d1: "vi_doc_key c d = Some d1" "vi_doc_keys keys d1 = Some d'" using Cons.prems(6) by (auto simp: bind_eq_Some_conv)
  obtain w1 where w1: "vi_loop stack name vn s w = do { (go, s, w) \<leftarrow> vi_key stack name vn c s w1; if go then vi_loop stack name vn s w else Some (s, w) }"
    "world_ok w1" "typed w1 = keys @ rest" "w_fs w1 = w_fs w" using vi_loop_key [OF Cons.prems(2), of c "keys @ rest" stack name vn s] Cons.prems(5) by auto
  obtain s2 w2 where w2: "vi_key stack name vn c s w1 = Some (True, s2, w2)" "vi_holds s2 d1" "draws w1 w2"
    using vi_key_holds [OF Cons.prems(1) w1(2) Cons.prems(3,4) d1(1), of stack vn] by auto
  have "typed w2 = keys @ rest" "w_fs w2 = w_fs w" using draws_typed [OF w2(3)] draws_frame [OF w2(3)] w1(3,4) by simp_all
  then show ?case using Cons.IH [OF w2(2) draws_ok [OF w2(3)] Cons.prems(3,4) _ d1(2)] w1(1) w2(1) by auto
qed

lemma vi_save_file:
  assumes "vi_holds s (m, l, r)" "array_get (vnodes_pool (w_fs w)) vn = Some n" "vn_content n = Some c" "length l + length r < length c"
  shows "vi_save vn s w = Some (w\<lparr>w_fs := (w_fs w)\<lparr>vnodes_pool := (vnodes_pool (w_fs w))
     [vn := n\<lparr>vn_content := Some (l @ r @ 0 # drop (length l + length r + 1) c), vn_size := of_nat (length l + length r)\<rparr>]\<rparr>\<rparr>)"
  using assms(1)
proof (rule vi_holdsE)
  fix z assume z: "vi_buf s = l @ r @ z" "vi_len s = length l + length r"
  let ?m = "length l + length r" and ?c = "l @ r @ 0 # drop (length l + length r + 1) c"
  have "memcpy c (vi_buf s) ?m = Some ((l @ r) @ drop ?m c)" using assms(4) z(1) by (simp add: memcpy_eq)
  moreover have "array_set ((l @ r) @ drop ?m c) ?m 0 = Some ?c"
    using assms(4) by (simp add: array_set_def list_update_append Cons_nth_drop_Suc [symmetric])
  moreover have "vn < length (vnodes_pool (w_fs w))" "vnodes_pool (w_fs w) ! vn = n" using assms(2) by (auto simp: array_get_def split: if_splits)
  ultimately show ?thesis using assms(2,3) z(2) unfolding vi_save_def by (simp add: update_node_def array_set_def)
qed

text \<open>The command line \<open>wq\<close>.\<close>

lemma vi_colon_wq:
  assumes "world_ok w" "typed w = [119, 113, 10]" "2048 \<le> length stack" "vi_holds s (m, l, r)"
    "array_get (vnodes_pool (w_fs w)) vn = Some n" "vn_content n = Some c" "length l + length r < length c"
  shows "\<exists>w'. vi_colon stack name vn s w = Some (False, s, w')
     \<and> w_fs w' = (w_fs w)\<lparr>vnodes_pool := (vnodes_pool (w_fs w))
         [vn := n\<lparr>vn_content := Some (l @ r @ 0 # drop (length l + length r + 1) c), vn_size := of_nat (length l + length r)\<rparr>]\<rparr>"
proof -
  obtain w1 where w1: "w_write (clit '':'') w = Some w1" "draws w w1" using w_write_clit [OF assms(1)] by blast
  have k: "kb_ok (w_kbd w1)" "chars_of (kb_events (w_kbd w1)) (w_kbd w1) = [119, 113] @ 10 # []"
    using draws_ok [OF w1(2)] draws_typed [OF w1(2)] assms(2) by (auto simp: world_ok_def typed_def)
  have fl: "foldl (line_step 2048) [] [119, 113] = [119, 113]" by code_simp
  have len2: "length [119, 113 :: byte] = 2" by simp
  have "\<forall>c \<in> set [119, 113 :: byte]. c \<notin> {10, 13}" by simp
  then obtain line k' where rl: "read_line stack 2048 (w_kbd w1) = Some (line, k')" "length line = length stack" "kb_ok k'"
    "take 2 line = [119, 113]" "line ! 2 = 0"
    using read_line_typed [OF k _ _ _ assms(3)] unfolding fl Let_def len2 by auto
  have "line = take 2 line @ line ! 2 # drop (Suc 2) line" using rl(2) assms(3) by (intro id_take_nth_drop) simp
  then obtain rest where line: "line = 119 # 113 # 0 # rest" using rl(4,5) by simp
  let ?w = "w1\<lparr>w_kbd := k'\<rparr>"
  have fs: "w_fs ?w = w_fs w" using draws_frame [OF w1(2)] by simp
  have ok: "world_ok (?w\<lparr>w_fs := f\<rparr>)" for f using draws_ok [OF w1(2)] rl(3) by (simp add: world_ok_def)
  have sv: "vi_save vn s ?w = Some (?w\<lparr>w_fs := (w_fs w)\<lparr>vnodes_pool := (vnodes_pool (w_fs w))
     [vn := n\<lparr>vn_content := Some (l @ r @ 0 # drop (length l + length r + 1) c), vn_size := of_nat (length l + length r)\<rparr>]\<rparr>\<rparr>)"
    using vi_save_file [OF assms(4) _ assms(6,7), of ?w vn] assms(5) fs by simp
  obtain w3 where "status (clit ''written'') (?w\<lparr>w_fs := (w_fs w)\<lparr>vnodes_pool := (vnodes_pool (w_fs w))
     [vn := n\<lparr>vn_content := Some (l @ r @ 0 # drop (length l + length r + 1) c), vn_size := of_nat (length l + length r)\<rparr>]\<rparr>\<rparr>) = Some w3"
    "draws (?w\<lparr>w_fs := (w_fs w)\<lparr>vnodes_pool := (vnodes_pool (w_fs w))
     [vn := n\<lparr>vn_content := Some (l @ r @ 0 # drop (length l + length r + 1) c), vn_size := of_nat (length l + length r)\<rparr>]\<rparr>\<rparr>) w3"
    using status_draws [OF ok, of "clit ''written''"] by auto
  moreover have "vi_is line ''w'' = Some False" "vi_is line ''wq'' = Some True" "vi_is line ''x'' = Some False" "vi_is line ''q'' = Some False" "vi_is line ''q!'' = Some False"
    unfolding line vi_is_def by (simp_all add: clit_def lit_def)
  ultimately show ?thesis using w1(1) rl(1) sv draws_frame unfolding vi_colon_def by fastforce
qed


text \<open>
  C22: A whole session of the editor: keys whose effect the specification defines and that lead to command mode, then the command line \<open>wq\<close>:
  the editor ends, the file holds the document of the specification with its terminator, and nothing else of the file system has changed.
\<close>

theorem vi_session:
  assumes "vi_holds s d" "world_ok w" "terminated name" "length name \<le> 1024" "2048 \<le> length stack"
    "typed w = keys @ [58, 119, 113, 10]" "vi_doc_keys keys d = Some (False, l, r)"
    "array_get (vnodes_pool (w_fs w)) vn = Some n" "vn_content n = Some c" "length l + length r < length c"
  shows "\<exists>s' w'. vi_loop stack name vn s w = Some (s', w') \<and> vi_holds s' (False, l, r)
     \<and> w_fs w' = (w_fs w)\<lparr>vnodes_pool := (vnodes_pool (w_fs w))
         [vn := n\<lparr>vn_content := Some (l @ r @ 0 # drop (length l + length r + 1) c), vn_size := of_nat (length l + length r)\<rparr>]\<rparr>"
proof -
  obtain s1 w1 where 1: "vi_loop stack name vn s w = vi_loop stack name vn s1 w1" "vi_holds s1 (False, l, r)" "world_ok w1"
    "typed w1 = [58, 119, 113, 10]" "w_fs w1 = w_fs w" using vi_loop_edits [OF assms(1-4,6,7)] by blast
  obtain w2 where 2: "vi_loop stack name vn s1 w1
      = do { (go, s, w) \<leftarrow> vi_key stack name vn 58 s1 w2; if go then vi_loop stack name vn s w else Some (s, w) }"
    "world_ok w2" "typed w2 = [119, 113, 10]" "w_fs w2 = w_fs w" using vi_loop_key [OF 1(3,4), of stack name vn s1] 1(5) by auto
  have "vi_insert s1 = False" using 1(2) by (auto elim: vi_holdsE)
  then have "vi_key stack name vn 58 s1 w2 = vi_colon stack name vn s1 w2" by (simp add: vi_key_def vi_command_key_def)
  then show ?thesis using vi_colon_wq [OF 2(2,3) assms(5) 1(2) _ assms(9,10), of vn name] assms(8) 1(1,2) 2(1,4) by auto
qed

definition empty_vi :: vi where
  "empty_vi = \<lparr>vi_buf = replicate 8192 0, vi_len = 0, vi_cursor = 0, vi_insert = False\<rparr>"

lemma empty_vi_holds: "vi_holds empty_vi (False, [], [])"
  by (rule vi_holdsI [of _ _ _ "replicate 8192 0"]) (simp_all add: empty_vi_def)

theorem vi_session_witness:
  "\<exists>s' w'. vi_loop (replicate 2048 0) (clit ''a'') 1 empty_vi
       (demo_typing (map Some [0x17, 0x23, 0x1C, 0x01, 0x2A, 0x27, 0xAA, 0x11, 0x10, 0x1C]) (replicate 64 0)) = Some (s', w')
     \<and> vi_holds s' (False, lit ''h\<newline>'', [])"
proof -
  let ?es = "map Some [0x17, 0x23, 0x1C, 0x01, 0x2A, 0x27, 0xAA, 0x11, 0x10, 0x1C] :: byte option list"
  let ?w = "demo_typing ?es (replicate 64 0)" and ?keys = "[105, 104, 10, 27] :: byte list"
  obtain n where n: "array_get (vnodes_pool (w_fs ?w)) 1 = Some n" "vn_content n = Some (replicate 64 0)" using demo_typing_file by blast
  have t: "typed ?w = ?keys @ [58, 119, 113, 10]" unfolding demo_typing_typed by code_simp
  have d: "vi_doc_keys ?keys (False, [], []) = Some (False, lit ''h\<newline>'', [])" by code_simp
  have f: "length (lit ''h\<newline>'') + length ([] :: byte list) < length (replicate 64 (0 :: byte))" "terminated (clit ''a'')" "length (clit ''a'') \<le> 1024"
    "2048 \<le> length (replicate 2048 (0 :: byte))" by (simp_all add: lit_def clit_def)
  show ?thesis using vi_session [OF empty_vi_holds demo_typing_ok f(2,3,4) t d n f(1)] by blast
qed

text \<open>
  Moving up on the first line crashes unless the cursor is at the start of the text: the end of the line above is position -1, and the search
  for its start reads outside the buffer.
\<close>

theorem vi_up_crash:
  assumes "vi_holds s (False, l, r)" "l \<noteq> []" "10 \<notin> set l"
  shows "vi_key stack name vn 107 s w = None"
proof -
  have "lines_before l = []" using assms(3) by (auto simp: lines_before_def)
  then have b: "vi_line_start (vi_buf s) (vi_cursor s) = Some 0" "vi_column (vi_buf s) (vi_cursor s) = Some (length (last_line l))"
    using vi_line_bounds [OF assms(1)] by simp_all
  have s: "length (vi_buf s) = 8192" "vi_cursor s \<noteq> 0" "vi_insert s = False" using assms(1,2) by (auto simp: vi_holds_def)
  moreover obtain p where "sub32 0 1 = Suc p" "p \<ge> 8192" by (simp add: sub32_def)
  ultimately have "vi_line_start (vi_buf s) (sub32 0 1) = None" by (simp add: vi_line_start_def array_get_def)
  then have "vi_move_up s = None" using b s by (simp add: vi_move_up_def)
  then show ?thesis using s(3) by (simp add: vi_key_def vi_command_key_def then_draw_def)
qed

theorem vi_up_crash_witness:
  "vi_key [] (clit ''a'') 1 107 (empty_vi\<lparr>vi_buf := 120 # replicate 8191 0, vi_len := 1, vi_cursor := 1\<rparr>) (demo_world []) = None"
proof (rule vi_up_crash)
  show "vi_holds (empty_vi\<lparr>vi_buf := 120 # replicate 8191 0, vi_len := 1, vi_cursor := 1\<rparr>) (False, [120], [])"
    by (rule vi_holdsI [of _ _ _ "replicate 8191 0"]) (simp_all add: empty_vi_def)
qed simp_all

end
