(* ===== verification/Boot.thy ===== *)
theory Boot
  imports World Interrupts
begin

text \<open>
  The start of the kernel, the rest of \<^verbatim>\<open>src/kernel/kernel.c\<close>: the stack guard, the kernel log with the command
  \<open>dmesg\<close>, the walk over the boot information and \<open>kernel_main\<close>, which initialises the components one
  after the other and leaves a kernel that serves system calls. The memory part of \<open>kernel_main\<close> is modelled on one physical memory: before paging is enabled
  an address is a physical one, afterwards it is translated.
\<close>

section \<open>The stack guard\<close>

text \<open>The addresses of the function and of the guard variable are arguments.\<close>

definition stack_canary_seed :: "addr \<Rightarrow> addr \<Rightarrow> rtc_time \<Rightarrow> u32" where
  "stack_canary_seed seed_addr guard_addr t =
     (let seed = push_bit 24 (ucast (rt_sec t)) OR push_bit 16 (ucast (rt_min t))
                 OR push_bit 8 (ucast (rt_hour t)) OR ucast (rt_day t);
          seed = seed XOR (push_bit 24 (ucast (rt_month t)) OR push_bit 16 (ucast (rt_year t))
                 OR push_bit 8 (ucast (rt_century t)) OR seed_addr);
          seed = seed XOR guard_addr;
          seed = seed XOR 0xA5A5A5A5
      in if seed = 0 then 0xDEADBEEF XOR seed_addr else seed)"

definition init_stack_canary :: "addr \<Rightarrow> addr \<Rightarrow> rtc_time \<Rightarrow> u32" where
  "init_stack_canary seed_addr guard_addr t =
     (let guard = stack_canary_seed seed_addr guard_addr t
      in if guard = 0 \<or> guard AND 0xFF = 0 then guard OR 0xA1A5A5A5 else guard)"

section \<open>The kernel log\<close>

abbreviation KERNEL_LOG_SIZE :: u32 where "KERNEL_LOG_SIZE \<equiv> 4096"

record klog =
  kernel_log_buffer :: "byte list"
  kernel_log_pos :: u32

text \<open>The loop that copies the message, with its second bound.\<close>

fun log_copy :: "byte list \<Rightarrow> klog \<Rightarrow> klog option" where
  "log_copy [] s = Some s"
| "log_copy (c # cs) s =
     (if kernel_log_pos s < KERNEL_LOG_SIZE
      then do { b \<leftarrow> array_set (kernel_log_buffer s) (unat (kernel_log_pos s)) c;
                log_copy cs (s\<lparr>kernel_log_buffer := b, kernel_log_pos := kernel_log_pos s + 1\<rparr>) }
      else Some s)"

definition kernel_log :: "byte list \<Rightarrow> klog \<Rightarrow> klog option" where
  "kernel_log msg s =
     do { n \<leftarrow> strlen msg;
          let len = (of_nat n :: u32);
          let s = (if kernel_log_pos s + len \<ge> KERNEL_LOG_SIZE then s\<lparr>kernel_log_pos := 0\<rparr> else s);
          s \<leftarrow> log_copy (take (unat len) msg) s;
          if kernel_log_pos s < KERNEL_LOG_SIZE
          then do { b \<leftarrow> array_set (kernel_log_buffer s) (unat (kernel_log_pos s)) 0;
                    Some (s\<lparr>kernel_log_buffer := b\<rparr>) }
          else Some s }"

definition get_kernel_log :: "klog \<Rightarrow> byte list" where
  "get_kernel_log s = kernel_log_buffer s"

definition cmd_dmesg :: "klog \<Rightarrow> world \<Rightarrow> (int \<times> world) option" where
  "cmd_dmesg s w =
     do { let log = get_kernel_log s;
          c \<leftarrow> array_get log 0;
          w \<leftarrow> (if c \<noteq> 0 then w_printf ''%s'' [Str log] w
                else w_printf (''dmesg: kernel log buffer is empty'' @ [CHR 0x0A]) [] w);
          Some (0, w) }"

section \<open>The boot information\<close>

text \<open>The loop over the tags, which never ends on a tag whose rounded size is 0; \<open>0\<close> is \<open>NULL\<close>.\<close>

partial_function (option) find_mmap :: "memory \<Rightarrow> addr \<Rightarrow> addr option" where
  "find_mmap m tag =
     (if load32 m tag = 0 then Some 0
      else if load32 m tag = 6 then Some tag
      else find_mmap m (tag + ((load32 m (tag + 4) + 7) AND NOT 7)))"

definition load64 :: "memory \<Rightarrow> addr \<Rightarrow> u64" where
  "load64 m a = ucast (load32 m a) OR push_bit 32 (ucast (load32 m (a + 4)))"

definition mmap_entry_at :: "memory \<Rightarrow> addr \<Rightarrow> mmap_entry" where
  "mmap_entry_at m a = \<lparr>me_addr = load64 m a, me_len = load64 m (a + 8), me_type = load32 m (a + 16)\<rparr>"

definition mmap_tag_at :: "memory \<Rightarrow> addr \<Rightarrow> mmap_tag" where
  "mmap_tag_at m a =
     (let t = \<lparr>mt_size = load32 m (a + 4), mt_entry_size = load32 m (a + 8), mt_entries = []\<rparr>
      in t\<lparr>mt_entries := map (\<lambda>i. mmap_entry_at m (a + 16 + of_nat (24 * i))) [0..<mmap_num_entries t]\<rparr>)"

section \<open>Bringing up the memory\<close>

text \<open>
  \<open>pmm_init\<close>, \<open>paging_init\<close>, \<open>heap_init\<close> and \<open>enable_paging\<close> in the order of \<open>kernel_main\<close>. Until the last
  one runs every access is physical, the headers that \<open>heap_init\<close> writes at the virtual address of the heap
  included; \<open>kh_mem\<close> and \<open>pg_mem\<close> are then the same memory, written at and above the heap start by the heap code and
  below it by the paging code. Afterwards \<open>kh_mem\<close> is the memory seen through the tables.
\<close>

definition flat_memory :: "kheap \<Rightarrow> memory" where
  "flat_memory h a = (if HEAP_START \<le> a then kh_mem h a else pg_mem (kh_paging h) a)"

definition paged_memory :: "paging \<Rightarrow> memory" where
  "paged_memory g v = pg_mem g (get_physical_address v g)"

definition boot_memory :: "mmap_tag option \<Rightarrow> kheap \<Rightarrow> kheap" where
  "boot_memory tag h =
     (let g = (kh_paging h)\<lparr>pg_pmm := pmm_init tag\<rparr>;
          g = paging_init g;
          h = heap_init (h\<lparr>kh_paging := g, kh_mem := pg_mem g\<rparr>);
          g = (kh_paging h)\<lparr>pg_mem := flat_memory h\<rparr>;
          g = enable_paging g
      in h\<lparr>kh_paging := g, kh_mem := paged_memory g\<rparr>)"


section \<open>The start of the kernel\<close>

text \<open>
  The machine: the world of the commands with the descriptor tables and the guard. The addresses and hardware the
  linker and the board provide are the fields of \<open>boot_env\<close>, with the names and images of the user programs: the
  makefile generates \<open>install_user_progs\<close> as one call of \<open>k_install\<close> for each.
\<close>

record machine = world +
  mc_gdt :: gdt_state
  mc_idt :: idt_state
  stack_chk_guard :: u32

record boot_env =
  be_cmos :: cmos
  be_isr_table :: "addr list"
  be_syscall_stub :: addr
  be_seed_addr :: addr
  be_guard_addr :: addr
  be_stack_top :: addr
  be_programs :: "(byte list \<times> byte list) list"

fun install_user_progs :: "(byte list \<times> byte list) list \<Rightarrow> fs \<Rightarrow> fs option" where
  "install_user_progs [] s = Some s"
| "install_user_progs ((name, img) # ps) s =
     do { (_, s) \<leftarrow> k_install (Some name) (Some img) (of_nat (length img)) s; install_user_progs ps s }"

text \<open>The file system allocates from the frames that are left after the memory was brought up.\<close>

definition kernel_init :: "boot_env \<Rightarrow> mmap_tag option \<Rightarrow> machine \<Rightarrow> machine option" where
  "kernel_init e tag w =
     do { let w = w\<lparr>w_heap := boot_memory tag (w_heap w)\<rparr>;
          f \<leftarrow> fs_init ((w_fs w)\<lparr>fs_pmm := pg_pmm (kh_paging (w_heap w))\<rparr>);
          g \<leftarrow> gdt_init (mc_gdt w);
          (i, t) \<leftarrow> idt_init (be_isr_table e) (be_syscall_stub e) (mc_idt w) (screen w);
          let k = keyboard_init ((w_kbd w)\<lparr>kb_term := t\<rparr>);
          now \<leftarrow> rtc_get_time (be_cmos e) 0;
          let guard = init_stack_canary (be_seed_addr e) (be_guard_addr e) now;
          let g = tss_set_kernel_stack (be_stack_top e) g;
          f \<leftarrow> install_user_progs (be_programs e) f;
          Some (w\<lparr>w_fs := f, w_kbd := k, mc_gdt := g, mc_idt := i, stack_chk_guard := guard\<rparr>) }"

fun printf_all :: "string list \<Rightarrow> 'a world_scheme \<Rightarrow> 'a world_scheme option" where
  "printf_all [] w = Some w"
| "printf_all (s # ss) w = do { w \<leftarrow> w_printf s [] w; printf_all ss w }"

definition splash_screen :: "string list" where
  "splash_screen =
     (let edge = replicate 56 (CHR 0xCD); side = [CHR 0xBA]; blank = side @ replicate 56 (CHR '' '') @ side @ ''\<newline>''
      in [''\<newline>'', [CHR 0xC9] @ edge @ [CHR 0xBB] @ ''\<newline>'',
          blank,
          side @ ''           Welcome to MYUNIXLIKEOS v1.0.0              '' @ side @ ''\<newline>'',
          blank,
          side @ ''        A minimal Unix-like OS for x86 systems         '' @ side @ ''\<newline>'',
          blank,
          side @ ''  Type 'help' for available commands                   '' @ side @ ''\<newline>'',
          side @ ''  Type 'man <command>' for command documentation       '' @ side @ ''\<newline>'',
          blank,
          [CHR 0xC8] @ edge @ [CHR 0xBC] @ ''\<newline>'', ''\<newline>''])"

text \<open>The messages; the time of day is what the system call that \<open>time\<close> makes computes.\<close>

definition boot_messages :: "boot_env \<Rightarrow> machine \<Rightarrow> machine option" where
  "boot_messages e w =
     do { let p = pg_pmm (kh_paging (w_heap w));
          let total_kb = pmm_total_pages p * 4;
          let free_kb = pmm_free_pages p * 4;
          w \<leftarrow> w_printf ''*nix IA-32 Kernel booted\<newline>'' [] w;
          w \<leftarrow> w_printf ''Total memory: %u KB\<newline>'' [Word total_kb] w;
          w \<leftarrow> w_printf ''Free memory: %u KB\<newline>'' [Word free_kb] w;
          t \<leftarrow> clock_realtime (be_cmos e) 0;
          bt \<leftarrow> localtime_r (Some t) True;
          let ok = (t \<noteq> - 1 \<and> (case bt of None \<Rightarrow> False
                     | Some b \<Rightarrow> 0 \<le> tm_wday b \<and> tm_wday b < 7 \<and> 0 \<le> tm_mon b \<and> tm_mon b < 12));
          w \<leftarrow> w_printf (if ok then ''TIME OK\<newline>'' else ''UTC time unavailable\<newline>'') [] w;
          printf_all splash_screen w }"

text \<open>With a wrong magic number or without boot information the processor halts.\<close>

datatype boot_result = Halted machine | Shell_started machine

definition kernel_main :: "boot_env \<Rightarrow> u32 \<Rightarrow> addr \<Rightarrow> machine \<Rightarrow> boot_result option" where
  "kernel_main e magic mbi w =
     (let w = w\<lparr>w_kbd := (w_kbd w)\<lparr>kb_term := serial_init (screen w)\<rparr>\<rparr>
      in if magic \<noteq> 0x36D76289 \<or> mbi = 0 then Some (Halted w)
         else do { let m = pg_mem (kh_paging (w_heap w));
                   tag \<leftarrow> find_mmap m (mbi + 8);
                   w \<leftarrow> kernel_init e (if tag = 0 then None else Some (mmap_tag_at m tag)) w;
                   w \<leftarrow> boot_messages e w;
                   Some (Shell_started w) })"

section \<open>The log as a text\<close>

text \<open>The log holds \<open>t\<close>: the text stands at the start of the buffer and is terminated there.\<close>

definition log_holds :: "klog \<Rightarrow> byte list \<Rightarrow> bool" where
  "log_holds s t \<longleftrightarrow> length (kernel_log_buffer s) = 4096 \<and> unat (kernel_log_pos s) = length t \<and> length t < 4096
     \<and> (\<exists>r. kernel_log_buffer s = t @ 0 # r) \<and> 0 \<notin> set t"

text \<open>What one message makes of the text: a message that does not fit behind it replaces it.\<close>

definition log_text :: "byte list \<Rightarrow> byte list \<Rightarrow> byte list" where
  "log_text t msg = (if length t + length (cstr msg) \<ge> 4096 then cstr msg else t @ cstr msg)"

fun log_all :: "byte list list \<Rightarrow> klog \<Rightarrow> klog option" where
  "log_all [] s = Some s"
| "log_all (msg # ms) s = do { s \<leftarrow> kernel_log msg s; log_all ms s }"

lemma u32_step: "unat p < 4096 \<Longrightarrow> unat (p + 1 :: u32) = Suc (unat p)"
  by (simp add: unat_word_ariths)

lemma log_copy_eq:
  "unat (kernel_log_pos s) + length cs < 4096 \<Longrightarrow> length (kernel_log_buffer s) = 4096 \<Longrightarrow>
   kernel_log_buffer s = a @ b \<Longrightarrow> length a = unat (kernel_log_pos s) \<Longrightarrow>
   \<exists>s'. log_copy cs s = Some s' \<and> unat (kernel_log_pos s') = unat (kernel_log_pos s) + length cs
     \<and> kernel_log_buffer s' = a @ cs @ drop (length cs) b"
proof (induction cs arbitrary: s a b)
  case (Cons c cs)
  obtain x y where b: "b = x # y" using Cons.prems by (cases b) auto
  let ?s = "s\<lparr>kernel_log_buffer := (a @ [c]) @ y, kernel_log_pos := kernel_log_pos s + 1\<rparr>"
  have p: "unat (kernel_log_pos s + 1) = Suc (unat (kernel_log_pos s))" using Cons.prems(1) by (intro u32_step) simp
  have "array_set (kernel_log_buffer s) (unat (kernel_log_pos s)) c = Some ((a @ [c]) @ y)"
    using Cons.prems(3) Cons.prems(4) [symmetric] by (simp add: array_set_def b)
  then have "log_copy (c # cs) s = log_copy cs ?s" using Cons.prems(1) by (simp add: word_less_nat_alt)
  moreover have "\<exists>s'. log_copy cs ?s = Some s' \<and> unat (kernel_log_pos s') = unat (kernel_log_pos ?s) + length cs
      \<and> kernel_log_buffer s' = (a @ [c]) @ cs @ drop (length cs) y"
  proof (rule Cons.IH)
    show "unat (kernel_log_pos ?s) + length cs < 4096" using Cons.prems(1) p by simp
    show "length (kernel_log_buffer ?s) = 4096" using Cons.prems(2,3) b by simp
    show "length (a @ [c]) = unat (kernel_log_pos ?s)" using Cons.prems(4) p by simp
  qed simp
  ultimately show ?case using p b by simp
qed simp

lemma kernel_log_holds:
  assumes "log_holds s t" "terminated msg" "length (cstr msg) < 4096"
  shows "\<exists>s'. kernel_log msg s = Some s' \<and> log_holds s' (log_text t msg)"
proof -
  let ?c = "cstr msg" and ?keep = "length t + length (cstr msg) < 4096"
  obtain r where s: "length (kernel_log_buffer s) = 4096" "unat (kernel_log_pos s) = length t" "length t < 4096"
    "kernel_log_buffer s = t @ 0 # r" "0 \<notin> set t" using assms(1) by (auto simp: log_holds_def)
  define a where "a = (if ?keep then t else [])"
  define b where "b = (if ?keep then 0 # r else kernel_log_buffer s)"
  define s1 where "s1 = (if ?keep then s else s\<lparr>kernel_log_pos := 0\<rparr>)"
  have l: "unat (of_nat (length ?c) :: u32) = length ?c" using assms(3) by (intro unat_u32_of_nat) simp
  have t: "take (length ?c) msg = ?c" by (simp add: cstr_def takeWhile_eq_take [symmetric])
  have "unat (kernel_log_pos s + of_nat (length ?c)) = length t + length ?c"
    using s(2,3) assms(3) l by (simp add: unat_word_ariths)
  then have w: "kernel_log_pos s + of_nat (length ?c) \<ge> KERNEL_LOG_SIZE \<longleftrightarrow> \<not> ?keep" by (simp add: word_le_nat_alt not_less)
  have a: "length a = unat (kernel_log_pos s1)" "length (kernel_log_buffer s1) = 4096" "kernel_log_buffer s1 = a @ b"
    "unat (kernel_log_pos s1) + length ?c < 4096" "a @ ?c = log_text t msg"
    using s assms(3) by (auto simp: a_def b_def s1_def log_text_def)
  obtain s2 where s2: "log_copy ?c s1 = Some s2" "unat (kernel_log_pos s2) = length (a @ ?c)"
    "kernel_log_buffer s2 = a @ ?c @ drop (length ?c) b"
    using log_copy_eq [OF a(4,2,3,1)] a(1) by auto
  have "length ?c < length b" using a(2-4) a(1) [symmetric] by (simp add: a(3))
  then obtain x y where y: "drop (length ?c) b = x # y" by (metis Cons_nth_drop_Suc)
  have p: "kernel_log_pos s2 < KERNEL_LOG_SIZE" using s2(2) a(1,4) by (simp add: word_less_nat_alt)
  have z: "array_set (kernel_log_buffer s2) (unat (kernel_log_pos s2)) 0 = Some ((a @ ?c) @ 0 # y)"
    by (simp add: array_set_def s2(2,3) y list_update_append)
  have e: "kernel_log msg s = Some (s2\<lparr>kernel_log_buffer := (a @ ?c) @ 0 # y\<rparr>)"
    using assms(2) w s2(1) p z by (cases ?keep) (simp_all add: kernel_log_def strlen_eq Let_def l t s1_def)
  have "length ((a @ ?c) @ 0 # y) = 4096" using a(2,3) y \<open>length ?c < length b\<close>
    by (metis (no_types, lifting) append_assoc append_take_drop_id length_append length_Cons length_drop length_take min.absorb2 less_imp_le)
  then have "log_holds (s2\<lparr>kernel_log_buffer := (a @ ?c) @ 0 # y\<rparr>) (a @ ?c)"
    using s2(2) a(1,4) s(5) by (auto simp: log_holds_def a_def)
  with e show ?thesis unfolding a(5) by blast
qed

lemma log_all_holds:
  "log_holds s t \<Longrightarrow> list_all (\<lambda>m. terminated m \<and> length (cstr m) < 4096) ms \<Longrightarrow>
     \<exists>s'. log_all ms s = Some s' \<and> log_holds s' (foldl log_text t ms)"
proof (induction ms arbitrary: s t)
  case (Cons m ms)
  then obtain s1 where "kernel_log m s = Some s1" "log_holds s1 (log_text t m)" using kernel_log_holds by force
  with Cons.IH [of s1 "log_text t m"] Cons.prems(2) show ?case by simp
qed simp


lemma print_string:
  assumes "world_ok w" "terminated s" "length (cstr s) \<le> 2048"
  shows "\<exists>w'. w_printf ''%s'' [Str s] w = Some w' \<and> prints w (cstr s) w'"
proof (rule w_printf_prints [OF assms(1)])
  show "sprintf_text (clit ''%s'') [Str s] = Some (cstr s)"
    using assms(2) by (simp add: clit_def lit_def sprintf_conv_def sprintf_s_eq)
  show "set (conversions (clit ''%s'')) \<inter> printf_only = {}" by code_simp
  show "set (conversions (clit ''%s'')) \<inter> hex_conv = {} \<or> nonneg_words [Str s]" by (simp add: nonneg_words_def)
qed (use assms(3) in simp)

lemma log_holds_reads:
  assumes "log_holds s t"
  shows "cstr (get_kernel_log s) = t" "terminated (get_kernel_log s)"
    and "array_get (get_kernel_log s) 0 = Some (if t = [] then 0 else hd t)"
  using assms by (auto simp: log_holds_def get_kernel_log_def cstr_append_terminated terminated_def array_get_def hd_append nth_append hd_conv_nth)

section \<open>The walk over the tags\<close>

text \<open>Memory holds the tags \<open>ts\<close>, types and sizes, from \<open>a\<close> on, and then the end tag.\<close>

fun tags_at :: "memory \<Rightarrow> addr \<Rightarrow> (u32 \<times> u32) list \<Rightarrow> bool" where
  "tags_at m a [] \<longleftrightarrow> load32 m a = 0"
| "tags_at m a ((ty, sz) # ts) \<longleftrightarrow> ty \<noteq> 0 \<and> load32 m a = ty \<and> load32 m (a + 4) = sz
     \<and> tags_at m (a + ((sz + 7) AND NOT 7)) ts"

text \<open>The address of the first memory map among them.\<close>

fun first_mmap :: "addr \<Rightarrow> (u32 \<times> u32) list \<Rightarrow> addr" where
  "first_mmap a [] = 0"
| "first_mmap a ((ty, sz) # ts) = (if ty = 6 then a else first_mmap (a + ((sz + 7) AND NOT 7)) ts)"

lemma find_mmap_tags: "tags_at m a ts \<Longrightarrow> find_mmap m a = Some (first_mmap a ts)"
  by (induction a ts rule: first_mmap.induct) (auto simp: find_mmap.simps)

text \<open>A tag whose size rounds to 0 is never left.\<close>

lemma find_mmap_stuck_aux:
  assumes "find_mmap m a = Some r"
  shows "load32 m a = 0 \<or> load32 m a = 6 \<or> (load32 m (a + 4) + 7) AND NOT 7 \<noteq> 0"
proof (rule find_mmap.raw_induct
    [where P = "\<lambda>m a r. load32 m a = 0 \<or> load32 m a = 6 \<or> (load32 m (a + 4) + 7) AND NOT 7 \<noteq> 0", OF _ assms])
  fix f m a r
  assume ih: "\<And>m a r. f m a = Some r \<Longrightarrow> load32 m a = 0 \<or> load32 m a = 6 \<or> (load32 m (a + 4) + 7) AND NOT 7 \<noteq> 0"
    and f: "(if load32 m a = 0 then Some 0 else if load32 m a = 6 then Some a
             else f m (a + ((load32 m (a + 4) + 7) AND NOT 7))) = Some r"
  show "load32 m a = 0 \<or> load32 m a = 6 \<or> (load32 m (a + 4) + 7) AND NOT 7 \<noteq> 0"
  proof (rule ccontr)
    assume n: "\<not> (load32 m a = 0 \<or> load32 m a = 6 \<or> (load32 m (a + 4) + 7) AND NOT 7 \<noteq> 0)"
    then have "a + ((load32 m (a + 4) + 7) AND NOT 7) = a" by (metis add_0_right)
    with n f have "f m a = Some r" by metis
    from ih [OF this] n show False by contradiction
  qed
qed

lemma find_mmap_stuck:
  assumes "load32 m a \<notin> {0, 6}" "(load32 m (a + 4) + 7) AND NOT 7 = 0"
  shows "find_mmap m a = None"
  using find_mmap_stuck_aux [of m a] assms by (cases "find_mmap m a") auto


section \<open>The memory after the start\<close>

text \<open>Initialising paging moves no frame.\<close>

lemma alloc_frames: "all_frames (snd (pmm_alloc_page p)) = all_frames p"
  by (simp add: pmm_alloc_page_def all_frames_def page_addr_def Let_def split: option.splits)

lemma alloc_table_frames: "alloc_page_table s = (t, s') \<Longrightarrow> all_frames (pg_pmm s') = all_frames (pg_pmm s)"
proof -
  assume t: "alloc_page_table s = (t, s')"
  obtain q p where a: "pmm_alloc_page (pg_pmm s) = (q, p)" by fastforce
  have "pg_pmm s' = p" using t by (cases "q = 0") (auto simp: alloc_page_table_def a)
  with alloc_frames [of "pg_pmm s"] a show ?thesis by simp
qed

lemma identity_map_frames: "identity_map i n s = (b, s') \<Longrightarrow> all_frames (pg_pmm s') = all_frames (pg_pmm s)"
proof (induction n arbitrary: i s)
  case (Suc n)
  obtain t s1 where a: "alloc_page_table s = (t, s1)" by fastforce
  note f = alloc_table_frames [OF a]
  show ?case
  proof (cases "t = 0")
    case True
    then have "pg_pmm s' = pg_pmm s1" using Suc.prems a by auto
    with f show ?thesis by simp
  next
    case False
    define s3 where "s3 = (set_pde i (t OR PAGE_PRESENT OR PAGE_WRITE) (s1\<lparr>pg_mem := fill_table t (of_nat i) 0 1024 (pg_mem s1)\<rparr>))
      \<lparr>kernel_page_tables := (kernel_page_tables s1)[i := t]\<rparr>"
    have "identity_map (Suc i) n s3 = (b, s')" using Suc.prems a False by (simp add: Let_def s3_def set_pde_def)
    from Suc.IH [OF this] f show ?thesis by (simp add: s3_def set_pde_def)
  qed
qed simp

lemma heap_tables_frames: "all_frames (pg_pmm (heap_tables a n s)) = all_frames (pg_pmm s)"
proof (induction n arbitrary: a s)
  case (Suc n)
  obtain t s1 where "alloc_page_table s = (t, s1)" by fastforce
  with alloc_table_frames [OF this] show ?case by (simp add: Let_def Suc set_pde_def)
qed simp

lemma paging_init_frames: "all_frames (pg_pmm (paging_init s)) = all_frames (pg_pmm s)"
  using alloc_frames [of "pg_pmm s"]
  by (auto simp: paging_init_def Let_def heap_tables_frames split: prod.splits dest!: identity_map_frames)

text \<open>The managed memory ends below the address of the heap.\<close>

definition low_memory :: "pmm \<Rightarrow> bool" where
  "low_memory p \<longleftrightarrow> unat (pmm_memory_start p) + total_pages p * 4096 \<le> 0xC0000000"

lemma low_frame:
  assumes "pmm_ok p" "low_memory p" "f \<in> all_frames p"
  shows "unat f + 4096 \<le> 0xC0000000"
proof -
  obtain i where i: "i < total_pages p" "f = page_addr p i" using assms(3) by (auto simp: all_frames_def)
  then have "Suc i * 4096 \<le> total_pages p * 4096" by (intro mult_le_mono1) simp
  with unat_page_addr [OF assms(1), of i] i assms(2) show ?thesis by (simp add: low_memory_def)
qed

lemma load32_flat:
  assumes "unat a + 4 \<le> 0xC0000000"
  shows "load32 (flat_memory h) a = load32 (pg_mem (kh_paging h)) a"
proof -
  have "\<not> HEAP_START \<le> a + of_nat k" if "k < 4" for k
  proof -
    have "unat (a + of_nat k) = unat a + k" using assms that by (simp add: unat_word_ariths unat_of_nat)
    with assms that show ?thesis by (simp add: word_le_nat_alt)
  qed
  from this [of 0] this [of 1] this [of 2] this [of 3] show ?thesis by (simp add: load32_def flat_memory_def)
qed

lemma load32_flat_entry:
  assumes "unat f + 4096 \<le> 0xC0000000" "i < 1024"
  shows "load32 (flat_memory h) (entry_addr f i) = load32 (pg_mem (kh_paging h)) (entry_addr f i)"
proof (rule load32_flat)
  have "unat (entry_addr f i) = unat f + 4 * i"
    using assms by (simp add: entry_addr_def unat_word_ariths unat_of_nat)
  with assms show "unat (entry_addr f i) + 4 \<le> 0xC0000000" by simp
qed

text \<open>Putting the writes of the heap code into the physical memory changes no translation.\<close>

lemma flat_translation:
  assumes ok: "paging_ok (kh_paging h)" and low: "\<forall>f \<in> all_frames (pg_pmm (kh_paging h)). unat f + 4096 \<le> 0xC0000000"
  defines "g \<equiv> (kh_paging h)\<lparr>pg_mem := flat_memory h\<rparr>"
  shows "paging_ok g" "get_physical_address v g = get_physical_address v (kh_paging h)"
proof -
  have u: "unat f + 4096 \<le> 0xC0000000" if "f \<in> used_frames (pg_pmm (kh_paging h))" for f
    using low used_subset_all that by blast
  have d: "pde g i = pde (kh_paging h) i" if "i < 1024" for i
    using load32_flat_entry [OF u [OF paging_okD(3) [OF ok]] that] by (simp add: pde_def g_def)
  then show "paging_ok g" using ok by (simp add: paging_ok_def g_def pde_present_def table_of_def)
  have "pte g i j = pte (kh_paging h) i j" if "i < 1024" "j < 1024" "pde_present (kh_paging h) i" for i j
    using load32_flat_entry [OF u [OF conjunct1 [OF paging_okD(4) [OF ok that(1,3)]]] that(2)] d [OF that(1)]
    by (simp add: pte_def table_of_def) (simp add: g_def)
  then show "get_physical_address v g = get_physical_address v (kh_paging h)"
    using d by (auto simp: get_physical_address_pte pde_present_def)
qed


text \<open>The first page of the heap: a frame taken from the allocator and entered into the tables, nothing else.\<close>

lemma heap_init_paging:
  assumes "pmm_alloc_page (pg_pmm (kh_paging h)) = (f, p)" "f \<noteq> 0"
  shows "kh_paging (heap_init h) = map_page HEAP_START f 3 ((kh_paging h)\<lparr>pg_pmm := p\<rparr>)"
    and "heap_pages (heap_init h) = HEAP_START" "kh_out (heap_init h) = kh_out h"
proof -
  have "(1 OR 2 :: u32) = 3" by simp
  then show "kh_paging (heap_init h) = map_page HEAP_START f 3 ((kh_paging h)\<lparr>pg_pmm := p\<rparr>)"
    "heap_pages (heap_init h) = HEAP_START" "kh_out (heap_init h) = kh_out h"
    using assms by (simp_all add: heap_init_def heap_alloc_page_def Let_def)
qed

lemma low_offset: "k < 4 \<Longrightarrow> (HEAP_START + of_nat k) AND 0xFFF = of_nat k"
  by (auto simp: less_Suc_eq numeral_eq_Suc)

lemma paged_word:
  assumes "\<And>k. k < 4 \<Longrightarrow> get_physical_address (v + of_nat k) g = f + of_nat k"
  shows "load32 (paged_memory g) v = load32 (pg_mem g) f"
  using assms [of 0] assms [of 1] assms [of 2] assms [of 3] by (simp add: load32_def paged_memory_def)

text \<open>Switching paging on changes no table, and neither does another state of the frame allocator.\<close>

lemma enable_paging_same [simp]:
  "paging_ok (enable_paging g) = paging_ok g" "get_physical_address v (enable_paging g) = get_physical_address v g"
  "pg_mem (enable_paging g) = pg_mem g"
  by (simp_all add: enable_paging_def paging_ok_def get_physical_address_def pde_present_def pde_def table_of_def)

lemma pmm_update_same [simp]:
  "pde_present (g\<lparr>pg_pmm := p\<rparr>) i = pde_present g i" "table_of (g\<lparr>pg_pmm := p\<rparr>) i = table_of g i"
  "get_physical_address v (g\<lparr>pg_pmm := p\<rparr>) = get_physical_address v g"
  by (simp_all add: get_physical_address_def pde_present_def pde_def table_of_def)

lemma heap_start_index [simp]: "pd_index HEAP_START = 768" "pt_index HEAP_START = 0"
  by (simp_all add: index_eq)

text \<open>The tables after the first page of the heap was entered; its frame still holds the zeros of unused memory.\<close>

lemma first_heap_page:
  assumes t: "tables_are P 4 g" "{..<4} \<subseteq> P" "768 \<in> P" and c: "free_count g > 0"
  obtains f p where "pmm_alloc_page (pg_pmm g) = (f, p)" "f \<noteq> 0" "f \<in> all_frames (pg_pmm g)" "page_aligned f"
    "paging_ok (map_page HEAP_START f 3 (g\<lparr>pg_pmm := p\<rparr>))"
    "all_frames (pg_pmm (map_page HEAP_START f 3 (g\<lparr>pg_pmm := p\<rparr>))) = all_frames (pg_pmm g)"
    "\<And>v. get_physical_address v (map_page HEAP_START f 3 (g\<lparr>pg_pmm := p\<rparr>))
        = (if v < 0x1000000 then v else if same_page HEAP_START v then f + (v AND 0xFFF) else 0)"
    "load32 (pg_mem (map_page HEAP_START f 3 (g\<lparr>pg_pmm := p\<rparr>))) (entry_addr f 0) = 0"
proof -
  have gok: "paging_ok g" and gz: "zero_free g" and pr: "pde_present g 768" using t by (simp_all add: tables_are_def)
  obtain f p where a: "pmm_alloc_page (pg_pmm g) = (f, p)" by fastforce
  have "used_frames (pg_pmm g) \<noteq> all_frames (pg_pmm g)" using c by (auto simp: free_count_def)
  then have f: "f \<noteq> 0" using pa.alloc_succeeds [OF paging_okD(1) [OF gok]] a by simp
  note al = pa.alloc_page [OF paging_okD(1) [OF gok] a f]
  have fa: "page_aligned f" using frame_aligned [OF paging_okD(1,2) [OF gok]] al by blast
  let ?g = "g\<lparr>pg_pmm := p\<rparr>"
  have "pmm_memory_start p = pmm_memory_start (pg_pmm g)" using alloc_memory_start [of "pg_pmm g"] a by simp
  then have ok: "paging_ok ?g" using gok al by (simp add: paging_ok_def)
  have "ensure_table 768 3 ?g = (True, ?g)" using pr by (simp add: ensure_table_def)
  then have mp: "map_page HEAP_START f 3 ?g = set_pte 768 0 ((f AND FRAME_MASK) OR 3) ?g" by (simp add: map_page_eq)
  have tr: "get_physical_address v (map_page HEAP_START f 3 ?g)
      = (if v < 0x1000000 then v else if same_page HEAP_START v then f + (v AND 0xFFF) else 0)" for v
  proof (cases "same_page HEAP_START v")
    case True
    then have "pd_index v = 768" by (simp add: same_page_index)
    then have "\<not> v < 0x1000000" using pd_index_low [of v] by simp
    moreover have "can_map HEAP_START ?g" using pr by (simp add: can_map_def)
    moreover have "f AND FRAME_MASK = f" using entry_frame [OF fa, of 0] by (simp add: flag_bits_def)
    ultimately show ?thesis using map_page_same [OF ok _ _ _ True, of 3 f] True by (simp add: flag_bits_def)
  next
    case False
    have "get_physical_address v g = (if v < 0x1000000 then v else 0)"
      unfolding tables_are_get [OF t(1)] using pd_index_low [of v] t(2) by auto
    then show ?thesis using map_page_other [OF ok False, of f 3] False pr by (cases "pd_index v = 768") auto
  qed
  have "table_of g 768 \<in> used_frames (pg_pmm g)" "page_aligned (table_of g 768)"
    using paging_okD(4) [OF gok, of 768] paging_aligned(3) [OF gok, of 768] pr by simp_all
  then have "load32 (pg_mem (map_page HEAP_START f 3 ?g)) (entry_addr f 0) = load32 (pg_mem g) (entry_addr f 0)"
    using fa al by (auto simp: mp set_pte_def)
  also have "\<dots> = 0" using gz al by (simp add: zero_free_def)
  finally show thesis using that [OF a f _ fa map_page_ok [OF ok] _ tr] al by (simp add: mp set_pte_def)
qed

lemma boot_memory_paging:
  assumes ok: "pmm_ok (pmm_init tag)" "page_aligned (pmm_memory_start (pmm_init tag))" "low_memory (pmm_init tag)"
    and z: "zero_free ((kh_paging h)\<lparr>pg_pmm := pmm_init tag\<rparr>)"
    and n: "70 \<le> free_count ((kh_paging h)\<lparr>pg_pmm := pmm_init tag\<rparr>)"
  obtains f where "f \<in> all_frames (pmm_init tag)" "paging_ok (kh_paging (boot_memory tag h))"
    "\<And>v. get_physical_address v (kh_paging (boot_memory tag h))
        = (if v < 0x1000000 then v else if same_page HEAP_START v then f + (v AND 0xFFF) else 0)"
    "load32 (pg_mem (kh_paging (boot_memory tag h))) f = 0"
    "heap_pages (boot_memory tag h) = HEAP_START" "kh_out (boot_memory tag h) = kh_out h"
    "kh_mem (boot_memory tag h) = paged_memory (kh_paging (boot_memory tag h))"
proof -
  define g0 where "g0 = (kh_paging h)\<lparr>pg_pmm := pmm_init tag\<rparr>"
  define g where "g = paging_init g0"
  have r: "pmm_ok (pg_pmm g0)" "page_aligned (pmm_memory_start (pg_pmm g0))" "zero_free g0" "69 \<le> free_count g0"
    using assms by (simp_all add: g0_def)
  note t = paging_init_state [OF r, folded g_def]
  have fr: "all_frames (pg_pmm g) = all_frames (pmm_init tag)" by (simp add: g_def paging_init_frames g0_def)
  have low: "\<forall>f \<in> all_frames (pg_pmm g). unat f + 4096 \<le> 0xC0000000" using low_frame [OF ok(1,3)] by (simp add: fr)
  have c: "free_count g > 0" using t n by (simp add: g0_def)
  obtain f p where f: "pmm_alloc_page (pg_pmm g) = (f, p)" "f \<noteq> 0" "f \<in> all_frames (pg_pmm g)" "page_aligned f"
    and m: "paging_ok (map_page HEAP_START f 3 (g\<lparr>pg_pmm := p\<rparr>))"
      "all_frames (pg_pmm (map_page HEAP_START f 3 (g\<lparr>pg_pmm := p\<rparr>))) = all_frames (pg_pmm g)"
      "\<And>v. get_physical_address v (map_page HEAP_START f 3 (g\<lparr>pg_pmm := p\<rparr>))
        = (if v < 0x1000000 then v else if same_page HEAP_START v then f + (v AND 0xFFF) else 0)"
      "load32 (pg_mem (map_page HEAP_START f 3 (g\<lparr>pg_pmm := p\<rparr>))) (entry_addr f 0) = 0"
    using first_heap_page [OF t [THEN conjunct1] _ _ c] by auto
  define h1 where "h1 = heap_init (h\<lparr>kh_paging := g, kh_mem := pg_mem g\<rparr>)"
  have h1: "kh_paging h1 = map_page HEAP_START f 3 (g\<lparr>pg_pmm := p\<rparr>)" "heap_pages h1 = HEAP_START" "kh_out h1 = kh_out h"
    using heap_init_paging [of "h\<lparr>kh_paging := g, kh_mem := pg_mem g\<rparr>" f p] f by (simp_all add: h1_def)
  define gp where "gp = enable_paging ((kh_paging h1)\<lparr>pg_mem := flat_memory h1\<rparr>)"
  have e: "boot_memory tag h = h1\<lparr>kh_paging := gp, kh_mem := paged_memory gp\<rparr>"
    by (simp add: boot_memory_def Let_def gp_def h1_def g_def g0_def)
  have "\<forall>f \<in> all_frames (pg_pmm (kh_paging h1)). unat f + 4096 \<le> 0xC0000000" using low by (simp add: h1 m(2))
  note fl = flat_translation [OF m(1) [folded h1(1)] this]
  have gp: "paging_ok gp" "get_physical_address v gp = get_physical_address v (kh_paging h1)" for v
    using fl by (simp_all add: gp_def)
  have "load32 (pg_mem gp) (entry_addr f 0) = 0"
    using load32_flat_entry [of f 0 h1] low f(3) m(4) by (simp add: gp_def h1)
  then have "load32 (pg_mem gp) f = 0" by (simp add: entry_addr_def)
  then show thesis using that [of f] gp m(3) h1 f(3) fr by (simp add: e)
qed


lemma boot_memory_enabled:
  "pg_cr3 (kh_paging (boot_memory tag h)) = kernel_page_directory (kh_paging (boot_memory tag h))"
  "bit (pg_cr0 (kh_paging (boot_memory tag h))) 31"
proof -
  have "bit (0x80000000 :: u32) 31" by (simp add: bit_iff_odd)
  then show "pg_cr3 (kh_paging (boot_memory tag h)) = kernel_page_directory (kh_paging (boot_memory tag h))"
    "bit (pg_cr0 (kh_paging (boot_memory tag h))) 31"
    by (simp_all add: boot_memory_def Let_def enable_paging_def bit_or_iff)
qed

text \<open>
  What the memory map and the physical memory have to provide: the managed region is aligned and ends below the
  heap addresses, 70 frames are free, and the free frames are zero.
\<close>

definition memory_ready :: "mmap_tag option \<Rightarrow> paging \<Rightarrow> bool" where
  "memory_ready tag g \<longleftrightarrow> pmm_ok (pmm_init tag) \<and> page_aligned (pmm_memory_start (pmm_init tag))
     \<and> low_memory (pmm_init tag) \<and> zero_free (g\<lparr>pg_pmm := pmm_init tag\<rparr>) \<and> 70 \<le> free_count (g\<lparr>pg_pmm := pmm_init tag\<rparr>)"

lemma heap_page_unmarked:
  assumes "memory_ready tag (kh_paging h)"
  shows "load32 (kh_mem (boot_memory tag h)) HEAP_START = 0" "heap_pages (boot_memory tag h) = HEAP_START"
    and "kh_out (boot_memory tag h) = kh_out h"
proof -
  let ?b = "boot_memory tag h"
  obtain f where f: "\<And>v. get_physical_address v (kh_paging ?b)
        = (if v < 0x1000000 then v else if same_page HEAP_START v then f + (v AND 0xFFF) else 0)"
    "load32 (pg_mem (kh_paging ?b)) f = 0" "heap_pages ?b = HEAP_START" "kh_out ?b = kh_out h"
    "kh_mem ?b = paged_memory (kh_paging ?b)"
    using assms boot_memory_paging [of tag h] unfolding memory_ready_def by metis
  have "get_physical_address (HEAP_START + of_nat k) (kh_paging ?b) = f + of_nat k" if "k < 4" for k
  proof -
    have "unat (HEAP_START + of_nat k) = 0xC0000000 + k" using that by (simp add: unat_word_ariths unat_of_nat)
    moreover have "(0xC0000000 + k) div 4096 = 786432" using that by simp
    ultimately have "same_page HEAP_START (HEAP_START + of_nat k)" "\<not> HEAP_START + of_nat k < 0x1000000"
      by (simp_all add: same_page_index index_eq word_less_nat_alt)
    then show ?thesis by (simp add: f(1) low_offset [OF that])
  qed
  from paged_word [OF this] f(2,5) show "load32 (kh_mem ?b) HEAP_START = 0" by simp
  show "heap_pages ?b = HEAP_START" "kh_out ?b = kh_out h" by fact+
qed

section \<open>Messages\<close>

definition plain_text :: "string \<Rightarrow> bool" where
  "plain_text s \<longleftrightarrow> list_all (\<lambda>c. of_char c \<noteq> (0 :: byte) \<and> of_char c \<noteq> chr CHR ''%'') s \<and> length s \<le> 2048"

lemma conversions_plain:
  "list_all (\<lambda>c. of_char c \<noteq> (0 :: byte) \<and> of_char c \<noteq> chr CHR ''%'') s \<Longrightarrow> conversions (lit s @ f) = conversions f"
  by (induction s) (auto simp: lit_def)

lemma print_plain:
  assumes "world_ok w" "plain_text s"
  shows "\<exists>w'. w_printf s args w = Some w' \<and> prints w (lit s) w'"
proof (rule w_printf_prints [OF assms(1)])
  have c: "clit s = lit s @ [0]" by (simp add: clit_def)
  have p: "list_all (\<lambda>c. of_char c \<noteq> (0 :: byte) \<and> of_char c \<noteq> chr CHR ''%'') s" using assms(2) by (simp add: plain_text_def)
  have k: "conversions (clit s) = []" unfolding c conversions_plain [OF p] by simp
  show "sprintf_text (clit s) args = Some (lit s)" unfolding c sprintf_text_lit [OF p] by simp
  show "set (conversions (clit s)) \<inter> printf_only = {}" "set (conversions (clit s)) \<inter> hex_conv = {} \<or> nonneg_words args"
    by (simp_all add: k)
  show "length (lit s) \<le> 2048" using assms(2) by (simp add: plain_text_def lit_def)
qed

lemma printf_all_prints:
  "world_ok w \<Longrightarrow> list_all plain_text ss \<Longrightarrow> \<exists>w'. printf_all ss w = Some w' \<and> prints w (lit (concat ss)) w'"
proof (induction ss arbitrary: w)
  case Nil
  then show ?case using prints_refl by (simp add: lit_def)
next
  case (Cons s ss)
  obtain w1 where w1: "w_printf s [] w = Some w1" "prints w (lit s) w1" using print_plain Cons.prems by fastforce
  obtain w2 where w2: "printf_all ss w1 = Some w2" "prints w1 (lit (concat ss)) w2"
    using Cons.IH [OF prints_ok [OF w1(2)]] Cons.prems(2) by auto
  show ?case using w1(1) w2(1) prints_trans [OF w1(2) w2(2)] by (simp add: lit_def)
qed

lemma print_unsigned:
  assumes w: "world_ok w" and p: "plain_text p" "plain_text q" "length p + length q \<le> 2000"
  shows "\<exists>w'. w_printf (p @ ''%u'' @ q) [Word x] w = Some w' \<and> prints w (lit p @ sprintf_u x @ lit q) w'"
proof (rule w_printf_prints [OF w])
  have c: "clit (p @ ''%u'' @ q) = lit p @ (lit ''%u'' @ (lit q @ [0]))" by (simp add: clit_def lit_def)
  have pl: "list_all (\<lambda>c. of_char c \<noteq> (0 :: byte) \<and> of_char c \<noteq> chr CHR ''%'') p"
    "list_all (\<lambda>c. of_char c \<noteq> (0 :: byte) \<and> of_char c \<noteq> chr CHR ''%'') q" using p by (simp_all add: plain_text_def)
  have q: "sprintf_text (lit q @ [0]) [] = Some (lit q)" unfolding sprintf_text_lit [OF pl(2)] by simp
  have k: "conversions (clit (p @ ''%u'' @ q)) = [chr CHR ''u'']"
    unfolding c conversions_plain [OF pl(1)] using conversions_plain [OF pl(2), of "[0]"] by (simp add: lit_def)
  show "sprintf_text (clit (p @ ''%u'' @ q)) [Word x] = Some (lit p @ sprintf_u x @ lit q)"
    unfolding c sprintf_text_lit [OF pl(1)] using q by (simp add: lit_def sprintf_conv_def)
  show "set (conversions (clit (p @ ''%u'' @ q))) \<inter> printf_only = {}"
    "set (conversions (clit (p @ ''%u'' @ q))) \<inter> hex_conv = {} \<or> nonneg_words [Word x]"
    unfolding k by (simp_all add: printf_only_def hex_conv_def)
  show "length (lit p @ sprintf_u x @ lit q) \<le> 2048" using p(3) sprintf_u_length [of x] by (simp add: lit_def)
qed


lemma u_text: "plain_text ''Total memory: ''" "plain_text ''Free memory: ''" "plain_text '' KB\<newline>''"
  "plain_text ''*nix IA-32 Kernel booted\<newline>''" "plain_text ''TIME OK\<newline>''" "plain_text ''UTC time unavailable\<newline>''"
  by code_simp+

lemma splash_plain: "list_all plain_text splash_screen"
  by code_simp

lemma split_months_total: "m + n \<le> 12 \<Longrightarrow> \<exists>r. split_months y m n d = Some r"
proof (induction n arbitrary: m d)
  case (Suc n)
  then obtain x where "array_get days_per_month m = Some x" by (simp add: array_get_def days_per_month_def)
  then show ?case using Suc by (simp add: Let_def)
qed simp

lemma localtime_total: "\<exists>b. localtime_r (Some t) True = Some b"
proof -
  obtain d y where "split_years (t div 86400) 1970 = (d, y)" by fastforce
  moreover obtain r where "split_months y 0 12 d = Some r" using split_months_total [of 0 12 y d] by auto
  ultimately show ?thesis by (cases r) (simp add: localtime_r_def Let_def)
qed

lemma boot_messages_prints:
  assumes w: "world_ok w" and c: "clock_realtime (be_cmos e) 0 = Some t"
  shows "\<exists>w' p. boot_messages e w = Some w' \<and> prints w p w'"
proof -
  let ?p = "pg_pmm (kh_paging (w_heap w))"
  obtain w1 where w1: "w_printf ''*nix IA-32 Kernel booted\<newline>'' [] w = Some w1" "prints w (lit ''*nix IA-32 Kernel booted\<newline>'') w1"
    using print_plain [OF w] u_text by blast
  obtain w2 p2 where w2: "w_printf ''Total memory: %u KB\<newline>'' [Word (pmm_total_pages ?p * 4)] w1 = Some w2" "prints w1 p2 w2"
    using print_unsigned [OF prints_ok [OF w1(2)] u_text(1,3), of "pmm_total_pages ?p * 4"] by auto
  obtain w3 p3 where w3: "w_printf ''Free memory: %u KB\<newline>'' [Word (pmm_free_pages ?p * 4)] w2 = Some w3" "prints w2 p3 w3"
    using print_unsigned [OF prints_ok [OF w2(2)] u_text(2,3), of "pmm_free_pages ?p * 4"] by auto
  obtain b where b: "localtime_r (Some t) True = Some b" using localtime_total by blast
  let ?ok = "t \<noteq> - 1 \<and> (case b of None \<Rightarrow> False | Some b \<Rightarrow> 0 \<le> tm_wday b \<and> tm_wday b < 7 \<and> 0 \<le> tm_mon b \<and> tm_mon b < 12)"
  have "plain_text (if ?ok then ''TIME OK\<newline>'' else ''UTC time unavailable\<newline>'')" using u_text(5,6) by (simp only: if_split) blast
  then obtain w4 where w4: "w_printf (if ?ok then ''TIME OK\<newline>'' else ''UTC time unavailable\<newline>'') [] w3 = Some w4"
    "prints w3 (lit (if ?ok then ''TIME OK\<newline>'' else ''UTC time unavailable\<newline>'')) w4"
    using print_plain [OF prints_ok [OF w3(2)]] by blast
  obtain w5 where w5: "printf_all splash_screen w4 = Some w5" "prints w4 (lit (concat splash_screen)) w5"
    using printf_all_prints [OF prints_ok [OF w4(2)] splash_plain] by blast
  have "boot_messages e w = Some w5"
    unfolding boot_messages_def Let_def using w1(1) w2(1) w3(1) c b w4(1) w5(1) by simp
  with prints_trans [OF prints_trans [OF prints_trans [OF prints_trans [OF w1(2) w2(2)] w3(2)] w4(2)] w5(2)]
  show ?thesis by blast
qed


section \<open>The initialised machine\<close>

text \<open>A program as the makefile embeds it: a short name and an image that is not empty.\<close>

definition program_ok :: "byte list \<times> byte list \<Rightarrow> bool" where
  "program_ok p \<longleftrightarrow> terminated (fst p) \<and> length (cstr (fst p)) < 32 \<and> 0 < length (snd p) \<and> length (snd p) < 2 ^ 32"

lemma program_size: "program_ok (name, img) \<Longrightarrow> unat (of_nat (length img) :: u32) = length img \<and> (of_nat (length img) :: u32) \<noteq> 0"
  using unat_u32_of_nat [of "length img"] by (auto simp: program_ok_def)

lemma install_user_progs_list:
  "fs_ok s \<Longrightarrow> vfs_root s = Some r \<Longrightarrow> r < used_nodes s \<Longrightarrow> used_nodes s + length ps \<le> 64 \<Longrightarrow>
   unat (vn_child_count (node s r)) + length ps \<le> 16 \<Longrightarrow> list_all program_ok ps \<Longrightarrow>
   \<exists>s'. install_user_progs ps s = Some s' \<and> fs_ok s' \<and> current_dir s' = current_dir s
     \<and> dir_list s' r = dir_list s r @ map (\<lambda>p. (cstr (fst p), VFS_FILE)) ps"
proof (induction ps arbitrary: s)
  case (Cons p ps)
  obtain name img where p: "p = (name, img)" by fastforce
  have a: "can_attach r s" using Cons.prems by (simp add: can_attach_def word_less_nat_alt)
  define nd where "nd = (made (cstr name) VFS_FILE r (Some img) (node s (used_nodes s)))\<lparr>vn_size := of_nat (length img)\<rparr>"
  have i: "k_install (Some name) (Some img) (of_nat (length img)) s = Some (0, attach r nd s)" and nn: "new_node r nd"
    using k_install_attach [OF Cons.prems(1,2) a, of name "of_nat (length img)" img] Cons.prems(6) program_size [of name img]
    by (simp_all add: p nd_def program_ok_def)
  note f = attach_fields [OF Cons.prems(1) a]
  have "cstr (vn_name nd) = cstr name" "vn_flags nd = VFS_FILE" by (simp_all add: nd_def made_def cstr_pad)
  then have l: "dir_list (attach r nd s) r = dir_list s r @ [(cstr name, VFS_FILE)]"
    using attach_list(1) [OF Cons.prems(1) a nn] by simp
  have "\<exists>s'. install_user_progs ps (attach r nd s) = Some s' \<and> fs_ok s' \<and> current_dir s' = current_dir (attach r nd s)
     \<and> dir_list s' r = dir_list (attach r nd s) r @ map (\<lambda>p. (cstr (fst p), VFS_FILE)) ps"
    using Cons.prems by (intro Cons.IH attach_ok [OF _ a nn]) (simp_all add: f)
  then show ?case using i l f(4) by (simp add: p)
qed simp

text \<open>Images with a zero byte among their first 64 leave the store as the system calls expect it.\<close>

lemma install_user_progs_store:
  "store_ok s \<Longrightarrow> list_all program_ok ps \<Longrightarrow> list_all (\<lambda>p. buffer_ok (snd p)) ps \<Longrightarrow>
   install_user_progs ps s = Some s' \<Longrightarrow> store_ok s'"
proof (induction ps arbitrary: s)
  case (Cons p ps)
  obtain name img where p: "p = (name, img)" by fastforce
  have "op_valid (Install name img (of_nat (length img)))"
    using Cons.prems(2,3) program_size [of name img] by (simp add: p program_ok_def)
  from install_store [OF Cons.prems(1) this]
  obtain v s1 where "k_install (Some name) (Some img) (of_nat (length img)) s = Some (v, s1)" "store_ok s1"
    by (auto simp: store_step_def)
  with Cons show ?case by (simp add: p)
qed simp

lemma fs_init_store: "pool_zero s \<Longrightarrow> fs_init s = Some s' \<Longrightarrow> store_ok s'"
proof -
  assume a: "pool_zero s" "fs_init s = Some s'"
  have "node s' i = (if i = 0 then root_node else zero_node)" if "i < 64" for i
    using that fs_init_eq [OF a(1)] a(2) by (auto simp: node_def nth_list_update)
  then show "store_ok s'"
    using boot_inv(1) [OF a] by (auto simp: store_ok_def sizes_ok_def root_node_def zero_node_def)
qed

text \<open>The static data of the image before the start, and the stubs of the entry code.\<close>

definition boot_static :: "boot_env \<Rightarrow> machine \<Rightarrow> bool" where
  "boot_static e w \<longleftrightarrow> pool_zero (w_fs w) \<and> length (gdt (mc_gdt w)) = 6 \<and> length (idt (mc_idt w)) = 256
     \<and> 32 \<le> length (be_isr_table e) \<and> length (be_programs e) \<le> 16 \<and> list_all program_ok (be_programs e) \<and> term_ok (screen w) \<and> buffer_write_idx (w_kbd w) = 0
     \<and> f_bptr (w_stdout w) = 0 \<and> length (f_buf (w_stdout w)) = 2048 \<and> f_writes (w_stdout w) = []"

text \<open>The invariants of the components after the start.\<close>

definition machine_ready :: "boot_env \<Rightarrow> machine \<Rightarrow> bool" where
  "machine_ready e w \<longleftrightarrow> world_ok w \<and> current_layout (w_kbd w) = KEYBOARD_LAYOUT_QWERTY
     \<and> paging_ok (kh_paging (w_heap w)) \<and> bit (pg_cr0 (kh_paging (w_heap w))) 31
     \<and> pg_cr3 (kh_paging (w_heap w)) = kernel_page_directory (kh_paging (w_heap w))
     \<and> (\<forall>v < 0x1000000. get_physical_address v (kh_paging (w_heap w)) = v)
     \<and> list_all (\<lambda>d. gdt_base d = 0 \<and> gdt_limit d = 0xFFFFF) (take 4 (drop 1 (gdt (mc_gdt w))))
     \<and> map gdt_dpl (take 4 (drop 1 (gdt (mc_gdt w)))) = [0, 0, 3, 3]
     \<and> task_loaded (mc_gdt w) \<and> tss_esp0 (tss_entry (mc_gdt w)) = be_stack_top e
     \<and> gate_table (be_isr_table e) (be_syscall_stub e) (idt (mc_idt w)) \<and> interrupts (mc_idt w)
     \<and> stack_chk_guard w AND 0xFF \<noteq> 0
     \<and> fs_ok (w_fs w) \<and> current_dir (w_fs w) = Some 0
     \<and> dir_list (w_fs w) 0 = map (\<lambda>p. (cstr (fst p), VFS_FILE)) (be_programs e)"

lemma guard_low_byte: "init_stack_canary a b t AND 0xFF \<noteq> 0"
proof -
  have "((g OR 0xA1A5A5A5) AND 0xFF :: u32) \<noteq> 0" for g
  proof -
    have "(g OR 0xA1A5A5A5) AND 0xFF = (g AND 0xFF) OR 0xA5" by (simp add: bit.conj_disj_distrib2)
    then show ?thesis by (simp add: or_eq_0_iff)
  qed
  then show ?thesis by (simp add: init_stack_canary_def Let_def)
qed

lemma term_ok_ports [simp]: "term_ok (t\<lparr>term_ports := p\<rparr>) = term_ok t"
  by (simp add: term_ok_def)

lemma outb_fold_ok: "term_ok t \<Longrightarrow> term_ok (fold (\<lambda>(p, x). outb p x) ps t)"
  by (induction ps arbitrary: t) (auto simp: outb_def)

lemma serial_init_ok: "term_ok t \<Longrightarrow> term_ok (serial_init t)"
  unfolding serial_init_def by (rule outb_fold_ok)

lemma kernel_init_store:
  assumes "boot_static e w" "list_all (\<lambda>p. buffer_ok (snd p)) (be_programs e)" "kernel_init e tag w = Some w'"
  shows "store_ok (w_fs w')"
proof -
  let ?f = "(w_fs w)\<lparr>fs_pmm := pg_pmm (kh_paging (boot_memory tag (w_heap w)))\<rparr>"
  obtain f0 where f: "fs_init ?f = Some f0" "install_user_progs (be_programs e) f0 = Some (w_fs w')"
    using assms(3) by (auto simp: kernel_init_def Let_def split: bind_splits prod.splits)
  have "pool_zero ?f" "list_all program_ok (be_programs e)"
    using assms(1) by (simp_all add: boot_static_def pool_zero_def)
  with install_user_progs_store [OF fs_init_store [OF _ f(1)]] assms(2) f(2) show ?thesis by blast
qed

lemma kernel_init_ready:
  assumes "boot_static e w" "settles (be_cmos e) n f" "memory_ready tag (kh_paging (w_heap w))"
  shows "\<exists>w'. kernel_init e tag w = Some w' \<and> machine_ready e w' \<and> w_heap w' = boot_memory tag (w_heap w)"
proof -
  note s = assms(1) [unfolded boot_static_def]
  let ?h = "boot_memory tag (w_heap w)"
  let ?f = "(w_fs w)\<lparr>fs_pmm := pg_pmm (kh_paging ?h)\<rparr>"
  have z: "pool_zero ?f" using s by (simp add: pool_zero_def)
  obtain f0 where f0: "fs_init ?f = Some f0" using fs_init_eq [OF z] by blast
  note b = boot_inv [OF z f0]
  have r0: "vfs_root f0 = Some 0" using f0 fs_init_eq [OF z] by auto
  have "unat (vn_child_count (node f0 0)) = 0"
    using b(1,3) length_kids [of f0 0] by (simp add: fs_inv_def dir_list_def)
  then obtain f1 where f1: "install_user_progs (be_programs e) f0 = Some f1" "fs_ok f1" "current_dir f1 = Some 0"
    "dir_list f1 0 = map (\<lambda>p. (cstr (fst p), VFS_FILE)) (be_programs e)"
    using install_user_progs_list [of f0 0 "be_programs e"] b r0 s by (auto simp: fs_inv_def)
  obtain g where g: "gdt_init (mc_gdt w) = Some g"
    "list_all (\<lambda>e. gdt_base e = 0 \<and> gdt_limit e = 0xFFFFF \<and> granularity e = 0xCF) (take 4 (drop 1 (gdt g)))"
    "map gdt_dpl (take 4 (drop 1 (gdt g))) = [0, 0, 3, 3]" "task_loaded g"
    using gdt_init_flat [of "mc_gdt w"] s by auto
  obtain i where i: "idt_init (be_isr_table e) (be_syscall_stub e) (mc_idt w) (screen w) = Some (i, pic_remap 0x20 0x28 (screen w))"
    "interrupts i" "gate_table (be_isr_table e) (be_syscall_stub e) (idt i)"
    using idt_init_state [of "mc_idt w" "be_isr_table e" "be_syscall_stub e" "screen w"] s by auto
  obtain t where t: "rtc_get_time (be_cmos e) 0 = Some t" using rtc_get_time_returns [OF assms(2)] by blast
  define k where "k = keyboard_init ((w_kbd w)\<lparr>kb_term := pic_remap 0x20 0x28 (screen w)\<rparr>)"
  define w' where "w' = w\<lparr>w_heap := ?h, w_fs := f1, w_kbd := k, mc_gdt := tss_set_kernel_stack (be_stack_top e) g,
    mc_idt := i, stack_chk_guard := init_stack_canary (be_seed_addr e) (be_guard_addr e) t\<rparr>"
  have e: "kernel_init e tag w = Some w'"
    using f0 g(1) i(1) t f1(1) by (simp add: kernel_init_def Let_def w'_def k_def)
  have "term_ok (pic_remap 0x20 0x28 (screen w))" unfolding pic_remap_def using s by (intro outb_fold_ok) simp
  then have "kb_ok k \<and> current_layout k = KEYBOARD_LAYOUT_QWERTY" using s boot_kbd_ok [of "[]"]
    by (simp add: k_def kb_ok_def keyboard_init_def keyboard_set_layout_def boot_kbd_def)
  then have w: "world_ok w'" "current_layout (w_kbd w') = KEYBOARD_LAYOUT_QWERTY" using s by (simp_all add: world_ok_def w'_def)
  have p: "paging_ok (kh_paging ?h)" "\<forall>v < 0x1000000. get_physical_address v (kh_paging ?h) = v"
    using boot_memory_paging [of tag "w_heap w"] assms(3) unfolding memory_ready_def by metis+
  have "machine_ready e w'"
    unfolding machine_ready_def using w p boot_memory_enabled [of tag "w_heap w"] g(2-4) i(2,3) guard_low_byte f1(2-4)
    by (auto simp: w'_def tss_set_kernel_stack_def list_all_iff)
  with e show ?thesis by (auto simp: w'_def)
qed

lemma machine_ready_prints:
  assumes "machine_ready e w" "prints w p w'"
  shows "machine_ready e w'"
  using assms by (auto simp: machine_ready_def prints_def)


lemma kernel_main_runs:
  fixes w :: machine
  assumes "tags_at (pg_mem (kh_paging (w_heap w))) (mbi + 8) ts" "mbi \<noteq> 0"
    and "tag = (let a = first_mmap (mbi + 8) ts in if a = 0 then None else Some (mmap_tag_at (pg_mem (kh_paging (w_heap w))) a))"
    and "boot_static e w" "settles (be_cmos e) n f" "memory_ready tag (kh_paging (w_heap w))"
  obtains w' where "kernel_main e 0x36D76289 mbi w = Some (Shell_started w')" "machine_ready e w'"
    "list_all (\<lambda>p. buffer_ok (snd p)) (be_programs e) \<longrightarrow> store_ok (w_fs w')"
proof -
  let ?w = "w\<lparr>w_kbd := (w_kbd w)\<lparr>kb_term := serial_init (screen w)\<rparr>\<rparr>"
  have b: "boot_static e ?w"
    using assms(4) serial_init_ok [of "screen w"] by (simp add: boot_static_def)
  then obtain w1 where w1: "kernel_init e tag ?w = Some w1" "machine_ready e w1"
    using kernel_init_ready [of e ?w n f tag] assms(5,6) by auto
  obtain t where "clock_realtime (be_cmos e) 0 = Some t" using rtc_get_time_returns [OF assms(5)] by blast
  then obtain w2 p where w2: "boot_messages e w1 = Some w2" "prints w1 p w2"
    using boot_messages_prints w1(2) unfolding machine_ready_def by blast
  have "kernel_main e 0x36D76289 mbi w = Some (Shell_started w2)"
    using find_mmap_tags [OF assms(1)] assms(2,3) w1(1) w2(1)
    by (cases "first_mmap (mbi + 8) ts = 0") (simp_all add: kernel_main_def Let_def)
  moreover have "w_fs w2 = w_fs w1" using w2(2) by (auto simp: prints_def)
  ultimately show thesis
    using that machine_ready_prints [OF w1(2) w2(2)] kernel_init_store [OF b _ w1(1)] by simp
qed

section \<open>Properties\<close>

text \<open>
  C6: started by a boot loader that passes the magic number and a well-formed list of tags, on a machine with at least
  70 free cleared frames below 3 GiB and a clock that settles, \<open>kernel_main\<close> reaches the shell. It then runs with paging
  switched on and the first 16 MiB mapped to themselves, with flat segments of both privilege levels, a gate for every
  vector of which only \<open>0x80\<close> is open to user code, the kernel stack in the task segment, a stack guard whose lowest
  byte is not zero, and a root directory that lists exactly the embedded programs, in their order.
\<close>

theorem kernel_main_starts:
  fixes w :: machine
  assumes "tags_at (pg_mem (kh_paging (w_heap w))) (mbi + 8) ts" "mbi \<noteq> 0"
    and "tag = (let a = first_mmap (mbi + 8) ts in if a = 0 then None else Some (mmap_tag_at (pg_mem (kh_paging (w_heap w))) a))"
    and "boot_static e w" "settles (be_cmos e) n f" "memory_ready tag (kh_paging (w_heap w))"
  shows "\<exists>w'. kernel_main e 0x36D76289 mbi w = Some (Shell_started w') \<and> machine_ready e w'"
  using kernel_main_runs [OF assms] by blast

text \<open>A machine with cleared memory whose boot information holds no tag, started with the fallback memory map.\<close>

definition demo_env :: boot_env where
  "demo_env = \<lparr>be_cmos = sample_chip, be_isr_table = replicate 32 0x100000, be_syscall_stub = 0x100100,
     be_seed_addr = 0x100200, be_guard_addr = 0x108000, be_stack_top = 0x10C000, be_programs = [(clit ''hello'', [0x7F, 0x45, 0x4C, 0x46])]\<rparr>"

definition demo_machine :: machine where
  "demo_machine = \<lparr>w_fs = bare_fs, w_kbd = boot_kbd, w_stdout = stdout_stream,
     w_heap = \<lparr>kh_paging = boot_paging, kh_mem = (\<lambda>_. 0), heap_pages = 0, heap_next_virtual = 0, kh_out = []\<rparr>,
     mc_gdt = \<lparr>gdt = replicate 6 \<lparr>limit_low = 0, base_low = 0, base_middle = 0, gdt_access = 0, granularity = 0, base_high = 0\<rparr>,
               gdt_addr = 0x106000,
               tss_entry = \<lparr>tss_esp0 = 0, tss_ss0 = 0, tss_others = [], tss_trap = 0, tss_iopb_offset = 0\<rparr>,
               tss_addr = 0x107000, gdtr = None, task_loaded = False\<rparr>,
     mc_idt = \<lparr>idt = replicate 256 (gate 0 0), idt_addr = 0x106800, idtr = None, interrupts = False\<rparr>,
     stack_chk_guard = 0xDEADBEEF\<rparr>"

lemma demo_memory_ready: "memory_ready None boot_paging"
proof -
  have u: "boot_paging\<lparr>pg_pmm := pmm_init_fallback\<rparr> = boot_paging" by (simp add: boot_paging_def)
  have i: "pmm_init None = pmm_init_fallback" by (simp add: pmm_init_def)
  have "free_page_set pmm_init_fallback = {..<1024} - {512}" by (auto simp: free_page_set_def bitmap_test_fallback)
  then have "70 \<le> free_count boot_paging"
    unfolding free_count_pages [OF boot_paging_ready(1)] by (simp add: boot_paging_def)
  then show ?thesis using boot_paging_ready unfolding memory_ready_def i u
    by (simp add: low_memory_def boot_paging_def)
qed

theorem kernel_main_starts_witness:
  "\<exists>w'. kernel_main demo_env 0x36D76289 0x9000 demo_machine = Some (Shell_started w') \<and> machine_ready demo_env w'"
proof -
  have m: "kh_paging (w_heap demo_machine) = boot_paging" "pg_mem boot_paging = (\<lambda>_. 0)"
    by (simp_all add: demo_machine_def boot_paging_def)
  have 1: "tags_at (pg_mem (kh_paging (w_heap demo_machine))) (0x9000 + 8) []" by (simp add: m load32_eq_0)
  have 2: "boot_static demo_env demo_machine" using boot_kbd_ok [of "[]"]
    by (simp add: boot_static_def demo_env_def demo_machine_def bare_fs_zero stdout_stream_def kb_ok_def program_ok_def clit_def lit_def)
  have 3: "settles (be_cmos demo_env) 5 (sample_chip 5)"
    by (auto simp: settles_def fun_eq_iff sample_chip_def demo_env_def)
  have 4: "memory_ready None (kh_paging (w_heap demo_machine))" using demo_memory_ready by (simp add: m)
  from kernel_main_starts [OF 1 _ _ 2 3 4] show ?thesis by (auto simp: Let_def)
qed

text \<open>
  C11: the kernel that \<open>kernel_main\<close> starts serves system calls safely. Under the conditions under which the shell
  is reached, and with program images that have at least 64 bytes and a zero byte among the first 64, the file
  system with the installed programs, the screen and an empty descriptor table satisfy the invariant of the
  system calls: every open descriptor names a node in use, the tree of nodes is well formed, the size of
  every file lies within its content, file buffers are terminated and the cursor is on the screen. From there
  every sequence of valid system calls runs to its end without leaving an array, following \<open>NULL\<close> or touching
  an unmapped page, and keeps the invariant. Valid calls pass mapped buffers and terminated paths with names
  of at most 31 characters, do not write at an offset above 63 and do not read past \<open>2 ^ 32\<close>; of \<open>execl\<close> and
  \<open>sysinfo\<close> it is required that the call itself does not fault.
\<close>

theorem syscalls_after_boot:
  fixes w :: machine
  assumes "tags_at (pg_mem (kh_paging (w_heap w))) (mbi + 8) ts" "mbi \<noteq> 0"
    and "tag = (let a = first_mmap (mbi + 8) ts in if a = 0 then None else Some (mmap_tag_at (pg_mem (kh_paging (w_heap w))) a))"
    and "boot_static e w" "settles (be_cmos e) n f" "memory_ready tag (kh_paging (w_heap w))"
    and "list_all (\<lambda>p. buffer_ok (snd p)) (be_programs e)"
  shows "\<exists>w'. kernel_main e 0x36D76289 mbi w = Some (Shell_started w')
    \<and> (\<forall>k. k_fs k = w_fs w' \<and> k_term k = screen w' \<and> fd_table k = replicate 32 no_fd \<longrightarrow> k_inv k)
    \<and> (\<forall>k hw cs. k_inv k \<and> calls_valid hw cs k \<longrightarrow> (\<exists>k'. sys_run hw cs k = Some k' \<and> k_inv k'))"
proof -
  obtain w' where w': "kernel_main e 0x36D76289 mbi w = Some (Shell_started w')" "machine_ready e w'" "store_ok (w_fs w')"
    using kernel_main_runs [OF assms(1-6)] assms(7) by blast
  have "term_ok (screen w')" using w'(2) by (simp add: machine_ready_def world_ok_def kb_ok_def)
  then have "k_inv k" if "k_fs k = w_fs w' \<and> k_term k = screen w' \<and> fd_table k = replicate 32 no_fd" for k
    using that w'(3) by (simp add: k_inv_def list_all_length fd_ok_def no_fd_def)
  with w'(1) sys_run_inv show ?thesis by blast
qed

text \<open>A program of 100 bytes, and the first calls of a process: \<open>open("/")\<close>, \<open>close(3)\<close>, a call that is not implemented.\<close>

theorem syscalls_after_boot_witness:
  "\<exists>w' k'. kernel_main (demo_env\<lparr>be_programs := [(clit ''hello'', 0x7F # replicate 99 0)]\<rparr>) 0x36D76289 0x9000 demo_machine
       = Some (Shell_started w')
     \<and> sys_run sample_chip [\<lparr>tf_ebx = 0x3002, tf_ecx = 0, tf_edx = 0, tf_eax = 2, tf_eip = 0, tf_cs = 0x1B\<rparr>,
         \<lparr>tf_ebx = 3, tf_ecx = 0, tf_edx = 0, tf_eax = 3, tf_eip = 0, tf_cs = 0x1B\<rparr>,
         \<lparr>tf_ebx = 0, tf_ecx = 0, tf_edx = 0, tf_eax = 0xFF, tf_eip = 0, tf_cs = 0x1B\<rparr>]
         (demo_kernel\<lparr>k_fs := w_fs w', k_term := screen w', fd_table := replicate 32 no_fd\<rparr>) = Some k'
     \<and> k_inv k'"
proof -
  let ?e = "demo_env\<lparr>be_programs := [(clit ''hello'', 0x7F # replicate 99 0)]\<rparr>"
  let ?cs = "[\<lparr>tf_ebx = 0x3002, tf_ecx = 0, tf_edx = 0, tf_eax = 2, tf_eip = 0, tf_cs = 0x1B\<rparr>,
         \<lparr>tf_ebx = 3, tf_ecx = 0, tf_edx = 0, tf_eax = 3, tf_eip = 0, tf_cs = 0x1B\<rparr>,
         \<lparr>tf_ebx = 0, tf_ecx = 0, tf_edx = 0, tf_eax = 0xFF, tf_eip = 0, tf_cs = 0x1B\<rparr>]"
  have m: "kh_paging (w_heap demo_machine) = boot_paging" "pg_mem boot_paging = (\<lambda>_. 0)"
    by (simp_all add: demo_machine_def boot_paging_def)
  have 1: "tags_at (pg_mem (kh_paging (w_heap demo_machine))) (0x9000 + 8) []" by (simp add: m load32_eq_0)
  have 2: "boot_static ?e demo_machine" using boot_kbd_ok [of "[]"]
    by (simp add: boot_static_def demo_env_def demo_machine_def bare_fs_zero stdout_stream_def kb_ok_def program_ok_def clit_def lit_def)
  have 3: "settles (be_cmos ?e) 5 (sample_chip 5)"
    by (auto simp: settles_def fun_eq_iff sample_chip_def demo_env_def)
  have 4: "memory_ready None (kh_paging (w_heap demo_machine))" using demo_memory_ready by (simp add: m)
  have 5: "list_all (\<lambda>p. buffer_ok (snd p)) (be_programs ?e)" by (simp add: buffer_ok_def terminated_def)
  obtain w' where w': "kernel_main ?e 0x36D76289 0x9000 demo_machine = Some (Shell_started w')"
    "\<forall>k. k_fs k = w_fs w' \<and> k_term k = screen w' \<and> fd_table k = replicate 32 no_fd \<longrightarrow> k_inv k"
    "\<forall>k hw cs. k_inv k \<and> calls_valid hw cs k \<longrightarrow> (\<exists>k'. sys_run hw cs k = Some k' \<and> k_inv k')"
    using syscalls_after_boot [OF 1 _ _ 2 3 4 5] by (auto simp: Let_def)
  let ?k = "demo_kernel\<lparr>k_fs := w_fs w', k_term := screen w', fd_table := replicate 32 no_fd\<rparr>"
  have "path_arg 0x3002 ?k" using demo_path by (simp add: path_arg_def path_ok_def arg_string_def)
  then have "calls_valid sample_chip ?cs ?k" by (simp add: call_valid_def split: option.split)
  moreover have "k_inv ?k" using w'(2) by simp
  ultimately show ?thesis using w'(1,3) by blast
qed

lemma kmalloc_after_boot:
  assumes "memory_ready tag (kh_paging h)" "sz \<noteq> 0" "sz \<le> - 8"
  shows "kmalloc sz (boot_memory tag h)
    = Some (0, (boot_memory tag h)\<lparr>kh_out := kh_out h @ [''heap: corrupted page detected'']\<rparr>)"
proof -
  let ?b = "boot_memory tag h"
  note p = heap_page_unmarked [OF assms(1)]
  have "heap_validate_page (kh_mem ?b) HEAP_START = Some False"
    using p(1) by (simp add: heap_validate_page_def hp_magic_def)
  then have "scan_pages (kh_mem ?b) n (heap_pages ?b) = Some Corrupted" for n
    unfolding p(2) by (simp add: scan_pages.simps)
  then have "kmalloc_loop n ?b = Some (0, ?b\<lparr>kh_out := kh_out ?b @ [''heap: corrupted page detected'']\<rparr>)" for n
    by (subst kmalloc_loop.simps) simp
  moreover have "\<not> sz > - 1 - (8 - 1)" using assms(3) by simp
  ultimately show ?thesis using assms(2) p(3) by (simp add: kmalloc_def)
qed

text \<open>
  C7: the kernel heap cannot be used after the start. \<open>kernel_main\<close> initialises the heap before it switches paging on, so
  the headers of the first heap page go to the physical memory at \<open>0xC0000000\<close>; with paging on the page is a
  frame without headers, and every call of \<open>kmalloc\<close> reports a corrupted page and returns \<open>NULL\<close>.
\<close>

theorem boot_kmalloc_null:
  assumes "memory_ready tag (kh_paging h)" "sz \<noteq> 0" "sz \<le> - 8"
  shows "kmalloc sz (boot_memory tag h)
    = Some (0, (boot_memory tag h)\<lparr>kh_out := kh_out h @ [''heap: corrupted page detected'']\<rparr>)"
  by (rule kmalloc_after_boot [OF assms])

theorem boot_kmalloc_null_witness:
  "map_option fst (kmalloc 64 (boot_memory None (w_heap demo_machine))) = Some 0"
proof -
  have "memory_ready None (kh_paging (w_heap demo_machine))" using demo_memory_ready by (simp add: demo_machine_def)
  then have "kmalloc 64 (boot_memory None (w_heap demo_machine)) = Some (0, (boot_memory None (w_heap demo_machine))
      \<lparr>kh_out := kh_out (w_heap demo_machine) @ [''heap: corrupted page detected'']\<rparr>)"
    by (rule boot_kmalloc_null) simp_all
  then show ?thesis by simp
qed


text \<open>
  On a list of tags closed by an end tag the walk returns the address of the first memory map, or \<open>NULL\<close> when there
  is none; on a tag of another type whose size rounds to 0 it never returns.
\<close>

theorem boot_tag_walk:
  "(tags_at m a ts \<longrightarrow> find_mmap m a = Some (first_mmap a ts))
   \<and> (load32 m a \<notin> {0, 6} \<and> (load32 m (a + 4) + 7) AND NOT 7 = 0 \<longrightarrow> find_mmap m a = None)"
  using find_mmap_tags find_mmap_stuck by blast

theorem boot_tag_walk_witness:
  "let m = store32 (store32 (store32 (store32 (\<lambda>_. 0) 8 1) 12 10) 24 6) 28 16
   in find_mmap m 8 = Some 24 \<and> find_mmap (store32 m 12 0) 8 = None"
proof -
  let ?m = "store32 (store32 (store32 (store32 (\<lambda>_. 0) 8 1) 12 10) 24 6) 28 16 :: memory"
  have "tags_at ?m 8 [(1, 10), (6, 16)] \<and> first_mmap 8 [(1, 10), (6, 16)] = 24" by code_simp
  moreover have "load32 (store32 ?m 12 0) 8 \<notin> {0, 6} \<and> (load32 (store32 ?m 12 0) (8 + 4) + 7) AND NOT 7 = 0" by code_simp
  ultimately show ?thesis
    using boot_tag_walk [of ?m 8 "[(1, 10), (6, 16)]"] boot_tag_walk [of "store32 ?m 12 0" 8] by (auto simp: Let_def)
qed

text \<open>
  After any sequence of messages, each shorter than the log, the log reads as the text they give: a message is
  appended, or replaces the whole log when it does not fit behind it. \<open>dmesg\<close> prints that text, as far as the output
  buffer holds it.
\<close>

theorem kernel_log_reads:
  assumes "log_holds s []" "list_all (\<lambda>m. terminated m \<and> length (cstr m) < 4096) ms" "world_ok w"
  shows "\<exists>s'. log_all ms s = Some s' \<and> cstr (get_kernel_log s') = foldl log_text [] ms
    \<and> (foldl log_text [] ms \<noteq> [] \<and> length (foldl log_text [] ms) \<le> 2048 \<longrightarrow>
         (\<exists>w'. cmd_dmesg s' w = Some (0, w') \<and> prints w (foldl log_text [] ms) w'))"
proof -
  obtain s' where s': "log_all ms s = Some s'" "log_holds s' (foldl log_text [] ms)" using log_all_holds [OF assms(1,2)] by blast
  note r = log_holds_reads [OF s'(2)]
  have "\<exists>w'. cmd_dmesg s' w = Some (0, w') \<and> prints w (foldl log_text [] ms) w'"
    if n: "foldl log_text [] ms \<noteq> []" "length (foldl log_text [] ms) \<le> 2048"
  proof -
    have "hd (foldl log_text [] ms) \<noteq> 0" using n(1) s'(2) hd_in_set by (fastforce simp: log_holds_def)
    moreover obtain w' where "w_printf ''%s'' [Str (get_kernel_log s')] w = Some w'" "prints w (foldl log_text [] ms) w'"
      using print_string [OF assms(3) r(2)] r(1) n(2) by auto
    ultimately show ?thesis using r(3) n(1) by (simp add: cmd_dmesg_def Let_def)
  qed
  with s'(1) r(1) show ?thesis by blast
qed

theorem kernel_log_reads_witness:
  "\<exists>s' w'. log_all [clit ''boot '', clit ''ok''] \<lparr>kernel_log_buffer = replicate 4096 0, kernel_log_pos = 0\<rparr> = Some s'
     \<and> cmd_dmesg s' (demo_world []) = Some (0, w') \<and> prints (demo_world []) (lit ''boot ok'') w'"
proof -
  let ?s = "\<lparr>kernel_log_buffer = replicate 4096 0, kernel_log_pos = 0\<rparr>" and ?ms = "[clit ''boot '', clit ''ok'']"
  have "Suc 4095 = 4096" by simp
  then have "replicate 4096 0 = [] @ (0 :: byte) # replicate 4095 0" using replicate_Suc [of 4095 "0 :: byte"] by (simp only: append_Nil)
  then have "\<exists>r. kernel_log_buffer ?s = [] @ 0 # r" unfolding klog.simps by blast
  then have "log_holds ?s []" by (simp add: log_holds_def)
  moreover have "list_all (\<lambda>m. terminated m \<and> length (cstr m) < 4096) ?ms" by code_simp
  moreover have "foldl log_text [] ?ms = lit ''boot ok''" by code_simp
  ultimately show ?thesis using kernel_log_reads [of ?s ?ms, OF _ _ demo_world_ok [of "[]"]] by (auto simp: lit_def)
qed

end
