(* ===== verification/Snake.thy ===== *)
theory Snake
  imports World
begin

text \<open>
  The game of \<^verbatim>\<open>src/bin/snake/snake.c\<close>. The static variables are the record \<open>snake_game\<close>, the local variables of
  \<open>snake_play\<close> the record \<open>snake_run\<close>; the cells of the screen are written directly. The search for a free cell and the
  game loop have no bound in the program and are partial functions. One iteration of the loop is \<open>snake_iter\<close>.

  The lemmas describe a game by the list of cells of the body and the list of foods and show that every iteration keeps
  them on the board, distinct, side by side along the body, and drawn on the screen.
\<close>

section \<open>State\<close>

record snake_game =
  snake_color :: byte
  food_color :: byte
  border_color :: byte
  board_color :: byte
  text_color :: byte
  snake_rng :: u32
  snake_x :: "byte list"
  snake_y :: "byte list"
  food_x :: "byte list"
  food_y :: "byte list"
  food_count :: byte
  snake_length :: byte

definition color_table :: "(string \<times> byte) list" where
  "color_table =
     [(''black'', 0x00), (''blue'', 0x01), (''green'', 0x02), (''cyan'', 0x03), (''red'', 0x04), (''magenta'', 0x05),
      (''brown'', 0x06), (''lightgray'', 0x07), (''darkgray'', 0x08), (''lightblue'', 0x09), (''lightgreen'', 0x0A),
      (''lightcyan'', 0x0B), (''lightred'', 0x0C), (''lightmagenta'', 0x0D), (''yellow'', 0x0E), (''white'', 0x0F)]"

section \<open>Colours\<close>

fun find_color :: "(string \<times> byte) list \<Rightarrow> byte list \<Rightarrow> int option" where
  "find_color [] arg = Some (-1)"
| "find_color ((name, v) # cs) arg =
     do { r \<leftarrow> strcmp (clit name) arg; if r = 0 then Some (uint v) else find_color cs arg }"

definition hex_value :: "byte \<Rightarrow> int" where
  "hex_value c =
     (if 48 \<le> c \<and> c \<le> 57 then uint c - 48
      else if 97 \<le> c \<and> c \<le> 102 then uint c - 97 + 10
      else if 65 \<le> c \<and> c \<le> 70 then uint c - 65 + 10
      else - 1)"

text \<open>The test \<open>arg[0] == '0' && arg[1] == 'x' && arg[2] && !arg[3]\<close>, read from left to right.\<close>

definition is_hex_color :: "byte list \<Rightarrow> bool option" where
  "is_hex_color arg =
     do { a \<leftarrow> array_get arg 0;
          if a \<noteq> 48 then Some False
          else do { b \<leftarrow> array_get arg 1;
                    if b \<noteq> 120 then Some False
                    else do { c \<leftarrow> array_get arg 2;
                              if c = 0 then Some False
                              else do { d \<leftarrow> array_get arg 3; Some (d = 0) } } } }"

definition parse_color_value :: "byte list option \<Rightarrow> int option" where
  "parse_color_value arg =
     (case arg of
        None \<Rightarrow> Some (-1)
      | Some arg \<Rightarrow>
          do { h \<leftarrow> is_hex_color arg;
               if h then do { c \<leftarrow> array_get arg 2; Some (hex_value c) }
               else find_color color_table arg })"

definition snake_reset_colors :: "snake_game \<Rightarrow> snake_game" where
  "snake_reset_colors g =
     g\<lparr>snake_color := 0x0A, food_color := 0x0C, border_color := 0x07, board_color := 0x00, text_color := 0x0E\<rparr>"

definition snake_set_custom_color :: "byte list \<Rightarrow> byte list \<Rightarrow> snake_game \<Rightarrow> (bool \<times> snake_game) option" where
  "snake_set_custom_color target val g =
     do { color \<leftarrow> parse_color_value (Some val);
          if color < 0 then Some (False, g)
          else do { let v = of_int color;
                    a \<leftarrow> strcmp target (clit ''snake'');
                    if a = 0 then Some (True, g\<lparr>snake_color := v\<rparr>) else do {
                    a \<leftarrow> strcmp target (clit ''food'');
                    if a = 0 then Some (True, g\<lparr>food_color := v\<rparr>) else do {
                    a \<leftarrow> strcmp target (clit ''border'');
                    if a = 0 then Some (True, g\<lparr>border_color := v\<rparr>) else do {
                    a \<leftarrow> strcmp target (clit ''board'');
                    if a = 0 then Some (True, g\<lparr>board_color := v\<rparr>) else do {
                    a \<leftarrow> strcmp target (clit ''text'');
                    if a = 0 then Some (True, g\<lparr>text_color := v\<rparr>) else Some (False, g) } } } } } }"

section \<open>Random cells\<close>

definition snake_random :: "u32 \<Rightarrow> u32" where
  "snake_random r =
     (let r = r XOR push_bit 13 r;
          r = r XOR drop_bit 17 r
      in r XOR push_bit 5 r)"

text \<open>The loop of \<open>snake_occupies\<close>, \<open>snake_has_food\<close> and of the collision test: is one of the cells \<open>i\<close>, \<open>i + 1\<close>, \<dots> the given one?\<close>

fun cell_among :: "byte list \<Rightarrow> byte list \<Rightarrow> byte \<Rightarrow> byte \<Rightarrow> nat \<Rightarrow> nat \<Rightarrow> bool option" where
  "cell_among xs ys x y i 0 = Some False"
| "cell_among xs ys x y i (Suc n) =
     do { a \<leftarrow> array_get xs i;
          b \<leftarrow> array_get ys i;
          if a = x \<and> b = y then Some True else cell_among xs ys x y (Suc i) n }"

definition snake_occupies :: "byte \<Rightarrow> byte \<Rightarrow> snake_game \<Rightarrow> bool option" where
  "snake_occupies x y g = cell_among (snake_x g) (snake_y g) x y 0 (unat (snake_length g))"

definition snake_has_food :: "byte \<Rightarrow> byte \<Rightarrow> snake_game \<Rightarrow> bool option" where
  "snake_has_food x y g = cell_among (food_x g) (food_y g) x y 0 (unat (food_count g))"

definition random_x :: "u32 \<Rightarrow> byte" where
  "random_x r = ucast (r mod 76 + 2)"

definition random_y :: "u32 \<Rightarrow> byte" where
  "random_y r = ucast (r mod 21 + 2)"

partial_function (option) place_loop :: "snake_game \<Rightarrow> snake_game option" where
  "place_loop g =
     do { let r1 = snake_random (snake_rng g);
          let r2 = snake_random r1;
          let x = random_x r1;
          let y = random_y r2;
          let g = g\<lparr>snake_rng := r2\<rparr>;
          o1 \<leftarrow> snake_occupies x y g;
          f1 \<leftarrow> (if o1 then Some True else snake_has_food x y g);
          if \<not> o1 \<and> \<not> f1
          then do { xs \<leftarrow> array_set (food_x g) (unat (food_count g)) x;
                    ys \<leftarrow> array_set (food_y g) (unat (food_count g)) y;
                    Some (g\<lparr>food_x := xs, food_y := ys, food_count := food_count g + 1\<rparr>) }
          else place_loop g }"

definition snake_place_food :: "snake_game \<Rightarrow> snake_game option" where
  "snake_place_food g = (if food_count g \<ge> 5 then Some g else place_loop g)"

section \<open>Drawing\<close>

definition vga_set :: "nat \<Rightarrow> u16 \<Rightarrow> terminal \<Rightarrow> terminal option" where
  "vga_set i v t = do { b \<leftarrow> array_set (vga_buffer t) i v; Some (t\<lparr>vga_buffer := b\<rparr>) }"

definition snake_put_cell :: "byte \<Rightarrow> byte \<Rightarrow> byte \<Rightarrow> byte \<Rightarrow> terminal \<Rightarrow> terminal option" where
  "snake_put_cell x y ch attr t =
     (if unat x \<ge> TERM_WIDTH \<or> unat y \<ge> TERM_HEIGHT then Some t
      else vga_set (unat y * TERM_WIDTH + unat x) (vga_cell attr ch) t)"

fun fill_cells :: "nat \<Rightarrow> nat \<Rightarrow> u16 \<Rightarrow> terminal \<Rightarrow> terminal option" where
  "fill_cells i 0 v t = Some t"
| "fill_cells i (Suc n) v t = do { t \<leftarrow> vga_set i v t; fill_cells (Suc i) n v t }"

definition snake_clear_screen :: "snake_game \<Rightarrow> terminal \<Rightarrow> terminal option" where
  "snake_clear_screen g t =
     do { t \<leftarrow> fill_cells 0 (TERM_WIDTH * TERM_HEIGHT) (vga_cell (board_color g) 32) t;
          Some (t\<lparr>terminal_row := 0, terminal_col := 0\<rparr>) }"

fun border_rows :: "byte \<Rightarrow> nat \<Rightarrow> nat \<Rightarrow> terminal \<Rightarrow> terminal option" where
  "border_rows c x 0 t = Some t"
| "border_rows c x (Suc n) t =
     do { t \<leftarrow> snake_put_cell (of_nat x) 0 61 c t;
          t \<leftarrow> snake_put_cell (of_nat x) 24 61 c t;
          border_rows c (Suc x) n t }"

fun border_columns :: "byte \<Rightarrow> nat \<Rightarrow> nat \<Rightarrow> terminal \<Rightarrow> terminal option" where
  "border_columns c y 0 t = Some t"
| "border_columns c y (Suc n) t =
     do { t \<leftarrow> snake_put_cell 0 (of_nat y) 124 c t;
          t \<leftarrow> snake_put_cell 79 (of_nat y) 124 c t;
          border_columns c (Suc y) n t }"

definition snake_draw_border :: "snake_game \<Rightarrow> terminal \<Rightarrow> terminal option" where
  "snake_draw_border g t =
     do { t \<leftarrow> border_rows (border_color g) 0 80 t; border_columns (border_color g) 1 23 t }"

text \<open>The loops over the cells of the body and of the foods.\<close>

fun draw_cells :: "byte list \<Rightarrow> byte list \<Rightarrow> byte \<Rightarrow> byte \<Rightarrow> nat \<Rightarrow> nat \<Rightarrow> terminal \<Rightarrow> terminal option" where
  "draw_cells xs ys ch attr i 0 t = Some t"
| "draw_cells xs ys ch attr i (Suc n) t =
     do { x \<leftarrow> array_get xs i; y \<leftarrow> array_get ys i;
          t \<leftarrow> snake_put_cell x y ch attr t;
          draw_cells xs ys ch attr (Suc i) n t }"

definition snake_draw_snake :: "snake_game \<Rightarrow> terminal \<Rightarrow> terminal option" where
  "snake_draw_snake g t =
     (if snake_length g = 0 then Some t
      else do { t \<leftarrow> draw_cells (snake_x g) (snake_y g) 64 (snake_color g) 0 1 t;
                draw_cells (snake_x g) (snake_y g) 111 (snake_color g) 1 (unat (snake_length g) - 1) t })"

definition snake_draw_foods :: "snake_game \<Rightarrow> terminal \<Rightarrow> terminal option" where
  "snake_draw_foods g t = draw_cells (food_x g) (food_y g) 42 (food_color g) 0 (unat (food_count g)) t"

text \<open>The digits of a number: at most 15, the lowest first, and then reversed in place.\<close>

fun low_digits :: "nat \<Rightarrow> int \<Rightarrow> byte list" where
  "low_digits 0 temp = []"
| "low_digits (Suc n) temp = (if temp > 0 then of_int (48 + temp mod 10) # low_digits n (temp div 10) else [])"

definition swap_ends :: "byte list \<Rightarrow> byte list" where
  "swap_ends b = fold (\<lambda>i b. b[i := b ! (length b - 1 - i), length b - 1 - i := b ! i]) [0..<length b div 2] b"

definition number_text :: "int \<Rightarrow> byte list" where
  "number_text v = (if v = 0 then [48] else swap_ends (low_digits 15 v))"

fun write_cells :: "nat \<Rightarrow> byte list \<Rightarrow> byte \<Rightarrow> terminal \<Rightarrow> terminal option" where
  "write_cells i [] attr t = Some t"
| "write_cells i (c # cs) attr t = do { t \<leftarrow> vga_set i (vga_cell attr c) t; write_cells (Suc i) cs attr t }"

definition status_text :: string where
  "status_text = ''Score:        Foods:    Length:    Q=Quit  W/A/S/D=Move''"

definition snake_draw_status :: "int \<Rightarrow> snake_game \<Rightarrow> terminal \<Rightarrow> terminal option" where
  "snake_draw_status score g t =
     do { let pos = (TERM_HEIGHT - 1) * TERM_WIDTH;
          t \<leftarrow> fill_cells pos TERM_WIDTH (vga_cell (board_color g) 32) t;
          t \<leftarrow> vga_set pos (vga_cell (border_color g) 124) t;
          t \<leftarrow> vga_set (pos + TERM_WIDTH - 1) (vga_cell (border_color g) 124) t;
          t \<leftarrow> write_cells (pos + 1) (take (TERM_WIDTH - 2) (lit status_text)) (text_color g) t;
          t \<leftarrow> write_cells (pos + 8) (take 3 (number_text score)) (text_color g) t;
          t \<leftarrow> vga_set (pos + 23) (vga_cell (text_color g) (48 + food_count g)) t;
          write_cells (pos + 37) (take 3 (number_text (uint (snake_length g)))) (text_color g) t }"


section \<open>The game\<close>

record snake_run =
  sr_game :: snake_game
  sr_dx :: int
  sr_dy :: int
  sr_score :: int
  sr_frame :: nat

text \<open>The change of direction: not straight back.\<close>

definition steer :: "byte \<Rightarrow> snake_run \<Rightarrow> snake_run" where
  "steer c r =
     (if (c = 119 \<or> c = 87 \<or> c = 0xE0) \<and> sr_dy r \<noteq> 1 then r\<lparr>sr_dx := 0, sr_dy := - 1\<rparr>
      else if (c = 115 \<or> c = 83 \<or> c = 0xE1) \<and> sr_dy r \<noteq> - 1 then r\<lparr>sr_dx := 0, sr_dy := 1\<rparr>
      else if (c = 97 \<or> c = 65 \<or> c = 0xE2) \<and> sr_dx r \<noteq> 1 then r\<lparr>sr_dx := - 1, sr_dy := 0\<rparr>
      else if (c = 100 \<or> c = 68 \<or> c = 0xE3) \<and> sr_dx r \<noteq> - 1 then r\<lparr>sr_dx := 1, sr_dy := 0\<rparr>
      else r)"

text \<open>The index of the food in the next cell; the inner \<open>None\<close> is \<open>ate_food == false\<close>.\<close>

fun find_food :: "byte list \<Rightarrow> byte list \<Rightarrow> int \<Rightarrow> int \<Rightarrow> nat \<Rightarrow> nat \<Rightarrow> nat option option" where
  "find_food xs ys x y i 0 = Some None"
| "find_food xs ys x y i (Suc n) =
     do { a \<leftarrow> array_get xs i;
          b \<leftarrow> array_get ys i;
          if x = uint a \<and> y = uint b then Some (Some i) else find_food xs ys x y (Suc i) n }"

text \<open>The loop \<open>for (i = n; i > 0; i--) a[i] = a[i - 1]\<close>.\<close>

fun shift_body :: "nat \<Rightarrow> byte list \<Rightarrow> byte list option" where
  "shift_body 0 a = Some a"
| "shift_body (Suc n) a = do { c \<leftarrow> array_get a n; a \<leftarrow> array_set a (Suc n) c; shift_body n a }"

definition move_body :: "byte \<Rightarrow> byte \<Rightarrow> snake_game \<Rightarrow> snake_game option" where
  "move_body x y g =
     do { xs \<leftarrow> shift_body (unat (snake_length g)) (snake_x g);
          ys \<leftarrow> shift_body (unat (snake_length g)) (snake_y g);
          xs \<leftarrow> array_set xs 0 x;
          ys \<leftarrow> array_set ys 0 y;
          Some (g\<lparr>snake_x := xs, snake_y := ys\<rparr>) }"

definition remove_food :: "nat \<Rightarrow> snake_game \<Rightarrow> snake_game option" where
  "remove_food i g =
     do { let last = unat (food_count g) - 1;
          g \<leftarrow> (if i < last
                 then do { x \<leftarrow> array_get (food_x g) last; y \<leftarrow> array_get (food_y g) last;
                           xs \<leftarrow> array_set (food_x g) i x; ys \<leftarrow> array_set (food_y g) i y;
                           Some (g\<lparr>food_x := xs, food_y := ys\<rparr>) }
                 else Some g);
          Some (g\<lparr>food_count := food_count g - 1\<rparr>) }"

definition eat_food :: "nat \<Rightarrow> snake_run \<Rightarrow> snake_run option" where
  "eat_food i r =
     do { g \<leftarrow> remove_food i (sr_game r);
          let g = (if unat (snake_length g) + 1 < 256 then g\<lparr>snake_length := snake_length g + 1\<rparr> else g);
          g \<leftarrow> (if food_count g < 5 then snake_place_food g else Some g);
          Some (r\<lparr>sr_game := g, sr_score := sr_score r + 10\<rparr>) }"

definition redraw :: "snake_run \<Rightarrow> terminal \<Rightarrow> terminal option" where
  "redraw r t =
     do { let g = sr_game r;
          t \<leftarrow> (if snake_length g > 1 then draw_cells (snake_x g) (snake_y g) 111 (snake_color g) 1 1 t else Some t);
          t \<leftarrow> draw_cells (snake_x g) (snake_y g) 64 (snake_color g) 0 1 t;
          t \<leftarrow> snake_draw_foods g t;
          snake_draw_status (sr_score r) g t }"

text \<open>The step of the snake to a cell that is free; \<open>food\<close> is the index of the food there.\<close>

definition snake_advance :: "byte \<Rightarrow> byte \<Rightarrow> nat option \<Rightarrow> snake_run \<Rightarrow> terminal \<Rightarrow> (snake_run \<times> terminal) option" where
  "snake_advance x y food r t =
     do { let g = sr_game r;
          tail_x \<leftarrow> array_get (snake_x g) (unat (snake_length g) - 1);
          tail_y \<leftarrow> array_get (snake_y g) (unat (snake_length g) - 1);
          g \<leftarrow> move_body x y g;
          let r = r\<lparr>sr_game := g\<rparr>;
          (r, t) \<leftarrow> (case food of
                       None \<Rightarrow> do { t \<leftarrow> snake_put_cell tail_x tail_y 32 (board_color g) t; Some (r, t) }
                     | Some i \<Rightarrow> do { r \<leftarrow> eat_food i r; Some (r, t) });
          t \<leftarrow> redraw r t;
          Some (r, t) }"

text \<open>What follows the reading of the key; \<open>True\<close> ends the game.\<close>

definition snake_frame :: "snake_run \<Rightarrow> terminal \<Rightarrow> (bool \<times> snake_run \<times> terminal) option" where
  "snake_frame r t =
     (if sr_frame r + 1 < 3 then Some (False, r\<lparr>sr_frame := sr_frame r + 1\<rparr>, t)
      else do {
        let r = r\<lparr>sr_frame := 0\<rparr>;
        let g = sr_game r;
        x0 \<leftarrow> array_get (snake_x g) 0;
        y0 \<leftarrow> array_get (snake_y g) 0;
        let next_x = uint x0 + sr_dx r;
        let next_y = uint y0 + sr_dy r;
        if next_x < 1 \<or> next_x > 78 \<or> next_y < 1 \<or> next_y > 23 then Some (True, r, t)
        else do {
          food \<leftarrow> find_food (food_x g) (food_y g) next_x next_y 0 (unat (food_count g));
          let collision_len = snake_length g - (if food = None then 1 else 0);
          hit \<leftarrow> cell_among (snake_x g) (snake_y g) (of_int next_x) (of_int next_y) 0 (unat collision_len);
          if hit then Some (True, r, t)
          else do { (r, t) \<leftarrow> snake_advance (of_int next_x) (of_int next_y) food r t; Some (False, r, t) } } })"

definition snake_iter :: "snake_run \<Rightarrow> 'a world_scheme \<Rightarrow> (bool \<times> snake_run \<times> 'a world_scheme) option" where
  "snake_iter r w =
     do { (c, k) \<leftarrow> keyboard_pollchar (w_kbd w);
          if c = 113 \<or> c = 81 then Some (True, r, w\<lparr>w_kbd := k\<rparr>)
          else do { (over, r, t) \<leftarrow> snake_frame (steer c r) (kb_term k);
                    Some (over, r, w\<lparr>w_kbd := k\<lparr>kb_term := t\<rparr>\<rparr>) } }"

partial_function (option) snake_loop :: "snake_run \<Rightarrow> 'a world_scheme \<Rightarrow> (snake_run \<times> 'a world_scheme) option" where
  "snake_loop r w =
     do { (over, r, w) \<leftarrow> snake_iter r w;
          if over then Some (r, w) else snake_loop r w }"

fun place_body :: "nat \<Rightarrow> nat \<Rightarrow> snake_game \<Rightarrow> snake_game option" where
  "place_body i 0 g = Some g"
| "place_body i (Suc n) g =
     do { xs \<leftarrow> array_set (snake_x g) i (40 - of_nat i);
          ys \<leftarrow> array_set (snake_y g) i 12;
          place_body (Suc i) n (g\<lparr>snake_x := xs, snake_y := ys\<rparr>) }"

definition snake_start :: "snake_game \<Rightarrow> terminal \<Rightarrow> (snake_run \<times> terminal) option" where
  "snake_start g t =
     do { g \<leftarrow> place_body 0 4 (g\<lparr>snake_length := 4\<rparr>);
          let g = g\<lparr>food_count := 0\<rparr>;
          g \<leftarrow> snake_place_food g;
          g \<leftarrow> snake_place_food g;
          g \<leftarrow> snake_place_food g;
          t \<leftarrow> snake_clear_screen g t;
          t \<leftarrow> snake_draw_border g t;
          t \<leftarrow> snake_draw_snake g t;
          t \<leftarrow> snake_draw_foods g t;
          t \<leftarrow> snake_draw_status 0 g t;
          Some (\<lparr>sr_game = g, sr_dx = 1, sr_dy = 0, sr_score = 0, sr_frame = 0\<rparr>, t) }"

definition snake_end :: "snake_run \<Rightarrow> 'a world_scheme \<Rightarrow> 'a world_scheme option" where
  "snake_end r w =
     do { w \<leftarrow> on_screen (snake_clear_screen (sr_game r)) w;
          w \<leftarrow> on_screen (\<lambda>t. Some (move_cursor 0 11 (t\<lparr>terminal_row := 11, terminal_col := 0\<rparr>))) w;
          w \<leftarrow> w_printf ''=== GAME OVER ===\<newline>'' [] w;
          w \<leftarrow> w_printf ''Final Score: %d\<newline>'' [Word (of_int (sr_score r))] w;
          w \<leftarrow> w_printf ''Snake Length: %d\<newline>'' [Word (ucast (snake_length (sr_game r)))] w;
          w \<leftarrow> w_printf ''\<newline>Press any key to return to shell.\<newline>'' [] w;
          (_, w) \<leftarrow> w_getchar w;
          on_screen (snake_clear_screen (sr_game r)) w }"

definition snake_play :: "snake_game \<Rightarrow> 'a world_scheme \<Rightarrow> (int \<times> snake_game \<times> 'a world_scheme) option" where
  "snake_play g w =
     do { (r, t) \<leftarrow> snake_start g (screen w);
          (r, w) \<leftarrow> snake_loop r (w\<lparr>w_kbd := (w_kbd w)\<lparr>kb_term := t\<rparr>\<rparr>);
          w \<leftarrow> snake_end r w;
          Some (0, sr_game r, w) }"

section \<open>The command\<close>

definition snake_print_usage :: "'a world_scheme \<Rightarrow> 'a world_scheme option" where
  "snake_print_usage = write_all
     [''snake: start the snake game or configure game colors.\<newline>'', ''Usage:\<newline>'',
      ''  snake                 Start the game.\<newline>'', ''  snake color <type> <color>\<newline>'',
      ''    type: snake, food, border, board, text\<newline>'', ''  snake reset           Restore default game colors.\<newline>'',
      ''  snake help            Show this help.\<newline>'', ''Controls: Use arrow keys to move the snake.\<newline>'',
      ''Colors are names or 0xN such as green or 0xC.\<newline>'']"

definition arg_is :: "byte list \<Rightarrow> string \<Rightarrow> bool option" where
  "arg_is a s = map_option (\<lambda>r. r = 0) (strcmp a (clit s))"

definition cmd_snake :: "byte list list \<Rightarrow> snake_game \<Rightarrow> 'a world_scheme \<Rightarrow> (int \<times> snake_game \<times> 'a world_scheme) option" where
  "cmd_snake argv g w =
     do { play \<leftarrow> (if length argv = 1 then Some True else if length argv = 2 then arg_is (argv ! 1) ''play'' else Some False);
          if play then snake_play g w
          else do {
            help \<leftarrow> (if length argv \<noteq> 2 then Some False
                      else do { h \<leftarrow> arg_is (argv ! 1) ''help''; if h then Some True else arg_is (argv ! 1) ''?'' });
            if help then do { w \<leftarrow> snake_print_usage w; Some (0, g, w) }
            else do {
              reset \<leftarrow> (if length argv \<noteq> 2 then Some False else arg_is (argv ! 1) ''reset'');
              if reset
              then do { w \<leftarrow> w_write (clit ''Snake game colors reset to defaults.\<newline>'') w; Some (0, snake_reset_colors g, w) }
              else do {
                color \<leftarrow> (if length argv \<noteq> 4 then Some False else arg_is (argv ! 1) ''color'');
                if color
                then do { (ok, g) \<leftarrow> snake_set_custom_color (argv ! 2) (argv ! 3) g;
                          if \<not> ok
                          then do { w \<leftarrow> w_write (clit ''Invalid snake color command.\<newline>'') w;
                                    w \<leftarrow> snake_print_usage w; Some (1, g, w) }
                          else do { w \<leftarrow> w_write (clit ''Snake game color updated.\<newline>'') w; Some (0, g, w) } }
                else do { w \<leftarrow> snake_print_usage w; Some (0, g, w) } } } } }"


section \<open>Cells\<close>

type_synonym cell_pos = "byte \<times> byte"

text \<open>The first \<open>n\<close> cells of a pair of coordinate arrays.\<close>

definition cells :: "byte list \<Rightarrow> byte list \<Rightarrow> nat \<Rightarrow> cell_pos list" where
  "cells xs ys n = take n (zip xs ys)"

definition body :: "snake_game \<Rightarrow> cell_pos list" where
  "body g = cells (snake_x g) (snake_y g) (unat (snake_length g))"

definition foods :: "snake_game \<Rightarrow> cell_pos list" where
  "foods g = cells (food_x g) (food_y g) (unat (food_count g))"

lemma drop_zip_Cons:
  "i < length xs \<Longrightarrow> i < length ys \<Longrightarrow> drop i (zip xs ys) = (xs ! i, ys ! i) # drop (Suc i) (zip xs ys)"
  by (simp add: Cons_nth_drop_Suc [symmetric])

lemma cell_among_eq:
  "i + n \<le> length xs \<Longrightarrow> i + n \<le> length ys \<Longrightarrow>
     cell_among xs ys x y i n = Some ((x, y) \<in> set (take n (drop i (zip xs ys))))"
proof (induction n arbitrary: i)
  case (Suc n)
  then show ?case using Suc.IH [of "Suc i"] by (auto simp: array_get_def drop_zip_Cons)
qed simp

lemma cell_among_cells:
  "n \<le> length xs \<Longrightarrow> n \<le> length ys \<Longrightarrow> cell_among xs ys x y 0 n = Some ((x, y) \<in> set (cells xs ys n))"
  by (simp add: cell_among_eq cells_def)

lemma find_food_eq:
  "i + n \<le> length xs \<Longrightarrow> i + n \<le> length ys \<Longrightarrow>
     (find_food xs ys (uint x) (uint y) i n = Some None \<and> (x, y) \<notin> set (take n (drop i (zip xs ys))))
     \<or> (\<exists>j. find_food xs ys (uint x) (uint y) i n = Some (Some j) \<and> i \<le> j \<and> j < i + n \<and> zip xs ys ! j = (x, y))"
proof (induction n arbitrary: i)
  case (Suc n)
  then have l: "i < length xs" "i < length ys" by simp_all
  show ?case
  proof (cases "x = xs ! i \<and> y = ys ! i")
    case True
    with l show ?thesis by (auto simp: array_get_def)
  next
    case False
    then have "\<not> (uint x = uint (xs ! i) \<and> uint y = uint (ys ! i))" by (auto dest: word_uint_eqI)
    then have "find_food xs ys (uint x) (uint y) i (Suc n) = find_food xs ys (uint x) (uint y) (Suc i) n"
      using l by (auto simp: array_get_def)
    moreover have "(x, y) \<in> set (take (Suc n) (drop i (zip xs ys))) \<longleftrightarrow> (x, y) \<in> set (take n (drop (Suc i) (zip xs ys)))"
      using False l by (simp add: drop_zip_Cons) blast
    ultimately show ?thesis using Suc.IH [of "Suc i"] Suc.prems by fastforce
  qed
qed simp

lemma find_food_cases:
  assumes "n \<le> length xs" "n \<le> length ys"
  obtains (none) "find_food xs ys (uint x) (uint y) 0 n = Some None" "(x, y) \<notin> set (cells xs ys n)"
  | (food) j where "find_food xs ys (uint x) (uint y) 0 n = Some (Some j)" "j < n" "cells xs ys n ! j = (x, y)"
  using find_food_eq [of 0 n xs ys x y] assms by (auto simp: cells_def)

lemma shift_body_eq: "n < length a \<Longrightarrow> shift_body n a = Some (hd a # take n a @ drop (Suc n) a)"
proof (induction n arbitrary: a)
  case 0
  then show ?case by (cases a) simp_all
next
  case (Suc n)
  let ?a = "a[Suc n := a ! n]"
  have "shift_body (Suc n) a = shift_body n ?a" using Suc.prems by (simp add: array_get_def array_set_def)
  also have "\<dots> = Some (hd ?a # take n ?a @ drop (Suc n) ?a)" using Suc.prems by (intro Suc.IH) simp
  also have "drop (Suc n) ?a = a ! n # drop (Suc (Suc n)) a"
    using Suc.prems by (simp add: Cons_nth_drop_Suc [symmetric])
  also have "hd ?a = hd a" using Suc.prems by (cases a) simp_all
  finally show ?case using Suc.prems by (simp add: take_Suc_conv_app_nth)
qed

lemma take_zip_shift:
  "n < length xs \<Longrightarrow> n < length ys \<Longrightarrow> m \<le> n \<Longrightarrow>
     cells (x # take n xs @ r) (y # take n ys @ s) (Suc m) = (x, y) # cells xs ys m"
  by (simp add: cells_def zip_append1 take_zip min_def)

lemma move_body_cells:
  assumes "length (snake_x g) = 256" "length (snake_y g) = 256"
  shows "\<exists>xs ys. move_body x y g = Some (g\<lparr>snake_x := xs, snake_y := ys\<rparr>) \<and> length xs = 256 \<and> length ys = 256
    \<and> (\<forall>m \<le> unat (snake_length g). cells xs ys (Suc m) = (x, y) # cells (snake_x g) (snake_y g) m)"
proof -
  let ?n = "unat (snake_length g)"
  let ?xs = "x # take ?n (snake_x g) @ drop (Suc ?n) (snake_x g)" and ?ys = "y # take ?n (snake_y g) @ drop (Suc ?n) (snake_y g)"
  have n: "?n < 256" using unsigned_less [of "snake_length g", where 'a = nat] by simp
  then have "move_body x y g = Some (g\<lparr>snake_x := ?xs, snake_y := ?ys\<rparr>)"
    using assms by (simp add: move_body_def shift_body_eq array_set_def)
  moreover have "length ?xs = 256" "length ?ys = 256" using n assms by simp_all
  moreover have "\<forall>m \<le> ?n. cells ?xs ?ys (Suc m) = (x, y) # cells (snake_x g) (snake_y g) m"
    using take_zip_shift n assms by metis
  ultimately show ?thesis by blast
qed

lemma cells_length: "n \<le> length xs \<Longrightarrow> n \<le> length ys \<Longrightarrow> length (cells xs ys n) = n"
  by (simp add: cells_def)

lemma cells_butlast: "0 < n \<Longrightarrow> n \<le> length xs \<Longrightarrow> n \<le> length ys \<Longrightarrow> cells xs ys (n - 1) = butlast (cells xs ys n)"
  by (simp add: cells_def butlast_take)

lemma cells_update:
  "i < n \<Longrightarrow> n \<le> length xs \<Longrightarrow> n \<le> length ys \<Longrightarrow> cells (xs[i := x]) (ys[i := y]) n = (cells xs ys n)[i := (x, y)]"
  using zip_update [of xs i x ys y] by (simp add: cells_def take_update_swap)

text \<open>Removing an element by overwriting it with the last one.\<close>

definition swap_out :: "nat \<Rightarrow> 'a list \<Rightarrow> 'a list" where
  "swap_out i xs = butlast (xs[i := last xs])"

lemma swap_out_set:
  assumes "distinct xs" "i < length xs"
  shows "distinct (swap_out i xs) \<and> set (swap_out i xs) = set xs - {xs ! i} \<and> length (swap_out i xs) = length xs - 1"
proof -
  obtain ys y where xs: "xs = ys @ [y]" using assms(2) by (cases xs rule: rev_cases) auto
  show ?thesis
  proof (cases "i < length ys")
    case True
    have "distinct ys" "y \<notin> set ys" using assms(1) xs by auto
    with True show ?thesis
      by (auto simp: xs swap_out_def list_update_append nth_append butlast_append distinct_list_update set_update_distinct)
  qed (use assms xs in \<open>auto simp: swap_out_def list_update_append nth_append\<close>)
qed


section \<open>The random generator\<close>

lemma xor_zero_eq:
  assumes "x XOR y = (0 :: u32)"
  shows "x = y"
proof (rule bit_eqI)
  fix n
  have "bit (x XOR y) n = bit (0 :: u32) n" using assms by simp
  then show "bit x n = bit y n" by (auto simp: bit_xor_iff)
qed

lemma xor_shift_left:
  assumes "x XOR push_bit k x = 0" "0 < k"
  shows "x = (0 :: u32)"
proof -
  have e: "x = push_bit k x" by (rule xor_zero_eq [OF assms(1)])
  have "\<not> bit x n" for n
  proof (induction n rule: less_induct)
    case (less n)
    have "bit x n \<longleftrightarrow> bit (push_bit k x) n" using e by simp
    with less.IH [of "n - k"] assms(2) show ?case by (auto simp: bit_push_bit_iff)
  qed
  then show ?thesis by (simp add: bit_eq_iff)
qed

lemma xor_shift_right:
  assumes "x XOR drop_bit k x = 0" "0 < k"
  shows "x = (0 :: u32)"
proof -
  have e: "x = drop_bit k x" by (rule xor_zero_eq [OF assms(1)])
  have step: "bit x (k + n)" if "bit x n" for n
  proof -
    have "bit (drop_bit k x) n" using that e by simp
    then show ?thesis by (simp add: bit_drop_bit_eq)
  qed
  have up: "bit x (m * k + n)" if "bit x n" for m n using that by (induction m) (use step in \<open>auto simp: add.assoc\<close>)
  have "\<not> bit x n" for n
  proof
    assume "bit x n"
    then have "32 * k + n < 32" using bit_imp_le_length [OF up [of n 32]] by simp
    with assms(2) show False by simp
  qed
  then show ?thesis by (simp add: bit_eq_iff)
qed

lemma snake_random_nonzero: "r \<noteq> 0 \<Longrightarrow> snake_random r \<noteq> 0"
  using xor_shift_left [of r 13] xor_shift_right [of "r XOR push_bit 13 r" 17]
    xor_shift_left [of "(r XOR push_bit 13 r) XOR drop_bit 17 (r XOR push_bit 13 r)" 5]
  by (auto simp: snake_random_def Let_def)

lemma small_coordinate:
  assumes "0 < n" "unat n + 1 < 128"
  shows "2 \<le> unat (ucast (r mod n + 2 :: u32) :: byte)" "unat (ucast (r mod n + 2 :: u32) :: byte) \<le> unat n + 1"
proof -
  have m: "unat (r mod n) < unat n" using assms(1) by (simp add: unat_mod word_less_nat_alt)
  then have "unat (r mod n + 2) = unat (r mod n) + 2" using assms(2) by (simp add: unat_word_ariths)
  then have "unat (ucast (r mod n + 2 :: u32) :: byte) = unat (r mod n) + 2"
    using m assms(2) by (simp add: unsigned_ucast_eq take_bit_eq_mod)
  then show "2 \<le> unat (ucast (r mod n + 2 :: u32) :: byte)" "unat (ucast (r mod n + 2 :: u32) :: byte) \<le> unat n + 1"
    using m by simp_all
qed

lemma random_range: "2 \<le> unat (random_x r)" "unat (random_x r) \<le> 77" "2 \<le> unat (random_y r)" "unat (random_y r) \<le> 22"
  using small_coordinate [of 76 r] small_coordinate [of 21 r] by (simp_all add: random_x_def random_y_def)


section \<open>The invariant of the game\<close>

definition on_board :: "cell_pos \<Rightarrow> bool" where
  "on_board p \<longleftrightarrow> 1 \<le> unat (fst p) \<and> unat (fst p) \<le> 78 \<and> 1 \<le> unat (snd p) \<and> unat (snd p) \<le> 23"

definition food_range :: "cell_pos \<Rightarrow> bool" where
  "food_range p \<longleftrightarrow> 2 \<le> unat (fst p) \<and> unat (fst p) \<le> 77 \<and> 2 \<le> unat (snd p) \<and> unat (snd p) \<le> 22"

text \<open>The arrays have their declared sizes and the generator is not stuck at 0.\<close>

definition game_arrays :: "snake_game \<Rightarrow> bool" where
  "game_arrays g \<longleftrightarrow> length (snake_x g) = 256 \<and> length (snake_y g) = 256 \<and> length (food_x g) = 5 \<and> length (food_y g) = 5
     \<and> snake_rng g \<noteq> 0"

definition snake_ok :: "snake_game \<Rightarrow> bool" where
  "snake_ok g \<longleftrightarrow> game_arrays g \<and> 0 < unat (snake_length g) \<and> unat (food_count g) \<le> 5
     \<and> distinct (body g) \<and> list_all on_board (body g)
     \<and> distinct (foods g) \<and> list_all food_range (foods g) \<and> set (foods g) \<inter> set (body g) = {}"

lemma length_byte: "unat (b :: byte) < 256"
  using unsigned_less [of b, where 'a = nat] by simp

lemma body_cells: "game_arrays g \<Longrightarrow> length (body g) = unat (snake_length g)"
  using length_byte [of "snake_length g"] by (simp add: body_def cells_length game_arrays_def)

lemma foods_cells: "game_arrays g \<Longrightarrow> unat (food_count g) \<le> 5 \<Longrightarrow> length (foods g) = unat (food_count g)"
  by (simp add: foods_def cells_length game_arrays_def)

lemma occupies_eq: "game_arrays g \<Longrightarrow> snake_occupies x y g = Some ((x, y) \<in> set (body g))"
  using length_byte [of "snake_length g"] by (simp add: snake_occupies_def cell_among_cells body_def game_arrays_def)

lemma has_food_eq: "game_arrays g \<Longrightarrow> unat (food_count g) \<le> 5 \<Longrightarrow> snake_has_food x y g = Some ((x, y) \<in> set (foods g))"
  by (simp add: snake_has_food_def cell_among_cells foods_def game_arrays_def)

section \<open>Placing food\<close>

text \<open>The \<open>k\<close>-th cell the generator proposes from state \<open>r\<close>, and its state afterwards.\<close>

fun rng_after :: "nat \<Rightarrow> u32 \<Rightarrow> u32" where
  "rng_after 0 r = r"
| "rng_after (Suc k) r = rng_after k (snake_random (snake_random r))"

definition proposal :: "u32 \<Rightarrow> cell_pos" where
  "proposal r = (random_x (snake_random r), random_y (snake_random (snake_random r)))"

definition free_cell :: "snake_game \<Rightarrow> cell_pos \<Rightarrow> bool" where
  "free_cell g p \<longleftrightarrow> p \<notin> set (body g) \<and> p \<notin> set (foods g)"

definition add_food :: "cell_pos \<Rightarrow> u32 \<Rightarrow> snake_game \<Rightarrow> snake_game" where
  "add_food p r g = g\<lparr>snake_rng := r, food_x := (food_x g)[unat (food_count g) := fst p],
     food_y := (food_y g)[unat (food_count g) := snd p], food_count := food_count g + 1\<rparr>"

lemma rng_after_nonzero: "r \<noteq> 0 \<Longrightarrow> rng_after k r \<noteq> 0"
  by (induction k r rule: rng_after.induct) (auto simp: snake_random_nonzero)

lemma proposal_range: "food_range (proposal r)"
  using random_range by (simp add: proposal_def food_range_def)

lemma food_range_board: "food_range p \<Longrightarrow> on_board p"
  by (simp add: food_range_def on_board_def)

lemma frame_rng [simp]:
  "body (g\<lparr>snake_rng := r\<rparr>) = body g" "foods (g\<lparr>snake_rng := r\<rparr>) = foods g" "free_cell (g\<lparr>snake_rng := r\<rparr>) p = free_cell g p"
  "add_food p r' (g\<lparr>snake_rng := r\<rparr>) = add_food p r' g"
  by (simp_all add: body_def foods_def free_cell_def add_food_def)

lemma place_loop_step:
  assumes "game_arrays g" "unat (food_count g) < 5"
  shows "place_loop g = (if free_cell g (proposal (snake_rng g))
      then Some (add_food (proposal (snake_rng g)) (rng_after 1 (snake_rng g)) g)
      else place_loop (g\<lparr>snake_rng := rng_after 1 (snake_rng g)\<rparr>))"
proof -
  let ?r = "snake_random (snake_random (snake_rng g))"
  let ?g = "g\<lparr>snake_rng := ?r\<rparr>"
  have "?r \<noteq> 0" using assms(1) snake_random_nonzero by (simp add: game_arrays_def)
  then have a: "game_arrays ?g" "unat (food_count ?g) \<le> 5" using assms by (simp_all add: game_arrays_def)
  obtain x y where p: "proposal (snake_rng g) = (x, y)" "x = random_x (snake_random (snake_rng g))" "y = random_y ?r"
    by (simp add: proposal_def)
  have r1: "rng_after 1 (snake_rng g) = ?r" by simp
  show ?thesis
    unfolding r1 using assms occupies_eq [OF a(1), of x y] has_food_eq [OF a, of x y]
    by (subst place_loop.simps)
       (auto simp: Let_def p free_cell_def add_food_def array_set_def game_arrays_def simp flip: p(2,3))
qed


text \<open>The first free proposal is taken; without one the search never ends.\<close>

lemma place_loop_first:
  "game_arrays g \<Longrightarrow> unat (food_count g) < 5 \<Longrightarrow> free_cell g (proposal (rng_after k (snake_rng g))) \<Longrightarrow>
   (\<forall>j < k. \<not> free_cell g (proposal (rng_after j (snake_rng g)))) \<Longrightarrow>
   place_loop g = Some (add_food (proposal (rng_after k (snake_rng g))) (rng_after (Suc k) (snake_rng g)) g)"
proof (induction k arbitrary: g)
  case 0
  then show ?case using place_loop_step [of g] by simp
next
  case (Suc k)
  let ?r = "rng_after 1 (snake_rng g)"
  have n: "\<not> free_cell g (proposal (snake_rng g))" using Suc.prems(4) by force
  have s: "rng_after (Suc j) (snake_rng g) = rng_after j ?r" for j by simp
  have "?r \<noteq> 0" using Suc.prems(1) snake_random_nonzero by (simp add: game_arrays_def)
  then have a: "game_arrays (g\<lparr>snake_rng := ?r\<rparr>)" using Suc.prems(1) by (simp add: game_arrays_def)
  have "\<forall>j < k. \<not> free_cell g (proposal (rng_after j ?r))" using Suc.prems(4) s by (metis Suc_less_eq)
  then have "place_loop (g\<lparr>snake_rng := ?r\<rparr>) = Some (add_food (proposal (rng_after k ?r)) (rng_after (Suc k) ?r) g)"
    using Suc.IH [OF a] Suc.prems(2,3) s by simp
  then show ?case using place_loop_step [OF Suc.prems(1,2)] n s by simp
qed

lemma place_loop_none_aux:
  assumes "place_loop g = Some g'"
  shows "game_arrays g \<Longrightarrow> unat (food_count g) < 5 \<Longrightarrow> \<exists>k. free_cell g (proposal (rng_after k (snake_rng g)))"
proof -
  let ?P = "\<lambda>g. game_arrays g \<longrightarrow> unat (food_count g) < 5 \<longrightarrow> (\<exists>k. free_cell g (proposal (rng_after k (snake_rng g))))"
  have "?P g"
  proof (rule place_loop.raw_induct [where P = "\<lambda>g g'. ?P g", OF _ assms])
    fix f g g'
    assume ih: "\<And>g g'. f g = Some g' \<Longrightarrow> ?P g"
      and f: "do { let r1 = snake_random (snake_rng g); let r2 = snake_random r1; let x = random_x r1; let y = random_y r2;
          let g = g\<lparr>snake_rng := r2\<rparr>;
          o1 \<leftarrow> snake_occupies x y g;
          f1 \<leftarrow> (if o1 then Some True else snake_has_food x y g);
          if \<not> o1 \<and> \<not> f1
          then do { xs \<leftarrow> array_set (food_x g) (unat (food_count g)) x;
                    ys \<leftarrow> array_set (food_y g) (unat (food_count g)) y;
                    Some (g\<lparr>food_x := xs, food_y := ys, food_count := food_count g + 1\<rparr>) }
          else f g } = Some g'"
    show "?P g"
    proof (intro impI)
      assume a: "game_arrays g" "unat (food_count g) < 5"
      let ?r = "snake_random (snake_random (snake_rng g))"
      let ?g = "g\<lparr>snake_rng := ?r\<rparr>"
      have "?r \<noteq> 0" using a(1) snake_random_nonzero by (simp add: game_arrays_def)
      then have b: "game_arrays ?g" "unat (food_count ?g) \<le> 5" using a by (simp_all add: game_arrays_def)
      note o = occupies_eq [OF b(1)] has_food_eq [OF b]
      show "\<exists>k. free_cell g (proposal (rng_after k (snake_rng g)))"
      proof (cases "free_cell g (proposal (snake_rng g))")
        case False
        then have "f ?g = Some g'" using f o by (auto simp: Let_def free_cell_def proposal_def split: if_splits)
        from ih [OF this] b(1) a(2) obtain k where "free_cell g (proposal (rng_after k ?r))" by auto
        then show ?thesis by (intro exI [of _ "Suc k"]) simp
      qed (auto intro: exI [of _ 0])
    qed
  qed
  then show "game_arrays g \<Longrightarrow> unat (food_count g) < 5 \<Longrightarrow> \<exists>k. free_cell g (proposal (rng_after k (snake_rng g)))" by blast
qed

lemma place_loop_cases:
  assumes "game_arrays g" "unat (food_count g) < 5"
  obtains (found) k where "place_loop g = Some (add_food (proposal (rng_after k (snake_rng g))) (rng_after (Suc k) (snake_rng g)) g)"
      "free_cell g (proposal (rng_after k (snake_rng g)))" "\<forall>j < k. \<not> free_cell g (proposal (rng_after j (snake_rng g)))"
  | (search) "place_loop g = None" "\<forall>k. \<not> free_cell g (proposal (rng_after k (snake_rng g)))"
proof (cases "\<exists>k. free_cell g (proposal (rng_after k (snake_rng g)))")
  case True
  let ?k = "LEAST k. free_cell g (proposal (rng_after k (snake_rng g)))"
  have "free_cell g (proposal (rng_after ?k (snake_rng g)))" "\<forall>j < ?k. \<not> free_cell g (proposal (rng_after j (snake_rng g)))"
    using LeastI_ex [OF True] not_less_Least by blast+
  then show thesis using found place_loop_first [OF assms] by blast
next
  case False
  then have "place_loop g = None" using place_loop_none_aux [OF _ assms] by (cases "place_loop g") auto
  then show thesis using search False by blast
qed


lemma cells_append:
  "n < length xs \<Longrightarrow> n < length ys \<Longrightarrow> cells (xs[n := x]) (ys[n := y]) (Suc n) = cells xs ys n @ [(x, y)]"
  using zip_update [of xs n x ys y] by (simp add: cells_def take_Suc_conv_app_nth)

lemma byte_Suc: "unat b < 255 \<Longrightarrow> unat (b + 1 :: byte) = Suc (unat b)"
  by (simp add: unat_word_ariths)

lemma byte_pred: "0 < unat b \<Longrightarrow> unat (b - 1 :: byte) = unat b - 1"
  by (metis unat_eq_zero unat_minus_one less_numeral_extra(3))

lemma add_food_cells:
  assumes "game_arrays g" "unat (food_count g) < 5"
  shows "body (add_food p r g) = body g" "foods (add_food p r g) = foods g @ [p]"
    and "unat (food_count (add_food p r g)) = Suc (unat (food_count g))"
    and "r \<noteq> 0 \<Longrightarrow> game_arrays (add_food p r g)"
  using assms cells_append [of "unat (food_count g)" "food_x g" "food_y g" "fst p" "snd p"] byte_Suc [of "food_count g"]
  by (simp_all add: body_def foods_def add_food_def game_arrays_def)

text \<open>What placing a food leaves: the same snake, one food more, on a cell that was free.\<close>

definition food_added :: "snake_game \<Rightarrow> snake_game \<Rightarrow> bool" where
  "food_added g g' \<longleftrightarrow> (\<exists>p r. g' = add_food p r g \<and> r \<noteq> 0 \<and> free_cell g p \<and> food_range p)"

lemma food_added_ok:
  assumes "snake_ok g" "unat (food_count g) < 5" "food_added g g'"
  shows "snake_ok g'" "body g' = body g" "snake_length g' = snake_length g" "unat (food_count g') = Suc (unat (food_count g))"
proof -
  obtain p r where p: "g' = add_food p r g" "r \<noteq> 0" "free_cell g p" "food_range p" using assms(3) by (auto simp: food_added_def)
  have a: "game_arrays g" using assms(1) by (simp add: snake_ok_def)
  note c = add_food_cells [OF a assms(2), where p = p and r = r]
  have l: "snake_length g' = snake_length g" by (simp add: p(1) add_food_def)
  show "snake_ok g'" using assms(1,2) c p(2-4) l unfolding p(1) by (auto simp: snake_ok_def free_cell_def)
  show "body g' = body g" "snake_length g' = snake_length g" "unat (food_count g') = Suc (unat (food_count g))"
    using c l by (simp_all add: p(1))
qed

lemma place_food_cases:
  assumes "snake_ok g" "unat (food_count g) < 5"
  obtains (found) g' where "snake_place_food g = Some g'" "food_added g g'"
  | (search) "snake_place_food g = None" "\<forall>k. \<not> free_cell g (proposal (rng_after k (snake_rng g)))"
proof -
  have a: "game_arrays g" and f: "\<not> food_count g \<ge> 5" using assms by (simp_all add: snake_ok_def word_le_nat_alt)
  have r: "snake_rng g \<noteq> 0" using a by (simp add: game_arrays_def)
  show thesis
  proof (cases rule: place_loop_cases [OF a assms(2)])
    case (1 k)
    let ?g = "add_food (proposal (rng_after k (snake_rng g))) (rng_after (Suc k) (snake_rng g)) g"
    have "food_added g ?g" unfolding food_added_def using rng_after_nonzero [OF r] proposal_range 1(2) by blast
    moreover have "snake_place_food g = Some ?g" using 1(1) f by (simp add: snake_place_food_def)
    ultimately show thesis by (rule found [rotated])
  qed (use search f in \<open>simp add: snake_place_food_def\<close>)
qed

lemma remove_food_foods:
  assumes "game_arrays g" "unat (food_count g) \<le> 5" "i < unat (food_count g)"
  shows "\<exists>xs ys. remove_food i g = Some (g\<lparr>food_x := xs, food_y := ys, food_count := food_count g - 1\<rparr>)
    \<and> length xs = 5 \<and> length ys = 5 \<and> cells xs ys (unat (food_count g) - 1) = swap_out i (foods g)"
proof -
  let ?n = "unat (food_count g)"
  have l: "length (food_x g) = 5" "length (food_y g) = 5" using assms(1) by (simp_all add: game_arrays_def)
  have z: "last (foods g) = (food_x g ! (?n - 1), food_y g ! (?n - 1))"
    using assms(2,3) l by (subst last_conv_nth) (auto simp: foods_def cells_def)
  have d: "length (foods g) = ?n" using foods_cells assms by blast
  show ?thesis
  proof (cases "i < ?n - 1")
    case True
    let ?xs = "(food_x g)[i := food_x g ! (?n - 1)]" and ?ys = "(food_y g)[i := food_y g ! (?n - 1)]"
    have "remove_food i g = Some (g\<lparr>food_x := ?xs, food_y := ?ys, food_count := food_count g - 1\<rparr>)"
      using True assms(2) l by (simp add: remove_food_def Let_def array_get_def array_set_def)
    moreover have "cells ?xs ?ys (?n - 1) = butlast (cells ?xs ?ys ?n)" using assms(2,3) l by (intro cells_butlast) auto
    moreover have "cells ?xs ?ys ?n = (foods g)[i := last (foods g)]"
      using cells_update [of i ?n "food_x g" "food_y g"] assms(2,3) l z by (simp add: foods_def)
    ultimately show ?thesis using l by (intro exI [of _ ?xs] exI [of _ ?ys]) (simp add: swap_out_def)
  next
    case False
    then have i: "i = ?n - 1" using assms(3) by simp
    have "foods g \<noteq> []" using d assms(3) by auto
    then have "(foods g)[i := last (foods g)] = foods g" using d by (simp add: i last_conv_nth)
    then have "cells (food_x g) (food_y g) (?n - 1) = swap_out i (foods g)"
      using cells_butlast [of ?n "food_x g" "food_y g"] assms(2,3) l by (simp add: swap_out_def foods_def)
    then show ?thesis using False l by (intro exI [of _ "food_x g"] exI [of _ "food_y g"]) (simp add: remove_food_def Let_def)
  qed
qed


section \<open>Moving\<close>

text \<open>Two games with the same colours.\<close>

definition same_colors :: "snake_game \<Rightarrow> snake_game \<Rightarrow> bool" where
  "same_colors g g' \<longleftrightarrow> snake_color g' = snake_color g \<and> food_color g' = food_color g \<and> border_color g' = border_color g
     \<and> board_color g' = board_color g \<and> text_color g' = text_color g"

lemma snake_okD:
  assumes "snake_ok g"
  shows "game_arrays g" "0 < unat (snake_length g)" "unat (food_count g) \<le> 5" "distinct (body g)" "list_all on_board (body g)"
    "distinct (foods g)" "list_all food_range (foods g)" "set (foods g) \<inter> set (body g) = {}"
    "length (body g) = unat (snake_length g)" "length (foods g) = unat (food_count g)" "body g \<noteq> []"
  using assms body_cells [of g] foods_cells [of g] by (auto simp: snake_ok_def)

lemma move_body_body:
  assumes ok: "snake_ok g"
  shows "\<exists>xs ys. move_body x y g = Some (g\<lparr>snake_x := xs, snake_y := ys\<rparr>) \<and> length xs = 256 \<and> length ys = 256
    \<and> cells xs ys (unat (snake_length g)) = (x, y) # butlast (body g)
    \<and> cells xs ys (Suc (unat (snake_length g))) = (x, y) # body g"
proof -
  let ?n = "unat (snake_length g)"
  have a: "length (snake_x g) = 256" "length (snake_y g) = 256" using snake_okD(1) [OF ok] by (simp_all add: game_arrays_def)
  obtain xs ys where m: "move_body x y g = Some (g\<lparr>snake_x := xs, snake_y := ys\<rparr>)" "length xs = 256" "length ys = 256"
    "\<forall>m \<le> ?n. cells xs ys (Suc m) = (x, y) # cells (snake_x g) (snake_y g) m" using move_body_cells [OF a] by blast
  have "Suc (?n - 1) = ?n" using snake_okD(2) [OF ok] by simp
  moreover have "cells (snake_x g) (snake_y g) (?n - 1) = butlast (body g)"
    using cells_butlast [OF snake_okD(2) [OF ok]] a length_byte [of "snake_length g"] by (simp add: body_def)
  moreover have "cells xs ys (Suc (?n - 1)) = (x, y) # cells (snake_x g) (snake_y g) (?n - 1)" using m(4) by simp
  ultimately have "cells xs ys ?n = (x, y) # butlast (body g)" by metis
  then show ?thesis using m by (auto simp: body_def)
qed

lemma butlast_board: "list_all P xs \<Longrightarrow> list_all P (butlast xs)"
  by (auto simp: list_all_iff dest: in_set_butlastD)

text \<open>A step to a cell without food.\<close>

lemma plain_step:
  assumes ok: "snake_ok g" and p: "on_board (x, y)" "(x, y) \<notin> set (butlast (body g))" "(x, y) \<notin> set (foods g)"
  obtains g' where "move_body x y g = Some g'" "snake_ok g'" "body g' = (x, y) # butlast (body g)" "foods g' = foods g"
    "same_colors g g'" "snake_length g' = snake_length g"
proof -
  note o = snake_okD [OF ok]
  obtain xs ys where m: "move_body x y g = Some (g\<lparr>snake_x := xs, snake_y := ys\<rparr>)" "length xs = 256" "length ys = 256"
    "cells xs ys (unat (snake_length g)) = (x, y) # butlast (body g)" using move_body_body [OF ok] by blast
  let ?g = "g\<lparr>snake_x := xs, snake_y := ys\<rparr>"
  have b: "body ?g = (x, y) # butlast (body g)" "foods ?g = foods g" using m(4) by (simp_all add: body_def foods_def)
  have "set (foods g) \<inter> set (butlast (body g)) = {}" using o(8) by (auto dest: in_set_butlastD)
  then have "snake_ok ?g"
    unfolding snake_ok_def b using o m(2,3) p by (auto simp: game_arrays_def distinct_butlast butlast_board)
  then show thesis using that m(1) b by (simp add: same_colors_def)
qed

text \<open>The state between the removal of the eaten food and the placing of the next one.\<close>

lemma eat_step:
  assumes ok: "snake_ok g" and p: "on_board (x, y)" "(x, y) \<notin> set (body g)" and i: "i < unat (food_count g)" "foods g ! i = (x, y)"
    and m: "move_body x y g = Some g1"
  obtains g2 where "remove_food i g1 = Some g2"
    "snake_ok (if unat (snake_length g2) + 1 < 256 then g2\<lparr>snake_length := snake_length g2 + 1\<rparr> else g2)"
    "body (if unat (snake_length g2) + 1 < 256 then g2\<lparr>snake_length := snake_length g2 + 1\<rparr> else g2)
      = (x, y) # (if unat (snake_length g) < 255 then body g else butlast (body g))"
    "foods g2 = swap_out i (foods g)" "same_colors g g2" "unat (food_count g2) < 5" "snake_length g2 = snake_length g"
proof -
  note o = snake_okD [OF ok]
  obtain xs ys where g1: "g1 = g\<lparr>snake_x := xs, snake_y := ys\<rparr>" "length xs = 256" "length ys = 256"
    and c: "cells xs ys (unat (snake_length g)) = (x, y) # butlast (body g)"
      "cells xs ys (Suc (unat (snake_length g))) = (x, y) # body g" using move_body_body [OF ok, of x y] m by auto
  have a: "game_arrays g1" using o(1) g1 by (simp add: game_arrays_def)
  obtain fx fy where r: "remove_food i g1 = Some (g1\<lparr>food_x := fx, food_y := fy, food_count := food_count g1 - 1\<rparr>)"
    "length fx = 5" "length fy = 5" "cells fx fy (unat (food_count g) - 1) = swap_out i (foods g)"
    using remove_food_foods [OF a, of i] o(3) i(1) by (auto simp: g1(1) foods_def)
  let ?g = "g1\<lparr>food_x := fx, food_y := fy, food_count := food_count g1 - 1\<rparr>"
  have n: "unat (food_count g - 1) = unat (food_count g) - 1" using i(1) by (intro byte_pred) simp
  have f: "foods ?g = swap_out i (foods g)" "snake_length ?g = snake_length g" "unat (food_count ?g) < 5"
    using r(4) n o(3) i(1) by (simp_all add: foods_def g1(1))
  have "i < length (foods g)" using i(1) o(10) by simp
  note s = swap_out_set [OF o(6) this]
  have fs: "distinct (swap_out i (foods g))" "list_all food_range (swap_out i (foods g))"
    "(x, y) \<notin> set (swap_out i (foods g))" "set (swap_out i (foods g)) \<inter> set (body g) = {}"
    using s o(7,8) i(2) by (auto simp: list_all_iff)
  have ga: "game_arrays ?g" using a r(2,3) by (simp add: game_arrays_def)
  let ?G = "if unat (snake_length ?g) + 1 < 256 then ?g\<lparr>snake_length := snake_length ?g + 1\<rparr> else ?g"
  have G: "game_arrays ?G" "foods ?G = swap_out i (foods g)" "food_count ?G = food_count ?g" "0 < unat (snake_length ?G)"
    "body ?G = (x, y) # (if unat (snake_length g) < 255 then body g else butlast (body g))"
    using ga f o(2) c byte_Suc [of "snake_length g"] by (auto simp: game_arrays_def foods_def body_def g1(1))
  have "snake_ok ?G"
    unfolding snake_ok_def G(2,3,5) using G(1,4) f(3) fs p o(4,5)
    by (auto simp: distinct_butlast butlast_board dest: in_set_butlastD)
  then show thesis using that [of ?g] r(1) G(5) f by (simp add: same_colors_def g1(1))
qed


section \<open>The screen\<close>

definition cell_index :: "cell_pos \<Rightarrow> nat" where
  "cell_index p = unat (snd p) * TERM_WIDTH + unat (fst p)"

abbreviation view :: "terminal \<Rightarrow> cell_pos \<Rightarrow> u16" where
  "view t p \<equiv> vga_buffer t ! cell_index p"

text \<open>Only cells of the screen were written; on the board exactly those in \<open>dom f\<close>, with the given contents.\<close>

definition repaints :: "(cell_pos \<rightharpoonup> u16) \<Rightarrow> terminal \<Rightarrow> terminal \<Rightarrow> bool" where
  "repaints f t t' \<longleftrightarrow> (\<exists>b. t' = t\<lparr>vga_buffer := b\<rparr>) \<and> length (vga_buffer t') = 2000
     \<and> (\<forall>p. on_board p \<longrightarrow> view t' p = (case f p of None \<Rightarrow> view t p | Some v \<Rightarrow> v))"

definition painted :: "cell_pos set \<Rightarrow> u16 \<Rightarrow> (cell_pos \<rightharpoonup> u16)" where
  "painted ps v p = (if p \<in> ps then Some v else None)"

lemma view_repaints: "repaints f t t' \<Longrightarrow> on_board p \<Longrightarrow> view t' p = (case f p of None \<Rightarrow> view t p | Some v \<Rightarrow> v)"
  unfolding repaints_def by blast

lemma repaints_refl: "length (vga_buffer t) = 2000 \<Longrightarrow> repaints Map.empty t t"
  unfolding repaints_def by (auto intro: exI [of _ "vga_buffer t"])

lemma repaints_trans:
  assumes "repaints f t t1" "repaints g t1 t2"
  shows "repaints (f ++ g) t t2"
  using assms by (auto simp: repaints_def map_add_def split: option.splits)

lemma repaints_length: "repaints f t t' \<Longrightarrow> length (vga_buffer t') = 2000"
  by (simp add: repaints_def)

lemma repaints_term: "repaints f t t' \<Longrightarrow> term_ok t \<Longrightarrow> term_ok t'"
  by (auto simp: repaints_def term_ok_def)

lemma board_index: "on_board p \<Longrightarrow> 80 < cell_index p \<and> cell_index p < 1920 \<and> 1 \<le> cell_index p mod 80 \<and> cell_index p mod 80 \<le> 78"
  by (simp add: on_board_def cell_index_def)

lemma cell_index_inj:
  assumes "on_board p" "on_board q"
  shows "cell_index p = cell_index q \<longleftrightarrow> p = q"
proof
  assume e: "cell_index p = cell_index q"
  have "unat (fst p) = cell_index p mod 80" "unat (fst q) = cell_index q mod 80"
    "unat (snd p) = cell_index p div 80" "unat (snd q) = cell_index q div 80"
    using assms by (simp_all add: cell_index_def on_board_def)
  then show "p = q" using e by (simp add: prod_eq_iff word_unat_eq_iff)
qed simp

lemma vga_set_off:
  assumes "length (vga_buffer t) = 2000" "i < 2000" "\<forall>p. on_board p \<longrightarrow> cell_index p \<noteq> i"
  shows "\<exists>t'. vga_set i v t = Some t' \<and> repaints Map.empty t t'"
proof -
  have "(vga_buffer t)[i := v] ! cell_index p = view t p" if "on_board p" for p using assms(3) that by (metis nth_list_update_neq)
  with assms(1,2) show ?thesis by (simp add: vga_set_def array_set_def repaints_def) blast
qed

lemma put_cell_board:
  assumes "length (vga_buffer t) = 2000" "on_board (x, y)"
  shows "\<exists>t'. snake_put_cell x y ch attr t = Some t' \<and> repaints (painted {(x, y)} (vga_cell attr ch)) t t'"
proof -
  let ?t = "t\<lparr>vga_buffer := (vga_buffer t)[cell_index (x, y) := vga_cell attr ch]\<rparr>"
  have "cell_index (x, y) < 2000" using board_index [OF assms(2)] by simp
  then have "snake_put_cell x y ch attr t = Some ?t"
    using assms by (simp add: snake_put_cell_def vga_set_def array_set_def cell_index_def on_board_def)
  moreover have "view ?t p = (if p = (x, y) then vga_cell attr ch else view t p)" if "on_board p" for p
    using assms(1) \<open>cell_index (x, y) < 2000\<close> cell_index_inj [OF that assms(2)] by (auto simp: nth_list_update)
  then have "repaints (painted {(x, y)} (vga_cell attr ch)) t ?t" using assms(1) by (auto simp: repaints_def painted_def)
  ultimately show ?thesis by blast
qed

lemma put_cell_off:
  assumes "length (vga_buffer t) = 2000" "\<not> on_board (x, y)"
  shows "\<exists>t'. snake_put_cell x y ch attr t = Some t' \<and> repaints Map.empty t t'"
proof (cases "unat x \<ge> 80 \<or> unat y \<ge> 25")
  case True
  then show ?thesis using repaints_refl [OF assms(1)] by (auto simp: snake_put_cell_def)
next
  case False
  have "cell_index p \<noteq> cell_index (x, y)" if "on_board p" for p
  proof
    assume e: "cell_index p = cell_index (x, y)"
    have "unat x = cell_index p mod 80" "unat y = cell_index p div 80" using False e by (simp_all add: cell_index_def)
    then show False using assms(2) that by (simp add: on_board_def cell_index_def)
  qed
  moreover have "cell_index (x, y) < 2000" using False by (simp add: cell_index_def)
  ultimately show ?thesis
    using vga_set_off [OF assms(1), of "cell_index (x, y)"] False by (simp add: snake_put_cell_def cell_index_def)
qed

lemma painted_add: "painted A v ++ painted B v = painted (A \<union> B) v"
  by (auto simp: painted_def map_add_def fun_eq_iff)

lemma painted_empty: "painted {} v = Map.empty"
  by (simp add: painted_def fun_eq_iff)

lemma draw_cells_paint:
  "length (vga_buffer t) = 2000 \<Longrightarrow> i + n \<le> length xs \<Longrightarrow> i + n \<le> length ys \<Longrightarrow>
   list_all on_board (take n (drop i (zip xs ys))) \<Longrightarrow>
   \<exists>t'. draw_cells xs ys ch attr i n t = Some t'
     \<and> repaints (painted (set (take n (drop i (zip xs ys)))) (vga_cell attr ch)) t t'"
proof (induction n arbitrary: i t)
  case 0
  then show ?case using repaints_refl by (simp add: painted_empty)
next
  case (Suc n)
  have d: "drop i (zip xs ys) = (xs ! i, ys ! i) # drop (Suc i) (zip xs ys)" using Suc.prems by (intro drop_zip_Cons) simp_all
  obtain t1 where t1: "snake_put_cell (xs ! i) (ys ! i) ch attr t = Some t1"
    "repaints (painted {(xs ! i, ys ! i)} (vga_cell attr ch)) t t1"
    using put_cell_board [OF Suc.prems(1), of "xs ! i" "ys ! i"] Suc.prems(4) by (auto simp: d)
  obtain t2 where t2: "draw_cells xs ys ch attr (Suc i) n t1 = Some t2"
    "repaints (painted (set (take n (drop (Suc i) (zip xs ys)))) (vga_cell attr ch)) t1 t2"
    using Suc.IH [OF repaints_length [OF t1(2)], of "Suc i"] Suc.prems by (auto simp: d)
  show ?case using t1(1) t2(1) repaints_trans [OF t1(2) t2(2)] Suc.prems by (simp add: array_get_def d painted_add)
qed

lemma fill_cells_off:
  "length (vga_buffer t) = 2000 \<Longrightarrow> 1920 \<le> i \<Longrightarrow> i + n \<le> 2000 \<Longrightarrow> \<exists>t'. fill_cells i n v t = Some t' \<and> repaints Map.empty t t'"
proof (induction n arbitrary: i t)
  case (Suc n)
  obtain t1 where t1: "vga_set i v t = Some t1" "repaints Map.empty t t1"
    using vga_set_off [OF Suc.prems(1), of i] Suc.prems(2,3) board_index by force
  show ?case using Suc.IH [OF repaints_length [OF t1(2)], of "Suc i"] Suc.prems t1 repaints_trans [OF t1(2)] by auto
qed (simp add: repaints_refl)

lemma write_cells_off:
  "length (vga_buffer t) = 2000 \<Longrightarrow> 1920 \<le> i \<Longrightarrow> i + length cs \<le> 2000 \<Longrightarrow>
     \<exists>t'. write_cells i cs attr t = Some t' \<and> repaints Map.empty t t'"
proof (induction cs arbitrary: i t)
  case (Cons c cs)
  obtain t1 where t1: "vga_set i (vga_cell attr c) t = Some t1" "repaints Map.empty t t1"
    using vga_set_off [OF Cons.prems(1), of i] Cons.prems(2,3) board_index by force
  show ?case using Cons.IH [OF repaints_length [OF t1(2)], of "Suc i"] Cons.prems t1 repaints_trans [OF t1(2)] by auto
qed (simp add: repaints_refl)


lemma repaints_left: "repaints Map.empty t t1 \<Longrightarrow> repaints f t1 t2 \<Longrightarrow> repaints f t t2"
  using repaints_trans [of Map.empty t t1 f t2] by simp

lemma repaints_right: "repaints f t t1 \<Longrightarrow> repaints Map.empty t1 t2 \<Longrightarrow> repaints f t t2"
  using repaints_trans [of f t t1 Map.empty t2] by simp

lemma draw_status_off:
  assumes "length (vga_buffer t) = 2000"
  shows "\<exists>t'. snake_draw_status score g t = Some t' \<and> repaints Map.empty t t'"
proof -
  have off: "\<exists>t'. vga_set i v t = Some t' \<and> repaints Map.empty t t'" if "length (vga_buffer t) = 2000" "1920 \<le> i" "i < 2000" for i v t
    using vga_set_off [OF that(1,3)] board_index that(2) by force
  obtain t1 where 1: "fill_cells 1920 80 (vga_cell (board_color g) 32) t = Some t1" "repaints Map.empty t t1"
    using fill_cells_off [OF assms, of 1920 80] by auto
  obtain t2 where 2: "vga_set 1920 (vga_cell (border_color g) 124) t1 = Some t2" "repaints Map.empty t1 t2"
    using off [OF repaints_length [OF 1(2)], of 1920] by auto
  obtain t3 where 3: "vga_set 1999 (vga_cell (border_color g) 124) t2 = Some t3" "repaints Map.empty t2 t3"
    using off [OF repaints_length [OF 2(2)], of 1999] by auto
  obtain t4 where 4: "write_cells 1921 (take 78 (lit status_text)) (text_color g) t3 = Some t4" "repaints Map.empty t3 t4"
    using write_cells_off [OF repaints_length [OF 3(2)], of 1921 "take 78 (lit status_text)"] by (auto simp: min_le_iff_disj)
  obtain t5 where 5: "write_cells 1928 (take 3 (number_text score)) (text_color g) t4 = Some t5" "repaints Map.empty t4 t5"
    using write_cells_off [OF repaints_length [OF 4(2)], of 1928 "take 3 (number_text score)"] by (auto simp: min_le_iff_disj)
  obtain t6 where 6: "vga_set 1943 (vga_cell (text_color g) (48 + food_count g)) t5 = Some t6" "repaints Map.empty t5 t6"
    using off [OF repaints_length [OF 5(2)], of 1943] by auto
  obtain t7 where 7: "write_cells 1957 (take 3 (number_text (uint (snake_length g)))) (text_color g) t6 = Some t7" "repaints Map.empty t6 t7"
    using write_cells_off [OF repaints_length [OF 6(2)], of 1957 "take 3 (number_text (uint (snake_length g)))"] by (auto simp: min_le_iff_disj)
  have "snake_draw_status score g t = Some t7"
    using 1(1) 2(1) 3(1) 4(1) 5(1) 6(1) 7(1) by (simp add: snake_draw_status_def Let_def)
  then show ?thesis using repaints_left 1(2) 2(2) 3(2) 4(2) 5(2) 6(2) 7(2) by blast
qed

lemma draw_foods_paint:
  assumes "snake_ok g" "length (vga_buffer t) = 2000"
  shows "\<exists>t'. snake_draw_foods g t = Some t' \<and> repaints (painted (set (foods g)) (vga_cell (food_color g) 42)) t t'"
proof -
  note o = snake_okD [OF assms(1)]
  have "list_all on_board (foods g)" using o(7) food_range_board by (auto simp: list_all_iff)
  then show ?thesis using draw_cells_paint [OF assms(2), of 0 "unat (food_count g)" "food_x g" "food_y g"] o(1,3)
    by (simp add: snake_draw_foods_def foods_def cells_def game_arrays_def)
qed

lemma draw_body_cell:
  assumes "snake_ok g" "length (vga_buffer t) = 2000" "i < unat (snake_length g)"
  shows "\<exists>t'. draw_cells (snake_x g) (snake_y g) ch attr i 1 t = Some t' \<and> repaints (painted {body g ! i} (vga_cell attr ch)) t t'"
proof -
  note o = snake_okD [OF assms(1)]
  have l: "length (snake_x g) = 256" "length (snake_y g) = 256" using o(1) by (simp_all add: game_arrays_def)
  have i: "i < 256" using assms(3) length_byte [of "snake_length g"] by simp
  have e: "take 1 (drop i (zip (snake_x g) (snake_y g))) = [body g ! i]"
    using l i assms(3) by (simp add: drop_zip_Cons body_def cells_def)
  have "on_board (body g ! i)" using o(5,9) assms(3) by (simp add: list_all_length)
  then show ?thesis using draw_cells_paint [OF assms(2), of i 1 "snake_x g" "snake_y g", unfolded e] i l by simp
qed

section \<open>The screen shows the game\<close>

definition shown :: "snake_game \<Rightarrow> cell_pos \<Rightarrow> u16" where
  "shown g p =
     (if p = hd (body g) then vga_cell (snake_color g) 64
      else if p \<in> set (body g) then vga_cell (snake_color g) 111
      else if p \<in> set (foods g) then vga_cell (food_color g) 42
      else vga_cell (board_color g) 32)"

definition screen_shows :: "snake_game \<Rightarrow> terminal \<Rightarrow> bool" where
  "screen_shows g t \<longleftrightarrow> length (vga_buffer t) = 2000 \<and> (\<forall>p. on_board p \<longrightarrow> view t p = shown g p)"

lemma redraw_paint:
  assumes "snake_ok (sr_game r)" "length (vga_buffer t) = 2000"
  defines "g \<equiv> sr_game r"
  shows "\<exists>t'. redraw r t = Some t' \<and> repaints (painted (set (take 1 (tl (body g)))) (vga_cell (snake_color g) 111)
      ++ painted {hd (body g)} (vga_cell (snake_color g) 64) ++ painted (set (foods g)) (vga_cell (food_color g) 42)) t t'"
proof -
  have ok: "snake_ok g" using assms(1) by (simp add: g_def)
  note o = snake_okD [OF ok]
  have "\<exists>t1. (if snake_length g > 1 then draw_cells (snake_x g) (snake_y g) 111 (snake_color g) 1 1 t else Some t) = Some t1
      \<and> repaints (painted (set (take 1 (tl (body g)))) (vga_cell (snake_color g) 111)) t t1"
  proof (cases "snake_length g > 1")
    case True
    then have l: "1 < length (body g)" using o(9) by (simp add: word_less_nat_alt)
    then have "take 1 (tl (body g)) = [body g ! 1]" by (cases "body g" rule: list.exhaust, simp, cases "tl (body g)") auto
    then show ?thesis using True draw_body_cell [OF ok assms(2), of 1] l o(9) by simp
  next
    case False
    then have "length (body g) = 1" using o(2,9) by (simp add: word_less_nat_alt)
    then have "tl (body g) = []" by (cases "body g") auto
    then show ?thesis using False repaints_refl [OF assms(2)] by (simp add: painted_empty)
  qed
  then obtain t1 where t1: "(if snake_length g > 1 then draw_cells (snake_x g) (snake_y g) 111 (snake_color g) 1 1 t else Some t) = Some t1"
    "repaints (painted (set (take 1 (tl (body g)))) (vga_cell (snake_color g) 111)) t t1" by blast
  obtain t2 where t2: "draw_cells (snake_x g) (snake_y g) 64 (snake_color g) 0 1 t1 = Some t2"
    "repaints (painted {hd (body g)} (vga_cell (snake_color g) 64)) t1 t2"
    using draw_body_cell [OF ok repaints_length [OF t1(2)] o(2)] o(11) by (auto simp: hd_conv_nth)
  obtain t3 where t3: "snake_draw_foods g t2 = Some t3" "repaints (painted (set (foods g)) (vga_cell (food_color g) 42)) t2 t3"
    using draw_foods_paint [OF ok repaints_length [OF t2(2)]] by blast
  obtain t4 where t4: "snake_draw_status (sr_score r) g t3 = Some t4" "repaints Map.empty t3 t4"
    using draw_status_off [OF repaints_length [OF t3(2)]] by blast
  have "redraw r t = Some t4"
    unfolding redraw_def Let_def g_def [symmetric] t1(1) by (simp only: Option.bind.bind_lunit t2(1) t3(1) t4(1))
  then show ?thesis using repaints_right [OF repaints_trans [OF repaints_trans [OF t1(2) t2(2)] t3(2)] t4(2)] by blast
qed

lemma redraw_shows:
  assumes ok: "snake_ok (sr_game r)" and t: "length (vga_buffer t) = 2000"
    and v: "\<And>q. on_board q \<Longrightarrow> q \<notin> set (foods (sr_game r)) \<Longrightarrow> q \<notin> set (take 2 (body (sr_game r))) \<Longrightarrow>
      view t q = (if q \<in> set (body (sr_game r)) then vga_cell (snake_color (sr_game r)) 111 else vga_cell (board_color (sr_game r)) 32)"
  shows "\<exists>t'. redraw r t = Some t' \<and> screen_shows (sr_game r) t' \<and> repaints (\<lambda>p. Some (view t' p)) t t'"
proof -
  let ?g = "sr_game r"
  note o = snake_okD [OF ok]
  obtain t' where t': "redraw r t = Some t'" and p: "repaints (painted (set (take 1 (tl (body ?g)))) (vga_cell (snake_color ?g) 111)
      ++ painted {hd (body ?g)} (vga_cell (snake_color ?g) 64) ++ painted (set (foods ?g)) (vga_cell (food_color ?g) 42)) t t'"
    using redraw_paint [OF ok t] by blast
  obtain h bs where b: "body ?g = h # bs" using o(11) by (cases "body ?g") auto
  have "view t' q = shown ?g q" if q: "on_board q" for q
  proof -
    have "view t' q = (case (painted (set (take 1 bs)) (vga_cell (snake_color ?g) 111)
      ++ painted {h} (vga_cell (snake_color ?g) 64) ++ painted (set (foods ?g)) (vga_cell (food_color ?g) 42)) q
      of None \<Rightarrow> view t q | Some v \<Rightarrow> v)" using p q unfolding repaints_def b list.sel by blast
    moreover have "take 2 (body ?g) = h # take 1 bs" by (simp add: b)
    ultimately show ?thesis using v [OF q] o(8) in_set_takeD [of q 1 bs]
      by (auto simp: shown_def b painted_def map_add_def)
  qed
  then show ?thesis using t' p by (auto simp: screen_shows_def repaints_def)
qed


text \<open>At the maximal length of 255 an eaten food no longer makes the snake grow, but its tail stays on the screen.\<close>

definition drawn :: "snake_game \<Rightarrow> terminal \<Rightarrow> bool" where
  "drawn g t \<longleftrightarrow> length (vga_buffer t) = 2000 \<and> (unat (snake_length g) < 255 \<longrightarrow> screen_shows g t)"

text \<open>A good successor of the state \<open>r\<close>, \<open>t\<close> with the head at \<open>p\<close>.\<close>

definition good_step :: "snake_run \<Rightarrow> terminal \<Rightarrow> cell_pos \<Rightarrow> snake_run \<Rightarrow> terminal \<Rightarrow> bool" where
  "good_step r t p r' t' \<longleftrightarrow> snake_ok (sr_game r') \<and> drawn (sr_game r') t' \<and> (\<exists>f. repaints f t t') \<and> hd (body (sr_game r')) = p
     \<and> body (sr_game r') \<in> {p # body (sr_game r), p # butlast (body (sr_game r))}
     \<and> sr_dx r' = sr_dx r \<and> sr_dy r' = sr_dy r \<and> sr_frame r' = sr_frame r \<and> same_colors (sr_game r) (sr_game r')"

lemma same_colors_shown:
  "same_colors g g' \<Longrightarrow> snake_color g' = snake_color g \<and> food_color g' = food_color g \<and> board_color g' = board_color g"
  by (simp add: same_colors_def)

lemma redraw_drawn:
  assumes ok: "snake_ok (sr_game r)" and t: "length (vga_buffer t) = 2000"
    and v: "\<And>q. unat (snake_length (sr_game r)) < 255 \<Longrightarrow> on_board q \<Longrightarrow> q \<notin> set (foods (sr_game r)) \<Longrightarrow>
      q \<notin> set (take 2 (body (sr_game r))) \<Longrightarrow>
      view t q = (if q \<in> set (body (sr_game r)) then vga_cell (snake_color (sr_game r)) 111 else vga_cell (board_color (sr_game r)) 32)"
  shows "\<exists>t' f. redraw r t = Some t' \<and> drawn (sr_game r) t' \<and> repaints f t t'"
proof (cases "unat (snake_length (sr_game r)) < 255")
  case True
  then show ?thesis using redraw_shows [OF ok t] v unfolding drawn_def screen_shows_def by metis
next
  case False
  then show ?thesis using redraw_paint [OF ok t] repaints_length unfolding drawn_def by metis
qed

lemma advance_plain:
  assumes ok: "snake_ok (sr_game r)" and d: "drawn (sr_game r) t"
    and p: "on_board (x, y)" "(x, y) \<notin> set (butlast (body (sr_game r)))" "(x, y) \<notin> set (foods (sr_game r))"
  shows "\<exists>r' t'. snake_advance x y None r t = Some (r', t') \<and> good_step r t (x, y) r' t'
    \<and> foods (sr_game r') = foods (sr_game r)"
proof -
  let ?g = "sr_game r"
  note o = snake_okD [OF ok]
  obtain g' where m: "move_body x y ?g = Some g'" "snake_ok g'" "body g' = (x, y) # butlast (body ?g)" "foods g' = foods ?g"
    "same_colors ?g g'" "snake_length g' = snake_length ?g" by (rule plain_step [OF ok p])
  obtain a b where tail: "last (body ?g) = (a, b)" by fastforce
  have l: "length (snake_x ?g) = 256" "length (snake_y ?g) = 256" "unat (snake_length ?g) - 1 < 256"
    using o(1) length_byte [of "snake_length ?g"] by (simp_all add: game_arrays_def)
  have "body ?g ! (unat (snake_length ?g) - 1) = (a, b)" using tail o(9,11) by (simp add: last_conv_nth)
  then have ab: "array_get (snake_x ?g) (unat (snake_length ?g) - 1) = Some a" "array_get (snake_y ?g) (unat (snake_length ?g) - 1) = Some b"
    using l o(2) by (simp_all add: body_def cells_def array_get_def)
  have bd: "on_board (a, b)" using o(5,11) tail last_in_set by (fastforce simp: list_all_iff)
  have t: "length (vga_buffer t) = 2000" using d by (simp add: drawn_def)
  obtain t1 where t1: "snake_put_cell a b 32 (board_color g') t = Some t1" "repaints (painted {(a, b)} (vga_cell (board_color g') 32)) t t1"
    using put_cell_board [OF t bd] by blast
  let ?r = "r\<lparr>sr_game := g'\<rparr>"
  have "view t1 q = (if q \<in> set (body g') then vga_cell (snake_color g') 111 else vga_cell (board_color g') 32)"
    if s: "unat (snake_length g') < 255" and q: "on_board q" "q \<notin> set (foods g')" "q \<notin> set (take 2 (body g'))" for q
  proof -
    have v: "view t q = shown ?g q" using d s q(1) unfolding drawn_def screen_shows_def m(6) by blast
    have e: "view t1 q = (if q = (a, b) then vga_cell (board_color g') 32 else view t q)"
      using view_repaints [OF t1(2) q(1)] by (simp add: painted_def)
    obtain bs where bs: "body ?g = bs @ [(a, b)]" using o(11) tail by (metis append_butlast_last_id)
    show ?thesis using e v o(4) q(2,3) m(3,4) same_colors_shown [OF m(5)]
      by (cases bs) (auto simp: shown_def bs)
  qed
  moreover have g': "sr_game ?r = g'" by simp
  ultimately obtain t2 f where t2: "redraw ?r t1 = Some t2" "drawn g' t2" "repaints f t1 t2"
    using redraw_drawn [of ?r t1, unfolded g', OF m(2) repaints_length [OF t1(2)]] by blast
  have "snake_advance x y None r t = Some (?r, t2)"
    using ab m(1) t1(1) t2(1) by (simp add: snake_advance_def Let_def)
  moreover have "good_step r t (x, y) ?r t2"
    unfolding good_step_def using m t2(2) repaints_trans [OF t1(2) t2(3)] by auto
  ultimately show ?thesis using m(4) by auto
qed


text \<open>The search for the next food starts from this state.\<close>

definition eaten_game :: "nat \<Rightarrow> snake_run \<Rightarrow> byte \<Rightarrow> byte \<Rightarrow> snake_game option" where
  "eaten_game i r x y =
     do { g \<leftarrow> move_body x y (sr_game r);
          g \<leftarrow> remove_food i g;
          Some (if unat (snake_length g) + 1 < 256 then g\<lparr>snake_length := snake_length g + 1\<rparr> else g) }"

definition no_free_cell :: "snake_game \<Rightarrow> bool" where
  "no_free_cell g \<longleftrightarrow> (\<forall>k. \<not> free_cell g (proposal (rng_after k (snake_rng g))))"

lemma advance_eating:
  assumes ok: "snake_ok (sr_game r)" and d: "drawn (sr_game r) t"
    and p: "on_board (x, y)" "(x, y) \<notin> set (body (sr_game r))" and i: "i < unat (food_count (sr_game r))" "foods (sr_game r) ! i = (x, y)"
  shows "(\<exists>r' t'. snake_advance x y (Some i) r t = Some (r', t') \<and> good_step r t (x, y) r' t')
    \<or> snake_advance x y (Some i) r t = None \<and> (\<exists>g. eaten_game i r x y = Some g \<and> snake_ok g \<and> no_free_cell g)"
proof -
  let ?g = "sr_game r"
  note o = snake_okD [OF ok]
  obtain g1 where m: "move_body x y ?g = Some g1" using move_body_body [OF ok] by blast
  obtain g2 where g2: "remove_food i g1 = Some g2"
    and ok2: "snake_ok (if unat (snake_length g2) + 1 < 256 then g2\<lparr>snake_length := snake_length g2 + 1\<rparr> else g2)"
    and b2: "body (if unat (snake_length g2) + 1 < 256 then g2\<lparr>snake_length := snake_length g2 + 1\<rparr> else g2)
      = (x, y) # (if unat (snake_length ?g) < 255 then body ?g else butlast (body ?g))"
    and f2: "foods g2 = swap_out i (foods ?g)" "same_colors ?g g2" "unat (food_count g2) < 5" "snake_length g2 = snake_length ?g"
    by (rule eat_step [OF ok p i m])
  define G where "G = (if unat (snake_length g2) + 1 < 256 then g2\<lparr>snake_length := snake_length g2 + 1\<rparr> else g2)"
  have G: "snake_ok G" "body G = (x, y) # (if unat (snake_length ?g) < 255 then body ?g else butlast (body ?g))"
    "foods G = swap_out i (foods ?g)" "same_colors ?g G" "unat (food_count G) < 5" "food_count G < 5"
    using ok2 b2 f2 by (auto simp: G_def foods_def same_colors_def word_less_nat_alt)
  have e: "eaten_game i r x y = Some G" using m g2 by (simp add: eaten_game_def G_def)
  have l: "length (snake_x ?g) = 256" "length (snake_y ?g) = 256" "unat (snake_length ?g) - 1 < 256"
    using o(1) length_byte [of "snake_length ?g"] by (simp_all add: game_arrays_def)
  then obtain a b where ab: "array_get (snake_x ?g) (unat (snake_length ?g) - 1) = Some a" "array_get (snake_y ?g) (unat (snake_length ?g) - 1) = Some b"
    by (simp add: array_get_def)
  have eat: "eat_food i (r\<lparr>sr_game := g1\<rparr>) = map_option (\<lambda>g. r\<lparr>sr_game := g, sr_score := sr_score r + 10\<rparr>) (snake_place_food G)"
  proof -
    have "sr_game (r\<lparr>sr_game := g1\<rparr>) = g1" "sr_score (r\<lparr>sr_game := g1\<rparr>) = sr_score r"
      "\<And>g s. r\<lparr>sr_game := g1, sr_game := g, sr_score := s\<rparr> = r\<lparr>sr_game := g, sr_score := s\<rparr>" by simp_all
    then show ?thesis unfolding eat_food_def Let_def
      by (cases "snake_place_food G") (simp_all only: g2 Option.bind.bind_lunit Option.bind.bind_lzero G_def [symmetric] G(6) if_True option.map)
  qed
  have adv: "snake_advance x y (Some i) r t = do { g \<leftarrow> snake_place_food G;
      let r = r\<lparr>sr_game := g, sr_score := sr_score r + 10\<rparr>; t \<leftarrow> redraw r t; Some (r, t) }"
    unfolding snake_advance_def Let_def ab m Option.bind.bind_lunit option.case eat by (cases "snake_place_food G") simp_all
  show ?thesis
  proof (cases rule: place_food_cases [OF G(1,5)])
    case (1 g')
    note a = food_added_ok [OF G(1,5) 1(2)]
    obtain q0 where q0: "foods g' = foods G @ [q0]" "same_colors G g'"
      using 1(2) add_food_cells(2) [OF snake_okD(1) [OF G(1)] G(5)] by (auto simp: food_added_def add_food_def same_colors_def)
    have c: "same_colors ?g g'" using G(4) q0(2) by (simp add: same_colors_def)
    let ?r = "r\<lparr>sr_game := g', sr_score := sr_score r + 10\<rparr>"
    have "view t q = (if q \<in> set (body g') then vga_cell (snake_color g') 111 else vga_cell (board_color g') 32)"
      if s: "unat (snake_length g') < 255" and q: "on_board q" "q \<notin> set (foods g')" "q \<notin> set (take 2 (body g'))" for q
    proof -
      have n: "unat (snake_length ?g) < 255"
        using s a(2,3) snake_okD(9) [OF G(1)] G(2) o(9,11) by (auto simp: less_Suc_eq split: if_splits)
      then have v: "view t q = shown ?g q" using d q(1) unfolding drawn_def screen_shows_def by blast
      have b: "body g' = (x, y) # body ?g" using G(2) a(2) n by simp
      have f: "q \<in> set (foods ?g) \<Longrightarrow> q = (x, y)"
        using q(2) q0(1) swap_out_set [OF o(6), of i] i o(10) by (auto simp: G(3))
      show ?thesis using v b f q(3) same_colors_shown [OF c] o(11) by (cases "body ?g") (auto simp: shown_def)
    qed
    moreover have g': "sr_game ?r = g'" by simp
    moreover have "length (vga_buffer t) = 2000" using d by (simp add: drawn_def)
    ultimately obtain t2 f where t2: "redraw ?r t = Some t2" "drawn g' t2" "repaints f t t2"
      using redraw_drawn [of ?r t, unfolded g', OF a(1)] by blast
    have "snake_advance x y (Some i) r t = Some (?r, t2)" using adv 1(1) t2(1) by (simp add: Let_def)
    moreover have "good_step r t (x, y) ?r t2" unfolding good_step_def using a(1,2) G(2) t2 c by auto
    ultimately show ?thesis by blast
  next
    case 2
    then show ?thesis using adv e G(1) by (auto simp: no_free_cell_def)
  qed
qed


section \<open>One iteration\<close>

definition game_inv :: "snake_run \<Rightarrow> terminal \<Rightarrow> bool" where
  "game_inv r t \<longleftrightarrow> snake_ok (sr_game r) \<and> drawn (sr_game r) t"

text \<open>The only way an iteration does not return: a food was just eaten and the generator never proposes a free cell.\<close>

definition searching :: "snake_run \<Rightarrow> bool" where
  "searching r \<longleftrightarrow> (\<exists>i x y g. eaten_game i r x y = Some g \<and> snake_ok g \<and> no_free_cell g)"

lemma next_coordinate:
  assumes "1 \<le> v" "v \<le> 78"
  shows "uint (of_int v :: byte) = v" "1 \<le> unat (of_int v :: byte)" "unat (of_int v :: byte) \<le> 78"
proof -
  show u: "uint (of_int v :: byte) = v" using assms by (simp add: uint_word_of_int)
  have "unat (of_int v :: byte) = nat v" using u by (simp add: unat_eq_nat_uint)
  then show "1 \<le> unat (of_int v :: byte)" "unat (of_int v :: byte) \<le> 78" using assms by simp_all
qed

text \<open>The cell in front of the head, as coordinates that may lie outside the board.\<close>

definition next_cell :: "snake_run \<Rightarrow> int \<times> int" where
  "next_cell r = (uint (fst (hd (body (sr_game r)))) + sr_dx r, uint (snd (hd (body (sr_game r)))) + sr_dy r)"

definition in_field :: "int \<times> int \<Rightarrow> bool" where
  "in_field p \<longleftrightarrow> 1 \<le> fst p \<and> fst p \<le> 78 \<and> 1 \<le> snd p \<and> snd p \<le> 23"

definition to_cell :: "int \<times> int \<Rightarrow> cell_pos" where
  "to_cell p = (of_int (fst p), of_int (snd p))"

lemma to_cell_board:
  assumes "in_field p"
  shows "on_board (to_cell p)" "uint (fst (to_cell p)) = fst p" "uint (snd (to_cell p)) = snd p"
  using next_coordinate [of "fst p"] next_coordinate [of "snd p"] assms
  by (auto simp: on_board_def to_cell_def in_field_def unat_eq_nat_uint)

lemma head_cell:
  assumes "snake_ok g"
  shows "array_get (snake_x g) 0 = Some (fst (hd (body g)))" "array_get (snake_y g) 0 = Some (snd (hd (body g)))"
proof -
  note o = snake_okD [OF assms]
  have "hd (body g) = body g ! 0" using o(11) by (simp add: hd_conv_nth)
  moreover have "length (snake_x g) = 256" "length (snake_y g) = 256" using o(1) by (simp_all add: game_arrays_def)
  ultimately show "array_get (snake_x g) 0 = Some (fst (hd (body g)))" "array_get (snake_y g) 0 = Some (snd (hd (body g)))"
    using o(2) by (simp_all add: array_get_def body_def cells_def del: length_greater_0_conv)
qed

text \<open>What one frame does in terms of the cell in front of the head.\<close>

lemma frame_waits: "sr_frame r + 1 < 3 \<Longrightarrow> snake_frame r t = Some (False, r\<lparr>sr_frame := sr_frame r + 1\<rparr>, t)"
  by (simp add: snake_frame_def)

lemma frame_border:
  "snake_ok (sr_game r) \<Longrightarrow> \<not> sr_frame r + 1 < 3 \<Longrightarrow> \<not> in_field (next_cell r) \<Longrightarrow> snake_frame r t = Some (True, r\<lparr>sr_frame := 0\<rparr>, t)"
  using head_cell [of "sr_game r"] by (auto simp: snake_frame_def Let_def next_cell_def in_field_def)

lemma frame_moves:
  assumes ok: "snake_ok (sr_game r)" and f: "\<not> sr_frame r + 1 < 3" "in_field (next_cell r)"
  defines "x \<equiv> fst (to_cell (next_cell r))" and "y \<equiv> snd (to_cell (next_cell r))" and "g \<equiv> sr_game r"
  obtains (free) "(x, y) \<notin> set (foods g)"
      "snake_frame r t = (if (x, y) \<in> set (butlast (body g)) then Some (True, r\<lparr>sr_frame := 0\<rparr>, t)
        else do { (r, t) \<leftarrow> snake_advance x y None (r\<lparr>sr_frame := 0\<rparr>) t; Some (False, r, t) })"
  | (food) j where "j < unat (food_count g)" "foods g ! j = (x, y)"
      "snake_frame r t = (if (x, y) \<in> set (body g) then Some (True, r\<lparr>sr_frame := 0\<rparr>, t)
        else do { (r, t) \<leftarrow> snake_advance x y (Some j) (r\<lparr>sr_frame := 0\<rparr>) t; Some (False, r, t) })"
proof -
  have ok: "snake_ok g" using ok by (simp add: g_def)
  note o = snake_okD [OF ok]
  have l: "length (snake_x g) = 256" "length (snake_y g) = 256" "length (food_x g) = 5" "length (food_y g) = 5"
    using o(1) by (simp_all add: game_arrays_def)
  have n: "unat (snake_length g) \<le> 255" using length_byte [of "snake_length g"] by simp
  have ca: "cell_among (snake_x g) (snake_y g) x y 0 n = Some ((x, y) \<in> set (cells (snake_x g) (snake_y g) n))" if "n \<le> 255" for n
    using l that by (intro cell_among_cells) auto
  have lp: "unat (snake_length g - 1) = unat (snake_length g) - 1" using o(2) by (rule byte_pred)
  have bl: "cells (snake_x g) (snake_y g) (unat (snake_length g) - 1) = butlast (body g)"
    using cells_butlast [OF o(2)] l n by (simp add: body_def)
  have u: "uint x = fst (next_cell r)" "uint y = snd (next_cell r)" using to_cell_board [OF f(2)] by (simp_all add: x_def y_def)
  have fr: "snake_frame r t = do { food \<leftarrow> find_food (food_x g) (food_y g) (uint x) (uint y) 0 (unat (food_count g));
      hit \<leftarrow> cell_among (snake_x g) (snake_y g) x y 0 (unat (snake_length g - (if food = None then 1 else 0)));
      if hit then Some (True, r\<lparr>sr_frame := 0\<rparr>, t)
      else do { (r, t) \<leftarrow> snake_advance x y food (r\<lparr>sr_frame := 0\<rparr>) t; Some (False, r, t) } }"
    using f head_cell [OF ok] unfolding u
    by (simp add: snake_frame_def Let_def g_def next_cell_def in_field_def x_def y_def to_cell_def cong: if_cong)
  have fc: "unat (food_count g) \<le> length (food_x g)" "unat (food_count g) \<le> length (food_y g)" using o(3) l by simp_all
  show thesis
  proof (cases rule: find_food_cases [OF fc, of x y])
    case 1
    then show thesis using free [unfolded fr 1(1)] ca [of "unat (snake_length g) - 1"] n bl by (simp add: lp foods_def)
  next
    case (2 j)
    then show thesis using food [of j, unfolded fr 2(1)] ca [OF n] by (simp add: foods_def body_def)
  qed
qed

lemma stay_inv:
  assumes "game_inv r t"
  shows "game_inv (r\<lparr>sr_frame := k\<rparr>) t \<and> repaints Map.empty t t"
  using assms repaints_refl [of t] by (auto simp: game_inv_def drawn_def)

lemma good_step_inv: "good_step r t p r' t' \<Longrightarrow> game_inv r' t' \<and> (\<exists>f. repaints f t t')"
  by (auto simp: good_step_def game_inv_def)

lemma frame_step:
  assumes inv: "game_inv r t"
  shows "(\<exists>over r' t' f. snake_frame r t = Some (over, r', t') \<and> game_inv r' t' \<and> repaints f t t')
    \<or> snake_frame r t = None \<and> searching r"
proof -
  let ?r = "r\<lparr>sr_frame := 0\<rparr>"
  have ok: "snake_ok (sr_game r)" and d: "drawn (sr_game r) t" using inv by (simp_all add: game_inv_def)
  have g: "sr_game ?r = sr_game r" by simp
  consider "sr_frame r + 1 < 3" | "\<not> sr_frame r + 1 < 3" "\<not> in_field (next_cell r)" | "\<not> sr_frame r + 1 < 3" "in_field (next_cell r)" by blast
  then show ?thesis
  proof cases
    case 3
    obtain x y where c: "to_cell (next_cell r) = (x, y)" by fastforce
    have b: "on_board (x, y)" using to_cell_board(1) [OF 3(2)] c by simp
    show ?thesis
    proof (cases rule: frame_moves [OF ok 3, of t, unfolded c fst_conv snd_conv])
      case free: 1
      show ?thesis
      proof (cases "(x, y) \<in> set (butlast (body (sr_game r)))")
        case False
        then show ?thesis using advance_plain [of ?r t x y, unfolded g, OF ok d b False free(1)] good_step_inv free(2) by fastforce
      qed (use free(2) stay_inv [OF inv] in auto)
    next
      case food: (2 j)
      show ?thesis
      proof (cases "(x, y) \<in> set (body (sr_game r))")
        case False
        have "eaten_game j ?r x y = eaten_game j r x y" by (simp add: eaten_game_def)
        moreover from advance_eating [of ?r t x y j, unfolded g, OF ok d b False food(1,2)]
        have "(\<exists>r' t'. snake_frame r t = Some (False, r', t') \<and> good_step ?r t (x, y) r' t')
            \<or> snake_frame r t = None \<and> (\<exists>g. eaten_game j ?r x y = Some g \<and> snake_ok g \<and> no_free_cell g)"
          using food(3) False by auto
        ultimately show ?thesis using good_step_inv unfolding searching_def by metis
      qed (use food(3) stay_inv [OF inv] in auto)
    qed
  qed (use frame_waits [of r t] frame_border [OF ok, of t] stay_inv [OF inv] in auto)
qed

section \<open>The body as a chain\<close>

text \<open>Two cells side by side, and a snake that heads in one of the four directions.\<close>

definition adjacent :: "cell_pos \<Rightarrow> cell_pos \<Rightarrow> bool" where
  "adjacent p q \<longleftrightarrow> \<bar>uint (fst p) - uint (fst q)\<bar> + \<bar>uint (snd p) - uint (snd q)\<bar> = 1"

definition heading :: "snake_run \<Rightarrow> bool" where
  "heading r \<longleftrightarrow> (sr_dx r, sr_dy r) \<in> {(1, 0), (- 1, 0), (0, 1), (0, - 1)} \<and> sr_frame r < 3"

abbreviation in_line :: "snake_run \<Rightarrow> bool" where
  "in_line r \<equiv> heading r \<and> successively adjacent (body (sr_game r))"

lemma successively_butlast: "successively P xs \<Longrightarrow> successively P (butlast xs)"
  by (cases xs rule: rev_cases) (auto simp: successively_append_iff)

lemma good_step_linked:
  assumes "good_step r t p r' t'" "in_line r" "sr_frame r = 0" "body (sr_game r) \<noteq> []"
    and "uint (fst p) = fst (next_cell r)" "uint (snd p) = snd (next_cell r)"
  shows "in_line r'"
proof -
  have "adjacent p (hd (body (sr_game r)))"
    using assms(2,5,6) by (auto simp: adjacent_def next_cell_def heading_def)
  moreover have "hd (butlast (body (sr_game r))) = hd (body (sr_game r))" if "butlast (body (sr_game r)) \<noteq> []"
    using that by (cases "body (sr_game r)") auto
  ultimately have "successively adjacent (p # body (sr_game r))" "successively adjacent (p # butlast (body (sr_game r)))"
    using assms(2) successively_butlast [of adjacent "body (sr_game r)"]
    by (simp_all add: successively_Cons) metis
  then show ?thesis using assms(1,2) by (auto simp: good_step_def heading_def)
qed

lemma frame_linked:
  assumes inv: "game_inv r t" and l: "in_line r" and s: "snake_frame r t = Some (over, r', t')"
  shows "in_line r'"
proof -
  let ?r = "r\<lparr>sr_frame := 0\<rparr>"
  have ok: "snake_ok (sr_game r)" and d: "drawn (sr_game r) t" using inv by (simp_all add: game_inv_def)
  have g: "sr_game ?r = sr_game r" by simp
  have l0: "in_line ?r" using l by (simp add: heading_def)
  have nc: "next_cell ?r = next_cell r" by (simp add: next_cell_def)
  consider "sr_frame r + 1 < 3" | "\<not> sr_frame r + 1 < 3" "\<not> in_field (next_cell r)" | "\<not> sr_frame r + 1 < 3" "in_field (next_cell r)" by blast
  then show ?thesis
  proof cases
    case 1
    then show ?thesis using frame_waits [of r t] l s by (auto simp: heading_def)
  next
    case 2
    then show ?thesis using frame_border [OF ok, of t] l0 s by auto
  next
    case 3
    obtain x y where c: "to_cell (next_cell r) = (x, y)" by fastforce
    have b: "on_board (x, y)" and u: "uint x = fst (next_cell r)" "uint y = snd (next_cell r)"
      using to_cell_board [OF 3(2)] c by simp_all
    have step: "in_line r2" if "good_step ?r t (x, y) r2 t2" for r2 t2
      using good_step_linked [OF that l0] u snake_okD(11) [OF ok] nc by simp
    show ?thesis
    proof (cases rule: frame_moves [OF ok 3, of t, unfolded c fst_conv snd_conv])
      case free: 1
      show ?thesis
      proof (cases "(x, y) \<in> set (butlast (body (sr_game r)))")
        case False
        then show ?thesis using advance_plain [of ?r t x y, unfolded g, OF ok d b False free(1)] step free(2) s by auto
      qed (use free(2) l0 s in auto)
    next
      case food: (2 j)
      show ?thesis
      proof (cases "(x, y) \<in> set (body (sr_game r))")
        case False
        then show ?thesis using advance_eating [of ?r t x y j, unfolded g, OF ok d b False food(1,2)] step food(3) s by auto
      qed (use food(3) l0 s in auto)
    qed
  qed
qed

lemma steer_linked: "in_line r \<Longrightarrow> in_line (steer c r)"
  by (auto simp: heading_def steer_def)

section \<open>The start of a game\<close>

lemma fill_cells_all:
  "length (vga_buffer t) = i + n \<Longrightarrow> take i (vga_buffer t) = replicate i v \<Longrightarrow>
     fill_cells i n v t = Some (t\<lparr>vga_buffer := replicate (i + n) v\<rparr>)"
proof (induction n arbitrary: i t)
  case (Suc n)
  let ?t = "t\<lparr>vga_buffer := (vga_buffer t)[i := v]\<rparr>"
  have "take (Suc i) (vga_buffer ?t) = replicate (Suc i) v"
    using Suc.prems by (simp add: take_Suc_conv_app_nth replicate_append_same del: replicate.simps) (simp add: replicate_append_same)
  then have "fill_cells (Suc i) n v ?t = Some (?t\<lparr>vga_buffer := replicate (Suc i + n) v\<rparr>)" using Suc.prems by (intro Suc.IH) simp_all
  then show ?case using Suc.prems(1) by (simp add: vga_set_def array_set_def)
next
  case 0
  have "t\<lparr>vga_buffer := vga_buffer t\<rparr> = t" by simp
  then show ?case using 0 by simp
qed

lemma clear_screen_blank:
  assumes "length (vga_buffer t) = 2000"
  shows "snake_clear_screen g t
    = Some (t\<lparr>vga_buffer := replicate 2000 (vga_cell (board_color g) 32), terminal_row := 0, terminal_col := 0\<rparr>)"
  using fill_cells_all [of t 0 2000 "vga_cell (board_color g) 32"] assms by (simp add: snake_clear_screen_def)

lemma border_rows_off: "length (vga_buffer t) = 2000 \<Longrightarrow> \<exists>t'. border_rows c x n t = Some t' \<and> repaints Map.empty t t'"
proof (induction n arbitrary: x t)
  case (Suc n)
  obtain t1 where 1: "snake_put_cell (of_nat x) 0 61 c t = Some t1" "repaints Map.empty t t1"
    using put_cell_off [OF Suc.prems, of "of_nat x" 0] by (auto simp: on_board_def)
  obtain t2 where 2: "snake_put_cell (of_nat x) 24 61 c t1 = Some t2" "repaints Map.empty t1 t2"
    using put_cell_off [OF repaints_length [OF 1(2)], of "of_nat x" 24] by (auto simp: on_board_def)
  obtain t3 where 3: "border_rows c (Suc x) n t2 = Some t3" "repaints Map.empty t2 t3"
    using Suc.IH [OF repaints_length [OF 2(2)], of "Suc x"] by blast
  show ?case using 1(1) 2(1) 3(1) repaints_left [OF 1(2) repaints_left [OF 2(2) 3(2)]] by simp
qed (simp add: repaints_refl)

lemma border_columns_off: "length (vga_buffer t) = 2000 \<Longrightarrow> \<exists>t'. border_columns c y n t = Some t' \<and> repaints Map.empty t t'"
proof (induction n arbitrary: y t)
  case (Suc n)
  obtain t1 where 1: "snake_put_cell 0 (of_nat y) 124 c t = Some t1" "repaints Map.empty t t1"
    using put_cell_off [OF Suc.prems, of 0 "of_nat y"] by (auto simp: on_board_def)
  obtain t2 where 2: "snake_put_cell 79 (of_nat y) 124 c t1 = Some t2" "repaints Map.empty t1 t2"
    using put_cell_off [OF repaints_length [OF 1(2)], of 79 "of_nat y"] by (auto simp: on_board_def)
  obtain t3 where 3: "border_columns c (Suc y) n t2 = Some t3" "repaints Map.empty t2 t3"
    using Suc.IH [OF repaints_length [OF 2(2)], of "Suc y"] by blast
  show ?case using 1(1) 2(1) 3(1) repaints_left [OF 1(2) repaints_left [OF 2(2) 3(2)]] by simp
qed (simp add: repaints_refl)

lemma draw_border_off:
  assumes "length (vga_buffer t) = 2000"
  shows "\<exists>t'. snake_draw_border g t = Some t' \<and> repaints Map.empty t t'"
proof -
  obtain t1 where 1: "border_rows (border_color g) 0 80 t = Some t1" "repaints Map.empty t t1"
    using border_rows_off [OF assms] by blast
  obtain t2 where 2: "border_columns (border_color g) 1 23 t1 = Some t2" "repaints Map.empty t1 t2"
    using border_columns_off [OF repaints_length [OF 1(2)]] by blast
  have "snake_draw_border g t = Some t2" unfolding snake_draw_border_def using 1(1) 2(1) by simp
  then show ?thesis using repaints_left [OF 1(2) 2(2)] by blast
qed

lemma draw_snake_paint:
  assumes ok: "snake_ok g" and t: "length (vga_buffer t) = 2000"
  shows "\<exists>t'. snake_draw_snake g t = Some t' \<and> repaints (painted {hd (body g)} (vga_cell (snake_color g) 64)
    ++ painted (set (tl (body g))) (vga_cell (snake_color g) 111)) t t'"
proof -
  note o = snake_okD [OF ok]
  have l: "length (snake_x g) = 256" "length (snake_y g) = 256" using o(1) by (simp_all add: game_arrays_def)
  obtain t1 where 1: "draw_cells (snake_x g) (snake_y g) 64 (snake_color g) 0 1 t = Some t1"
    "repaints (painted {hd (body g)} (vga_cell (snake_color g) 64)) t t1"
    using draw_body_cell [OF ok t o(2)] o(11) by (auto simp: hd_conv_nth)
  let ?n = "unat (snake_length g)"
  have e: "take (?n - 1) (drop 1 (zip (snake_x g) (snake_y g))) = tl (body g)"
    by (simp add: body_def cells_def tl_take tl_drop drop_Suc)
  have "list_all on_board (tl (body g))" using o(5,11) by (cases "body g") auto
  then obtain t2 where 2: "draw_cells (snake_x g) (snake_y g) 111 (snake_color g) 1 (?n - 1) t1 = Some t2"
    "repaints (painted (set (tl (body g))) (vga_cell (snake_color g) 111)) t1 t2"
    using draw_cells_paint [OF repaints_length [OF 1(2)], of 1 "?n - 1" "snake_x g" "snake_y g", unfolded e] l length_byte [of "snake_length g"] o(2)
    by auto
  have "snake_length g \<noteq> 0" using o(2) by auto
  then have "snake_draw_snake g t = Some t2" unfolding snake_draw_snake_def using 1(1) 2(1) by (simp only: if_False Option.bind.bind_lunit)
  then show ?thesis using repaints_trans [OF 1(2) 2(2)] by blast
qed

lemma first_picture:
  assumes ok: "snake_ok g" and t: "length (vga_buffer t) = 2000"
  shows "\<exists>t'. do { t \<leftarrow> snake_clear_screen g t; t \<leftarrow> snake_draw_border g t; t \<leftarrow> snake_draw_snake g t;
      t \<leftarrow> snake_draw_foods g t; snake_draw_status 0 g t } = Some t' \<and> screen_shows g t'
      \<and> (\<exists>b. t' = t\<lparr>vga_buffer := b, terminal_row := 0, terminal_col := 0\<rparr>)"
proof -
  let ?t = "t\<lparr>vga_buffer := replicate 2000 (vga_cell (board_color g) 32), terminal_row := 0, terminal_col := 0\<rparr>"
  obtain t1 where 1: "snake_draw_border g ?t = Some t1" "repaints Map.empty ?t t1" using draw_border_off [of ?t g] by auto
  obtain t2 where 2: "snake_draw_snake g t1 = Some t2" "repaints (painted {hd (body g)} (vga_cell (snake_color g) 64)
    ++ painted (set (tl (body g))) (vga_cell (snake_color g) 111)) t1 t2" using draw_snake_paint [OF ok repaints_length [OF 1(2)]] by blast
  obtain t3 where 3: "snake_draw_foods g t2 = Some t3" "repaints (painted (set (foods g)) (vga_cell (food_color g) 42)) t2 t3"
    using draw_foods_paint [OF ok repaints_length [OF 2(2)]] by blast
  obtain t4 where 4: "snake_draw_status 0 g t3 = Some t4" "repaints Map.empty t3 t4" using draw_status_off [OF repaints_length [OF 3(2)]] by blast
  have p: "repaints ((painted {hd (body g)} (vga_cell (snake_color g) 64) ++ painted (set (tl (body g))) (vga_cell (snake_color g) 111))
      ++ painted (set (foods g)) (vga_cell (food_color g) 42)) ?t t4"
    by (rule repaints_right [OF repaints_left [OF 1(2) repaints_trans [OF 2(2) 3(2)]] 4(2)])
  note o = snake_okD [OF ok]
  obtain h bs where b: "body g = h # bs" using o(11) by (cases "body g") auto
  have "view t4 q = shown g q" if "on_board q" for q
    using view_repaints [OF p that] o(4,8) board_index [OF that] by (auto simp: shown_def b painted_def map_add_def)
  then have "screen_shows g t4" using repaints_length [OF 4(2)] by (simp add: screen_shows_def)
  moreover obtain b where "t4 = ?t\<lparr>vga_buffer := b\<rparr>" using p unfolding repaints_def by blast
  then have "\<exists>b. t4 = t\<lparr>vga_buffer := b, terminal_row := 0, terminal_col := 0\<rparr>" by (intro exI [of _ b]) simp
  ultimately show ?thesis using clear_screen_blank [OF t] 1(1) 2(1) 3(1) 4(1) by auto
qed


definition first_body :: "cell_pos list" where
  "first_body = [(40, 12), (39, 12), (38, 12), (37, 12)]"

lemma place_body_first:
  assumes "game_arrays g"
  obtains xs ys where "place_body 0 4 (g\<lparr>snake_length := 4\<rparr>) = Some (g\<lparr>snake_length := 4, snake_x := xs, snake_y := ys\<rparr>)"
    "length xs = 256" "length ys = 256" "cells xs ys 4 = first_body"
proof -
  have four: "\<exists>a b c d r. l = a # b # c # d # r \<and> length r = 252" if "length l = 256" for l :: "byte list"
    using that by (cases l; cases "tl l"; cases "tl (tl l)"; cases "tl (tl (tl l))") auto
  obtain a0 a1 a2 a3 as where x: "snake_x g = a0 # a1 # a2 # a3 # as" "length as = 252"
    using four [of "snake_x g"] assms by (auto simp: game_arrays_def)
  obtain b0 b1 b2 b3 bs where y: "snake_y g = b0 # b1 # b2 # b3 # bs" "length bs = 252"
    using four [of "snake_y g"] assms by (auto simp: game_arrays_def)
  have "place_body 0 4 (g\<lparr>snake_length := 4\<rparr>)
      = Some (g\<lparr>snake_length := 4, snake_x := 40 # 39 # 38 # 37 # as, snake_y := 12 # 12 # 12 # 12 # bs\<rparr>)"
  proof -
    have "(4 :: nat) = Suc (Suc (Suc (Suc 0)))" by simp
    then show ?thesis by (simp only: place_body.simps) (simp add: x y array_set_def)
  qed
  then show thesis using that x(2) y(2) by (simp add: cells_def first_body_def)
qed

text \<open>The game before any food is placed.\<close>

definition bare_game :: "snake_game \<Rightarrow> bool" where
  "bare_game g \<longleftrightarrow> snake_ok g \<and> food_count g = 0 \<and> body g = first_body"

lemma three_foods:
  assumes "bare_game g" "do { g \<leftarrow> snake_place_food g; g \<leftarrow> snake_place_food g; snake_place_food g } = Some g'"
  shows "snake_ok g' \<and> body g' = first_body \<and> food_count g' = 3"
proof -
  have step: "snake_ok h' \<and> body h' = body h \<and> unat (food_count h') = Suc (unat (food_count h))"
    if "snake_ok h" "unat (food_count h) < 5" "snake_place_food h = Some h'" for h h'
    by (rule place_food_cases [OF that(1,2)]) (use food_added_ok [OF that(1,2), of h'] that(3) in auto)
  obtain g1 g2 where g: "snake_place_food g = Some g1" "snake_place_food g1 = Some g2" "snake_place_food g2 = Some g'"
    using assms(2) by (auto simp: bind_eq_Some_conv)
  have 1: "snake_ok g1 \<and> body g1 = first_body \<and> unat (food_count g1) = 1" using step [OF _ _ g(1)] assms(1) by (simp add: bare_game_def)
  have 2: "snake_ok g2 \<and> body g2 = first_body \<and> unat (food_count g2) = 2" using step [OF _ _ g(2)] 1 by simp
  have "snake_ok g' \<and> body g' = first_body \<and> unat (food_count g') = 3" using step [OF _ _ g(3)] 2 by simp
  then show ?thesis by (simp add: word_unat_eq_iff)
qed

lemma bare_start:
  assumes "game_arrays g"
  obtains g0 where "place_body 0 4 (g\<lparr>snake_length := 4\<rparr>) = Some g0" "bare_game (g0\<lparr>food_count := 0\<rparr>)" "snake_rng g0 = snake_rng g"
proof -
  obtain xs ys where p: "place_body 0 4 (g\<lparr>snake_length := 4\<rparr>) = Some (g\<lparr>snake_length := 4, snake_x := xs, snake_y := ys\<rparr>)"
    "length xs = 256" "length ys = 256" "cells xs ys 4 = first_body" by (rule place_body_first [OF assms])
  let ?g = "g\<lparr>snake_length := 4, snake_x := xs, snake_y := ys\<rparr>"
  have b: "body (?g\<lparr>food_count := 0\<rparr>) = first_body" "foods (?g\<lparr>food_count := 0\<rparr>) = []"
    using p(4) by (simp_all add: body_def foods_def cells_def)
  have "distinct first_body" "list_all on_board first_body" by code_simp+
  then have "bare_game (?g\<lparr>food_count := 0\<rparr>)"
    unfolding bare_game_def snake_ok_def b using assms p(2,3) by (simp add: game_arrays_def)
  then show thesis using that p(1) by simp
qed

lemma start_inv:
  assumes g: "game_arrays g" and t: "term_ok t" and s: "snake_start g t = Some (r, t')"
  shows "game_inv r t' \<and> term_ok t' \<and> body (sr_game r) = first_body \<and> food_count (sr_game r) = 3 \<and> sr_dx r = 1 \<and> sr_dy r = 0
    \<and> sr_frame r = 0 \<and> (\<exists>b. t' = t\<lparr>vga_buffer := b, terminal_row := 0, terminal_col := 0\<rparr>)"
proof -
  obtain g0 where g0: "place_body 0 4 (g\<lparr>snake_length := 4\<rparr>) = Some g0" "bare_game (g0\<lparr>food_count := 0\<rparr>)" by (rule bare_start [OF g])
  have "\<exists>h. do { g \<leftarrow> snake_place_food (g0\<lparr>food_count := 0\<rparr>); g \<leftarrow> snake_place_food g; snake_place_food g } = Some h
      \<and> do { t \<leftarrow> snake_clear_screen h t; t \<leftarrow> snake_draw_border h t; t \<leftarrow> snake_draw_snake h t;
      t \<leftarrow> snake_draw_foods h t; snake_draw_status 0 h t } = Some t' \<and> r = \<lparr>sr_game = h, sr_dx = 1, sr_dy = 0, sr_score = 0, sr_frame = 0\<rparr>"
    using s g0(1) by (auto simp: snake_start_def Let_def bind_eq_Some_conv)
  then obtain h where h: "do { g \<leftarrow> snake_place_food (g0\<lparr>food_count := 0\<rparr>); g \<leftarrow> snake_place_food g; snake_place_food g } = Some h"
    "do { t \<leftarrow> snake_clear_screen h t; t \<leftarrow> snake_draw_border h t; t \<leftarrow> snake_draw_snake h t;
      t \<leftarrow> snake_draw_foods h t; snake_draw_status 0 h t } = Some t'"
    "r = \<lparr>sr_game = h, sr_dx = 1, sr_dy = 0, sr_score = 0, sr_frame = 0\<rparr>" by blast
  note f = three_foods [OF g0(2) h(1)]
  have l: "length (vga_buffer t) = 2000" using t by (simp add: term_ok_def)
  have p: "screen_shows h t'" "\<exists>b. t' = t\<lparr>vga_buffer := b, terminal_row := 0, terminal_col := 0\<rparr>"
    using first_picture [OF _ l, of h] f h(2) by auto
  then have "term_ok t'" by (auto simp: screen_shows_def term_ok_def)
  then show ?thesis using f p by (auto simp: h(3) game_inv_def drawn_def screen_shows_def)
qed

section \<open>Reachable games\<close>

inductive in_play :: "snake_game \<Rightarrow> world \<Rightarrow> snake_run \<Rightarrow> world \<Rightarrow> bool" for g w where
  start: "snake_start g (screen w) = Some (r, t) \<Longrightarrow> in_play g w r (w\<lparr>w_kbd := (w_kbd w)\<lparr>kb_term := t\<rparr>\<rparr>)"
| turn: "in_play g w r w1 \<Longrightarrow> snake_iter r w1 = Some (False, r', w2) \<Longrightarrow> in_play g w r' w2"

lemma pollchar_returns:
  assumes "kb_ok k"
  shows "\<exists>c k'. keyboard_pollchar k = Some (c, k') \<and> kb_ok k' \<and> kb_term k' = kb_term k \<and> kb_events k' = tl (kb_events k)"
proof (cases "kb_events k")
  case Nil
  then show ?thesis using assms by (simp add: keyboard_pollchar_def)
next
  case (Cons e es)
  show ?thesis
  proof (cases e)
    case None
    then show ?thesis using assms Cons by (simp add: keyboard_pollchar_def)
  next
    case (Some c)
    obtain r s where "scan_step c (k\<lparr>kb_events := es\<rparr>) = Some (r, s)" "kb_ok s"
      using scan_step_returns [of "k\<lparr>kb_events := es\<rparr>" c] assms by auto
    then show ?thesis using scan_step_keeps [of c "k\<lparr>kb_events := es\<rparr>" r s] Cons Some by (simp add: keyboard_pollchar_def)
  qed
qed

lemma steer_game [simp]: "sr_game (steer c r) = sr_game r" "sr_frame (steer c r) = sr_frame r"
  by (simp_all add: steer_def)

lemma iter_step:
  assumes "game_inv r (screen w)" "world_ok w"
  shows "(\<exists>over r' w'. snake_iter r w = Some (over, r', w') \<and> game_inv r' (screen w') \<and> world_ok w')
    \<or> snake_iter r w = None \<and> (\<exists>c. searching (steer c r))"
proof -
  have k: "kb_ok (w_kbd w)" using assms(2) by (simp add: world_ok_def)
  obtain c k' where p: "keyboard_pollchar (w_kbd w) = Some (c, k')" "kb_ok k'" "kb_term k' = screen w" using pollchar_returns [OF k] by blast
  have inv: "game_inv (steer c r) (screen w)" using assms(1) by (simp add: game_inv_def)
  show ?thesis
  proof (cases "c = 113 \<or> c = 81")
    case True
    then have "snake_iter r w = Some (True, r, w\<lparr>w_kbd := k'\<rparr>)" using p(1) by (simp add: snake_iter_def)
    then show ?thesis using p assms by (auto simp: world_ok_def)
  next
    case False
    from frame_step [OF inv] show ?thesis
    proof (elim disjE exE conjE)
      fix over r' t' f
      assume f: "snake_frame (steer c r) (screen w) = Some (over, r', t')" "game_inv r' t'" "repaints f (screen w) t'"
      have "term_ok t'" using repaints_term [OF f(3)] world_ok_term [OF assms(2)] by simp
      then have "world_ok (w\<lparr>w_kbd := k'\<lparr>kb_term := t'\<rparr>\<rparr>)" using assms(2) p(2) by (simp add: world_ok_def kb_ok_def)
      then show ?thesis using f False p(1,3) by (auto simp: snake_iter_def)
    next
      assume "snake_frame (steer c r) (screen w) = None" "searching (steer c r)"
      then show ?thesis using False p(1,3) by (auto simp: snake_iter_def)
    qed
  qed
qed


lemma in_play_inv:
  "in_play g w r w' \<Longrightarrow> game_arrays g \<Longrightarrow> world_ok w \<Longrightarrow> game_inv r (screen w') \<and> world_ok w'"
proof (induction rule: in_play.induct)
  case (start r t)
  have "game_inv r t \<and> term_ok t" using start_inv [OF start.prems(1) world_ok_term [OF start.prems(2)] start.hyps] by blast
  then show ?case using start.prems(2) by (simp add: world_ok_def kb_ok_def)
next
  case (turn r w1 r' w2)
  then show ?case using iter_step [of r w1] by auto
qed

lemma in_play_linked:
  "in_play g w r w' \<Longrightarrow> game_arrays g \<Longrightarrow> world_ok w \<Longrightarrow> in_line r"
proof (induction rule: in_play.induct)
  case (start r t)
  have "successively adjacent first_body" by (simp add: first_body_def adjacent_def)
  then show ?case
    using start_inv [OF start.prems(1) world_ok_term [OF start.prems(2)] start.hyps] by (simp add: heading_def)
next
  case (turn r w1 r' w2)
  have inv: "game_inv r (screen w1)" and k: "kb_ok (w_kbd w1)"
    using in_play_inv [OF turn.hyps(1) turn.prems] by (simp_all add: world_ok_def)
  obtain c k' where p: "keyboard_pollchar (w_kbd w1) = Some (c, k')" "kb_term k' = screen w1" using pollchar_returns [OF k] by blast
  obtain t where f: "snake_frame (steer c r) (screen w1) = Some (False, r', t)"
    using turn.hyps(2) p by (auto simp: snake_iter_def bind_eq_Some_conv split: if_splits)
  have "game_inv (steer c r) (screen w1)" using inv by (simp add: game_inv_def)
  then show ?case using frame_linked [OF _ steer_linked f] turn.IH [OF turn.prems] by blast
qed

section \<open>The end of a game\<close>

text \<open>The cells straight ahead, and the distance to the border there.\<close>

definition ahead :: "snake_run \<Rightarrow> cell_pos \<Rightarrow> bool" where
  "ahead r p \<longleftrightarrow> (\<exists>k > 0. uint (fst p) = uint (fst (hd (body (sr_game r)))) + k * sr_dx r
     \<and> uint (snd p) = uint (snd (hd (body (sr_game r)))) + k * sr_dy r)"



definition distance :: "snake_run \<Rightarrow> nat" where
  "distance r = (let p = hd (body (sr_game r)) in
     if sr_dx r = 1 then 79 - unat (fst p) else if sr_dx r = - 1 then unat (fst p)
     else if sr_dy r = 1 then 24 - unat (snd p) else unat (snd p))"

text \<open>Without keys the snake runs straight on.\<close>

lemma idle_iter:
  assumes "kb_events (w_kbd w) = []"
  shows "snake_iter r w = do { (over, r, t) \<leftarrow> snake_frame r (screen w); Some (over, r, w\<lparr>w_kbd := (w_kbd w)\<lparr>kb_term := t\<rparr>\<rparr>) }"
  using assms by (simp add: snake_iter_def keyboard_pollchar_def steer_def)

lemma closer:
  "int a' = int a + dx \<Longrightarrow> int b' = int b + dy \<Longrightarrow> (dx, dy) \<in> {(1, 0), (- 1, 0), (0, 1), (0, - 1)} \<Longrightarrow> a' \<le> 78 \<Longrightarrow> b' \<le> 23 \<Longrightarrow>
   (if dx = 1 then 79 - a' else if dx = - 1 then a' else if dy = 1 then 24 - b' else b')
     < (if dx = 1 then 79 - a else if dx = - 1 then a else if dy = 1 then 24 - b else b)"
  by auto

lemma straight_frame:
  assumes inv: "game_inv r t" and h: "heading r" and a: "\<forall>p \<in> set (foods (sr_game r)). \<not> ahead r p"
  shows "(\<exists>r'. snake_frame r t = Some (True, r', t) \<and> sr_game r' = sr_game r)
    \<or> (\<exists>r' t'. snake_frame r t = Some (False, r', t') \<and> game_inv r' t' \<and> heading r' \<and> (\<exists>f. repaints f t t')
        \<and> (\<forall>p \<in> set (foods (sr_game r')). \<not> ahead r' p) \<and> 3 * distance r' + (3 - sr_frame r') < 3 * distance r + (3 - sr_frame r))"
proof -
  have ok: "snake_ok (sr_game r)" and d: "drawn (sr_game r) t" using inv by (simp_all add: game_inv_def)
  let ?r = "r\<lparr>sr_frame := 0\<rparr>" and ?h = "hd (body (sr_game r))"
  have g: "sr_game ?r = sr_game r" by simp
  consider "sr_frame r + 1 < 3" | "\<not> sr_frame r + 1 < 3" "\<not> in_field (next_cell r)" | "\<not> sr_frame r + 1 < 3" "in_field (next_cell r)" by blast
  then show ?thesis
  proof cases
    case 1
    let ?r' = "r\<lparr>sr_frame := sr_frame r + 1\<rparr>"
    have "heading ?r'" "distance ?r' = distance r" "\<forall>p. ahead ?r' p = ahead r p"
      using h 1 by (simp_all add: heading_def distance_def ahead_def cong: if_cong)
    moreover have "\<exists>f. repaints f t t" "game_inv ?r' t" using stay_inv [OF inv] by blast+
    ultimately show ?thesis using frame_waits [OF 1] a 1 by auto
  next
    case 2
    then show ?thesis using frame_border [OF ok] by simp
  next
    case 3
    obtain x y where c: "to_cell (next_cell r) = (x, y)" by fastforce
    have b: "on_board (x, y)" and u: "uint x = uint (fst ?h) + sr_dx r" "uint y = uint (snd ?h) + sr_dy r"
      using to_cell_board [OF 3(2)] c by (simp_all add: next_cell_def)
    then have "ahead r (x, y)" unfolding ahead_def by (intro exI [of _ 1]) simp
    then have nf: "(x, y) \<notin> set (foods (sr_game r))" using a by blast
    show ?thesis
    proof (cases rule: frame_moves [OF ok 3, of t, unfolded c fst_conv snd_conv])
      case free: 1
      show ?thesis
      proof (cases "(x, y) \<in> set (butlast (body (sr_game r)))")
        case False
        obtain r' t' where m: "snake_advance x y None ?r t = Some (r', t')" "good_step ?r t (x, y) r' t'"
          "foods (sr_game r') = foods (sr_game r)"
          using advance_plain [of ?r t x y, unfolded g, OF ok d b False free(1)] by blast
        note s = m(2) [unfolded good_step_def]
        have hd': "hd (body (sr_game r')) = (x, y)" and dir: "sr_dx r' = sr_dx r" "sr_dy r' = sr_dy r" "sr_frame r' = 0" using s by simp_all
        have "ahead r p" if q: "ahead r' p" for p
        proof -
          obtain k where "k > 0" "uint (fst p) = uint x + k * sr_dx r" "uint (snd p) = uint y + k * sr_dy r"
            using q by (auto simp: ahead_def hd' dir)
          then show ?thesis unfolding ahead_def u by (intro exI [of _ "k + 1"]) (simp add: algebra_simps)
        qed
        moreover have "distance r' < distance r"
        proof -
          have "int (unat x) = int (unat (fst ?h)) + sr_dx r" "int (unat y) = int (unat (snd ?h)) + sr_dy r" using u by simp_all
          moreover have "on_board ?h" using snake_okD(5,11) [OF ok] by (cases "body (sr_game r)") auto
          ultimately show ?thesis
            using h b closer [of "unat x" "unat (fst ?h)" "sr_dx r" "unat y" "unat (snd ?h)" "sr_dy r"]
            unfolding heading_def distance_def Let_def hd' dir on_board_def fst_conv snd_conv by blast
        qed
        moreover have "sr_frame r < 3" "heading r'" using h by (simp_all add: heading_def dir)
        ultimately show ?thesis using free(2) False m(1,3) s a dir(3) good_step_inv [OF m(2)] by auto
      qed (use free(2) in auto)
    next
      case (2 j)
      then show ?thesis using nf snake_okD(10) [OF ok] nth_mem [of j "foods (sr_game r)"] by auto
    qed
  qed
qed

lemma straight_game_ends:
  "game_inv r (screen w) \<Longrightarrow> heading r \<Longrightarrow> \<forall>p \<in> set (foods (sr_game r)). \<not> ahead r p \<Longrightarrow> kb_events (w_kbd w) = [] \<Longrightarrow>
   world_ok w \<Longrightarrow> \<exists>r' w'. snake_loop r w = Some (r', w') \<and> game_inv r' (screen w') \<and> world_ok w'"
proof (induction "3 * distance r + (3 - sr_frame r)" arbitrary: r w rule: less_induct)
  case less
  note it = idle_iter [OF less.prems(4), of r]
  from straight_frame [OF less.prems(1-3)] show ?case
  proof (elim disjE exE conjE)
    fix r'
    assume s: "snake_frame r (screen w) = Some (True, r', screen w)" "sr_game r' = sr_game r"
    then have "snake_loop r w = Some (r', w)" using it by (subst snake_loop.simps) simp
    then show ?thesis using less.prems(1,5) s(2) by (auto simp: game_inv_def)
  next
    fix r' t' f
    assume s: "snake_frame r (screen w) = Some (False, r', t')" "game_inv r' t'" "heading r'"
      "\<forall>p \<in> set (foods (sr_game r')). \<not> ahead r' p" "3 * distance r' + (3 - sr_frame r') < 3 * distance r + (3 - sr_frame r)"
      "repaints f (screen w) t'"
    let ?w = "w\<lparr>w_kbd := (w_kbd w)\<lparr>kb_term := t'\<rparr>\<rparr>"
    have "term_ok t'" using repaints_term [OF s(6)] world_ok_term [OF less.prems(5)] by simp
    then have "world_ok ?w" using less.prems(5) by (simp add: world_ok_def kb_ok_def)
    then have "\<exists>r'' w''. snake_loop r' ?w = Some (r'', w'') \<and> game_inv r'' (screen w'') \<and> world_ok w''"
      using less.hyps [OF s(5), of ?w] s(2-4) less.prems(4) by simp
    then show ?thesis using it s(1) by (subst snake_loop.simps) simp
  qed
qed


section \<open>Properties\<close>

text \<open>The game as the shell starts it for the first time.\<close>

definition fresh_game :: snake_game where
  "fresh_game = \<lparr>snake_color = 0x0A, food_color = 0x0C, border_color = 0x07, board_color = 0x00, text_color = 0x0E,
     snake_rng = 0x12345678, snake_x = replicate 256 0, snake_y = replicate 256 0, food_x = replicate 5 0, food_y = replicate 5 0,
     food_count = 0, snake_length = 0\<rparr>"

text \<open>The first three proposals of the generator are free cells outside the row of the snake.\<close>

lemma place_first:
  assumes "snake_ok g" "unat (food_count g) < 5" "proposal (snake_rng g) = p" "p \<notin> set (body g)" "p \<notin> set (foods g)"
    "rng_after 1 (snake_rng g) = r"
  shows "\<exists>g'. snake_place_food g = Some g' \<and> snake_ok g' \<and> body g' = body g \<and> foods g' = foods g @ [p] \<and> snake_rng g' = r
    \<and> unat (food_count g') = Suc (unat (food_count g))"
proof -
  have a: "game_arrays g" using assms(1) by (simp add: snake_ok_def)
  have fc: "free_cell g (proposal (snake_rng g))" using assms(3-5) by (simp add: free_cell_def)
  have "snake_place_food g = Some (add_food p r g)"
    using place_loop_step [OF a assms(2)] fc assms(2,3,6) by (simp add: snake_place_food_def word_le_nat_alt)
  moreover have "r \<noteq> 0" using rng_after_nonzero [of "snake_rng g" 1] a assms(6) by (auto simp: game_arrays_def)
  then have "food_added g (add_food p r g)" using fc assms(3) proposal_range [of "snake_rng g"] unfolding food_added_def by blast
  moreover have "snake_rng (add_food p r g) = r" by (simp add: add_food_def)
  ultimately show ?thesis using food_added_ok [OF assms(1,2)] add_food_cells(2) [OF a assms(2)] by blast
qed

lemma fresh_arrays: "game_arrays fresh_game"
  by (simp add: game_arrays_def fresh_game_def)

lemma fresh_start:
  assumes "term_ok t"
  shows "\<exists>r t'. snake_start fresh_game t = Some (r, t') \<and> foods (sr_game r) = [(3, 22), (18, 13), (2, 16)]"
proof -
  obtain g0 where g0: "place_body 0 4 (fresh_game\<lparr>snake_length := 4\<rparr>) = Some g0" "bare_game (g0\<lparr>food_count := 0\<rparr>)"
    "snake_rng g0 = snake_rng fresh_game" by (rule bare_start [OF fresh_arrays])
  let ?g = "g0\<lparr>food_count := 0\<rparr>"
  have ok: "snake_ok ?g" "body ?g = first_body" "foods ?g = []" "unat (food_count ?g) = 0" "snake_rng ?g = 0x12345678"
    using g0(2,3) by (simp_all add: bare_game_def foods_def cells_def fresh_game_def)
  have r1: "proposal 0x12345678 = (3, 22)" "rng_after 1 0x12345678 = rng_after 1 0x12345678"
    "proposal (rng_after 1 0x12345678) = (18, 13)" "proposal (rng_after 1 (rng_after 1 0x12345678)) = (2, 16)" by code_simp+
  have nb: "(3, 22) \<notin> set first_body" "(18, 13) \<notin> set first_body" "(2, 16) \<notin> set first_body" by code_simp+
  obtain g1 where 1: "snake_place_food ?g = Some g1" "snake_ok g1" "body g1 = first_body" "foods g1 = [(3, 22)]"
    "snake_rng g1 = rng_after 1 0x12345678" "unat (food_count g1) = 1"
    using place_first [OF ok(1), of "(3, 22)"] ok(2-5) r1(1) nb(1) by (auto simp del: rng_after.simps)
  obtain g2 where 2: "snake_place_food g1 = Some g2" "snake_ok g2" "body g2 = first_body" "foods g2 = [(3, 22), (18, 13)]"
    "snake_rng g2 = rng_after 1 (rng_after 1 0x12345678)" "unat (food_count g2) = 2"
    using place_first [OF 1(2), of "(18, 13)"] 1(3-6) r1(3) nb(2) by (auto simp del: rng_after.simps)
  obtain g3 where 3: "snake_place_food g2 = Some g3" "snake_ok g3" "foods g3 = [(3, 22), (18, 13), (2, 16)]"
    using place_first [OF 2(2), of "(2, 16)"] 2(3-6) r1(4) nb(3) by (auto simp del: rng_after.simps)
  have l: "length (vga_buffer t) = 2000" using assms by (simp add: term_ok_def)
  obtain t' where t': "do { t \<leftarrow> snake_clear_screen g3 t; t \<leftarrow> snake_draw_border g3 t; t \<leftarrow> snake_draw_snake g3 t;
      t \<leftarrow> snake_draw_foods g3 t; snake_draw_status 0 g3 t } = Some t'" using first_picture [OF 3(2) l] by blast
  then have "snake_start fresh_game t = Some (\<lparr>sr_game = g3, sr_dx = 1, sr_dy = 0, sr_score = 0, sr_frame = 0\<rparr>, t')"
    using g0(1) 1(1) 2(1) 3(1) by (auto simp: snake_start_def Let_def bind_eq_Some_conv)
  then show ?thesis using 3(3) by auto
qed

text \<open>
  C23: in every state that a game of snake reaches from its start, by any sequence of keys, the body is a chain: its cells are
  distinct, lie inside the border, and each is next to the one before it. The snake heads in one of the four
  directions and the foods lie on distinct cells off the body. While the snake is shorter than 255 cells, every cell
  inside the border shows on the screen what is there: head, body, food or nothing; nothing is claimed of the screen
  at the maximal length of 255, where an eaten food leaves the old tail behind. The next iteration returns,
  unless a food was just eaten and the random generator never proposes a free cell for the next one.
\<close>

theorem snake_play_invariant:
  assumes "game_arrays g" "world_ok w" "in_play g w r w'"
  shows "snake_ok (sr_game r) \<and> successively adjacent (body (sr_game r)) \<and> heading r
    \<and> (unat (snake_length (sr_game r)) < 255 \<longrightarrow> screen_shows (sr_game r) (screen w'))
    \<and> (snake_iter r w' = None \<longrightarrow> (\<exists>c. searching (steer c r)))"
proof -
  have "game_inv r (screen w') \<and> world_ok w'" by (rule in_play_inv [OF assms(3,1,2)])
  then show ?thesis using iter_step [of r w'] in_play_linked [OF assms(3,1,2)] by (auto simp: game_inv_def drawn_def)
qed

theorem snake_play_invariant_witness:
  "\<exists>r w'. in_play fresh_game (demo_world []) r w' \<and> snake_ok (sr_game r) \<and> successively adjacent (body (sr_game r))
     \<and> screen_shows (sr_game r) (screen w')"
proof -
  let ?w = "demo_world []"
  have ok: "term_ok (screen ?w)" by (rule world_ok_term [OF demo_world_ok])
  obtain r t where s: "snake_start fresh_game (screen ?w) = Some (r, t)" using fresh_start [OF ok] by blast
  let ?w' = "?w\<lparr>w_kbd := (w_kbd ?w)\<lparr>kb_term := t\<rparr>\<rparr>"
  have p: "in_play fresh_game ?w r ?w'" by (rule in_play.start [OF s])
  have "body (sr_game r) = first_body" using start_inv [OF fresh_arrays ok s] by blast
  then have "unat (snake_length (sr_game r)) = 4"
    using snake_okD(9) [of "sr_game r"] snake_play_invariant [OF fresh_arrays demo_world_ok p] by (simp add: first_body_def)
  then have "unat (snake_length (sr_game r)) < 255" by simp
  with snake_play_invariant [OF fresh_arrays demo_world_ok p] p show ?thesis by blast
qed

text \<open>
  C24: a game left alone ends: from every state that a game reaches, when no key arrives any more and no food lies straight
  ahead, the loop returns, because the snake runs into the border or into itself.
\<close>

theorem snake_game_ends:
  assumes "game_arrays g" "world_ok w" "in_play g w r w'" "kb_events (w_kbd w') = []"
    and "\<forall>p \<in> set (foods (sr_game r)). \<not> ahead r p"
  shows "\<exists>r' w''. snake_loop r w' = Some (r', w'')"
proof -
  have "game_inv r (screen w') \<and> world_ok w'" by (rule in_play_inv [OF assms(3,1,2)])
  then show ?thesis using straight_game_ends in_play_linked [OF assms(3,1,2)] assms(4,5) by blast
qed

theorem snake_game_ends_witness:
  "\<exists>r t r' w''. snake_start fresh_game (screen (demo_world [])) = Some (r, t)
     \<and> snake_loop r ((demo_world [])\<lparr>w_kbd := (w_kbd (demo_world []))\<lparr>kb_term := t\<rparr>\<rparr>) = Some (r', w'')"
proof -
  let ?w = "demo_world []"
  have ok: "term_ok (screen ?w)" by (rule world_ok_term [OF demo_world_ok])
  obtain r t where s: "snake_start fresh_game (screen ?w) = Some (r, t)" "foods (sr_game r) = [(3, 22), (18, 13), (2, 16)]"
    using fresh_start [OF ok] by blast
  let ?w' = "?w\<lparr>w_kbd := (w_kbd ?w)\<lparr>kb_term := t\<rparr>\<rparr>"
  have d: "body (sr_game r) = first_body" "sr_dx r = 1" "sr_dy r = 0" "sr_frame r = 0" using start_inv [OF fresh_arrays ok s(1)] by blast+
  have "\<forall>p \<in> set (foods (sr_game r)). \<not> ahead r p" by (simp add: ahead_def d s(2) first_body_def)
  moreover have "kb_events (w_kbd ?w') = []" by (simp add: demo_world_def boot_kbd_def keyboard_init_def keyboard_set_layout_def)
  ultimately show ?thesis
    using snake_game_ends [OF fresh_arrays demo_world_ok in_play.start [OF s(1)]] s(1) by blast
qed

end
