(* ===== verification/Messages.thy ===== *)
theory Messages
  imports Boot Commands
begin

text \<open>
  What \<open>printf\<close> shows for the formats of the commands. A format is cut into pieces: plain text, a conversion with its
  argument, or a directive that \<open>printf\<close> does not know. \<open>printf\<close> has no field widths: \<open>%8u\<close> is the unknown
  directive \<open>%8\<close>, which prints nothing and takes no argument, followed by the letter \<open>u\<close>.
\<close>

section \<open>Pieces of a format\<close>

datatype piece = Txt string | Strg "byte list" | Unsigned u32 | Signed u32 | Percent | Unknown char

primrec piece_format :: "piece \<Rightarrow> string" where
  "piece_format (Txt s) = s"
| "piece_format (Strg s) = ''%s''"
| "piece_format (Unsigned u) = ''%u''"
| "piece_format (Signed u) = ''%d''"
| "piece_format Percent = ''%%''"
| "piece_format (Unknown c) = [CHR ''%'', c]"

primrec piece_args :: "piece \<Rightarrow> va list" where
  "piece_args (Txt s) = []"
| "piece_args (Strg s) = [Str s]"
| "piece_args (Unsigned u) = [Word u]"
| "piece_args (Signed u) = [Word u]"
| "piece_args Percent = []"
| "piece_args (Unknown c) = []"

primrec piece_text :: "piece \<Rightarrow> byte list" where
  "piece_text (Txt s) = lit s"
| "piece_text (Strg s) = cstr s"
| "piece_text (Unsigned u) = sprintf_u u"
| "piece_text (Signed u) = sprintf_signed (sint u)"
| "piece_text Percent = [37]"
| "piece_text (Unknown c) = []"

definition plain_chars :: "string \<Rightarrow> bool" where
  "plain_chars s \<longleftrightarrow> list_all (\<lambda>c. of_char c \<noteq> (0 :: byte) \<and> of_char c \<noteq> chr CHR ''%'') s"

primrec piece_ok :: "piece \<Rightarrow> bool" where
  "piece_ok (Txt s) = plain_chars s"
| "piece_ok (Strg s) = terminated s"
| "piece_ok (Unsigned u) = True"
| "piece_ok (Signed u) = (sint u \<noteq> - (2 ^ 31))"
| "piece_ok Percent = True"
| "piece_ok (Unknown c) = (c \<in> set ''0123456789-'')"

abbreviation format_of :: "piece list \<Rightarrow> string" where "format_of ps \<equiv> concat (map piece_format ps)"
abbreviation args_of :: "piece list \<Rightarrow> va list" where "args_of ps \<equiv> concat (map piece_args ps)"
abbreviation text_of :: "piece list \<Rightarrow> byte list" where "text_of ps \<equiv> concat (map piece_text ps)"

lemma lit_append: "lit (a @ b) = lit a @ lit b"
  by (simp add: lit_def)

lemma piece_sprintf:
  assumes "piece_ok p"
  shows "sprintf_text (lit (piece_format p) @ f) (piece_args p @ as) = map_option ((@) (piece_text p)) (sprintf_text f as)"
proof (cases p)
  case (Txt s)
  then show ?thesis using assms sprintf_text_lit [of s f as] by (simp add: plain_chars_def)
next
  case (Unknown c)
  then show ?thesis using assms by (auto simp: lit_def sprintf_conv_def option.map_id0 [unfolded id_def] cong: option.case_cong)
qed (use assms in \<open>auto simp: lit_def sprintf_conv_def sprintf_s_eq sprintf_i_def split: option.splits\<close>)

lemma piece_conversions:
  assumes "piece_ok p"
  shows "\<exists>cs. conversions (lit (piece_format p) @ f) = cs @ conversions f \<and> set cs \<inter> (printf_only \<union> hex_conv) = {}"
proof (cases p)
  case (Txt s)
  then show ?thesis using assms conversions_plain [of s f] by (auto simp: plain_chars_def)
qed (use assms in \<open>auto simp: lit_def printf_only_def hex_conv_def\<close>)

lemma pieces_sprintf:
  "list_all piece_ok ps \<Longrightarrow> sprintf_text (clit (format_of ps)) (args_of ps @ as) = Some (text_of ps)"
proof (induction ps)
  case Nil
  show ?case by (simp add: clit_def lit_def)
next
  case (Cons p ps)
  then show ?case using piece_sprintf [of p "lit (format_of ps) @ [0]" "args_of ps @ as"] by (simp add: clit_def lit_append)
qed

lemma pieces_conversions: "list_all piece_ok ps \<Longrightarrow> set (conversions (clit (format_of ps))) \<inter> (printf_only \<union> hex_conv) = {}"
proof (induction ps)
  case Nil
  show ?case by (simp add: clit_def lit_def)
next
  case (Cons p ps)
  then obtain cs where "conversions (clit (format_of (p # ps))) = cs @ conversions (clit (format_of ps))"
    "set cs \<inter> (printf_only \<union> hex_conv) = {}"
    using piece_conversions [of p "lit (format_of ps) @ [0]"] by (auto simp: clit_def lit_append)
  then show ?case using Cons by auto
qed

lemma console_then: "console_write a t = Some u \<Longrightarrow> console_write b u = Some v \<Longrightarrow> console_write (a @ b) t = Some v"
  by (simp add: console_append)

text \<open>Arguments beyond those of the pieces are not looked at.\<close>

lemma print_pieces:
  assumes "world_ok w" "list_all piece_ok ps" "length (text_of ps) \<le> 2048"
  shows "\<exists>w'. w_printf (format_of ps) (args_of ps @ as) w = Some w' \<and> prints w (text_of ps) w'"
  using pieces_conversions [OF assms(2)]
  by (intro w_printf_prints [OF assms(1) pieces_sprintf [OF assms(2)] _ _ assms(3)]) auto

section \<open>Sequences of messages\<close>

text \<open>The state after a message: the form in which the steps of a command follow one another.\<close>

definition shows_text :: "('a world_scheme \<Rightarrow> 'a world_scheme option) \<Rightarrow> byte list \<Rightarrow> bool" where
  "shows_text f t \<longleftrightarrow> (\<forall>w. world_ok w \<longrightarrow> (\<exists>w'. f w = Some w' \<and> prints w t w'))"

named_theorems shows_intros \<open>what a step of a command prints\<close>

lemma shows_textD: "shows_text f t \<Longrightarrow> world_ok w \<Longrightarrow> \<exists>w'. f w = Some w' \<and> prints w t w'"
  by (simp add: shows_text_def)

lemma shows_then:
  assumes "shows_text f s" "shows_text g t"
  shows "shows_text (\<lambda>w. do { w \<leftarrow> f w; g w }) (s @ t)"
  unfolding shows_text_def
proof (intro allI impI)
  fix w :: "'a world_scheme"
  assume "world_ok w"
  then obtain w1 where w1: "f w = Some w1" "prints w s w1" using shows_textD [OF assms(1)] by blast
  then obtain w2 where "g w1 = Some w2" "prints w1 t w2" using shows_textD [OF assms(2) prints_ok] by blast
  then show "\<exists>w'. do { w \<leftarrow> f w; g w } = Some w' \<and> prints w (s @ t) w'" using w1 prints_trans by auto
qed

lemma shows_nothing: "shows_text Some []"
  by (simp add: shows_text_def prints_refl)

lemma shows_pieces:
  assumes "list_all piece_ok ps" "length (text_of ps) \<le> 2048" "f = format_of ps" "args = args_of ps @ as"
  shows "shows_text (w_printf f args) (text_of ps)"
  unfolding shows_text_def assms(3,4) using print_pieces [OF _ assms(1,2)] by blast

text \<open>A format with one string in it.\<close>

lemma shows_string:
  assumes "plain_chars p" "plain_chars q" "terminated a" "length p + length (cstr a) + length q \<le> 2048" "f = p @ ''%s'' @ q"
  shows "shows_text (w_printf f [Str a]) (lit p @ cstr a @ lit q)"
  using shows_pieces [of "[Txt p, Strg a, Txt q]" f "[Str a]" "[]"] assms by (simp add: lit_def)

lemma shows_plain: "plain_text s \<Longrightarrow> shows_text (w_printf s args) (lit s)"
  by (simp add: shows_text_def print_plain)

lemma shows_all: "list_all plain_text ss \<Longrightarrow> shows_text (printf_all ss) (lit (concat ss))"
  by (simp add: shows_text_def printf_all_prints)

text \<open>Messages on the screen only.\<close>

lemma finish_shows:
  assumes "shows_text f t" "world_ok w"
  shows "\<exists>w'. finish r (f w) = Some (r, w') \<and> prints w t w'"
  using shows_textD [OF assms] by (auto simp: finish_def)

end
