(* ===== verification/Gcc.thy ===== *)
theory Gcc
  imports Messages Elf
begin

text \<open>
  The command \<open>gcc\<close> of \<^verbatim>\<open>src/bin/gcc/gcc.c\<close>: a lexer that looks for function definitions in the source file, and a
  writer of a constant executable. The loop of \<open>parse_program\<close> is a partial function; \<open>parse_rounds\<close> counts its
  iterations. The arrays of the stack hold arbitrary bytes and are parameters. The theorems say exactly on which
  sources the command returns and what it leaves behind.
\<close>

section \<open>The lexer\<close>

record lexer =
  lx_source :: "byte list"
  lx_pos :: nat
  lx_len :: nat

record symbol =
  sy_name :: "byte list"
  sy_is_function :: int

text \<open>The static variables of the unit.\<close>

record gcc_state =
  symbols :: "symbol list"
  symbol_count :: nat

definition lexer_init :: "byte list \<Rightarrow> lexer option" where
  "lexer_init src = map_option (\<lambda>n. \<lparr>lx_source = src, lx_pos = 0, lx_len = n\<rparr>) (strlen src)"

definition lexer_peek :: "lexer \<Rightarrow> byte option" where
  "lexer_peek l = (if lx_pos l \<ge> lx_len l then Some 0 else array_get (lx_source l) (lx_pos l))"

definition lexer_blank :: "byte \<Rightarrow> bool" where
  "lexer_blank c \<longleftrightarrow> c = 32 \<or> c = 9 \<or> c = 10 \<or> c = 13"

definition is_ident_char :: "byte \<Rightarrow> bool" where
  "is_ident_char c \<longleftrightarrow> (sint c \<ge> 97 \<and> sint c \<le> 122) \<or> (sint c \<ge> 65 \<and> sint c \<le> 90) \<or> (sint c \<ge> 48 \<and> sint c \<le> 57) \<or> c = 95"

function lexer_skip_whitespace :: "lexer \<Rightarrow> lexer option" where
  "lexer_skip_whitespace l =
     (if lx_pos l < lx_len l
      then (case array_get (lx_source l) (lx_pos l) of
              None \<Rightarrow> None
            | Some c \<Rightarrow> if lexer_blank c then lexer_skip_whitespace (l\<lparr>lx_pos := lx_pos l + 1\<rparr>) else Some l)
      else Some l)"
  by pat_completeness auto
termination
  by (relation "measure (\<lambda>l. lx_len l - lx_pos l)") auto

text \<open>The loop of \<open>lexer_read_identifier\<close>, from the characters stored so far.\<close>

function identifier_loop :: "lexer \<Rightarrow> byte list \<Rightarrow> nat \<Rightarrow> nat \<Rightarrow> (nat \<times> byte list \<times> lexer) option" where
  "identifier_loop l buf n mx =
     (if lx_pos l < lx_len l \<and> n < mx - 1
      then (case array_get (lx_source l) (lx_pos l) of
              None \<Rightarrow> None
            | Some c \<Rightarrow>
                if is_ident_char c
                then (case array_set buf n c of
                        None \<Rightarrow> None
                      | Some buf \<Rightarrow> identifier_loop (l\<lparr>lx_pos := lx_pos l + 1\<rparr>) buf (n + 1) mx)
                else Some (n, buf, l))
      else Some (n, buf, l))"
  by pat_completeness auto
termination
  by (relation "measure (\<lambda>(l, _). lx_len l - lx_pos l)") auto

definition lexer_read_identifier :: "lexer \<Rightarrow> byte list \<Rightarrow> nat \<Rightarrow> (nat \<times> byte list \<times> lexer) option" where
  "lexer_read_identifier l buf mx =
     do { (n, buf, l) \<leftarrow> identifier_loop l buf 0 mx;
          buf \<leftarrow> array_set buf n 0;
          Some (n, buf, l) }"

definition add_symbol :: "byte list \<Rightarrow> int \<Rightarrow> gcc_state \<Rightarrow> gcc_state option" where
  "add_symbol name is_func g =
     (if symbol_count g \<ge> 32 then Some g
      else do { s \<leftarrow> array_get (symbols g) (symbol_count g);
                b \<leftarrow> strcpy (sy_name s) name;
                ss \<leftarrow> array_set (symbols g) (symbol_count g) \<lparr>sy_name = b, sy_is_function = is_func\<rparr>;
                Some \<lparr>symbols = ss, symbol_count = symbol_count g + 1\<rparr> })"

section \<open>The parser\<close>

text \<open>The variables of \<open>parse_program\<close>, with those of the unit.\<close>

record parser =
  ps_lexer :: lexer
  ps_keyword :: "byte list"
  ps_ident :: "byte list"
  ps_state :: gcc_state

text \<open>The test \<open>strcmp(keyword, "int") == 0 || strcmp(keyword, "void") == 0\<close>.\<close>

definition is_type_name :: "byte list \<Rightarrow> bool option" where
  "is_type_name keyword =
     do { r \<leftarrow> strcmp keyword (clit ''int'');
          if r = 0 then Some True else map_option (\<lambda>r. r = 0) (strcmp keyword (clit ''void'')) }"

text \<open>The part of the body for a keyword that names a type.\<close>

definition parse_name :: "parser \<Rightarrow> parser option" where
  "parse_name p =
     do { (n, ident, l) \<leftarrow> lexer_read_identifier (ps_lexer p) (ps_ident p) 64;
          let p = p\<lparr>ps_ident := ident, ps_lexer := l\<rparr>;
          if n > 0
          then do { l \<leftarrow> lexer_skip_whitespace l;
                    c \<leftarrow> lexer_peek l;
                    g \<leftarrow> (if c = 40 then add_symbol ident 1 (ps_state p) else Some (ps_state p));
                    Some (p\<lparr>ps_lexer := l, ps_state := g\<rparr>) }
          else Some p }"

text \<open>The body of the loop; the inner \<open>None\<close> is \<open>break\<close>.\<close>

definition parse_step :: "parser \<Rightarrow> parser option option" where
  "parse_step p =
     do { l \<leftarrow> lexer_skip_whitespace (ps_lexer p);
          c \<leftarrow> lexer_peek l;
          if c = 0 then Some None
          else do {
            (n, keyword, l) \<leftarrow> lexer_read_identifier l (ps_keyword p) 64;
            let p = p\<lparr>ps_keyword := keyword, ps_lexer := l\<rparr>;
            if n > 0
            then do { l \<leftarrow> lexer_skip_whitespace l;
                      let p = p\<lparr>ps_lexer := l\<rparr>;
                      t \<leftarrow> is_type_name keyword;
                      if t then map_option Some (parse_name p) else Some (Some p) }
            else Some (Some p) } }"

partial_function (option) parse_loop :: "parser \<Rightarrow> gcc_state option" where
  "parse_loop p =
     (if lx_pos (ps_lexer p) < lx_len (ps_lexer p)
      then do { r \<leftarrow> parse_step p;
                case r of None \<Rightarrow> Some (ps_state p) | Some p \<Rightarrow> parse_loop p }
      else Some (ps_state p))"

definition parse_program :: "byte list \<Rightarrow> byte list \<Rightarrow> byte list \<Rightarrow> gcc_state \<Rightarrow> (int \<times> gcc_state) option" where
  "parse_program keyword ident source g =
     do { l \<leftarrow> lexer_init source;
          g \<leftarrow> parse_loop \<lparr>ps_lexer = l, ps_keyword = keyword, ps_ident = ident, ps_state = g\<rparr>;
          Some (0, g) }"

text \<open>The variables after so many iterations; \<open>None\<close> when the loop has ended before.\<close>

fun parse_rounds :: "nat \<Rightarrow> parser \<Rightarrow> parser option" where
  "parse_rounds 0 p = (if lx_pos (ps_lexer p) < lx_len (ps_lexer p) then Some p else None)"
| "parse_rounds (Suc n) p =
     (if lx_pos (ps_lexer p) < lx_len (ps_lexer p)
      then do { r \<leftarrow> parse_step p; case r of None \<Rightarrow> None | Some p \<Rightarrow> parse_rounds n p }
      else None)"

section \<open>The executable\<close>

definition elf_header :: "byte list" where
  "elf_header =
     [0x7F, 0x45, 0x4C, 0x46, 1, 1, 1, 0, 0, 0, 0, 0, 0, 0, 0, 0, 2, 0, 3, 0, 1, 0, 0, 0,
      0x54, 0x80, 0x04, 0x08, 0x34, 0, 0, 0, 0, 0, 0, 0, 0, 0, 0, 0, 0x34, 0, 0x20, 0, 1, 0, 0, 0, 0, 0, 0, 0]"

definition elf_phdr :: "byte list" where
  "elf_phdr =
     [1, 0, 0, 0, 0x34, 0, 0, 0, 0x00, 0x80, 0x04, 0x08, 0x00, 0x80, 0x04, 0x08,
      0x20, 0, 0, 0, 0x20, 0, 0, 0, 5, 0, 0, 0, 0x00, 0x10, 0, 0]"

definition elf_code :: "byte list" where
  "elf_code = [0xB8, 1, 0, 0, 0, 0xBB, 0, 0, 0, 0, 0xCD, 0x80, 0, 0, 0, 0, 0, 0, 0, 0]"

text \<open>The three copies into \<open>elf_data\<close>; the result is the array and \<open>elf_size\<close>.\<close>

definition build_elf :: "byte list \<Rightarrow> (byte list \<times> nat) option" where
  "build_elf elf_data =
     do { d \<leftarrow> memcpy elf_data elf_header (length elf_header);
          let elf_size = length elf_header;
          e \<leftarrow> memcpy (drop elf_size d) elf_phdr (length elf_phdr);
          let d = take elf_size d @ e;
          let elf_size = elf_size + length elf_phdr;
          e \<leftarrow> memcpy (drop elf_size d) elf_code (length elf_code);
          Some (take elf_size d @ e, elf_size + length elf_code) }"

text \<open>
  A node outside the pool: the bytes the heap hands out, read as the fields of \<open>vnode_t\<close>. The parameter \<open>node_at\<close> gives the
  node a pointer denotes. \<open>memset\<close> clears the first byte only.
\<close>

definition heap_vnode :: "(addr \<Rightarrow> nat option) \<Rightarrow> memory \<Rightarrow> addr \<Rightarrow> vnode" where
  "heap_vnode node_at m p =
     \<lparr>vn_name = mem_read m p 32, vn_flags = load32 m (p + 32), vn_parent = node_at (load32 m (p + 36)),
      vn_children = map (\<lambda>i. node_at (load32 m (p + 40 + 4 * of_nat i))) [0..<16],
      vn_child_count = load32 m (p + 104), vn_size = load32 m (p + 108), vn_content = None\<rparr>"

text \<open>A node of the heap gets an index above those of the pool.\<close>

definition add_heap_node :: "nat \<Rightarrow> vnode \<Rightarrow> fs \<Rightarrow> fs option" where
  "add_heap_node dir n s = append_child dir (length (vnodes_pool s)) (s\<lparr>vnodes_pool := vnodes_pool s @ [n]\<rparr>)"

definition generate_elf_stub ::
  "byte list \<Rightarrow> (addr \<Rightarrow> nat option) \<Rightarrow> byte list \<Rightarrow> 'a world_scheme \<Rightarrow> (int \<times> 'a world_scheme) option" where
  "generate_elf_stub elf_data node_at output_file w =
     do { (elf_data, elf_size) \<leftarrow> build_elf elf_data;
          case vfs_root (w_fs w) of
            None \<Rightarrow> Some (-1, w)
          | Some root \<Rightarrow>
              do { d \<leftarrow> array_get (vnodes_pool (w_fs w)) root;
                   if vn_child_count d < 16
                   then do {
                     (p, h) \<leftarrow> kmalloc 116 (w_heap w);
                     let w = w\<lparr>w_heap := h\<rparr>;
                     if p = 0 then Some (-1, w)
                     else do {
                       let m = (kh_mem h)(p := 0);
                       let n = heap_vnode node_at m p;
                       name \<leftarrow> strcpy (vn_name n) output_file;
                       (q, h) \<leftarrow> kmalloc (of_nat elf_size) (w_heap w);
                       let w = w\<lparr>w_heap := h\<rparr>;
                       if q = 0 then Some (-1, w)
                       else do {
                         content \<leftarrow> memcpy (mem_read (kh_mem h) q elf_size) elf_data elf_size;
                         fs \<leftarrow> add_heap_node root (n\<lparr>vn_name := name, vn_flags := VFS_FILE, vn_parent := Some root,
                                 vn_size := of_nat elf_size, vn_content := Some content\<rparr>) (w_fs w);
                         Some (0, w\<lparr>w_fs := fs\<rparr>) } } }
                   else Some (-1, w) } }"

section \<open>The command\<close>

text \<open>The loop over the arguments for \<open>-o\<close>.\<close>

fun output_option :: "byte list list \<Rightarrow> byte list option" where
  "output_option (a # b # as) =
     do { r \<leftarrow> strcmp a (clit ''-o''); if r = 0 then Some b else output_option (b # as) }"
| "output_option _ = Some (clit ''a.elf'')"

text \<open>The uninitialised arrays of the three functions.\<close>

record gcc_stack =
  gs_keyword :: "byte list"
  gs_ident :: "byte list"
  gs_elf_data :: "byte list"

definition cmd_gcc ::
  "gcc_stack \<Rightarrow> (addr \<Rightarrow> nat option) \<Rightarrow> byte list list \<Rightarrow> gcc_state \<Rightarrow> 'a world_scheme \<Rightarrow> (int \<times> gcc_state \<times> 'a world_scheme) option" where
  "cmd_gcc st node_at argv g w =
     (if length argv < 2
      then do { w \<leftarrow> w_printf ''Usage: gcc <source.c> [-o output.elf]\<newline>'' [] w;
                w \<leftarrow> w_printf ''Simple C compiler for user programs\<newline>'' [] w;
                w \<leftarrow> w_printf ''Supported features: basic functions, printf, simple control flow\<newline>'' [] w;
                Some (0, g, w) }
      else do {
        input_file \<leftarrow> array_get argv 1;
        output_file \<leftarrow> output_option (drop 2 argv);
        src \<leftarrow> open_text input_file w;
        case Option.bind src vn_content of
          None \<Rightarrow> do { w \<leftarrow> w_printf ''gcc: %s: No such file or directory\<newline>'' [Str input_file] w; Some (-1, g, w) }
        | Some content \<Rightarrow>
            do { w \<leftarrow> w_printf ''gcc: Compiling %s...\<newline>'' [Str input_file] w;
                 (r, g) \<leftarrow> parse_program (gs_keyword st) (gs_ident st) content g;
                 if r \<noteq> 0 then do { w \<leftarrow> w_printf ''gcc: Parse error\<newline>'' [] w; Some (-1, g, w) }
                 else do {
                   w \<leftarrow> w_printf ''gcc: Found %d symbols\<newline>'' [Word (of_nat (symbol_count g))] w;
                   (r, w) \<leftarrow> generate_elf_stub (gs_elf_data st) node_at output_file w;
                   if r \<noteq> 0 then do { w \<leftarrow> w_printf ''gcc: Failed to generate output file\<newline>'' [] w; Some (-1, g, w) }
                   else do { w \<leftarrow> w_printf ''gcc: Successfully compiled to %s\<newline>'' [Str output_file] w;
                             Some (0, g, w) } } } })"

declare lexer_skip_whitespace.simps [simp del] identifier_loop.simps [simp del]

section \<open>What the lexer reads\<close>

text \<open>The characters not read yet.\<close>

definition rest :: "lexer \<Rightarrow> byte list" where
  "rest l = drop (lx_pos l) (cstr (lx_source l))"

definition lexer_ok :: "lexer \<Rightarrow> bool" where
  "lexer_ok l \<longleftrightarrow> terminated (lx_source l) \<and> lx_len l = length (cstr (lx_source l)) \<and> lx_pos l \<le> lx_len l"

lemma lexer_init_ok:
  assumes "terminated src"
  shows "\<exists>l. lexer_init src = Some l \<and> lexer_ok l \<and> rest l = cstr src"
  using assms by (simp add: lexer_init_def strlen_eq lexer_ok_def rest_def)

lemma lexer_more: "lexer_ok l \<Longrightarrow> lx_pos l < lx_len l \<longleftrightarrow> rest l \<noteq> []"
  by (auto simp: lexer_ok_def rest_def)

lemma lexer_head:
  assumes "lexer_ok l" "rest l = c # r"
  shows "array_get (lx_source l) (lx_pos l) = Some c" "lexer_ok (l\<lparr>lx_pos := lx_pos l + 1\<rparr>)" "rest (l\<lparr>lx_pos := lx_pos l + 1\<rparr>) = r"
    "lx_pos l < lx_len l" "c \<noteq> 0"
proof -
  show p: "lx_pos l < lx_len l" using assms lexer_more by simp
  have c: "cstr (lx_source l) ! lx_pos l = c" "drop (Suc (lx_pos l)) (cstr (lx_source l)) = r"
    using assms p by (simp_all add: rest_def lexer_ok_def Cons_nth_drop_Suc [symmetric])
  obtain ys where "lx_source l = cstr (lx_source l) @ 0 # ys" using assms(1) terminated_decomp by (auto simp: lexer_ok_def)
  then have "lx_source l ! lx_pos l = c" using p c(1) assms(1) by (metis lexer_ok_def nth_append)
  then show "array_get (lx_source l) (lx_pos l) = Some c"
    using p assms(1) terminated_length [of "lx_source l"] by (auto simp: array_get_def lexer_ok_def)
  show "lexer_ok (l\<lparr>lx_pos := lx_pos l + 1\<rparr>)" using assms(1) p by (simp add: lexer_ok_def)
  show "rest (l\<lparr>lx_pos := lx_pos l + 1\<rparr>) = r" using c(2) by (simp add: rest_def)
  have "c \<in> set (cstr (lx_source l))" using c(1) p assms(1) by (auto simp: lexer_ok_def)
  then show "c \<noteq> 0" by (rule cstr_nonzero)
qed

lemma lexer_peek_rest: "lexer_ok l \<Longrightarrow> lexer_peek l = Some (case rest l of [] \<Rightarrow> 0 | c # r \<Rightarrow> c)"
  using lexer_more [of l] lexer_head(1,4) [of l] by (cases "rest l") (auto simp: lexer_peek_def)

lemma skip_rest: "lexer_ok l \<Longrightarrow> \<exists>l'. lexer_skip_whitespace l = Some l' \<and> lexer_ok l' \<and> rest l' = dropWhile lexer_blank (rest l)"
proof (induction "rest l" arbitrary: l)
  case Nil
  then show ?case using lexer_more [of l] by (subst lexer_skip_whitespace.simps) auto
next
  case (Cons c r)
  note h = lexer_head [OF Cons.prems Cons.hyps(2) [symmetric]]
  show ?case using Cons.hyps(1) [OF h(3) [symmetric] h(2)] h Cons.prems Cons.hyps(2) [symmetric]
    by (subst lexer_skip_whitespace.simps) auto
qed

text \<open>An identifier is taken off the text up to 63 characters; the array keeps its size.\<close>

lemma identifier_rest:
  assumes "lexer_ok l" "length buf = 64" "n \<le> 63"
  shows "\<exists>w buf' l'. identifier_loop l buf n 64 = Some (n + length w, buf', l') \<and> lexer_ok l' \<and> rest l = w @ rest l'
    \<and> (\<forall>c\<in>set w. is_ident_char c) \<and> length buf' = 64 \<and> n + length w \<le> 63
    \<and> (n < 63 \<longrightarrow> w = [] \<longrightarrow> rest l' \<noteq> [] \<longrightarrow> \<not> is_ident_char (hd (rest l')))"
  using assms
proof (induction "rest l" arbitrary: l buf n)
  case Nil
  then have "identifier_loop l buf n 64 = Some (n, buf, l)" using lexer_more [of l] by (subst identifier_loop.simps) auto
  then show ?case using Nil by (intro exI [of _ "[]"] exI [of _ buf] exI [of _ l]) simp
next
  case (Cons c r)
  note h = lexer_head [OF Cons.prems(1) Cons.hyps(2) [symmetric]]
  show ?case
  proof (cases "n < 63 \<and> is_ident_char c")
    case True
    obtain w b l' where i: "identifier_loop (l\<lparr>lx_pos := lx_pos l + 1\<rparr>) (buf[n := c]) (Suc n) 64 = Some (Suc n + length w, b, l')"
      "lexer_ok l'" "r = w @ rest l'" "\<forall>c\<in>set w. is_ident_char c" "length b = 64" "Suc n + length w \<le> 63"
      using Cons.hyps(1) [OF h(3) [symmetric] h(2), of "buf[n := c]" "Suc n"] Cons.prems True h(3) by auto
    have "identifier_loop l buf n 64 = Some (n + length (c # w), b, l')"
      using h(1,4) True i(1) Cons.prems(2) by (subst identifier_loop.simps) (simp add: array_set_def)
    then show ?thesis using i True Cons.hyps(2) [symmetric]
      by (intro exI [of _ "c # w"] exI [of _ b] exI [of _ l']) simp
  next
    case False
    then have "identifier_loop l buf n 64 = Some (n, buf, l)" using h(1) by (subst identifier_loop.simps) auto
    then show ?thesis using Cons.prems Cons.hyps(2) [symmetric] False
      by (intro exI [of _ "[]"] exI [of _ buf] exI [of _ l]) auto
  qed
qed

lemma read_identifier_rest:
  assumes "lexer_ok l" "length buf = 64"
  shows "\<exists>w buf' l'. lexer_read_identifier l buf 64 = Some (length w, buf', l') \<and> lexer_ok l' \<and> rest l = w @ rest l'
    \<and> (\<forall>c\<in>set w. is_ident_char c) \<and> length buf' = 64 \<and> buf' ! length w = 0 \<and> length w \<le> 63
    \<and> (w = [] \<longrightarrow> rest l' \<noteq> [] \<longrightarrow> \<not> is_ident_char (hd (rest l')))"
proof -
  obtain w b l' where "identifier_loop l buf 0 64 = Some (length w, b, l')" "lexer_ok l'" "rest l = w @ rest l'"
    "\<forall>c\<in>set w. is_ident_char c" "length b = 64" "length w \<le> 63" "w = [] \<longrightarrow> rest l' \<noteq> [] \<longrightarrow> \<not> is_ident_char (hd (rest l'))"
    using identifier_rest [OF assms, of 0] by auto
  then show ?thesis
    by (intro exI [of _ w] exI [of _ "b[length w := 0]"] exI [of _ l']) (auto simp: lexer_read_identifier_def array_set_def)
qed

lemma cstr_within: "b ! n = 0 \<Longrightarrow> n < length b \<Longrightarrow> terminated b \<and> length (cstr b) \<le> n"
proof (induction b arbitrary: n)
  case (Cons c b)
  then show ?case by (cases n) auto
qed simp

section \<open>What the parser does\<close>

definition gcc_ok :: "gcc_state \<Rightarrow> bool" where
  "gcc_ok g \<longleftrightarrow> symbol_count g \<le> 32 \<and> length (symbols g) = 32 \<and> (\<forall>s\<in>set (symbols g). length (sy_name s) = 64)"

lemma add_symbol_ok:
  assumes "gcc_ok g" "terminated name" "length (cstr name) \<le> 63"
  shows "\<exists>g'. add_symbol name f g = Some g' \<and> gcc_ok g'"
proof (cases "symbol_count g < 32")
  case True
  let ?s = "symbols g ! symbol_count g"
  have s: "length (sy_name ?s) = 64" using assms(1) True by (simp add: gcc_ok_def)
  let ?b = "cstr name @ drop (length (cstr name)) (sy_name ?s)"
  have b: "strcpy (sy_name ?s) name = Some ?b" "length ?b = 64" using assms(2,3) s by (simp_all add: strcpy_eq)
  let ?g = "\<lparr>symbols = (symbols g)[symbol_count g := \<lparr>sy_name = ?b, sy_is_function = f\<rparr>], symbol_count = symbol_count g + 1\<rparr>"
  have "add_symbol name f g = Some ?g" using b(1) True assms(1) by (simp add: add_symbol_def array_get_def array_set_def gcc_ok_def)
  moreover have "gcc_ok ?g" using assms(1) b(2) True set_update_subset_insert [of "symbols g"] by (fastforce simp: gcc_ok_def)
  ultimately show ?thesis by blast
qed (use assms in \<open>auto simp: add_symbol_def\<close>)

text \<open>The characters the parser can get past.\<close>

definition skippable :: "byte \<Rightarrow> bool" where
  "skippable c \<longleftrightarrow> is_ident_char c \<or> lexer_blank c"

lemma parenthesis_unskippable: "\<not> skippable 40"
  by (simp add: skippable_def is_ident_char_def lexer_blank_def)

definition parser_ok :: "parser \<Rightarrow> bool" where
  "parser_ok p \<longleftrightarrow> lexer_ok (ps_lexer p) \<and> length (ps_keyword p) = 64 \<and> length (ps_ident p) = 64 \<and> gcc_ok (ps_state p)"

abbreviation unread :: "parser \<Rightarrow> byte list" where "unread p \<equiv> rest (ps_lexer p)"

text \<open>From \<open>p\<close> to \<open>p'\<close> skippable characters are taken off the text, and a symbol is added only in front of a parenthesis.\<close>

definition parse_advances :: "parser \<Rightarrow> parser \<Rightarrow> bool" where
  "parse_advances p p' \<longleftrightarrow> parser_ok p' \<and> (\<exists>w. unread p = w @ unread p' \<and> (\<forall>c\<in>set w. skippable c))
     \<and> (ps_state p' = ps_state p \<or> (\<exists>r. unread p' = 40 # r))"


lemma takeWhile_split: "\<exists>w. xs = w @ dropWhile P xs \<and> (\<forall>c\<in>set w. P c)"
  by (rule exI [of _ "takeWhile P xs"]) (auto dest: set_takeWhileD)

lemma skip_blanks:
  assumes "lexer_ok l"
  shows "\<exists>l' w. lexer_skip_whitespace l = Some l' \<and> lexer_ok l' \<and> rest l' = dropWhile lexer_blank (rest l)
    \<and> rest l = w @ rest l' \<and> (\<forall>c\<in>set w. skippable c)"
proof -
  obtain l' where l: "lexer_skip_whitespace l = Some l'" "lexer_ok l'" "rest l' = dropWhile lexer_blank (rest l)"
    using skip_rest [OF assms] by blast
  obtain w where w: "rest l = w @ rest l'" "\<forall>c\<in>set w. lexer_blank c" using takeWhile_split [of "rest l" lexer_blank] l(3) by metis
  have "\<forall>c\<in>set w. skippable c" using w(2) by (simp add: skippable_def)
  then show ?thesis using l w(1) by blast
qed

lemma is_type_name_total: "terminated k \<Longrightarrow> \<exists>t. is_type_name k = Some t"
  using strcmp_less_iff [of k "clit ''int''"] strcmp_less_iff [of k "clit ''void''"] by (auto simp: is_type_name_def clit_def)

lemma parse_name_advances:
  assumes "parser_ok p"
  shows "\<exists>p'. parse_name p = Some p' \<and> parse_advances p p'"
proof -
  have p: "lexer_ok (ps_lexer p)" "length (ps_ident p) = 64" "gcc_ok (ps_state p)" using assms by (auto simp: parser_ok_def)
  obtain w b l where r: "lexer_read_identifier (ps_lexer p) (ps_ident p) 64 = Some (length w, b, l)" "lexer_ok l"
    "unread p = w @ rest l" "\<forall>c\<in>set w. is_ident_char c" "length b = 64" "b ! length w = 0" "length w \<le> 63"
    using read_identifier_rest [OF p(1,2)] by blast
  have b: "terminated b" "length (cstr b) \<le> 63" using cstr_within [OF r(6)] r(5,7) by auto
  have w: "\<forall>c\<in>set w. skippable c" using r(4) by (simp add: skippable_def)
  show ?thesis
  proof (cases "w = []")
    case True
    then show ?thesis using r assms by (auto simp: parse_name_def parse_advances_def parser_ok_def)
  next
    case False
    obtain l' v where s: "lexer_skip_whitespace l = Some l'" "lexer_ok l'" "rest l = v @ rest l'" "\<forall>c\<in>set v. skippable c"
      using skip_blanks [OF r(2)] by blast
    let ?c = "case rest l' of [] \<Rightarrow> 0 | c # r \<Rightarrow> c"
    obtain g where g: "(if ?c = 40 then add_symbol b 1 (ps_state p) else Some (ps_state p)) = Some g" "gcc_ok g"
      using add_symbol_ok [OF p(3) b, of 1] p(3) by (cases "?c = 40") auto
    let ?p = "p\<lparr>ps_ident := b, ps_lexer := l', ps_state := g\<rparr>"
    have "parse_name p = Some ?p" using r(1) False s(1) lexer_peek_rest [OF s(2)] g(1) by (cases "?c = 40") (simp_all add: parse_name_def Let_def)
    moreover have "ps_state ?p = ps_state p \<or> (\<exists>r. unread ?p = 40 # r)" using g(1) by (auto split: if_splits list.splits)
    moreover have "unread p = (w @ v) @ unread ?p \<and> (\<forall>c\<in>set (w @ v). skippable c)" using r(3) s(3,4) w by auto
    ultimately show ?thesis using assms r(5) s(2) g(2) unfolding parse_advances_def parser_ok_def by auto
  qed
qed

lemma parse_advances_trans:
  "parse_advances p q \<Longrightarrow> ps_state q = ps_state p \<Longrightarrow> parse_advances q r \<Longrightarrow> parse_advances p r"
  by (fastforce simp: parse_advances_def)

text \<open>
  One iteration: it ends the loop on blanks, stays where it is in front of another character and gets on
  otherwise.
\<close>

lemma parse_step_cases:
  assumes "parser_ok p"
  obtains (stop) "parse_step p = Some None" "dropWhile lexer_blank (unread p) = []"
    | (step) p' where "parse_step p = Some (Some p')" "parse_advances p p'"
        "(\<exists>c r. unread p' = c # r \<and> \<not> skippable c \<and> ps_state p' = ps_state p) \<or> length (unread p') < length (unread p)"
proof -
  have p: "lexer_ok (ps_lexer p)" "length (ps_keyword p) = 64" using assms by (auto simp: parser_ok_def)
  obtain l u where s: "lexer_skip_whitespace (ps_lexer p) = Some l" "lexer_ok l" "rest l = dropWhile lexer_blank (unread p)"
    "unread p = u @ rest l" "\<forall>c\<in>set u. skippable c" using skip_blanks [OF p(1)] by blast
  show ?thesis
  proof (cases "rest l")
    case Nil
    then show ?thesis using stop s(1,3) lexer_peek_rest [OF s(2)] by (simp add: parse_step_def Let_def)
  next
    case (Cons c r)
    have c: "c \<noteq> 0" "\<not> lexer_blank c" using lexer_head(5) [OF s(2) Cons] s(3) Cons
      by (simp_all add: dropWhile_eq_Cons_conv eq_commute [of "c # r"])
    obtain w k l1 where i: "lexer_read_identifier l (ps_keyword p) 64 = Some (length w, k, l1)" "lexer_ok l1"
      "rest l = w @ rest l1" "\<forall>c\<in>set w. is_ident_char c" "length k = 64" "k ! length w = 0" "length w \<le> 63"
      "w = [] \<longrightarrow> rest l1 \<noteq> [] \<longrightarrow> \<not> is_ident_char (hd (rest l1))"
      using read_identifier_rest [OF s(2) p(2)] by blast
    show ?thesis
    proof (cases "w = []")
      case True
      let ?p = "p\<lparr>ps_keyword := k, ps_lexer := l1\<rparr>"
      have "parse_step p = Some (Some ?p)" using s(1) lexer_peek_rest [OF s(2)] Cons c(1) i(1) True by (simp add: parse_step_def Let_def)
      moreover have "parse_advances p ?p" using assms s(4,5) i True by (auto simp: parse_advances_def parser_ok_def)
      moreover have "unread ?p = c # r \<and> \<not> skippable c" using Cons i(3,8) True c(2) by (auto simp: skippable_def)
      ultimately show ?thesis using step [of ?p] by auto
    next
      case False
      obtain l2 v where t: "lexer_skip_whitespace l1 = Some l2" "lexer_ok l2" "rest l1 = v @ rest l2" "\<forall>c\<in>set v. skippable c"
        using skip_blanks [OF i(2)] by blast
      let ?q = "p\<lparr>ps_keyword := k, ps_lexer := l2\<rparr>"
      have "unread p = (u @ w @ v) @ unread ?q \<and> (\<forall>c\<in>set (u @ w @ v). skippable c)"
        using s(4,5) i(3,4) t(3,4) by (auto simp: skippable_def)
      then have q: "parse_advances p ?q" using assms i(5) t(2) unfolding parse_advances_def parser_ok_def by (intro conjI exI) auto
      have len: "length (unread ?q) < length (unread p)" using s(4) i(3) t(3) False by simp
      have "terminated k" using cstr_within [OF i(6)] i(5,7) by simp
      then obtain ty where ty: "is_type_name k = Some ty" using is_type_name_total by blast
      have e: "parse_step p = (if ty then map_option Some (parse_name ?q) else Some (Some ?q))"
        using s(1) lexer_peek_rest [OF s(2)] Cons c(1) i(1) False t(1) ty by (simp add: parse_step_def Let_def)
      show ?thesis
      proof (cases ty)
        case True
        obtain p' where n: "parse_name ?q = Some p'" "parse_advances ?q p'"
          using parse_name_advances [of ?q] q by (auto simp: parse_advances_def)
        have "length (unread p') \<le> length (unread ?q)" using n(2) by (auto simp: parse_advances_def)
        then show ?thesis using step [of p'] e n True len parse_advances_trans [OF q _ n(2)] by simp
      next
        case False
        then show ?thesis using step [of ?q] e q len by simp
      qed
    qed
  qed
qed


text \<open>If the loop ends, everything was skippable and no symbol was added.\<close>

lemma parse_loop_returned:
  assumes "parse_loop p = Some g"
  shows "parser_ok p \<longrightarrow> (\<forall>c\<in>set (unread p). skippable c) \<and> g = ps_state p"
proof (rule parse_loop.raw_induct [OF _ assms])
  fix f p g
  assume ih: "\<And>p g. f p = Some g \<Longrightarrow> parser_ok p \<longrightarrow> (\<forall>c\<in>set (unread p). skippable c) \<and> g = ps_state p"
    and f: "(if lx_pos (ps_lexer p) < lx_len (ps_lexer p)
      then do { r \<leftarrow> parse_step p; case r of None \<Rightarrow> Some (ps_state p) | Some p \<Rightarrow> f p }
      else Some (ps_state p)) = Some g"
  show "parser_ok p \<longrightarrow> (\<forall>c\<in>set (unread p). skippable c) \<and> g = ps_state p"
  proof
    assume p: "parser_ok p"
    show "(\<forall>c\<in>set (unread p). skippable c) \<and> g = ps_state p"
    proof (cases "unread p = []")
      case True
      then show ?thesis using f lexer_more [of "ps_lexer p"] p by (simp add: parser_ok_def)
    next
      case False
      then have more: "lx_pos (ps_lexer p) < lx_len (ps_lexer p)" using lexer_more [of "ps_lexer p"] p by (simp add: parser_ok_def)
      from p show ?thesis
      proof (cases rule: parse_step_cases)
        case stop
        then show ?thesis using f more by (simp add: dropWhile_eq_Nil_conv skippable_def)
      next
        case (step p')
        then have "f p' = Some g" using f more by simp
        then have r: "\<forall>c\<in>set (unread p'). skippable c" "g = ps_state p'" using ih [of p' g] step(2) by (auto simp: parse_advances_def)
        then have "ps_state p' = ps_state p" using step(2) parenthesis_unskippable by (auto simp: parse_advances_def)
        then show ?thesis using r step(2) by (auto simp: parse_advances_def)
      qed
    qed
  qed
qed

lemma parse_loop_returns:
  "parser_ok p \<Longrightarrow> \<forall>c\<in>set (unread p). skippable c \<Longrightarrow> \<exists>g. parse_loop p = Some g"
proof (induction "length (unread p)" arbitrary: p rule: less_induct)
  case less
  show ?case
  proof (cases "unread p = []")
    case True
    then show ?thesis using lexer_more [of "ps_lexer p"] less.prems by (subst parse_loop.simps) (simp add: parser_ok_def)
  next
    case False
    then have more: "lx_pos (ps_lexer p) < lx_len (ps_lexer p)" using lexer_more [of "ps_lexer p"] less.prems by (simp add: parser_ok_def)
    from less.prems(1) show ?thesis
    proof (cases rule: parse_step_cases)
      case stop
      then show ?thesis by (subst parse_loop.simps) simp
    next
      case (step p')
      have ok: "parser_ok p'" "\<forall>c\<in>set (unread p'). skippable c" using step(2) less.prems(2) by (auto simp: parse_advances_def)
      then have "length (unread p') < length (unread p)" using step(3) by auto
      then show ?thesis using less.hyps [of p'] ok step(1) more by (subst parse_loop.simps) simp
    qed
  qed
qed

text \<open>Once the text has another character, every iteration is followed by another.\<close>

lemma parse_rounds_go_on:
  "parser_ok p \<Longrightarrow> \<exists>c\<in>set (unread p). \<not> skippable c \<Longrightarrow> \<exists>p'. parse_rounds n p = Some p'"
proof (induction n arbitrary: p)
  case 0
  then show ?case using lexer_more [of "ps_lexer p"] by (auto simp: parser_ok_def)
next
  case (Suc n)
  then have more: "lx_pos (ps_lexer p) < lx_len (ps_lexer p)" using lexer_more [of "ps_lexer p"] by (auto simp: parser_ok_def)
  from Suc.prems(1) show ?case
  proof (cases rule: parse_step_cases)
    case stop
    then show ?thesis using Suc.prems(2) by (auto simp: dropWhile_eq_Nil_conv skippable_def)
  next
    case (step p')
    then have "parser_ok p'" "\<exists>c\<in>set (unread p'). \<not> skippable c" using Suc.prems(2) by (auto simp: parse_advances_def)
    then show ?thesis using Suc.IH more step(1) by simp
  qed
qed

definition start_parser :: "byte list \<Rightarrow> byte list \<Rightarrow> byte list \<Rightarrow> gcc_state \<Rightarrow> parser" where
  "start_parser keyword ident source g =
     \<lparr>ps_lexer = \<lparr>lx_source = source, lx_pos = 0, lx_len = length (cstr source)\<rparr>, ps_keyword = keyword, ps_ident = ident, ps_state = g\<rparr>"

lemma start_parser_ok:
  assumes "terminated source" "length keyword = 64" "length ident = 64" "gcc_ok g"
  shows "parser_ok (start_parser keyword ident source g)" "unread (start_parser keyword ident source g) = cstr source"
    "parse_program keyword ident source g = map_option (\<lambda>g. (0, g)) (parse_loop (start_parser keyword ident source g))"
proof -
  show "parser_ok (start_parser keyword ident source g)" "unread (start_parser keyword ident source g) = cstr source"
    using assms by (simp_all add: parser_ok_def start_parser_def lexer_ok_def rest_def)
  have "lexer_init source = Some \<lparr>lx_source = source, lx_pos = 0, lx_len = length (cstr source)\<rparr>"
    using assms(1) by (simp add: lexer_init_def strlen_eq)
  then show "parse_program keyword ident source g = map_option (\<lambda>g. (0, g)) (parse_loop (start_parser keyword ident source g))"
    by (cases "parse_loop (start_parser keyword ident source g)") (simp_all add: parse_program_def start_parser_def)
qed

lemma parse_program_cases:
  assumes "terminated source" "length keyword = 64" "length ident = 64" "gcc_ok g"
  shows "parse_program keyword ident source g = (if \<forall>c\<in>set (cstr source). skippable c then Some (0, g) else None)"
proof -
  note s = start_parser_ok [OF assms]
  let ?p = "start_parser keyword ident source g"
  have e: "ps_state ?p = g" by (simp add: start_parser_def)
  show ?thesis
  proof (cases "parse_loop ?p")
    case None
    then show ?thesis using parse_loop_returns [OF s(1)] s(2,3) by auto
  next
    case (Some g')
    then show ?thesis using parse_loop_returned [OF Some] s e by auto
  qed
qed


section \<open>The generated file\<close>

lemma build_elf_eq:
  assumes "length d = 1024"
  shows "build_elf d = Some (elf_header @ elf_phdr @ elf_code @ drop 104 d, 104)"
proof -
  have l: "length elf_header = 52" "length elf_phdr = 32" "length elf_code = 20"
    by (simp_all add: elf_header_def elf_phdr_def elf_code_def)
  show ?thesis using assms by (simp add: build_elf_def memcpy_eq l Let_def)
qed

lemma stub_rejected: "elf_validate (Some (elf_header @ elf_phdr @ elf_code)) 104 s = Some (elf_error ''elf: segment %u alignment mismatch\<newline>'' [0] s)"
proof -
  let ?d = "elf_header @ elf_phdr @ elf_code"
  have h: "read_ehdr ?d = Some \<lparr>e_ident = ELF_MAGIC, e_type = ET_EXEC, e_machine = EM_386, e_version = 1, e_entry = 0x08048054,
      e_phoff = 52, e_phentsize = 32, e_phnum = 1\<rparr>" (is "_ = Some ?eh")
    by code_simp
  have p: "phdr_at ?d ?eh 0 = Some \<lparr>p_type = 1, p_offset = 0x34, p_vaddr = 0x08048000, p_filesz = 0x20, p_memsz = 0x20,
      p_flags = 5, p_align = 0x1000\<rparr>" (is "_ = Some ?ph")
    by code_simp
  have e: "segment_error 104 (load_bias ?eh) ?ph = Some ''elf: segment %u alignment mismatch\<newline>''"
    by code_simp
  have v: "validate_segments ?d 104 ?eh 0 1 s = Some (elf_error ''elf: segment %u alignment mismatch\<newline>'' [0] s)"
    using p e by (simp only: One_nat_def validate_segments.simps) simp
  show ?thesis using h v by (simp add: elf_validate_def load_bias_def)
qed


lemma stub_null:
  assumes "length d = 1024" "fs_ok (w_fs w)" "kmalloc 116 (w_heap w) = Some (0, h)"
  shows "\<exists>h'. generate_elf_stub d na out w = Some (-1, w\<lparr>w_heap := h'\<rparr>)"
proof -
  obtain r where r: "vfs_root (w_fs w) = Some r" "r < 64" using assms(2) by (auto simp: fs_ok_def dir_ptr_def)
  have "generate_elf_stub d na out w = Some (-1, w) \<or> generate_elf_stub d na out w = Some (-1, w\<lparr>w_heap := h\<rparr>)"
    using assms r fs_okD(1) [OF assms(2)] by (simp add: generate_elf_stub_def build_elf_eq array_get_def)
  moreover have "w = w\<lparr>w_heap := w_heap w\<rparr>" by simp
  ultimately show ?thesis by metis
qed

section \<open>Messages\<close>

lemma gcc_messages:
  assumes "terminated f" "length (cstr f) \<le> 1000"
  shows "shows_text (w_printf ''gcc: Compiling %s...\<newline>'' [Str f]) (lit ''gcc: Compiling '' @ cstr f @ lit ''...\<newline>'')"
    "n \<le> 32 \<Longrightarrow> shows_text (w_printf ''gcc: Found %d symbols\<newline>'' [Word (of_nat n)]) (lit ''gcc: Found '' @ sprintf_signed (int n) @ lit '' symbols\<newline>'')"
    "shows_text (w_printf ''gcc: Failed to generate output file\<newline>'' []) (lit ''gcc: Failed to generate output file\<newline>'')"
proof -
  have pl: "plain_chars ''gcc: Compiling ''" "plain_chars ''...\<newline>''" "plain_chars ''gcc: Found ''" "plain_chars '' symbols\<newline>''"
    by code_simp+
  show "shows_text (w_printf ''gcc: Compiling %s...\<newline>'' [Str f]) (lit ''gcc: Compiling '' @ cstr f @ lit ''...\<newline>'')"
    using shows_pieces [of "[Txt ''gcc: Compiling '', Strg f, Txt ''...\<newline>'']" "''gcc: Compiling %s...\<newline>''" "[Str f]" "[]"] assms pl
    by (simp add: lit_def)
  show "shows_text (w_printf ''gcc: Failed to generate output file\<newline>'' []) (lit ''gcc: Failed to generate output file\<newline>'')"
    by (rule shows_plain) code_simp
  assume n: "n \<le> 32"
  have s: "sint (of_nat n :: u32) = int n" using n by (simp add: sint_uint uint_nat unat_u32_of_nat signed_take_bit_int_eq_self)
  have "int n < 10 ^ 2" using n by simp
  then have "length (sprintf_signed (int n)) \<le> 2"
    by (subst sprintf_signed.simps, subst sprintf_signed.simps) (simp add: Let_def)
  then show "shows_text (w_printf ''gcc: Found %d symbols\<newline>'' [Word (of_nat n)]) (lit ''gcc: Found '' @ sprintf_signed (int n) @ lit '' symbols\<newline>'')"
    using shows_pieces [of "[Txt ''gcc: Found '', Signed (of_nat n), Txt '' symbols\<newline>'']" "''gcc: Found %d symbols\<newline>''" "[Word (of_nat n)]" "[]"] pl s n
    by (simp add: lit_def)
qed

text \<open>The arrays of the stack have the sizes of their declarations.\<close>

definition gcc_stack_ok :: "gcc_stack \<Rightarrow> bool" where
  "gcc_stack_ok st \<longleftrightarrow> length (gs_keyword st) = 64 \<and> length (gs_ident st) = 64 \<and> length (gs_elf_data st) = 1024"

text \<open>What stands on the screen after the command \<open>gcc f\<close>.\<close>

definition gcc_report :: "byte list \<Rightarrow> gcc_state \<Rightarrow> byte list" where
  "gcc_report f g = lit ''gcc: Compiling '' @ cstr f @ lit ''...\<newline>''
     @ lit ''gcc: Found '' @ sprintf_signed (int (symbol_count g)) @ lit '' symbols\<newline>''
     @ lit ''gcc: Failed to generate output file\<newline>''"



lemma gcc_without_heap:
  assumes w: "world_ok w" "kmalloc 116 (w_heap w) = Some (0, h)" "fs_ok (w_fs w)"
    and f: "terminated f" "length (cstr f) \<le> 1000" "open_text f w = Some (Some n)" "vn_content n = Some src" "terminated src"
    and g: "gcc_ok g" "gcc_stack_ok st"
  shows "if \<forall>c\<in>set (cstr src). skippable c
    then \<exists>w'. cmd_gcc st na [a, f] g w = Some (-1, g, w') \<and> w_fs w' = w_fs w
      \<and> console_write (gcc_report f g) (screen w) = Some (screen w')
    else cmd_gcc st na [a, f] g w = None"
proof -
  note st = g(2) [unfolded gcc_stack_ok_def]
  have p: "parse_program (gs_keyword st) (gs_ident st) src g = (if \<forall>c\<in>set (cstr src). skippable c then Some (0, g) else None)"
    using parse_program_cases [OF f(5) _ _ g(1)] st by simp
  obtain w1 where w1: "w_printf ''gcc: Compiling %s...\<newline>'' [Str f] w = Some w1" "prints w (lit ''gcc: Compiling '' @ cstr f @ lit ''...\<newline>'') w1"
    using shows_textD [OF gcc_messages(1) [OF f(1,2)] w(1)] by blast
  obtain w2 where w2: "w_printf ''gcc: Found %d symbols\<newline>'' [Word (of_nat (symbol_count g))] w1 = Some w2"
    "prints w1 (lit ''gcc: Found '' @ sprintf_signed (int (symbol_count g)) @ lit '' symbols\<newline>'') w2"
    using shows_textD [OF gcc_messages(2) [OF f(1,2)] prints_ok [OF w1(2)]] g(1) by (auto simp: gcc_ok_def)
  have fr: "w_fs w2 = w_fs w" "w_heap w2 = w_heap w" using prints_frame [OF w1(2)] prints_frame [OF w2(2)] by simp_all
  obtain h' where s: "generate_elf_stub (gs_elf_data st) na (clit ''a.elf'') w2 = Some (-1, w2\<lparr>w_heap := h'\<rparr>)"
    using stub_null [of "gs_elf_data st" w2 h] st w(2,3) fr by auto
  have "world_ok (w2\<lparr>w_heap := h'\<rparr>)" using prints_ok [OF w2(2)] by (simp add: world_ok_def)
  then obtain w3 where w3: "w_printf ''gcc: Failed to generate output file\<newline>'' [] (w2\<lparr>w_heap := h'\<rparr>) = Some w3"
    "prints (w2\<lparr>w_heap := h'\<rparr>) (lit ''gcc: Failed to generate output file\<newline>'') w3"
    using shows_textD [OF gcc_messages(3) [OF f(1,2)]] by blast
  have "screen (w2\<lparr>w_heap := h'\<rparr>) = screen w2" by simp
  note l = prints_screen [OF w3(2), unfolded this]
  have sc: "console_write (gcc_report f g) (screen w) = Some (screen w3)"
    using console_then [OF prints_screen [OF prints_trans [OF w1(2) w2(2)]] l] unfolding gcc_report_def append_assoc .
  have e: "cmd_gcc st na [a, f] g w = (if \<forall>c\<in>set (cstr src). skippable c then Some (-1, g, w3) else None)"
    using f(3,4) w1(1) p w2(1) s w3(1) by (auto simp: cmd_gcc_def array_get_def)
  show ?thesis unfolding e using sc prints_frame [OF w3(2)] fr by auto
qed


section \<open>Properties\<close>

text \<open>
  C35: \<open>parse_program\<close> returns exactly on sources made of identifier characters and blanks, and then it has added no symbol. On
  any other source, such as one with a parenthesis or a semicolon, its loop is never left: after every number
  of iterations it runs again.
\<close>

theorem gcc_parse_returns:
  assumes "terminated source" "length keyword = 64" "length ident = 64" "gcc_ok g"
  shows "if \<forall>c\<in>set (cstr source). skippable c
    then parse_program keyword ident source g = Some (0, g)
    else parse_program keyword ident source g = None
      \<and> (\<forall>n. \<exists>p. parse_rounds n (start_parser keyword ident source g) = Some p)"
  using parse_program_cases [OF assms] parse_rounds_go_on [OF start_parser_ok(1) [OF assms]] start_parser_ok(2) [OF assms] by auto

definition no_symbols :: gcc_state where
  "no_symbols = \<lparr>symbols = replicate 32 \<lparr>sy_name = replicate 64 0, sy_is_function = 0\<rparr>, symbol_count = 0\<rparr>"

lemma no_symbols_ok: "gcc_ok no_symbols"
  by (simp add: gcc_ok_def no_symbols_def)

theorem gcc_parse_returns_witness:
  "(\<forall>n. \<exists>p. parse_rounds n (start_parser (replicate 64 7) (replicate 64 7) (clit ''int main() {}'') no_symbols) = Some p)
   \<and> parse_program (replicate 64 7) (replicate 64 7) (clit ''int x'') no_symbols = Some (0, no_symbols)"
proof -
  have a: "\<not> (\<forall>c\<in>set (cstr (clit ''int main() {}'')). skippable c)" "\<forall>c\<in>set (cstr (clit ''int x'')). skippable c" by code_simp+
  have t: "terminated (clit s)" for s by (simp add: clit_def)
  show ?thesis
    using gcc_parse_returns [OF t [of "''int main() {}''"] _ _ no_symbols_ok, of "replicate 64 7" "replicate 64 7"]
      gcc_parse_returns [OF t [of "''int x''"] _ _ no_symbols_ok, of "replicate 64 7" "replicate 64 7"] a
    by (simp only: if_False if_True length_replicate refl simp_thms)
qed

text \<open>
  C36: on a started system \<open>gcc f\<close> never produces a file. The kernel heap hands out nothing after the start, so on a
  source of identifiers and blanks the command reports the failure on the console, returns -1 and leaves the
  file system and its symbols unchanged; on any other source it does not return.
\<close>

theorem gcc_after_boot:
  assumes "world_ok w" "w_heap w = boot_memory tag h" "memory_ready tag (kh_paging h)"
    "fs_ok (w_fs w)" "terminated f" "length (cstr f) \<le> 1000" "open_text f w = Some (Some n)" "vn_content n = Some src" "terminated src"
    "gcc_ok g" "gcc_stack_ok st"
  shows "if \<forall>c\<in>set (cstr src). skippable c
    then \<exists>w'. cmd_gcc st na [a, f] g w = Some (-1, g, w') \<and> w_fs w' = w_fs w
      \<and> console_write (gcc_report f g) (screen w) = Some (screen w')
    else cmd_gcc st na [a, f] g w = None"
  using gcc_without_heap [OF assms(1) _ assms(4-11)] kmalloc_after_boot [OF assms(3), of 116] assms(2) by simp

definition demo_gcc_world :: "byte list \<Rightarrow> world" where
  "demo_gcc_world src = (demo_world src)\<lparr>w_heap := boot_memory None (w_heap demo_machine)\<rparr>"

theorem gcc_after_boot_witness:
  "cmd_gcc \<lparr>gs_keyword = replicate 64 7, gs_ident = replicate 64 7, gs_elf_data = replicate 1024 7\<rparr> (\<lambda>_. None) [clit ''gcc'', clit ''a'']
     no_symbols (demo_gcc_world (clit ''int main() {}'')) = None"
proof -
  let ?w = "demo_gcc_world (clit ''int main() {}'')"
  have m: "memory_ready None (kh_paging (w_heap demo_machine))" using demo_memory_ready by (simp add: demo_machine_def)
  have o: "world_ok ?w" using demo_world_ok [of "clit ''int main() {}''"] by (simp add: demo_gcc_world_def world_ok_def)
  obtain n where n: "open_text (clit ''a'') ?w = Some (Some n)" "vn_content n = Some (clit ''int main() {}'')"
    using demo_world_open [of "clit ''int main() {}''"] by (auto simp: demo_gcc_world_def open_text_def)
  have r: "fs_ok (w_fs ?w)" using one_file_facts(1) set_file_frame(1) [of one_file 1] by (simp add: demo_gcc_world_def demo_world_def fs_inv_def)
  have a: "\<not> (\<forall>c\<in>set (cstr (clit ''int main() {}'')). skippable c)" by code_simp
  let ?st = "\<lparr>gs_keyword = replicate 64 7, gs_ident = replicate 64 7, gs_elf_data = replicate 1024 7\<rparr>"
  have f: "terminated (clit ''a'')" "length (cstr (clit ''a'')) \<le> 1000" "terminated (clit ''int main() {}'')" by (simp_all add: clit_def lit_def)
  have h: "w_heap ?w = boot_memory None (w_heap demo_machine)" by (simp add: demo_gcc_world_def)
  have "gcc_stack_ok ?st" by (simp add: gcc_stack_ok_def)
  from gcc_after_boot [OF o h m r f(1,2) n f(3) no_symbols_ok this, of "\<lambda>_. None" "clit ''gcc''"] show ?thesis
    unfolding if_not_P [OF a] .
qed

text \<open>
  C38: the executable that \<open>gcc\<close> writes is the same for every source, and the loader of the kernel rejects it: its only
  segment starts at a multiple of the page size but not so in the file.
\<close>

theorem gcc_stub_rejected:
  assumes "length d = 1024"
  shows "\<exists>image. build_elf d = Some (image, 104)
    \<and> elf_validate (Some (take 104 image)) 104 s = Some (-1, pr_print ''elf: segment %u alignment mismatch\<newline>'' [0] s)"
proof -
  have "take 104 (elf_header @ elf_phdr @ elf_code @ drop 104 d) = elf_header @ elf_phdr @ elf_code"
    by (simp add: elf_header_def elf_phdr_def elf_code_def)
  then show ?thesis using build_elf_eq [OF assms] stub_rejected [of s] by (simp add: elf_error_def)
qed

theorem gcc_stub_rejected_witness:
  "\<exists>image. build_elf (replicate 1024 0) = Some (image, 104)
    \<and> elf_validate (Some (take 104 image)) 104 boot_proc = Some (-1, pr_print ''elf: segment %u alignment mismatch\<newline>'' [0] boot_proc)"
  by (rule gcc_stub_rejected) simp

end
