(* ===== verification/Settings.thy ===== *)
theory Settings
  imports Messages Snake
begin

text \<open>
  The commands that change settings of the console session: \<^verbatim>\<open>src/bin/color/color.c\<close> sets the colour attribute of the
  screen, \<^verbatim>\<open>src/bin/password/password.c\<close> the hash of the system password, with the speaker of \<^verbatim>\<open>src/include/io.h\<close>. The static
  variable of the password unit is an argument and part of the result; the uninitialised arrays of the stack
  and the values read from the speaker port are parameters.

  The lemmas relate the colour arguments to a table of colours and the password commands to the lines typed.
\<close>

section \<open>Colours\<close>

definition parse_color_nibble :: "byte list option \<Rightarrow> int option" where
  "parse_color_nibble arg =
     (case arg of
        None \<Rightarrow> Some (-1)
      | Some arg \<Rightarrow>
          do { h \<leftarrow> is_hex_color arg;
               if h then do { c \<leftarrow> array_get arg 2; Some (hex_value c) }
               else find_color color_table arg })"

text \<open>The loop of \<open>parse_color_attribute\<close>; the shift of a signed number may overflow.\<close>

fun attribute_loop :: "int \<Rightarrow> nat \<Rightarrow> byte list \<Rightarrow> int option" where
  "attribute_loop value ndigits [] = None"
| "attribute_loop value ndigits (c # p) =
     (if c = 0 then Some (if ndigits = 1 \<or> ndigits = 2 then value else -1)
      else if hex_value c < 0 then Some (-1)
      else do { value \<leftarrow> in_range (value * 16); attribute_loop (value + hex_value c) (ndigits + 1) p })"

definition parse_color_attribute :: "byte list option \<Rightarrow> int option" where
  "parse_color_attribute arg =
     (case arg of
        None \<Rightarrow> Some (-1)
      | Some a \<Rightarrow>
          do { x \<leftarrow> array_get a 0;
               y \<leftarrow> (if x = 48 then array_get a 1 else Some 0);
               if x = 48 \<and> y = 120 then attribute_loop 0 0 (drop 2 a) else parse_color_nibble arg })"

text \<open>The test for \<open>0xNN\<close>, read from left to right.\<close>

definition is_hex_pair :: "byte list \<Rightarrow> bool option" where
  "is_hex_pair a =
     do { x \<leftarrow> array_get a 0;
          if x \<noteq> 48 then Some False
          else do { x \<leftarrow> array_get a 1;
          if x \<noteq> 120 then Some False
          else do { x \<leftarrow> array_get a 2;
          if x = 0 then Some False
          else do { x \<leftarrow> array_get a 3;
          if x = 0 then Some False
          else do { x \<leftarrow> array_get a 4; Some (x = 0) } } } } }"

definition set_color :: "byte \<Rightarrow> 'a world_scheme \<Rightarrow> 'a world_scheme option" where
  "set_color attr = on_screen (\<lambda>t. Some (terminal_set_color attr t))"

definition color_usage :: "string list" where
  "color_usage =
     [''Usage: color <foreground> [background]\<newline>'', ''Foreground and background may be names or 0xN.\<newline>'',
      ''Supported colors: black blue green cyan red magenta brown lightgray darkgray lightblue lightgreen lightcyan lightred lightmagenta yellow white\<newline>'',
      ''Example: color red blue or color 0xC 0x1\<newline>'']"

definition cmd_color :: "'a command" where
  "cmd_color argv w =
     (if length argv < 2 then finish 0 (printf_all color_usage w)
      else do {
        a \<leftarrow> array_get argv 1;
        r \<leftarrow> strcmp a (clit ''reset'');
        r \<leftarrow> (if r = 0 then Some 0 else strcmp a (clit ''default''));
        if r = 0
        then do { w \<leftarrow> set_color 0x0F w; finish 0 (w_printf ''Text color reset to default.\<newline>'' [] w) }
        else do {
          pair \<leftarrow> (if length argv = 2 then is_hex_pair a else Some False);
          if pair
          then do { value \<leftarrow> parse_color_attribute (Some a);
                    if value < 0 then finish 1 (w_printf ''color: unknown color '%s'\<newline>'' [Str a] w)
                    else do { w \<leftarrow> set_color (of_int value) w;
                              finish 0 (w_printf ''Color attribute set to %s.\<newline>'' [Str a] w) } }
          else do {
            fg \<leftarrow> parse_color_nibble (Some a);
            if fg < 0 then finish 1 (w_printf ''color: unknown foreground '%s'\<newline>'' [Str a] w)
            else if length argv = 2
            then do { w \<leftarrow> set_color (of_int fg) w;
                      finish 0 (w_printf ''Foreground color changed to %s.\<newline>'' [Str a] w) }
            else do {
              b \<leftarrow> array_get argv 2;
              bg \<leftarrow> parse_color_nibble (Some b);
              if bg < 0 then finish 1 (w_printf ''color: unknown background '%s'\<newline>'' [Str b] w)
              else do { w \<leftarrow> set_color (push_bit 4 (of_int bg) OR of_int fg) w;
                        finish 0 (w_printf ''Foreground set to %s and background set to %s.\<newline>'' [Str a, Str b] w) } } } } })"

section \<open>The speaker\<close>

text \<open>\<open>b1\<close> and \<open>b2\<close> are what the port \<open>0x61\<close> gives before and after the delay.\<close>

definition io_wait :: "terminal \<Rightarrow> terminal" where
  "io_wait = outb 0x80 0"

definition pc_speaker_beep :: "byte \<Rightarrow> byte \<Rightarrow> u32 \<Rightarrow> u32 \<Rightarrow> terminal \<Rightarrow> terminal" where
  "pc_speaker_beep b1 b2 frequency duration_ms t =
     (if frequency = 0 \<or> duration_ms = 0 then t
      else
        let divisor = (ucast (1193180 div frequency) :: u16);
            t = outb 0x43 0xB6 t;
            t = outb 0x42 (ucast (divisor AND 0xFF)) t;
            t = outb 0x42 (ucast (drop_bit 8 divisor AND 0xFF)) t;
            t = outb 0x61 (b1 OR 0x03) t;
            t = (io_wait ^^ unat (duration_ms * 2000)) t
        in outb 0x61 (b2 AND NOT 0x03) t)"

section \<open>The password\<close>

fun hash_loop :: "u32 \<Rightarrow> byte list \<Rightarrow> u32 option" where
  "hash_loop hash [] = None"
| "hash_loop hash (c # s) = (if c = 0 then Some hash else hash_loop ((push_bit 5 hash + hash) + scast c) s)"

definition hash_password :: "byte list \<Rightarrow> u32 option" where
  "hash_password pwd = hash_loop 5381 pwd"

text \<open>The three loops \<open>while (i < 63)\<close>, with the iterations left as the first argument.\<close>

fun read_password :: "nat \<Rightarrow> nat \<Rightarrow> byte list \<Rightarrow> 'a world_scheme \<Rightarrow> (nat \<times> byte list \<times> 'a world_scheme) option" where
  "read_password 0 i buf w = Some (i, buf, w)"
| "read_password (Suc n) i buf w =
     do { (c, w) \<leftarrow> w_getchar w;
          if c = 10 \<or> c = 13
          then do { buf \<leftarrow> array_set buf i 0; w \<leftarrow> w_printf [CHR 0x0A] [] w; Some (i, buf, w) }
          else do { buf \<leftarrow> array_set buf i c; read_password n (Suc i) buf w } }"

record password_stack =
  pwd_buf :: "byte list"
  confirm_buf :: "byte list"
  port_before :: byte
  port_after :: byte

text \<open>A message and the beep.\<close>

definition refuse :: "string \<Rightarrow> password_stack \<Rightarrow> u32 \<Rightarrow> 'a world_scheme \<Rightarrow> (int \<times> u32 \<times> 'a world_scheme) option" where
  "refuse msg st h w =
     do { w \<leftarrow> w_printf msg [] w;
          w \<leftarrow> on_screen (\<lambda>t. Some (pc_speaker_beep (port_before st) (port_after st) 150 200 t)) w;
          Some (1, h, w) }"

text \<open>The check of the old password: whether to go on, the array and the state.\<close>

definition check_old_password ::
  "password_stack \<Rightarrow> u32 \<Rightarrow> 'a world_scheme \<Rightarrow> (bool \<times> byte list \<times> 'a world_scheme) option" where
  "check_old_password st h w =
     (if h = 0 then Some (True, pwd_buf st, w)
      else do { w \<leftarrow> w_printf ''Enter old password: '' [] w;
                (_, buf, w) \<leftarrow> read_password 63 0 (pwd_buf st) w;
                entered_hash \<leftarrow> hash_password buf;
                Some (entered_hash = h, buf, w) })"

definition cmd_password :: "password_stack \<Rightarrow> u32 \<Rightarrow> 'a world_scheme \<Rightarrow> (int \<times> u32 \<times> 'a world_scheme) option" where
  "cmd_password st system_password_hash w =
     do { (ok, buf, w) \<leftarrow> check_old_password st system_password_hash w;
          if \<not> ok then refuse ''password: incorrect old password\<newline>'' st system_password_hash w
          else do {
            w \<leftarrow> w_printf ''Enter new password: '' [] w;
            (i, buf, w) \<leftarrow> read_password 63 0 buf w;
            if i = 0 then refuse ''password: password too short\<newline>'' st system_password_hash w
            else do {
              w \<leftarrow> w_printf ''Confirm new password: '' [] w;
              (_, conf, w) \<leftarrow> read_password 63 0 (confirm_buf st) w;
              r \<leftarrow> strcmp buf conf;
              if r \<noteq> 0 then refuse ''password: passwords do not match\<newline>'' st system_password_hash w
              else do {
                h \<leftarrow> hash_password buf;
                w \<leftarrow> w_printf ''password: password changed successfully\<newline>'' [] w;
                Some (0, h, w) } } } }"

definition password_verify :: "u32 \<Rightarrow> byte list \<Rightarrow> int option" where
  "password_verify system_password_hash pwd =
     (if system_password_hash = 0 then Some 1
      else do { entered_hash \<leftarrow> hash_password pwd;
                Some (if entered_hash = system_password_hash then 1 else 0) })"


section \<open>Colour arguments\<close>

text \<open>The colour a text stands for.\<close>

definition color_code :: "byte list \<Rightarrow> byte option" where
  "color_code s =
     (if length s = 3 \<and> s ! 0 = 48 \<and> s ! 1 = 120
      then (if hex_value (s ! 2) < 0 then None else Some (of_int (hex_value (s ! 2))))
      else map_of (map (\<lambda>(n, v). (lit n, v)) color_table) s)"

lemma is_hex_color_eq:
  assumes "terminated a"
  shows "is_hex_color a = Some (length (cstr a) = 3 \<and> cstr a ! 0 = 48 \<and> cstr a ! 1 = 120)"
proof -
  consider "a = []" | x where "a = [x]" | x y where "a = [x, y]" | x y z where "a = [x, y, z]" | x y z u b where "a = x # y # z # u # b"
    by (metis list.exhaust)
  then show ?thesis using assms by cases (auto simp: is_hex_color_def array_get_def)
qed

lemma hex_color_third:
  assumes "length (cstr a) = 3"
  shows "array_get a 2 = Some (cstr a ! 2)"
proof -
  consider "a = []" | x where "a = [x]" | x y where "a = [x, y]" | x y z b where "a = x # y # z # b"
    by (metis list.exhaust)
  then show ?thesis using assms by cases (auto simp: array_get_def split: if_splits)
qed

lemma find_color_eq:
  assumes "terminated a" "\<forall>(n, v)\<in>set cs. 0 \<notin> set (lit n)"
  shows "find_color cs a = Some (case map_of (map (\<lambda>(n, v). (lit n, v)) cs) (cstr a) of None \<Rightarrow> -1 | Some v \<Rightarrow> uint v)"
  using assms(2)
proof (induction cs)
  case (Cons p cs)
  obtain n v where p: "p = (n, v)" by fastforce
  have c: "cstr (clit n) = lit n" using Cons.prems p by (simp add: clit_def cstr_append_terminated)
  have "terminated (clit n)" by (simp add: clit_def)
  then obtain r where "strcmp (clit n) a = Some r" "r = 0 \<longleftrightarrow> lit n = cstr a" using strcmp_less_iff [of "clit n" a] assms(1) c by auto
  then show ?case using Cons p by auto
qed simp

lemma table_names: "\<forall>(n, v)\<in>set color_table. 0 \<notin> set (lit n)"
  by code_simp

lemma hex_value_range: "hex_value c = - 1 \<or> hex_value c \<in> {0..15}"
  by (auto simp: hex_value_def word_le_def)

lemma parse_color_nibble_code:
  assumes "terminated a"
  shows "parse_color_nibble (Some a) = Some (case color_code (cstr a) of None \<Rightarrow> -1 | Some v \<Rightarrow> uint v)"
proof (cases "length (cstr a) = 3 \<and> cstr a ! 0 = 48 \<and> cstr a ! 1 = 120")
  case True
  have "uint (word_of_int (hex_value (cstr a ! 2)) :: byte) = hex_value (cstr a ! 2)" if "\<not> hex_value (cstr a ! 2) < 0"
    using that hex_value_range [of "cstr a ! 2"] by (auto simp: uint_word_of_int)
  then show ?thesis using True is_hex_color_eq [OF assms] hex_color_third [of a] hex_value_range [of "cstr a ! 2"]
    by (auto simp: parse_color_nibble_def color_code_def split: option.splits)
next
  case False
  then have h: "is_hex_color a = Some False" using is_hex_color_eq [OF assms] by simp
  have c: "color_code (cstr a) = map_of (map (\<lambda>(n, v). (lit n, v)) color_table) (cstr a)"
    using False unfolding color_code_def by (rule if_not_P)
  show ?thesis using h find_color_eq [OF assms table_names] unfolding c by (simp add: parse_color_nibble_def)
qed

text \<open>The two units of the repository that read colours agree.\<close>

lemma nibble_is_snake_color: "parse_color_nibble = parse_color_value"
  by (rule ext) (simp add: parse_color_nibble_def parse_color_value_def)

lemma color_code_nibble: "color_code s = Some v \<Longrightarrow> v < 16"
proof (cases "length s = 3 \<and> s ! 0 = 48 \<and> s ! 1 = 120")
  case True
  assume "color_code s = Some v"
  then show ?thesis using True hex_value_range [of "s ! 2"] by (auto simp: color_code_def word_less_def uint_word_of_int split: if_splits)
next
  case False
  assume "color_code s = Some v"
  then have "map_of (map (\<lambda>(n, v). (lit n, v)) color_table) s = Some v" using False unfolding color_code_def by (simp only: if_False)
  then have "(s, v) \<in> set (map (\<lambda>(n, v). (lit n, v)) color_table)" by (rule map_of_SomeD)
  then have "v \<in> snd ` set color_table" by force
  then show ?thesis by (auto simp: color_table_def)
qed

text \<open>Printing keeps the colour.\<close>

lemma putc_color: "term_ok t \<Longrightarrow> \<exists>u. terminal_putc c t = Some u \<and> term_ok u \<and> terminal_color u = terminal_color t"
  using putc_print [of t c] next_row_spec [of t] by (cases "c = 0x1B"; cases "c = 10") (auto simp: terminal_putc_def term_ok_def)

lemma console_color: "term_ok t \<Longrightarrow> console_write s t = Some t' \<Longrightarrow> terminal_color t' = terminal_color t"
proof (induction s arbitrary: t)
  case (Cons c s)
  obtain u where u: "terminal_write [c, 0] t = Some u" "term_ok u" "terminal_color u = terminal_color t"
    using putc_color [OF Cons.prems(1), of c] Cons.prems(1) by (cases "c = 0") auto
  obtain v where v: "serial_write [c, 0] u = Some v" "term_ok v" "terminal_color v = terminal_color u"
    using u(2) by (cases "c = 0") (auto simp: term_ok_def)
  show ?case using Cons.IH [OF v(2)] Cons.prems(2) u v by (simp del: terminal_write.simps serial_write.simps)
qed simp

lemma prints_color:
  assumes "world_ok w" "prints w t w'"
  shows "terminal_color (screen w') = terminal_color (screen w)"
  using console_color [OF world_ok_term [OF assms(1)] prints_screen [OF assms(2)]] .

lemma set_color_eq: "set_color a w = Some (w\<lparr>w_kbd := (w_kbd w)\<lparr>kb_term := (screen w)\<lparr>terminal_color := a\<rparr>\<rparr>\<rparr>)"
  by (simp add: set_color_def on_screen_def echo_def terminal_set_color_def)


text \<open>Every message of \<open>color\<close> is printed.\<close>

lemma color_messages:
  assumes "terminated a" "length (cstr a) \<le> 500" "terminated b" "length (cstr b) \<le> 500"
  shows "\<exists>t. shows_text (w_printf ''Foreground set to %s and background set to %s.\<newline>'' [Str a, Str b]) t"
    "\<exists>t. shows_text (w_printf ''color: unknown foreground '%s'\<newline>'' [Str a]) t"
    "\<exists>t. shows_text (w_printf ''color: unknown background '%s'\<newline>'' [Str b]) t"
    "\<exists>t. shows_text (w_printf ''Text color reset to default.\<newline>'' []) t"
proof -
  have pl: "plain_chars ''Foreground set to ''" "plain_chars '' and background set to ''" "plain_chars ''.\<newline>''"
    "plain_chars (''color: unknown foreground '' @ [CHR 0x27])" "plain_chars (''color: unknown background '' @ [CHR 0x27])"
    "plain_chars [CHR 0x27, CHR 0x0A]" by code_simp+
  show "\<exists>t. shows_text (w_printf ''Foreground set to %s and background set to %s.\<newline>'' [Str a, Str b]) t"
    using shows_pieces [of "[Txt ''Foreground set to '', Strg a, Txt '' and background set to '', Strg b, Txt ''.\<newline>'']"
        "''Foreground set to %s and background set to %s.\<newline>''" "[Str a, Str b]" "[]"] assms pl
    by (auto simp: lit_def)
  show "\<exists>t. shows_text (w_printf ''color: unknown foreground '%s'\<newline>'' [Str a]) t"
    using shows_string [OF pl(4,6) assms(1), of "''color: unknown foreground '%s'\<newline>''"] assms(2) by auto
  show "\<exists>t. shows_text (w_printf ''color: unknown background '%s'\<newline>'' [Str b]) t"
    using shows_string [OF pl(5,6) assms(3), of "''color: unknown background '%s'\<newline>''"] assms(4) by auto
  have "plain_text ''Text color reset to default.\<newline>''" by code_simp
  then show "\<exists>t. shows_text (w_printf ''Text color reset to default.\<newline>'' []) t" using shows_plain by blast
qed

text \<open>The console with another colour.\<close>

abbreviation recolored :: "byte \<Rightarrow> 'a world_scheme \<Rightarrow> 'a world_scheme" where
  "recolored c w \<equiv> w\<lparr>w_kbd := (w_kbd w)\<lparr>kb_term := (screen w)\<lparr>terminal_color := c\<rparr>\<rparr>\<rparr>"

lemma message_recolored:
  assumes "\<exists>t. shows_text f t" "world_ok w"
  shows "\<exists>w'. finish r (f (recolored c w)) = Some (r, w') \<and> terminal_color (screen w') = c \<and> w_fs w' = w_fs w \<and> world_ok w'"
proof -
  have "world_ok (recolored c w)" using assms(2) by (simp add: world_ok_def kb_ok_def term_ok_def)
  moreover from this obtain w' t where w': "f (recolored c w) = Some w'" "prints (recolored c w) t w'" using assms(1) shows_textD by blast
  ultimately show ?thesis using prints_color [OF _ w'(2)] prints_ok [OF w'(2)] prints_frame [OF w'(2)] by (simp add: finish_def)
qed

lemma recolored_same: "recolored (terminal_color (screen w)) w = w"
  by simp

lemma strcmp_word:
  assumes "terminated a" "0 \<notin> set (lit s)"
  shows "\<exists>r. strcmp a (clit s) = Some r \<and> (r = 0 \<longleftrightarrow> cstr a = lit s)"
  using strcmp_less_iff [OF assms(1), of "clit s"] cstr_append_terminated [OF assms(2), of "[]"] by (auto simp: clit_def)


section \<open>Properties of \<open>color\<close>\<close>

text \<open>The foreground and the background that \<open>color a b\<close> asks for.\<close>

definition pair_colors :: "byte list \<Rightarrow> byte list \<Rightarrow> (byte \<times> byte) option" where
  "pair_colors a b =
     (if a = lit ''reset'' \<or> a = lit ''default'' then Some (0x0F, 0)
      else do { f \<leftarrow> color_code a; g \<leftarrow> color_code b; Some (f, g) })"

lemma nibble_bits: "f < 16 \<Longrightarrow> take_bit 4 f = f" for f :: byte
proof -
  assume "f < 16"
  then have "take_bit 4 (unat f) = unat f" by (intro take_bit_nat_eq_self) (simp add: word_less_nat_alt)
  then show ?thesis by (simp add: word_unat_eq_iff unsigned_take_bit_eq)
qed

lemma attribute_nibbles:
  fixes f g :: byte
  assumes "f < 16" "g < 16"
  shows "(push_bit 4 g OR f) AND 0x0F = f" "drop_bit 4 (push_bit 4 g OR f) = g"
proof -
  have b: "bit f n \<Longrightarrow> n < 4" "bit g n \<Longrightarrow> n < 4" for n
    using nibble_bits [OF assms(1)] nibble_bits [OF assms(2)] by (metis bit_take_bit_iff)+
  have m: "bit (0x0F :: byte) n \<longleftrightarrow> n < 4" for n
  proof -
    have "(0x0F :: byte) = mask 4" by (simp add: mask_eq_exp_minus_1)
    then show ?thesis by (simp only: bit_mask_iff) auto
  qed
  show "(push_bit 4 g OR f) AND 0x0F = f"
    by (rule bit_word_eqI) (simp only: bit_and_iff m bit_or_iff bit_push_bit_iff, auto dest: b)
  show "drop_bit 4 (push_bit 4 g OR f) = g" by (rule bit_word_eqI) (auto simp: bit_simps dest: b)
qed

text \<open>
  \<open>color a b\<close> sets the attribute whose low four bits are the foreground \<open>a\<close> and whose high four bits are the background
  \<open>b\<close>, each a name of the table or \<open>0xN\<close>, and returns 0; when one of them is no colour it returns 1 and keeps
  the attribute. \<open>reset\<close> and \<open>default\<close> give white on black. Nothing but the console changes.
\<close>

theorem color_pair:
  assumes "world_ok w" "terminated a" "length (cstr a) \<le> 500" "terminated b" "length (cstr b) \<le> 500"
  shows "\<exists>r w'. cmd_color [c, a, b] w = Some (r, w') \<and> w_fs w' = w_fs w \<and>
    (case pair_colors (cstr a) (cstr b) of
       None \<Rightarrow> r = 1 \<and> terminal_color (screen w') = terminal_color (screen w)
     | Some (f, g) \<Rightarrow> r = 0 \<and> terminal_color (screen w') AND 0x0F = f \<and> drop_bit 4 (terminal_color (screen w')) = g)"
proof -
  note ms = color_messages [OF assms(2-5)]
  obtain r1 where r1: "strcmp a (clit ''reset'') = Some r1" "r1 = 0 \<longleftrightarrow> cstr a = lit ''reset''"
    using strcmp_word [OF assms(2), of "''reset''"] by (auto simp: lit_def)
  obtain r2 where r2: "strcmp a (clit ''default'') = Some r2" "r2 = 0 \<longleftrightarrow> cstr a = lit ''default''"
    using strcmp_word [OF assms(2), of "''default''"] by (auto simp: lit_def)
  have arr: "array_get [c, a, b] 1 = Some a" "array_get [c, a, b] 2 = Some b" by (simp_all add: array_get_def)
  show ?thesis
  proof (cases "cstr a = lit ''reset'' \<or> cstr a = lit ''default''")
    case True
    obtain w' where w': "finish 0 (w_printf ''Text color reset to default.\<newline>'' [] (recolored 0x0F w)) = Some (0, w')"
      "terminal_color (screen w') = 0x0F" "w_fs w' = w_fs w" using message_recolored [OF ms(4) assms(1)] by blast
    have "cmd_color [c, a, b] w = Some (0, w')" using r1 r2 True w'(1) arr by (auto simp: cmd_color_def set_color_eq)
    then show ?thesis using w'(2,3) True by (simp add: pair_colors_def)
  next
    case False
    then have step: "cmd_color [c, a, b] w = do { fg \<leftarrow> parse_color_nibble (Some a);
        if fg < 0 then finish 1 (w_printf ''color: unknown foreground '%s'\<newline>'' [Str a] w)
        else do { bg \<leftarrow> parse_color_nibble (Some b);
          if bg < 0 then finish 1 (w_printf ''color: unknown background '%s'\<newline>'' [Str b] w)
          else finish 0 (w_printf ''Foreground set to %s and background set to %s.\<newline>'' [Str a, Str b]
                 (recolored (push_bit 4 (of_int bg) OR of_int fg) w)) } }"
      using r1 r2 arr by (simp add: cmd_color_def set_color_eq cong: if_cong)
    note e = step [unfolded parse_color_nibble_code [OF assms(2)] parse_color_nibble_code [OF assms(4)]]
    show ?thesis
    proof (cases "color_code (cstr a)")
      case None
      then show ?thesis using e False message_recolored [OF ms(2) assms(1), of 1 "terminal_color (screen w)"] recolored_same [of w]
        by (auto simp: pair_colors_def)
    next
      case f: (Some f)
      show ?thesis
      proof (cases "color_code (cstr b)")
        case None
        then show ?thesis using e f False message_recolored [OF ms(3) assms(1), of 1 "terminal_color (screen w)"] recolored_same [of w]
          by (auto simp: pair_colors_def)
      next
        case g: (Some g)
        obtain w' where "finish 0 (w_printf ''Foreground set to %s and background set to %s.\<newline>'' [Str a, Str b]
            (recolored (push_bit 4 g OR f) w)) = Some (0, w')" "terminal_color (screen w') = push_bit 4 g OR f" "w_fs w' = w_fs w"
          using message_recolored [OF ms(1) assms(1)] by blast
        then show ?thesis using e f g False attribute_nibbles [OF color_code_nibble [OF f] color_code_nibble [OF g]]
          by (auto simp: pair_colors_def)
      qed
    qed
  qed
qed

theorem color_pair_witness:
  "\<exists>r w'. cmd_color [clit ''color'', clit ''red'', clit ''0xB''] (demo_world []) = Some (r, w') \<and> r = 0
     \<and> terminal_color (screen w') AND 0x0F = 4 \<and> drop_bit 4 (terminal_color (screen w')) = 11"
proof -
  have c: "pair_colors (cstr (clit ''red'')) (cstr (clit ''0xB'')) = Some (4, 11)" by code_simp
  show ?thesis
    using color_pair [OF demo_world_ok, of "clit ''red''" "clit ''0xB''" "clit ''color''" "[]"] c
    by (simp only: option.case prod.case) (auto simp: clit_def lit_def)
qed


section \<open>Keys\<close>

text \<open>Everything \<open>keyboard_getchar\<close> returns for the pending events, zeros included.\<close>

fun keys_of :: "byte option list \<Rightarrow> kbd \<Rightarrow> byte list" where
  "keys_of [] s = []"
| "keys_of (None # es) s = keys_of es s"
| "keys_of (Some c # es) s =
     (case scan_step c s of
        None \<Rightarrow> []
      | Some (r, s) \<Rightarrow> (case r of Some ch \<Rightarrow> [ch] | None \<Rightarrow> []) @ keys_of es s)"

lemma keys_of_frame [simp]: "keys_of es (s\<lparr>kb_events := e\<rparr>) = keys_of es s" "keys_of es (s\<lparr>kb_term := t\<rparr>) = keys_of es s"
  by (induction es s rule: keys_of.induct) (auto simp: scan_step_frame split: option.split prod.split)

definition keys :: "'a world_scheme \<Rightarrow> byte list" where
  "keys w = keys_of (kb_events (w_kbd w)) (w_kbd w)"

lemma getchar_keys:
  assumes "kb_ok s" "keys_of es s = c # cs"
  shows "\<exists>s'. getchar_loop es s = Some (c, s') \<and> kb_ok s' \<and> kb_term s' = kb_term s \<and> keys_of (kb_events s') s' = cs"
  using assms
proof (induction es s rule: getchar_loop.induct)
  case (3 k es s)
  obtain r s1 where r: "scan_step k s = Some (r, s1)" "kb_ok s1" using scan_step_returns [OF 3(2)] by blast
  note f = scan_step_keeps [OF r(1)]
  show ?case
  proof (cases r)
    case None
    then show ?thesis using 3(1) [OF r(1) refl None r(2)] 3(3) r(1) f by auto
  next
    case (Some ch)
    then show ?thesis using r f 3(3) by (auto simp: kb_ok_def)
  qed
qed auto

lemma w_getchar_keys:
  assumes "world_ok w" "keys w = c # cs"
  shows "\<exists>w'. w_getchar w = Some (c, w') \<and> world_ok w' \<and> keys w' = cs \<and> screen w' = screen w \<and> w_fs w' = w_fs w"
  using getchar_keys [of "w_kbd w" "kb_events (w_kbd w)" c cs] assms
  by (auto simp: keys_def w_getchar_def keyboard_getchar_def world_ok_def)

lemma prints_keys: "prints w t w' \<Longrightarrow> keys w' = keys w"
  by (auto simp: prints_def keys_def)

text \<open>A step that leaves the file system alone and after which the keys \<open>ks\<close> are pending.\<close>

definition awaits :: "'a world_scheme \<Rightarrow> byte list \<Rightarrow> 'a world_scheme \<Rightarrow> bool" where
  "awaits w ks w' \<longleftrightarrow> world_ok w' \<and> keys w' = ks \<and> w_fs w' = w_fs w"

lemma awaits_trans: "awaits w ks w1 \<Longrightarrow> awaits w1 ks' w2 \<Longrightarrow> awaits w ks' w2"
  by (simp add: awaits_def)

lemma message_awaits:
  assumes "plain_text s" "world_ok w"
  shows "\<exists>w'. w_printf s [] w = Some w' \<and> awaits w (keys w) w'"
  using shows_textD [OF shows_plain [OF assms(1)] assms(2)] prints_ok prints_frame prints_keys by (fastforce simp: awaits_def)

section \<open>A line typed without echo\<close>

definition no_newline :: "byte list \<Rightarrow> bool" where
  "no_newline p \<longleftrightarrow> 10 \<notin> set p \<and> 13 \<notin> set p"

lemma read_password_line:
  assumes "world_ok w" "keys w = p @ nl # ks" "nl = 10 \<or> nl = 13" "no_newline p" "length p < n" "i + n < length buf"
  shows "\<exists>w'. read_password n i buf w = Some (i + length p, take i buf @ p @ 0 # drop (Suc (i + length p)) buf, w') \<and> awaits w ks w'"
  using assms
proof (induction n arbitrary: i p buf w)
  case (Suc n)
  have pl: "plain_text [CHR 0x0A]" by code_simp
  show ?case
  proof (cases p)
    case Nil
    obtain w1 where w1: "w_getchar w = Some (nl, w1)" "world_ok w1" "keys w1 = ks" "w_fs w1 = w_fs w"
      using w_getchar_keys [OF Suc.prems(1), of nl ks] Suc.prems(2) Nil by auto
    obtain w2 where w2: "w_printf [CHR 0x0A] [] w1 = Some w2" "awaits w1 ks w2" using message_awaits [OF pl w1(2)] w1(3) by auto
    have "buf[i := 0] = take i buf @ 0 # drop (Suc i) buf" using Suc.prems(6) by (intro upd_conv_take_nth_drop) simp
    then show ?thesis using w1 w2 Suc.prems(3,6) Nil by (auto simp: array_set_def awaits_def)
  next
    case (Cons c q)
    obtain w1 where w1: "w_getchar w = Some (c, w1)" "world_ok w1" "keys w1 = q @ nl # ks" "w_fs w1 = w_fs w"
      using w_getchar_keys [OF Suc.prems(1), of c "q @ nl # ks"] Suc.prems(2) Cons by auto
    have c: "c \<noteq> 10" "c \<noteq> 13" "no_newline q" using Suc.prems(4) Cons by (auto simp: no_newline_def)
    obtain w2 where w2: "read_password n (Suc i) (buf[i := c]) w1
        = Some (Suc i + length q, take (Suc i) (buf[i := c]) @ q @ 0 # drop (Suc (Suc i + length q)) (buf[i := c]), w2)" "awaits w1 ks w2"
      using Suc.IH [OF w1(2,3) Suc.prems(3) c(3), of "Suc i" "buf[i := c]"] Suc.prems(5,6) Cons by auto
    have "take (Suc i) (buf[i := c]) = take i buf @ [c]" using Suc.prems(6) by (simp add: take_Suc_conv_app_nth)
    then show ?thesis using w1 w2 c Suc.prems(6) Cons by (auto simp: array_set_def awaits_def)
  qed
qed simp

section \<open>The hash\<close>

definition djb2 :: "byte list \<Rightarrow> u32" where
  "djb2 s = foldl (\<lambda>h c. 33 * h + scast c) 5381 s"

lemma hash_loop_eq: "terminated s \<Longrightarrow> hash_loop h s = Some (foldl (\<lambda>h c. 33 * h + scast c) h (cstr s))"
proof (induction s arbitrary: h)
  case (Cons c s)
  have "push_bit 5 h + h = 33 * h" by (simp add: push_bit_eq_mult)
  then show ?case using Cons by auto
qed simp

lemma hash_password_eq: "terminated s \<Longrightarrow> hash_password s = Some (djb2 (cstr s))"
  by (simp add: hash_password_def djb2_def hash_loop_eq)


section \<open>Properties of \<open>password\<close>\<close>

lemma waits_ok: "term_ok t \<Longrightarrow> term_ok ((io_wait ^^ n) t)"
  by (induction n) (simp_all add: io_wait_def term_ok_def)

lemma beep_ok: "term_ok t \<Longrightarrow> term_ok (pc_speaker_beep b1 b2 f d t)"
proof -
  assume "term_ok t"
  then have "term_ok ((io_wait ^^ n) (outb 0x61 x (outb 0x42 y (outb 0x42 z (outb 0x43 0xB6 t)))))" for n x y z
    by (intro waits_ok) (simp add: term_ok_def)
  then show ?thesis using \<open>term_ok t\<close> by (simp add: pc_speaker_beep_def Let_def term_ok_def)
qed

lemma refuse_returns:
  assumes "world_ok w" "plain_text msg"
  shows "\<exists>w'. refuse msg st h w = Some (1, h, w') \<and> awaits w (keys w) w'"
proof -
  obtain w1 where w1: "w_printf msg [] w = Some w1" "awaits w (keys w) w1" using message_awaits [OF assms(2,1)] by blast
  then have "world_ok w1" by (simp add: awaits_def)
  then obtain w2 where w2: "on_screen (\<lambda>t. Some (pc_speaker_beep (port_before st) (port_after st) 150 200 t)) w1 = Some w2" "draws w1 w2"
    using on_screen_draws [of w1 "\<lambda>t. Some (pc_speaker_beep (port_before st) (port_after st) 150 200 t)"] beep_ok world_ok_term by blast
  have "awaits w1 (keys w1) w2" using w2(2) by (auto simp: awaits_def draws_def keys_def)
  then show ?thesis using w1 w2(1) by (auto simp: refuse_def awaits_def)
qed

text \<open>The string a line of keys leaves in its array.\<close>

definition secret :: "byte list \<Rightarrow> byte list" where
  "secret p = cstr (p @ [0])"

lemma secret_stored: "cstr (p @ 0 # xs) = secret p" "terminated (p @ 0 # xs)"
  by (induction p) (simp_all add: secret_def)

text \<open>A line as one of the three prompts accepts it.\<close>

definition password_line :: "byte list \<Rightarrow> bool" where
  "password_line p \<longleftrightarrow> no_newline p \<and> length p < 63"

lemma read_line_secret:
  assumes "world_ok w" "keys w = p @ nl # ks" "nl = 10 \<or> nl = 13" "password_line p" "length buf = 64" "plain_text msg"
  shows "\<exists>buf' w'. do { w \<leftarrow> w_printf msg [] w; read_password 63 0 buf w } = Some (length p, buf', w') \<and> awaits w ks w'
    \<and> length buf' = 64 \<and> terminated buf' \<and> cstr buf' = secret p"
proof -
  obtain w1 where w1: "w_printf msg [] w = Some w1" "world_ok w1" "keys w1 = p @ nl # ks" "w_fs w1 = w_fs w"
    using message_awaits [OF assms(6,1)] assms(2) by (auto simp: awaits_def)
  obtain w2 where w2: "read_password 63 0 buf w1 = Some (length p, p @ 0 # drop (Suc (length p)) buf, w2)" "awaits w1 ks w2"
    using read_password_line [OF w1(2,3) assms(3), of 63 0 buf] assms(4,5) by (auto simp: password_line_def)
  have "length (p @ 0 # drop (Suc (length p)) buf) = 64" using assms(4,5) by (simp add: password_line_def)
  then show ?thesis using w1 w2 secret_stored [of p "drop (Suc (length p)) buf"] by (auto simp: awaits_def)
qed

lemma password_texts:
  "plain_text ''Enter old password: ''" "plain_text ''Enter new password: ''" "plain_text ''Confirm new password: ''"
  "plain_text ''password: incorrect old password\<newline>''" "plain_text ''password: password too short\<newline>''"
  "plain_text ''password: passwords do not match\<newline>''" "plain_text ''password: password changed successfully\<newline>''"
  by code_simp+

text \<open>The part after the check of the old password.\<close>

lemma new_password:
  assumes w: "world_ok w" "keys w = p @ nl # q @ nl # ks" "nl = 10 \<or> nl = 13"
    and l: "password_line p" "password_line q" "length buf = 64" "length (confirm_buf st) = 64"
    and c: "check_old_password st h w0 = Some (True, buf, w)" "w_fs w = w_fs w0"
  shows "\<exists>r h' w'. cmd_password st h w0 = Some (r, h', w') \<and> w_fs w' = w_fs w0
    \<and> (r, h') = (if p = [] \<or> secret p \<noteq> secret q then (1, h) else (0, djb2 (secret p)))"
proof -
  obtain buf' w1 where 1: "do { w \<leftarrow> w_printf ''Enter new password: '' [] w; read_password 63 0 buf w } = Some (length p, buf', w1)"
    "awaits w (q @ nl # ks) w1" "terminated buf'" "cstr buf' = secret p"
    using read_line_secret [OF w l(1,3) password_texts(2)] by blast
  have ok1: "world_ok w1" "keys w1 = q @ nl # ks" "w_fs w1 = w_fs w" using 1(2) by (simp_all add: awaits_def)
  obtain u where u: "w_printf ''Enter new password: '' [] w = Some u" "read_password 63 0 buf u = Some (length p, buf', w1)"
    using 1(1) by (auto simp: bind_eq_Some_conv)
  show ?thesis
  proof (cases "p = []")
    case True
    obtain w2 where "refuse ''password: password too short\<newline>'' st h w1 = Some (1, h, w2)" "awaits w1 (keys w1) w2"
      using refuse_returns [OF ok1(1) password_texts(5)] by blast
    then show ?thesis using c u True ok1(3) by (auto simp: cmd_password_def awaits_def)
  next
    case False
    obtain conf w2 where 2: "do { w \<leftarrow> w_printf ''Confirm new password: '' [] w1; read_password 63 0 (confirm_buf st) w } = Some (length q, conf, w2)"
      "awaits w1 ks w2" "terminated conf" "cstr conf = secret q"
      using read_line_secret [OF ok1(1,2) w(3) l(2,4) password_texts(3)] by blast
    obtain v where v: "w_printf ''Confirm new password: '' [] w1 = Some v" "read_password 63 0 (confirm_buf st) v = Some (length q, conf, w2)"
      using 2(1) by (auto simp: bind_eq_Some_conv)
    obtain r where r: "strcmp buf' conf = Some r" "r = 0 \<longleftrightarrow> secret p = secret q"
      using strcmp_less_iff [OF 1(3) 2(3)] 1(4) 2(4) by auto
    have ok2: "world_ok w2" "w_fs w2 = w_fs w1" using 2(2) by (simp_all add: awaits_def)
    obtain w3 where w3: "refuse ''password: passwords do not match\<newline>'' st h w2 = Some (1, h, w3)" "w_fs w3 = w_fs w2"
      using refuse_returns [OF ok2(1) password_texts(6)] by (auto simp: awaits_def)
    obtain w4 where w4: "w_printf ''password: password changed successfully\<newline>'' [] w2 = Some w4" "w_fs w4 = w_fs w2"
      using message_awaits [OF password_texts(7) ok2(1)] by (auto simp: awaits_def)
    have h: "hash_password buf' = Some (djb2 (secret p))" using hash_password_eq [OF 1(3)] 1(4) by simp
    have "cmd_password st h w0 = (if r \<noteq> 0 then Some (1, h, w3) else Some (0, djb2 (secret p), w4))"
      using c u v r(1) w3(1) w4(1) h False by (simp add: cmd_password_def)
    then show ?thesis using r(2) w3(2) w4(2) ok2(2) ok1(3) c(2) False by auto
  qed
qed

text \<open>
  C37: \<open>password\<close> replaces the hash exactly when the old password typed first, asked for when one is set, has the
  stored hash, the new one is not empty and the confirmation equals it; otherwise it returns 1 and keeps the
  hash. Afterwards \<open>password_verify\<close> accepts a string exactly when its hash is that of the new password, or when
  that hash is 0.
\<close>

theorem password_change:
  assumes "world_ok w" "length (pwd_buf st) = 64" "length (confirm_buf st) = 64" "nl = 10 \<or> nl = 13"
    "password_line old" "password_line p" "password_line q"
    "keys w = (if h = 0 then [] else old @ [nl]) @ p @ nl # q @ nl # ks"
  shows "\<exists>r h' w'. cmd_password st h w = Some (r, h', w') \<and> w_fs w' = w_fs w
    \<and> (r, h') = (if h \<noteq> 0 \<and> djb2 (secret old) \<noteq> h \<or> p = [] \<or> secret p \<noteq> secret q then (1, h) else (0, djb2 (secret p)))
    \<and> (terminated s \<longrightarrow> password_verify h' s = Some (if h' = 0 \<or> djb2 (cstr s) = h' then 1 else 0))"
proof -
  have v: "terminated s \<longrightarrow> password_verify h' s = Some (if h' = 0 \<or> djb2 (cstr s) = h' then 1 else 0)" for h'
    by (simp add: password_verify_def hash_password_eq)
  show ?thesis
  proof (cases "h = 0")
    case True
    then have "check_old_password st h w = Some (True, pwd_buf st, w)" by (simp add: check_old_password_def)
    from new_password [OF assms(1) _ assms(4,6,7,2,3) this refl, of ks] show ?thesis using assms(8) True v by auto
  next
    case False
    obtain buf w1 where 1: "do { w \<leftarrow> w_printf ''Enter old password: '' [] w; read_password 63 0 (pwd_buf st) w } = Some (length old, buf, w1)"
      "awaits w (p @ nl # q @ nl # ks) w1" "length buf = 64" "terminated buf" "cstr buf = secret old"
      using read_line_secret [OF assms(1) _ assms(4,5,2) password_texts(1), of "p @ nl # q @ nl # ks"] assms(8) False by auto
    then obtain u where "w_printf ''Enter old password: '' [] w = Some u" "read_password 63 0 (pwd_buf st) u = Some (length old, buf, w1)"
      by (auto simp: bind_eq_Some_conv)
    then have c: "check_old_password st h w = Some (djb2 (secret old) = h, buf, w1)"
      using False hash_password_eq [OF 1(4)] 1(5) by (simp add: check_old_password_def)
    have ok: "world_ok w1" "keys w1 = p @ nl # q @ nl # ks" "w_fs w1 = w_fs w" using 1(2) by (simp_all add: awaits_def)
    show ?thesis
    proof (cases "djb2 (secret old) = h")
      case True
      then show ?thesis using new_password [OF ok(1,2) assms(4,6,7) 1(3) assms(3), of h w] c ok(3) v by auto
    next
      case wrong: False
      obtain w2 where "refuse ''password: incorrect old password\<newline>'' st h w1 = Some (1, h, w2)" "w_fs w2 = w_fs w1"
        using refuse_returns [OF ok(1) password_texts(4)] by (auto simp: awaits_def)
      then show ?thesis using c wrong False ok(3) v by (auto simp: cmd_password_def)
    qed
  qed
qed


text \<open>The password \<open>glidpk\<close>, typed twice: its hash is 0, the value that stands for no password.\<close>

definition zero_keys :: "byte list" where
  "zero_keys = [0x22, 0x26, 0x17, 0x20, 0x19, 0x25, 0x1C]"

definition plain_code :: "byte \<Rightarrow> bool" where
  "plain_code c \<longleftrightarrow> c \<notin> {0xE0, 0x2A, 0x36, 0xAA, 0xB6, 0x1D, 0x9D, 0x38, 0xB8, 0x3A} \<and> c AND 0x80 = 0"

lemma plain_key:
  assumes "array_get qwerty_table (unat c) = Some ch" "plain_code c"
  shows "scan_step c boot_kbd = Some (Some ch, boot_kbd)"
proof -
  have "translate_scancode c boot_kbd = Some ch"
    using assms(1) by (simp add: translate_scancode_def boot_kbd_def keyboard_init_def keyboard_set_layout_def)
  then show ?thesis using assms(2) by (simp add: scan_step_def plain_code_def boot_kbd_def keyboard_init_def keyboard_set_layout_def)
qed

lemma plain_keys:
  "map (\<lambda>c. array_get qwerty_table (unat c)) cs = map Some p \<Longrightarrow> list_all plain_code cs
     \<Longrightarrow> keys_of (map Some cs @ es) boot_kbd = p @ keys_of es boot_kbd"
  by (induction cs arbitrary: p) (auto simp: plain_key)

theorem password_change_witness:
  "\<exists>w'. cmd_password \<lparr>pwd_buf = replicate 64 7, confirm_buf = replicate 64 9, port_before = 0, port_after = 3\<rparr> 0
      (demo_typing (map Some (zero_keys @ zero_keys)) []) = Some (0, 0, w')
    \<and> password_verify 0 (clit ''anything'') = Some 1"
proof -
  let ?st = "\<lparr>pwd_buf = replicate 64 7, confirm_buf = replicate 64 9, port_before = 0, port_after = 3\<rparr>"
  let ?p = "lit ''glidpk''"
  have "map (\<lambda>c. array_get qwerty_table (unat c)) zero_keys = map Some (?p @ [10])" "list_all plain_code zero_keys" by code_simp+
  then have "keys_of (map Some zero_keys @ es) boot_kbd = (?p @ [10]) @ keys_of es boot_kbd" for es by (rule plain_keys)
  from this [of "map Some zero_keys @ []"] this [of "[]"]
  have "keys_of (map Some (zero_keys @ zero_keys)) boot_kbd = ?p @ 10 # ?p @ 10 # []" by simp
  then have k: "keys (demo_typing (map Some (zero_keys @ zero_keys)) []) = (if (0 :: u32) = 0 then [] else [] @ [10]) @ ?p @ 10 # ?p @ 10 # []"
    by (simp add: keys_def demo_typing_def)
  have l: "password_line ?p" "password_line []" by code_simp+
  have h: "djb2 (secret ?p) = 0" "?p \<noteq> []" by code_simp+
  have t: "terminated (clit ''anything'')" by (simp add: clit_def)
  show ?thesis
    using password_change [OF demo_typing_ok _ _ _ l(2,1,1) k, of ?st "clit ''anything''"] h t by auto
qed

end
