(* ===== verification/SysInfo.thy ===== *)
theory SysInfo
  imports Messages
begin

text \<open>
  The commands that report on the system: \<^verbatim>\<open>src/bin/uname\<close>, \<^verbatim>\<open>memory\<close>, \<^verbatim>\<open>free\<close>, \<^verbatim>\<open>top\<close>, \<^verbatim>\<open>vmstat\<close>, \<^verbatim>\<open>uptime\<close>, \<^verbatim>\<open>date\<close> and \<^verbatim>\<open>sysinfo\<close>. They read the
  counters of the page allocator and the clock and print. The lemmas say what appears on the console: since
  \<open>printf\<close> knows no field widths, several of the formats show no numbers at all.
\<close>

section \<open>\<open>uname\<close>\<close>

record uname_flags =
  show_all :: bool
  show_sysname :: bool
  show_nodename :: bool
  show_release :: bool
  show_version :: bool
  show_machine :: bool

text \<open>The test of an argument against the short and the long form of an option.\<close>

definition is_option :: "byte list \<Rightarrow> string \<Rightarrow> string \<Rightarrow> bool option" where
  "is_option a short long =
     do { r \<leftarrow> strcmp a (clit short);
          if r = 0 then Some True else map_option (\<lambda>r. r = 0) (strcmp a (clit long)) }"

fun uname_parse :: "byte list list \<Rightarrow> uname_flags \<Rightarrow> uname_flags option" where
  "uname_parse [] f = Some f"
| "uname_parse (a # as) f =
     do { x \<leftarrow> is_option a ''-a'' ''--all'';
          if x then uname_parse as (f\<lparr>show_all := True\<rparr>) else do {
          x \<leftarrow> is_option a ''-s'' ''--sysname'';
          if x then uname_parse as (f\<lparr>show_sysname := True\<rparr>) else do {
          x \<leftarrow> is_option a ''-n'' ''--nodename'';
          if x then uname_parse as (f\<lparr>show_nodename := True\<rparr>) else do {
          x \<leftarrow> is_option a ''-r'' ''--release'';
          if x then uname_parse as (f\<lparr>show_release := True\<rparr>) else do {
          x \<leftarrow> is_option a ''-v'' ''--version'';
          if x then uname_parse as (f\<lparr>show_version := True\<rparr>) else do {
          x \<leftarrow> is_option a ''-m'' ''--machine'';
          uname_parse as (if x then f\<lparr>show_machine := True\<rparr> else f) } } } } } }"

text \<open>The blocks \<open>if (show_...)\<close> with the variable \<open>first\<close>.\<close>

fun uname_items :: "(bool \<times> string) list \<Rightarrow> bool \<Rightarrow> 'a world_scheme \<Rightarrow> 'a world_scheme option" where
  "uname_items [] first w = Some w"
| "uname_items ((shown, t) # items) first w =
     (if shown
      then do { w \<leftarrow> (if first then Some w else w_write (clit '' '') w);
                w \<leftarrow> w_write (clit t) w;
                uname_items items False w }
      else uname_items items first w)"

definition cmd_uname :: "'a command" where
  "cmd_uname argv w =
     do { f \<leftarrow> uname_parse (tl argv) \<lparr>show_all = False, show_sysname = False, show_nodename = False, show_release = False,
                  show_version = False, show_machine = False\<rparr>;
          let f = (if \<not> show_all f \<and> \<not> show_sysname f \<and> \<not> show_nodename f \<and> \<not> show_release f \<and> \<not> show_version f \<and> \<not> show_machine f
                   then f\<lparr>show_sysname := True\<rparr> else f);
          let f = (if show_all f
                   then f\<lparr>show_sysname := True, show_nodename := True, show_release := True, show_version := True, show_machine := True\<rparr>
                   else f);
          w \<leftarrow> uname_items [(show_sysname f, ''MYUNIXLIKEOS''), (show_nodename f, ''dev-null''), (show_release f, ''1.0.0''),
                 (show_version f, ''#1 SMP''), (show_machine f, ''i386'')] True w;
          finish 0 (w_write (clit [CHR 0x0A]) w) }"

section \<open>Memory counters\<close>

abbreviation w_pmm :: "'a world_scheme \<Rightarrow> pmm" where "w_pmm w \<equiv> pg_pmm (kh_paging (w_heap w))"

text \<open>\<open>(pages * PAGE_SIZE) / 1024\<close>\<close>

definition page_kb :: "u32 \<Rightarrow> u32" where
  "page_kb pages = pages * PAGE_SIZE div 1024"

definition cmd_memory :: "'a command" where
  "cmd_memory argv w =
     do { let total_pages = pmm_total_pages (w_pmm w);
          let used_pages = pmm_used_pages (w_pmm w);
          let free_pages = pmm_free_pages (w_pmm w);
          w \<leftarrow> w_printf ''Memory usage:\<newline>'' [] w;
          w \<leftarrow> w_printf ''  Total pages: %u\<newline>'' [Word total_pages] w;
          w \<leftarrow> w_printf ''  Used pages : %u\<newline>'' [Word used_pages] w;
          w \<leftarrow> w_printf ''  Free pages : %u\<newline>'' [Word free_pages] w;
          w \<leftarrow> w_printf ''  Page size  : %u bytes\<newline>'' [Word PAGE_SIZE] w;
          w \<leftarrow> w_printf ''  Total RAM  : %u KB\<newline>'' [Word (page_kb total_pages)] w;
          w \<leftarrow> w_printf ''  Used RAM   : %u KB\<newline>'' [Word (page_kb used_pages)] w;
          finish 0 (w_printf ''  Free RAM   : %u KB\<newline>'' [Word (page_kb free_pages)] w) }"

definition cmd_free :: "'a command" where
  "cmd_free argv w =
     do { let total_kb = page_kb (pmm_total_pages (w_pmm w));
          let used_kb = page_kb (pmm_used_pages (w_pmm w));
          let free_kb = page_kb (pmm_free_pages (w_pmm w));
          w \<leftarrow> w_printf ''              total        used        free\<newline>'' [] w;
          finish 0 (w_printf ''Mem:     %8u KB %8u KB %8u KB\<newline>'' [Word total_kb, Word used_kb, Word free_kb] w) }"

definition cmd_top :: "'a command" where
  "cmd_top argv w =
     do { let total_kb = page_kb (pmm_total_pages (w_pmm w));
          let used_kb = page_kb (pmm_used_pages (w_pmm w));
          let free_kb = page_kb (pmm_free_pages (w_pmm w));
          w \<leftarrow> w_printf ''top - 00:00:00 up\<newline>'' [] w;
          w \<leftarrow> w_printf ''Tasks:   1 total,   1 running,   0 sleeping,   0 stopped,   0 zombie\<newline>'' [] w;
          w \<leftarrow> w_printf ''%%Cpu(s):  0.0 us,  0.0 sy,  0.0 ni,100.0 id,  0.0 wa,  0.0 hi,  0.0 si,  0.0 st\<newline>'' [] w;
          w \<leftarrow> w_printf ''KiB Mem : %8u total, %8u free, %8u used\<newline>'' [Word total_kb, Word free_kb, Word used_kb] w;
          w \<leftarrow> w_printf ''KiB Swap: %8u total, %8u free, %8u used\<newline>'' [Word 0, Word 0, Word 0] w;
          w \<leftarrow> w_printf ''\<newline>  PID USER      PR  NI    VIRT    RES    SHR S  %%CPU %%MEM     TIME+ COMMAND\<newline>'' [] w;
          finish 0 (w_printf ''    1 root      20   0    1024    512    256 S   0.0  0.0   0:00.00 init\<newline>'' [] w) }"

definition cmd_vmstat :: "'a command" where
  "cmd_vmstat argv w =
     do { let free_pages = pmm_free_pages (w_pmm w);
          w \<leftarrow> w_printf ''procs -----------memory---------- ---swap-- -----io---- -system-- ------cpu-----\<newline>'' [] w;
          w \<leftarrow> w_printf '' r  b   swpd   free   buff  cache   si   so    bi    bo   in   cs us sy id wa st\<newline>'' [] w;
          finish 0 (w_printf '' 0  0      0 %6u      0      0    0    0     0     0    0    0  0  0 100  0  0\<newline>''
                      [Word (page_kb free_pages)] w) }"

section \<open>\<open>uptime\<close> and \<open>sysinfo\<close>\<close>

record sysinfo_struct =
  si_uptime :: u32
  si_totalram :: u32
  si_freeram :: u32
  si_sharedram :: u32
  si_bufferram :: u32
  si_totalswap :: u32
  si_freeswap :: u32
  si_procs :: u16
  si_totalhigh :: u32
  si_freehigh :: u32
  si_mem_unit :: u32

text \<open>What the system call stores, see \<open>sys_sysinfo\<close>; the local variable has an address, so the call returns 0.\<close>

definition filled_sysinfo :: "pmm \<Rightarrow> sysinfo_struct" where
  "filled_sysinfo pm =
     \<lparr>si_uptime = 0, si_totalram = pmm_total_pages pm * PAGE_SIZE, si_freeram = pmm_free_pages pm * PAGE_SIZE, si_sharedram = 0,
      si_bufferram = 0, si_totalswap = 0, si_freeswap = 0, si_procs = 1, si_totalhigh = 0, si_freehigh = 0, si_mem_unit = 1\<rparr>"

definition sysinfo_call :: "'a world_scheme \<Rightarrow> int \<times> sysinfo_struct" where
  "sysinfo_call w = (0, filled_sysinfo (w_pmm w))"

definition cmd_uptime :: "'a command" where
  "cmd_uptime argv w =
     (let (r, info) = sysinfo_call w
      in if r = -1 then finish 1 (w_printf ''uptime: could not get system information\<newline>'' [] w)
         else do {
           let uptime = si_uptime info;
           let days = uptime div 86400;
           let hours = uptime mod 86400 div 3600;
           let minutes = uptime mod 3600 div 60;
           let seconds = uptime mod 60;
           w \<leftarrow> w_printf '' %02d:%02d:%02d up'' [Word hours, Word minutes, Word seconds] w;
           w \<leftarrow> (if days > 0 then w_printf (if days = 1 then '' %u day'' else '' %u days'') [Word days] w else Some w);
           finish 0 (w_printf '',  %u user,  load average: 0.00, 0.00, 0.00\<newline>'' [Word (ucast (si_procs info))] w) })"

text \<open>The logo, in the characters of code page 437.\<close>

definition cp437 :: "char \<Rightarrow> char" where
  "cp437 c = (if c = CHR ''#'' then CHR 0xDB else if c = CHR ''>'' then CHR 0xBB else if c = CHR ''|'' then CHR 0xBA
     else if c = CHR ''L'' then CHR 0xC8 else if c = CHR ''='' then CHR 0xCD else c)"

definition logo :: "string list" where
  "logo = map (map cp437)
     [''###>   ###>##>   ##>##>   ###>   ##>##  ##>\<newline>'',
      ''####> ####|L##> ##=>##|   ##|####>  ##|L##>##=>\<newline>'',
      ''##=####=##| L####=> ##|   ##|##=##> ##| L###=> \<newline>'',
      ''##|L##=>##|  L##=>  ##|   ##|##|L##>##| ##=##> \<newline>'',
      ''##| L=> ##|   ##|   L#####=>##| L####|##|##=> ##>\<newline>'',
      ''L=>     L=>   L=>    L====> L=>  L===>L=>L=>  L=>\<newline>'']"

text \<open>\<open>((total - free) * 100) / total\<close>, on 32 bits.\<close>

definition used_percent :: "u32 \<Rightarrow> u32 \<Rightarrow> u32" where
  "used_percent whole unused = (whole - unused) * 100 div whole"

definition print_swap :: "sysinfo_struct \<Rightarrow> 'a world_scheme \<Rightarrow> 'a world_scheme option" where
  "print_swap info w =
     (if si_totalswap info > 0
      then do {
        w \<leftarrow> w_printf ''\<newline>Swap:\<newline>'' [] w;
        w \<leftarrow> w_printf ''  Total: %u KB\<newline>'' [Word (si_totalswap info div 1024)] w;
        w \<leftarrow> w_printf ''  Free: %u KB\<newline>'' [Word (si_freeswap info div 1024)] w;
        w \<leftarrow> w_printf ''  Used: %u KB\<newline>'' [Word ((si_totalswap info - si_freeswap info) div 1024)] w;
        w_printf ''  Usage: %u%%\<newline>'' [Word (used_percent (si_totalswap info) (si_freeswap info))] w }
      else Some w)"

definition cmd_sysinfo :: "'a command" where
  "cmd_sysinfo argv w =
     (let (r, info) = sysinfo_call w
      in if r = -1 then finish 1 (w_printf ''Error: Could not get system information\<newline>'' [] w)
         else do {
           w \<leftarrow> printf_all (logo @ [[CHR 0x0A]]) w;
           w \<leftarrow> w_printf ''%s@%s\<newline>'' [Str (clit ''root''), Str (clit ''dev_null'')] w;
           w \<leftarrow> printf_all [''---------------------------------\<newline>'', ''OS: MYUNIXLIKEOS v1.0\<newline>'', ''Kernel: Custom x86 Kernel\<newline>'',
                  ''Architecture: i386\<newline>''] w;
           w \<leftarrow> w_printf ''Uptime: %u seconds (%u minutes)\<newline>'' [Word (si_uptime info), Word (si_uptime info div 60)] w;
           w \<leftarrow> w_printf ''Processes: %u\<newline>'' [Word (ucast (si_procs info))] w;
           w \<leftarrow> w_printf ''\<newline>Memory:\<newline>'' [] w;
           w \<leftarrow> w_printf ''  Total: %u KB\<newline>'' [Word (si_totalram info div 1024)] w;
           w \<leftarrow> w_printf ''  Free: %u KB\<newline>'' [Word (si_freeram info div 1024)] w;
           w \<leftarrow> w_printf ''  Used: %u KB\<newline>'' [Word ((si_totalram info - si_freeram info) div 1024)] w;
           w \<leftarrow> w_printf ''  Unit: %u bytes\<newline>'' [Word (si_mem_unit info)] w;
           w \<leftarrow> (if si_totalram info > 0
                then w_printf ''  Usage: %u%%\<newline>'' [Word (used_percent (si_totalram info) (si_freeram info))] w
                else Some w);
           w \<leftarrow> print_swap info w;
           finish 0 (printf_all [''\<newline>System:\<newline>'', ''  Shell: Custom Shell (sh)\<newline>'', ''  Terminal: VGA Text Mode (80x25)\<newline>'',
             ''  CPU: i386 Compatible\<newline>'', ''  Graphics: VGA Text Mode\<newline>'', [CHR 0x0A]] w) })"

section \<open>\<open>date\<close>\<close>

definition day_names :: "string list" where
  "day_names = [''Sun'', ''Mon'', ''Tue'', ''Wed'', ''Thu'', ''Fri'', ''Sat'']"

definition month_names :: "string list" where
  "month_names = [''Jan'', ''Feb'', ''Mar'', ''Apr'', ''May'', ''Jun'', ''Jul'', ''Aug'', ''Sep'', ''Oct'', ''Nov'', ''Dec'']"

text \<open>\<open>names[i]\<close> for a signed index.\<close>

definition name_at :: "string list \<Rightarrow> int \<Rightarrow> byte list option" where
  "name_at names i = (if i < 0 then None else map_option clit (array_get names (nat i)))"

definition cmd_date :: "cmos \<Rightarrow> 'a command" where
  "cmd_date hw argv w =
     do { t \<leftarrow> clock_realtime hw 0;
          b \<leftarrow> localtime_r (Some t) True;
          bt \<leftarrow> b;
          d \<leftarrow> name_at day_names (tm_wday bt);
          m \<leftarrow> name_at month_names (tm_mon bt);
          finish 0 (w_printf ''%s %s %2d %02d:%02d:%02d UTC %d\<newline>''
            [Str d, Str m, Word (of_int (tm_mday bt)), Word (of_int (tm_hour bt)), Word (of_int (tm_min bt)), Word (of_int (tm_sec bt)),
             Word (of_int (tm_year bt))] w) }"


section \<open>What the commands print\<close>



text \<open>A format with one unsigned number.\<close>

lemma shows_unsigned:
  assumes "plain_chars p" "plain_chars q" "length p + length q \<le> 2000" "f = p @ ''%u'' @ q"
  shows "shows_text (w_printf f [Word x]) (lit p @ sprintf_u x @ lit q)"
  using shows_pieces [of "[Txt p, Unsigned x, Txt q]" f "[Word x]" "[]"] assms sprintf_u_length [of x] by (simp add: lit_def)

text \<open>The pieces of a format whose directives all carry a width.\<close>

definition widths :: "string \<Rightarrow> (char \<times> string) list \<Rightarrow> piece list" where
  "widths p ds = Txt p # concat (map (\<lambda>(c, s). [Unknown c, Txt s]) ds)"

lemma text_of_widths: "text_of (widths p ds) = lit (p @ concat (map snd ds))"
proof -
  have "text_of (concat (map (\<lambda>(c, s). [Unknown c, Txt s]) ds)) = lit (concat (map snd ds))"
    by (induction ds) (auto simp: lit_def)
  then show ?thesis by (simp add: widths_def lit_append)
qed

lemma args_of_widths: "args_of (widths p ds) = []"
  by (induction ds) (auto simp: widths_def)

lemma shows_widths:
  assumes "f = format_of (widths p ds)" "list_all piece_ok (widths p ds)" "length (p @ concat (map snd ds)) \<le> 2048"
  shows "shows_text (w_printf f args) (lit (p @ concat (map snd ds)))"
proof -
  have "length (text_of (widths p ds)) \<le> 2048" using assms(3) by (simp only: text_of_widths) (simp add: lit_def)
  from shows_pieces [OF assms(2) this assms(1), of args args, unfolded text_of_widths args_of_widths append_Nil, OF refl] show ?thesis .
qed

text \<open>What \<open>free\<close>, \<open>top\<close> and \<open>vmstat\<close> show.\<close>

definition free_text :: string where
  "free_text = ''              total        used        free\<newline>Mem:     u KB u KB u KB\<newline>''"

definition vmstat_text :: string where
  "vmstat_text = ''procs -----------memory---------- ---swap-- -----io---- -system-- ------cpu-----\<newline>''
     @ '' r  b   swpd   free   buff  cache   si   so    bi    bo   in   cs us sy id wa st\<newline>''
     @ '' 0  0      0 u      0      0    0    0     0     0    0    0  0  0 100  0  0\<newline>''"

definition top_text :: string where
  "top_text = ''top - 00:00:00 up\<newline>''
     @ ''Tasks:   1 total,   1 running,   0 sleeping,   0 stopped,   0 zombie\<newline>''
     @ ''%Cpu(s):  0.0 us,  0.0 sy,  0.0 ni,100.0 id,  0.0 wa,  0.0 hi,  0.0 si,  0.0 st\<newline>''
     @ ''KiB Mem : u total, u free, u used\<newline>'' @ ''KiB Swap: u total, u free, u used\<newline>''
     @ ''\<newline>  PID USER      PR  NI    VIRT    RES    SHR S  %CPU %MEM     TIME+ COMMAND\<newline>''
     @ ''    1 root      20   0    1024    512    256 S   0.0  0.0   0:00.00 init\<newline>''"

lemma free_message: "shows_text (w_printf ''Mem:     %8u KB %8u KB %8u KB\<newline>'' args) (lit ''Mem:     u KB u KB u KB\<newline>'')"
proof -
  let ?p = "''Mem:     ''" and ?ds = "[(CHR ''8'', ''u KB ''), (CHR ''8'', ''u KB ''), (CHR ''8'', ''u KB\<newline>'')]"
  have "''Mem:     %8u KB %8u KB %8u KB\<newline>'' = format_of (widths ?p ?ds)" "list_all piece_ok (widths ?p ?ds)"
    "''Mem:     u KB u KB u KB\<newline>'' = ?p @ concat (map snd ?ds)" "length (?p @ concat (map snd ?ds)) \<le> 2048" by code_simp+
  then show ?thesis using shows_widths by metis
qed

lemma vmstat_message:
  "shows_text (w_printf '' 0  0      0 %6u      0      0    0    0     0     0    0    0  0  0 100  0  0\<newline>'' args)
     (lit '' 0  0      0 u      0      0    0    0     0     0    0    0  0  0 100  0  0\<newline>'')"
proof -
  let ?p = "'' 0  0      0 ''" and ?ds = "[(CHR ''6'', ''u      0      0    0    0     0     0    0    0  0  0 100  0  0\<newline>'')]"
  have "'' 0  0      0 %6u      0      0    0    0     0     0    0    0  0  0 100  0  0\<newline>'' = format_of (widths ?p ?ds)"
    "list_all piece_ok (widths ?p ?ds)"
    "'' 0  0      0 u      0      0    0    0     0     0    0    0  0  0 100  0  0\<newline>'' = ?p @ concat (map snd ?ds)"
    "length (?p @ concat (map snd ?ds)) \<le> 2048" by code_simp+
  then show ?thesis using shows_widths by metis
qed

lemma top_message:
  assumes "s \<in> {''KiB Mem : '', ''KiB Swap: ''}"
  shows "shows_text (w_printf (s @ ''%8u total, %8u free, %8u used\<newline>'') args) (lit (s @ ''u total, u free, u used\<newline>''))"
proof -
  let ?ds = "[(CHR ''8'', ''u total, ''), (CHR ''8'', ''u free, ''), (CHR ''8'', ''u used\<newline>'')]"
  have "plain_chars ''KiB Mem : ''" "plain_chars ''KiB Swap: ''" "list_all piece_ok (widths [] ?ds)" by code_simp+
  then have "list_all piece_ok (widths s ?ds)" "length (s @ concat (map snd ?ds)) \<le> 2048" using assms by (auto simp: widths_def)
  moreover have "s @ ''%8u total, %8u free, %8u used\<newline>'' = format_of (widths s ?ds)" by (simp add: widths_def)
  moreover have "s @ ''u total, u free, u used\<newline>'' = s @ concat (map snd ?ds)" by simp
  ultimately show ?thesis using shows_widths by metis
qed




lemma plain_messages:
  "plain_text ''              total        used        free\<newline>''"
  "plain_text ''procs -----------memory---------- ---swap-- -----io---- -system-- ------cpu-----\<newline>''"
  "plain_text '' r  b   swpd   free   buff  cache   si   so    bi    bo   in   cs us sy id wa st\<newline>''"
  "plain_text ''top - 00:00:00 up\<newline>''"
  "plain_text ''Tasks:   1 total,   1 running,   0 sleeping,   0 stopped,   0 zombie\<newline>''"
  "plain_text ''    1 root      20   0    1024    512    256 S   0.0  0.0   0:00.00 init\<newline>''"
  by code_simp+

lemma top_percent:
  "shows_text (w_printf ''%%Cpu(s):  0.0 us,  0.0 sy,  0.0 ni,100.0 id,  0.0 wa,  0.0 hi,  0.0 si,  0.0 st\<newline>'' [])
     (lit ''%Cpu(s):  0.0 us,  0.0 sy,  0.0 ni,100.0 id,  0.0 wa,  0.0 hi,  0.0 si,  0.0 st\<newline>'')"
  "shows_text (w_printf ''\<newline>  PID USER      PR  NI    VIRT    RES    SHR S  %%CPU %%MEM     TIME+ COMMAND\<newline>'' [])
     (lit ''\<newline>  PID USER      PR  NI    VIRT    RES    SHR S  %CPU %MEM     TIME+ COMMAND\<newline>'')"
proof -
  let ?a = "[Percent, Txt ''Cpu(s):  0.0 us,  0.0 sy,  0.0 ni,100.0 id,  0.0 wa,  0.0 hi,  0.0 si,  0.0 st\<newline>'']"
  have "list_all piece_ok ?a" "length (text_of ?a) \<le> 2048" "args_of ?a @ [] = []"
    "''%%Cpu(s):  0.0 us,  0.0 sy,  0.0 ni,100.0 id,  0.0 wa,  0.0 hi,  0.0 si,  0.0 st\<newline>'' = format_of ?a"
    "lit ''%Cpu(s):  0.0 us,  0.0 sy,  0.0 ni,100.0 id,  0.0 wa,  0.0 hi,  0.0 si,  0.0 st\<newline>'' = text_of ?a" by code_simp+
  then show "shows_text (w_printf ''%%Cpu(s):  0.0 us,  0.0 sy,  0.0 ni,100.0 id,  0.0 wa,  0.0 hi,  0.0 si,  0.0 st\<newline>'' [])
     (lit ''%Cpu(s):  0.0 us,  0.0 sy,  0.0 ni,100.0 id,  0.0 wa,  0.0 hi,  0.0 si,  0.0 st\<newline>'')"
    using shows_pieces by metis
  let ?b = "[Txt ''\<newline>  PID USER      PR  NI    VIRT    RES    SHR S  '', Percent, Txt ''CPU '', Percent, Txt ''MEM     TIME+ COMMAND\<newline>'']"
  have "list_all piece_ok ?b" "length (text_of ?b) \<le> 2048" "args_of ?b @ [] = []"
    "''\<newline>  PID USER      PR  NI    VIRT    RES    SHR S  %%CPU %%MEM     TIME+ COMMAND\<newline>'' = format_of ?b"
    "lit ''\<newline>  PID USER      PR  NI    VIRT    RES    SHR S  %CPU %MEM     TIME+ COMMAND\<newline>'' = text_of ?b" by code_simp+
  then show "shows_text (w_printf ''\<newline>  PID USER      PR  NI    VIRT    RES    SHR S  %%CPU %%MEM     TIME+ COMMAND\<newline>'' [])
     (lit ''\<newline>  PID USER      PR  NI    VIRT    RES    SHR S  %CPU %MEM     TIME+ COMMAND\<newline>'')"
    using shows_pieces by metis
qed

lemma finish_bind: "finish r (do { w \<leftarrow> m; g w }) = do { w \<leftarrow> m; finish r (g w) }"
  by (cases m) (simp_all add: finish_def)

lemma free_prints: "world_ok w \<Longrightarrow> \<exists>w'. cmd_free argv w = Some (0, w') \<and> prints w (lit free_text) w'"
  using finish_shows [OF shows_then [OF shows_plain [OF plain_messages(1)] free_message]]
  unfolding cmd_free_def free_text_def Let_def finish_bind by (simp add: lit_def)

lemma vmstat_prints: "world_ok w \<Longrightarrow> \<exists>w'. cmd_vmstat argv w = Some (0, w') \<and> prints w (lit vmstat_text) w'"
  using finish_shows [OF shows_then [OF shows_plain [OF plain_messages(2)] shows_then [OF shows_plain [OF plain_messages(3)] vmstat_message]]]
  unfolding cmd_vmstat_def vmstat_text_def Let_def finish_bind by (simp add: lit_def)

lemma top_prints: "world_ok w \<Longrightarrow> \<exists>w'. cmd_top argv w = Some (0, w') \<and> prints w (lit top_text) w'"
  using finish_shows [OF shows_then [OF shows_plain [OF plain_messages(4)] shows_then [OF shows_plain [OF plain_messages(5)]
    shows_then [OF top_percent(1) shows_then [OF top_message [of "''KiB Mem : ''"] shows_then [OF top_message [of "''KiB Swap: ''"]
    shows_then [OF top_percent(2) shows_plain [OF plain_messages(6)]]]]]]]]
  unfolding cmd_top_def top_text_def Let_def finish_bind by (simp add: lit_def)


definition uptime_text :: string where
  "uptime_text = '' 2d:2d:2d up,  1 user,  load average: 0.00, 0.00, 0.00\<newline>''"

lemma uptime_prints: "world_ok w \<Longrightarrow> \<exists>w'. cmd_uptime argv w = Some (0, w') \<and> prints w (lit uptime_text) w'"
proof -
  assume w: "world_ok w"
  let ?p = "'' ''" and ?ds = "[(CHR ''0'', ''2d:''), (CHR ''0'', ''2d:''), (CHR ''0'', ''2d up'')]"
  have "'' %02d:%02d:%02d up'' = format_of (widths ?p ?ds)" "list_all piece_ok (widths ?p ?ds)"
    "'' 2d:2d:2d up'' = ?p @ concat (map snd ?ds)" "length (?p @ concat (map snd ?ds)) \<le> 2048" by code_simp+
  then have a: "shows_text (w_printf '' %02d:%02d:%02d up'' args) (lit '' 2d:2d:2d up'')" for args using shows_widths by metis
  have pl: "plain_chars '',  ''" "plain_chars '' user,  load average: 0.00, 0.00, 0.00\<newline>''" by code_simp+
  have b: "shows_text (w_printf '',  %u user,  load average: 0.00, 0.00, 0.00\<newline>'' [Word 1])
      (lit '',  '' @ sprintf_u 1 @ lit '' user,  load average: 0.00, 0.00, 0.00\<newline>'')"
    by (rule shows_unsigned [OF pl]) simp_all
  have u: "sprintf_u 1 = lit ''1''" by code_simp
  have e: "cmd_uptime argv w = finish 0 (do { w \<leftarrow> w_printf '' %02d:%02d:%02d up'' [Word 0, Word 0, Word 0] w;
      w_printf '',  %u user,  load average: 0.00, 0.00, 0.00\<newline>'' [Word 1] w })"
    unfolding finish_bind by (simp add: cmd_uptime_def sysinfo_call_def filled_sysinfo_def Let_def)
  show ?thesis using finish_shows [OF shows_then [OF a b] w, of 0] unfolding e uptime_text_def u by (simp add: lit_def)
qed

text \<open>The report of \<open>memory\<close>.\<close>

definition memory_text :: "pmm \<Rightarrow> byte list" where
  "memory_text pm =
     (let line = (\<lambda>p n q. lit p @ sprintf_u n @ lit q)
      in lit ''Memory usage:\<newline>'' @ line ''  Total pages: '' (pmm_total_pages pm) ''\<newline>''
         @ line ''  Used pages : '' (pmm_used_pages pm) ''\<newline>'' @ line ''  Free pages : '' (pmm_free_pages pm) ''\<newline>''
         @ line ''  Page size  : '' 4096 '' bytes\<newline>'' @ line ''  Total RAM  : '' (page_kb (pmm_total_pages pm)) '' KB\<newline>''
         @ line ''  Used RAM   : '' (page_kb (pmm_used_pages pm)) '' KB\<newline>''
         @ line ''  Free RAM   : '' (page_kb (pmm_free_pages pm)) '' KB\<newline>'')"

lemma memory_texts:
  "plain_text ''Memory usage:\<newline>''" "plain_chars ''  Total pages: ''" "plain_chars ''  Used pages : ''" "plain_chars ''  Free pages : ''"
  "plain_chars ''  Page size  : ''" "plain_chars ''  Total RAM  : ''" "plain_chars ''  Used RAM   : ''" "plain_chars ''  Free RAM   : ''"
  "plain_chars ''\<newline>''" "plain_chars '' bytes\<newline>''" "plain_chars '' KB\<newline>''"
  by code_simp+

lemma memory_lines:
  "shows_text (w_printf ''  Total pages: %u\<newline>'' [Word x]) (lit ''  Total pages: '' @ sprintf_u x @ lit ''\<newline>'')"
  "shows_text (w_printf ''  Used pages : %u\<newline>'' [Word x]) (lit ''  Used pages : '' @ sprintf_u x @ lit ''\<newline>'')"
  "shows_text (w_printf ''  Free pages : %u\<newline>'' [Word x]) (lit ''  Free pages : '' @ sprintf_u x @ lit ''\<newline>'')"
  "shows_text (w_printf ''  Page size  : %u bytes\<newline>'' [Word x]) (lit ''  Page size  : '' @ sprintf_u x @ lit '' bytes\<newline>'')"
  "shows_text (w_printf ''  Total RAM  : %u KB\<newline>'' [Word x]) (lit ''  Total RAM  : '' @ sprintf_u x @ lit '' KB\<newline>'')"
  "shows_text (w_printf ''  Used RAM   : %u KB\<newline>'' [Word x]) (lit ''  Used RAM   : '' @ sprintf_u x @ lit '' KB\<newline>'')"
  "shows_text (w_printf ''  Free RAM   : %u KB\<newline>'' [Word x]) (lit ''  Free RAM   : '' @ sprintf_u x @ lit '' KB\<newline>'')"
  by (rule shows_unsigned; simp add: memory_texts)+

lemma memory_prints: "world_ok w \<Longrightarrow> \<exists>w'. cmd_memory argv w = Some (0, w') \<and> prints w (memory_text (w_pmm w)) w'"
  using finish_shows [OF shows_then [OF shows_plain [OF memory_texts(1)] shows_then [OF memory_lines(1)
    shows_then [OF memory_lines(2) shows_then [OF memory_lines(3) shows_then [OF memory_lines(4)
    shows_then [OF memory_lines(5) shows_then [OF memory_lines(6) memory_lines(7)]]]]]]]]
  unfolding cmd_memory_def memory_text_def Let_def finish_bind append_assoc by simp


section \<open>The date\<close>

lemma split_years_range: "0 \<le> d \<Longrightarrow> split_years d y = (d', y') \<Longrightarrow> 0 \<le> d' \<and> d' < year_len y'"
proof (induction d y rule: split_years.induct)
  case (1 d y)
  show ?case
  proof (cases "d < year_len y")
    case True
    then show ?thesis using "1.prems" by (subst (asm) split_years.simps) (auto simp: Let_def)
  next
    case False
    then have "split_years (d - year_len y) (y + 1) = (d', y')" using "1.prems"(2) by (subst (asm) split_years.simps) (simp add: Let_def)
    then show ?thesis using "1.IH" [OF refl] False by simp
  qed
qed

lemma split_months_range:
  "m + n = 12 \<Longrightarrow> 0 \<le> d \<Longrightarrow> d < before_month y m n \<Longrightarrow> split_months y m n d = Some (k, e) \<Longrightarrow> k < 12 \<and> 0 \<le> e \<and> e < 31"
proof (induction n arbitrary: m d)
  case (Suc n)
  show ?case
  proof (cases "d < month_len y m")
    case True
    then show ?thesis using Suc.prems month_len_pos [of m y] by (simp add: split_months_step del: split_months.simps)
  next
    case False
    then have "split_months y (Suc m) n (d - month_len y m) = Some (k, e)" using Suc.prems by (simp add: split_months_step del: split_months.simps)
    moreover have "d - month_len y m < before_month y (Suc m) n" using Suc.prems(3) by simp
    ultimately show ?thesis using Suc.IH [of "Suc m" "d - month_len y m"] Suc.prems(1) False by simp
  qed
qed simp

lemma localtime_range:
  assumes "localtime_r (Some t) True = Some (Some b)"
  shows "0 \<le> tm_wday b \<and> tm_wday b < 7" "0 \<le> tm_mon b \<and> tm_mon b < 12" "tm_mday b \<in> {1..31}"
proof -
  have "(0 \<le> tm_wday b \<and> tm_wday b < 7) \<and> (0 \<le> tm_mon b \<and> tm_mon b < 12) \<and> tm_mday b \<in> {1..31}"
  proof (cases "t < 0")
    case True
    then show ?thesis using assms by (auto simp: localtime_r_def)
  next
    case False
    obtain d y where sy: "split_years (t div 86400) 1970 = (d, y)" by fastforce
    obtain k e where sm: "split_months y 0 12 d = Some (k, e)" using split_months_total [of 0 12 y d] by auto
    have b: "tm_mon b = int k" "tm_wday b = (d + 4) mod 7" "tm_mday b = e + 1" using assms False sy sm by (auto simp: localtime_r_def Let_def simp del: split_months.simps split_years.simps)
    have d: "0 \<le> d" "d < year_len y" using split_years_range [OF _ sy] False by (simp_all add: pos_imp_zdiv_nonneg_iff)
    have "year_len y = before_month y 0 12" by (simp add: eval_nat_numeral month_len_def days_per_month_def)
    then show ?thesis using split_months_range [OF _ d(1) _ sm] d(2) b by simp
  qed
  then show "0 \<le> tm_wday b \<and> tm_wday b < 7" "0 \<le> tm_mon b \<and> tm_mon b < 12" "tm_mday b \<in> {1..31}" by auto
qed


lemma localtime_result: "\<exists>b. localtime_r (Some t) True = Some (Some b)"
proof -
  obtain b where b: "localtime_r (Some t) True = Some b" using localtime_total by blast
  then have "b \<noteq> None" by (auto simp: localtime_r_def Let_def bind_eq_Some_conv simp del: split_months.simps split_years.simps split: if_splits prod.splits)
  then show ?thesis using b by auto
qed

text \<open>The text of \<open>date\<close> for a broken-down time.\<close>

definition date_text :: "tm \<Rightarrow> byte list" where
  "date_text b = lit (day_names ! nat (tm_wday b) @ '' '' @ month_names ! nat (tm_mon b) @ '' d 2d:2d:2d UTC '')
     @ sprintf_signed (sint (of_int (tm_mday b) :: u32)) @ [10]"

lemma short_names:
  assumes "i < length ns" "list_all (\<lambda>s. length s = 3 \<and> plain_chars s) ns"
  shows "terminated (clit (ns ! i))" "cstr (clit (ns ! i)) = lit (ns ! i)" "length (lit (ns ! i)) = 3"
proof -
  have n: "length (ns ! i) = 3" "plain_chars (ns ! i)" using assms by (simp_all add: list_all_length)
  show "terminated (clit (ns ! i))" by (simp add: clit_def)
  have "0 \<notin> set (lit (ns ! i))" using n(2) by (auto simp: plain_chars_def lit_def list_all_iff)
  then show "cstr (clit (ns ! i)) = lit (ns ! i)" by (simp add: clit_def cstr_append_terminated)
  show "length (lit (ns ! i)) = 3" using n(1) by (simp add: lit_def)
qed

lemma date_pieces:
  assumes "terminated d" "terminated m" "length (cstr d) \<le> 100" "length (cstr m) \<le> 100" "sint x \<noteq> - (2 ^ 31)" "length (sprintf_signed (sint x)) \<le> 100"
  shows "shows_text (w_printf ''%s %s %2d %02d:%02d:%02d UTC %d\<newline>'' ([Str d, Str m, Word x] @ args))
    (cstr d @ lit '' '' @ cstr m @ lit '' d 2d:2d:2d UTC '' @ sprintf_signed (sint x) @ [10])"
proof -
  let ?ps = "[Strg d, Txt '' '', Strg m, Txt '' '', Unknown (CHR ''2''), Txt ''d '', Unknown (CHR ''0''), Txt ''2d:'', Unknown (CHR ''0''), Txt ''2d:'',
    Unknown (CHR ''0''), Txt ''2d UTC '', Signed x, Txt ''\<newline>'']"
  have pl: "plain_chars '' ''" "plain_chars ''d ''" "plain_chars ''2d:''" "plain_chars ''2d UTC ''" "plain_chars ''\<newline>''" by code_simp+
  show ?thesis using shows_pieces [of ?ps "''%s %s %2d %02d:%02d:%02d UTC %d\<newline>''" "[Str d, Str m, Word x] @ args" args] assms pl
    by (simp add: lit_def)
qed

lemma signed_length: "length (sprintf_signed i) \<le> nat \<bar>i\<bar> + 2"
proof (induction i rule: sprintf_signed.induct)
  case (1 i)
  let ?i = "if i < 0 then - i else i"
  have "length (sprintf_signed i) = (if i < 0 then 1 else 0) + (if ?i \<ge> 10 then length (sprintf_signed (?i div 10)) else 0) + 1"
    by (subst sprintf_signed.simps) (simp add: Let_def)
  moreover have "length (sprintf_signed (?i div 10)) \<le> nat (?i div 10) + 2" if "?i \<ge> 10"
    using "1.IH" [OF refl refl] that by (auto split: if_splits)
  moreover have "nat (?i div 10) + 3 \<le> nat ?i" if "?i \<ge> 10" using that by linarith
  ultimately show ?case by (auto split: if_splits)
qed

lemma date_prints:
  assumes w: "world_ok w" and c: "clock_realtime hw 0 = Some t" "localtime_r (Some t) True = Some (Some b)"
  shows "\<exists>w'. cmd_date hw argv w = Some (0, w') \<and> prints w (date_text b) w'"
proof -
  note r = localtime_range [OF c(2)]
  note c = c r(3)
  let ?d = "day_names ! nat (tm_wday b)" and ?m = "month_names ! nat (tm_mon b)"
  have ok: "list_all (\<lambda>s. length s = 3 \<and> plain_chars s) day_names" "list_all (\<lambda>s. length s = 3 \<and> plain_chars s) month_names"
    "length day_names = 7" "length month_names = 12" by code_simp+
  have i: "nat (tm_wday b) < length day_names" "nat (tm_mon b) < length month_names" using r ok(3,4) by auto
  note nd = short_names [OF i(1) ok(1)] and nm = short_names [OF i(2) ok(2)]
  have n: "name_at day_names (tm_wday b) = Some (clit ?d)" "name_at month_names (tm_mon b) = Some (clit ?m)"
    using r i by (simp_all add: name_at_def array_get_def)
  have s: "sint (of_int (tm_mday b) :: u32) = tm_mday b" using c(3)
    by (simp add: sint_uint uint_word_of_int signed_take_bit_int_eq_self)
  have l: "length (sprintf_signed (tm_mday b)) \<le> 100" using signed_length [of "tm_mday b"] c(3) by auto
  have sh: "shows_text (w_printf ''%s %s %2d %02d:%02d:%02d UTC %d\<newline>'' ([Str (clit ?d), Str (clit ?m), Word (of_int (tm_mday b))] @
      [Word (of_int (tm_hour b)), Word (of_int (tm_min b)), Word (of_int (tm_sec b)), Word (of_int (tm_year b))])) (date_text b)"
    using date_pieces [OF nd(1) nm(1), of "of_int (tm_mday b)"] nd nm s l c(3) by (simp add: date_text_def lit_append)
  show ?thesis using finish_shows [OF sh w, of 0] c(1,2) n by (simp add: cmd_date_def)
qed


section \<open>The system name\<close>

lemma terminal_write_then:
  "0 \<notin> set xs \<Longrightarrow> terminal_write (xs @ ys) t = do { t \<leftarrow> terminal_write (xs @ [0]) t; terminal_write ys t }"
  by (induction xs arbitrary: t) (auto split: bind_split)

lemma w_write_then:
  assumes "plain_chars s"
  shows "w_write (clit (s @ u)) w = do { w \<leftarrow> w_write (clit s) w; w_write (clit u) w }"
proof -
  have "0 \<notin> set (lit s)" using assms by (auto simp: plain_chars_def lit_def list_all_iff)
  then have "terminal_write (clit (s @ u)) t = do { t \<leftarrow> terminal_write (clit s) t; terminal_write (clit u) t }" for t
    using terminal_write_then [of "lit s" "lit u @ [0]"] by (simp add: clit_def lit_append)
  then show ?thesis by (simp add: w_write_def echo_def bind_assoc split: bind_split)
qed

fun spaced :: "string list \<Rightarrow> string" where
  "spaced [] = []"
| "spaced (t # ts) = t @ concat (map ((@) '' '') ts)"

lemma uname_items_more:
  assumes "list_all (\<lambda>p. plain_chars (snd p)) items" "plain_chars '' ''"
  shows "do { w \<leftarrow> uname_items items False w; w_write (clit u) w }
    = w_write (clit (concat (map ((@) '' '') (map snd (filter fst items))) @ u)) w"
  using assms(1)
proof (induction items arbitrary: w)
  case (Cons p items)
  obtain b t where p: "p = (b, t)" by fastforce
  have t: "plain_chars t" using Cons.prems p by simp
  have "w_write (clit ('' '' @ t @ r)) w = do { w \<leftarrow> w_write (clit '' '') w; w \<leftarrow> w_write (clit t) w; w_write (clit r) w }" for r
    unfolding w_write_then [OF assms(2)] w_write_then [OF t] ..
  then show ?case using Cons p by (cases b) (simp_all add: Option.bind_assoc)
qed simp

lemma uname_items_spaced:
  assumes "list_all (\<lambda>p. plain_chars (snd p)) items" "plain_chars '' ''"
  shows "do { w \<leftarrow> uname_items items True w; w_write (clit u) w } = w_write (clit (spaced (map snd (filter fst items)) @ u)) w"
  using assms(1)
proof (induction items arbitrary: w)
  case (Cons p items)
  obtain b t where p: "p = (b, t)" by fastforce
  show ?case
  proof (cases b)
    case True
    have t: "plain_chars t" "list_all (\<lambda>p. plain_chars (snd p)) items" using Cons.prems p by auto
    show ?thesis using p True by (simp add: Option.bind_assoc w_write_then [OF t(1)] uname_items_more [OF t(2) assms(2)])
  next
    case False
    then show ?thesis using Cons p by simp
  qed
qed simp

text \<open>Which parts of the name the arguments ask for.\<close>

definition asked :: "byte list list \<Rightarrow> string \<Rightarrow> string \<Rightarrow> bool" where
  "asked as short long \<longleftrightarrow> (\<exists>a\<in>set as. cstr a = lit short \<or> cstr a = lit long)"

lemma is_option_eq:
  assumes "terminated a" "plain_chars s" "plain_chars l"
  shows "is_option a s l = Some (cstr a = lit s \<or> cstr a = lit l)"
proof -
  have z: "0 \<notin> set (lit s)" "0 \<notin> set (lit l)" using assms(2,3) by (auto simp: plain_chars_def lit_def list_all_iff)
  then have c: "cstr (clit s) = lit s" "cstr (clit l) = lit l" by (simp_all add: clit_def cstr_append_terminated)
  show ?thesis using strcmp_less_iff [OF assms(1), of "clit s"] strcmp_less_iff [OF assms(1), of "clit l"] c
    by (auto simp: is_option_def clit_def)
qed

lemma option_words:
  "plain_chars ''-a''" "plain_chars ''--all''" "plain_chars ''-s''" "plain_chars ''--sysname''" "plain_chars ''-n''" "plain_chars ''--nodename''"
  "plain_chars ''-r''" "plain_chars ''--release''" "plain_chars ''-v''" "plain_chars ''--version''" "plain_chars ''-m''" "plain_chars ''--machine''"
  by code_simp+

definition flags_after :: "byte list list \<Rightarrow> uname_flags \<Rightarrow> uname_flags" where
  "flags_after as f =
     \<lparr>show_all = show_all f \<or> asked as ''-a'' ''--all'', show_sysname = show_sysname f \<or> asked as ''-s'' ''--sysname'',
      show_nodename = show_nodename f \<or> asked as ''-n'' ''--nodename'', show_release = show_release f \<or> asked as ''-r'' ''--release'',
      show_version = show_version f \<or> asked as ''-v'' ''--version'', show_machine = show_machine f \<or> asked as ''-m'' ''--machine''\<rparr>"

lemma uname_parse_eq: "list_all terminated as \<Longrightarrow> uname_parse as f = Some (flags_after as f)"
proof (induction as arbitrary: f)
  case Nil
  then show ?case by (simp add: flags_after_def asked_def)
next
  case (Cons a as)
  then have "terminated a" by simp
  note o = is_option_eq [OF this]
  show ?case using Cons by (auto simp: o option_words flags_after_def asked_def lit_def)
qed

definition uname_text :: "byte list list \<Rightarrow> string" where
  "uname_text as =
     (let every = asked as ''-a'' ''--all'';
          some = every \<or> asked as ''-n'' ''--nodename'' \<or> asked as ''-r'' ''--release'' \<or> asked as ''-v'' ''--version'' \<or> asked as ''-m'' ''--machine''
      in spaced (map snd (filter fst
           [(every \<or> asked as ''-s'' ''--sysname'' \<or> \<not> some, ''MYUNIXLIKEOS''), (every \<or> asked as ''-n'' ''--nodename'', ''dev-null''),
            (every \<or> asked as ''-r'' ''--release'', ''1.0.0''), (every \<or> asked as ''-v'' ''--version'', ''#1 SMP''),
            (every \<or> asked as ''-m'' ''--machine'', ''i386'')])) @ [CHR 0x0A])"

lemma uname_eq:
  assumes "list_all terminated (tl argv)"
  shows "cmd_uname argv w = finish 0 (w_write (clit (uname_text (tl argv))) w)"
proof -
  have pl: "plain_chars '' ''" "plain_chars ''MYUNIXLIKEOS''" "plain_chars ''dev-null''" "plain_chars ''1.0.0''" "plain_chars ''#1 SMP''" "plain_chars ''i386''"
    by code_simp+
  have e: "do { w \<leftarrow> uname_items [(a, ''MYUNIXLIKEOS''), (b, ''dev-null''), (c, ''1.0.0''), (d, ''#1 SMP''), (e, ''i386'')] True w; finish 0 (w_write (clit [CHR 0x0A]) w) }
    = finish 0 (w_write (clit (spaced (map snd (filter fst [(a, ''MYUNIXLIKEOS''), (b, ''dev-null''), (c, ''1.0.0''), (d, ''#1 SMP''), (e, ''i386'')])) @ [CHR 0x0A])) w)"
    for a b c d e unfolding finish_bind [symmetric] by (subst uname_items_spaced) (simp_all add: pl)
  show ?thesis unfolding cmd_uname_def uname_parse_eq [OF assms] Option.bind.simps Let_def e uname_text_def flags_after_def
    by (rule arg_cong [where f = "\<lambda>t. finish 0 (w_write (clit (spaced (map snd (filter fst t)) @ [CHR 0x0A])) w)"]) auto
qed


section \<open>The report of \<open>sysinfo\<close>\<close>

text \<open>The bytes that the system call stores are those of \<open>filled_sysinfo\<close>, with a gap of two after \<open>procs\<close>.\<close>

lemma sysinfo_stored:
  assumes "info \<noteq> 0"
  shows "sys_sysinfo info k =
    (let s = filled_sysinfo (pg_pmm (pr_paging (k_proc k)))
     in do { p \<leftarrow> proc_write info (concat (map bytes32 [si_uptime s, si_totalram s, si_freeram s, si_sharedram s, si_bufferram s, si_totalswap s, si_freeswap s])
                  @ bytes16 (si_procs s)) (k_proc k);
             p \<leftarrow> proc_write (info + 32) (concat (map bytes32 [si_totalhigh s, si_freehigh s, si_mem_unit s])) p;
             Some (0, k\<lparr>k_proc := p\<rparr>) })"
  using assms by (simp add: sys_sysinfo_def filled_sysinfo_def Let_def)

definition sysinfo_text :: "sysinfo_struct \<Rightarrow> byte list" where
  "sysinfo_text s =
     (let line = (\<lambda>p n q. lit p @ sprintf_u n @ lit q)
      in lit (concat (logo @ [[CHR 0x0A]])) @ lit ''root@dev_null\<newline>''
         @ lit (concat [''---------------------------------\<newline>'', ''OS: MYUNIXLIKEOS v1.0\<newline>'', ''Kernel: Custom x86 Kernel\<newline>'', ''Architecture: i386\<newline>''])
         @ (lit ''Uptime: '' @ sprintf_u (si_uptime s) @ lit '' seconds ('' @ sprintf_u (si_uptime s div 60) @ lit '' minutes)\<newline>'')
         @ line ''Processes: '' (ucast (si_procs s)) ''\<newline>'' @ lit ''\<newline>Memory:\<newline>''
         @ line ''  Total: '' (si_totalram s div 1024) '' KB\<newline>'' @ line ''  Free: '' (si_freeram s div 1024) '' KB\<newline>''
         @ line ''  Used: '' ((si_totalram s - si_freeram s) div 1024) '' KB\<newline>'' @ line ''  Unit: '' (si_mem_unit s) '' bytes\<newline>''
         @ (if si_totalram s > 0 then line ''  Usage: '' (used_percent (si_totalram s) (si_freeram s)) ''%\<newline>'' else [])
         @ lit (concat [''\<newline>System:\<newline>'', ''  Shell: Custom Shell (sh)\<newline>'', ''  Terminal: VGA Text Mode (80x25)\<newline>'',
             ''  CPU: i386 Compatible\<newline>'', ''  Graphics: VGA Text Mode\<newline>'', [CHR 0x0A]]))"

lemma sysinfo_plain:
  "list_all plain_text (logo @ [[CHR 0x0A]])"
  "list_all plain_text [''---------------------------------\<newline>'', ''OS: MYUNIXLIKEOS v1.0\<newline>'', ''Kernel: Custom x86 Kernel\<newline>'', ''Architecture: i386\<newline>'']"
  "plain_text ''\<newline>Memory:\<newline>''"
  "list_all plain_text [''\<newline>System:\<newline>'', ''  Shell: Custom Shell (sh)\<newline>'', ''  Terminal: VGA Text Mode (80x25)\<newline>'',
             ''  CPU: i386 Compatible\<newline>'', ''  Graphics: VGA Text Mode\<newline>'', [CHR 0x0A]]"
  by code_simp+

lemma sysinfo_chars:
  "plain_chars ''Processes: ''" "plain_chars ''  Total: ''" "plain_chars ''  Free: ''" "plain_chars ''  Used: ''" "plain_chars ''  Unit: ''"
  "plain_chars ''  Usage: ''" "plain_chars ''Uptime: ''" "plain_chars '' seconds (''" "plain_chars '' minutes)\<newline>''" "plain_chars ''@''"
  by code_simp+

lemma sysinfo_lines:
  "shows_text (w_printf ''Processes: %u\<newline>'' [Word x]) (lit ''Processes: '' @ sprintf_u x @ lit ''\<newline>'')"
  "shows_text (w_printf ''  Total: %u KB\<newline>'' [Word x]) (lit ''  Total: '' @ sprintf_u x @ lit '' KB\<newline>'')"
  "shows_text (w_printf ''  Free: %u KB\<newline>'' [Word x]) (lit ''  Free: '' @ sprintf_u x @ lit '' KB\<newline>'')"
  "shows_text (w_printf ''  Used: %u KB\<newline>'' [Word x]) (lit ''  Used: '' @ sprintf_u x @ lit '' KB\<newline>'')"
  "shows_text (w_printf ''  Unit: %u bytes\<newline>'' [Word x]) (lit ''  Unit: '' @ sprintf_u x @ lit '' bytes\<newline>'')"
  by (rule shows_unsigned; simp add: memory_texts sysinfo_chars)+

lemma sysinfo_formats:
  "shows_text (w_printf ''%s@%s\<newline>'' [Str (clit ''root''), Str (clit ''dev_null'')]) (lit ''root@dev_null\<newline>'')"
  "shows_text (w_printf ''Uptime: %u seconds (%u minutes)\<newline>'' [Word x, Word y])
     (lit ''Uptime: '' @ sprintf_u x @ lit '' seconds ('' @ sprintf_u y @ lit '' minutes)\<newline>'')"
  "shows_text (w_printf ''  Usage: %u%%\<newline>'' [Word x]) (lit ''  Usage: '' @ sprintf_u x @ lit ''%\<newline>'')"
  using shows_pieces [of "[Strg (clit ''root''), Txt ''@'', Strg (clit ''dev_null''), Txt ''\<newline>'']" "''%s@%s\<newline>''" _ "[]"]
    shows_pieces [of "[Txt ''Uptime: '', Unsigned x, Txt '' seconds ('', Unsigned y, Txt '' minutes)\<newline>'']" "''Uptime: %u seconds (%u minutes)\<newline>''" _ "[]"]
    shows_pieces [of "[Txt ''  Usage: '', Unsigned x, Percent, Txt ''\<newline>'']" "''  Usage: %u%%\<newline>''" _ "[]"]
    sprintf_u_length [of x] sprintf_u_length [of y]
  by (simp_all add: memory_texts sysinfo_chars lit_def clit_def)

lemma shows_if: "(b \<Longrightarrow> shows_text f t) \<Longrightarrow> shows_text (\<lambda>w. if b then f w else Some w) (if b then t else [])"
  using shows_nothing by (cases b) simp_all

lemma sysinfo_prints: "world_ok w \<Longrightarrow> \<exists>w'. cmd_sysinfo argv w = Some (0, w') \<and> prints w (sysinfo_text (filled_sysinfo (w_pmm w))) w'"
proof -
  assume w: "world_ok w"
  let ?s = "filled_sysinfo (w_pmm w)"
  have s: "si_totalswap ?s = 0" by (simp add: filled_sysinfo_def)
  note chain = shows_then [OF shows_all [OF sysinfo_plain(1)] shows_then [OF sysinfo_formats(1) shows_then [OF shows_all [OF sysinfo_plain(2)]
    shows_then [OF sysinfo_formats(2) shows_then [OF sysinfo_lines(1) shows_then [OF shows_plain [OF sysinfo_plain(3)] shows_then [OF sysinfo_lines(2)
    shows_then [OF sysinfo_lines(3) shows_then [OF sysinfo_lines(4) shows_then [OF sysinfo_lines(5)
    shows_then [OF shows_if [OF sysinfo_formats(3)] shows_all [OF sysinfo_plain(4)]]]]]]]]]]]]
  show ?thesis unfolding cmd_sysinfo_def sysinfo_call_def Let_def prod.case sysinfo_text_def print_swap_def s
    using finish_shows [OF chain w, of 0] unfolding finish_bind by simp
qed


section \<open>Properties\<close>

text \<open>
  \<open>free\<close>, \<open>top\<close>, \<open>vmstat\<close> and \<open>uptime\<close> print the same text whatever the state of the system is: their formats give the
  numbers a field width, which \<open>printf\<close> does not know, so each number comes out as a bare letter.
\<close>

theorem reports_without_numbers:
  assumes "world_ok w"
  shows "(\<exists>w'. cmd_free argv w = Some (0, w') \<and> prints w (lit free_text) w')
    \<and> (\<exists>w'. cmd_top argv w = Some (0, w') \<and> prints w (lit top_text) w')
    \<and> (\<exists>w'. cmd_vmstat argv w = Some (0, w') \<and> prints w (lit vmstat_text) w')
    \<and> (\<exists>w'. cmd_uptime argv w = Some (0, w') \<and> prints w (lit uptime_text) w')"
  using free_prints top_prints vmstat_prints uptime_prints assms by blast

theorem reports_without_numbers_witness:
  "\<exists>w'. cmd_free [clit ''free''] (demo_world []) = Some (0, w') \<and> prints (demo_world []) (lit free_text) w'"
  using reports_without_numbers [OF demo_world_ok] by blast

text \<open>
  \<open>memory\<close> prints the page counts of the allocator and the same amounts in KB, used and free adding up to the total;
  on a machine of less than 4 GB the number of KB is four times the number of pages.
\<close>

theorem memory_report:
  assumes "world_ok w"
  shows "(\<exists>w'. cmd_memory argv w = Some (0, w') \<and> prints w (memory_text (w_pmm w)) w')
    \<and> pmm_used_pages (w_pmm w) + pmm_free_pages (w_pmm w) = pmm_total_pages (w_pmm w)
    \<and> (unat n < 2 ^ 20 \<longrightarrow> unat (page_kb n) = 4 * unat n)"
proof -
  have "unat (page_kb n) = 4 * unat n" if "unat n < 2 ^ 20"
  proof -
    have "unat (n * PAGE_SIZE) = unat n * 4096" using that by (simp add: unat_word_ariths)
    then show ?thesis by (simp add: page_kb_def unat_div)
  qed
  then show ?thesis using memory_prints [OF assms, of argv] by (auto simp: pmm_used_pages_def pmm_free_pages_def pmm_total_pages_def)
qed

theorem memory_report_witness: "unat (page_kb 32768) = 131072 \<and> (\<exists>w'. cmd_memory [] (demo_world []) = Some (0, w'))"
  using memory_report [OF demo_world_ok, of "[]" "[]" 32768] by auto

text \<open>
  \<open>sysinfo\<close> prints the amounts of memory, and a usage that is the percentage of used memory only while a hundred times
  the used bytes fit into 32 bits, which is up to 40 MB; beyond that the product has wrapped around.
\<close>

theorem sysinfo_usage:
  assumes "world_ok w" "s = filled_sysinfo (w_pmm w)" "si_freeram s \<le> si_totalram s"
  shows "(\<exists>w'. cmd_sysinfo argv w = Some (0, w') \<and> prints w (sysinfo_text s) w')
    \<and> unat (used_percent (si_totalram s) (si_freeram s))
        = (unat (si_totalram s) - unat (si_freeram s)) * 100 mod 2 ^ 32 div unat (si_totalram s)"
proof -
  have "unat (si_totalram s - si_freeram s) = unat (si_totalram s) - unat (si_freeram s)" using assms(3) by (rule unat_sub)
  moreover have "unat (x * 100) = unat x * 100 mod 2 ^ 32" for x :: u32 by (simp add: unat_word_ariths)
  ultimately have "unat ((si_totalram s - si_freeram s) * 100) = (unat (si_totalram s) - unat (si_freeram s)) * 100 mod 2 ^ 32"
    by presburger
  then show ?thesis using sysinfo_prints [OF assms(1), of argv] assms(2) by (simp add: used_percent_def unat_div)
qed

text \<open>A machine of 128 MB, half of it in use: 18 percent.\<close>

definition half_used :: "byte list \<Rightarrow> world" where
  "half_used c = (demo_world c)\<lparr>w_heap := (w_heap (demo_world c))\<lparr>kh_paging := (kh_paging (w_heap (demo_world c)))
     \<lparr>pg_pmm := (w_pmm (demo_world c))\<lparr>pmm_total_memory_pages := 32768, pmm_available_pages := 16384\<rparr>\<rparr>\<rparr>\<rparr>"

theorem sysinfo_usage_witness:
  "(\<exists>w'. cmd_sysinfo [] (half_used []) = Some (0, w')) \<and> used_percent 134217728 67108864 = 18"
proof -
  have w: "world_ok (half_used [])" using demo_world_ok [of "[]"] by (simp add: half_used_def world_ok_def)
  have s: "si_totalram (filled_sysinfo (w_pmm (half_used []))) = 134217728" "si_freeram (filled_sysinfo (w_pmm (half_used []))) = 67108864"
    by (simp_all add: half_used_def filled_sysinfo_def pmm_total_pages_def pmm_free_pages_def)
  have "unat (used_percent 134217728 67108864) = 18"
    using sysinfo_usage [OF w refl, of "[]"] unfolding s by simp
  then have "used_percent 134217728 67108864 = 18" by (simp add: word_unat_eq_iff)
  then show ?thesis using sysinfo_usage [OF w refl, of "[]"] unfolding s by auto
qed

text \<open>
  \<open>date\<close> reads the clock and prints the name of the weekday and of the month and, in the place of the year, the day of
  the month; the day, the time and the year are not shown.
\<close>

theorem date_shows_day:
  assumes "world_ok w" "clock_realtime hw 0 = Some t" "localtime_r (Some t) True = Some (Some b)"
  shows "\<exists>w'. cmd_date hw argv w = Some (0, w') \<and> prints w (date_text b) w'"
  using date_prints [OF assms] .

theorem date_shows_day_witness:
  "\<exists>w'. cmd_date sample_chip [clit ''date''] (demo_world []) = Some (0, w')"
proof -
  have "settles sample_chip 5 (sample_chip 5)" by (auto simp: settles_def fun_eq_iff sample_chip_def)
  then obtain t where t: "clock_realtime sample_chip 0 = Some t" using rtc_get_time_returns [of sample_chip 5 _ 0] by blast
  obtain b where "localtime_r (Some t) True = Some (Some b)" using localtime_result by blast
  from date_shows_day [OF demo_world_ok t this] show ?thesis by blast
qed

text \<open>
  C40: \<open>uname\<close> writes the parts of the system name its options ask for, in the fixed order and separated by single spaces,
  the system name alone without a known option, whatever the order and the number of the options are.
\<close>

theorem uname_words:
  assumes "list_all terminated (tl argv)"
  shows "cmd_uname argv w = finish 0 (w_write (clit (uname_text (tl argv))) w)"
  using uname_eq [OF assms] .

theorem uname_words_witness:
  "cmd_uname [clit ''uname'', clit ''-m'', clit ''-s''] (demo_world []) = finish 0 (w_write (clit ''MYUNIXLIKEOS i386\<newline>'') (demo_world []))"
proof -
  have "uname_text (tl [clit ''uname'', clit ''-m'', clit ''-s'']) = ''MYUNIXLIKEOS i386\<newline>''"
    "list_all terminated (tl [clit ''uname'', clit ''-m'', clit ''-s''])" by code_simp+
  then show ?thesis using uname_words [of "[clit ''uname'', clit ''-m'', clit ''-s'']" "demo_world []"] by simp
qed

end
