(* ===== verification/Help.thy ===== *)
theory Help
  imports SysInfo
begin

text \<open>
  The commands \<open>help\<close> and \<open>man\<close> of \<^verbatim>\<open>src/bin/sh/help/help.c\<close> and \<^verbatim>\<open>src/bin/man/man.c\<close>, which print constant pages chosen by a chain
  of comparisons, and the commands \<^verbatim>\<open>shutdown.c\<close> and \<^verbatim>\<open>reboot.c\<close>, which stop the machine. The pages are tables in
  the order of the comparisons. The status port of the keyboard controller is a stream of bytes.
\<close>

section \<open>Pages\<close>

text \<open>The chain of comparisons; the inner \<open>None\<close> is the last \<open>else\<close>.\<close>

fun find_page :: "(string \<times> string list) list \<Rightarrow> byte list \<Rightarrow> string list option option" where
  "find_page [] cmd = Some None"
| "find_page ((name, page) # ps) cmd =
     do { r \<leftarrow> strcmp cmd (clit name); if r = 0 then Some (Some page) else find_page ps cmd }"

definition help_overview :: "string list" where
  "help_overview =
     [''Available commands:\<newline>'',
      ''FILE: cat, cd, clear, cp, grep, head, ls, mkdir, mv, nano, rm, sort, tail, touch, uniq, wc\<newline>'',
      ''UTIL: alias, calc, date, dmesg, echo, man, password, pwd, color, memory, free, top, vmstat, uptime, which, whoami\<newline>'',
      ''DEV: gcc\<newline>'',
      ''GAMES: snake, vi\<newline>'',
      ''SYSTEM: help, shutdown, reboot, sysinfo\<newline>'',
      ''Usage: help [command]\<newline>'']"

definition help_pages :: \<open>(string \<times> string list) list\<close> where
  \<open>help_pages =
     [(''ls'',
        [''ls [-a]: List files. -a shows . and ..\<newline>'']),
      (''cd'',
        [''cd [dir]: Change directory.\<newline>'']),
      (''cat'',
        [''cat [file]: Read file content.\<newline>'']),
      (''pwd'',
        [''pwd: Print working directory.\<newline>'']),
      (''date'',
        [''date: Display current date and time.\<newline>'']),
      (''cp'',
        [''cp [source] [dest]: Copy file from source to destination.\<newline>'']),
      (''mv'',
        [''mv [source] [dest]: Move/rename file.\<newline>'']),
      (''rm'',
        [''rm [file]: Remove (delete) a file.\<newline>'']),
      (''nano'',
        [''nano [file]: Edit file with enhanced nano editor.\<newline>'',
         ''  Ctrl+O Save  Ctrl+X Exit  Ctrl+G Help\<newline>'',
         ''  Ctrl+A Home  Ctrl+E End   Ctrl+W Search\<newline>'',
         ''  Ctrl+P Up    Ctrl+N Down  Ctrl+L GoToLine\<newline>'']),
      (''fs'',
        [''fs [type]: Supports ntfs, exfat, fat32, ext4, apfs.\<newline>'']),
      (''echo'',
        [''echo [text]: Print text to terminal.\<newline>'']),
      (''color'',
        [''color <foreground> [background]: Change text foreground and optional background.\<newline>'',
         ''Colors are names or 0xN, and 0xNN can set both at once.\<newline>'',
         ''Supported names: black, blue, green, cyan, red, magenta, brown, lightgray, darkgray, lightblue, lightgreen, lightcyan, lightred, lightmagenta, yellow, white.\<newline>'']),
      (''memory'',
        [''memory: Show OS memory usage for physical page allocation.\<newline>'',
         ''Usage: memory\<newline>'']),
      (''free'',
        [''free: Display amount of free and used memory in the system.\<newline>'',
         ''Usage: free\<newline>'']),
      (''top'',
        [''top: Display Linux-like tasks and memory usage.\<newline>'',
         ''Usage: top\<newline>'']),
      (''vmstat'',
        [''vmstat: Report virtual memory statistics.\<newline>'',
         ''Usage: vmstat\<newline>'']),
      (''snake'',
        [''snake: Start a simple snake game using W,A,S,D to move.\<newline>'',
         ''Use: snake          # start game\<newline>'',
         ''     snake color <snake|food|border|board|text> <color>\<newline>'',
         ''     snake reset     # restore default game colors\<newline>'']),
      (''grep'',
        [''grep [pattern] [file]: Search in file.\<newline>'']),
      (''mkdir'',
        [''mkdir [name]: Create directory.\<newline>'']),
      (''touch'',
        [''touch [file]: Create empty file.\<newline>'']),
      (''shutdown'',
        [''shutdown: Shut down the system gracefully.\<newline>'']),
      (''reboot'',
        [''reboot: Reboot the system.\<newline>'']),
      (''calc'',
        [''calc [expression]: Simple calculator supporting +, -, *, /, ()\<newline>'',
         ''Examples:\<newline>'',
         ''  calc "2+3"\<newline>'',
         ''  calc "10-5"\<newline>'',
         ''  calc "3*4"\<newline>'',
         ''  calc "20/4"\<newline>'',
         ''  calc "(2+3)*4"\<newline>'']),
      (''man'',
        [''man [command]: Display manual pages for commands.\<newline>'',
         ''Usage: man ls, man cat, man wc, etc.\<newline>'']),
      (''wc'',
        [''wc [-lwc] [file]: Count lines, words, and characters.\<newline>'',
         ''  -l    Count lines only\<newline>'',
         ''  -w    Count words only\<newline>'',
         ''  -c    Count characters only\<newline>'']),
      (''head'',
        [''head [-n NUM] [file]: Display first NUM lines (default 10).\<newline>'',
         ''Usage: head -n 5 file.txt\<newline>'']),
      (''tail'',
        [''tail [-n NUM] [file]: Display last NUM lines (default 10).\<newline>'',
         ''Usage: tail -n 5 file.txt\<newline>'']),
      (''sort'',
        [''sort [file]: Sort file lines alphabetically.\<newline>'',
         ''Usage: sort file.txt\<newline>'']),
      (''uniq'',
        [''uniq [file]: Remove consecutive duplicate lines.\<newline>'',
         ''Usage: uniq file.txt\<newline>'']),
      (''whoami'',
        [''whoami: Display current user name.\<newline>'']),
      (''password'',
        [''password: Set or change system password.\<newline>'',
         ''Usage: password\<newline>'',
         ''Note: If password is set, you'll be prompted for old password first.\<newline>'']),
      (''ls'',
        [''ls [-al] [dir]: List directory contents.\<newline>'',
         ''  -a    Show hidden files (starting with .)\<newline>'',
         ''  -l    Long format with sizes and types\<newline>'']),
      (''help'',
        [''help [cmd]: Detailed info on commands.\<newline>'']),
      (''sysinfo'',
        [''sysinfo: Display system information in a colorful, neofetch-like format.\<newline>'',
         ''Shows OS details, memory usage, uptime, and system specs.\<newline>'']),
      (''alias'',
        [''alias [name[=value]] | [-d name]: Create command shortcuts.\<newline>'',
         ''Usage:\<newline>'',
         ''  alias              # list all aliases\<newline>'',
         ''  alias ll='ls -l'   # create alias\<newline>'',
         ''  alias -d ll        # delete alias\<newline>'',
         ''Examples:\<newline>'',
         ''  alias ll='ls -l'\<newline>'',
         ''  alias la='ls -a'\<newline>'',
         ''  alias ..='cd ..'\<newline>'']),
      (''uptime'',
        [''uptime: Show how long the system has been running.\<newline>'',
         ''Displays uptime in HH:MM:SS format with days if applicable.\<newline>'']),
      (''dmesg'',
        [''dmesg: Print kernel boot/debug messages stored in a buffer.\<newline>'',
         ''Shows kernel initialization messages and system events.\<newline>'']),
      (''which'',
        [''which <command>: Locate a command in the VFS.\<newline>'',
         ''Shows the full path to the specified command if found.\<newline>'',
         ''Usage: which ls, which gcc, etc.\<newline>'']),
      (''clear'',
        [''clear: Clear the terminal screen.\<newline>'',
         ''Usage: clear\<newline>'']),
      (''uname'',
        [''uname [flags]: Display system information.\<newline>'',
         ''Flags:\<newline>'',
         ''  -a, --all       Display all information\<newline>'',
         ''  -s, --sysname   Display system name (default)\<newline>'',
         ''  -n, --nodename  Display hostname\<newline>'',
         ''  -r, --release   Display release version\<newline>'',
         ''  -v, --version   Display version info\<newline>'',
         ''  -m, --machine   Display machine type\<newline>'',
         ''Examples:\<newline>'',
         ''  uname            # displays system name\<newline>'',
         ''  uname -a         # displays all info\<newline>'']),
      (''exec'',
        [''exec <program> [args]: Execute a program directly (replaces shell).\<newline>'',
         ''Usage: exec /path/to/program arg1 arg2\<newline>'',
         ''Note: This will execute the program and return to shell if it exits.\<newline>''])]\<close>

definition cmd_help :: "'a command" where
  "cmd_help argv w =
     (if length argv < 2 then finish 0 (write_all help_overview w)
      else do {
        cmd \<leftarrow> array_get argv 1;
        page \<leftarrow> find_page help_pages cmd;
        finish 0 (case page of Some ls \<Rightarrow> printf_all ls w | None \<Rightarrow> w_printf ''Unknown command.\<newline>'' [] w) })"

definition man_pages :: \<open>(string \<times> string list) list\<close> where
  \<open>man_pages =
     [(''ls'',
        [''LS(1)\<newline>\<newline>'',
         ''NAME\<newline>'',
         ''  ls - list directory contents\<newline>\<newline>'',
         ''SYNOPSIS\<newline>'',
         ''  ls [-al]\<newline>\<newline>'',
         ''DESCRIPTION\<newline>'',
         ''  List files and directories in current directory.\<newline>'',
         ''  -a    Show hidden files (starting with .)\<newline>'',
         ''  -l    Long format with file sizes and types\<newline>'']),
      (''cat'',
        [''CAT(1)\<newline>\<newline>'',
         ''NAME\<newline>'',
         ''  cat - concatenate and display files\<newline>\<newline>'',
         ''SYNOPSIS\<newline>'',
         ''  cat <file>\<newline>\<newline>'',
         ''DESCRIPTION\<newline>'',
         ''  Display contents of a file.\<newline>'']),
      (''wc'',
        [''WC(1)\<newline>\<newline>'',
         ''NAME\<newline>'',
         ''  wc - count lines, words, and characters\<newline>\<newline>'',
         ''SYNOPSIS\<newline>'',
         ''  wc [-lwc] <file>\<newline>\<newline>'',
         ''DESCRIPTION\<newline>'',
         ''  Count lines, words, or characters in a file.\<newline>'',
         ''  -l    Count lines only\<newline>'',
         ''  -w    Count words only\<newline>'',
         ''  -c    Count characters only\<newline>'']),
      (''head'',
        [''HEAD(1)\<newline>\<newline>'',
         ''NAME\<newline>'',
         ''  head - display first lines of a file\<newline>\<newline>'',
         ''SYNOPSIS\<newline>'',
         ''  head [-n NUM] <file>\<newline>\<newline>'',
         ''DESCRIPTION\<newline>'',
         ''  Display the first NUM lines of a file (default 10).\<newline>'']),
      (''tail'',
        [''TAIL(1)\<newline>\<newline>'',
         ''NAME\<newline>'',
         ''  tail - display last lines of a file\<newline>\<newline>'',
         ''SYNOPSIS\<newline>'',
         ''  tail [-n NUM] <file>\<newline>\<newline>'',
         ''DESCRIPTION\<newline>'',
         ''  Display the last NUM lines of a file (default 10).\<newline>'']),
      (''sort'',
        [''SORT(1)\<newline>\<newline>'',
         ''NAME\<newline>'',
         ''  sort - sort lines of a file\<newline>\<newline>'',
         ''SYNOPSIS\<newline>'',
         ''  sort <file>\<newline>\<newline>'',
         ''DESCRIPTION\<newline>'',
         ''  Sort lines of a file alphabetically.\<newline>'']),
      (''uniq'',
        [''UNIQ(1)\<newline>\<newline>'',
         ''NAME\<newline>'',
         ''  uniq - remove duplicate lines\<newline>\<newline>'',
         ''SYNOPSIS\<newline>'',
         ''  uniq <file>\<newline>\<newline>'',
         ''DESCRIPTION\<newline>'',
         ''  Remove consecutive duplicate lines from a file.\<newline>'']),
      (''whoami'',
        [''WHOAMI(1)\<newline>\<newline>'',
         ''NAME\<newline>'',
         ''  whoami - display current user\<newline>\<newline>'',
         ''SYNOPSIS\<newline>'',
         ''  whoami\<newline>\<newline>'',
         ''DESCRIPTION\<newline>'',
         ''  Display the login name of the current user.\<newline>''])]\<close>

definition man_usage :: "string list" where
  "man_usage = [''man: Show manual pages for commands\<newline>'',
      ''Usage: man <command>\<newline>'']"

definition cmd_man :: "'a command" where
  "cmd_man argv w =
     (if length argv < 2 then finish 0 (write_all man_usage w)
      else do {
        cmd \<leftarrow> array_get argv 1;
        page \<leftarrow> find_page man_pages cmd;
        case page of
          Some ls \<Rightarrow> finish 0 (printf_all ls w)
        | None \<Rightarrow> finish 1 (w_printf ''man: No manual entry for '%s'\<newline>'' [Str cmd] w) })"

section \<open>Stopping the machine\<close>

text \<open>The processor after the last instruction: halted with interrupts off, or reset.\<close>

datatype 'w power = Cpu_halted 'w | Cpu_reset 'w

definition cmd_shutdown :: "byte list list \<Rightarrow> 'a world_scheme \<Rightarrow> 'a world_scheme power option" where
  "cmd_shutdown argv w =
     do { w \<leftarrow> w_printf ''Shutting down system...\<newline>'' [] w;
          w \<leftarrow> w_write (clit ''Goodbye!\<newline>'') w;
          Some (Cpu_halted w) }"

text \<open>The handler of a damaged stack guard.\<close>

definition stack_chk_fail :: "'a world_scheme \<Rightarrow> 'a world_scheme power option" where
  "stack_chk_fail w =
     do { w \<leftarrow> w_printf ''\<newline>*** STACK BUFFER OVERFLOW DETECTED ***\<newline>'' [] w;
          w \<leftarrow> w_printf ''System halting for security.\<newline>'' [] w;
          Some (Cpu_halted w) }"

text \<open>The loop that waits for an empty input buffer; \<open>status n\<close> is the \<open>n\<close>-th byte read from port \<open>0x64\<close>.\<close>

partial_function (option) wait_controller :: "(nat \<Rightarrow> byte) \<Rightarrow> nat \<Rightarrow> nat option" where
  "wait_controller status n = (if status n AND 0x02 \<noteq> 0 then wait_controller status (n + 1) else Some n)"

definition cmd_reboot :: "(nat \<Rightarrow> byte) \<Rightarrow> byte list list \<Rightarrow> 'a world_scheme \<Rightarrow> 'a world_scheme power option" where
  "cmd_reboot status argv w =
     do { w \<leftarrow> w_printf ''Rebooting system...\<newline>'' [] w;
          n \<leftarrow> wait_controller status 0;
          w \<leftarrow> on_screen (\<lambda>t. Some (outb 0x64 0xFE t)) w;
          Some (Cpu_reset w) }"

section \<open>What is shown\<close>

lemma find_page_eq:
  assumes "terminated cmd" "list_all (\<lambda>(n, _). plain_chars n) ps"
  shows "find_page ps cmd = Some (map_of (map (\<lambda>(n, p). (lit n, p)) ps) (cstr cmd))"
  using assms(2)
proof (induction ps)
  case (Cons q ps)
  obtain n p where q: "q = (n, p)" by fastforce
  have "0 \<notin> set (lit n)" using Cons.prems q by (auto simp: plain_chars_def lit_def list_all_iff)
  then have c: "cstr (clit n) = lit n" by (simp add: clit_def cstr_append_terminated)
  have "terminated (clit n)" by (simp add: clit_def)
  then obtain r where "strcmp cmd (clit n) = Some r" "r = 0 \<longleftrightarrow> cstr cmd = lit n" using strcmp_less_iff [OF assms(1)] c by metis
  then show ?case using Cons q by auto
qed simp

definition pages_plain :: "(string \<times> string list) list \<Rightarrow> bool" where
  "pages_plain ps \<longleftrightarrow> list_all (\<lambda>(n, ls). plain_chars n \<and> list_all plain_text ls) ps"

text \<open>The same test on characters instead of bytes.\<close>

definition easy_chars :: "string \<Rightarrow> bool" where
  "easy_chars s \<longleftrightarrow> list_all (\<lambda>c. c \<noteq> CHR 0x00 \<and> c \<noteq> CHR ''%'') s"

lemma byte_of_char: "(of_char c :: byte) = of_char d \<longleftrightarrow> c = d"
proof
  assume "(of_char c :: byte) = of_char d"
  then have "unat (of_nat (of_char c) :: byte) = unat (of_nat (of_char d) :: byte)" by (simp only: of_nat_of_char)
  then have "(of_char c :: nat) mod 256 = of_char d mod 256" by (simp only: unat_of_nat) simp
  then show "c = d" by simp
qed simp

lemma easy_plain: "easy_chars s \<longleftrightarrow> plain_chars s"
  using byte_of_char [of _ "CHR 0x00"] byte_of_char [of _ "CHR ''%''"] by (simp add: easy_chars_def plain_chars_def list_all_iff)

lemma pages_easy: "list_all (\<lambda>(n, ls). easy_chars n \<and> list_all (\<lambda>l. easy_chars l \<and> length l \<le> 2048) ls) ps \<Longrightarrow> pages_plain ps"
  by (auto simp: pages_plain_def list_all_iff easy_plain plain_text_def plain_chars_def)

lemma pages_plain: "pages_plain help_pages" "pages_plain man_pages"
  by (rule pages_easy, code_simp)+

lemma page_shows:
  assumes "pages_plain ps" "terminated cmd" "find_page ps cmd = Some (Some ls)"
  shows "shows_text (printf_all ls) (lit (concat ls))"
proof (rule shows_all)
  have "list_all (\<lambda>(n, _). plain_chars n) ps" using assms(1) by (auto simp: pages_plain_def list_all_iff)
  then have "map_of (map (\<lambda>(n, p). (lit n, p)) ps) (cstr cmd) = Some ls" using assms(3) find_page_eq [OF assms(2)] by simp
  then obtain n where "(n, ls) \<in> set ps" by (auto dest!: map_of_SomeD)
  then show "list_all plain_text ls" using assms(1) by (auto simp: pages_plain_def list_all_iff)
qed

text \<open>The page that a command name stands for in a table: that of the first entry of the name.\<close>

definition page_of :: "(string \<times> string list) list \<Rightarrow> byte list \<Rightarrow> string list option" where
  "page_of ps s = map_of (map (\<lambda>(n, p). (lit n, p)) ps) s"

lemma find_page_of: "pages_plain ps \<Longrightarrow> terminated cmd \<Longrightarrow> find_page ps cmd = Some (page_of ps (cstr cmd))"
  using find_page_eq [of cmd ps] by (auto simp: pages_plain_def page_of_def list_all_iff)

text \<open>
  \<open>help c\<close> prints the page of \<open>c\<close>, or that the command is unknown, and returns 0.
\<close>

theorem help_shows:
  assumes "world_ok w" "terminated c"
  shows "\<exists>w'. cmd_help [a, c] w = Some (0, w')
    \<and> prints w (lit (case page_of help_pages (cstr c) of Some ls \<Rightarrow> concat ls | None \<Rightarrow> ''Unknown command.\<newline>'')) w'"
proof (cases "page_of help_pages (cstr c)")
  case None
  have "plain_text ''Unknown command.\<newline>''" by code_simp
  then show ?thesis using finish_shows [OF shows_plain assms(1), of "''Unknown command.\<newline>''" 0 "[]"] find_page_of [OF pages_plain(1) assms(2)] None
    by (simp add: cmd_help_def array_get_def)
next
  case (Some ls)
  then have f: "find_page help_pages c = Some (Some ls)" using find_page_of [OF pages_plain(1) assms(2)] by simp
  show ?thesis using finish_shows [OF page_shows [OF pages_plain(1) assms(2) f] assms(1), of 0] f Some
    by (simp add: cmd_help_def array_get_def)
qed

text \<open>The second page of \<open>ls\<close>, with the option \<open>-l\<close>, is never shown.\<close>

theorem help_ls_shadowed: "page_of help_pages (lit ''ls'') = Some [''ls [-a]: List files. -a shows . and ..\<newline>'']"
  by code_simp

text \<open>
  \<open>man c\<close> prints the page of \<open>c\<close> and returns 0, or reports that there is none and returns 1.
\<close>

theorem man_shows:
  assumes "world_ok w" "terminated c" "length (cstr c) \<le> 1000"
  shows "\<exists>w'. cmd_man [a, c] w = Some (if page_of man_pages (cstr c) = None then 1 else 0, w')
    \<and> prints w (case page_of man_pages (cstr c) of Some ls \<Rightarrow> lit (concat ls)
        | None \<Rightarrow> lit (''man: No manual entry for '' @ [CHR 0x27]) @ cstr c @ lit [CHR 0x27, CHR 0x0A]) w'"
proof (cases "page_of man_pages (cstr c)")
  case None
  have pl: "plain_chars (''man: No manual entry for '' @ [CHR 0x27])" "plain_chars [CHR 0x27, CHR 0x0A]" by code_simp+
  have "shows_text (w_printf ''man: No manual entry for '%s'\<newline>'' [Str c])
      (lit (''man: No manual entry for '' @ [CHR 0x27]) @ cstr c @ lit [CHR 0x27, CHR 0x0A])"
    by (rule shows_string [OF pl assms(2)]) (use assms(3) in simp_all)
  from finish_shows [OF this assms(1), of 1] show ?thesis using find_page_of [OF pages_plain(2) assms(2)] None
    by (simp add: cmd_man_def array_get_def)
next
  case (Some ls)
  then have f: "find_page man_pages c = Some (Some ls)" using find_page_of [OF pages_plain(2) assms(2)] by simp
  show ?thesis using finish_shows [OF page_shows [OF pages_plain(2) assms(2) f] assms(1), of 0] f Some
    by (simp add: cmd_man_def array_get_def)
qed

section \<open>Reset\<close>

lemma wait_controller_returns:
  "status (n + k) AND 0x02 = 0 \<Longrightarrow> \<exists>m. wait_controller status n = Some m"
proof (induction k arbitrary: n)
  case 0
  then show ?case by (subst wait_controller.simps) simp
next
  case (Suc k)
  then show ?case by (subst wait_controller.simps) (use Suc.IH [of "n + 1"] Suc.prems in simp)
qed

lemma wait_controller_ready:
  assumes "wait_controller status n = Some m"
  shows "status m AND 0x02 = 0"
  by (rule wait_controller.raw_induct [where P = "\<lambda>status n m. status m AND 0x02 = 0", OF _ assms]) (auto split: if_splits)

text \<open>
  \<open>reboot\<close> resets the machine exactly when the keyboard controller is ready at some time, and its last port write is then
  the reset command; on a controller that stays busy it waits forever.
\<close>

theorem reboot_resets:
  assumes "world_ok w"
  shows "(\<exists>n. status n AND 0x02 = 0) \<longleftrightarrow> cmd_reboot status argv w \<noteq> None"
    and "cmd_reboot status argv w = Some p \<Longrightarrow> \<exists>w'. p = Cpu_reset w' \<and> last (term_ports (screen w')) = (0x64, 0xFE)"
proof -
  have "plain_text ''Rebooting system...\<newline>''" by code_simp
  then obtain w1 where w1: "w_printf ''Rebooting system...\<newline>'' [] w = Some w1" using shows_textD [OF shows_plain assms] by blast
  have e: "cmd_reboot status argv w = map_option (\<lambda>_. Cpu_reset (w1\<lparr>w_kbd := (w_kbd w1)\<lparr>kb_term := outb 0x64 0xFE (screen w1)\<rparr>\<rparr>)) (wait_controller status 0)"
    using w1 by (cases "wait_controller status 0") (simp_all add: cmd_reboot_def on_screen_def echo_def)
  show "(\<exists>n. status n AND 0x02 = 0) \<longleftrightarrow> cmd_reboot status argv w \<noteq> None"
    using wait_controller_returns [of status 0] wait_controller_ready [of status 0] e by auto
  show "\<exists>w'. p = Cpu_reset w' \<and> last (term_ports (screen w')) = (0x64, 0xFE)" if "cmd_reboot status argv w = Some p"
    using that e by (auto simp: outb_def)
qed

end
