(* ===== verification/Userprogs.thy ===== *)
theory Userprogs
  imports Messages
begin

text \<open>
  The user programs of the repository: \<^verbatim>\<open>src/bin/hello/hello.c\<close>, \<^verbatim>\<open>echo_user.c\<close>, \<^verbatim>\<open>simple.c\<close> and the stress test
  \<^verbatim>\<open>stability_test.c\<close> of \<^verbatim>\<open>src/bin/userprogs\<close>. They reach the kernel through the wrappers of the C library. Objects whose address the
  program passes on lie in the memory of the process at addresses given by a record, the string constants
  included; other local variables are values. \<open>printf\<close> leaves its buffer empty, so each call starts with the empty
  stream. An access to memory that is not mapped is \<open>None\<close>.
\<close>

section \<open>Output of a program\<close>

definition u_printf :: "string \<Rightarrow> va list \<Rightarrow> kernel \<Rightarrow> kernel option" where
  "u_printf format args k =
     do { (_, fp) \<leftarrow> printf no_float (clit format) args stdout_stream;
          t \<leftarrow> console_write (concat (map snd (f_writes fp))) (k_term k);
          Some (k\<lparr>k_term := t\<rparr>) }"

section \<open>Small programs\<close>

text \<open>The loop of \<open>hello\<close> over its arguments.\<close>

fun print_args :: "byte list list \<Rightarrow> kernel \<Rightarrow> kernel option" where
  "print_args [] k = Some k"
| "print_args (a # as) k = do { k \<leftarrow> u_printf ''%s '' [Str a] k; print_args as k }"

definition hello_main :: "byte list list \<Rightarrow> kernel \<Rightarrow> (int \<times> kernel) option" where
  "hello_main argv k =
     do { k \<leftarrow> print_args argv k; k \<leftarrow> u_printf ''\<newline>Hello, World!\<newline>'' [] k; Some (0, k) }"

fun echo_args :: "byte list list \<Rightarrow> kernel \<Rightarrow> kernel option" where
  "echo_args [] k = Some k"
| "echo_args (a # as) k =
     do { k \<leftarrow> u_printf ''%s'' [Str a] k;
          k \<leftarrow> (if as \<noteq> [] then u_printf '' '' [] k else Some k);
          echo_args as k }"

definition echo_main :: "byte list list \<Rightarrow> kernel \<Rightarrow> (int \<times> kernel) option" where
  "echo_main argv k =
     (if length argv < 2 then do { k \<leftarrow> u_printf [CHR 0x0A] [] k; Some (0, k) }
      else do { k \<leftarrow> echo_args (tl argv) k; k \<leftarrow> u_printf [CHR 0x0A] [] k; Some (0, k) })"

definition simple_add :: "int \<Rightarrow> int \<Rightarrow> int option" where
  "simple_add a b = in_range (a + b)"

definition simple_main :: "kernel \<Rightarrow> (int \<times> kernel) option" where
  "simple_main k =
     do { k \<leftarrow> u_printf ''Simple C program compiled inside MYUNIXLIKEOS!\<newline>'' [] k;
          s \<leftarrow> simple_add 2 3;
          k \<leftarrow> u_printf ''2 + 3 = %d\<newline>'' [Word (of_int s)] k;
          Some (0, k) }"

section \<open>Memory of the stress test\<close>

abbreviation O_APPEND :: u32 where "O_APPEND \<equiv> 0x400"
abbreviation O_RDONLY :: u32 where "O_RDONLY \<equiv> 0"
abbreviation O_WRONLY :: u32 where "O_WRONLY \<equiv> 1"
abbreviation O_RDWR :: u32 where "O_RDWR \<equiv> 2"

record test_env =
  te_hw :: cmos
  te_path :: addr
  te_buffer :: addr
  te_payload :: addr
  te_stat :: addr
  te_entries :: addr
  te_first :: addr
  te_second :: addr
  te_file_text :: addr
  te_append_path :: addr
  te_first_text :: addr
  te_second_text :: addr
  te_root_path :: addr

definition u_read :: "addr \<Rightarrow> nat \<Rightarrow> kernel \<Rightarrow> byte list option" where
  "u_read a n k = virt_read a n (pr_paging (k_proc k))"

definition u_write :: "addr \<Rightarrow> byte list \<Rightarrow> kernel \<Rightarrow> kernel option" where
  "u_write a bs k = map_option (\<lambda>p. k\<lparr>k_proc := p\<rparr>) (proc_write a bs (k_proc k))"

text \<open>\<open>sprintf\<close> and \<open>memset\<close> on an object of \<open>n\<close> bytes.\<close>

definition u_sprintf :: "addr \<Rightarrow> nat \<Rightarrow> string \<Rightarrow> va list \<Rightarrow> kernel \<Rightarrow> (int \<times> kernel) option" where
  "u_sprintf a n format args k =
     do { obj \<leftarrow> u_read a n k; (len, obj) \<leftarrow> sprintf obj (clit format) args; k \<leftarrow> u_write a obj k; Some (len, k) }"

definition u_memset :: "addr \<Rightarrow> nat \<Rightarrow> byte \<Rightarrow> kernel \<Rightarrow> kernel option" where
  "u_memset a n c k = do { obj \<leftarrow> u_read a n k; obj \<leftarrow> memset obj c n; u_write a obj k }"

definition u_strlen :: "addr \<Rightarrow> kernel \<Rightarrow> nat option" where
  "u_strlen a k = do { s \<leftarrow> virt_string (pr_paging (k_proc k)) a; strlen s }"

definition u_strcmp :: "addr \<Rightarrow> addr \<Rightarrow> kernel \<Rightarrow> int option" where
  "u_strcmp a b k =
     do { s \<leftarrow> virt_string (pr_paging (k_proc k)) a; t \<leftarrow> virt_string (pr_paging (k_proc k)) b; strcmp s t }"

definition u_report :: "string \<Rightarrow> va list \<Rightarrow> int \<Rightarrow> kernel \<Rightarrow> (int \<times> kernel) option" where
  "u_report msg args code k = do { k \<leftarrow> u_printf (''[stability-test] '' @ msg) args k; Some (code, k) }"

definition u_str :: "addr \<Rightarrow> kernel \<Rightarrow> va option" where
  "u_str a k = map_option Str (virt_string (pr_paging (k_proc k)) a)"

section \<open>The heap test\<close>

definition allocate_region :: "test_env \<Rightarrow> u32 \<Rightarrow> kernel \<Rightarrow> (addr \<times> kernel) option" where
  "allocate_region e sz k = do { (ptr, k) \<leftarrow> sbrk (te_hw e) sz k; Some (if ptr = -1 then 0 else ptr, k) }"

definition pattern_for_round :: "nat \<Rightarrow> u32 \<Rightarrow> byte" where
  "pattern_for_round round sz = ucast ((of_nat round * 131 + sz) AND 0xFF)"

fun fill_pattern :: "addr \<Rightarrow> nat \<Rightarrow> nat \<Rightarrow> byte \<Rightarrow> kernel \<Rightarrow> kernel option" where
  "fill_pattern buf i 0 value k = Some k"
| "fill_pattern buf i (Suc n) value k =
     do { k \<leftarrow> u_write (buf + of_nat i) [value XOR of_nat i] k; fill_pattern buf (Suc i) n value k }"

fun check_pattern :: "addr \<Rightarrow> nat \<Rightarrow> nat \<Rightarrow> byte \<Rightarrow> kernel \<Rightarrow> int option" where
  "check_pattern buf i 0 value k = Some 1"
| "check_pattern buf i (Suc n) value k =
     do { bs \<leftarrow> u_read (buf + of_nat i) 1 k;
          if bs \<noteq> [value XOR of_nat i] then Some 0 else check_pattern buf (Suc i) n value k }"

text \<open>The three arrays of the test, one entry for each tracked block.\<close>

type_synonym tracked = "(addr \<times> u32 \<times> byte) list"

text \<open>The loop over the tracked blocks: the index of the first damaged one.\<close>

fun check_tracked :: "nat \<Rightarrow> tracked \<Rightarrow> kernel \<Rightarrow> nat option option" where
  "check_tracked i [] k = Some None"
| "check_tracked i ((a, sz, seed) # bs) k =
     (if a = 0 then check_tracked (Suc i) bs k
      else do { r \<leftarrow> check_pattern a 0 (unat sz) seed k;
                if r = 0 then Some (Some i) else check_tracked (Suc i) bs k })"

text \<open>The two calls of \<open>brk\<close> of every sixteenth round.\<close>

definition shrink_restore :: "test_env \<Rightarrow> nat \<Rightarrow> kernel \<Rightarrow> (int \<times> kernel) option" where
  "shrink_restore e round k =
     do { (current_break, k) \<leftarrow> sbrk (te_hw e) 0 k;
          (r, k) \<leftarrow> brk (te_hw e) (current_break - 4096) k;
          if r \<noteq> 0 then u_report ''brk shrink failed at round %d\<newline>'' [Word (of_nat round)] 5 k
          else do {
            (r, k) \<leftarrow> brk (te_hw e) current_break k;
            if r \<noteq> 0 then u_report ''brk restore failed at round %d\<newline>'' [Word (of_nat round)] 6 k
            else Some (0, k) } }"

definition heap_progress :: "test_env \<Rightarrow> nat \<Rightarrow> u32 \<Rightarrow> kernel \<Rightarrow> kernel option" where
  "heap_progress e round sz k =
     (if round mod 8 = 0
      then do { (top, k) \<leftarrow> sbrk (te_hw e) 0 k;
                u_printf ''[stability-test] heap round %d ok (%zu bytes, top=%p)\<newline>'' [Word (of_nat round), Word sz, Word top] k }
      else Some k)"

fun heap_rounds :: "test_env \<Rightarrow> nat \<Rightarrow> nat \<Rightarrow> tracked \<Rightarrow> kernel \<Rightarrow> (int \<times> kernel) option" where
  "heap_rounds e round 0 bs k = Some (0, k)"
| "heap_rounds e round (Suc n) bs k =
     do { let sz = (64 + ((of_nat round * 97) AND 0x7FF) :: u32);
          let seed = pattern_for_round round sz;
          (mem, k) \<leftarrow> allocate_region e sz k;
          if mem = 0 then u_report ''sbrk failed at round %d (size=%zu)\<newline>'' [Word (of_nat round), Word sz] 2 k
          else do {
            k \<leftarrow> fill_pattern mem 0 (unat sz) seed k;
            ok \<leftarrow> check_pattern mem 0 (unat sz) seed k;
            if ok = 0 then u_report ''memory corruption detected at round %d\<newline>'' [Word (of_nat round)] 3 k
            else do {
              let bs = bs[round mod 24 := (mem, sz, seed)];
              bad \<leftarrow> check_tracked 0 bs k;
              case bad of
                Some i \<Rightarrow> u_report ''stale heap block corrupted at slot %d after round %d\<newline>'' [Word (of_nat i), Word (of_nat round)] 4 k
              | None \<Rightarrow>
                  do { (r, k) \<leftarrow> (if round mod 16 = 0 \<and> round > 0 then shrink_restore e round k else Some (0, k));
                       if r \<noteq> 0 then Some (r, k)
                       else do { k \<leftarrow> heap_progress e round sz k; heap_rounds e (Suc round) n bs k } } } } }"

definition run_heap_test :: "test_env \<Rightarrow> kernel \<Rightarrow> (int \<times> kernel) option" where
  "run_heap_test e k =
     do { (base_break, k) \<leftarrow> sbrk (te_hw e) 0 k;
          if base_break = -1 then u_report ''sbrk(0) failed\<newline>'' [] 1 k
          else do {
            (r, k) \<leftarrow> heap_rounds e 0 96 (replicate 24 (0, 0, 0)) k;
            if r \<noteq> 0 then Some (r, k)
            else do {
              (top, k) \<leftarrow> sbrk (te_hw e) 0 k;
              if top \<le> base_break then u_report ''heap did not grow as expected\<newline>'' [] 7 k
              else Some (0, k) } } }"


section \<open>The file tests\<close>

text \<open>\<open>printf\<close> of a message with the path in it.\<close>

definition path_failed :: "string \<Rightarrow> addr \<Rightarrow> int \<Rightarrow> kernel \<Rightarrow> (int \<times> kernel) option" where
  "path_failed msg a code k = do { s \<leftarrow> u_str a k; u_report msg [s] code k }"

text \<open>The part of a round that writes the file.\<close>

definition file_write :: "test_env \<Rightarrow> nat \<Rightarrow> kernel \<Rightarrow> (int \<times> kernel) option" where
  "file_write e idx k =
     do { (_, k) \<leftarrow> u_sprintf (te_path e) 64 ''/stability_test_%02d.log'' [Word (of_nat idx)] k;
          (fd, k) \<leftarrow> open_file (te_hw e) (te_path e) (O_CREAT OR O_WRONLY OR O_TRUNC) (Some 0x1A4) k;
          if sint fd < 0 then path_failed ''failed to create %s\<newline>'' (te_path e) 10 k
          else do {
            len \<leftarrow> u_strlen (te_file_text e) k;
            (n, k) \<leftarrow> fd_write (te_hw e) fd (te_file_text e) (of_nat len) k;
            (_, k) \<leftarrow> close (te_hw e) fd k;
            if n \<noteq> of_nat len then path_failed ''failed to write %s\<newline>'' (te_path e) 11 k
            else Some (0, k) } }"

text \<open>The part that reads it back and compares.\<close>

definition file_read :: "test_env \<Rightarrow> kernel \<Rightarrow> (int \<times> kernel) option" where
  "file_read e k =
     do { (fd2, k) \<leftarrow> open_file (te_hw e) (te_path e) O_RDONLY (Some 0) k;
          if sint fd2 < 0 then path_failed ''failed to reopen %s\<newline>'' (te_path e) 12 k
          else do {
            k \<leftarrow> u_memset (te_buffer e) 256 0 k;
            len \<leftarrow> u_strlen (te_file_text e) k;
            (read_count, k) \<leftarrow> read (te_hw e) fd2 (te_buffer e) (of_nat len) k;
            (_, k) \<leftarrow> close (te_hw e) fd2 k;
            if read_count \<noteq> of_nat len then path_failed ''failed to read %s after write\<newline>'' (te_path e) 13 k
            else do {
              k \<leftarrow> u_write (te_buffer e + read_count) [0] k;
              r \<leftarrow> u_strcmp (te_buffer e) (te_file_text e) k;
              if r \<noteq> 0 then path_failed ''corrupted content for %s\<newline>'' (te_path e) 14 k
              else Some (0, k) } } }"

text \<open>The part that checks the size and removes the file; \<open>st_size\<close> is the field at offset 32.\<close>

definition file_remove :: "test_env \<Rightarrow> nat \<Rightarrow> kernel \<Rightarrow> (int \<times> kernel) option" where
  "file_remove e idx k =
     do { (r, k) \<leftarrow> stat (te_hw e) (te_path e) (te_stat e) k;
          if r \<noteq> 0 then path_failed ''stat failed for %s\<newline>'' (te_path e) 15 k
          else do {
            st_size \<leftarrow> u_read (te_stat e + 32) 8 k;
            len \<leftarrow> u_strlen (te_file_text e) k;
            if st_size \<noteq> bytes64 (of_nat len) then path_failed ''stat size mismatch for %s\<newline>'' (te_path e) 16 k
            else do {
              (r, k) \<leftarrow> unlink (te_hw e) (te_path e) k;
              if r \<noteq> 0 then path_failed ''failed to unlink %s\<newline>'' (te_path e) 17 k
              else do {
                k \<leftarrow> (if idx mod 4 = 0
                     then do { s \<leftarrow> u_str (te_path e) k;
                               u_printf ''[stability-test] file round %d ok (%s)\<newline>'' [Word (of_nat idx), s] k }
                     else Some k);
                Some (0, k) } } } }"

fun file_rounds :: "test_env \<Rightarrow> nat \<Rightarrow> nat \<Rightarrow> kernel \<Rightarrow> (int \<times> kernel) option" where
  "file_rounds e idx 0 k = Some (0, k)"
| "file_rounds e idx (Suc n) k =
     do { (r, k) \<leftarrow> file_write e idx k;
          if r \<noteq> 0 then Some (r, k) else do {
          (r, k) \<leftarrow> file_read e k;
          if r \<noteq> 0 then Some (r, k) else do {
          (r, k) \<leftarrow> file_remove e idx k;
          if r \<noteq> 0 then Some (r, k) else file_rounds e (Suc idx) n k } } }"

definition run_filesystem_test :: "test_env \<Rightarrow> kernel \<Rightarrow> (int \<times> kernel) option" where
  "run_filesystem_test e k = file_rounds e 0 16 k"

section \<open>The append test\<close>

text \<open>The two parts that write; the three numbers are the results for a failing call of \<open>open\<close>, \<open>write\<close> and \<open>close\<close>.\<close>

definition append_write ::
  "test_env \<Rightarrow> u32 \<Rightarrow> addr \<Rightarrow> (string \<times> string \<times> string) \<Rightarrow> int \<Rightarrow> kernel \<Rightarrow> (int \<times> kernel) option" where
  "append_write e flags txt msgs code k =
     do { (fd, k) \<leftarrow> open_file (te_hw e) (te_append_path e) flags (Some 0x1A4) k;
          if sint fd < 0 then u_report (fst msgs) [] code k
          else do {
            len \<leftarrow> u_strlen txt k;
            (n, k) \<leftarrow> fd_write (te_hw e) fd txt (of_nat len) k;
            if n \<noteq> of_nat len
            then do { (_, k) \<leftarrow> close (te_hw e) fd k; u_report (fst (snd msgs)) [] (code + 1) k }
            else do {
              (r, k) \<leftarrow> close (te_hw e) fd k;
              if r \<noteq> 0 then u_report (snd (snd msgs)) [] (code + 2) k else Some (0, k) } } }"

text \<open>The condition on the content, as the result of the comparison that decides it.\<close>

definition append_compare :: "test_env \<Rightarrow> kernel \<Rightarrow> int option" where
  "append_compare e k =
     do { r \<leftarrow> u_strcmp (te_buffer e) (te_first_text e) k;
          if r \<noteq> 0 then Some r
          else do { len \<leftarrow> u_strlen (te_first_text e) k; u_strcmp (te_buffer e + of_nat len) (te_second_text e) k } }"

definition append_finish :: "test_env \<Rightarrow> u32 \<Rightarrow> kernel \<Rightarrow> (int \<times> kernel) option" where
  "append_finish e n k =
     do { k \<leftarrow> u_write (te_buffer e + n) [0] k;
          r \<leftarrow> append_compare e k;
          if r \<noteq> 0 then u_report ''append file content mismatch\<newline>'' [] 58 k
          else do {
            (r, k) \<leftarrow> unlink (te_hw e) (te_append_path e) k;
            if r \<noteq> 0 then u_report ''failed to unlink append file\<newline>'' [] 59 k
            else u_report ''append semantics passed\<newline>'' [] 0 k } }"

definition append_check :: "test_env \<Rightarrow> nat \<Rightarrow> kernel \<Rightarrow> (int \<times> kernel) option" where
  "append_check e expected_size k =
     do { (fd, k) \<leftarrow> open_file (te_hw e) (te_append_path e) O_RDONLY (Some 0) k;
          if sint fd < 0 then u_report ''failed to read appended file\<newline>'' [] 56 k
          else do {
            k \<leftarrow> u_memset (te_buffer e) 128 0 k;
            (count, k) \<leftarrow> read (te_hw e) fd (te_buffer e) 127 k;
            (_, k) \<leftarrow> close (te_hw e) fd k;
            if count \<noteq> of_nat expected_size
            then u_report ''read size mismatch for append file: %zd expected %zd\<newline>'' [Word count, Word (of_nat expected_size)] 57 k
            else append_finish e count k } }"

definition run_append_test :: "test_env \<Rightarrow> kernel \<Rightarrow> (int \<times> kernel) option" where
  "run_append_test e k =
     do { n1 \<leftarrow> u_strlen (te_first_text e) k;
          n2 \<leftarrow> u_strlen (te_second_text e) k;
          (r, k) \<leftarrow> append_write e (O_CREAT OR O_WRONLY OR O_TRUNC) (te_first_text e)
                     (''failed to create append file\<newline>'', ''failed to write initial append payload\<newline>'', ''failed to close append file\<newline>'') 50 k;
          if r \<noteq> 0 then Some (r, k) else do {
          (r, k) \<leftarrow> append_write e (O_WRONLY OR O_APPEND) (te_second_text e)
                     (''failed to reopen append file\<newline>'', ''failed to append payload\<newline>'', ''failed to close appended file\<newline>'') 53 k;
          if r \<noteq> 0 then Some (r, k) else append_check e (n1 + n2) k } }"

section \<open>The other tests\<close>

fun open_all :: "test_env \<Rightarrow> nat \<Rightarrow> nat \<Rightarrow> u32 list \<Rightarrow> kernel \<Rightarrow> (int \<times> u32 list \<times> kernel) option" where
  "open_all e idx 0 fds k = Some (0, fds, k)"
| "open_all e idx (Suc n) fds k =
     do { (_, k) \<leftarrow> u_sprintf (te_path e) 64 ''/fd_stress_%02d.tmp'' [Word (of_nat idx)] k;
          (fd, k) \<leftarrow> open_file (te_hw e) (te_path e) (O_CREAT OR O_RDWR OR O_TRUNC) (Some 0x1A4) k;
          let fds = fds @ [fd];
          if sint fd < 0
          then do { (r, k) \<leftarrow> u_report ''failed to open descriptor %d\<newline>'' [Word (of_nat idx)] 20 k; Some (r, fds, k) }
          else do {
            (len, k) \<leftarrow> u_sprintf (te_payload e) 64 ''fd stress %02d\<newline>'' [Word (of_nat idx)] k;
            (n1, k) \<leftarrow> fd_write (te_hw e) fd (te_payload e) (of_int len) k;
            if n1 \<noteq> of_int len
            then do { (r, k) \<leftarrow> u_report ''failed to write descriptor %d\<newline>'' [Word (of_nat idx)] 21 k; Some (r, fds, k) }
            else open_all e (Suc idx) n fds k } }"

fun close_all :: "test_env \<Rightarrow> nat \<Rightarrow> u32 list \<Rightarrow> kernel \<Rightarrow> (int \<times> kernel) option" where
  "close_all e idx [] k = Some (0, k)"
| "close_all e idx (fd # fds) k =
     do { (r, k) \<leftarrow> close (te_hw e) fd k;
          if r \<noteq> 0 then u_report ''failed to close descriptor %d\<newline>'' [Word (of_nat idx)] 22 k
          else close_all e (Suc idx) fds k }"

fun reopen_all :: "test_env \<Rightarrow> nat \<Rightarrow> nat \<Rightarrow> kernel \<Rightarrow> (int \<times> kernel) option" where
  "reopen_all e idx 0 k = Some (0, k)"
| "reopen_all e idx (Suc n) k =
     do { (_, k) \<leftarrow> u_sprintf (te_path e) 64 ''/fd_stress_%02d.tmp'' [Word (of_nat idx)] k;
          (fd, k) \<leftarrow> open_file (te_hw e) (te_path e) O_RDONLY (Some 0) k;
          if sint fd < 0 then path_failed ''failed to reopen %s\<newline>'' (te_path e) 23 k
          else do {
            k \<leftarrow> u_memset (te_payload e) 64 0 k;
            (read_count, k) \<leftarrow> read (te_hw e) fd (te_payload e) 63 k;
            (_, k) \<leftarrow> close (te_hw e) fd k;
            if sint read_count \<le> 0 then path_failed ''failed to read reopened %s\<newline>'' (te_path e) 24 k
            else do {
              p \<leftarrow> virt_string (pr_paging (k_proc k)) (te_payload e);
              found \<leftarrow> strstr p (clit ''fd stress'');
              if found = None then path_failed ''invalid content in %s\<newline>'' (te_path e) 25 k
              else do {
                (r, k) \<leftarrow> unlink (te_hw e) (te_path e) k;
                if r \<noteq> 0 then path_failed ''failed to unlink %s\<newline>'' (te_path e) 26 k
                else reopen_all e (Suc idx) n k } } } }"

definition run_descriptor_test :: "test_env \<Rightarrow> kernel \<Rightarrow> (int \<times> kernel) option" where
  "run_descriptor_test e k =
     do { (r, fds, k) \<leftarrow> open_all e 0 16 [] k;
          if r \<noteq> 0 then Some (r, k) else do {
          (r, k) \<leftarrow> close_all e 0 fds k;
          if r \<noteq> 0 then Some (r, k) else do {
          (r, k) \<leftarrow> reopen_all e 0 16 k;
          if r \<noteq> 0 then Some (r, k)
          else u_report ''descriptor stress passed (%d fds)\<newline>'' [Word 16] 0 k } } }"

text \<open>\<open>struct dirent\<close> has 276 bytes.\<close>

definition run_directory_test :: "test_env \<Rightarrow> kernel \<Rightarrow> (int \<times> kernel) option" where
  "run_directory_test e k =
     do { (fd, k) \<leftarrow> open_file (te_hw e) (te_root_path e) O_RDONLY (Some 0) k;
          if sint fd < 0 then u_report ''failed to open root directory\<newline>'' [] 30 k
          else do {
            (count, k) \<leftarrow> getdents (te_hw e) fd (te_entries e) (32 * 276) k;
            (_, k) \<leftarrow> close (te_hw e) fd k;
            if sint count \<le> 0 then u_report ''getdents returned %zd\<newline>'' [Word count] 31 k
            else u_report ''directory listing returned %zd bytes\<newline>'' [Word count] 0 k } }"

text \<open>The fields of a \<open>struct timespec\<close>: a 64-bit and a 32-bit signed number.\<close>

definition word_of_bytes :: "byte list \<Rightarrow> 'a :: len word" where
  "word_of_bytes bs = foldr (\<lambda>b w. push_bit 8 w OR ucast b) bs 0"

definition read_timespec :: "addr \<Rightarrow> kernel \<Rightarrow> (u64 \<times> u32) option" where
  "read_timespec a k =
     do { s \<leftarrow> u_read a 8 k; n \<leftarrow> u_read (a + 8) 4 k; Some (word_of_bytes s, word_of_bytes n) }"

definition run_time_test :: "test_env \<Rightarrow> kernel \<Rightarrow> (int \<times> kernel) option" where
  "run_time_test e k =
     do { (r, k) \<leftarrow> syscall (te_hw e) SYS_clock_gettime 0 (te_first e) 0 k;
          if r \<noteq> 0 then u_report ''initial clock_gettime failed\<newline>'' [] 40 k
          else do {
            (r, k) \<leftarrow> syscall (te_hw e) SYS_clock_gettime 0 (te_second e) 0 k;
            if r \<noteq> 0 then u_report ''second clock_gettime failed\<newline>'' [] 41 k
            else do {
              (s1, n1) \<leftarrow> read_timespec (te_first e) k;
              (s2, n2) \<leftarrow> read_timespec (te_second e) k;
              if sint s2 < sint s1 \<or> (s2 = s1 \<and> sint n2 < sint n1)
              then u_report ''clock time moved backwards\<newline>'' [] 42 k
              else u_report ''clock time is monotonic: %ld.%09ld -> %ld.%09ld\<newline>''
                     [Word (ucast s1), Word n1, Word (ucast s2), Word n2] 0 k } } }"

text \<open>The tests in order; the first result that is not 0 is returned.\<close>

fun run_tests :: "(kernel \<Rightarrow> (int \<times> kernel) option) list \<Rightarrow> kernel \<Rightarrow> (int \<times> kernel) option" where
  "run_tests [] k = u_report ''all checks passed\<newline>'' [] 0 k"
| "run_tests (t # ts) k = do { (r, k) \<leftarrow> t k; if r \<noteq> 0 then Some (r, k) else run_tests ts k }"

definition stability_main :: "test_env \<Rightarrow> kernel \<Rightarrow> (int \<times> kernel) option" where
  "stability_main e k =
     do { k \<leftarrow> u_printf ''[stability-test] starting combined user-mode stress checks\<newline>'' [] k;
          run_tests [run_heap_test e, run_filesystem_test e, run_append_test e, run_descriptor_test e, run_directory_test e,
            run_time_test e] k }"


section \<open>Properties of the stress test\<close>

text \<open>The string of an object ends where its length says.\<close>

lemma virt_string_end:
  "virt_string g v = Some bs \<Longrightarrow> terminated bs \<Longrightarrow> virt_string g (v + of_nat (length (cstr bs))) = Some [0]"
proof (induction bs arbitrary: v)
  case Nil
  then show ?case by (simp add: terminated_def)
next
  case (Cons b bs)
  show ?case
  proof (cases "b = 0")
    case True
    then have "bs = []" using Cons.prems(1)
      by (subst (asm) virt_string.simps) (auto simp: Let_def bind_eq_Some_conv split: if_splits)
    then show ?thesis using True Cons.prems(1) by (simp add: cstr_def)
  next
    case False
    then have "virt_string g (v + 1) = Some bs" using Cons.prems(1)
      by (subst (asm) virt_string.simps) (auto simp: Let_def bind_eq_Some_conv split: if_splits)
    from Cons.IH [OF this] show ?thesis using False Cons.prems(2) by (simp add: cstr_def terminated_def add.assoc)
  qed
qed

lemma strcmp_zeroD: "strcmp s t = Some 0 \<Longrightarrow> terminated s \<and> terminated t \<and> cstr s = cstr t"
proof (induction s t rule: strcmp.induct)
  case (1 a s1 b s2)
  have "a = b" if "sint a = sint b" using that by (rule signed_word_eqI)
  then show ?case using 1 by (cases "a = b") (auto simp: terminated_def cstr_def split: if_splits)
qed simp_all

lemma append_compare_fails:
  assumes "append_compare e k = Some r" "u_strlen (te_second_text e) k = Some (Suc n)"
  shows "r \<noteq> 0"
proof
  assume "r = 0"
  let ?g = "pr_paging (k_proc k)"
  obtain b f len where b: "virt_string ?g (te_buffer e) = Some b" and f: "virt_string ?g (te_first_text e) = Some f"
    "strcmp b f = Some 0" "strlen f = Some len"
    and s: "u_strcmp (te_buffer e + of_nat len) (te_second_text e) k = Some 0"
    using assms(1) \<open>r = 0\<close>
    by (auto simp: append_compare_def u_strcmp_def u_strlen_def bind_eq_Some_conv split: if_splits)
  have "len = length (cstr b)" using strcmp_zeroD [OF f(2)] f(3) by (simp add: strlen_eq)
  then have "virt_string ?g (te_buffer e + of_nat len) = Some [0]" using virt_string_end [OF b] strcmp_zeroD [OF f(2)] by simp
  then obtain t where t: "virt_string ?g (te_second_text e) = Some t" "strcmp [0] t = Some 0"
    using s by (auto simp: u_strcmp_def bind_eq_Some_conv)
  from strcmp_zeroD [OF t(2)] have "strlen t = Some 0" by (simp add: strlen_eq cstr_def)
  then show False using assms(2) t(1) by (simp add: u_strlen_def)
qed


lemma update_node_memory: "update_node i f s = Some s' \<Longrightarrow> fs_mem s' = fs_mem s \<and> fs_pmm s' = fs_pmm s"
  by (auto simp: update_node_def bind_eq_Some_conv split: if_splits)

lemma k_unlink_memory: "k_unlink p s = Some (r, s') \<Longrightarrow> fs_mem s' = fs_mem s \<and> fs_pmm s' = fs_pmm s"
  by (auto simp: k_unlink_def bind_eq_Some_conv dest!: update_node_memory split: if_splits option.splits)

lemma unlink_proc: "unlink hw a k = Some (r, k') \<Longrightarrow> k_proc k' = k_proc k"
  by (auto simp: syscall_cases sys_unlink_def sys_fs_def with_fs_def put_fs_def fs_view_def Let_def bind_eq_Some_conv
      on_paging_def dest!: k_unlink_memory)

lemma u_report_proc: "u_report m as c k = Some (r, k') \<Longrightarrow> k_proc k' = k_proc k \<and> r = c"
  by (auto simp: u_report_def u_printf_def bind_eq_Some_conv)

lemma u_strlen_proc: "k_proc k' = k_proc k \<Longrightarrow> u_strlen a k' = u_strlen a k"
  by (simp add: u_strlen_def)

lemma append_finish_fails:
  assumes "append_finish e c k = Some (r, k')" "u_strlen (te_second_text e) k' = Some (Suc m)"
  shows "r \<noteq> 0"
proof
  assume "r = 0"
  then obtain k1 r1 k2 where "append_compare e k1 = Some 0" "unlink (te_hw e) (te_append_path e) k1 = Some (r1, k2)"
    "u_report ''append semantics passed\<newline>'' [] 0 k2 = Some (r, k')"
    using assms(1) by (auto simp: append_finish_def bind_eq_Some_conv dest: u_report_proc split: if_splits)
  note c = this
  have "k_proc k' = k_proc k1" using unlink_proc [OF c(2)] u_report_proc [OF c(3)] by simp
  then have "u_strlen (te_second_text e) k1 = Some (Suc m)" using u_strlen_proc [of k' k1] assms(2) by simp
  from append_compare_fails [OF c(1) this] show False by simp
qed

lemma append_check_fails:
  assumes "append_check e n k = Some (r, k')" "u_strlen (te_second_text e) k' = Some (Suc m)"
  shows "r \<noteq> 0"
proof -
  consider c k1 where "append_finish e c k1 = Some (r, k')" | "r \<noteq> 0"
    using assms(1) by (auto simp: append_check_def bind_eq_Some_conv dest: u_report_proc split: if_splits)
  then show ?thesis using append_finish_fails assms(2) by cases blast+
qed

text \<open>
  C39: the append test of the stress program cannot pass: it compares the whole file with the first line, and if that succeeds
  the rest that it compares with the second line is empty. Whenever the test returns, with the second line still in
  memory, it returns an error code.
\<close>

theorem append_test_fails:
  assumes "run_append_test e k = Some (r, k')" "u_strlen (te_second_text e) k' = Some (Suc m)"
  shows "r \<noteq> 0"
proof -
  consider "r \<noteq> 0" | n k1 where "append_check e n k1 = Some (r, k')"
    using assms(1) by (auto simp: run_append_test_def bind_eq_Some_conv split: if_splits)
  then show ?thesis using append_check_fails assms(2) by cases blast+
qed


section \<open>What the small programs print\<close>

definition u_prints :: "(kernel \<Rightarrow> kernel option) \<Rightarrow> byte list \<Rightarrow> bool" where
  "u_prints f t \<longleftrightarrow> (\<forall>k. term_ok (k_term k) \<longrightarrow>
     (\<exists>tm. f k = Some (k\<lparr>k_term := tm\<rparr>) \<and> console_write t (k_term k) = Some tm \<and> term_ok tm))"

lemma u_prints_then:
  assumes "u_prints f s" "u_prints g t"
  shows "u_prints (\<lambda>k. do { k \<leftarrow> f k; g k }) (s @ t)"
  unfolding u_prints_def
proof (intro allI impI)
  fix k :: kernel
  assume "term_ok (k_term k)"
  then obtain t1 where t1: "f k = Some (k\<lparr>k_term := t1\<rparr>)" "console_write s (k_term k) = Some t1" "term_ok t1"
    using assms(1) unfolding u_prints_def by blast
  then obtain t2 where "g (k\<lparr>k_term := t1\<rparr>) = Some (k\<lparr>k_term := t2\<rparr>)" "console_write t t1 = Some t2" "term_ok t2"
    using assms(2) [unfolded u_prints_def, rule_format, of "k\<lparr>k_term := t1\<rparr>"] by auto
  then show "\<exists>tm. do { k \<leftarrow> f k; g k } = Some (k\<lparr>k_term := tm\<rparr>) \<and> console_write (s @ t) (k_term k) = Some tm \<and> term_ok tm"
    using t1 console_then by auto
qed

lemma u_prints_some: "u_prints f t \<Longrightarrow> term_ok (k_term k) \<Longrightarrow> \<exists>tm. f k = Some (k\<lparr>k_term := tm\<rparr>)"
  unfolding u_prints_def by blast

lemma u_prints_nothing: "u_prints Some []"
  by (simp add: u_prints_def)

lemma u_prints_pieces:
  assumes ps: "list_all piece_ok ps" "length (text_of ps) \<le> 2048" and f: "f = format_of ps" "args = args_of ps"
  shows "u_prints (u_printf f args) (text_of ps)"
  unfolding u_prints_def
proof (intro allI impI)
  fix k :: kernel
  assume t: "term_ok (k_term k)"
  obtain fp where fp: "vfprintf_loop no_float (clit f) args stdout_stream = Some fp" "stream_text fp = text_of ps"
    using vfprintf_loop_text [of "clit f" args "text_of ps" stdout_stream no_float] pieces_sprintf [OF ps(1), of "[]"]
      pieces_conversions [OF ps(1)] ps(2) f by (auto simp: stream_text_def stdout_stream_def)
  then have "printf no_float (clit f) args stdout_stream = Some (0, flush fp)" by (simp add: printf_def vfprintf_def flush_def)
  moreover have "concat (map snd (f_writes (flush fp))) = text_of ps"
    using fp(2) flush_text(1,3) [of fp] by (simp add: stream_text_def)
  moreover obtain tm where "console_write (text_of ps) (k_term k) = Some tm" "term_ok tm"
    using console_ok [OF t, of "text_of ps"] by auto
  ultimately show "\<exists>tm. u_printf f args k = Some (k\<lparr>k_term := tm\<rparr>)
      \<and> console_write (text_of ps) (k_term k) = Some tm \<and> term_ok tm"
    by (simp add: u_printf_def)
qed


text \<open>The words joined by single spaces.\<close>

fun joined :: "byte list list \<Rightarrow> byte list" where
  "joined [] = []"
| "joined [a] = cstr a"
| "joined (a # as) = cstr a @ lit '' '' @ joined as"

definition arg_ok :: "byte list \<Rightarrow> bool" where
  "arg_ok a \<longleftrightarrow> terminated a \<and> length (cstr a) \<le> 2000"

lemma prints_arg: "arg_ok a \<Longrightarrow> u_prints (u_printf ''%s'' [Str a]) (cstr a)"
  using u_prints_pieces [of "[Strg a]" "''%s''" "[Str a]"] by (simp add: arg_ok_def)

lemma prints_text:
  "plain_chars s \<Longrightarrow> length s \<le> 2048 \<Longrightarrow> u_prints (u_printf s []) (lit s)"
  using u_prints_pieces [of "[Txt s]" s "[]"] by (simp add: lit_def)

lemma echo_args_prints: "list_all arg_ok as \<Longrightarrow> u_prints (echo_args as) (joined as)"
proof (induction as rule: joined.induct)
  case 1
  then show ?case using u_prints_nothing by (simp add: u_prints_def)
next
  case (2 a)
  then show ?case using prints_arg [of a] by (simp add: u_prints_def)
next
  case (3 a b as)
  have "u_prints (\<lambda>k. do { k \<leftarrow> u_printf ''%s'' [Str a] k; k \<leftarrow> u_printf '' '' [] k; echo_args (b # as) k })
      (cstr a @ lit '' '' @ joined (b # as))"
    using 3 by (intro u_prints_then prints_arg prints_text) (simp_all add: plain_chars_def)
  then show ?case
    by (simp add: u_prints_def echo_args.simps(2) [of a "b # as"] del: echo_args.simps)
qed

lemma u_prints_main:
  assumes "u_prints f t" "term_ok (k_term k)"
  shows "\<exists>tm. do { k \<leftarrow> f k; Some (0 :: int, k) } = Some (0, k\<lparr>k_term := tm\<rparr>) \<and> console_write t (k_term k) = Some tm \<and> term_ok tm"
  using assms unfolding u_prints_def by fastforce

text \<open>
  \<open>echo\<close> prints its arguments, all but the name it was called by, separated by single spaces and followed by a newline, and
  returns 0; nothing but the screen changes.
\<close>

theorem echo_prints:
  assumes "list_all arg_ok (tl argv)" "term_ok (k_term k)"
  shows "\<exists>t. echo_main argv k = Some (0, k\<lparr>k_term := t\<rparr>) \<and> console_write (joined (tl argv) @ lit [CHR 0x0A]) (k_term k) = Some t"
proof -
  have nl: "u_prints (u_printf [CHR 0x0A] []) (lit [CHR 0x0A])" by (rule prints_text) (simp_all add: plain_chars_def)
  show ?thesis
  proof (cases "length argv < 2")
    case True
    then have "tl argv = []" by (cases argv) auto
    then show ?thesis using u_prints_main [OF nl assms(2)] True by (auto simp: echo_main_def)
  next
    case False
    then show ?thesis using u_prints_main [OF u_prints_then [OF echo_args_prints [OF assms(1)] nl] assms(2)]
      by (auto simp: echo_main_def)
  qed
qed


theorem echo_prints_witness:
  "\<exists>t. echo_main [clit ''echo'', clit ''a'', clit ''b''] demo_kernel = Some (0, demo_kernel\<lparr>k_term := t\<rparr>)
     \<and> console_write (lit ''a b'' @ lit [CHR 0x0A]) (k_term demo_kernel) = Some t"
  using echo_prints [of "[clit ''echo'', clit ''a'', clit ''b'']" demo_kernel] k_invD [OF demo_inv]
  by (simp add: arg_ok_def)

definition demo_test :: test_env where
  "demo_test =
     \<lparr>te_hw = (\<lambda>_ _. 0), te_path = 0, te_buffer = 0x3000, te_payload = 0, te_stat = 0, te_entries = 0, te_first = 0, te_second = 0,
      te_file_text = 0, te_append_path = 0, te_first_text = 0x3000, te_second_text = 0x3002, te_root_path = 0\<rparr>"

text \<open>On the example state the file cannot be created, since the path is the null pointer.\<close>

theorem append_test_fails_witness:
  "\<exists>r k'. run_append_test demo_test demo_kernel = Some (r, k') \<and> r \<noteq> 0"
proof -
  have d: "get_physical_address v demo_paging = v" if "v \<in> {0x3000, 0x3001, 0x3002, 0x3003}" for v
    using demo_pages [OF that, of "pg_mem demo_paging" "pg_pmm demo_paging"] by simp
  have m: "pg_mem demo_paging 0x3000 = of_char CHR ''h''" "pg_mem demo_paging 0x3001 = of_char CHR ''i''"
    by (simp_all add: demo_paging_def clit_def)
  have s: "virt_string demo_paging 0x3002 = Some (clit ''/'')" using demo_path by (simp add: arg_string_def demo_kernel_def)
  then have "virt_string demo_paging 0x3001 = Some (clit ''i/'')" using m by (subst virt_string.simps) (simp add: d clit_def)
  then have f: "virt_string demo_paging 0x3000 = Some (clit ''hi/'')" using m by (subst virt_string.simps) (simp add: d clit_def)
  have l: "u_strlen (te_first_text demo_test) k = Some 3" "u_strlen (te_second_text demo_test) k = Some 1"
    if "k_proc k = k_proc demo_kernel" for k
    using that s f by (simp_all add: u_strlen_def demo_test_def demo_kernel_def strlen_eq)
  let ?k = "demo_kernel\<lparr>errno := EINVAL\<rparr>"
  let ?m = "''[stability-test] '' @ ''failed to create append file\<newline>''"
  have o: "open_file hw 0 (O_CREAT OR O_WRONLY OR O_TRUNC) (Some 0x1A4) demo_kernel = Some (-1, ?k)" for hw
    by (simp add: open_file_def syscall_def syscall_handler_def sys_return_def sys_open_def arg_string_def no_path_def sys_fail_def)
  have p: "u_prints (u_printf ?m []) (lit ?m)" by (rule prints_text) (simp_all add: plain_chars_def)
  have "term_ok (k_term ?k)" using k_invD(4) [OF demo_inv] by simp
  from u_prints_some [OF p this] obtain t where t: "u_printf ?m [] ?k = Some (?k\<lparr>k_term := t\<rparr>)" by blast
  have run: "run_append_test demo_test demo_kernel = Some (50, ?k\<lparr>k_term := t\<rparr>)"
    using o [of "te_hw demo_test"] t l [OF refl]
    by (simp add: run_append_test_def append_write_def) (simp add: u_report_def demo_test_def)
  show ?thesis using run append_test_fails [OF run, of 0] l [of "?k\<lparr>k_term := t\<rparr>"] by simp
qed


text \<open>
  The names of the test files do not depend on the number of the round: \<open>%02d\<close> is the unknown directive \<open>%0\<close> followed by
  \<open>2d\<close>, so all the files of the descriptor test are one file.
\<close>

theorem stress_name_fixed:
  "u_sprintf a n ''/fd_stress_%02d.tmp'' [Word i] k = u_sprintf a n ''/fd_stress_%02d.tmp'' [Word j] k"
proof -
  have "sprintf_text (clit ''/fd_stress_%02d.tmp'') [Word w] = Some (lit ''/fd_stress_2d.tmp'')" for w
    using pieces_sprintf [of "[Txt ''/fd_stress_'', Unknown CHR ''0'', Txt ''2d.tmp'']" "[Word w]"]
    by (simp add: plain_chars_def lit_def)
  then show ?thesis by (simp add: u_sprintf_def sprintf_def vsprintf_def)
qed

end
