(* ===== verification/Spec2Isabelle.thy ===== *)
theory Spec2Isabelle
  imports Kheap FileCache Vfs Elf Time Keyboard Syscall Stdio Interrupts Unistd Calc World Shell Commands Nano Vi Boot Snake Gcc Settings SysInfo Help Userprogs
begin

text \<open>
  Verification of MYUNIXLIKEOS, a Unix-like kernel for IA-32 with its shell, commands and user programs, written in C. Paths
  below are relative to the directory \<^verbatim>\<open>src\<close> of the repository.

  \<^bold>\<open>The program.\<close> \<^verbatim>\<open>entry.asm\<close> calls \<open>kernel_main\<close> (\<^verbatim>\<open>kernel/kernel.c\<close>), which reads the memory map of the boot loader, sets up the
  physical page allocator, the kernel heap, paging, the descriptor tables, the keyboard and the file system, and calls
  the shell (\<^verbatim>\<open>bin/sh/sh.c\<close>). The shell and the commands under \<^verbatim>\<open>bin\<close> run in the kernel: they call the file system, the
  console and the heap directly. User programs are ELF images loaded by \<^verbatim>\<open>kernel/elf.c\<close>; they enter the kernel through
  interrupt \<open>0x80\<close>, which \<^verbatim>\<open>kernel/syscall.c\<close> handles on a table of 32 descriptors. Both sides are linked with the string,
  output and call functions of \<^verbatim>\<open>lib/libc\<close>.

  \<^bold>\<open>Conventions.\<close> Every C function is a function of the same name, with a suffix or prefix where the name is taken. Static variables and
  structures are records, passed in and returned updated; numbers keep their width as words, and a signed \<open>int\<close> whose overflow is undefined is an integer checked
  by \<open>in_range\<close>. An array is the list of its cells, a string the list of its bytes with the terminator, and an access outside
  an object, a dereferenced null pointer or a loop that is never left is \<open>None\<close>; error codes are values of the
  result. So an equation with \<open>Some\<close> states that the code returns and touches no memory outside its objects. The loops that
  may run forever (the waits for hardware, the key loops, the walk over the boot tags, the walks over linked lists
  in memory, the parser of \<open>gcc\<close>) are partial functions on \<open>option\<close>, all others are total. The only fuel is that of the three mutually
  recursive functions of the calculator: four steps for each character and three more, which the theorem on
  its termination shows to be enough. Hardware is a parameter: the values read from the clock chip, the
  keyboard controller and the speaker port; port writes are lists.

  \<^bold>\<open>Theories and what they show.\<close>

  \<^item> \<open>Prelude\<close>: machine types, array access, the locale \<open>machine\<close> of a step function that keeps an invariant, for the
    properties of call sequences.
  \<^item> \<open>Cstring\<close> (\<^verbatim>\<open>lib/libc/string\<close>): each function against lists of characters; among them that \<open>memset\<close> sets one byte and
    \<open>strcpy\<close> stores no terminator, which the models of the callers have to live with.
  \<^item> \<open>Memory\<close>: byte memory with 32-bit accesses, and the locale \<open>word_memory\<close> of their laws.
  \<^item> \<open>Pmm\<close>, \<open>Paging\<close>, \<open>Kheap\<close> (\<^verbatim>\<open>kernel/kernel.c\<close>): the bitmap allocator, interpreted in the locale \<open>page_allocator\<close>; the two-level page
    tables, which lie in the same memory, interpreted in \<open>address_space\<close>; and the heap, whose pages are lists of blocks with
    headers in memory. Well-formedness is kept by every operation and allocation is disjoint from what is live. The effect of
    \<open>map_page\<close> on the translation of every address is given, the stale entries of a new table included, and what \<open>paging_init\<close>
    sets up, in memory that is not cleared too; the case in which the heap damages itself is characterised.
  \<^item> \<open>FileCache\<close> (\<^verbatim>\<open>kernel/file_cache.c\<close>): exactly when a file just stored in the sixteen entries is found again.
  \<^item> \<open>Vfs\<close> (\<^verbatim>\<open>kernel/fs.c\<close>): the pool of nodes. The invariant holds after every sequence of calls with terminated paths and names
    that fit, installations and changes of directory included. The current directory refines an association list from names
    to nodes, and its names are interpreted in the locale \<open>directory\<close>.
  \<^item> \<open>Elf\<close> (\<^verbatim>\<open>kernel/elf.c\<close>): what an accepted image guarantees, and under which conditions the break maps its pages.
  \<^item> \<open>Time\<close> (\<^verbatim>\<open>kernel/drivers/nvram\<close>, \<^verbatim>\<open>kernel/sys/time\<close>): clock reading, calendar arithmetic and its inverse, the memory of the chip.
  \<^item> \<open>Terminal\<close>, \<open>Keyboard\<close> (\<^verbatim>\<open>kernel/drivers\<close>): the cursor stays on the screen; \<open>read_line\<close> refines an editor on lists.
  \<^item> \<open>Syscall\<close>, \<open>Unistd\<close> (\<^verbatim>\<open>kernel/syscall.c\<close>, \<^verbatim>\<open>lib/libc/unistd\<close> and \<^verbatim>\<open>fcntl\<close>): every case of the handler with its pointers read and written
    through the page tables. Sequences of valid calls return and keep the invariant \<open>k_inv\<close> of the kernel, which bounds the size of a
    file by its content; round trips of open and close, write and read.
  \<^item> \<open>Stdio\<close> (\<^verbatim>\<open>lib/libc/stdio\<close>): \<open>sprintf\<close> and \<open>printf\<close>, and that they agree; \<open>Messages\<close>: what \<open>printf\<close> shows for a format cut into
    pieces, used by all commands that print.
  \<^item> \<open>Interrupts\<close> (\<^verbatim>\<open>kernel/gdt.c\<close>, \<^verbatim>\<open>kernel/idt.c\<close>): descriptor tables, interrupt controller and fault screen.
  \<^item> \<open>Calc\<close> (\<^verbatim>\<open>bin/calc\<close>): evaluation of the texts of expressions, with any blanks and redundant parentheses; it ends on every text.
  \<^item> \<open>World\<close>: the state the commands share; \<open>Shell\<close> (\<^verbatim>\<open>bin/sh/sh.c\<close>): line editor, splitting, expansion, aliases and environment, both
    tables in the locale \<open>name_table\<close>.
  \<^item> \<open>Commands\<close>: the text and file commands; the passes of \<open>sort\<close> are proved for an order given by the locale \<open>comparison\<close>, and what
    the command prints depends on the array of the swap, which is not initialised.
  \<^item> \<open>Nano\<close>, \<open>Vi\<close>, \<open>Snake\<close> (\<^verbatim>\<open>bin/nano\<close>, \<^verbatim>\<open>bin/vi\<close>, \<^verbatim>\<open>bin/snake\<close>): a session of an editor stores the document that a specification of the key
    strokes gives; the snake of a game is a chain of cells, and the screen shows it.
  \<^item> \<open>Boot\<close> (\<^verbatim>\<open>kernel/kernel.c\<close>, \<^verbatim>\<open>bin/dmesg\<close>): \<open>kernel_main\<close> composed of the components reaches the shell with the invariant of the
    system calls established; the kernel heap is unusable after it.
  \<^item> \<open>Gcc\<close> (\<^verbatim>\<open>bin/gcc\<close>): on which sources the parser returns, that a started system has no memory for the output and that the loader of
    \<open>Elf\<close> refuses the image.
  \<^item> \<open>Settings\<close> (\<^verbatim>\<open>bin/color\<close>, \<^verbatim>\<open>bin/password\<close>): the colour attribute, and the change of the password with its verification.
  \<^item> \<open>SysInfo\<close>, \<open>Help\<close> (\<^verbatim>\<open>uname\<close>, \<^verbatim>\<open>memory\<close>, \<^verbatim>\<open>free\<close>, \<^verbatim>\<open>top\<close>, \<^verbatim>\<open>vmstat\<close>, \<^verbatim>\<open>uptime\<close>, \<^verbatim>\<open>sysinfo\<close>, \<^verbatim>\<open>date\<close>, \<^verbatim>\<open>help\<close>, \<^verbatim>\<open>man\<close>, \<^verbatim>\<open>shutdown\<close>, \<^verbatim>\<open>reboot\<close>): the text each
    command prints, as a function of the state.
  \<^item> \<open>Userprogs\<close> (\<^verbatim>\<open>bin/hello\<close>, \<^verbatim>\<open>bin/userprogs\<close>): the programs on the wrappers of \<open>Unistd\<close>; the append test of the stress program can not pass.

  \<^bold>\<open>Simplifications.\<close> Page tables are read and written at the physical address of their frame, also where the frame lies above the
  16 MiB that the kernel maps to themselves and the code would fault; for the same reason the heap writes to a page whose
  mapping failed. The bitmap of the page allocator is a field of its state and not part of the modelled memory. The state that commands
  share holds the page allocator twice, in the heap and in the file system; the start of the kernel hands it from the one to the
  other, and \<open>with_fs\<close> does so for system calls. \<open>serial_write\<close> does not wait for the line to be ready.

  \<^bold>\<open>Not modelled.\<close> The floating-point conversions of \<open>printf\<close> are a parameter of its model (floating-point numbers are outside the
  library used here), and the standard input and error streams, which no modelled code reads or writes, are
  left out. The translation cache of the processor, the assembly of \<^verbatim>\<open>entry.asm\<close>, the linker scripts and the build
  are not C; the addresses they give are parameters. \<^verbatim>\<open>kernel/ext2.h\<close> declares structures that no code uses. Time and
  interrupts do not pass while a function runs: the kernel is not preempted, and the keyboard is polled.
\<close>

end
